(* ===== verification/Prelude.thy ===== *)
theory Prelude
  imports Main "HOL-Library.Word"
begin

text \<open>
  Vocabulary shared by all components of the library: machine integers, addresses and the
  wrap-around arithmetic on them, alignment, and the ledger of live blocks that the
  memory-resource contract is stated with.

  A \<^verbatim>\<open>size_t\<close> or \<^verbatim>\<open>uintptr_t\<close> that takes part in address arithmetic is a \<^typ>\<open>nat\<close> below
  \<open>2 ^ 64\<close>, and every operation that could wrap is written with \<open>add64\<close>, \<open>sub64\<close>, \<open>mul64\<close>;
  a \<^verbatim>\<open>uint64_t\<close> that is used as a bit pattern is a \<open>64 word\<close>.
\<close>

unbundle bit_operations_syntax

section \<open>Machine integers\<close>

type_synonym u8 = "8 word"
type_synonym u16 = "16 word"
type_synonym u32 = "32 word"
type_synonym u64 = "64 word"
type_synonym addr = nat

named_theorems arith64 "equations that remove wrap-around where the operands are in range"
named_theorems ledger_simps "facts about ledgers of live blocks"

definition SIZE_MAX :: nat where
  "SIZE_MAX = 18446744073709551615"

definition add64 :: "nat \<Rightarrow> nat \<Rightarrow> nat" where
  "add64 a b = (a + b) mod 18446744073709551616"

definition sub64 :: "nat \<Rightarrow> nat \<Rightarrow> nat" where
  "sub64 a b = (a + (18446744073709551616 - b mod 18446744073709551616)) mod 18446744073709551616"

definition mul64 :: "nat \<Rightarrow> nat \<Rightarrow> nat" where
  "mul64 a b = (a * b) mod 18446744073709551616"

lemma add64_exact [arith64]: "a + b < 18446744073709551616 \<Longrightarrow> add64 a b = a + b"
  by (simp add: add64_def)

lemma add64_bound: "add64 a b < 18446744073709551616"
  by (simp add: add64_def)

lemma sub64_exact [arith64]:
  assumes "b \<le> a" and "a < 18446744073709551616"
  shows "sub64 a b = a - b"
proof -
  have "b mod 18446744073709551616 = b" using assms by simp
  then have "sub64 a b = ((a - b) + 18446744073709551616) mod 18446744073709551616"
    using assms by (simp add: sub64_def)
  also have "\<dots> = a - b" using assms by (subst mod_add_self2) simp
  finally show ?thesis .
qed

lemma sub64_bound: "sub64 a b < 18446744073709551616"
  by (simp add: sub64_def)

lemma mul64_exact [arith64]: "a * b < 18446744073709551616 \<Longrightarrow> mul64 a b = a * b"
  by (simp add: mul64_def)

lemma mul64_bound: "mul64 a b < 18446744073709551616"
  by (simp add: mul64_def)

text \<open>The bitwise operations the code applies to addresses and sizes.\<close>

definition and64 :: "nat \<Rightarrow> nat \<Rightarrow> nat" where
  "and64 a b = unat ((of_nat a :: u64) AND of_nat b)"

definition not64 :: "nat \<Rightarrow> nat" where
  "not64 a = unat (NOT (of_nat a :: u64))"

lemma and64_bound: "and64 a b < 18446744073709551616"
  using unsigned_less [of "(of_nat a :: u64) AND of_nat b", where ?'a = nat] by (simp add: and64_def)

section \<open>Powers of two and alignment\<close>

definition pow2 :: "nat \<Rightarrow> bool" where
  "pow2 a \<longleftrightarrow> (\<exists>k. a = 2 ^ k)"

text \<open>\<^verbatim>\<open>x & (a - 1)\<close> for a power of two \<^verbatim>\<open>a\<close> is the remainder modulo \<^verbatim>\<open>a\<close>.\<close>

lemma and64_mask:
  assumes "x < 18446744073709551616"
  shows "and64 x (2 ^ k - 1) = x mod 2 ^ k"
proof -
  have "(of_nat (2 ^ k - 1) :: u64) = mask k"
    by (simp add: mask_eq_exp_minus_1 of_nat_diff)
  then have "(of_nat x :: u64) AND of_nat (2 ^ k - 1) = take_bit k (of_nat x)"
    by (simp add: take_bit_eq_mask)
  then have "and64 x (2 ^ k - 1) = take_bit k (unat (of_nat x :: u64))"
    by (simp add: and64_def unsigned_take_bit_eq)
  then show ?thesis using assms by (simp add: unat_of_nat take_bit_eq_mod)
qed

text \<open>\<^verbatim>\<open>x & ~(a - 1)\<close> rounds \<^verbatim>\<open>x\<close> down to a multiple of the power of two \<^verbatim>\<open>a\<close>.\<close>

lemma and64_not_mask:
  assumes "x < 18446744073709551616" and "2 ^ k < (18446744073709551616 :: nat)"
  shows "and64 x (not64 (2 ^ k - 1)) = x - x mod 2 ^ k"
proof -
  let ?w = "of_nat x :: u64"
  have m: "(of_nat (2 ^ k - 1) :: u64) = mask k"
    by (simp add: mask_eq_exp_minus_1 of_nat_diff)
  have w: "unat ?w = x" using assms(1) by (simp add: unat_of_nat)
  have t: "unat (take_bit k ?w) = x mod 2 ^ k"
    by (simp only: unsigned_take_bit_eq w take_bit_eq_mod [where ?'a = nat])
  have "?w AND NOT (mask k) = ?w AND NOT (take_bit k ?w)"
    by (auto simp: bit_eq_iff bit_simps)
  also have "\<dots> = ?w - take_bit k ?w"
    by (subst disjunctive_diff_eq_and_not) (auto simp: bit_eq_iff bit_simps)
  finally have "unat (?w AND NOT (mask k)) = unat (?w - take_bit k ?w)" by simp
  also have "\<dots> = x - x mod 2 ^ k"
    using w t by (simp add: unat_sub word_le_nat_alt)
  finally show ?thesis using m by (simp add: and64_def not64_def)
qed

text \<open>The mathematical rounding that the code's alignment expressions compute.\<close>

definition round_up :: "nat \<Rightarrow> nat \<Rightarrow> nat" where
  "round_up x a = (x + (a - 1)) div a * a"

lemma round_up_mod: "0 < a \<Longrightarrow> round_up x a = (if x mod a = 0 then x else x + a - x mod a)"
proof -
  assume a: "0 < a"
  define q r where "q = x div a" and "r = x mod a"
  have x: "x = r + q * a" and r: "r < a" using a by (simp_all add: q_def r_def)
  show ?thesis
  proof (cases "r = 0")
    case True
    have "(x + (a - 1)) div a = ((a - 1) + q * a) div a" using x True by (simp add: add.commute)
    also have "\<dots> = q + (a - 1) div a" using a by (intro div_mult_self1) simp
    also have "\<dots> = q" using a by simp
    finally show ?thesis using x True r_def by (simp add: round_up_def)
  next
    case False
    have "x + (a - 1) = (r - 1) + (q + 1) * a" using x False a by simp
    then have "(x + (a - 1)) div a = ((r - 1) + (q + 1) * a) div a" by simp
    also have "\<dots> = (q + 1) + (r - 1) div a" using a by (intro div_mult_self1) simp
    also have "\<dots> = q + 1" using r by simp
    finally have "round_up x a = x + a - r" using x by (simp add: round_up_def)
    then show ?thesis using False r_def by simp
  qed
qed

lemma round_up_dvd [simp, intro]: "a dvd round_up x a"
  by (simp add: round_up_def)

lemma round_up_less: "0 < a \<Longrightarrow> round_up x a < x + a"
  using mod_less_divisor [of a x] by (simp add: round_up_mod)

lemma round_up_ge: "0 < a \<Longrightarrow> x \<le> round_up x a"
proof -
  assume a: "0 < a"
  then have "x mod a < a" by (rule mod_less_divisor)
  then show ?thesis by (simp only: round_up_mod [OF a] split: if_split) linarith
qed

lemma round_up_id: "a dvd x \<Longrightarrow> 0 < a \<Longrightarrow> round_up x a = x"
  by (simp add: round_up_mod)

lemma round_up_mono_dvd:
  assumes "a dvd b" and "x \<le> b" and "0 < a"
  shows "round_up x a \<le> b"
proof -
  from assms(1) obtain c where b: "b = a * c" ..
  have "round_up x a < a * c + a" using round_up_less [OF assms(3), of x] assms(2) b by simp
  moreover obtain d where d: "round_up x a = a * d" using round_up_dvd by (metis dvdE)
  ultimately have "a * d < a * (c + 1)" by (simp add: algebra_simps)
  then have "d < c + 1" by (rule mult_less_cancel1 [THEN iffD1, THEN conjunct2])
  then show ?thesis using b d by simp
qed

text \<open>
  \<^verbatim>\<open>(x + a - 1) & ~(a - 1)\<close>, the alignment expression of the pool resources, with the
  code's order of operations.
\<close>

definition align_mask :: "nat \<Rightarrow> nat \<Rightarrow> nat" where
  "align_mask x a = and64 (sub64 (add64 x a) 1) (not64 (sub64 a 1))"

lemma align_mask_round_up [arith64]:
  assumes "x + 2 ^ k < 18446744073709551616"
  shows "align_mask x (2 ^ k) = round_up x (2 ^ k)"
proof -
  have k: "(2 :: nat) ^ k < 18446744073709551616" using assms by simp
  have p: "(1 :: nat) \<le> 2 ^ k" by simp
  have s1: "sub64 (add64 x (2 ^ k)) 1 = x + (2 ^ k - 1)"
    using assms p sub64_exact [of 1 "x + 2 ^ k"] trans_le_add2 [OF p, of x]
    by (simp add: add64_exact)
  have s2: "sub64 (2 ^ k) 1 = 2 ^ k - 1" using k by (simp add: sub64_exact)
  have "align_mask x (2 ^ k) = (x + (2 ^ k - 1)) - (x + (2 ^ k - 1)) mod 2 ^ k"
    unfolding align_mask_def s1 s2 using assms k p by (intro and64_not_mask) auto
  then show ?thesis by (simp only: round_up_def minus_mod_eq_div_mult)
qed

lemma minus_mod_mod_dvd:
  assumes "d dvd (m :: nat)"
  shows "(z - z mod d) mod m = z mod m - z mod d"
proof -
  obtain c where c: "m = d * c" using assms ..
  have z: "z mod (d * c) = d * (z div d mod c) + z mod d" by (rule mod_mult2_eq)
  have "(z - z mod d) mod (d * c) = d * (z div d) mod (d * c)" by (simp only: minus_mod_eq_mult_div)
  also have "\<dots> = d * (z div d mod c)" by (simp only: mult_mod_right)
  finally show ?thesis unfolding c using z by simp
qed

text \<open>The same expression when it wraps: the rounded address modulo the address space.\<close>

lemma align_mask_wrap:
  assumes "x < 18446744073709551616" and "k < 64"
  shows "align_mask x (2 ^ k) = round_up x (2 ^ k) mod 18446744073709551616"
proof -
  have k: "(2 :: nat) ^ k \<le> 2 ^ 63" using assms(2) by (intro power_increasing) auto
  then have k': "(2 :: nat) ^ k < 18446744073709551616" by simp
  have p: "(1 :: nat) \<le> 2 ^ k" by simp
  have s2: "sub64 (2 ^ k) 1 = 2 ^ k - 1" using k' by (simp add: sub64_exact)
  let ?y = "(x + (2 ^ k - 1)) mod 18446744073709551616"
  have s1: "sub64 (add64 x (2 ^ k)) 1 = ?y"
  proof -
    have "sub64 (add64 x (2 ^ k)) 1 = ((x + 2 ^ k) mod 18446744073709551616 + 18446744073709551615) mod 18446744073709551616"
      by (simp add: sub64_def add64_def)
    also have "\<dots> = (x + 2 ^ k + 18446744073709551615) mod 18446744073709551616"
      by (rule mod_add_left_eq)
    also have "x + 2 ^ k + 18446744073709551615 = (x + (2 ^ k - 1)) + 18446744073709551616" using p by simp
    finally show ?thesis by simp
  qed
  have d: "(2 :: nat) ^ k dvd 18446744073709551616"
    using le_imp_power_dvd [of k 64 "2 :: nat"] assms(2) by simp
  have "align_mask x (2 ^ k) = ?y - ?y mod 2 ^ k"
    unfolding align_mask_def s1 s2 using k' by (intro and64_not_mask) auto
  moreover have "?y mod 2 ^ k = (x + (2 ^ k - 1)) mod 2 ^ k" using d by (simp add: mod_mod_cancel)
  moreover have "round_up x (2 ^ k) = (x + (2 ^ k - 1)) - (x + (2 ^ k - 1)) mod 2 ^ k"
    by (simp only: round_up_def minus_mod_eq_div_mult)
  moreover have "(z - z mod 2 ^ k) mod 18446744073709551616 = z mod 18446744073709551616 - z mod 2 ^ k" for z :: nat
    by (rule minus_mod_mod_dvd [OF d])
  ultimately show ?thesis by (simp only:)
qed

text \<open>\<^verbatim>\<open>(a & (a - 1)) == 0\<close> is the code's test for a power of two (and lets 0 through).\<close>

definition pow2_test :: "nat \<Rightarrow> bool" where
  "pow2_test a \<longleftrightarrow> and64 a (sub64 a 1) = 0"

lemma and64_nat:
  assumes "a < 18446744073709551616" and "b < 18446744073709551616"
  shows "and64 a b = (a AND b)"
  using assms by (simp add: and64_def unsigned_and_eq unat_of_nat)

lemma nat_and_pred_zero: "0 < (a :: nat) \<Longrightarrow> (a AND (a - 1)) = 0 \<Longrightarrow> \<exists>k. a = 2 ^ k"
proof (induction a rule: less_induct)
  case (less a)
  show ?case
  proof (cases "a = 1")
    case True
    then have "a = 2 ^ 0" by simp
    then show ?thesis ..
  next
    case False
    with less.prems have a2: "1 < a" by simp
    show ?thesis
    proof (cases "even a")
      case True
      then obtain b where b: "a = 2 * b" ..
      with a2 have b0: "0 < b" and ab: "b < a" by auto
      from b b0 have "(a - 1) div 2 = b - 1" by auto
      with b have "(a AND (a - 1)) div 2 = (b AND (b - 1))"
        by (metis drop_bit_Suc drop_bit_0 drop_bit_and nonzero_mult_div_cancel_left
            zero_neq_numeral One_nat_def drop_bit_eq_div power_one_right)
      with less.prems have "(b AND (b - 1)) = 0" by simp
      then obtain k where "b = 2 ^ k" using less.IH [OF ab b0] by blast
      with b have "a = 2 ^ Suc k" by simp
      then show ?thesis ..
    next
      case odd: False
      then have "(a - 1) div 2 = a div 2" by (auto elim: oddE)
      then have "(a AND (a - 1)) div 2 = (a div 2 AND a div 2)"
        by (metis drop_bit_and drop_bit_eq_div power_one_right)
      with less.prems have "a div 2 = 0" by simp
      with a2 show ?thesis by simp
    qed
  qed
qed

lemma pow2_test_pow2:
  assumes "pow2_test a" and "0 < a" and "a < 18446744073709551616"
  shows "pow2 a"
proof -
  have "sub64 a 1 = a - 1" using assms by (simp add: sub64_exact)
  then have "(a AND (a - 1)) = 0" using assms by (simp add: pow2_test_def and64_nat)
  then show ?thesis using nat_and_pred_zero assms(2) by (simp add: pow2_def)
qed

lemma pow2_pos: "pow2 a \<Longrightarrow> 0 < a"
  by (auto simp: pow2_def)

lemma pow2_test_iff:
  assumes "0 < a" and "a < 18446744073709551616"
  shows "pow2_test a \<longleftrightarrow> pow2 a"
proof
  show "pow2_test a \<Longrightarrow> pow2 a" using assms pow2_test_pow2 by blast
next
  assume "pow2 a"
  then obtain k where k: "a = 2 ^ k" by (auto simp: pow2_def)
  have "sub64 a 1 = 2 ^ k - 1" using assms k by (simp add: sub64_exact)
  then show "pow2_test a" using assms(2) k and64_mask [of "2 ^ k" k]
    by (simp add: pow2_test_def)
qed

lemma pow2_dvd: "pow2 a \<Longrightarrow> pow2 b \<Longrightarrow> a \<le> b \<Longrightarrow> a dvd b"
  by (auto simp: pow2_def le_imp_power_dvd)

lemma pow2_dvd_le: "pow2 a \<Longrightarrow> a \<le> 2 ^ n \<Longrightarrow> a dvd 2 ^ n"
  by (auto simp: pow2_def le_imp_power_dvd)

section \<open>Ledgers of live blocks\<close>

text \<open>
  A ledger is what the clients of a memory resource hold: the blocks they were given and have
  not returned, each with the size and the alignment it was requested with.  A ledger is sound
  when its blocks do not overlap, none is null, none wraps the address space, and each has the
  alignment it was requested with.
\<close>

type_synonym block = "addr \<times> nat \<times> nat"
type_synonym ledger = "block set"

definition apart :: "addr \<Rightarrow> nat \<Rightarrow> addr \<Rightarrow> nat \<Rightarrow> bool" where
  "apart p b q c \<longleftrightarrow> p + b \<le> q \<or> q + c \<le> p"

definition block_sound :: "block \<Rightarrow> bool" where
  "block_sound x \<longleftrightarrow> (case x of (p, b, a) \<Rightarrow>
     p \<noteq> 0 \<and> p + b \<le> 18446744073709551616 \<and> (pow2 a \<longrightarrow> a dvd p))"

text \<open>Two different blocks of a sound ledger: different addresses, no common byte.\<close>

definition clear_of :: "block \<Rightarrow> block \<Rightarrow> bool" where
  "clear_of x y \<longleftrightarrow> fst x \<noteq> fst y \<and> apart (fst x) (fst (snd x)) (fst y) (fst (snd y))"

definition ledger_sound :: "ledger \<Rightarrow> bool" where
  "ledger_sound L \<longleftrightarrow> (\<forall>x\<in>L. block_sound x) \<and> (\<forall>x\<in>L. \<forall>y\<in>L. x \<noteq> y \<longrightarrow> clear_of x y)"

lemma apart_sym: "apart p b q c \<longleftrightarrow> apart q c p b"
  by (auto simp: apart_def)

lemma apart_mono: "apart p b q c \<Longrightarrow> b' \<le> b \<Longrightarrow> c' \<le> c \<Longrightarrow> apart p b' q c'"
  by (auto simp: apart_def)

lemma clear_of_sym: "clear_of x y \<longleftrightarrow> clear_of y x"
  using apart_sym by (auto simp: clear_of_def)

lemma ledger_sound_empty [simp]: "ledger_sound {}"
  by (simp add: ledger_sound_def)

lemma ledger_sound_subset: "ledger_sound L \<Longrightarrow> M \<subseteq> L \<Longrightarrow> ledger_sound M"
  unfolding ledger_sound_def by blast

lemma ledger_sound_insert:
  assumes "ledger_sound L" and "block_sound x" and "\<And>y. y \<in> L \<Longrightarrow> clear_of x y"
  shows "ledger_sound (insert x L)"
  using assms clear_of_sym unfolding ledger_sound_def by blast

lemma ledger_sound_apart:
  assumes "ledger_sound L" and "(p, b, a) \<in> L" and "(q, c, d) \<in> L" and "p \<noteq> q"
  shows "apart p b q c"
proof -
  from assms have "clear_of (p, b, a) (q, c, d)" unfolding ledger_sound_def by blast
  then show ?thesis by (simp add: clear_of_def)
qed

lemma ledger_sound_unique:
  assumes "ledger_sound L" and "(p, b, a) \<in> L" and "(p, c, d) \<in> L"
  shows "b = c \<and> a = d"
proof (rule ccontr)
  assume "\<not> (b = c \<and> a = d)"
  then have "(p, b, a) \<noteq> (p, c, d)" by simp
  with assms have "clear_of (p, b, a) (p, c, d)" unfolding ledger_sound_def by blast
  then show False by (simp add: clear_of_def)
qed

section \<open>Lists\<close>

lemma remove_nth:
  assumes "i < length xs" and "distinct xs"
  shows "set (take i xs @ drop (Suc i) xs) = set xs - {xs ! i}"
    and "distinct (take i xs @ drop (Suc i) xs)"
proof -
  define ys zs where "ys = take i xs" and "zs = drop (Suc i) xs"
  have "xs = ys @ xs ! i # zs" using id_take_nth_drop [OF assms(1)] by (simp add: ys_def zs_def)
  with assms(2) have d: "distinct (ys @ xs ! i # zs)" and s: "set xs = set (ys @ xs ! i # zs)"
    by metis+
  then show "set (take i xs @ drop (Suc i) xs) = set xs - {xs ! i}"
    unfolding ys_def [symmetric] zs_def [symmetric] s by auto
  show "distinct (take i xs @ drop (Suc i) xs)"
    unfolding ys_def [symmetric] zs_def [symmetric] using d by simp
qed

text \<open>Paths through a successor map that end at a given node.\<close>

fun path :: "(addr \<Rightarrow> addr) \<Rightarrow> addr \<Rightarrow> addr list \<Rightarrow> addr \<Rightarrow> bool" where
  "path f p [] e = (p = e)"
| "path f p (x # xs) e = (p = x \<and> x \<noteq> e \<and> path f (f x) xs e)"

lemma path_append: "path f p (xs @ ys) e \<Longrightarrow> \<exists>q. path f q ys e \<and> (xs = [] \<longrightarrow> p = q) \<and> (xs \<noteq> [] \<longrightarrow> f (last xs) = q)"
  by (induction xs arbitrary: p) auto

lemma path_cong: "path f p xs e \<Longrightarrow> (\<And>x. x \<in> set xs \<Longrightarrow> g x = f x) \<Longrightarrow> path g p xs e"
  by (induction xs arbitrary: p) auto

lemma path_end: "path f p xs e \<Longrightarrow> e \<notin> set xs"
  by (induction xs arbitrary: p) auto

text \<open>Taking one node out of a path.\<close>

lemma path_unlink:
  assumes "path f p (xs @ y # ys) e" and "distinct (xs @ y # ys)" and "xs \<noteq> []"
  shows "path (f(last xs := f y)) p (xs @ ys) e"
  using assms
proof (induction xs arbitrary: p)
  case Nil
  then show ?case by simp
next
  case (Cons x xs)
  show ?case
  proof (cases "xs = []")
    case True
    have c: "path f (f y) ys e" "x \<notin> set ys" "p = x" "x \<noteq> e" using Cons.prems True by auto
    let ?g = "f(x := f y)"
    have "path ?g (f y) ys e" by (rule path_cong [OF c(1)]) (use c in auto)
    moreover have gx: "?g x = f y" by simp
    ultimately have "path ?g p (x # ys) e" unfolding path.simps gx using c by blast
    then show ?thesis using True by (simp del: path.simps fun_upd_apply)
  next
    case False
    let ?g = "f(last xs := f y)"
    have c: "path f (f x) (xs @ y # ys) e" "distinct (xs @ y # ys)" "p = x" "x \<noteq> e" "x \<notin> set xs"
      using Cons.prems by auto
    have "path ?g (f x) (xs @ ys) e" by (rule Cons.IH [OF c(1,2) False])
    moreover have gx: "?g x = f x" using c(5) last_in_set [OF False] by auto
    ultimately have "path ?g p (x # (xs @ ys)) e" unfolding path.simps gx using c by blast
    then show ?thesis using False by (simp del: path.simps fun_upd_apply)
  qed
qed

end
