(* ===== verification/Statistics.thy ===== *)
theory Statistics
  imports Prelude
begin

text \<open>
  The counters a memory resource can keep
  (\<^verbatim>\<open>include/__memory_resource/__extensions/memory_resource_statistics.h\<close> and
  \<^verbatim>\<open>lockfree_single_arena_resource_extended_statistics.h\<close>).

  Every update is one \<^verbatim>\<open>fetch_add\<close> on a counter, so an operation is a function from statistics
  to statistics; the CPU the caller runs on (\<^verbatim>\<open>platform::get_cpu_id()\<close>) is an argument.  All
  counters are \<^verbatim>\<open>size_t\<close> and wrap.
\<close>

section \<open>Sharded counters\<close>

record shard_counters =
  allocations :: nat
  deallocations :: nat
  bytes_allocated :: nat
  bytes_deallocated :: nat

record statistics =
  shards :: "shard_counters list"
  peak :: nat
  aborted :: nat
  aborted_bad_index :: nat
  aborted_state_mismatch :: nat
  aborted_cas_race :: nat

definition STATISTICS_SHARDS :: nat where
  "STATISTICS_SHARDS = 16"

definition no_counts :: shard_counters where
  "no_counts = \<lparr>allocations = 0, deallocations = 0, bytes_allocated = 0, bytes_deallocated = 0\<rparr>"

definition memory_resource_statistics :: statistics where
  "memory_resource_statistics = \<lparr>shards = replicate STATISTICS_SHARDS no_counts, peak = 0,
     aborted = 0, aborted_bad_index = 0, aborted_state_mismatch = 0, aborted_cas_race = 0\<rparr>"

subsection \<open>Observers\<close>

definition total_allocations :: "statistics \<Rightarrow> nat" where
  "total_allocations st = fold (\<lambda>sh total. add64 total (allocations sh)) (shards st) 0"

definition total_deallocations :: "statistics \<Rightarrow> nat" where
  "total_deallocations st = fold (\<lambda>sh total. add64 total (deallocations sh)) (shards st) 0"

definition current_allocated :: "statistics \<Rightarrow> nat" where
  "current_allocated st =
     (let deallocs = total_deallocations st; allocs = total_allocations st
      in if allocs > deallocs then allocs - deallocs else 0)"

definition peak_allocated :: "statistics \<Rightarrow> nat" where
  "peak_allocated st = peak st"

definition current_bytes_allocated :: "statistics \<Rightarrow> nat" where
  "current_bytes_allocated st =
     (let deallocated = fold (\<lambda>sh total. add64 total (bytes_deallocated sh)) (shards st) 0;
          allocated = fold (\<lambda>sh total. add64 total (bytes_allocated sh)) (shards st) 0
      in if allocated > deallocated then allocated - deallocated else 0)"

definition aborted_deallocations :: "statistics \<Rightarrow> nat" where
  "aborted_deallocations st = aborted st"

definition aborted_deallocations_bad_index :: "statistics \<Rightarrow> nat" where
  "aborted_deallocations_bad_index st = aborted_bad_index st"

definition aborted_deallocations_state_mismatch :: "statistics \<Rightarrow> nat" where
  "aborted_deallocations_state_mismatch st = aborted_state_mismatch st"

definition aborted_deallocations_cas_race :: "statistics \<Rightarrow> nat" where
  "aborted_deallocations_cas_race st = aborted_cas_race st"

subsection \<open>Updates\<close>

definition local_shard :: "nat \<Rightarrow> nat" where
  "local_shard cpu = and64 cpu (STATISTICS_SHARDS - 1)"

definition update_local :: "nat \<Rightarrow> (shard_counters \<Rightarrow> shard_counters) \<Rightarrow> statistics \<Rightarrow> statistics" where
  "update_local cpu f st =
     st\<lparr>shards := (shards st)[local_shard cpu := f (shards st ! local_shard cpu)]\<rparr>"

definition allocation_made :: "nat \<Rightarrow> nat \<Rightarrow> statistics \<Rightarrow> statistics" where
  "allocation_made cpu bytes st =
     (let st1 = update_local cpu (\<lambda>sh. sh\<lparr>allocations := add64 (allocations sh) 1\<rparr>) st;
          st2 = update_local cpu (\<lambda>sh. sh\<lparr>bytes_allocated := add64 (bytes_allocated sh) bytes\<rparr>) st1;
          current = current_allocated st2
      in if current > peak st2 then st2\<lparr>peak := current\<rparr> else st2)"

definition deallocation_made :: "nat \<Rightarrow> nat \<Rightarrow> statistics \<Rightarrow> statistics" where
  "deallocation_made cpu bytes st =
     (let st1 = update_local cpu (\<lambda>sh. sh\<lparr>deallocations := add64 (deallocations sh) 1\<rparr>) st
      in update_local cpu (\<lambda>sh. sh\<lparr>bytes_deallocated := add64 (bytes_deallocated sh) bytes\<rparr>) st1)"

definition deallocation_aborted_bad_index :: "statistics \<Rightarrow> statistics" where
  "deallocation_aborted_bad_index st =
     st\<lparr>aborted := add64 (aborted st) 1, aborted_bad_index := add64 (aborted_bad_index st) 1\<rparr>"

definition deallocation_aborted_state_mismatch :: "statistics \<Rightarrow> statistics" where
  "deallocation_aborted_state_mismatch st =
     st\<lparr>aborted := add64 (aborted st) 1,
        aborted_state_mismatch := add64 (aborted_state_mismatch st) 1\<rparr>"

definition deallocation_aborted_cas_race :: "statistics \<Rightarrow> statistics" where
  "deallocation_aborted_cas_race st =
     st\<lparr>aborted := add64 (aborted st) 1, aborted_cas_race := add64 (aborted_cas_race st) 1\<rparr>"

text \<open>\<^verbatim>\<open>null_memory_resource_statistics\<close>: the same interface with nothing kept.\<close>

definition null_allocation_made :: "nat \<Rightarrow> nat \<Rightarrow> unit \<Rightarrow> unit" where
  "null_allocation_made cpu bytes st = st"

definition null_deallocation_made :: "nat \<Rightarrow> nat \<Rightarrow> unit \<Rightarrow> unit" where
  "null_deallocation_made cpu bytes st = st"

section \<open>Sums over the shards\<close>

lemma local_shard_bound: "cpu < 18446744073709551616 \<Longrightarrow> local_shard cpu < 16"
  using and64_mask [of cpu 4] by (simp add: local_shard_def STATISTICS_SHARDS_def)

lemma fold_add64:
  "t < 18446744073709551616 \<Longrightarrow>
   fold (\<lambda>sh total. add64 total (f sh)) xs t = (t + sum_list (map f xs)) mod 18446744073709551616"
proof (induction xs arbitrary: t)
  case Nil
  then show ?case by simp
next
  case (Cons x xs)
  have "fold (\<lambda>sh total. add64 total (f sh)) (x # xs) t
    = (add64 t (f x) + sum_list (map f xs)) mod 18446744073709551616"
    using Cons.IH [OF add64_bound] by simp
  then show ?case by (simp add: add64_def mod_add_left_eq add.assoc)
qed

lemma total_allocations_sum:
  "total_allocations st = sum_list (map allocations (shards st)) mod 18446744073709551616"
  by (simp add: total_allocations_def fold_add64)

lemma total_deallocations_sum:
  "total_deallocations st = sum_list (map deallocations (shards st)) mod 18446744073709551616"
  by (simp add: total_deallocations_def fold_add64)

text \<open>Adding to one shard's counter adds to the sum, up to wrap-around.\<close>

lemma sum_list_bump:
  assumes "i < length xs" and "f (g (xs ! i)) = add64 (f (xs ! i)) d"
  shows "sum_list (map f (xs[i := g (xs ! i)])) mod 18446744073709551616
    = (sum_list (map f xs) + d) mod 18446744073709551616"
proof -
  have le: "f (xs ! i) \<le> sum_list (map f xs)"
    using assms(1) elem_le_sum_list [of i "map f xs"] by simp
  then have "sum_list (map f (xs[i := g (xs ! i)]))
    = sum_list (map f xs) - f (xs ! i) + f (g (xs ! i))"
    using assms(1) by (simp add: map_update sum_list_update)
  then have "sum_list (map f (xs[i := g (xs ! i)])) mod 18446744073709551616
    = (sum_list (map f xs) - f (xs ! i) + (f (xs ! i) + d)) mod 18446744073709551616"
    using assms(2) by (simp add: add64_def mod_add_right_eq)
  then show ?thesis using le by simp
qed

lemma sum_list_keep:
  assumes "i < length xs" and "f (g (xs ! i)) = f (xs ! i)"
  shows "sum_list (map f (xs[i := g (xs ! i)])) = sum_list (map f xs)"
  using assms by (metis (no_types, lifting) list_update_id map_update nth_map)

section \<open>What the counters mean\<close>

definition stats_ok :: "statistics \<Rightarrow> bool" where
  "stats_ok st \<longleftrightarrow> length (shards st) = 16"

lemma stats_ok_init: "stats_ok memory_resource_statistics"
  by (simp add: stats_ok_def memory_resource_statistics_def STATISTICS_SHARDS_def)

lemma stats_ok_update [simp]: "stats_ok (update_local cpu f st) = stats_ok st"
  by (simp add: stats_ok_def update_local_def)

lemma stats_ok_allocation_made [simp]: "stats_ok (allocation_made cpu n st) = stats_ok st"
  by (simp add: allocation_made_def Let_def) (simp add: stats_ok_def update_local_def)

lemma stats_ok_deallocation_made [simp]: "stats_ok (deallocation_made cpu n st) = stats_ok st"
  by (simp add: deallocation_made_def Let_def)

text \<open>One update adds to one counter of one shard: to the total of that counter, and to no other.\<close>

definition shard_total :: "(shard_counters \<Rightarrow> nat) \<Rightarrow> statistics \<Rightarrow> nat" where
  "shard_total g st = sum_list (map g (shards st)) mod 18446744073709551616"

lemma shard_totals:
  "total_allocations st = shard_total allocations st"
  "total_deallocations st = shard_total deallocations st"
  "current_bytes_allocated st = shard_total bytes_allocated st - shard_total bytes_deallocated st"
  by (simp_all add: total_allocations_sum total_deallocations_sum current_bytes_allocated_def fold_add64 shard_total_def Let_def)

lemma shard_total_bump:
  assumes "stats_ok st" and "cpu < 18446744073709551616"
    and "\<And>sh. g (f sh) = add64 (g sh) d"
  shows "shard_total g (update_local cpu f st) = add64 (shard_total g st) d"
proof -
  have i: "local_shard cpu < length (shards st)"
    using assms(1,2) local_shard_bound by (simp add: stats_ok_def)
  show ?thesis
    using sum_list_bump [OF i, of g f d] assms(3)
    by (simp add: shard_total_def update_local_def mod_add_left_eq add64_def)
qed

lemma shard_total_keep:
  assumes "stats_ok st" and "cpu < 18446744073709551616" and "\<And>sh. g (f sh) = g sh"
  shows "shard_total g (update_local cpu f st) = shard_total g st"
proof -
  have i: "local_shard cpu < length (shards st)"
    using assms(1,2) local_shard_bound by (simp add: stats_ok_def)
  show ?thesis using sum_list_keep [OF i, of g f] assms(3)
    by (simp add: shard_total_def update_local_def)
qed

lemma shard_total_peak [simp]: "shard_total g (st\<lparr>peak := n\<rparr>) = shard_total g st"
  by (simp add: shard_total_def)

lemma current_allocated_peak [simp]: "current_allocated (st\<lparr>peak := n\<rparr>) = current_allocated st"
  by (simp add: current_allocated_def shard_totals)

lemma peak_update_local [simp]: "peak (update_local cpu f st) = peak st"
  by (simp add: update_local_def)

lemma allocation_made_totals:
  assumes "stats_ok st" and "cpu < 18446744073709551616"
  shows "shard_total allocations (allocation_made cpu n st) = add64 (shard_total allocations st) 1"
    and "shard_total deallocations (allocation_made cpu n st) = shard_total deallocations st"
    and "shard_total bytes_allocated (allocation_made cpu n st) = add64 (shard_total bytes_allocated st) n"
    and "shard_total bytes_deallocated (allocation_made cpu n st) = shard_total bytes_deallocated st"
    and "peak (allocation_made cpu n st) = max (peak st) (current_allocated (allocation_made cpu n st))"
  using assms by (simp_all add: allocation_made_def Let_def shard_total_bump shard_total_keep)

lemma deallocation_made_totals:
  assumes "stats_ok st" and "cpu < 18446744073709551616"
  shows "shard_total deallocations (deallocation_made cpu n st) = add64 (shard_total deallocations st) 1"
    and "shard_total allocations (deallocation_made cpu n st) = shard_total allocations st"
    and "shard_total bytes_deallocated (deallocation_made cpu n st) = add64 (shard_total bytes_deallocated st) n"
    and "shard_total bytes_allocated (deallocation_made cpu n st) = shard_total bytes_allocated st"
    and "peak (deallocation_made cpu n st) = peak st"
  using assms by (simp_all add: deallocation_made_def Let_def shard_total_bump shard_total_keep)

section \<open>Histories\<close>

text \<open>
  A history of calls made by one context, which may migrate between CPUs: each call names the
  CPU it ran on.
\<close>

datatype stat_event = Made nat nat | Freed nat nat

definition event_cpu :: "stat_event \<Rightarrow> nat" where
  "event_cpu e = (case e of Made c _ \<Rightarrow> c | Freed c _ \<Rightarrow> c)"

definition record_event :: "stat_event \<Rightarrow> statistics \<Rightarrow> statistics" where
  "record_event e st = (case e of Made c n \<Rightarrow> allocation_made c n st
     | Freed c n \<Rightarrow> deallocation_made c n st)"

definition record_all :: "stat_event list \<Rightarrow> statistics" where
  "record_all es = fold record_event es memory_resource_statistics"

definition made :: "stat_event list \<Rightarrow> nat" where
  "made es = length (filter (\<lambda>e. case e of Made _ _ \<Rightarrow> True | Freed _ _ \<Rightarrow> False) es)"

definition freed :: "stat_event list \<Rightarrow> nat" where
  "freed es = length (filter (\<lambda>e. case e of Made _ _ \<Rightarrow> False | Freed _ _ \<Rightarrow> True) es)"

definition bytes_made :: "stat_event list \<Rightarrow> nat" where
  "bytes_made es = sum_list (map (\<lambda>e. case e of Made _ n \<Rightarrow> n | Freed _ _ \<Rightarrow> 0) es)"

definition bytes_freed :: "stat_event list \<Rightarrow> nat" where
  "bytes_freed es = sum_list (map (\<lambda>e. case e of Made _ _ \<Rightarrow> 0 | Freed _ n \<Rightarrow> n) es)"

definition outstanding :: "stat_event list \<Rightarrow> nat" where
  "outstanding es = made es - freed es"

definition high_water :: "stat_event list \<Rightarrow> nat" where
  "high_water es = Max ((\<lambda>i. outstanding (take i es)) ` {..length es})"

lemma high_water_Nil [simp]: "high_water [] = 0"
  by (simp add: high_water_def outstanding_def made_def)

lemma high_water_snoc: "high_water (es @ [e]) = max (outstanding (es @ [e])) (high_water es)"
proof -
  have split: "{..length (es @ [e])} = insert (length (es @ [e])) {..length es}" by auto
  have img: "(\<lambda>i. outstanding (take i (es @ [e]))) ` {..length es}
    = (\<lambda>i. outstanding (take i es)) ` {..length es}" by (intro image_cong) auto
  have "high_water (es @ [e])
    = Max (insert (outstanding (es @ [e])) ((\<lambda>i. outstanding (take i es)) ` {..length es}))"
    unfolding high_water_def split image_insert img by simp
  also have "\<dots> = max (outstanding (es @ [e])) (Max ((\<lambda>i. outstanding (take i es)) ` {..length es}))"
    by (intro Max_insert) auto
  finally show ?thesis by (simp add: high_water_def)
qed

lemma high_water_ge: "outstanding es \<le> high_water es"
  unfolding high_water_def by (intro Max_ge) (auto intro: image_eqI [of _ _ "length es"])

lemma made_freed_length: "made es + freed es = length es"
  by (induction es) (auto simp: made_def freed_def split: stat_event.splits)

lemma record_all_step:
  assumes "stats_ok st" and "event_cpu e < 18446744073709551616"
  shows "stats_ok (record_event e st)"
    and "shard_total allocations (record_event e st) = add64 (shard_total allocations st) (made [e])"
    and "shard_total deallocations (record_event e st) = add64 (shard_total deallocations st) (freed [e])"
    and "shard_total bytes_allocated (record_event e st) = add64 (shard_total bytes_allocated st) (bytes_made [e])"
    and "shard_total bytes_deallocated (record_event e st) = add64 (shard_total bytes_deallocated st) (bytes_freed [e])"
proof -
  have self: "add64 (shard_total g st) 0 = shard_total g st" for g
    by (simp add: shard_total_def add64_def)
  show "stats_ok (record_event e st)"
    and "shard_total allocations (record_event e st) = add64 (shard_total allocations st) (made [e])"
    and "shard_total deallocations (record_event e st) = add64 (shard_total deallocations st) (freed [e])"
    and "shard_total bytes_allocated (record_event e st) = add64 (shard_total bytes_allocated st) (bytes_made [e])"
    and "shard_total bytes_deallocated (record_event e st) = add64 (shard_total bytes_deallocated st) (bytes_freed [e])"
    using assms by (cases e; simp add: record_event_def event_cpu_def allocation_made_totals deallocation_made_totals
        self made_def freed_def bytes_made_def bytes_freed_def)+
qed

lemma counts_append [simp]:
  "made (es @ fs) = made es + made fs" "freed (es @ fs) = freed es + freed fs"
  "bytes_made (es @ fs) = bytes_made es + bytes_made fs" "bytes_freed (es @ fs) = bytes_freed es + bytes_freed fs"
  by (simp_all add: made_def freed_def bytes_made_def bytes_freed_def)

lemma record_all_totals:
  assumes "\<forall>e\<in>set es. event_cpu e < 18446744073709551616"
  shows "stats_ok (record_all es) \<and>
    shard_total allocations (record_all es) = made es mod 18446744073709551616 \<and>
    shard_total deallocations (record_all es) = freed es mod 18446744073709551616 \<and>
    shard_total bytes_allocated (record_all es) = bytes_made es mod 18446744073709551616 \<and>
    shard_total bytes_deallocated (record_all es) = bytes_freed es mod 18446744073709551616"
  using assms
proof (induction es rule: rev_induct)
  case Nil
  show ?case
    by (simp add: record_all_def stats_ok_init made_def freed_def bytes_made_def bytes_freed_def)
      (simp add: memory_resource_statistics_def shard_total_def STATISTICS_SHARDS_def no_counts_def sum_list_replicate)
next
  case (snoc e es)
  have "record_all (es @ [e]) = record_event e (record_all es)" by (simp add: record_all_def)
  then show ?case using snoc record_all_step [of "record_all es" e] by (simp add: add64_def mod_add_left_eq)
qed

lemma record_all_current:
  assumes "length es < 18446744073709551616" and "\<forall>e\<in>set es. event_cpu e < 18446744073709551616"
  shows "total_allocations (record_all es) = made es" and "total_deallocations (record_all es) = freed es"
    and "current_allocated (record_all es) = outstanding es"
proof -
  have small: "made es < 18446744073709551616" "freed es < 18446744073709551616"
    using assms(1) made_freed_length [of es] by simp_all
  then show t: "total_allocations (record_all es) = made es" "total_deallocations (record_all es) = freed es"
    using record_all_totals [OF assms(2)] by (simp_all add: shard_totals)
  show "current_allocated (record_all es) = outstanding es"
    by (simp add: current_allocated_def t outstanding_def Let_def)
qed

lemma record_all_peak:
  assumes "length es < 18446744073709551616" and "\<forall>e\<in>set es. event_cpu e < 18446744073709551616"
  shows "peak (record_all es) = high_water es"
  using assms
proof (induction es rule: rev_induct)
  case Nil
  show ?case by (simp add: record_all_def memory_resource_statistics_def)
next
  case (snoc e es)
  have step: "record_all (es @ [e]) = record_event e (record_all es)" by (simp add: record_all_def)
  have IH: "peak (record_all es) = high_water es" "stats_ok (record_all es)" "event_cpu e < 18446744073709551616"
    using snoc record_all_totals [of es] by simp_all
  show ?case
  proof (cases e)
    case (Made c n)
    then show ?thesis
      using allocation_made_totals(5) [OF IH(2), of c n] record_all_current(3) [OF snoc.prems] IH step
      by (simp add: record_event_def event_cpu_def high_water_snoc max.commute)
  next
    case (Freed c n)
    then have "outstanding (es @ [e]) \<le> high_water es"
      using high_water_ge [of es] by (simp add: outstanding_def) (simp add: made_def freed_def)
    then show ?thesis using deallocation_made_totals(5) [OF IH(2), of c n] IH step Freed
      by (simp add: record_event_def event_cpu_def high_water_snoc max.absorb2)
  qed
qed

text \<open>C23: The sharded counters are exact: after any history of allocations and deallocations, whatever
  CPUs the calls ran on, the two totals are the numbers of allocations and of deallocations made, the current
  count is their difference (0 if more were given back) and the peak is the largest value it has had; and the current bytes are the bytes
  allocated less the bytes deallocated, each sum taken as the 64 bit counters hold it.\<close>

theorem statistics_exact:
  assumes "length es < 18446744073709551616" and "\<forall>e\<in>set es. event_cpu e < 18446744073709551616"
  shows "total_allocations (record_all es) = made es \<and> total_deallocations (record_all es) = freed es \<and>
    current_allocated (record_all es) = made es - freed es \<and> peak_allocated (record_all es) = high_water es \<and>
    current_bytes_allocated (record_all es)
      = bytes_made es mod 18446744073709551616 - bytes_freed es mod 18446744073709551616"
  using record_all_current [OF assms] record_all_peak [OF assms] record_all_totals [OF assms(2)]
  by (simp add: outstanding_def peak_allocated_def shard_totals(3))

theorem statistics_exact_witness:
  "total_allocations (record_all [Made 0 64, Made 17 32, Freed 1 64]) = 2 \<and>
   total_deallocations (record_all [Made 0 64, Made 17 32, Freed 1 64]) = 1 \<and>
   current_allocated (record_all [Made 0 64, Made 17 32, Freed 1 64]) = 1 \<and>
   current_bytes_allocated (record_all [Made 0 64, Made 17 32, Freed 1 64]) = 32 \<and>
   peak_allocated (record_all [Made 0 64, Made 17 32, Freed 1 64]) = 2"
proof -
  let ?es = "[Made 0 64, Made 17 32, Freed 1 64]"
  have "made ?es = 2" "freed ?es = 1" "bytes_made ?es = 96" "bytes_freed ?es = 64"
    by (simp_all add: made_def freed_def bytes_made_def bytes_freed_def)
  moreover have "high_water ?es = 2"
    by (simp add: high_water_def outstanding_def made_def freed_def atMost_Suc numeral_3_eq_3)
  ultimately show ?thesis
    using statistics_exact [of ?es] by (simp add: event_cpu_def)
qed

end
