(* ===== verification/Memory_Resource.thy ===== *)
theory Memory_Resource
  imports Prelude "HOL-Library.Monad_Syntax"
begin

text \<open>
  The abstract base class \<^verbatim>\<open>pmr::memory_resource\<close> (\<^verbatim>\<open>include/__memory_resource/memory_resource.h\<close>)
  as a locale: the two virtual operations a resource implements, and the contract every
  concrete resource of the library owes its clients.

  An operation takes the CPU its caller runs on and the state of the resource.  \<open>None\<close> is a
  call that does not return; the contract says that there is no such call.  A null pointer is
  the inner \<open>None\<close> of an allocation.  The contract is stated over a ledger: \<open>owns s L\<close> says
  that in state \<open>s\<close> the blocks of \<open>L\<close> are those the resource has handed out and its clients
  still hold.
\<close>

type_synonym 's allocate_fn = "nat \<Rightarrow> 's \<Rightarrow> nat \<Rightarrow> nat \<Rightarrow> (addr option \<times> 's) option"
type_synonym 's deallocate_fn = "nat \<Rightarrow> 's \<Rightarrow> addr \<Rightarrow> nat \<Rightarrow> nat \<Rightarrow> 's option"

text \<open>The values the arguments can have: CPU ids are 32-bit, sizes and alignments 64-bit.\<close>

definition arg_ok :: "nat \<Rightarrow> nat \<Rightarrow> nat \<Rightarrow> bool" where
  "arg_ok c b a \<longleftrightarrow> c < 4294967296 \<and> b < 18446744073709551616 \<and> a < 18446744073709551616"

locale memory_resource =
  fixes alloc :: "'s allocate_fn"
    and dealloc :: "'s deallocate_fn"
    and owns :: "'s \<Rightarrow> ledger \<Rightarrow> bool"
  assumes owns_sound: "owns s L \<Longrightarrow> ledger_sound L"
    and alloc_returns: "owns s L \<Longrightarrow> arg_ok c b a \<Longrightarrow> alloc c s b a \<noteq> None"
    and alloc_some: "owns s L \<Longrightarrow> arg_ok c b a \<Longrightarrow> alloc c s b a = Some (Some p, s') \<Longrightarrow>
      p \<notin> fst ` L \<and> owns s' (insert (p, b, a) L)"
    and alloc_null: "owns s L \<Longrightarrow> arg_ok c b a \<Longrightarrow> alloc c s b a = Some (None, s') \<Longrightarrow> owns s' L"
    and dealloc_returns: "owns s L \<Longrightarrow> arg_ok c b a \<Longrightarrow> (p, b, a) \<in> L \<Longrightarrow>
      \<exists>s'. dealloc c s p b a = Some s' \<and> owns s' (L - {(p, b, a)})"
begin

text \<open>What the client of one call may rely on.\<close>

lemma alloc_block_sound:
  assumes "owns s L" and "arg_ok c b a" and "alloc c s b a = Some (Some p, s')"
  shows "ledger_sound (insert (p, b, a) L)"
  using assms alloc_some owns_sound by blast

lemma alloc_aligned:
  assumes "owns s L" and "arg_ok c b a" and "alloc c s b a = Some (Some p, s')" and "pow2 a"
  shows "a dvd p"
  using alloc_block_sound [OF assms(1,2,3)] assms(4)
  by (simp add: ledger_sound_def block_sound_def)

lemma alloc_nonnull:
  assumes "owns s L" and "arg_ok c b a" and "alloc c s b a = Some (Some p, s')"
  shows "p \<noteq> 0"
  using alloc_block_sound [OF assms] by (simp add: ledger_sound_def block_sound_def)

lemma alloc_apart:
  assumes "owns s L" and "arg_ok c b a" and "alloc c s b a = Some (Some p, s')"
    and "(q, d, e) \<in> L"
  shows "apart p b q d"
proof -
  have "p \<notin> fst ` L" using assms alloc_some by blast
  then have "p \<noteq> q" using assms(4) by force
  with ledger_sound_apart [OF alloc_block_sound [OF assms(1,2,3)]] assms(4) show ?thesis by blast
qed

end

text \<open>
  Whole client sessions: a sequence of requests, where a release names a block by its index in
  the list of blocks the session holds, so that a session never returns a block it was not
  given.
\<close>

datatype request = Allocate nat nat nat | Release nat nat

record 's session =
  resource :: 's
  held :: "block list"

definition request_ok :: "request \<Rightarrow> bool" where
  "request_ok r \<longleftrightarrow> (case r of Allocate c b a \<Rightarrow> arg_ok c b a | Release c i \<Rightarrow> c < 4294967296)"

definition serve :: "'s allocate_fn \<Rightarrow> 's deallocate_fn \<Rightarrow> request \<Rightarrow> 's session \<Rightarrow> 's session option" where
  "serve al de r x = (case r of
     Allocate c b a \<Rightarrow> do {
       (result, s) \<leftarrow> al c (resource x) b a;
       Some (case result of
           Some p \<Rightarrow> \<lparr>resource = s, held = held x @ [(p, b, a)]\<rparr>
         | None \<Rightarrow> x\<lparr>resource := s\<rparr>) }
   | Release c i \<Rightarrow> (if i < length (held x) then
         (case held x ! i of (p, b, a) \<Rightarrow> do {
            s \<leftarrow> de c (resource x) p b a;
            Some \<lparr>resource = s, held = take i (held x) @ drop (Suc i) (held x)\<rparr> })
       else Some x))"

fun serve_all :: "'s allocate_fn \<Rightarrow> 's deallocate_fn \<Rightarrow> request list \<Rightarrow> 's session \<Rightarrow> 's session option" where
  "serve_all al de [] x = Some x"
| "serve_all al de (r # rs) x = do { y \<leftarrow> serve al de r x; serve_all al de rs y }"

text \<open>What every operation keeps, a session keeps.\<close>

lemma serve_all_keeps:
  assumes "serve_all al de rs x = Some y" and "f (resource x) = k"
    and "\<And>c s b a r t. al c s b a = Some (r, t) \<Longrightarrow> f t = f s"
    and "\<And>c s p b a t. de c s p b a = Some t \<Longrightarrow> f t = f s"
  shows "f (resource y) = k"
  using assms(1,2)
proof (induction rs arbitrary: x)
  case Nil
  then show ?case by simp
next
  case (Cons r rs)
  then obtain z where z: "serve al de r x = Some z" "serve_all al de rs z = Some y"
    by (cases "serve al de r x") auto
  have "f (resource z) = f (resource x)"
  proof (cases r)
    case (Allocate c b a)
    then show ?thesis using z(1) assms(3)
      by (cases "al c (resource x) b a") (auto simp: serve_def split: option.splits)
  next
    case (Release c i)
    then show ?thesis using z(1) assms(4)
      by (cases "held x ! i"; cases "i < length (held x)")
        (auto simp: serve_def split: bind_splits if_splits)
  qed
  then show ?case using Cons z(2) by simp
qed

text \<open>Blocks that a session may hold have arguments in range.\<close>

definition held_ok :: "block list \<Rightarrow> bool" where
  "held_ok xs \<longleftrightarrow> distinct xs \<and> (\<forall>(p, b, a)\<in>set xs. b < 18446744073709551616 \<and> a < 18446744073709551616)"

context memory_resource
begin

definition session_inv :: "'s session \<Rightarrow> bool" where
  "session_inv x \<longleftrightarrow> owns (resource x) (set (held x)) \<and> held_ok (held x)"

lemma serve_inv:
  assumes "session_inv x" and "request_ok r"
  shows "\<exists>y. serve alloc dealloc r x = Some y \<and> session_inv y"
proof (cases r)
  case (Allocate c b a)
  from assms(1) have own: "owns (resource x) (set (held x))" and ok: "held_ok (held x)"
    by (simp_all add: session_inv_def)
  from Allocate assms(2) have arg: "arg_ok c b a" by (simp add: request_ok_def)
  obtain r' s' where call: "alloc c (resource x) b a = Some (r', s')"
    using alloc_returns [OF own arg] by fastforce
  show ?thesis
  proof (cases r')
    case None
    with alloc_null [OF own arg] call ok Allocate show ?thesis
      by (simp add: serve_def session_inv_def)
  next
    case (Some p)
    with alloc_some [OF own arg] call
    have fresh: "p \<notin> fst ` set (held x)" and own': "owns s' (insert (p, b, a) (set (held x)))"
      by auto
    from fresh have "(p, b, a) \<notin> set (held x)" by force
    with Some call Allocate ok own' arg show ?thesis
      by (simp add: serve_def session_inv_def held_ok_def arg_ok_def)
  qed
next
  case (Release c i)
  show ?thesis
  proof (cases "i < length (held x)")
    case False
    with Release assms show ?thesis by (simp add: serve_def)
  next
    case True
    obtain p b a where blk: "held x ! i = (p, b, a)" by (metis prod_cases3)
    from assms(1) have own: "owns (resource x) (set (held x))" and ok: "held_ok (held x)"
      by (simp_all add: session_inv_def)
    then have dist: "distinct (held x)" by (simp add: held_ok_def)
    from True blk have mem: "(p, b, a) \<in> set (held x)" using nth_mem by fastforce
    with ok Release assms(2) have arg: "arg_ok c b a"
      by (auto simp: held_ok_def arg_ok_def request_ok_def)
    obtain s' where "dealloc c (resource x) p b a = Some s'"
      and "owns s' (set (held x) - {(p, b, a)})"
      using dealloc_returns [OF own arg mem] by blast
    with Release True blk remove_nth [OF True dist] ok show ?thesis
      by (auto simp: serve_def session_inv_def held_ok_def)
  qed
qed

text \<open>
  Whatever a session does, every call returns, and the blocks it holds never overlap and keep
  the alignment they were requested with.
\<close>

lemma serve_all_inv:
  assumes "session_inv x" and "list_all request_ok rs"
  shows "\<exists>y. serve_all alloc dealloc rs x = Some y \<and> session_inv y"
  using assms
proof (induction rs arbitrary: x)
  case Nil
  then show ?case by simp
next
  case (Cons r rs)
  then obtain y where "serve alloc dealloc r x = Some y" and "session_inv y"
    using serve_inv [of x r] by auto
  with Cons show ?case by simp
qed

lemma session_sound:
  assumes "owns s {}" and "list_all request_ok rs"
  shows "\<exists>y. serve_all alloc dealloc rs \<lparr>resource = s, held = []\<rparr> = Some y \<and>
    ledger_sound (set (held y)) \<and> owns (resource y) (set (held y))"
proof -
  have "session_inv \<lparr>resource = s, held = []\<rparr>"
    using assms(1) by (simp add: session_inv_def held_ok_def)
  then show ?thesis using serve_all_inv assms(2) owns_sound unfolding session_inv_def by blast
qed

end

end
