(* ===== verification/Tiling.thy ===== *)
theory Tiling
  imports Prelude
begin

text \<open>
  Tilings of an address range: the bookkeeping argument shared by the arena allocators.  A tile
  is a start address and a length; a set of tiles tiles a range when every byte of the range
  lies in exactly one tile.
\<close>

type_synonym tile = "addr \<times> nat"

named_theorems tiling_intros "ways to build a tiling from tilings"

definition span :: "tile \<Rightarrow> addr set" where
  "span t = {fst t ..< fst t + snd t}"

definition tiling :: "addr \<Rightarrow> addr \<Rightarrow> tile set \<Rightarrow> bool" where
  "tiling lo hi T \<longleftrightarrow> finite T \<and> (\<forall>t\<in>T. 0 < snd t) \<and> (\<Union>t\<in>T. span t) = {lo ..< hi} \<and>
     (\<forall>s\<in>T. \<forall>t\<in>T. s \<noteq> t \<longrightarrow> span s \<inter> span t = {})"

lemma span_start: "0 < snd t \<Longrightarrow> fst t \<in> span t"
  by (simp add: span_def)

lemma span_disjoint_apart:
  "span (p, m) \<inter> span (q, n) = {} \<Longrightarrow> 0 < m \<Longrightarrow> 0 < n \<Longrightarrow> apart p m q n"
proof -
  assume d: "span (p, m) \<inter> span (q, n) = {}" and m: "0 < m" and n: "0 < n"
  show ?thesis
  proof (rule ccontr)
    assume "\<not> apart p m q n"
    then have "max p q \<in> span (p, m) \<inter> span (q, n)" using m n
      by (auto simp: apart_def span_def max_def)
    with d show False by simp
  qed
qed

lemma tiling_empty [tiling_intros]: "tiling lo lo {}"
  by (simp add: tiling_def)

lemma tiling_single [tiling_intros]: "0 < n \<Longrightarrow> tiling p (p + n) {(p, n)}"
  by (simp add: tiling_def span_def)

lemma tiling_pos: "tiling lo hi T \<Longrightarrow> t \<in> T \<Longrightarrow> 0 < snd t"
  by (simp add: tiling_def)

lemma tiling_within:
  assumes "tiling lo hi T" and "(p, n) \<in> T"
  shows "lo \<le> p \<and> p + n \<le> hi"
proof -
  have n: "0 < n" using tiling_pos [OF assms] by simp
  have "span (p, n) \<subseteq> {lo ..< hi}" using assms unfolding tiling_def by blast
  moreover have "p \<in> span (p, n)" and "p + n - 1 \<in> span (p, n)" using n by (auto simp: span_def)
  ultimately have "p \<in> {lo ..< hi}" and "p + n - 1 \<in> {lo ..< hi}" by blast+
  then show ?thesis using n by auto
qed

lemma tiling_disjoint:
  "tiling lo hi T \<Longrightarrow> s \<in> T \<Longrightarrow> t \<in> T \<Longrightarrow> s \<noteq> t \<Longrightarrow> span s \<inter> span t = {}"
  unfolding tiling_def by blast

lemma tiling_apart:
  assumes "tiling lo hi T" and "(p, m) \<in> T" and "(q, n) \<in> T" and "(p, m) \<noteq> (q, n)"
  shows "apart p m q n"
  using tiling_disjoint [OF assms] tiling_pos [OF assms(1)] assms(2,3)
  by (intro span_disjoint_apart) force+

text \<open>A tile is known by its start.\<close>

lemma tiling_fst_inj:
  assumes "tiling lo hi T" and "(p, m) \<in> T" and "(p, n) \<in> T"
  shows "m = n"
proof (rule ccontr)
  assume "m \<noteq> n"
  then have "span (p, m) \<inter> span (p, n) = {}" using tiling_disjoint [OF assms] by simp
  moreover have "p \<in> span (p, m)" and "p \<in> span (p, n)"
    using tiling_pos [OF assms(1)] assms(2,3) span_start by fastforce+
  ultimately show False by blast
qed

lemma tiling_inj_on_fst: "tiling lo hi T \<Longrightarrow> inj_on fst T"
  using tiling_fst_inj by (auto intro!: inj_onI)

text \<open>Appending a tiling of the adjacent range: a bump allocation.\<close>

lemma tiling_append [tiling_intros]:
  assumes "tiling lo m T" and "tiling m hi S" and "lo \<le> m" and "m \<le> hi"
  shows "tiling lo hi (T \<union> S)"
proof -
  have T: "(\<Union>t\<in>T. span t) = {lo ..< m}" and S: "(\<Union>t\<in>S. span t) = {m ..< hi}"
    using assms(1,2) by (simp_all add: tiling_def)
  have cross: "span s \<inter> span t = {}" if "s \<in> T" and "t \<in> S" for s t
  proof -
    have "span s \<subseteq> {lo ..< m}" and "span t \<subseteq> {m ..< hi}" using that T S by blast+
    then show ?thesis by fastforce
  qed
  have un: "(\<Union>t\<in>T \<union> S. span t) = {lo ..< hi}" using T S assms(3,4) by (simp add: ivl_disj_un)
  show ?thesis unfolding tiling_def
  proof (intro conjI ballI impI)
    show "finite (T \<union> S)" using assms(1,2) by (simp add: tiling_def)
    show "\<And>t. t \<in> T \<union> S \<Longrightarrow> 0 < snd t" using assms(1,2) tiling_pos by blast
    show "(\<Union>t\<in>T \<union> S. span t) = {lo ..< hi}" by (rule un)
    show "\<And>s t. s \<in> T \<union> S \<Longrightarrow> t \<in> T \<union> S \<Longrightarrow> s \<noteq> t \<Longrightarrow> span s \<inter> span t = {}"
      using cross tiling_disjoint [OF assms(1)] tiling_disjoint [OF assms(2)] by blast
  qed
qed

text \<open>Replacing one tile by a tiling of it: splitting a block.\<close>

lemma tiling_refine [tiling_intros]:
  assumes "tiling lo hi T" and "(p, n) \<in> T" and "tiling p (p + n) S"
  shows "tiling lo hi (T - {(p, n)} \<union> S)"
proof -
  have S: "(\<Union>t\<in>S. span t) = span (p, n)" using assms(3) by (simp add: tiling_def span_def)
  have cross: "span s \<inter> span t = {}" if "s \<in> T - {(p, n)}" and "t \<in> S" for s t
  proof -
    have "span s \<inter> span (p, n) = {}" using that assms(1,2) tiling_disjoint by blast
    moreover have "span t \<subseteq> span (p, n)" using that S by blast
    ultimately show ?thesis by blast
  qed
  have un: "(\<Union>t\<in>T - {(p, n)} \<union> S. span t) = {lo ..< hi}"
  proof -
    have "(\<Union>t\<in>T - {(p, n)} \<union> S. span t) = (\<Union>t\<in>T - {(p, n)}. span t) \<union> span (p, n)"
      using S by simp
    also have "\<dots> = (\<Union>t\<in>T. span t)" using assms(2) by blast
    finally show ?thesis using assms(1) by (simp add: tiling_def)
  qed
  show ?thesis unfolding tiling_def
  proof (intro conjI ballI impI)
    show "finite (T - {(p, n)} \<union> S)" using assms(1,3) by (simp add: tiling_def)
    show "\<And>t. t \<in> T - {(p, n)} \<union> S \<Longrightarrow> 0 < snd t" using assms(1,3) tiling_pos by blast
    show "(\<Union>t\<in>T - {(p, n)} \<union> S. span t) = {lo ..< hi}" by (rule un)
    show "\<And>s t. s \<in> T - {(p, n)} \<union> S \<Longrightarrow> t \<in> T - {(p, n)} \<union> S \<Longrightarrow> s \<noteq> t \<Longrightarrow>
        span s \<inter> span t = {}"
      using cross tiling_disjoint [OF assms(1)] tiling_disjoint [OF assms(3)] by blast
  qed
qed

text \<open>The tile that ends the range can be taken off: rolling a frontier back.\<close>

lemma tiling_drop_last:
  assumes "tiling lo hi T" and "(p, n) \<in> T" and "p + n = hi"
  shows "tiling lo p (T - {(p, n)})"
proof -
  have n: "0 < n" using tiling_pos [OF assms(1,2)] by simp
  have dis: "span t \<inter> span (p, n) = {}" if "t \<in> T - {(p, n)}" for t
    using that assms(1,2) tiling_disjoint by blast
  have "(\<Union>t\<in>T. span t) = (\<Union>t\<in>T - {(p, n)}. span t) \<union> span (p, n)" using assms(2) by blast
  moreover have "(\<Union>t\<in>T - {(p, n)}. span t) \<inter> span (p, n) = {}" using dis by blast
  ultimately have "(\<Union>t\<in>T - {(p, n)}. span t) = (\<Union>t\<in>T. span t) - span (p, n)" by blast
  also have "\<dots> = {lo ..< hi} - span (p, n)" using assms(1) by (simp add: tiling_def)
  also have "\<dots> = {lo ..< p}" using assms(3) tiling_within [OF assms(1,2)] by (auto simp: span_def)
  finally have un: "(\<Union>t\<in>T - {(p, n)}. span t) = {lo ..< p}" .
  show ?thesis unfolding tiling_def
  proof (intro conjI ballI impI)
    show "finite (T - {(p, n)})" using assms(1) by (simp add: tiling_def)
    show "\<And>t. t \<in> T - {(p, n)} \<Longrightarrow> 0 < snd t" using tiling_pos [OF assms(1)] by blast
    show "(\<Union>t\<in>T - {(p, n)}. span t) = {lo ..< p}" by (rule un)
    show "\<And>s t. s \<in> T - {(p, n)} \<Longrightarrow> t \<in> T - {(p, n)} \<Longrightarrow> s \<noteq> t \<Longrightarrow> span s \<inter> span t = {}"
      using tiling_disjoint [OF assms(1)] by blast
  qed
qed

text \<open>The tiles account for every byte of the range.\<close>

lemma tiling_sum:
  assumes "tiling lo hi T"
  shows "(\<Sum>t\<in>T. snd t) = hi - lo"
proof -
  have "card (\<Union>t\<in>T. span t) = (\<Sum>t\<in>T. card (span t))"
  proof (rule card_UN_disjoint)
    show "finite T" using assms by (simp add: tiling_def)
    show "\<forall>t\<in>T. finite (span t)" by (simp add: span_def)
    show "\<forall>s\<in>T. \<forall>t\<in>T. s \<noteq> t \<longrightarrow> span s \<inter> span t = {}"
      using tiling_disjoint [OF assms] by blast
  qed
  moreover have "(\<Sum>t\<in>T. card (span t)) = (\<Sum>t\<in>T. snd t)" by (simp add: span_def)
  ultimately show ?thesis using assms by (simp add: tiling_def)
qed

end
