(* ===== verification/Tagged_Ptr.thy ===== *)
theory Tagged_Ptr
  imports Prelude
begin

text \<open>
  The head words of the lock-free stacks: a node and an ABA counter packed into 64 bits.
  \<^verbatim>\<open>include/lockfree/tagged_ptr\<close> stores the address next to the counter,
  \<^verbatim>\<open>include/lockfree/arena_tagged_ptr\<close> an arena-relative index.  A node is an address, 0 the null
  pointer; a head word is a \<open>64 word\<close>.
\<close>

section \<open>Fields of a word\<close>

text \<open>Two fields that do not overlap, and how each is read back.\<close>

definition join_fields :: "nat \<Rightarrow> u64 \<Rightarrow> u64 \<Rightarrow> u64" where
  "join_fields n hi lo = (push_bit n hi OR lo)"

lemma join_fields_low:
  "take_bit n lo = lo \<Longrightarrow> take_bit n (join_fields n hi lo) = lo"
  by (auto simp: join_fields_def bit_eq_iff bit_simps)

lemma join_fields_high:
  assumes "take_bit n lo = lo"
  shows "drop_bit n (join_fields n hi lo) = take_bit (64 - n) hi"
proof (rule bit_word_eqI)
  fix i assume "i < LENGTH(64)"
  have "\<not> bit lo (n + i)" using assms by (metis bit_take_bit_iff not_add_less1)
  then show "bit (drop_bit n (join_fields n hi lo)) i = bit (take_bit (64 - n) hi) i"
    by (auto simp: join_fields_def bit_simps)
qed

section \<open>tagged_ptr\<close>

datatype pointer_top_bits = zero_bits | ones_bits | sign_extend_47

text \<open>
  \<open>cb\<close> is \<^verbatim>\<open>COUNTER_BITS\<close>, the width of the counter type; a counter is the word it converts to.
\<close>

definition POINTER_BITS :: "nat \<Rightarrow> nat" where
  "POINTER_BITS cb = 64 - cb"

definition COUNTER_MASK :: "nat \<Rightarrow> u64" where
  "COUNTER_MASK cb = push_bit cb 1 - 1"

definition POINTER_MASK :: "nat \<Rightarrow> u64" where
  "POINTER_MASK cb = (if POINTER_BITS cb = 64 then NOT 0 else push_bit (POINTER_BITS cb) 1 - 1)"

text \<open>The conversion to \<^verbatim>\<open>counter_type\<close>, which drops the bits above its width.\<close>

definition counter_cast :: "nat \<Rightarrow> u64 \<Rightarrow> u64" where
  "counter_cast cb c = take_bit cb c"

definition tp_pack :: "nat \<Rightarrow> u64 \<Rightarrow> u64 \<Rightarrow> u64" where
  "tp_pack cb p counter = (push_bit (POINTER_BITS cb) counter OR (p AND POINTER_MASK cb))"

definition tp_make :: "nat \<Rightarrow> u64 \<Rightarrow> u64 \<Rightarrow> u64" where
  "tp_make cb p counter = tp_pack cb p counter"

definition restore_top_bits :: "pointer_top_bits \<Rightarrow> nat \<Rightarrow> u64 \<Rightarrow> u64" where
  "restore_top_bits m cb raw =
     (if raw = 0 then 0
      else case m of
        ones_bits \<Rightarrow> raw OR NOT (POINTER_MASK cb)
      | sign_extend_47 \<Rightarrow> (if raw AND push_bit 47 1 \<noteq> 0 then raw OR NOT (POINTER_MASK cb) else raw)
      | zero_bits \<Rightarrow> raw)"

definition tp_unpack_ptr :: "pointer_top_bits \<Rightarrow> nat \<Rightarrow> u64 \<Rightarrow> u64" where
  "tp_unpack_ptr m cb v = restore_top_bits m cb (v AND POINTER_MASK cb)"

definition tp_unpack_counter :: "nat \<Rightarrow> u64 \<Rightarrow> u64" where
  "tp_unpack_counter cb v = counter_cast cb (drop_bit (POINTER_BITS cb) v AND COUNTER_MASK cb)"

definition tp_with_ptr :: "nat \<Rightarrow> u64 \<Rightarrow> u64 \<Rightarrow> u64" where
  "tp_with_ptr cb v p = ((v AND NOT (POINTER_MASK cb)) OR (p AND POINTER_MASK cb))"

definition tp_increment_counter :: "pointer_top_bits \<Rightarrow> nat \<Rightarrow> u64 \<Rightarrow> u64" where
  "tp_increment_counter m cb v =
     tp_pack cb (tp_unpack_ptr m cb v) (counter_cast cb (tp_unpack_counter cb v + 1))"

text \<open>The static assertions of the template.\<close>

definition tp_static_ok :: "pointer_top_bits \<Rightarrow> nat \<Rightarrow> bool" where
  "tp_static_ok m cb \<longleftrightarrow> 0 < cb \<and> cb < 64 \<and> (m = sign_extend_47 \<longrightarrow> 48 \<le> POINTER_BITS cb)"

text \<open>The addresses each rule can restore.\<close>

definition canonical :: "pointer_top_bits \<Rightarrow> nat \<Rightarrow> u64 \<Rightarrow> bool" where
  "canonical m cb p \<longleftrightarrow> p = 0 \<or> (take_bit (POINTER_BITS cb) p \<noteq> 0 \<and>
     (\<forall>i. POINTER_BITS cb \<le> i \<longrightarrow> i < 64 \<longrightarrow>
        bit p i = (case m of zero_bits \<Rightarrow> False | ones_bits \<Rightarrow> True | sign_extend_47 \<Rightarrow> bit p 47)))"

lemma POINTER_MASK_mask: "0 < cb \<Longrightarrow> cb < 64 \<Longrightarrow> POINTER_MASK cb = mask (POINTER_BITS cb)"
  by (simp add: POINTER_MASK_def POINTER_BITS_def mask_eq_exp_minus_1 push_bit_of_1)

lemma COUNTER_MASK_mask: "COUNTER_MASK cb = mask cb"
  by (simp add: COUNTER_MASK_def mask_eq_exp_minus_1 push_bit_of_1)

lemma tp_pack_join:
  "0 < cb \<Longrightarrow> cb < 64 \<Longrightarrow>
   tp_pack cb p c = join_fields (POINTER_BITS cb) c (take_bit (POINTER_BITS cb) p)"
  by (simp add: tp_pack_def join_fields_def POINTER_MASK_mask take_bit_eq_mask)

lemma tp_counter_pack:
  assumes "0 < cb" and "cb < 64"
  shows "tp_unpack_counter cb (tp_pack cb p c) = take_bit cb c"
  using assms join_fields_high [of "POINTER_BITS cb" "take_bit (POINTER_BITS cb) p" c]
  by (simp add: tp_unpack_counter_def tp_pack_join counter_cast_def COUNTER_MASK_mask
      POINTER_BITS_def flip: take_bit_eq_mask)

lemma restore_take_bit:
  assumes "tp_static_ok m cb" and "canonical m cb p"
  shows "restore_top_bits m cb (take_bit (POINTER_BITS cb) p) = p"
proof (cases "p = 0")
  case True
  then show ?thesis by (simp add: restore_top_bits_def)
next
  case False
  let ?n = "POINTER_BITS cb"
  from assms(1) have cb: "0 < cb" "cb < 64" by (simp_all add: tp_static_ok_def)
  from False assms(2) have nz: "take_bit ?n p \<noteq> 0"
    and top: "\<And>i. ?n \<le> i \<Longrightarrow> i < 64 \<Longrightarrow>
        bit p i = (case m of zero_bits \<Rightarrow> False | ones_bits \<Rightarrow> True | sign_extend_47 \<Rightarrow> bit p 47)"
    by (auto simp: canonical_def)
  have ones: "take_bit ?n p OR NOT (POINTER_MASK cb) = p" if "\<And>i. ?n \<le> i \<Longrightarrow> i < 64 \<Longrightarrow> bit p i"
    by (rule bit_word_eqI) (use that cb in \<open>auto simp: POINTER_MASK_mask bit_simps not_less\<close>)
  have zeros: "take_bit ?n p = p" if "\<And>i. ?n \<le> i \<Longrightarrow> i < 64 \<Longrightarrow> \<not> bit p i"
  proof (rule bit_word_eqI)
    fix i assume "i < LENGTH(64)"
    then show "bit (take_bit ?n p) i = bit p i"
      using that [of i] by (cases "?n \<le> i") (auto simp: bit_simps)
  qed
  show ?thesis
  proof (cases m)
    case zero_bits
    then show ?thesis using zeros top nz by (simp add: restore_top_bits_def)
  next
    case ones_bits
    then show ?thesis using ones top nz by (simp add: restore_top_bits_def)
  next
    case sign_extend_47
    then have n: "48 \<le> ?n" using assms(1) by (simp add: tp_static_ok_def)
    have b47: "take_bit ?n p AND push_bit 47 1 \<noteq> 0 \<longleftrightarrow> bit p 47"
    proof -
      have "take_bit ?n p AND push_bit 47 1 \<noteq> 0 \<longleftrightarrow> bit (take_bit ?n p) 47"
        by (simp only: bit_iff_and_push_bit_not_eq_0)
      then show ?thesis using n by (simp add: bit_take_bit_iff)
    qed
    show ?thesis
      using sign_extend_47 ones zeros top nz b47 by (auto simp: restore_top_bits_def)
  qed
qed

lemma tp_ptr_pack:
  assumes "tp_static_ok m cb" and "canonical m cb p"
  shows "tp_unpack_ptr m cb (tp_pack cb p c) = p"
proof -
  have cb: "0 < cb" "cb < 64" using assms(1) by (simp_all add: tp_static_ok_def)
  have "tp_pack cb p c AND POINTER_MASK cb = take_bit (POINTER_BITS cb) p"
    using cb join_fields_low [of "POINTER_BITS cb" "take_bit (POINTER_BITS cb) p" c]
    by (simp add: tp_pack_join POINTER_MASK_mask flip: take_bit_eq_mask)
  then show ?thesis using restore_take_bit [OF assms] by (simp add: tp_unpack_ptr_def)
qed

lemma tp_with_ptr_counter:
  assumes "0 < cb" and "cb < 64"
  shows "tp_unpack_counter cb (tp_with_ptr cb v p) = tp_unpack_counter cb v"
proof -
  have "drop_bit (POINTER_BITS cb) (tp_with_ptr cb v p) = drop_bit (POINTER_BITS cb) v"
    by (rule bit_word_eqI) (use assms in \<open>auto simp: tp_with_ptr_def POINTER_MASK_mask bit_simps
        dest: bit_imp_le_length\<close>)
  then show ?thesis by (simp add: tp_unpack_counter_def)
qed

lemma tp_with_ptr_ptr:
  assumes "tp_static_ok m cb" and "canonical m cb p"
  shows "tp_unpack_ptr m cb (tp_with_ptr cb v p) = p"
proof -
  have cb: "0 < cb" "cb < 64" using assms(1) by (simp_all add: tp_static_ok_def)
  have "tp_with_ptr cb v p AND POINTER_MASK cb = take_bit (POINTER_BITS cb) p"
    by (rule bit_word_eqI) (use cb in \<open>auto simp: tp_with_ptr_def POINTER_MASK_mask bit_simps\<close>)
  then show ?thesis using restore_take_bit [OF assms] by (simp add: tp_unpack_ptr_def)
qed

section \<open>arena_tagged_ptr\<close>

record arena_codec =
  unit_bytes :: nat
  base :: nat
  max_index :: nat
  index_bits :: nat
  index_mask :: u64
  counter_mask :: u64

function bits_loop :: "nat \<Rightarrow> nat \<Rightarrow> nat" where
  "bits_loop v bits = (if bits < 64 \<and> drop_bit bits v \<noteq> 0 then bits_loop v (bits + 1) else bits)"
  by pat_completeness auto
termination
  by (relation "measure (\<lambda>(v, bits). 64 - bits)") auto

declare bits_loop.simps [simp del]

definition bits_for :: "nat \<Rightarrow> nat" where
  "bits_for v = bits_loop v 1"

definition arena_tagged_ptr :: "nat \<Rightarrow> addr \<Rightarrow> nat \<Rightarrow> arena_codec" where
  "arena_tagged_ptr unit start sz =
     (let b = and64 start (not64 (sub64 unit 1));
          mx = add64 (sub64 (add64 start sz) b div unit) 1;
          ib = bits_for mx
      in \<lparr>unit_bytes = unit, base = b, max_index = mx, index_bits = ib,
          index_mask = push_bit ib 1 - 1,
          counter_mask = (if ib = 0 then NOT 0 else drop_bit ib (NOT 0))\<rparr>)"

definition counter_bits :: "arena_codec \<Rightarrow> nat" where
  "counter_bits c = 64 - index_bits c"

definition index_of :: "arena_codec \<Rightarrow> addr \<Rightarrow> nat" where
  "index_of c p = (if p = 0 then 0 else add64 (sub64 p (base c) div unit_bytes c) 1)"

definition at_pack :: "arena_codec \<Rightarrow> addr \<Rightarrow> u64 \<Rightarrow> u64" where
  "at_pack c p counter =
     (push_bit (index_bits c) (counter AND counter_mask c) OR of_nat (index_of c p))"

definition at_unpack_ptr :: "arena_codec \<Rightarrow> u64 \<Rightarrow> addr" where
  "at_unpack_ptr c v =
     (let index = unat (v AND index_mask c)
      in if index = 0 then 0 else add64 (base c) (mul64 (sub64 index 1) (unit_bytes c)))"

definition at_unpack_counter :: "arena_codec \<Rightarrow> u64 \<Rightarrow> u64" where
  "at_unpack_counter c v = (drop_bit (index_bits c) v AND counter_mask c)"

definition at_make :: "arena_codec \<Rightarrow> addr \<Rightarrow> u64 \<Rightarrow> u64" where
  "at_make c p counter = at_pack c p counter"

text \<open>The assertion of the constructor: at least as many counter bits as \<^verbatim>\<open>tagged_ptr\<close> has.\<close>

definition MIN_COUNTER_BITS :: nat where
  "MIN_COUNTER_BITS = 16"

definition codec_ok :: "arena_codec \<Rightarrow> bool" where
  "codec_ok c \<longleftrightarrow> MIN_COUNTER_BITS \<le> counter_bits c"

text \<open>The assertion of \<^verbatim>\<open>index_of\<close>: the nodes a head word can hold.\<close>

definition in_arena :: "arena_codec \<Rightarrow> addr \<Rightarrow> bool" where
  "in_arena c p \<longleftrightarrow> p < 18446744073709551616 \<and> base c \<le> p \<and> unit_bytes c dvd (p - base c) \<and>
     (p - base c) div unit_bytes c + 1 \<le> max_index c"

lemma bits_loop_enough:
  "v < 2 ^ 64 \<Longrightarrow> bits \<le> 64 \<Longrightarrow> bits \<le> bits_loop v bits \<and> bits_loop v bits \<le> 64 \<and> v < 2 ^ bits_loop v bits"
proof (induction v bits rule: bits_loop.induct)
  case (1 v bits)
  show ?case
  proof (cases "bits < 64 \<and> drop_bit bits v \<noteq> 0")
    case True
    with 1 show ?thesis by (simp add: bits_loop.simps [of v bits])
  next
    case False
    have "v < 2 ^ bits"
    proof (cases "bits < 64")
      case True
      with False have "v div 2 ^ bits = 0" by (simp add: drop_bit_eq_div)
      then show ?thesis by (simp add: div_eq_0_iff)
    next
      case False
      with 1 show ?thesis by simp
    qed
    with False 1 show ?thesis by (auto simp: bits_loop.simps [of v bits])
  qed
qed

text \<open>The index field is as narrow as it can be: the largest index needs every bit of it.\<close>

lemma bits_loop_tight:
  "1 < bits_loop v bits \<Longrightarrow> bits < bits_loop v bits \<Longrightarrow> 2 ^ (bits_loop v bits - 1) \<le> v"
proof (induction v bits rule: bits_loop.induct)
  case (1 v bits)
  show ?case
  proof (cases "bits < 64 \<and> drop_bit bits v \<noteq> 0")
    case True
    then have eq: "bits_loop v bits = bits_loop v (bits + 1)" by (simp add: bits_loop.simps [of v bits])
    have big: "2 ^ bits \<le> v" using True by (simp add: drop_bit_eq_div div_eq_0_iff)
    show ?thesis
    proof (cases "bits + 1 < bits_loop v (bits + 1)")
      case True
      with 1 \<open>bits < 64 \<and> drop_bit bits v \<noteq> 0\<close> eq show ?thesis by auto
    next
      case False
      with 1(3) eq have "bits_loop v bits - 1 = bits" by simp
      with big show ?thesis by simp
    qed
  next
    case False
    with 1(3) show ?thesis by (auto simp: bits_loop.simps [of v bits])
  qed
qed

lemma arena_codec_fields:
  "unit_bytes (arena_tagged_ptr u st sz) = u"
  "base (arena_tagged_ptr u st sz) = and64 st (not64 (sub64 u 1))"
  "index_bits (arena_tagged_ptr u st sz) = bits_for (max_index (arena_tagged_ptr u st sz))"
  "index_mask (arena_tagged_ptr u st sz) = mask (index_bits (arena_tagged_ptr u st sz))"
  by (simp_all add: arena_tagged_ptr_def Let_def mask_eq_exp_minus_1 push_bit_of_1)

lemma arena_index_bits:
  "1 \<le> index_bits (arena_tagged_ptr u st sz)"
  "max_index (arena_tagged_ptr u st sz) < 2 ^ index_bits (arena_tagged_ptr u st sz)"
proof -
  have "max_index (arena_tagged_ptr u st sz) < 2 ^ 64"
    using add64_bound by (simp add: arena_tagged_ptr_def Let_def)
  then show "1 \<le> index_bits (arena_tagged_ptr u st sz)"
    "max_index (arena_tagged_ptr u st sz) < 2 ^ index_bits (arena_tagged_ptr u st sz)"
    using bits_loop_enough [of "max_index (arena_tagged_ptr u st sz)" 1]
    by (simp_all add: arena_codec_fields(3) bits_for_def)
qed

text \<open>Reading back a head word: the node, and the counter modulo the width of its field.\<close>

lemma at_pack_join:
  "at_pack c p k = join_fields (index_bits c) (k AND counter_mask c) (of_nat (index_of c p))"
  by (simp add: at_pack_def join_fields_def)

lemma index_of_bound:
  assumes "p = 0 \<or> in_arena c p" and "max_index c < 18446744073709551616"
  shows "index_of c p \<le> max_index c"
    and "p \<noteq> 0 \<Longrightarrow> index_of c p = (p - base c) div unit_bytes c + 1"
  using assms by (auto simp: index_of_def in_arena_def sub64_exact add64_exact)

lemma at_ptr_pack:
  assumes c: "c = arena_tagged_ptr u st sz" and u: "0 < u"
    and p: "p = 0 \<or> in_arena c p"
  shows "at_unpack_ptr c (at_pack c p k) = p"
proof -
  let ?n = "index_bits c"
  have mx: "max_index c < 2 ^ ?n" using c arena_index_bits(2) by simp
  have mx64: "max_index c < 18446744073709551616"
    using c add64_bound by (simp add: arena_tagged_ptr_def Let_def)
  note idx = index_of_bound [OF p mx64]
  have small: "index_of c p < 2 ^ ?n" "index_of c p < 18446744073709551616"
    using idx(1) mx mx64 by linarith+
  have "take_bit ?n (of_nat (index_of c p) :: u64) = of_nat (index_of c p)"
    using small(1) by (metis take_bit_of_nat take_bit_nat_eq_self)
  then have "at_pack c p k AND index_mask c = of_nat (index_of c p)"
    using join_fields_low c by (simp add: at_pack_join arena_codec_fields(4) flip: take_bit_eq_mask)
  then have unp: "unat (at_pack c p k AND index_mask c) = index_of c p"
    using small(2) by (simp add: unat_of_nat)
  show ?thesis
  proof (cases "p = 0")
    case True
    then have "index_of c p = 0" by (simp add: index_of_def)
    with unp True show ?thesis by (simp add: at_unpack_ptr_def)
  next
    case False
    with p have ia: "in_arena c p" by simp
    have ub: "unit_bytes c = u" using c by (simp add: arena_codec_fields)
    from ia have "base c + (p - base c) div u * u = p" and "p < 18446744073709551616"
      using ub by (auto simp: in_arena_def)
    then have m: "(p - base c) div u * u < 18446744073709551616"
      and s: "base c + (p - base c) div u * u = p" by linarith+
    have "sub64 (index_of c p) 1 = (p - base c) div u"
      using idx(2) [OF False] small(2) ub sub64_exact [of 1 "index_of c p"] by simp
    then have "at_unpack_ptr c (at_pack c p k) = add64 (base c) (mul64 ((p - base c) div u) u)"
      using unp idx(2) [OF False] ub by (simp add: at_unpack_ptr_def)
    then show ?thesis using m s \<open>p < 18446744073709551616\<close> by (simp add: mul64_exact add64_exact)
  qed
qed

lemma at_counter_pack:
  assumes c: "c = arena_tagged_ptr u st sz" and u: "0 < u" and n: "index_bits c < 64"
    and p: "p = 0 \<or> in_arena c p"
  shows "at_unpack_counter c (at_pack c p k) = take_bit (counter_bits c) k"
proof -
  let ?n = "index_bits c"
  have mx: "max_index c < 2 ^ ?n" using c arena_index_bits(2) by simp
  have mx64: "max_index c < 18446744073709551616"
    using c add64_bound by (simp add: arena_tagged_ptr_def Let_def)
  have "index_of c p < 2 ^ ?n" using index_of_bound(1) [OF p mx64] mx by linarith
  then have t: "take_bit ?n (of_nat (index_of c p) :: u64) = of_nat (index_of c p)"
    by (metis take_bit_of_nat take_bit_nat_eq_self)
  have n1: "1 \<le> ?n" using c arena_index_bits(1) by simp
  have cm: "counter_mask c = mask (counter_bits c)"
  proof (rule bit_word_eqI)
    fix i assume "i < LENGTH(64)"
    have "counter_mask c = drop_bit ?n (NOT 0)"
      using c n1 by (simp add: arena_tagged_ptr_def Let_def)
    then show "bit (counter_mask c) i = bit (mask (counter_bits c) :: u64) i"
      using n by (auto simp: counter_bits_def bit_simps)
  qed
  show ?thesis
    using join_fields_high [OF t, of "k AND counter_mask c"] cm
    by (simp add: at_unpack_counter_def at_pack_join counter_bits_def take_bit_eq_mask
        flip: and.assoc)
qed

section \<open>Properties\<close>

lemma counter_cast_take_bit: "counter_cast cb c = take_bit cb c"
  by (simp add: counter_cast_def COUNTER_MASK_mask take_bit_eq_mask)

lemma take_bit_succ: "take_bit cb (take_bit cb (of_nat v :: u64) + 1) = take_bit cb (of_nat v + 1)"
proof -
  have "take_bit cb (of_nat v :: u64) + 1 = of_nat (v mod 2 ^ cb + 1)"
    by (simp add: take_bit_of_nat take_bit_eq_mod [where ?'a = nat])
  then have "take_bit cb (take_bit cb (of_nat v :: u64) + 1) = of_nat ((v mod 2 ^ cb + 1) mod 2 ^ cb)"
    by (simp only: take_bit_of_nat take_bit_eq_mod [where ?'a = nat])
  also have "\<dots> = of_nat ((v + 1) mod 2 ^ cb)" by (simp only: mod_add_left_eq)
  also have "\<dots> = take_bit cb (of_nat (v + 1) :: u64)"
    by (simp only: take_bit_of_nat take_bit_eq_mod [where ?'a = nat])
  finally show ?thesis by (simp add: add.commute)
qed

lemma take_bit_add_one: "take_bit n (take_bit n c + 1) = take_bit n (c + 1 :: u64)"
  using take_bit_succ [of n "unat c"] by simp

text \<open>A tagged pointer gives back what was packed: every pointer that the platform's rule for the
  upper bits can restore, null included, and the counter modulo the width of its field;
  incrementing the counter changes nothing else.\<close>

theorem tagged_ptr_roundtrip:
  assumes "tp_static_ok m cb" and "canonical m cb p"
  shows "tp_unpack_ptr m cb (tp_pack cb p c) = p \<and> tp_unpack_counter cb (tp_pack cb p c) = take_bit cb c \<and>
    tp_unpack_ptr m cb (tp_increment_counter m cb (tp_pack cb p c)) = p \<and>
    tp_unpack_counter cb (tp_increment_counter m cb (tp_pack cb p c)) = take_bit cb (c + 1)"
proof -
  have cb: "0 < cb" "cb < 64" using assms(1) by (simp_all add: tp_static_ok_def)
  show ?thesis
    using tp_ptr_pack [OF assms] tp_counter_pack [OF cb]
    by (simp add: tp_increment_counter_def counter_cast_take_bit take_bit_add_one)
qed

theorem tagged_ptr_roundtrip_witness:
  "tp_unpack_ptr sign_extend_47 16 (tp_pack 16 0x00007FFF12345678 65535) = 0x00007FFF12345678 \<and>
   tp_unpack_counter 16 (tp_increment_counter sign_extend_47 16 (tp_pack 16 0x00007FFF12345678 65535)) = 0"
proof -
  have "canonical sign_extend_47 16 0x00007FFF12345678"
  proof -
    have "\<not> bit (0x00007FFF12345678 :: u64) i" if "47 \<le> i" for i
    proof -
      have "(0x00007FFF12345678 :: u64) = take_bit 47 0x00007FFF12345678" by simp
      then have "bit (0x00007FFF12345678 :: u64) i = bit (take_bit 47 0x00007FFF12345678 :: u64) i" by simp
      then show ?thesis using that by (simp only: bit_take_bit_iff) simp
    qed
    then show ?thesis by (simp add: canonical_def POINTER_BITS_def)
  qed
  moreover have "tp_static_ok sign_extend_47 16" by (simp add: tp_static_ok_def POINTER_BITS_def)
  ultimately show ?thesis using tagged_ptr_roundtrip [of sign_extend_47 16 "0x00007FFF12345678" 65535] by simp
qed

text \<open>An arena-relative tagged pointer gives back every node of its arena, null included, and the
  counter modulo the bits the index leaves; the index field is no wider than the largest index
  needs.\<close>

theorem arena_tagged_ptr_roundtrip:
  assumes "c = arena_tagged_ptr u st sz" and "0 < u" and "index_bits c < 64" and "p = 0 \<or> in_arena c p"
  shows "at_unpack_ptr c (at_pack c p k) = p \<and>
    at_unpack_counter c (at_pack c p k) = take_bit (counter_bits c) k \<and>
    counter_bits c + index_bits c = 64 \<and> (1 < index_bits c \<longrightarrow> 2 ^ (index_bits c - 1) \<le> max_index c)"
proof -
  have "1 < index_bits c \<longrightarrow> 2 ^ (index_bits c - 1) \<le> max_index c"
    using bits_loop_tight [of "max_index c" 1] arena_codec_fields(3) [of u st sz] assms(1)
    by (simp add: bits_for_def)
  then show ?thesis using at_ptr_pack [OF assms(1,2,4)] at_counter_pack [OF assms(1-4)] assms(3)
    by (simp add: counter_bits_def)
qed

theorem arena_tagged_ptr_roundtrip_witness:
  "at_unpack_ptr (arena_tagged_ptr 4 4096 400) (at_pack (arena_tagged_ptr 4 4096 400) 4200 9) = 4200"
proof -
  let ?c = "arena_tagged_ptr 4 4096 400"
  have b: "base ?c = 4096" by (simp add: arena_codec_fields sub64_exact and64_def not64_def)
  have m: "max_index ?c = 101"
    using b by (simp add: arena_tagged_ptr_def Let_def sub64_exact add64_exact arena_codec_fields)
  have i: "index_bits ?c = 7"
    by (simp add: arena_codec_fields(3) m bits_for_def bits_loop.simps drop_bit_eq_div)
  have "in_arena ?c 4200" unfolding in_arena_def b m by (simp add: arena_codec_fields(1))
  then show ?thesis using arena_tagged_ptr_roundtrip [of ?c 4 4096 400 4200 9] i by simp
qed

end
