(* ===== verification/Tagged_Stack.thy ===== *)
theory Tagged_Stack
  imports Tagged_Ptr
begin

text \<open>
  \<^verbatim>\<open>lockfree::intrusive_tagged_stack\<close> (\<^verbatim>\<open>include/lockfree/intrusive_tagged_stack\<close>): a stack of
  nodes linked through a field of the nodes themselves, whose head word pairs the top node with
  an ABA counter.

  The operations come in two forms over the same expressions.  \<open>push\<close>, \<open>pop\<close> and \<open>steal_all\<close> are
  one call that runs without interference, which is how the allocators' own operations use them.
  \<open>stack_step\<close> is the interleaved form: any number of contexts (threads or interrupt handlers),
  one atomic access of the code per step, with failing compare-exchanges and retries.
\<close>

section \<open>Codecs and adapters\<close>

text \<open>
  A codec encodes head words; an adapter converts between nodes and the links stored in them.
\<close>

record codec =
  pack :: "addr \<Rightarrow> u64 \<Rightarrow> u64"
  unpack_ptr :: "u64 \<Rightarrow> addr"
  unpack_counter :: "u64 \<Rightarrow> u64"
  cast_counter :: "u64 \<Rightarrow> u64"

record adapter =
  to_link :: "addr \<Rightarrow> nat"
  to_node :: "nat \<Rightarrow> addr"

definition tagged_ptr_codec :: "pointer_top_bits \<Rightarrow> nat \<Rightarrow> codec" where
  "tagged_ptr_codec m cb = \<lparr>pack = \<lambda>p k. tp_pack cb (of_nat p) k,
     unpack_ptr = \<lambda>v. unat (tp_unpack_ptr m cb v),
     unpack_counter = tp_unpack_counter cb, cast_counter = counter_cast cb\<rparr>"

definition arena_head_codec :: "arena_codec \<Rightarrow> codec" where
  "arena_head_codec c = \<lparr>pack = at_pack c, unpack_ptr = at_unpack_ptr c,
     unpack_counter = at_unpack_counter c, cast_counter = \<lambda>k. k\<rparr>"

section \<open>The operations, without interference\<close>

definition store_link :: "addr \<Rightarrow> nat \<Rightarrow> (addr \<Rightarrow> nat) \<Rightarrow> (addr \<Rightarrow> nat)" where
  "store_link node link links = links(node := link)"

text \<open>The counter a head change installs.\<close>

definition next_counter :: "codec \<Rightarrow> u64 \<Rightarrow> u64" where
  "next_counter cd tag = cast_counter cd (unpack_counter cd tag + 1)"

definition push_desired :: "codec \<Rightarrow> addr \<Rightarrow> u64 \<Rightarrow> u64" where
  "push_desired cd node tag = pack cd node (next_counter cd tag)"

definition pop_desired :: "codec \<Rightarrow> adapter \<Rightarrow> nat \<Rightarrow> u64 \<Rightarrow> u64" where
  "pop_desired cd ad link tag = pack cd (to_node ad link) (next_counter cd tag)"

definition steal_desired :: "codec \<Rightarrow> u64 \<Rightarrow> u64" where
  "steal_desired cd tag = pack cd 0 (next_counter cd tag)"

definition push :: "codec \<Rightarrow> adapter \<Rightarrow> addr \<Rightarrow> u64 \<times> (addr \<Rightarrow> nat) \<Rightarrow> u64 \<times> (addr \<Rightarrow> nat)" where
  "push cd ad node s = (case s of (head, links) \<Rightarrow>
     (push_desired cd node head, store_link node (to_link ad (unpack_ptr cd head)) links))"

definition pop :: "codec \<Rightarrow> adapter \<Rightarrow> u64 \<times> (addr \<Rightarrow> nat) \<Rightarrow> addr \<times> u64 \<times> (addr \<Rightarrow> nat)" where
  "pop cd ad s = (case s of (head, links) \<Rightarrow>
     (let current = unpack_ptr cd head
      in if current \<noteq> 0
         then (current, pop_desired cd ad (links current) head,
               store_link current (to_link ad 0) links)
         else (0, head, links)))"

definition steal_all :: "codec \<Rightarrow> u64 \<times> (addr \<Rightarrow> nat) \<Rightarrow> addr \<times> u64 \<times> (addr \<Rightarrow> nat)" where
  "steal_all cd s = (case s of (head, links) \<Rightarrow>
     (unpack_ptr cd head, steal_desired cd head, links))"

text \<open>The list of nodes reachable from a node.\<close>

fun chain :: "adapter \<Rightarrow> (addr \<Rightarrow> nat) \<Rightarrow> addr \<Rightarrow> addr list \<Rightarrow> bool" where
  "chain ad links p [] = (p = 0)"
| "chain ad links p (x # xs) = (p = x \<and> x \<noteq> 0 \<and> chain ad links (to_node ad (links x)) xs)"

lemma chain_zero [simp]: "chain ad links 0 xs \<longleftrightarrow> xs = []"
  by (cases xs) auto

lemma chain_nonzero: "p \<noteq> 0 \<Longrightarrow> chain ad links p xs \<longleftrightarrow>
    (\<exists>ys. xs = p # ys \<and> chain ad links (to_node ad (links p)) ys)"
  by (cases xs) auto

lemma chain_update: "n \<notin> set xs \<Longrightarrow> chain ad (links(n := l)) p xs = chain ad links p xs"
  by (induction xs arbitrary: p) auto

lemma chain_cong:
  "chain ad l p xs \<Longrightarrow> (\<And>q. q \<in> set xs \<Longrightarrow> l' q = l q) \<Longrightarrow> chain ad l' p xs"
  by (induction xs arbitrary: p) auto

lemma chain_nodes_nonzero: "chain ad links p xs \<Longrightarrow> 0 \<notin> set xs"
  by (induction xs arbitrary: p) auto

lemma chain_unique: "chain ad links p xs \<Longrightarrow> chain ad links p ys \<Longrightarrow> xs = ys"
proof (induction xs arbitrary: p ys)
  case Nil
  then show ?case by (cases ys) auto
next
  case (Cons x xs)
  then show ?case by (cases ys) auto
qed

section \<open>The interleaved operations\<close>

text \<open>
  The points between two atomic accesses of the code.  A context that has loaded the head keeps
  the word it loaded and, as a ghost, the number of head changes at that moment.

  \<^item> \<open>Push_Store n tag v\<close>: the head is loaded, the link of \<open>n\<close> is still to be stored;
  \<^item> \<open>Push_CAS n tag v\<close>: the link is stored, the exchange is next;
  \<^item> \<open>Pop_Load tag v\<close>: a non-null head is loaded, the link of its node is to be loaded;
  \<^item> \<open>Pop_CAS tag link v\<close>: the link is loaded, the exchange is next;
  \<^item> \<open>Pop_Clear n\<close>: the exchange succeeded, the link of \<open>n\<close> is to be cleared;
  \<^item> \<open>Steal_CAS tag v\<close>: the head is loaded, the exchange is next.
\<close>

datatype pc =
    Idle
  | Push_Store addr u64 nat
  | Push_CAS addr u64 nat
  | Pop_Load u64 nat
  | Pop_CAS u64 nat nat
  | Pop_Clear addr
  | Steal_CAS u64 nat

record stack_state =
  head_word :: u64
  link_of :: "addr \<Rightarrow> nat"
  pcs :: "nat \<Rightarrow> pc"
  changes :: nat
  holder :: "addr \<Rightarrow> nat option"

text \<open>
  \<open>changes\<close> and \<open>holder\<close> are ghosts: the number of head changes so far, and the context that
  holds a node that is not on the stack.  A caller pushes only a node it holds.
\<close>

text \<open>
  \<^verbatim>\<open>push\<close> and \<^verbatim>\<open>pop\<close> exchange strongly, so their exchange fails only when the head is another word;
  \<^verbatim>\<open>steal_all\<close> exchanges weakly, and may also fail for no reason (\<open>Spurious\<close>).
\<close>

datatype label = Internal | Spurious nat | Pushed nat addr | Popped nat addr | Popped_Empty nat | Stolen nat addr

inductive stack_step :: "codec \<Rightarrow> adapter \<Rightarrow> stack_state \<Rightarrow> label \<Rightarrow> stack_state \<Rightarrow> bool"
  for cd :: codec and ad :: adapter where
  push_load: "pcs s t = Idle \<Longrightarrow> holder s n = Some t \<Longrightarrow>
     stack_step cd ad s Internal
       (s\<lparr>pcs := (pcs s)(t := Push_Store n (head_word s) (changes s))\<rparr>)"
| push_store: "pcs s t = Push_Store n tag v \<Longrightarrow>
     stack_step cd ad s Internal
       (s\<lparr>link_of := store_link n (to_link ad (unpack_ptr cd tag)) (link_of s),
          pcs := (pcs s)(t := Push_CAS n tag v)\<rparr>)"
| push_done: "pcs s t = Push_CAS n tag v \<Longrightarrow> head_word s = tag \<Longrightarrow>
     stack_step cd ad s (Pushed t n)
       (s\<lparr>head_word := push_desired cd n tag, pcs := (pcs s)(t := Idle),
          changes := changes s + 1, holder := (holder s)(n := None)\<rparr>)"
| push_retry: "pcs s t = Push_CAS n tag v \<Longrightarrow> head_word s \<noteq> tag \<Longrightarrow>
     stack_step cd ad s Internal
       (s\<lparr>pcs := (pcs s)(t := Push_Store n (head_word s) (changes s))\<rparr>)"
| pop_load: "pcs s t = Idle \<Longrightarrow> unpack_ptr cd (head_word s) \<noteq> 0 \<Longrightarrow>
     stack_step cd ad s Internal
       (s\<lparr>pcs := (pcs s)(t := Pop_Load (head_word s) (changes s))\<rparr>)"
| pop_empty: "pcs s t = Idle \<Longrightarrow> unpack_ptr cd (head_word s) = 0 \<Longrightarrow>
     stack_step cd ad s (Popped_Empty t) s"
| pop_link: "pcs s t = Pop_Load tag v \<Longrightarrow>
     stack_step cd ad s Internal
       (s\<lparr>pcs := (pcs s)(t := Pop_CAS tag (link_of s (unpack_ptr cd tag)) v)\<rparr>)"
| pop_done: "pcs s t = Pop_CAS tag link v \<Longrightarrow> head_word s = tag \<Longrightarrow>
     stack_step cd ad s (Popped t (unpack_ptr cd tag))
       (s\<lparr>head_word := pop_desired cd ad link tag,
          pcs := (pcs s)(t := Pop_Clear (unpack_ptr cd tag)),
          changes := changes s + 1, holder := (holder s)(unpack_ptr cd tag := Some t)\<rparr>)"
| pop_retry: "pcs s t = Pop_CAS tag link v \<Longrightarrow> head_word s \<noteq> tag \<Longrightarrow>
     unpack_ptr cd (head_word s) \<noteq> 0 \<Longrightarrow>
     stack_step cd ad s Internal
       (s\<lparr>pcs := (pcs s)(t := Pop_Load (head_word s) (changes s))\<rparr>)"
| pop_retry_empty: "pcs s t = Pop_CAS tag link v \<Longrightarrow> head_word s \<noteq> tag \<Longrightarrow>
     unpack_ptr cd (head_word s) = 0 \<Longrightarrow>
     stack_step cd ad s (Popped_Empty t) (s\<lparr>pcs := (pcs s)(t := Idle)\<rparr>)"
| pop_clear: "pcs s t = Pop_Clear n \<Longrightarrow>
     stack_step cd ad s Internal
       (s\<lparr>link_of := store_link n (to_link ad 0) (link_of s), pcs := (pcs s)(t := Idle)\<rparr>)"
| steal_load: "pcs s t = Idle \<Longrightarrow>
     stack_step cd ad s Internal
       (s\<lparr>pcs := (pcs s)(t := Steal_CAS (head_word s) (changes s))\<rparr>)"
| steal_done: "pcs s t = Steal_CAS tag v \<Longrightarrow> head_word s = tag \<Longrightarrow>
     chain ad (link_of s) (unpack_ptr cd tag) xs \<Longrightarrow>
     stack_step cd ad s (Stolen t (unpack_ptr cd tag))
       (s\<lparr>head_word := steal_desired cd tag, pcs := (pcs s)(t := Idle),
          changes := changes s + 1,
          holder := (\<lambda>n. if n \<in> set xs then Some t else holder s n)\<rparr>)"
| steal_retry: "pcs s t = Steal_CAS tag v \<Longrightarrow> head_word s \<noteq> tag \<Longrightarrow>
     stack_step cd ad s Internal
       (s\<lparr>pcs := (pcs s)(t := Steal_CAS (head_word s) (changes s))\<rparr>)"
| steal_spurious: "pcs s t = Steal_CAS tag v \<Longrightarrow> head_word s = tag \<Longrightarrow>
     stack_step cd ad s (Spurious t)
       (s\<lparr>pcs := (pcs s)(t := Steal_CAS (head_word s) (changes s))\<rparr>)"

inductive_cases push_done_cases: "stack_step cd ad s (Pushed t n) s'"
inductive_cases popped_cases: "stack_step cd ad s (Popped t n) s'"
inductive_cases popped_empty_cases: "stack_step cd ad s (Popped_Empty t) s'"
inductive_cases internal_cases: "stack_step cd ad s Internal s'"
inductive_cases stolen_cases: "stack_step cd ad s (Stolen t n) s'"

text \<open>The head word a context has loaded and will compare against, with its ghost.\<close>

fun pending :: "pc \<Rightarrow> (u64 \<times> nat) option" where
  "pending (Push_Store n tag v) = Some (tag, v)"
| "pending (Push_CAS n tag v) = Some (tag, v)"
| "pending (Pop_Load tag v) = Some (tag, v)"
| "pending (Pop_CAS tag link v) = Some (tag, v)"
| "pending (Steal_CAS tag v) = Some (tag, v)"
| "pending Idle = None"
| "pending (Pop_Clear n) = None"

text \<open>
  The documented condition on the counter: it does not wrap within its field while a context is
  stalled between its head load and its exchange.
\<close>

definition no_wrap :: "nat \<Rightarrow> stack_state \<Rightarrow> bool" where
  "no_wrap cb s \<longleftrightarrow> (\<forall>t tag v. pending (pcs s t) = Some (tag, v) \<longrightarrow> changes s - v < 2 ^ cb)"

inductive stack_reach :: "codec \<Rightarrow> adapter \<Rightarrow> nat \<Rightarrow> stack_state \<Rightarrow> stack_state \<Rightarrow> bool"
  for cd :: codec and ad :: adapter and cb :: nat and s0 :: stack_state where
  start: "stack_reach cd ad cb s0 s0"
| step: "stack_reach cd ad cb s0 s \<Longrightarrow> stack_step cd ad s l s' \<Longrightarrow> no_wrap cb s' \<Longrightarrow>
     stack_reach cd ad cb s0 s'"

text \<open>A stack at rest: empty head, every node held by the context \<open>who\<close> says.\<close>

definition stack_init :: "codec \<Rightarrow> (addr \<Rightarrow> nat option) \<Rightarrow> stack_state" where
  "stack_init cd who = \<lparr>head_word = pack cd 0 0, link_of = (\<lambda>_. 0), pcs = (\<lambda>_. Idle),
     changes = 0, holder = who\<rparr>"

text \<open>The abstract stack that a state stands for.\<close>

definition stack_abs :: "codec \<Rightarrow> adapter \<Rightarrow> stack_state \<Rightarrow> addr list \<Rightarrow> bool" where
  "stack_abs cd ad s xs \<longleftrightarrow> chain ad (link_of s) (unpack_ptr cd (head_word s)) xs \<and> distinct xs
     \<and> (\<forall>n\<in>set xs. holder s n = None)"

text \<open>What each label does to the abstract stack: the sequential stack, one operation per label.\<close>

fun abs_effect :: "label \<Rightarrow> addr list \<Rightarrow> addr list \<Rightarrow> bool" where
  "abs_effect Internal xs ys = (ys = xs)"
| "abs_effect (Spurious t) xs ys = (ys = xs)"
| "abs_effect (Pushed t n) xs ys = (ys = n # xs \<and> n \<notin> set xs)"
| "abs_effect (Popped t n) xs ys = (xs = n # ys)"
| "abs_effect (Popped_Empty t) xs ys = (xs = [] \<and> ys = [])"
| "abs_effect (Stolen t n) xs ys = (ys = [] \<and> (case xs of [] \<Rightarrow> n = 0 | x # _ \<Rightarrow> n = x))"

section \<open>The invariant of the interleaved stack\<close>

definition loaded :: "codec \<Rightarrow> nat \<Rightarrow> (addr \<Rightarrow> bool) \<Rightarrow> stack_state \<Rightarrow> u64 \<Rightarrow> nat \<Rightarrow> bool" where
  "loaded cd cb ok s tag v \<longleftrightarrow> v \<le> changes s \<and> unpack_counter cd tag = take_bit cb (of_nat v) \<and>
     (unpack_ptr cd tag = 0 \<or> ok (unpack_ptr cd tag)) \<and> (v = changes s \<longrightarrow> tag = head_word s)"

fun pc_ok :: "codec \<Rightarrow> adapter \<Rightarrow> nat \<Rightarrow> (addr \<Rightarrow> bool) \<Rightarrow> stack_state \<Rightarrow> nat \<Rightarrow> pc \<Rightarrow> bool" where
  "pc_ok cd ad cb ok s t Idle = True"
| "pc_ok cd ad cb ok s t (Push_Store n tag v) =
     (loaded cd cb ok s tag v \<and> holder s n = Some t)"
| "pc_ok cd ad cb ok s t (Push_CAS n tag v) =
     (loaded cd cb ok s tag v \<and> holder s n = Some t \<and> to_node ad (link_of s n) = unpack_ptr cd tag)"
| "pc_ok cd ad cb ok s t (Pop_Load tag v) = (loaded cd cb ok s tag v \<and> unpack_ptr cd tag \<noteq> 0)"
| "pc_ok cd ad cb ok s t (Pop_CAS tag link v) =
     (loaded cd cb ok s tag v \<and> unpack_ptr cd tag \<noteq> 0 \<and>
      (v = changes s \<longrightarrow> link = link_of s (unpack_ptr cd tag)))"
| "pc_ok cd ad cb ok s t (Pop_Clear n) = (holder s n = Some t)"
| "pc_ok cd ad cb ok s t (Steal_CAS tag v) = loaded cd cb ok s tag v"

definition stack_inv :: "codec \<Rightarrow> adapter \<Rightarrow> nat \<Rightarrow> (addr \<Rightarrow> bool) \<Rightarrow> stack_state \<Rightarrow> addr list \<Rightarrow> bool" where
  "stack_inv cd ad cb ok s xs \<longleftrightarrow> stack_abs cd ad s xs \<and> (\<forall>n\<in>set xs. ok n) \<and>
     (\<forall>n t. holder s n = Some t \<longrightarrow> ok n \<and> n \<noteq> 0) \<and>
     unpack_counter cd (head_word s) = take_bit cb (of_nat (changes s)) \<and>
     (\<forall>t. pc_ok cd ad cb ok s t (pcs s t))"

lemma pc_ok_pending:
  "pc_ok cd ad cb ok s t p \<Longrightarrow> pending p = Some (tag, v) \<Longrightarrow> loaded cd cb ok s tag v"
  by (cases p) auto

text \<open>Equal counters within one turn of the field mean equal numbers of changes.\<close>

lemma counter_no_alias:
  assumes "take_bit cb (of_nat v :: u64) = take_bit cb (of_nat w)" and "cb \<le> 64"
    and "v \<le> w" and "w - v < 2 ^ cb"
  shows "v = w"
proof -
  have "take_bit cb v = take_bit cb w"
  proof -
    have "unat (take_bit cb (of_nat v :: u64)) = unat (take_bit cb (of_nat w :: u64))"
      using assms(1) by simp
    then have "take_bit cb (v mod 2 ^ 64) = take_bit cb (w mod 2 ^ 64)"
      by (simp add: unsigned_take_bit_eq unat_of_nat)
    then show ?thesis using assms(2)
      by (metis take_bit_eq_mod take_bit_take_bit min.absorb1)
  qed
  then have "v mod 2 ^ cb = w mod 2 ^ cb" by (simp add: take_bit_eq_mod)
  then have "(w - v) mod 2 ^ cb = 0" using assms(3) by (metis mod_eq_dvd_iff_nat dvd_imp_mod_0)
  then show ?thesis using assms(3,4) by simp
qed

locale tagged_stack =
  fixes cd :: codec and ad :: adapter and cb :: nat and ok :: "addr \<Rightarrow> bool"
  assumes ptr_pack: "p = 0 \<or> ok p \<Longrightarrow> unpack_ptr cd (pack cd p k) = p"
    and counter_pack: "p = 0 \<or> ok p \<Longrightarrow> unpack_counter cd (pack cd p k) = take_bit cb k"
    and cast_cast: "take_bit cb (cast_counter cd k) = take_bit cb k"
    and node_link: "p = 0 \<or> ok p \<Longrightarrow> to_node ad (to_link ad p) = p"
    and width: "cb \<le> 64"
begin

text \<open>One call without interference.\<close>

definition holds :: "u64 \<times> (addr \<Rightarrow> nat) \<Rightarrow> addr list \<Rightarrow> bool" where
  "holds s xs \<longleftrightarrow> chain ad (snd s) (unpack_ptr cd (fst s)) xs \<and> distinct xs \<and> (\<forall>n\<in>set xs. ok n)"

lemma holds_empty: "holds (pack cd 0 k, links) []"
  by (simp add: holds_def ptr_pack)

lemma holds_frame: "holds (h, l) xs \<Longrightarrow> n \<notin> set xs \<Longrightarrow> holds (h, l(n := x)) xs"
  by (simp add: holds_def chain_update)

lemma push_holds:
  assumes "holds s xs" and "ok n" and "n \<noteq> 0" and "n \<notin> set xs"
  shows "holds (push cd ad n s) (n # xs)"
proof -
  obtain h l where s: "s = (h, l)" by (cases s)
  have "chain ad l (unpack_ptr cd h) xs" using assms(1) s by (simp add: holds_def)
  moreover have "unpack_ptr cd h = 0 \<or> ok (unpack_ptr cd h)"
    using assms(1) s by (cases xs) (auto simp: holds_def)
  ultimately show ?thesis using assms s
    by (simp add: holds_def push_def push_desired_def store_link_def ptr_pack node_link chain_update)
qed

lemma pop_holds_Nil: "holds s [] \<Longrightarrow> pop cd ad s = (0, fst s, snd s)"
  by (cases s) (simp add: holds_def pop_def)

lemma pop_holds_Cons:
  assumes "holds s (n # xs)"
  shows "\<exists>h' l'. pop cd ad s = (n, h', l') \<and> n \<noteq> 0 \<and> holds (h', l') xs \<and> l' = (snd s)(n := to_link ad 0)"
proof -
  obtain h l where s: "s = (h, l)" by (cases s)
  have c: "unpack_ptr cd h = n" "n \<noteq> 0" "chain ad l (to_node ad (l n)) xs" "n \<notin> set xs" "distinct xs"
    "\<forall>m\<in>set xs. ok m" using assms s by (simp_all add: holds_def)
  have "to_node ad (l n) = 0 \<or> ok (to_node ad (l n))"
    using c(3,6) by (cases xs) auto
  then have "unpack_ptr cd (pop_desired cd ad (l n) h) = to_node ad (l n)"
    by (simp add: pop_desired_def ptr_pack)
  with c s show ?thesis by (simp add: pop_def store_link_def holds_def chain_update)
qed

lemma steal_all_holds:
  assumes "holds s xs"
  shows "\<exists>h'. steal_all cd s = (case xs of [] \<Rightarrow> 0 | x # _ \<Rightarrow> x, h', snd s) \<and> holds (h', snd s) []
    \<and> chain ad (snd s) (case xs of [] \<Rightarrow> 0 | x # _ \<Rightarrow> x) xs"
proof -
  obtain h l where s: "s = (h, l)" by (cases s)
  have "unpack_ptr cd h = (case xs of [] \<Rightarrow> 0 | x # _ \<Rightarrow> x)" "chain ad l (unpack_ptr cd h) xs"
    using assms s by (auto simp: holds_def split: list.splits)
  then show ?thesis using s by (simp add: steal_all_def steal_desired_def holds_def ptr_pack)
qed

text \<open>Head changes.\<close>

lemma next_counter_changes:
  assumes "unpack_counter cd tag = take_bit cb (of_nat v)"
  shows "take_bit cb (next_counter cd tag) = take_bit cb (of_nat (v + 1))"
proof -
  have "take_bit cb (next_counter cd tag) = take_bit cb (take_bit cb (of_nat v) + 1)"
    by (simp add: next_counter_def cast_cast assms)
  also have "\<dots> = take_bit cb (of_nat v + 1)"
    by (rule take_bit_succ)
  finally show ?thesis by (simp add: add.commute)
qed

text \<open>A successful exchange happens in the state the head was loaded in.\<close>

lemma exchange_current:
  assumes "stack_inv cd ad cb ok s xs" and "no_wrap cb s"
    and "pending (pcs s t) = Some (tag, v)" and "head_word s = tag"
  shows "v = changes s"
proof -
  from assms(1) have "pc_ok cd ad cb ok s t (pcs s t)" by (simp add: stack_inv_def)
  then have l: "loaded cd cb ok s tag v" using assms(3) by (rule pc_ok_pending)
  have "take_bit cb (of_nat v :: u64) = take_bit cb (of_nat (changes s))"
    using assms(1,4) l by (simp add: stack_inv_def loaded_def)
  moreover have "changes s - v < 2 ^ cb" using assms(2,3) by (simp add: no_wrap_def)
  ultimately show ?thesis using counter_no_alias width l by (simp add: loaded_def)
qed

end

text \<open>Steps of other contexts do not disturb a context's view.\<close>

lemma pc_ok_frame:
  assumes "pc_ok cd ad cb ok s t p" and "head_word s' = head_word s" and "changes s' = changes s"
    and "\<And>n. holder s n = Some t \<Longrightarrow> holder s' n = Some t \<and> link_of s' n = link_of s n"
    and "link_of s' (unpack_ptr cd (head_word s)) = link_of s (unpack_ptr cd (head_word s))"
  shows "pc_ok cd ad cb ok s' t p"
  using assms by (cases p) (auto simp: loaded_def)

lemma pc_ok_change:
  assumes "pc_ok cd ad cb ok s t p" and "changes s' = changes s + 1" and "link_of s' = link_of s"
    and "\<And>n. holder s n = Some t \<Longrightarrow> holder s' n = Some t"
  shows "pc_ok cd ad cb ok s' t p"
  using assms by (cases p) (auto simp: loaded_def)

lemma loaded_now:
  assumes "stack_inv cd ad cb ok s xs"
  shows "loaded cd cb ok s (head_word s) (changes s)"
proof -
  have "unpack_ptr cd (head_word s) = 0 \<or> ok (unpack_ptr cd (head_word s))"
    using assms by (cases xs) (auto simp: stack_inv_def stack_abs_def)
  then show ?thesis using assms by (simp add: loaded_def stack_inv_def)
qed

text \<open>A step that only moves the program counter of one context.\<close>

lemma stack_inv_move:
  assumes "stack_inv cd ad cb ok s xs" and "pc_ok cd ad cb ok s t p"
  shows "stack_inv cd ad cb ok (s\<lparr>pcs := (pcs s)(t := p)\<rparr>) xs"
proof -
  let ?s = "s\<lparr>pcs := (pcs s)(t := p)\<rparr>"
  have "pc_ok cd ad cb ok ?s u q" if "pc_ok cd ad cb ok s u q" for u q
    using that by (rule pc_ok_frame) auto
  then show ?thesis using assms by (auto simp: stack_inv_def stack_abs_def)
qed

text \<open>A step that stores the link of a node its context holds.\<close>

lemma stack_inv_link:
  assumes inv: "stack_inv cd ad cb ok s xs" and held: "holder s n = Some t"
    and pc: "pc_ok cd ad cb ok (s\<lparr>link_of := (link_of s)(n := l)\<rparr>) t p"
  shows "stack_inv cd ad cb ok (s\<lparr>link_of := (link_of s)(n := l), pcs := (pcs s)(t := p)\<rparr>) xs"
proof -
  let ?s1 = "s\<lparr>link_of := (link_of s)(n := l)\<rparr>"
  have free: "\<forall>m\<in>set xs. holder s m = None" and ch: "chain ad (link_of s) (unpack_ptr cd (head_word s)) xs"
    using inv by (auto simp: stack_inv_def stack_abs_def)
  then have n: "n \<notin> set xs" using held by auto
  have nz: "n \<noteq> 0" using inv held by (auto simp: stack_inv_def)
  then have hd: "unpack_ptr cd (head_word s) \<noteq> n" using ch n by (cases xs) auto
  have other: "pc_ok cd ad cb ok ?s1 u (pcs s u)" if "u \<noteq> t" for u
  proof (rule pc_ok_frame)
    show "pc_ok cd ad cb ok s u (pcs s u)" using inv by (simp add: stack_inv_def)
    show "\<And>m. holder s m = Some u \<Longrightarrow> holder ?s1 m = Some u \<and> link_of ?s1 m = link_of s m"
      using held that by auto
  qed (use hd in auto)
  have "pc_ok cd ad cb ok (s\<lparr>link_of := (link_of s)(n := l), pcs := (pcs s)(t := p)\<rparr>) u
      (((pcs s)(t := p)) u)" for u
  proof -
    have "pc_ok cd ad cb ok ?s1 u (((pcs s)(t := p)) u)" using other [of u] pc by simp
    then show ?thesis by (rule pc_ok_frame) auto
  qed
  then show ?thesis using inv n by (simp add: stack_inv_def stack_abs_def chain_update)
qed

context tagged_stack
begin

text \<open>A successful exchange: the head changes, some nodes change hands.\<close>

lemma stack_inv_exchange:
  assumes inv: "stack_inv cd ad cb ok s xs" and now: "unpack_counter cd (head_word s) = take_bit cb (of_nat (changes s))"
    and q: "q = 0 \<or> ok q"
    and ch: "chain ad (link_of s) q ys" and d: "distinct ys" and okys: "\<forall>n\<in>set ys. ok n"
    and free: "\<forall>n\<in>set ys. h n = None"
    and okh: "\<forall>n u. h n = Some u \<longrightarrow> ok n \<and> n \<noteq> 0"
    and keep: "\<And>n u. u \<noteq> t \<Longrightarrow> holder s n = Some u \<Longrightarrow> h n = Some u"
    and pc: "\<And>s'. holder s' = h \<Longrightarrow> pc_ok cd ad cb ok s' t p"
  shows "stack_inv cd ad cb ok (s\<lparr>head_word := pack cd q (next_counter cd (head_word s)),
      pcs := (pcs s)(t := p), changes := changes s + 1, holder := h\<rparr>) ys"
proof -
  let ?s = "s\<lparr>head_word := pack cd q (next_counter cd (head_word s)),
      pcs := (pcs s)(t := p), changes := changes s + 1, holder := h\<rparr>"
  have cnt: "unpack_counter cd (head_word ?s) = take_bit cb (of_nat (changes ?s))"
    using next_counter_changes [OF now] counter_pack [OF q] by simp
  have pcs': "pc_ok cd ad cb ok ?s u (pcs ?s u)" for u
  proof (cases "u = t")
    case True
    then show ?thesis using pc by simp
  next
    case False
    have "pc_ok cd ad cb ok s u (pcs s u)" using inv by (simp add: stack_inv_def)
    then have "pc_ok cd ad cb ok ?s u (pcs s u)"
      by (rule pc_ok_change) (use keep False in auto)
    then show ?thesis using False by simp
  qed
  show ?thesis unfolding stack_inv_def
    using cnt pcs' ch d okys free okh ptr_pack [OF q] by (simp add: stack_abs_def)
qed

lemma stack_step_inv:
  assumes inv: "stack_inv cd ad cb ok s xs" and nw: "no_wrap cb s" and st: "stack_step cd ad s l s'"
  shows "\<exists>ys. abs_effect l xs ys \<and> stack_inv cd ad cb ok s' ys"
  using st
proof cases
  case (push_load t n)
  then show ?thesis using inv loaded_now [OF inv] by (auto intro!: stack_inv_move)
next
  case (push_store t n tag v)
  have "pc_ok cd ad cb ok s t (pcs s t)" using inv by (simp add: stack_inv_def)
  then have l: "loaded cd cb ok s tag v" and h: "holder s n = Some t" using push_store by simp_all
  have "to_node ad (to_link ad (unpack_ptr cd tag)) = unpack_ptr cd tag"
    using l node_link by (simp add: loaded_def)
  with l h have "pc_ok cd ad cb ok (s\<lparr>link_of := (link_of s)(n := to_link ad (unpack_ptr cd tag))\<rparr>) t
      (Push_CAS n tag v)" by (simp add: loaded_def)
  from stack_inv_link [OF inv h this] push_store show ?thesis by (auto simp: store_link_def)
next
  case (push_done t n tag v)
  have pt: "pc_ok cd ad cb ok s t (pcs s t)" using inv by (simp add: stack_inv_def)
  then have h: "holder s n = Some t" and lk: "to_node ad (link_of s n) = unpack_ptr cd tag"
    using push_done by simp_all
  have n: "ok n" "n \<noteq> 0" using inv h by (auto simp: stack_inv_def)
  have a: "chain ad (link_of s) (unpack_ptr cd tag) xs" "distinct xs" "\<forall>m\<in>set xs. holder s m = None"
    "\<forall>m\<in>set xs. ok m" using inv push_done by (auto simp: stack_inv_def stack_abs_def)
  then have nin: "n \<notin> set xs" using h by auto
  have "stack_inv cd ad cb ok (s\<lparr>head_word := pack cd n (next_counter cd (head_word s)),
      pcs := (pcs s)(t := Idle), changes := changes s + 1, holder := (holder s)(n := None)\<rparr>) (n # xs)"
    by (rule stack_inv_exchange [OF inv]) (use inv a n nin lk h in \<open>auto simp: stack_inv_def\<close>)
  then show ?thesis using push_done nin by (auto simp: push_desired_def)
next
  case (push_retry t n tag v)
  have "pc_ok cd ad cb ok s t (pcs s t)" using inv by (simp add: stack_inv_def)
  then show ?thesis using inv loaded_now [OF inv] push_retry by (auto intro!: stack_inv_move)
next
  case (pop_load t)
  then show ?thesis using inv loaded_now [OF inv] by (auto intro!: stack_inv_move)
next
  case (pop_empty t)
  then show ?thesis using inv by (auto simp: stack_inv_def stack_abs_def)
next
  case (pop_link t tag v)
  have "pc_ok cd ad cb ok s t (pcs s t)" using inv by (simp add: stack_inv_def)
  then show ?thesis using inv pop_link by (auto intro!: stack_inv_move)
next
  case (pop_done t tag link v)
  have pt: "pc_ok cd ad cb ok s t (pcs s t)" using inv by (simp add: stack_inv_def)
  have "v = changes s" using exchange_current [OF inv nw, of t tag v] pop_done by simp
  with pt pop_done have lk: "link = link_of s (unpack_ptr cd tag)" and nz: "unpack_ptr cd tag \<noteq> 0" by simp_all
  have a: "chain ad (link_of s) (unpack_ptr cd tag) xs" "distinct xs" "\<forall>m\<in>set xs. holder s m = None"
    "\<forall>m\<in>set xs. ok m" using inv pop_done by (auto simp: stack_inv_def stack_abs_def)
  then obtain ys where xs: "xs = unpack_ptr cd tag # ys"
    and ch: "chain ad (link_of s) (to_node ad link) ys" using nz lk by (auto simp: chain_nonzero)
  have q: "to_node ad link = 0 \<or> ok (to_node ad link)" using ch a(4) xs by (cases ys) auto
  have "stack_inv cd ad cb ok (s\<lparr>head_word := pack cd (to_node ad link) (next_counter cd (head_word s)),
      pcs := (pcs s)(t := Pop_Clear (unpack_ptr cd tag)), changes := changes s + 1,
      holder := (holder s)(unpack_ptr cd tag := Some t)\<rparr>) ys"
    by (rule stack_inv_exchange [OF inv])
      (use inv a xs ch q nz in \<open>auto simp: stack_inv_def split: if_splits\<close>)
  then show ?thesis using pop_done xs by (auto simp: pop_desired_def)
next
  case (pop_retry t tag link v)
  then show ?thesis using inv loaded_now [OF inv] by (auto intro!: stack_inv_move)
next
  case (pop_retry_empty t tag link v)
  have "stack_inv cd ad cb ok (s\<lparr>pcs := (pcs s)(t := Idle)\<rparr>) xs"
    using inv by (rule stack_inv_move) simp
  then show ?thesis using pop_retry_empty inv by (auto simp: stack_inv_def stack_abs_def)
next
  case (pop_clear t n)
  have "pc_ok cd ad cb ok s t (pcs s t)" using inv by (simp add: stack_inv_def)
  then have h: "holder s n = Some t" using pop_clear by simp
  from stack_inv_link [OF inv h, of "to_link ad 0" Idle] pop_clear show ?thesis
    by (auto simp: store_link_def)
next
  case (steal_load t)
  then show ?thesis using inv loaded_now [OF inv] by (auto intro!: stack_inv_move)
next
  case (steal_done t tag v zs)
  have a: "chain ad (link_of s) (unpack_ptr cd tag) xs" "\<forall>m\<in>set xs. holder s m = None"
    "\<forall>m\<in>set xs. ok m" using inv steal_done by (auto simp: stack_inv_def stack_abs_def)
  have zs: "zs = xs" using chain_unique steal_done a(1) by blast
  have nz: "\<forall>m\<in>set xs. m \<noteq> 0" using chain_nodes_nonzero [OF a(1)] by metis
  have "stack_inv cd ad cb ok (s\<lparr>head_word := pack cd 0 (next_counter cd (head_word s)),
      pcs := (pcs s)(t := Idle), changes := changes s + 1,
      holder := (\<lambda>n. if n \<in> set xs then Some t else holder s n)\<rparr>) []"
    by (rule stack_inv_exchange [OF inv])
      (use inv a nz in \<open>auto simp: stack_inv_def split: if_splits\<close>)
  moreover have "abs_effect l xs []" using a(1) steal_done by (cases xs) auto
  ultimately show ?thesis using steal_done zs by (auto simp: steal_desired_def)
next
  case (steal_retry t tag v)
  then show ?thesis using inv loaded_now [OF inv] by (auto intro!: stack_inv_move)
next
  case (steal_spurious t tag v)
  then show ?thesis using inv loaded_now [OF inv] by (auto intro!: stack_inv_move)
qed

lemma stack_init_inv:
  assumes "\<forall>n t. who n = Some t \<longrightarrow> ok n \<and> n \<noteq> 0"
  shows "stack_inv cd ad cb ok (stack_init cd who) [] \<and> no_wrap cb (stack_init cd who)"
  using assms by (auto simp: stack_inv_def stack_init_def stack_abs_def no_wrap_def ptr_pack counter_pack)

lemma stack_reach_inv:
  assumes "stack_reach cd ad cb (stack_init cd who) s" and "\<forall>n t. who n = Some t \<longrightarrow> ok n \<and> n \<noteq> 0"
  shows "\<exists>xs. stack_inv cd ad cb ok s xs \<and> no_wrap cb s"
  using assms(1)
proof (induction rule: stack_reach.induct)
  case start
  show ?case using stack_init_inv [OF assms(2)] by blast
next
  case (step s l s')
  then show ?case using stack_step_inv by blast
qed

text \<open>The interleaved stack refines the sequential one: every step is one abstract operation.\<close>

lemma stack_refines:
  assumes "stack_reach cd ad cb (stack_init cd who) s" and "\<forall>n t. who n = Some t \<longrightarrow> ok n \<and> n \<noteq> 0"
    and "stack_step cd ad s l s'"
  shows "\<exists>xs ys. stack_abs cd ad s xs \<and> stack_abs cd ad s' ys \<and> abs_effect l xs ys"
proof -
  obtain xs where "stack_inv cd ad cb ok s xs" and "no_wrap cb s"
    using stack_reach_inv [OF assms(1,2)] by blast
  then show ?thesis using stack_step_inv assms(3) unfolding stack_inv_def by blast
qed

end

section \<open>Lock freedom\<close>

text \<open>
  A run in which no operation takes effect: the contexts of \<open>T\<close> load, store links, fail and retry.
\<close>

inductive idle_run :: "codec \<Rightarrow> adapter \<Rightarrow> nat set \<Rightarrow> stack_state \<Rightarrow> nat \<Rightarrow> stack_state \<Rightarrow> bool"
  for cd :: codec and ad :: adapter and T :: "nat set" and s0 :: stack_state where
  start: "idle_run cd ad T s0 0 s0"
| step: "idle_run cd ad T s0 k s \<Longrightarrow> stack_step cd ad s Internal s' \<Longrightarrow> (\<And>t. t \<notin> T \<Longrightarrow> pcs s' t = pcs s t) \<Longrightarrow>
     idle_run cd ad T s0 (Suc k) s'"

text \<open>How many steps a context has left before it takes effect, when the head stays the word \<open>h\<close>.\<close>

fun steps_left :: "u64 \<Rightarrow> pc \<Rightarrow> nat" where
  "steps_left h Idle = 2"
| "steps_left h (Push_Store n tag v) = (if tag = h then 1 else 3)"
| "steps_left h (Push_CAS n tag v) = (if tag = h then 0 else 2)"
| "steps_left h (Pop_Load tag v) = (if tag = h then 1 else 3)"
| "steps_left h (Pop_CAS tag link v) = (if tag = h then 0 else 2)"
| "steps_left h (Pop_Clear n) = 3"
| "steps_left h (Steal_CAS tag v) = (if tag = h then 0 else 1)"

lemma steps_left_bound: "steps_left h p \<le> 3"
  by (cases p) auto

lemma internal_step_progress:
  assumes "stack_step cd ad s Internal s'"
  shows "head_word s' = head_word s \<and> (\<exists>t p. pcs s' = (pcs s)(t := p) \<and> steps_left (head_word s) p < steps_left (head_word s) (pcs s t))"
  using assms by (rule internal_cases) fastforce+

lemma idle_run_head: "idle_run cd ad T s0 k s \<Longrightarrow> head_word s = head_word s0"
  by (induction rule: idle_run.induct) (simp_all add: internal_step_progress)

text \<open>Every step uses one up, whichever context makes it.\<close>

lemma idle_run_steps:
  assumes "idle_run cd ad T s0 k s" and "finite T"
  shows "k + (\<Sum>t\<in>T. steps_left (head_word s0) (pcs s t)) \<le> (\<Sum>t\<in>T. steps_left (head_word s0) (pcs s0 t))"
  using assms(1)
proof (induction rule: idle_run.induct)
  case start
  show ?case by simp
next
  case (step k s s')
  let ?h = "head_word s0"
  obtain t p where t: "pcs s' = (pcs s)(t := p)" "steps_left ?h p < steps_left ?h (pcs s t)"
    using internal_step_progress [OF step.hyps(2)] idle_run_head [OF step.hyps(1)] by auto
  have "t \<in> T" using step.hyps(3) [of t] t by (cases "t \<in> T") auto
  then have "(\<Sum>u\<in>T. steps_left ?h (pcs s' u)) < (\<Sum>u\<in>T. steps_left ?h (pcs s u))"
    using t by (intro sum_strict_mono_ex1 assms(2)) auto
  then show ?case using step.IH by simp
qed

text \<open>Lock freedom: some context takes effect before all have used up three steps each.\<close>

lemma idle_run_bound:
  assumes "idle_run cd ad T s0 k s" and "finite T"
  shows "k \<le> 3 * card T"
proof -
  have "(\<Sum>t\<in>T. steps_left (head_word s0) (pcs s0 t)) \<le> (\<Sum>t\<in>T. 3)"
    by (intro sum_mono steps_left_bound)
  then show ?thesis using idle_run_steps [OF assms] by simp
qed

text \<open>The abstract list is determined by the state.\<close>

lemma stack_abs_unique: "stack_abs cd ad s xs \<Longrightarrow> stack_abs cd ad s ys \<Longrightarrow> xs = ys"
  using chain_unique unfolding stack_abs_def by blast

end
