(* ===== verification/Static_Arena.thy ===== *)
theory Static_Arena
  imports Memory_Resource Tiling Tagged_Stack
begin

text \<open>
  \<^verbatim>\<open>pmr::lockfree_static_arena_resource\<close>
  (\<^verbatim>\<open>include/__memory_resource/lockfree_static_arena_resource.h\<close>): a bump allocator with
  power-of-two free bins over a caller-supplied arena.

  The state holds the arena's bounds, the bump pointer, the head words of the eight free bins
  and the two parts of memory the resource itself reads back: the link table (one cell per
  64-byte block) and the size header of a free block.  Each operation is one call that runs
  without interference; the interleaving of the bins is the subject of \<open>Tagged_Stack\<close>.
\<close>

section \<open>State\<close>

definition NUM_BINS :: nat where "NUM_BINS = 8"
definition MIN_ALIGNMENT :: nat where "MIN_ALIGNMENT = 64"
definition LARGEST_CLASS :: nat where "LARGEST_CLASS = 4096"
definition LINK_CELL_SIZE :: nat where "LINK_CELL_SIZE = 4"
definition FREE_HEADER_SIZE :: nat where "FREE_HEADER_SIZE = 8"

lemmas arena_constants = NUM_BINS_def MIN_ALIGNMENT_def LARGEST_CLASS_def LINK_CELL_SIZE_def
  FREE_HEADER_SIZE_def

record static_arena =
  arena_start :: addr
  arena_end :: addr
  cells :: addr
  current_ptr :: addr
  head_codec :: arena_codec
  free_stack_heads :: "u64 list"
  cell_links :: "addr \<Rightarrow> nat"
  header_sizes :: "addr \<Rightarrow> nat"

definition aligned_start :: "addr \<Rightarrow> addr" where
  "aligned_start start = align_mask start MIN_ALIGNMENT"

definition block_count :: "addr \<Rightarrow> nat \<Rightarrow> nat" where
  "block_count start sz =
     (let padding = sub64 (aligned_start start) start;
          usable = (if sz > padding then sz - padding else 0);
          blocks = usable div (MIN_ALIGNMENT + LINK_CELL_SIZE)
      in if blocks < 4294967295 then blocks else 4294967295 - 1)"

text \<open>The constructor; \<open>links0\<close> and \<open>sizes0\<close> are what the arena's memory held before.\<close>

definition static_arena_resource :: "(addr \<Rightarrow> nat) \<Rightarrow> (addr \<Rightarrow> nat) \<Rightarrow> addr \<Rightarrow> nat \<Rightarrow> static_arena" where
  "static_arena_resource links0 sizes0 start sz =
     (let first = aligned_start start;
          last = add64 first (mul64 (block_count start sz) MIN_ALIGNMENT);
          codec = arena_tagged_ptr LINK_CELL_SIZE last (mul64 (block_count start sz) LINK_CELL_SIZE)
      in \<lparr>arena_start = first, arena_end = last, cells = last, current_ptr = first,
          head_codec = codec, free_stack_heads = replicate NUM_BINS (at_make codec 0 0),
          cell_links = links0, header_sizes = sizes0\<rparr>)"

definition capacity :: "static_arena \<Rightarrow> nat" where
  "capacity s = sub64 (arena_end s) (arena_start s)"

definition cell_of :: "static_arena \<Rightarrow> addr \<Rightarrow> addr" where
  "cell_of s blk = add64 (cells s) (mul64 (sub64 blk (arena_start s) div MIN_ALIGNMENT) LINK_CELL_SIZE)"

definition block_of :: "static_arena \<Rightarrow> addr \<Rightarrow> addr" where
  "block_of s cell = add64 (arena_start s) (mul64 (sub64 cell (cells s) div LINK_CELL_SIZE) MIN_ALIGNMENT)"

definition cell_adapter :: "addr \<Rightarrow> adapter" where
  "cell_adapter base_cell = \<lparr>
     to_link = \<lambda>cell. if cell \<noteq> 0
       then ((sub64 cell base_cell div LINK_CELL_SIZE) mod 4294967296 + 1) mod 4294967296 else 0,
     to_node = \<lambda>link. if link \<noteq> 0
       then add64 base_cell (mul64 (link - 1) LINK_CELL_SIZE) else 0\<rparr>"

section \<open>Size classes\<close>

text \<open>
  \<^verbatim>\<open>class_size <<= 1\<close> until it holds the size; the loop starts from 64, so \<open>0 < c\<close> always holds
  (with \<open>c = 0\<close> the C++ loop would not end).
\<close>

function class_at_least :: "nat \<Rightarrow> nat \<Rightarrow> nat" where
  "class_at_least sz c = (if 0 < c \<and> c < sz then class_at_least sz (c * 2) else c)"
  by pat_completeness auto
termination
  by (relation "measure (\<lambda>(sz, c). sz - c)") auto

declare class_at_least.simps [simp del]

definition block_size_for :: "nat \<Rightarrow> nat" where
  "block_size_for bytes =
     (let sz = (if bytes < FREE_HEADER_SIZE then FREE_HEADER_SIZE else bytes);
          sz = and64 (add64 sz (MIN_ALIGNMENT - 1)) (not64 (MIN_ALIGNMENT - 1))
      in if sz > LARGEST_CLASS then sz else class_at_least sz MIN_ALIGNMENT)"

function bin_loop :: "nat \<Rightarrow> nat \<Rightarrow> nat \<Rightarrow> nat" where
  "bin_loop sz c bin = (if 0 < c \<and> c < sz then bin_loop sz (c * 2) (bin + 1) else bin)"
  by pat_completeness auto
termination
  by (relation "measure (\<lambda>(sz, c, bin). sz - c)") auto

declare bin_loop.simps [simp del]

definition get_bin :: "nat \<Rightarrow> nat" where
  "get_bin block_size =
     (if block_size > LARGEST_CLASS then NUM_BINS - 1 else bin_loop block_size MIN_ALIGNMENT 0)"

section \<open>Free bins\<close>

definition arena_stack :: "static_arena \<Rightarrow> codec" where
  "arena_stack s = arena_head_codec (head_codec s)"

definition bin_push :: "nat \<Rightarrow> addr \<Rightarrow> static_arena \<Rightarrow> static_arena" where
  "bin_push bin cell s =
     (case push (arena_stack s) (cell_adapter (cells s)) cell (free_stack_heads s ! bin, cell_links s) of
        (h, l) \<Rightarrow> s\<lparr>free_stack_heads := (free_stack_heads s)[bin := h], cell_links := l\<rparr>)"

definition bin_pop :: "nat \<Rightarrow> static_arena \<Rightarrow> addr \<times> static_arena" where
  "bin_pop bin s =
     (case pop (arena_stack s) (cell_adapter (cells s)) (free_stack_heads s ! bin, cell_links s) of
        (cell, h, l) \<Rightarrow>
          (cell, s\<lparr>free_stack_heads := (free_stack_heads s)[bin := h], cell_links := l\<rparr>))"

definition bin_steal :: "nat \<Rightarrow> static_arena \<Rightarrow> addr \<times> static_arena" where
  "bin_steal bin s =
     (case steal_all (arena_stack s) (free_stack_heads s ! bin, cell_links s) of
        (cell, h, l) \<Rightarrow>
          (cell, s\<lparr>free_stack_heads := (free_stack_heads s)[bin := h], cell_links := l\<rparr>))"

definition push_free :: "addr \<Rightarrow> nat \<Rightarrow> static_arena \<Rightarrow> static_arena" where
  "push_free blk block_size s =
     (let s = s\<lparr>header_sizes := (header_sizes s)(blk := block_size)\<rparr>
      in bin_push (get_bin block_size) (cell_of s blk) s)"

text \<open>
  The loop over the classes 4096, 2048, \<dots>, which ends when no bytes are left; \<open>None\<close> is the
  endless loop at class 0 that a length that is no multiple of 64 would cause.
\<close>

partial_function (option) pieces_loop :: "nat \<Rightarrow> addr \<Rightarrow> nat \<Rightarrow> static_arena \<Rightarrow> static_arena option" where
  "pieces_loop class_size blk bytes s =
     (if bytes = 0 then Some s
      else if bytes \<ge> class_size
        then pieces_loop (class_size div 2) (add64 blk class_size) (bytes - class_size)
               (push_free blk class_size s)
        else pieces_loop (class_size div 2) blk bytes s)"

declare pieces_loop.simps [code]

definition free_pieces :: "addr \<Rightarrow> nat \<Rightarrow> static_arena \<Rightarrow> static_arena option" where
  "free_pieces blk bytes s =
     (if bytes > LARGEST_CLASS then Some (push_free blk bytes s)
      else pieces_loop LARGEST_CLASS blk bytes s)"

section \<open>Allocation\<close>

text \<open>Class bins, from the request's own class up: the first block found and its bin.\<close>

function pop_class :: "nat \<Rightarrow> static_arena \<Rightarrow> (addr \<times> nat) option \<times> static_arena" where
  "pop_class bin s =
     (if bin < NUM_BINS - 1
      then (case bin_pop bin s of (cell, s') \<Rightarrow>
              if cell \<noteq> 0 then (Some (cell, bin), s') else pop_class (bin + 1) s')
      else (None, s))"
  by pat_completeness auto
termination
  by (relation "measure (\<lambda>(bin, s). NUM_BINS - bin)") (auto simp: NUM_BINS_def)

declare pop_class.simps [simp del]

text \<open>The best-fit scan of the stolen list, with the predecessor of the best block.\<close>

partial_function (option) find_best ::
    "static_arena \<Rightarrow> nat \<Rightarrow> addr \<Rightarrow> addr \<Rightarrow> addr \<times> addr \<times> nat \<Rightarrow> (addr \<times> addr \<times> nat) option" where
  "find_best s alloc_size current prev best =
     (if current = 0 then Some best
      else let sz = header_sizes s (block_of s current);
               best' = (if sz \<ge> alloc_size \<and> (fst best = 0 \<or> sz < snd (snd best))
                        then (current, prev, sz) else best)
           in find_best s alloc_size (to_node (cell_adapter (cells s)) (cell_links s current)) current best')"

declare find_best.simps [code]

text \<open>Putting the rest of a stolen list back.\<close>

partial_function (option) push_back :: "nat \<Rightarrow> addr \<Rightarrow> static_arena \<Rightarrow> static_arena option" where
  "push_back bin current s =
     (if current = 0 then Some s
      else let next_cell = to_node (cell_adapter (cells s)) (cell_links s current)
           in push_back bin next_cell (bin_push bin current s))"

declare push_back.simps [code]

definition unlink_best :: "addr \<Rightarrow> addr \<Rightarrow> addr \<Rightarrow> static_arena \<Rightarrow> addr \<times> static_arena" where
  "unlink_best stolen best best_prev s =
     (let after_best = cell_links s best
      in if best_prev \<noteq> 0
         then (stolen, s\<lparr>cell_links := store_link best 0 (store_link best_prev after_best (cell_links s))\<rparr>)
         else (to_node (cell_adapter (cells s)) after_best,
               s\<lparr>cell_links := store_link best 0 (cell_links s)\<rparr>))"

definition take_best_fit :: "nat \<Rightarrow> static_arena \<Rightarrow> (addr option \<times> static_arena) option" where
  "take_best_fit alloc_size s =
     (let bin = NUM_BINS - 1;
          (stolen, s1) = bin_steal bin s
      in do {
        (best, best_prev, best_size) \<leftarrow> find_best s1 alloc_size stolen 0 (0, 0, 0);
        let (rest, s2) = (if best \<noteq> 0 then unlink_best stolen best best_prev s1 else (stolen, s1));
        s3 \<leftarrow> push_back bin rest s2;
        if best = 0 then Some (None, s3)
        else let blk = block_of s3 best
             in if best_size > alloc_size
                then do { s4 \<leftarrow> free_pieces (add64 blk alloc_size) (best_size - alloc_size) s3;
                          Some (Some blk, s4) }
                else Some (Some blk, s3) })"

definition take_free :: "nat \<Rightarrow> static_arena \<Rightarrow> (addr option \<times> static_arena) option" where
  "take_free alloc_size s =
     (case pop_class (get_bin alloc_size) s of
        (Some (cell, bin), s1) \<Rightarrow>
          (let blk = block_of s1 cell;
               node_size = MIN_ALIGNMENT * 2 ^ bin
           in if node_size > alloc_size
              then do { s2 \<leftarrow> free_pieces (add64 blk alloc_size) (node_size - alloc_size) s1;
                        Some (Some blk, s2) }
              else Some (Some blk, s1))
      | (None, s1) \<Rightarrow> take_best_fit alloc_size s1)"

definition static_do_allocate :: "static_arena \<Rightarrow> nat \<Rightarrow> nat \<Rightarrow> (addr option \<times> static_arena) option" where
  "static_do_allocate s bytes alignment =
     (if alignment > MIN_ALIGNMENT then Some (None, s)
      else if bytes > capacity s then Some (None, s)
      else let alloc_size = block_size_for bytes;
               aligned_int = align_mask (current_ptr s) MIN_ALIGNMENT
           in if aligned_int > arena_end s \<or> alloc_size > sub64 (arena_end s) aligned_int
              then take_free alloc_size s
              else Some (Some aligned_int, s\<lparr>current_ptr := add64 aligned_int alloc_size\<rparr>))"

text \<open>\<open>None\<close> is the trap of the assertion that the block is one of this arena's.\<close>

definition static_do_deallocate :: "static_arena \<Rightarrow> addr \<Rightarrow> nat \<Rightarrow> nat \<Rightarrow> static_arena option" where
  "static_do_deallocate s p bytes alignment =
     (if p = 0 then Some s
      else if arena_start s \<le> p \<and> p < arena_end s \<and> and64 (sub64 p (arena_start s)) (MIN_ALIGNMENT - 1) = 0
        then Some (push_free p (block_size_for bytes) s)
      else None)"


section \<open>Size classes: the block a request reserves\<close>

text \<open>The two loops run in step: the smallest doubling that holds the size, and its index.\<close>

lemma class_loops:
  "0 < c \<Longrightarrow> \<exists>j. class_at_least sz c = c * 2 ^ j \<and> bin_loop sz c bin = bin + j \<and> sz \<le> c * 2 ^ j \<and>
     (0 < j \<longrightarrow> c * 2 ^ (j - 1) < sz)"
proof (induction sz c arbitrary: bin rule: class_at_least.induct)
  case (1 sz c)
  show ?case
  proof (cases "c < sz")
    case True
    have "0 < c * 2" using 1(2) by simp
    with 1(1) [of "bin + 1"] True 1(2) obtain j where j: "class_at_least sz (c * 2) = c * 2 * 2 ^ j"
      "bin_loop sz (c * 2) (bin + 1) = bin + 1 + j" "sz \<le> c * 2 * 2 ^ j"
      "0 < j \<longrightarrow> c * 2 * 2 ^ (j - 1) < sz" by blast
    then have "c * 2 ^ j < sz" using True by (cases j) auto
    with j True 1(2) show ?thesis
      by (intro exI [of _ "Suc j"])
        (simp add: class_at_least.simps [of sz c] bin_loop.simps [of sz c] mult.assoc)
  next
    case False
    with 1(2) show ?thesis
      by (intro exI [of _ 0]) (simp add: class_at_least.simps [of sz c] bin_loop.simps [of sz c])
  qed
qed

lemma class_at_least_table:
  assumes "sz \<le> 4096"
  shows "\<exists>j<7. class_at_least sz 64 = 64 * 2 ^ j \<and> sz \<le> 64 * 2 ^ j \<and> (0 < j \<longrightarrow> 64 * 2 ^ (j - 1) < sz)"
proof -
  obtain j where j: "class_at_least sz 64 = 64 * 2 ^ j" "sz \<le> 64 * 2 ^ j"
    "0 < j \<longrightarrow> 64 * 2 ^ (j - 1) < sz" using class_loops [of 64 sz 0] by auto
  have "j < 7"
  proof (rule ccontr)
    assume "\<not> j < 7"
    then have "(2 :: nat) ^ 6 \<le> 2 ^ (j - 1)" by (intro power_increasing) auto
    with j(3) \<open>\<not> j < 7\<close> assms show False by simp
  qed
  with j show ?thesis by blast
qed

lemma bin_loop_class:
  assumes "j < 7"
  shows "bin_loop (64 * 2 ^ j) 64 0 = j"
proof -
  obtain i where i: "bin_loop (64 * 2 ^ j) 64 0 = 0 + i" "64 * 2 ^ j \<le> (64 :: nat) * 2 ^ i"
    "0 < i \<longrightarrow> 64 * 2 ^ (i - 1) < (64 :: nat) * 2 ^ j" using class_loops [of 64 "64 * 2 ^ j" 0] by auto
  have "j \<le> i" using i(2) by (simp add: power_increasing_iff)
  moreover have "i \<le> j"
  proof (cases "i = 0")
    case False
    then have "(2 :: nat) ^ (i - 1) < 2 ^ j" using i(3) by simp
    then have "i - 1 < j" by (simp only: power_strict_increasing_iff)
    then show ?thesis by simp
  qed simp
  ultimately show ?thesis using i(1) by simp
qed

lemma get_bin_class: "j < 7 \<Longrightarrow> get_bin (64 * 2 ^ j) = j"
proof -
  assume j: "j < 7"
  then have "(2 :: nat) ^ j \<le> 2 ^ 6" by (intro power_increasing) auto
  then show ?thesis using bin_loop_class [OF j] by (simp add: get_bin_def arena_constants)
qed

lemma get_bin_large: "4096 < n \<Longrightarrow> get_bin n = 7"
  by (simp add: get_bin_def arena_constants)

text \<open>A free block of \<open>n\<close> bytes belongs to bin \<open>i\<close>.\<close>

definition fits :: "nat \<Rightarrow> nat \<Rightarrow> bool" where
  "fits i n \<longleftrightarrow> 64 dvd n \<and> (i < 7 \<and> n = 64 * 2 ^ i \<or> i = 7 \<and> 4096 < n)"

lemma fits_bin: "fits i n \<Longrightarrow> get_bin n = i"
  using get_bin_class get_bin_large by (auto simp: fits_def)

lemma fits_pos: "fits i n \<Longrightarrow> 0 < n \<and> i < 8 \<and> 64 dvd n"
  by (auto simp: fits_def)

lemma align_block_size:
  assumes "sz + 64 < 18446744073709551616"
  shows "and64 (add64 sz 63) (not64 63) = round_up sz 64"
proof -
  have "and64 (sz + 63) (not64 (2 ^ 6 - 1)) = (sz + 63) - (sz + 63) mod 2 ^ 6"
    using assms by (intro and64_not_mask) auto
  then show ?thesis using assms
    by (simp add: add64_exact round_up_def minus_mod_eq_div_mult)
qed

lemma block_size_cases:
  assumes "b + 128 < 18446744073709551616"
  shows "block_size_for b = (if 4096 < round_up (max b 8) 64 then round_up (max b 8) 64
    else class_at_least (round_up (max b 8) 64) 64)"
proof -
  have m: "(if b < FREE_HEADER_SIZE then FREE_HEADER_SIZE else b) = max b 8"
    by (simp add: arena_constants)
  have r: "and64 (add64 (max b 8) (MIN_ALIGNMENT - 1)) (not64 (MIN_ALIGNMENT - 1)) = round_up (max b 8) 64"
    using assms align_block_size [of "max b 8"] by (simp add: arena_constants max_def)
  show ?thesis unfolding block_size_for_def m Let_def r
    by (simp only: arena_constants)
qed

lemma block_size_fits:
  assumes "b + 128 < 18446744073709551616"
  shows "fits (get_bin (block_size_for b)) (block_size_for b)" and "b \<le> block_size_for b"
proof -
  let ?r = "round_up (max b 8) 64"
  have r: "b \<le> ?r" "64 dvd ?r" using round_up_ge [of 64 "max b 8"] by auto
  have "fits (get_bin (block_size_for b)) (block_size_for b) \<and> b \<le> block_size_for b"
  proof (cases "4096 < ?r")
    case True
    then show ?thesis using assms r by (simp add: block_size_cases get_bin_large fits_def)
  next
    case False
    then obtain j where "j < 7" "class_at_least ?r 64 = 64 * 2 ^ j" "?r \<le> 64 * 2 ^ j"
      using class_at_least_table [of ?r] by auto
    then show ?thesis using False r assms by (simp add: block_size_cases get_bin_class fits_def)
  qed
  then show "fits (get_bin (block_size_for b)) (block_size_for b)" and "b \<le> block_size_for b" by simp_all
qed

section \<open>The free bins as tagged stacks\<close>

definition link_node :: "addr \<Rightarrow> nat \<Rightarrow> addr \<Rightarrow> bool" where
  "link_node c n p \<longleftrightarrow> 0 < c \<and> 64 dvd c \<and> n < 4294967295 \<and> c + 4 * n + 64 < 18446744073709551616 \<and>
     (\<exists>i<n. p = c + 4 * i)"

abbreviation cell_codec :: "addr \<Rightarrow> nat \<Rightarrow> arena_codec" where
  "cell_codec c n \<equiv> arena_tagged_ptr LINK_CELL_SIZE c (4 * n)"

lemma cell_codec_base:
  assumes "64 dvd c" and "c < 18446744073709551616"
  shows "base (cell_codec c n) = c"
proof -
  have "(4 :: nat) dvd 64" by simp
  then have "c mod 4 = 0" using assms(1) dvd_trans [of 4 64 c] by auto
  moreover have "and64 c (not64 (2 ^ 2 - 1)) = c - c mod 2 ^ 2"
    using assms(2) by (intro and64_not_mask) auto
  ultimately show ?thesis
    by (simp add: arena_codec_fields LINK_CELL_SIZE_def sub64_exact)
qed

lemma cell_codec_max:
  assumes "64 dvd c" and "c + 4 * n < 18446744073709551616"
  shows "max_index (cell_codec c n) = n + 1"
proof -
  have "and64 c (not64 (sub64 4 1)) = c"
    using cell_codec_base [of c n] assms by (simp add: arena_codec_fields LINK_CELL_SIZE_def)
  then show ?thesis using assms
    by (simp add: arena_tagged_ptr_def LINK_CELL_SIZE_def Let_def add64_exact sub64_exact)
qed

lemma link_node_in_arena: "link_node c n p \<Longrightarrow> in_arena (cell_codec c n) p"
proof -
  assume "link_node c n p"
  then obtain i where c: "64 dvd c" "c + 4 * n < 18446744073709551616" and i: "i < n" "p = c + 4 * i"
    by (auto simp: link_node_def)
  then show ?thesis using cell_codec_base [of c n] cell_codec_max [of c n]
    by (simp add: in_arena_def arena_codec_fields LINK_CELL_SIZE_def)
qed

interpretation free_bins: tagged_stack "arena_head_codec (cell_codec c n)" "cell_adapter c"
    "counter_bits (cell_codec c n)" "link_node c n" for c n
proof
  fix p k
  assume p: "p = 0 \<or> link_node c n p"
  then have ia: "p = 0 \<or> in_arena (cell_codec c n) p" using link_node_in_arena by blast
  have u: "0 < LINK_CELL_SIZE" by (simp add: LINK_CELL_SIZE_def)
  show "unpack_ptr (arena_head_codec (cell_codec c n)) (pack (arena_head_codec (cell_codec c n)) p k) = p"
    using at_ptr_pack [OF refl u ia] by (simp add: arena_head_codec_def)
  show "unpack_counter (arena_head_codec (cell_codec c n)) (pack (arena_head_codec (cell_codec c n)) p k)
      = take_bit (counter_bits (cell_codec c n)) k"
  proof (cases "index_bits (cell_codec c n) < 64")
    case True
    then show ?thesis using at_counter_pack [OF refl u True ia] by (simp add: arena_head_codec_def)
  next
    case False
    then have "drop_bit (index_bits (cell_codec c n)) (v :: u64) = 0" for v
      by (intro bit_word_eqI) (auto simp: bit_simps dest: bit_imp_le_length)
    with False show ?thesis
      by (simp add: arena_head_codec_def at_unpack_counter_def counter_bits_def)
  qed
next
  fix p
  assume "p = 0 \<or> link_node c n p"
  then show "to_node (cell_adapter c) (to_link (cell_adapter c) p) = p"
  proof
    assume "p = 0" then show ?thesis by (simp add: cell_adapter_def)
  next
    assume "link_node c n p"
    then obtain i where "0 < c" "i < n" "p = c + 4 * i" "n < 4294967295"
      "c + 4 * n + 64 < 18446744073709551616" by (auto simp: link_node_def)
    then show ?thesis
      by (simp add: cell_adapter_def LINK_CELL_SIZE_def sub64_exact mul64_exact add64_exact)
  qed
qed (simp_all add: arena_head_codec_def counter_bits_def)

section \<open>The pool invariant\<close>

text \<open>
  \<open>F i\<close> are the addresses of the blocks in bin \<open>i\<close>, top first; \<open>H\<close> are the tiles outside the
  bins: those the clients hold and those an operation has in hand.  Together they tile the
  arena from its start to the bump pointer.
\<close>

definition geometry :: "static_arena \<Rightarrow> nat \<Rightarrow> bool" where
  "geometry s n \<longleftrightarrow> 0 < arena_start s \<and> 64 dvd arena_start s \<and> n < 4294967295 \<and>
     arena_end s = arena_start s + 64 * n \<and> cells s = arena_end s \<and>
     cells s + 4 * n + 64 < 18446744073709551616 \<and>
     head_codec s = cell_codec (cells s) n \<and> length (free_stack_heads s) = 8"

definition bin_holds :: "static_arena \<Rightarrow> nat \<Rightarrow> nat \<Rightarrow> addr list \<Rightarrow> bool" where
  "bin_holds s n i xs \<longleftrightarrow>
     free_bins.holds (cells s) n (free_stack_heads s ! i, cell_links s) (map (cell_of s) xs)"

definition free_tiles :: "static_arena \<Rightarrow> (nat \<Rightarrow> addr list) \<Rightarrow> tile set" where
  "free_tiles s F = {(p, header_sizes s p) | p. \<exists>i<8. p \<in> set (F i)}"

definition bins_ok :: "static_arena \<Rightarrow> nat \<Rightarrow> (nat \<Rightarrow> addr list) \<Rightarrow> bool" where
  "bins_ok s n F \<longleftrightarrow> (\<forall>i<8. bin_holds s n i (F i) \<and> (\<forall>p\<in>set (F i). fits i (header_sizes s p)))"

definition aligned_tiles :: "tile set \<Rightarrow> bool" where
  "aligned_tiles T \<longleftrightarrow> (\<forall>(p, m)\<in>T. 64 dvd p \<and> 64 dvd m)"

definition pool :: "static_arena \<Rightarrow> nat \<Rightarrow> (nat \<Rightarrow> addr list) \<Rightarrow> tile set \<Rightarrow> bool" where
  "pool s n F H \<longleftrightarrow> geometry s n \<and> bins_ok s n F \<and>
     tiling (arena_start s) (current_ptr s) (H \<union> free_tiles s F) \<and> H \<inter> free_tiles s F = {} \<and>
     aligned_tiles (H \<union> free_tiles s F) \<and>
     arena_start s \<le> current_ptr s \<and> current_ptr s \<le> arena_end s \<and> 64 dvd current_ptr s"

lemma poolD:
  assumes "pool s n F H"
  shows "geometry s n" "bins_ok s n F" "tiling (arena_start s) (current_ptr s) (H \<union> free_tiles s F)"
    "H \<inter> free_tiles s F = {}" "aligned_tiles (H \<union> free_tiles s F)"
    "arena_start s \<le> current_ptr s" "current_ptr s \<le> arena_end s" "64 dvd current_ptr s"
  using assms by (simp_all add: pool_def)

text \<open>Blocks of the arena and their cells.\<close>

definition arena_block :: "static_arena \<Rightarrow> nat \<Rightarrow> addr \<Rightarrow> bool" where
  "arena_block s n p \<longleftrightarrow> (\<exists>i<n. p = arena_start s + 64 * i)"

lemma cell_of_block:
  assumes "geometry s n" and "i < n"
  shows "cell_of s (arena_start s + 64 * i) = cells s + 4 * i"
    and "block_of s (cells s + 4 * i) = arena_start s + 64 * i"
  using assms
  by (simp_all add: geometry_def cell_of_def block_of_def arena_constants sub64_exact mul64_exact add64_exact)

lemma arena_block_cell:
  assumes "geometry s n" and "arena_block s n p"
  shows "link_node (cells s) n (cell_of s p)" and "cell_of s p \<noteq> 0" and "block_of s (cell_of s p) = p"
proof -
  from assms(2) obtain i where i: "i < n" "p = arena_start s + 64 * i" by (auto simp: arena_block_def)
  have d: "64 dvd cells s" using assms(1) by (auto simp: geometry_def)
  show "link_node (cells s) n (cell_of s p)" and "cell_of s p \<noteq> 0" and "block_of s (cell_of s p) = p"
    using assms(1) i d cell_of_block [OF assms(1) i(1)] by (auto simp: link_node_def geometry_def)
qed

lemma cell_of_inj:
  assumes "geometry s n" and "arena_block s n p" and "arena_block s n q" and "cell_of s p = cell_of s q"
  shows "p = q"
  using arena_block_cell(3) assms by metis

lemma tile_arena_block:
  assumes "pool s n F H" and "(p, m) \<in> H \<union> free_tiles s F"
  shows "arena_block s n p"
proof -
  have t: "arena_start s \<le> p" "p + m \<le> current_ptr s"
    using tiling_within [OF poolD(3) [OF assms(1)] assms(2)] by auto
  have m: "0 < m" using tiling_pos [OF poolD(3) [OF assms(1)] assms(2)] by simp
  have d: "64 dvd p" using poolD(5) [OF assms(1)] assms(2) by (auto simp: aligned_tiles_def)
  have g: "64 dvd arena_start s" "arena_end s = arena_start s + 64 * n"
    using poolD(1) [OF assms(1)] by (simp_all add: geometry_def)
  have "64 dvd p - arena_start s" using d g(1) by (simp add: dvd_diff_nat)
  then obtain i where i: "p - arena_start s = 64 * i" ..
  have "p < arena_start s + 64 * n" using t(2) m poolD(7) [OF assms(1)] g(2) by simp
  then have "i < n" using i t(1) by arith
  then show ?thesis using i t(1) by (auto simp: arena_block_def)
qed

lemma free_tiles_mem: "i < 8 \<Longrightarrow> p \<in> set (F i) \<Longrightarrow> (p, header_sizes s p) \<in> free_tiles s F"
  by (auto simp: free_tiles_def)

lemma bin_arena_block: "pool s n F H \<Longrightarrow> i < 8 \<Longrightarrow> p \<in> set (F i) \<Longrightarrow> arena_block s n p"
  using tile_arena_block free_tiles_mem by blast

lemma hand_not_free:
  assumes "pool s n F H" and "(p, m) \<in> H" and "i < 8"
  shows "p \<notin> set (F i)"
proof
  assume "p \<in> set (F i)"
  then have f: "(p, header_sizes s p) \<in> free_tiles s F" using assms(3) free_tiles_mem by blast
  then have "m = header_sizes s p"
    using tiling_fst_inj [OF poolD(3) [OF assms(1)]] assms(2) by blast
  then show False using f assms(2) poolD(4) [OF assms(1)] by blast
qed

text \<open>The links of a block in hand can be overwritten.\<close>

lemma hand_cell_not_linked:
  assumes "pool s n F H" and "(p, m) \<in> H" and "i < 8"
  shows "cell_of s p \<notin> set (map (cell_of s) (F i))"
proof
  assume "cell_of s p \<in> set (map (cell_of s) (F i))"
  then obtain q where q: "q \<in> set (F i)" "cell_of s p = cell_of s q" by auto
  have "p = q"
    using cell_of_inj [OF poolD(1) [OF assms(1)] _ _ q(2)] tile_arena_block [OF assms(1)] assms(2)
      bin_arena_block [OF assms(1,3) q(1)] by blast
  then show False using q(1) hand_not_free [OF assms] by simp
qed

lemma pool_cong:
  assumes "pool s n F H" and "arena_start t = arena_start s" "arena_end t = arena_end s"
    "cells t = cells s" "current_ptr t = current_ptr s" "head_codec t = head_codec s"
    "length (free_stack_heads t) = length (free_stack_heads s)"
    and "bins_ok t n G" and "H' \<union> free_tiles t G = H \<union> free_tiles s F" and "H' \<inter> free_tiles t G = {}"
  shows "pool t n G H'"
  using assms by (simp add: pool_def geometry_def)

lemma cell_of_cong: "cells t = cells s \<Longrightarrow> arena_start t = arena_start s \<Longrightarrow> cell_of t = cell_of s"
  by (rule ext) (simp add: cell_of_def)

lemma pool_link_hand:
  assumes "pool s n F H" and "(p, m) \<in> H"
  shows "pool (s\<lparr>cell_links := (cell_links s)(cell_of s p := l)\<rparr>) n F H"
proof (rule pool_cong [OF assms(1)])
  let ?t = "s\<lparr>cell_links := (cell_links s)(cell_of s p := l)\<rparr>"
  have c: "cell_of ?t = cell_of s" by (rule cell_of_cong) simp_all
  have f: "free_tiles ?t F = free_tiles s F" by (simp add: free_tiles_def)
  show "bins_ok ?t n F" unfolding bins_ok_def
  proof (intro allI impI conjI)
    fix i :: nat assume i: "i < 8"
    have "bin_holds s n i (F i)" using poolD(2) [OF assms(1)] i by (simp add: bins_ok_def)
    then show "bin_holds ?t n i (F i)"
      using hand_cell_not_linked [OF assms i] by (simp add: bin_holds_def c free_bins.holds_frame)
    show "\<forall>p\<in>set (F i). fits i (header_sizes ?t p)"
      using poolD(2) [OF assms(1)] i by (simp add: bins_ok_def)
  qed
  show "H \<union> free_tiles ?t F = H \<union> free_tiles s F" "H \<inter> free_tiles ?t F = {}"
    using f poolD(4) [OF assms(1)] by simp_all
qed simp_all

lemma pool_stack:
  assumes "pool s n F H"
  shows "arena_stack s = arena_head_codec (cell_codec (cells s) n)"
  using poolD(1) [OF assms] by (simp add: arena_stack_def geometry_def)

text \<open>Pushing a block in hand whose header says its size.\<close>

lemma bin_push_pool:
  assumes P: "pool s n F H" and h: "(p, m) \<in> H" and sz: "header_sizes s p = m" and f: "fits i m"
  shows "pool (bin_push i (cell_of s p) s) n (F(i := p # F i)) (H - {(p, m)})"
    and "header_sizes (bin_push i (cell_of s p) s) = header_sizes s"
    and "cells (bin_push i (cell_of s p) s) = cells s"
    and "arena_start (bin_push i (cell_of s p) s) = arena_start s"
    and "q \<noteq> cell_of s p \<Longrightarrow> cell_links (bin_push i (cell_of s p) s) q = cell_links s q"
proof -
  have i: "i < 8" using fits_pos [OF f] by simp
  have ab: "arena_block s n p" using tile_arena_block [OF P] h by blast
  let ?cd = "arena_head_codec (cell_codec (cells s) n)"
  obtain h' l' where push: "push ?cd (cell_adapter (cells s)) (cell_of s p) (free_stack_heads s ! i, cell_links s) = (h', l')"
    by (cases "push ?cd (cell_adapter (cells s)) (cell_of s p) (free_stack_heads s ! i, cell_links s)")
  then have l': "l' = (cell_links s)(cell_of s p := l' (cell_of s p))"
    by (auto simp: push_def store_link_def)
  let ?t = "s\<lparr>free_stack_heads := (free_stack_heads s)[i := h'], cell_links := l'\<rparr>"
  have eq: "bin_push i (cell_of s p) s = ?t" by (simp add: bin_push_def pool_stack [OF P] push)
  have c: "cell_of ?t = cell_of s" by (rule cell_of_cong) simp_all
  have len: "length (free_stack_heads s) = 8" using poolD(1) [OF P] by (simp add: geometry_def)
  have ok: "bins_ok ?t n (F(i := p # F i))" unfolding bins_ok_def
  proof (intro allI impI conjI)
    fix j :: nat assume j: "j < 8"
    have hj: "bin_holds s n j (F j)" using poolD(2) [OF P] j by (simp add: bins_ok_def)
    show "bin_holds ?t n j ((F(i := p # F i)) j)"
    proof (cases "j = i")
      case True
      have "free_bins.holds (cells s) n (h', l') (cell_of s p # map (cell_of s) (F i))"
        using free_bins.push_holds [of "cells s" n "(free_stack_heads s ! i, cell_links s)"
            "map (cell_of s) (F i)" "cell_of s p"] hj True hand_cell_not_linked [OF P h i]
          arena_block_cell [OF poolD(1) [OF P] ab] push by (simp add: bin_holds_def)
      then show ?thesis using True len i by (simp add: bin_holds_def c)
    next
      case False
      have "free_bins.holds (cells s) n (free_stack_heads s ! j, l') (map (cell_of s) (F j))"
        by (subst l') (use hj hand_cell_not_linked [OF P h j] in
            \<open>simp add: bin_holds_def free_bins.holds_frame\<close>)
      then show ?thesis using False by (simp add: bin_holds_def c)
    qed
    show "\<forall>q\<in>set ((F(i := p # F i)) j). fits j (header_sizes ?t q)"
      using poolD(2) [OF P] j f sz by (auto simp: bins_ok_def)
  qed
  have ft: "free_tiles ?t (F(i := p # F i)) = insert (p, m) (free_tiles s F)"
    using sz i by (auto simp: free_tiles_def split: if_splits)
  show "pool (bin_push i (cell_of s p) s) n (F(i := p # F i)) (H - {(p, m)})"
    unfolding eq
    by (rule pool_cong [OF P _ _ _ _ _ _ ok]) (use ft h poolD(4) [OF P] in auto)
  show "header_sizes (bin_push i (cell_of s p) s) = header_sizes s"
    "cells (bin_push i (cell_of s p) s) = cells s"
    "arena_start (bin_push i (cell_of s p) s) = arena_start s" by (simp_all add: eq)
  show "q \<noteq> cell_of s p \<Longrightarrow> cell_links (bin_push i (cell_of s p) s) q = cell_links s q"
    unfolding eq by (subst l') simp
qed

lemma free_tiles_cong:
  "(\<And>i q. i < 8 \<Longrightarrow> q \<in> set (F i) \<Longrightarrow> header_sizes t q = header_sizes s q) \<Longrightarrow>
   free_tiles t F = free_tiles s F"
  unfolding free_tiles_def by (intro Collect_cong) metis

lemma pool_header_hand:
  assumes P: "pool s n F H" and h: "(p, m) \<in> H"
  shows "pool (s\<lparr>header_sizes := (header_sizes s)(p := k)\<rparr>) n F H"
proof -
  let ?t = "s\<lparr>header_sizes := (header_sizes s)(p := k)\<rparr>"
  have c: "cell_of ?t = cell_of s" by (rule cell_of_cong) simp_all
  have nf: "q \<noteq> p" if "i < 8" "q \<in> set (F i)" for i q
    using hand_not_free [OF P h] that by blast
  then have "free_tiles ?t F = free_tiles s F" by (intro free_tiles_cong) auto
  moreover have "bins_ok ?t n F"
    using poolD(2) [OF P] nf by (simp add: bins_ok_def bin_holds_def c)
  ultimately show ?thesis
    by (intro pool_cong [OF P]) (use poolD(4) [OF P] in auto)
qed

lemma push_free_pool:
  assumes P: "pool s n F H" and h: "(p, m) \<in> H" and f: "fits i m"
  shows "pool (push_free p m s) n (F(i := p # F i)) (H - {(p, m)})"
proof -
  let ?t = "s\<lparr>header_sizes := (header_sizes s)(p := m)\<rparr>"
  have "cell_of s p = cell_of ?t p" by (simp add: cell_of_def)
  then have "push_free p m s = bin_push i (cell_of ?t p) ?t"
    using fits_bin [OF f] by (simp add: push_free_def Let_def)
  then show ?thesis using bin_push_pool(1) [OF pool_header_hand [OF P h] h _ f] by simp
qed

text \<open>Taking the top block of a bin in hand.\<close>

lemma free_tiles_pop:
  assumes "i < 8" and "F i = p # ps" and "p \<notin> set ps" and "\<And>j. j < 8 \<Longrightarrow> j \<noteq> i \<Longrightarrow> p \<notin> set (F j)"
  shows "free_tiles s F = insert (p, header_sizes s p) (free_tiles s (F(i := ps)))"
    and "(p, header_sizes s p) \<notin> free_tiles s (F(i := ps))"
proof -
  have "(\<exists>j<8. q \<in> set (F j)) \<longleftrightarrow> q = p \<or> (\<exists>j<8. q \<in> set ((F(i := ps)) j))" for q
  proof
    assume "\<exists>j<8. q \<in> set (F j)"
    then obtain j where "j < 8" "q \<in> set (F j)" by blast
    then show "q = p \<or> (\<exists>j<8. q \<in> set ((F(i := ps)) j))"
      using assms(2) by (cases "j = i") auto
  next
    assume "q = p \<or> (\<exists>j<8. q \<in> set ((F(i := ps)) j))"
    then show "\<exists>j<8. q \<in> set (F j)"
    proof
      assume "q = p"
      then have "i < 8 \<and> q \<in> set (F i)" using assms(1,2) by simp
      then show ?thesis by blast
    next
      assume "\<exists>j<8. q \<in> set ((F(i := ps)) j)"
      then obtain j where "j < 8" "q \<in> set ((F(i := ps)) j)" by blast
      then have "j < 8 \<and> q \<in> set (F j)" using assms(2) by (cases "j = i") auto
      then show ?thesis by blast
    qed
  qed
  then show "free_tiles s F = insert (p, header_sizes s p) (free_tiles s (F(i := ps)))"
    by (auto simp only: free_tiles_def)
  show "(p, header_sizes s p) \<notin> free_tiles s (F(i := ps))"
    using assms(3,4) by (auto simp: free_tiles_def split: if_splits)
qed

lemma bins_distinct:
  assumes P: "pool s n F H" and "i < 8" and "j < 8" and "p \<in> set (F i)" and "p \<in> set (F j)"
  shows "i = j"
proof -
  have "fits i (header_sizes s p)" "fits j (header_sizes s p)"
    using poolD(2) [OF P] assms(2-) by (simp_all add: bins_ok_def)
  then show ?thesis using fits_bin by metis
qed

lemma hand_fresh:
  assumes P: "pool s n F H" and "(p, m) \<in> H"
  shows "(p, m') \<in> H \<Longrightarrow> m' = m"
  using tiling_fst_inj [OF poolD(3) [OF P]] assms(2) by blast

lemma free_fresh:
  assumes P: "pool s n F H" and "i < 8" and "p \<in> set (F i)"
  shows "p \<notin> fst ` H"
  using hand_not_free [OF P _ assms(2)] assms(3) by auto

lemma bin_pop_Nil:
  assumes P: "pool s n F H" and i: "i < 8" and e: "F i = []"
  shows "bin_pop i s = (0, s)"
proof -
  have "bin_holds s n i []" using poolD(2) [OF P] i e by (auto simp: bins_ok_def dest: spec [of _ i])
  then have "pop (arena_stack s) (cell_adapter (cells s)) (free_stack_heads s ! i, cell_links s)
      = (0, free_stack_heads s ! i, cell_links s)"
    using free_bins.pop_holds_Nil [of "cells s" n "(free_stack_heads s ! i, cell_links s)"]
    by (simp add: bin_holds_def pool_stack [OF P])
  then show ?thesis by (simp add: bin_pop_def)
qed

lemma bin_pop_Cons:
  assumes P: "pool s n F H" and i: "i < 8" and e: "F i = p # ps"
  shows "\<exists>t. bin_pop i s = (cell_of s p, t) \<and> cell_of s p \<noteq> 0 \<and> p \<notin> fst ` H \<and>
    block_of t (cell_of s p) = p \<and> fits i (header_sizes s p) \<and>
    pool t n (F(i := ps)) (insert (p, header_sizes s p) H)"
proof -
  have pi: "p \<in> set (F i)" using e by simp
  have ab: "arena_block s n p" using bin_arena_block [OF P i pi] .
  let ?c = "cell_of s p"
  have hi: "bin_holds s n i (p # ps)" using poolD(2) [OF P] i e by (auto simp: bins_ok_def dest: spec [of _ i])
  then obtain h' l' where pop: "pop (arena_stack s) (cell_adapter (cells s)) (free_stack_heads s ! i, cell_links s)
      = (?c, h', l')" and hp: "free_bins.holds (cells s) n (h', l') (map (cell_of s) ps)"
    and l': "l' = (cell_links s)(?c := to_link (cell_adapter (cells s)) 0)"
    using free_bins.pop_holds_Cons [of "cells s" n "(free_stack_heads s ! i, cell_links s)" "cell_of s p"
        "map (cell_of s) ps"] by (auto simp: bin_holds_def pool_stack [OF P])
  let ?t = "s\<lparr>free_stack_heads := (free_stack_heads s)[i := h'], cell_links := l'\<rparr>"
  have eq: "bin_pop i s = (?c, ?t)" by (simp add: bin_pop_def pop)
  have c: "cell_of ?t = cell_of s" by (rule cell_of_cong) simp_all
  have b: "block_of ?t ?c = p" using arena_block_cell(3) [OF poolD(1) [OF P] ab] by (simp add: block_of_def)
  have len: "length (free_stack_heads s) = 8" using poolD(1) [OF P] by (simp add: geometry_def)
  have pps: "p \<notin> set ps" using hi by (auto simp: bin_holds_def free_bins.holds_def)
  have other: "p \<notin> set (F j)" if "j < 8" "j \<noteq> i" for j
    using bins_distinct [OF P i that(1) pi] that(2) by blast
  have notin: "?c \<notin> set (map (cell_of s) (F j))" if j: "j < 8" "j \<noteq> i" for j
  proof
    assume "?c \<in> set (map (cell_of s) (F j))"
    then obtain q where q: "q \<in> set (F j)" "?c = cell_of s q" by auto
    have "p = q" using cell_of_inj [OF poolD(1) [OF P] ab bin_arena_block [OF P j(1) q(1)] q(2)] .
    with other [OF j] q(1) show False by simp
  qed
  have ok: "bins_ok ?t n (F(i := ps))" unfolding bins_ok_def
  proof (intro allI impI conjI)
    fix j :: nat assume j: "j < 8"
    show "bin_holds ?t n j ((F(i := ps)) j)"
    proof (cases "j = i")
      case True then show ?thesis using hp len i by (simp add: bin_holds_def c)
    next
      case False
      have "bin_holds s n j (F j)" using poolD(2) [OF P] j by (simp add: bins_ok_def)
      then have "free_bins.holds (cells s) n (free_stack_heads s ! j, l') (map (cell_of s) (F j))"
        unfolding l' using notin [OF j False] by (simp add: bin_holds_def free_bins.holds_frame)
      then show ?thesis using False by (simp add: bin_holds_def c)
    qed
    show "\<forall>q\<in>set ((F(i := ps)) j). fits j (header_sizes ?t q)"
      using poolD(2) [OF P] j e by (auto simp: bins_ok_def)
  qed
  have ft: "free_tiles s F = insert (p, header_sizes s p) (free_tiles ?t (F(i := ps)))"
    "(p, header_sizes s p) \<notin> free_tiles ?t (F(i := ps))"
    using free_tiles_pop [of i F p ps s] i e pps other by (simp_all add: free_tiles_def)
  have "pool ?t n (F(i := ps)) (insert (p, header_sizes s p) H)"
    by (rule pool_cong [OF P _ _ _ _ _ _ ok]) (use ft poolD(4) [OF P] in auto)
  moreover have "fits i (header_sizes s p)" using poolD(2) [OF P] i pi by (simp add: bins_ok_def)
  ultimately show ?thesis
    using eq b arena_block_cell(2) [OF poolD(1) [OF P] ab] free_fresh [OF P i pi] by simp
qed

text \<open>Splitting a tile in hand.\<close>

lemma tiling_two:
  assumes "0 < m" and "0 < k"
  shows "tiling p (p + (m + k)) {(p, m), (p + m, k)}"
proof -
  have "tiling p (p + m) {(p, m)}" "tiling (p + m) (p + m + k) {(p + m, k)}"
    using assms tiling_single by blast+
  from tiling_append [OF this] show ?thesis by (simp add: add.assoc insert_commute)
qed

lemma pool_split:
  assumes P: "pool s n F H" and h: "(p, m + k) \<in> H" and "0 < m" "0 < k" "64 dvd m" "64 dvd k"
  shows "pool s n F (insert (p, m) (insert (p + m, k) (H - {(p, m + k)})))"
proof -
  let ?H = "insert (p, m) (insert (p + m, k) (H - {(p, m + k)}))"
  let ?T = "H \<union> free_tiles s F"
  have mem: "(p, m + k) \<in> ?T" using h by simp
  have nf: "(p, m + k) \<notin> free_tiles s F" using h poolD(4) [OF P] by blast
  have t: "tiling (arena_start s) (current_ptr s) (?T - {(p, m + k)} \<union> {(p, m), (p + m, k)})"
    using tiling_refine [OF poolD(3) [OF P] mem tiling_two] assms(3,4) by simp
  have eq: "?T - {(p, m + k)} \<union> {(p, m), (p + m, k)} = ?H \<union> free_tiles s F" using nf by blast
  have new: "(q, j) \<notin> free_tiles s F" if q: "(q, j) \<in> {(p, m), (p + m, k)}" for q j
  proof
    assume f: "(q, j) \<in> free_tiles s F"
    then have ne: "(q, j) \<noteq> (p, m + k)" using nf by blast
    have "apart q j p (m + k)"
      using tiling_apart [OF poolD(3) [OF P]] f mem ne by blast
    then show False using q assms(3,4) by (auto simp: apart_def)
  qed
  have disj: "?H \<inter> free_tiles s F = {}" using new poolD(4) [OF P] by blast
  have "64 dvd p" using poolD(5) [OF P] h by (auto simp: aligned_tiles_def)
  then have al: "aligned_tiles (?H \<union> free_tiles s F)"
    using poolD(5) [OF P] assms(5,6) by (auto simp: aligned_tiles_def)
  show ?thesis unfolding pool_def
    using poolD [OF P] t [unfolded eq] disj al by blast
qed

lemma pieces_loop_pool:
  assumes "pool s n F H" and "(p, m) \<in> H \<or> m = 0" and "64 dvd m" and "m < 64 * 2 ^ Suc j" and "j < 7"
  shows "\<exists>t G. pieces_loop (64 * 2 ^ j) p m s = Some t \<and> pool t n G (H - {(p, m)})"
  using assms
proof (induction j arbitrary: s F H p m)
  case 0
  show ?case
  proof (cases "m = 0")
    case True
    then have "(p, m) \<notin> H" using 0(1) tiling_pos [OF poolD(3) [OF 0(1)], of "(p, m)"] by auto
    with 0 True show ?thesis by (auto simp: pieces_loop.simps)
  next
    case False
    with 0(3,4) have m: "m = 64" by auto
    have "fits 0 m" by (simp add: m fits_def)
    from push_free_pool [OF 0(1) _ this] 0(2) m
    have "pool (push_free p m s) n (F(0 := p # F 0)) (H - {(p, m)})" by auto
    then show ?thesis using m by (auto simp: pieces_loop.simps)
  qed
next
  case (Suc j)
  let ?c = "64 * 2 ^ Suc j :: nat"
  have half: "?c div 2 = 64 * 2 ^ j" by simp
  have fc: "fits (Suc j) ?c" using Suc.prems(5) by (auto simp: fits_def)
  consider "m = 0" | "m = ?c" | "?c < m" | "0 < m" "m < ?c" by linarith
  then show ?case
  proof cases
    case 1
    then have "(p, m) \<notin> H" using Suc.prems(1) tiling_pos [OF poolD(3) [OF Suc.prems(1)], of "(p, m)"] by auto
    with Suc.prems(1) 1 show ?thesis by (auto simp: pieces_loop.simps)
  next
    case 2
    then have h: "(p, ?c) \<in> H" using Suc.prems(2) by auto
    have P1: "pool (push_free p ?c s) n (F(Suc j := p # F (Suc j))) (H - {(p, m)})"
      using push_free_pool [OF Suc.prems(1) h fc] 2 by simp
    have "pieces_loop ?c p m s = Some (push_free p ?c s)"
      using 2 by (subst pieces_loop.simps) (simp add: pieces_loop.simps [of _ _ 0])
    then show ?thesis using P1 by blast
  next
    case 3
    define k where "k = m - ?c"
    have m: "m = ?c + k" and k0: "0 < k" using 3 by (simp_all add: k_def)
    have k: "64 dvd k" "k < 64 * 2 ^ Suc j" using Suc.prems(3,4) m by (simp_all add: dvd_add_right_iff)
    have h: "(p, ?c + k) \<in> H" using Suc.prems(2) m 3 by auto
    let ?H1 = "insert (p, ?c) (insert (p + ?c, k) (H - {(p, ?c + k)}))"
    have P1: "pool s n F ?H1"
      using pool_split [OF Suc.prems(1) h _ k0 _ k(1)] by simp
    have P2: "pool (push_free p ?c s) n (F(Suc j := p # F (Suc j))) (?H1 - {(p, ?c)})"
      using push_free_pool [OF P1 insertI1 fc] .
    have ne: "(p, ?c) \<notin> H" using hand_fresh [OF Suc.prems(1) h, of ?c] k0 by auto
    have ne2: "(p + ?c, k) \<notin> H" 
    proof
      assume a: "(p + ?c, k) \<in> H"
      then have "apart (p + ?c) k p (?c + k)"
        using tiling_apart [OF poolD(3) [OF Suc.prems(1)]] h by auto
      then show False using k0 by (auto simp: apart_def)
    qed
    have H2: "?H1 - {(p, ?c)} - {(p + ?c, k)} = H - {(p, m)}" using ne ne2 m by auto
    have b: "p + ?c < 18446744073709551616"
    proof -
      have "p + m \<le> current_ptr s" using tiling_within [OF poolD(3) [OF Suc.prems(1)]] h m by blast
      then show ?thesis using poolD(1,7) [OF Suc.prems(1)] m by (simp add: geometry_def)
    qed
    have hk: "(p + ?c, k) \<in> ?H1 - {(p, ?c)} \<or> k = 0" and j7: "j < 7" using Suc.prems(5) by simp_all
    from Suc.IH [OF P2 hk k j7]
    obtain t G where "pieces_loop (64 * 2 ^ j) (p + ?c) k (push_free p ?c s) = Some t"
      "pool t n G (?H1 - {(p, ?c)} - {(p + ?c, k)})" by blast
    moreover have "pieces_loop ?c p m s = pieces_loop (64 * 2 ^ j) (p + ?c) k (push_free p ?c s)"
      using 3 b by (subst pieces_loop.simps) (simp add: add64_exact k_def)
    ultimately show ?thesis using H2 by auto
  next
    case 4
    then obtain t G where "pieces_loop (64 * 2 ^ j) p m s = Some t" "pool t n G (H - {(p, m)})"
      using Suc.IH [OF Suc.prems(1-3)] Suc.prems(5) by auto
    moreover have "pieces_loop ?c p m s = pieces_loop (64 * 2 ^ j) p m s"
      using 4 by (subst pieces_loop.simps) simp
    ultimately show ?thesis by auto
  qed
qed

lemma free_pieces_pool:
  assumes P: "pool s n F H" and h: "(p, m) \<in> H"
  shows "\<exists>t G. free_pieces p m s = Some t \<and> pool t n G (H - {(p, m)})"
proof -
  have d: "64 dvd m" using poolD(5) [OF P] h by (auto simp: aligned_tiles_def)
  show ?thesis
  proof (cases "4096 < m")
    case True
    then have "fits 7 m" using d by (simp add: fits_def)
    from push_free_pool [OF P h this] show ?thesis using True by (auto simp: free_pieces_def arena_constants)
  next
    case False
    then show ?thesis using pieces_loop_pool [OF P _ d, of p 6] h
      by (auto simp: free_pieces_def arena_constants)
  qed
qed

section \<open>Allocation from the bump pointer\<close>

lemma bump_pool:
  assumes P: "pool s n F H" and m: "0 < m" "64 dvd m" and fit: "current_ptr s + m \<le> arena_end s"
  shows "pool (s\<lparr>current_ptr := current_ptr s + m\<rparr>) n F (insert (current_ptr s, m) H)"
    and "current_ptr s \<notin> fst ` H"
proof -
  let ?t = "s\<lparr>current_ptr := current_ptr s + m\<rparr>" and ?new = "(current_ptr s, m)"
  have c: "cell_of ?t = cell_of s" by (rule cell_of_cong) simp_all
  have ft: "free_tiles ?t F = free_tiles s F" by (simp add: free_tiles_def)
  have fresh: "current_ptr s \<notin> fst ` (H \<union> free_tiles s F)"
  proof
    assume "current_ptr s \<in> fst ` (H \<union> free_tiles s F)"
    then obtain k where k: "(current_ptr s, k) \<in> H \<union> free_tiles s F" by fastforce
    then show False using tiling_within [OF poolD(3) [OF P] k] tiling_pos [OF poolD(3) [OF P] k] by simp
  qed
  then show "current_ptr s \<notin> fst ` H" by blast
  have t: "tiling (arena_start s) (current_ptr s + m) (H \<union> free_tiles s F \<union> {?new})"
    by (rule tiling_append [OF poolD(3) [OF P] tiling_single [OF m(1)] poolD(6) [OF P]]) simp
  have eq: "H \<union> free_tiles s F \<union> {?new} = insert ?new H \<union> free_tiles s F" by blast
  have "?new \<notin> free_tiles s F" using fresh by force
  then have dis: "insert ?new H \<inter> free_tiles s F = {}" using poolD(4) [OF P] by blast
  have al: "aligned_tiles (insert ?new H \<union> free_tiles s F)"
    using poolD(5,8) [OF P] m(2) by (auto simp: aligned_tiles_def)
  have bo: "bins_ok ?t n F" using poolD(2) [OF P] by (simp add: bins_ok_def bin_holds_def c)
  have g: "geometry ?t n" using poolD(1) [OF P] by (simp add: geometry_def)
  show "pool ?t n F (insert ?new H)" unfolding pool_def ft
    using g bo t [unfolded eq] dis al poolD(6,8) [OF P] fit m(2) by simp
qed

section \<open>The best-fit scan\<close>

fun best_scan :: "nat \<Rightarrow> (addr \<Rightarrow> nat) \<Rightarrow> addr \<Rightarrow> addr list \<Rightarrow> addr \<times> addr \<times> nat \<Rightarrow> addr \<times> addr \<times> nat" where
  "best_scan a sz prev [] best = best"
| "best_scan a sz prev (c # cs) best = best_scan a sz c cs
     (if a \<le> sz c \<and> (fst best = 0 \<or> sz c < snd (snd best)) then (c, prev, sz c) else best)"

lemma find_best_scan:
  assumes "chain (cell_adapter (cells s)) (cell_links s) p cs"
  shows "find_best s a p prev best = Some (best_scan a (\<lambda>c. header_sizes s (block_of s c)) prev cs best)"
  using assms
proof (induction cs arbitrary: p prev best)
  case Nil
  then show ?case by (simp add: find_best.simps)
next
  case (Cons c cs)
  have "find_best s a c prev best = find_best s a (to_node (cell_adapter (cells s)) (cell_links s c)) c
      (if a \<le> header_sizes s (block_of s c) \<and> (fst best = 0 \<or> header_sizes s (block_of s c) < snd (snd best))
       then (c, prev, header_sizes s (block_of s c)) else best)"
    using Cons.prems by (subst find_best.simps) (simp add: Let_def)
  then show ?case using Cons by simp
qed

text \<open>Where the scan's choice lies, and that it is the best one.\<close>

lemma best_scan_found:
  "best_scan a sz prev cs best = (b, bp, m) \<Longrightarrow> (b, bp, m) = best \<or>
     (\<exists>pre post. cs = pre @ b # post \<and> bp = (if pre = [] then prev else last pre) \<and> m = sz b \<and> a \<le> m)"
proof (induction cs arbitrary: prev best)
  case Nil
  then show ?case by simp
next
  case (Cons c cs)
  let ?best = "if a \<le> sz c \<and> (fst best = 0 \<or> sz c < snd (snd best)) then (c, prev, sz c) else best"
  have "best_scan a sz c cs ?best = (b, bp, m)" using Cons.prems by simp
  from Cons.IH [OF this] show ?case
  proof
    assume "(b, bp, m) = ?best"
    then show ?thesis
    proof (cases "a \<le> sz c \<and> (fst best = 0 \<or> sz c < snd (snd best))")
      case True
      with \<open>(b, bp, m) = ?best\<close> show ?thesis by (auto intro!: exI [of _ "[]"])
    qed simp
  next
    assume "\<exists>pre post. cs = pre @ b # post \<and> bp = (if pre = [] then c else last pre) \<and> m = sz b \<and> a \<le> m"
    then obtain pre post where "cs = pre @ b # post" "bp = (if pre = [] then c else last pre)"
      "m = sz b" "a \<le> m" by blast
    then show ?thesis by (intro disjI2 exI [of _ "c # pre"] exI [of _ post]) auto
  qed
qed

lemma best_scan_least:
  "best_scan a sz prev cs best = (b, bp, m) \<Longrightarrow> 0 \<notin> set cs \<Longrightarrow>
     (fst best \<noteq> 0 \<longrightarrow> b \<noteq> 0 \<and> m \<le> snd (snd best)) \<and> (\<forall>c\<in>set cs. a \<le> sz c \<longrightarrow> b \<noteq> 0 \<and> m \<le> sz c)"
proof (induction cs arbitrary: prev best)
  case Nil
  then show ?case by auto
next
  case (Cons c cs)
  let ?best = "if a \<le> sz c \<and> (fst best = 0 \<or> sz c < snd (snd best)) then (c, prev, sz c) else best"
  have "best_scan a sz c cs ?best = (b, bp, m)" using Cons.prems by simp
  from Cons.IH [OF this] Cons.prems(2) show ?case by (auto split: if_splits)
qed

lemma chain_unlink:
  assumes "chain ad l p (pre @ b # post)" and "distinct (pre @ b # post)" and "pre \<noteq> []"
  shows "chain ad ((l(last pre := l b))(b := 0)) p (pre @ post)"
  using assms
proof (induction pre arbitrary: p)
  case Nil
  then show ?case by simp
next
  case (Cons x pre)
  show ?case
  proof (cases "pre = []")
    case True
    have b: "b \<notin> set post" "x \<notin> set post" "x \<noteq> b" using Cons.prems(2) True by auto
    have c: "to_node ad (l x) = b" "chain ad l (to_node ad (l b)) post" "p = x" "x \<noteq> 0"
      using Cons.prems(1) True by auto
    let ?l = "(l(x := l b))(b := 0)"
    have "chain ad ?l (to_node ad (l b)) post" using b c by (simp only: chain_update not_False_eq_True)
    moreover have lx: "?l x = l b" using b by simp
    ultimately have "chain ad ?l p (x # post)" unfolding chain.simps lx using c by blast
    then show ?thesis using True by (simp del: chain.simps fun_upd_apply)
  next
    case False
    let ?l = "(l(last pre := l b))(b := 0)"
    have c: "chain ad l (to_node ad (l x)) (pre @ b # post)" "distinct (pre @ b # post)" "p = x" "x \<noteq> 0"
      "x \<noteq> b" "x \<notin> set pre" using Cons.prems by auto
    have "chain ad ?l (to_node ad (l x)) (pre @ post)" by (rule Cons.IH [OF c(1,2) False])
    moreover have lx: "?l x = l x" using c False last_in_set [OF False] by auto
    ultimately have "chain ad ?l p (x # (pre @ post))" unfolding chain.simps lx using c by blast
    then show ?thesis using False by (simp del: chain.simps fun_upd_apply)
  qed
qed

section \<open>Allocation from the large bin\<close>

text \<open>The list of bin 7, stolen: all its blocks are in hand, still linked.\<close>

definition tiles_of :: "static_arena \<Rightarrow> addr list \<Rightarrow> tile set" where
  "tiles_of s ps = (\<lambda>p. (p, header_sizes s p)) ` set ps"

lemma tiles_of_simps [simp]:
  "tiles_of s [] = {}" "tiles_of s (p # ps) = insert (p, header_sizes s p) (tiles_of s ps)"
  "tiles_of s (ps @ qs) = tiles_of s ps \<union> tiles_of s qs"
  by (simp_all add: tiles_of_def image_Un)

lemma tiles_of_cong: "header_sizes t = header_sizes s \<Longrightarrow> tiles_of t ps = tiles_of s ps"
  by (simp add: tiles_of_def)

lemma bin_steal_pool:
  assumes P: "pool s n F H"
  shows "\<exists>t. bin_steal 7 s = (case map (cell_of s) (F 7) of [] \<Rightarrow> 0 | c # _ \<Rightarrow> c, t) \<and>
    pool t n (F(7 := [])) (H \<union> tiles_of s (F 7)) \<and> H \<inter> tiles_of s (F 7) = {} \<and>
    chain (cell_adapter (cells s)) (cell_links t) (case map (cell_of s) (F 7) of [] \<Rightarrow> 0 | c # _ \<Rightarrow> c)
      (map (cell_of s) (F 7)) \<and> distinct (F 7) \<and>
    (\<exists>h. t = s\<lparr>free_stack_heads := h\<rparr>)"
proof -
  let ?c = "case map (cell_of s) (F 7) of [] \<Rightarrow> 0 | c # _ \<Rightarrow> c"
  have h7: "bin_holds s n 7 (F 7)" using poolD(2) [OF P] by (simp add: bins_ok_def)
  then obtain h' where st: "steal_all (arena_stack s) (free_stack_heads s ! 7, cell_links s) = (?c, h', cell_links s)"
    and he: "free_bins.holds (cells s) n (h', cell_links s) []"
    and ch: "chain (cell_adapter (cells s)) (cell_links s) ?c (map (cell_of s) (F 7))"
    using free_bins.steal_all_holds [of "cells s" n "(free_stack_heads s ! 7, cell_links s)"]
    by (auto simp: bin_holds_def pool_stack [OF P])
  let ?t = "s\<lparr>free_stack_heads := (free_stack_heads s)[7 := h']\<rparr>"
  have t: "s\<lparr>free_stack_heads := (free_stack_heads s)[7 := h'], cell_links := cell_links s\<rparr> = ?t" by simp
  have eq: "bin_steal 7 s = (?c, ?t)" unfolding bin_steal_def st by (simp add: t)
  have c: "cell_of ?t = cell_of s" by (rule cell_of_cong) simp_all
  have len: "length (free_stack_heads s) = 8" using poolD(1) [OF P] by (simp add: geometry_def)
  have d: "distinct (F 7)" using h7 by (auto simp: bin_holds_def free_bins.holds_def distinct_map)
  have ok: "bins_ok ?t n (F(7 := []))" unfolding bins_ok_def
  proof (intro allI impI conjI)
    fix j :: nat assume j: "j < 8"
    have "bin_holds s n j (F j)" using poolD(2) [OF P] j by (simp add: bins_ok_def)
    then show "bin_holds ?t n j ((F(7 := [])) j)"
      using he len by (cases "j = 7") (simp_all add: bin_holds_def c)
    show "\<forall>q\<in>set ((F(7 := [])) j). fits j (header_sizes ?t q)"
      using poolD(2) [OF P] j by (simp add: bins_ok_def)
  qed
  have sub: "tiles_of s (F 7) \<subseteq> free_tiles s F"
    using free_tiles_mem [of 7 _ F s] by (auto simp: tiles_of_def)
  have un: "free_tiles s F = tiles_of s (F 7) \<union> free_tiles ?t (F(7 := []))"
  proof -
    have "(\<exists>j<8. q \<in> set (F j)) \<longleftrightarrow> q \<in> set (F 7) \<or> (\<exists>j<8. q \<in> set ((F(7 := [])) j))" for q
    proof
      assume "\<exists>j<8. q \<in> set (F j)"
      then obtain j where "j < 8" "q \<in> set (F j)" by blast
      then show "q \<in> set (F 7) \<or> (\<exists>j<8. q \<in> set ((F(7 := [])) j))"
        by (cases "j = 7") auto
    next
      assume "q \<in> set (F 7) \<or> (\<exists>j<8. q \<in> set ((F(7 := [])) j))"
      then show "\<exists>j<8. q \<in> set (F j)"
        by (auto intro: exI [of _ 7] split: if_splits)
    qed
    then show ?thesis by (auto simp: free_tiles_def tiles_of_def)
  qed
  have no: "tiles_of s (F 7) \<inter> free_tiles ?t (F(7 := [])) = {}"
    using bins_distinct [OF P, of 7] by (fastforce simp: free_tiles_def tiles_of_def split: if_splits)
  have "pool ?t n (F(7 := [])) (H \<union> tiles_of s (F 7))"
    by (rule pool_cong [OF P _ _ _ _ _ _ ok]) (use un no poolD(4) [OF P] in auto)
  moreover have "H \<inter> tiles_of s (F 7) = {}" using sub poolD(4) [OF P] by blast
  ultimately show ?thesis using eq ch d by auto
qed

text \<open>Pushing a linked list of blocks in hand back to a bin.\<close>

lemma push_back_pool:
  assumes "pool s n F H" and "tiles_of s ps \<subseteq> H" and "distinct ps"
    and "\<forall>p\<in>set ps. fits i (header_sizes s p)"
    and "chain (cell_adapter (cells s)) (cell_links s) c (map (cell_of s) ps)"
  shows "\<exists>t G. push_back i c s = Some t \<and> pool t n G (H - tiles_of s ps) \<and>
    header_sizes t = header_sizes s \<and> cells t = cells s \<and> arena_start t = arena_start s"
  using assms
proof (induction ps arbitrary: s F H c)
  case Nil
  then show ?case by (auto simp: push_back.simps)
next
  case (Cons p ps)
  let ?t = "bin_push i (cell_of s p) s"
  have h: "(p, header_sizes s p) \<in> H" using Cons.prems(2) by simp
  have f: "fits i (header_sizes s p)" using Cons.prems(4) by simp
  note B = bin_push_pool [OF Cons.prems(1) h refl f]
  have co: "cell_of ?t = cell_of s" by (rule cell_of_cong) (simp_all add: B)
  have to: "tiles_of ?t ps = tiles_of s ps" by (rule tiles_of_cong) (simp add: B)
  let ?next = "to_node (cell_adapter (cells s)) (cell_links s (cell_of s p))"
  have ab: "arena_block s n q" if "q \<in> set (p # ps)" for q
    using tile_arena_block [OF Cons.prems(1), of q "header_sizes s q"] Cons.prems(2) that
    by (auto simp: tiles_of_def)
  have pn: "cell_of s p \<notin> set (map (cell_of s) ps)"
  proof
    assume "cell_of s p \<in> set (map (cell_of s) ps)"
    then obtain q where "q \<in> set ps" "cell_of s p = cell_of s q" by auto
    then have "p = q" using cell_of_inj [OF poolD(1) [OF Cons.prems(1)]] ab by simp
    then show False using Cons.prems(3) \<open>q \<in> set ps\<close> by simp
  qed
  have ch: "chain (cell_adapter (cells ?t)) (cell_links ?t) ?next (map (cell_of ?t) ps)"
  proof -
    have "chain (cell_adapter (cells s)) (cell_links s) ?next (map (cell_of s) ps)"
      using Cons.prems(5) by simp
    moreover have "\<And>q. q \<in> set (map (cell_of s) ps) \<Longrightarrow> cell_links ?t q = cell_links s q"
      using B(5) pn by metis
    ultimately show ?thesis unfolding co B(3) by (rule chain_cong)
  qed
  have sub: "tiles_of ?t ps \<subseteq> H - {(p, header_sizes s p)}"
    using Cons.prems(2,3) by (auto simp: to) (auto simp: tiles_of_def)
  have "\<exists>t G. push_back i ?next ?t = Some t \<and>
      pool t n G (H - {(p, header_sizes s p)} - tiles_of ?t ps) \<and>
      header_sizes t = header_sizes ?t \<and> cells t = cells ?t \<and> arena_start t = arena_start ?t"
    using Cons.prems(3,4) B by (intro Cons.IH [OF B(1) sub _ _ ch]) simp_all
  then obtain t G where t: "push_back i ?next ?t = Some t"
    "pool t n G (H - {(p, header_sizes s p)} - tiles_of ?t ps)"
    "header_sizes t = header_sizes s" "cells t = cells s" "arena_start t = arena_start s"
    using B by auto
  have "push_back i c s = push_back i ?next ?t"
    using Cons.prems(5) by (subst push_back.simps) (simp add: Let_def)
  moreover have "H - {(p, header_sizes s p)} - tiles_of ?t ps = H - tiles_of s (p # ps)"
    by (auto simp: to)
  ultimately show ?case using t by metis
qed

text \<open>An operation that takes a block of \<open>a\<close> bytes in hand, or finds none.\<close>

definition took :: "nat \<Rightarrow> nat \<Rightarrow> tile set \<Rightarrow> addr option \<Rightarrow> static_arena \<Rightarrow> bool" where
  "took n a H r t \<longleftrightarrow> (\<exists>G. case r of None \<Rightarrow> pool t n G H
     | Some p \<Rightarrow> p \<notin> fst ` H \<and> pool t n G (insert (p, a) H))"

text \<open>Handing out the front of a block in hand and freeing the rest.\<close>

lemma hand_out:
  assumes P: "pool s n F (insert (p, m) H)" and new: "p \<notin> fst ` H"
    and a: "0 < a" "64 dvd a" "a \<le> m"
  shows "\<exists>t. (if m > a then do { t \<leftarrow> free_pieces (add64 p a) (m - a) s; Some (Some p, t) }
      else Some (Some p, s)) = Some (Some p, t) \<and> took n a H (Some p) t"
proof (cases "a < m")
  case False
  then show ?thesis using P new a by (auto simp: took_def)
next
  case True
  have h: "(p, a + (m - a)) \<in> insert (p, m) H" using True by simp
  have dm: "64 dvd m" using poolD(5) [OF P] by (auto simp: aligned_tiles_def)
  have w: "p + m \<le> current_ptr s" using tiling_within [OF poolD(3) [OF P]] by blast
  then have ex: "add64 p a = p + a" using poolD(1,7) [OF P] True
    by (simp add: geometry_def add64_exact)
  have "pool s n F (insert (p, a) (insert (p + a, m - a) (insert (p, m) H - {(p, m)})))"
    using pool_split [OF P h a(1) _ a(2)] True a(2) dm by (simp add: dvd_diff_nat)
  moreover have "insert (p, m) H - {(p, m)} = H" using new by force
  ultimately have P1: "pool s n F (insert (p, a) (insert (p + a, m - a) H))" by simp
  have no: "(p + a, m - a) \<notin> insert (p, a) H"
  proof
    assume "(p + a, m - a) \<in> insert (p, a) H"
    then have "(p + a, m - a) \<in> H" using a(1) by auto
    then have "apart (p + a) (m - a) p m"
      using tiling_apart [OF poolD(3) [OF P]] a(1) True by auto
    then show False using True a(1) by (auto simp: apart_def)
  qed
  obtain t G where t: "free_pieces (p + a) (m - a) s = Some t"
    "pool t n G (insert (p, a) (insert (p + a, m - a) H) - {(p + a, m - a)})"
    using free_pieces_pool [OF P1, of "p + a" "m - a"] by auto
  have "insert (p, a) (insert (p + a, m - a) H) - {(p + a, m - a)} = insert (p, a) H" using no by auto
  then have "took n a H (Some p) t" using t new by (auto simp: took_def)
  then show ?thesis using t True ex by simp
qed

text \<open>The class bins.\<close>

definition popped :: "nat \<Rightarrow> (nat \<Rightarrow> addr list) \<Rightarrow> tile set \<Rightarrow> static_arena \<Rightarrow> nat \<Rightarrow>
    (addr \<times> nat) option \<Rightarrow> static_arena \<Rightarrow> bool" where
  "popped n F H s bin r t \<longleftrightarrow> (case r of
      None \<Rightarrow> t = s \<and> (\<forall>i. bin \<le> i \<longrightarrow> i < 7 \<longrightarrow> F i = [])
    | Some (cell, j) \<Rightarrow> bin \<le> j \<and> j < 7 \<and> block_of t cell \<notin> fst ` H \<and> F j \<noteq> [] \<and>
        block_of t cell = hd (F j) \<and> (\<forall>i. bin \<le> i \<longrightarrow> i < j \<longrightarrow> F i = []) \<and>
        (\<exists>G. pool t n G (insert (block_of t cell, 64 * 2 ^ j) H)))"

lemma popped_step: "F bin = [] \<Longrightarrow> popped n F H s (bin + 1) r t \<Longrightarrow> popped n F H s bin r t"
proof -
  assume e: "F bin = []" and p: "popped n F H s (bin + 1) r t"
  have up: "(\<forall>i. bin \<le> i \<longrightarrow> i < k \<longrightarrow> F i = []) = (\<forall>i. bin + 1 \<le> i \<longrightarrow> i < k \<longrightarrow> F i = [])" for k
    using e by (metis Suc_eq_plus1 le_antisym not_less_eq_eq Suc_leD)
  show ?thesis
  proof (cases r)
    case None
    then show ?thesis using p up by (simp add: popped_def)
  next
    case (Some x)
    then obtain cell j where "r = Some (cell, j)" by (cases x) auto
    then show ?thesis using p up [of j] by (simp add: popped_def) metis
  qed
qed

lemma pop_class_pool:
  assumes "pool s n F H"
  shows "\<exists>r t. pop_class bin s = (r, t) \<and> popped n F H s bin r t"
  using assms
proof (induction bin s rule: pop_class.induct)
  case (1 bin s)
  show ?case
  proof (cases "bin < 7")
    case False
    then show ?thesis using 1(2) by (auto simp: pop_class.simps [of bin] NUM_BINS_def popped_def)
  next
    case bin: True
    then have b8: "bin < 8" and bn: "bin < NUM_BINS - 1" by (simp_all add: NUM_BINS_def)
    show ?thesis
    proof (cases "F bin")
      case Nil
      then have e: "bin_pop bin s = (0, s)" using bin_pop_Nil [OF 1(2) b8] by simp
      then have "pop_class bin s = pop_class (bin + 1) s" using bn by (simp add: pop_class.simps [of bin])
      moreover obtain r t where R: "pop_class (bin + 1) s = (r, t)" "popped n F H s (bin + 1) r t"
        using 1(1) [OF bn e [symmetric] _ 1(2)] by blast
      ultimately have "pop_class bin s = (r, t) \<and> popped n F H s bin r t"
        using popped_step [OF Nil R(2)] by simp
      then show ?thesis by blast
    next
      case (Cons p ps)
      then obtain t where t: "bin_pop bin s = (cell_of s p, t)" "cell_of s p \<noteq> 0" "p \<notin> fst ` H"
        "block_of t (cell_of s p) = p" "fits bin (header_sizes s p)"
        "pool t n (F(bin := ps)) (insert (p, header_sizes s p) H)"
        using bin_pop_Cons [OF 1(2) b8] by blast
      then have "header_sizes s p = 64 * 2 ^ bin" using bin by (auto simp: fits_def)
      moreover have "pop_class bin s = (Some (cell_of s p, bin), t)"
        using t bn by (simp add: pop_class.simps [of bin])
      ultimately show ?thesis using t bin Cons by (auto simp: popped_def)
    qed
  qed
qed

lemma tiles_of_less: "distinct (pre @ b # post) \<Longrightarrow>
    tiles_of s (pre @ b # post) - tiles_of s (pre @ post) = {(b, header_sizes s b)}"
  by (auto simp: tiles_of_def)

definition best_of :: "(addr \<Rightarrow> nat) \<Rightarrow> nat \<Rightarrow> addr list \<Rightarrow> addr option \<Rightarrow> bool" where
  "best_of sz a ps r \<longleftrightarrow> (case r of None \<Rightarrow> \<forall>q\<in>set ps. sz q < a
     | Some p \<Rightarrow> p \<in> set ps \<and> a \<le> sz p \<and> (\<forall>q\<in>set ps. a \<le> sz q \<longrightarrow> sz p \<le> sz q))"

text \<open>The scan of the stolen list, in terms of blocks.\<close>

lemma scan_blocks:
  assumes ch: "chain (cell_adapter (cells s)) (cell_links s) c (map (cell_of s) ps)"
    and g: "geometry s n" and ab: "\<forall>p\<in>set ps. arena_block s n p" and d: "distinct ps"
  shows "find_best s a c 0 (0, 0, 0) = Some (0, 0, 0) \<and> best_of (header_sizes s) a ps None \<or>
    (\<exists>pre b post. ps = pre @ b # post \<and> best_of (header_sizes s) a ps (Some b) \<and>
       find_best s a c 0 (0, 0, 0) = Some (cell_of s b, (if pre = [] then 0 else cell_of s (last pre)), header_sizes s b))"
proof -
  let ?sz = "\<lambda>c. header_sizes s (block_of s c)"
  have sz: "?sz (cell_of s p) = header_sizes s p" if "p \<in> set ps" for p
    using arena_block_cell(3) [OF g] ab that by simp
  obtain b bp m where scan: "best_scan a ?sz 0 (map (cell_of s) ps) (0, 0, 0) = (b, bp, m)"
    by (metis prod_cases3)
  have fb: "find_best s a c 0 (0, 0, 0) = Some (b, bp, m)" using find_best_scan [OF ch] scan by simp
  have nz: "0 \<notin> set (map (cell_of s) ps)" using chain_nodes_nonzero [OF ch] .
  have least: "\<forall>q\<in>set ps. a \<le> header_sizes s q \<longrightarrow> b \<noteq> 0 \<and> m \<le> header_sizes s q"
    using best_scan_least [OF scan nz] sz by auto
  from best_scan_found [OF scan] show ?thesis
  proof
    assume e: "(b, bp, m) = (0, 0, 0)"
    then have "best_of (header_sizes s) a ps None" using least by (auto simp: best_of_def)
    with e fb show ?thesis by simp
  next
    assume "\<exists>pre post. map (cell_of s) ps = pre @ b # post \<and> bp = (if pre = [] then 0 else last pre) \<and>
      m = ?sz b \<and> a \<le> m"
    then obtain cs ds where sp: "map (cell_of s) ps = cs @ b # ds" and bp: "bp = (if cs = [] then 0 else last cs)"
      and m: "m = ?sz b" "a \<le> m" by blast
    then obtain pre p post where ps: "ps = pre @ p # post" "cs = map (cell_of s) pre" "b = cell_of s p"
      by (auto simp: map_eq_append_conv map_eq_Cons_conv)
    have mp: "m = header_sizes s p" using m ps sz [of p] by simp
    have "best_of (header_sizes s) a ps (Some p)" using least mp m ps by (auto simp: best_of_def)
    moreover have "bp = (if pre = [] then 0 else cell_of s (last pre))"
      using bp ps by (simp add: last_map)
    ultimately show ?thesis using fb ps mp by blast
  qed
qed

lemma unlink_pool:
  assumes P: "pool s n F H" and sub: "tiles_of s (pre @ b # post) \<subseteq> H" and d: "distinct (pre @ b # post)"
    and ch: "chain (cell_adapter (cells s)) (cell_links s) c (map (cell_of s) (pre @ b # post))"
  shows "\<exists>c' t. unlink_best c (cell_of s b) (if pre = [] then 0 else cell_of s (last pre)) s = (c', t) \<and>
    pool t n F H \<and> header_sizes t = header_sizes s \<and> cells t = cells s \<and> arena_start t = arena_start s \<and>
    chain (cell_adapter (cells t)) (cell_links t) c' (map (cell_of t) (pre @ post))"
proof -
  let ?l = "cell_links s"
  have ab: "arena_block s n q" if "q \<in> set (pre @ b # post)" for q
    using tile_arena_block [OF P, of q "header_sizes s q"] sub that by (auto simp: tiles_of_def)
  have inj: "inj_on (cell_of s) (set (pre @ b # post))"
    using cell_of_inj [OF poolD(1) [OF P]] ab by (auto intro!: inj_onI)
  have dc: "distinct (map (cell_of s) pre @ cell_of s b # map (cell_of s) post)"
  proof -
    have "distinct (map (cell_of s) (pre @ b # post))" unfolding distinct_map using d inj by blast
    then show ?thesis by simp
  qed
  have hb: "(b, header_sizes s b) \<in> H" using sub by simp
  show ?thesis
  proof (cases "pre = []")
    case True
    let ?t = "s\<lparr>cell_links := ?l(cell_of s b := 0)\<rparr>"
    have co: "cell_of ?t = cell_of s" by (rule cell_of_cong) simp_all
    have "chain (cell_adapter (cells s)) (?l(cell_of s b := 0)) (to_node (cell_adapter (cells s)) (?l (cell_of s b)))
        (map (cell_of s) post)" using ch True dc by (simp add: chain_update)
    moreover have "pool ?t n F H" using pool_link_hand [OF P hb] .
    ultimately show ?thesis using True co by (simp add: unlink_best_def store_link_def Let_def)
  next
    case False
    let ?s1 = "s\<lparr>cell_links := ?l(cell_of s (last pre) := ?l (cell_of s b))\<rparr>"
    let ?l2 = "(?l(cell_of s (last pre) := ?l (cell_of s b)))(cell_of s b := 0)"
    let ?t = "s\<lparr>cell_links := ?l2\<rparr>"
    have co: "cell_of ?s1 = cell_of s" by (rule cell_of_cong) simp_all
    have co2: "cell_of ?t = cell_of s" by (rule cell_of_cong) simp_all
    have lp: "last pre \<in> set pre" using False by simp
    then have hl: "(last pre, header_sizes s (last pre)) \<in> H" using sub by (auto simp: tiles_of_def)
    have "pool ?t n F H"
      using pool_link_hand [OF pool_link_hand [OF P hl] hb, of "?l (cell_of s b)" 0] co by simp
    moreover have "chain (cell_adapter (cells s)) ?l2 c (map (cell_of s) (pre @ post))"
      using chain_unlink [of "cell_adapter (cells s)" ?l c "map (cell_of s) pre" "cell_of s b" "map (cell_of s) post"]
        ch dc False by (simp add: last_map)
    moreover have "cell_of s (last pre) \<noteq> 0"
      using arena_block_cell(2) [OF poolD(1) [OF P] ab] lp by simp
    ultimately show ?thesis using False co2 by (simp add: unlink_best_def store_link_def Let_def)
  qed
qed

lemma take_best_fit_pool:
  assumes P: "pool s n F H" and a: "0 < a" "64 dvd a"
  shows "\<exists>r t. take_best_fit a s = Some (r, t) \<and> took n a H r t \<and> best_of (header_sizes s) a (F 7) r"
proof -
  let ?ps = "F 7"
  let ?H = "H \<union> tiles_of s ?ps"
  obtain c s1 h where st: "bin_steal 7 s = (c, s1)" and P1: "pool s1 n (F(7 := [])) ?H"
    and dis: "H \<inter> tiles_of s ?ps = {}" and ch: "chain (cell_adapter (cells s)) (cell_links s1) c (map (cell_of s) ?ps)"
    and d: "distinct ?ps" and s1: "s1 = s\<lparr>free_stack_heads := h\<rparr>"
    using bin_steal_pool [OF P] by metis
  have same: "cells s1 = cells s" "arena_start s1 = arena_start s" "header_sizes s1 = header_sizes s"
    by (simp_all add: s1)
  have co: "cell_of s1 = cell_of s" by (rule cell_of_cong) (simp_all add: same)
  have ch1: "chain (cell_adapter (cells s1)) (cell_links s1) c (map (cell_of s1) ?ps)"
    using ch by (simp add: same co)
  have fit: "\<forall>p\<in>set ?ps. fits 7 (header_sizes s p)" using poolD(2) [OF P] by (simp add: bins_ok_def)
  have to1: "tiles_of s1 qs = tiles_of s qs" for qs by (rule tiles_of_cong) (simp add: same)
  have ab: "\<forall>p\<in>set ?ps. arena_block s1 n p"
    using bin_arena_block [OF P, of 7] by (auto simp: arena_block_def same)
  from scan_blocks [OF ch1 poolD(1) [OF P1] ab d, of a] show ?thesis
  proof
    assume A: "find_best s1 a c 0 (0, 0, 0) = Some (0, 0, 0) \<and> best_of (header_sizes s1) a ?ps None"
    have "\<exists>t G. push_back 7 c s1 = Some t \<and> pool t n G (?H - tiles_of s1 ?ps) \<and>
        header_sizes t = header_sizes s1 \<and> cells t = cells s1 \<and> arena_start t = arena_start s1"
      by (rule push_back_pool [OF P1 _ d _ ch1]) (use fit in \<open>auto simp: same to1\<close>)
    then obtain t G where t: "push_back 7 c s1 = Some t" "pool t n G (?H - tiles_of s1 ?ps)" by blast
    have "?H - tiles_of s1 ?ps = H" using dis by (auto simp: to1)
    then have "took n a H None t" using t(2) by (auto simp: took_def)
    moreover have "take_best_fit a s = Some (None, t)"
      using A t(1) st by (simp add: take_best_fit_def NUM_BINS_def Let_def)
    ultimately show ?thesis using A same by auto
  next
    assume "\<exists>pre b post. ?ps = pre @ b # post \<and> best_of (header_sizes s1) a ?ps (Some b) \<and>
      find_best s1 a c 0 (0, 0, 0) = Some (cell_of s1 b, (if pre = [] then 0 else cell_of s1 (last pre)), header_sizes s1 b)"
    then obtain pre b post where ps: "?ps = pre @ b # post" and bo: "best_of (header_sizes s1) a ?ps (Some b)"
      and fb: "find_best s1 a c 0 (0, 0, 0) =
        Some (cell_of s1 b, (if pre = [] then 0 else cell_of s1 (last pre)), header_sizes s1 b)" by blast
    have bm: "b \<in> set ?ps" "a \<le> header_sizes s b" using bo same by (simp_all add: best_of_def)
    obtain c2 s2 where u: "unlink_best c (cell_of s1 b) (if pre = [] then 0 else cell_of s1 (last pre)) s1 = (c2, s2)"
      and P2: "pool s2 n (F(7 := [])) ?H" and same2: "header_sizes s2 = header_sizes s1" "cells s2 = cells s1"
        "arena_start s2 = arena_start s1"
      and ch2: "chain (cell_adapter (cells s2)) (cell_links s2) c2 (map (cell_of s2) (pre @ post))"
    proof -
      have "tiles_of s1 (pre @ b # post) \<subseteq> ?H" unfolding to1 ps [symmetric] by blast
      from unlink_pool [OF P1 this d [unfolded ps] ch1 [unfolded ps]] show ?thesis using that by metis
    qed
    have to2: "tiles_of s2 qs = tiles_of s qs" for qs by (rule tiles_of_cong) (simp add: same same2)
    have "\<exists>t G. push_back 7 c2 s2 = Some t \<and> pool t n G (?H - tiles_of s2 (pre @ post)) \<and>
        header_sizes t = header_sizes s2 \<and> cells t = cells s2 \<and> arena_start t = arena_start s2"
      by (rule push_back_pool [OF P2 _ _ _ ch2]) (use fit d ps in \<open>auto simp: same same2 to2\<close>)
    then obtain s3 G where t: "push_back 7 c2 s2 = Some s3" "pool s3 n G (?H - tiles_of s2 (pre @ post))"
      "header_sizes s3 = header_sizes s2" "cells s3 = cells s2" "arena_start s3 = arena_start s2" by blast
    have nb: "b \<notin> fst ` H"
      using free_fresh [OF P _ bm(1)] by simp
    have "H \<inter> tiles_of s (pre @ post) = {}" using dis ps by auto
    then have eqH: "?H - tiles_of s2 (pre @ post) = insert (b, header_sizes s b) H"
      using tiles_of_less [of pre b post s] d ps by (auto simp: to2)
    have bnz: "cell_of s1 b \<noteq> 0" and bb: "block_of s1 (cell_of s1 b) = b"
      using arena_block_cell [OF poolD(1) [OF P1]] ab bm(1) by blast+
    have b3: "block_of s3 (cell_of s1 b) = b" using bb t same2 by (simp add: block_of_def)
    obtain t' where t': "(if header_sizes s b > a then do { t \<leftarrow> free_pieces (add64 b a) (header_sizes s b - a) s3; Some (Some b, t) }
      else Some (Some b, s3)) = Some (Some b, t')" "took n a H (Some b) t'"
      using hand_out [OF t(2) [unfolded eqH] nb a bm(2)] by blast
    have "take_best_fit a s = Some (Some b, t')"
      using t'(1) t(1) st fb u bnz b3 same
      by (simp add: take_best_fit_def NUM_BINS_def Let_def split: if_splits)
    then show ?thesis using t'(2) bo same by auto
  qed
qed

lemma took_cong: "took n a H r t \<Longrightarrow> H = H' \<Longrightarrow> took n a H' r t"
  by simp

text \<open>
  Reuse of freed blocks.  The block comes from the smallest class bin that has one and can serve
  the request, and from the large bin's best fit when there is none.
\<close>

definition reuses :: "(nat \<Rightarrow> addr list) \<Rightarrow> (addr \<Rightarrow> nat) \<Rightarrow> nat \<Rightarrow> addr option \<Rightarrow> bool" where
  "reuses F sz a r \<longleftrightarrow>
     (\<exists>j. get_bin a \<le> j \<and> j < 7 \<and> F j \<noteq> [] \<and> r = Some (hd (F j)) \<and> (\<forall>i. get_bin a \<le> i \<longrightarrow> i < j \<longrightarrow> F i = [])) \<or>
     (\<forall>i. get_bin a \<le> i \<longrightarrow> i < 7 \<longrightarrow> F i = []) \<and> best_of sz a (F 7) r"

lemma take_free_pool:
  assumes P: "pool s n F H" and a: "fits (get_bin a) a"
  shows "\<exists>r t. take_free a s = Some (r, t) \<and> took n a H r t \<and> reuses F (header_sizes s) a r"
proof -
  have a0: "0 < a" "64 dvd a" using fits_pos [OF a] by simp_all
  obtain r t where pc: "pop_class (get_bin a) s = (r, t)" and R: "popped n F H s (get_bin a) r t"
    using pop_class_pool [OF P] by blast
  show ?thesis
  proof (cases r)
    case None
    then have ts: "t = s" "\<forall>i. get_bin a \<le> i \<longrightarrow> i < 7 \<longrightarrow> F i = []" using R by (simp_all add: popped_def)
    obtain r' t' where "take_best_fit a s = Some (r', t')" "took n a H r' t'" "best_of (header_sizes s) a (F 7) r'"
      using take_best_fit_pool [OF P a0] by blast
    then show ?thesis using pc None ts by (auto simp: take_free_def reuses_def)
  next
    case (Some x)
    then obtain cell j where r: "r = Some (cell, j)" by (cases x) auto
    with R obtain G where j: "get_bin a \<le> j" "j < 7" "block_of t cell \<notin> fst ` H" "F j \<noteq> []"
      "block_of t cell = hd (F j)" "\<forall>i. get_bin a \<le> i \<longrightarrow> i < j \<longrightarrow> F i = []"
      "pool t n G (insert (block_of t cell, 64 * 2 ^ j) H)" by (auto simp: popped_def)
    have "a = 64 * 2 ^ get_bin a" using a j(1,2) by (auto simp: fits_def)
    moreover have "(2 :: nat) ^ get_bin a \<le> 2 ^ j" using j(1) by (intro power_increasing) auto
    ultimately have le: "a \<le> 64 * 2 ^ j" by linarith
    let ?p = "block_of t cell"
    obtain t' where t': "(if 64 * 2 ^ j > a then do { t \<leftarrow> free_pieces (add64 ?p a) (64 * 2 ^ j - a) t; Some (Some ?p, t) }
      else Some (Some ?p, t)) = Some (Some ?p, t')" "took n a H (Some ?p) t'"
      using hand_out [OF j(7,3) a0 le] by blast
    have "take_free a s = Some (Some ?p, t')"
      using t'(1) pc r by (simp add: take_free_def MIN_ALIGNMENT_def Let_def)
    moreover have "reuses F (header_sizes s) a (Some ?p)" using j by (auto simp: reuses_def)
    ultimately show ?thesis using t'(2) by blast
  qed
qed

section \<open>The operations keep the pool\<close>

lemma arena_size_bound: "geometry s n \<Longrightarrow> capacity s = 64 * n \<and> 64 * n < 274877906944"
  by (simp add: geometry_def capacity_def sub64_exact)

lemma static_allocate_pool:
  assumes P: "pool s n F H"
  shows "\<exists>r t. static_do_allocate s b a = Some (r, t) \<and> took n (block_size_for b) H r t \<and>
    (r \<noteq> None \<longrightarrow> a \<le> 64 \<and> b \<le> capacity s \<and> b + 128 < 18446744073709551616)"
proof (cases "64 < a \<or> capacity s < b")
  case True
  then show ?thesis using P by (auto simp: static_do_allocate_def took_def MIN_ALIGNMENT_def)
next
  case False
  then have ab: "a \<le> 64" "b \<le> capacity s" by simp_all
  have g: "geometry s n" using poolD(1) [OF P] .
  have small: "b + 128 < 18446744073709551616" using arena_size_bound [OF g] ab(2) by linarith
  let ?m = "block_size_for b"
  have fit: "fits (get_bin ?m) ?m" using block_size_fits(1) [OF small] .
  then have m: "0 < ?m" "64 dvd ?m" using fits_pos by blast+
  have cur: "current_ptr s \<le> arena_end s" "64 dvd current_ptr s" using poolD(7,8) [OF P] by simp_all
  have end64: "arena_end s + 64 < 18446744073709551616" using g by (simp add: geometry_def)
  have al: "align_mask (current_ptr s) MIN_ALIGNMENT = current_ptr s"
    using align_mask_round_up [of "current_ptr s" 6] cur end64 round_up_id [of 64 "current_ptr s"]
    by (simp add: MIN_ALIGNMENT_def)
  have rest: "sub64 (arena_end s) (current_ptr s) = arena_end s - current_ptr s"
    using cur end64 by (simp add: sub64_exact)
  show ?thesis
  proof (cases "arena_end s - current_ptr s < ?m")
    case True
    obtain r t where "take_free ?m s = Some (r, t)" "took n ?m H r t"
      using take_free_pool [OF P fit] by blast
    then show ?thesis using ab small True al rest cur by (simp add: static_do_allocate_def MIN_ALIGNMENT_def)
  next
    case False
    then have fit': "current_ptr s + ?m \<le> arena_end s" using cur by linarith
    then have ex: "add64 (current_ptr s) ?m = current_ptr s + ?m" using end64 by (simp add: add64_exact)
    have "took n ?m H (Some (current_ptr s)) (s\<lparr>current_ptr := current_ptr s + ?m\<rparr>)"
      using bump_pool [OF P m fit'] by (auto simp: took_def)
    then show ?thesis using ab small False al rest cur ex
      by (simp add: static_do_allocate_def MIN_ALIGNMENT_def not_less Let_def)
  qed
qed

text \<open>Blocks at the clients: the tiles of a ledger.\<close>

definition live_tiles :: "ledger \<Rightarrow> tile set" where
  "live_tiles L = (\<lambda>(p, b, a). (p, block_size_for b)) ` L"

definition static_owns :: "static_arena \<Rightarrow> ledger \<Rightarrow> bool" where
  "static_owns s L \<longleftrightarrow> (\<exists>n F. pool s n F (live_tiles L)) \<and> inj_on fst L \<and>
     (\<forall>(p, b, a)\<in>L. a \<le> 64 \<and> b + 128 < 18446744073709551616)"

lemma live_tiles_fst: "fst ` live_tiles L = fst ` L"
  by (force simp: live_tiles_def)

lemma live_tiles_insert: "live_tiles (insert (p, b, a) L) = insert (p, block_size_for b) (live_tiles L)"
  by (simp add: live_tiles_def)

lemma live_tiles_mem: "(p, b, a) \<in> L \<Longrightarrow> (p, block_size_for b) \<in> live_tiles L"
  by (force simp: live_tiles_def)

lemma live_tiles_remove:
  assumes "(p, b, a) \<in> L" and "inj_on fst L"
  shows "live_tiles (L - {(p, b, a)}) = live_tiles L - {(p, block_size_for b)}"
proof -
  have "y = (p, b, a)" if "y \<in> L" "fst y = p" for y
    using inj_onD [OF assms(2), of y "(p, b, a)"] that assms(1) by simp
  then show ?thesis by (force simp: live_tiles_def)
qed

lemma static_owns_sound:
  assumes "static_owns s L"
  shows "ledger_sound L"
proof -
  obtain n F where P: "pool s n F (live_tiles L)" using assms by (auto simp: static_owns_def)
  have inj: "inj_on fst L" and args: "\<And>p b a. (p, b, a) \<in> L \<Longrightarrow> a \<le> 64 \<and> b + 128 < 18446744073709551616"
    using assms by (auto simp: static_owns_def)
  have end64: "current_ptr s < 18446744073709551616" "0 < arena_start s"
    using poolD(1,7) [OF P] by (simp_all add: geometry_def)
  have blk: "block_sound (p, b, a)" if m: "(p, b, a) \<in> L" for p b a
  proof -
    have t: "(p, block_size_for b) \<in> live_tiles L \<union> free_tiles s F" using live_tiles_mem [OF m] by simp
    have w: "arena_start s \<le> p" "p + block_size_for b \<le> current_ptr s"
      using tiling_within [OF poolD(3) [OF P] t] by simp_all
    have "64 dvd p" using poolD(5) [OF P] t by (auto simp: aligned_tiles_def)
    moreover have "pow2 a \<Longrightarrow> a dvd 64" using args [OF m] pow2_dvd_le [of a 6] by simp
    ultimately show ?thesis using w end64 block_size_fits(2) [of b] args [OF m]
      by (auto simp: block_sound_def intro: dvd_trans)
  qed
  have clear: "clear_of x y" if x: "x \<in> L" and y: "y \<in> L" and ne: "x \<noteq> y" for x y
  proof -
    obtain p b a q c d where xy: "x = (p, b, a)" "y = (q, c, d)" by (metis prod_cases3)
    have pq: "p \<noteq> q" using inj_onD [OF inj _ x y] ne xy by auto
    have "apart p (block_size_for b) q (block_size_for c)"
      using tiling_apart [OF poolD(3) [OF P]] live_tiles_mem x y xy pq by blast
    moreover have "b \<le> block_size_for b" "c \<le> block_size_for c"
      using block_size_fits(2) args x y unfolding xy by blast+
    ultimately have "apart p b q c" by (rule apart_mono)
    then show ?thesis using pq xy by (simp add: clear_of_def)
  qed
  show ?thesis unfolding ledger_sound_def using blk clear by auto
qed

text \<open>No block of the arena reaches the end of the address space: the cells come after it.\<close>

lemma static_ends_below:
  assumes "static_owns s L" and m: "(p, b, a) \<in> L"
  shows "p + b < 18446744073709551616"
proof -
  obtain n F where P: "pool s n F (live_tiles L)" using assms by (auto simp: static_owns_def)
  have "p + block_size_for b \<le> current_ptr s" "current_ptr s < 18446744073709551616"
    using tiling_within [OF poolD(3) [OF P]] live_tiles_mem [OF m] poolD(1,7) [OF P] by (auto simp: geometry_def)
  moreover have "b + 128 < 18446744073709551616" using assms by (auto simp: static_owns_def)
  ultimately show ?thesis using block_size_fits(2) [of b] by simp
qed

lemma static_allocate_owns:
  assumes own: "static_owns s L"
  shows "\<exists>r t. static_do_allocate s b a = Some (r, t) \<and> (case r of None \<Rightarrow> static_owns t L
    | Some p \<Rightarrow> p \<notin> fst ` L \<and> static_owns t (insert (p, b, a) L))"
proof -
  obtain n F where P: "pool s n F (live_tiles L)" using own by (auto simp: static_owns_def)
  obtain r t where r: "static_do_allocate s b a = Some (r, t)" "took n (block_size_for b) (live_tiles L) r t"
    "r \<noteq> None \<longrightarrow> a \<le> 64 \<and> b \<le> capacity s \<and> b + 128 < 18446744073709551616"
    using static_allocate_pool [OF P] by blast
  show ?thesis
  proof (cases r)
    case None
    then show ?thesis using r own by (auto simp: took_def static_owns_def)
  next
    case (Some p)
    then obtain G where new: "p \<notin> fst ` L" and P': "pool t n G (live_tiles (insert (p, b, a) L))"
      using r(2) by (auto simp: took_def live_tiles_fst live_tiles_insert)
    have "static_owns t (insert (p, b, a) L)"
      using own P' new r(3) Some by (auto simp: static_owns_def)
    then show ?thesis using r(1) Some new by auto
  qed
qed

text \<open>The assertion of \<^verbatim>\<open>do_deallocate\<close> holds for every block of the arena.\<close>

lemma static_deallocate_live:
  assumes P: "pool s n F H" and t: "(p, m) \<in> H"
  shows "p \<noteq> 0" and "static_do_deallocate s p b a = Some (push_free p (block_size_for b) s)"
proof -
  obtain i where i: "i < n" "p = arena_start s + 64 * i"
    using tile_arena_block [OF P, of p m] t by (auto simp: arena_block_def)
  have g: "0 < arena_start s" "arena_end s = arena_start s + 64 * n" "arena_end s < 18446744073709551616"
    using poolD(1) [OF P] by (auto simp: geometry_def)
  have "sub64 p (arena_start s) = 64 * i" using i g by (simp add: sub64_exact)
  then have "and64 (sub64 p (arena_start s)) 63 = 0" using and64_mask [of "64 * i" 6] i g by simp
  then show "p \<noteq> 0" and "static_do_deallocate s p b a = Some (push_free p (block_size_for b) s)"
    using i g by (simp_all add: static_do_deallocate_def MIN_ALIGNMENT_def)
qed

lemma static_deallocate_owns:
  assumes own: "static_owns s L" and m: "(p, b, a) \<in> L"
  shows "\<exists>t. static_do_deallocate s p b a = Some t \<and> static_owns t (L - {(p, b, a)})"
proof -
  obtain n F where P: "pool s n F (live_tiles L)" using own by (auto simp: static_owns_def)
  have inj: "inj_on fst L" and arg: "b + 128 < 18446744073709551616"
    using own m by (auto simp: static_owns_def)
  have t: "(p, block_size_for b) \<in> live_tiles L" using live_tiles_mem [OF m] .
  have "pool (push_free p (block_size_for b) s) n
      (F(get_bin (block_size_for b) := p # F (get_bin (block_size_for b)))) (live_tiles (L - {(p, b, a)}))"
    using push_free_pool [OF P t block_size_fits(1) [OF arg]] live_tiles_remove [OF m inj] by simp
  moreover have "inj_on fst (L - {(p, b, a)})" using inj by (rule inj_on_subset) blast
  ultimately show ?thesis using own static_deallocate_live(2) [OF P t] by (auto simp: static_owns_def)
qed

interpretation static: memory_resource "\<lambda>c. static_do_allocate" "\<lambda>c. static_do_deallocate"
  static_owns
proof
  fix s :: static_arena and L :: ledger and c b a :: nat and p s'
  assume own: "static_owns s L"
  show "ledger_sound L" using own by (rule static_owns_sound)
  note call = static_allocate_owns [OF own, of b a]
  show "static_do_allocate s b a \<noteq> None" using call by auto
  show "static_do_allocate s b a = Some (Some p, s') \<Longrightarrow> p \<notin> fst ` L \<and> static_owns s' (insert (p, b, a) L)"
    using call by auto
  show "static_do_allocate s b a = Some (None, s') \<Longrightarrow> static_owns s' L" using call by auto
  show "(p, b, a) \<in> L \<Longrightarrow> \<exists>s'. static_do_deallocate s p b a = Some s' \<and> static_owns s' (L - {(p, b, a)})"
    for p using static_deallocate_owns [OF own] by simp
qed

section \<open>A fresh arena\<close>

lemma aligned_start_round:
  "start + 64 < 18446744073709551616 \<Longrightarrow> aligned_start start = round_up start 64"
  using align_mask_round_up [of start 6] by (simp add: aligned_start_def MIN_ALIGNMENT_def)

lemma block_count_fits:
  assumes "start + sz + 128 \<le> 18446744073709551616"
  shows "round_up start 64 + 68 * block_count start sz \<le> start + sz + 63"
    and "block_count start sz < 4294967295"
proof -
  let ?a = "round_up start 64"
  have a: "start \<le> ?a" "?a < start + 64" using round_up_ge [of 64 start] round_up_less [of 64 start] by simp_all
  have pad: "sub64 (aligned_start start) start = ?a - start"
    using a assms aligned_start_round [of start] by (simp add: sub64_exact)
  let ?u = "if sz > ?a - start then sz - (?a - start) else 0"
  have bc: "block_count start sz = (if ?u div 68 < 4294967295 then ?u div 68 else 4294967294)"
    unfolding block_count_def pad Let_def by (simp only: arena_constants) simp
  have "block_count start sz \<le> ?u div 68" unfolding bc by simp
  then have "68 * block_count start sz \<le> 68 * (?u div 68)" by simp
  also have "\<dots> \<le> ?u" by simp
  finally show "?a + 68 * block_count start sz \<le> start + sz + 63" using a by (simp split: if_splits)
  show "block_count start sz < 4294967295" unfolding bc by simp
qed

lemma static_arena_fields:
  assumes "start \<noteq> 0" and "start + sz + 128 \<le> 18446744073709551616"
  shows "static_arena_resource l0 s0 start sz =
    (let n = block_count start sz; first = round_up start 64; last = first + 64 * n in
     \<lparr>arena_start = first, arena_end = last, cells = last, current_ptr = first,
      head_codec = cell_codec last n, free_stack_heads = replicate 8 (at_make (cell_codec last n) 0 0),
      cell_links = l0, header_sizes = s0\<rparr>)"
proof -
  let ?n = "block_count start sz" and ?a = "round_up start 64"
  note b = block_count_fits [OF assms(2)]
  have st: "aligned_start start = ?a" using aligned_start_round [of start] assms(2) by simp
  have m: "mul64 ?n 64 = 64 * ?n" "mul64 ?n 4 = 4 * ?n" using b(2) by (simp_all add: mul64_exact)
  have e: "add64 ?a (64 * ?n) = ?a + 64 * ?n" using b(1) assms(2) by (simp add: add64_exact)
  show ?thesis
    unfolding static_arena_resource_def by (simp add: st NUM_BINS_def MIN_ALIGNMENT_def LINK_CELL_SIZE_def m e Let_def)
qed

lemma static_arena_pool:
  assumes "start \<noteq> 0" and "start + sz + 128 \<le> 18446744073709551616"
  shows "pool (static_arena_resource l0 s0 start sz) (block_count start sz) (\<lambda>_. []) {}"
proof -
  let ?n = "block_count start sz" and ?a = "round_up start 64" and ?s = "static_arena_resource l0 s0 start sz"
  note b = block_count_fits [OF assms(2)]
  have a0: "0 < ?a" using round_up_ge [of 64 start] assms(1) by simp
  have s: "?s = \<lparr>arena_start = ?a, arena_end = ?a + 64 * ?n, cells = ?a + 64 * ?n, current_ptr = ?a,
      head_codec = cell_codec (?a + 64 * ?n) ?n,
      free_stack_heads = replicate 8 (at_make (cell_codec (?a + 64 * ?n) ?n) 0 0),
      cell_links = l0, header_sizes = s0\<rparr>"
    using static_arena_fields [OF assms] by (simp add: Let_def)
  have g: "geometry ?s ?n" using b assms(2) a0 by (simp add: geometry_def s)
  have h: "bin_holds ?s ?n i []" if "i < 8" for i
    using that free_bins.holds_empty [of "?a + 64 * ?n" ?n 0 l0]
    by (simp add: bin_holds_def s at_make_def arena_head_codec_def)
  then have bo: "bins_ok ?s ?n (\<lambda>_. [])" by (simp add: bins_ok_def)
  have ft: "free_tiles ?s (\<lambda>_. []) = {}" by (simp add: free_tiles_def)
  have c: "current_ptr ?s = arena_start ?s" "64 dvd arena_start ?s" "arena_start ?s \<le> arena_end ?s"
    by (simp_all add: s)
  show ?thesis unfolding pool_def ft using g bo c tiling_empty by (simp add: aligned_tiles_def)
qed

lemma static_arena_owns:
  "start \<noteq> 0 \<Longrightarrow> start + sz + 128 \<le> 18446744073709551616 \<Longrightarrow> static_owns (static_arena_resource l0 s0 start sz) {}"
proof -
  assume "start \<noteq> 0" and "start + sz + 128 \<le> 18446744073709551616"
  from static_arena_pool [OF this, of l0 s0] show ?thesis
    unfolding static_owns_def live_tiles_def by auto
qed

lemma static_session:
  assumes "start \<noteq> 0" and "start + sz + 128 \<le> 18446744073709551616" and "list_all request_ok rs"
  shows "\<exists>y. serve_all (\<lambda>c. static_do_allocate) (\<lambda>c. static_do_deallocate) rs
      \<lparr>resource = static_arena_resource l0 s0 start sz, held = []\<rparr> = Some y \<and>
    ledger_sound (set (held y)) \<and> static_owns (resource y) (set (held y)) \<and> distinct (held y)"
proof -
  have "static.session_inv \<lparr>resource = static_arena_resource l0 s0 start sz, held = []\<rparr>"
    using static_arena_owns [OF assms(1,2)] by (simp add: static.session_inv_def held_ok_def)
  from static.serve_all_inv [OF this assms(3)] show ?thesis
    using static_owns_sound by (auto simp: static.session_inv_def held_ok_def)
qed

text \<open>A live block and a free block account for all the bytes below the bump pointer.\<close>

definition free_blocks :: "static_arena \<Rightarrow> (nat \<Rightarrow> addr list) \<Rightarrow> bool" where
  "free_blocks s F \<longleftrightarrow> (\<exists>n. bins_ok s n F \<and> geometry s n)"

lemma static_owns_tiling:
  assumes own: "static_owns s L"
  shows "\<exists>F. free_blocks s F \<and> tiling (arena_start s) (current_ptr s) (live_tiles L \<union> free_tiles s F) \<and>
    live_tiles L \<inter> free_tiles s F = {}"
  using own poolD(1-4) unfolding static_owns_def free_blocks_def by blast

section \<open>Properties\<close>

text \<open>C1: Any sequence of allocations and releases on a fresh arena runs to its end: every call
  returns, the blocks the clients hold never overlap, none is null, and each has the alignment
  it was requested with.\<close>

theorem static_session_sound:
  assumes "start \<noteq> 0" and "start + sz + 128 \<le> 18446744073709551616" and "list_all request_ok rs"
  shows "\<exists>y. serve_all (\<lambda>c. static_do_allocate) (\<lambda>c. static_do_deallocate) rs
      \<lparr>resource = static_arena_resource l0 s0 start sz, held = []\<rparr> = Some y \<and> ledger_sound (set (held y))"
  using static_session [OF assms] by blast

theorem static_session_sound_witness:
  "\<exists>y. serve_all (\<lambda>c. static_do_allocate) (\<lambda>c. static_do_deallocate)
      [Allocate 0 100 8, Allocate 0 5000 64, Release 0 0, Allocate 0 1 1, Release 0 0]
      \<lparr>resource = static_arena_resource (\<lambda>_. 0) (\<lambda>_. 0) 4100 100000, held = []\<rparr> = Some y \<and>
    ledger_sound (set (held y))"
  by (rule static_session_sound) (simp_all add: request_ok_def arg_ok_def)

text \<open>C11: No byte of the arena is lost or in two places: after any session, the spans reserved for the
  blocks still held and the spans of the blocks in the free bins tile the part of the arena that
  the bump pointer has passed.  They are pairwise disjoint, no block is both held and free, and together
  they cover every byte from the start of the arena up to the bump pointer.\<close>

theorem static_bytes_conserved:
  assumes "start \<noteq> 0" and "start + sz + 128 \<le> 18446744073709551616" and "list_all request_ok rs"
  shows "\<exists>y F. serve_all (\<lambda>c. static_do_allocate) (\<lambda>c. static_do_deallocate) rs
      \<lparr>resource = static_arena_resource l0 s0 start sz, held = []\<rparr> = Some y \<and> free_blocks (resource y) F \<and>
    tiling (arena_start (resource y)) (current_ptr (resource y)) (live_tiles (set (held y)) \<union> free_tiles (resource y) F) \<and>
    live_tiles (set (held y)) \<inter> free_tiles (resource y) F = {}"
  using static_session [OF assms, of l0 s0] static_owns_tiling by metis

theorem static_bytes_conserved_witness:
  "\<exists>y F. serve_all (\<lambda>c. static_do_allocate) (\<lambda>c. static_do_deallocate)
      [Allocate 0 6000 8, Release 0 0, Allocate 0 100 64]
      \<lparr>resource = static_arena_resource (\<lambda>_. 0) (\<lambda>_. 0) 4100 8000, held = []\<rparr> = Some y \<and> free_blocks (resource y) F \<and>
    tiling (arena_start (resource y)) (current_ptr (resource y)) (live_tiles (set (held y)) \<union> free_tiles (resource y) F) \<and>
    live_tiles (set (held y)) \<inter> free_tiles (resource y) F = {}"
  by (rule static_bytes_conserved) (simp_all add: request_ok_def arg_ok_def)

text \<open>A request of up to 4096 bytes reserves the smallest of the classes 64, 128, ..., 4096
  that holds it, a larger one the next multiple of 64, and the block's bin is the one that
  holds exactly such blocks.\<close>

theorem block_size_least:
  assumes "b + 128 < 18446744073709551616"
  shows "block_size_for b =
      (if b \<le> 4096 then 64 * 2 ^ (LEAST j. b \<le> 64 * 2 ^ j) else round_up b 64) \<and>
    get_bin (block_size_for b) = (if b \<le> 4096 then LEAST j. b \<le> 64 * 2 ^ j else 7)"
proof (cases "b \<le> 4096")
  case False
  then have "4096 < round_up (max b 8) 64" using round_up_ge [of 64 b] by simp
  then show ?thesis using False assms by (simp add: block_size_cases get_bin_large max_def)
next
  case True
  let ?r = "round_up (max b 8) 64"
  have r: "?r \<le> 4096" using round_up_mono_dvd [of 64 4096 "max b 8"] True by simp
  obtain j where j: "j < 7" "class_at_least ?r 64 = 64 * 2 ^ j" "?r \<le> 64 * 2 ^ j"
    "0 < j \<longrightarrow> 64 * 2 ^ (j - 1) < ?r" using class_at_least_table [OF r] by blast
  have "(LEAST j. b \<le> 64 * 2 ^ j) = j"
  proof (rule Least_equality)
    show "b \<le> 64 * 2 ^ j" using j(3) round_up_ge [of 64 "max b 8"] by simp
    fix i assume i: "b \<le> 64 * 2 ^ i"
    show "j \<le> i"
    proof (rule ccontr)
      assume n: "\<not> j \<le> i"
      have "(1 :: nat) \<le> 2 ^ i" by simp
      then have "max b 8 \<le> 64 * 2 ^ i" using i by linarith
      then have "?r \<le> 64 * 2 ^ i" by (intro round_up_mono_dvd) simp_all
      moreover have "(2 :: nat) ^ i \<le> 2 ^ (j - 1)" using n by (intro power_increasing) auto
      moreover have "64 * 2 ^ (j - 1) < ?r" using j(4) n by simp
      ultimately show False by linarith
    qed
  qed
  then show ?thesis using True r j assms by (simp add: block_size_cases get_bin_class)
qed

theorem block_size_least_witness:
  "block_size_for 5000 = 5056 \<and> get_bin (block_size_for 5000) = 7"
  using block_size_least [of 5000] by (auto simp: round_up_def)

lemma static_arena_bump:
  assumes "start \<noteq> 0" and "start + sz + 128 \<le> 18446744073709551616" and "a \<le> 64"
    and "b \<le> 64 * block_count start sz" and "block_size_for b \<le> 64 * block_count start sz"
  shows "static_do_allocate (static_arena_resource l0 s0 start sz) b a = Some (Some (round_up start 64),
    (static_arena_resource l0 s0 start sz)\<lparr>current_ptr := round_up start 64 + block_size_for b\<rparr>)"
proof -
  let ?s = "static_arena_resource l0 s0 start sz" and ?n = "block_count start sz" and ?a = "round_up start 64"
  have P: "pool ?s ?n (\<lambda>_. []) {}" by (rule static_arena_pool [OF assms(1,2)])
  have f: "arena_start ?s = ?a" "current_ptr ?s = ?a" "arena_end ?s = ?a + 64 * ?n" "capacity ?s = 64 * ?n"
    using static_arena_fields [OF assms(1,2)] arena_size_bound [OF poolD(1) [OF P]] by (simp_all add: Let_def)
  have e: "?a + 64 * ?n + 64 < 18446744073709551616" using poolD(1) [OF P] f by (simp add: geometry_def)
  have al: "align_mask ?a MIN_ALIGNMENT = ?a"
    using align_mask_round_up [of ?a 6] e round_up_id [of 64 ?a] by (simp add: MIN_ALIGNMENT_def)
  have "sub64 (?a + 64 * ?n) ?a = 64 * ?n" "add64 ?a (block_size_for b) = ?a + block_size_for b"
    using e assms(5) by (simp_all add: sub64_exact add64_exact)
  then show ?thesis using assms al f by (simp add: static_do_allocate_def MIN_ALIGNMENT_def Let_def)
qed

lemma static_allocate_exhausted:
  assumes P: "pool s n F H" and "a \<le> 64" and "b \<le> capacity s"
    and full: "arena_end s - current_ptr s < block_size_for b"
  shows "static_do_allocate s b a = take_free (block_size_for b) s"
proof -
  have cur: "current_ptr s \<le> arena_end s" "64 dvd current_ptr s" using poolD(7,8) [OF P] by simp_all
  have end64: "arena_end s + 64 < 18446744073709551616" using poolD(1) [OF P] by (simp add: geometry_def)
  have al: "align_mask (current_ptr s) MIN_ALIGNMENT = current_ptr s"
    using align_mask_round_up [of "current_ptr s" 6] cur end64 round_up_id [of 64 "current_ptr s"]
    by (simp add: MIN_ALIGNMENT_def)
  have "sub64 (arena_end s) (current_ptr s) = arena_end s - current_ptr s"
    using cur end64 by (simp add: sub64_exact)
  then show ?thesis using assms al cur by (simp add: static_do_allocate_def MIN_ALIGNMENT_def)
qed

text \<open>Freed memory is reused: once the bump pointer cannot serve a class, the block of that
  class freed last is the one the next allocation of the class returns.\<close>

theorem static_reuses_last_freed:
  assumes own: "static_owns s L" and m: "(p, b, a) \<in> L" and "b \<le> 4096"
    and "block_size_for b' = block_size_for b" and "a' \<le> 64" and "b' \<le> capacity s"
    and "arena_end s - current_ptr s < block_size_for b"
  shows "\<exists>u t. static_do_deallocate s p b a = Some u \<and> static_do_allocate u b' a' = Some (Some p, t)"
proof -
  obtain n F where P: "pool s n F (live_tiles L)" using own by (auto simp: static_owns_def)
  have arg: "b + 128 < 18446744073709551616" using own m by (auto simp: static_owns_def)
  let ?m = "block_size_for b"
  let ?t = "push_free p ?m s"
  have fit: "fits (get_bin ?m) ?m" using block_size_fits(1) [OF arg] .
  let ?F = "F(get_bin ?m := p # F (get_bin ?m))"
  have P': "pool ?t n ?F (live_tiles L - {(p, ?m)})"
    by (rule push_free_pool [OF P live_tiles_mem [OF m] fit])
  have same: "capacity ?t = capacity s" "arena_end ?t = arena_end s" "current_ptr ?t = current_ptr s"
    by (simp_all add: push_free_def bin_push_def Let_def capacity_def split: prod.splits)
  have full: "arena_end ?t - current_ptr ?t < block_size_for b'" "b' \<le> capacity ?t"
    using assms(4,6,7) same by simp_all
  have "static_do_allocate ?t b' a' = take_free ?m ?t"
    using static_allocate_exhausted [OF P' assms(5) full(2,1)] assms(4) by simp
  moreover obtain r t' where rt: "take_free ?m ?t = Some (r, t')" "reuses ?F (header_sizes ?t) ?m r"
    using take_free_pool [OF P' fit] by blast
  moreover have "get_bin ?m < 7"
  proof -
    obtain j where "j < 7" "?m = 64 * 2 ^ j"
    proof -
      have "round_up (max b 8) 64 \<le> 4096" using round_up_mono_dvd [of 64 4096 "max b 8"] assms(3) by simp
      then show ?thesis using class_at_least_table that arg by (auto simp: block_size_cases)
    qed
    then show ?thesis by (simp add: get_bin_class)
  qed
  then have "r = Some p" using rt(2) unfolding reuses_def
    by (metis fun_upd_same le_refl list.distinct(1) list.sel(1) le_neq_implies_less)
  ultimately show ?thesis
    using static_deallocate_live(2) [OF P live_tiles_mem [OF m]] by simp
qed

theorem static_reuses_last_freed_witness:
  "\<exists>s L u t. static_owns s L \<and> static_do_deallocate s 4096 10 8 = Some u \<and>
     static_do_allocate u 60 16 = Some (Some 4096, t)"
proof -
  let ?s0 = "static_arena_resource (\<lambda>_. 0) (\<lambda>_. 0) 4096 68"
  have c: "block_count 4096 68 = 1"
    using aligned_start_round [of 4096] by (simp add: block_count_def arena_constants round_up_def sub64_exact)
  have r: "round_up 4096 64 = 4096" by (simp add: round_up_def)
  have z: "block_size_for 10 = 64" "block_size_for 60 = 64"
    using block_size_cases [of 10] block_size_cases [of 60]
    by (simp_all add: round_up_def class_at_least.simps)
  obtain s where s: "static_do_allocate ?s0 10 8 = Some (Some 4096, s)" "s = ?s0\<lparr>current_ptr := 4160\<rparr>"
    using static_arena_bump [of 4096 68 8 10] by (simp add: c r z)
  have f: "current_ptr s = 4160" "arena_end s = 4160" "capacity s = 64"
    using static_arena_fields [of 4096 68] by (simp_all add: s(2) Let_def r c capacity_def sub64_exact)
  have own: "static_owns s {(4096, 10, 8)}"
    using s(1) static_allocate_owns [OF static_arena_owns [of 4096 68 "\<lambda>_. 0" "\<lambda>_. 0"], of 10 8] by simp
  show ?thesis using static_reuses_last_freed [OF own, of 4096 10 8 60 16] f z own by auto
qed

end
