(* ===== verification/Arena_Bins.thy ===== *)
theory Arena_Bins
  imports Static_Arena
begin

text \<open>
  The free bins of the arena resource under concurrency: \<open>Tagged_Stack\<close>'s interleaved stack with
  the codec and the link table of \<^verbatim>\<open>lockfree_static_arena_resource.h\<close>.  A context is a thread or
  an interrupt handler; every interleaving of their atomic accesses is a sequence of
  \<open>stack_step\<close>s.
\<close>

definition bin_codec :: "addr \<Rightarrow> nat \<Rightarrow> codec" where
  "bin_codec c n = arena_head_codec (cell_codec c n)"

definition bin_counter_bits :: "addr \<Rightarrow> nat \<Rightarrow> nat" where
  "bin_counter_bits c n = counter_bits (cell_codec c n)"

definition bin_reach :: "addr \<Rightarrow> nat \<Rightarrow> (addr \<Rightarrow> nat option) \<Rightarrow> stack_state \<Rightarrow> bool" where
  "bin_reach c n who s \<longleftrightarrow>
     stack_reach (bin_codec c n) (cell_adapter c) (bin_counter_bits c n) (stack_init (bin_codec c n) who) s"

lemma bin_width:
  assumes "64 dvd c" and "c + 4 * n + 64 < 18446744073709551616" and "n < 4294967295"
  shows "32 \<le> bin_counter_bits c n"
proof -
  have m: "max_index (cell_codec c n) = n + 1" using cell_codec_max assms by simp
  let ?b = "index_bits (cell_codec c n)"
  have b: "?b = bits_loop (n + 1) 1" by (simp add: arena_codec_fields(3) bits_for_def m)
  have "?b \<le> 32"
  proof (rule ccontr)
    assume "\<not> ?b \<le> 32"
    then have "2 ^ (?b - 1) \<le> n + 1" and "(2 :: nat) ^ 32 \<le> 2 ^ (?b - 1)"
      using bits_loop_tight [of "n + 1" 1] b by (simp, intro power_increasing) auto
    then have "(2 :: nat) ^ 32 \<le> n + 1" by linarith
    then show False using assms(3) by simp
  qed
  then show ?thesis by (simp add: bin_counter_bits_def counter_bits_def)
qed

text \<open>An example: a table with two cells, each context holding one of them.\<close>

definition two_cells :: "addr \<Rightarrow> nat option" where
  "two_cells = [4096 \<mapsto> 0, 4100 \<mapsto> 1]"

lemma two_cells_ok: "\<forall>m t. two_cells m = Some t \<longrightarrow> link_node 4096 2 m \<and> m \<noteq> 0"
proof (intro allI impI)
  fix m t
  assume "two_cells m = Some t"
  then consider "m = 4096 + 4 * 0" | "m = 4096 + 4 * 1" by (auto simp: two_cells_def split: if_splits)
  then show "link_node 4096 2 m \<and> m \<noteq> 0" by cases (auto simp: link_node_def)
qed

lemma two_cells_head: "unpack_ptr (bin_codec 4096 2) (pack (bin_codec 4096 2) 0 0) = 0"
  using free_bins.ptr_pack [of 0 4096 2] by (simp add: bin_codec_def)

lemma two_cells_head1: "unpack_ptr (bin_codec 4096 2) (pack (bin_codec 4096 2) 4100 k) = 4100"
  using free_bins.ptr_pack [of 4100 4096 2] two_cells_ok [rule_format, of 4100 1]
  by (simp add: bin_codec_def two_cells_def)

text \<open>Context 1 is about to push its cell while context 0 has loaded the head.\<close>

definition mid_push :: stack_state where
  "mid_push = (let s0 = stack_init (bin_codec 4096 2) two_cells; h = head_word s0;
      s1 = s0\<lparr>pcs := (pcs s0)(0 := Push_Store 4096 h 0)\<rparr>;
      s2 = s1\<lparr>pcs := (pcs s1)(1 := Push_Store 4100 h 0)\<rparr>
    in s2\<lparr>link_of := store_link 4100 (to_link (cell_adapter 4096) (unpack_ptr (bin_codec 4096 2) h)) (link_of s2),
          pcs := (pcs s2)(1 := Push_CAS 4100 h 0)\<rparr>)"

definition after_push :: stack_state where
  "after_push = mid_push\<lparr>head_word := push_desired (bin_codec 4096 2) 4100 (head_word mid_push),
      pcs := (pcs mid_push)(1 := Idle), changes := 1, holder := (holder mid_push)(4100 := None)\<rparr>"

lemma mid_push_reach: "bin_reach 4096 2 two_cells mid_push"
proof -
  let ?cd = "bin_codec 4096 2" and ?ad = "cell_adapter 4096" and ?cb = "bin_counter_bits 4096 2"
  let ?s0 = "stack_init ?cd two_cells" let ?h = "head_word ?s0"
  let ?s1 = "?s0\<lparr>pcs := (pcs ?s0)(0 := Push_Store 4096 ?h 0)\<rparr>"
  let ?s2 = "?s1\<lparr>pcs := (pcs ?s1)(1 := Push_Store 4100 ?h 0)\<rparr>"
  have r0: "stack_reach ?cd ?ad ?cb ?s0 ?s0" by (rule stack_reach.start)
  have "stack_step ?cd ?ad ?s0 Internal (?s0\<lparr>pcs := (pcs ?s0)(0 := Push_Store 4096 ?h (changes ?s0))\<rparr>)"
    by (rule stack_step.push_load) (simp_all add: stack_init_def two_cells_def)
  then have r1: "stack_reach ?cd ?ad ?cb ?s0 ?s1"
    using stack_reach.step [OF r0] by (simp add: stack_init_def no_wrap_def)
  have "stack_step ?cd ?ad ?s1 Internal (?s1\<lparr>pcs := (pcs ?s1)(1 := Push_Store 4100 (head_word ?s1) (changes ?s1))\<rparr>)"
    by (rule stack_step.push_load) (simp_all add: stack_init_def two_cells_def)
  then have r2: "stack_reach ?cd ?ad ?cb ?s0 ?s2"
    using stack_reach.step [OF r1] by (simp add: stack_init_def no_wrap_def)
  have "stack_step ?cd ?ad ?s2 Internal (?s2\<lparr>link_of := store_link 4100 (to_link ?ad (unpack_ptr ?cd ?h)) (link_of ?s2),
      pcs := (pcs ?s2)(1 := Push_CAS 4100 ?h 0)\<rparr>)"
    by (rule stack_step.push_store) simp
  from stack_reach.step [OF r2 this] show ?thesis
    unfolding bin_reach_def mid_push_def Let_def by (simp add: stack_init_def no_wrap_def)
qed

lemma mid_push_step:
  "stack_step (bin_codec 4096 2) (cell_adapter 4096) mid_push (Pushed 1 4100) after_push"
proof -
  have "stack_step (bin_codec 4096 2) (cell_adapter 4096) mid_push (Pushed 1 4100)
     (mid_push\<lparr>head_word := push_desired (bin_codec 4096 2) 4100 (head_word mid_push), pcs := (pcs mid_push)(1 := Idle),
        changes := changes mid_push + 1, holder := (holder mid_push)(4100 := None)\<rparr>)"
    by (rule stack_step.push_done [of _ _ _ _ 0]) (simp_all add: mid_push_def Let_def)
  moreover have "changes mid_push = 0" by (simp add: mid_push_def Let_def stack_init_def)
  ultimately show ?thesis by (simp add: after_push_def)
qed

lemma after_push_reach: "bin_reach 4096 2 two_cells after_push"
proof -
  have "1 < (2 :: nat) ^ bin_counter_bits 4096 2"
    using bin_width [of 4096 2] by (intro one_less_power) auto
  then have "no_wrap (bin_counter_bits 4096 2) after_push"
    by (auto simp: no_wrap_def after_push_def mid_push_def Let_def stack_init_def split: if_splits)
  then show ?thesis using mid_push_reach mid_push_step unfolding bin_reach_def
    by (auto intro: stack_reach.step)
qed

section \<open>Properties\<close>

text \<open>C5: Linearizability of the free bins.  In any interleaving of any number of contexts that
  push only blocks they hold, and as long as no head counter wraps while a context is stalled,
  every atomic step either leaves the abstract stack alone or is exactly one push, pop or steal
  of it: a pop returns the block on top, a steal the whole list, and no block is ever on the
  stack twice or lost.\<close>

theorem bins_linearizable:
  assumes "bin_reach c n who s" and "\<forall>m t. who m = Some t \<longrightarrow> link_node c n m \<and> m \<noteq> 0"
    and "stack_step (bin_codec c n) (cell_adapter c) s l s'"
  shows "\<exists>xs ys. stack_abs (bin_codec c n) (cell_adapter c) s xs \<and>
    stack_abs (bin_codec c n) (cell_adapter c) s' ys \<and> abs_effect l xs ys"
  using free_bins.stack_refines [of c n who s l s'] assms
  by (simp add: bin_reach_def bin_codec_def bin_counter_bits_def)

theorem bins_linearizable_witness:
  "\<exists>xs ys. stack_abs (bin_codec 4096 2) (cell_adapter 4096) mid_push xs \<and>
    stack_abs (bin_codec 4096 2) (cell_adapter 4096) after_push ys \<and> abs_effect (Pushed 1 4100) xs ys"
  by (rule bins_linearizable [OF mid_push_reach two_cells_ok mid_push_step])

text \<open>C22: Lock freedom of the free bins.  In a run that starts anywhere and in which no operation takes effect
  and no exchange fails spuriously, the contexts of a finite set make at most three steps each on average: however
  they are scheduled, and whichever of them are stalled, among any \<open>3 * card T + 1\<close> of their steps a push, a pop
  or a steal takes effect, or a pop finds the bin empty.\<close>

theorem bins_lock_free:
  assumes "idle_run (bin_codec c n) (cell_adapter c) T s k s'" and "finite T"
  shows "k \<le> 3 * card T"
  using assms by (rule idle_run_bound)

text \<open>Context 0 has been overtaken; it stores its link again and is then ready to exchange.\<close>

theorem bins_lock_free_witness:
  "\<exists>s. idle_run (bin_codec 4096 2) (cell_adapter 4096) {0} after_push 2 s \<and> (2 :: nat) \<le> 3 * card {0 :: nat}"
proof -
  let ?cd = "bin_codec 4096 2" and ?ad = "cell_adapter 4096"
  let ?h = "pack ?cd 0 0"
  have at: "pcs after_push 0 = Push_Store 4096 ?h 0"
    by (simp add: after_push_def mid_push_def Let_def stack_init_def)
  let ?s1 = "after_push\<lparr>link_of := store_link 4096 (to_link ?ad (unpack_ptr ?cd ?h)) (link_of after_push),
      pcs := (pcs after_push)(0 := Push_CAS 4096 ?h 0)\<rparr>"
  let ?s2 = "?s1\<lparr>pcs := (pcs ?s1)(0 := Push_Store 4096 (head_word ?s1) (changes ?s1))\<rparr>"
  have stale: "head_word after_push \<noteq> ?h"
    using two_cells_head two_cells_head1 by (auto simp: after_push_def push_desired_def dest!: arg_cong [of _ _ "unpack_ptr (bin_codec 4096 2)"])
  have "stack_step ?cd ?ad after_push Internal ?s1" using at by (rule stack_step.push_store)
  then have r1: "idle_run ?cd ?ad {0} after_push (Suc 0) ?s1" by (rule idle_run.step [OF idle_run.start]) simp
  have "stack_step ?cd ?ad ?s1 Internal ?s2" by (rule stack_step.push_retry) (use stale in simp_all)
  then have r2: "idle_run ?cd ?ad {0} after_push (Suc (Suc 0)) ?s2" by (rule idle_run.step [OF r1]) simp
  then show ?thesis using bins_lock_free [OF r2] by (auto simp: numeral_2_eq_2)
qed

end
