(* ===== verification/Single_Block.thy ===== *)
theory Single_Block
  imports Memory_Resource Statistics
begin

text \<open>
  \<^verbatim>\<open>pmr::single_block_resource\<close> (\<^verbatim>\<open>include/__memory_resource/single_block_resource.h\<close>): a resource
  that carves blocks off the front of one buffer and keeps freed blocks on sixteen lists by
  size class.

  The block headers live in the buffer; the model keeps them as a map from the address of a
  header to its fields, together with the list marker, which is a member of the resource object
  and has an address of its own.  An operation is one call that runs without interference, its
  compare-exchanges written with the comparison they make.
\<close>

section \<open>State\<close>

definition DEFAULT_ALIGNMENT :: nat where "DEFAULT_ALIGNMENT = 16"

definition aligned_size :: "nat \<Rightarrow> nat \<Rightarrow> nat" where
  "aligned_size unaligned al = (unaligned div al + (if unaligned mod al = 0 then 0 else 1)) * al"

text \<open>\<^verbatim>\<open>sizeof(block_header)\<close>: two pointers, two sizes and two flags, padded to 40 bytes.\<close>

definition BLOCK_HEADER_SIZE :: nat where "BLOCK_HEADER_SIZE = aligned_size 40 DEFAULT_ALIGNMENT"
definition NUM_DEALLOCATION_BINS :: nat where "NUM_DEALLOCATION_BINS = 16"

definition DEALLOCATION_BIN_SIZES :: "nat list" where
  "DEALLOCATION_BIN_SIZES = [1024, 2048, 4096, 8192, 16384, 32768, 65536, 2 * 65536, 3 * 65536, 4 * 65536,
     5 * 65536, 6 * 65536, 7 * 65536, 8 * 65536, 9 * 65536, 10 * 65536]"

lemma header_size [simp]: "BLOCK_HEADER_SIZE = 48"
  by (simp add: BLOCK_HEADER_SIZE_def aligned_size_def DEFAULT_ALIGNMENT_def)

record block_header =
  next_header :: addr
  next_deallocated :: addr
  actual_size :: nat
  requested_size :: nat
  in_use :: bool
  on_free_list :: bool

record single_block =
  block_start :: addr
  block_size :: nat
  end_of_block :: addr
  marker :: addr
  next_empty_block :: addr
  head :: addr
  deallocated_head_bins :: "addr list"
  headers :: "addr \<Rightarrow> block_header"
  statistics :: statistics
  cmp_exchange_retries :: nat

definition align_pointer :: "addr \<Rightarrow> nat \<Rightarrow> addr" where
  "align_pointer p al = (let md = p mod al in if md = 0 then p else sub64 (add64 p al) md)"

definition end_of_list_marker :: block_header where
  "end_of_list_marker = \<lparr>next_header = 0, next_deallocated = 0, actual_size = 0, requested_size = 0,
     in_use = True, on_free_list = False\<rparr>"

text \<open>
  The constructor; \<open>m\<close> is the address of the marker inside the resource object and \<open>mem\<close> what the
  buffer held before.
\<close>

definition single_block_resource :: "addr \<Rightarrow> (addr \<Rightarrow> block_header) \<Rightarrow> addr \<Rightarrow> nat \<Rightarrow> single_block" where
  "single_block_resource m mem blk sz =
     \<lparr>block_start = blk, block_size = sz, end_of_block = add64 blk sz, marker = m,
      next_empty_block = align_pointer blk DEFAULT_ALIGNMENT, head = m,
      deallocated_head_bins = replicate NUM_DEALLOCATION_BINS m,
      headers = mem(m := end_of_list_marker), statistics = memory_resource_statistics,
      cmp_exchange_retries = 0\<rparr>"

record allocation_info =
  is_valid :: bool
  info_in_use :: bool
  info_size :: nat
  info_alignment :: nat

text \<open>The walk over all blocks; \<open>None\<close> would be a walk that never ends.\<close>

partial_function (option) find_header :: "single_block \<Rightarrow> addr \<Rightarrow> addr \<Rightarrow> allocation_info option" where
  "find_header s target current =
     (if next_header (headers s current) \<noteq> 0
      then if current = target
        then Some \<lparr>is_valid = True, info_in_use = in_use (headers s current),
                   info_size = requested_size (headers s current), info_alignment = 16\<rparr>
        else find_header s target (next_header (headers s current))
      else Some \<lparr>is_valid = False, info_in_use = False, info_size = 0, info_alignment = 0\<rparr>)"

declare find_header.simps [code]

definition get_allocation_info :: "single_block \<Rightarrow> addr \<Rightarrow> allocation_info option" where
  "get_allocation_info s allocation = find_header s (sub64 allocation BLOCK_HEADER_SIZE) (head s)"

section \<open>Operations\<close>

definition deallocation_bin :: "nat \<Rightarrow> nat" where
  "deallocation_bin bytes =
     (case find (\<lambda>i. add64 bytes BLOCK_HEADER_SIZE \<le> DEALLOCATION_BIN_SIZES ! i) [0..<NUM_DEALLOCATION_BINS] of
        Some i \<Rightarrow> i | None \<Rightarrow> NUM_DEALLOCATION_BINS - 1)"

definition update_header :: "addr \<Rightarrow> (block_header \<Rightarrow> block_header) \<Rightarrow> single_block \<Rightarrow> single_block" where
  "update_header h f s = s\<lparr>headers := (headers s)(h := f (headers s h))\<rparr>"

definition sb_push_free :: "addr \<Rightarrow> nat \<Rightarrow> single_block \<Rightarrow> single_block" where
  "sb_push_free header bin s =
     (if on_free_list (headers s header) then s
      else let s = update_header header (on_free_list_update (\<lambda>_. True)) s;
               s = update_header header (next_deallocated_update (\<lambda>_. deallocated_head_bins s ! bin)) s
           in s\<lparr>deallocated_head_bins := (deallocated_head_bins s)[bin := header]\<rparr>)"

text \<open>
  The search of one deallocation list.  A block found is taken; a block still linked although in
  use is unlinked, and pushed again if it was freed meanwhile.
\<close>

partial_function (option) search_bin ::
    "nat \<Rightarrow> nat \<Rightarrow> nat \<Rightarrow> nat \<Rightarrow> addr \<Rightarrow> addr \<Rightarrow> single_block \<Rightarrow> (addr option \<times> single_block) option" where
  "search_bin cpu bin bytes eff current previous s =
     (let hdr = headers s current; nxt = next_deallocated hdr; return_value = add64 current BLOCK_HEADER_SIZE
      in if nxt = 0 then Some (None, s)
         else if \<not> in_use hdr \<and> actual_size hdr \<ge> add64 bytes BLOCK_HEADER_SIZE \<and> return_value mod eff = 0
         then (let s = update_header current (in_use_update (\<lambda>_. True)) s;
                   s = update_header current (requested_size_update (\<lambda>_. bytes)) s
               in Some (Some return_value, s\<lparr>statistics := allocation_made cpu bytes (statistics s)\<rparr>))
         else if in_use hdr
         then if (if previous = 0 then deallocated_head_bins s ! bin = current
                  else next_deallocated (headers s previous) = current)
              then (let s = (if previous = 0
                             then s\<lparr>deallocated_head_bins := (deallocated_head_bins s)[bin := nxt]\<rparr>
                             else update_header previous (next_deallocated_update (\<lambda>_. nxt)) s);
                        s = update_header current (on_free_list_update (\<lambda>_. False)) s;
                        s = (if \<not> in_use (headers s current) then sb_push_free current bin s else s)
                    in search_bin cpu bin bytes eff nxt previous s)
              else search_bin cpu bin bytes eff nxt current s
         else search_bin cpu bin bytes eff nxt current s)"

declare search_bin.simps [code]

text \<open>
  Carving a new block off the unused tail.  A null pointer that the address arithmetic produces
  is a null pointer to the caller.
\<close>

definition carve :: "nat \<Rightarrow> nat \<Rightarrow> nat \<Rightarrow> single_block \<Rightarrow> addr option \<times> single_block" where
  "carve cpu bytes eff s =
     (let next_block = next_empty_block s;
          returned = align_pointer (add64 next_block BLOCK_HEADER_SIZE) eff;
          header = sub64 returned BLOCK_HEADER_SIZE
      in if returned \<ge> end_of_block s \<or> sub64 (end_of_block s) returned < DEFAULT_ALIGNMENT
            \<or> bytes > sub64 (sub64 (end_of_block s) returned) DEFAULT_ALIGNMENT
         then (None, s)
         else let following = align_pointer (add64 returned bytes) DEFAULT_ALIGNMENT
              in if following \<ge> end_of_block s then (None, s)
                 else let s = s\<lparr>next_empty_block := following\<rparr>;
                          s = update_header header (\<lambda>h. h\<lparr>in_use := True, on_free_list := False,
                                requested_size := bytes, actual_size := sub64 following header,
                                next_deallocated := 0\<rparr>) s;
                          s = (update_header header (next_header_update (\<lambda>_. head s)) s)\<lparr>head := header\<rparr>
                      in (if returned = 0 then None else Some returned,
                          s\<lparr>statistics := allocation_made cpu bytes (statistics s)\<rparr>))"

definition sb_do_allocate :: "nat \<Rightarrow> single_block \<Rightarrow> nat \<Rightarrow> nat \<Rightarrow> (addr option \<times> single_block) option" where
  "sb_do_allocate cpu s bytes alignment =
     (let eff = (if alignment > DEFAULT_ALIGNMENT then alignment else DEFAULT_ALIGNMENT)
      in if bytes > sub64 (sub64 SIZE_MAX BLOCK_HEADER_SIZE) eff then Some (None, s)
         else if total_deallocations (statistics s) > total_allocations (statistics s) div 10
         then (let bin = deallocation_bin bytes
               in case search_bin cpu bin bytes eff (deallocated_head_bins s ! bin) 0 s of
                    None \<Rightarrow> None
                  | Some (Some p, s') \<Rightarrow> Some (Some p, s')
                  | Some (None, s') \<Rightarrow> Some (carve cpu bytes eff s'))
         else Some (carve cpu bytes eff s))"

definition sb_do_deallocate :: "nat \<Rightarrow> single_block \<Rightarrow> addr \<Rightarrow> nat \<Rightarrow> nat \<Rightarrow> single_block" where
  "sb_do_deallocate cpu s blk bytes alignment =
     (let bin = deallocation_bin bytes; header = sub64 blk BLOCK_HEADER_SIZE
      in if header \<ge> next_empty_block s \<or> \<not> in_use (headers s header) \<or> requested_size (headers s header) \<noteq> bytes
         then s
         else let s = update_header header (in_use_update (\<lambda>_. False)) s;
                  s = sb_push_free header bin s
              in s\<lparr>statistics := deallocation_made cpu bytes (statistics s)\<rparr>)"

section \<open>The invariant\<close>

text \<open>
  \<open>B\<close> are the addresses of the headers of all blocks carved so far, \<open>X k\<close> the blocks linked on
  list \<open>k\<close>, and \<open>L\<close> the blocks the clients hold.
\<close>

lemma update_header_simps [simp]:
  "headers (update_header h f s) x = (if x = h then f (headers s h) else headers s x)"
  "block_start (update_header h f s) = block_start s" "end_of_block (update_header h f s) = end_of_block s"
  "marker (update_header h f s) = marker s" "next_empty_block (update_header h f s) = next_empty_block s"
  "head (update_header h f s) = head s" "deallocated_head_bins (update_header h f s) = deallocated_head_bins s"
  "statistics (update_header h f s) = statistics s"
  by (simp_all add: update_header_def)

definition sb_geom :: "single_block \<Rightarrow> bool" where
  "sb_geom s \<longleftrightarrow> 0 < block_start s \<and> end_of_block s \<le> 9223372036854775680 \<and>
     length (deallocated_head_bins s) = 16 \<and> stats_ok (statistics s) \<and> 0 < marker s \<and>
     (marker s < block_start s \<or> end_of_block s \<le> marker s) \<and>
     16 dvd next_empty_block s \<and> block_start s \<le> next_empty_block s \<and> next_empty_block s \<le> end_of_block s + 16 \<and>
     next_deallocated (headers s (marker s)) = 0"

definition sb_blocks :: "single_block \<Rightarrow> addr set \<Rightarrow> bool" where
  "sb_blocks s B \<longleftrightarrow> (\<forall>h\<in>B. block_start s \<le> h \<and> requested_size (headers s h) + 48 \<le> actual_size (headers s h) \<and>
       h + actual_size (headers s h) \<le> next_empty_block s \<and> h + actual_size (headers s h) \<le> end_of_block s) \<and>
     (\<forall>g\<in>B. \<forall>h\<in>B. g \<noteq> h \<longrightarrow> apart g (actual_size (headers s g)) h (actual_size (headers s h)))"

definition sb_list :: "single_block \<Rightarrow> addr set \<Rightarrow> nat \<Rightarrow> addr list \<Rightarrow> bool" where
  "sb_list s B k xs \<longleftrightarrow> path (\<lambda>h. next_deallocated (headers s h)) (deallocated_head_bins s ! k) xs (marker s) \<and>
     distinct xs \<and> set xs \<subseteq> B \<and> (\<forall>h\<in>set xs. deallocation_bin (requested_size (headers s h)) = k)"

definition sb_lists :: "single_block \<Rightarrow> addr set \<Rightarrow> (nat \<Rightarrow> addr list) \<Rightarrow> bool" where
  "sb_lists s B X \<longleftrightarrow> (\<forall>k<16. sb_list s B k (X k)) \<and>
     (\<forall>h\<in>B. on_free_list (headers s h) \<longleftrightarrow> (\<exists>k<16. h \<in> set (X k)))"

definition sb_live :: "single_block \<Rightarrow> ledger \<Rightarrow> addr set \<Rightarrow> bool" where
  "sb_live s L B \<longleftrightarrow> inj_on fst L \<and> (\<forall>(p, b, a)\<in>L. 48 \<le> p \<and> p - 48 \<in> B \<and>
       requested_size (headers s (p - 48)) = b \<and> (pow2 a \<longrightarrow> a dvd p)) \<and>
     (\<forall>h\<in>B. in_use (headers s h) \<longleftrightarrow> h + 48 \<in> fst ` L) \<and>
     (\<forall>h\<in>B. \<not> in_use (headers s h) \<longrightarrow> on_free_list (headers s h))"

definition sb_inv :: "single_block \<Rightarrow> ledger \<Rightarrow> addr set \<Rightarrow> (nat \<Rightarrow> addr list) \<Rightarrow> bool" where
  "sb_inv s L B X \<longleftrightarrow> sb_geom s \<and> sb_blocks s B \<and> sb_lists s B X \<and> sb_live s L B"

lemma sb_invD:
  assumes "sb_inv s L B X"
  shows "sb_geom s" "sb_blocks s B" "sb_lists s B X" "sb_live s L B"
  using assms by (simp_all add: sb_inv_def)

lemma deallocation_bin_bound: "deallocation_bin b < 16"
  by (auto simp: deallocation_bin_def NUM_DEALLOCATION_BINS_def find_Some_iff split: option.splits)

lemma sb_block_range:
  assumes "sb_inv s L B X" and "h \<in> B"
  shows "block_start s \<le> h" "0 < h" "h + 48 + requested_size (headers s h) \<le> end_of_block s"
    "requested_size (headers s h) + 48 \<le> actual_size (headers s h)"
    "h + actual_size (headers s h) \<le> next_empty_block s" "h \<noteq> marker s" "h + 48 < 18446744073709551616"
proof -
  have g: "sb_geom s" and b: "sb_blocks s B" using sb_invD [OF assms(1)] by simp_all
  have r: "block_start s \<le> h" "requested_size (headers s h) + 48 \<le> actual_size (headers s h)"
    "h + actual_size (headers s h) \<le> next_empty_block s" "h + actual_size (headers s h) \<le> end_of_block s"
    using b assms(2) by (simp_all add: sb_blocks_def)
  show "block_start s \<le> h" "requested_size (headers s h) + 48 \<le> actual_size (headers s h)"
    "h + actual_size (headers s h) \<le> next_empty_block s" by (rule r)+
  show "0 < h" "h + 48 + requested_size (headers s h) \<le> end_of_block s" "h \<noteq> marker s"
    "h + 48 < 18446744073709551616" using r g by (auto simp: sb_geom_def)
qed

text \<open>Blocks on a list: linked to a node or to the marker, never to null.\<close>

lemma sb_list_next:
  assumes inv: "sb_inv s L B X" and k: "k < 16" and x: "X k = pre @ h # post"
  shows "next_deallocated (headers s h) = (case post of [] \<Rightarrow> marker s | q # _ \<Rightarrow> q)"
    and "next_deallocated (headers s h) \<noteq> 0"
    and "path (\<lambda>h. next_deallocated (headers s h)) (next_deallocated (headers s h)) post (marker s)"
proof -
  have "sb_list s B k (X k)" using sb_invD(3) [OF inv] k by (simp add: sb_lists_def)
  then have l: "sb_list s B k (pre @ h # post)" unfolding x .
  then have p: "path (\<lambda>h. next_deallocated (headers s h)) (next_deallocated (headers s h)) post (marker s)"
  proof -
    have "path (\<lambda>h. next_deallocated (headers s h)) (deallocated_head_bins s ! k) (pre @ h # post) (marker s)"
      using l by (simp only: sb_list_def)
    from path_append [OF this] show ?thesis by fastforce
  qed
  then show "path (\<lambda>h. next_deallocated (headers s h)) (next_deallocated (headers s h)) post (marker s)" .
  show e: "next_deallocated (headers s h) = (case post of [] \<Rightarrow> marker s | q # _ \<Rightarrow> q)"
    using p by (cases post) auto
  have "q \<noteq> 0" if "q \<in> set post" for q
    using l that sb_block_range(2) [OF inv, of q] by (auto simp: sb_list_def)
  then show "next_deallocated (headers s h) \<noteq> 0"
    using e sb_invD(1) [OF inv] by (auto simp: sb_geom_def split: list.splits)
qed

lemma sb_lists_disjoint:
  assumes "sb_inv s L B X" and "j < 16" and "k < 16" and "h \<in> set (X j)" and "h \<in> set (X k)"
  shows "j = k"
proof -
  have "sb_list s B j (X j)" "sb_list s B k (X k)"
    using sb_invD(3) [OF assms(1)] assms(2,3) by (simp_all add: sb_lists_def)
  then show ?thesis using assms(4,5) by (auto simp: sb_list_def)
qed

text \<open>A list is the same when its links and its blocks' request sizes are.\<close>

lemma sb_list_cong:
  assumes "sb_list s B k xs" and "marker t = marker s" and "deallocated_head_bins t ! k = deallocated_head_bins s ! k"
    and "\<And>h. h \<in> set xs \<Longrightarrow> next_deallocated (headers t h) = next_deallocated (headers s h) \<and>
      deallocation_bin (requested_size (headers t h)) = deallocation_bin (requested_size (headers s h))"
  shows "sb_list t B k xs"
  using assms path_cong [of "\<lambda>h. next_deallocated (headers s h)" _ xs "marker s" "\<lambda>h. next_deallocated (headers t h)"]
  by (simp add: sb_list_def)

lemma sb_blocks_cong:
  assumes "sb_blocks s B" and "block_start t = block_start s" "next_empty_block t = next_empty_block s"
    "end_of_block t = end_of_block s"
    and "\<And>h. h \<in> B \<Longrightarrow> actual_size (headers t h) = actual_size (headers s h) \<and>
      requested_size (headers t h) + 48 \<le> actual_size (headers s h)"
  shows "sb_blocks t B"
  using assms by (simp add: sb_blocks_def)

section \<open>Releasing\<close>

lemma sb_push_free_inv:
  assumes inv: "sb_inv s L B X" and h: "h \<in> B" and off: "\<not> on_free_list (headers s h)"
    and k: "deallocation_bin (requested_size (headers s h)) = k"
  shows "sb_inv (sb_push_free h k s) L B (X(k := h # X k))"
proof -
  have k16: "k < 16" using k deallocation_bin_bound by blast
  have len: "length (deallocated_head_bins s) = 16" using sb_invD(1) [OF inv] by (simp add: sb_geom_def)
  let ?t = "sb_push_free h k s"
  have t: "headers ?t = (headers s)(h := (headers s h)\<lparr>on_free_list := True,
      next_deallocated := deallocated_head_bins s ! k\<rparr>)"
    "deallocated_head_bins ?t = (deallocated_head_bins s)[k := h]"
    "block_start ?t = block_start s" "end_of_block ?t = end_of_block s" "marker ?t = marker s"
    "next_empty_block ?t = next_empty_block s" "statistics ?t = statistics s"
    using off by (auto simp: sb_push_free_def Let_def update_header_def)
  have hm: "h \<noteq> marker s" using sb_block_range(6) [OF inv h] .
  have nin: "h \<notin> set (X j)" if "j < 16" for j
    using sb_invD(3) [OF inv] h off that by (auto simp: sb_lists_def)
  have g: "sb_geom ?t" using sb_invD(1) [OF inv] hm by (simp add: sb_geom_def t)
  have b: "sb_blocks ?t B" using sb_invD(2) [OF inv] by (simp add: sb_blocks_def t)
  have lists: "sb_list ?t B j ((X(k := h # X k)) j)" if j: "j < 16" for j
  proof -
    have l: "sb_list s B j (X j)" using sb_invD(3) [OF inv] j by (simp add: sb_lists_def)
    show ?thesis
    proof (cases "j = k")
      case False
      then have "sb_list ?t B j (X j)" using nin [OF j] by (intro sb_list_cong [OF l]) (auto simp: t)
      then show ?thesis using False by simp
    next
      case True
      have "path (\<lambda>x. next_deallocated (headers ?t x)) (deallocated_head_bins s ! k) (X k) (marker s)"
        by (rule path_cong [of "\<lambda>h. next_deallocated (headers s h)"])
          (use l True nin [OF k16] in \<open>auto simp: sb_list_def t\<close>)
      then show ?thesis using True l h hm k nin [OF k16] len k16 by (simp add: sb_list_def t)
    qed
  qed
  have on: "on_free_list (headers ?t x) \<longleftrightarrow> (\<exists>j<16. x \<in> set ((X(k := h # X k)) j))" if x: "x \<in> B" for x
  proof (cases "x = h")
    case True
    then show ?thesis using k16 by (auto simp: t intro!: exI [of _ k])
  next
    case False
    then have "(\<exists>j<16. x \<in> set ((X(k := h # X k)) j)) \<longleftrightarrow> (\<exists>j<16. x \<in> set (X j))" by auto
    then show ?thesis using False sb_invD(3) [OF inv] x by (simp add: sb_lists_def t)
  qed
  have "sb_live ?t L B" using sb_invD(4) [OF inv] by (auto simp: sb_live_def t)
  then show ?thesis using g b lists on by (simp add: sb_inv_def sb_lists_def)
qed

lemma sb_invI:
  "sb_geom s \<Longrightarrow> sb_blocks s B \<Longrightarrow> sb_lists s B X \<Longrightarrow> sb_live s L B \<Longrightarrow> sb_inv s L B X"
  by (simp add: sb_inv_def)

lemma sb_lists_cong:
  assumes "sb_lists s B X" and "marker t = marker s" and "deallocated_head_bins t = deallocated_head_bins s"
    and "\<And>h. h \<in> B \<Longrightarrow> next_deallocated (headers t h) = next_deallocated (headers s h) \<and>
      on_free_list (headers t h) = on_free_list (headers s h)"
    and "\<And>k h. k < 16 \<Longrightarrow> h \<in> set (X k) \<Longrightarrow> h \<in> B \<Longrightarrow> deallocation_bin (requested_size (headers t h)) = k"
  shows "sb_lists t B X"
  unfolding sb_lists_def
proof (intro conjI allI impI ballI)
  fix k :: nat assume k: "k < 16"
  have l: "sb_list s B k (X k)" using assms(1) k by (simp add: sb_lists_def)
  then have X: "\<And>h. h \<in> set (X k) \<Longrightarrow> h \<in> B \<and> deallocation_bin (requested_size (headers s h)) = k"
    by (auto simp: sb_list_def)
  show "sb_list t B k (X k)"
    by (rule sb_list_cong [OF l]) (use X assms(2-5) k in auto)
next
  fix h assume "h \<in> B"
  then show "on_free_list (headers t h) = (\<exists>k<16. h \<in> set (X k))"
    using assms(1,4) by (simp add: sb_lists_def)
qed

definition eff_align :: "nat \<Rightarrow> nat" where
  "eff_align a = (if a > DEFAULT_ALIGNMENT then a else DEFAULT_ALIGNMENT)"

lemma eff_align_pow2: "pow2 a \<Longrightarrow> p mod eff_align a = 0 \<Longrightarrow> a dvd p"
  using pow2_dvd_le [of a 4] dvd_trans [of a 16 p]
  by (auto simp: eff_align_def DEFAULT_ALIGNMENT_def split: if_splits)

lemma not_live_fresh:
  assumes "sb_inv s L B X" and "h \<in> B" and "\<not> in_use (headers s h)"
  shows "h + 48 \<notin> fst ` L"
  using sb_invD(4) [OF assms(1)] assms(2,3) by (auto simp: sb_live_def)

text \<open>Reusing a listed block.\<close>

lemma sb_take_inv:
  assumes inv: "sb_inv s L B X" and h: "h \<in> set (X k)" "k < 16" and free: "\<not> in_use (headers s h)"
    and size: "bytes + 48 \<le> actual_size (headers s h)" and bin: "deallocation_bin bytes = k"
    and al: "pow2 a \<longrightarrow> a dvd h + 48"
    and t: "block_start t = block_start s" "end_of_block t = end_of_block s" "marker t = marker s"
      "next_empty_block t = next_empty_block s" "deallocated_head_bins t = deallocated_head_bins s"
      "headers t = (headers s)(h := (headers s h)\<lparr>in_use := True, requested_size := bytes\<rparr>)"
      "stats_ok (statistics t)"
  shows "sb_inv t (insert (h + 48, bytes, a) L) B X"
proof -
  have hB: "h \<in> B" using sb_invD(3) [OF inv] h by (auto simp: sb_lists_def sb_list_def)
  have hm: "h \<noteq> marker s" using sb_block_range(6) [OF inv hB] .
  have new: "h + 48 \<notin> fst ` L" using not_live_fresh [OF inv hB free] .
  have uniq: "h \<in> set (X j) \<Longrightarrow> j < 16 \<Longrightarrow> j = k" for j
    using sb_lists_disjoint [OF inv _ h(2) _ h(1)] by blast
  have live: "sb_live s L B" using sb_invD(4) [OF inv] .
  show ?thesis
  proof (rule sb_invI)
    show "sb_geom t" using sb_invD(1) [OF inv] hm t by (simp add: sb_geom_def)
    show "sb_blocks t B"
      by (rule sb_blocks_cong [OF sb_invD(2) [OF inv]]) (use t size sb_invD(2) [OF inv] in \<open>auto simp: sb_blocks_def\<close>)
    show "sb_lists t B X"
      by (rule sb_lists_cong [OF sb_invD(3) [OF inv]])
        (use t bin uniq sb_invD(3) [OF inv] in \<open>auto simp: sb_lists_def sb_list_def\<close>)
    show "sb_live t (insert (h + 48, bytes, a) L) B" unfolding sb_live_def
    proof (intro conjI)
      show "inj_on fst (insert (h + 48, bytes, a) L)" using live new by (auto simp: sb_live_def)
      have "q \<noteq> h + 48" if "(q, c, d) \<in> L" for q c d using that new by force
      then show "\<forall>(p, b, a)\<in>insert (h + 48, bytes, a) L. 48 \<le> p \<and> p - 48 \<in> B \<and>
          requested_size (headers t (p - 48)) = b \<and> (pow2 a \<longrightarrow> a dvd p)"
        using live hB al t(6) by (fastforce simp: sb_live_def)
      show "\<forall>x\<in>B. in_use (headers t x) \<longleftrightarrow> x + 48 \<in> fst ` insert (h + 48, bytes, a) L"
        using live t(6) by (auto simp: sb_live_def)
      show "\<forall>x\<in>B. \<not> in_use (headers t x) \<longrightarrow> on_free_list (headers t x)"
        using live t(6) by (auto simp: sb_live_def)
    qed
  qed
qed

text \<open>Unlinking a listed block that is in use.\<close>

lemma sb_unlink_inv:
  assumes inv: "sb_inv s L B X" and k: "k < 16" and x: "X k = pre @ h # post" and used: "in_use (headers s h)"
    and t: "t = update_header h (on_free_list_update (\<lambda>_. False))
       (if pre = [] then s\<lparr>deallocated_head_bins := (deallocated_head_bins s)[k := next_deallocated (headers s h)]\<rparr>
        else update_header (last pre) (next_deallocated_update (\<lambda>_. next_deallocated (headers s h))) s)"
  shows "sb_inv t L B (X(k := pre @ post))"
    and "if pre = [] then deallocated_head_bins s ! k = h else next_deallocated (headers s (last pre)) = h"
    and "pre \<noteq> [] \<Longrightarrow> last pre \<noteq> 0"
proof -
  have "sb_list s B k (X k)" using sb_invD(3) [OF inv] k by (simp add: sb_lists_def)
  then have l: "sb_list s B k (pre @ h # post)" unfolding x .
  then have p: "path (\<lambda>h. next_deallocated (headers s h)) (deallocated_head_bins s ! k) (pre @ h # post) (marker s)"
    and d: "distinct (pre @ h # post)" and sub: "set (pre @ h # post) \<subseteq> B" by (simp_all add: sb_list_def)
  have len: "length (deallocated_head_bins s) = 16" using sb_invD(1) [OF inv] by (simp add: sb_geom_def)
  show "if pre = [] then deallocated_head_bins s ! k = h else next_deallocated (headers s (last pre)) = h"
    using path_append [OF p] by auto
  have "pre \<noteq> [] \<Longrightarrow> last pre \<in> B" using sub by (auto dest: last_in_set)
  then show "pre \<noteq> [] \<Longrightarrow> last pre \<noteq> 0" using sb_block_range(2) [OF inv, of "last pre"] by auto
  have same: "block_start t = block_start s" "end_of_block t = end_of_block s" "marker t = marker s"
    "next_empty_block t = next_empty_block s" "statistics t = statistics s"
    "\<And>y. in_use (headers t y) = in_use (headers s y)" "\<And>y. requested_size (headers t y) = requested_size (headers s y)"
    "\<And>y. actual_size (headers t y) = actual_size (headers s y)"
    "\<And>y. on_free_list (headers t y) = (if y = h then False else on_free_list (headers s y))"
    "length (deallocated_head_bins t) = 16"
    using len by (auto simp: t)
  have nd: "(\<lambda>y. next_deallocated (headers t y)) = (if pre = [] then (\<lambda>y. next_deallocated (headers s y))
      else (\<lambda>y. next_deallocated (headers s y))(last pre := next_deallocated (headers s h)))"
    by (rule ext) (auto simp: t)
  have bins: "deallocated_head_bins t ! j = (if pre = [] \<and> j = k then next_deallocated (headers s h)
      else deallocated_head_bins s ! j)" for j
    using len k by (simp add: t)
  have mB: "marker s \<notin> B" using sb_block_range(6) [OF inv] by blast
  have other: "y \<notin> set (X j)" if "j < 16" "j \<noteq> k" "y \<in> set (pre @ h # post)" for y j
    using sb_lists_disjoint [OF inv that(1) k, of y] that x by auto
  have lists: "sb_list t B j ((X(k := pre @ post)) j)" if j: "j < 16" for j
  proof (cases "j = k")
    case True
    have "path (\<lambda>y. next_deallocated (headers t y)) (deallocated_head_bins t ! k) (pre @ post) (marker s)"
    proof (cases "pre = []")
      case True
      then show ?thesis using p nd bins by auto
    next
      case False
      then show ?thesis using path_unlink [OF p d False] nd bins by simp
    qed
    then show ?thesis using True l same by (simp add: sb_list_def)
  next
    case False
    have l: "sb_list s B j (X j)" using sb_invD(3) [OF inv] j by (simp add: sb_lists_def)
    have "sb_list t B j (X j)"
    proof (rule sb_list_cong [OF l same(3)])
      show "deallocated_head_bins t ! j = deallocated_head_bins s ! j" using bins False by simp
      fix y assume y: "y \<in> set (X j)"
      have "pre \<noteq> [] \<Longrightarrow> y \<noteq> last pre" using other [OF j False, of "last pre"] y by auto
      then show "next_deallocated (headers t y) = next_deallocated (headers s y) \<and>
          deallocation_bin (requested_size (headers t y)) = deallocation_bin (requested_size (headers s y))"
        using fun_cong [OF nd, of y] same by auto
    qed
    then show ?thesis using False by simp
  qed
  have on: "on_free_list (headers t y) \<longleftrightarrow> (\<exists>j<16. y \<in> set ((X(k := pre @ post)) j))" if y: "y \<in> B" for y
  proof (cases "y = h")
    case True
    have "\<not> (\<exists>j<16. h \<in> set ((X(k := pre @ post)) j))" using other [of _ h] d by auto
    then show ?thesis using True same by simp
  next
    case False
    then have "y \<in> set ((X(k := pre @ post)) j) \<longleftrightarrow> y \<in> set (X j)" for j using x by auto
    then show ?thesis using False same sb_invD(3) [OF inv] y by (simp add: sb_lists_def)
  qed
  have "next_deallocated (headers t (marker s)) = 0"
  proof -
    have "pre \<noteq> [] \<Longrightarrow> marker s \<noteq> last pre" using mB sub by (auto dest: last_in_set)
    then show ?thesis using fun_cong [OF nd, of "marker s"] sb_invD(1) [OF inv] by (auto simp: sb_geom_def)
  qed
  then have g: "sb_geom t" using sb_invD(1) [OF inv] same by (simp add: sb_geom_def)
  have b: "sb_blocks t B"
    by (rule sb_blocks_cong [OF sb_invD(2) [OF inv]]) (use same sb_invD(2) [OF inv] in \<open>auto simp: sb_blocks_def\<close>)
  have "sb_live t L B" using sb_invD(4) [OF inv] used by (auto simp: sb_live_def same split: prod.splits)
  then show "sb_inv t L B (X(k := pre @ post))" using g b lists on by (simp add: sb_inv_def sb_lists_def)
qed

section \<open>The search of a list\<close>

definition sb_result :: "single_block \<Rightarrow> ledger \<Rightarrow> addr set \<Rightarrow> nat \<Rightarrow> nat \<Rightarrow> addr option \<Rightarrow> bool" where
  "sb_result t L B bytes a r \<longleftrightarrow> (case r of
     None \<Rightarrow> (\<exists>X. sb_inv t L B X)
   | Some p \<Rightarrow> p \<notin> fst ` L \<and> (\<exists>X. sb_inv t (insert (p, bytes, a) L) B X))"

lemma search_bin_inv:
  assumes "sb_inv s L B X" and "k < 16" and "X k = pre @ rest"
    and "current = (case rest of [] \<Rightarrow> marker s | h # _ \<Rightarrow> h)" and "previous = (if pre = [] then 0 else last pre)"
    and "bin = k" and "add64 bytes 48 = bytes + 48 \<and> deallocation_bin bytes = k \<or> (\<forall>h\<in>B. (h + 48) mod eff_align a \<noteq> 0)"
    and "cpu < 4294967296"
  shows "\<exists>r t. search_bin cpu bin bytes (eff_align a) current previous s = Some (r, t) \<and>
    sb_result t L B bytes a r \<and> next_empty_block t = next_empty_block s \<and>
    (r = None \<longrightarrow> (\<forall>h\<in>set rest. in_use (headers s h) \<or> actual_size (headers s h) < add64 bytes 48 \<or>
       (h + 48) mod eff_align a \<noteq> 0))"
  using assms
proof (induction rest arbitrary: s X pre current previous)
  case Nil
  then have "next_deallocated (headers s current) = 0" using sb_invD(1) [OF Nil(1)] by (simp add: sb_geom_def)
  then show ?case using Nil(1) by (subst search_bin.simps) (auto simp: sb_result_def Let_def)
next
  case (Cons h rest)
  have cur: "current = h" using Cons.prems by simp
  note x = Cons.prems(3)
  have hk: "h \<in> set (X k)" using x by simp
  have hB: "h \<in> B" using sb_invD(3) [OF Cons.prems(1)] hk Cons.prems(2) by (auto simp: sb_lists_def sb_list_def)
  note nxt = sb_list_next [OF Cons.prems(1,2) x]
  have rv: "add64 h 48 = h + 48" using sb_block_range(7) [OF Cons.prems(1) hB] by (simp add: add64_exact)
  let ?n = "next_deallocated (headers s h)"
  have skip: ?case if "search_bin cpu bin bytes (eff_align a) current previous s =
      search_bin cpu bin bytes (eff_align a) ?n current s"
    and no: "actual_size (headers s h) < add64 bytes 48 \<or> (h + 48) mod eff_align a \<noteq> 0"
  proof -
    have "\<exists>r t. search_bin cpu bin bytes (eff_align a) ?n current s = Some (r, t) \<and>
        sb_result t L B bytes a r \<and> next_empty_block t = next_empty_block s \<and>
        (r = None \<longrightarrow> (\<forall>h\<in>set rest. in_use (headers s h) \<or> actual_size (headers s h) < add64 bytes 48 \<or>
           (h + 48) mod eff_align a \<noteq> 0))"
      by (rule Cons.IH [OF Cons.prems(1,2), of "pre @ [h]"]) (use x cur nxt(1) Cons.prems in auto)
    then show ?thesis using that by auto
  qed
  show ?case
  proof (cases "in_use (headers s h)")
    case False
    show ?thesis
    proof (cases "actual_size (headers s h) \<ge> add64 bytes 48 \<and> (h + 48) mod eff_align a = 0")
      case False
      then have "search_bin cpu bin bytes (eff_align a) current previous s =
          search_bin cpu bin bytes (eff_align a) ?n current s"
        using \<open>\<not> in_use (headers s h)\<close> cur rv nxt(2) by (subst search_bin.simps) (auto simp: Let_def)
      then show ?thesis by (rule skip) (use False in auto)
    next
      case True
      then have bk: "add64 bytes 48 = bytes + 48" "deallocation_bin bytes = k"
        using Cons.prems(7) hB by auto
      let ?t = "(update_header h (requested_size_update (\<lambda>_. bytes)) (update_header h (in_use_update (\<lambda>_. True)) s))
          \<lparr>statistics := allocation_made cpu bytes (statistics s)\<rparr>"
      have st: "stats_ok (statistics s)" using sb_invD(1) [OF Cons.prems(1)] by (simp add: sb_geom_def)
      have "sb_inv ?t (insert (h + 48, bytes, a) L) B X"
        by (rule sb_take_inv [OF Cons.prems(1) hk Cons.prems(2) \<open>\<not> in_use (headers s h)\<close> _ bk(2)])
          (use True bk(1) eff_align_pow2 st in \<open>auto simp: update_header_def\<close>)
      then have "sb_result ?t L B bytes a (Some (h + 48))"
        using not_live_fresh [OF Cons.prems(1) hB \<open>\<not> in_use (headers s h)\<close>] by (auto simp: sb_result_def)
      moreover have "search_bin cpu bin bytes (eff_align a) current previous s = Some (Some (h + 48), ?t)"
        using True \<open>\<not> in_use (headers s h)\<close> cur rv nxt(2) by (subst search_bin.simps) (simp add: Let_def)
      ultimately show ?thesis by auto
    qed
  next
    case True
    define t where "t = update_header h (on_free_list_update (\<lambda>_. False))
       (if pre = [] then s\<lparr>deallocated_head_bins := (deallocated_head_bins s)[k := ?n]\<rparr>
        else update_header (last pre) (next_deallocated_update (\<lambda>_. ?n)) s)"
    note U = sb_unlink_inv [OF Cons.prems(1,2) x True t_def]
    have cas: "(if previous = 0 then deallocated_head_bins s ! bin = h
        else next_deallocated (headers s previous) = h)"
      and pz: "previous = 0 \<longleftrightarrow> pre = []" using U(2,3) Cons.prems(5,6) by auto
    have ut: "in_use (headers t h)" "marker t = marker s" "next_empty_block t = next_empty_block s"
      using True by (auto simp: t_def)
    have "search_bin cpu bin bytes (eff_align a) current previous s =
        search_bin cpu bin bytes (eff_align a) ?n previous t"
    proof (cases "pre = []")
      case e: True
      then show ?thesis using cas pz cur nxt(2) ut(1) True Cons.prems(5,6)
        by (subst search_bin.simps) (simp add: Let_def t_def)
    next
      case e: False
      then show ?thesis using cas pz cur nxt(2) ut(1) True Cons.prems(5,6)
        by (subst search_bin.simps) (simp add: Let_def t_def)
    qed
    moreover have same: "in_use (headers t y) = in_use (headers s y)" "actual_size (headers t y) = actual_size (headers s y)" for y
      by (auto simp: t_def)
    moreover have "\<exists>r u. search_bin cpu bin bytes (eff_align a) ?n previous t = Some (r, u) \<and>
        sb_result u L B bytes a r \<and> next_empty_block u = next_empty_block t \<and>
        (r = None \<longrightarrow> (\<forall>h\<in>set rest. in_use (headers t h) \<or> actual_size (headers t h) < add64 bytes 48 \<or>
           (h + 48) mod eff_align a \<noteq> 0))"
      by (rule Cons.IH [OF U(1) Cons.prems(2), of pre]) (use nxt(1) ut Cons.prems in \<open>auto split: list.splits\<close>)
    ultimately show ?thesis using ut True by auto
  qed
qed

lemma sb_inv_statistics:
  assumes "sb_inv s L B X" and "stats_ok st"
  shows "sb_inv (s\<lparr>statistics := st\<rparr>) L B X"
proof -
  let ?t = "s\<lparr>statistics := st\<rparr>"
  have "sb_geom ?t" using sb_invD(1) [OF assms(1)] assms(2) by (simp add: sb_geom_def)
  moreover have "sb_blocks ?t B = sb_blocks s B" by (simp add: sb_blocks_def)
  moreover have "sb_lists ?t B X = sb_lists s B X" by (simp add: sb_lists_def sb_list_def)
  moreover have "sb_live ?t L B = sb_live s L B" by (simp add: sb_live_def)
  ultimately show ?thesis using assms(1) by (simp add: sb_inv_def)
qed

lemma sb_release_inv:
  assumes inv: "sb_inv s L B X" and m: "(p, b, a) \<in> L" and cpu: "cpu < 4294967296"
  shows "\<exists>X'. sb_inv (sb_do_deallocate cpu s p b a) (L - {(p, b, a)}) B X'"
    and "\<not> in_use (headers (sb_do_deallocate cpu s p b a) (p - 48))"
proof -
  define h where "h = p - 48"
  have live: "sb_live s L B" using sb_invD(4) [OF inv] .
  have p: "48 \<le> p" "h \<in> B" "requested_size (headers s h) = b" "p = h + 48"
    using live m by (auto simp: sb_live_def h_def)
  have use: "in_use (headers s h)" using live p m by (force simp: sb_live_def)
  note r = sb_block_range [OF inv p(2)]
  have hd: "sub64 p 48 = h" using p(4) r(7) by (simp add: sub64_exact)
  let ?k = "deallocation_bin b"
  let ?s1 = "update_header h (in_use_update (\<lambda>_. False)) s"
  let ?L = "L - {(p, b, a)}"
  have fst: "fst ` ?L = fst ` L - {p}"
    using inj_on_image_set_diff [of fst L L "{(p, b, a)}"] live m by (simp add: sb_live_def)
  have g1: "sb_geom ?s1" using sb_invD(1) [OF inv] r(6) by (auto simp: sb_geom_def)
  have b1: "sb_blocks ?s1 B"
    by (rule sb_blocks_cong [OF sb_invD(2) [OF inv]]) (use sb_invD(2) [OF inv] in \<open>auto simp: sb_blocks_def\<close>)
  have l1: "sb_lists ?s1 B X"
    by (rule sb_lists_cong [OF sb_invD(3) [OF inv]])
      (use sb_invD(3) [OF inv] in \<open>auto simp: sb_lists_def sb_list_def\<close>)
  have inj: "inj_on fst ?L" using live by (auto simp: sb_live_def intro: inj_on_subset)
  have mem: "\<forall>(q, c, d)\<in>?L. 48 \<le> q \<and> q - 48 \<in> B \<and> requested_size (headers ?s1 (q - 48)) = c \<and> (pow2 d \<longrightarrow> d dvd q)"
    using live by (auto simp: sb_live_def)
  have used: "\<forall>x\<in>B. in_use (headers ?s1 x) \<longleftrightarrow> x + 48 \<in> fst ` ?L"
    using live fst p(4) by (auto simp: sb_live_def)
  define t where "t = sb_push_free h ?k ?s1"
  have "\<exists>X'. sb_inv t ?L B X'"
  proof (cases "on_free_list (headers s h)")
    case True
    then have "t = ?s1" by (simp add: t_def sb_push_free_def)
    moreover have "sb_live ?s1 ?L B" using inj mem used live True by (auto simp: sb_live_def)
    ultimately show ?thesis using g1 b1 l1 by (auto simp: sb_inv_def)
  next
    case False
    \<comment> \<open>the block is off every list: it can be pushed, whatever its use flag says\<close>
    let ?L1 = "insert (p, b, a) ?L"
    have L1: "?L1 = L" using m by auto
    have "sb_inv (sb_push_free h ?k s) L B (X(?k := h # X ?k))"
      by (rule sb_push_free_inv [OF inv p(2) False]) (simp add: p(3))
    then have P: "sb_geom (sb_push_free h ?k s)" "sb_blocks (sb_push_free h ?k s) B"
      "sb_lists (sb_push_free h ?k s) B (X(?k := h # X ?k))" "sb_live (sb_push_free h ?k s) L B"
      by (simp_all add: sb_inv_def)
    have t: "t = update_header h (in_use_update (\<lambda>_. False)) (sb_push_free h ?k s)"
      using False by (intro single_block.equality)
        (auto simp: t_def sb_push_free_def Let_def update_header_def)
    have on: "on_free_list (headers t h)"
      using False by (simp add: t sb_push_free_def Let_def)
    have "sb_geom t" using P(1) by (auto simp: sb_geom_def t)
    moreover have "sb_blocks t B"
      by (rule sb_blocks_cong [OF P(2)]) (use P(2) in \<open>auto simp: sb_blocks_def t\<close>)
    moreover have "sb_lists t B (X(?k := h # X ?k))"
    proof (rule sb_lists_cong [OF P(3)])
      fix j y assume "j < 16" "y \<in> set ((X(?k := h # X ?k)) j)"
      then have "deallocation_bin (requested_size (headers (sb_push_free h ?k s) y)) = j"
        using P(3) unfolding sb_lists_def sb_list_def by blast
      then show "deallocation_bin (requested_size (headers t y)) = j" by (auto simp: t)
    qed (simp_all add: t)
    moreover have "sb_live t ?L B"
      using P(4) inj fst on p(4) by (auto simp: sb_live_def t)
    ultimately show ?thesis by (auto simp: sb_inv_def)
  qed
  then obtain X' where X': "sb_inv t ?L B X'" by blast
  have "h < next_empty_block s" using r(4,5) by linarith
  then have d: "sb_do_deallocate cpu s p b a = t\<lparr>statistics := deallocation_made cpu b (statistics t)\<rparr>"
    using use p(3) hd by (simp add: sb_do_deallocate_def Let_def t_def)
  have "stats_ok (statistics t)" using X' by (simp add: sb_inv_def sb_geom_def)
  then have "sb_inv (t\<lparr>statistics := deallocation_made cpu b (statistics t)\<rparr>) ?L B X'"
    using sb_inv_statistics [OF X'] by simp
  then show "\<exists>X'. sb_inv (sb_do_deallocate cpu s p b a) ?L B X'" using d by auto
  show "\<not> in_use (headers (sb_do_deallocate cpu s p b a) (p - 48))"
    unfolding d h_def [symmetric] by (simp add: t_def sb_push_free_def Let_def)
qed

section \<open>Carving a new block\<close>

lemma align_pointer_round:
  assumes "0 < al" and "x + al < 18446744073709551616"
  shows "align_pointer x al = round_up x al"
proof -
  have "x mod al \<le> x + al" by (meson mod_less_eq_dividend trans_le_add1)
  then show ?thesis using assms
    by (simp add: align_pointer_def Let_def round_up_mod add64_exact sub64_exact)
qed

lemma sub64_add64:
  assumes "m \<le> x + al" and "x + al - m < 18446744073709551616" and "m < 18446744073709551616"
  shows "sub64 (add64 x al) m = x + al - m"
proof -
  have "sub64 (add64 x al) m = ((x + al) mod 18446744073709551616 + (18446744073709551616 - m)) mod 18446744073709551616"
    using assms(3) by (simp add: sub64_def add64_def)
  also have "\<dots> = (x + al + (18446744073709551616 - m)) mod 18446744073709551616"
    by (rule mod_add_left_eq)
  also have "x + al + (18446744073709551616 - m) = (x + al - m) + 18446744073709551616" using assms by simp
  finally show ?thesis using assms(2) by simp
qed

text \<open>In the lower half of the address space no alignment wraps the result.\<close>

lemma align_pointer_low:
  assumes "0 < al" and "al < 18446744073709551616" and "x < 9223372036854775808"
  shows "align_pointer x al = round_up x al"
proof (cases "x mod al = 0")
  case True
  then show ?thesis using assms(1) by (simp add: align_pointer_def round_up_mod)
next
  case False
  have le: "x mod al \<le> x" by (rule mod_less_eq_dividend)
  have "x + al - x mod al < 18446744073709551616"
  proof (cases "x < al")
    case True
    then show ?thesis using assms by simp
  next
    case False
    then show ?thesis using assms le by linarith
  qed
  then have "sub64 (add64 x al) (x mod al) = x + al - x mod al"
    using le assms(3) by (intro sub64_add64) linarith+
  then show ?thesis using False assms(1) by (simp add: align_pointer_def Let_def round_up_mod)
qed

lemma eff_align_pos: "16 \<le> eff_align a"
  by (simp add: eff_align_def DEFAULT_ALIGNMENT_def)

lemma carve_inv:
  assumes inv: "sb_inv s L B X" and a: "a < 18446744073709551616" and b: "bytes < 18446744073709551616"
    and cpu: "cpu < 4294967296"
  shows "\<exists>r t B'. carve cpu bytes (eff_align a) s = (r, t) \<and> sb_result t L B' bytes a r \<and> B \<subseteq> B'"
proof -
  have g: "sb_geom s" using sb_invD(1) [OF inv] .
  let ?n = "next_empty_block s" and ?e = "end_of_block s"
  define rp where "rp = round_up (?n + 48) (eff_align a)"
  have e: "eff_align a < 18446744073709551616" "0 < eff_align a"
    using a eff_align_pos [of a] by (auto simp: eff_align_def DEFAULT_ALIGNMENT_def)
  have n: "?n + 48 < 9223372036854775808" using g by (simp add: sb_geom_def)
  then have ad: "align_pointer (add64 ?n 48) (eff_align a) = rp"
    using align_pointer_low [OF e(2,1) n] by (simp add: add64_exact rp_def)
  have rp: "?n + 48 \<le> rp" using round_up_ge [OF e(2)] by (simp add: rp_def)
  show ?thesis
  proof (cases "rp \<ge> ?e \<or> sub64 ?e rp < 16 \<or> bytes > sub64 (sub64 ?e rp) 16")
    case True
    then have "carve cpu bytes (eff_align a) s = (None, s)"
      by (simp add: carve_def ad Let_def DEFAULT_ALIGNMENT_def)
    then show ?thesis using inv by (auto simp: sb_result_def)
  next
    case False
    have e63: "?e \<le> 9223372036854775680" using g by (simp add: sb_geom_def)
    have "sub64 ?e rp = ?e - rp" using False e63 by (simp add: sub64_exact)
    moreover from this have "sub64 (sub64 ?e rp) 16 = ?e - rp - 16" using False e63 by (simp add: sub64_exact)
    ultimately have fit: "rp < ?e" "rp + bytes + 16 \<le> ?e" using False by auto
    define f where "f = round_up (rp + bytes) 16"
    have fl: "rp + bytes \<le> f" "f < rp + bytes + 16" "16 dvd f"
      using round_up_ge [of 16 "rp + bytes"] round_up_less [of 16 "rp + bytes"] by (auto simp: f_def)
    have fa: "align_pointer (add64 rp bytes) 16 = f"
      using align_pointer_low [of 16 "rp + bytes"] fit e63 by (simp add: add64_exact f_def)
    let ?h = "rp - 48"
    have hd: "sub64 rp 48 = ?h" "sub64 f ?h = f - ?h" using rp fl fit e63 by (simp_all add: sub64_exact)
    have fe: "f < ?e" using fl fit by linarith
    let ?t = "s\<lparr>next_empty_block := f, head := ?h,
        headers := (headers s)(?h := \<lparr>next_header = head s, next_deallocated = 0, actual_size = f - ?h,
          requested_size = bytes, in_use = True, on_free_list = False\<rparr>),
        statistics := allocation_made cpu bytes (statistics s)\<rparr>"
    have cv: "carve cpu bytes (eff_align a) s = (Some rp, ?t)"
      using False fe rp by (cases "headers s ?h")
        (simp add: carve_def ad Let_def DEFAULT_ALIGNMENT_def fa hd update_header_def)
    have hn: "?n \<le> ?h" "?h + 48 = rp" using rp by simp_all
    have hB: "?h \<notin> B"
    proof
      assume "?h \<in> B"
      from sb_block_range(4,5) [OF inv this] hn show False by linarith
    qed
    have low: "h + actual_size (headers s h) \<le> ?n" if "h \<in> B" for h
      using sb_block_range(5) [OF inv that] .
    have m: "?h \<noteq> marker s" using g hn fit by (auto simp: sb_geom_def)
    have new: "rp \<notin> fst ` L"
    proof
      assume "rp \<in> fst ` L"
      then have "rp - 48 \<in> B" using sb_invD(4) [OF inv] by (auto simp: sb_live_def)
      with hB show False by simp
    qed
    have "sb_inv ?t (insert (rp, bytes, a) L) (insert ?h B) X"
    proof (rule sb_invI)
      show "sb_geom ?t" using g m fl fe hn by (auto simp: sb_geom_def)
      show "sb_blocks ?t (insert ?h B)" unfolding sb_blocks_def
      proof (intro conjI)
        show "\<forall>h\<in>insert ?h B. block_start ?t \<le> h \<and> requested_size (headers ?t h) + 48 \<le> actual_size (headers ?t h) \<and>
            h + actual_size (headers ?t h) \<le> next_empty_block ?t \<and> h + actual_size (headers ?t h) \<le> end_of_block ?t"
        proof
          fix h assume h: "h \<in> insert ?h B"
          show "block_start ?t \<le> h \<and> requested_size (headers ?t h) + 48 \<le> actual_size (headers ?t h) \<and>
            h + actual_size (headers ?t h) \<le> next_empty_block ?t \<and> h + actual_size (headers ?t h) \<le> end_of_block ?t"
          proof (cases "h = ?h")
            case True then show ?thesis using g fl fe hn rp by (auto simp: sb_geom_def)
          next
            case ne: False
            then have "h \<in> B" using h by simp
            then show ?thesis using ne sb_invD(2) [OF inv] low [of h] fl hn by (auto simp: sb_blocks_def)
          qed
        qed
        have sep: "apart h (actual_size (headers s h)) ?h k" if "h \<in> B" for h k
          using low [OF that] hn by (simp add: apart_def)
        show "\<forall>x\<in>insert ?h B. \<forall>y\<in>insert ?h B. x \<noteq> y \<longrightarrow>
            apart x (actual_size (headers ?t x)) y (actual_size (headers ?t y))"
          using sb_invD(2) [OF inv] sep sep [THEN apart_sym [THEN iffD1]] hB by (auto simp: sb_blocks_def)
      qed
      have l: "sb_list s B k (X k)" if "k < 16" for k
        using sb_invD(3) [OF inv] that by (simp add: sb_lists_def)
      have nX: "?h \<notin> set (X k)" if "k < 16" for k using l [OF that] hB by (auto simp: sb_list_def)
      show "sb_lists ?t (insert ?h B) X" unfolding sb_lists_def
      proof (intro conjI allI impI ballI)
        fix k :: nat assume k: "k < 16"
        have "sb_list ?t B k (X k)" by (rule sb_list_cong [OF l [OF k]]) (use nX [OF k] in auto)
        then show "sb_list ?t (insert ?h B) k (X k)" by (auto simp: sb_list_def)
      next
        fix h assume "h \<in> insert ?h B"
        then show "on_free_list (headers ?t h) = (\<exists>k<16. h \<in> set (X k))"
          using sb_invD(3) [OF inv] nX by (auto simp: sb_lists_def)
      qed
      have al: "pow2 a \<longrightarrow> a dvd rp" using eff_align_pow2 [of a rp] by (simp add: rp_def)
      show "sb_live ?t (insert (rp, bytes, a) L) (insert ?h B)" unfolding sb_live_def
      proof (intro conjI)
        show "inj_on fst (insert (rp, bytes, a) L)" using sb_invD(4) [OF inv] new by (auto simp: sb_live_def)
        have "q - 48 \<noteq> ?h" if "(q, c, d) \<in> L" for q c d
          using sb_invD(4) [OF inv] that hB by (auto simp: sb_live_def)
        then show "\<forall>(p, b, a)\<in>insert (rp, bytes, a) L. 48 \<le> p \<and> p - 48 \<in> insert ?h B \<and>
            requested_size (headers ?t (p - 48)) = b \<and> (pow2 a \<longrightarrow> a dvd p)"
          using sb_invD(4) [OF inv] al rp by (fastforce simp: sb_live_def)
        show "\<forall>x\<in>insert ?h B. in_use (headers ?t x) \<longleftrightarrow> x + 48 \<in> fst ` insert (rp, bytes, a) L"
          using sb_invD(4) [OF inv] hn hB by (auto simp: sb_live_def)
        show "\<forall>x\<in>insert ?h B. \<not> in_use (headers ?t x) \<longrightarrow> on_free_list (headers ?t x)"
          using sb_invD(4) [OF inv] by (auto simp: sb_live_def)
      qed
    qed
    then have "sb_result ?t L (insert ?h B) bytes a (Some rp)" using new by (auto simp: sb_result_def)
    then show ?thesis using cv by blast
  qed
qed

section \<open>The contract\<close>

definition sb_owns :: "single_block \<Rightarrow> ledger \<Rightarrow> bool" where
  "sb_owns s L \<longleftrightarrow> (\<exists>B X. sb_inv s L B X)"

lemma sb_ownsI: "sb_inv s L B X \<Longrightarrow> sb_owns s L"
  unfolding sb_owns_def by blast

lemma sb_owns_sound:
  assumes "sb_owns s L"
  shows "ledger_sound L"
proof -
  obtain B X where inv: "sb_inv s L B X" using assms by (auto simp: sb_owns_def)
  have live: "48 \<le> p \<and> p - 48 \<in> B \<and> requested_size (headers s (p - 48)) = b \<and> (pow2 a \<longrightarrow> a dvd p)"
    if "(p, b, a) \<in> L" for p b a using sb_invD(4) [OF inv] that by (auto simp: sb_live_def)
  have e63: "end_of_block s \<le> 9223372036854775680" using sb_invD(1) [OF inv] by (simp add: sb_geom_def)
  have blk: "block_sound (p, b, a)" if m: "(p, b, a) \<in> L" for p b a
  proof -
    from live [OF m] have B: "p - 48 \<in> B" and r: "requested_size (headers s (p - 48)) = b" "48 \<le> p"
      "pow2 a \<longrightarrow> a dvd p" by simp_all
    have "p + b \<le> end_of_block s" using sb_block_range(3) [OF inv B] r by simp
    then show ?thesis using r e63 by (simp add: block_sound_def)
  qed
  have clear: "clear_of x y" if x: "x \<in> L" and y: "y \<in> L" and ne: "x \<noteq> y" for x y
  proof -
    obtain p b a q c d where xy: "x = (p, b, a)" "y = (q, c, d)" by (metis prod_cases3)
    have inj: "inj_on fst L" using sb_invD(4) [OF inv] by (simp add: sb_live_def)
    have pq: "p \<noteq> q" using inj_onD [OF inj _ x y] ne xy by auto
    note lp = live [OF x [unfolded xy]] and lq = live [OF y [unfolded xy]]
    have "apart (p - 48) (actual_size (headers s (p - 48))) (q - 48) (actual_size (headers s (q - 48)))"
      using sb_invD(2) [OF inv] lp lq pq by (auto simp: sb_blocks_def)
    moreover have "b + 48 \<le> actual_size (headers s (p - 48))" "c + 48 \<le> actual_size (headers s (q - 48))"
      using sb_block_range(4) [OF inv, of "p - 48"] sb_block_range(4) [OF inv, of "q - 48"] lp lq by auto
    moreover obtain g h where "p = g + 48" "q = h + 48" using lp lq by (metis le_add_diff_inverse2)
    ultimately have "apart p b q c" by (auto simp: apart_def)
    then show ?thesis using pq xy by (simp add: clear_of_def)
  qed
  show ?thesis unfolding ledger_sound_def using blk clear by auto
qed

lemma sb_allocate_inv:
  assumes inv: "sb_inv s L B X" and arg: "arg_ok c b a"
  shows "\<exists>r t B'. sb_do_allocate c s b a = Some (r, t) \<and> sb_result t L B' b a r"
proof (cases "b > sub64 (sub64 SIZE_MAX 48) (eff_align a)")
  case True
  then have "sb_do_allocate c s b a = Some (None, s)" by (simp add: sb_do_allocate_def flip: eff_align_def)
  then show ?thesis using inv by (auto simp: sb_result_def)
next
  case False
  let ?k = "deallocation_bin b"
  have ab: "a < 18446744073709551616" "b < 18446744073709551616" "c < 4294967296"
    using arg by (simp_all add: arg_ok_def)
  show ?thesis
  proof (cases "total_deallocations (statistics s) > total_allocations (statistics s) div 10")
    case no: False
    obtain r t B' where "carve c b (eff_align a) s = (r, t)" "sb_result t L B' b a r"
      using carve_inv [OF inv ab] by blast
    then show ?thesis using no False by (auto simp: sb_do_allocate_def simp flip: eff_align_def)
  next
    case yes: True
    have k: "?k < 16" by (rule deallocation_bin_bound)
    have l: "sb_list s B ?k (X ?k)" using sb_invD(3) [OF inv] k by (simp add: sb_lists_def)
    then have hd: "deallocated_head_bins s ! ?k = (case X ?k of [] \<Rightarrow> marker s | h # _ \<Rightarrow> h)"
      by (cases "X ?k") (auto simp: sb_list_def)
    have big: "add64 b 48 = b + 48 \<and> deallocation_bin b = ?k \<or> (\<forall>h\<in>B. (h + 48) mod eff_align a \<noteq> 0)"
    proof (cases "eff_align a \<le> SIZE_MAX - 48")
      case True
      then have "b \<le> SIZE_MAX - 48 - eff_align a" using False by (simp add: SIZE_MAX_def sub64_exact)
      then have "b + 48 < 18446744073709551616" using True eff_align_pos [of a] by (simp add: SIZE_MAX_def)
      then show ?thesis by (simp add: add64_exact)
    next
      case False
      have "h + 48 < eff_align a" if "h \<in> B" for h
        using sb_block_range(3) [OF inv that] sb_invD(1) [OF inv] False by (simp add: sb_geom_def SIZE_MAX_def)
      then show ?thesis by auto
    qed
    obtain r t where R: "search_bin c ?k b (eff_align a) (deallocated_head_bins s ! ?k) 0 s = Some (r, t)"
      "sb_result t L B b a r"
      using search_bin_inv [OF inv k, of "[]" "X ?k" _ 0 ?k b a c] hd big ab(3) by auto
    show ?thesis
    proof (cases r)
      case (Some p)
      then show ?thesis using R yes False by (auto simp: sb_do_allocate_def Let_def simp flip: eff_align_def)
    next
      case None
      then obtain X' where inv': "sb_inv t L B X'" using R(2) by (auto simp: sb_result_def)
      obtain r' t' B' where "carve c b (eff_align a) t = (r', t')" "sb_result t' L B' b a r'"
        using carve_inv [OF inv' ab] by blast
      then show ?thesis using R None yes False
        by (auto simp: sb_do_allocate_def Let_def simp flip: eff_align_def)
    qed
  qed
qed

lemma sb_allocate_owns:
  assumes "sb_owns s L" and "arg_ok c b a"
  shows "\<exists>r t. sb_do_allocate c s b a = Some (r, t) \<and> (case r of None \<Rightarrow> sb_owns t L
    | Some p \<Rightarrow> p \<notin> fst ` L \<and> sb_owns t (insert (p, b, a) L))"
proof -
  obtain B X where inv: "sb_inv s L B X" using assms(1) by (auto simp: sb_owns_def)
  obtain r t B' where r: "sb_do_allocate c s b a = Some (r, t)" "sb_result t L B' b a r"
    using sb_allocate_inv [OF inv assms(2)] by blast
  then show ?thesis by (cases r) (auto simp: sb_result_def intro: sb_ownsI)
qed

interpretation sb: memory_resource sb_do_allocate "\<lambda>c s p b a. Some (sb_do_deallocate c s p b a)" sb_owns
proof
  fix s :: single_block and L :: ledger and c b a :: nat and p s'
  assume own: "sb_owns s L"
  show "ledger_sound L" using own by (rule sb_owns_sound)
  assume arg: "arg_ok c b a"
  note call = sb_allocate_owns [OF own arg]
  show "sb_do_allocate c s b a \<noteq> None" using call by auto
  show "sb_do_allocate c s b a = Some (Some p, s') \<Longrightarrow> p \<notin> fst ` L \<and> sb_owns s' (insert (p, b, a) L)"
    using call by auto
  show "sb_do_allocate c s b a = Some (None, s') \<Longrightarrow> sb_owns s' L" using call by auto
  show "\<exists>s'. Some (sb_do_deallocate c s p b a) = Some s' \<and> sb_owns s' (L - {(p, b, a)})"
    if m: "(p, b, a) \<in> L" for p
  proof -
    obtain B X where inv: "sb_inv s L B X" using own by (auto simp: sb_owns_def)
    have "c < 4294967296" using arg by (simp add: arg_ok_def)
    from sb_release_inv(1) [OF inv m this] show ?thesis by (auto intro: sb_ownsI)
  qed
qed

section \<open>A fresh block\<close>

definition sb_args :: "addr \<Rightarrow> addr \<Rightarrow> nat \<Rightarrow> bool" where
  "sb_args m blk sz \<longleftrightarrow> 0 < blk \<and> blk + sz \<le> 9223372036854775680 \<and> 0 < m \<and> (m < blk \<or> blk + sz \<le> m)"

lemma single_block_resource_inv:
  assumes "sb_args m blk sz"
  shows "sb_inv (single_block_resource m mem blk sz) {} {} (\<lambda>_. [])"
proof -
  let ?s = "single_block_resource m mem blk sz"
  have a: "align_pointer blk 16 = round_up blk 16"
    using align_pointer_low [of 16 blk] assms by (simp add: sb_args_def)
  have r: "blk \<le> round_up blk 16" "round_up blk 16 < blk + 16"
    using round_up_ge [of 16 blk] round_up_less [of 16 blk] by simp_all
  have f: "block_start ?s = blk" "end_of_block ?s = blk + sz" "marker ?s = m" "next_empty_block ?s = round_up blk 16"
    "deallocated_head_bins ?s = replicate 16 m" "headers ?s m = end_of_list_marker"
    "statistics ?s = memory_resource_statistics"
    using assms a by (simp_all add: single_block_resource_def sb_args_def add64_exact DEFAULT_ALIGNMENT_def
        NUM_DEALLOCATION_BINS_def)
  have "sb_geom ?s" using assms r by (auto simp: sb_geom_def f stats_ok_init sb_args_def end_of_list_marker_def)
  then show ?thesis
    by (simp add: sb_inv_def sb_blocks_def sb_lists_def sb_list_def sb_live_def f)
qed

lemma single_block_resource_owns: "sb_args m blk sz \<Longrightarrow> sb_owns (single_block_resource m mem blk sz) {}"
  using single_block_resource_inv by (rule sb_ownsI)

section \<open>Properties\<close>

text \<open>C14: Any session on a single-block resource whose buffer lies in the lower half of the address
  space, is not at address 0 and does not contain the list marker, runs to its end (the search of a
  list of freed blocks always ends), and the blocks the clients hold never overlap, are never null and have the
  alignment they were requested with.  Nearer the top of the address space this is false (see
  \<open>single_block_overalign_wraps\<close>).\<close>

theorem single_block_session_sound:
  assumes "sb_args m blk sz" and "list_all request_ok rs"
  shows "\<exists>y. serve_all sb_do_allocate (\<lambda>c s p b a. Some (sb_do_deallocate c s p b a)) rs
      \<lparr>resource = single_block_resource m mem blk sz, held = []\<rparr> = Some y \<and>
    ledger_sound (set (held y)) \<and> sb_owns (resource y) (set (held y))"
  by (rule sb.session_sound [OF single_block_resource_owns [OF assms(1)] assms(2)])

theorem single_block_session_sound_witness:
  "\<exists>y. serve_all sb_do_allocate (\<lambda>c s p b a. Some (sb_do_deallocate c s p b a))
      [Allocate 0 100 8, Allocate 1 5000 64, Release 2 0, Allocate 0 90 1, Release 0 0, Allocate 3 90 16]
      \<lparr>resource = single_block_resource 64 (\<lambda>_. end_of_list_marker) 4100 100000, held = []\<rparr> = Some y \<and>
    ledger_sound (set (held y)) \<and> sb_owns (resource y) (set (held y))"
  by (rule single_block_session_sound) (simp_all add: sb_args_def request_ok_def arg_ok_def)

text \<open>Freed memory is found again: once releases exceed a tenth of the allocations, a request for as
  many bytes as a block just released, at an alignment its address has, is served from the lists
  of freed blocks; the unused tail of the buffer is not touched.\<close>

theorem single_block_reuses:
  assumes own: "sb_owns s L" and m: "(p, b, a) \<in> L" and cpu: "c < 4294967296"
    and t: "t = sb_do_deallocate c s p b a"
    and enough: "total_deallocations (statistics t) > total_allocations (statistics t) div 10"
    and arg: "arg_ok c b a'" and al: "p mod eff_align a' = 0"
  shows "\<exists>q u. sb_do_allocate c t b a' = Some (Some q, u) \<and> next_empty_block u = next_empty_block t"
proof -
  obtain B X where inv: "sb_inv s L B X" using own by (auto simp: sb_owns_def)
  let ?h = "p - 48" and ?k = "deallocation_bin b"
  obtain X' where inv': "sb_inv t (L - {(p, b, a)}) B X'"
    using sb_release_inv(1) [OF inv m cpu] t by blast
  have free: "\<not> in_use (headers t ?h)" using sb_release_inv(2) [OF inv m cpu] t by simp
  have live: "48 \<le> p" "?h \<in> B" "requested_size (headers s ?h) = b"
    using sb_invD(4) [OF inv] m by (auto simp: sb_live_def)
  have req: "requested_size (headers t x) = requested_size (headers s x)" for x
    unfolding t by (auto simp: sb_do_deallocate_def sb_push_free_def Let_def)
  have k: "?k < 16" by (rule deallocation_bin_bound)
  obtain j where j: "j < 16" "?h \<in> set (X' j)"
    using sb_invD(3,4) [OF inv'] live(2) free by (auto simp: sb_lists_def sb_live_def)
  have "j = ?k" using sb_invD(3) [OF inv'] j req live(3) by (auto simp: sb_lists_def sb_list_def)
  then have hk: "?h \<in> set (X' ?k)" using j by simp
  have sz: "b + 48 \<le> actual_size (headers t ?h)" and small: "?h + 48 + b \<le> end_of_block t"
    using sb_block_range(3,4) [OF inv' live(2)] req live(3) by simp_all
  have e63: "end_of_block t \<le> 9223372036854775680" using sb_invD(1) [OF inv'] by (simp add: sb_geom_def)
  then have b48: "add64 b 48 = b + 48" using small by (simp add: add64_exact)
  have l: "sb_list t B ?k (X' ?k)" using sb_invD(3) [OF inv'] k by (simp add: sb_lists_def)
  then have hd: "deallocated_head_bins t ! ?k = (case X' ?k of [] \<Rightarrow> marker t | h # _ \<Rightarrow> h)"
    by (cases "X' ?k") (auto simp: sb_list_def)
  obtain r u where R: "search_bin c ?k b (eff_align a') (deallocated_head_bins t ! ?k) 0 t = Some (r, u)"
    "next_empty_block u = next_empty_block t"
    "r = None \<longrightarrow> (\<forall>h\<in>set (X' ?k). in_use (headers t h) \<or> actual_size (headers t h) < add64 b 48 \<or>
       (h + 48) mod eff_align a' \<noteq> 0)"
    using search_bin_inv [OF inv' k, of "[]" "X' ?k" _ 0 ?k b a' c] hd b48 cpu by auto
  have "r \<noteq> None" using R(3) hk free sz b48 al live(1) by auto
  then obtain q where q: "r = Some q" by blast
  have le: "eff_align a' \<le> p"
  proof (rule ccontr)
    assume "\<not> eff_align a' \<le> p"
    then have "p mod eff_align a' = p" by simp
    then show False using al live(1) by simp
  qed
  have "p + b \<le> 9223372036854775680" using small e63 live(1) by simp
  then have "\<not> b > sub64 (sub64 SIZE_MAX 48) (eff_align a')"
    using le by (simp add: SIZE_MAX_def sub64_exact)
  then show ?thesis using R(1,2) q enough
    by (auto simp: sb_do_allocate_def Let_def simp flip: eff_align_def)
qed

lemma fresh_total: "total_allocations memory_resource_statistics = 0" "total_deallocations memory_resource_statistics = 0"
  by (simp_all add: total_allocations_sum total_deallocations_sum memory_resource_statistics_def no_counts_def
      sum_list_replicate)

theorem single_block_reuses_witness:
  "\<exists>s t q u. t = sb_do_deallocate 0 s 4144 100 8 \<and> sb_do_allocate 0 t 100 16 = Some (Some q, u) \<and>
    next_empty_block u = next_empty_block t"
proof -
  let ?s0 = "single_block_resource 64 (\<lambda>_. end_of_list_marker) 4096 100000"
  let ?m = "memory_resource_statistics"
  have a0: "align_pointer 4096 16 = 4096" "align_pointer 4144 16 = 4144" "align_pointer 4244 16 = 4256"
    by (simp_all add: align_pointer_def add64_exact sub64_exact)
  have f: "next_empty_block ?s0 = 4096" "end_of_block ?s0 = 104096" "statistics ?s0 = ?m" "head ?s0 = 64"
    by (simp_all add: single_block_resource_def DEFAULT_ALIGNMENT_def a0 add64_exact)
  obtain s where s: "sb_do_allocate 0 ?s0 100 8 = Some (Some 4144, s)" "next_empty_block s = 4256"
    "statistics s = allocation_made 0 100 ?m" "requested_size (headers s 4096) = 100" "in_use (headers s 4096)"
    by (simp add: sb_do_allocate_def SIZE_MAX_def DEFAULT_ALIGNMENT_def sub64_exact f fresh_total carve_def
        Let_def add64_exact a0)
  have own: "sb_owns s {(4144, 100, 8)}"
    using sb_allocate_owns [OF single_block_resource_owns, of 64 4096 100000 0 100 8 "\<lambda>_. end_of_list_marker"] s(1)
    by (simp add: sb_args_def arg_ok_def)
  have tot: "total_allocations (statistics s) = 1" "total_deallocations (statistics s) = 0"
    using allocation_made_totals [OF stats_ok_init, of 0 100] s(3) fresh_total by (simp_all add: add64_exact shard_totals)
  have st: "stats_ok (statistics s)" using s(3) stats_ok_init by simp
  let ?t = "sb_do_deallocate 0 s 4144 100 8"
  have stt: "statistics ?t = deallocation_made 0 100 (statistics s)"
    using s by (simp add: sb_do_deallocate_def Let_def sub64_exact sb_push_free_def)
  have "total_deallocations (statistics ?t) = 1" "total_allocations (statistics ?t) = 1"
    using deallocation_made_totals [OF st, of 0 100] tot by (simp_all add: stt add64_exact shard_totals)
  then show ?thesis
    using single_block_reuses [OF own, of 4144 100 8 0 ?t 16]
    by (auto simp: arg_ok_def eff_align_def DEFAULT_ALIGNMENT_def)
qed

text \<open>What \<^verbatim>\<open>align_pointer\<close> computes: the next multiple, or 0 when there is none in the address space.\<close>

lemma align_pointer_exact:
  assumes "0 < a" "p + a < 18446744073709551616"
  shows "align_pointer p a = round_up p a"
  using assms mod_less_divisor [OF assms(1), of p] by (auto simp: align_pointer_def Let_def round_up_mod add64_exact sub64_exact)

lemma align_pointer_wraps:
  assumes "k < 64" and "18446744073709551616 < p + 2 ^ k" and "p < 18446744073709551616"
  shows "align_pointer p (2 ^ k) = 0"
proof -
  let ?a = "2 ^ k :: nat" and ?M = "18446744073709551616 :: nat"
  have d: "?a dvd ?M" using le_imp_power_dvd [of k 64 "2 :: nat"] assms(1) by simp
  then have "?a \<le> ?M" by (rule dvd_imp_le) simp
  define r where "r = p - (?M - ?a)"
  have p: "p = ?M - ?a + r" and r: "0 < r" "r < ?a" using assms(2,3) \<open>?a \<le> ?M\<close> by (auto simp: r_def)
  have "?a dvd ?M - ?a" using d by (simp add: dvd_diff_nat)
  then have m: "p mod ?a = r" using r(2) by (auto simp: p elim!: dvdE)
  have "add64 p ?a = r" using r \<open>?a \<le> ?M\<close> by (simp add: add64_def p)
  moreover have "sub64 r r = 0" using r \<open>?a \<le> ?M\<close> by (simp add: sub64_exact)
  ultimately show ?thesis using m r(1) by (simp add: align_pointer_def)
qed

text \<open>C24: The bound on the address space is needed.  On a fresh resource over any buffer whose end is so close to the
  top of the address space that rounding up to the alignment of the first request would leave it,
  \<^verbatim>\<open>align_pointer\<close> wraps to address 0 and the checks that follow accept it: the request is refused with a null
  pointer, and yet counted as an allocation, and the bump pointer moves to the bottom of memory; a second
  request of default alignment is then handed an address below the start of the buffer.\<close>

theorem single_block_overalign_wraps:
  assumes blk: "16 dvd blk" "blk + sz < 18446744073709551616" "blk + 48 < 18446744073709551616"
    and align: "k < 64" "16 < (2 :: nat) ^ k" "18446744073709551616 < blk + 48 + 2 ^ k"
    and args: "bytes < 4294967296" "bytes' < 4294967296" "cpu < 4294967296"
  shows "\<exists>t u p. sb_do_allocate cpu (single_block_resource m mem blk sz) bytes (2 ^ k) = Some (None, t) \<and>
    total_allocations (statistics t) = 1 \<and> next_empty_block t = round_up bytes 16 \<and>
    sb_do_allocate cpu' t bytes' 16 = Some (Some p, u) \<and> p \<noteq> 0 \<and> p + bytes' < blk"
proof -
  let ?s = "single_block_resource m mem blk sz" and ?n = "round_up bytes 16"
  have small: "bytes + bytes' + 128 \<le> blk" "bytes + 4294967296 \<le> 9223372036854775808"
    using args align(3) power_increasing [of k 63 "2 :: nat"] align(1) by simp_all
  have n: "16 dvd ?n" "?n < bytes + 16" by (rule round_up_dvd) (simp add: round_up_less)
  have al: "align_pointer blk 16 = blk" using blk(1) by (simp add: align_pointer_def)
  have f: "next_empty_block ?s = blk" "end_of_block ?s = blk + sz" "block_start ?s = blk" "statistics ?s = memory_resource_statistics"
    using blk(2) by (simp_all add: single_block_resource_def DEFAULT_ALIGNMENT_def al add64_exact)
  have k: "(2 :: nat) ^ k \<le> 2 ^ 63" using align(1) by (intro power_increasing) auto
  have wrap: "align_pointer (add64 blk 48) (2 ^ k) = 0"
    using align_pointer_wraps [OF align(1), of "blk + 48"] align(3) blk(3) by (simp add: add64_exact)
  have following: "align_pointer (add64 0 bytes) 16 = ?n"
    using align_pointer_exact [of 16 bytes] small blk(3) by (simp add: add64_exact)
  have room: "\<not> bytes > sub64 (sub64 SIZE_MAX 48) (2 ^ k)"
    using k small blk(2) align(3) by (simp add: sub64_exact SIZE_MAX_def)
  let ?c = "carve cpu bytes (2 ^ k) ?s"
  have z: "sub64 (blk + sz) 0 = blk + sz" "sub64 (blk + sz) 16 = blk + sz - 16" "\<not> blk + sz < 16" "\<not> blk + sz - 16 < bytes"
    "\<not> blk + sz \<le> ?n"
    using blk(2) small n(2) by (simp_all add: sub64_exact)
  have c: "fst ?c = None" "next_empty_block (snd ?c) = ?n" "statistics (snd ?c) = allocation_made cpu bytes memory_resource_statistics"
    "end_of_block (snd ?c) = blk + sz" "block_start (snd ?c) = blk"
    using blk(1) z small by (simp_all add: carve_def Let_def f wrap following DEFAULT_ALIGNMENT_def)
  define t where "t = snd ?c"
  have "sb_do_allocate cpu ?s bytes (2 ^ k) = Some ?c"
    using align(2) room by (simp add: sb_do_allocate_def DEFAULT_ALIGNMENT_def f fresh_total)
  then have t: "sb_do_allocate cpu ?s bytes (2 ^ k) = Some (None, t)" "next_empty_block t = ?n"
    "statistics t = allocation_made cpu bytes memory_resource_statistics" "end_of_block t = blk + sz" "block_start t = blk"
    using c by (simp_all add: t_def prod_eq_iff)
  have tot: "total_deallocations (statistics t) = 0" "total_allocations (statistics t) = 1"
    using allocation_made_totals [OF stats_ok_init, of cpu bytes] t(3) fresh_total args(3) by (simp_all add: add64_exact shard_totals)
  have start: "align_pointer (add64 ?n 48) 16 = ?n + 48"
    using n small blk(3) by (simp add: add64_exact align_pointer_def)
  have room': "\<not> bytes' > sub64 (sub64 SIZE_MAX 48) 16" using small blk(2) by (simp add: sub64_exact SIZE_MAX_def)
  have "align_pointer (add64 (?n + 48) bytes') 16 = round_up (?n + 48 + bytes') 16"
    using align_pointer_exact [of 16 "?n + 48 + bytes'"] n(2) small blk(2) by (simp add: add64_exact)
  moreover have "round_up (?n + 48 + bytes') 16 < blk" using n(2) small round_up_less [of 16 "?n + 48 + bytes'"] by simp
  moreover have "\<not> blk + sz - (?n + 48) < 16" "\<not> blk + sz - (64 + ?n) < bytes'" using small(1) n(2) by linarith+
  ultimately have "\<exists>u. sb_do_allocate cpu' t bytes' 16 = Some (Some (?n + 48), u)"
    using t(2,4,5) tot small n(2) blk(2) start room'
    by (simp add: sb_do_allocate_def DEFAULT_ALIGNMENT_def carve_def Let_def sub64_exact)
  then show ?thesis using t tot small n(2) by auto
qed

text \<open>A buffer of 64 KiB that ends less than 1 MiB below the end of the address space, and a request aligned to 4 GiB.\<close>

theorem single_block_overalign_wraps_witness:
  "\<exists>t u p. sb_do_allocate 0 (single_block_resource 64 (\<lambda>_. end_of_list_marker) 18446744073708503040 65536) 64 4294967296 = Some (None, t) \<and>
    next_empty_block t = 64 \<and> sb_do_allocate 0 t 64 16 = Some (Some p, u) \<and> p + 64 < 18446744073708503040"
  using single_block_overalign_wraps [of 18446744073708503040 65536 32 64 64 0 64 "\<lambda>_. end_of_list_marker" 0]
  by (auto simp: round_up_def)

end
