(* ===== verification/Monotonic.thy ===== *)
theory Monotonic
  imports Memory_Resource
begin

text \<open>
  \<^verbatim>\<open>pmr::monotonic_buffer_resource\<close> (\<^verbatim>\<open>include/__memory_resource/monotonic_buffer_resource.h\<close>):
  allocations are carved from a current buffer, a new buffer of at least twice the size is
  fetched from an upstream resource when it is used up, and nothing is given back before
  \<^verbatim>\<open>release()\<close>.

  The upstream resource is a parameter: every operation takes the upstream's virtual functions
  and keeps the upstream's state.  The headers of the fetched buffers live in their first 16
  bytes; the model keeps them as a map from the buffer's address.
\<close>

section \<open>State\<close>

record buffer_header =
  chunk_size :: nat
  next_chunk :: addr

record 'u monotonic =
  upstream :: 'u
  has_upstream :: bool
  initial_buffer :: addr
  initial_buffer_size :: nat
  current_buffer :: addr
  current_buffer_size :: nat
  next_buffer_size :: nat
  allocated_blocks_head :: addr
  chunk_headers :: "addr \<Rightarrow> buffer_header"

definition HEADER_SIZE :: nat where "HEADER_SIZE = 16"
definition HEADER_ALIGN :: nat where "HEADER_ALIGN = 8"

text \<open>The three constructors; \<open>mem\<close> is what memory held before, \<open>present\<close> whether upstream is not null.\<close>

definition monotonic_upstream_only :: "(addr \<Rightarrow> buffer_header) \<Rightarrow> bool \<Rightarrow> 'u \<Rightarrow> 'u monotonic" where
  "monotonic_upstream_only mem present u =
     \<lparr>upstream = u, has_upstream = present, initial_buffer = 0, initial_buffer_size = 0, current_buffer = 0,
      current_buffer_size = 0, next_buffer_size = 1024, allocated_blocks_head = 0, chunk_headers = mem\<rparr>"

definition monotonic_initial_size :: "(addr \<Rightarrow> buffer_header) \<Rightarrow> nat \<Rightarrow> bool \<Rightarrow> 'u \<Rightarrow> 'u monotonic" where
  "monotonic_initial_size mem initial_size present u =
     \<lparr>upstream = u, has_upstream = present, initial_buffer = 0, initial_buffer_size = 0, current_buffer = 0,
      current_buffer_size = 0, next_buffer_size = (if initial_size > 0 then initial_size else 1024),
      allocated_blocks_head = 0, chunk_headers = mem\<rparr>"

definition monotonic_buffer :: "(addr \<Rightarrow> buffer_header) \<Rightarrow> addr \<Rightarrow> nat \<Rightarrow> bool \<Rightarrow> 'u \<Rightarrow> 'u monotonic" where
  "monotonic_buffer mem buffer buffer_size present u =
     \<lparr>upstream = u, has_upstream = present, initial_buffer = buffer, initial_buffer_size = buffer_size,
      current_buffer = buffer, current_buffer_size = buffer_size,
      next_buffer_size = (if buffer_size > 0 then buffer_size else 1024),
      allocated_blocks_head = 0, chunk_headers = mem\<rparr>"

section \<open>Operations\<close>

text \<open>Returning the fetched buffers, first to last; \<open>None\<close> is a list without an end.\<close>

partial_function (option) release_loop :: "'u deallocate_fn \<Rightarrow> nat \<Rightarrow> addr \<Rightarrow> 'u monotonic \<Rightarrow> 'u monotonic option" where
  "release_loop up_dealloc cpu current s =
     (if current = 0 then Some s
      else let nxt = next_chunk (chunk_headers s current)
           in if has_upstream s
              then (case up_dealloc cpu (upstream s) current (chunk_size (chunk_headers s current)) HEADER_ALIGN of
                      None \<Rightarrow> None
                    | Some u \<Rightarrow> release_loop up_dealloc cpu nxt (s\<lparr>upstream := u\<rparr>))
              else release_loop up_dealloc cpu nxt s)"

declare release_loop.simps [code]

definition release :: "'u deallocate_fn \<Rightarrow> nat \<Rightarrow> 'u monotonic \<Rightarrow> 'u monotonic option" where
  "release up_dealloc cpu s =
     map_option (\<lambda>s. s\<lparr>allocated_blocks_head := 0, current_buffer := initial_buffer s,
        current_buffer_size := initial_buffer_size s\<rparr>)
       (release_loop up_dealloc cpu (allocated_blocks_head s) s)"

text \<open>The doubling of the next buffer's size; \<open>None\<close> is the endless loop that a size of 0 would cause.\<close>

partial_function (option) grow :: "nat \<Rightarrow> nat \<Rightarrow> nat option" where
  "grow next_size required_size =
     (if next_size < required_size then grow (mul64 next_size 2) required_size else Some next_size)"

declare grow.simps [code]

definition take_current :: "'u monotonic \<Rightarrow> nat \<Rightarrow> nat \<Rightarrow> (addr \<times> 'u monotonic) option" where
  "take_current s bytes alignment =
     (if current_buffer s \<noteq> 0
      then let padding = sub64 (align_mask (current_buffer s) alignment) (current_buffer s)
           in if padding \<le> current_buffer_size s \<and> bytes \<le> current_buffer_size s - padding
              then Some (add64 (current_buffer s) padding,
                s\<lparr>current_buffer := add64 (current_buffer s) (add64 padding bytes),
                  current_buffer_size := sub64 (current_buffer_size s) (add64 padding bytes)\<rparr>)
              else None
      else None)"

definition fetch :: "'u allocate_fn \<Rightarrow> nat \<Rightarrow> 'u monotonic \<Rightarrow> nat \<Rightarrow> nat \<Rightarrow> (addr option \<times> 'u monotonic) option" where
  "fetch up_alloc cpu s bytes alignment =
     (let required_size = add64 (add64 bytes HEADER_SIZE) alignment
      in case grow (if next_buffer_size s > 0 then next_buffer_size s else HEADER_SIZE) required_size of
           None \<Rightarrow> None
         | Some next_size \<Rightarrow>
             (case up_alloc cpu (upstream s) next_size HEADER_ALIGN of
                None \<Rightarrow> None
              | Some (None, u) \<Rightarrow> Some (None, s\<lparr>upstream := u\<rparr>)
              | Some (Some new_block, u) \<Rightarrow>
                  (let s = s\<lparr>upstream := u,
                        next_buffer_size := (if next_size \<le> SIZE_MAX div 4 then mul64 next_size 2 else next_size)\<rparr>;
                       s = s\<lparr>chunk_headers := (chunk_headers s)(new_block :=
                              \<lparr>chunk_size = next_size, next_chunk = allocated_blocks_head s\<rparr>),
                             allocated_blocks_head := new_block\<rparr>;
                       block_start = add64 new_block HEADER_SIZE;
                       block_usable_size = sub64 next_size HEADER_SIZE;
                       aligned_ptr = align_mask block_start alignment;
                       padding = sub64 aligned_ptr block_start
                   in Some (Some aligned_ptr,
                        s\<lparr>current_buffer := add64 (add64 block_start padding) bytes,
                          current_buffer_size := sub64 (sub64 block_usable_size padding) bytes\<rparr>))))"

definition mono_do_allocate :: "'u allocate_fn \<Rightarrow> 'u monotonic allocate_fn" where
  "mono_do_allocate up_alloc cpu s bytes alignment =
     (if bytes = 0 then Some (None, s)
      else if alignment = 0 \<or> and64 alignment (sub64 alignment 1) \<noteq> 0 then Some (None, s)
      else case take_current s bytes alignment of
             Some (result, s') \<Rightarrow> Some (Some result, s')
           | None \<Rightarrow>
               if \<not> has_upstream s then Some (None, s)
               else if bytes > SIZE_MAX div 4 \<or> alignment > SIZE_MAX div 4 then Some (None, s)
               else fetch up_alloc cpu s bytes alignment)"

definition mono_do_deallocate :: "'u monotonic deallocate_fn" where
  "mono_do_deallocate cpu s p bytes alignment = Some s"

section \<open>The doubling loop ends\<close>

lemma grow_enough:
  assumes "0 < n" and "n < 18446744073709551616" and "r \<le> 9223372036854775808"
  shows "\<exists>m. grow n r = Some m \<and> r \<le> m \<and> m < 18446744073709551616"
  using assms
proof (induction "r - n" arbitrary: n rule: less_induct)
  case less
  show ?case
  proof (cases "n < r")
    case False
    then show ?thesis using less.prems by (simp add: grow.simps)
  next
    case True
    then have d: "mul64 n 2 = n * 2" using less.prems by (simp add: mul64_exact)
    have "\<exists>m. grow (n * 2) r = Some m \<and> r \<le> m \<and> m < 18446744073709551616"
      using True less.prems by (intro less.hyps) auto
    then show ?thesis using True d by (simp add: grow.simps [of n])
  qed
qed

section \<open>The invariant\<close>

text \<open>
  \<open>cs\<close> are the fetched buffers, latest first, \<open>R\<close> what the upstream has handed out besides them
  (the initial buffer, when it came from there), and \<open>L\<close> what the clients hold.
\<close>

definition chunk_blocks :: "'u monotonic \<Rightarrow> addr list \<Rightarrow> ledger" where
  "chunk_blocks s cs = (\<lambda>c. (c, chunk_size (chunk_headers s c), HEADER_ALIGN)) ` set cs"

definition regions :: "'u monotonic \<Rightarrow> addr list \<Rightarrow> (addr \<times> nat) set" where
  "regions s cs = (if initial_buffer s \<noteq> 0 then {(initial_buffer s, initial_buffer_size s)} else {}) \<union>
     (\<lambda>c. (c + 16, chunk_size (chunk_headers s c) - 16)) ` set cs"

definition mono_lists :: "'u monotonic \<Rightarrow> addr list \<Rightarrow> bool" where
  "mono_lists s cs \<longleftrightarrow> path (\<lambda>c. next_chunk (chunk_headers s c)) (allocated_blocks_head s) cs 0 \<and> distinct cs \<and>
     (\<forall>c\<in>set cs. 16 \<le> chunk_size (chunk_headers s c) \<and> chunk_size (chunk_headers s c) < 18446744073709551616) \<and>
     (\<not> has_upstream s \<longrightarrow> cs = [])"

definition mono_upstream :: "('u \<Rightarrow> ledger \<Rightarrow> bool) \<Rightarrow> 'u monotonic \<Rightarrow> ledger \<Rightarrow> addr list \<Rightarrow> bool" where
  "mono_upstream ow s R cs \<longleftrightarrow> (has_upstream s \<longrightarrow>
     ow (upstream s) (R \<union> chunk_blocks s cs) \<and> fst ` R \<inter> set cs = {} \<and>
     (initial_buffer s \<noteq> 0 \<longrightarrow> (\<exists>al. (initial_buffer s, initial_buffer_size s, al) \<in> R)))"

definition mono_buffers :: "'u monotonic \<Rightarrow> addr list \<Rightarrow> bool" where
  "mono_buffers s cs \<longleftrightarrow> 0 < next_buffer_size s \<and> next_buffer_size s < 18446744073709551616 \<and>
     (initial_buffer s \<noteq> 0 \<longrightarrow> initial_buffer s < 18446744073709551616 \<and>
        initial_buffer s + initial_buffer_size s \<le> 18446744073709551616) \<and>
     (current_buffer s \<noteq> 0 \<longrightarrow> current_buffer s < 18446744073709551616 \<and>
        (\<exists>(q, m)\<in>regions s cs. q \<le> current_buffer s \<and> current_buffer s + current_buffer_size s \<le> q + m))"

definition mono_live :: "'u monotonic \<Rightarrow> ledger \<Rightarrow> addr list \<Rightarrow> bool" where
  "mono_live s L cs \<longleftrightarrow> ledger_sound L \<and> (\<forall>(p, b, a)\<in>L. 0 < b \<and>
     (\<exists>(q, m)\<in>regions s cs. q \<le> p \<and> p + b \<le> q + m) \<and>
     (current_buffer s \<noteq> 0 \<longrightarrow> apart p b (current_buffer s) (current_buffer_size s)))"

definition mono_inv :: "('u \<Rightarrow> ledger \<Rightarrow> bool) \<Rightarrow> 'u monotonic \<Rightarrow> ledger \<Rightarrow> ledger \<Rightarrow> addr list \<Rightarrow> bool" where
  "mono_inv ow s L R cs \<longleftrightarrow> mono_lists s cs \<and> mono_upstream ow s R cs \<and> mono_buffers s cs \<and> mono_live s L cs"

definition mono_owns :: "('u \<Rightarrow> ledger \<Rightarrow> bool) \<Rightarrow> ledger \<Rightarrow> 'u monotonic \<Rightarrow> ledger \<Rightarrow> bool" where
  "mono_owns ow R s L \<longleftrightarrow> (\<exists>cs. mono_inv ow s L R cs)"

lemma mono_invD:
  assumes "mono_inv ow s L R cs"
  shows "mono_lists s cs" "mono_upstream ow s R cs" "mono_buffers s cs" "mono_live s L cs"
  using assms by (simp_all add: mono_inv_def)

lemma mono_ownsI: "mono_inv ow s L R cs \<Longrightarrow> mono_owns ow R s L"
  unfolding mono_owns_def by blast

lemma mono_live_subset: "mono_live s L cs \<Longrightarrow> M \<subseteq> L \<Longrightarrow> mono_live s M cs"
  using ledger_sound_subset unfolding mono_live_def by blast

lemma pow2_test_alignment:
  assumes "\<not> (a = 0 \<or> and64 a (sub64 a 1) \<noteq> 0)" and "a < 18446744073709551616"
  obtains k where "a = 2 ^ k" "k < 64"
proof -
  have "pow2 a" using assms pow2_test_pow2 by (simp add: pow2_test_def)
  then obtain k where k: "a = 2 ^ k" by (auto simp: pow2_def)
  have "k < 64"
  proof (rule ccontr)
    assume "\<not> k < 64"
    then have "(2 :: nat) ^ 64 \<le> 2 ^ k" by (intro power_increasing) auto
    with k assms(2) show False by simp
  qed
  with k that show ?thesis by blast
qed

text \<open>Carving from the current buffer: the wrap-around of a huge alignment never fits.\<close>

lemma take_current_Some:
  assumes t: "take_current s b (2 ^ k) = Some (p, s')" and k: "k < 64" and b: "0 < b"
    and cur: "current_buffer s \<noteq> 0 \<longrightarrow> current_buffer s + current_buffer_size s \<le> 18446744073709551616 \<and>
       current_buffer s < 18446744073709551616"
  shows "current_buffer s \<le> p \<and> 2 ^ k dvd p \<and> p + b \<le> current_buffer s + current_buffer_size s \<and> current_buffer s \<noteq> 0 \<and>
    s' = s\<lparr>current_buffer := (p + b) mod 18446744073709551616, current_buffer_size := current_buffer s + current_buffer_size s - (p + b)\<rparr>"
proof -
  let ?c = "current_buffer s" and ?z = "current_buffer_size s" and ?r = "round_up (current_buffer s) (2 ^ k)"
  have c0: "?c \<noteq> 0" using t by (auto simp: take_current_def split: if_splits)
  have cz: "?c + ?z \<le> 18446744073709551616" "?c < 18446744073709551616" using cur c0 by simp_all
  define pad where "pad = sub64 (align_mask ?c (2 ^ k)) ?c"
  have T: "pad \<le> ?z" "b \<le> ?z - pad" "p = add64 ?c pad"
    "s' = s\<lparr>current_buffer := add64 ?c (add64 pad b), current_buffer_size := sub64 ?z (add64 pad b)\<rparr>"
    using t c0 by (auto simp: take_current_def pad_def Let_def split: if_splits)
  have rc: "?c \<le> ?r" "?r < ?c + 2 ^ k" using round_up_ge [of "2 ^ k" ?c] round_up_less [of "2 ^ k" ?c] by simp_all
  have k63: "(2 :: nat) ^ k \<le> 9223372036854775808" using power_increasing [of k 63 "2 :: nat"] k by simp
  have al: "align_mask ?c (2 ^ k) = ?r mod 18446744073709551616" by (rule align_mask_wrap [OF cz(2) k])
  have r: "?r < 18446744073709551616"
  proof (rule ccontr)
    assume "\<not> ?r < 18446744073709551616"
    have d: "(2 :: nat) ^ k dvd 18446744073709551616" using le_imp_power_dvd [of k 64 "2 :: nat"] k by simp
    have "?r \<le> 18446744073709551616" using round_up_mono_dvd [OF d] cz(2) by simp
    then have "?r = 18446744073709551616" using \<open>\<not> ?r < 18446744073709551616\<close> by simp
    then have "pad = 18446744073709551616 - ?c" using al c0 cz(2) by (simp add: pad_def sub64_def)
    then show False using T(1,2) b cz by simp
  qed
  then have pad: "pad = ?r - ?c" using al rc(1) by (simp add: pad_def sub64_exact)
  have zb: "?z < 18446744073709551616" using cz(1) c0 by linarith
  have e: "add64 ?c pad = ?r" "add64 pad b = pad + b" "pad + b \<le> ?z"
    using pad rc T(1,2) r zb b by (simp_all add: add64_exact)
  have cs: "sub64 ?z (add64 pad b) = ?z - (pad + b)" using e zb by (simp add: sub64_exact)
  have "?z - (pad + b) = ?c + ?z - (?r + b)" "add64 ?c (add64 pad b) = (?r + b) mod 18446744073709551616"
    using pad rc e by (simp_all add: add64_def)
  moreover have "?r + b \<le> ?c + ?z" using e(3) pad rc(1) by linarith
  ultimately show ?thesis using T(3,4) rc c0 cs e(1) by simp
qed

lemma regions_cong:
  "initial_buffer t = initial_buffer s \<Longrightarrow> initial_buffer_size t = initial_buffer_size s \<Longrightarrow>
   (\<And>c. c \<in> set cs \<Longrightarrow> chunk_headers t c = chunk_headers s c) \<Longrightarrow> regions t cs = regions s cs"
  by (simp add: regions_def cong: image_cong_simp)

lemma current_end:
  assumes "mono_buffers s cs" and "mono_upstream ow s R cs" and "mono_lists s cs"
    and sound: "has_upstream s \<Longrightarrow> ledger_sound (R \<union> chunk_blocks s cs)"
  shows "current_buffer s \<noteq> 0 \<longrightarrow> current_buffer s + current_buffer_size s \<le> 18446744073709551616 \<and>
    current_buffer s < 18446744073709551616"
proof
  assume c: "current_buffer s \<noteq> 0"
  then obtain q m where r: "(q, m) \<in> regions s cs" "q \<le> current_buffer s"
    "current_buffer s + current_buffer_size s \<le> q + m" "current_buffer s < 18446744073709551616"
    using assms(1) by (auto simp: mono_buffers_def)
  have "q + m \<le> 18446744073709551616"
  proof (cases "initial_buffer s \<noteq> 0 \<and> (q, m) = (initial_buffer s, initial_buffer_size s)")
    case True
    then show ?thesis using assms(1) by (simp add: mono_buffers_def)
  next
    case False
    then obtain d where d: "d \<in> set cs" "q = d + 16" "m = chunk_size (chunk_headers s d) - 16"
      using r(1) by (auto simp: regions_def split: if_splits)
    have "has_upstream s" using d(1) assms(3) by (auto simp: mono_lists_def)
    then have "block_sound (d, chunk_size (chunk_headers s d), HEADER_ALIGN)"
      using sound d(1) by (auto simp: ledger_sound_def chunk_blocks_def)
    then show ?thesis using d assms(3) by (auto simp: block_sound_def mono_lists_def)
  qed
  then show "current_buffer s + current_buffer_size s \<le> 18446744073709551616 \<and>
    current_buffer s < 18446744073709551616" using r by linarith
qed

text \<open>A block carved from the current buffer joins the ledger.\<close>

lemma carve_live:
  assumes live: "mono_live s L cs" and buf: "mono_buffers s cs" and c0: "current_buffer s \<noteq> 0"
    and p: "current_buffer s \<le> p" "p + b \<le> current_buffer s + current_buffer_size s" "0 < b" "pow2 a \<longrightarrow> a dvd p"
    and top: "current_buffer s + current_buffer_size s \<le> 18446744073709551616"
    and t: "t = s\<lparr>current_buffer := (p + b) mod 18446744073709551616,
      current_buffer_size := current_buffer s + current_buffer_size s - (p + b)\<rparr>"
  shows "mono_live t (insert (p, b, a) L) cs" and "mono_buffers t cs" and "p \<notin> fst ` L"
proof -
  let ?c = "current_buffer s" and ?z = "current_buffer_size s"
  have rg: "regions t cs = regions s cs" by (rule regions_cong) (simp_all add: t)
  have cur: "current_buffer t \<noteq> 0 \<Longrightarrow> current_buffer t = p + b \<and> current_buffer t + current_buffer_size t = ?c + ?z"
  proof -
    assume n: "current_buffer t \<noteq> 0"
    have "p + b < 18446744073709551616"
    proof (rule ccontr)
      assume "\<not> p + b < 18446744073709551616"
      then have "p + b = 18446744073709551616" using p top by simp
      then show False using n by (simp add: t)
    qed
    then show ?thesis using p by (simp add: t)
  qed
  have old: "apart q c ?c ?z" if "(q, c, d) \<in> L" for q c d
    using live c0 that by (auto simp: mono_live_def)
  have in_reg: "\<exists>(q, m)\<in>regions s cs. q \<le> ?c \<and> ?c + ?z \<le> q + m"
    using buf c0 by (auto simp: mono_buffers_def)
  then obtain q m where qm: "(q, m) \<in> regions s cs" "q \<le> ?c" "?c + ?z \<le> q + m" by blast
  have sep: "apart p b x y \<and> x \<noteq> p" if "(x, y, d) \<in> L" for x y d
  proof -
    have y0: "0 < y" using live that by (auto simp: mono_live_def)
    have "apart x y ?c ?z" using old [OF that] .
    then show ?thesis using p y0 by (auto simp: apart_def)
  qed
  show "p \<notin> fst ` L" using sep by force
  have "block_sound (p, b, a)" using p c0 top by (auto simp: block_sound_def)
  then have ls: "ledger_sound (insert (p, b, a) L)"
  proof (intro ledger_sound_insert)
    show "ledger_sound L" using live by (simp add: mono_live_def)
    fix y assume "y \<in> L"
    then show "clear_of (p, b, a) y" using sep by (cases y) (auto simp: clear_of_def)
  qed
  show "mono_live t (insert (p, b, a) L) cs" unfolding mono_live_def rg
  proof (intro conjI ballI, rule ls)
    fix x assume x: "x \<in> insert (p, b, a) L"
    obtain x1 x2 x3 where xx: "x = (x1, x2, x3)" by (cases x)
    have "0 < x2 \<and> (\<exists>(q, m)\<in>regions s cs. q \<le> x1 \<and> x1 + x2 \<le> q + m) \<and>
        (current_buffer t \<noteq> 0 \<longrightarrow> apart x1 x2 (current_buffer t) (current_buffer_size t))"
    proof (cases "x = (p, b, a)")
      case True
      then have "(\<exists>(q, m)\<in>regions s cs. q \<le> x1 \<and> x1 + x2 \<le> q + m)"
        using xx qm p by (intro bexI [of _ "(q, m)"]) auto
      moreover have "apart p b (p + b) (current_buffer_size t)" by (simp add: apart_def)
      ultimately show ?thesis using True xx p(3) cur by auto
    next
      case False
      then have m: "(x1, x2, x3) \<in> L" using x xx by auto
      have "apart x1 x2 (current_buffer t) (current_buffer_size t)" if n: "current_buffer t \<noteq> 0"
        using old [OF m] cur [OF n] p(1) by (auto simp: apart_def)
      then show ?thesis using m live by (auto simp: mono_live_def)
    qed
    then show "case x of (p, b, a) \<Rightarrow> 0 < b \<and> (\<exists>(q, m)\<in>regions s cs. q \<le> p \<and> p + b \<le> q + m) \<and>
        (current_buffer t \<noteq> 0 \<longrightarrow> apart p b (current_buffer t) (current_buffer_size t))" using xx by simp
  qed
  have "current_buffer t \<noteq> 0 \<Longrightarrow> \<exists>(q, m)\<in>regions s cs. q \<le> current_buffer t \<and>
      current_buffer t + current_buffer_size t \<le> q + m"
    using cur qm p(1) by (intro bexI [of _ "(q, m)"]) auto
  then show "mono_buffers t cs" using buf unfolding mono_buffers_def rg by (simp add: t)
qed

locale monotonic_over = up: memory_resource al de ow
  for al :: "'u allocate_fn" and de :: "'u deallocate_fn" and ow :: "'u \<Rightarrow> ledger \<Rightarrow> bool" +
  fixes R :: ledger
begin

lemma up_sound: "mono_inv ow s L R cs \<Longrightarrow> has_upstream s \<Longrightarrow> ledger_sound (R \<union> chunk_blocks s cs)"
  using mono_invD(2) up.owns_sound unfolding mono_upstream_def by blast

lemma take_current_inv:
  assumes inv: "mono_inv ow s L R cs" and t: "take_current s b (2 ^ k) = Some (p, s')" and k: "k < 64" and b: "0 < b"
    and a: "a = 2 ^ k"
  shows "p \<notin> fst ` L \<and> mono_inv ow s' (insert (p, b, a) L) R cs"
proof -
  have ce: "current_buffer s \<noteq> 0 \<longrightarrow> current_buffer s + current_buffer_size s \<le> 18446744073709551616 \<and>
    current_buffer s < 18446744073709551616"
    using current_end [OF mono_invD(3,2,1) [OF inv]] up_sound [OF inv] by blast
  note T = take_current_Some [OF t k b ce]
  have C: "mono_live s' (insert (p, b, a) L) cs" "mono_buffers s' cs" "p \<notin> fst ` L"
    using carve_live [OF mono_invD(4,3) [OF inv], of p b a s'] T ce b a by auto
  have "mono_lists s' cs = mono_lists s cs" "mono_upstream ow s' R cs = mono_upstream ow s R cs"
    using T by (auto simp: mono_lists_def mono_upstream_def chunk_blocks_def)
  then show ?thesis using C mono_invD(1,2) [OF inv] by (simp add: mono_inv_def)
qed

lemma fetch_inv:
  assumes inv: "mono_inv ow s L R cs" and up: "has_upstream s" and k: "a = 2 ^ k" and b0: "0 < b"
    and ba: "b \<le> SIZE_MAX div 4" "a \<le> SIZE_MAX div 4" and cpu: "c < 4294967296"
  shows "\<exists>r t. fetch al c s b a = Some (r, t) \<and> (case r of None \<Rightarrow> mono_inv ow t L R cs
    | Some p \<Rightarrow> p \<notin> fst ` L \<and> (\<exists>d. mono_inv ow t (insert (p, b, a) L) R (d # cs)))"
proof -
  have a61: "a \<le> 2305843009213693952"
  proof -
    have "(2 :: nat) ^ k < 2 ^ 62" using ba(2) k by (simp add: SIZE_MAX_def)
    then have "k < 62" by (rule power_less_imp_less_exp [rotated]) simp
    then show ?thesis using power_increasing [of k 61 "2 :: nat"] k by simp
  qed
  have b62: "b \<le> 4611686018427387903" using ba(1) by (simp add: SIZE_MAX_def)
  have req: "add64 (add64 b HEADER_SIZE) a = b + 16 + a"
    using a61 b62 by (simp add: HEADER_SIZE_def add64_exact)
  have nbs: "0 < next_buffer_size s" "next_buffer_size s < 18446744073709551616"
    using mono_invD(3) [OF inv] by (simp_all add: mono_buffers_def)
  obtain m where m: "grow (next_buffer_size s) (b + 16 + a) = Some m" "b + 16 + a \<le> m" "m < 18446744073709551616"
    using grow_enough [OF nbs, of "b + 16 + a"] a61 b62 by auto
  have own: "ow (upstream s) (R \<union> chunk_blocks s cs)" and RC: "fst ` R \<inter> set cs = {}"
    and ib: "initial_buffer s \<noteq> 0 \<longrightarrow> (\<exists>al. (initial_buffer s, initial_buffer_size s, al) \<in> R)"
    using mono_invD(2) [OF inv] up by (simp_all add: mono_upstream_def)
  have arg: "arg_ok c m HEADER_ALIGN" using cpu m(3) by (simp add: arg_ok_def HEADER_ALIGN_def)
  obtain r u where call: "al c (upstream s) m HEADER_ALIGN = Some (r, u)"
    using up.alloc_returns [OF own arg] by fastforce
  show ?thesis
  proof (cases r)
    case None
    let ?t = "s\<lparr>upstream := u\<rparr>"
    have "ow u (R \<union> chunk_blocks s cs)" using up.alloc_null [OF own arg] call None by simp
    moreover have rg: "regions ?t cs = regions s cs" by (rule regions_cong) simp_all
    ultimately have "mono_inv ow ?t L R cs" using inv RC ib up
      by (simp add: mono_inv_def mono_lists_def mono_upstream_def mono_buffers_def mono_live_def chunk_blocks_def)
    then show ?thesis using call None m(1) nbs by (simp add: fetch_def req Let_def)
  next
    case (Some d)
    have new: "d \<notin> fst ` (R \<union> chunk_blocks s cs)"
      and own': "ow u (insert (d, m, HEADER_ALIGN) (R \<union> chunk_blocks s cs))"
      using up.alloc_some [OF own arg] call Some by auto
    have sound: "ledger_sound (insert (d, m, HEADER_ALIGN) (R \<union> chunk_blocks s cs))"
      using up.owns_sound [OF own'] .
    have dm: "d \<noteq> 0" "d + m \<le> 18446744073709551616"
      using sound by (auto simp: ledger_sound_def block_sound_def)
    have fstc: "fst ` chunk_blocks s cs = set cs" by (force simp: chunk_blocks_def)
    have dcs: "d \<notin> set cs" using new fstc by auto
    let ?n2 = "if m \<le> SIZE_MAX div 4 then mul64 m 2 else m"
    have n2: "0 < ?n2" "?n2 < 18446744073709551616"
      using m(2,3) b0 by (auto simp: SIZE_MAX_def mul64_exact)
    let ?bs = "d + 16"
    have bs: "add64 d HEADER_SIZE = ?bs" using dm m(2) b0 by (simp add: HEADER_SIZE_def add64_exact)
    let ?p = "round_up ?bs a"
    have a0: "0 < a" using k by simp
    have rp: "?bs \<le> ?p" "?p < ?bs + a" "a dvd ?p" using round_up_ge [OF a0] round_up_less [OF a0] by auto
    have al: "align_mask ?bs a = ?p" using align_mask_round_up [of ?bs k] dm(2) m(2) k b0 by simp
    have pad: "sub64 ?p ?bs = ?p - ?bs" using rp dm m(2) by (simp add: sub64_exact)
    have fit: "?p + b < d + m" using rp(2) m(2) by linarith
    have us: "sub64 m HEADER_SIZE = m - 16" using m by (simp add: HEADER_SIZE_def sub64_exact)
    have z: "sub64 (sub64 (m - 16) (?p - ?bs)) b = d + m - (?p + b)"
      using fit rp m(3) by (simp add: sub64_exact)
    have cu: "add64 (add64 ?bs (?p - ?bs)) b = ?p + b" using fit rp(1) dm(2) by (simp add: add64_exact)
    let ?s1 = "s\<lparr>upstream := u, next_buffer_size := ?n2, chunk_headers := (chunk_headers s)(d :=
        \<lparr>chunk_size = m, next_chunk = allocated_blocks_head s\<rparr>), allocated_blocks_head := d,
        current_buffer := ?bs, current_buffer_size := m - 16\<rparr>"
    let ?t = "?s1\<lparr>current_buffer := ?p + b, current_buffer_size := d + m - (?p + b)\<rparr>"
    have f: "fetch al c s b a = Some (Some ?p, ?t)"
      using call Some m(1) nbs by (simp add: fetch_def req Let_def bs al pad us z cu)
    have rg: "regions ?s1 (d # cs) = insert (d + 16, m - 16) (regions s cs)"
      using dcs by (auto simp: regions_def)
    have cb: "chunk_blocks ?s1 (d # cs) = insert (d, m, HEADER_ALIGN) (chunk_blocks s cs)"
      using dcs by (auto simp: chunk_blocks_def)
    have lists: "mono_lists ?s1 (d # cs)"
    proof -
      have "path (\<lambda>c. next_chunk (chunk_headers ?s1 c)) (allocated_blocks_head s) cs 0"
        by (rule path_cong [of "\<lambda>c. next_chunk (chunk_headers s c)"])
          (use mono_invD(1) [OF inv] dcs in \<open>auto simp: mono_lists_def\<close>)
      then show ?thesis using mono_invD(1) [OF inv] dcs dm m up by (auto simp: mono_lists_def)
    qed
    have ups: "mono_upstream ow ?s1 R (d # cs)"
      using own' RC new ib cb by (auto simp: mono_upstream_def insert_commute)
    have bufs: "mono_buffers ?s1 (d # cs)"
      using mono_invD(3) [OF inv] n2 dm m(2) b0 unfolding mono_buffers_def rg by auto
    have away: "apart x y (d + 16) (m - 16)" if x: "(x, y, z) \<in> L" for x y z
    proof -
      obtain q n where qn: "(q, n) \<in> regions s cs" "q \<le> x" "x + y \<le> q + n"
        using mono_invD(4) [OF inv] x by (auto simp: mono_live_def)
      have "\<exists>q' n' al'. (q', n', al') \<in> R \<union> chunk_blocks s cs \<and> q' \<le> q \<and> q + n \<le> q' + n'"
      proof (cases "initial_buffer s \<noteq> 0 \<and> (q, n) = (initial_buffer s, initial_buffer_size s)")
        case True
        then show ?thesis using ib by auto
      next
        case False
        then obtain e where e: "e \<in> set cs" "q = e + 16" "n = chunk_size (chunk_headers s e) - 16"
          using qn(1) by (auto simp: regions_def split: if_splits)
        then have "(e, chunk_size (chunk_headers s e), HEADER_ALIGN) \<in> R \<union> chunk_blocks s cs"
          by (auto simp: chunk_blocks_def)
        moreover have "16 \<le> chunk_size (chunk_headers s e)"
          using e(1) mono_invD(1) [OF inv] by (simp add: mono_lists_def)
        ultimately show ?thesis using e by (intro exI conjI) auto
      qed
      then obtain q' n' al' where w: "(q', n', al') \<in> R \<union> chunk_blocks s cs" "q' \<le> q" "q + n \<le> q' + n'" by blast
      have "q' \<noteq> d" using w(1) new by force
      then have "apart d m q' n'" using ledger_sound_apart [OF sound, of d m HEADER_ALIGN q' n' al'] w(1) by blast
      then show ?thesis using w qn m(2) by (auto simp: apart_def)
    qed
    have live: "mono_live ?s1 L (d # cs)" unfolding mono_live_def rg
    proof (intro conjI ballI)
      show "ledger_sound L" using mono_invD(4) [OF inv] by (simp add: mono_live_def)
      fix x assume x: "x \<in> L"
      obtain x1 x2 x3 where xx: "x = (x1, x2, x3)" by (cases x)
      have o: "0 < x2" "\<exists>(q, m)\<in>regions s cs. q \<le> x1 \<and> x1 + x2 \<le> q + m"
        using mono_invD(4) [OF inv] x xx by (auto simp: mono_live_def)
      have "apart x1 x2 (d + 16) (m - 16)" using away x xx by blast
      then show "case x of (p, b, a) \<Rightarrow> 0 < b \<and> (\<exists>(q, m)\<in>insert (d + 16, m - 16) (regions s cs). q \<le> p \<and> p + b \<le> q + m) \<and>
          (current_buffer ?s1 \<noteq> 0 \<longrightarrow> apart p b (current_buffer ?s1) (current_buffer_size ?s1))"
        using o xx by auto
    qed
    have e1: "current_buffer ?s1 + current_buffer_size ?s1 = d + m" using m(2) by simp
    have mod: "(?p + b) mod 18446744073709551616 = ?p + b" using fit dm(2) by simp
    have tt: "?t = ?s1\<lparr>current_buffer := (?p + b) mod 18446744073709551616,
        current_buffer_size := current_buffer ?s1 + current_buffer_size ?s1 - (?p + b)\<rparr>"
      unfolding mod e1 by simp
    have C: "mono_live ?t (insert (?p, b, a) L) (d # cs)" "mono_buffers ?t (d # cs)" "?p \<notin> fst ` L"
      using carve_live [OF live bufs _ _ _ b0 _ _ tt, where a = a] e1 fit rp dm
      by (simp_all del: One_nat_def)
    have "mono_lists ?t (d # cs) = mono_lists ?s1 (d # cs)"
      "mono_upstream ow ?t R (d # cs) = mono_upstream ow ?s1 R (d # cs)"
      by (simp_all add: mono_lists_def mono_upstream_def chunk_blocks_def)
    then have "mono_inv ow ?t (insert (?p, b, a) L) R (d # cs)" using C lists ups by (simp add: mono_inv_def)
    then show ?thesis using f C(3) by auto
  qed
qed

lemma allocate_inv:
  assumes own: "mono_owns ow R s L" and arg: "arg_ok c b a"
  shows "\<exists>r t. mono_do_allocate al c s b a = Some (r, t) \<and> (case r of None \<Rightarrow> mono_owns ow R t L
    | Some p \<Rightarrow> p \<notin> fst ` L \<and> mono_owns ow R t (insert (p, b, a) L))"
proof (cases "b = 0 \<or> (a = 0 \<or> and64 a (sub64 a 1) \<noteq> 0)")
  case True
  then show ?thesis using own by (auto simp: mono_do_allocate_def)
next
  case False
  obtain cs where inv: "mono_inv ow s L R cs" using own by (auto simp: mono_owns_def)
  obtain k where k: "a = 2 ^ k" "k < 64"
    using pow2_test_alignment [of a] False arg by (auto simp: arg_ok_def)
  have b0: "0 < b" using False by simp
  show ?thesis
  proof (cases "take_current s b a")
    case (Some x)
    then obtain p s' where x: "take_current s b a = Some (p, s')" by (cases x) auto
    then have "p \<notin> fst ` L \<and> mono_inv ow s' (insert (p, b, a) L) R cs"
      using take_current_inv [OF inv _ k(2) b0 k(1)] k(1) by simp
    then show ?thesis using x False by (auto simp: mono_do_allocate_def intro: mono_ownsI)
  next
    case None
    show ?thesis
    proof (cases "\<not> has_upstream s \<or> b > SIZE_MAX div 4 \<or> a > SIZE_MAX div 4")
      case True
      then show ?thesis using own None False by (auto simp: mono_do_allocate_def)
    next
      case go: False
      then have g: "has_upstream s" "b \<le> SIZE_MAX div 4" "a \<le> SIZE_MAX div 4" by simp_all
      have "c < 4294967296" using arg by (simp add: arg_ok_def)
      from fetch_inv [OF inv g(1) k(1) b0 g(2,3) this]
      obtain r t where f: "fetch al c s b a = Some (r, t)" "case r of None \<Rightarrow> mono_inv ow t L R cs
        | Some p \<Rightarrow> p \<notin> fst ` L \<and> (\<exists>d. mono_inv ow t (insert (p, b, a) L) R (d # cs))" by blast
      have "mono_do_allocate al c s b a = fetch al c s b a"
        using None False g by (simp add: mono_do_allocate_def)
      then show ?thesis using f by (cases r) (auto intro: mono_ownsI)
    qed
  qed
qed

lemma release_loop_owns:
  assumes "path (\<lambda>c. next_chunk (chunk_headers s c)) p cs 0" and "distinct cs" and "has_upstream s"
    and "ow (upstream s) (R \<union> chunk_blocks s cs)" and "fst ` R \<inter> set cs = {}" and "c < 4294967296"
    and "\<forall>d\<in>set cs. chunk_size (chunk_headers s d) < 18446744073709551616"
  shows "\<exists>u. release_loop de c p s = Some (s\<lparr>upstream := u\<rparr>) \<and> ow u R"
  using assms
proof (induction cs arbitrary: p s)
  case Nil
  then show ?case by (auto simp: release_loop.simps chunk_blocks_def intro!: exI [of _ "upstream s"])
next
  case (Cons d cs)
  let ?x = "(d, chunk_size (chunk_headers s d), HEADER_ALIGN)"
  have mem: "?x \<in> R \<union> chunk_blocks s (d # cs)" by (simp add: chunk_blocks_def)
  have arg: "arg_ok c (chunk_size (chunk_headers s d)) HEADER_ALIGN"
    using Cons.prems by (simp add: arg_ok_def HEADER_ALIGN_def)
  obtain u where u: "de c (upstream s) d (chunk_size (chunk_headers s d)) HEADER_ALIGN = Some u"
    and ou: "ow u (R \<union> chunk_blocks s (d # cs) - {?x})"
    using up.dealloc_returns [OF Cons.prems(4) arg mem] by blast
  have rest: "R \<union> chunk_blocks s (d # cs) - {?x} = R \<union> chunk_blocks s cs"
    using Cons.prems(2,5) by (force simp: chunk_blocks_def)
  let ?s = "s\<lparr>upstream := u\<rparr>"
  have "chunk_blocks ?s cs = chunk_blocks s cs" by (simp add: chunk_blocks_def)
  then have "\<exists>v. release_loop de c (next_chunk (chunk_headers s d)) ?s = Some (?s\<lparr>upstream := v\<rparr>) \<and> ow v R"
    using Cons.prems ou rest by (intro Cons.IH) simp_all
  then obtain v where v: "release_loop de c (next_chunk (chunk_headers s d)) ?s = Some (s\<lparr>upstream := v\<rparr>)" "ow v R"
    by auto
  have "release_loop de c p s = release_loop de c (next_chunk (chunk_headers s d)) ?s"
    using Cons.prems(1,3) u by (subst release_loop.simps) simp
  then show ?case using v by auto
qed

lemma release_inv:
  assumes inv: "mono_inv ow s L R cs" and cpu: "c < 4294967296"
  shows "\<exists>t. release de c s = Some t \<and> mono_inv ow t {} R [] \<and> (has_upstream s \<longrightarrow> ow (upstream t) R) \<and>
    current_buffer t = initial_buffer s \<and> current_buffer_size t = initial_buffer_size s"
proof -
  have p: "path (\<lambda>c. next_chunk (chunk_headers s c)) (allocated_blocks_head s) cs 0" "distinct cs"
    "\<forall>d\<in>set cs. chunk_size (chunk_headers s d) < 18446744073709551616"
    using mono_invD(1) [OF inv] by (simp_all add: mono_lists_def)
  have "\<exists>u. release_loop de c (allocated_blocks_head s) s = Some (s\<lparr>upstream := u\<rparr>) \<and> (has_upstream s \<longrightarrow> ow u R)"
  proof (cases "has_upstream s")
    case True
    then have "ow (upstream s) (R \<union> chunk_blocks s cs)" "fst ` R \<inter> set cs = {}"
      using mono_invD(2) [OF inv] by (simp_all add: mono_upstream_def)
    from release_loop_owns [OF p(1,2) True this cpu p(3)] show ?thesis by blast
  next
    case False
    then have "allocated_blocks_head s = 0" using p(1) mono_invD(1) [OF inv] by (auto simp: mono_lists_def)
    then show ?thesis using False by (auto simp: release_loop.simps intro!: exI [of _ "upstream s"])
  qed
  then obtain u where u: "release_loop de c (allocated_blocks_head s) s = Some (s\<lparr>upstream := u\<rparr>)"
    "has_upstream s \<longrightarrow> ow u R" by blast
  let ?t = "s\<lparr>upstream := u, allocated_blocks_head := 0, current_buffer := initial_buffer s,
      current_buffer_size := initial_buffer_size s\<rparr>"
  have r: "release de c s = Some ?t" using u by (simp add: release_def)
  have "mono_lists ?t []" by (simp add: mono_lists_def)
  moreover have "mono_upstream ow ?t R []"
    using mono_invD(2) [OF inv] u(2) by (auto simp: mono_upstream_def chunk_blocks_def)
  moreover have "mono_buffers ?t []"
    using mono_invD(3) [OF inv] by (auto simp: mono_buffers_def regions_def)
  moreover have "mono_live ?t {} []" by (simp add: mono_live_def)
  ultimately show ?thesis using r u by (auto simp: mono_inv_def)
qed

end

lemma mono_owns_sound: "mono_owns ow R s L \<Longrightarrow> ledger_sound L"
  by (auto simp: mono_owns_def mono_inv_def mono_live_def)

lemma mono_deallocate_owns:
  "mono_owns ow R s L \<Longrightarrow> \<exists>t. mono_do_deallocate c s p b a = Some t \<and> mono_owns ow R t (L - {x})"
  unfolding mono_do_deallocate_def mono_owns_def mono_inv_def using mono_live_subset [of s L _ "L - {x}"] by blast

sublocale monotonic_over \<subseteq> mono: memory_resource "mono_do_allocate al" mono_do_deallocate "mono_owns ow R"
proof
  fix s :: "'u monotonic" and L :: ledger and c b a :: nat and p s'
  assume own: "mono_owns ow R s L"
  show "ledger_sound L" using own by (rule mono_owns_sound)
  assume arg: "arg_ok c b a"
  note call = allocate_inv [OF own arg]
  show "mono_do_allocate al c s b a \<noteq> None" using call by auto
  show "mono_do_allocate al c s b a = Some (Some p, s') \<Longrightarrow> p \<notin> fst ` L \<and> mono_owns ow R s' (insert (p, b, a) L)"
    using call by auto
  show "mono_do_allocate al c s b a = Some (None, s') \<Longrightarrow> mono_owns ow R s' L" using call by auto
  show "\<exists>s'. mono_do_deallocate c s p b a = Some s' \<and> mono_owns ow R s' (L - {(p, b, a)})" for p
    by (rule mono_deallocate_owns [OF own])
qed

lemma mono_allocate_has_upstream:
  "mono_do_allocate al c s b a = Some (r, t) \<Longrightarrow> has_upstream t = has_upstream s"
  by (auto simp: mono_do_allocate_def take_current_def fetch_def Let_def split: if_splits option.splits)

section \<open>Fresh resources\<close>

lemma monotonic_initial_size_inv:
  assumes "present \<longrightarrow> ow u {}" and "n < 18446744073709551616"
  shows "mono_inv ow (monotonic_initial_size mem n present u) {} {} []"
    and "monotonic_upstream_only mem present u = monotonic_initial_size mem 1024 present u"
  using assms
  by (auto simp: mono_inv_def mono_lists_def mono_upstream_def mono_buffers_def mono_live_def chunk_blocks_def
      monotonic_initial_size_def monotonic_upstream_only_def)

text \<open>The initial buffer is a block the upstream handed out, or there is no upstream.\<close>

lemma monotonic_buffer_inv:
  assumes "present \<longrightarrow> ow u {(q, n, a)}" and "0 < q" and "q < 18446744073709551616" and "q + n \<le> 18446744073709551616"
  shows "mono_inv ow (monotonic_buffer mem q n present u) {} (if present then {(q, n, a)} else {}) []"
  using assms
  by (auto simp: mono_inv_def mono_lists_def mono_upstream_def mono_buffers_def mono_live_def chunk_blocks_def
      monotonic_buffer_def regions_def)

end
