(* ===== verification/Wrappers.thy ===== *)
theory Wrappers
  imports Memory_Resource
begin

text \<open>
  The resources that forward to another allocator: \<^verbatim>\<open>tracking_memory_resource\<close>,
  \<^verbatim>\<open>malloc_free_wrapper_memory_resource\<close> and \<^verbatim>\<open>polymorphic_allocator\<close>
  (files of the same names under \<^verbatim>\<open>include/__memory_resource/\<close>).  What they forward to is a
  parameter: the virtual functions of a resource, or the C library's \<^verbatim>\<open>malloc\<close> and \<^verbatim>\<open>free\<close>.
\<close>

section \<open>tracking_memory_resource\<close>

record 'u tracking =
  tracked :: 'u
  bytes_in_use :: nat
  total_bytes_allocated :: nat
  allocation_count :: nat
  deallocation_count :: nat

definition tracking_memory_resource :: "'u \<Rightarrow> 'u tracking" where
  "tracking_memory_resource u = \<lparr>tracked = u, bytes_in_use = 0, total_bytes_allocated = 0,
     allocation_count = 0, deallocation_count = 0\<rparr>"

definition tracking_do_allocate :: "'u allocate_fn \<Rightarrow> 'u tracking allocate_fn" where
  "tracking_do_allocate al cpu s bytes alignment =
     (case al cpu (tracked s) bytes alignment of
        None \<Rightarrow> None
      | Some (None, u) \<Rightarrow> Some (None, s\<lparr>tracked := u\<rparr>)
      | Some (Some p, u) \<Rightarrow> Some (Some p, s\<lparr>tracked := u, bytes_in_use := add64 (bytes_in_use s) bytes,
          total_bytes_allocated := add64 (total_bytes_allocated s) bytes,
          allocation_count := add64 (allocation_count s) 1\<rparr>))"

definition tracking_do_deallocate :: "'u deallocate_fn \<Rightarrow> 'u tracking deallocate_fn" where
  "tracking_do_deallocate de cpu s p bytes alignment =
     (if p = 0 then Some s
      else case de cpu (tracked s) p bytes alignment of
        None \<Rightarrow> None
      | Some u \<Rightarrow> Some (s\<lparr>tracked := u, bytes_in_use := sub64 (bytes_in_use s) bytes,
          deallocation_count := add64 (deallocation_count s) 1\<rparr>))"

text \<open>The balance: the bytes outstanding are those of the blocks the clients hold.\<close>

definition tracking_owns :: "('u \<Rightarrow> ledger \<Rightarrow> bool) \<Rightarrow> 'u tracking \<Rightarrow> ledger \<Rightarrow> bool" where
  "tracking_owns ow s L \<longleftrightarrow> ow (tracked s) L \<and> finite L \<and>
     bytes_in_use s = (\<Sum>(p, b, a)\<in>L. b) mod 18446744073709551616 \<and>
     sub64 (allocation_count s) (deallocation_count s) = card L mod 18446744073709551616 \<and>
     allocation_count s < 18446744073709551616 \<and> deallocation_count s < 18446744073709551616"

lemma sub64_cong:
  assumes "x < 18446744073709551616" and "y < 18446744073709551616" and "sub64 x y = n mod 18446744073709551616"
  shows "sub64 (add64 x 1) y = (n + 1) mod 18446744073709551616"
    and "0 < n \<Longrightarrow> sub64 x (add64 y 1) = (n - 1) mod 18446744073709551616"
proof -
  let ?M = "18446744073709551616 :: int"
  have i: "int (sub64 a b) = (int a - int b) mod ?M" if "b < 18446744073709551616" for a b
  proof -
    have "int (sub64 a b) = (int a + (?M - int b)) mod ?M" using that
      by (simp add: sub64_def of_nat_mod of_nat_diff add_diff_eq)
    also have "\<dots> = (int a - int b + ?M) mod ?M" by (simp add: algebra_simps)
    finally show ?thesis by simp
  qed
  have eq: "(int x - int y) mod ?M = int n mod ?M" using assms(3) i [OF assms(2), of x] by (simp add: of_nat_mod)
  have "int (sub64 (add64 x 1) y) = ((int x + 1) mod ?M - int y) mod ?M"
    by (simp add: i [OF assms(2)] add64_def of_nat_mod add.commute)
  also have "\<dots> = (int x + 1 - int y) mod ?M" by (rule mod_diff_left_eq)
  also have "int x + 1 - int y = (int x - int y) + 1" by simp
  also have "((int x - int y) + 1) mod ?M = (int n + 1) mod ?M" using eq by (rule mod_add_cong) simp
  finally have "int (sub64 (add64 x 1) y) = int ((n + 1) mod 18446744073709551616)"
    by (simp add: of_nat_mod add.commute)
  then show "sub64 (add64 x 1) y = (n + 1) mod 18446744073709551616" by (simp only: of_nat_eq_iff)
  assume n: "0 < n"
  have "int (sub64 x (add64 y 1)) = (int x - (int y + 1) mod ?M) mod ?M"
    using i [OF add64_bound, of x y 1] by (simp add: add64_def of_nat_mod add.commute)
  also have "\<dots> = (int x - (int y + 1)) mod ?M" by (rule mod_diff_right_eq)
  also have "int x - (int y + 1) = (int x - int y) - 1" by simp
  also have "((int x - int y) - 1) mod ?M = (int n - 1) mod ?M" using eq by (rule mod_diff_cong) simp
  finally have "int (sub64 x (add64 y 1)) = int ((n - 1) mod 18446744073709551616)"
    using n by (simp add: of_nat_mod of_nat_diff)
  then show "sub64 x (add64 y 1) = (n - 1) mod 18446744073709551616" by (simp only: of_nat_eq_iff)
qed

locale tracking_over = up: memory_resource al de ow
  for al :: "'u allocate_fn" and de :: "'u deallocate_fn" and ow :: "'u \<Rightarrow> ledger \<Rightarrow> bool"
begin

lemma tracking_allocate:
  assumes own: "tracking_owns ow s L" and arg: "arg_ok c b a"
  shows "\<exists>r t. tracking_do_allocate al c s b a = Some (r, t) \<and> (case r of None \<Rightarrow> tracking_owns ow t L
    | Some p \<Rightarrow> p \<notin> fst ` L \<and> tracking_owns ow t (insert (p, b, a) L))"
proof -
  have up: "ow (tracked s) L" using own by (simp add: tracking_owns_def)
  obtain r u where call: "al c (tracked s) b a = Some (r, u)" using up.alloc_returns [OF up arg] by fastforce
  show ?thesis
  proof (cases r)
    case None
    then have "ow u L" using up.alloc_null [OF up arg] call by simp
    then show ?thesis using call None own by (simp add: tracking_do_allocate_def tracking_owns_def)
  next
    case (Some p)
    then have new: "p \<notin> fst ` L" and own': "ow u (insert (p, b, a) L)" using up.alloc_some [OF up arg] call by auto
    have "(p, b, a) \<notin> L" using new by force
    then have "tracking_owns ow (s\<lparr>tracked := u, bytes_in_use := add64 (bytes_in_use s) b,
        total_bytes_allocated := add64 (total_bytes_allocated s) b,
        allocation_count := add64 (allocation_count s) 1\<rparr>) (insert (p, b, a) L)"
      using own own' sub64_cong(1) [of "allocation_count s" "deallocation_count s" "card L"]
      by (simp add: tracking_owns_def add64_def mod_add_left_eq mod_add_right_eq add.commute)
    then show ?thesis using call Some new by (simp add: tracking_do_allocate_def)
  qed
qed

lemma tracking_deallocate:
  assumes own: "tracking_owns ow s L" and arg: "arg_ok c b a" and m: "(p, b, a) \<in> L"
  shows "\<exists>t. tracking_do_deallocate de c s p b a = Some t \<and> tracking_owns ow t (L - {(p, b, a)})"
proof -
  have up: "ow (tracked s) L" and fin: "finite L" using own by (simp_all add: tracking_owns_def)
  obtain u where u: "de c (tracked s) p b a = Some u" "ow u (L - {(p, b, a)})"
    using up.dealloc_returns [OF up arg m] by blast
  have p0: "p \<noteq> 0" using up.owns_sound [OF up] m by (auto simp: ledger_sound_def block_sound_def)
  let ?L = "L - {(p, b, a)}"
  have sum: "(\<Sum>(p, b, a)\<in>L. b) = (\<Sum>(p, b, a)\<in>?L. b) + b"
    using sum.remove [OF fin m, of "\<lambda>(p, b, a). b"] by simp
  have b64: "b < 18446744073709551616" using arg by (simp add: arg_ok_def)
  have "sub64 ((\<Sum>(p, b, a)\<in>L. b) mod 18446744073709551616) b = (\<Sum>(p, b, a)\<in>?L. b) mod 18446744073709551616"
  proof -
    have "sub64 ((\<Sum>(p, b, a)\<in>L. b) mod 18446744073709551616) b
      = ((\<Sum>(p, b, a)\<in>L. b) mod 18446744073709551616 + (18446744073709551616 - b)) mod 18446744073709551616"
      using b64 by (simp add: sub64_def)
    also have "\<dots> = ((\<Sum>(p, b, a)\<in>L. b) + (18446744073709551616 - b)) mod 18446744073709551616"
      by (rule mod_add_left_eq)
    also have "(\<Sum>(p, b, a)\<in>L. b) + (18446744073709551616 - b) = (\<Sum>(p, b, a)\<in>?L. b) + 18446744073709551616"
      unfolding sum using b64 by simp
    finally show ?thesis by simp
  qed
  moreover have "sub64 (allocation_count s) (add64 (deallocation_count s) 1) = card ?L mod 18446744073709551616"
    using own sub64_cong(2) [of "allocation_count s" "deallocation_count s" "card L"] fin m
    by (auto simp: tracking_owns_def card_gt_0_iff)
  ultimately have "tracking_owns ow (s\<lparr>tracked := u, bytes_in_use := sub64 (bytes_in_use s) b,
      deallocation_count := add64 (deallocation_count s) 1\<rparr>) ?L"
    using own u(2) add64_bound by (simp add: tracking_owns_def)
  then show ?thesis using u(1) p0 by (simp add: tracking_do_deallocate_def)
qed

lemma tracking_fresh: "ow u {} \<Longrightarrow> tracking_owns ow (tracking_memory_resource u) {}"
  by (simp add: tracking_owns_def tracking_memory_resource_def sub64_def)

end

sublocale tracking_over \<subseteq> tracking: memory_resource "tracking_do_allocate al" "tracking_do_deallocate de" "tracking_owns ow"
proof
  fix s :: "'u tracking" and L :: ledger and c b a :: nat and p s'
  assume own: "tracking_owns ow s L"
  have "ow (tracked s) L" using own by (simp add: tracking_owns_def)
  then show "ledger_sound L" by (rule up.owns_sound)
  assume arg: "arg_ok c b a"
  note call = tracking_allocate [OF own arg]
  show "tracking_do_allocate al c s b a \<noteq> None" using call by auto
  show "tracking_do_allocate al c s b a = Some (Some p, s') \<Longrightarrow> p \<notin> fst ` L \<and> tracking_owns ow s' (insert (p, b, a) L)"
    using call by auto
  show "tracking_do_allocate al c s b a = Some (None, s') \<Longrightarrow> tracking_owns ow s' L" using call by auto
  show "(p, b, a) \<in> L \<Longrightarrow> \<exists>s'. tracking_do_deallocate de c s p b a = Some s' \<and> tracking_owns ow s' (L - {(p, b, a)})" for p
    by (rule tracking_deallocate [OF own arg])
qed

section \<open>polymorphic_allocator\<close>

text \<open>The element type is a parameter: its size and its alignment.\<close>

definition max_size :: "nat \<Rightarrow> nat" where
  "max_size element_size = SIZE_MAX div element_size"

definition pa_allocate :: "'u allocate_fn \<Rightarrow> nat \<Rightarrow> nat \<Rightarrow> nat \<Rightarrow> 'u \<Rightarrow> nat \<Rightarrow> (addr option \<times> 'u) option" where
  "pa_allocate al element_size element_align cpu u num_elements =
     (if num_elements > max_size element_size then Some (None, u)
      else al cpu u (mul64 num_elements element_size) element_align)"

definition pa_deallocate :: "'u deallocate_fn \<Rightarrow> nat \<Rightarrow> nat \<Rightarrow> nat \<Rightarrow> 'u \<Rightarrow> addr \<Rightarrow> nat \<Rightarrow> 'u option" where
  "pa_deallocate de element_size element_align cpu u ptr num_elements =
     de cpu u ptr (mul64 num_elements element_size) element_align"

lemma pa_no_overflow:
  assumes "num \<le> max_size sz" and "0 < sz"
  shows "mul64 num sz = num * sz"
proof -
  have "num * sz \<le> SIZE_MAX div sz * sz" using assms by (simp add: max_size_def)
  also have "\<dots> \<le> SIZE_MAX" by simp
  finally show ?thesis by (simp add: SIZE_MAX_def mul64_exact)
qed

section \<open>malloc_free_wrapper_memory_resource\<close>

text \<open>
  The C heap as a locale: \<open>mal\<close> and \<open>fr\<close> are \<^verbatim>\<open>malloc\<close> and \<^verbatim>\<open>free\<close>, \<open>hown h U\<close> says that \<open>U\<close> are the
  blocks they have handed out.  The laws are the documented behaviour: a block of the size asked
  for, aligned to \<^verbatim>\<open>max_align_t\<close>, apart from all others, or null.
\<close>

locale c_heap =
  fixes mal :: "'h \<Rightarrow> nat \<Rightarrow> addr option \<times> 'h" and fr :: "'h \<Rightarrow> addr \<Rightarrow> 'h"
    and hown :: "'h \<Rightarrow> (addr \<times> nat) set \<Rightarrow> bool"
  assumes heap_sound: "hown h U \<Longrightarrow> ledger_sound ((\<lambda>(p, n). (p, n, 16)) ` U)"
    and malloc_some: "hown h U \<Longrightarrow> mal h n = (Some p, h') \<Longrightarrow> p \<notin> fst ` U \<and> hown h' (insert (p, n) U)"
    and malloc_null: "hown h U \<Longrightarrow> mal h n = (None, h') \<Longrightarrow> hown h' U"
    and free_one: "hown h U \<Longrightarrow> (p, n) \<in> U \<Longrightarrow> hown (fr h p) (U - {(p, n)})"
    and free_null: "hown h U \<Longrightarrow> hown (fr h 0) U"

record 'h malloc_wrapper =
  heap :: 'h
  word_before :: "addr \<Rightarrow> addr"

definition MAX_ALIGN :: nat where "MAX_ALIGN = 16"
definition POINTER_SIZE :: nat where "POINTER_SIZE = 8"

definition over_aligned :: "nat \<Rightarrow> bool" where
  "over_aligned alignment \<longleftrightarrow> alignment > MAX_ALIGN"

definition malloc_do_allocate :: "('h \<Rightarrow> nat \<Rightarrow> addr option \<times> 'h) \<Rightarrow> 'h malloc_wrapper allocate_fn" where
  "malloc_do_allocate mal cpu s number_of_bytes alignment =
     (if \<not> over_aligned alignment
      then (case mal (heap s) number_of_bytes of (r, h) \<Rightarrow> Some (r, s\<lparr>heap := h\<rparr>))
      else if and64 alignment (sub64 alignment 1) \<noteq> 0 then Some (None, s)
      else if number_of_bytes > sub64 (sub64 SIZE_MAX alignment) POINTER_SIZE then Some (None, s)
      else (case mal (heap s) (add64 (add64 number_of_bytes alignment) POINTER_SIZE) of
              (None, h) \<Rightarrow> Some (None, s\<lparr>heap := h\<rparr>)
            | (Some raw, h) \<Rightarrow>
                (let aligned = align_mask (add64 raw POINTER_SIZE) alignment
                 in Some (Some aligned, s\<lparr>heap := h,
                      word_before := (word_before s)(sub64 aligned POINTER_SIZE := raw)\<rparr>))))"

definition malloc_do_deallocate :: "('h \<Rightarrow> addr \<Rightarrow> 'h) \<Rightarrow> 'h malloc_wrapper deallocate_fn" where
  "malloc_do_deallocate fr cpu s block number_of_bytes alignment =
     (if block \<noteq> 0 \<and> over_aligned alignment
      then Some (s\<lparr>heap := fr (heap s) (word_before s (sub64 block POINTER_SIZE))\<rparr>)
      else Some (s\<lparr>heap := fr (heap s) block\<rparr>))"

text \<open>The raw block behind a block of the ledger.\<close>

definition raw_block :: "'h malloc_wrapper \<Rightarrow> block \<Rightarrow> addr \<times> nat" where
  "raw_block s x = (case x of (p, b, a) \<Rightarrow>
     if over_aligned a then (word_before s (p - 8), b + a + 8) else (p, b))"

definition block_fits :: "'h malloc_wrapper \<Rightarrow> block \<Rightarrow> bool" where
  "block_fits s x \<longleftrightarrow> (case x of (p, b, a) \<Rightarrow> over_aligned a \<longrightarrow>
     word_before s (p - 8) + 8 \<le> p \<and> p + b < word_before s (p - 8) + b + a + 8 \<and> (pow2 a \<longrightarrow> a dvd p))"

definition malloc_owns :: "('h \<Rightarrow> (addr \<times> nat) set \<Rightarrow> bool) \<Rightarrow> 'h malloc_wrapper \<Rightarrow> ledger \<Rightarrow> bool" where
  "malloc_owns hown s L \<longleftrightarrow> hown (heap s) (raw_block s ` L) \<and> inj_on (fst \<circ> raw_block s) L \<and> (\<forall>x\<in>L. block_fits s x)"

context c_heap
begin

lemma raw_range:
  assumes "malloc_owns hown s L" and "(p, b, a) \<in> L"
  shows "raw_block s (p, b, a) \<in> raw_block s ` L" "fst (raw_block s (p, b, a)) \<le> p"
    "p + b \<le> fst (raw_block s (p, b, a)) + snd (raw_block s (p, b, a))"
    "over_aligned a \<Longrightarrow> fst (raw_block s (p, b, a)) + 8 \<le> p \<and>
       p + b < fst (raw_block s (p, b, a)) + snd (raw_block s (p, b, a))"
    "fst (raw_block s (p, b, a)) \<noteq> 0"
    "fst (raw_block s (p, b, a)) + snd (raw_block s (p, b, a)) \<le> 18446744073709551616"
    "16 dvd fst (raw_block s (p, b, a))"
proof -
  have fit: "block_fits s (p, b, a)" using assms by (simp add: malloc_owns_def)
  show m: "raw_block s (p, b, a) \<in> raw_block s ` L" using assms(2) by blast
  show "fst (raw_block s (p, b, a)) \<le> p" "p + b \<le> fst (raw_block s (p, b, a)) + snd (raw_block s (p, b, a))"
    "over_aligned a \<Longrightarrow> fst (raw_block s (p, b, a)) + 8 \<le> p \<and>
       p + b < fst (raw_block s (p, b, a)) + snd (raw_block s (p, b, a))"
    using fit by (auto simp: block_fits_def raw_block_def)
  obtain r n where rn: "raw_block s (p, b, a) = (r, n)" by fastforce
  have "(r, n, 16) \<in> (\<lambda>(p, n). (p, n, 16)) ` (raw_block s ` L)" using m rn by force
  then have "block_sound (r, n, 16)" using assms(1) heap_sound unfolding malloc_owns_def ledger_sound_def by blast
  moreover have "pow2 16" using pow2_def [of 16] by (auto intro: exI [of _ 4])
  ultimately show "fst (raw_block s (p, b, a)) \<noteq> 0"
    "fst (raw_block s (p, b, a)) + snd (raw_block s (p, b, a)) \<le> 18446744073709551616"
    "16 dvd fst (raw_block s (p, b, a))" using rn by (auto simp: block_sound_def)
qed

lemma malloc_owns_sound:
  assumes own: "malloc_owns hown s L"
  shows "ledger_sound L"
proof -
  have raw: "ledger_sound ((\<lambda>(p, n). (p, n, 16)) ` (raw_block s ` L))"
  proof -
    have "hown (heap s) (raw_block s ` L)" using own by (simp add: malloc_owns_def)
    then show ?thesis by (rule heap_sound)
  qed
  have blk: "block_sound (p, b, a)" if m: "(p, b, a) \<in> L" for p b a
  proof -
    note r = raw_range [OF own m]
    have "a dvd p" if a: "pow2 a"
    proof (cases "over_aligned a")
      case True
      then show ?thesis using own m a by (auto simp: malloc_owns_def block_fits_def)
    next
      case False
      then have "a dvd 16" "16 dvd p" using pow2_dvd_le [OF a, of 4] r(7) by (auto simp: over_aligned_def MAX_ALIGN_def raw_block_def)
      then show ?thesis by (rule dvd_trans)
    qed
    then show ?thesis using r(2,3,5,6) by (auto simp: block_sound_def)
  qed
  have clear: "clear_of x y" if x: "x \<in> L" and y: "y \<in> L" and ne: "x \<noteq> y" for x y
  proof -
    obtain p b a q c d where xy: "x = (p, b, a)" "y = (q, c, d)" by (metis prod_cases3)
    note rp = raw_range [OF own x [unfolded xy]] and rq = raw_range [OF own y [unfolded xy]]
    obtain r m where rm: "raw_block s (p, b, a) = (r, m)" by fastforce
    obtain r' m' where rm': "raw_block s (q, c, d) = (r', m')" by fastforce
    have "r \<noteq> r'"
      using own x y ne xy rm rm' inj_onD [of "fst \<circ> raw_block s" L x y] by (auto simp: malloc_owns_def)
    moreover have "(r, m, 16) \<in> (\<lambda>(p, n). (p, n, 16)) ` (raw_block s ` L)"
      "(r', m', 16) \<in> (\<lambda>(p, n). (p, n, 16)) ` (raw_block s ` L)"
      using rp(1) rq(1) rm rm' by force+
    ultimately have ap: "apart r m r' m'" using ledger_sound_apart [OF raw] by blast
    then have "apart p b q c" using rp(2,3) rq(2,3) rm rm' by (auto simp: apart_def)
    moreover have "p \<noteq> q"
    proof
      assume "p = q"
      then show False using ap \<open>r \<noteq> r'\<close> rp rq rm rm'
        by (cases "over_aligned a"; cases "over_aligned d") (auto simp: apart_def raw_block_def)
    qed
    ultimately show ?thesis using xy by (simp add: clear_of_def)
  qed
  show ?thesis unfolding ledger_sound_def using blk clear by auto
qed

text \<open>Adding a raw block adds a block to the ledger.\<close>

lemma malloc_owns_insert:
  assumes own: "malloc_owns hown s L" and h: "hown h (insert (r, n) (raw_block s ` L))" and new: "r \<notin> fst ` raw_block s ` L"
    and t: "heap t = h" "\<And>x. x \<in> L \<Longrightarrow> raw_block t x = raw_block s x \<and> block_fits t x = block_fits s x"
    and x: "raw_block t (p, b, a) = (r, n)" "block_fits t (p, b, a)"
  shows "p \<notin> fst ` L \<and> malloc_owns hown t (insert (p, b, a) L)"
proof -
  have im: "raw_block t ` L = raw_block s ` L" using t(2) by (auto intro: image_cong)
  have fr: "\<And>y. y \<in> L \<Longrightarrow> fst (raw_block t y) \<noteq> r" using new t(2) by force
  have notin: "(p, b, a) \<notin> L" using fr x(1) by force
  have inj: "inj_on (fst \<circ> raw_block t) L"
    using own t(2) by (auto simp: malloc_owns_def inj_on_def)
  have own': "malloc_owns hown t (insert (p, b, a) L)" unfolding malloc_owns_def
  proof (intro conjI ballI)
    show "hown (heap t) (raw_block t ` insert (p, b, a) L)" using h t(1) x(1) im by simp
    show "inj_on (fst \<circ> raw_block t) (insert (p, b, a) L)"
      using inj fr x(1) notin by (force simp: inj_on_insert)
    fix y assume "y \<in> insert (p, b, a) L"
    then have "y = (p, b, a) \<or> y \<in> L" by simp
    then show "block_fits t y"
    proof
      assume "y \<in> L"
      moreover from this have "block_fits s y" using own by (simp add: malloc_owns_def)
      ultimately show ?thesis using t(2) by simp
    qed (use x(2) in simp)
  qed
  have "p \<notin> fst ` L"
  proof
    assume "p \<in> fst ` L"
    then obtain c d where m: "(p, c, d) \<in> L" by force
    then have ne: "(p, b, a) \<noteq> (p, c, d)" using notin by auto
    have "clear_of (p, b, a) (p, c, d)"
      using malloc_owns_sound [OF own'] m ne unfolding ledger_sound_def by blast
    then show False by (simp add: clear_of_def)
  qed
  with own' show ?thesis by blast
qed

lemma malloc_allocate:
  assumes own: "malloc_owns hown s L" and arg: "arg_ok c b a"
  shows "\<exists>r t. malloc_do_allocate mal c s b a = Some (r, t) \<and> (case r of None \<Rightarrow> malloc_owns hown t L
    | Some p \<Rightarrow> p \<notin> fst ` L \<and> malloc_owns hown t (insert (p, b, a) L))"
proof (cases "over_aligned a")
  case False
  obtain r h where call: "mal (heap s) b = (r, h)" by fastforce
  let ?t = "s\<lparr>heap := h\<rparr>"
  have same: "raw_block ?t x = raw_block s x \<and> block_fits ?t x = block_fits s x" for x
    by (cases x) (simp add: raw_block_def block_fits_def)
  have c: "malloc_do_allocate mal c s b a = Some (r, ?t)" using False call by (simp add: malloc_do_allocate_def)
  show ?thesis
  proof (cases r)
    case None
    have "raw_block ?t ` L = raw_block s ` L" using same by (auto intro: image_cong)
    moreover have "inj_on (fst \<circ> raw_block ?t) L" using own same by (auto simp: malloc_owns_def inj_on_def)
    ultimately show ?thesis using c None own same malloc_null [of "heap s" "raw_block s ` L" b h] call
      by (auto simp: malloc_owns_def)
  next
    case (Some p)
    have M: "p \<notin> fst ` raw_block s ` L" "hown h (insert (p, b) (raw_block s ` L))"
      using malloc_some [of "heap s" "raw_block s ` L" b p h] own call Some by (auto simp: malloc_owns_def)
    have "p \<notin> fst ` L \<and> malloc_owns hown ?t (insert (p, b, a) L)"
      by (rule malloc_owns_insert [OF own M(2,1)]) (use same False in \<open>auto simp: raw_block_def block_fits_def\<close>)
    then show ?thesis using c Some by simp
  qed
next
  case over: True
  show ?thesis
  proof (cases "and64 a (sub64 a 1) \<noteq> 0 \<or> b > sub64 (sub64 SIZE_MAX a) POINTER_SIZE")
    case True
    then show ?thesis using over own by (auto simp: malloc_do_allocate_def)
  next
    case False
    have a0: "0 < a" "a < 18446744073709551616" using over arg by (auto simp: over_aligned_def arg_ok_def)
    have "pow2 a" using False a0 pow2_test_pow2 by (simp add: pow2_test_def)
    then obtain k where k: "a = 2 ^ k" by (auto simp: pow2_def)
    have k64: "k < 64"
    proof (rule ccontr)
      assume "\<not> k < 64"
      then have "(2 :: nat) ^ 64 \<le> 2 ^ k" by (intro power_increasing) auto
      then show False using k a0(2) by simp
    qed
    have a63: "a \<le> 9223372036854775808" using power_increasing [of k 63 "2 :: nat"] k k64 by simp
    have b: "b + a + 8 < 18446744073709551616"
    proof -
      have "sub64 (sub64 SIZE_MAX a) POINTER_SIZE = 18446744073709551607 - a"
        using a63 by (simp add: SIZE_MAX_def POINTER_SIZE_def sub64_exact)
      then have "b \<le> 18446744073709551607 - a" using False by simp
      then show ?thesis using a63 by linarith
    qed
    then have tot: "add64 (add64 b a) POINTER_SIZE = b + a + 8" by (simp add: POINTER_SIZE_def add64_exact)
    obtain r h where call: "mal (heap s) (b + a + 8) = (r, h)" by fastforce
    show ?thesis
    proof (cases r)
      case None
      let ?t = "s\<lparr>heap := h\<rparr>"
      have same: "raw_block ?t x = raw_block s x \<and> block_fits ?t x = block_fits s x" for x
        by (cases x) (simp add: raw_block_def block_fits_def)
      have "raw_block ?t ` L = raw_block s ` L" using same by (auto intro: image_cong)
      moreover have "inj_on (fst \<circ> raw_block ?t) L" using own same by (auto simp: malloc_owns_def inj_on_def)
      ultimately have "malloc_owns hown ?t L"
        using own same malloc_null [of "heap s" "raw_block s ` L" "b + a + 8" h] call None by (auto simp: malloc_owns_def)
      then show ?thesis using over False tot call None by (auto simp: malloc_do_allocate_def)
    next
      case (Some raw)
      have M: "raw \<notin> fst ` raw_block s ` L" "hown h (insert (raw, b + a + 8) (raw_block s ` L))"
        using malloc_some [of "heap s" "raw_block s ` L" "b + a + 8" raw h] own call Some by (auto simp: malloc_owns_def)
      have lsr: "ledger_sound ((\<lambda>(p, n). (p, n, 16)) ` insert (raw, b + a + 8) (raw_block s ` L))"
        using heap_sound [OF M(2)] .
      have "(raw, b + a + 8, 16) \<in> (\<lambda>(p, n). (p, n, 16)) ` insert (raw, b + a + 8) (raw_block s ` L)" by simp
      then have "block_sound (raw, b + a + 8, 16)" using lsr unfolding ledger_sound_def by blast
      then have rw: "raw \<noteq> 0" "raw + (b + a + 8) \<le> 18446744073709551616" by (simp_all add: block_sound_def)
      let ?f = "raw + 8" and ?p = "round_up (raw + 8) a"
      have f: "add64 raw POINTER_SIZE = ?f" using rw a0 by (simp add: POINTER_SIZE_def add64_exact)
      have rp: "?f \<le> ?p" "?p < ?f + a" "a dvd ?p" using round_up_ge [OF a0(1)] round_up_less [OF a0(1)] by auto
      have p64: "?p < 18446744073709551616" using rp rw by linarith
      have "align_mask ?f a = ?p mod 18446744073709551616"
        unfolding k using align_mask_wrap [of ?f k] k64 rw a0 by simp
      then have al: "align_mask ?f a = ?p" using p64 by simp
      have pm: "sub64 ?p POINTER_SIZE = ?p - 8" using rp p64 by (simp add: POINTER_SIZE_def sub64_exact)
      let ?t = "s\<lparr>heap := h, word_before := (word_before s)(?p - 8 := raw)\<rparr>"
      have c: "malloc_do_allocate mal c s b a = Some (Some ?p, ?t)"
        using over False tot call Some by (simp add: malloc_do_allocate_def f al pm Let_def)
      have far: "x1 - 8 \<noteq> ?p - 8" if m: "(x1, x2, x3) \<in> L" and o: "over_aligned x3" for x1 x2 x3
      proof -
        obtain r n where rn: "raw_block s (x1, x2, x3) = (r, n)" by fastforce
        note R = raw_range [OF own m, unfolded rn fst_conv snd_conv]
        have m': "(r, n) \<in> raw_block s ` L" using R(1) .
        have ne: "r \<noteq> raw" using m' M(1) by (metis fst_conv image_eqI)
        have "(r, n, 16) \<in> (\<lambda>(p, n). (p, n, 16)) ` insert (raw, b + a + 8) (raw_block s ` L)" using m' by force
        moreover have "(raw, b + a + 8, 16) \<in> (\<lambda>(p, n). (p, n, 16)) ` insert (raw, b + a + 8) (raw_block s ` L)" by simp
        ultimately have "apart raw (b + a + 8) r n" using ledger_sound_apart [OF lsr] ne by metis
        then show ?thesis using R(4) o rp by (auto simp: apart_def)
      qed
      have same: "raw_block ?t x = raw_block s x \<and> block_fits ?t x = block_fits s x" if "x \<in> L" for x
        using far that by (cases x) (auto simp: raw_block_def block_fits_def)
      have "?p \<notin> fst ` L \<and> malloc_owns hown ?t (insert (?p, b, a) L)"
        by (rule malloc_owns_insert [OF own M(2,1)]) (use same over rp in \<open>auto simp: raw_block_def block_fits_def\<close>)
      then show ?thesis using c by simp
    qed
  qed
qed

lemma malloc_deallocate:
  assumes own: "malloc_owns hown s L" and m: "(p, b, a) \<in> L"
  shows "\<exists>t. malloc_do_deallocate fr c s p b a = Some t \<and> malloc_owns hown t (L - {(p, b, a)})"
proof -
  note R = raw_range [OF own m]
  obtain r n where rn: "raw_block s (p, b, a) = (r, n)" by fastforce
  have p0: "p \<noteq> 0" using R(2,5) by simp
  have p8: "over_aligned a \<Longrightarrow> sub64 p POINTER_SIZE = p - 8"
    using R(3,4,6) by (auto simp: POINTER_SIZE_def intro!: sub64_exact)
  let ?t = "s\<lparr>heap := fr (heap s) r\<rparr>" and ?L = "L - {(p, b, a)}"
  have d: "malloc_do_deallocate fr c s p b a = Some ?t"
    using p0 p8 rn by (auto simp: malloc_do_deallocate_def raw_block_def split: if_splits)
  have same: "raw_block ?t x = raw_block s x \<and> block_fits ?t x = block_fits s x" for x
    by (cases x) (simp add: raw_block_def block_fits_def)
  have inj: "inj_on (fst \<circ> raw_block s) L" using own by (simp add: malloc_owns_def)
  have "inj_on (raw_block s) L" using inj by (rule inj_on_imageI2)
  then have im: "raw_block s ` ?L = raw_block s ` L - {(r, n)}"
    using inj_on_image_set_diff [of "raw_block s" L L "{(p, b, a)}"] m rn by simp
  have "hown (fr (heap s) r) (raw_block s ` L - {(r, n)})"
    using free_one own R(1) rn by (auto simp: malloc_owns_def)
  moreover have "raw_block ?t ` ?L = raw_block s ` ?L" using same by (auto intro: image_cong)
  moreover have "inj_on (fst \<circ> raw_block ?t) ?L" using inj same by (auto simp: inj_on_def)
  ultimately have "malloc_owns hown ?t ?L" using own same im by (auto simp: malloc_owns_def)
  then show ?thesis using d by blast
qed

lemma malloc_fresh: "hown h {} \<Longrightarrow> malloc_owns hown \<lparr>heap = h, word_before = w\<rparr> {}"
  by (simp add: malloc_owns_def)

end

sublocale c_heap \<subseteq> wrapper: memory_resource "malloc_do_allocate mal" "malloc_do_deallocate fr" "malloc_owns hown"
proof
  fix s :: "'h malloc_wrapper" and L :: ledger and c b a :: nat and p s'
  assume own: "malloc_owns hown s L"
  show "ledger_sound L" using own by (rule malloc_owns_sound)
  assume arg: "arg_ok c b a"
  note call = malloc_allocate [OF own arg]
  show "malloc_do_allocate mal c s b a \<noteq> None" using call by auto
  show "malloc_do_allocate mal c s b a = Some (Some p, s') \<Longrightarrow> p \<notin> fst ` L \<and> malloc_owns hown s' (insert (p, b, a) L)"
    using call by auto
  show "malloc_do_allocate mal c s b a = Some (None, s') \<Longrightarrow> malloc_owns hown s' L" using call by auto
  show "(p, b, a) \<in> L \<Longrightarrow> \<exists>s'. malloc_do_deallocate fr c s p b a = Some s' \<and> malloc_owns hown s' (L - {(p, b, a)})" for p
    by (rule malloc_deallocate [OF own])
qed

context c_heap
begin

lemma wrapper_session:
  assumes "hown h {}" and "list_all request_ok rs"
  shows "\<exists>y. serve_all (malloc_do_allocate mal) (malloc_do_deallocate fr) rs
      \<lparr>resource = \<lparr>heap = h, word_before = w\<rparr>, held = []\<rparr> = Some y \<and> ledger_sound (set (held y)) \<and>
    malloc_owns hown (resource y) (set (held y))"
  by (rule wrapper.session_sound [OF malloc_fresh [OF assms(1)] assms(2)])

end

end
