(* ===== verification/Stacked_Resources.thy ===== *)
theory Stacked_Resources
  imports Static_Arena Single_Block Monotonic Wrappers
begin

text \<open>
  Resources over resources: the forwarding resources on the model's own allocators, where the
  contract of one discharges what the other asks of its upstream.
\<close>

abbreviation static_free :: "nat \<Rightarrow> static_arena \<Rightarrow> addr \<Rightarrow> nat \<Rightarrow> nat \<Rightarrow> static_arena option" where
  "static_free \<equiv> \<lambda>c. static_do_deallocate"

abbreviation sb_free :: "nat \<Rightarrow> single_block \<Rightarrow> addr \<Rightarrow> nat \<Rightarrow> nat \<Rightarrow> single_block option" where
  "sb_free \<equiv> \<lambda>c s p b a. Some (sb_do_deallocate c s p b a)"

interpretation mono_static: monotonic_over "\<lambda>c. static_do_allocate" static_free static_owns R for R
  by unfold_locales

interpretation track_sb: tracking_over sb_do_allocate sb_free sb_owns
  by unfold_locales

text \<open>
  A C heap: the static arena with a table of the sizes it was asked for.  It shows that the laws
  of \<open>c_heap\<close> can hold; the wrapper itself is proved for every heap that satisfies them.
\<close>

definition arena_malloc :: "static_arena \<times> (addr \<Rightarrow> nat) \<Rightarrow> nat \<Rightarrow> addr option \<times> static_arena \<times> (addr \<Rightarrow> nat)" where
  "arena_malloc h n = (case h of (s, sz) \<Rightarrow>
     (case static_do_allocate s n 16 of
        Some (Some p, t) \<Rightarrow> (Some p, t, sz(p := n))
      | Some (None, t) \<Rightarrow> (None, t, sz)
      | None \<Rightarrow> (None, s, sz)))"

definition arena_free :: "static_arena \<times> (addr \<Rightarrow> nat) \<Rightarrow> addr \<Rightarrow> static_arena \<times> (addr \<Rightarrow> nat)" where
  "arena_free h p = (case h of (s, sz) \<Rightarrow>
     (case static_do_deallocate s p (sz p) 16 of Some t \<Rightarrow> (t, sz) | None \<Rightarrow> h))"

definition arena_heap_owns :: "static_arena \<times> (addr \<Rightarrow> nat) \<Rightarrow> (addr \<times> nat) set \<Rightarrow> bool" where
  "arena_heap_owns h U \<longleftrightarrow> (case h of (s, sz) \<Rightarrow>
     static_owns s ((\<lambda>(p, n). (p, n, 16)) ` U) \<and> (\<forall>(p, n)\<in>U. sz p = n))"

interpretation arena_heap: c_heap arena_malloc arena_free arena_heap_owns
proof
  fix h :: "static_arena \<times> (addr \<Rightarrow> nat)" and U :: "(addr \<times> nat) set" and n p h'
  assume own: "arena_heap_owns h U"
  obtain s sz where h: "h = (s, sz)" by (cases h)
  let ?f = "\<lambda>(p, n). (p, n, 16 :: nat)"
  have so: "static_owns s (?f ` U)" and sizes: "\<forall>(p, n)\<in>U. sz p = n"
    using own h by (simp_all add: arena_heap_owns_def)
  show "ledger_sound (?f ` U)" using so by (rule static_owns_sound)
  have fst: "fst ` ?f ` U = fst ` U" by (force simp: image_image)
  obtain r t where call: "static_do_allocate s n 16 = Some (r, t)" and R: "case r of None \<Rightarrow> static_owns t (?f ` U)
      | Some p \<Rightarrow> p \<notin> fst ` U \<and> static_owns t (insert (p, n, 16) (?f ` U))"
    using static_allocate_owns [OF so, of n 16] unfolding fst by blast
  show "p \<notin> fst ` U \<and> arena_heap_owns h' (insert (p, n) U)" if m: "arena_malloc h n = (Some p, h')" for p
  proof -
    have "r = Some p" "h' = (t, sz(p := n))" using m h call by (auto simp: arena_malloc_def split: option.splits)
    moreover from this have "\<forall>(q, k)\<in>U. q \<noteq> p" using R by force
    ultimately show ?thesis using R sizes by (auto simp: arena_heap_owns_def)
  qed
  show "arena_heap_owns h' U" if "arena_malloc h n = (None, h')"
  proof -
    have "r = None" "h' = (t, sz)" using that h call by (auto simp: arena_malloc_def split: option.splits)
    then show ?thesis using R sizes by (simp add: arena_heap_owns_def)
  qed
  show "arena_heap_owns (arena_free h p) (U - {(p, n)})" if m: "(p, n) \<in> U" for p
  proof -
    have m': "(p, n, 16) \<in> ?f ` U" using m by force
    have "?f ` U - {(p, n, 16)} = ?f ` (U - {(p, n)})" by auto
    moreover obtain u where "static_do_deallocate s p n 16 = Some u" "static_owns u (?f ` U - {(p, n, 16)})"
      using static_deallocate_owns [OF so m'] by blast
    moreover have "sz p = n" using bspec [OF sizes m] by simp
    ultimately show ?thesis using sizes h by (auto simp: arena_heap_owns_def arena_free_def)
  qed
  show "arena_heap_owns (arena_free h 0) U"
    using own h by (simp add: arena_heap_owns_def arena_free_def static_do_deallocate_def)
qed

section \<open>Properties\<close>

lemma fresh_monotonic_owns:
  assumes "start \<noteq> 0" and "start + sz + 128 \<le> 18446744073709551616" and "n < 18446744073709551616"
  shows "mono_owns static_owns {} (monotonic_initial_size mem n True (static_arena_resource l0 s0 start sz)) {}"
proof -
  have "True \<longrightarrow> static_owns (static_arena_resource l0 s0 start sz) {}" using static_arena_owns [OF assms(1,2)] by simp
  then have "mono_inv static_owns (monotonic_initial_size mem n True (static_arena_resource l0 s0 start sz)) {} {} []"
    using assms(3) by (rule monotonic_initial_size_inv(1))
  then show ?thesis by (rule mono_ownsI)
qed

text \<open>C19: A monotonic resource over a fresh arena, with any initial size: every session runs to its
  end (the doubling of the next buffer's size always reaches what a request needs), and the
  blocks handed out never overlap and are aligned as requested.\<close>

theorem monotonic_session_sound:
  assumes "start \<noteq> 0" and "start + sz + 128 \<le> 18446744073709551616" and "n < 18446744073709551616"
    and "list_all request_ok rs"
  shows "\<exists>y. serve_all (mono_do_allocate (\<lambda>c. static_do_allocate)) mono_do_deallocate rs
      \<lparr>resource = monotonic_initial_size mem n True (static_arena_resource l0 s0 start sz), held = []\<rparr> = Some y \<and>
    ledger_sound (set (held y)) \<and> mono_owns static_owns {} (resource y) (set (held y))"
  by (rule mono_static.mono.session_sound [OF fresh_monotonic_owns [OF assms(1-3)] assms(4)])

theorem monotonic_session_sound_witness:
  "\<exists>y. serve_all (mono_do_allocate (\<lambda>c. static_do_allocate)) mono_do_deallocate
      [Allocate 0 100 8, Allocate 0 5000 64, Release 0 0, Allocate 0 3 3]
      \<lparr>resource = monotonic_initial_size (\<lambda>_. \<lparr>chunk_size = 0, next_chunk = 0\<rparr>) 0 True (static_arena_resource (\<lambda>_. 0) (\<lambda>_. 0) 4096 100000), held = []\<rparr> = Some y \<and>
    ledger_sound (set (held y)) \<and> mono_owns static_owns {} (resource y) (set (held y))"
  by (rule monotonic_session_sound) (simp_all add: request_ok_def arg_ok_def)

text \<open>C20: \<open>release()\<close> gives everything back: after any session on a monotonic resource over an
  arena, releasing it ends and leaves the arena owing nothing, with the resource as fresh.\<close>

theorem monotonic_release_returns_all:
  assumes "start \<noteq> 0" and "start + sz + 128 \<le> 18446744073709551616" and "n < 18446744073709551616"
    and "list_all request_ok rs" and "c < 4294967296"
  shows "\<exists>y t. serve_all (mono_do_allocate (\<lambda>c. static_do_allocate)) mono_do_deallocate rs
      \<lparr>resource = monotonic_initial_size mem n True (static_arena_resource l0 s0 start sz), held = []\<rparr> = Some y \<and>
    release static_free c (resource y) = Some t \<and> static_owns (upstream t) {} \<and>
    allocated_blocks_head t = 0 \<and> mono_owns static_owns {} t {}"
proof -
  let ?s = "monotonic_initial_size mem n True (static_arena_resource l0 s0 start sz)"
  obtain y where y: "serve_all (mono_do_allocate (\<lambda>c. static_do_allocate)) mono_do_deallocate rs
      \<lparr>resource = ?s, held = []\<rparr> = Some y" "mono_owns static_owns {} (resource y) (set (held y))"
    using mono_static.mono.session_sound [OF fresh_monotonic_owns [OF assms(1-3)] assms(4)] by blast
  then obtain cs where inv: "mono_inv static_owns (resource y) (set (held y)) {} cs" by (auto simp: mono_owns_def)
  obtain t where t: "release static_free c (resource y) = Some t" "mono_inv static_owns t {} {} []"
    "has_upstream (resource y) \<longrightarrow> static_owns (upstream t) {}"
    using mono_static.release_inv [OF inv assms(5)] by blast
  have "has_upstream (resource y) = True"
    by (rule serve_all_keeps [OF y(1)])
      (auto simp: monotonic_initial_size_def mono_do_deallocate_def dest: mono_allocate_has_upstream)
  moreover have "allocated_blocks_head t = 0" using t(2) by (simp add: mono_inv_def mono_lists_def)
  ultimately show ?thesis using y(1) t by (blast intro: mono_ownsI)
qed

theorem monotonic_release_returns_all_witness:
  "\<exists>y t. serve_all (mono_do_allocate (\<lambda>c. static_do_allocate)) mono_do_deallocate
      [Allocate 0 100 8, Allocate 0 5000 64, Release 0 0]
      \<lparr>resource = monotonic_initial_size (\<lambda>_. \<lparr>chunk_size = 0, next_chunk = 0\<rparr>) 64 True (static_arena_resource (\<lambda>_. 0) (\<lambda>_. 0) 4096 100000), held = []\<rparr> = Some y \<and>
    release static_free 1 (resource y) = Some t \<and> static_owns (upstream t) {} \<and>
    allocated_blocks_head t = 0 \<and> mono_owns static_owns {} t {}"
  by (rule monotonic_release_returns_all) (simp_all add: request_ok_def arg_ok_def)

text \<open>The balance of a tracking resource: after any session over a single-block resource, the
  bytes in use are the sizes of the blocks the clients hold, modulo the width of the counter,
  and the difference of the two call counts is the number of blocks held.\<close>

theorem tracking_balance:
  assumes "sb_args m blk sz" and "list_all request_ok rs"
  shows "\<exists>y. serve_all (tracking_do_allocate sb_do_allocate) (tracking_do_deallocate sb_free) rs
      \<lparr>resource = tracking_memory_resource (single_block_resource m mem blk sz), held = []\<rparr> = Some y \<and>
    bytes_in_use (resource y) = (\<Sum>(p, b, a)\<in>set (held y). b) mod 18446744073709551616 \<and>
    sub64 (allocation_count (resource y)) (deallocation_count (resource y)) = card (set (held y)) mod 18446744073709551616"
proof -
  have "tracking_owns sb_owns (tracking_memory_resource (single_block_resource m mem blk sz)) {}"
    by (rule track_sb.tracking_fresh [OF single_block_resource_owns [OF assms(1)]])
  from track_sb.tracking.session_sound [OF this assms(2)] show ?thesis
    unfolding tracking_owns_def by blast
qed

theorem tracking_balance_witness:
  "\<exists>y. serve_all (tracking_do_allocate sb_do_allocate) (tracking_do_deallocate sb_free)
      [Allocate 0 100 8, Allocate 1 50 64, Release 2 0]
      \<lparr>resource = tracking_memory_resource (single_block_resource 64 (\<lambda>_. end_of_list_marker) 4096 65536), held = []\<rparr> = Some y \<and>
    bytes_in_use (resource y) = (\<Sum>(p, b, a)\<in>set (held y). b) mod 18446744073709551616 \<and>
    sub64 (allocation_count (resource y)) (deallocation_count (resource y)) = card (set (held y)) mod 18446744073709551616"
  by (rule tracking_balance) (simp_all add: sb_args_def request_ok_def arg_ok_def)

text \<open>C21: The malloc wrapper, for every C heap with the documented behaviour of \<^verbatim>\<open>malloc\<close> and \<^verbatim>\<open>free\<close>: its
  blocks never overlap and have any power-of-two alignment asked for, and every block that is
  released gives exactly the heap's own block back, so that the heap ends owing what the session
  still holds.\<close>

theorem malloc_wrapper_session_sound:
  assumes heap: "c_heap mal fr hown" and empty: "hown h {}" and "list_all request_ok rs"
  shows "\<exists>y. serve_all (malloc_do_allocate mal) (malloc_do_deallocate fr) rs
      \<lparr>resource = \<lparr>heap = h, word_before = w\<rparr>, held = []\<rparr> = Some y \<and> ledger_sound (set (held y)) \<and>
    hown (malloc_wrapper.heap (resource y)) (raw_block (resource y) ` set (held y))"
  using c_heap.wrapper_session [OF heap empty assms(3), of w] unfolding malloc_owns_def by blast

theorem malloc_wrapper_session_sound_witness:
  "\<exists>y. serve_all (malloc_do_allocate arena_malloc) (malloc_do_deallocate arena_free)
      [Allocate 0 100 8, Allocate 0 50 4096, Release 0 1]
      \<lparr>resource = \<lparr>heap = (static_arena_resource (\<lambda>_. 0) (\<lambda>_. 0) 4096 100000, \<lambda>_. 0), word_before = \<lambda>_. 0\<rparr>, held = []\<rparr> = Some y \<and>
    ledger_sound (set (held y)) \<and>
    arena_heap_owns (malloc_wrapper.heap (resource y)) (raw_block (resource y) ` set (held y))"
proof (rule malloc_wrapper_session_sound [OF arena_heap.c_heap_axioms])
  show "arena_heap_owns (static_arena_resource (\<lambda>_. 0) (\<lambda>_. 0) 4096 100000, \<lambda>_. 0) {}"
    using static_arena_owns [of 4096 100000] by (simp add: arena_heap_owns_def)
qed (simp_all add: request_ok_def arg_ok_def)

text \<open>\<^verbatim>\<open>polymorphic_allocator\<close> never hands out an array whose byte size wrapped: an array it
  returns has room for all its elements, is aligned for them and shares no byte with a block
  already held.\<close>

theorem polymorphic_array_fits:
  assumes own: "static_owns s L" and "0 < esz" and "esz < 18446744073709551616" and "pow2 al" and "al < 18446744073709551616"
    and "num < 18446744073709551616" and "c < 4294967296"
    and call: "pa_allocate (\<lambda>c. static_do_allocate) esz al c s num = Some (Some p, t)"
  shows "p \<noteq> 0 \<and> al dvd p \<and> p + num * esz \<le> 18446744073709551616 \<and>
    (\<forall>(q, d, e)\<in>L. apart p (num * esz) q d) \<and> static_owns t (insert (p, num * esz, al) L)"
proof -
  have n: "num \<le> max_size esz" using call by (simp add: pa_allocate_def split: if_splits)
  have m: "mul64 num esz = num * esz" using pa_no_overflow [OF n assms(2)] .
  have arg: "arg_ok c (num * esz) al" using assms m mul64_bound [of num esz] by (simp add: arg_ok_def)
  have a: "static_do_allocate s (num * esz) al = Some (Some p, t)"
    using call n m by (simp add: pa_allocate_def)
  have sound: "block_sound (p, num * esz, al)"
    using static.alloc_block_sound [OF own arg a] by (simp add: ledger_sound_def)
  show ?thesis using sound assms(4) static.alloc_apart [OF own arg a] static.alloc_some [OF own arg a]
    by (auto simp: block_sound_def)
qed

theorem polymorphic_array_fits_witness:
  "\<exists>p t. pa_allocate (\<lambda>c. static_do_allocate) 8 8 0 (static_arena_resource (\<lambda>_. 0) (\<lambda>_. 0) 4096 68) 5 = Some (Some p, t) \<and>
    p \<noteq> 0 \<and> 8 dvd p \<and> p + 5 * 8 \<le> 18446744073709551616"
proof -
  let ?s = "static_arena_resource (\<lambda>_. 0) (\<lambda>_. 0) 4096 68"
  have own: "static_owns ?s {}" using static_arena_owns [of 4096 68] by simp
  have c: "block_count 4096 68 = 1"
    using aligned_start_round [of 4096] by (simp add: block_count_def arena_constants round_up_def sub64_exact)
  have z: "block_size_for 40 = 64" using block_size_cases [of 40] by (simp add: round_up_def class_at_least.simps)
  obtain t where "static_do_allocate ?s 40 8 = Some (Some 4096, t)"
    using static_arena_bump [of 4096 68 8 40] by (simp add: c z round_up_def)
  then have call: "pa_allocate (\<lambda>c. static_do_allocate) 8 8 0 ?s 5 = Some (Some 4096, t)"
    by (simp add: pa_allocate_def max_size_def SIZE_MAX_def mul64_exact)
  have "pow2 8" by (simp add: pow2_def) (rule exI [of _ 3], simp)
  then show ?thesis using polymorphic_array_fits [OF own _ _ _ _ _ _ call] call by simp
qed

end
