(* ===== verification/Extended_Statistics.thy ===== *)
theory Extended_Statistics
  imports Prelude
begin

text \<open>
  \<^verbatim>\<open>extensions::lockfree_single_arena_resource_extended_statistics\<close>
  (\<^verbatim>\<open>include/__memory_resource/__extensions/lockfree_single_arena_resource_extended_statistics.h\<close>):
  the optional counters of the single arena.  A counter is a \<^verbatim>\<open>size_t\<close>, its updates wrap; the
  observers of the class are the selectors of the record.
\<close>

record extended_statistics =
  allocator_calls :: nat
  allocator_reuse_hits :: nat
  allocator_frontier_hits :: nat
  allocator_failures :: nat
  live_allocations :: nat
  search_iterations :: nat
  search_pops :: nat
  search_claimed_count :: nat
  search_reclaim_deferred_count :: nat
  frontier_cas_retries :: nat
  metadata_cas_retries :: nat
  maintenance_windows :: nat
  frontier_offset :: nat
  metadata_count :: nat
  metadata_boundary_offset :: nat
  pending_deallocations :: nat

definition no_extended_counts :: extended_statistics where
  "no_extended_counts = \<lparr>allocator_calls = 0, allocator_reuse_hits = 0, allocator_frontier_hits = 0, allocator_failures = 0, live_allocations = 0,
     search_iterations = 0, search_pops = 0, search_claimed_count = 0, search_reclaim_deferred_count = 0,
     frontier_cas_retries = 0, metadata_cas_retries = 0, maintenance_windows = 0, frontier_offset = 0, metadata_count = 0,
     metadata_boundary_offset = 0, pending_deallocations = 0\<rparr>"

definition record_allocator_call :: "extended_statistics \<Rightarrow> extended_statistics" where
  "record_allocator_call e = e\<lparr>allocator_calls := add64 (allocator_calls e) 1\<rparr>"

definition record_allocator_reuse_hit :: "extended_statistics \<Rightarrow> extended_statistics" where
  "record_allocator_reuse_hit e = e\<lparr>allocator_reuse_hits := add64 (allocator_reuse_hits e) 1\<rparr>"

definition record_allocator_frontier_hit :: "extended_statistics \<Rightarrow> extended_statistics" where
  "record_allocator_frontier_hit e = e\<lparr>allocator_frontier_hits := add64 (allocator_frontier_hits e) 1\<rparr>"

definition record_allocator_failure :: "extended_statistics \<Rightarrow> extended_statistics" where
  "record_allocator_failure e = e\<lparr>allocator_failures := add64 (allocator_failures e) 1\<rparr>"

definition record_allocation_made :: "extended_statistics \<Rightarrow> extended_statistics" where
  "record_allocation_made e = e\<lparr>live_allocations := add64 (live_allocations e) 1\<rparr>"

definition record_deallocation_made :: "extended_statistics \<Rightarrow> extended_statistics" where
  "record_deallocation_made e = e\<lparr>live_allocations := sub64 (live_allocations e) 1\<rparr>"

definition record_search_iteration :: "extended_statistics \<Rightarrow> extended_statistics" where
  "record_search_iteration e = e\<lparr>search_iterations := add64 (search_iterations e) 1\<rparr>"

definition record_search_pop :: "extended_statistics \<Rightarrow> extended_statistics" where
  "record_search_pop e = e\<lparr>search_pops := add64 (search_pops e) 1\<rparr>"

definition record_search_claimed :: "extended_statistics \<Rightarrow> extended_statistics" where
  "record_search_claimed e = e\<lparr>search_claimed_count := add64 (search_claimed_count e) 1\<rparr>"

definition record_search_reclaim_deferred :: "extended_statistics \<Rightarrow> extended_statistics" where
  "record_search_reclaim_deferred e = e\<lparr>search_reclaim_deferred_count := add64 (search_reclaim_deferred_count e) 1\<rparr>"

definition record_frontier_cas_retry :: "extended_statistics \<Rightarrow> extended_statistics" where
  "record_frontier_cas_retry e = e\<lparr>frontier_cas_retries := add64 (frontier_cas_retries e) 1\<rparr>"

definition record_metadata_cas_retry :: "extended_statistics \<Rightarrow> extended_statistics" where
  "record_metadata_cas_retry e = e\<lparr>metadata_cas_retries := add64 (metadata_cas_retries e) 1\<rparr>"

definition record_maintenance_window :: "extended_statistics \<Rightarrow> extended_statistics" where
  "record_maintenance_window e = e\<lparr>maintenance_windows := add64 (maintenance_windows e) 1\<rparr>"

definition record_frontier_offset :: "nat \<Rightarrow> extended_statistics \<Rightarrow> extended_statistics" where
  "record_frontier_offset n e = e\<lparr>frontier_offset := n\<rparr>"

definition record_metadata_count :: "nat \<Rightarrow> extended_statistics \<Rightarrow> extended_statistics" where
  "record_metadata_count n e = e\<lparr>metadata_count := n\<rparr>"

definition record_metadata_boundary_offset :: "nat \<Rightarrow> extended_statistics \<Rightarrow> extended_statistics" where
  "record_metadata_boundary_offset n e = e\<lparr>metadata_boundary_offset := n\<rparr>"

definition record_pending_deallocations :: "nat \<Rightarrow> extended_statistics \<Rightarrow> extended_statistics" where
  "record_pending_deallocations n e = e\<lparr>pending_deallocations := n\<rparr>"

end
