(* ===== verification/Size_Classes.thy ===== *)
theory Size_Classes
  imports Tagged_Ptr
begin

text \<open>
  The size classes of \<^verbatim>\<open>pmr::lockfree_single_arena_resource_impl\<close>
  (\<^verbatim>\<open>include/__memory_resource/lockfree_single_arena_resource.h\<close>): the geometric table of bin
  sizes the compiler computes from the template parameters, its binary search, and the lookup
  table that replaces the search for small requests.  The template parameters are a record the
  definitions take as an argument.
\<close>

section \<open>Parameters\<close>

record arena_config =
  max_bin_bytes :: nat
  max_waste_percent :: nat
  maintenance_window_threshold :: nat
  pointer_rule :: pointer_top_bits

definition default_config :: arena_config where
  "default_config = \<lparr>max_bin_bytes = 33554432, max_waste_percent = 5, maintenance_window_threshold = 128,
     pointer_rule = zero_bits\<rparr>"

definition ALIGNMENT :: nat where "ALIGNMENT = 64"

text \<open>The addresses are \<open>nat\<close> below \<open>2 ^ 64\<close>, so the code's sums and products wrap.\<close>

definition lockfree_aligned_size :: "nat \<Rightarrow> nat \<Rightarrow> nat" where
  "lockfree_aligned_size unaligned al = mul64 (sub64 (add64 unaligned al) 1 div al) al"

definition lockfree_align_pointer :: "addr \<Rightarrow> nat \<Rightarrow> addr" where
  "lockfree_align_pointer p al = (let m = p mod al in if m = 0 then p else sub64 (add64 p al) m)"

definition align_up_bin_size :: "nat \<Rightarrow> nat" where
  "align_up_bin_size sz = lockfree_aligned_size sz ALIGNMENT"

definition ceil_div :: "nat \<Rightarrow> nat \<Rightarrow> nat" where
  "ceil_div numerator denominator = sub64 (add64 numerator denominator) 1 div denominator"

definition max_bin_bytes_aligned :: "arena_config \<Rightarrow> nat" where
  "max_bin_bytes_aligned cfg = align_up_bin_size (max_bin_bytes cfg)"

section \<open>The table\<close>

definition next_bin_size :: "arena_config \<Rightarrow> nat \<Rightarrow> nat" where
  "next_bin_size cfg current =
     (let grown = ceil_div (mul64 current (100 + max_waste_percent cfg)) 100;
          candidate = align_up_bin_size grown;
          candidate = (if candidate \<le> current then add64 current ALIGNMENT else candidate);
          max_aligned = max_bin_bytes_aligned cfg
      in if candidate > max_aligned then max_aligned else candidate)"

lemma lockfree_aligned_size_dvd: "al dvd 18446744073709551616 \<Longrightarrow> al dvd lockfree_aligned_size sz al"
  by (simp add: lockfree_aligned_size_def mul64_def dvd_mod)

lemma next_bin_size_grows:
  assumes "current < max_bin_bytes_aligned cfg"
  shows "current < next_bin_size cfg current"
proof -
  have d: "64 dvd max_bin_bytes_aligned cfg"
    unfolding max_bin_bytes_aligned_def align_up_bin_size_def ALIGNMENT_def
    by (rule lockfree_aligned_size_dvd) simp
  have "max_bin_bytes_aligned cfg < 18446744073709551616"
    by (simp add: max_bin_bytes_aligned_def align_up_bin_size_def lockfree_aligned_size_def mul64_bound)
  then have "max_bin_bytes_aligned cfg \<le> 18446744073709551616 - 64"
    using d by (auto elim!: dvdE)
  then have "add64 current 64 = current + 64" using assms by (intro add64_exact) simp
  then show ?thesis using assms by (simp add: next_bin_size_def ALIGNMENT_def Let_def)
qed

function bin_count_loop :: "arena_config \<Rightarrow> nat \<Rightarrow> nat \<Rightarrow> nat" where
  "bin_count_loop cfg current count =
     (if current < max_bin_bytes_aligned cfg then bin_count_loop cfg (next_bin_size cfg current) (count + 1)
      else count)"
  by pat_completeness auto
termination
proof (relation "measure (\<lambda>(cfg, current, count). max_bin_bytes_aligned cfg - current)")
  fix cfg current count
  assume "current < max_bin_bytes_aligned cfg"
  then show "((cfg, next_bin_size cfg current, count + 1), cfg, current, count)
      \<in> measure (\<lambda>(cfg, current, count). max_bin_bytes_aligned cfg - current)"
    using next_bin_size_grows [of current cfg] by simp
qed simp

declare bin_count_loop.simps [simp del]

definition NUM_NON_SENTINEL_FREE_BLOCK_BINS :: "arena_config \<Rightarrow> nat" where
  "NUM_NON_SENTINEL_FREE_BLOCK_BINS cfg = bin_count_loop cfg ALIGNMENT 1"

definition NUM_FREE_BLOCK_BINS :: "arena_config \<Rightarrow> nat" where
  "NUM_FREE_BLOCK_BINS cfg = NUM_NON_SENTINEL_FREE_BLOCK_BINS cfg + 1"

primrec bin_sizes_from :: "arena_config \<Rightarrow> nat \<Rightarrow> nat \<Rightarrow> nat list" where
  "bin_sizes_from cfg 0 current = []"
| "bin_sizes_from cfg (Suc n) current = current # bin_sizes_from cfg n (next_bin_size cfg current)"

definition FREE_BLOCK_BIN_SIZES :: "arena_config \<Rightarrow> nat list" where
  "FREE_BLOCK_BIN_SIZES cfg =
     bin_sizes_from cfg (NUM_NON_SENTINEL_FREE_BLOCK_BINS cfg) ALIGNMENT @ [18446744073709551615]"

definition MAX_ALLOCATION_SIZE_INTERNAL :: "arena_config \<Rightarrow> nat" where
  "MAX_ALLOCATION_SIZE_INTERNAL cfg = max_bin_bytes_aligned cfg"

definition ALLOCATION_HEADER_SIZE :: nat where "ALLOCATION_HEADER_SIZE = 64"

definition MAX_ALLOCATION_SIZE :: "arena_config \<Rightarrow> nat" where
  "MAX_ALLOCATION_SIZE cfg = sub64 (MAX_ALLOCATION_SIZE_INTERNAL cfg) ALLOCATION_HEADER_SIZE"

text \<open>The static assertions on the parameters.\<close>

definition config_ok :: "arena_config \<Rightarrow> bool" where
  "config_ok cfg \<longleftrightarrow> 0 < max_waste_percent cfg \<and> max_waste_percent cfg \<le> 25 \<and> 1024 \<le> max_bin_bytes cfg \<and>
     max_bin_bytes cfg < 18446744073709551552 \<and> MAX_ALLOCATION_SIZE_INTERNAL cfg < 4294967296"

section \<open>Searching it\<close>

function search_loop :: "nat list \<Rightarrow> nat \<Rightarrow> nat \<Rightarrow> nat \<Rightarrow> nat" where
  "search_loop sizes bytes lo hi =
     (if lo < hi
      then let mid = lo + (hi - lo) div 2
           in if sizes ! mid < bytes then search_loop sizes bytes (mid + 1) hi
              else search_loop sizes bytes lo mid
      else lo)"
  by pat_completeness auto
termination
  by (relation "measure (\<lambda>(sizes, bytes, lo, hi). hi - lo)") auto

declare search_loop.simps [simp del]

definition search_free_block_bin :: "arena_config \<Rightarrow> nat \<Rightarrow> nat \<Rightarrow> nat" where
  "search_free_block_bin cfg bytes lo =
     search_loop (FREE_BLOCK_BIN_SIZES cfg) bytes lo (NUM_FREE_BLOCK_BINS cfg - 1)"

definition SMALL_BIN_LOOKUP_UNITS :: nat where "SMALL_BIN_LOOKUP_UNITS = 1024"

definition SMALL_BIN_LOOKUP :: "arena_config \<Rightarrow> nat list" where
  "SMALL_BIN_LOOKUP cfg =
     map (\<lambda>units. search_free_block_bin cfg (mul64 units ALIGNMENT) 0 mod 65536) [0..<SMALL_BIN_LOOKUP_UNITS + 1]"

definition small_bin_lookup_is_exact :: "arena_config \<Rightarrow> bool" where
  "small_bin_lookup_is_exact cfg \<longleftrightarrow>
     search_free_block_bin cfg 0 0 = SMALL_BIN_LOOKUP cfg ! 0 \<and>
     list_all (\<lambda>units.
         search_free_block_bin cfg (mul64 (units - 1) ALIGNMENT + 1) 0 = SMALL_BIN_LOOKUP cfg ! units \<and>
         search_free_block_bin cfg (mul64 units ALIGNMENT) 0 = SMALL_BIN_LOOKUP cfg ! units)
       [1..<SMALL_BIN_LOOKUP_UNITS + 1]"

definition free_block_bin_index :: "arena_config \<Rightarrow> nat \<Rightarrow> nat" where
  "free_block_bin_index cfg bytes =
     (if bytes > MAX_ALLOCATION_SIZE_INTERNAL cfg then NUM_FREE_BLOCK_BINS cfg - 1
      else let units = sub64 (add64 bytes ALIGNMENT) 1 div ALIGNMENT
           in if units \<le> SMALL_BIN_LOOKUP_UNITS then SMALL_BIN_LOOKUP cfg ! units
              else search_free_block_bin cfg bytes (SMALL_BIN_LOOKUP cfg ! SMALL_BIN_LOOKUP_UNITS))"

section \<open>What the table holds\<close>

lemmas config_simps = ALIGNMENT_def SMALL_BIN_LOOKUP_UNITS_def ALLOCATION_HEADER_SIZE_def
  MAX_ALLOCATION_SIZE_INTERNAL_def

lemma lockfree_aligned_size_round:
  assumes "sz + 64 < 18446744073709551616"
  shows "lockfree_aligned_size sz 64 = round_up sz 64"
proof -
  have "(sz + 63) div 64 * 64 \<le> sz + 63" by simp
  then show ?thesis using assms
    by (simp add: lockfree_aligned_size_def round_up_def add64_exact sub64_exact mul64_exact)
qed

lemma max_bin_facts:
  assumes "config_ok cfg"
  shows "max_bin_bytes_aligned cfg = round_up (max_bin_bytes cfg) 64"
    and "64 dvd max_bin_bytes_aligned cfg" and "1024 \<le> max_bin_bytes_aligned cfg"
    and "max_bin_bytes_aligned cfg < 4294967296" and "max_bin_bytes cfg \<le> max_bin_bytes_aligned cfg"
proof -
  have r: "max_bin_bytes_aligned cfg = round_up (max_bin_bytes cfg) 64"
    using assms by (simp add: max_bin_bytes_aligned_def align_up_bin_size_def ALIGNMENT_def
        lockfree_aligned_size_round config_ok_def)
  then show "max_bin_bytes_aligned cfg = round_up (max_bin_bytes cfg) 64" .
  show "64 dvd max_bin_bytes_aligned cfg" using r by (simp add: round_up_def)
  have "max_bin_bytes cfg \<le> round_up (max_bin_bytes cfg) 64" by (simp add: round_up_ge)
  then show "max_bin_bytes cfg \<le> max_bin_bytes_aligned cfg" and "1024 \<le> max_bin_bytes_aligned cfg"
    using r assms by (simp_all add: config_ok_def)
  show "max_bin_bytes_aligned cfg < 4294967296"
    using assms by (simp add: config_ok_def MAX_ALLOCATION_SIZE_INTERNAL_def)
qed

text \<open>The next class: a multiple of 64, larger, at most the waste percentage above plus rounding.\<close>

lemma next_bin_size_bounds:
  assumes ok: "config_ok cfg" and d: "64 dvd current" and lt: "current < max_bin_bytes_aligned cfg"
  shows "64 dvd next_bin_size cfg current" and "next_bin_size cfg current \<le> max_bin_bytes_aligned cfg"
    and "100 * next_bin_size cfg current < (100 + max_waste_percent cfg) * current + 6500"
proof -
  let ?g = "current * (100 + max_waste_percent cfg)"
  note mx = max_bin_facts [OF ok]
  have c: "current < 4294967296" using lt mx by simp
  have w: "max_waste_percent cfg \<le> 25" using ok by (simp add: config_ok_def)
  have gb: "?g \<le> 4294967296 * 125" using c w by (intro mult_mono) auto
  then have ce: "ceil_div (mul64 current (100 + max_waste_percent cfg)) 100 = (?g + 99) div 100"
    by (simp add: ceil_div_def mul64_exact add64_exact sub64_exact)
  have gd: "(?g + 99) div 100 \<le> 4294967296 * 125" using gb by linarith
  then have al: "align_up_bin_size ((?g + 99) div 100) = round_up ((?g + 99) div 100) 64"
    by (simp add: align_up_bin_size_def ALIGNMENT_def lockfree_aligned_size_round)
  let ?r = "round_up ((?g + 99) div 100) 64"
  have r: "64 dvd ?r" "?r \<le> (?g + 99) div 100 + 63" by (simp_all add: round_up_def)
  have a: "add64 current 64 = current + 64" using c by (simp add: add64_exact)
  have n: "next_bin_size cfg current = min (max_bin_bytes_aligned cfg) (if ?r \<le> current then current + 64 else ?r)"
    by (simp add: next_bin_size_def ce al a ALIGNMENT_def min_def Let_def)
  show "64 dvd next_bin_size cfg current" unfolding n using mx(2) d r(1) by (auto simp: min_def)
  show "next_bin_size cfg current \<le> max_bin_bytes_aligned cfg" unfolding n by simp
  have "100 * (if ?r \<le> current then current + 64 else ?r) < ?g + 6500"
  proof (cases "?r \<le> current")
    case True
    then show ?thesis by (simp add: algebra_simps)
  next
    case False
    then show ?thesis using r(2) by simp
  qed
  then show "100 * next_bin_size cfg current < (100 + max_waste_percent cfg) * current + 6500"
    unfolding n by (simp add: min_def mult.commute)
qed

text \<open>The loop that counts the classes and the one that lists them run over the same sizes.\<close>

lemma bin_count_loop_add: "bin_count_loop cfg current (count + k) = bin_count_loop cfg current count + k"
proof (induction cfg current count rule: bin_count_loop.induct)
  case (1 cfg current count)
  then show ?case
    by (subst (1 2) bin_count_loop.simps) (simp add: add.commute add.left_commute)
qed

definition classes :: "arena_config \<Rightarrow> nat \<Rightarrow> nat list" where
  "classes cfg current = bin_sizes_from cfg (bin_count_loop cfg current 1) current"

lemma classes_step:
  assumes "current < max_bin_bytes_aligned cfg"
  shows "classes cfg current = current # classes cfg (next_bin_size cfg current)"
proof -
  have "bin_count_loop cfg current 1 = Suc (bin_count_loop cfg (next_bin_size cfg current) 1)"
    using bin_count_loop_add [of cfg "next_bin_size cfg current" 1 1] assms
    by (subst bin_count_loop.simps) simp
  then show ?thesis by (simp add: classes_def)
qed

lemma classes_end: "\<not> current < max_bin_bytes_aligned cfg \<Longrightarrow> classes cfg current = [current]"
  by (simp add: classes_def bin_count_loop.simps)

lemma sizes_classes: "FREE_BLOCK_BIN_SIZES cfg = classes cfg ALIGNMENT @ [18446744073709551615]"
  by (simp add: FREE_BLOCK_BIN_SIZES_def classes_def NUM_NON_SENTINEL_FREE_BLOCK_BINS_def)

lemma length_bin_sizes_from [simp]: "length (bin_sizes_from cfg n c) = n"
  by (induction n arbitrary: c) auto

lemma length_classes: "length (classes cfg ALIGNMENT) = NUM_NON_SENTINEL_FREE_BLOCK_BINS cfg"
  by (simp add: classes_def NUM_NON_SENTINEL_FREE_BLOCK_BINS_def)

lemma classes_props:
  assumes ok: "config_ok cfg"
  shows "64 dvd current \<Longrightarrow> current \<le> max_bin_bytes_aligned cfg \<Longrightarrow>
    sorted_wrt (<) (classes cfg current) \<and> (\<forall>x\<in>set (classes cfg current). current \<le> x \<and> 64 dvd x \<and> x \<le> max_bin_bytes_aligned cfg) \<and>
    classes cfg current \<noteq> [] \<and> hd (classes cfg current) = current \<and> last (classes cfg current) = max_bin_bytes_aligned cfg \<and>
    (\<forall>i. Suc i < length (classes cfg current) \<longrightarrow>
       100 * classes cfg current ! Suc i < (100 + max_waste_percent cfg) * classes cfg current ! i + 6500)"
proof (induction "max_bin_bytes_aligned cfg - current" arbitrary: current rule: less_induct)
  case less
  show ?case
  proof (cases "current < max_bin_bytes_aligned cfg")
    case False
    then have "current = max_bin_bytes_aligned cfg" using less.prems by simp
    then show ?thesis using less.prems classes_end [OF False] by simp
  next
    case True
    let ?n = "next_bin_size cfg current"
    note nb = next_bin_size_bounds [OF ok less.prems(1) True]
    have gt: "current < ?n" using next_bin_size_grows [OF True] .
    have IH: "sorted_wrt (<) (classes cfg ?n) \<and> (\<forall>x\<in>set (classes cfg ?n). ?n \<le> x \<and> 64 dvd x \<and> x \<le> max_bin_bytes_aligned cfg) \<and>
      classes cfg ?n \<noteq> [] \<and> hd (classes cfg ?n) = ?n \<and> last (classes cfg ?n) = max_bin_bytes_aligned cfg \<and>
      (\<forall>i. Suc i < length (classes cfg ?n) \<longrightarrow>
         100 * classes cfg ?n ! Suc i < (100 + max_waste_percent cfg) * classes cfg ?n ! i + 6500)"
      using less.hyps [of ?n] gt True nb by simp
    have h: "classes cfg ?n ! 0 = ?n" using IH by (metis hd_conv_nth)
    have steps: "100 * (current # classes cfg ?n) ! Suc i < (100 + max_waste_percent cfg) * (current # classes cfg ?n) ! i + 6500"
      if "Suc i < length (current # classes cfg ?n)" for i
    proof (cases i)
      case 0
      then show ?thesis using nb(3) h by simp
    next
      case (Suc j)
      then show ?thesis using IH that by simp
    qed
    show ?thesis
    proof (intro conjI)
      show "sorted_wrt (<) (classes cfg current)" unfolding classes_step [OF True] using IH gt by auto
      show "\<forall>x\<in>set (classes cfg current). current \<le> x \<and> 64 dvd x \<and> x \<le> max_bin_bytes_aligned cfg"
        unfolding classes_step [OF True] using IH gt less.prems True by auto
      show "\<forall>i. Suc i < length (classes cfg current) \<longrightarrow>
         100 * classes cfg current ! Suc i < (100 + max_waste_percent cfg) * classes cfg current ! i + 6500"
        unfolding classes_step [OF True] using steps by blast
    qed (use IH in \<open>simp_all add: classes_step [OF True]\<close>)
  qed
qed


definition bin_size :: "arena_config \<Rightarrow> nat \<Rightarrow> nat" where
  "bin_size cfg i = FREE_BLOCK_BIN_SIZES cfg ! i"

lemma bin_sizes:
  assumes ok: "config_ok cfg" and i: "i < NUM_NON_SENTINEL_FREE_BLOCK_BINS cfg"
  shows "64 dvd bin_size cfg i" and "64 \<le> bin_size cfg i" and "bin_size cfg i \<le> max_bin_bytes_aligned cfg"
    and "j < i \<Longrightarrow> bin_size cfg j < bin_size cfg i"
    and "i = NUM_NON_SENTINEL_FREE_BLOCK_BINS cfg - 1 \<Longrightarrow> bin_size cfg i = max_bin_bytes_aligned cfg"
    and "0 < i \<Longrightarrow> 100 * bin_size cfg i < (100 + max_waste_percent cfg) * bin_size cfg (i - 1) + 6500"
    and "i = 0 \<Longrightarrow> bin_size cfg i = 64"
proof -
  have "64 \<le> max_bin_bytes_aligned cfg" using max_bin_facts(3) [OF ok] by simp
  then have P: "sorted_wrt (<) (classes cfg ALIGNMENT) \<and> (\<forall>x\<in>set (classes cfg ALIGNMENT). ALIGNMENT \<le> x \<and> 64 dvd x \<and> x \<le> max_bin_bytes_aligned cfg) \<and>
    classes cfg ALIGNMENT \<noteq> [] \<and> hd (classes cfg ALIGNMENT) = ALIGNMENT \<and> last (classes cfg ALIGNMENT) = max_bin_bytes_aligned cfg \<and>
    (\<forall>i. Suc i < length (classes cfg ALIGNMENT) \<longrightarrow>
       100 * classes cfg ALIGNMENT ! Suc i < (100 + max_waste_percent cfg) * classes cfg ALIGNMENT ! i + 6500)"
    using classes_props [OF ok, of ALIGNMENT] by (simp add: ALIGNMENT_def)
  have nth: "bin_size cfg j = classes cfg ALIGNMENT ! j" if "j \<le> i" for j
    using i that by (simp add: bin_size_def sizes_classes nth_append length_classes)
  have "classes cfg ALIGNMENT ! i \<in> set (classes cfg ALIGNMENT)" using i by (simp add: length_classes)
  then show "64 dvd bin_size cfg i" and "64 \<le> bin_size cfg i" and "bin_size cfg i \<le> max_bin_bytes_aligned cfg"
    using P nth [of i] by (auto simp: ALIGNMENT_def)
  show "j < i \<Longrightarrow> bin_size cfg j < bin_size cfg i"
    using P nth [of i] nth [of j] i by (simp add: sorted_wrt_iff_nth_less length_classes)
  show "i = NUM_NON_SENTINEL_FREE_BLOCK_BINS cfg - 1 \<Longrightarrow> bin_size cfg i = max_bin_bytes_aligned cfg"
    using P nth [of i] last_conv_nth [of "classes cfg ALIGNMENT"] by (simp add: length_classes)
  show "0 < i \<Longrightarrow> 100 * bin_size cfg i < (100 + max_waste_percent cfg) * bin_size cfg (i - 1) + 6500"
    using P nth [of i] nth [of "i - 1"] i by (cases i) (simp_all add: length_classes)
  show "i = 0 \<Longrightarrow> bin_size cfg i = 64" using P nth [of i] hd_conv_nth [of "classes cfg ALIGNMENT"] by (simp add: ALIGNMENT_def)
qed

lemma bins_nonempty: "0 < NUM_NON_SENTINEL_FREE_BLOCK_BINS cfg"
proof -
  have "bin_count_loop cfg c (0 + 1) = bin_count_loop cfg c 0 + 1" for c
    by (rule bin_count_loop_add)
  then show ?thesis by (simp add: NUM_NON_SENTINEL_FREE_BLOCK_BINS_def)
qed

lemma bin_size_lower: "config_ok cfg \<Longrightarrow> i < NUM_NON_SENTINEL_FREE_BLOCK_BINS cfg \<Longrightarrow> 64 * (i + 1) \<le> bin_size cfg i"
proof (induction i)
  case 0
  then show ?case using bin_sizes(7) [of cfg 0] by simp
next
  case (Suc i)
  have "bin_size cfg i < bin_size cfg (Suc i)" using Suc.prems bin_sizes(4) by blast
  moreover have "64 dvd bin_size cfg i" "64 dvd bin_size cfg (Suc i)" using Suc.prems bin_sizes(1) by auto
  ultimately have "bin_size cfg i + 64 \<le> bin_size cfg (Suc i)" by (auto elim!: dvdE)
  then show ?case using Suc by simp
qed

section \<open>What the searches return\<close>

lemma search_loop_range:
  "lo \<le> hi \<Longrightarrow> lo \<le> search_loop sizes bytes lo hi \<and> search_loop sizes bytes lo hi \<le> hi"
proof (induction sizes bytes lo hi rule: search_loop.induct)
  case (1 sizes bytes lo hi)
  let ?mid = "lo + (hi - lo) div 2"
  show ?case
  proof (cases "lo < hi")
    case True
    have u: "search_loop sizes bytes lo hi =
        (if sizes ! ?mid < bytes then search_loop sizes bytes (?mid + 1) hi else search_loop sizes bytes lo ?mid)"
      using True by (subst search_loop.simps) (simp add: Let_def)
    have "?mid < hi" using True by simp
    then show ?thesis using "1.IH"(1) [OF True refl] "1.IH"(2) [OF True refl] unfolding u
      by (auto split: if_splits)
  qed (use 1 in \<open>simp add: search_loop.simps\<close>)
qed

text \<open>The binary search finds the least bin that holds the request.\<close>

lemma search_loop_least:
  assumes "\<And>i j. i < j \<Longrightarrow> j \<le> hi \<Longrightarrow> sizes ! i \<le> sizes ! j"
    and "bytes \<le> sizes ! hi" and "lo \<le> hi" and "\<And>i. i < lo \<Longrightarrow> sizes ! i < bytes"
  shows "bytes \<le> sizes ! search_loop sizes bytes lo hi \<and> (\<forall>i. i < search_loop sizes bytes lo hi \<longrightarrow> sizes ! i < bytes)"
  using assms
proof (induction sizes bytes lo hi rule: search_loop.induct)
  case (1 sizes bytes lo hi)
  show ?case
  proof (cases "lo < hi")
    case False
    then show ?thesis using "1.prems" by (simp add: search_loop.simps)
  next
    case True
    define mid where "mid = lo + (hi - lo) div 2"
    have m: "lo \<le> mid" "mid < hi" using True by (auto simp: mid_def)
    show ?thesis
    proof (cases "sizes ! mid < bytes")
      case lt: True
      have "sizes ! i < bytes" if "i < mid + 1" for i
      proof (cases "i = mid")
        case False
        then have "sizes ! i \<le> sizes ! mid" using "1.prems"(1) [of i mid] that m by simp
        then show ?thesis using lt by simp
      qed (use lt in simp)
      then show ?thesis
        using "1.IH"(1) [OF True mid_def lt] "1.prems" m True lt
        by (subst (1 2) search_loop.simps) (simp add: Let_def flip: mid_def)
    next
      case ge: False
      have "sizes ! i \<le> sizes ! j" if "i < j" "j \<le> mid" for i j
        using "1.prems"(1) [of i j] that m by simp
      then show ?thesis
        using "1.IH"(2) [OF True mid_def ge] "1.prems" m True ge
        by (subst (1 2) search_loop.simps) (simp add: Let_def flip: mid_def)
    qed
  qed
qed

text \<open>The least bin that holds a request; the specification of the table's searches.\<close>

definition least_bin :: "arena_config \<Rightarrow> nat \<Rightarrow> nat \<Rightarrow> bool" where
  "least_bin cfg bytes i \<longleftrightarrow> i < NUM_NON_SENTINEL_FREE_BLOCK_BINS cfg \<and> bytes \<le> bin_size cfg i \<and>
     (\<forall>j<i. bin_size cfg j < bytes)"

lemma least_bin_unique: "least_bin cfg bytes i \<Longrightarrow> least_bin cfg bytes j \<Longrightarrow> i = j"
  unfolding least_bin_def by (metis linorder_cases not_less)

text \<open>Rounding a request up to a multiple of 64 does not change its bin.\<close>

lemma least_bin_round:
  assumes ok: "config_ok cfg" and "least_bin cfg bytes i"
  shows "least_bin cfg (round_up bytes 64) i"
proof -
  have i: "i < NUM_NON_SENTINEL_FREE_BLOCK_BINS cfg" using assms(2) by (simp add: least_bin_def)
  have "round_up bytes 64 \<le> bin_size cfg i"
    using assms(2) bin_sizes(1) [OF ok i] by (auto simp: least_bin_def intro: round_up_mono_dvd)
  moreover have "bytes \<le> round_up bytes 64" by (simp add: round_up_ge)
  ultimately show ?thesis using assms(2) unfolding least_bin_def by fastforce
qed

text \<open>The search over the whole table.\<close>

lemma search_least:
  assumes ok: "config_ok cfg" and b: "bytes \<le> max_bin_bytes_aligned cfg"
    and lo: "lo < NUM_NON_SENTINEL_FREE_BLOCK_BINS cfg" "\<And>i. i < lo \<Longrightarrow> bin_size cfg i < bytes"
  shows "least_bin cfg bytes (search_free_block_bin cfg bytes lo)"
proof -
  let ?n = "NUM_NON_SENTINEL_FREE_BLOCK_BINS cfg" and ?f = "FREE_BLOCK_BIN_SIZES cfg"
  let ?r = "search_loop ?f bytes lo ?n"
  have mx: "max_bin_bytes_aligned cfg < 18446744073709551615" using max_bin_facts(4) [OF ok] by simp
  have top: "?f ! ?n = 18446744073709551615"
    using length_classes [of cfg] by (simp add: sizes_classes nth_append)
  have mono: "?f ! i \<le> ?f ! j" if "i < j" "j \<le> ?n" for i j
  proof (cases "j = ?n")
    case True
    then show ?thesis using bin_sizes(3) [OF ok, of i] that mx top by (simp add: bin_size_def)
  next
    case False
    then show ?thesis using bin_sizes(4) [OF ok, of j i] that by (simp add: bin_size_def)
  qed
  have r: "bytes \<le> ?f ! ?r \<and> (\<forall>i. i < ?r \<longrightarrow> ?f ! i < bytes)"
    by (rule search_loop_least) (use mono b mx top lo in \<open>auto simp: bin_size_def\<close>)
  have last: "?f ! (?n - 1) = max_bin_bytes_aligned cfg"
    using bin_sizes(5) [OF ok, of "?n - 1"] bins_nonempty [of cfg] by (simp add: bin_size_def)
  have "?r < ?n"
  proof (rule ccontr)
    assume "\<not> ?r < ?n"
    then have "?f ! (?n - 1) < bytes" using r bins_nonempty [of cfg] by simp
    then show False using last b by simp
  qed
  then show ?thesis using r
    by (simp add: least_bin_def search_free_block_bin_def NUM_FREE_BLOCK_BINS_def bin_size_def)
qed

lemma search_least_all:
  "config_ok cfg \<Longrightarrow> bytes \<le> max_bin_bytes_aligned cfg \<Longrightarrow> least_bin cfg bytes (search_free_block_bin cfg bytes 0)"
  by (rule search_least) (simp_all add: bins_nonempty)

text \<open>The searches of sizes beyond the largest class end at the sentinel.\<close>

lemma search_beyond:
  assumes ok: "config_ok cfg" and b: "max_bin_bytes_aligned cfg < bytes" "bytes < 18446744073709551616"
  shows "search_free_block_bin cfg bytes 0 = NUM_NON_SENTINEL_FREE_BLOCK_BINS cfg"
proof -
  let ?n = "NUM_NON_SENTINEL_FREE_BLOCK_BINS cfg" and ?f = "FREE_BLOCK_BIN_SIZES cfg"
  let ?r = "search_loop ?f bytes 0 ?n"
  have mx: "max_bin_bytes_aligned cfg < 18446744073709551615" using max_bin_facts(4) [OF ok] by simp
  have top: "?f ! ?n = 18446744073709551615"
    using length_classes [of cfg] by (simp add: sizes_classes nth_append)
  have le: "?f ! i \<le> max_bin_bytes_aligned cfg" if "i < ?n" for i
    using bin_sizes(3) [OF ok that] by (simp add: bin_size_def)
  have mono: "?f ! i \<le> ?f ! j" if "i < j" "j \<le> ?n" for i j
  proof (cases "j = ?n")
    case True
    then show ?thesis using le [of i] that mx top by simp
  next
    case False
    then show ?thesis using bin_sizes(4) [OF ok, of j i] that by (simp add: bin_size_def)
  qed
  have r: "bytes \<le> ?f ! ?r \<and> (\<forall>i. i < ?r \<longrightarrow> ?f ! i < bytes)"
    by (rule search_loop_least) (use mono b mx top in auto)
  have "?r \<le> ?n" using search_loop_range [of 0 ?n] by simp
  moreover have "\<not> ?r < ?n" using le [of ?r] r b(1) by auto
  ultimately show ?thesis by (simp add: search_free_block_bin_def NUM_FREE_BLOCK_BINS_def)
qed

lemma lookup_entry:
  assumes ok: "config_ok cfg" and u: "units \<le> 1024"
  shows "SMALL_BIN_LOOKUP cfg ! units = search_free_block_bin cfg (64 * units) 0"
proof -
  let ?n = "NUM_NON_SENTINEL_FREE_BLOCK_BINS cfg" and ?r = "search_free_block_bin cfg (64 * units) 0"
  have m: "mul64 units 64 = 64 * units" using u by (simp add: mul64_exact)
  have "?r < 65536"
  proof (cases "64 * units \<le> max_bin_bytes_aligned cfg")
    case True
    then have l: "least_bin cfg (64 * units) ?r" by (rule search_least_all [OF ok])
    show ?thesis
    proof (cases "?r = 0")
      case False
      then have "?r - 1 < ?n" "bin_size cfg (?r - 1) < 64 * units" using l by (auto simp: least_bin_def)
      then show ?thesis using bin_size_lower [OF ok, of "?r - 1"] u by simp
    qed simp
  next
    case False
    then have "?r = ?n" using u by (intro search_beyond [OF ok]) auto
    moreover have "64 * ?n \<le> max_bin_bytes_aligned cfg"
      using bin_size_lower [OF ok, of "?n - 1"] bin_sizes(5) [OF ok, of "?n - 1"] bins_nonempty [of cfg] by simp
    ultimately show ?thesis using False u by simp
  qed
  then show ?thesis using u by (simp add: SMALL_BIN_LOOKUP_def config_simps m nth_append del: upt_Suc)
qed

lemma lookup_is_exact:
  assumes ok: "config_ok cfg"
  shows "small_bin_lookup_is_exact cfg"
proof -
  have "search_free_block_bin cfg (mul64 (u - 1) ALIGNMENT + 1) 0 = SMALL_BIN_LOOKUP cfg ! u \<and>
      search_free_block_bin cfg (mul64 u ALIGNMENT) 0 = SMALL_BIN_LOOKUP cfg ! u"
    if u: "u \<in> set [1..<1024 + 1]" for u
  proof -
    define v where "v = u - 1"
    have v: "u = v + 1" "v < 1024" using u unfolding v_def set_upt by auto
    have m: "mul64 (u - 1) ALIGNMENT + 1 = 64 * v + 1" "mul64 u ALIGNMENT = 64 * u"
      using v by (simp_all add: mul64_exact ALIGNMENT_def)
    have "search_free_block_bin cfg (64 * v + 1) 0 = search_free_block_bin cfg (64 * u) 0"
    proof (cases "64 * u \<le> max_bin_bytes_aligned cfg")
      case True
      have r: "round_up (64 * v + 1) 64 = 64 * u" using v by (simp add: round_up_def)
      have "least_bin cfg (64 * v + 1) (search_free_block_bin cfg (64 * v + 1) 0)"
        using True v by (intro search_least_all [OF ok]) simp
      then have "least_bin cfg (64 * u) (search_free_block_bin cfg (64 * v + 1) 0)"
        using least_bin_round [OF ok] r by metis
      then show ?thesis using least_bin_unique search_least_all [OF ok True] by blast
    next
      case False
      have "max_bin_bytes_aligned cfg \<le> 64 * v"
        using max_bin_facts(2) [OF ok] False v by (auto elim!: dvdE)
      then show ?thesis using search_beyond [OF ok] False v by simp
    qed
    then show ?thesis using lookup_entry [OF ok, of u] v m by simp
  qed
  then show ?thesis using lookup_entry [OF ok, of 0]
    by (simp add: small_bin_lookup_is_exact_def SMALL_BIN_LOOKUP_UNITS_def list_all_iff del: set_upt upt_Suc)
qed

lemma free_block_bin_index_least:
  assumes ok: "config_ok cfg" and b: "bytes \<le> max_bin_bytes_aligned cfg"
  shows "least_bin cfg bytes (free_block_bin_index cfg bytes)"
proof -
  note mx = max_bin_facts [OF ok]
  define units where "units = (bytes + 63) div 64"
  have u: "sub64 (add64 bytes ALIGNMENT) 1 div ALIGNMENT = units"
    using b mx by (simp add: units_def ALIGNMENT_def add64_exact sub64_exact)
  have r: "round_up bytes 64 = 64 * units" by (simp add: round_up_def units_def)
  have ru: "64 * units \<le> max_bin_bytes_aligned cfg"
    unfolding r [symmetric] by (rule round_up_mono_dvd [OF mx(2) b]) simp
  show ?thesis
  proof (cases "units \<le> 1024")
    case True
    then have i: "free_block_bin_index cfg bytes = search_free_block_bin cfg (64 * units) 0"
      using b u lookup_entry [OF ok True] by (simp add: free_block_bin_index_def config_simps Let_def)
    have l: "least_bin cfg bytes (search_free_block_bin cfg bytes 0)" using search_least_all [OF ok b] .
    then have "least_bin cfg (64 * units) (search_free_block_bin cfg bytes 0)"
      using least_bin_round [OF ok] r by metis
    then have "search_free_block_bin cfg bytes 0 = search_free_block_bin cfg (64 * units) 0"
      using least_bin_unique search_least_all [OF ok ru] by blast
    then show ?thesis using l i by simp
  next
    case False
    then have big: "65536 < bytes" unfolding units_def by linarith
    let ?lo = "search_free_block_bin cfg 65536 0"
    have lo: "least_bin cfg 65536 ?lo" using big b by (intro search_least_all [OF ok]) simp
    have i: "free_block_bin_index cfg bytes = search_free_block_bin cfg bytes ?lo"
      using b u False lookup_entry [OF ok, of 1024] by (simp add: free_block_bin_index_def config_simps Let_def)
    show ?thesis unfolding i
      by (rule search_least [OF ok b]) (use lo big in \<open>auto simp: least_bin_def\<close>)
  qed
qed

text \<open>What a bin wastes of a request: at most the percentage, and the rounding to 64 bytes.\<close>

lemma least_bin_waste:
  assumes ok: "config_ok cfg" and l: "least_bin cfg bytes i"
  shows "100 * bin_size cfg i < (100 + max_waste_percent cfg) * bytes + 6500"
proof (cases "i = 0")
  case True
  then show ?thesis using bin_sizes(7) [OF ok, of i] l by (simp add: least_bin_def)
next
  case False
  then have i: "i < NUM_NON_SENTINEL_FREE_BLOCK_BINS cfg" "0 < i" "bin_size cfg (i - 1) \<le> bytes"
    using l by (auto simp: least_bin_def intro: less_imp_le)
  have "100 * bin_size cfg i < (100 + max_waste_percent cfg) * bin_size cfg (i - 1) + 6500"
    using bin_sizes(6) [OF ok i(1,2)] .
  also have "\<dots> \<le> (100 + max_waste_percent cfg) * bytes + 6500" using i(3) by simp
  finally show ?thesis .
qed

section \<open>Properties\<close>

text \<open>C25: The size-class lookup of the single arena: for every configuration the static assertions
  admit, the table lookup and the binary search beyond it return the least bin that holds the
  request, whose size is a multiple of 64 and exceeds the request by at most the configured
  percentage plus the rounding to 64 bytes.\<close>

theorem free_block_bin_index_exact:
  assumes "config_ok cfg" and "bytes \<le> MAX_ALLOCATION_SIZE_INTERNAL cfg"
  shows "free_block_bin_index cfg bytes < NUM_FREE_BLOCK_BINS cfg - 1 \<and>
    bytes \<le> FREE_BLOCK_BIN_SIZES cfg ! free_block_bin_index cfg bytes \<and>
    (\<forall>j<free_block_bin_index cfg bytes. FREE_BLOCK_BIN_SIZES cfg ! j < bytes) \<and>
    64 dvd FREE_BLOCK_BIN_SIZES cfg ! free_block_bin_index cfg bytes \<and>
    100 * FREE_BLOCK_BIN_SIZES cfg ! free_block_bin_index cfg bytes < (100 + max_waste_percent cfg) * bytes + 6500"
proof -
  have l: "least_bin cfg bytes (free_block_bin_index cfg bytes)"
    using free_block_bin_index_least [OF assms(1)] assms(2) by (simp add: MAX_ALLOCATION_SIZE_INTERNAL_def)
  show ?thesis
    using l least_bin_waste [OF assms(1) l] bin_sizes(1) [OF assms(1)]
    by (simp add: least_bin_def NUM_FREE_BLOCK_BINS_def bin_size_def)
qed

theorem free_block_bin_index_exact_witness:
  "config_ok default_config \<and> free_block_bin_index default_config 1000000 < NUM_FREE_BLOCK_BINS default_config - 1"
proof -
  have a: "max_bin_bytes_aligned default_config = 33554432"
    by (simp add: max_bin_bytes_aligned_def align_up_bin_size_def lockfree_aligned_size_def default_config_def
        ALIGNMENT_def add64_exact sub64_exact mul64_exact)
  then have ok: "config_ok default_config"
    by (simp add: config_ok_def MAX_ALLOCATION_SIZE_INTERNAL_def) (simp add: default_config_def)
  show ?thesis using free_block_bin_index_exact [OF ok, of 1000000] ok a
    by (simp add: MAX_ALLOCATION_SIZE_INTERNAL_def)
qed

text \<open>The static assertion that the lookup table agrees with the search holds for every
  configuration, not only for the one instantiated.\<close>

theorem small_bin_lookup_exact:
  assumes "config_ok cfg"
  shows "small_bin_lookup_is_exact cfg"
  by (rule lookup_is_exact [OF assms])

theorem small_bin_lookup_exact_witness:
  "small_bin_lookup_is_exact \<lparr>max_bin_bytes = 1025, max_waste_percent = 25, maintenance_window_threshold = 1, pointer_rule = zero_bits\<rparr>"
proof (rule small_bin_lookup_exact)
  show "config_ok \<lparr>max_bin_bytes = 1025, max_waste_percent = 25, maintenance_window_threshold = 1, pointer_rule = zero_bits\<rparr>"
    by (simp add: config_ok_def MAX_ALLOCATION_SIZE_INTERNAL_def max_bin_bytes_aligned_def align_up_bin_size_def
        lockfree_aligned_size_def ALIGNMENT_def add64_exact sub64_exact mul64_exact)
qed

end
