(* ===== verification/State_Words.thy ===== *)
theory State_Words
  imports Size_Classes
begin

text \<open>
  The packed words of \<^verbatim>\<open>pmr::lockfree_single_arena_resource_impl\<close>: the state word of a metadata
  record, which holds a block's offset, its allocation state and a version, and the frontier
  word, which holds the end of the allocated blocks and the block that ends there.
\<close>

section \<open>Allocation states\<close>

datatype allocation_state =
    INVALID | IN_USE | DEALLOCATED_PENDING | AVAILABLE | METADATA_AVAILABLE | LOCKED
  | FRONTIER_RECLAIM_IN_PROGRESS | FRONTIER_RECLAIMED

primrec state_code :: "allocation_state \<Rightarrow> nat" where
  "state_code INVALID = 0"
| "state_code IN_USE = 1"
| "state_code DEALLOCATED_PENDING = 2"
| "state_code AVAILABLE = 3"
| "state_code METADATA_AVAILABLE = 4"
| "state_code LOCKED = 5"
| "state_code FRONTIER_RECLAIM_IN_PROGRESS = 6"
| "state_code FRONTIER_RECLAIMED = 7"

lemma state_code_less [simp]: "state_code x < 16"
  by (cases x) simp_all

lemma state_code_inject [simp]: "state_code x = state_code y \<longleftrightarrow> x = y"
  by (cases x; cases y) simp_all

section \<open>The state word: [version:12][state:4][offset:48]\<close>

definition OFFSET_BITS :: nat where "OFFSET_BITS = 48"
definition STATE_BITS :: nat where "STATE_BITS = 4"
definition VERSION_BITS :: nat where "VERSION_BITS = 12"

definition OFFSET_MASK :: u64 where "OFFSET_MASK = push_bit OFFSET_BITS 1 - 1"
definition STATE_MASK :: u64 where "STATE_MASK = push_bit STATE_BITS 1 - 1"
definition VERSION_MASK :: u64 where "VERSION_MASK = push_bit VERSION_BITS 1 - 1"
definition NULL_OFFSET :: u64 where "NULL_OFFSET = OFFSET_MASK"

text \<open>\<open>None\<close> is the trap of the assertions on the pointer.\<close>

definition encode_offset :: "addr \<Rightarrow> addr \<Rightarrow> u64 option" where
  "encode_offset p arena_base =
     (if p = 0 then Some NULL_OFFSET
      else let offset = p - arena_base
           in if p \<ge> arena_base \<and> offset < unat NULL_OFFSET \<and> offset mod 64 = 0 then Some (of_nat offset)
              else None)"

definition bs_fields :: "u64 \<Rightarrow> nat \<Rightarrow> nat \<Rightarrow> u64" where
  "bs_fields offset st version =
     ((offset AND OFFSET_MASK) OR push_bit OFFSET_BITS (of_nat st AND STATE_MASK) OR
       push_bit (OFFSET_BITS + STATE_BITS) (of_nat version AND VERSION_MASK))"

definition bs_pack :: "addr \<Rightarrow> addr \<Rightarrow> allocation_state \<Rightarrow> nat \<Rightarrow> u64 option" where
  "bs_pack p arena_base st version =
     map_option (\<lambda>offset. bs_fields offset (state_code st) version) (encode_offset p arena_base)"

definition bs_unpack_ptr :: "u64 \<Rightarrow> addr \<Rightarrow> addr" where
  "bs_unpack_ptr w arena_base =
     (let offset = w AND OFFSET_MASK
      in if offset = NULL_OFFSET then 0 else add64 arena_base (unat offset))"

definition bs_unpack_state :: "u64 \<Rightarrow> nat" where
  "bs_unpack_state w = unat (drop_bit OFFSET_BITS w AND STATE_MASK) mod 256"

definition bs_unpack_version :: "u64 \<Rightarrow> nat" where
  "bs_unpack_version w = unat (drop_bit (OFFSET_BITS + STATE_BITS) w AND VERSION_MASK) mod 65536"

definition with_state :: "u64 \<Rightarrow> allocation_state \<Rightarrow> u64" where
  "with_state w st =
     ((w AND NOT (push_bit OFFSET_BITS STATE_MASK)) OR push_bit OFFSET_BITS (of_nat (state_code st) AND STATE_MASK))"

definition increment_version :: "u64 \<Rightarrow> u64" where
  "increment_version w =
     (let new_version = (bs_unpack_version w + 1) mod 65536
      in (w AND NOT (push_bit (OFFSET_BITS + STATE_BITS) VERSION_MASK)) OR
         push_bit (OFFSET_BITS + STATE_BITS) (of_nat new_version AND VERSION_MASK))"

definition with_state_and_increment_version :: "u64 \<Rightarrow> allocation_state \<Rightarrow> u64" where
  "with_state_and_increment_version w st = increment_version (with_state w st)"

lemma word_masks: "OFFSET_MASK = mask 48" "STATE_MASK = mask 4" "VERSION_MASK = mask 12" "NULL_OFFSET = mask 48"
  by (simp_all add: OFFSET_MASK_def STATE_MASK_def VERSION_MASK_def NULL_OFFSET_def OFFSET_BITS_def
      STATE_BITS_def VERSION_BITS_def mask_eq_exp_minus_1)

lemmas word_bits = word_masks OFFSET_BITS_def STATE_BITS_def VERSION_BITS_def

text \<open>The three fields of a word, and a word as the join of its fields.\<close>

definition offset_field :: "u64 \<Rightarrow> u64" where "offset_field w = take_bit 48 w"
definition state_field :: "u64 \<Rightarrow> u64" where "state_field w = take_bit 4 (drop_bit 48 w)"
definition version_field :: "u64 \<Rightarrow> u64" where "version_field w = take_bit 12 (drop_bit 52 w)"

lemma fields_pack:
  "offset_field (bs_fields x st v) = take_bit 48 x" "state_field (bs_fields x st v) = take_bit 4 (of_nat st)"
  "version_field (bs_fields x st v) = take_bit 12 (of_nat v)"
  by (rule bit_word_eqI; auto simp: offset_field_def state_field_def version_field_def bs_fields_def
      word_bits bit_simps add.commute)+

lemma fields_with_state:
  "offset_field (with_state w st) = offset_field w" "state_field (with_state w st) = of_nat (state_code st)"
  "version_field (with_state w st) = version_field w"
proof -
  have c: "take_bit 4 (of_nat (state_code st) :: u64) = of_nat (state_code st)"
    by (cases st) (simp_all add: take_bit_eq_mod)
  have "state_field (with_state w st) = take_bit 4 (of_nat (state_code st))"
    by (rule bit_word_eqI) (auto simp: state_field_def with_state_def word_bits bit_simps add.commute)
  then show "state_field (with_state w st) = of_nat (state_code st)" using c by simp
  show "offset_field (with_state w st) = offset_field w" "version_field (with_state w st) = version_field w"
    by (rule bit_word_eqI; auto simp: offset_field_def version_field_def with_state_def word_bits bit_simps)+
qed

lemma fields_increment:
  "offset_field (increment_version w) = offset_field w" "state_field (increment_version w) = state_field w"
  "version_field (increment_version w) = take_bit 12 (of_nat ((bs_unpack_version w + 1) mod 65536))"
  by (rule bit_word_eqI; auto simp: offset_field_def state_field_def version_field_def increment_version_def
      word_bits bit_simps Let_def add.commute)+

lemma unpack_state_field: "bs_unpack_state w = unat (state_field w)"
proof -
  have "drop_bit 48 w AND mask 4 = state_field w" by (simp add: state_field_def take_bit_eq_mask)
  moreover have "unat (state_field w) < 2 ^ 4"
    unfolding state_field_def unsigned_take_bit_eq by (rule take_bit_nat_less_exp)
  ultimately show ?thesis by (simp add: bs_unpack_state_def word_bits)
qed

lemma unpack_version_field: "bs_unpack_version w = unat (version_field w)"
proof -
  have v: "drop_bit 52 w AND mask 12 = version_field w" by (simp add: version_field_def take_bit_eq_mask)
  have "unat (version_field w) < 2 ^ 12"
    unfolding version_field_def unsigned_take_bit_eq by (rule take_bit_nat_less_exp)
  then show ?thesis using v by (simp add: bs_unpack_version_def word_bits)
qed

lemma unpack_ptr_field: "bs_unpack_ptr w b = (if offset_field w = mask 48 then 0 else add64 b (unat (offset_field w)))"
  by (simp add: bs_unpack_ptr_def word_bits offset_field_def take_bit_eq_mask Let_def)

text \<open>What each update of a state word leaves and changes.\<close>

lemma unpack_with_state [simp]:
  "bs_unpack_ptr (with_state w st) b = bs_unpack_ptr w b"
  "bs_unpack_state (with_state w st) = state_code st"
  "bs_unpack_version (with_state w st) = bs_unpack_version w"
proof -
  have "state_code st < 16" by simp
  then have "unat (of_nat (state_code st) :: u64) = state_code st" by (cases st) simp_all
  then show "bs_unpack_ptr (with_state w st) b = bs_unpack_ptr w b"
    "bs_unpack_state (with_state w st) = state_code st"
    "bs_unpack_version (with_state w st) = bs_unpack_version w"
    by (simp_all add: unpack_ptr_field unpack_state_field unpack_version_field fields_with_state)
qed

lemma unat_take12: "unat (take_bit 12 (of_nat n :: u64)) = n mod 4096"
proof -
  have "(4096 :: nat) dvd 18446744073709551616" by simp
  then show ?thesis unfolding unsigned_take_bit_eq by (simp add: unat_of_nat take_bit_eq_mod mod_mod_cancel)
qed

lemma unpack_increment [simp]:
  "bs_unpack_ptr (increment_version w) b = bs_unpack_ptr w b"
  "bs_unpack_state (increment_version w) = bs_unpack_state w"
  "bs_unpack_version (increment_version w) = (bs_unpack_version w + 1) mod 4096"
proof -
  have "(4096 :: nat) dvd 65536" by simp
  then show "bs_unpack_version (increment_version w) = (bs_unpack_version w + 1) mod 4096"
    by (simp only: unpack_version_field fields_increment unat_take12 mod_mod_cancel)
  show "bs_unpack_ptr (increment_version w) b = bs_unpack_ptr w b"
    "bs_unpack_state (increment_version w) = bs_unpack_state w"
    by (simp_all add: unpack_ptr_field unpack_state_field fields_increment)
qed

text \<open>The pointers a state word of an arena can hold.\<close>

definition offset_ok :: "addr \<Rightarrow> addr \<Rightarrow> bool" where
  "offset_ok b p \<longleftrightarrow> p = 0 \<or> (b \<le> p \<and> p - b < 2 ^ 48 - 1 \<and> 64 dvd p - b \<and> p < 18446744073709551616)"

lemma bs_pack_unpack:
  assumes "offset_ok b p"
  shows "\<exists>w. bs_pack p b st v = Some w \<and> bs_unpack_ptr w b = p \<and> bs_unpack_state w = state_code st \<and>
    bs_unpack_version w = v mod 4096"
proof -
  have m: "unat (mask 48 :: u64) = 281474976710655" by (simp add: mask_eq_exp_minus_1)
  have s: "unat (take_bit 4 (of_nat (state_code st)) :: u64) = state_code st"
    by (cases st) (simp_all add: take_bit_eq_mod)
  show ?thesis
  proof (cases "p = 0")
    case True
    let ?w = "bs_fields NULL_OFFSET (state_code st) v"
    have "offset_field ?w = mask 48"
      unfolding fields_pack word_masks by (rule bit_word_eqI) (auto simp: bit_simps)
    then show ?thesis using True s
      by (simp add: bs_pack_def encode_offset_def unpack_ptr_field unpack_state_field unpack_version_field
          fields_pack unat_take12)
  next
    case False
    define d where "d = p - b"
    have d: "d < 281474976710655" "64 dvd d" "p = b + d" "p < 18446744073709551616"
      using assms False by (auto simp: offset_ok_def d_def)
    let ?w = "bs_fields (of_nat d) (state_code st) v"
    have u: "unat (of_nat d :: u64) = d" using d by (simp add: unat_of_nat)
    have "offset_field ?w = of_nat d"
    proof -
      have "unat (take_bit 48 (of_nat d :: u64)) = d"
        unfolding unsigned_take_bit_eq using d u by (simp add: take_bit_eq_mod)
      then show ?thesis using u by (metis fields_pack(1) word_unat_eq_iff)
    qed
    moreover have "(of_nat d :: u64) \<noteq> mask 48" using m u d(1) by auto
    moreover have "bs_pack p b st v = Some ?w"
      using False d m by (auto simp: bs_pack_def encode_offset_def word_masks)
    moreover have "bs_unpack_ptr ?w b = p"
      using calculation(1,2) u d by (simp add: unpack_ptr_field add64_exact)
    ultimately show ?thesis using s
      by (simp add: unpack_state_field unpack_version_field fields_pack unat_take12)
  qed
qed

section \<open>The frontier word: [predecessor:32][frontier:32]\<close>

definition NO_PREDECESSOR :: nat where "NO_PREDECESSOR = 4294967295"

text \<open>Blocks as unit offsets from \<^verbatim>\<open>allocation_base_\<close>.\<close>

definition to_frontier_units :: "addr \<Rightarrow> addr \<Rightarrow> nat" where
  "to_frontier_units base_addr p = (sub64 p base_addr div ALIGNMENT) mod 4294967296"

definition from_frontier_units :: "addr \<Rightarrow> nat \<Rightarrow> addr" where
  "from_frontier_units base_addr units = add64 base_addr (mul64 units ALIGNMENT)"

definition pack_frontier :: "addr \<Rightarrow> addr \<Rightarrow> addr \<Rightarrow> u64" where
  "pack_frontier base_addr frontier predecessor =
     (let predecessor_units = (if predecessor = 0 then NO_PREDECESSOR else to_frontier_units base_addr predecessor)
      in (push_bit 32 (of_nat predecessor_units) OR of_nat (to_frontier_units base_addr frontier)))"

definition unpack_frontier :: "addr \<Rightarrow> u64 \<Rightarrow> addr" where
  "unpack_frontier base_addr w = from_frontier_units base_addr (unat w mod 4294967296)"

definition unpack_predecessor :: "addr \<Rightarrow> u64 \<Rightarrow> addr" where
  "unpack_predecessor base_addr w =
     (let predecessor_units = unat (drop_bit 32 w) mod 4294967296
      in if predecessor_units = NO_PREDECESSOR then 0 else from_frontier_units base_addr predecessor_units)"

definition frontier_ok :: "addr \<Rightarrow> addr \<Rightarrow> bool" where
  "frontier_ok base_addr p \<longleftrightarrow> base_addr \<le> p \<and> p < 18446744073709551616 \<and> 64 dvd p - base_addr \<and>
     (p - base_addr) div 64 < 4294967295"

lemma frontier_units:
  assumes "frontier_ok b p"
  shows "to_frontier_units b p < 4294967295" and "from_frontier_units b (to_frontier_units b p) = p"
proof -
  obtain k where k: "p = b + 64 * k" "k < 4294967295" "p < 18446744073709551616"
    using assms by (auto simp: frontier_ok_def elim!: dvdE) (metis le_add_diff_inverse)
  then have t: "to_frontier_units b p = k"
    by (simp add: to_frontier_units_def ALIGNMENT_def sub64_exact)
  show "to_frontier_units b p < 4294967295" using t k by simp
  show "from_frontier_units b (to_frontier_units b p) = p"
    using t k by (simp add: from_frontier_units_def ALIGNMENT_def mul64_exact add64_exact mult.commute)
qed

lemma frontier_pack_unpack:
  assumes f: "frontier_ok b f" and p: "p = 0 \<or> frontier_ok b p"
  shows "unpack_frontier b (pack_frontier b f p) = f" and "unpack_predecessor b (pack_frontier b f p) = p"
proof -
  define u where "u = to_frontier_units b f"
  define v where "v = (if p = 0 then NO_PREDECESSOR else to_frontier_units b p)"
  have u: "u < 4294967296" using frontier_units(1) [OF f] by (simp add: u_def)
  have v: "v < 4294967296" using p frontier_units(1) [of b p] by (auto simp: v_def NO_PREDECESSOR_def)
  have w: "pack_frontier b f p = join_fields 32 (of_nat v) (of_nat u)"
    by (simp add: pack_frontier_def join_fields_def u_def v_def)
  have low: "take_bit 32 (of_nat u :: u64) = of_nat u"
    unfolding word_unat_eq_iff unsigned_take_bit_eq using u by (simp add: unat_of_nat take_bit_eq_mod)
  have "take_bit 32 (unat (pack_frontier b f p)) = u"
    unfolding unsigned_take_bit_eq [symmetric] w join_fields_low [OF low] using u by (simp add: unat_of_nat)
  then show "unpack_frontier b (pack_frontier b f p) = f"
    using frontier_units(2) [OF f] by (simp add: unpack_frontier_def take_bit_eq_mod u_def)
  have "unat (drop_bit 32 (pack_frontier b f p)) = v"
    unfolding w join_fields_high [OF low] unsigned_take_bit_eq using v by (simp add: unat_of_nat take_bit_eq_mod)
  then have "unpack_predecessor b (pack_frontier b f p) = (if v = NO_PREDECESSOR then 0 else from_frontier_units b v)"
    using v by (simp only: unpack_predecessor_def Let_def mod_less)
  then show "unpack_predecessor b (pack_frontier b f p) = p"
    using p frontier_units [of b p] by (auto simp: v_def NO_PREDECESSOR_def)
qed

end
