(* ===== verification/Single_Arena.thy ===== *)
theory Single_Arena
  imports Memory_Resource Statistics Extended_Statistics State_Words Tagged_Stack "HOL-Library.Monad_Syntax"
begin

text \<open>
  \<^verbatim>\<open>pmr::lockfree_single_arena_resource_impl\<close>
  (\<^verbatim>\<open>include/__memory_resource/lockfree_single_arena_resource.h\<close>): blocks grow upwards from the
  start of one arena, metadata records downwards from its end; freed blocks wait on per-CPU
  pending lists until a maintenance window rolls the frontier back over them or files them in
  the free bins.

  An operation is one call that runs without interference: a compare-exchange that directly
  follows the load of its expected value succeeds, and the branches that only interference can
  reach (a retry, an undo) are left to the interleaved models of \<open>Tagged_Stack\<close> and \<open>Arena_Bins\<close>.  Arena memory is
  kept as one map per field: the fields of a block header by the header's address, the fields of
  a metadata record by the record's address.  \<open>None\<close> is a trap of an assertion or a loop without
  an end.
\<close>

section \<open>State\<close>

definition METADATA_RECORDS_PER_BLOCK :: nat where "METADATA_RECORDS_PER_BLOCK = 4096"
definition ALLOCATION_METADATA_SIZE :: nat where "ALLOCATION_METADATA_SIZE = 64"
definition METADATA_BLOCK_BYTES :: nat where
  "METADATA_BLOCK_BYTES = METADATA_RECORDS_PER_BLOCK * ALLOCATION_METADATA_SIZE"
definition NULL_INDEX :: nat where "NULL_INDEX = 4294967295"
definition NUM_ADDRESS_BINS :: nat where "NUM_ADDRESS_BINS = 8"
definition PENDING_SHARD_SIZE :: nat where "PENDING_SHARD_SIZE = 64"
definition FREE_BLOCK_BIN_SIZE :: nat where "FREE_BLOCK_BIN_SIZE = 64"
definition BLOCK_MANAGER_SIZE :: nat where "BLOCK_MANAGER_SIZE = 64"

lemmas sa_constants = METADATA_RECORDS_PER_BLOCK_def ALLOCATION_METADATA_SIZE_def METADATA_BLOCK_BYTES_def
  NULL_INDEX_def NUM_ADDRESS_BINS_def PENDING_SHARD_SIZE_def FREE_BLOCK_BIN_SIZE_def BLOCK_MANAGER_SIZE_def
  ALIGNMENT_def ALLOCATION_HEADER_SIZE_def

record metadata_block_manager =
  local_free_head :: u64
  state_and_active_count :: u32

record pending_shard =
  shard_head :: u64
  shard_count :: nat
  maintenance_window_open :: bool

record single_arena =
  arena_block :: addr
  arena_block_size :: nat
  metadata_start :: addr
  next_empty_memory_block :: u64
  frontier_reclaim_in_progress :: bool
  metadata_record_count :: nat
  block_managers :: "metadata_block_manager list"
  pending_shards :: "pending_shard list"
  free_block_bins :: "nat \<Rightarrow> nat \<Rightarrow> u64"
  cpu_shards :: nat
  allocation_base :: addr
  address_bin_size :: nat
  usable :: bool
  hdr_metadata_index :: "addr \<Rightarrow> nat"
  hdr_size :: "addr \<Rightarrow> nat"
  hdr_previous :: "addr \<Rightarrow> addr"
  md_block_state :: "addr \<Rightarrow> u64"
  md_requested_size :: "addr \<Rightarrow> nat"
  md_total_size :: "addr \<Rightarrow> nat"
  md_alignment :: "addr \<Rightarrow> nat"
  md_original_shard :: "addr \<Rightarrow> nat"
  next_free_block_index :: "addr \<Rightarrow> nat"
  next_free_header_index :: "addr \<Rightarrow> nat"
  sa_statistics :: "statistics option"
  sa_extended :: "extended_statistics option"

text \<open>The statistics bases are optional: \<open>None\<close> where the template leaves them out.\<close>

definition extended :: "(extended_statistics \<Rightarrow> extended_statistics) \<Rightarrow> single_arena \<Rightarrow> single_arena" where
  "extended f s = s\<lparr>sa_extended := map_option f (sa_extended s)\<rparr>"

definition counted :: "(statistics \<Rightarrow> statistics) \<Rightarrow> single_arena \<Rightarrow> single_arena" where
  "counted f s = s\<lparr>sa_statistics := map_option f (sa_statistics s)\<rparr>"

section \<open>Records, indices and stacks\<close>

definition index_to_metadata :: "addr \<Rightarrow> nat \<Rightarrow> addr" where
  "index_to_metadata start index =
     (if index = NULL_INDEX then 0 else sub64 start (mul64 index ALLOCATION_METADATA_SIZE))"

definition metadata_to_index :: "addr \<Rightarrow> addr \<Rightarrow> nat" where
  "metadata_to_index start p =
     (if p = 0 then NULL_INDEX else (sub64 start p div ALLOCATION_METADATA_SIZE) mod 4294967296)"

definition stack_adapter :: "addr \<Rightarrow> adapter" where
  "stack_adapter start = \<lparr>to_link = metadata_to_index start, to_node = index_to_metadata start\<rparr>"

definition metadata_tag :: "arena_config \<Rightarrow> codec" where
  "metadata_tag cfg = tagged_ptr_codec (pointer_rule cfg) 16"

definition push_block :: "arena_config \<Rightarrow> addr \<Rightarrow> u64 \<Rightarrow> single_arena \<Rightarrow> u64 \<times> single_arena" where
  "push_block cfg md head s =
     (case push (metadata_tag cfg) (stack_adapter (metadata_start s)) md (head, next_free_block_index s) of
        (h, l) \<Rightarrow> (h, s\<lparr>next_free_block_index := l\<rparr>))"

definition pop_block :: "arena_config \<Rightarrow> u64 \<Rightarrow> single_arena \<Rightarrow> addr \<times> u64 \<times> single_arena" where
  "pop_block cfg head s =
     (case pop (metadata_tag cfg) (stack_adapter (metadata_start s)) (head, next_free_block_index s) of
        (md, h, l) \<Rightarrow> (md, h, s\<lparr>next_free_block_index := l\<rparr>))"

definition push_header :: "arena_config \<Rightarrow> addr \<Rightarrow> u64 \<Rightarrow> single_arena \<Rightarrow> u64 \<times> single_arena" where
  "push_header cfg md head s =
     (case push (metadata_tag cfg) (stack_adapter (metadata_start s)) md (head, next_free_header_index s) of
        (h, l) \<Rightarrow> (h, s\<lparr>next_free_header_index := l\<rparr>))"

definition pop_header :: "arena_config \<Rightarrow> u64 \<Rightarrow> single_arena \<Rightarrow> addr \<times> u64 \<times> single_arena" where
  "pop_header cfg head s =
     (case pop (metadata_tag cfg) (stack_adapter (metadata_start s)) (head, next_free_header_index s) of
        (md, h, l) \<Rightarrow> (md, h, s\<lparr>next_free_header_index := l\<rparr>))"

section \<open>The managers of the metadata blocks\<close>

definition TRIMMING_MASK :: u32 where "TRIMMING_MASK = 2147483648"
definition ACTIVE_COUNT_MASK :: u32 where "ACTIVE_COUNT_MASK = NOT TRIMMING_MASK"

definition reserve_active_slot :: "metadata_block_manager \<Rightarrow> metadata_block_manager option" where
  "reserve_active_slot m =
     (let current = state_and_active_count m
      in if current AND TRIMMING_MASK \<noteq> 0 then None
         else if current AND ACTIVE_COUNT_MASK = ACTIVE_COUNT_MASK then None
         else Some (m\<lparr>state_and_active_count := current + 1\<rparr>))"

definition release_active_slot :: "metadata_block_manager \<Rightarrow> metadata_block_manager" where
  "release_active_slot m = m\<lparr>state_and_active_count := state_and_active_count m - 1\<rparr>"

definition manager_of :: "nat \<Rightarrow> nat" where
  "manager_of metadata_index = metadata_index div METADATA_RECORDS_PER_BLOCK"

definition update_manager :: "nat \<Rightarrow> (metadata_block_manager \<Rightarrow> metadata_block_manager) \<Rightarrow> single_arena \<Rightarrow> single_arena" where
  "update_manager i f s = s\<lparr>block_managers := (block_managers s)[i := f (block_managers s ! i)]\<rparr>"

definition update_shard :: "nat \<Rightarrow> (pending_shard \<Rightarrow> pending_shard) \<Rightarrow> single_arena \<Rightarrow> single_arena" where
  "update_shard i f s = s\<lparr>pending_shards := (pending_shards s)[i := f (pending_shards s ! i)]\<rparr>"

definition set_state_word :: "addr \<Rightarrow> u64 \<Rightarrow> single_arena \<Rightarrow> single_arena" where
  "set_state_word md w s = s\<lparr>md_block_state := (md_block_state s)(md := w)\<rparr>"

definition get_state :: "single_arena \<Rightarrow> addr \<Rightarrow> nat" where
  "get_state s md = bs_unpack_state (md_block_state s md)"

definition get_memory_block :: "single_arena \<Rightarrow> addr \<Rightarrow> addr" where
  "get_memory_block s md = bs_unpack_ptr (md_block_state s md) (arena_block s)"

definition frontier :: "single_arena \<Rightarrow> addr" where
  "frontier s = unpack_frontier (allocation_base s) (next_empty_memory_block s)"

definition recycle_metadata :: "arena_config \<Rightarrow> addr \<Rightarrow> single_arena \<Rightarrow> single_arena option" where
  "recycle_metadata cfg md s = do {
     let new_version = bs_unpack_version (md_block_state s md);
     w \<leftarrow> bs_pack 0 (arena_block s) METADATA_AVAILABLE new_version;
     let s = set_state_word md w s;
     let m = manager_of (metadata_to_index (metadata_start s) md);
     let (h, s) = push_header cfg md (local_free_head (block_managers s ! m)) s;
     let s = update_manager m (local_free_head_update (\<lambda>_. h)) s;
     Some (update_manager m release_active_slot s)
   }"

section \<open>The boundary between blocks and records\<close>

definition frontier_overlaps_metadata :: "single_arena \<Rightarrow> addr \<Rightarrow> bool" where
  "frontier_overlaps_metadata s nxt \<longleftrightarrow>
     nxt \<ge> sub64 (metadata_start s) (mul64 (add64 (metadata_record_count s) 1) ALLOCATION_METADATA_SIZE)"

datatype metadata_growth_result = GROWN | RETRY | NO_ROOM

definition grow_metadata_region :: "nat \<Rightarrow> single_arena \<Rightarrow> metadata_growth_result \<times> nat \<times> single_arena" where
  "grow_metadata_region current_count s =
     (let new_metadata_end = sub64 (metadata_start s) (mul64 (add64 current_count 1) ALLOCATION_METADATA_SIZE)
      in if frontier s \<noteq> 0 \<and> new_metadata_end \<le> frontier s then (NO_ROOM, current_count, s)
         else if metadata_record_count s \<noteq> current_count then (RETRY, metadata_record_count s, s)
         else let s = s\<lparr>metadata_record_count := add64 current_count 1\<rparr>
              in if frontier s = 0 \<or> new_metadata_end > frontier s then (GROWN, current_count, s)
                 else (NO_ROOM, current_count, s\<lparr>metadata_record_count := current_count\<rparr>))"

definition address_bin_for :: "single_arena \<Rightarrow> addr \<Rightarrow> nat" where
  "address_bin_for s p =
     (if p \<le> allocation_base s then 0
      else let bin = sub64 p (allocation_base s) div address_bin_size s
           in if bin \<ge> NUM_ADDRESS_BINS then NUM_ADDRESS_BINS - 1 else bin)"

definition cpu_shard_index :: "nat \<Rightarrow> single_arena \<Rightarrow> nat" where
  "cpu_shard_index cpu_id s = (if cpu_id < cpu_shards s then cpu_id else cpu_id mod cpu_shards s)"

definition get_next_empty_memory_block :: "arena_config \<Rightarrow> nat \<Rightarrow> single_arena \<Rightarrow> addr \<times> single_arena" where
  "get_next_empty_memory_block cfg bin s =
     (let allocation_size = FREE_BLOCK_BIN_SIZES cfg ! bin;
          current_tag = next_empty_memory_block s;
          current = frontier s;
          nxt = lockfree_align_pointer (add64 current allocation_size) ALIGNMENT
      in if frontier_overlaps_metadata s nxt then (0, s)
         else let s = s\<lparr>next_empty_memory_block := pack_frontier (allocation_base s) nxt current\<rparr>
              in if frontier_overlaps_metadata s nxt then (0, s\<lparr>next_empty_memory_block := current_tag\<rparr>)
              else (current, s\<lparr>hdr_size := (hdr_size s)(current := sub64 nxt current),
                             hdr_previous := (hdr_previous s)(current :=
                               unpack_predecessor (allocation_base s) current_tag)\<rparr>))"

section \<open>Maintenance\<close>

text \<open>
  Rolling the frontier back over a batch of pending records: the first entry whose block ends at
  the frontier is claimed, its block given back and its record recycled, until none is left.
\<close>

definition ends_at_frontier :: "single_arena \<Rightarrow> addr \<Rightarrow> bool" where
  "ends_at_frontier s md \<longleftrightarrow> md \<noteq> 0 \<and> get_state s md = state_code DEALLOCATED_PENDING \<and>
     add64 (get_memory_block s md) (md_total_size s md) = frontier s"

partial_function (option) reclaim_pending_frontier_batch_locked ::
    "arena_config \<Rightarrow> addr list \<Rightarrow> single_arena \<Rightarrow> (addr list \<times> single_arena) option" where
  "reclaim_pending_frontier_batch_locked cfg batch s =
     (case find (\<lambda>i. ends_at_frontier s (batch ! i)) [0..<length batch] of
        None \<Rightarrow> Some (batch, s)
      | Some i \<Rightarrow>
          (let md = batch ! i;
               memory_block = get_memory_block s md;
               s = set_state_word md (with_state (md_block_state s md) FRONTIER_RECLAIM_IN_PROGRESS) s;
               s = s\<lparr>next_empty_memory_block :=
                     pack_frontier (allocation_base s) memory_block (hdr_previous s memory_block)\<rparr>
           in case recycle_metadata cfg md s of
                None \<Rightarrow> None
              | Some s \<Rightarrow> reclaim_pending_frontier_batch_locked cfg (batch[i := 0]) s))"

declare reclaim_pending_frontier_batch_locked.simps [code]

definition reclaim_pending_frontier_batch ::
    "arena_config \<Rightarrow> addr list \<Rightarrow> single_arena \<Rightarrow> (addr list \<times> single_arena) option" where
  "reclaim_pending_frontier_batch cfg batch s =
     (if frontier_reclaim_in_progress s then Some (batch, s)
      else do {
        (batch, s) \<leftarrow> reclaim_pending_frontier_batch_locked cfg batch (s\<lparr>frontier_reclaim_in_progress := True\<rparr>);
        Some (batch, s\<lparr>frontier_reclaim_in_progress := False\<rparr>) })"

text \<open>The walk from the frontier back over available blocks.\<close>

definition reclaimable :: "single_arena \<Rightarrow> addr \<Rightarrow> bool" where
  "reclaimable s prev \<longleftrightarrow> prev \<noteq> 0 \<and>
     (let meta_index = hdr_metadata_index s prev mod 4294967296;
          meta = sub64 (metadata_start s) (mul64 meta_index ALLOCATION_METADATA_SIZE)
      in meta_index < metadata_record_count s \<and> get_memory_block s meta = prev \<and>
         get_state s meta = state_code AVAILABLE)"

partial_function (option) try_reclaim_frontier_blocks_locked ::
    "bool \<Rightarrow> single_arena \<Rightarrow> (bool \<times> single_arena) option" where
  "try_reclaim_frontier_blocks_locked reclaimed_any s =
     (let prev = unpack_predecessor (allocation_base s) (next_empty_memory_block s)
      in if \<not> reclaimable s prev then Some (reclaimed_any, s)
         else let meta = sub64 (metadata_start s) (mul64 (hdr_metadata_index s prev mod 4294967296) ALLOCATION_METADATA_SIZE);
                  s = set_state_word meta (with_state (md_block_state s meta) FRONTIER_RECLAIM_IN_PROGRESS) s;
                  s = s\<lparr>next_empty_memory_block := pack_frontier (allocation_base s) prev (hdr_previous s prev)\<rparr>;
                  s = set_state_word meta (with_state (md_block_state s meta) FRONTIER_RECLAIMED) s
              in try_reclaim_frontier_blocks_locked True s)"

declare try_reclaim_frontier_blocks_locked.simps [code]

definition try_reclaim_frontier_blocks :: "single_arena \<Rightarrow> (bool \<times> single_arena) option" where
  "try_reclaim_frontier_blocks s =
     (if frontier_reclaim_in_progress s then Some (False, s)
      else do {
        (reclaimed_any, s) \<leftarrow> try_reclaim_frontier_blocks_locked False (s\<lparr>frontier_reclaim_in_progress := True\<rparr>);
        Some (reclaimed_any, s\<lparr>frontier_reclaim_in_progress := False\<rparr>) })"

text \<open>Dropping the records of idle managers from the tail of the metadata region.\<close>

partial_function (option) trim_metadata_records :: "arena_config \<Rightarrow> single_arena \<Rightarrow> single_arena option" where
  "trim_metadata_records cfg s =
     (let current_count = metadata_record_count s
      in if current_count = 0 then Some s
         else let tail_manager_index = (current_count - 1) div METADATA_RECORDS_PER_BLOCK
              in if tail_manager_index \<ge> length (block_managers s) then Some s
                 else if state_and_active_count (block_managers s ! tail_manager_index) \<noteq> 0 then Some s
                 else trim_metadata_records cfg
                   (update_manager tail_manager_index
                      (\<lambda>m. m\<lparr>local_free_head := pack (metadata_tag cfg) 0 0, state_and_active_count := 0\<rparr>)
                      (s\<lparr>metadata_record_count := tail_manager_index * METADATA_RECORDS_PER_BLOCK\<rparr>)))"

declare trim_metadata_records.simps [code]

definition steal_pending_deallocation_list :: "arena_config \<Rightarrow> nat \<Rightarrow> single_arena \<Rightarrow> addr \<times> single_arena" where
  "steal_pending_deallocation_list cfg target_shard s =
     (case steal_all (metadata_tag cfg) (shard_head (pending_shards s ! target_shard), next_free_block_index s) of
        (md, h, l) \<Rightarrow> (md, update_shard target_shard (shard_head_update (\<lambda>_. h)) (s\<lparr>next_free_block_index := l\<rparr>)))"

definition reduce_pending_deallocation_count :: "nat \<Rightarrow> nat \<Rightarrow> single_arena \<Rightarrow> single_arena option" where
  "reduce_pending_deallocation_count target_shard stolen_count s =
     (let current = shard_count (pending_shards s ! target_shard)
      in if current \<ge> stolen_count
         then Some (update_shard target_shard
           (shard_count_update (\<lambda>_. if current > stolen_count then current - stolen_count else 0)) s)
         else None)"

text \<open>Publishing a pending record in the free bin of its size, shard and address.\<close>

definition publish :: "arena_config \<Rightarrow> addr \<Rightarrow> single_arena \<Rightarrow> single_arena" where
  "publish cfg md s =
     (if md = 0 then s
      else if get_state s md \<noteq> state_code DEALLOCATED_PENDING then s
      else let s = set_state_word md (with_state (md_block_state s md) AVAILABLE) s;
               bin = free_block_bin_index cfg (md_total_size s md);
               addr_bin = address_bin_for s (get_memory_block s md);
               target_shard = md_original_shard s md mod cpu_shards s;
               bin_index = bin * cpu_shards s + target_shard
           in case push_block cfg md (free_block_bins s bin_index addr_bin) s of
                (h, s) \<Rightarrow> s\<lparr>free_block_bins :=
                  (free_block_bins s)(bin_index := (free_block_bins s bin_index)(addr_bin := h))\<rparr>)"

definition process_pending_batch :: "arena_config \<Rightarrow> addr list \<Rightarrow> single_arena \<Rightarrow> single_arena option" where
  "process_pending_batch cfg pending_batch s =
     (if pending_batch = [] then Some s
      else do {
        (batch, s) \<leftarrow> reclaim_pending_frontier_batch cfg pending_batch s;
        Some (fold (publish cfg) batch s) })"

text \<open>
  Walking a stolen list in batches; the result holds the last, incomplete batch.  A window size
  of 0 (which no static assertion excludes) would store past the end of an empty array: \<open>None\<close>.
\<close>

partial_function (option) collect_pending ::
    "arena_config \<Rightarrow> addr \<Rightarrow> addr list \<Rightarrow> nat \<Rightarrow> single_arena \<Rightarrow> (addr list \<times> nat \<times> single_arena) option" where
  "collect_pending cfg pending_list batch stolen_count s =
     (if pending_list = 0 then Some (batch, stolen_count, s)
      else if length batch \<ge> maintenance_window_threshold cfg then None
      else let nxt = index_to_metadata (metadata_start s) (next_free_block_index s pending_list);
               batch = batch @ [pending_list]
           in if length batch = maintenance_window_threshold cfg
              then (case process_pending_batch cfg batch s of
                      None \<Rightarrow> None
                    | Some s \<Rightarrow> collect_pending cfg nxt [] (stolen_count + 1) s)
              else collect_pending cfg nxt batch (stolen_count + 1) s)"

declare collect_pending.simps [code]

partial_function (option) drain_shard :: "arena_config \<Rightarrow> nat \<Rightarrow> single_arena \<Rightarrow> single_arena option" where
  "drain_shard cfg target_shard s =
     (case steal_pending_deallocation_list cfg target_shard s of
        (pending_list, s1) \<Rightarrow>
          if pending_list = 0 then Some s1
          else Option.bind (collect_pending cfg pending_list [] 0 s1) (\<lambda>(batch, stolen_count, s2).
               Option.bind (process_pending_batch cfg batch s2) (\<lambda>s3.
               Option.bind (reduce_pending_deallocation_count target_shard stolen_count s3) (\<lambda>s4.
                 drain_shard cfg target_shard s4))))"

declare drain_shard.simps [code]

definition run_maintenance_window :: "arena_config \<Rightarrow> nat \<Rightarrow> single_arena \<Rightarrow> single_arena option" where
  "run_maintenance_window cfg target_shard s = do {
     s \<leftarrow> drain_shard cfg target_shard (extended record_maintenance_window s);
     (_, s) \<leftarrow> try_reclaim_frontier_blocks s;
     trim_metadata_records cfg s
   }"

primrec run_windows :: "arena_config \<Rightarrow> nat list \<Rightarrow> single_arena \<Rightarrow> single_arena option" where
  "run_windows cfg [] s = Some s"
| "run_windows cfg (t # ts) s = do { s \<leftarrow> run_maintenance_window cfg t s; run_windows cfg ts s }"

definition run_maintenance_window_all :: "arena_config \<Rightarrow> single_arena \<Rightarrow> single_arena option" where
  "run_maintenance_window_all cfg s = run_windows cfg [0..<cpu_shards s] s"

definition maybe_open_maintenance_window ::
    "arena_config \<Rightarrow> nat \<Rightarrow> bool \<Rightarrow> single_arena \<Rightarrow> (bool \<times> single_arena) option" where
  "maybe_open_maintenance_window cfg target_shard force s =
     (let pending = shard_count (pending_shards s ! target_shard)
      in if pending = 0 then Some (False, s)
         else if \<not> force \<and> pending < maintenance_window_threshold cfg then Some (False, s)
         else if maintenance_window_open (pending_shards s ! target_shard) then Some (False, s)
         else do {
           s \<leftarrow> run_maintenance_window cfg target_shard
                 (update_shard target_shard (maintenance_window_open_update (\<lambda>_. True)) s);
           Some (True, update_shard target_shard (maintenance_window_open_update (\<lambda>_. False)) s) })"

section \<open>Claiming free blocks and records\<close>

datatype claim_result = CLAIMED | CLAIM_RETRY | RECLAIM_DEFERRED | DISCARD

definition set_bin_head :: "nat \<Rightarrow> nat \<Rightarrow> u64 \<Rightarrow> single_arena \<Rightarrow> single_arena" where
  "set_bin_head bin_index addr_bin h s =
     s\<lparr>free_block_bins := (free_block_bins s)(bin_index := (free_block_bins s bin_index)(addr_bin := h))\<rparr>"

definition unguarded_try_claim_popped_block ::
    "arena_config \<Rightarrow> addr \<Rightarrow> nat \<Rightarrow> nat \<Rightarrow> single_arena \<Rightarrow> claim_result \<times> single_arena" where
  "unguarded_try_claim_popped_block cfg head bin_index addr_bin s =
     (let current_state = get_state s head
      in if current_state = state_code AVAILABLE
           then (CLAIMED, set_state_word head (with_state (md_block_state s head) LOCKED) s)
         else if current_state = state_code FRONTIER_RECLAIM_IN_PROGRESS
           then (case push_block cfg head (free_block_bins s bin_index addr_bin) s of
                   (h, s) \<Rightarrow> (CLAIM_RETRY, set_bin_head bin_index addr_bin h s))
         else if current_state = state_code FRONTIER_RECLAIMED then (RECLAIM_DEFERRED, s)
         else (DISCARD, s))"

text \<open>One scan: the address bins low to high, each over all shards from the preferred one.\<close>

datatype scan_result = Claimed addr | Deferred addr | Nothing

definition scan_order :: "nat \<Rightarrow> (nat \<times> nat) list" where
  "scan_order nshards = concat (map (\<lambda>addr_bin. map (\<lambda>off. (addr_bin, off)) [0..<nshards]) [0..<NUM_ADDRESS_BINS])"

primrec scan_bins ::
    "arena_config \<Rightarrow> nat \<Rightarrow> nat \<Rightarrow> (nat \<times> nat) list \<Rightarrow> single_arena \<Rightarrow> scan_result \<times> single_arena" where
  "scan_bins cfg free_bin shard_start [] s = (Nothing, s)"
| "scan_bins cfg free_bin shard_start (pos # rest) s =
     (let addr_bin = fst pos;
          target_shard = (shard_start + snd pos) mod cpu_shards s;
          bin_index = free_bin * cpu_shards s + target_shard;
          (head, h, s) = pop_block cfg (free_block_bins s bin_index addr_bin) s;
          s = set_bin_head bin_index addr_bin h s
      in if head = 0 then scan_bins cfg free_bin shard_start rest s
         else let s = extended record_search_pop s
              in case unguarded_try_claim_popped_block cfg head bin_index addr_bin s of
                   (CLAIMED, s) \<Rightarrow> (Claimed head, extended record_search_claimed s)
                 | (RECLAIM_DEFERRED, s) \<Rightarrow> (Deferred head, extended record_search_reclaim_deferred s)
                 | (CLAIM_RETRY, s) \<Rightarrow> scan_bins cfg free_bin shard_start rest s
                 | (DISCARD, s) \<Rightarrow> scan_bins cfg free_bin shard_start rest s)"

text \<open>The block and its record, or two null pointers.\<close>

partial_function (option) search_for_deallocated_block ::
    "arena_config \<Rightarrow> nat \<Rightarrow> nat \<Rightarrow> single_arena \<Rightarrow> ((addr \<times> addr) \<times> single_arena) option" where
  "search_for_deallocated_block cfg free_bin preferred_shard s =
     (case scan_bins cfg free_bin (preferred_shard mod cpu_shards s) (scan_order (cpu_shards s))
             (extended record_search_iteration s) of
        (Claimed md, s1) \<Rightarrow> Some ((get_memory_block s1 md, md), s1)
      | (Nothing, s1) \<Rightarrow> Some ((0, 0), s1)
      | (Deferred md, s1) \<Rightarrow>
          (case recycle_metadata cfg md s1 of
             None \<Rightarrow> None
           | Some s2 \<Rightarrow> search_for_deallocated_block cfg free_bin preferred_shard s2))"

declare search_for_deallocated_block.simps [code]

text \<open>A free record of some manager: its address, 0 if every manager is empty.\<close>

primrec pop_free_record :: "arena_config \<Rightarrow> nat list \<Rightarrow> single_arena \<Rightarrow> addr \<times> single_arena" where
  "pop_free_record cfg [] s = (0, s)"
| "pop_free_record cfg (i # is) s =
     (case reserve_active_slot (block_managers s ! i) of
        None \<Rightarrow> pop_free_record cfg is s
      | Some m \<Rightarrow>
          (let s = update_manager i (\<lambda>_. m) s;
               (md, h, s) = pop_header cfg (local_free_head (block_managers s ! i)) s;
               s = update_manager i (local_free_head_update (\<lambda>_. h)) s
           in if md \<noteq> 0 then (md, s)
              else pop_free_record cfg is (update_manager i release_active_slot s)))"

text \<open>A new record at the end of the metadata region.\<close>

partial_function (option) append_record :: "nat \<Rightarrow> single_arena \<Rightarrow> (nat \<times> single_arena) option" where
  "append_record current_count s =
     (let manager_index = manager_of current_count
      in if manager_index \<ge> length (block_managers s) then Some (NULL_INDEX, s)
         else case reserve_active_slot (block_managers s ! manager_index) of
                None \<Rightarrow> append_record (metadata_record_count s) s
              | Some m \<Rightarrow>
                  (case grow_metadata_region current_count (update_manager manager_index (\<lambda>_. m) s) of
                     (GROWN, index, s1) \<Rightarrow> Some (index, s1)
                   | (NO_ROOM, index, s1) \<Rightarrow> Some (NULL_INDEX, update_manager manager_index release_active_slot s1)
                   | (RETRY, index, s1) \<Rightarrow>
                       append_record index
                         (extended record_metadata_cas_retry (update_manager manager_index release_active_slot s1))))"

declare append_record.simps [code]

definition get_next_metadata_record_index :: "arena_config \<Rightarrow> single_arena \<Rightarrow> (nat \<times> single_arena) option" where
  "get_next_metadata_record_index cfg s =
     (let current_count = metadata_record_count s;
          (md, s) = (if current_count > 0
                     then pop_free_record cfg [0..<(current_count - 1) div METADATA_RECORDS_PER_BLOCK + 1] s
                     else (0, s))
      in if md \<noteq> 0 then Some (metadata_to_index (metadata_start s) md, s)
         else append_record current_count s)"

section \<open>Allocation\<close>

definition refresh_extended_metrics_diagnostics :: "single_arena \<Rightarrow> single_arena" where
  "refresh_extended_metrics_diagnostics s =
     (if \<not> usable s then s
      else let frontier_off = sub64 (frontier s) (arena_block s);
               count = metadata_record_count s;
               boundary = sub64 (metadata_start s) (mul64 (add64 count 1) ALLOCATION_METADATA_SIZE);
               total_pending = foldl (\<lambda>n p. add64 n (shard_count p)) 0 (pending_shards s)
           in extended (\<lambda>e. record_pending_deallocations total_pending
                (record_metadata_boundary_offset (sub64 boundary (arena_block s))
                  (record_metadata_count count (record_frontier_offset frontier_off e)))) s)"

text \<open>Giving back a record that was reserved but not used.\<close>

definition return_record :: "arena_config \<Rightarrow> addr \<Rightarrow> single_arena \<Rightarrow> single_arena option" where
  "return_record cfg md s =
     recycle_metadata cfg md (s\<lparr>
       md_requested_size := (md_requested_size s)(md := 0), md_total_size := (md_total_size s)(md := 0),
       md_alignment := (md_alignment s)(md := 0), md_original_shard := (md_original_shard s)(md := 0)\<rparr>)"

text \<open>
  The slow path of \<^verbatim>\<open>do_allocate\<close>, when no free block of the bin exists: a record is reserved, then
  the frontier, the forced window of the shard and the forced windows of all shards are tried in
  turn.  The result is the block and its record, or two null pointers.
\<close>

definition search_again :: "arena_config \<Rightarrow> nat \<Rightarrow> nat \<Rightarrow> single_arena \<Rightarrow> ((addr \<times> addr) \<times> single_arena) option" where
  "search_again cfg bin cpu_shard s = do {
     (claimed, s) \<leftarrow> search_for_deallocated_block cfg bin cpu_shard s;
     Some (claimed, if fst claimed \<noteq> 0 then extended record_allocator_reuse_hit s else s)
   }"

definition force_maintenance :: "arena_config \<Rightarrow> nat \<Rightarrow> nat \<Rightarrow> single_arena \<Rightarrow> ((addr \<times> addr) \<times> single_arena) option" where
  "force_maintenance cfg bin cpu_shard s = do {
     (_, s) \<leftarrow> maybe_open_maintenance_window cfg cpu_shard True s;
     (claimed, s) \<leftarrow> search_again cfg bin cpu_shard s;
     if fst claimed \<noteq> 0 then Some (claimed, s)
     else do {
       s \<leftarrow> run_maintenance_window_all cfg s;
       search_again cfg bin cpu_shard s } }"

definition allocate_new :: "arena_config \<Rightarrow> nat \<Rightarrow> nat \<Rightarrow> single_arena \<Rightarrow> ((addr \<times> addr) \<times> single_arena) option" where
  "allocate_new cfg bin cpu_shard s = do {
     (metadata_index, s) \<leftarrow> get_next_metadata_record_index cfg s;
     if metadata_index = NULL_INDEX then Some ((0, 0), extended record_allocator_failure s)
     else let reserved = sub64 (metadata_start s) (mul64 metadata_index ALLOCATION_METADATA_SIZE);
              (free_block, s) = get_next_empty_memory_block cfg bin s
          in if free_block \<noteq> 0 then Some ((free_block, reserved), extended record_allocator_frontier_hit s)
             else do {
               (claimed, s) \<leftarrow> force_maintenance cfg bin cpu_shard s;
               s \<leftarrow> return_record cfg reserved s;
               Some (claimed, if fst claimed = 0 then extended record_allocator_failure s else s) } }"

text \<open>Handing a block out under its record.\<close>

definition hand_out :: "nat \<Rightarrow> nat \<Rightarrow> nat \<Rightarrow> nat \<Rightarrow> addr \<Rightarrow> addr \<Rightarrow> single_arena \<Rightarrow> (addr \<times> single_arena) option" where
  "hand_out cpu bytes alignment cpu_shard free_block metadata s = do {
     let s = s\<lparr>hdr_metadata_index := (hdr_metadata_index s)(free_block := metadata_to_index (metadata_start s) metadata)\<rparr>;
     let version = bs_unpack_version (md_block_state s metadata);
     w \<leftarrow> bs_pack free_block (arena_block s) IN_USE version;
     let s = set_state_word metadata w s;
     let s = s\<lparr>md_requested_size := (md_requested_size s)(metadata := bytes mod 4294967296),
                md_total_size := (md_total_size s)(metadata := hdr_size s free_block mod 4294967296),
                md_alignment := (md_alignment s)(metadata := alignment mod 256),
                md_original_shard := (md_original_shard s)(metadata := cpu_shard mod 256)\<rparr>;
     Some (add64 free_block ALLOCATION_HEADER_SIZE,
           extended record_allocation_made (counted (allocation_made cpu bytes) s))
   }"

definition sa_bad_request :: "arena_config \<Rightarrow> single_arena \<Rightarrow> nat \<Rightarrow> nat \<Rightarrow> bool" where
  "sa_bad_request cfg s bytes alignment \<longleftrightarrow> \<not> usable s \<or> bytes = 0 \<or> bytes > MAX_ALLOCATION_SIZE cfg \<or>
     alignment = 0 \<or> alignment > ALIGNMENT \<or> and64 alignment (sub64 alignment 1) \<noteq> 0"

definition sa_allocate :: "arena_config \<Rightarrow> nat \<Rightarrow> single_arena \<Rightarrow> nat \<Rightarrow> nat \<Rightarrow> (addr option \<times> single_arena) option" where
  "sa_allocate cfg cpu s bytes alignment =
     (if sa_bad_request cfg s bytes alignment then Some (None, s)
      else let total_size = lockfree_aligned_size (add64 bytes ALLOCATION_HEADER_SIZE) ALIGNMENT
      in if total_size > MAX_ALLOCATION_SIZE_INTERNAL cfg then Some (None, s)
      else let cpu_shard = cpu_shard_index cpu s;
               bin = free_block_bin_index cfg total_size
      in do {
        (_, s) \<leftarrow> maybe_open_maintenance_window cfg cpu_shard False s;
        (claimed, s) \<leftarrow> search_for_deallocated_block cfg bin cpu_shard s;
        ((free_block, metadata), s) \<leftarrow>
          (if fst claimed = 0 then allocate_new cfg bin cpu_shard s
           else Some (claimed, extended record_allocator_reuse_hit s));
        if free_block = 0 then Some (None, s)
        else do {
          (p, s) \<leftarrow> hand_out cpu bytes alignment cpu_shard free_block metadata s;
          Some (Some p, s) } })"

definition sa_do_allocate :: "arena_config \<Rightarrow> single_arena allocate_fn" where
  "sa_do_allocate cfg cpu s bytes alignment = do {
     (r, s) \<leftarrow> sa_allocate cfg cpu (extended record_allocator_call s) bytes alignment;
     Some (r, refresh_extended_metrics_diagnostics s) }"

section \<open>Deallocation\<close>

text \<open>The validation: the record of a live block, or why the call is rejected.\<close>

datatype rejection = Bad_Index | State_Mismatch

definition validate :: "single_arena \<Rightarrow> addr \<Rightarrow> rejection + addr" where
  "validate s blk =
     (let header = sub64 blk ALLOCATION_HEADER_SIZE;
          metadata_index = hdr_metadata_index s header
      in if metadata_index \<ge> metadata_record_count s then Inl Bad_Index
         else let md = sub64 (metadata_start s) (mul64 metadata_index ALLOCATION_METADATA_SIZE)
              in if get_state s md \<noteq> state_code IN_USE \<or> get_memory_block s md \<noteq> header
                 then Inl State_Mismatch else Inr md)"

definition retire :: "arena_config \<Rightarrow> nat \<Rightarrow> addr \<Rightarrow> single_arena \<Rightarrow> (bool \<times> single_arena) option" where
  "retire cfg cpu md s =
     (let locked = with_state_and_increment_version (md_block_state s md) LOCKED;
          s = set_state_word md locked s;
          s = extended record_deallocation_made (counted (deallocation_made cpu (md_requested_size s md)) s);
          s = set_state_word md (with_state locked DEALLOCATED_PENDING) s;
          target_shard = md_original_shard s md mod cpu_shards s;
          s = update_shard target_shard (\<lambda>p. p\<lparr>shard_count := add64 (shard_count p) 1\<rparr>) s;
          (h, s) = push_block cfg md (shard_head (pending_shards s ! target_shard)) s;
          s = update_shard target_shard (shard_head_update (\<lambda>_. h)) s
      in do {
        (_, s) \<leftarrow> maybe_open_maintenance_window cfg target_shard False s;
        Some (True, s) })"

definition do_try_deallocate :: "arena_config \<Rightarrow> nat \<Rightarrow> single_arena \<Rightarrow> addr \<Rightarrow> nat \<Rightarrow> nat \<Rightarrow> (bool \<times> single_arena) option" where
  "do_try_deallocate cfg cpu s blk bytes alignment =
     (if blk = 0 then Some (True, s)
      else do {
        (r, s) \<leftarrow> (case validate s blk of
            Inl Bad_Index \<Rightarrow> Some (False, counted deallocation_aborted_bad_index s)
          | Inl State_Mismatch \<Rightarrow> Some (False, counted deallocation_aborted_state_mismatch s)
          | Inr md \<Rightarrow> retire cfg cpu md s);
        Some (r, refresh_extended_metrics_diagnostics s) })"

definition sa_do_deallocate :: "arena_config \<Rightarrow> single_arena deallocate_fn" where
  "sa_do_deallocate cfg cpu s blk bytes alignment = map_option snd (do_try_deallocate cfg cpu s blk bytes alignment)"

section \<open>Observation and construction\<close>

record sa_allocation_info =
  info_location :: addr
  info_state :: nat
  info_size :: nat
  info_alignment :: nat

definition sa_get_allocation_info :: "single_arena \<Rightarrow> addr \<Rightarrow> sa_allocation_info" where
  "sa_get_allocation_info s allocation =
     (let metadata_index = hdr_metadata_index s (sub64 allocation ALLOCATION_HEADER_SIZE)
      in if metadata_index < metadata_record_count s
         then let md = sub64 (metadata_start s) (mul64 metadata_index ALLOCATION_METADATA_SIZE)
              in \<lparr>info_location = allocation, info_state = get_state s md, info_size = md_requested_size s md,
                  info_alignment = md_alignment s md\<rparr>
         else \<lparr>info_location = 0, info_state = state_code INVALID, info_size = 0, info_alignment = 0\<rparr>)"

definition minimum_block_size :: "arena_config \<Rightarrow> nat \<Rightarrow> nat" where
  "minimum_block_size cfg nshards =
     add64 (add64 (add64 (add64 (2 * ALIGNMENT) (mul64 nshards PENDING_SHARD_SIZE))
       (mul64 (mul64 (NUM_FREE_BLOCK_BINS cfg) nshards) FREE_BLOCK_BIN_SIZE))
       (BLOCK_MANAGER_SIZE + METADATA_BLOCK_BYTES)) (2 * ALIGNMENT)"

definition aligned_block_size :: "addr \<Rightarrow> nat \<Rightarrow> nat" where
  "aligned_block_size blk sz =
     (let adjustment = sub64 (lockfree_align_pointer blk ALIGNMENT) blk
      in if sz > adjustment then sz - adjustment else 0)"

text \<open>
  The constructor over the state memory was in before (\<open>mem\<close>); the assertions and the size check
  are the traps of the default failure policy.
\<close>

definition lockfree_single_arena_resource ::
    "arena_config \<Rightarrow> single_arena \<Rightarrow> addr \<Rightarrow> nat \<Rightarrow> nat \<Rightarrow> single_arena option" where
  "lockfree_single_arena_resource cfg mem blk sz nshards =
     (let nshards = (if nshards > 0 then nshards else 1);
          first = lockfree_align_pointer blk ALIGNMENT;
          usable_size = aligned_block_size blk sz;
          records = sub64 (and64 (add64 blk sz) (not64 (ALLOCATION_METADATA_SIZE - 1))) ALLOCATION_METADATA_SIZE
      in if first = 0 \<or> usable_size = 0 \<or> usable_size \<ge> unat NULL_OFFSET \<or> usable_size div ALIGNMENT \<ge> NO_PREDECESSOR
           \<or> usable_size < minimum_block_size cfg nshards then None
         else let shards_end = add64 first (mul64 nshards PENDING_SHARD_SIZE);
                  bins_end = add64 shards_end (mul64 (mul64 (NUM_FREE_BLOCK_BINS cfg) nshards) FREE_BLOCK_BIN_SIZE);
                  metadata_end = add64 records ALLOCATION_METADATA_SIZE;
                  bytes_after_bins = (if metadata_end > bins_end then metadata_end - bins_end else 0);
                  managers = bytes_after_bins div (METADATA_BLOCK_BYTES + BLOCK_MANAGER_SIZE);
                  managers_end = add64 bins_end (mul64 managers BLOCK_MANAGER_SIZE);
                  alloc_base = lockfree_align_pointer managers_end ALIGNMENT;
                  raw_bin_size = usable_size div NUM_ADDRESS_BINS;
                  empty = pack (metadata_tag cfg) 0 0
              in Some (refresh_extended_metrics_diagnostics (mem\<lparr>
                   arena_block := first, arena_block_size := usable_size, metadata_start := records,
                   next_empty_memory_block := pack_frontier alloc_base alloc_base 0,
                   frontier_reclaim_in_progress := False, metadata_record_count := 0,
                   block_managers := replicate managers \<lparr>local_free_head = 0, state_and_active_count = 0\<rparr>,
                   pending_shards := replicate nshards
                     \<lparr>shard_head = empty, shard_count = 0, maintenance_window_open = False\<rparr>,
                   free_block_bins := (\<lambda>bin_index addr_bin. empty), cpu_shards := nshards,
                   allocation_base := alloc_base, address_bin_size := (if raw_bin_size > 0 then raw_bin_size else 1),
                   usable := True, hdr_previous := (hdr_previous mem)(alloc_base := 0)\<rparr>)))"

end
