(* ===== verification/Single_Arena_Invariant.thy ===== *)
theory Single_Arena_Invariant
  imports Single_Arena
begin

text \<open>
  What \<^verbatim>\<open>pmr::lockfree_single_arena_resource_impl\<close> keeps invariant between its steps: the
  blocks form one chain from the allocation base to the frontier, every metadata record is in
  exactly one place (a pending list, a free bin, a manager's list of spare records, the hands of
  the running call, or in use), and the state word of a record says which.
\<close>

section \<open>Records and the stacks they are on\<close>

definition record_at :: "addr \<Rightarrow> nat \<Rightarrow> addr" where
  "record_at ms i = ms - 64 * i"

definition rec_ok :: "arena_config \<Rightarrow> addr \<Rightarrow> addr \<Rightarrow> bool" where
  "rec_ok cfg ms r \<longleftrightarrow> ms < 18446744073709551616 \<and>
     (\<exists>i < 4294967295. 64 * i < ms \<and> r = record_at ms i) \<and> canonical (pointer_rule cfg) 16 (of_nat r)"

lemma record_index:
  assumes "ms < 18446744073709551616" and "64 * i < ms" and "i < 4294967295"
  shows "metadata_to_index ms (record_at ms i) = i" and "index_to_metadata ms i = record_at ms i"
    and "sub64 ms (mul64 i ALLOCATION_METADATA_SIZE) = record_at ms i" and "record_at ms i \<noteq> 0"
    and "record_at ms i < 18446744073709551616"
proof -
  have r: "record_at ms i < 18446744073709551616" "record_at ms i \<noteq> 0" using assms by (simp_all add: record_at_def)
  then show "record_at ms i \<noteq> 0" "record_at ms i < 18446744073709551616" by simp_all
  show s: "sub64 ms (mul64 i ALLOCATION_METADATA_SIZE) = record_at ms i"
    using assms by (simp add: sa_constants mul64_exact sub64_exact record_at_def mult.commute)
  then show "index_to_metadata ms i = record_at ms i" using assms by (simp add: index_to_metadata_def NULL_INDEX_def)
  have "sub64 ms (record_at ms i) = 64 * i" using assms by (simp add: record_at_def sub64_exact)
  then show "metadata_to_index ms (record_at ms i) = i"
    using r assms by (simp add: metadata_to_index_def sa_constants)
qed

lemma record_at_inj:
  "64 * i < ms \<Longrightarrow> 64 * j < ms \<Longrightarrow> record_at ms i = record_at ms j \<longleftrightarrow> i = j"
  by (auto simp: record_at_def)

interpretation mds: tagged_stack "metadata_tag cfg" "stack_adapter ms" 16 "rec_ok cfg ms" for cfg ms
proof
  fix p :: addr and k :: u64
  have st: "tp_static_ok (pointer_rule cfg) 16" by (simp add: tp_static_ok_def POINTER_BITS_def)
  assume p: "p = 0 \<or> rec_ok cfg ms p"
  then have c: "canonical (pointer_rule cfg) 16 (of_nat p)" and lt: "p < 18446744073709551616"
    using record_index(5) by (auto simp: rec_ok_def canonical_def)
  show "unpack_ptr (metadata_tag cfg) (pack (metadata_tag cfg) p k) = p"
    using tp_ptr_pack [OF st c] lt by (simp add: metadata_tag_def tagged_ptr_codec_def unat_of_nat)
  show "unpack_counter (metadata_tag cfg) (pack (metadata_tag cfg) p k) = take_bit 16 k"
    by (simp add: metadata_tag_def tagged_ptr_codec_def tp_counter_pack)
  show "to_node (stack_adapter ms) (to_link (stack_adapter ms) p) = p"
    using p record_index by (auto simp: stack_adapter_def rec_ok_def metadata_to_index_def index_to_metadata_def NULL_INDEX_def)
qed (simp_all add: metadata_tag_def tagged_ptr_codec_def counter_cast_def)

text \<open>The lists a record can be on: one per shard, one per bin and address bin, one per manager.\<close>

datatype place = Pending nat | Bin nat nat | Spare nat

primrec head_of :: "single_arena \<Rightarrow> place \<Rightarrow> u64" where
  "head_of s (Pending t) = shard_head (pending_shards s ! t)"
| "head_of s (Bin b a) = free_block_bins s b a"
| "head_of s (Spare m) = local_free_head (block_managers s ! m)"

primrec links_of :: "single_arena \<Rightarrow> place \<Rightarrow> addr \<Rightarrow> nat" where
  "links_of s (Pending t) = next_free_block_index s"
| "links_of s (Bin b a) = next_free_block_index s"
| "links_of s (Spare m) = next_free_header_index s"

primrec valid_place :: "single_arena \<Rightarrow> place \<Rightarrow> bool" where
  "valid_place s (Pending t) = (t < length (pending_shards s))"
| "valid_place s (Bin b a) = True"
| "valid_place s (Spare m) = (m < length (block_managers s))"

primrec set_head :: "place \<Rightarrow> u64 \<Rightarrow> single_arena \<Rightarrow> single_arena" where
  "set_head (Pending t) h s = update_shard t (shard_head_update (\<lambda>_. h)) s"
| "set_head (Bin b a) h s = set_bin_head b a h s"
| "set_head (Spare m) h s = update_manager m (local_free_head_update (\<lambda>_. h)) s"

primrec set_links :: "place \<Rightarrow> (addr \<Rightarrow> nat) \<Rightarrow> single_arena \<Rightarrow> single_arena" where
  "set_links (Pending t) l s = s\<lparr>next_free_block_index := l\<rparr>"
| "set_links (Bin b a) l s = s\<lparr>next_free_block_index := l\<rparr>"
| "set_links (Spare m) l s = s\<lparr>next_free_header_index := l\<rparr>"

definition push_place :: "arena_config \<Rightarrow> addr \<Rightarrow> place \<Rightarrow> single_arena \<Rightarrow> single_arena" where
  "push_place cfg r p s =
     (case push (metadata_tag cfg) (stack_adapter (metadata_start s)) r (head_of s p, links_of s p) of
        (h, l) \<Rightarrow> set_head p h (set_links p l s))"

definition pop_place :: "arena_config \<Rightarrow> place \<Rightarrow> single_arena \<Rightarrow> addr \<times> single_arena" where
  "pop_place cfg p s =
     (case pop (metadata_tag cfg) (stack_adapter (metadata_start s)) (head_of s p, links_of s p) of
        (r, h, l) \<Rightarrow> (r, set_head p h (set_links p l s)))"

text \<open>\<open>ls p\<close> lists the records at place \<open>p\<close>.\<close>

definition stacks :: "arena_config \<Rightarrow> single_arena \<Rightarrow> (place \<Rightarrow> addr list) \<Rightarrow> bool" where
  "stacks cfg s ls \<longleftrightarrow>
     (\<forall>p. if valid_place s p then mds.holds cfg (metadata_start s) (head_of s p, links_of s p) (ls p) else ls p = []) \<and>
     (\<forall>p q. p \<noteq> q \<longrightarrow> set (ls p) \<inter> set (ls q) = {})"

lemma stacksD:
  assumes "stacks cfg s ls"
  shows "valid_place s p \<Longrightarrow> mds.holds cfg (metadata_start s) (head_of s p, links_of s p) (ls p)"
    and "\<not> valid_place s p \<Longrightarrow> ls p = []" and "p \<noteq> q \<Longrightarrow> set (ls p) \<inter> set (ls q) = {}"
    and "distinct (ls p)" and "r \<in> set (ls p) \<Longrightarrow> valid_place s p \<and> rec_ok cfg (metadata_start s) r"
proof -
  show v: "valid_place s p \<Longrightarrow> mds.holds cfg (metadata_start s) (head_of s p, links_of s p) (ls p)"
    and n: "\<not> valid_place s p \<Longrightarrow> ls p = []"
    and "p \<noteq> q \<Longrightarrow> set (ls p) \<inter> set (ls q) = {}"
    using assms unfolding stacks_def by metis+
  show "distinct (ls p)" using v n by (cases "valid_place s p") (auto simp: mds.holds_def)
  show "r \<in> set (ls p) \<Longrightarrow> valid_place s p \<and> rec_ok cfg (metadata_start s) r"
    using v n by (cases "valid_place s p") (auto simp: mds.holds_def)
qed

text \<open>Changing one head and its links leaves the other heads alone.\<close>

lemma set_head_links_frame [simp]:
  "metadata_start (set_head p h s) = metadata_start s" "metadata_start (set_links p l s) = metadata_start s"
  "valid_place (set_head p h s) q = valid_place s q" "valid_place (set_links p l s) q = valid_place s q"
  "links_of (set_head p h s) q = links_of s q" "head_of (set_links p l s) q = head_of s q"
  by (cases p; cases q; simp add: update_shard_def update_manager_def set_bin_head_def)+

lemma head_of_set_head:
  "valid_place s p \<Longrightarrow> head_of (set_head p h s) q = (if q = p then h else head_of s q)"
  by (cases p; cases q) (auto simp: update_shard_def update_manager_def set_bin_head_def nth_list_update)

primrec header_place :: "place \<Rightarrow> bool" where
  "header_place (Pending t) = False" | "header_place (Bin b a) = False" | "header_place (Spare m) = True"

lemma links_of_set_links:
  "links_of (set_links p l s) q = (if header_place q = header_place p then l else links_of s q)"
  by (cases p; cases q) simp_all

lemma links_of_eq: "header_place p = header_place q \<Longrightarrow> links_of s p = links_of s q"
  by (cases p; cases q) simp_all

lemma push_stacks:
  assumes st: "stacks cfg s ls" and v: "valid_place s p" and r: "rec_ok cfg (metadata_start s) r" "r \<noteq> 0"
    and new: "\<And>q. r \<notin> set (ls q)"
  shows "stacks cfg (push_place cfg r p s) (ls(p := r # ls p))"
proof -
  let ?ms = "metadata_start s" and ?ad = "stack_adapter (metadata_start s)"
  obtain h l where hl: "push (metadata_tag cfg) ?ad r (head_of s p, links_of s p) = (h, l)" by fastforce
  have l: "l = (links_of s p)(r := to_link ?ad (unpack_ptr (metadata_tag cfg) (head_of s p)))"
    using hl by (auto simp: push_def store_link_def)
  have t: "push_place cfg r p s = set_head p h (set_links p l s)" by (simp add: push_place_def hl)
  have "mds.holds cfg ?ms (h, l) (r # ls p)"
    using mds.push_holds [OF stacksD(1) [OF st v] r new] hl by simp
  moreover have "mds.holds cfg ?ms (head_of s q, links_of (set_links p l s) q) (ls q)" if "valid_place s q" for q
  proof (cases "header_place q = header_place p")
    case True
    have "mds.holds cfg ?ms (head_of s q, links_of s p) (ls q)"
      using stacksD(1) [OF st that] by (simp only: links_of_eq [OF True])
    then have "mds.holds cfg ?ms (head_of s q, l) (ls q)" unfolding l using new by (rule mds.holds_frame)
    then show ?thesis using True by (simp add: links_of_set_links)
  qed (use stacksD(1) [OF st that] in \<open>simp add: links_of_set_links\<close>)
  moreover have links_p: "links_of (set_links p l s) p = l" by (simp add: links_of_set_links)
  ultimately have heads: "\<forall>q. if valid_place s q
      then mds.holds cfg ?ms (head_of (set_head p h (set_links p l s)) q, links_of (set_links p l s) q) ((ls(p := r # ls p)) q)
      else (ls(p := r # ls p)) q = []"
    using v stacksD(2) [OF st] links_p by (auto simp: head_of_set_head)
  have "set ((ls(p := r # ls p)) q) \<inter> set ((ls(p := r # ls p)) q') = {}" if "q \<noteq> q'" for q q'
    using stacksD(3) [OF st that] new that by auto
  then show ?thesis using heads unfolding t stacks_def set_head_links_frame by blast
qed

lemma pop_stacks:
  assumes st: "stacks cfg s ls" and v: "valid_place s p"
  shows "ls p = [] \<Longrightarrow> pop_place cfg p s = (0, s)"
    and "ls p = r # xs \<Longrightarrow> \<exists>t h l. pop_place cfg p s = (r, t) \<and> t = set_head p h (set_links p l s) \<and> r \<noteq> 0 \<and> stacks cfg t (ls(p := xs))"
proof -
  let ?ms = "metadata_start s" and ?ad = "stack_adapter (metadata_start s)"
  have id: "set_head p (head_of s p) (set_links p (links_of s p) s) = s"
    using v by (cases p) (simp_all add: update_shard_def update_manager_def set_bin_head_def)
  assume "ls p = []"
  then have "pop (metadata_tag cfg) ?ad (head_of s p, links_of s p) = (0, head_of s p, links_of s p)"
    using mds.pop_holds_Nil [of cfg ?ms "(head_of s p, links_of s p)"] stacksD(1) [OF st v] by simp
  then show "pop_place cfg p s = (0, s)" by (simp add: pop_place_def id)
next
  let ?ms = "metadata_start s" and ?ad = "stack_adapter (metadata_start s)"
  assume ls: "ls p = r # xs"
  then have "mds.holds cfg ?ms (head_of s p, links_of s p) (r # xs)" using stacksD(1) [OF st v] by simp
  then obtain h l where hl: "pop (metadata_tag cfg) ?ad (head_of s p, links_of s p) = (r, h, l)" "r \<noteq> 0"
    "mds.holds cfg ?ms (h, l) xs" "l = (links_of s p)(r := to_link ?ad 0)"
    using mds.pop_holds_Cons [of cfg ?ms "(head_of s p, links_of s p)" r xs] by auto
  let ?t = "set_head p h (set_links p l s)"
  have rp: "r \<in> set (ls p)" "r \<notin> set xs" using ls stacksD(4) [OF st, of p] by auto
  have "mds.holds cfg ?ms (head_of s q, links_of (set_links p l s) q) (ls q)" if "valid_place s q" "q \<noteq> p" for q
  proof (cases "header_place q = header_place p")
    case True
    have "r \<notin> set (ls q)" using stacksD(3) [OF st that(2)] rp by auto
    moreover have "mds.holds cfg ?ms (head_of s q, links_of s p) (ls q)"
      using stacksD(1) [OF st that(1)] by (simp only: links_of_eq [OF True])
    ultimately have "mds.holds cfg ?ms (head_of s q, l) (ls q)" unfolding hl(4) by (intro mds.holds_frame)
    then show ?thesis using True by (simp add: links_of_set_links)
  qed (use stacksD(1) [OF st that(1)] in \<open>simp add: links_of_set_links\<close>)
  moreover have links_p: "links_of (set_links p l s) p = l" by (simp add: links_of_set_links)
  ultimately have "\<forall>q. if valid_place s q
      then mds.holds cfg ?ms (head_of ?t q, links_of (set_links p l s) q) ((ls(p := xs)) q) else (ls(p := xs)) q = []"
    using v hl(3) stacksD(2) [OF st] by (auto simp: head_of_set_head)
  moreover have "set ((ls(p := xs)) q) \<inter> set ((ls(p := xs)) q') = {}" if "q \<noteq> q'" for q q'
  proof -
    have "set ((ls(p := xs)) k) \<subseteq> set (ls k)" for k using ls by auto
    then show ?thesis using stacksD(3) [OF st that] by blast
  qed
  ultimately have "stacks cfg ?t (ls(p := xs))" unfolding stacks_def set_head_links_frame by blast
  then show "\<exists>t h l. pop_place cfg p s = (r, t) \<and> t = set_head p h (set_links p l s) \<and> r \<noteq> 0 \<and> stacks cfg t (ls(p := xs))"
    using hl by (auto simp: pop_place_def)
qed

section \<open>The invariant\<close>

text \<open>What the constructor establishes and nothing changes.\<close>

definition geo :: "arena_config \<Rightarrow> single_arena \<Rightarrow> bool" where
  "geo cfg s \<longleftrightarrow> config_ok cfg \<and> 1 \<le> maintenance_window_threshold cfg \<and> usable s \<and>
     1 \<le> cpu_shards s \<and> length (pending_shards s) = cpu_shards s \<and>
     0 < arena_block s \<and> 64 dvd arena_block s \<and> arena_block s \<le> allocation_base s \<and> 64 dvd allocation_base s \<and>
     64 dvd metadata_start s \<and> allocation_base s < metadata_start s \<and>
     metadata_start s + 4294967360 \<le> 18446744073709551616 \<and>
     metadata_start s - arena_block s < 64 * 4294967295 \<and>
     arena_block s + 262144 * length (block_managers s) < metadata_start s \<and>
     (\<forall>i < 4096 * length (block_managers s). canonical (pointer_rule cfg) 16 (of_nat (record_at (metadata_start s) i)))"

lemma geoD:
  assumes "geo cfg s"
  shows "config_ok cfg" "1 \<le> maintenance_window_threshold cfg" "usable s" "1 \<le> cpu_shards s"
    "length (pending_shards s) = cpu_shards s" "0 < arena_block s" "64 dvd arena_block s"
    "arena_block s \<le> allocation_base s" "64 dvd allocation_base s" "64 dvd metadata_start s"
    "allocation_base s < metadata_start s" "metadata_start s < 18446744073709551616"
    "metadata_start s - arena_block s < 64 * 4294967295"
    "arena_block s + 262144 * length (block_managers s) < metadata_start s"
    "i < 4096 * length (block_managers s) \<Longrightarrow> canonical (pointer_rule cfg) 16 (of_nat (record_at (metadata_start s) i))"
    "metadata_start s + 4294967360 \<le> 18446744073709551616"
  using assms by (simp_all add: geo_def)

text \<open>The frontier stays below the lowest record.\<close>

definition region :: "single_arena \<Rightarrow> bool" where
  "region s \<longleftrightarrow> metadata_record_count s \<le> 4096 * length (block_managers s) \<and>
     allocation_base s \<le> frontier s \<and> 64 dvd frontier s \<and> frontier s + 64 * metadata_record_count s < metadata_start s"

text \<open>The blocks, from the base to the frontier; each header names the block before it.\<close>

fun block_chain :: "(addr \<Rightarrow> nat) \<Rightarrow> (addr \<Rightarrow> addr) \<Rightarrow> addr \<Rightarrow> addr \<Rightarrow> addr list \<Rightarrow> addr \<Rightarrow> bool" where
  "block_chain sz pr a before [] e = (a = e)"
| "block_chain sz pr a before (b # bs) e = (b = a \<and> pr b = before \<and> 64 \<le> sz b \<and> 64 dvd sz b \<and> sz b < 4294967296 \<and>
     block_chain sz pr (a + sz b) b bs e)"

definition last_or :: "addr list \<Rightarrow> addr \<Rightarrow> addr" where
  "last_or bs d = (if bs = [] then d else last bs)"

definition front :: "single_arena \<Rightarrow> addr list \<Rightarrow> bool" where
  "front s bs \<longleftrightarrow> unpack_predecessor (allocation_base s) (next_empty_memory_block s) = last_or bs 0 \<and>
     block_chain (hdr_size s) (hdr_previous s) (allocation_base s) 0 bs (frontier s)"

definition recs :: "single_arena \<Rightarrow> addr set" where
  "recs s = record_at (metadata_start s) ` {..<metadata_record_count s}"

definition owner_of :: "single_arena \<Rightarrow> addr \<Rightarrow> addr" where
  "owner_of s b = record_at (metadata_start s) (hdr_metadata_index s b)"

text \<open>
  Every block but those in \<open>K\<close> (carved, not yet handed out) has a record that points back at it;
  \<open>H\<close> are the records in the hands of the running call.
\<close>

definition owned :: "single_arena \<Rightarrow> addr set \<Rightarrow> addr \<Rightarrow> bool" where
  "owned s H b \<longleftrightarrow> hdr_metadata_index s b < metadata_record_count s \<and> get_memory_block s (owner_of s b) = b \<and>
     md_total_size s (owner_of s b) = hdr_size s b \<and>
     (owner_of s b \<in> H \<or> get_state s (owner_of s b) \<in> state_code ` {IN_USE, DEALLOCATED_PENDING, AVAILABLE})"

definition attached :: "single_arena \<Rightarrow> addr set \<Rightarrow> addr \<Rightarrow> bool" where
  "attached s B r \<longleftrightarrow> (\<exists>b\<in>B. owner_of s b = r)"

primrec place_ok :: "arena_config \<Rightarrow> single_arena \<Rightarrow> addr set \<Rightarrow> place \<Rightarrow> addr \<Rightarrow> bool" where
  "place_ok cfg s B (Pending t) r = (get_state s r = state_code DEALLOCATED_PENDING \<and> attached s B r)"
| "place_ok cfg s B (Bin b a) r = (get_state s r = state_code AVAILABLE \<and> attached s B r \<and>
       free_block_bin_index cfg (md_total_size s r) = b div cpu_shards s \<or>
     get_state s r = state_code FRONTIER_RECLAIMED)"
| "place_ok cfg s B (Spare m) r = (get_state s r = state_code METADATA_AVAILABLE \<and>
     (\<exists>i. r = record_at (metadata_start s) i \<and> i < metadata_record_count s \<and> manager_of i = m))"

definition placed :: "arena_config \<Rightarrow> single_arena \<Rightarrow> addr set \<Rightarrow> (place \<Rightarrow> addr list) \<Rightarrow> addr set \<Rightarrow> bool" where
  "placed cfg s B ls H \<longleftrightarrow> H \<subseteq> recs s \<and>
     (\<forall>p. \<forall>r\<in>set (ls p). r \<in> recs s \<and> r \<notin> H \<and> place_ok cfg s B p r) \<and>
     (\<forall>r\<in>recs s. r \<in> H \<or> (\<exists>p. r \<in> set (ls p)) \<or> get_state s r = state_code IN_USE \<and> attached s B r)"

definition in_use_block :: "single_arena \<Rightarrow> addr set \<Rightarrow> addr \<Rightarrow> bool" where
  "in_use_block s H b \<longleftrightarrow> owner_of s b \<notin> H \<and> get_state s (owner_of s b) = state_code IN_USE"

definition ledger_ok :: "single_arena \<Rightarrow> addr set \<Rightarrow> addr set \<Rightarrow> ledger \<Rightarrow> bool" where
  "ledger_ok s B H L \<longleftrightarrow> inj_on fst L \<and> fst ` L = (\<lambda>b. b + 64) ` {b\<in>B. in_use_block s H b} \<and>
     (\<forall>(p, n, a)\<in>L. 0 < n \<and> n + 64 \<le> hdr_size s (p - 64) \<and> a \<le> 64)"

definition spares :: "single_arena \<Rightarrow> (place \<Rightarrow> addr list) \<Rightarrow> bool" where
  "spares s ls \<longleftrightarrow> (\<forall>m < length (block_managers s). state_and_active_count (block_managers s ! m) =
     of_nat (card {i. i < metadata_record_count s \<and> manager_of i = m \<and> record_at (metadata_start s) i \<notin> set (ls (Spare m))}))"

definition inv :: "arena_config \<Rightarrow> single_arena \<Rightarrow> addr list \<Rightarrow> addr set \<Rightarrow> (place \<Rightarrow> addr list) \<Rightarrow> addr set \<Rightarrow> ledger \<Rightarrow> bool" where
  "inv cfg s bs K ls H L \<longleftrightarrow> geo cfg s \<and> region s \<and> front s bs \<and> stacks cfg s ls \<and> K \<subseteq> set bs \<and>
     (\<forall>b\<in>set bs - K. owned s H b) \<and> placed cfg s (set bs - K) ls H \<and> ledger_ok s (set bs - K) H L \<and> spares s ls \<and>
     (\<forall>b\<in>set bs. hdr_size s b \<in> bin_size cfg ` {..<NUM_NON_SENTINEL_FREE_BLOCK_BINS cfg})"

lemma invD:
  assumes "inv cfg s bs K ls H L"
  shows "geo cfg s" "region s" "front s bs" "stacks cfg s ls" "K \<subseteq> set bs" "\<And>b. b \<in> set bs - K \<Longrightarrow> owned s H b"
    "placed cfg s (set bs - K) ls H" "ledger_ok s (set bs - K) H L" "spares s ls"
    "\<And>b. b \<in> set bs \<Longrightarrow> hdr_size s b \<in> bin_size cfg ` {..<NUM_NON_SENTINEL_FREE_BLOCK_BINS cfg}"
  using assms by (simp_all add: inv_def)

subsection \<open>The chain of blocks\<close>

lemma block_chain_append:
  "block_chain sz pr a before (bs @ [b]) e \<longleftrightarrow> block_chain sz pr a before bs b \<and> pr b = last_or bs before \<and>
     64 \<le> sz b \<and> 64 dvd sz b \<and> sz b < 4294967296 \<and> b + sz b = e"
  by (induction bs arbitrary: a before) (auto simp: last_or_def)

lemma block_chain_cong:
  "block_chain sz pr a before bs e \<Longrightarrow> (\<And>b. b \<in> set bs \<Longrightarrow> sz' b = sz b \<and> pr' b = pr b) \<Longrightarrow> block_chain sz' pr' a before bs e"
  by (induction bs arbitrary: a before) auto

lemma block_chain_within:
  "block_chain sz pr a before bs e \<Longrightarrow> a \<le> e \<and> (\<forall>b\<in>set bs. a \<le> b \<and> b + sz b \<le> e \<and> 64 \<le> sz b \<and> 64 dvd sz b \<and> sz b < 4294967296)"
proof (induction bs arbitrary: a before)
  case (Cons c bs)
  then have "a + sz c \<le> e \<and> (\<forall>b\<in>set bs. a + sz c \<le> b \<and> b + sz b \<le> e \<and> 64 \<le> sz b \<and> 64 dvd sz b \<and> sz b < 4294967296)"
    by (intro Cons.IH) auto
  then show ?case using Cons.prems by fastforce
qed simp

lemma block_chain_apart:
  "block_chain sz pr a before bs e \<Longrightarrow> b \<in> set bs \<Longrightarrow> c \<in> set bs \<Longrightarrow> b \<noteq> c \<Longrightarrow> apart b (sz b) c (sz c)"
proof (induction bs arbitrary: a before)
  case (Cons d bs)
  note w = block_chain_within [of sz pr "a + sz d" d bs e]
  show ?case
  proof (cases "b = d \<or> c = d")
    case True
    then show ?thesis using Cons.prems w by (auto simp: apart_def)
  next
    case False
    then show ?thesis using Cons.prems Cons.IH [of "a + sz d" d] by auto
  qed
qed simp

lemma block_chain_distinct: "block_chain sz pr a before bs e \<Longrightarrow> distinct bs"
proof (induction bs arbitrary: a before)
  case (Cons d bs)
  then show ?case using block_chain_within [of sz pr "a + sz d" d bs e] by fastforce
qed simp

lemma block_chain_dvd: "block_chain sz pr a before bs e \<Longrightarrow> 64 dvd a \<Longrightarrow> b \<in> set bs \<Longrightarrow> 64 dvd b"
  by (induction bs arbitrary: a before) auto

lemma block_chain_unique:
  "block_chain sz pr a before bs e \<Longrightarrow> block_chain sz pr a before cs e \<Longrightarrow> bs = cs"
proof (induction bs arbitrary: a before cs)
  case Nil
  then show ?case using block_chain_within [of sz pr a before cs e] by (cases cs) fastforce+
next
  case (Cons b bs)
  then show ?case using block_chain_within [of sz pr "a + sz b" b bs e] by (cases cs) fastforce+
qed

text \<open>What the parts say of one block.\<close>

lemma chain_facts:
  assumes g: "geo cfg s" and r: "region s" and f: "front s bs"
  shows "distinct bs" and "b \<in> set bs \<Longrightarrow> allocation_base s \<le> b" and "b \<in> set bs \<Longrightarrow> b + hdr_size s b \<le> frontier s"
    and "b \<in> set bs \<Longrightarrow> 64 \<le> hdr_size s b \<and> 64 dvd hdr_size s b \<and> hdr_size s b < 4294967296" and "b \<in> set bs \<Longrightarrow> 64 dvd b"
    and "b \<in> set bs \<Longrightarrow> b \<noteq> 0 \<and> b < metadata_start s \<and> offset_ok (arena_block s) b"
    and "b \<in> set bs \<Longrightarrow> c \<in> set bs \<Longrightarrow> b \<noteq> c \<Longrightarrow> apart b (hdr_size s b) c (hdr_size s c)"
    and "frontier s < metadata_start s" and "frontier s \<noteq> 0" and "b \<in> set bs \<Longrightarrow> b < frontier s"
proof -
  let ?P = "block_chain (hdr_size s) (hdr_previous s) (allocation_base s) 0 bs (frontier s)"
  have p: ?P using f by (simp add: front_def)
  note w = block_chain_within [OF p]
  show "distinct bs" using block_chain_distinct [OF p] .
  show fr: "frontier s < metadata_start s" using r by (simp add: region_def)
  show "frontier s \<noteq> 0" using g w by (auto simp: geo_def)
  show "b \<in> set bs \<Longrightarrow> c \<in> set bs \<Longrightarrow> b \<noteq> c \<Longrightarrow> apart b (hdr_size s b) c (hdr_size s c)"
    using block_chain_apart [OF p] .
  assume b: "b \<in> set bs"
  show "allocation_base s \<le> b" "b + hdr_size s b \<le> frontier s" "64 \<le> hdr_size s b \<and> 64 dvd hdr_size s b \<and> hdr_size s b < 4294967296"
    using w b by auto
  then show "b < frontier s" by simp
  show d: "64 dvd b" using block_chain_dvd [OF p _ b] g by (simp add: geo_def)
  have m: "arena_block s \<le> b" "b < metadata_start s" using w b g fr by (fastforce simp: geo_def)+
  then have "b - arena_block s < 281474976710655" using geoD(13) [OF g] by linarith
  moreover have "64 dvd b - arena_block s" using d g by (simp add: geo_def dvd_diff_nat)
  ultimately show "b \<noteq> 0 \<and> b < metadata_start s \<and> offset_ok (arena_block s) b"
    using m g by (auto simp: offset_ok_def geo_def)
qed

lemma rec_facts:
  assumes g: "geo cfg s" and "region s" and i: "i < metadata_record_count s"
  defines "ms \<equiv> metadata_start s"
  shows "64 * i < ms" and "i < 4294967295" and "metadata_to_index ms (record_at ms i) = i"
    and "index_to_metadata ms i = record_at ms i" and "sub64 ms (mul64 i ALLOCATION_METADATA_SIZE) = record_at ms i"
    and "record_at ms i \<noteq> 0" and "rec_ok cfg ms (record_at ms i)" and "manager_of i < length (block_managers s)"
    and "i < 4096 * length (block_managers s)"
proof -
  let ?n = "length (block_managers s)"
  show n: "i < 4096 * ?n" using assms by (simp add: region_def)
  have m: "ms < 18446744073709551616" using g by (simp add: geo_def ms_def)
  show lt: "64 * i < ms" using n g by (simp add: geo_def ms_def)
  have "64 * (4096 * ?n) < 64 * 4294967295" using geoD(13,14) [OF g] by linarith
  then show i': "i < 4294967295" using n by simp
  note R = record_index [OF m lt i']
  show "metadata_to_index ms (record_at ms i) = i" "index_to_metadata ms i = record_at ms i"
    "sub64 ms (mul64 i ALLOCATION_METADATA_SIZE) = record_at ms i" "record_at ms i \<noteq> 0" by (fact R)+
  show "rec_ok cfg ms (record_at ms i)" using n g m lt i' unfolding rec_ok_def by (auto simp: geo_def ms_def)
  show "manager_of i < ?n" using n by (simp add: manager_of_def sa_constants less_mult_imp_div_less mult.commute)
qed

lemma recs_iff:
  assumes "geo cfg s" and "region s"
  shows "r \<in> recs s \<longleftrightarrow> (\<exists>i. i < metadata_record_count s \<and> r = record_at (metadata_start s) i)"
  by (auto simp: recs_def)

lemma rec_inj:
  assumes "geo cfg s" and "region s" and "i < metadata_record_count s" and "j < metadata_record_count s"
    and "record_at (metadata_start s) i = record_at (metadata_start s) j"
  shows "i = j"
  using rec_facts(1) [OF assms(1-3)] rec_facts(1) [OF assms(1,2,4)] assms(5) by (simp add: record_at_inj)

end
