(* ===== verification/Single_Arena_Steps.thy ===== *)
theory Single_Arena_Steps
  imports Single_Arena_Invariant
begin

text \<open>Every step of the single arena keeps its invariant: one lemma per step.\<close>

section \<open>What a step may leave alone\<close>

text \<open>Equality of everything the invariant speaks of: what is left are flags, counts and statistics.\<close>

definition alike :: "single_arena \<Rightarrow> single_arena \<Rightarrow> bool" where
  "alike s t \<longleftrightarrow> usable t = usable s \<and> cpu_shards t = cpu_shards s \<and>
     map shard_head (pending_shards t) = map shard_head (pending_shards s) \<and>
     arena_block t = arena_block s \<and> allocation_base t = allocation_base s \<and> metadata_start t = metadata_start s \<and>
     block_managers t = block_managers s \<and> next_empty_memory_block t = next_empty_memory_block s \<and>
     metadata_record_count t = metadata_record_count s \<and> hdr_size t = hdr_size s \<and> hdr_previous t = hdr_previous s \<and>
     hdr_metadata_index t = hdr_metadata_index s \<and> md_block_state t = md_block_state s \<and> md_total_size t = md_total_size s \<and>
     free_block_bins t = free_block_bins s \<and> next_free_block_index t = next_free_block_index s \<and>
     next_free_header_index t = next_free_header_index s"

lemma alike_refl [simp]: "alike s s"
  by (simp add: alike_def)

lemma alike_trans: "alike s t \<Longrightarrow> alike t u \<Longrightarrow> alike s u"
  by (simp add: alike_def)

lemma inv_alike:
  assumes "alike s t"
  shows "inv cfg t bs K ls H L = inv cfg s bs K ls H L"
proof -
  have len: "length (pending_shards t) = length (pending_shards s)"
    using assms unfolding alike_def by (metis length_map)
  have v: "valid_place t p = valid_place s p" for p using assms len by (cases p) (simp_all add: alike_def)
  have h: "head_of t p = head_of s p" if "valid_place s p" for p
  proof (cases p)
    case (Pending i)
    have "map shard_head (pending_shards t) ! i = map shard_head (pending_shards s) ! i" using assms by (simp add: alike_def)
    then show ?thesis using Pending that len by simp
  qed (use assms in \<open>simp_all add: alike_def\<close>)
  have l: "links_of t p = links_of s p" for p using assms by (cases p) (simp_all add: alike_def)
  have f: "frontier t = frontier s" "get_state t = get_state s" "get_memory_block t = get_memory_block s" "owner_of t = owner_of s"
    "recs t = recs s"
    using assms by (auto simp: alike_def frontier_def get_state_def get_memory_block_def owner_of_def recs_def fun_eq_iff)
  have a: "attached t B r = attached s B r" for B r by (simp add: attached_def f)
  have p: "place_ok cfg t B p r = place_ok cfg s B p r" for B p r
    using assms by (cases p) (simp_all add: f a alike_def)
  have "stacks cfg t ls = stacks cfg s ls"
    using h l v assms unfolding stacks_def alike_def by auto
  moreover have "geo cfg t = geo cfg s" "region t = region s" "front t bs = front s bs" "spares t ls = spares s ls"
    using assms len by (simp_all add: geo_def region_def front_def spares_def f) (simp_all add: alike_def)
  moreover have "owned t H b = owned s H b" "placed cfg t B ls H = placed cfg s B ls H" "ledger_ok t B H L = ledger_ok s B H L" for B b
    using assms by (simp_all add: owned_def placed_def ledger_ok_def in_use_block_def f a p) (simp_all add: alike_def)
  moreover have "hdr_size t = hdr_size s" using assms by (simp add: alike_def)
  ultimately show ?thesis by (simp add: inv_def)
qed

lemma alike_simps [simp]:
  "alike s (extended f s)" "alike s (counted g s)"
  "alike s (s\<lparr>frontier_reclaim_in_progress := b\<rparr>)"
  "alike s (s\<lparr>md_requested_size := q\<rparr>)" "alike s (s\<lparr>md_alignment := q\<rparr>)" "alike s (s\<lparr>md_original_shard := q\<rparr>)"
  by (simp_all add: alike_def extended_def counted_def)

lemma alike_shard [simp]:
  assumes "\<And>p. shard_head (f p) = shard_head p"
  shows "alike s (update_shard t f s)"
proof -
  have "map shard_head ((pending_shards s)[t := f (pending_shards s ! t)]) = map shard_head (pending_shards s)"
    by (cases "t < length (pending_shards s)"; rule nth_equalityI) (simp_all add: assms nth_list_update)
  then show ?thesis by (simp add: alike_def update_shard_def)
qed

text \<open>Pushing and popping touch a head and the links only.\<close>

lemma place_fields [simp]:
  "usable (set_head p h s) = usable s" "usable (set_links p l s) = usable s"
  "cpu_shards (set_head p h s) = cpu_shards s" "cpu_shards (set_links p l s) = cpu_shards s"
  "arena_block (set_head p h s) = arena_block s" "arena_block (set_links p l s) = arena_block s"
  "allocation_base (set_head p h s) = allocation_base s" "allocation_base (set_links p l s) = allocation_base s"
  "next_empty_memory_block (set_head p h s) = next_empty_memory_block s" "next_empty_memory_block (set_links p l s) = next_empty_memory_block s"
  "metadata_record_count (set_head p h s) = metadata_record_count s" "metadata_record_count (set_links p l s) = metadata_record_count s"
  "hdr_size (set_head p h s) = hdr_size s" "hdr_size (set_links p l s) = hdr_size s"
  "hdr_previous (set_head p h s) = hdr_previous s" "hdr_previous (set_links p l s) = hdr_previous s"
  "hdr_metadata_index (set_head p h s) = hdr_metadata_index s" "hdr_metadata_index (set_links p l s) = hdr_metadata_index s"
  "md_block_state (set_head p h s) = md_block_state s" "md_block_state (set_links p l s) = md_block_state s"
  "md_total_size (set_head p h s) = md_total_size s" "md_total_size (set_links p l s) = md_total_size s"
  "md_original_shard (set_head p h s) = md_original_shard s" "md_original_shard (set_links p l s) = md_original_shard s"
  "md_requested_size (set_head p h s) = md_requested_size s" "md_requested_size (set_links p l s) = md_requested_size s"
  "address_bin_size (set_head p h s) = address_bin_size s" "address_bin_size (set_links p l s) = address_bin_size s"
  "frontier_reclaim_in_progress (set_head p h s) = frontier_reclaim_in_progress s"
  "frontier_reclaim_in_progress (set_links p l s) = frontier_reclaim_in_progress s"
  "length (pending_shards (set_head p h s)) = length (pending_shards s)" "pending_shards (set_links p l s) = pending_shards s"
  "length (block_managers (set_head p h s)) = length (block_managers s)" "block_managers (set_links p l s) = block_managers s"
  by (cases p; simp add: update_shard_def update_manager_def set_bin_head_def)+

lemma nth_update_keeps: "(\<And>x. g (f x) = g x) \<Longrightarrow> t < length xs \<Longrightarrow> g (xs[i := f (xs ! i)] ! t) = g (xs ! t)"
  by (cases "i = t") simp_all

lemma place_nth [simp]:
  "t < length (pending_shards s) \<Longrightarrow> shard_count (pending_shards (set_head p h s) ! t) = shard_count (pending_shards s ! t)"
  "t < length (pending_shards s) \<Longrightarrow>
    maintenance_window_open (pending_shards (set_head p h s) ! t) = maintenance_window_open (pending_shards s ! t)"
  "m < length (block_managers s) \<Longrightarrow>
    state_and_active_count (block_managers (set_head p h s) ! m) = state_and_active_count (block_managers s ! m)"
  by (cases p; simp add: update_shard_def update_manager_def set_bin_head_def nth_update_keeps)+

lemma place_derived [simp]:
  "frontier (set_head p h s) = frontier s" "frontier (set_links p l s) = frontier s"
  "get_state (set_head p h s) = get_state s" "get_state (set_links p l s) = get_state s"
  "get_memory_block (set_head p h s) = get_memory_block s" "get_memory_block (set_links p l s) = get_memory_block s"
  "owner_of (set_head p h s) = owner_of s" "owner_of (set_links p l s) = owner_of s"
  "recs (set_head p h s) = recs s" "recs (set_links p l s) = recs s"
  "attached (set_head p h s) = attached s" "attached (set_links p l s) = attached s"
  "place_ok cfg (set_head p h s) B q r = place_ok cfg s B q r" "place_ok cfg (set_links p l s) B q r = place_ok cfg s B q r"
proof -
  show "frontier (set_head p h s) = frontier s" "frontier (set_links p l s) = frontier s"
    by (simp_all add: frontier_def)
  show g: "get_state (set_head p h s) = get_state s" "get_state (set_links p l s) = get_state s"
    "get_memory_block (set_head p h s) = get_memory_block s" "get_memory_block (set_links p l s) = get_memory_block s"
    "owner_of (set_head p h s) = owner_of s" "owner_of (set_links p l s) = owner_of s"
    "recs (set_head p h s) = recs s" "recs (set_links p l s) = recs s"
    by (auto simp: fun_eq_iff get_state_def get_memory_block_def owner_of_def recs_def)
  show a: "attached (set_head p h s) = attached s" "attached (set_links p l s) = attached s"
    by (auto simp: fun_eq_iff attached_def g)
  show "place_ok cfg (set_head p h s) B q r = place_ok cfg s B q r" "place_ok cfg (set_links p l s) B q r = place_ok cfg s B q r"
    by (cases q; simp add: g a)+
qed

lemma place_parts [simp]:
  "geo cfg (set_head p h s) = geo cfg s" "geo cfg (set_links p l s) = geo cfg s"
  "region (set_head p h s) = region s" "region (set_links p l s) = region s"
  "front (set_head p h s) bs = front s bs" "front (set_links p l s) bs = front s bs"
  "owned (set_head p h s) H b = owned s H b" "owned (set_links p l s) H b = owned s H b"
  "placed cfg (set_head p h s) B ls H = placed cfg s B ls H" "placed cfg (set_links p l s) B ls H = placed cfg s B ls H"
  "ledger_ok (set_head p h s) B H L = ledger_ok s B H L" "ledger_ok (set_links p l s) B H L = ledger_ok s B H L"
  "spares (set_head p h s) ls = spares s ls" "spares (set_links p l s) ls = spares s ls"
proof -
  show "spares (set_head p h s) ls = spares s ls" "spares (set_links p l s) ls = spares s ls"
    by (simp_all add: spares_def)
qed (simp_all add: geo_def region_def front_def owned_def placed_def ledger_ok_def in_use_block_def)

section \<open>The steps\<close>

lemma hand_rec:
  assumes "inv cfg s bs K ls H L" and "r \<in> H"
  obtains i where "i < metadata_record_count s" "r = record_at (metadata_start s) i"
  using invD(7) [OF assms(1)] assms(2) by (auto simp: placed_def recs_def)

lemma listed_rec:
  assumes "inv cfg s bs K ls H L" and "r \<in> set (ls p)"
  shows "r \<in> recs s" "r \<notin> H" "place_ok cfg s (set bs - K) p r"
  using invD(7) [OF assms(1)] assms(2) by (auto simp: placed_def)

text \<open>Changing the state word of a record in hand.\<close>

lemma state_word_fields [simp]:
  "get_state (set_state_word r w s) q = (if q = r then bs_unpack_state w else get_state s q)"
  "get_memory_block (set_state_word r w s) q = (if q = r then bs_unpack_ptr w (arena_block s) else get_memory_block s q)"
  "md_block_state (set_state_word r w s) q = (if q = r then w else md_block_state s q)"
  "frontier (set_state_word r w s) = frontier s" "owner_of (set_state_word r w s) = owner_of s" "recs (set_state_word r w s) = recs s"
  "attached (set_state_word r w s) = attached s" "stacks cfg (set_state_word r w s) = stacks cfg s"
  "geo cfg (set_state_word r w s) = geo cfg s" "region (set_state_word r w s) = region s" "front (set_state_word r w s) = front s"
  "spares (set_state_word r w s) = spares s" "metadata_record_count (set_state_word r w s) = metadata_record_count s"
  "hdr_size (set_state_word r w s) = hdr_size s" "hdr_metadata_index (set_state_word r w s) = hdr_metadata_index s"
  "hdr_previous (set_state_word r w s) = hdr_previous s" "allocation_base (set_state_word r w s) = allocation_base s"
  "md_total_size (set_state_word r w s) = md_total_size s" "arena_block (set_state_word r w s) = arena_block s"
  "metadata_start (set_state_word r w s) = metadata_start s" "cpu_shards (set_state_word r w s) = cpu_shards s"
  "block_managers (set_state_word r w s) = block_managers s" "pending_shards (set_state_word r w s) = pending_shards s"
  "next_empty_memory_block (set_state_word r w s) = next_empty_memory_block s"
proof -
  let ?t = "set_state_word r w s"
  show "frontier ?t = frontier s" "owner_of ?t = owner_of s" "recs ?t = recs s" "attached ?t = attached s"
    by (auto simp: fun_eq_iff set_state_word_def frontier_def owner_of_def recs_def attached_def)
  have p: "head_of ?t p = head_of s p" "links_of ?t p = links_of s p" "valid_place ?t p = valid_place s p" for p
    by (cases p; simp add: set_state_word_def)+
  have "stacks cfg ?t ls = stacks cfg s ls" for ls unfolding stacks_def p by (simp add: set_state_word_def)
  then show "stacks cfg ?t = stacks cfg s" by blast
  show "geo cfg ?t = geo cfg s" "region ?t = region s" "front ?t = front s" "spares ?t = spares s"
    by (simp_all add: fun_eq_iff geo_def region_def front_def spares_def frontier_def set_state_word_def)
qed (simp_all add: set_state_word_def get_state_def get_memory_block_def)

lemma place_ok_other:
  "q \<noteq> r \<Longrightarrow> place_ok cfg (set_state_word r w s) B p q = place_ok cfg s B p q"
  by (cases p) simp_all

lemma inv_set_state:
  assumes inv: "inv cfg s bs K ls H L" and r: "r \<in> H"
    and same: "attached s (set bs - K) r \<Longrightarrow> bs_unpack_ptr w (arena_block s) = get_memory_block s r"
  shows "inv cfg (set_state_word r w s) bs K ls H L"
proof -
  let ?t = "set_state_word r w s"
  note I = invD [OF inv]
  have "owned ?t H b" if b: "b \<in> set bs - K" for b
  proof (cases "owner_of s b = r")
    case True
    then have "attached s (set bs - K) r" using b by (auto simp: attached_def)
    then show ?thesis using I(6) [OF b] same True r by (simp add: owned_def)
  next
    case False
    then show ?thesis using I(6) [OF b] by (simp add: owned_def)
  qed
  moreover have "placed cfg ?t (set bs - K) ls H"
  proof -
    have "place_ok cfg ?t (set bs - K) p q" if "q \<in> set (ls p)" for p q
    proof -
      have "q \<noteq> r" using listed_rec(2) [OF inv that] r by auto
      then show ?thesis using listed_rec(3) [OF inv that] by (simp add: place_ok_other)
    qed
    moreover have "q \<in> H \<or> (\<exists>p. q \<in> set (ls p)) \<or> get_state ?t q = state_code IN_USE \<and> attached ?t (set bs - K) q" if "q \<in> recs s" for q
      using I(7) r that unfolding placed_def by (cases "q = r") auto
    ultimately show ?thesis using I(7) unfolding placed_def by simp
  qed
  moreover have "in_use_block ?t H b = in_use_block s H b" for b using r by (auto simp: in_use_block_def)
  then have "ledger_ok ?t (set bs - K) H L" using I(8) by (simp add: ledger_ok_def)
  ultimately show ?thesis using I by (simp add: inv_def)
qed

lemma push_place_shape:
  obtains h l where "push_place cfg r p s = set_head p h (set_links p l s)"
proof -
  obtain h l where "push (metadata_tag cfg) (stack_adapter (metadata_start s)) r (head_of s p, links_of s p) = (h, l)"
    by fastforce
  then show thesis using that by (simp add: push_place_def)
qed

lemma placed_push:
  assumes pl: "placed cfg s B ls H" and r: "r \<in> H" and ok: "place_ok cfg s B p r"
  shows "placed cfg s B (ls(p := r # ls p)) (H - {r})"
proof -
  let ?ls = "ls(p := r # ls p)"
  have old: "q \<in> recs s \<and> q \<notin> H \<and> place_ok cfg s B x q" if "q \<in> set (ls x)" for x q
    using pl that by (simp add: placed_def)
  have "q \<in> recs s \<and> q \<notin> H - {r} \<and> place_ok cfg s B x q" if q: "q \<in> set (?ls x)" for x q
  proof (cases "x = p \<and> q = r")
    case True
    then show ?thesis using pl r ok by (auto simp: placed_def)
  next
    case False
    then have "q \<in> set (ls x)" using q by (cases "x = p") auto
    then show ?thesis using old by blast
  qed
  moreover have "q \<in> H - {r} \<or> (\<exists>x. q \<in> set (?ls x)) \<or> get_state s q = state_code IN_USE \<and> attached s B q"
    if "q \<in> recs s" for q
  proof (cases "q = r")
    case True
    then have "q \<in> set (?ls p)" by simp
    then show ?thesis by blast
  next
    case False
    have "q \<in> set (?ls x)" if "q \<in> set (ls x)" for x using that by (cases "x = p") auto
    then show ?thesis using pl that False unfolding placed_def by blast
  qed
  ultimately show ?thesis using pl unfolding placed_def by blast
qed

text \<open>Putting a record in hand on a pending list or in a bin.\<close>

lemma inv_push:
  assumes inv: "inv cfg s bs K ls H L" and r: "r \<in> H" and v: "valid_place s p" and p: "\<not> header_place p"
    and ok: "place_ok cfg s (set bs - K) p r"
    and free: "get_state s r = state_code FRONTIER_RECLAIMED \<Longrightarrow> \<not> attached s (set bs - K) r"
  shows "inv cfg (push_place cfg r p s) bs K (ls(p := r # ls p)) (H - {r}) L"
proof -
  let ?ls = "ls(p := r # ls p)"
  note I = invD [OF inv]
  obtain i where i: "i < metadata_record_count s" "r = record_at (metadata_start s) i" using hand_rec [OF inv r] .
  note R = rec_facts [OF I(1,2) i(1), folded i(2)]
  have new: "r \<notin> set (ls q)" for q using listed_rec(2) [OF inv] r by blast
  obtain h l where t: "push_place cfg r p s = set_head p h (set_links p l s)" using push_place_shape .
  have st: "stacks cfg (push_place cfg r p s) ?ls" by (rule push_stacks [OF I(4) v R(7,6) new])
  have state: "get_state s r \<in> state_code ` {DEALLOCATED_PENDING, AVAILABLE, FRONTIER_RECLAIMED}"
    using ok p by (cases p) auto
  have own: "owned s (H - {r}) b" if b: "b \<in> set bs - K" for b
  proof (cases "owner_of s b = r")
    case True
    then have "get_state s r \<noteq> state_code FRONTIER_RECLAIMED" using free b by (auto simp: attached_def)
    then show ?thesis using I(6) [OF b] state True by (auto simp: owned_def)
  next
    case False
    then show ?thesis using I(6) [OF b] by (auto simp: owned_def)
  qed
  have "placed cfg s (set bs - K) ?ls (H - {r})" by (rule placed_push [OF I(7) r ok])
  moreover have "in_use_block s (H - {r}) b = in_use_block s H b" for b
    using state r by (auto simp: in_use_block_def)
  then have "ledger_ok s (set bs - K) (H - {r}) L" using I(8) by (simp add: ledger_ok_def)
  moreover have "spares s ?ls = spares s ls" using p by (cases p) (simp_all add: spares_def)
  ultimately show ?thesis using I own st unfolding t inv_def by simp
qed

lemma placed_pop:
  assumes st: "stacks cfg s ls" and pl: "placed cfg s B ls H" and ls: "ls p = r # xs"
  shows "placed cfg s B (ls(p := xs)) (insert r H)"
proof -
  let ?ls = "ls(p := xs)"
  have rp: "r \<in> set (ls p)" using ls by simp
  have sub: "set (?ls q) \<subseteq> set (ls q)" for q using ls by auto
  have nin: "r \<notin> set (?ls q)" for q
  proof (cases "q = p")
    case True
    then show ?thesis using stacksD(4) [OF st, of p] ls by simp
  next
    case False
    then show ?thesis using stacksD(3) [OF st False] rp by auto
  qed
  have R: "r \<in> recs s" using pl rp by (auto simp: placed_def)
  have "q \<in> insert r H \<or> (\<exists>p. q \<in> set (?ls p)) \<or> get_state s q = state_code IN_USE \<and> attached s B q" if "q \<in> recs s" for q
  proof (cases "q = r")
    case False
    have "q \<in> set (?ls x)" if "q \<in> set (ls x)" for x using that ls False by auto
    then show ?thesis using pl \<open>q \<in> recs s\<close> unfolding placed_def by blast
  qed simp
  then show ?thesis using pl R sub nin unfolding placed_def by (metis insert_iff insert_subset subsetD)
qed

text \<open>Taking the first record of a pending list or of a bin.\<close>

lemma inv_pop:
  assumes inv: "inv cfg s bs K ls H L" and v: "valid_place s p" and p: "\<not> header_place p" and ls: "ls p = r # xs"
  shows "\<exists>t. pop_place cfg p s = (r, t) \<and> inv cfg t bs K (ls(p := xs)) (insert r H) L \<and> r \<in> recs s \<and> r \<noteq> 0 \<and> r \<notin> H \<and>
    place_ok cfg s (set bs - K) p r \<and> get_state t = get_state s \<and> metadata_record_count t = metadata_record_count s \<and>
    (\<exists>h l. t = set_head p h (set_links p l s))"
proof -
  let ?ls = "ls(p := xs)"
  note I = invD [OF inv]
  obtain t h l where t: "pop_place cfg p s = (r, t)" "t = set_head p h (set_links p l s)" "r \<noteq> 0" "stacks cfg t ?ls"
    using pop_stacks(2) [OF I(4) v ls] by blast
  have rp: "r \<in> set (ls p)" using ls by simp
  note R = listed_rec [OF inv rp]
  have state: "get_state s r \<noteq> state_code IN_USE" using R(3) p by (cases p) auto
  have own: "owned s (insert r H) b" if b: "b \<in> set bs - K" for b using I(6) [OF b] by (auto simp: owned_def)
  have "placed cfg s (set bs - K) ?ls (insert r H)" by (rule placed_pop [OF I(4,7) ls])
  moreover have "in_use_block s (insert r H) b = in_use_block s H b" for b
    using state by (auto simp: in_use_block_def)
  then have "ledger_ok s (set bs - K) (insert r H) L" using I(8) by (simp add: ledger_ok_def)
  moreover have "spares s ?ls = spares s ls" using p by (cases p) (simp_all add: spares_def)
  ultimately have "inv cfg t bs K ?ls (insert r H) L" using I own t(2,4) unfolding inv_def by simp
  then show ?thesis using t R by auto
qed

text \<open>The owner of a block is its own.\<close>

lemma owner_inj:
  "owned s H b \<Longrightarrow> owned s H c \<Longrightarrow> owner_of s b = owner_of s c \<Longrightarrow> b = c"
  by (simp add: owned_def)

lemma attached_owned:
  assumes "inv cfg s bs K ls H L" and "attached s (set bs - K) r"
  shows "get_memory_block s r \<in> set bs - K" "owner_of s (get_memory_block s r) = r"
    "md_total_size s r = hdr_size s (get_memory_block s r)"
proof -
  obtain b where b: "b \<in> set bs - K" "owner_of s b = r" using assms(2) by (auto simp: attached_def)
  then show "get_memory_block s r \<in> set bs - K" "owner_of s (get_memory_block s r) = r"
    "md_total_size s r = hdr_size s (get_memory_block s r)"
    using invD(6) [OF assms(1) b(1)] by (simp_all add: owned_def)
qed

text \<open>Frontier words of an arena.\<close>

lemma frontier_ok_below:
  assumes g: "geo cfg s" and p: "allocation_base s \<le> p" "p < metadata_start s" "64 dvd p"
  shows "frontier_ok (allocation_base s) p"
proof -
  have "p - allocation_base s < 64 * 4294967295" using p geoD(8,13) [OF g] by linarith
  moreover have "64 dvd p - allocation_base s" using p geoD(9) [OF g] by (simp add: dvd_diff_nat)
  ultimately show ?thesis using p geoD(12) [OF g] by (auto simp: frontier_ok_def less_mult_imp_div_less mult.commute)
qed

lemma chain_frontier_ok:
  assumes g: "geo cfg s" and r: "region s" and f: "front s bs"
  shows "frontier_ok (allocation_base s) (frontier s)" and "b \<in> set bs \<Longrightarrow> frontier_ok (allocation_base s) b"
    and "last_or bs 0 = 0 \<or> frontier_ok (allocation_base s) (last_or bs 0)"
proof -
  show "frontier_ok (allocation_base s) (frontier s)" using r by (intro frontier_ok_below [OF g]) (auto simp: region_def)
  note C = chain_facts [OF g r f]
  show b: "b \<in> set bs \<Longrightarrow> frontier_ok (allocation_base s) b" for b
    using C(2,5,6) by (intro frontier_ok_below [OF g]) auto
  show "last_or bs 0 = 0 \<or> frontier_ok (allocation_base s) (last_or bs 0)"
    using b [of "last bs"] by (simp add: last_or_def)
qed

text \<open>Moving the frontier word.\<close>

definition set_frontier :: "u64 \<Rightarrow> single_arena \<Rightarrow> single_arena" where
  "set_frontier w s = s\<lparr>next_empty_memory_block := w\<rparr>"

lemma set_frontier_fields [simp]:
  "get_state (set_frontier w s) = get_state s" "get_memory_block (set_frontier w s) = get_memory_block s"
  "owner_of (set_frontier w s) = owner_of s" "recs (set_frontier w s) = recs s" "attached (set_frontier w s) = attached s"
  "stacks cfg (set_frontier w s) = stacks cfg s" "geo cfg (set_frontier w s) = geo cfg s"
  "spares (set_frontier w s) = spares s" "metadata_record_count (set_frontier w s) = metadata_record_count s"
  "hdr_size (set_frontier w s) = hdr_size s" "hdr_metadata_index (set_frontier w s) = hdr_metadata_index s"
  "hdr_previous (set_frontier w s) = hdr_previous s" "allocation_base (set_frontier w s) = allocation_base s"
  "md_total_size (set_frontier w s) = md_total_size s" "arena_block (set_frontier w s) = arena_block s"
  "metadata_start (set_frontier w s) = metadata_start s" "cpu_shards (set_frontier w s) = cpu_shards s"
  "block_managers (set_frontier w s) = block_managers s" "next_empty_memory_block (set_frontier w s) = w"
proof -
  let ?t = "set_frontier w s"
  show "get_state ?t = get_state s" "get_memory_block ?t = get_memory_block s" "owner_of ?t = owner_of s" "recs ?t = recs s"
    "attached ?t = attached s"
    by (auto simp: fun_eq_iff set_frontier_def get_state_def get_memory_block_def owner_of_def recs_def attached_def)
  have p: "head_of ?t p = head_of s p" "links_of ?t p = links_of s p" "valid_place ?t p = valid_place s p" for p
    by (cases p; simp add: set_frontier_def)+
  have "stacks cfg ?t ls = stacks cfg s ls" for ls unfolding stacks_def p by (simp add: set_frontier_def)
  then show "stacks cfg ?t = stacks cfg s" by blast
  show "geo cfg ?t = geo cfg s" "spares ?t = spares s"
    by (simp_all add: fun_eq_iff geo_def spares_def set_frontier_def)
qed (simp_all add: set_frontier_def)

lemma frontier_set: 
  assumes "frontier_ok (allocation_base s) f" and "p = 0 \<or> frontier_ok (allocation_base s) p"
  defines "t \<equiv> set_frontier (pack_frontier (allocation_base s) f p) s"
  shows "frontier t = f" and "unpack_predecessor (allocation_base t) (next_empty_memory_block t) = p"
  using frontier_pack_unpack [OF assms(1,2)] by (simp_all add: t_def frontier_def)

text \<open>
  The last block goes back below the frontier; its record is in hand, or is a free block's and is
  left behind in its bin, marked.
\<close>

lemma inv_rollback:
  assumes inv: "inv cfg s (bs @ [b]) {} ls H L" and r: "owner_of s b = r"
    and how: "r \<in> H \<or> get_state s r = state_code AVAILABLE \<and> bs_unpack_state w = state_code FRONTIER_RECLAIMED"
  defines "t \<equiv> set_frontier (pack_frontier (allocation_base s) b (hdr_previous s b)) (set_state_word r w s)"
  shows "inv cfg t bs {} ls H L" and "frontier t = b" and "\<not> attached t (set bs) r"
proof -
  note I = invD [OF inv, simplified]
  note C = chain_facts [OF I(1-3)]
  have ch: "block_chain (hdr_size s) (hdr_previous s) (allocation_base s) 0 bs b" "hdr_previous s b = last_or bs 0"
    using I(3) by (simp_all add: front_def block_chain_append)
  have "last_or bs 0 = 0 \<or> last_or bs 0 \<in> set bs" by (auto simp: last_or_def)
  then have fo: "frontier_ok (allocation_base s) b" "last_or bs 0 = 0 \<or> frontier_ok (allocation_base s) (last_or bs 0)"
    using chain_frontier_ok(2) [OF I(1-3)] by auto
  note F = frontier_set [of "set_state_word r w s" b "last_or bs 0", simplified, OF fo, folded ch(2), folded t_def]
  show fr: "frontier t = b" by (rule F(1))
  have ob: "owner_of s c \<noteq> r" if "c \<in> set bs" for c
    using owner_inj [OF I(6) I(6), of c b] that C(1) r by auto
  then show un: "\<not> attached t (set bs) r" by (auto simp: attached_def t_def)
  have att: "attached t (set bs) q \<longleftrightarrow> attached s (insert b (set bs)) q" if "q \<noteq> r" for q
    using that r by (auto simp: attached_def t_def)
  have "region t" unfolding region_def fr using I(2) C(2,5,10) [of b] by (simp add: region_def t_def)
  moreover have "front t bs"
    unfolding front_def fr using ch frontier_pack_unpack(2) [OF fo] by (simp add: t_def)
  moreover have "owned t H c" if "c \<in> set bs" for c
    using I(6) [of c] that ob [OF that] by (simp add: owned_def t_def)
  moreover have "placed cfg t (set bs) ls H"
    unfolding placed_def
  proof (intro conjI allI ballI)
    show "H \<subseteq> recs t" using I(7) by (simp add: placed_def t_def)
  next
    fix p q assume q: "q \<in> set (ls p)"
    have R: "q \<in> recs s" "q \<notin> H" "place_ok cfg s (insert b (set bs)) p q" using listed_rec [OF inv q] by simp_all
    show "q \<in> recs t" "q \<notin> H" using R by (simp_all add: t_def)
    show "place_ok cfg t (set bs) p q"
    proof (cases "q = r")
      case True
      then have h: "get_state s q = state_code AVAILABLE" "bs_unpack_state w = state_code FRONTIER_RECLAIMED" using R(2) how by auto
      then have "get_state t q = state_code FRONTIER_RECLAIMED" using True by (simp add: t_def)
      then show ?thesis using R(3) h(1) by (cases p) simp_all
    next
      case False
      then have "place_ok cfg t (insert b (set bs)) p q = place_ok cfg s (insert b (set bs)) p q"
        by (cases p) (simp_all add: t_def)
      then show ?thesis using R(3) att [OF False] by (cases p) (auto simp: t_def)
    qed
  next
    fix q assume q: "q \<in> recs t"
    have "q \<in> H \<or> (\<exists>p. q \<in> set (ls p)) \<or> get_state s q = state_code IN_USE \<and> attached s (insert b (set bs)) q"
      using I(7) q by (simp add: placed_def t_def)
    then show "q \<in> H \<or> (\<exists>p. q \<in> set (ls p)) \<or> get_state t q = state_code IN_USE \<and> attached t (set bs) q"
      using how att [of q] by (cases "q = r") (auto simp: t_def)
  qed
  moreover have "ledger_ok t (set bs) H L"
  proof -
    have "\<not> in_use_block s H b" using how r by (auto simp: in_use_block_def)
    moreover have "in_use_block t H c = in_use_block s H c" if "c \<in> set bs" for c
      using ob [OF that] by (simp add: in_use_block_def t_def)
    ultimately have "{c \<in> set bs. in_use_block t H c} = {c \<in> insert b (set bs). in_use_block s H c}" by auto
    then show ?thesis using I(8) unfolding ledger_ok_def by (simp add: t_def)
  qed
  ultimately show "inv cfg t bs {} ls H L" using I by (simp add: inv_def t_def)
qed

text \<open>A new block is carved at the frontier.\<close>

definition carve :: "nat \<Rightarrow> single_arena \<Rightarrow> single_arena" where
  "carve n s = s\<lparr>next_empty_memory_block := pack_frontier (allocation_base s) (frontier s + n) (frontier s),
     hdr_size := (hdr_size s)(frontier s := n),
     hdr_previous := (hdr_previous s)(frontier s := unpack_predecessor (allocation_base s) (next_empty_memory_block s))\<rparr>"

lemma carve_fields [simp]:
  "get_state (carve n s) = get_state s" "get_memory_block (carve n s) = get_memory_block s"
  "owner_of (carve n s) = owner_of s" "recs (carve n s) = recs s" "attached (carve n s) = attached s"
  "stacks cfg (carve n s) = stacks cfg s" "geo cfg (carve n s) = geo cfg s"
  "spares (carve n s) = spares s" "metadata_record_count (carve n s) = metadata_record_count s"
  "hdr_metadata_index (carve n s) = hdr_metadata_index s" "allocation_base (carve n s) = allocation_base s"
  "md_total_size (carve n s) = md_total_size s" "arena_block (carve n s) = arena_block s"
  "metadata_start (carve n s) = metadata_start s" "cpu_shards (carve n s) = cpu_shards s"
  "block_managers (carve n s) = block_managers s" "place_ok cfg (carve n s) B p r = place_ok cfg s B p r"
proof -
  let ?t = "carve n s"
  show e: "get_state ?t = get_state s" "get_memory_block ?t = get_memory_block s" "owner_of ?t = owner_of s" "recs ?t = recs s"
    and a: "attached ?t = attached s"
    by (auto simp: fun_eq_iff carve_def get_state_def get_memory_block_def owner_of_def recs_def attached_def)
  have p: "head_of ?t p = head_of s p" "links_of ?t p = links_of s p" "valid_place ?t p = valid_place s p" for p
    by (cases p; simp add: carve_def)+
  have "stacks cfg ?t ls = stacks cfg s ls" for ls unfolding stacks_def p by (simp add: carve_def)
  then show "stacks cfg ?t = stacks cfg s" by blast
  show "geo cfg ?t = geo cfg s" "spares ?t = spares s"
    by (simp_all add: fun_eq_iff geo_def spares_def carve_def)
  show "place_ok cfg ?t B p r = place_ok cfg s B p r" by (cases p) (simp_all add: e a, simp_all add: carve_def)
qed (simp_all add: carve_def)

lemma inv_carve:
  assumes inv: "inv cfg s bs {} ls H L" and bin: "n \<in> bin_size cfg ` {..<NUM_NON_SENTINEL_FREE_BLOCK_BINS cfg}"
    and room: "frontier s + n + 64 * metadata_record_count s < metadata_start s"
  shows "inv cfg (carve n s) (bs @ [frontier s]) {frontier s} ls H L" and "frontier (carve n s) = frontier s + n"
    and "hdr_size (carve n s) (frontier s) = n" and "frontier s \<noteq> 0"
proof -
  let ?f = "frontier s" and ?t = "carve n s"
  note I = invD [OF inv, simplified]
  have n: "64 \<le> n" "64 dvd n" "n < 4294967296"
    using bin bin_sizes(1-3) [OF geoD(1) [OF I(1)]] geoD(1) [OF I(1)]
    by (fastforce simp: config_ok_def MAX_ALLOCATION_SIZE_INTERNAL_def)+
  note C = chain_facts [OF I(1-3)]
  show "?f \<noteq> 0" by (rule C(9))
  show sz: "hdr_size ?t ?f = n" by (simp add: carve_def)
  have new: "?f \<notin> set bs" using C(10) by blast
  have K: "set (bs @ [?f]) - {?f} = set bs" using new by auto
  have d: "64 dvd ?f" "allocation_base s \<le> ?f" using I(2) by (simp_all add: region_def)
  have fo: "frontier_ok (allocation_base s) (?f + n)" "frontier_ok (allocation_base s) ?f"
    using d n room by (auto intro!: frontier_ok_below [OF I(1)])
  note F = frontier_pack_unpack [OF fo(1) disjI2 [OF fo(2)]]
  show fr: "frontier ?t = ?f + n" using F(1) by (simp add: frontier_def [of ?t]) (simp add: carve_def)
  have pr: "unpack_predecessor (allocation_base s) (next_empty_memory_block s) = last_or bs 0"
    "block_chain (hdr_size s) (hdr_previous s) (allocation_base s) 0 bs ?f"
    using I(3) by (simp_all add: front_def)
  have same: "hdr_size ?t b = hdr_size s b" "hdr_previous ?t b = hdr_previous s b" if "b \<in> set bs" for b
    using that new by (auto simp: carve_def)
  have "block_chain (hdr_size ?t) (hdr_previous ?t) (allocation_base s) 0 (bs @ [?f]) (?f + n)"
    unfolding block_chain_append using n pr block_chain_cong [OF pr(2), of "hdr_size ?t" "hdr_previous ?t"] same
    by (simp add: sz) (simp add: carve_def)
  moreover have "unpack_predecessor (allocation_base s) (next_empty_memory_block ?t) = ?f" using F(2) by (simp add: carve_def)
  ultimately have "front ?t (bs @ [?f])" unfolding front_def fr by (simp add: last_or_def)
  moreover have "region ?t" unfolding region_def fr using I(2) n d room by (simp add: region_def)
  moreover have "owned ?t H b" if "b \<in> set bs" for b
    using I(6) [OF that] same [OF that] by (simp add: owned_def)
  moreover have "placed cfg ?t (set bs) ls H" using I(7) by (simp add: placed_def)
  moreover have "ledger_ok ?t (set bs) H L"
  proof -
    have "in_use_block ?t H = in_use_block s H" by (simp add: fun_eq_iff in_use_block_def)
    moreover have "n' + 64 \<le> hdr_size ?t (p - 64)" if "(p, n', a) \<in> L" for p n' a
    proof -
      have "p \<in> fst ` L" using that by force
      then obtain b where b: "p = b + 64" "b \<in> set bs" using I(8) by (auto simp: ledger_ok_def)
      then show ?thesis using I(8) that same(1) [OF b(2)] by (auto simp: ledger_ok_def)
    qed
    ultimately show ?thesis using I(8) unfolding ledger_ok_def by auto
  qed
  moreover have "hdr_size ?t b \<in> bin_size cfg ` {..<NUM_NON_SENTINEL_FREE_BLOCK_BINS cfg}" if "b \<in> set (bs @ [?f])" for b
  proof (cases "b = ?f")
    case True
    then show ?thesis using sz bin by simp
  next
    case False
    then have "b \<in> set bs" using that by simp
    then show ?thesis using I(10) same(1) by simp
  qed
  ultimately show "inv cfg ?t (bs @ [?f]) {?f} ls H L" using I unfolding inv_def K by simp
qed

lemma align_multiple: "64 dvd p \<Longrightarrow> lockfree_align_pointer p ALIGNMENT = p"
  by (simp add: lockfree_align_pointer_def ALIGNMENT_def)

lemma boundary_exact:
  assumes g: "geo cfg s" and r: "region s"
  shows "frontier_overlaps_metadata s nxt \<longleftrightarrow> metadata_start s \<le> nxt + 64 * (metadata_record_count s + 1)"
proof -
  let ?n = "metadata_record_count s"
  have "64 dvd frontier s" "frontier s \<noteq> 0" using r g by (auto simp: region_def geo_def)
  then have "64 * (?n + 1) \<le> metadata_start s" using r by (auto simp: region_def elim!: dvdE)
  moreover have "metadata_start s < 18446744073709551616" by (rule geoD(12) [OF g])
  ultimately have "sub64 (metadata_start s) (mul64 (add64 ?n 1) ALLOCATION_METADATA_SIZE) = metadata_start s - 64 * (?n + 1)"
    by (simp add: sa_constants add64_exact mul64_exact sub64_exact)
  then show ?thesis by (auto simp: frontier_overlaps_metadata_def)
qed

lemma get_next_empty_carves:
  assumes inv: "inv cfg s bs {} ls H L" and bin: "bin < NUM_NON_SENTINEL_FREE_BLOCK_BINS cfg"
  shows "get_next_empty_memory_block cfg bin s = (0, s) \<or>
    get_next_empty_memory_block cfg bin s = (frontier s, carve (bin_size cfg bin) s) \<and>
    frontier s + bin_size cfg bin + 64 * metadata_record_count s < metadata_start s"
proof -
  note I = invD [OF inv]
  let ?n = "bin_size cfg bin" and ?f = "frontier s"
  have n: "64 dvd ?n" "?n < 4294967296"
    using bin_sizes(1,3) [OF geoD(1) [OF I(1)] bin] geoD(1) [OF I(1)] by (auto simp: config_ok_def MAX_ALLOCATION_SIZE_INTERNAL_def)
  have f: "64 dvd ?f" "?f < metadata_start s" "?f + ?n < 18446744073709551616"
    using I(2) n geoD(16) [OF I(1)] by (auto simp: region_def)
  have nxt: "lockfree_align_pointer (add64 ?f (FREE_BLOCK_BIN_SIZES cfg ! bin)) ALIGNMENT = ?f + ?n"
    using f n by (simp add: bin_size_def [symmetric] add64_exact align_multiple)
  have size: "sub64 (?f + ?n) ?f = ?n" using f by (simp add: sub64_exact)
  have over: "frontier_overlaps_metadata (s\<lparr>next_empty_memory_block := w\<rparr>) x = frontier_overlaps_metadata s x" for w x
    by (simp add: frontier_overlaps_metadata_def)
  show ?thesis
  proof (cases "frontier_overlaps_metadata s (?f + ?n)")
    case True
    then show ?thesis by (simp add: get_next_empty_memory_block_def nxt Let_def)
  next
    case False
    then have "?f + ?n + 64 * metadata_record_count s < metadata_start s"
      by (simp add: boundary_exact [OF I(1,2)])
    moreover have "get_next_empty_memory_block cfg bin s = (?f, carve ?n s)"
      using False by (simp add: get_next_empty_memory_block_def nxt over size Let_def carve_def)
    ultimately show ?thesis by simp
  qed
qed

section \<open>Counts and flags\<close>

text \<open>What the steps on records and blocks leave alone: the shards' counts and the flags.\<close>

definition gauge :: "single_arena \<Rightarrow> bool \<times> (nat \<times> bool) list \<times> nat \<times> addr list" where
  "gauge s = (frontier_reclaim_in_progress s,
     map (\<lambda>p. (shard_count p, maintenance_window_open p)) (pending_shards s), cpu_shards s,
     [arena_block s, metadata_start s, allocation_base s])"

lemma gauge_simps [simp]:
  "gauge (set_state_word r w s) = gauge s" "gauge (set_frontier v s) = gauge s" "gauge (carve n s) = gauge s"
  "gauge (set_head p h s) = gauge s" "gauge (set_links p l s) = gauge s" "gauge (update_manager m f s) = gauge s"
  "gauge (extended e s) = gauge s" "gauge (counted c s) = gauge s"
proof -
  have "map (\<lambda>p. (shard_count p, maintenance_window_open p)) ((pending_shards s)[t := (pending_shards s ! t)\<lparr>shard_head := h\<rparr>])
    = map (\<lambda>p. (shard_count p, maintenance_window_open p)) (pending_shards s)" (is "?l = ?r") for t
  proof (rule nth_equalityI)
    fix i assume "i < length ?l"
    then show "?l ! i = ?r ! i" by (cases "i = t") simp_all
  qed simp
  then show "gauge (set_head p h s) = gauge s"
    by (cases p) (simp_all add: gauge_def update_shard_def update_manager_def set_bin_head_def)
  show "gauge (set_links p l s) = gauge s" by (cases p) (simp_all add: gauge_def)
qed (simp_all add: gauge_def set_state_word_def set_frontier_def carve_def update_manager_def extended_def counted_def)

section \<open>Recycling a record\<close>

lemma update_manager_fields [simp]:
  "get_state (update_manager m f s) = get_state s" "get_memory_block (update_manager m f s) = get_memory_block s"
  "owner_of (update_manager m f s) = owner_of s" "recs (update_manager m f s) = recs s" "attached (update_manager m f s) = attached s"
  "metadata_record_count (update_manager m f s) = metadata_record_count s" "frontier (update_manager m f s) = frontier s"
  "front (update_manager m f s) = front s" "hdr_size (update_manager m f s) = hdr_size s"
  "hdr_metadata_index (update_manager m f s) = hdr_metadata_index s" "md_total_size (update_manager m f s) = md_total_size s"
  "metadata_start (update_manager m f s) = metadata_start s" "cpu_shards (update_manager m f s) = cpu_shards s"
  "next_free_block_index (update_manager m f s) = next_free_block_index s" "geo cfg (update_manager m f s) = geo cfg s"
  "region (update_manager m f s) = region s" "owned (update_manager m f s) = owned s"
  "placed cfg (update_manager m f s) = placed cfg s" "ledger_ok (update_manager m f s) = ledger_ok s"
  "length (block_managers (update_manager m f s)) = length (block_managers s)"
  "valid_place (update_manager m f s) p = valid_place s p"
proof -
  let ?t = "update_manager m f s"
  show e: "get_state ?t = get_state s" "get_memory_block ?t = get_memory_block s" "owner_of ?t = owner_of s" "recs ?t = recs s"
    "frontier ?t = frontier s" and a: "attached ?t = attached s"
    by (auto simp: fun_eq_iff update_manager_def get_state_def get_memory_block_def owner_of_def recs_def attached_def frontier_def)
  have p: "place_ok cfg ?t B p r = place_ok cfg s B p r" for B p r
    by (cases p) (simp_all add: e a, simp_all add: update_manager_def)
  have "front ?t bs = front s bs" for bs by (simp add: front_def e) (simp add: update_manager_def)
  then show "front ?t = front s" by blast
  have "owned ?t H b = owned s H b" for H b by (simp add: owned_def e) (simp add: update_manager_def)
  then show "owned ?t = owned s" by blast
  have "ledger_ok ?t B H L = ledger_ok s B H L" for B H L
    by (simp add: ledger_ok_def in_use_block_def e) (simp add: update_manager_def)
  then show "ledger_ok ?t = ledger_ok s" by blast
  have "placed cfg ?t B ls H = placed cfg s B ls H" for B ls H by (simp add: placed_def p e a)
  then show "placed cfg ?t = placed cfg s" by blast
  show "geo cfg ?t = geo cfg s" "region ?t = region s"
    by (simp_all add: geo_def region_def e, simp_all add: update_manager_def)
  show "valid_place ?t p = valid_place s p" by (cases p) (simp_all add: update_manager_def)
qed (simp_all add: update_manager_def)

text \<open>Changing an active count.\<close>

lemma stacks_active:
  assumes "\<And>k. local_free_head (f k) = local_free_head k"
  shows "stacks cfg (update_manager m f s) ls = stacks cfg s ls"
proof -
  have h: "head_of (update_manager m f s) p = head_of s p" if "valid_place s p" for p
  proof (cases p)
    case (Spare k)
    then show ?thesis using that by (cases "k = m") (simp_all add: update_manager_def assms)
  qed (simp_all add: update_manager_def)
  have l: "links_of (update_manager m f s) p = links_of s p" for p by (cases p) (simp_all add: update_manager_def)
  show ?thesis unfolding stacks_def using h l by auto
qed

text \<open>The records of a manager that are not spare; the active count is their number.\<close>

definition active :: "single_arena \<Rightarrow> (place \<Rightarrow> addr list) \<Rightarrow> nat \<Rightarrow> nat set" where
  "active s ls m = {i. i < metadata_record_count s \<and> manager_of i = m \<and> record_at (metadata_start s) i \<notin> set (ls (Spare m))}"

lemma active_finite [simp]: "finite (active s ls m)"
  by (rule finite_subset [of _ "{..<metadata_record_count s}"]) (auto simp: active_def)

lemma active_small: "card (active s ls m) \<le> 4096"
proof -
  have "active s ls m \<subseteq> {4096 * m..<4096 * m + 4096}"
    by (auto simp: active_def manager_of_def sa_constants)
  then have "card (active s ls m) \<le> card {4096 * m..<4096 * m + 4096}" by (intro card_mono) simp
  then show ?thesis by simp
qed

lemma spares_active: "spares s ls \<longleftrightarrow>
    (\<forall>m < length (block_managers s). state_and_active_count (block_managers s ! m) = of_nat (card (active s ls m)))"
  by (simp add: spares_def active_def)

lemma recycle_shape:
  assumes g: "geo cfg s" and r: "region s" and i: "i < metadata_record_count s"
  defines "md \<equiv> record_at (metadata_start s) i"
  shows "\<exists>w. bs_unpack_state w = state_code METADATA_AVAILABLE \<and> recycle_metadata cfg md s =
    Some (update_manager (manager_of i) release_active_slot (push_place cfg md (Spare (manager_of i)) (set_state_word md w s)))"
proof -
  have "offset_ok (arena_block s) 0" by (simp add: offset_ok_def)
  from bs_pack_unpack [OF this, of METADATA_AVAILABLE "bs_unpack_version (md_block_state s md)"]
  obtain w where w: "bs_pack 0 (arena_block s) METADATA_AVAILABLE (bs_unpack_version (md_block_state s md)) = Some w"
    "bs_unpack_state w = state_code METADATA_AVAILABLE" by blast
  have "manager_of (metadata_to_index (metadata_start s) md) = manager_of i"
    using rec_facts(3) [OF g r i] by (simp add: md_def)
  then have "recycle_metadata cfg md s =
    Some (update_manager (manager_of i) release_active_slot (push_place cfg md (Spare (manager_of i)) (set_state_word md w s)))"
    by (simp add: recycle_metadata_def w push_place_def push_header_def Let_def set_state_word_def split: prod.splits)
  then show ?thesis using w(2) by blast
qed

text \<open>A record in hand that no block has goes back to its manager.\<close>

lemma inv_recycle:
  assumes inv: "inv cfg s bs K ls H L" and r: "r \<in> H" and un: "\<not> attached s (set bs - K) r"
  shows "\<exists>t m. recycle_metadata cfg r s = Some t \<and> inv cfg t bs K (ls(Spare m := r # ls (Spare m))) (H - {r}) L \<and>
    frontier t = frontier s \<and> gauge t = gauge s \<and> next_free_block_index t = next_free_block_index s \<and>
    get_memory_block t = (get_memory_block s)(r := get_memory_block t r) \<and>
    get_state t = (get_state s)(r := state_code METADATA_AVAILABLE) \<and> attached t = attached s \<and> recs t = recs s \<and> hdr_size t = hdr_size s"
proof -
  note I = invD [OF inv]
  obtain i where i: "i < metadata_record_count s" "r = record_at (metadata_start s) i" using hand_rec [OF inv r] .
  note R = rec_facts [OF I(1,2) i(1), folded i(2)]
  let ?m = "manager_of i" and ?p = "Spare (manager_of i)"
  obtain w where w: "bs_unpack_state w = state_code METADATA_AVAILABLE"
    "recycle_metadata cfg r s = Some (update_manager ?m release_active_slot (push_place cfg r ?p (set_state_word r w s)))"
    using recycle_shape [OF I(1,2) i(1)] i(2) by blast
  define u where "u = set_state_word r w s"
  have inv': "inv cfg u bs K ls H L" unfolding u_def using un by (intro inv_set_state [OF inv r]) blast
  note J = invD [OF inv']
  have new: "r \<notin> set (ls q)" for q using listed_rec(2) [OF inv'] r by blast
  have v: "valid_place u ?p" using R(8) by (simp add: u_def)
  let ?ls = "ls(?p := r # ls ?p)"
  obtain h l where t: "push_place cfg r ?p u = set_head ?p h (set_links ?p l u)" using push_place_shape .
  define t where "t = update_manager ?m release_active_slot (push_place cfg r ?p u)"
  have rec: "record_at (metadata_start u) i = r" "i < metadata_record_count u" "rec_ok cfg (metadata_start u) r"
    using i R(7) by (simp_all add: u_def)
  have "stacks cfg (push_place cfg r ?p u) ?ls" by (rule push_stacks [OF J(4) v rec(3) R(6) new])
  then have "stacks cfg t ?ls" unfolding t_def by (simp add: stacks_active release_active_slot_def)
  moreover have "owned u (H - {r}) b" if "b \<in> set bs - K" for b
    using J(6) [OF that] un that by (auto simp: owned_def attached_def u_def)
  moreover have "placed cfg u (set bs - K) ?ls (H - {r})"
  proof (rule placed_push [OF J(7) r])
    show "place_ok cfg u (set bs - K) ?p r" using rec w(1) by (auto simp: u_def)
  qed
  moreover have "ledger_ok u (set bs - K) (H - {r}) L"
  proof -
    have "in_use_block u (H - {r}) b = in_use_block u H b" for b using r w(1) by (auto simp: in_use_block_def u_def)
    then show ?thesis using J(8) by (simp add: ledger_ok_def)
  qed
  moreover have "spares t ?ls"
    unfolding spares_active
  proof (intro allI impI)
    fix k assume k: "k < length (block_managers t)"
    then have k': "k < length (block_managers u)" by (simp add: t_def t)
    have count: "state_and_active_count (block_managers u ! k) = of_nat (card (active u ls k))"
      using J(9) k' by (simp add: spares_active)
    have old: "state_and_active_count (block_managers t ! k) =
        (if k = ?m then state_and_active_count (block_managers u ! k) - 1 else state_and_active_count (block_managers u ! k))"
      using k' unfolding t_def t by (auto simp: update_manager_def release_active_slot_def)
    have act: "active t ?ls k = active u ls k - (if k = ?m then {i} else {})"
    proof -
      have "record_at (metadata_start u) j = r \<longleftrightarrow> j = i" if "j < metadata_record_count u" for j
        using rec_inj [OF J(1,2) that rec(2)] rec(1) by auto
      then show ?thesis by (auto simp: active_def t_def t)
    qed
    show "state_and_active_count (block_managers t ! k) = of_nat (card (active t ?ls k))"
    proof (cases "k = ?m")
      case True
      have mem: "i \<in> active u ls k" using rec new True by (simp add: active_def)
      then have "0 < card (active u ls k)" by (auto simp: card_gt_0_iff)
      then show ?thesis using True act old count mem by (simp add: of_nat_diff)
    next
      case False
      then show ?thesis using act old count by simp
    qed
  qed
  ultimately have "inv cfg t bs K ?ls (H - {r}) L" using J unfolding inv_def t_def t by (simp del: set_head.simps set_links.simps)
  moreover have "gauge t = gauge s" "next_free_block_index t = next_free_block_index s" "frontier t = frontier s"
    "attached t = attached s" "recs t = recs s" "hdr_size t = hdr_size s"
    unfolding t_def t by (simp_all add: u_def del: set_head.simps set_links.simps)
      (simp add: set_state_word_def update_manager_def)
  moreover have "get_memory_block t q = get_memory_block s q" if "q \<noteq> r" for q
    using that unfolding t_def t by (simp add: u_def del: set_head.simps set_links.simps)
  then have "get_memory_block t = (get_memory_block s)(r := get_memory_block t r)" by (auto simp: fun_eq_iff)
  moreover have "get_state t = (get_state s)(r := state_code METADATA_AVAILABLE)"
    using w(1) unfolding t_def t by (auto simp: fun_eq_iff u_def simp del: set_head.simps set_links.simps)
  ultimately show ?thesis using w(2) unfolding t_def u_def by blast
qed

end
