(* ===== verification/Single_Arena_Maintenance.thy ===== *)
theory Single_Arena_Maintenance
  imports Single_Arena_Steps
begin

text \<open>
  The maintenance windows of the single arena keep its invariant and end: stealing a pending
  list, rolling the frontier back over its records, publishing the rest in the free bins, and
  trimming the metadata region.
\<close>

section \<open>What a window has in hand\<close>

text \<open>
  \<open>X\<close>: pending records taken from a list, each with its block; \<open>R\<close>: records reserved by the call
  that opened the window, without one.
\<close>

definition hand :: "arena_config \<Rightarrow> single_arena \<Rightarrow> addr list \<Rightarrow> (place \<Rightarrow> addr list) \<Rightarrow> addr set \<Rightarrow> addr set \<Rightarrow> ledger \<Rightarrow> bool" where
  "hand cfg s bs ls R X L \<longleftrightarrow> inv cfg s bs {} ls (R \<union> X) L \<and> R \<inter> X = {} \<and>
     (\<forall>r\<in>X. get_state s r = state_code DEALLOCATED_PENDING \<and> attached s (set bs) r) \<and>
     (\<forall>r\<in>R. \<not> attached s (set bs) r)"

lemma handD:
  assumes "hand cfg s bs ls R X L"
  shows "inv cfg s bs {} ls (R \<union> X) L" "R \<inter> X = {}"
    "r \<in> X \<Longrightarrow> get_state s r = state_code DEALLOCATED_PENDING" "r \<in> X \<Longrightarrow> attached s (set bs) r"
    "r \<in> R \<Longrightarrow> \<not> attached s (set bs) r"
  using assms by (auto simp: hand_def)

lemma hand_nonzero:
  assumes "hand cfg s bs ls R X L" and "r \<in> R \<union> X"
  shows "r \<noteq> 0"
proof -
  note I = invD [OF handD(1) [OF assms(1)]]
  show ?thesis using hand_rec [OF handD(1) [OF assms(1)] assms(2)] rec_facts(6) [OF I(1,2)] by metis
qed

text \<open>The lists of the other shards are not touched.\<close>

definition same_pending :: "(place \<Rightarrow> addr list) \<Rightarrow> (place \<Rightarrow> addr list) \<Rightarrow> bool" where
  "same_pending ls ls' \<longleftrightarrow> (\<forall>t. ls' (Pending t) = ls (Pending t))"

lemma same_pending_refl [simp]: "same_pending ls ls"
  by (simp add: same_pending_def)

lemma same_pending_trans: "same_pending a b \<Longrightarrow> same_pending b c \<Longrightarrow> same_pending a c"
  by (simp add: same_pending_def)

lemma same_pending_upd [simp]: "same_pending ls (ls(Bin b a := xs))" "same_pending ls (ls(Spare m := xs))"
  by (simp_all add: same_pending_def)

section \<open>Publishing\<close>

lemma publish_shape:
  assumes "md \<noteq> 0" and "get_state s md = state_code DEALLOCATED_PENDING" and "1 \<le> cpu_shards s"
  shows "\<exists>b a. publish cfg md s = push_place cfg md (Bin b a)
      (set_state_word md (with_state (md_block_state s md) AVAILABLE) s) \<and>
    b div cpu_shards s = free_block_bin_index cfg (md_total_size s md)"
proof -
  let ?s = "set_state_word md (with_state (md_block_state s md) AVAILABLE) s"
  let ?bin = "free_block_bin_index cfg (md_total_size s md)"
  let ?b = "?bin * cpu_shards s + md_original_shard ?s md mod cpu_shards s"
  let ?a = "address_bin_for ?s (get_memory_block ?s md)"
  have "md_original_shard ?s md mod cpu_shards s < cpu_shards s" using assms(3) by simp
  then have "?b div cpu_shards s = ?bin" by simp
  moreover have "publish cfg md s = push_place cfg md (Bin ?b ?a) ?s"
    using assms(1,2)
    by (simp add: publish_def push_place_def push_block_def Let_def set_bin_head_def split: prod.splits)
  ultimately show ?thesis by blast
qed

lemma hand_publish:
  assumes h: "hand cfg s bs ls R X L" and r: "r \<in> X"
  shows "\<exists>ls'. hand cfg (publish cfg r s) bs ls' R (X - {r}) L \<and> same_pending ls ls' \<and>
    gauge (publish cfg r s) = gauge s \<and> (\<forall>q. q \<noteq> r \<longrightarrow> next_free_block_index (publish cfg r s) q = next_free_block_index s q)"
proof -
  note H = handD [OF h]
  note I = invD [OF H(1), simplified]
  let ?u = "set_state_word r (with_state (md_block_state s r) AVAILABLE) s"
  obtain b a where p: "publish cfg r s = push_place cfg r (Bin b a) ?u"
    "b div cpu_shards s = free_block_bin_index cfg (md_total_size s r)"
    using publish_shape [of r s cfg] hand_nonzero [OF h] H(3) r geoD(4) [OF I(1)] by blast
  have inv: "inv cfg ?u bs {} ls (R \<union> X) L"
    by (rule inv_set_state [OF H(1)]) (use r in \<open>auto simp: get_memory_block_def\<close>)
  let ?ls = "ls(Bin b a := r # ls (Bin b a))"
  have "inv cfg (push_place cfg r (Bin b a) ?u) bs {} ?ls ((R \<union> X) - {r}) L"
    by (rule inv_push [OF inv]) (use r H(4) p(2) in auto)
  moreover have "(R \<union> X) - {r} = R \<union> (X - {r})" using H(2) r by auto
  moreover obtain hh l where t: "push_place cfg r (Bin b a) ?u = set_head (Bin b a) hh (set_links (Bin b a) l ?u)"
    and l: "l = store_link r (to_link (stack_adapter (metadata_start s)) (unpack_ptr (metadata_tag cfg) (head_of ?u (Bin b a))))
      (next_free_block_index s)"
    by (simp add: push_place_def push_def set_state_word_def)
  moreover have "gauge (push_place cfg r (Bin b a) ?u) = gauge s" unfolding t by (simp del: set_head.simps set_links.simps)
  moreover have "next_free_block_index (push_place cfg r (Bin b a) ?u) q = next_free_block_index s q" if "q \<noteq> r" for q
    unfolding t l using that by (simp add: set_bin_head_def store_link_def)
  moreover have "get_state (push_place cfg r (Bin b a) ?u) q = get_state s q" if "q \<noteq> r" for q
    unfolding t using that by (simp del: set_head.simps set_links.simps)
  moreover have "attached (push_place cfg r (Bin b a) ?u) = attached s" unfolding t by (simp del: set_head.simps set_links.simps)
  ultimately have "hand cfg (push_place cfg r (Bin b a) ?u) bs ?ls R (X - {r}) L"
    using H unfolding hand_def by auto
  then show ?thesis unfolding p(1)
    using \<open>gauge (push_place cfg r (Bin b a) ?u) = gauge s\<close>
      \<open>\<And>q. q \<noteq> r \<Longrightarrow> next_free_block_index (push_place cfg r (Bin b a) ?u) q = next_free_block_index s q\<close>
    by (intro exI [of _ ?ls]) simp
qed

text \<open>Publishing what is left of a batch.\<close>

lemma hand_publish_all:
  assumes "hand cfg s bs ls R X L" and "set batch - {0} \<subseteq> X" and "distinct (filter (\<lambda>r. r \<noteq> 0) batch)"
  shows "\<exists>ls'. hand cfg (fold (publish cfg) batch s) bs ls' R (X - set batch) L \<and> same_pending ls ls' \<and>
    gauge (fold (publish cfg) batch s) = gauge s \<and>
    (\<forall>q. q \<notin> set batch \<longrightarrow> next_free_block_index (fold (publish cfg) batch s) q = next_free_block_index s q)"
  using assms
proof (induction batch arbitrary: s ls X)
  case Nil
  then show ?case by (auto intro!: exI [of _ ls])
next
  case (Cons r batch)
  show ?case
  proof (cases "r = 0")
    case True
    then have "publish cfg r s = s" by (simp add: publish_def)
    moreover have "X - set (r # batch) = X - set batch"
      using True hand_nonzero [OF Cons.prems(1)] by auto
    ultimately show ?thesis using Cons.IH [OF Cons.prems(1)] Cons.prems(2,3) True by auto
  next
    case False
    then have r: "r \<in> X" using Cons.prems(2) by auto
    obtain ls1 where 1: "hand cfg (publish cfg r s) bs ls1 R (X - {r}) L" "same_pending ls ls1"
      "gauge (publish cfg r s) = gauge s" "\<forall>q. q \<noteq> r \<longrightarrow> next_free_block_index (publish cfg r s) q = next_free_block_index s q"
      using hand_publish [OF Cons.prems(1) r] by blast
    have "set batch - {0} \<subseteq> X - {r}" using Cons.prems(2,3) False by auto
    moreover have "distinct (filter (\<lambda>r. r \<noteq> 0) batch)" using Cons.prems(3) by (simp split: if_splits)
    ultimately obtain ls2 where 2: "hand cfg (fold (publish cfg) batch (publish cfg r s)) bs ls2 R (X - {r} - set batch) L"
      "same_pending ls1 ls2" "gauge (fold (publish cfg) batch (publish cfg r s)) = gauge (publish cfg r s)"
      "\<forall>q. q \<notin> set batch \<longrightarrow> next_free_block_index (fold (publish cfg) batch (publish cfg r s)) q =
        next_free_block_index (publish cfg r s) q"
      using Cons.IH [OF 1(1)] by blast
    have "X - {r} - set batch = X - set (r # batch)" by auto
    then show ?thesis using 1 2 same_pending_trans by (intro exI [of _ ls2]) auto
  qed
qed

section \<open>Rolling the frontier back over a batch\<close>

lemma ends_at_frontier_last:
  assumes inv: "inv cfg s bs {} ls H L" and att: "attached s (set bs) r" and ends: "ends_at_frontier s r"
  shows "\<exists>bs'. bs = bs' @ [get_memory_block s r]"
proof -
  note I = invD [OF inv, simplified]
  note C = chain_facts [OF I(1-3)]
  define b where "b = get_memory_block s r"
  have b: "b \<in> set bs" "md_total_size s r = hdr_size s b"
    using attached_owned [OF inv] att by (simp_all add: b_def)
  have "b + hdr_size s b < 18446744073709551616" using C(3) [OF b(1)] C(8) geoD(12) [OF I(1)] by linarith
  then have e: "b + hdr_size s b = frontier s" using ends b(2) by (simp add: ends_at_frontier_def b_def [symmetric] add64_exact)
  obtain cs c where cs: "bs = cs @ [c]" using b(1) by (metis append_butlast_last_id list.set(1) empty_iff)
  then have c: "c \<in> set bs" "c + hdr_size s c = frontier s" using I(3) by (simp_all add: front_def block_chain_append)
  have "b = c"
  proof (rule ccontr)
    assume "b \<noteq> c"
    then have "apart b (hdr_size s b) c (hdr_size s c)" using C(7) b c by blast
    then show False using e c C(4) [OF b(1)] C(4) [OF c(1)] by (auto simp: apart_def)
  qed
  then show ?thesis using cs by (simp add: b_def)
qed

text \<open>One record: its block goes back below the frontier, the record to its manager.\<close>

lemma hand_reclaim:
  fixes w :: u64
  assumes h: "hand cfg s bs ls R X L" and r: "r \<in> X" and ends: "ends_at_frontier s r"
  defines "b \<equiv> get_memory_block s r"
  defines "t \<equiv> set_frontier (pack_frontier (allocation_base s) b (hdr_previous s b)) (set_state_word r w s)"
  shows "\<exists>u bs' ls'. recycle_metadata cfg r t = Some u \<and> hand cfg u bs' ls' R (X - {r}) L \<and> bs = bs' @ [b] \<and>
    same_pending ls ls' \<and> gauge u = gauge s \<and> next_free_block_index u = next_free_block_index s"
proof -
  note H = handD [OF h]
  obtain bs' where bs: "bs = bs' @ [b]" using ends_at_frontier_last [OF H(1) H(4) [OF r] ends] by (auto simp: b_def)
  have own: "owner_of s b = r" using attached_owned(2) [OF H(1)] H(4) [OF r] by (simp add: b_def)
  note I = invD [OF H(1), simplified]
  have inv: "inv cfg s (bs' @ [b]) {} ls (R \<union> X) L" using H(1) bs by simp
  have T1: "inv cfg t bs' {} ls (R \<union> X) L" and T3: "\<not> attached t (set bs') r"
    using inv_rollback(1,3) [OF inv own disjI1, of w] r by (simp_all add: t_def)
  obtain u m where u: "recycle_metadata cfg r t = Some u" "inv cfg u bs' {} (ls(Spare m := r # ls (Spare m))) ((R \<union> X) - {r}) L"
    "gauge u = gauge t" "next_free_block_index u = next_free_block_index t"
    "get_state u = (get_state t)(r := state_code METADATA_AVAILABLE)" "attached u = attached t"
    using inv_recycle [OF T1, of r] T3 r by auto
  have att: "attached u (set bs') q" if "attached s (set bs) q" "q \<noteq> r" for q
    using that own unfolding u(6) by (auto simp: attached_def t_def bs)
  have un: "\<not> attached u (set bs') q" if "\<not> attached s (set bs) q" for q
    using that unfolding u(6) by (auto simp: attached_def t_def bs)
  have "(R \<union> X) - {r} = R \<union> (X - {r})" using H(2) r by auto
  then have "hand cfg u bs' (ls(Spare m := r # ls (Spare m))) R (X - {r}) L"
    using u(2) H(2-5) att un unfolding hand_def by (auto simp: u(5) t_def)
  then show ?thesis using u bs
    by (intro exI [of _ u] exI [of _ bs'] exI [of _ "ls(Spare m := r # ls (Spare m))"])
      (simp add: t_def, simp add: set_frontier_def set_state_word_def)
qed

text \<open>Striking an entry out of a batch.\<close>

definition entries :: "addr list \<Rightarrow> addr list" where
  "entries batch = filter (\<lambda>r. r \<noteq> 0) batch"

lemma entries_strike:
  assumes "i < length batch" and "batch ! i \<noteq> 0" and "distinct (entries batch)"
  shows "set (entries (batch[i := 0])) = set (entries batch) - {batch ! i}" and "distinct (entries (batch[i := 0]))"
    and "length (entries (batch[i := 0])) < length (entries batch)"
proof -
  have b: "batch = take i batch @ batch ! i # drop (Suc i) batch" using assms(1) by (rule id_take_nth_drop)
  have e: "entries batch = entries (take i batch) @ batch ! i # entries (drop (Suc i) batch)"
    by (subst b) (simp add: entries_def assms(2))
  have n: "entries (batch[i := 0]) = entries (take i batch) @ entries (drop (Suc i) batch)"
    using assms(1) by (simp add: upd_conv_take_nth_drop entries_def)
  show "set (entries (batch[i := 0])) = set (entries batch) - {batch ! i}" "distinct (entries (batch[i := 0]))"
    "length (entries (batch[i := 0])) < length (entries batch)"
    using assms(3) unfolding e n by auto
qed

lemma hand_reclaim_batch:
  assumes "hand cfg s bs ls R X L" and "set (entries batch) \<subseteq> X" and "distinct (entries batch)"
  shows "\<exists>batch' t bs' ls'. reclaim_pending_frontier_batch_locked cfg batch s = Some (batch', t) \<and>
    hand cfg t bs' ls' R (X - (set (entries batch) - set (entries batch'))) L \<and> set (entries batch') \<subseteq> set (entries batch) \<and>
    distinct (entries batch') \<and> same_pending ls ls' \<and> gauge t = gauge s \<and> next_free_block_index t = next_free_block_index s"
  using assms
proof (induction "length (entries batch)" arbitrary: batch s bs ls X rule: less_induct)
  case less
  note h = less.prems(1)
  show ?case
  proof (cases "find (\<lambda>i. ends_at_frontier s (batch ! i)) [0..<length batch]")
    case None
    then have "reclaim_pending_frontier_batch_locked cfg batch s = Some (batch, s)"
      by (subst reclaim_pending_frontier_batch_locked.simps) simp
    then show ?thesis using less.prems by (intro exI [of _ batch] exI [of _ s] exI [of _ bs] exI [of _ ls]) simp
  next
    case (Some i)
    then have i: "i < length batch" "ends_at_frontier s (batch ! i)" by (auto simp: find_Some_iff)
    let ?r = "batch ! i"
    let ?t = "set_frontier (pack_frontier (allocation_base s) (get_memory_block s ?r) (hdr_previous s (get_memory_block s ?r)))
      (set_state_word ?r (with_state (md_block_state s ?r) FRONTIER_RECLAIM_IN_PROGRESS) s)"
    have nz: "?r \<noteq> 0" using i(2) by (simp add: ends_at_frontier_def)
    have mem: "?r \<in> set (entries batch)" using i(1) nz by (simp add: entries_def)
    then have r: "?r \<in> X" using less.prems(2) by blast
    obtain u bs1 ls1 where 1: "recycle_metadata cfg ?r ?t = Some u" "hand cfg u bs1 ls1 R (X - {?r}) L"
      "same_pending ls ls1" "gauge u = gauge s" "next_free_block_index u = next_free_block_index s"
      using hand_reclaim [OF h r i(2), of "with_state (md_block_state s ?r) FRONTIER_RECLAIM_IN_PROGRESS"] by blast
    have eq: "reclaim_pending_frontier_batch_locked cfg batch s = reclaim_pending_frontier_batch_locked cfg (batch[i := 0]) u"
      using Some 1(1) by (subst reclaim_pending_frontier_batch_locked.simps)
        (simp add: Let_def, simp add: set_frontier_def set_state_word_def)
    note E = entries_strike [OF i(1) nz less.prems(3)]
    have "set (entries (batch[i := 0])) \<subseteq> X - {?r}" using E(1) less.prems(2) by blast
    from less.hyps [OF E(3) 1(2) this E(2)] obtain batch' t bs2 ls2 where
      2: "reclaim_pending_frontier_batch_locked cfg (batch[i := 0]) u = Some (batch', t)"
      "hand cfg t bs2 ls2 R (X - {?r} - (set (entries (batch[i := 0])) - set (entries batch'))) L"
      "set (entries batch') \<subseteq> set (entries (batch[i := 0]))" "distinct (entries batch')" "same_pending ls1 ls2"
      "gauge t = gauge u" "next_free_block_index t = next_free_block_index u" by blast
    have "X - {?r} - (set (entries (batch[i := 0])) - set (entries batch')) = X - (set (entries batch) - set (entries batch'))"
      using E(1) 2(3) mem by auto
    then have "hand cfg t bs2 ls2 R (X - (set (entries batch) - set (entries batch'))) L" using 2(2) by simp
    moreover have "set (entries batch') \<subseteq> set (entries batch)" using 2(3) E(1) by blast
    moreover have "reclaim_pending_frontier_batch_locked cfg batch s = Some (batch', t)" using eq 2(1) by simp
    moreover have "same_pending ls ls2" by (rule same_pending_trans [OF 1(3) 2(5)])
    ultimately show ?thesis using 1(4,5) 2(4,6,7) by (intro exI [of _ batch'] exI [of _ t] exI [of _ bs2] exI [of _ ls2]) simp
  qed
qed

lemma hand_alike: "alike s t \<Longrightarrow> hand cfg t bs ls R X L = hand cfg s bs ls R X L"
proof -
  assume a: "alike s t"
  then have "get_state t = get_state s" "attached t = attached s"
    by (auto simp: alike_def fun_eq_iff get_state_def attached_def owner_of_def)
  then show ?thesis by (simp add: hand_def inv_alike [OF a])
qed

definition set_reclaiming :: "bool \<Rightarrow> single_arena \<Rightarrow> single_arena" where
  "set_reclaiming x s = s\<lparr>frontier_reclaim_in_progress := x\<rparr>"

lemma set_reclaiming_simps [simp]:
  "alike s (set_reclaiming x s)" "next_free_block_index (set_reclaiming x s) = next_free_block_index s"
  "gauge (set_reclaiming x s) = (x, snd (gauge s))"
  by (simp_all add: set_reclaiming_def gauge_def)

lemma hand_reclaiming [simp]: "hand cfg (set_reclaiming x s) bs ls R X L = hand cfg s bs ls R X L"
  by (rule hand_alike) simp

lemma hand_process:
  assumes h: "hand cfg s bs ls R X L" and b: "set (entries batch) \<subseteq> X" "distinct (entries batch)"
  shows "\<exists>t bs' ls'. process_pending_batch cfg batch s = Some t \<and> hand cfg t bs' ls' R (X - set batch) L \<and>
    same_pending ls ls' \<and> gauge t = gauge s \<and> (\<forall>q. q \<notin> set batch \<longrightarrow> q \<noteq> 0 \<longrightarrow> next_free_block_index t q = next_free_block_index s q)"
proof -
  have ent: "set (entries xs) = set xs - {0}" for xs by (auto simp: entries_def)
  obtain batch' s1 bs1 ls1 where 1: "reclaim_pending_frontier_batch cfg batch s = Some (batch', s1)"
    "hand cfg s1 bs1 ls1 R (X - (set (entries batch) - set (entries batch'))) L"
    "set (entries batch') \<subseteq> set (entries batch)" "distinct (entries batch')" "same_pending ls ls1" "gauge s1 = gauge s"
    "next_free_block_index s1 = next_free_block_index s"
  proof (cases "frontier_reclaim_in_progress s")
    case True
    then show ?thesis using that [of batch s bs ls] h b by (simp add: reclaim_pending_frontier_batch_def)
  next
    case False
    have "hand cfg (set_reclaiming True s) bs ls R X L" using h by simp
    from hand_reclaim_batch [OF this b] obtain batch' u bs1 ls1 where
      u: "reclaim_pending_frontier_batch_locked cfg batch (set_reclaiming True s) = Some (batch', u)"
      "hand cfg u bs1 ls1 R (X - (set (entries batch) - set (entries batch'))) L"
      "set (entries batch') \<subseteq> set (entries batch)" "distinct (entries batch')" "same_pending ls ls1"
      "gauge u = gauge (set_reclaiming True s)" "next_free_block_index u = next_free_block_index s" by auto
    have "(False, snd (gauge u)) = gauge s" using u(6) False by (simp add: gauge_def set_reclaiming_def)
    then show ?thesis using that [of batch' "set_reclaiming False u" bs1 ls1] u False
      by (simp add: reclaim_pending_frontier_batch_def) (simp add: set_reclaiming_def)
  qed
  show ?thesis
  proof (cases "batch = []")
    case True
    then show ?thesis using h by (intro exI [of _ s] exI [of _ bs] exI [of _ ls]) (simp add: process_pending_batch_def)
  next
    case False
    have "set batch' - {0} \<subseteq> X - (set (entries batch) - set (entries batch'))" using 1(3) b(1) ent by blast
    from hand_publish_all [OF 1(2) this 1(4) [unfolded entries_def]] obtain ls2 where
      2: "hand cfg (fold (publish cfg) batch' s1) bs1 ls2 R (X - (set (entries batch) - set (entries batch')) - set batch') L"
      "same_pending ls1 ls2" "gauge (fold (publish cfg) batch' s1) = gauge s1"
      "\<forall>q. q \<notin> set batch' \<longrightarrow> next_free_block_index (fold (publish cfg) batch' s1) q = next_free_block_index s1 q" by blast
    have z: "0 \<notin> X" using hand_nonzero [OF h] by auto
    then have "X - (set (entries batch) - set (entries batch')) - set batch' = X - set batch"
      using 1(3) ent [of batch] ent [of batch'] by auto
    moreover have "q \<notin> set batch' \<or> q = 0" if "q \<notin> set batch" for q using that 1(3) ent by blast
    ultimately show ?thesis using False 1 2 same_pending_trans [OF 1(5) 2(2)]
      by (intro exI [of _ "fold (publish cfg) batch' s1"] exI [of _ bs1] exI [of _ ls2])
        (auto simp: process_pending_batch_def)
  qed
qed

section \<open>Stealing and walking a pending list\<close>

lemma steal_stacks:
  assumes st: "stacks cfg s ls" and v: "valid_place s p"
    and steal: "steal_all (metadata_tag cfg) (head_of s p, links_of s p) = (r, h, l)"
  shows "r = (case ls p of [] \<Rightarrow> 0 | x # _ \<Rightarrow> x)" and "l = links_of s p"
    and "chain (stack_adapter (metadata_start s)) (links_of s p) r (ls p)"
    and "stacks cfg (set_head p h (set_links p l s)) (ls(p := []))"
proof -
  let ?ms = "metadata_start s"
  from mds.steal_all_holds [OF stacksD(1) [OF st v]] steal
  have S: "r = (case ls p of [] \<Rightarrow> 0 | x # _ \<Rightarrow> x)" "l = links_of s p" "mds.holds cfg ?ms (h, links_of s p) []"
    "chain (stack_adapter ?ms) (links_of s p) r (ls p)" by auto
  then show "r = (case ls p of [] \<Rightarrow> 0 | x # _ \<Rightarrow> x)" "l = links_of s p" "chain (stack_adapter ?ms) (links_of s p) r (ls p)"
    by simp_all
  have links: "links_of (set_links p l s) q = links_of s q" for q
    using S(2) links_of_eq [of q p s] by (simp add: links_of_set_links)
  show "stacks cfg (set_head p h (set_links p l s)) (ls(p := []))"
    unfolding stacks_def
  proof (intro conjI allI impI)
    fix q
    show "if valid_place (set_head p h (set_links p l s)) q
       then mds.holds cfg (metadata_start (set_head p h (set_links p l s)))
         (head_of (set_head p h (set_links p l s)) q, links_of (set_head p h (set_links p l s)) q) ((ls(p := [])) q)
       else (ls(p := [])) q = []"
      using v S(3) stacksD(1,2) [OF st, of q] by (simp add: head_of_set_head links)
  next
    fix q q' :: place assume "q \<noteq> q'"
    then show "set ((ls(p := [])) q) \<inter> set ((ls(p := [])) q') = {}" using stacksD(3) [OF st] by auto
  qed
qed

lemma hand_steal:
  assumes h: "hand cfg s bs ls R {} L" and t: "t < cpu_shards s"
  defines "xs \<equiv> ls (Pending t)"
  shows "\<exists>u. steal_pending_deallocation_list cfg t s = (case xs of [] \<Rightarrow> 0 | x # _ \<Rightarrow> x, u) \<and>
    hand cfg u bs (ls(Pending t := [])) R (set xs) L \<and> gauge u = gauge s \<and>
    chain (stack_adapter (metadata_start u)) (next_free_block_index u) (case xs of [] \<Rightarrow> 0 | x # _ \<Rightarrow> x) xs \<and> distinct xs"
proof -
  let ?p = "Pending t" and ?ls = "ls(Pending t := [])"
  note H = handD [OF h, simplified]
  note I = invD [OF H(1), simplified]
  have v: "valid_place s ?p" using t geoD(5) [OF I(1)] by simp
  obtain r hd l where st: "steal_all (metadata_tag cfg) (head_of s ?p, links_of s ?p) = (r, hd, l)" by (metis prod_cases3)
  note S = steal_stacks [OF I(4) v st, folded xs_def]
  define u where "u = set_head ?p hd (set_links ?p l s)"
  have steal: "steal_pending_deallocation_list cfg t s = (r, u)"
    using st by (simp add: steal_pending_deallocation_list_def u_def)
  have P: "q \<in> recs s" "q \<notin> R" "get_state s q = state_code DEALLOCATED_PENDING" "attached s (set bs) q" if "q \<in> set xs" for q
    using listed_rec [OF H(1), of q ?p] that by (auto simp: xs_def)
  have "placed cfg s (set bs) ?ls (R \<union> set xs)"
    unfolding placed_def
  proof (intro conjI allI ballI)
    show "R \<union> set xs \<subseteq> recs s" using I(7) P(1) by (auto simp: placed_def)
  next
    fix p q assume q: "q \<in> set (?ls p)"
    then have p: "p \<noteq> ?p" "q \<in> set (ls p)" by (auto split: if_splits)
    show "q \<in> recs s" "place_ok cfg s (set bs) p q" using listed_rec [OF H(1) p(2)] by simp_all
    show "q \<notin> R \<union> set xs" using listed_rec(2) [OF H(1) p(2)] stacksD(3) [OF I(4) p(1)] p(2) by (auto simp: xs_def)
  next
    fix q assume "q \<in> recs s"
    then have "q \<in> R \<or> (\<exists>p. q \<in> set (ls p)) \<or> get_state s q = state_code IN_USE \<and> attached s (set bs) q"
      using I(7) by (simp add: placed_def)
    moreover have "q \<in> set xs \<or> q \<in> set (?ls p)" if "q \<in> set (ls p)" for p using that by (cases "p = ?p") (auto simp: xs_def)
    ultimately show "q \<in> R \<union> set xs \<or> (\<exists>p. q \<in> set (?ls p)) \<or> get_state s q = state_code IN_USE \<and> attached s (set bs) q"
      by blast
  qed
  moreover have "owned s (R \<union> set xs) b" if "b \<in> set bs" for b using I(6) [OF that] by (auto simp: owned_def)
  moreover have "in_use_block s (R \<union> set xs) b = in_use_block s R b" for b
    using P(3) by (auto simp: in_use_block_def)
  then have "ledger_ok s (set bs) (R \<union> set xs) L" using I(8) by (simp add: ledger_ok_def)
  moreover have "spares s ?ls" using I(9) by (simp add: spares_def)
  ultimately have "inv cfg u bs {} ?ls (R \<union> set xs) L"
    using I S(4) unfolding inv_def u_def by (simp del: set_head.simps set_links.simps)
  moreover have "get_state u = get_state s" "attached u = attached s" "gauge u = gauge s" "metadata_start u = metadata_start s"
    unfolding u_def by (simp_all del: set_head.simps set_links.simps)
  moreover have "R \<inter> set xs = {}" using P(2) by auto
  ultimately have "hand cfg u bs ?ls R (set xs) L" using P(3,4) H(5) by (simp add: hand_def)
  moreover have "next_free_block_index u = next_free_block_index s" using S(2) by (simp add: u_def update_shard_def)
  ultimately show ?thesis
    using S(1,3) steal \<open>gauge u = gauge s\<close> \<open>metadata_start u = metadata_start s\<close> stacksD(4) [OF I(4), of ?p]
    by (simp add: xs_def)
qed

lemma hand_collect:
  assumes "hand cfg s bs ls R (set batch \<union> set xs) L"
    and "chain (stack_adapter (metadata_start s)) (next_free_block_index s) p xs" and "distinct (batch @ xs)" and "0 \<notin> set batch"
    and "length batch < maintenance_window_threshold cfg"
  shows "\<exists>batch' t bs' ls'. collect_pending cfg p batch n s = Some (batch', n + length xs, t) \<and>
    hand cfg t bs' ls' R (set batch') L \<and> distinct batch' \<and> 0 \<notin> set batch' \<and> same_pending ls ls' \<and> gauge t = gauge s"
  using assms
proof (induction xs arbitrary: s bs ls p batch n)
  case Nil
  then have "collect_pending cfg p batch n s = Some (batch, n, s)" by (subst collect_pending.simps) simp
  then show ?case using Nil by (intro exI [of _ batch] exI [of _ s] exI [of _ bs] exI [of _ ls]) simp
next
  case (Cons x xs)
  let ?batch = "batch @ [x]" and ?nxt = "index_to_metadata (metadata_start s) (next_free_block_index s x)"
  have p: "p = x" "x \<noteq> 0" and ch: "chain (stack_adapter (metadata_start s)) (next_free_block_index s) ?nxt xs"
    using Cons.prems(2) by (simp_all add: stack_adapter_def)
  have X: "set batch \<union> set (x # xs) = set ?batch \<union> set xs" by auto
  have h: "hand cfg s bs ls R (set ?batch \<union> set xs) L" using Cons.prems(1) X by simp
  have d: "distinct (?batch @ xs)" "0 \<notin> set ?batch" using Cons.prems(3,4) p by auto
  show ?case
  proof (cases "length ?batch = maintenance_window_threshold cfg")
    case False
    then have less: "length ?batch < maintenance_window_threshold cfg" using Cons.prems(5) by simp
    have "collect_pending cfg p batch n s = collect_pending cfg ?nxt ?batch (n + 1) s"
      using p False Cons.prems(5) by (subst collect_pending.simps) (simp add: Let_def)
    then show ?thesis using Cons.IH [OF h ch d less, of "n + 1"] by simp
  next
    case True
    have ent: "entries ?batch = ?batch" using d(2) unfolding entries_def by (intro filter_True) metis
    have "set (entries ?batch) \<subseteq> set ?batch \<union> set xs" "distinct (entries ?batch)" using d(1) unfolding ent by auto
    from hand_process [OF h this] obtain t bs1 ls1 where 1: "process_pending_batch cfg ?batch s = Some t"
      "hand cfg t bs1 ls1 R (set ?batch \<union> set xs - set ?batch) L" "same_pending ls ls1" "gauge t = gauge s"
      "\<And>q. q \<notin> set ?batch \<Longrightarrow> q \<noteq> 0 \<Longrightarrow> next_free_block_index t q = next_free_block_index s q" by blast
    have xs: "set ?batch \<union> set xs - set ?batch = set [] \<union> set xs" using d(1) by auto
    have ms: "metadata_start t = metadata_start s" using 1(4) by (simp add: gauge_def)
    have "chain (stack_adapter (metadata_start s)) (next_free_block_index t) ?nxt xs"
    proof (rule chain_cong [OF ch])
      fix q assume "q \<in> set xs"
      then show "next_free_block_index t q = next_free_block_index s q"
        using d(1) chain_nodes_nonzero [OF ch] by (intro 1(5)) auto
    qed
    then have ch': "chain (stack_adapter (metadata_start t)) (next_free_block_index t) ?nxt xs" using ms by simp
    have eq: "collect_pending cfg p batch n s = collect_pending cfg ?nxt [] (n + 1) t"
      using p True Cons.prems(5) 1(1) by (subst collect_pending.simps) (simp add: Let_def)
    have z: "0 < maintenance_window_threshold cfg" using Cons.prems(5) by simp
    show ?thesis using Cons.IH [OF 1(2) [unfolded xs] ch', of "n + 1"] d(1) z eq 1(3,4) same_pending_trans [OF 1(3)]
      by (auto; blast)
  qed
qed

section \<open>Draining a shard\<close>

text \<open>
  Between two windows no rollback is under way, the counts are exact and only the window \<open>w\<close> is
  marked as open.
\<close>

definition calm :: "single_arena \<Rightarrow> (place \<Rightarrow> addr list) \<Rightarrow> nat option \<Rightarrow> bool" where
  "calm s ls w \<longleftrightarrow> \<not> frontier_reclaim_in_progress s \<and> length (pending_shards s) = cpu_shards s \<and>
     (\<forall>k < cpu_shards s. shard_count (pending_shards s ! k) = length (ls (Pending k)) \<and>
        (maintenance_window_open (pending_shards s ! k) \<longleftrightarrow> w = Some k))"

definition site :: "single_arena \<Rightarrow> nat \<times> addr list" where
  "site s = (cpu_shards s, [arena_block s, metadata_start s, allocation_base s])"

lemma siteD: "site t = site s \<Longrightarrow> cpu_shards t = cpu_shards s" "site t = site s \<Longrightarrow> metadata_start t = metadata_start s"
  "site t = site s \<Longrightarrow> allocation_base t = allocation_base s" "site t = site s \<Longrightarrow> arena_block t = arena_block s"
  by (simp_all add: site_def)

lemma gauge_site: "gauge t = gauge s \<Longrightarrow> site t = site s"
  by (simp add: gauge_def site_def)

lemma gauge_nth:
  assumes "gauge t = gauge s"
  shows "length (pending_shards t) = length (pending_shards s)"
    and "k < length (pending_shards s) \<Longrightarrow> shard_count (pending_shards t ! k) = shard_count (pending_shards s ! k) \<and>
      maintenance_window_open (pending_shards t ! k) = maintenance_window_open (pending_shards s ! k)"
proof -
  let ?f = "\<lambda>p. (shard_count p, maintenance_window_open p)"
  have m: "map ?f (pending_shards t) = map ?f (pending_shards s)" using assms by (simp add: gauge_def)
  then show l: "length (pending_shards t) = length (pending_shards s)" using map_eq_imp_length_eq by blast
  assume k: "k < length (pending_shards s)"
  have "map ?f (pending_shards t) ! k = map ?f (pending_shards s) ! k" using m by simp
  then show "shard_count (pending_shards t ! k) = shard_count (pending_shards s ! k) \<and>
      maintenance_window_open (pending_shards t ! k) = maintenance_window_open (pending_shards s ! k)"
    using k l by simp
qed

lemma calm_gauge:
  assumes g: "gauge t = gauge s" and p: "same_pending ls ls'"
  shows "calm t ls' w = calm s ls w"
proof -
  have "cpu_shards t = cpu_shards s" "frontier_reclaim_in_progress t = frontier_reclaim_in_progress s"
    using g by (simp_all add: gauge_def)
  then show ?thesis using gauge_nth [OF g] p unfolding calm_def same_pending_def by auto
qed

lemma drain_empty:
  assumes h: "hand cfg s bs ls R {} L" and t: "t < cpu_shards s" and "ls (Pending t) = []"
  shows "\<exists>u. drain_shard cfg t s = Some u \<and> hand cfg u bs ls R {} L \<and> gauge u = gauge s"
proof -
  have "ls(Pending t := []) = ls" using assms(3) by (simp add: fun_upd_idem)
  then obtain u where u: "steal_pending_deallocation_list cfg t s = (0, u)" "hand cfg u bs ls R {} L" "gauge u = gauge s"
    using hand_steal [OF h t] assms(3) by auto
  then have "drain_shard cfg t s = Some u" by (subst drain_shard.simps) simp
  then show ?thesis using u by blast
qed

lemma hand_drain:
  assumes h: "hand cfg s bs ls R {} L" and c: "calm s ls w" and t: "t < cpu_shards s"
  shows "\<exists>u bs' ls'. drain_shard cfg t s = Some u \<and> hand cfg u bs' ls' R {} L \<and> calm u ls' w \<and> site u = site s \<and>
    (\<forall>k. ls' (Pending k) = (if k = t then [] else ls (Pending k)))"
proof (cases "ls (Pending t) = []")
  case True
  from drain_empty [OF h t True] obtain u where "drain_shard cfg t s = Some u" "hand cfg u bs ls R {} L" "gauge u = gauge s" by blast
  then show ?thesis using True c calm_gauge [of u s ls ls w] gauge_site [of u s]
    by (intro exI [of _ u] exI [of _ bs] exI [of _ ls]) simp
next
  case False
  let ?xs = "ls (Pending t)"
  obtain p where p: "p = (case ?xs of [] \<Rightarrow> 0 | x # _ \<Rightarrow> x)" by simp
  obtain u where u: "steal_pending_deallocation_list cfg t s = (p, u)" "hand cfg u bs (ls(Pending t := [])) R (set ?xs) L"
    "gauge u = gauge s" "chain (stack_adapter (metadata_start u)) (next_free_block_index u) p ?xs" "distinct ?xs"
    using hand_steal [OF h t] p by auto
  have pnz: "p \<noteq> 0" using False u(4) by (cases "p = 0") simp_all
  have "1 \<le> maintenance_window_threshold cfg" using geoD(2) [OF invD(1) [OF handD(1) [OF h]]] .
  then obtain batch v bs1 ls1 where v: "collect_pending cfg p [] 0 u = Some (batch, length ?xs, v)"
    "hand cfg v bs1 ls1 R (set batch) L" "distinct batch" "0 \<notin> set batch" "same_pending (ls(Pending t := [])) ls1" "gauge v = gauge u"
    using hand_collect [of cfg u bs "ls(Pending t := [])" R "[]" ?xs L p 0] u(2,4,5) by auto
  have "entries batch = batch" using v(4) unfolding entries_def by (intro filter_True) metis
  then obtain x bs2 ls2 where x: "process_pending_batch cfg batch v = Some x" "hand cfg x bs2 ls2 R {} L"
    "same_pending ls1 ls2" "gauge x = gauge v"
    using hand_process [OF v(2), of batch] v(3) by auto
  have gx: "gauge x = gauge s" using x(4) v(6) u(3) by simp
  have len: "length (pending_shards s) = cpu_shards s" "length (pending_shards x) = cpu_shards s" "cpu_shards x = cpu_shards s"
    using c gauge_nth(1) [OF gx] gx by (simp_all add: calm_def gauge_def)
  define y where "y = update_shard t (shard_count_update (\<lambda>_. 0)) x"
  have cnt: "shard_count (pending_shards x ! t) = length ?xs"
    using gauge_nth(2) [OF gx, of t] t len c by (simp add: calm_def)
  then have y: "reduce_pending_deallocation_count t (length ?xs) x = Some y"
    by (simp add: reduce_pending_deallocation_count_def Let_def y_def)
  have "alike x y" by (simp add: y_def)
  then have hy: "hand cfg y bs2 ls2 R {} L" using hand_alike x(2) by blast
  have pend: "ls2 (Pending k) = (if k = t then [] else ls (Pending k))" for k
    using v(5) x(3) by (simp add: same_pending_def)
  have "calm y ls2 w"
    unfolding calm_def
  proof (intro conjI allI impI)
    show "\<not> frontier_reclaim_in_progress y" using c gx by (simp add: calm_def gauge_def y_def update_shard_def)
    show "length (pending_shards y) = cpu_shards y" using len by (simp add: y_def update_shard_def)
    fix k assume "k < cpu_shards y"
    then have k: "k < cpu_shards s" using len by (simp add: y_def update_shard_def)
    then show "shard_count (pending_shards y ! k) = length (ls2 (Pending k))"
      "maintenance_window_open (pending_shards y ! k) \<longleftrightarrow> w = Some k"
      using gauge_nth(2) [OF gx, of k] len c pend [of k] by (cases "k = t"; simp add: y_def update_shard_def calm_def)+
  qed
  moreover have sy: "site y = site s" using gauge_site [OF gx] by (simp add: site_def y_def update_shard_def)
  moreover obtain z where z: "drain_shard cfg t y = Some z" "hand cfg z bs2 ls2 R {} L" "gauge z = gauge y"
    using drain_empty [OF hy, of t] t siteD(1) [OF sy] pend by auto
  moreover have "drain_shard cfg t s = drain_shard cfg t y"
    using u(1) pnz v(1) x(1) y by (subst drain_shard.simps) simp
  ultimately show ?thesis using pend calm_gauge [OF z(3), of ls2 ls2 w] gauge_site [OF z(3)]
    by (intro exI [of _ z] exI [of _ bs2] exI [of _ ls2]) simp
qed

section \<open>Walking the frontier back\<close>

lemma reclaimable_iff:
  assumes inv: "inv cfg s bs {} ls H L"
  shows "reclaimable s (last_or bs 0) \<longleftrightarrow> bs \<noteq> [] \<and> get_state s (owner_of s (last bs)) = state_code AVAILABLE"
    and "bs \<noteq> [] \<Longrightarrow> sub64 (metadata_start s) (mul64 (hdr_metadata_index s (last bs) mod 4294967296) ALLOCATION_METADATA_SIZE) =
      owner_of s (last bs)"
proof -
  note I = invD [OF inv, simplified]
  have own: "hdr_metadata_index s (last bs) < metadata_record_count s" "get_memory_block s (owner_of s (last bs)) = last bs"
    "last bs \<noteq> 0" if "bs \<noteq> []"
    using I(6) [of "last bs"] that chain_facts(6) [OF I(1-3), of "last bs"] by (simp_all add: owned_def)
  note R = rec_facts [OF I(1,2) own(1)]
  show meta: "sub64 (metadata_start s) (mul64 (hdr_metadata_index s (last bs) mod 4294967296) ALLOCATION_METADATA_SIZE) =
      owner_of s (last bs)" if "bs \<noteq> []" using R(2,5) [OF that] by (simp add: owner_of_def)
  show "reclaimable s (last_or bs 0) \<longleftrightarrow> bs \<noteq> [] \<and> get_state s (owner_of s (last bs)) = state_code AVAILABLE"
  proof (cases "bs = []")
    case False
    then show ?thesis using meta own R(2) by (simp add: reclaimable_def last_or_def Let_def)
  qed (simp add: reclaimable_def last_or_def)
qed

lemma hand_walk:
  assumes "hand cfg s bs ls R {} L"
  shows "\<exists>t bs' any'. try_reclaim_frontier_blocks_locked any s = Some (any', t) \<and> hand cfg t bs' ls R {} L \<and>
    gauge t = gauge s \<and> (bs' = [] \<or> get_state t (owner_of t (last bs')) \<noteq> state_code AVAILABLE)"
  using assms
proof (induction "length bs" arbitrary: bs s any)
  case (0 bs s)
  note I = invD [OF handD(1) [OF 0(2)], simplified]
  have "unpack_predecessor (allocation_base s) (next_empty_memory_block s) = last_or bs 0" using I(3) by (simp add: front_def)
  then have "try_reclaim_frontier_blocks_locked any s = Some (any, s)"
    using 0(1) reclaimable_iff(1) [OF handD(1) [OF 0(2)]] by (subst try_reclaim_frontier_blocks_locked.simps) (simp add: Let_def)
  then show ?case using 0 by (intro exI [of _ s] exI [of _ bs] exI [of _ any]) simp
next
  case (Suc n)
  note H = handD [OF Suc.prems, simplified]
  note I = invD [OF H(1), simplified]
  obtain bs0 b where bs: "bs = bs0 @ [b]" using Suc.hyps(2) by (metis append_butlast_last_id list.size(3) nat.distinct(1))
  have pr: "unpack_predecessor (allocation_base s) (next_empty_memory_block s) = b"
    using I(3) by (simp add: front_def last_or_def bs)
  note Q = reclaimable_iff [OF H(1), unfolded bs, simplified]
  have lst: "last_or (bs0 @ [b]) 0 = b" by (simp add: last_or_def)
  let ?r = "owner_of s b"
  show ?case
  proof (cases "get_state s ?r = state_code AVAILABLE")
    case False
    then have "try_reclaim_frontier_blocks_locked any s = Some (any, s)"
      using Q(1) pr lst by (subst try_reclaim_frontier_blocks_locked.simps) (simp add: Let_def)
    then show ?thesis using False Suc.prems by (intro exI [of _ s] exI [of _ bs] exI [of _ any]) (simp add: bs)
  next
    case True
    let ?w = "with_state (with_state (md_block_state s ?r) FRONTIER_RECLAIM_IN_PROGRESS) FRONTIER_RECLAIMED"
    let ?t = "set_frontier (pack_frontier (allocation_base s) b (hdr_previous s b)) (set_state_word ?r ?w s)"
    have inv: "inv cfg s (bs0 @ [b]) {} ls R L" using H(1) bs by simp
    note T = inv_rollback [OF inv refl disjI2, of ?w]
    have T1: "inv cfg ?t bs0 {} ls R L" using T(1) True by simp
    have "\<not> attached ?t (set bs0) q" if "q \<in> R" for q
      using H(5) [OF that] by (auto simp: attached_def bs)
    then have h: "hand cfg ?t bs0 ls R {} L" using T1 by (simp add: hand_def)
    have st: "set_state_word ?r ?w ((set_state_word ?r w s)\<lparr>next_empty_memory_block := v\<rparr>) = set_frontier v (set_state_word ?r ?w s)" for w v
      by (cases s) (simp add: set_frontier_def set_state_word_def)
    have eq: "try_reclaim_frontier_blocks_locked any s = try_reclaim_frontier_blocks_locked True ?t"
      using Q True pr lst by (subst try_reclaim_frontier_blocks_locked.simps) (simp add: Let_def st)
    have "n = length bs0" using Suc.hyps(2) bs by simp
    from Suc.hyps(1) [OF this h, of True] show ?thesis unfolding eq by simp
  qed
qed

lemma hand_try_reclaim:
  assumes h: "hand cfg s bs ls R {} L" and c: "calm s ls w"
  shows "\<exists>t bs' any. try_reclaim_frontier_blocks s = Some (any, t) \<and> hand cfg t bs' ls R {} L \<and> calm t ls w \<and> site t = site s \<and>
    (bs' = [] \<or> get_state t (owner_of t (last bs')) \<noteq> state_code AVAILABLE)"
proof -
  have "hand cfg (set_reclaiming True s) bs ls R {} L" using h by simp
  from hand_walk [OF this, of False] obtain u bs' any where
    u: "try_reclaim_frontier_blocks_locked False (set_reclaiming True s) = Some (any, u)" "hand cfg u bs' ls R {} L"
      "gauge u = gauge (set_reclaiming True s)" "bs' = [] \<or> get_state u (owner_of u (last bs')) \<noteq> state_code AVAILABLE" by blast
  let ?t = "set_reclaiming False u"
  have f: "\<not> frontier_reclaim_in_progress s" using c by (simp add: calm_def)
  then have g: "gauge ?t = gauge s" using u(3) by (simp add: gauge_def set_reclaiming_def)
  have "get_state ?t q = get_state u q" "owner_of ?t b = owner_of u b" for q b
    by (simp_all add: set_reclaiming_def get_state_def owner_of_def)
  moreover have "try_reclaim_frontier_blocks s = Some (any, ?t)"
    using u(1) f by (simp add: try_reclaim_frontier_blocks_def) (simp add: set_reclaiming_def)
  ultimately show ?thesis using u(2,4) c calm_gauge [OF g same_pending_refl, of ls w] gauge_site [OF g]
    by (intro exI [of _ ?t] exI [of _ bs'] exI [of _ any]) simp
qed

section \<open>Trimming the metadata region\<close>

definition drop_records :: "arena_config \<Rightarrow> nat \<Rightarrow> single_arena \<Rightarrow> single_arena" where
  "drop_records cfg m s = update_manager m (\<lambda>k. k\<lparr>local_free_head := pack (metadata_tag cfg) 0 0, state_and_active_count := 0\<rparr>)
     (s\<lparr>metadata_record_count := m * METADATA_RECORDS_PER_BLOCK\<rparr>)"

lemma drop_records_fields [simp]:
  "get_state (drop_records cfg m s) = get_state s" "get_memory_block (drop_records cfg m s) = get_memory_block s"
  "owner_of (drop_records cfg m s) = owner_of s" "attached (drop_records cfg m s) = attached s"
  "metadata_record_count (drop_records cfg m s) = m * 4096" "frontier (drop_records cfg m s) = frontier s"
  "front (drop_records cfg m s) = front s" "hdr_size (drop_records cfg m s) = hdr_size s"
  "hdr_metadata_index (drop_records cfg m s) = hdr_metadata_index s" "md_total_size (drop_records cfg m s) = md_total_size s"
  "metadata_start (drop_records cfg m s) = metadata_start s" "cpu_shards (drop_records cfg m s) = cpu_shards s"
  "geo cfg (drop_records cfg m s) = geo cfg s" "allocation_base (drop_records cfg m s) = allocation_base s"
  "length (block_managers (drop_records cfg m s)) = length (block_managers s)"
  "valid_place (drop_records cfg m s) p = valid_place s p" "links_of (drop_records cfg m s) p = links_of s p"
  "gauge (drop_records cfg m s) = gauge s" "recs (drop_records cfg m s) = record_at (metadata_start s) ` {..<m * 4096}"
proof -
  let ?t = "drop_records cfg m s"
  show e: "get_state ?t = get_state s" "get_memory_block ?t = get_memory_block s" "owner_of ?t = owner_of s"
    "frontier ?t = frontier s" "attached ?t = attached s"
    by (auto simp: fun_eq_iff drop_records_def update_manager_def get_state_def get_memory_block_def owner_of_def
        attached_def frontier_def)
  show "front ?t = front s" by (rule ext) (simp add: front_def e, simp add: drop_records_def update_manager_def)
  show "geo cfg ?t = geo cfg s" by (simp add: geo_def drop_records_def update_manager_def)
  show "valid_place ?t p = valid_place s p" "links_of ?t p = links_of s p"
    by (cases p; simp add: drop_records_def update_manager_def)+
  show "gauge ?t = gauge s" by (simp add: gauge_def drop_records_def update_manager_def)
qed (simp_all add: drop_records_def update_manager_def recs_def sa_constants)

lemma head_of_drop:
  "valid_place s p \<Longrightarrow> head_of (drop_records cfg m s) p = (if p = Spare m then pack (metadata_tag cfg) 0 0 else head_of s p)"
  by (cases p) (auto simp: drop_records_def update_manager_def nth_list_update)

lemma inv_trim:
  assumes inv: "inv cfg s bs {} ls H L" and pos: "0 < metadata_record_count s"
  defines "m \<equiv> (metadata_record_count s - 1) div METADATA_RECORDS_PER_BLOCK"
  assumes idle: "state_and_active_count (block_managers s ! m) = 0"
  shows "inv cfg (drop_records cfg m s) bs {} (ls(Spare m := [])) H L"
proof -
  let ?n = "metadata_record_count s" and ?t = "drop_records cfg m s" and ?ls = "ls(Spare m := [])"
  let ?at = "record_at (metadata_start s)"
  note I = invD [OF inv, simplified]
  have m4: "m = (?n - 1) div 4096" by (simp add: m_def sa_constants)
  have low: "m * 4096 < ?n" using pos m4 div_times_less_eq_dividend [of "?n - 1" 4096] by linarith
  have in_m: "manager_of i = m" if "i < ?n" "m * 4096 \<le> i" for i
    using that m4 by (auto simp: manager_of_def sa_constants)
  have le_m: "i < m * 4096" if "i < ?n" "manager_of i \<noteq> m" for i using in_m that by force
  have lt_m: "manager_of i < m" if "i < m * 4096" for i
    using that by (simp add: manager_of_def sa_constants less_mult_imp_div_less)
  have ml: "m < length (block_managers s)" using I(2) low by (auto simp: region_def)
  have spare: "?at i \<in> set (ls (Spare m))" if "i < ?n" "m * 4096 \<le> i" for i
  proof -
    have "of_nat (card (active s ls m)) = (0 :: u32)" using I(9) idle ml by (simp add: spares_active)
    moreover have "unat (of_nat (card (active s ls m)) :: u32) = card (active s ls m)"
      using active_small [of s ls m] by (simp add: unat_of_nat)
    ultimately have "card (active s ls m) = 0" by simp
    then have "active s ls m = {}" by simp
    then show ?thesis using that in_m by (auto simp: active_def)
  qed
  have below: "i < m * 4096" if "i < ?n" "?at i \<notin> set (ls (Spare m))" for i using spare that by force
  have "stacks cfg ?t ?ls"
    unfolding stacks_def
  proof (intro conjI allI impI)
    fix q
    have "mds.holds cfg (metadata_start s) (pack (metadata_tag cfg) 0 0, links_of s (Spare m)) []" by (rule mds.holds_empty)
    then show "if valid_place ?t q then mds.holds cfg (metadata_start ?t) (head_of ?t q, links_of ?t q) (?ls q) else ?ls q = []"
      using stacksD(1,2) [OF I(4), of q] by (auto simp: head_of_drop)
  next
    fix q q' :: place assume "q \<noteq> q'"
    then show "set (?ls q) \<inter> set (?ls q') = {}" using stacksD(3) [OF I(4)] by auto
  qed
  moreover have "owned ?t H b" if b: "b \<in> set bs" for b
  proof -
    have o: "owned s H b" by (rule I(6) [OF b])
    have "owner_of s b \<notin> set (ls (Spare m))"
    proof
      assume "owner_of s b \<in> set (ls (Spare m))"
      from listed_rec [OF inv this] o show False by (auto simp: owned_def)
    qed
    then have "hdr_metadata_index s b < m * 4096" using o by (intro below) (auto simp: owned_def owner_of_def)
    then show ?thesis using o by (simp add: owned_def)
  qed
  moreover have "region ?t" using I(2) low ml by (auto simp: region_def)
  moreover have "placed cfg ?t (set bs) ?ls H"
    unfolding placed_def
  proof (intro conjI allI ballI)
    show "H \<subseteq> recs ?t"
    proof
      fix r assume r: "r \<in> H"
      obtain i where i: "i < ?n" "r = ?at i" using hand_rec [OF inv r] .
      have "r \<notin> set (ls (Spare m))" using listed_rec(2) [OF inv] r by blast
      then show "r \<in> recs ?t" using i below by auto
    qed
  next
    fix p q assume q: "q \<in> set (?ls p)"
    then have p: "p \<noteq> Spare m" "q \<in> set (ls p)" by (auto split: if_splits)
    note Q = listed_rec [OF inv p(2), simplified]
    have out: "q \<notin> set (ls (Spare m))" using stacksD(3) [OF I(4) p(1)] p(2) by auto
    then show "q \<in> recs ?t" using Q(1) below by (auto simp: recs_def)
    show "q \<notin> H" by (rule Q(2))
    show "place_ok cfg ?t (set bs) p q" using Q(3) below out by (cases p) auto
  next
    fix q assume "q \<in> recs ?t"
    then obtain i where i: "i < m * 4096" "q = ?at i" by auto
    then have "q \<in> recs s" using low by (auto simp: recs_def)
    then have "q \<in> H \<or> (\<exists>p. q \<in> set (ls p)) \<or> get_state s q = state_code IN_USE \<and> attached s (set bs) q"
      using I(7) by (simp add: placed_def)
    moreover have "q \<notin> set (ls (Spare m))"
    proof
      assume "q \<in> set (ls (Spare m))"
      then obtain j where "q = ?at j" "j < ?n" "manager_of j = m" using listed_rec(3) [OF inv] by fastforce
      then show False using rec_inj [OF I(1,2), of i j] i low lt_m [OF i(1)] by simp
    qed
    then have "q \<in> set (?ls p)" if "q \<in> set (ls p)" for p using that by auto
    ultimately show "q \<in> H \<or> (\<exists>p. q \<in> set (?ls p)) \<or> get_state ?t q = state_code IN_USE \<and> attached ?t (set bs) q"
      unfolding drop_records_fields by blast
  qed
  moreover have "ledger_ok ?t (set bs) H L" using I(8) by (simp add: ledger_ok_def in_use_block_def)
  moreover have "spares ?t ?ls"
    unfolding spares_active
  proof (intro allI impI)
    fix k assume "k < length (block_managers ?t)"
    then have k: "k < length (block_managers s)" by simp
    show "state_and_active_count (block_managers ?t ! k) = of_nat (card (active ?t ?ls k))"
    proof (cases "k = m")
      case True
      then have "active ?t ?ls k = {}" using lt_m by (fastforce simp: active_def)
      then show ?thesis using True ml by (simp add: drop_records_def update_manager_def)
    next
      case False
      then have "active ?t ?ls k = active s ls k" using le_m low by (fastforce simp: active_def)
      then show ?thesis using False I(9) k by (simp add: spares_active drop_records_def update_manager_def)
    qed
  qed
  ultimately show ?thesis using I by (simp add: inv_def)
qed

lemma hand_trim:
  assumes "hand cfg s bs ls R {} L"
  shows "\<exists>t ls'. trim_metadata_records cfg s = Some t \<and> hand cfg t bs ls' R {} L \<and> gauge t = gauge s \<and>
    same_pending ls ls' \<and> get_state t = get_state s \<and> owner_of t = owner_of s"
  using assms
proof (induction "metadata_record_count s" arbitrary: s ls rule: less_induct)
  case less
  note H = handD [OF less.prems, simplified]
  note I = invD [OF H(1), simplified]
  let ?n = "metadata_record_count s" and ?m = "(metadata_record_count s - 1) div METADATA_RECORDS_PER_BLOCK"
  show ?case
  proof (cases "?n = 0 \<or> ?m \<ge> length (block_managers s) \<or> state_and_active_count (block_managers s ! ?m) \<noteq> 0")
    case True
    then have "trim_metadata_records cfg s = Some s" by (subst trim_metadata_records.simps) (auto simp: Let_def)
    then show ?thesis using less.prems by (intro exI [of _ s] exI [of _ ls]) simp
  next
    case False
    then have pos: "0 < ?n" and idle: "state_and_active_count (block_managers s ! ?m) = 0" by auto
    have eq: "trim_metadata_records cfg s = trim_metadata_records cfg (drop_records cfg ?m s)"
      using False by (subst trim_metadata_records.simps) (simp add: Let_def drop_records_def)
    have "?m * 4096 \<le> ?n - 1" by (simp add: sa_constants)
    then have "?m * 4096 < ?n" using pos by linarith
    then have less': "metadata_record_count (drop_records cfg ?m s) < ?n" by simp
    have "hand cfg (drop_records cfg ?m s) bs (ls(Spare ?m := [])) R {} L"
      using inv_trim [OF H(1) pos idle] H(5) by (simp add: hand_def)
    from less.hyps [OF less' this] obtain t ls' where "trim_metadata_records cfg (drop_records cfg ?m s) = Some t"
      "hand cfg t bs ls' R {} L" "gauge t = gauge s" "same_pending (ls(Spare ?m := [])) ls'" "get_state t = get_state s"
      "owner_of t = owner_of s" by auto
    then show ?thesis unfolding eq by (intro exI [of _ t] exI [of _ ls']) (simp add: same_pending_def)
  qed
qed

section \<open>The windows\<close>

definition walked :: "single_arena \<Rightarrow> addr list \<Rightarrow> bool" where
  "walked s bs \<longleftrightarrow> bs = [] \<or> get_state s (owner_of s (last bs)) \<noteq> state_code AVAILABLE"

lemma hand_window:
  assumes h: "hand cfg s bs ls R {} L" and c: "calm s ls w" and t: "t < cpu_shards s"
  shows "\<exists>u bs' ls'. run_maintenance_window cfg t s = Some u \<and> hand cfg u bs' ls' R {} L \<and> calm u ls' w \<and> site u = site s \<and>
    (\<forall>k. ls' (Pending k) = (if k = t then [] else ls (Pending k))) \<and> walked u bs'"
proof -
  let ?s = "extended record_maintenance_window s"
  have h0: "hand cfg ?s bs ls R {} L" using hand_alike [of s ?s] h by simp
  have c0: "calm ?s ls w" using c calm_gauge [of ?s s ls ls w] by simp
  have t0: "t < cpu_shards ?s" using t by (simp add: extended_def)
  obtain u1 bs1 ls1 where 1: "drain_shard cfg t ?s = Some u1" "hand cfg u1 bs1 ls1 R {} L" "calm u1 ls1 w" "site u1 = site ?s"
    "\<forall>k. ls1 (Pending k) = (if k = t then [] else ls (Pending k))"
    using hand_drain [OF h0 c0 t0] by blast
  obtain u2 bs2 any where 2: "try_reclaim_frontier_blocks u1 = Some (any, u2)" "hand cfg u2 bs2 ls1 R {} L" "calm u2 ls1 w"
    "site u2 = site u1" "walked u2 bs2"
    using hand_try_reclaim [OF 1(2,3)] unfolding walked_def by blast
  obtain u3 ls3 where 3: "trim_metadata_records cfg u2 = Some u3" "hand cfg u3 bs2 ls3 R {} L" "gauge u3 = gauge u2"
    "same_pending ls1 ls3" "get_state u3 = get_state u2" "owner_of u3 = owner_of u2"
    using hand_trim [OF 2(2)] by blast
  have "walked u3 bs2" using 2(5) 3(5,6) by (simp add: walked_def)
  moreover have "calm u3 ls3 w" using calm_gauge [OF 3(3,4)] 2(3) by simp
  moreover have "site u3 = site s" using gauge_site [OF 3(3)] 2(4) 1(4) by (simp add: site_def extended_def)
  moreover have "run_maintenance_window cfg t s = Some u3" using 1(1) 2(1) 3(1) by (simp add: run_maintenance_window_def)
  ultimately show ?thesis using 1(5) 3(2,4)
    by (intro exI [of _ u3] exI [of _ bs2] exI [of _ ls3]) (simp add: same_pending_def)
qed

lemma hand_windows:
  assumes "hand cfg s bs ls R {} L" and "calm s ls w" and "\<forall>t\<in>set ts. t < cpu_shards s"
  shows "\<exists>u bs' ls'. run_windows cfg ts s = Some u \<and> hand cfg u bs' ls' R {} L \<and> calm u ls' w \<and> site u = site s \<and>
    (\<forall>k. ls' (Pending k) = (if k \<in> set ts then [] else ls (Pending k))) \<and> (ts \<noteq> [] \<longrightarrow> walked u bs')"
  using assms
proof (induction ts arbitrary: s bs ls)
  case Nil
  then show ?case by (intro exI [of _ s] exI [of _ bs] exI [of _ ls]) simp
next
  case (Cons t ts)
  then obtain u1 bs1 ls1 where 1: "run_maintenance_window cfg t s = Some u1" "hand cfg u1 bs1 ls1 R {} L" "calm u1 ls1 w"
    "site u1 = site s" "\<forall>k. ls1 (Pending k) = (if k = t then [] else ls (Pending k))" "walked u1 bs1"
    using hand_window [OF Cons.prems(1,2), of t] by auto
  have "\<forall>t\<in>set ts. t < cpu_shards u1" using Cons.prems(3) siteD(1) [OF 1(4)] by simp
  from Cons.IH [OF 1(2,3) this] obtain u2 bs2 ls2 where 2: "run_windows cfg ts u1 = Some u2" "hand cfg u2 bs2 ls2 R {} L"
    "calm u2 ls2 w" "site u2 = site u1" "\<forall>k. ls2 (Pending k) = (if k \<in> set ts then [] else ls1 (Pending k))"
    "ts \<noteq> [] \<longrightarrow> walked u2 bs2" by blast
  show ?case
  proof (cases "ts = []")
    case True
    then show ?thesis using 1 by (intro exI [of _ u1] exI [of _ bs1] exI [of _ ls1]) simp
  next
    case False
    then show ?thesis using 1 2 by (intro exI [of _ u2] exI [of _ bs2] exI [of _ ls2]) simp
  qed
qed

lemma hand_all_windows:
  assumes h: "hand cfg s bs ls R {} L" and c: "calm s ls w"
  shows "\<exists>u bs' ls'. run_maintenance_window_all cfg s = Some u \<and> hand cfg u bs' ls' R {} L \<and> calm u ls' w \<and> site u = site s \<and>
    (\<forall>k. ls' (Pending k) = []) \<and> walked u bs'"
proof -
  note I = invD [OF handD(1) [OF h]]
  have ne: "[0..<cpu_shards s] \<noteq> []" using geoD(4) [OF I(1)] by simp
  obtain u bs' ls' where u: "run_windows cfg [0..<cpu_shards s] s = Some u" "hand cfg u bs' ls' R {} L" "calm u ls' w"
    "site u = site s" "\<forall>k. ls' (Pending k) = (if k \<in> set [0..<cpu_shards s] then [] else ls (Pending k))" "walked u bs'"
    using hand_windows [OF h c, of "[0..<cpu_shards s]"] ne by auto
  have "ls (Pending k) = []" if "\<not> k < cpu_shards s" for k
    using stacksD(2) [OF I(4), of "Pending k"] that geoD(5) [OF I(1)] by simp
  then show ?thesis using u by (intro exI [of _ u] exI [of _ bs'] exI [of _ ls']) (auto simp: run_maintenance_window_all_def)
qed

text \<open>Opening a window marks its shard until the window is done.\<close>

lemma calm_mark:
  assumes "calm s ls w" and "t < cpu_shards s" and "w = None \<or> w = Some t"
  shows "calm (update_shard t (maintenance_window_open_update (\<lambda>_. x)) s) ls (if x then Some t else None)"
  unfolding calm_def
proof (intro conjI allI impI)
  let ?t = "update_shard t (maintenance_window_open_update (\<lambda>_. x)) s"
  show "\<not> frontier_reclaim_in_progress ?t" "length (pending_shards ?t) = cpu_shards ?t"
    using assms(1) by (simp_all add: calm_def update_shard_def)
  fix k assume "k < cpu_shards ?t"
  then have k: "k < cpu_shards s" by (simp add: update_shard_def)
  then show "shard_count (pending_shards ?t ! k) = length (ls (Pending k))"
    "maintenance_window_open (pending_shards ?t ! k) \<longleftrightarrow> (if x then Some t else None) = Some k"
    using assms by (cases "k = t"; auto simp: calm_def update_shard_def)+
qed

lemma hand_maybe_open:
  assumes h: "hand cfg s bs ls R {} L" and c: "calm s ls None" and t: "t < cpu_shards s"
  shows "\<exists>x u bs' ls'. maybe_open_maintenance_window cfg t force s = Some (x, u) \<and> hand cfg u bs' ls' R {} L \<and>
    calm u ls' None \<and> site u = site s"
proof (cases "shard_count (pending_shards s ! t) = 0 \<or>
    \<not> force \<and> shard_count (pending_shards s ! t) < maintenance_window_threshold cfg")
  case True
  then have "maybe_open_maintenance_window cfg t force s = Some (False, s)"
    by (auto simp: maybe_open_maintenance_window_def Let_def)
  then show ?thesis using h c by (intro exI [of _ False] exI [of _ s] exI [of _ bs] exI [of _ ls]) simp
next
  case False
  let ?s = "update_shard t (maintenance_window_open_update (\<lambda>_. True)) s"
  have op: "\<not> maintenance_window_open (pending_shards s ! t)" using c t by (simp add: calm_def)
  have c1: "calm ?s ls (Some t)" using calm_mark [OF c t, of True] by simp
  have h1: "hand cfg ?s bs ls R {} L" using hand_alike [of s ?s] h by simp
  have t1: "t < cpu_shards ?s" using t by (simp add: update_shard_def)
  obtain u bs' ls' where u: "run_maintenance_window cfg t ?s = Some u" "hand cfg u bs' ls' R {} L" "calm u ls' (Some t)"
    "site u = site ?s" using hand_window [OF h1 c1 t1] by blast
  let ?u = "update_shard t (maintenance_window_open_update (\<lambda>_. False)) u"
  have su: "site u = site s" using u(4) by (simp add: site_def update_shard_def)
  have "calm ?u ls' None" using calm_mark [OF u(3), of t False] siteD(1) [OF su] t by simp
  moreover have "hand cfg ?u bs' ls' R {} L" using hand_alike [of u ?u] u(2) by simp
  moreover have "site ?u = site s" using su by (simp add: site_def update_shard_def)
  moreover have "maybe_open_maintenance_window cfg t force s = Some (True, ?u)"
    using False op u(1) by (simp add: maybe_open_maintenance_window_def Let_def)
  ultimately show ?thesis by (intro exI [of _ True] exI [of _ ?u] exI [of _ bs'] exI [of _ ls']) simp
qed

end
