(* ===== verification/Single_Arena_Search.thy ===== *)
theory Single_Arena_Search
  imports Single_Arena_Maintenance
begin

text \<open>
  The searches of an allocation keep the invariant and end: claiming a free block from the bins,
  reserving a spare record of a manager, and appending a record to the metadata region.
\<close>

section \<open>Claiming a free block\<close>

text \<open>The call holds the record \<open>md\<close> of a block, besides the records \<open>R\<close> without one.\<close>

definition holding :: "arena_config \<Rightarrow> single_arena \<Rightarrow> addr list \<Rightarrow> (place \<Rightarrow> addr list) \<Rightarrow> addr set \<Rightarrow> addr \<Rightarrow> ledger \<Rightarrow> bool" where
  "holding cfg s bs ls R md L \<longleftrightarrow> inv cfg s bs {} ls (insert md R) L \<and> md \<notin> R \<and> attached s (set bs) md \<and>
     (\<forall>r\<in>R. \<not> attached s (set bs) r)"

lemma holding_alike: "alike s t \<Longrightarrow> holding cfg t bs ls R md L = holding cfg s bs ls R md L"
proof -
  assume a: "alike s t"
  then have "attached t = attached s" by (auto simp: alike_def fun_eq_iff attached_def owner_of_def)
  then show ?thesis by (simp add: holding_def inv_alike [OF a])
qed

lemma pop_bin_place:
  assumes "pop_block cfg (free_block_bins s b a) s = (r, h, u)"
  shows "pop_place cfg (Bin b a) s = (r, set_bin_head b a h u)"
  using assms by (auto simp: pop_place_def pop_block_def split: prod.splits)

lemma pop_bin:
  assumes h: "hand cfg s bs ls R {} L" and pop: "pop_block cfg (free_block_bins s b a) s = (r, h, u)"
  defines "t \<equiv> set_bin_head b a h u"
  shows "r = 0 \<Longrightarrow> t = s"
    and "r \<noteq> 0 \<Longrightarrow> \<exists>ls'. inv cfg t bs {} ls' (insert r R) L \<and> r \<notin> R \<and> same_pending ls ls' \<and> get_state t = get_state s \<and>
      attached t = attached s \<and> md_total_size t = md_total_size s \<and> gauge t = gauge s \<and> recs t = recs s \<and> r \<in> recs s \<and>
      (get_state s r = state_code AVAILABLE \<and> attached s (set bs) r \<and> free_block_bin_index cfg (md_total_size s r) = b div cpu_shards s \<or>
       get_state s r = state_code FRONTIER_RECLAIMED \<and> \<not> attached s (set bs) r)"
proof -
  note H = handD [OF h, simplified]
  note I = invD [OF H(1), simplified]
  let ?p = "Bin b a"
  have pp: "pop_place cfg ?p s = (r, t)" using pop_bin_place [OF pop] by (simp add: t_def)
  have v: "valid_place s ?p" by simp
  show "r = 0 \<Longrightarrow> t = s"
  proof (cases "ls ?p")
    case Nil
    then show ?thesis using pop_stacks(1) [OF I(4) v] pp by simp
  next
    case (Cons x xs)
    then show "r = 0 \<Longrightarrow> t = s" using pop_stacks(2) [OF I(4) v Cons] pp by auto
  qed
  assume nz: "r \<noteq> 0"
  then obtain xs where ls: "ls ?p = r # xs"
    using pop_stacks [OF I(4) v] pp by (cases "ls ?p") auto
  obtain t' where t': "pop_place cfg ?p s = (r, t')" "inv cfg t' bs {} (ls(?p := xs)) (insert r R) L" "r \<in> recs s" "r \<notin> R"
    "place_ok cfg s (set bs) ?p r" "\<exists>h l. t' = set_head ?p h (set_links ?p l s)"
    using inv_pop [OF H(1) v _ ls] by auto
  have tt: "t' = t" using t'(1) pp by simp
  obtain h' l where t: "t = set_head ?p h' (set_links ?p l s)" using t'(6) tt by auto
  have fields: "get_state t = get_state s" "attached t = attached s" "md_total_size t = md_total_size s" "gauge t = gauge s" "recs t = recs s"
    unfolding t by (simp_all del: set_head.simps set_links.simps)
  have "\<not> attached s (set bs) r" if "get_state s r = state_code FRONTIER_RECLAIMED"
  proof
    assume "attached s (set bs) r"
    then obtain c where "c \<in> set bs" "owner_of s c = r" by (auto simp: attached_def)
    then show False using I(6) [of c] that t'(4) by (auto simp: owned_def)
  qed
  then show "\<exists>ls'. inv cfg t bs {} ls' (insert r R) L \<and> r \<notin> R \<and> same_pending ls ls' \<and> get_state t = get_state s \<and>
      attached t = attached s \<and> md_total_size t = md_total_size s \<and> gauge t = gauge s \<and> recs t = recs s \<and> r \<in> recs s \<and>
      (get_state s r = state_code AVAILABLE \<and> attached s (set bs) r \<and> free_block_bin_index cfg (md_total_size s r) = b div cpu_shards s \<or>
       get_state s r = state_code FRONTIER_RECLAIMED \<and> \<not> attached s (set bs) r)"
    using t'(2-5) fields unfolding tt by (intro exI [of _ "ls(?p := xs)"]) auto
qed

text \<open>The outcome of a scan, for the places still to visit.\<close>

definition scanned :: "arena_config \<Rightarrow> nat \<Rightarrow> single_arena \<Rightarrow> addr list \<Rightarrow> (place \<Rightarrow> addr list) \<Rightarrow> addr set \<Rightarrow> ledger \<Rightarrow> scan_result \<Rightarrow> single_arena \<Rightarrow> bool" where
  "scanned cfg bin s bs ls R L res t \<longleftrightarrow> gauge t = gauge s \<and> recs t = recs s \<and> (\<exists>ls'. same_pending ls ls' \<and> (case res of
     Nothing \<Rightarrow> hand cfg t bs ls' R {} L
   | Claimed md \<Rightarrow> holding cfg t bs ls' R md L \<and> free_block_bin_index cfg (md_total_size t md) = bin
   | Deferred md \<Rightarrow> inv cfg t bs {} ls' (insert md R) L \<and> md \<notin> R \<and> \<not> attached t (set bs) md \<and>
       (\<forall>r\<in>R. \<not> attached t (set bs) r) \<and> get_state t = get_state s \<and> get_state s md = state_code FRONTIER_RECLAIMED))"

lemma extended_fields [simp]:
  "get_state (extended f s) = get_state s" "attached (extended f s) = attached s" "recs (extended f s) = recs s"
  "md_total_size (extended f s) = md_total_size s" "cpu_shards (extended f s) = cpu_shards s"
  "metadata_start (extended f s) = metadata_start s" "get_memory_block (extended f s) = get_memory_block s"
  "hdr_size (extended f s) = hdr_size s"
  by (auto simp: fun_eq_iff extended_def get_state_def attached_def owner_of_def recs_def get_memory_block_def)

lemma scan_bins_scanned:
  assumes "hand cfg s bs ls R {} L"
  shows "\<exists>res t. scan_bins cfg bin start poss s = (res, t) \<and> scanned cfg bin s bs ls R L res t"
  using assms
proof (induction poss arbitrary: s)
  case Nil
  then show ?case using same_pending_refl [of ls] by (auto simp: scanned_def simp del: same_pending_refl)
next
  case (Cons pos poss)
  note h = Cons.prems
  note H = handD [OF h, simplified]
  note I = invD [OF H(1), simplified]
  let ?b = "bin * cpu_shards s + (start + snd pos) mod cpu_shards s" and ?a = "fst pos"
  obtain r hd u where pop: "pop_block cfg (free_block_bins s ?b ?a) s = (r, hd, u)" by (metis prod_cases3)
  define t where "t = set_bin_head ?b ?a hd u"
  note P = pop_bin [OF h pop, folded t_def]
  have div: "?b div cpu_shards s = bin" using geoD(4) [OF I(1)] by simp
  show ?case
  proof (cases "r = 0")
    case True
    then have "scan_bins cfg bin start (pos # poss) s = scan_bins cfg bin start poss s"
      using pop P(1) by (simp add: t_def Let_def)
    then show ?thesis using Cons.IH [OF h] by simp
  next
    case False
    obtain ls' where l: "inv cfg t bs {} ls' (insert r R) L" "r \<notin> R" "same_pending ls ls'" "get_state t = get_state s"
      "attached t = attached s" "md_total_size t = md_total_size s" "gauge t = gauge s" "recs t = recs s" "r \<in> recs s"
      "get_state s r = state_code AVAILABLE \<and> attached s (set bs) r \<and> free_block_bin_index cfg (md_total_size s r) = bin \<or>
       get_state s r = state_code FRONTIER_RECLAIMED \<and> \<not> attached s (set bs) r"
      using P(2) [OF False] div by auto
    let ?t = "extended record_search_pop t"
    have inv: "inv cfg ?t bs {} ls' (insert r R) L" using inv_alike [of t ?t] l(1) by simp
    show ?thesis
    proof (cases "get_state s r = state_code AVAILABLE")
      case True
      let ?v = "set_state_word r (with_state (md_block_state ?t r) LOCKED) ?t"
      have "inv cfg ?v bs {} ls' (insert r R) L"
        by (rule inv_set_state [OF inv]) (auto simp: get_memory_block_def extended_def)
      then have "inv cfg (extended record_search_claimed ?v) bs {} ls' (insert r R) L"
        using inv_alike [of ?v "extended record_search_claimed ?v"] by simp
      then have "holding cfg (extended record_search_claimed ?v) bs ls' R r L"
        using l True H(5) by (simp add: holding_def)
      moreover have "scan_bins cfg bin start (pos # poss) s = (Claimed r, extended record_search_claimed ?v)"
        using pop False l(4) True by (simp add: t_def [symmetric] Let_def unguarded_try_claim_popped_block_def)
      ultimately show ?thesis using l True by (auto simp: scanned_def)
    next
      case no: False
      then have rec: "get_state s r = state_code FRONTIER_RECLAIMED" "\<not> attached s (set bs) r" using l(10) by auto
      let ?v = "extended record_search_reclaim_deferred ?t"
      have "inv cfg ?v bs {} ls' (insert r R) L" using inv_alike [of ?t ?v] inv by simp
      moreover have "scan_bins cfg bin start (pos # poss) s = (Deferred r, ?v)"
        using pop False l(4) rec by (simp add: t_def [symmetric] Let_def unguarded_try_claim_popped_block_def)
      ultimately show ?thesis using l rec H(5) by (auto simp: scanned_def)
    qed
  qed
qed

text \<open>The search: each deferred record that is met is recycled, so there are only so many rounds.\<close>

definition unspent :: "single_arena \<Rightarrow> nat" where
  "unspent s = card {r \<in> recs s. get_state s r \<noteq> state_code METADATA_AVAILABLE}"

lemma recs_finite [simp]: "finite (recs s)"
  by (simp add: recs_def)

lemma bin_size_index:
  assumes ok: "config_ok cfg" and n: "n \<in> bin_size cfg ` {..<NUM_NON_SENTINEL_FREE_BLOCK_BINS cfg}"
  shows "bin_size cfg (free_block_bin_index cfg n) = n"
proof -
  obtain j where j: "j < NUM_NON_SENTINEL_FREE_BLOCK_BINS cfg" "n = bin_size cfg j" using n by auto
  have "least_bin cfg n (free_block_bin_index cfg n)"
    using free_block_bin_index_least [OF ok] bin_sizes(3) [OF ok j(1)] j(2) by simp
  moreover have "least_bin cfg n j" using j bin_sizes(4) [OF ok j(1)] by (auto simp: least_bin_def)
  ultimately have "free_block_bin_index cfg n = j" by (rule least_bin_unique)
  then show ?thesis using j(2) by simp
qed

lemma hand_search:
  assumes "hand cfg s bs ls R {} L"
  shows "\<exists>b md t ls'. search_for_deallocated_block cfg bin shard s = Some ((b, md), t) \<and> gauge t = gauge s \<and> same_pending ls ls' \<and>
    (if b = 0 then hand cfg t bs ls' R {} L
     else b = get_memory_block t md \<and> holding cfg t bs ls' R md L \<and> hdr_size t b = bin_size cfg bin)"
  using assms
proof (induction "unspent s" arbitrary: s ls rule: less_induct)
  case less
  let ?s = "extended record_search_iteration s"
  have h: "hand cfg ?s bs ls R {} L" using hand_alike [of s ?s] less.prems by simp
  have cpu: "cpu_shards ?s = cpu_shards s" by simp
  obtain res t where scan: "scan_bins cfg bin (shard mod cpu_shards s) (scan_order (cpu_shards s)) ?s = (res, t)"
    "scanned cfg bin ?s bs ls R L res t"
    using scan_bins_scanned [OF h, of bin "shard mod cpu_shards s" "scan_order (cpu_shards s)"] by blast
  have g: "gauge t = gauge s" using scan(2) by (simp add: scanned_def)
  show ?case
  proof (cases res)
    case Nothing
    then have "search_for_deallocated_block cfg bin shard s = Some ((0, 0), t)"
      using scan(1) by (subst search_for_deallocated_block.simps) simp
    then show ?thesis using Nothing scan(2) g by (auto simp: scanned_def)
  next
    case (Claimed md)
    then obtain ls' where l: "same_pending ls ls'" "holding cfg t bs ls' R md L" "free_block_bin_index cfg (md_total_size t md) = bin"
      using scan(2) by (auto simp: scanned_def)
    have inv: "inv cfg t bs {} ls' (insert md R) L" and att: "attached t (set bs) md" using l(2) by (simp_all add: holding_def)
    note I = invD [OF inv, simplified]
    note A = attached_owned [OF inv, simplified, OF att]
    have "get_memory_block t md \<noteq> 0" using chain_facts(6) [OF I(1-3) A(1)] by simp
    moreover have "hdr_size t (get_memory_block t md) = bin_size cfg bin"
      using bin_size_index [OF geoD(1) [OF I(1)] I(10) [OF A(1)]] A(3) l(3) by simp
    moreover have "search_for_deallocated_block cfg bin shard s = Some ((get_memory_block t md, md), t)"
      using Claimed scan(1) by (subst search_for_deallocated_block.simps) simp
    ultimately show ?thesis using l g
      by (intro exI [of _ "get_memory_block t md"] exI [of _ md] exI [of _ t] exI [of _ ls']) simp
  next
    case (Deferred md)
    then obtain ls' where l: "same_pending ls ls'" "inv cfg t bs {} ls' (insert md R) L" "md \<notin> R" "\<not> attached t (set bs) md"
      "\<forall>r\<in>R. \<not> attached t (set bs) r" "get_state t = get_state s" "get_state s md = state_code FRONTIER_RECLAIMED" "recs t = recs s"
      using scan(2) by (auto simp: scanned_def)
    obtain u m where u: "recycle_metadata cfg md t = Some u" "inv cfg u bs {} (ls'(Spare m := md # ls' (Spare m))) (insert md R - {md}) L"
      "gauge u = gauge t" "get_state u = (get_state t)(md := state_code METADATA_AVAILABLE)" "attached u = attached t" "recs u = recs t"
      using inv_recycle [OF l(2), of md] l(4) by auto
    have hu: "hand cfg u bs (ls'(Spare m := md # ls' (Spare m))) R {} L"
      using u(2,5) l(3,5) by (simp add: hand_def)
    have "md \<in> recs s" using invD(7) [OF l(2)] l(8) by (simp add: placed_def)
    then have "{r \<in> recs u. get_state u r \<noteq> state_code METADATA_AVAILABLE} \<subset> {r \<in> recs s. get_state s r \<noteq> state_code METADATA_AVAILABLE}"
      using u(4,6) l(6-8) by auto
    then have "unspent u < unspent s" unfolding unspent_def by (intro psubset_card_mono) simp_all
    from less.hyps [OF this hu] obtain b md' t' ls2 where t': "search_for_deallocated_block cfg bin shard u = Some ((b, md'), t')"
      "gauge t' = gauge u" "same_pending (ls'(Spare m := md # ls' (Spare m))) ls2"
      "if b = 0 then hand cfg t' bs ls2 R {} L
       else b = get_memory_block t' md' \<and> holding cfg t' bs ls2 R md' L \<and> hdr_size t' b = bin_size cfg bin" by blast
    have eq: "search_for_deallocated_block cfg bin shard s = search_for_deallocated_block cfg bin shard u"
      using Deferred scan(1) u(1) by (subst search_for_deallocated_block.simps) simp
    have "same_pending ls ls2" using same_pending_trans [OF l(1)] t'(3) by (simp add: same_pending_def)
    then show ?thesis using t' g u(3) unfolding eq
      by (intro exI [of _ b] exI [of _ md'] exI [of _ t'] exI [of _ ls2]) simp
  qed
qed

section \<open>Reserving a record\<close>

definition bump :: "metadata_block_manager \<Rightarrow> metadata_block_manager" where
  "bump m = m\<lparr>state_and_active_count := state_and_active_count m + 1\<rparr>"

lemma reserve_active:
  assumes "state_and_active_count m = of_nat c" and "c \<le> 4096"
  shows "reserve_active_slot m = Some (bump m)"
proof -
  have small: "c mod 2 ^ 32 = c" "c div 2 ^ 31 = 0" "c div 2 ^ 30 = 0" using assms(2) by simp_all
  have b: "\<not> bit (of_nat c :: u32) 31" "\<not> bit (of_nat c :: u32) 30" proof -
    have "\<not> bit c 31" "\<not> bit c 30" using small by (simp_all add: bit_iff_odd)
    then show "\<not> bit (of_nat c :: u32) 31" "\<not> bit (of_nat c :: u32) 30" by (simp_all add: bit_of_nat_iff)
  qed
  have t: "(TRIMMING_MASK :: u32) = 2 ^ 31" by (simp add: TRIMMING_MASK_def)
  have "(of_nat c :: u32) AND TRIMMING_MASK = 0" unfolding t using b(1) and_exp_eq_0_iff_not_bit by blast
  moreover have "(of_nat c :: u32) AND ACTIVE_COUNT_MASK \<noteq> ACTIVE_COUNT_MASK"
  proof
    assume "(of_nat c :: u32) AND ACTIVE_COUNT_MASK = ACTIVE_COUNT_MASK"
    then have "bit (of_nat c AND ACTIVE_COUNT_MASK :: u32) 30 = bit ACTIVE_COUNT_MASK 30" by simp
    then show False using b(2) by (simp add: bit_and_iff ACTIVE_COUNT_MASK_def t bit_not_iff bit_exp_iff)
  qed
  ultimately show ?thesis using assms(1) by (simp add: reserve_active_slot_def bump_def)
qed

lemma inv_reserve:
  assumes inv: "inv cfg s bs K ls H L" and "m < length (block_managers s)"
  shows "reserve_active_slot (block_managers s ! m) = Some (bump (block_managers s ! m))"
  using reserve_active invD(9) [OF inv] assms(2) active_small by (simp add: spares_active)

lemma update_bump [simp]:
  "update_manager m (\<lambda>_. bump (block_managers s ! m)) s = update_manager m bump s"
  "m < length (block_managers s) \<Longrightarrow> update_manager m release_active_slot (update_manager m bump s) = s"
  by (simp_all add: update_manager_def bump_def release_active_slot_def)

text \<open>A spare record of a manager.\<close>

lemma inv_pop_spare:
  assumes inv: "inv cfg s bs {} ls H L" and m: "m < length (block_managers s)" and ls: "ls (Spare m) = r # xs"
  shows "\<exists>t. pop_place cfg (Spare m) (update_manager m bump s) = (r, t) \<and> inv cfg t bs {} (ls(Spare m := xs)) (insert r H) L \<and>
    gauge t = gauge s \<and> r \<in> recs s \<and> r \<noteq> 0 \<and> r \<notin> H \<and> \<not> attached t (set bs) r \<and> attached t = attached s \<and> recs t = recs s"
proof -
  let ?p = "Spare m" and ?u = "update_manager m bump s" and ?ls = "ls(Spare m := xs)"
  note I = invD [OF inv, simplified]
  have st: "stacks cfg ?u ls" using I(4) by (simp add: stacks_active bump_def)
  have v: "valid_place ?u ?p" using m by simp
  obtain t h l where t: "pop_place cfg ?p ?u = (r, t)" "t = set_head ?p h (set_links ?p l ?u)" "r \<noteq> 0" "stacks cfg t ?ls"
    using pop_stacks(2) [OF st v ls] by blast
  have rp: "r \<in> set (ls ?p)" using ls by simp
  note R = listed_rec [OF inv rp, simplified]
  obtain i where i: "r = record_at (metadata_start s) i" "i < metadata_record_count s" "manager_of i = m" using R(3) by auto
  have un: "\<not> attached s (set bs) r"
  proof
    assume "attached s (set bs) r"
    then obtain c where "c \<in> set bs" "owner_of s c = r" by (auto simp: attached_def)
    then show False using I(6) [of c] R(2,3) by (auto simp: owned_def)
  qed
  have own: "owned s (insert r H) b" if "b \<in> set bs" for b using I(6) [OF that] by (auto simp: owned_def)
  have pl: "placed cfg s (set bs) ?ls (insert r H)" by (rule placed_pop [OF I(4,7) ls])
  have "in_use_block s (insert r H) b = in_use_block s H b" for b using R(3) by (auto simp: in_use_block_def)
  then have led: "ledger_ok s (set bs) (insert r H) L" using I(8) by (simp add: ledger_ok_def)
  have fields: "gauge t = gauge s" "attached t = attached s" "recs t = recs s" "metadata_start t = metadata_start s"
    "metadata_record_count t = metadata_record_count s" "length (block_managers t) = length (block_managers s)"
    unfolding t(2) by (simp_all del: set_head.simps set_links.simps)
  have cnt: "state_and_active_count (block_managers t ! k) =
      (if k = m then state_and_active_count (block_managers s ! k) + 1 else state_and_active_count (block_managers s ! k))"
    if "k < length (block_managers s)" for k
  proof -
    have "state_and_active_count (block_managers t ! k) = state_and_active_count (block_managers ?u ! k)"
      unfolding t(2) using that by (simp del: set_head.simps set_links.simps)
    then show ?thesis using that by (auto simp: update_manager_def bump_def)
  qed
  have sp: "spares t ?ls"
    unfolding spares_active
  proof (intro allI impI)
    fix k assume "k < length (block_managers t)"
    then have k: "k < length (block_managers s)" using fields by simp
    have old: "state_and_active_count (block_managers s ! k) = of_nat (card (active s ls k))" using I(9) k by (simp add: spares_active)
    show "state_and_active_count (block_managers t ! k) = of_nat (card (active t ?ls k))"
    proof (cases "k = m")
      case True
      have "record_at (metadata_start s) j = r \<longleftrightarrow> j = i" if "j < metadata_record_count s" for j
        using rec_inj [OF I(1,2) that i(2)] i(1) by auto
      moreover have "r \<notin> set xs" using stacksD(4) [OF I(4), of ?p] ls by simp
      ultimately have a: "active t ?ls k = insert i (active s ls k)" "i \<notin> active s ls k"
        using i ls True by (auto simp: active_def fields)
      show ?thesis using cnt [OF k] old True unfolding a(1) card_insert_disjoint [OF active_finite a(2)] by simp
    next
      case False
      then have "active t ?ls k = active s ls k" by (simp add: active_def fields)
      then show ?thesis using cnt [OF k] old False by simp
    qed
  qed
  have "inv cfg t bs {} ?ls (insert r H) L"
    using I own pl led t(4) sp unfolding inv_def t(2) by (simp del: set_head.simps set_links.simps)
  then show ?thesis using t(1,3) R fields un by auto
qed

lemma pop_spare_empty:
  assumes inv: "inv cfg s bs {} ls H L" and m: "m < length (block_managers s)" and ls: "ls (Spare m) = []"
  shows "pop_place cfg (Spare m) (update_manager m bump s) = (0, update_manager m bump s)"
proof -
  have "stacks cfg (update_manager m bump s) ls" using invD(4) [OF inv] by (simp add: stacks_active bump_def)
  then show ?thesis using pop_stacks(1) [of cfg "update_manager m bump s" ls "Spare m"] m ls by simp
qed

lemma pop_header_place:
  "pop_place cfg (Spare m) s = (case pop_header cfg (local_free_head (block_managers s ! m)) s of
     (r, h, t) \<Rightarrow> (r, update_manager m (local_free_head_update (\<lambda>_. h)) t))"
  by (simp add: pop_place_def pop_header_def split: prod.splits)

lemma hand_pop_free:
  assumes "hand cfg s bs ls {} {} L" and "\<forall>i\<in>set js. i < length (block_managers s)"
  shows "\<exists>r t ls'. pop_free_record cfg js s = (r, t) \<and> gauge t = gauge s \<and> same_pending ls ls' \<and>
    (if r = 0 then t = s else r \<in> recs t \<and> hand cfg t bs ls' {r} {} L)"
  using assms
proof (induction js)
  case Nil
  then show ?case by (intro exI [of _ 0] exI [of _ s] exI [of _ ls]) simp
next
  case (Cons i js)
  note H = handD [OF Cons.prems(1), simplified]
  note I = invD [OF H(1), simplified]
  have i: "i < length (block_managers s)" using Cons.prems(2) by simp
  note res = inv_reserve [OF H(1) i]
  have step: "pop_free_record cfg (i # js) s = (case pop_place cfg (Spare i) (update_manager i bump s) of (r, t) \<Rightarrow>
      if r \<noteq> 0 then (r, t) else pop_free_record cfg js (update_manager i release_active_slot t))"
    by (simp add: res pop_header_place Let_def split: prod.splits)
  show ?case
  proof (cases "ls (Spare i)")
    case Nil
    then have "pop_free_record cfg (i # js) s = pop_free_record cfg js s"
      unfolding step using pop_spare_empty [OF H(1) i] i by simp
    then show ?thesis using Cons.IH Cons.prems by simp
  next
    case (Cons r xs)
    obtain t where t: "pop_place cfg (Spare i) (update_manager i bump s) = (r, t)" "inv cfg t bs {} (ls(Spare i := xs)) {r} L"
      "gauge t = gauge s" "r \<in> recs s" "r \<noteq> 0" "\<not> attached t (set bs) r" "recs t = recs s"
      using inv_pop_spare [OF H(1) i Cons] by auto
    have "hand cfg t bs (ls(Spare i := xs)) {r} {} L" using t(2,6) by (simp add: hand_def)
    then show ?thesis unfolding step using t by (intro exI [of _ r] exI [of _ t] exI [of _ "ls(Spare i := xs)"]) (simp add: same_pending_def)
  qed
qed

text \<open>A new record at the end of the region.\<close>

definition append_slot :: "single_arena \<Rightarrow> single_arena" where
  "append_slot s = (update_manager (manager_of (metadata_record_count s)) bump s)\<lparr>metadata_record_count := metadata_record_count s + 1\<rparr>"

lemma append_slot_fields [simp]:
  "get_state (append_slot s) = get_state s" "get_memory_block (append_slot s) = get_memory_block s"
  "owner_of (append_slot s) = owner_of s" "attached (append_slot s) = attached s"
  "metadata_record_count (append_slot s) = metadata_record_count s + 1" "frontier (append_slot s) = frontier s"
  "front (append_slot s) = front s" "hdr_size (append_slot s) = hdr_size s"
  "hdr_metadata_index (append_slot s) = hdr_metadata_index s" "md_total_size (append_slot s) = md_total_size s"
  "metadata_start (append_slot s) = metadata_start s" "cpu_shards (append_slot s) = cpu_shards s"
  "geo cfg (append_slot s) = geo cfg s" "allocation_base (append_slot s) = allocation_base s"
  "length (block_managers (append_slot s)) = length (block_managers s)" "stacks cfg (append_slot s) = stacks cfg s"
  "gauge (append_slot s) = gauge s" "recs (append_slot s) = insert (record_at (metadata_start s) (metadata_record_count s)) (recs s)"
proof -
  let ?t = "append_slot s"
  show e: "get_state ?t = get_state s" "get_memory_block ?t = get_memory_block s" "owner_of ?t = owner_of s"
    "frontier ?t = frontier s" "attached ?t = attached s"
    by (auto simp: fun_eq_iff append_slot_def update_manager_def get_state_def get_memory_block_def owner_of_def
        attached_def frontier_def)
  show "front ?t = front s" by (rule ext) (simp add: front_def e, simp add: append_slot_def update_manager_def)
  show "geo cfg ?t = geo cfg s" by (simp add: geo_def append_slot_def update_manager_def)
  show "gauge ?t = gauge s" by (simp add: gauge_def append_slot_def update_manager_def)
  have p: "head_of ?t p = head_of (update_manager (manager_of (metadata_record_count s)) bump s) p"
    "links_of ?t p = links_of (update_manager (manager_of (metadata_record_count s)) bump s) p"
    "valid_place ?t p = valid_place (update_manager (manager_of (metadata_record_count s)) bump s) p" for p
    by (cases p; simp add: append_slot_def)+
  have "stacks cfg ?t ls = stacks cfg (update_manager (manager_of (metadata_record_count s)) bump s) ls" for ls
    unfolding stacks_def p by (simp add: append_slot_def)
  then have "stacks cfg ?t ls = stacks cfg s ls" for ls by (simp add: stacks_active bump_def)
  then show "stacks cfg ?t = stacks cfg s" by blast
qed (simp_all add: append_slot_def update_manager_def recs_def lessThan_Suc)

lemma inv_append:
  assumes inv: "inv cfg s bs {} ls H L" and m: "manager_of (metadata_record_count s) < length (block_managers s)"
    and room: "frontier s + 64 * (metadata_record_count s + 1) < metadata_start s"
  defines "r \<equiv> record_at (metadata_start s) (metadata_record_count s)"
  shows "inv cfg (append_slot s) bs {} ls (insert r H) L" and "\<not> attached (append_slot s) (set bs) r" and "r \<notin> H"
proof -
  let ?n = "metadata_record_count s" and ?t = "append_slot s"
  note I = invD [OF inv, simplified]
  have n: "?n < 4096 * length (block_managers s)"
    using m by (simp add: manager_of_def sa_constants less_mult_imp_div_less div_less_iff_less_mult mult.commute)
  have reg: "region ?t" using I(2) n room by (simp add: region_def)
  have g: "geo cfg ?t" using I(1) by simp
  have new: "record_at (metadata_start s) i \<noteq> r" if "i < ?n" for i
    using rec_inj [OF g reg, of i ?n] that by (auto simp: r_def)
  then have fresh: "r \<notin> recs s" by (auto simp: recs_def)
  then show "r \<notin> H" using I(7) by (auto simp: placed_def)
  have owner: "owner_of s b \<noteq> r" if "b \<in> set bs" for b
    using new I(6) [OF that] by (auto simp: owned_def owner_of_def)
  then show "\<not> attached ?t (set bs) r" by (auto simp: attached_def)
  have "owned ?t (insert r H) b" if "b \<in> set bs" for b
    using I(6) [OF that] owner [OF that] by (auto simp: owned_def)
  moreover have "placed cfg ?t (set bs) ls (insert r H)"
    unfolding placed_def
  proof (intro conjI allI ballI)
    show "insert r H \<subseteq> recs ?t" using I(7) by (auto simp: placed_def r_def)
  next
    fix p q assume "q \<in> set (ls p)"
    note Q = listed_rec [OF inv this, simplified]
    show "q \<in> recs ?t" "q \<notin> insert r H" using Q fresh by auto
    show "place_ok cfg ?t (set bs) p q" using Q(3) by (cases p) auto
  next
    fix q assume "q \<in> recs ?t"
    then have "q = r \<or> q \<in> recs s" by (auto simp: r_def)
    then show "q \<in> insert r H \<or> (\<exists>p. q \<in> set (ls p)) \<or> get_state ?t q = state_code IN_USE \<and> attached ?t (set bs) q"
      using I(7) unfolding placed_def by auto
  qed
  moreover have "ledger_ok ?t (set bs) (insert r H) L"
  proof -
    have "in_use_block s (insert r H) b = in_use_block s H b" if "b \<in> set bs" for b
      using owner [OF that] by (auto simp: in_use_block_def)
    then have "{b \<in> set bs. in_use_block s (insert r H) b} = {b \<in> set bs. in_use_block s H b}" by auto
    moreover have "in_use_block ?t X b = in_use_block s X b" for X b by (simp add: in_use_block_def)
    ultimately show ?thesis using I(8) by (simp add: ledger_ok_def)
  qed
  moreover have "spares ?t ls"
    unfolding spares_active
  proof (intro allI impI)
    fix k assume "k < length (block_managers ?t)"
    then have k: "k < length (block_managers s)" by simp
    have old: "state_and_active_count (block_managers s ! k) = of_nat (card (active s ls k))" using I(9) k by (simp add: spares_active)
    have nr: "r \<notin> set (ls (Spare k))" using listed_rec(1) [OF inv] fresh by blast
    have act: "active ?t ls k = (if k = manager_of ?n then insert ?n (active s ls k) else active s ls k)"
      using nr by (auto simp: active_def r_def less_Suc_eq)
    show "state_and_active_count (block_managers ?t ! k) = of_nat (card (active ?t ls k))"
    proof (cases "k = manager_of ?n")
      case True
      have "?n \<notin> active s ls k" by (simp add: active_def)
      then have "card (active ?t ls k) = card (active s ls k) + 1" using act True by simp
      then show ?thesis using True k old by (simp add: append_slot_def update_manager_def bump_def)
    next
      case False
      then show ?thesis using act k old by (simp add: append_slot_def update_manager_def)
    qed
  qed
  ultimately show "inv cfg ?t bs {} ls (insert r H) L" using I reg by (simp add: inv_def)
qed

lemma grow_exact:
  assumes g: "geo cfg s" and r: "region s"
  shows "grow_metadata_region (metadata_record_count s) s =
    (if frontier s + 64 * (metadata_record_count s + 1) < metadata_start s
     then (GROWN, metadata_record_count s, s\<lparr>metadata_record_count := metadata_record_count s + 1\<rparr>)
     else (NO_ROOM, metadata_record_count s, s))"
proof -
  let ?n = "metadata_record_count s" and ?fin = "metadata_start s - 64 * (metadata_record_count s + 1)"
  have f: "64 dvd frontier s" "frontier s \<noteq> 0" using r g by (auto simp: region_def geo_def)
  then have le: "64 * (?n + 1) \<le> metadata_start s" using r by (auto simp: region_def elim!: dvdE)
  moreover have lt: "metadata_start s < 18446744073709551616" by (rule geoD(12) [OF g])
  ultimately have e: "sub64 (metadata_start s) (mul64 (?n + 1) ALLOCATION_METADATA_SIZE) = ?fin" "add64 ?n 1 = ?n + 1"
    by (simp_all add: sa_constants add64_exact mul64_exact sub64_exact)
  have iff: "?fin \<le> frontier s \<longleftrightarrow> \<not> frontier s + 64 * (?n + 1) < metadata_start s" using le by linarith
  have fr: "frontier (s\<lparr>metadata_record_count := x\<rparr>) = frontier s" for x by (simp add: frontier_def)
  show ?thesis using f(2) iff unfolding grow_metadata_region_def Let_def e fr by auto
qed

lemma hand_append:
  assumes h: "hand cfg s bs ls {} {} L"
  shows "\<exists>i t. append_record (metadata_record_count s) s = Some (i, t) \<and> gauge t = gauge s \<and>
    (if i = NULL_INDEX then hand cfg t bs ls {} {} L
     else i < metadata_record_count t \<and> hand cfg t bs ls {record_at (metadata_start t) i} {} L)"
proof -
  note H = handD [OF h, simplified]
  note I = invD [OF H(1), simplified]
  let ?n = "metadata_record_count s" and ?m = "manager_of (metadata_record_count s)"
  let ?u = "update_manager ?m bump s"
  show ?thesis
  proof (cases "?m < length (block_managers s)")
    case False
    then have "append_record ?n s = Some (NULL_INDEX, s)" by (subst append_record.simps) simp
    then show ?thesis using h by simp
  next
    case True
    have n: "?n < 4294967295"
      using True geoD(13,14) [OF I(1)]
      by (simp add: manager_of_def sa_constants div_less_iff_less_mult mult.commute)
    have grow: "grow_metadata_region ?n ?u =
      (if frontier s + 64 * (?n + 1) < metadata_start s then (GROWN, ?n, append_slot s) else (NO_ROOM, ?n, ?u))"
      using grow_exact [of cfg ?u] I(1,2) by (simp add: append_slot_def)
    show ?thesis
    proof (cases "frontier s + 64 * (?n + 1) < metadata_start s")
      case room: True
      then have "append_record ?n s = Some (?n, append_slot s)"
        using True inv_reserve [OF H(1) True] grow by (subst append_record.simps) (simp add: Let_def)
      moreover have "hand cfg (append_slot s) bs ls {record_at (metadata_start s) ?n} {} L"
        using inv_append [OF H(1) True room] by (simp add: hand_def)
      ultimately show ?thesis using n by (intro exI [of _ ?n] exI [of _ "append_slot s"]) (simp add: NULL_INDEX_def)
    next
      case no: False
      then have "append_record ?n s = Some (NULL_INDEX, s)"
        using True inv_reserve [OF H(1) True] grow by (subst append_record.simps) (simp add: Let_def)
      then show ?thesis using h by simp
    qed
  qed
qed

lemma hand_next_record:
  assumes h: "hand cfg s bs ls {} {} L"
  shows "\<exists>i t ls'. get_next_metadata_record_index cfg s = Some (i, t) \<and> gauge t = gauge s \<and> same_pending ls ls' \<and>
    (if i = NULL_INDEX then hand cfg t bs ls' {} {} L
     else i < metadata_record_count t \<and> hand cfg t bs ls' {record_at (metadata_start t) i} {} L)"
proof -
  note H = handD [OF h, simplified]
  note I = invD [OF H(1), simplified]
  let ?n = "metadata_record_count s" and ?is = "[0..<(metadata_record_count s - 1) div METADATA_RECORDS_PER_BLOCK + 1]"
  obtain r t ls' where pop: "(if ?n > 0 then pop_free_record cfg ?is s else (0, s)) = (r, t)" "gauge t = gauge s" "same_pending ls ls'"
    "if r = 0 then t = s else r \<in> recs t \<and> hand cfg t bs ls' {r} {} L"
  proof (cases "?n > 0")
    case True
    have "(?n - 1) div 4096 < length (block_managers s)" using True I(2) by (auto simp: region_def div_less_iff_less_mult mult.commute)
    then have "\<forall>i\<in>set ?is. i < length (block_managers s)" by (auto simp: sa_constants)
    from hand_pop_free [OF h this] show ?thesis using that True by auto
  next
    case False
    then show ?thesis by (intro that [of 0 s ls]) simp_all
  qed
  show ?thesis
  proof (cases "r = 0")
    case True
    then have "get_next_metadata_record_index cfg s = append_record ?n s"
      using pop(1,4) by (auto simp: get_next_metadata_record_index_def Let_def)
    then show ?thesis using hand_append [OF h] same_pending_refl by metis
  next
    case False
    then have t: "r \<in> recs t" "hand cfg t bs ls' {r} {} L" using pop(4) by simp_all
    note J = invD [OF handD(1) [OF t(2)], simplified]
    obtain i where i: "i < metadata_record_count t" "r = record_at (metadata_start t) i" using t(1) by (auto simp: recs_def)
    note R = rec_facts [OF J(1,2) i(1)]
    have "get_next_metadata_record_index cfg s = Some (i, t)"
      using pop(1) False R(3) i(2) by (auto simp: get_next_metadata_record_index_def Let_def)
    then show ?thesis using pop(2,3) t i R(2) by (intro exI [of _ i] exI [of _ t] exI [of _ ls']) (simp add: NULL_INDEX_def)
  qed
qed

end
