(* ===== verification/Single_Arena_Contract.thy ===== *)
theory Single_Arena_Contract
  imports Single_Arena_Search Tiling
begin

text \<open>
  \<^verbatim>\<open>lockfree_single_arena_resource_impl\<close> keeps the contract of a memory resource: an allocation
  hands out a block under a record of its own, a deallocation retires the record of the block,
  and both end, whatever maintenance they run.
\<close>

section \<open>Giving a reserved record back\<close>

definition set_total :: "addr \<Rightarrow> nat \<Rightarrow> single_arena \<Rightarrow> single_arena" where
  "set_total r v s = s\<lparr>md_total_size := (md_total_size s)(r := v)\<rparr>"

lemma set_total_fields [simp]:
  "get_state (set_total r v s) = get_state s" "get_memory_block (set_total r v s) = get_memory_block s"
  "owner_of (set_total r v s) = owner_of s" "recs (set_total r v s) = recs s" "attached (set_total r v s) = attached s"
  "stacks cfg (set_total r v s) = stacks cfg s" "geo cfg (set_total r v s) = geo cfg s" "region (set_total r v s) = region s"
  "front (set_total r v s) = front s" "spares (set_total r v s) = spares s"
  "metadata_record_count (set_total r v s) = metadata_record_count s" "hdr_size (set_total r v s) = hdr_size s"
  "hdr_metadata_index (set_total r v s) = hdr_metadata_index s" "metadata_start (set_total r v s) = metadata_start s"
  "cpu_shards (set_total r v s) = cpu_shards s" "gauge (set_total r v s) = gauge s"
  "md_total_size (set_total r v s) = (md_total_size s)(r := v)"
proof -
  let ?t = "set_total r v s"
  show e: "get_state ?t = get_state s" "get_memory_block ?t = get_memory_block s" "owner_of ?t = owner_of s" "recs ?t = recs s"
    "attached ?t = attached s"
    by (auto simp: fun_eq_iff set_total_def get_state_def get_memory_block_def owner_of_def recs_def attached_def)
  have p: "head_of ?t p = head_of s p" "links_of ?t p = links_of s p" "valid_place ?t p = valid_place s p" for p
    by (cases p; simp add: set_total_def)+
  have "stacks cfg ?t ls = stacks cfg s ls" for ls unfolding stacks_def p by (simp add: set_total_def)
  then show "stacks cfg ?t = stacks cfg s" by blast
  show "geo cfg ?t = geo cfg s" "region ?t = region s" "front ?t = front s" "spares ?t = spares s"
    by (simp_all add: fun_eq_iff geo_def region_def front_def spares_def frontier_def set_total_def)
qed (simp_all add: set_total_def gauge_def)

lemma inv_set_total:
  assumes inv: "inv cfg s bs K ls H L" and r: "r \<in> H" and un: "\<not> attached s (set bs - K) r"
  shows "inv cfg (set_total r v s) bs K ls H L"
proof -
  let ?t = "set_total r v s"
  note I = invD [OF inv]
  have "owned ?t H b" if "b \<in> set bs - K" for b
  proof -
    have "owner_of s b \<noteq> r" using un that by (auto simp: attached_def)
    then show ?thesis using I(6) [OF that] by (simp add: owned_def)
  qed
  moreover have "placed cfg ?t (set bs - K) ls H"
  proof -
    have "place_ok cfg ?t (set bs - K) p q" if q: "q \<in> set (ls p)" for p q
    proof -
      have "q \<noteq> r" using listed_rec(2) [OF inv q] r by auto
      then show ?thesis using listed_rec(3) [OF inv q] by (cases p) auto
    qed
    then show ?thesis using I(7) unfolding placed_def by simp
  qed
  moreover have "ledger_ok ?t (set bs - K) H L" using I(8) by (simp add: ledger_ok_def in_use_block_def)
  ultimately show ?thesis using I by (simp add: inv_def)
qed

lemma inv_return:
  assumes inv: "inv cfg s bs {} ls H L" and r: "r \<in> H" and un: "\<not> attached s (set bs) r"
  shows "\<exists>t ls'. return_record cfg r s = Some t \<and> inv cfg t bs {} ls' (H - {r}) L \<and> same_pending ls ls' \<and> gauge t = gauge s \<and>
    attached t = attached s \<and> hdr_size t = hdr_size s \<and> (\<forall>q. q \<noteq> r \<longrightarrow> get_memory_block t q = get_memory_block s q)"
proof -
  let ?u = "s\<lparr>md_requested_size := (md_requested_size s)(r := 0), md_total_size := (md_total_size s)(r := 0),
       md_alignment := (md_alignment s)(r := 0), md_original_shard := (md_original_shard s)(r := 0)\<rparr>"
  have "alike (set_total r 0 s) ?u" by (simp add: alike_def set_total_def)
  then have iu: "inv cfg ?u bs {} ls H L" using inv_alike inv_set_total [OF inv r] un by auto
  have fields: "gauge ?u = gauge s" "attached ?u = attached s" "get_memory_block ?u = get_memory_block s"
    by (auto simp: fun_eq_iff gauge_def attached_def owner_of_def get_memory_block_def)
  obtain t m where t: "recycle_metadata cfg r ?u = Some t" "inv cfg t bs {} (ls(Spare m := r # ls (Spare m))) (H - {r}) L"
    "gauge t = gauge ?u" "get_memory_block t = (get_memory_block ?u)(r := get_memory_block t r)" "attached t = attached ?u"
    "hdr_size t = hdr_size ?u"
    using inv_recycle [OF iu r] un fields by auto
  have "get_memory_block t q = get_memory_block s q" if "q \<noteq> r" for q
    using fun_cong [OF t(4), of q] that fields by simp
  then show ?thesis using t fields by (intro exI [of _ t] exI [of _ "ls(Spare m := r # ls (Spare m))"])
    (simp add: return_record_def same_pending_def)
qed

lemma hand_return:
  assumes "hand cfg s bs ls {r} {} L"
  shows "\<exists>t ls'. return_record cfg r s = Some t \<and> hand cfg t bs ls' {} {} L \<and> same_pending ls ls' \<and> gauge t = gauge s"
  using inv_return [of cfg s bs ls "{r}" L r] assms by (auto simp: hand_def)

lemma holding_return:
  assumes "holding cfg s bs ls {r} md L"
  shows "\<exists>t ls'. return_record cfg r s = Some t \<and> holding cfg t bs ls' {} md L \<and> same_pending ls ls' \<and> gauge t = gauge s \<and>
    get_memory_block t md = get_memory_block s md \<and> hdr_size t = hdr_size s"
proof -
  have h: "inv cfg s bs {} ls {md, r} L" "md \<noteq> r" "attached s (set bs) md" "\<not> attached s (set bs) r"
    using assms by (auto simp: holding_def insert_commute)
  have d: "{md, r} - {r} = {md}" using h(2) by auto
  show ?thesis using inv_return [OF h(1) _ h(4)] h(2,3) unfolding d by (auto simp: holding_def)
qed

section \<open>A block and a record for a request\<close>

text \<open>The block is among the blocks, its record in hand and no other block's.\<close>

definition offered :: "arena_config \<Rightarrow> single_arena \<Rightarrow> addr list \<Rightarrow> (place \<Rightarrow> addr list) \<Rightarrow> addr \<Rightarrow> addr \<Rightarrow> ledger \<Rightarrow> bool" where
  "offered cfg s bs ls b md L \<longleftrightarrow> b \<in> set bs \<and> inv cfg s bs {b} ls {md} L \<and> \<not> attached s (set bs - {b}) md"

lemma holding_offered:
  assumes h: "holding cfg s bs ls {} md L" and b: "b = get_memory_block s md"
  shows "offered cfg s bs ls b md L"
proof -
  have inv: "inv cfg s bs {} ls {md} L" and att: "attached s (set bs) md" using h by (simp_all add: holding_def)
  note I = invD [OF inv, simplified]
  have B: "b \<in> set bs" "owner_of s b = md" using attached_owned [OF inv, simplified, OF att] by (simp_all add: b)
  have other: "owner_of s c \<noteq> md" if "c \<in> set bs - {b}" for c
    using owner_inj [OF I(6) I(6), of c b] that B by auto
  then have un: "\<not> attached s (set bs - {b}) md" by (auto simp: attached_def)
  have att': "attached s (set bs - {b}) q = attached s (set bs) q" if "q \<noteq> md" for q
    using that B by (auto simp: attached_def)
  have "placed cfg s (set bs - {b}) ls {md}"
    unfolding placed_def
  proof (intro conjI allI ballI)
    show "{md} \<subseteq> recs s" using I(7) by (simp add: placed_def)
  next
    fix p q assume "q \<in> set (ls p)"
    note Q = listed_rec [OF inv this, simplified]
    show "q \<in> recs s" "q \<notin> {md}" using Q by simp_all
    show "place_ok cfg s (set bs - {b}) p q" using Q att' by (cases p) auto
  next
    fix q assume "q \<in> recs s"
    then show "q \<in> {md} \<or> (\<exists>p. q \<in> set (ls p)) \<or> get_state s q = state_code IN_USE \<and> attached s (set bs - {b}) q"
      using I(7) att' [of q] unfolding placed_def by blast
  qed
  moreover have "ledger_ok s (set bs - {b}) {md} L"
  proof -
    have "\<not> in_use_block s {md} b" using B by (simp add: in_use_block_def)
    then have "{c \<in> set bs - {b}. in_use_block s {md} c} = {c \<in> set bs. in_use_block s {md} c}" by auto
    then show ?thesis using I(8) by (simp add: ledger_ok_def)
  qed
  ultimately show ?thesis using I B un by (simp add: offered_def inv_def)
qed

lemma carve_offered:
  assumes h: "hand cfg s bs ls {r} {} L" and bin: "bin < NUM_NON_SENTINEL_FREE_BLOCK_BINS cfg"
    and room: "frontier s + bin_size cfg bin + 64 * metadata_record_count s < metadata_start s"
  shows "offered cfg (carve (bin_size cfg bin) s) (bs @ [frontier s]) ls (frontier s) r L"
    and "hdr_size (carve (bin_size cfg bin) s) (frontier s) = bin_size cfg bin" and "frontier s \<noteq> 0"
proof -
  note H = handD [OF h, simplified]
  note I = invD [OF H(1), simplified]
  have n: "bin_size cfg bin \<in> bin_size cfg ` {..<NUM_NON_SENTINEL_FREE_BLOCK_BINS cfg}" using bin by blast
  note C = inv_carve [OF H(1) n room]
  show "hdr_size (carve (bin_size cfg bin) s) (frontier s) = bin_size cfg bin" "frontier s \<noteq> 0" by (fact C)+
  have "set (bs @ [frontier s]) - {frontier s} = set bs" using chain_facts(10) [OF I(1-3)] by auto
  then show "offered cfg (carve (bin_size cfg bin) s) (bs @ [frontier s]) ls (frontier s) r L"
    using C(1) H(5) by (simp add: offered_def)
qed

lemma hand_search_again:
  assumes h: "hand cfg s bs ls R {} L"
  shows "\<exists>b md t ls'. search_again cfg bin sh s = Some ((b, md), t) \<and> gauge t = gauge s \<and> same_pending ls ls' \<and>
    (if b = 0 then hand cfg t bs ls' R {} L
     else b = get_memory_block t md \<and> holding cfg t bs ls' R md L \<and> hdr_size t b = bin_size cfg bin)"
proof -
  obtain b md t ls' where t: "search_for_deallocated_block cfg bin sh s = Some ((b, md), t)" "gauge t = gauge s" "same_pending ls ls'"
    "if b = 0 then hand cfg t bs ls' R {} L
     else b = get_memory_block t md \<and> holding cfg t bs ls' R md L \<and> hdr_size t b = bin_size cfg bin"
    using hand_search [OF h] by blast
  let ?t = "if b \<noteq> 0 then extended record_allocator_reuse_hit t else t"
  have "search_again cfg bin sh s = Some ((b, md), ?t)" using t(1) by (simp add: search_again_def)
  moreover have "alike t ?t" "gauge ?t = gauge t" by simp_all
  ultimately show ?thesis using t holding_alike [of t ?t] hand_alike [of t ?t]
    by (intro exI [of _ b] exI [of _ md] exI [of _ ?t] exI [of _ ls']) (auto split: if_splits)
qed

lemma hand_force:
  assumes h: "hand cfg s bs ls R {} L" and c: "calm s ls None" and sh: "sh < cpu_shards s"
  shows "\<exists>b md t bs' ls'. force_maintenance cfg bin sh s = Some ((b, md), t) \<and> calm t ls' None \<and> site t = site s \<and>
    (if b = 0 then hand cfg t bs' ls' R {} L
     else b = get_memory_block t md \<and> holding cfg t bs' ls' R md L \<and> hdr_size t b = bin_size cfg bin)"
proof -
  obtain x u bs1 ls1 where 1: "maybe_open_maintenance_window cfg sh True s = Some (x, u)" "hand cfg u bs1 ls1 R {} L"
    "calm u ls1 None" "site u = site s" using hand_maybe_open [OF h c sh] by blast
  obtain b md v ls2 where 2: "search_again cfg bin sh u = Some ((b, md), v)" "gauge v = gauge u" "same_pending ls1 ls2"
    "if b = 0 then hand cfg v bs1 ls2 R {} L
     else b = get_memory_block v md \<and> holding cfg v bs1 ls2 R md L \<and> hdr_size v b = bin_size cfg bin"
    using hand_search_again [OF 1(2)] by blast
  have c2: "calm v ls2 None" using calm_gauge [OF 2(2,3)] 1(3) by simp
  have s2: "site v = site s" using gauge_site [OF 2(2)] 1(4) by simp
  show ?thesis
  proof (cases "b = 0")
    case False
    then have "force_maintenance cfg bin sh s = Some ((b, md), v)" using 1(1) 2(1) by (simp add: force_maintenance_def)
    then show ?thesis using c2 s2 2(4) by blast
  next
    case True
    then have hv: "hand cfg v bs1 ls2 R {} L" using 2(4) by simp
    obtain w bs3 ls3 where 3: "run_maintenance_window_all cfg v = Some w" "hand cfg w bs3 ls3 R {} L" "calm w ls3 None"
      "site w = site v" using hand_all_windows [OF hv c2] by blast
    obtain b' md' x' ls4 where 4: "search_again cfg bin sh w = Some ((b', md'), x')" "gauge x' = gauge w" "same_pending ls3 ls4"
      "if b' = 0 then hand cfg x' bs3 ls4 R {} L
       else b' = get_memory_block x' md' \<and> holding cfg x' bs3 ls4 R md' L \<and> hdr_size x' b' = bin_size cfg bin"
      using hand_search_again [OF 3(2)] by blast
    have "force_maintenance cfg bin sh s = Some ((b', md'), x')" using 1(1) 2(1) 3(1) 4(1) True by (simp add: force_maintenance_def)
    moreover have "calm x' ls4 None" using calm_gauge [OF 4(2,3)] 3(3) by simp
    moreover have "site x' = site s" using gauge_site [OF 4(2)] 3(4) s2 by simp
    ultimately show ?thesis using 4(4) by blast
  qed
qed

lemma hand_allocate_new:
  assumes h: "hand cfg s bs ls {} {} L" and c: "calm s ls None" and sh: "sh < cpu_shards s"
    and bin: "bin < NUM_NON_SENTINEL_FREE_BLOCK_BINS cfg"
  shows "\<exists>b md t bs' ls'. allocate_new cfg bin sh s = Some ((b, md), t) \<and> calm t ls' None \<and> site t = site s \<and>
    (if b = 0 then hand cfg t bs' ls' {} {} L else offered cfg t bs' ls' b md L \<and> hdr_size t b = bin_size cfg bin)"
proof -
  obtain i u ls1 where 1: "get_next_metadata_record_index cfg s = Some (i, u)" "gauge u = gauge s" "same_pending ls ls1"
    "if i = NULL_INDEX then hand cfg u bs ls1 {} {} L
     else i < metadata_record_count u \<and> hand cfg u bs ls1 {record_at (metadata_start u) i} {} L"
    using hand_next_record [OF h] by blast
  have c1: "calm u ls1 None" using calm_gauge [OF 1(2,3)] c by simp
  have s1: "site u = site s" by (rule gauge_site [OF 1(2)])
  show ?thesis
  proof (cases "i = NULL_INDEX")
    case True
    let ?t = "extended record_allocator_failure u"
    have "allocate_new cfg bin sh s = Some ((0, 0), ?t)" using True 1(1) by (simp add: allocate_new_def)
    moreover have "calm ?t ls1 None" using calm_gauge [of ?t u ls1 ls1] c1 by simp
    moreover have "hand cfg ?t bs ls1 {} {} L" using hand_alike [of u ?t] 1(4) True by simp
    moreover have "site ?t = site s" using s1 by (simp add: site_def extended_def)
    ultimately show ?thesis by (intro exI [of _ 0] exI [of _ ?t] exI [of _ bs] exI [of _ ls1]) simp
  next
    case False
    define r where "r = record_at (metadata_start u) i"
    have hu: "hand cfg u bs ls1 {r} {} L" and iu: "i < metadata_record_count u" using 1(4) False by (simp_all add: r_def)
    note H = handD [OF hu, simplified]
    note I = invD [OF H(1), simplified]
    have res: "sub64 (metadata_start u) (mul64 i ALLOCATION_METADATA_SIZE) = r"
      using rec_facts(5) [OF I(1,2) iu] by (simp add: r_def)
    from get_next_empty_carves [OF H(1) bin] show ?thesis
    proof (elim disjE conjE)
      assume e: "get_next_empty_memory_block cfg bin u = (frontier u, carve (bin_size cfg bin) u)"
        and room: "frontier u + bin_size cfg bin + 64 * metadata_record_count u < metadata_start u"
      note C = carve_offered [OF hu bin room]
      let ?v = "carve (bin_size cfg bin) u"
      let ?t = "extended record_allocator_frontier_hit ?v"
      have "allocate_new cfg bin sh s = Some ((frontier u, r), ?t)" using False 1(1) e C(3) by (simp add: allocate_new_def res)
      moreover have "calm ?t ls1 None" using calm_gauge [of ?t u ls1 ls1] c1 by simp
      moreover have "site ?t = site s" using gauge_site [of ?t u] s1 by simp
      moreover have "attached ?t = attached ?v" by simp
      then have "offered cfg ?t (bs @ [frontier u]) ls1 (frontier u) r L"
        using C(1) inv_alike [of ?v ?t] by (simp add: offered_def)
      ultimately show ?thesis using C(2,3)
        by (intro exI [of _ "frontier u"] exI [of _ r] exI [of _ ?t] exI [of _ "bs @ [frontier u]"] exI [of _ ls1]) simp
    next
      assume e: "get_next_empty_memory_block cfg bin u = (0, u)"
      have sh1: "sh < cpu_shards u" using siteD(1) [OF s1] sh by simp
      obtain b md v bs2 ls2 where 2: "force_maintenance cfg bin sh u = Some ((b, md), v)" "calm v ls2 None" "site v = site u"
        "if b = 0 then hand cfg v bs2 ls2 {r} {} L
         else b = get_memory_block v md \<and> holding cfg v bs2 ls2 {r} md L \<and> hdr_size v b = bin_size cfg bin"
        using hand_force [OF hu c1 sh1] by blast
      show ?thesis
      proof (cases "b = 0")
        case True
        then obtain w ls3 where 3: "return_record cfg r v = Some w" "hand cfg w bs2 ls3 {} {} L" "same_pending ls2 ls3" "gauge w = gauge v"
          using hand_return 2(4) by meson
        let ?t = "extended record_allocator_failure w"
        have "allocate_new cfg bin sh s = Some ((0, md), ?t)" using False 1(1) e 2(1) 3(1) True by (simp add: allocate_new_def res)
        moreover have "calm ?t ls3 None" using calm_gauge [of ?t v ls2 ls3] 3(3,4) 2(2) by simp
        moreover have "site ?t = site s" using gauge_site [of ?t v] 3(4) 2(3) s1 by simp
        moreover have "hand cfg ?t bs2 ls3 {} {} L" using hand_alike [of w ?t] 3(2) by simp
        ultimately show ?thesis by (intro exI [of _ 0] exI [of _ md] exI [of _ ?t] exI [of _ bs2] exI [of _ ls3]) simp
      next
        case nz: False
        then have "holding cfg v bs2 ls2 {r} md L" using 2(4) by simp
        then obtain w ls3 where 3: "return_record cfg r v = Some w" "holding cfg w bs2 ls3 {} md L" "same_pending ls2 ls3"
          "gauge w = gauge v" "get_memory_block w md = get_memory_block v md" "hdr_size w = hdr_size v"
          using holding_return by meson
        have "b = get_memory_block v md \<and> hdr_size v b = bin_size cfg bin" using 2(4) nz by metis
        then have b: "b = get_memory_block w md" "hdr_size w b = bin_size cfg bin" using 3(5,6) by metis+
        have "allocate_new cfg bin sh s = Some ((b, md), w)" using False 1(1) e 2(1) 3(1) nz by (simp add: allocate_new_def res)
        moreover have "calm w ls3 None" using calm_gauge [OF 3(4,3)] 2(2) by simp
        moreover have "site w = site s" using gauge_site [OF 3(4)] 2(3) s1 by simp
        ultimately show ?thesis using holding_offered [OF 3(2) b(1)] b(2) nz by auto
      qed
    qed
  qed
qed

section \<open>Handing a block out\<close>

definition assign :: "addr \<Rightarrow> addr \<Rightarrow> nat \<Rightarrow> u64 \<Rightarrow> single_arena \<Rightarrow> single_arena" where
  "assign b md i w s = s\<lparr>hdr_metadata_index := (hdr_metadata_index s)(b := i), md_block_state := (md_block_state s)(md := w),
     md_total_size := (md_total_size s)(md := hdr_size s b)\<rparr>"

lemma assign_fields [simp]:
  "get_state (assign b md i w s) q = (if q = md then bs_unpack_state w else get_state s q)"
  "get_memory_block (assign b md i w s) q = (if q = md then bs_unpack_ptr w (arena_block s) else get_memory_block s q)"
  "owner_of (assign b md i w s) c = (if c = b then record_at (metadata_start s) i else owner_of s c)"
  "recs (assign b md i w s) = recs s" "stacks cfg (assign b md i w s) = stacks cfg s" "geo cfg (assign b md i w s) = geo cfg s"
  "region (assign b md i w s) = region s" "front (assign b md i w s) = front s" "spares (assign b md i w s) = spares s"
  "metadata_record_count (assign b md i w s) = metadata_record_count s" "hdr_size (assign b md i w s) = hdr_size s"
  "hdr_metadata_index (assign b md i w s) = (hdr_metadata_index s)(b := i)" "metadata_start (assign b md i w s) = metadata_start s"
  "cpu_shards (assign b md i w s) = cpu_shards s" "gauge (assign b md i w s) = gauge s"
  "md_total_size (assign b md i w s) = (md_total_size s)(md := hdr_size s b)"
proof -
  let ?t = "assign b md i w s"
  have p: "head_of ?t p = head_of s p" "links_of ?t p = links_of s p" "valid_place ?t p = valid_place s p" for p
    by (cases p; simp add: assign_def)+
  have "stacks cfg ?t ls = stacks cfg s ls" for ls unfolding stacks_def p by (simp add: assign_def)
  then show "stacks cfg ?t = stacks cfg s" by blast
  show "geo cfg ?t = geo cfg s" "region ?t = region s" "front ?t = front s" "spares ?t = spares s" "recs ?t = recs s"
    by (simp_all add: fun_eq_iff geo_def region_def front_def spares_def frontier_def recs_def assign_def)
qed (simp_all add: assign_def gauge_def get_state_def get_memory_block_def owner_of_def)

lemma inv_assign:
  assumes o: "offered cfg s bs ls b md L" and i: "i < metadata_record_count s" "md = record_at (metadata_start s) i"
    and w: "bs_unpack_ptr w (arena_block s) = b" "bs_unpack_state w = state_code IN_USE"
    and n: "0 < n" "n + 64 \<le> hdr_size s b" "a \<le> 64"
  shows "inv cfg (assign b md i w s) bs {} ls {} (insert (b + 64, n, a) L)" and "b + 64 \<notin> fst ` L"
proof -
  let ?t = "assign b md i w s"
  have b: "b \<in> set bs" and inv: "inv cfg s bs {b} ls {md} L" and un: "\<not> attached s (set bs - {b}) md"
    using o by (simp_all add: offered_def)
  note I = invD [OF inv]
  have other: "owner_of s c \<noteq> md" if "c \<in> set bs" "c \<noteq> b" for c using un that by (auto simp: attached_def)
  have att: "attached ?t (set bs) q \<longleftrightarrow> q = md \<or> attached s (set bs - {b}) q" for q
    using b i other by (auto simp: attached_def)
  have "fst ` L \<subseteq> (\<lambda>c. c + 64) ` (set bs - {b})" using I(8) by (auto simp: ledger_ok_def)
  then show nin: "b + 64 \<notin> fst ` L" by auto
  have "owned ?t {} c" if "c \<in> set bs" for c
  proof (cases "c = b")
    case True
    then show ?thesis using i w by (simp add: owned_def)
  next
    case False
    then show ?thesis using I(6) [of c] that other [OF that] by (auto simp: owned_def)
  qed
  moreover have "placed cfg ?t (set bs) ls {}"
    unfolding placed_def
  proof (intro conjI allI ballI)
    show "{} \<subseteq> recs ?t" by simp
  next
    fix p q assume "q \<in> set (ls p)"
    note Q = listed_rec [OF inv this]
    show "q \<in> recs ?t" "q \<notin> {}" using Q by simp_all
    show "place_ok cfg ?t (set bs) p q" using Q att by (cases p) auto
  next
    fix q assume "q \<in> recs ?t"
    then show "q \<in> {} \<or> (\<exists>p. q \<in> set (ls p)) \<or> get_state ?t q = state_code IN_USE \<and> attached ?t (set bs) q"
      using I(7) w att by (auto simp: placed_def)
  qed
  moreover have "ledger_ok ?t (set bs) {} (insert (b + 64, n, a) L)"
  proof -
    have "in_use_block ?t {} b" using i w by (simp add: in_use_block_def)
    moreover have "in_use_block ?t {} c = in_use_block s {md} c" if "c \<in> set bs" "c \<noteq> b" for c
      using other [OF that] that by (simp add: in_use_block_def)
    ultimately have "{c \<in> set bs. in_use_block ?t {} c} = insert b {c \<in> set bs - {b}. in_use_block s {md} c}"
      using b by auto
    moreover have "inj_on fst (insert (b + 64, n, a) L)" using I(8) nin by (auto simp: ledger_ok_def)
    ultimately show ?thesis using I(8) n by (auto simp: ledger_ok_def)
  qed
  ultimately show "inv cfg ?t bs {} ls {} (insert (b + 64, n, a) L)" using I by (simp add: inv_def)
qed

lemma hand_out_ok:
  assumes o: "offered cfg s bs ls b md L" and n: "0 < n" "n + 64 \<le> hdr_size s b" "a \<le> 64"
  shows "\<exists>t. hand_out cpu n a sh b md s = Some (b + 64, t) \<and> hand cfg t bs ls {} {} (insert (b + 64, n, a) L) \<and>
    b + 64 \<notin> fst ` L \<and> gauge t = gauge s"
proof -
  have b: "b \<in> set bs" and inv: "inv cfg s bs {b} ls {md} L" using o by (simp_all add: offered_def)
  note I = invD [OF inv]
  note C = chain_facts [OF I(1-3)]
  obtain i where i: "i < metadata_record_count s" "md = record_at (metadata_start s) i" using hand_rec [OF inv] by blast
  note R = rec_facts [OF I(1,2) i(1), folded i(2)]
  have ok: "offset_ok (arena_block s) b" using C(6) [OF b] by simp
  obtain w where w: "bs_pack b (arena_block s) IN_USE (bs_unpack_version (md_block_state s md)) = Some w"
    "bs_unpack_ptr w (arena_block s) = b" "bs_unpack_state w = state_code IN_USE"
    using bs_pack_unpack [OF ok, of IN_USE "bs_unpack_version (md_block_state s md)"] by blast
  have sz: "hdr_size s b mod 4294967296 = hdr_size s b" using C(4) [OF b] by simp
  have "b + 64 < 18446744073709551616" using C(6) [OF b] geoD(16) [OF I(1)] by linarith
  then have p: "add64 b ALLOCATION_HEADER_SIZE = b + 64" by (simp add: add64_exact ALLOCATION_HEADER_SIZE_def)
  define t where "t = (assign b md i w s)\<lparr>md_requested_size := (md_requested_size s)(md := n mod 4294967296),
    md_alignment := (md_alignment s)(md := a mod 256), md_original_shard := (md_original_shard s)(md := sh mod 256)\<rparr>"
  have "hand_out cpu n a sh b md s = Some (b + 64, extended record_allocation_made (counted (allocation_made cpu n) t))"
  proof -
    have "(s\<lparr>hdr_metadata_index := (hdr_metadata_index s)(b := i), md_block_state := (md_block_state s)(md := w),
        md_requested_size := (md_requested_size s)(md := n mod 4294967296), md_total_size := (md_total_size s)(md := hdr_size s b),
        md_alignment := (md_alignment s)(md := a mod 256), md_original_shard := (md_original_shard s)(md := sh mod 256)\<rparr>) = t"
      by (cases s) (simp add: t_def assign_def)
    then show ?thesis using w(1) R(3) by (simp add: hand_out_def Let_def p sz set_state_word_def)
  qed
  moreover have "alike (assign b md i w s) (extended record_allocation_made (counted (allocation_made cpu n) t))"
    by (simp add: alike_def t_def extended_def counted_def)
  then have "inv cfg (extended record_allocation_made (counted (allocation_made cpu n) t)) bs {} ls {} (insert (b + 64, n, a) L)"
    using inv_alike inv_assign(1) [OF o i w(2,3) n] by blast
  moreover have "gauge (extended record_allocation_made (counted (allocation_made cpu n) t)) = gauge s"
    by (simp add: gauge_simps(7,8)) (simp add: t_def gauge_def assign_def)
  ultimately show ?thesis using inv_assign(2) [OF o i w(2,3) n] by (simp add: hand_def)
qed

section \<open>Retiring a block\<close>

lemma inv_take:
  assumes inv: "inv cfg s bs {} ls {} L" and x: "(b + 64, n, a) \<in> L" and b: "b \<in> set bs" "in_use_block s {} b"
    and w: "bs_unpack_ptr w (arena_block s) = b" "bs_unpack_state w = state_code DEALLOCATED_PENDING"
  defines "r \<equiv> owner_of s b"
  shows "inv cfg (set_state_word r w s) bs {} ls {r} (L - {(b + 64, n, a)})" and "attached s (set bs) r" and "r \<in> recs s"
proof -
  let ?t = "set_state_word r w s"
  note I = invD [OF inv, simplified]
  have own: "owned s {} b" using I(6) b by blast
  show att: "attached s (set bs) r" using b by (auto simp: attached_def r_def)
  show rec: "r \<in> recs s" using own by (auto simp: recs_def owned_def owner_of_def r_def)
  have st: "get_state s r = state_code IN_USE" using b(2) by (simp add: in_use_block_def r_def)
  have other: "owner_of s c \<noteq> r" if "c \<in> set bs" "c \<noteq> b" for c
    using owner_inj [OF I(6) own, of c] that by (auto simp: r_def)
  have nl: "q \<noteq> r" if "q \<in> set (ls p)" for p q
    using listed_rec(3) [OF inv that] st by (cases p) auto
  have "owned ?t {r} c" if "c \<in> set bs" for c
    using I(6) [OF that] other [OF that] w by (cases "c = b") (auto simp: owned_def r_def)
  moreover have "placed cfg ?t (set bs) ls {r}"
    unfolding placed_def
  proof (intro conjI allI ballI)
    show "{r} \<subseteq> recs ?t" using rec by simp
  next
    fix p q assume q: "q \<in> set (ls p)"
    note Q = listed_rec [OF inv q, simplified]
    show "q \<in> recs ?t" "q \<notin> {r}" using Q nl [OF q] by simp_all
    show "place_ok cfg ?t (set bs) p q" using Q nl [OF q] by (simp add: place_ok_other)
  next
    fix q assume "q \<in> recs ?t"
    then show "q \<in> {r} \<or> (\<exists>p. q \<in> set (ls p)) \<or> get_state ?t q = state_code IN_USE \<and> attached ?t (set bs) q"
      using I(7) by (auto simp: placed_def)
  qed
  moreover have "ledger_ok ?t (set bs) {r} (L - {(b + 64, n, a)})"
  proof -
    have inj: "inj_on fst L" and img: "fst ` L = (\<lambda>c. c + 64) ` {c \<in> set bs. in_use_block s {} c}"
      using I(8) by (simp_all add: ledger_ok_def)
    have "fst ` (L - {(b + 64, n, a)}) = fst ` L - {b + 64}" using inj x by (subst inj_on_image_set_diff [OF inj]) auto
    moreover have "{c \<in> set bs. in_use_block ?t {r} c} = {c \<in> set bs. in_use_block s {} c} - {b}"
      using other b by (auto simp: in_use_block_def r_def)
    ultimately have "fst ` (L - {(b + 64, n, a)}) = (\<lambda>c. c + 64) ` {c \<in> set bs. in_use_block ?t {r} c}"
      using img by auto
    moreover have "inj_on fst (L - {(b + 64, n, a)})" using inj by (rule inj_on_subset) blast
    ultimately show ?thesis using I(8) by (auto simp: ledger_ok_def)
  qed
  ultimately show "inv cfg ?t bs {} ls {r} (L - {(b + 64, n, a)})" using I by (simp add: inv_def)
qed

lemma validate_live:
  assumes inv: "inv cfg s bs {} ls {} L" and b: "b \<in> set bs" "in_use_block s {} b"
  shows "validate s (b + 64) = Inr (owner_of s b)"
proof -
  note I = invD [OF inv, simplified]
  have own: "owned s {} b" using I(6) b by blast
  have i: "hdr_metadata_index s b < metadata_record_count s" using own by (simp add: owned_def)
  note R = rec_facts [OF I(1,2) i]
  have "b + 64 < 18446744073709551616" using chain_facts(6) [OF I(1-3) b(1)] geoD(16) [OF I(1)] by linarith
  then have "sub64 (b + 64) ALLOCATION_HEADER_SIZE = b" by (simp add: sub64_exact ALLOCATION_HEADER_SIZE_def)
  then show ?thesis using own b(2) R(5) by (simp add: validate_def owned_def in_use_block_def owner_of_def)
qed

lemma hand_retire:
  assumes h: "hand cfg s bs ls {} {} L" and c: "calm s ls None" and x: "(b + 64, n, a) \<in> L"
    and b: "b \<in> set bs" "in_use_block s {} b"
  shows "\<exists>t bs' ls'. retire cfg cpu (owner_of s b) s = Some (True, t) \<and> hand cfg t bs' ls' {} {} (L - {(b + 64, n, a)}) \<and>
    calm t ls' None \<and> site t = site s"
proof -
  note H = handD [OF h, simplified]
  note I = invD [OF H(1), simplified]
  define r where "r = owner_of s b"
  let ?k = "md_original_shard s r mod cpu_shards s"
  have k: "?k < cpu_shards s" using geoD(4) [OF I(1)] by simp
  let ?w1 = "with_state_and_increment_version (md_block_state s r) LOCKED"
  let ?w = "with_state ?w1 DEALLOCATED_PENDING"
  have own: "owned s {} b" using I(6) b by blast
  have w: "bs_unpack_ptr ?w (arena_block s) = b" "bs_unpack_state ?w = state_code DEALLOCATED_PENDING"
    using own by (simp_all add: with_state_and_increment_version_def owned_def get_memory_block_def r_def)
  note T = inv_take [OF H(1) x b w, folded r_def]
  let ?u = "set_state_word r ?w s"
  let ?c = "extended record_deallocation_made (counted (deallocation_made cpu (md_requested_size s r)) ?u)"
  define v where "v = update_shard ?k (\<lambda>p. p\<lparr>shard_count := add64 (shard_count p) 1\<rparr>) ?c"
  have al: "alike ?u v"
  proof -
    have "alike ?u (counted (deallocation_made cpu (md_requested_size s r)) ?u)" by simp
    moreover have "alike (counted (deallocation_made cpu (md_requested_size s r)) ?u) ?c" by simp
    moreover have "alike ?c v" unfolding v_def by (rule alike_shard) simp
    ultimately show ?thesis using alike_trans by blast
  qed
  have iv: "inv cfg v bs {} ls {r} (L - {(b + 64, n, a)})" using inv_alike [OF al] T(1) by simp
  have lenk: "length (pending_shards s) = cpu_shards s" using c by (simp add: calm_def)
  have vv: "valid_place v (Pending ?k)" using k lenk by (simp add: v_def update_shard_def extended_def counted_def)
  have av: "attached v (set bs) r"
  proof -
    have "owner_of v = owner_of s" by (auto simp: v_def update_shard_def extended_def counted_def owner_of_def set_state_word_def)
    then show ?thesis using T(2) by (simp add: attached_def)
  qed
  have sv: "get_state v r = state_code DEALLOCATED_PENDING"
    using w(2) by (simp add: v_def update_shard_def extended_def counted_def get_state_def)
  let ?ls = "ls(Pending ?k := r # ls (Pending ?k))"
  define z where "z = push_place cfg r (Pending ?k) v"
  have "inv cfg z bs {} ?ls ({r} - {r}) (L - {(b + 64, n, a)})"
    unfolding z_def by (rule inv_push [OF iv _ vv]) (use sv av in auto)
  then have hz: "hand cfg z bs ?ls {} {} (L - {(b + 64, n, a)})" by (simp add: hand_def)
  have len: "length (ls (Pending ?k)) < 4294967295"
  proof -
    have "set (ls (Pending ?k)) \<subseteq> recs s" using listed_rec(1) [OF H(1)] by blast
    then have "card (set (ls (Pending ?k))) \<le> card (recs s)" by (intro card_mono) simp
    also have "\<dots> \<le> metadata_record_count s" unfolding recs_def by (rule order_trans [OF card_image_le]) simp_all
    also have "\<dots> < 4294967295" using I(2) geoD(13,14) [OF I(1)] unfolding region_def by linarith
    finally show ?thesis using distinct_card [OF stacksD(4) [OF I(4), of "Pending ?k"]] by simp
  qed
  have gz: "gauge z = gauge v"
  proof -
    obtain hh l where "z = set_head (Pending ?k) hh (set_links (Pending ?k) l v)" using push_place_shape unfolding z_def by metis
    then show ?thesis by (simp del: set_head.simps set_links.simps)
  qed
  have cz: "calm z ?ls None"
    unfolding calm_def
  proof (intro conjI allI impI)
    show "\<not> frontier_reclaim_in_progress z"
      using gz c by (simp add: gauge_def calm_def v_def update_shard_def extended_def counted_def set_state_word_def)
    show "length (pending_shards z) = cpu_shards z"
      using gauge_nth(1) [OF gz] gz lenk by (simp add: gauge_def v_def update_shard_def extended_def counted_def)
    fix j assume "j < cpu_shards z"
    then have j: "j < cpu_shards s" using gz by (simp add: gauge_def v_def update_shard_def extended_def counted_def)
    then have jl: "j < length (pending_shards v)" using lenk by (simp add: v_def update_shard_def extended_def counted_def)
    show "shard_count (pending_shards z ! j) = length (?ls (Pending j))"
      using gauge_nth(2) [OF gz jl] c j lenk len k
      by (cases "j = ?k") (simp_all add: calm_def v_def update_shard_def extended_def counted_def add64_exact)
    show "maintenance_window_open (pending_shards z ! j) \<longleftrightarrow> None = Some j"
      using gauge_nth(2) [OF gz jl] c j lenk k
      by (cases "j = ?k") (simp_all add: calm_def v_def update_shard_def extended_def counted_def)
  qed
  have sz: "site z = site s" using gauge_site [OF gz] by (simp add: site_def v_def update_shard_def extended_def counted_def)
  have kz: "?k < cpu_shards z" using siteD(1) [OF sz] k by simp
  obtain y t bs' ls' where t: "maybe_open_maintenance_window cfg ?k False z = Some (y, t)"
    "hand cfg t bs' ls' {} {} (L - {(b + 64, n, a)})" "calm t ls' None" "site t = site z"
    using hand_maybe_open [OF hz cz kz] by blast
  have "retire cfg cpu r s = Some (True, t)"
  proof -
    have shard: "md_original_shard ?c r mod cpu_shards ?c = ?k"
      by (simp add: extended_def counted_def set_state_word_def)
    have c2: "set_state_word r ?w (extended record_deallocation_made (counted (deallocation_made cpu (md_requested_size s r)) (set_state_word r ?w1 s))) = ?c"
      by (cases s) (simp add: extended_def counted_def set_state_word_def)
    have push: "push_block cfg r (shard_head (pending_shards v ! ?k)) v = (h', q) \<Longrightarrow>
        z = update_shard ?k (shard_head_update (\<lambda>_. h')) q" for h' q
      by (auto simp: z_def push_place_def push_block_def split: prod.splits)
    have req: "md_requested_size (set_state_word r ?w1 s) r = md_requested_size s r" by (simp add: set_state_word_def)
    show ?thesis
      unfolding retire_def Let_def req c2 shard v_def [symmetric]
      using t(1) push by (auto split: prod.splits)
  qed
  then show ?thesis using t sz by (auto simp: r_def)
qed

section \<open>The contract\<close>

definition sa_owns :: "arena_config \<Rightarrow> single_arena \<Rightarrow> ledger \<Rightarrow> bool" where
  "sa_owns cfg s L \<longleftrightarrow> (\<exists>bs ls. hand cfg s bs ls {} {} L \<and> calm s ls None)"

lemma sa_owns_alike:
  assumes "alike s t" and "gauge t = gauge s" and "sa_owns cfg s L"
  shows "sa_owns cfg t L"
  using assms calm_gauge [OF assms(2) same_pending_refl] hand_alike [OF assms(1)] unfolding sa_owns_def by blast

lemma sa_owns_extended [simp]: "sa_owns cfg s L \<Longrightarrow> sa_owns cfg (extended f s) L"
  by (rule sa_owns_alike) simp_all

lemma sa_owns_counted [simp]: "sa_owns cfg s L \<Longrightarrow> sa_owns cfg (counted f s) L"
  by (rule sa_owns_alike) simp_all

lemma sa_owns_refresh [simp]: "sa_owns cfg s L \<Longrightarrow> sa_owns cfg (refresh_extended_metrics_diagnostics s) L"
  by (simp add: refresh_extended_metrics_diagnostics_def Let_def)

lemma pow2_dvd_64:
  assumes "pow2 a" and "a \<le> 64"
  shows "a dvd 64"
proof -
  obtain k where k: "a = 2 ^ k" using assms(1) by (auto simp: pow2_def)
  then have "(2 :: nat) ^ k \<le> 2 ^ 6" using assms(2) by simp
  then have "k \<le> 6" by (rule power_le_imp_le_exp [rotated]) simp
  then have "(2 :: nat) ^ k dvd 2 ^ 6" by (rule le_imp_power_dvd)
  then show ?thesis using k by simp
qed

lemma inj_fst_unique: "inj_on fst L \<Longrightarrow> (p, n, a) \<in> L \<Longrightarrow> (p, m, d) \<in> L \<Longrightarrow> m = n \<and> d = a"
  by (drule inj_onD [of fst L "(p, n, a)" "(p, m, d)"]) simp_all

lemma inj_fst_remove:
  assumes "inj_on fst L" and "(p, n, a) \<in> L"
  shows "{x \<in> L. fst x \<noteq> p} = L - {(p, n, a)}"
  using assms(2) by (auto dest: inj_fst_unique [OF assms])

lemma inv_ledger_sound:
  assumes inv: "inv cfg s bs {} ls {} L"
  shows "ledger_sound L"
proof -
  note I = invD [OF inv, simplified]
  note C = chain_facts [OF I(1-3)]
  have mem: "p - 64 \<in> set bs \<and> p = p - 64 + 64 \<and> 0 < n \<and> n + 64 \<le> hdr_size s (p - 64) \<and> a \<le> 64" if "(p, n, a) \<in> L" for p n a
  proof -
    have "p \<in> fst ` L" using that by force
    then obtain b where b: "b \<in> set bs" "p = b + 64" using I(8) by (auto simp: ledger_ok_def)
    then show ?thesis using I(8) that by (auto simp: ledger_ok_def)
  qed
  have "block_sound x" if "x \<in> L" for x
  proof -
    obtain p n a where x: "x = (p, n, a)" by (metis prod_cases3)
    note M = mem [OF that [unfolded x]]
    have b: "p - 64 \<in> set bs" "p = p - 64 + 64" using M by blast+
    have "p - 64 + hdr_size s (p - 64) \<le> frontier s" using C(3) [OF b(1)] .
    then have "p + n \<le> 18446744073709551616" using M C(8) geoD(12) [OF I(1)] by linarith
    moreover have "a dvd p" if "pow2 a"
    proof -
      have "a dvd 64" using pow2_dvd_64 that M by blast
      moreover have "64 dvd p - 64" using C(5) b by blast
      ultimately show ?thesis using b(2) by (metis dvd_add dvd_refl dvd_trans)
    qed
    ultimately show ?thesis using x b(2) by (simp add: block_sound_def)
  qed
  moreover have "clear_of x y" if xy: "x \<in> L" "y \<in> L" "x \<noteq> y" for x y
  proof -
    obtain p n a q m d where x: "x = (p, n, a)" and y: "y = (q, m, d)" by (metis prod_cases3)
    note M = mem [OF xy(1) [unfolded x]] mem [OF xy(2) [unfolded y]]
    have "inj_on fst L" using I(8) by (simp add: ledger_ok_def)
    then have pq: "p \<noteq> q" using inj_fst_unique [of L p n a m d] xy x y by auto
    then have "apart (p - 64) (hdr_size s (p - 64)) (q - 64) (hdr_size s (q - 64))"
      using M by (intro C(7)) auto
    then show ?thesis using M pq x y by (auto simp: clear_of_def apart_def)
  qed
  ultimately show ?thesis by (simp add: ledger_sound_def)
qed

lemma sa_owns_sound: "sa_owns cfg s L \<Longrightarrow> ledger_sound L"
  using inv_ledger_sound handD(1) unfolding sa_owns_def by (metis Un_empty)

text \<open>The size and bin of a request that passed the checks.\<close>

lemma request_bin:
  assumes ok: "config_ok cfg" and n: "\<not> n > MAX_ALLOCATION_SIZE cfg"
  defines "bytes \<equiv> lockfree_aligned_size (add64 n ALLOCATION_HEADER_SIZE) ALIGNMENT"
  shows "\<not> bytes > MAX_ALLOCATION_SIZE_INTERNAL cfg" and "free_block_bin_index cfg bytes < NUM_NON_SENTINEL_FREE_BLOCK_BINS cfg"
    and "n + 64 \<le> bin_size cfg (free_block_bin_index cfg bytes)"
proof -
  note mx = max_bin_facts [OF ok]
  have "MAX_ALLOCATION_SIZE cfg = max_bin_bytes_aligned cfg - 64"
    using mx by (simp add: MAX_ALLOCATION_SIZE_def config_simps sub64_exact)
  then have le: "n + 64 \<le> max_bin_bytes_aligned cfg" using n mx by linarith
  have t: "bytes = round_up (n + 64) 64"
    using le mx by (simp add: bytes_def config_simps add64_exact lockfree_aligned_size_round)
  have "bytes \<le> max_bin_bytes_aligned cfg" unfolding t by (rule round_up_mono_dvd [OF mx(2) le]) simp
  then show "\<not> bytes > MAX_ALLOCATION_SIZE_INTERNAL cfg" by (simp add: MAX_ALLOCATION_SIZE_INTERNAL_def)
  have l: "least_bin cfg bytes (free_block_bin_index cfg bytes)"
    by (rule free_block_bin_index_least [OF ok]) fact
  have "n + 64 \<le> bytes" unfolding t by (rule round_up_ge) simp
  then show "free_block_bin_index cfg bytes < NUM_NON_SENTINEL_FREE_BLOCK_BINS cfg"
    "n + 64 \<le> bin_size cfg (free_block_bin_index cfg bytes)" using l by (auto simp: least_bin_def)
qed

lemma sa_allocate_owns:
  assumes own: "sa_owns cfg s L"
  shows "\<exists>r t. sa_allocate cfg cpu s n a = Some (r, t) \<and> site t = site s \<and>
    (case r of None \<Rightarrow> sa_owns cfg t L | Some p \<Rightarrow> p \<notin> fst ` L \<and> sa_owns cfg t (insert (p, n, a) L))"
proof (cases "sa_bad_request cfg s n a")
  case True
  then show ?thesis using own by (simp add: sa_allocate_def)
next
  case False
  obtain bs ls where h: "hand cfg s bs ls {} {} L" and c: "calm s ls None" using own by (auto simp: sa_owns_def)
  note I = invD [OF handD(1) [OF h], simplified]
  have req: "0 < n" "\<not> n > MAX_ALLOCATION_SIZE cfg" "a \<le> 64" using False by (auto simp: sa_bad_request_def ALIGNMENT_def)
  define bytes where "bytes = lockfree_aligned_size (add64 n ALLOCATION_HEADER_SIZE) ALIGNMENT"
  note B = request_bin [OF geoD(1) [OF I(1)] req(2), folded bytes_def]
  let ?sh = "cpu_shard_index cpu s" and ?bin = "free_block_bin_index cfg bytes"
  have sh: "?sh < cpu_shards s" using geoD(4) [OF I(1)] by (simp add: cpu_shard_index_def)
  obtain x u bs1 ls1 where 1: "maybe_open_maintenance_window cfg ?sh False s = Some (x, u)" "hand cfg u bs1 ls1 {} {} L"
    "calm u ls1 None" "site u = site s" using hand_maybe_open [OF h c sh] by blast
  obtain b md v ls2 where 2: "search_for_deallocated_block cfg ?bin ?sh u = Some ((b, md), v)" "gauge v = gauge u" "same_pending ls1 ls2"
    "if b = 0 then hand cfg v bs1 ls2 {} {} L
     else b = get_memory_block v md \<and> holding cfg v bs1 ls2 {} md L \<and> hdr_size v b = bin_size cfg ?bin"
    using hand_search [OF 1(2)] by blast
  have c2: "calm v ls2 None" and s2: "site v = site s"
    using calm_gauge [OF 2(2,3)] 1(3) gauge_site [OF 2(2)] 1(4) by simp_all
  have call: "sa_allocate cfg cpu s n a = do {
      ((free_block, metadata), s) \<leftarrow> (if b = 0 then allocate_new cfg ?bin ?sh v else Some ((b, md), extended record_allocator_reuse_hit v));
      if free_block = 0 then Some (None, s)
      else do { (p, s) \<leftarrow> hand_out cpu n a ?sh free_block metadata s; Some (Some p, s) } }"
    using False B(1) 1(1) 2(1) by (simp add: sa_allocate_def Let_def bytes_def [symmetric])
  obtain b' md' w bs3 ls3 where 3: "(if b = 0 then allocate_new cfg ?bin ?sh v else Some ((b, md), extended record_allocator_reuse_hit v)) = Some ((b', md'), w)"
    "calm w ls3 None" "site w = site s"
    "if b' = 0 then hand cfg w bs3 ls3 {} {} L else offered cfg w bs3 ls3 b' md' L \<and> hdr_size w b' = bin_size cfg ?bin"
  proof (cases "b = 0")
    case True
    then have hv: "hand cfg v bs1 ls2 {} {} L" using 2(4) by simp
    have shv: "?sh < cpu_shards v" using siteD(1) [OF s2] sh by simp
    obtain b' md' w bs3 ls3 where "allocate_new cfg ?bin ?sh v = Some ((b', md'), w)" "calm w ls3 None" "site w = site v"
      "if b' = 0 then hand cfg w bs3 ls3 {} {} L else offered cfg w bs3 ls3 b' md' L \<and> hdr_size w b' = bin_size cfg ?bin"
      using hand_allocate_new [OF hv c2 shv B(2)] by blast
    then show ?thesis using that True s2 by simp
  next
    case False
    let ?w = "extended record_allocator_reuse_hit v"
    have "b = get_memory_block v md \<and> holding cfg v bs1 ls2 {} md L \<and> hdr_size v b = bin_size cfg ?bin" using 2(4) False by metis
    then have "holding cfg ?w bs1 ls2 {} md L" "b = get_memory_block ?w md" "hdr_size ?w b = bin_size cfg ?bin"
      using holding_alike [of v ?w] by (simp_all, metis+)
    then have "offered cfg ?w bs1 ls2 b md L" "hdr_size ?w b = bin_size cfg ?bin" using holding_offered by blast+
    moreover have "calm ?w ls2 None" using calm_gauge [of ?w v ls2 ls2] c2 by simp
    moreover have "site ?w = site s" using gauge_site [of ?w v] s2 by simp
    ultimately show ?thesis using that [of b md ?w ls2 bs1] False by simp
  qed
  show ?thesis
  proof (cases "b' = 0")
    case True
    then have "sa_allocate cfg cpu s n a = Some (None, w)" unfolding call 3(1) by simp
    moreover have "sa_owns cfg w L" using True 3(2,4) unfolding sa_owns_def by auto
    ultimately show ?thesis using 3(3) by simp
  next
    case nz: False
    then have o: "offered cfg w bs3 ls3 b' md' L" and sz: "n + 64 \<le> hdr_size w b'" using 3(4) B(3) by auto
    obtain t where t: "hand_out cpu n a ?sh b' md' w = Some (b' + 64, t)" "hand cfg t bs3 ls3 {} {} (insert (b' + 64, n, a) L)"
      "b' + 64 \<notin> fst ` L" "gauge t = gauge w" using hand_out_ok [OF o req(1) sz req(3)] by blast
    have "sa_allocate cfg cpu s n a = Some (Some (b' + 64), t)" unfolding call 3(1) using nz t(1) by simp
    moreover have "calm t ls3 None" using calm_gauge [OF t(4) same_pending_refl] 3(2) by simp
    then have "sa_owns cfg t (insert (b' + 64, n, a) L)" using t(2) unfolding sa_owns_def by blast
    moreover have "site t = site s" using gauge_site [OF t(4)] 3(3) by simp
    ultimately show ?thesis using t(3) by simp
  qed
qed

lemma sa_do_allocate_owns:
  assumes own: "sa_owns cfg s L"
  shows "\<exists>r t. sa_do_allocate cfg cpu s n a = Some (r, t) \<and>
    (case r of None \<Rightarrow> sa_owns cfg t L | Some p \<Rightarrow> p \<notin> fst ` L \<and> sa_owns cfg t (insert (p, n, a) L))"
proof -
  have "sa_owns cfg (extended record_allocator_call s) L" using own by simp
  from sa_allocate_owns [OF this] obtain r t where "sa_allocate cfg cpu (extended record_allocator_call s) n a = Some (r, t)"
    "case r of None \<Rightarrow> sa_owns cfg t L | Some p \<Rightarrow> p \<notin> fst ` L \<and> sa_owns cfg t (insert (p, n, a) L)" by blast
  then show ?thesis by (cases r) (auto simp: sa_do_allocate_def)
qed

text \<open>What the validation accepts.\<close>

lemma validate_exact:
  assumes own: "sa_owns cfg s L" and p: "p < 18446744073709551616"
  shows "(\<exists>md. validate s p = Inr md) \<longleftrightarrow> p \<in> fst ` L"
proof -
  obtain bs ls where h: "hand cfg s bs ls {} {} L" using own by (auto simp: sa_owns_def)
  have inv: "inv cfg s bs {} ls {} L" using handD(1) [OF h] by simp
  note I = invD [OF inv, simplified]
  have img: "fst ` L = (\<lambda>c. c + 64) ` {c \<in> set bs. in_use_block s {} c}" using I(8) by (simp add: ledger_ok_def)
  show ?thesis
  proof
    assume "\<exists>md. validate s p = Inr md"
    then obtain md where v: "validate s p = Inr md" by blast
    let ?h = "sub64 p ALLOCATION_HEADER_SIZE"
    have i: "hdr_metadata_index s ?h < metadata_record_count s"
      "md = sub64 (metadata_start s) (mul64 (hdr_metadata_index s ?h) ALLOCATION_METADATA_SIZE)"
      "get_state s md = state_code IN_USE" "get_memory_block s md = ?h"
      using v by (auto simp: validate_def Let_def split: if_splits)
    have md: "md = owner_of s ?h" using rec_facts(5) [OF I(1,2) i(1)] i(2) by (simp add: owner_of_def)
    have rec: "md \<in> recs s" using i(1) md by (auto simp: recs_def owner_of_def)
    have "md \<notin> set (ls q)" for q
    proof
      assume "md \<in> set (ls q)"
      from listed_rec(3) [OF inv this] i(3) show False by (cases q) auto
    qed
    then have "attached s (set bs) md" using I(7) rec by (auto simp: placed_def)
    then have "get_memory_block s md \<in> set bs" using attached_owned(1) [OF inv, of md] by simp
    then have "?h \<in> set bs" using i(4) by simp
    moreover have "in_use_block s {} ?h" using i(3) md by (simp add: in_use_block_def)
    moreover have "p = ?h + 64"
    proof -
      have "?h + 64 < 18446744073709551616" using chain_facts(6) [OF I(1-3) \<open>?h \<in> set bs\<close>] geoD(16) [OF I(1)] by linarith
      moreover have "p \<ge> 64"
      proof (rule ccontr)
        assume "\<not> p \<ge> 64"
        then have "?h = p + 18446744073709551616 - 64"
          using p by (simp add: sub64_def ALLOCATION_HEADER_SIZE_def)
        then show False using calculation by simp
      qed
      ultimately show ?thesis using p by (simp add: sub64_exact ALLOCATION_HEADER_SIZE_def)
    qed
    ultimately show "p \<in> fst ` L" unfolding img by blast
  next
    assume "p \<in> fst ` L"
    then obtain b where "b \<in> set bs" "in_use_block s {} b" "p = b + 64" unfolding img by blast
    then show "\<exists>md. validate s p = Inr md" using validate_live [OF inv] by blast
  qed
qed

lemma do_try_deallocate_owns:
  assumes own: "sa_owns cfg s L" and p: "p < 18446744073709551616"
  shows "\<exists>t. do_try_deallocate cfg cpu s p n a = Some (p = 0 \<or> p \<in> fst ` L, t) \<and> sa_owns cfg t {x \<in> L. fst x \<noteq> p}"
proof (cases "p \<in> fst ` L")
  case False
  then have L: "{x \<in> L. fst x \<noteq> p} = L" by force
  have "\<nexists>md. validate s p = Inr md" using validate_exact [OF assms] False by simp
  then obtain j where j: "validate s p = Inl j" by (cases "validate s p") auto
  show ?thesis unfolding L using own False j
    by (cases j) (auto simp: do_try_deallocate_def)
next
  case True
  obtain bs ls where h: "hand cfg s bs ls {} {} L" and c: "calm s ls None" using own by (auto simp: sa_owns_def)
  have inv: "inv cfg s bs {} ls {} L" using handD(1) [OF h] by simp
  note I = invD [OF inv, simplified]
  have img: "fst ` L = (\<lambda>c. c + 64) ` {c \<in> set bs. in_use_block s {} c}" and inj: "inj_on fst L"
    using I(8) by (simp_all add: ledger_ok_def)
  obtain b where b: "b \<in> set bs" "in_use_block s {} b" "p = b + 64" using True img by auto
  obtain n' a' where x: "(b + 64, n', a') \<in> L" using True b(3) by force
  have L: "{x \<in> L. fst x \<noteq> p} = L - {(b + 64, n', a')}" using inj_fst_remove [OF inj x] b(3) by simp
  obtain t bs' ls' where t: "retire cfg cpu (owner_of s b) s = Some (True, t)"
    "hand cfg t bs' ls' {} {} (L - {(b + 64, n', a')})" "calm t ls' None"
    using hand_retire [OF h c x b(1,2)] by blast
  have "sa_owns cfg t {x \<in> L. fst x \<noteq> p}" unfolding L using t(2,3) unfolding sa_owns_def by blast
  moreover have "p \<noteq> 0" using b(3) by simp
  ultimately show ?thesis using t(1) validate_live [OF inv b(1,2)] b(3) True
    by (intro exI [of _ "refresh_extended_metrics_diagnostics t"]) (simp add: do_try_deallocate_def)
qed

interpretation sa: memory_resource "sa_do_allocate cfg" "sa_do_deallocate cfg" "sa_owns cfg" for cfg
proof
  fix s L c b a
  assume own: "sa_owns cfg s L"
  show "ledger_sound L" by (rule sa_owns_sound [OF own])
  from sa_do_allocate_owns [OF own, of c b a] obtain r t where r: "sa_do_allocate cfg c s b a = Some (r, t)"
    "case r of None \<Rightarrow> sa_owns cfg t L | Some p \<Rightarrow> p \<notin> fst ` L \<and> sa_owns cfg t (insert (p, b, a) L)" by blast
  show "sa_do_allocate cfg c s b a \<noteq> None" using r(1) by simp
  show "sa_do_allocate cfg c s b a = Some (Some p, s') \<Longrightarrow> p \<notin> fst ` L \<and> sa_owns cfg s' (insert (p, b, a) L)" for p s'
    using r by auto
  show "sa_do_allocate cfg c s b a = Some (None, s') \<Longrightarrow> sa_owns cfg s' L" for s'
    using r by auto
  show "\<exists>s'. sa_do_deallocate cfg c s p b a = Some s' \<and> sa_owns cfg s' (L - {(p, b, a)})" if x: "(p, b, a) \<in> L" for p
  proof -
    obtain bs ls where h: "hand cfg s bs ls {} {} L" using own by (auto simp: sa_owns_def)
    note I = invD [OF handD(1) [OF h], simplified]
    have inj: "inj_on fst L" and n: "0 < b" using I(8) x by (auto simp: ledger_ok_def)
    have "block_sound (p, b, a)" using sa_owns_sound [OF own] x by (auto simp: ledger_sound_def)
    then have p: "p < 18446744073709551616" using n by (auto simp: block_sound_def)
    show ?thesis using inj_fst_remove [OF inj x] do_try_deallocate_owns [OF own p, of c b a] by (auto simp: sa_do_deallocate_def)
  qed
qed

end
