(* ===== verification/Single_Arena_Sessions.thy ===== *)
theory Single_Arena_Sessions
  imports Single_Arena_Contract
begin

text \<open>
  The single arena from its constructor: the layout the constructor chooses satisfies the
  invariant, so every session over a fresh arena is sound, a deallocation is accepted exactly for
  a live block, and the maintenance of an arena that is owed nothing rolls its frontier back to
  the base.
\<close>

section \<open>The constructor\<close>

text \<open>
  What the theorems assume of the configuration and the caller.  \<open>config_ok\<close> is what the static assertions
  admit; the rest is more than they ask for.  The maintenance threshold is not 0, the memory is not null, its
  addresses can be restored from a tagged pointer, it ends more than 4 GiB below the end of the address
  space, and there are at most 65536 shards.
\<close>

definition arena_ok :: "arena_config \<Rightarrow> addr \<Rightarrow> nat \<Rightarrow> nat \<Rightarrow> bool" where
  "arena_ok cfg blk sz nshards \<longleftrightarrow> config_ok cfg \<and> 1 \<le> maintenance_window_threshold cfg \<and> 0 < blk \<and>
     blk + sz + 4294967360 \<le> 18446744073709551616 \<and> nshards \<le> 65536 \<and>
     (\<forall>p. blk \<le> p \<and> p < blk + sz \<longrightarrow> canonical (pointer_rule cfg) 16 (of_nat p))"

lemma bins_bound:
  assumes "config_ok cfg"
  shows "NUM_FREE_BLOCK_BINS cfg \<le> 67108865"
proof -
  let ?n = "NUM_NON_SENTINEL_FREE_BLOCK_BINS cfg"
  have n: "0 < ?n" by (rule bins_nonempty)
  have "64 * (?n - 1 + 1) \<le> bin_size cfg (?n - 1)" using n by (intro bin_size_lower [OF assms]) simp
  also have "\<dots> \<le> max_bin_bytes_aligned cfg" using n by (intro bin_sizes(3) [OF assms]) simp
  also have "\<dots> < 4294967296" by (rule max_bin_facts(4) [OF assms])
  finally have "64 * ?n < 4294967296" using n by simp
  then show ?thesis by (simp add: NUM_FREE_BLOCK_BINS_def)
qed

lemma lockfree_align_pointer_round: "p + 64 < 18446744073709551616 \<Longrightarrow> lockfree_align_pointer p ALIGNMENT = round_up p 64"
  by (simp add: lockfree_align_pointer_def ALIGNMENT_def Let_def round_up_mod add64_exact sub64_exact)

text \<open>Where the constructor puts the parts, in exact arithmetic.\<close>

lemma layout_exact:
  assumes cfg: "config_ok cfg" and e: "blk + sz + 4294967360 \<le> 18446744073709551616" and n: "nshards \<le> 65536"
    and first: "first = lockfree_align_pointer blk ALIGNMENT" and usz: "usz = aligned_block_size blk sz"
    and big: "\<not> usz < minimum_block_size cfg nshards" and n1: "1 \<le> nshards"
  defines "bins_end \<equiv> first + 64 * nshards + 64 * (NUM_FREE_BLOCK_BINS cfg * nshards)"
  defines "upper \<equiv> (blk + sz) div 64 * 64"
  defines "k \<equiv> (upper - bins_end) div 262208"
  shows "first = round_up blk 64" and "first + usz = blk + sz"
    and "add64 (add64 first (mul64 nshards PENDING_SHARD_SIZE)) (mul64 (mul64 (NUM_FREE_BLOCK_BINS cfg) nshards) FREE_BLOCK_BIN_SIZE) = bins_end"
    and "sub64 (and64 (add64 blk sz) (not64 (ALLOCATION_METADATA_SIZE - 1))) ALLOCATION_METADATA_SIZE = upper - 64"
    and "add64 (upper - 64) ALLOCATION_METADATA_SIZE = upper" and "bins_end < upper" and "1 \<le> k"
    and "bins_end + 262208 * k \<le> upper" and "upper \<le> blk + sz" and "64 dvd bins_end"
    and "k = (upper - bins_end) div (METADATA_BLOCK_BYTES + BLOCK_MANAGER_SIZE)" and "blk \<le> first" and "64 dvd upper"
    and "add64 bins_end (mul64 k BLOCK_MANAGER_SIZE) = bins_end + 64 * k"
proof -
  let ?B = "NUM_FREE_BLOCK_BINS cfg"
  have B: "?B \<le> 67108865" by (rule bins_bound [OF cfg])
  have Bn: "?B * nshards \<le> 67108865 * 65536" using B n by (rule mult_le_mono)
  show f: "first = round_up blk 64" unfolding first using e by (intro lockfree_align_pointer_round) simp
  have fb: "blk \<le> first" "first < blk + 64" unfolding f using round_up_ge [of 64 blk] round_up_less [of 64 blk] by simp_all
  then show "blk \<le> first" by simp
  have adj: "sub64 first blk = first - blk" using fb e by (intro sub64_exact) simp_all
  have min: "minimum_block_size cfg nshards = 128 + 64 * nshards + 64 * (?B * nshards) + 262208 + 128"
    using n Bn by (simp add: minimum_block_size_def sa_constants mul64_exact add64_exact mult.commute)
  have usz': "usz = sz - (first - blk)" "first - blk < sz"
    using big min unfolding usz aligned_block_size_def first [symmetric] adj by (auto simp: Let_def split: if_splits)
  then show fe: "first + usz = blk + sz" using fb by simp
  have room: "bins_end + 262464 \<le> blk + sz" using big min fe by (simp add: bins_end_def)
  have t: "upper = blk + sz - (blk + sz) mod 64" by (simp add: upper_def minus_mod_eq_div_mult)
  have tl: "upper \<le> blk + sz" "blk + sz < upper + 64" unfolding t using mod_less_divisor [of 64 "blk + sz"] by simp_all
  then show "upper \<le> blk + sz" by simp
  show bt: "bins_end < upper" using room tl by simp
  show "64 dvd upper" by (simp add: upper_def)
  have "64 dvd first" unfolding f by (rule round_up_dvd)
  then show "64 dvd bins_end" by (simp add: bins_end_def)
  have small: "first < 18446744073709551616" using fb e by simp
  have "bins_end < 18446744073709551616" using room e by simp
  then show "add64 (add64 first (mul64 nshards PENDING_SHARD_SIZE)) (mul64 (mul64 ?B nshards) FREE_BLOCK_BIN_SIZE) = bins_end"
    using n Bn unfolding bins_end_def by (simp add: sa_constants mul64_exact add64_exact mult.commute)
  have "and64 (blk + sz) (not64 (2 ^ 6 - 1)) = blk + sz - (blk + sz) mod 2 ^ 6" using e by (intro and64_not_mask) simp_all
  then have "and64 (add64 blk sz) (not64 (ALLOCATION_METADATA_SIZE - 1)) = upper"
    using e t by (simp add: add64_exact ALLOCATION_METADATA_SIZE_def)
  then show "sub64 (and64 (add64 blk sz) (not64 (ALLOCATION_METADATA_SIZE - 1))) ALLOCATION_METADATA_SIZE = upper - 64"
    using room tl e by (simp add: sub64_exact ALLOCATION_METADATA_SIZE_def)
  show "add64 (upper - 64) ALLOCATION_METADATA_SIZE = upper"
    using room tl e by (simp add: add64_exact ALLOCATION_METADATA_SIZE_def)
  have "262208 \<le> upper - bins_end" using room tl by simp
  then show "1 \<le> k" unfolding k_def by (simp add: Suc_le_eq div_greater_zero_iff)
  have "262208 * k \<le> upper - bins_end" by (simp add: k_def)
  then show kk: "bins_end + 262208 * k \<le> upper" using bt by simp
  show "k = (upper - bins_end) div (METADATA_BLOCK_BYTES + BLOCK_MANAGER_SIZE)" by (simp add: k_def sa_constants)
  have "64 * k \<le> 262208 * k" by simp
  then have "bins_end + 64 * k < 18446744073709551616" using kk tl e by linarith
  then show "add64 bins_end (mul64 k BLOCK_MANAGER_SIZE) = bins_end + 64 * k"
    by (simp add: sa_constants mul64_exact add64_exact mult.commute)
qed

lemma empty_head: "pack (metadata_tag cfg) 0 0 = 0"
  by (simp add: metadata_tag_def tagged_ptr_codec_def tp_pack_def)

text \<open>A fresh arena owes nothing.\<close>

definition fresh_arena :: "arena_config \<Rightarrow> single_arena \<Rightarrow> bool" where
  "fresh_arena cfg s \<longleftrightarrow> geo cfg s \<and> metadata_record_count s = 0 \<and> next_empty_memory_block s = pack_frontier (allocation_base s) (allocation_base s) 0 \<and>
     \<not> frontier_reclaim_in_progress s \<and> free_block_bins s = (\<lambda>_ _. 0) \<and>
     pending_shards s = replicate (cpu_shards s) \<lparr>shard_head = 0, shard_count = 0, maintenance_window_open = False\<rparr> \<and>
     (\<exists>k. block_managers s = replicate k \<lparr>local_free_head = 0, state_and_active_count = 0\<rparr>)"

lemma fresh_owns:
  assumes f: "fresh_arena cfg s"
  shows "sa_owns cfg s {}"
proof -
  have g: "geo cfg s" and n: "metadata_record_count s = 0" using f by (simp_all add: fresh_arena_def)
  have "frontier_ok (allocation_base s) (allocation_base s)" using geoD(9,11) [OF g] by (intro frontier_ok_below [OF g]) simp_all
  note F = frontier_pack_unpack [OF this disjI1 [OF refl]]
  have fr: "frontier s = allocation_base s" using f F(1) by (simp add: fresh_arena_def frontier_def)
  have "region s" using g n fr by (simp add: region_def geo_def)
  moreover have "front s []" using f F(2) fr by (simp add: front_def last_or_def fresh_arena_def)
  moreover have "stacks cfg s (\<lambda>_. [])"
  proof -
    have "mds.holds cfg (metadata_start s) (head_of s p, links_of s p) []" if "valid_place s p" for p
    proof -
      have "head_of s p = 0" using f that by (cases p) (auto simp: fresh_arena_def)
      then show ?thesis using mds.holds_empty [of cfg "metadata_start s" 0] empty_head by simp
    qed
    then show ?thesis by (simp add: stacks_def)
  qed
  moreover have "placed cfg s {} (\<lambda>_. []) {}" using n by (simp add: placed_def recs_def)
  moreover have "ledger_ok s {} {} {}" by (simp add: ledger_ok_def)
  moreover have "spares s (\<lambda>_. [])" using f n by (auto simp: spares_active active_def fresh_arena_def)
  ultimately have "hand cfg s [] (\<lambda>_. []) {} {} {}" using g by (simp add: hand_def inv_def)
  moreover have "calm s (\<lambda>_. []) None" using f by (auto simp: calm_def fresh_arena_def)
  ultimately show ?thesis unfolding sa_owns_def by blast
qed

lemma constructor_fresh:
  assumes a: "arena_ok cfg blk sz nshards" and c: "lockfree_single_arena_resource cfg mem blk sz nshards = Some s"
  shows "sa_owns cfg s {}"
proof -
  define n where "n = (if nshards > 0 then nshards else 1)"
  define first where "first = lockfree_align_pointer blk ALIGNMENT"
  define usz where "usz = aligned_block_size blk sz"
  have cfg: "config_ok cfg" "1 \<le> maintenance_window_threshold cfg" "0 < blk" "blk + sz + 4294967360 \<le> 18446744073709551616"
    "n \<le> 65536" "1 \<le> n" and can: "\<And>p. blk \<le> p \<Longrightarrow> p < blk + sz \<Longrightarrow> canonical (pointer_rule cfg) 16 (of_nat p)"
    using a by (auto simp: arena_ok_def n_def)
  have checks: "usz \<noteq> 0" "usz div 64 < NO_PREDECESSOR" "\<not> usz < minimum_block_size cfg n"
    using c unfolding lockfree_single_arena_resource_def Let_def n_def [symmetric] first_def [symmetric] usz_def [symmetric]
    by (auto simp: ALIGNMENT_def split: if_splits)
  note E = layout_exact [OF cfg(1,4,5) first_def usz_def checks(3) cfg(6)]
  define bins_end where "bins_end = first + 64 * n + 64 * (NUM_FREE_BLOCK_BINS cfg * n)"
  define upper where "upper = (blk + sz) div 64 * 64"
  define k where "k = (upper - bins_end) div 262208"
  note E = E [folded bins_end_def upper_def, folded k_def]
  have base: "lockfree_align_pointer (bins_end + 64 * k) ALIGNMENT = bins_end + 64 * k" using E(10) by (intro align_multiple) simp
  have after: "(if bins_end < upper then upper - bins_end else 0) = upper - bins_end" using E(6) by simp
  have s: "s = refresh_extended_metrics_diagnostics (mem\<lparr>
      arena_block := first, arena_block_size := usz, metadata_start := upper - 64,
      next_empty_memory_block := pack_frontier (bins_end + 64 * k) (bins_end + 64 * k) 0,
      frontier_reclaim_in_progress := False, metadata_record_count := 0,
      block_managers := replicate k \<lparr>local_free_head = 0, state_and_active_count = 0\<rparr>,
      pending_shards := replicate n \<lparr>shard_head = 0, shard_count = 0, maintenance_window_open = False\<rparr>,
      free_block_bins := (\<lambda>bin_index addr_bin. 0), cpu_shards := n,
      allocation_base := bins_end + 64 * k, address_bin_size := (if usz div NUM_ADDRESS_BINS > 0 then usz div NUM_ADDRESS_BINS else 1),
      usable := True, hdr_previous := (hdr_previous mem)(bins_end + 64 * k := 0)\<rparr>)" (is "_ = refresh_extended_metrics_diagnostics ?s")
    using c unfolding lockfree_single_arena_resource_def Let_def n_def [symmetric] first_def [symmetric] usz_def [symmetric]
      E(4) E(5) E(3) after E(11) [symmetric] E(14) base empty_head by (simp split: if_split_asm)
  have "geo cfg ?s"
    unfolding geo_def
  proof (intro conjI allI impI)
    show "config_ok cfg" "1 \<le> maintenance_window_threshold cfg" by fact+
    show "usable ?s" "length (pending_shards ?s) = cpu_shards ?s" by simp_all
    show "1 \<le> cpu_shards ?s" using cfg(6) by simp
    show "0 < arena_block ?s" using cfg(3) E(12) by simp
    show "64 dvd arena_block ?s" using E(1) by simp
    show "arena_block ?s \<le> allocation_base ?s" by (simp add: bins_end_def)
    show "64 dvd allocation_base ?s" using E(10) by simp
    show "64 dvd metadata_start ?s" using E(13) E(6) by (simp add: dvd_diff_nat)
    have k: "64 * k + 262144 \<le> 262208 * k" using E(7) by simp
    then show "allocation_base ?s < metadata_start ?s" using E(8) by simp
    show "metadata_start ?s + 4294967360 \<le> 18446744073709551616" using E(9) cfg(4) by simp
    have "usz < 64 * 4294967295" using checks(2) by (simp add: NO_PREDECESSOR_def div_less_iff_less_mult mult.commute)
    then show "metadata_start ?s - arena_block ?s < 64 * 4294967295" using E(2,9) by simp
    have lo: "first + 64 + 262208 * k \<le> upper" using E(8) cfg(6) by (simp add: bins_end_def)
    then show "arena_block ?s + 262144 * length (block_managers ?s) < metadata_start ?s" using E(7) by simp
    fix i assume "i < 4096 * length (block_managers ?s)"
    then have "64 * i < 262144 * k" by simp
    then have "blk \<le> upper - 64 - 64 * i" "upper - 64 - 64 * i < blk + sz" using lo E(9,12) cfg(3) by simp_all
    then show "canonical (pointer_rule cfg) 16 (of_nat (record_at (metadata_start ?s) i))"
      by (simp add: record_at_def can)
  qed
  then have "fresh_arena cfg ?s" by (auto simp: fresh_arena_def)
  then have "sa_owns cfg ?s {}" by (rule fresh_owns)
  then show ?thesis unfolding s by simp
qed

text \<open>The constructor succeeds on an aligned block with room for its parts.\<close>

lemma constructor_returns:
  assumes a: "arena_ok cfg blk sz n" and n: "1 \<le> n" and d: "64 dvd blk"
    and room: "64 * n + 64 * (NUM_FREE_BLOCK_BINS cfg * n) + 262464 \<le> sz" and sz: "sz < 64 * 4294967295"
  shows "\<exists>s. lockfree_single_arena_resource cfg mem blk sz n = Some s"
proof -
  have cfg: "config_ok cfg" and e: "blk + sz + 4294967360 \<le> 18446744073709551616" and n6: "n \<le> 65536" and pos: "0 < blk"
    using a by (simp_all add: arena_ok_def)
  have Bn: "NUM_FREE_BLOCK_BINS cfg * n \<le> 67108865 * 65536" using bins_bound [OF cfg] n6 by (rule mult_le_mono)
  have first: "lockfree_align_pointer blk ALIGNMENT = blk" using d by (rule align_multiple)
  have usz: "aligned_block_size blk sz = sz"
    using room e by (simp add: aligned_block_size_def first sub64_exact)
  have min: "minimum_block_size cfg n = 64 * n + 64 * (NUM_FREE_BLOCK_BINS cfg * n) + 262464"
    using n6 Bn by (simp add: minimum_block_size_def sa_constants mul64_exact add64_exact mult.commute)
  have null: "unat NULL_OFFSET = 281474976710655" by (simp add: word_masks mask_eq_exp_minus_1)
  have "sz div 64 < NO_PREDECESSOR" using sz by (simp add: NO_PREDECESSOR_def div_less_iff_less_mult mult.commute)
  then have "\<not> (blk = 0 \<or> sz = 0 \<or> sz \<ge> unat NULL_OFFSET \<or> sz div ALIGNMENT \<ge> NO_PREDECESSOR \<or> sz < minimum_block_size cfg n)"
    using pos room sz by (simp add: null min ALIGNMENT_def)
  then show ?thesis using n by (simp add: lockfree_single_arena_resource_def Let_def first usz)
qed

section \<open>Sessions\<close>

lemma session_owns:
  assumes "arena_ok cfg blk sz nshards" and "lockfree_single_arena_resource cfg mem blk sz nshards = Some s"
    and "list_all request_ok rs"
  shows "\<exists>y. serve_all (sa_do_allocate cfg) (sa_do_deallocate cfg) rs \<lparr>resource = s, held = []\<rparr> = Some y \<and>
    ledger_sound (set (held y)) \<and> sa_owns cfg (resource y) (set (held y))"
  using sa.session_sound [OF constructor_fresh [OF assms(1,2)] assms(3)] by blast

lemma maintenance_empties:
  assumes own: "sa_owns cfg s {}"
  shows "\<exists>t. run_maintenance_window_all cfg s = Some t \<and> sa_owns cfg t {} \<and> frontier t = allocation_base t"
proof -
  obtain bs ls where h: "hand cfg s bs ls {} {} {}" and c: "calm s ls None" using own by (auto simp: sa_owns_def)
  obtain t bs' ls' where t: "run_maintenance_window_all cfg s = Some t" "hand cfg t bs' ls' {} {} {}" "calm t ls' None"
    "\<forall>k. ls' (Pending k) = []" "walked t bs'" using hand_all_windows [OF h c] by blast
  have inv: "inv cfg t bs' {} ls' {} {}" using handD(1) [OF t(2)] by simp
  note I = invD [OF inv, simplified]
  have "bs' = []"
  proof (rule ccontr)
    assume ne: "bs' \<noteq> []"
    let ?b = "last bs'" and ?r = "owner_of t (last bs')"
    have b: "?b \<in> set bs'" using ne by simp
    have own: "owned t {} ?b" by (rule I(6) [OF b])
    have "\<not> in_use_block t {} ?b" using I(8) b by (auto simp: ledger_ok_def)
    then have use: "get_state t ?r \<noteq> state_code IN_USE" by (simp add: in_use_block_def)
    have avail: "get_state t ?r \<noteq> state_code AVAILABLE" using t(5) ne by (simp add: walked_def)
    have "?r \<in> recs t" using own by (auto simp: recs_def owned_def owner_of_def)
    then obtain p where p: "?r \<in> set (ls' p)" using I(7) use by (auto simp: placed_def)
    show False using listed_rec(3) [OF inv p] own use avail t(4) p by (cases p) (auto simp: owned_def)
  qed
  then have "frontier t = allocation_base t" using I(3) by (simp add: front_def)
  then show ?thesis using t unfolding sa_owns_def by blast
qed

section \<open>Properties\<close>

text \<open>Two arenas that differ in their statistics at most.\<close>

definition only_statistics :: "single_arena \<Rightarrow> single_arena \<Rightarrow> bool" where
  "only_statistics s t \<longleftrightarrow> t = s\<lparr>sa_statistics := sa_statistics t, sa_extended := sa_extended t\<rparr>"

lemma only_statistics_rejected:
  "only_statistics s s" "only_statistics s (refresh_extended_metrics_diagnostics (counted f s))"
  by (simp_all add: only_statistics_def refresh_extended_metrics_diagnostics_def counted_def extended_def Let_def)

text \<open>A small arena, at which the properties are applied.\<close>

definition small_arena_config :: arena_config where
  "small_arena_config = \<lparr>max_bin_bytes = 1024, max_waste_percent = 25, maintenance_window_threshold = 2, pointer_rule = zero_bits\<rparr>"

definition blank_memory :: single_arena where
  "blank_memory = \<lparr>arena_block = 0, arena_block_size = 0, metadata_start = 0, next_empty_memory_block = 0,
     frontier_reclaim_in_progress = False, metadata_record_count = 0, block_managers = [], pending_shards = [],
     free_block_bins = (\<lambda>_ _. 0), cpu_shards = 0, allocation_base = 0, address_bin_size = 0, usable = False,
     hdr_metadata_index = (\<lambda>_. 0), hdr_size = (\<lambda>_. 0), hdr_previous = (\<lambda>_. 0), md_block_state = (\<lambda>_. 0),
     md_requested_size = (\<lambda>_. 0), md_total_size = (\<lambda>_. 0), md_alignment = (\<lambda>_. 0), md_original_shard = (\<lambda>_. 0),
     next_free_block_index = (\<lambda>_. 0), next_free_header_index = (\<lambda>_. 0), sa_statistics = None, sa_extended = None\<rparr>"

lemma canonical_low:
  assumes "0 < p" and "p < 281474976710656"
  shows "canonical zero_bits 16 (of_nat p)"
proof -
  have u: "unat (of_nat p :: u64) = p" using assms(2) by (simp add: unat_of_nat)
  have t: "unat (take_bit 48 (of_nat p :: u64)) = p"
    unfolding unsigned_take_bit_eq u using assms(2) by (simp add: take_bit_eq_mod)
  then have same: "take_bit 48 (of_nat p :: u64) = of_nat p" using u by (simp add: word_unat_eq_iff)
  have "take_bit 48 (of_nat p :: u64) \<noteq> 0" using t assms(1) by auto
  moreover have "\<not> bit (of_nat p :: u64) i" if "48 \<le> i" for i
  proof -
    have "\<not> bit (take_bit 48 (of_nat p :: u64)) i" using that by (simp add: bit_take_bit_iff)
    then show ?thesis using same by simp
  qed
  ultimately show ?thesis by (simp add: canonical_def POINTER_BITS_def)
qed

lemma kilobyte_arena:
  assumes mb: "max_bin_bytes cfg = 1024" and mw: "max_waste_percent cfg = 25"
    and "1 \<le> maintenance_window_threshold cfg" and "pointer_rule cfg = zero_bits"
  shows "arena_ok cfg 4096 1048576 1" and "\<exists>s. lockfree_single_arena_resource cfg mem 4096 1048576 1 = Some s"
proof -
  have mx: "max_bin_bytes_aligned cfg = 1024"
    by (simp add: max_bin_bytes_aligned_def align_up_bin_size_def lockfree_aligned_size_def mb
        ALIGNMENT_def add64_exact sub64_exact mul64_exact)
  have ok: "config_ok cfg"
    by (simp add: config_ok_def MAX_ALLOCATION_SIZE_INTERNAL_def mx mb mw)
  have can: "canonical (pointer_rule cfg) 16 (of_nat p)" if "4096 \<le> p" "p < 1052672" for p
    using canonical_low [of p] that assms(4) by simp
  then show a: "arena_ok cfg 4096 1048576 1"
    using ok assms(3) by (simp add: arena_ok_def)
  let ?N = "NUM_NON_SENTINEL_FREE_BLOCK_BINS cfg"
  have n: "0 < ?N" by (rule bins_nonempty)
  have "64 * (?N - 1 + 1) \<le> bin_size cfg (?N - 1)" using n by (intro bin_size_lower [OF ok]) simp
  also have "\<dots> \<le> 1024" using n bin_sizes(3) [OF ok, of "?N - 1"] mx by simp
  finally have "64 * ?N \<le> 1024" using n by simp
  then show "\<exists>s. lockfree_single_arena_resource cfg mem 4096 1048576 1 = Some s"
    by (intro constructor_returns [OF a]) (simp_all add: NUM_FREE_BLOCK_BINS_def)
qed

lemma small_arena:
  shows "arena_ok small_arena_config 4096 1048576 1"
    and "\<exists>s. lockfree_single_arena_resource small_arena_config blank_memory 4096 1048576 1 = Some s"
  by (rule kilobyte_arena; simp add: small_arena_config_def)+

text \<open>C2: A client of the single arena, whatever it requests and gives back and in whatever order: from a
  fresh arena every call returns, maintenance included, and the blocks it holds are aligned as
  asked and never overlap.  The configuration passes the static assertions and has a maintenance threshold of
  at least 1; there are at most 65536 shards; the memory is not null, has addresses that a tagged
  pointer can restore, and ends more than 4 GiB below the end of the address space.\<close>

theorem single_arena_session_sound:
  assumes "arena_ok cfg blk sz nshards" and "lockfree_single_arena_resource cfg mem blk sz nshards = Some s"
    and "list_all request_ok rs"
  shows "\<exists>y. serve_all (sa_do_allocate cfg) (sa_do_deallocate cfg) rs \<lparr>resource = s, held = []\<rparr> = Some y \<and>
    ledger_sound (set (held y))"
  using session_owns [OF assms] by blast

theorem single_arena_session_sound_witness:
  "\<exists>s y. lockfree_single_arena_resource small_arena_config blank_memory 4096 1048576 1 = Some s \<and>
    serve_all (sa_do_allocate small_arena_config) (sa_do_deallocate small_arena_config)
      [Allocate 0 100 8, Allocate 0 900 64, Release 0 0, Allocate 0 60 16, Release 0 1] \<lparr>resource = s, held = []\<rparr> = Some y \<and>
    ledger_sound (set (held y))"
proof -
  obtain s where s: "lockfree_single_arena_resource small_arena_config blank_memory 4096 1048576 1 = Some s"
    using small_arena(2) by blast
  show ?thesis using s single_arena_session_sound [OF small_arena(1) s,
      of "[Allocate 0 100 8, Allocate 0 900 64, Release 0 0, Allocate 0 60 16, Release 0 1]"]
    by (simp add: request_ok_def arg_ok_def del: serve_all.simps)
qed

text \<open>C3: The validation of a deallocation is exact: at any point of a session, of an arena
  as \<open>arena_ok\<close> describes, for any address at all, the call is accepted if and only if the address is null or is that of a
  block the session holds, which is then given back; a call that is rejected leaves every field of
  the arena, its headers and its records as it was, except for the statistics.\<close>

theorem single_arena_deallocate_exact:
  assumes "arena_ok cfg blk sz nshards" and "lockfree_single_arena_resource cfg mem blk sz nshards = Some s"
    and "list_all request_ok rs"
    and "serve_all (sa_do_allocate cfg) (sa_do_deallocate cfg) rs \<lparr>resource = s, held = []\<rparr> = Some y"
    and "p < 18446744073709551616"
  shows "\<exists>t. do_try_deallocate cfg cpu (resource y) p n a = Some (p = 0 \<or> p \<in> fst ` set (held y), t) \<and>
    sa_owns cfg t {x \<in> set (held y). fst x \<noteq> p} \<and> (p \<notin> fst ` set (held y) \<longrightarrow> only_statistics (resource y) t)"
proof -
  have own: "sa_owns cfg (resource y) (set (held y))" using session_owns [OF assms(1-3)] assms(4) by simp
  obtain t where t: "do_try_deallocate cfg cpu (resource y) p n a = Some (p = 0 \<or> p \<in> fst ` set (held y), t)"
    "sa_owns cfg t {x \<in> set (held y). fst x \<noteq> p}" using do_try_deallocate_owns [OF own assms(5)] by blast
  have "only_statistics (resource y) t" if "p \<notin> fst ` set (held y)"
  proof -
    have "\<nexists>md. validate (resource y) p = Inr md" using validate_exact [OF own assms(5)] that by simp
    then obtain j where "validate (resource y) p = Inl j" by (cases "validate (resource y) p") auto
    then show ?thesis using t(1) only_statistics_rejected
      by (cases j) (auto simp: do_try_deallocate_def split: if_splits)
  qed
  then show ?thesis using t by blast
qed

theorem single_arena_deallocate_exact_witness:
  "\<exists>s y t. lockfree_single_arena_resource small_arena_config blank_memory 4096 1048576 1 = Some s \<and>
    serve_all (sa_do_allocate small_arena_config) (sa_do_deallocate small_arena_config) [Allocate 0 100 8] \<lparr>resource = s, held = []\<rparr> = Some y \<and>
    do_try_deallocate small_arena_config 0 (resource y) 1 100 8 = Some (1 \<in> fst ` set (held y), t)"
proof -
  obtain s where s: "lockfree_single_arena_resource small_arena_config blank_memory 4096 1048576 1 = Some s"
    using small_arena(2) by blast
  have rs: "list_all request_ok [Allocate 0 100 8]" by (simp add: request_ok_def arg_ok_def)
  obtain y where y: "serve_all (sa_do_allocate small_arena_config) (sa_do_deallocate small_arena_config) [Allocate 0 100 8]
      \<lparr>resource = s, held = []\<rparr> = Some y" using session_owns [OF small_arena(1) s rs] by blast
  show ?thesis using single_arena_deallocate_exact [OF small_arena(1) s rs y, of 1 0 100 8] s y by (auto simp del: serve_all.simps)
qed

text \<open>C12: Everything given back comes back: when a session holds nothing, one pass of the maintenance
  windows over all shards ends with the frontier rolled back to the base of the arena, whatever
  was freed in whatever order and however it was binned.\<close>

theorem single_arena_rolls_back:
  assumes "arena_ok cfg blk sz nshards" and "lockfree_single_arena_resource cfg mem blk sz nshards = Some s"
    and "list_all request_ok rs"
    and "serve_all (sa_do_allocate cfg) (sa_do_deallocate cfg) rs \<lparr>resource = s, held = []\<rparr> = Some y" and "held y = []"
  shows "\<exists>t. run_maintenance_window_all cfg (resource y) = Some t \<and> frontier t = allocation_base t"
proof -
  have "sa_owns cfg (resource y) {}" using session_owns [OF assms(1-3)] assms(4,5) by simp
  then show ?thesis using maintenance_empties by blast
qed

theorem single_arena_rolls_back_witness:
  "\<exists>s y t. lockfree_single_arena_resource small_arena_config blank_memory 4096 1048576 1 = Some s \<and>
    serve_all (sa_do_allocate small_arena_config) (sa_do_deallocate small_arena_config) [Allocate 0 100 8, Release 0 0]
      \<lparr>resource = s, held = []\<rparr> = Some y \<and>
    run_maintenance_window_all small_arena_config (resource y) = Some t \<and> frontier t = allocation_base t"
proof -
  obtain s where s: "lockfree_single_arena_resource small_arena_config blank_memory 4096 1048576 1 = Some s"
    using small_arena(2) by blast
  have rs: "list_all request_ok [Allocate 0 100 8, Release 0 0]" by (simp add: request_ok_def arg_ok_def)
  obtain y where y: "serve_all (sa_do_allocate small_arena_config) (sa_do_deallocate small_arena_config) [Allocate 0 100 8, Release 0 0]
      \<lparr>resource = s, held = []\<rparr> = Some y" using session_owns [OF small_arena(1) s rs] by blast
  have "held y = []"
    using y by (cases "sa_do_allocate small_arena_config 0 s 100 8") (auto simp: serve_def split: option.splits bind_splits)
  then show ?thesis using single_arena_rolls_back [OF small_arena(1) s rs y] s y by blast
qed

end
