(* ===== verification/Bitblock_Set.thy ===== *)
theory Bitblock_Set
  imports Prelude
begin

text \<open>
  \<^verbatim>\<open>bitblock_set<SIZE_IN_BITS>\<close> (\<^verbatim>\<open>include/lockfree/bitblock_set\<close>): a set of bits from which runs of
  1 to 16 bits are acquired and released, kept in 64-bit words with the first bit of the set in the
  most significant bit of the first word.  The operations are calls that run without interference:
  every compare-and-swap meets the value that was loaded before it.  The parameter \<open>n\<close> is the
  template's \<^verbatim>\<open>SIZE_IN_BITS\<close>.

  The abstract state of a set is the set of the bits that are acquired; the theorems say what every
  operation does to it.
\<close>

section \<open>State\<close>

datatype bitblock_set_result =
    success
  | invalid_num_bits
  | start_index_out_of_range
  | range_exceeds_size
  | failed_bit_already_acquired
  | failed_bit_already_acquired_first_word
  | failed_bit_already_acquired_last_word
  | failed_bit_already_released
  | failed_bit_already_released_first_word
  | failed_bit_already_released_last_word

record bitblock_set =
  bit_words :: "u64 list"
  search_hint :: nat

definition BITS_PER_WORD :: nat where "BITS_PER_WORD = 64"
definition WORDS_PER_SCAN_CHUNK :: nat where "WORDS_PER_SCAN_CHUNK = 2"

definition NUM_WORDS :: "nat \<Rightarrow> nat" where
  "NUM_WORDS n = (n + BITS_PER_WORD - 1) div BITS_PER_WORD"

definition NUM_SCAN_CHUNKS :: "nat \<Rightarrow> nat" where
  "NUM_SCAN_CHUNKS n = (NUM_WORDS n + WORDS_PER_SCAN_CHUNK - 1) div WORDS_PER_SCAN_CHUNK"

definition PADDED_NUM_WORDS :: "nat \<Rightarrow> nat" where
  "PADDED_NUM_WORDS n = NUM_SCAN_CHUNKS n * WORDS_PER_SCAN_CHUNK"

definition TAIL_UNUSED_BITS :: "nat \<Rightarrow> nat" where
  "TAIL_UNUSED_BITS n = NUM_WORDS n * BITS_PER_WORD - n"

text \<open>The constructor: the bits past the end are set for good, in the last word and in the padding.\<close>

definition empty_bitblock_set :: "nat \<Rightarrow> bitblock_set" where
  "empty_bitblock_set n =
     (let ws = replicate (PADDED_NUM_WORDS n) 0;
          ws = (if TAIL_UNUSED_BITS n > 0
                then ws[NUM_WORDS n - 1 := push_bit (TAIL_UNUSED_BITS n) 1 - 1] else ws);
          ws = (if PADDED_NUM_WORDS n > NUM_WORDS n then ws[NUM_WORDS n := NOT 0] else ws)
      in \<lparr>bit_words = ws, search_hint = 0\<rparr>)"

text \<open>The two compiler builtins the code uses, counting from the most significant bit.\<close>

definition clzll :: "u64 \<Rightarrow> nat" where
  "clzll w = length (takeWhile (\<lambda>i. \<not> bit w (63 - i)) [0..<64])"

definition popcountll :: "u64 \<Rightarrow> nat" where
  "popcountll w = length (filter (bit w) [0..<64])"

definition total_bits_set :: "nat \<Rightarrow> bitblock_set \<Rightarrow> nat" where
  "total_bits_set n s =
     (let total = sum_list (map popcountll (take (NUM_WORDS n) (bit_words s)))
      in if TAIL_UNUSED_BITS n > 0 then total - TAIL_UNUSED_BITS n else total)"

section \<open>Operations\<close>

definition create_bit_mask :: "nat \<Rightarrow> nat \<Rightarrow> u64" where
  "create_bit_mask start_bit_in_word num_bits =
     (let all_ones = (if num_bits = 64 then NOT 0 else push_bit num_bits 1 - 1)
      in push_bit (64 - start_bit_in_word - num_bits) all_ones)"

definition validate_request :: "nat \<Rightarrow> nat \<Rightarrow> nat \<Rightarrow> bitblock_set_result" where
  "validate_request n start_bit num_bits =
     (if num_bits < 1 \<or> num_bits > 16 then invalid_num_bits
      else if start_bit \<ge> n then start_index_out_of_range
      else if start_bit + num_bits > n then range_exceeds_size
      else success)"

definition store_word :: "nat \<Rightarrow> u64 \<Rightarrow> bitblock_set \<Rightarrow> bitblock_set" where
  "store_word i w s = s\<lparr>bit_words := (bit_words s)[i := w]\<rparr>"

definition acquire_single_word :: "nat \<Rightarrow> nat \<Rightarrow> nat \<Rightarrow> bitblock_set \<Rightarrow> bitblock_set_result \<times> bitblock_set" where
  "acquire_single_word word_idx start_bit_in_word num_bits s =
     (let mask = create_bit_mask start_bit_in_word num_bits;
          old = bit_words s ! word_idx
      in if num_bits = 1
         then (if old AND mask \<noteq> 0 then failed_bit_already_acquired else success, store_word word_idx (old OR mask) s)
         else if old AND mask \<noteq> 0 then (failed_bit_already_acquired, s)
         else (success, store_word word_idx (old OR mask) s))"

definition acquire_multi_word :: "nat \<Rightarrow> nat \<Rightarrow> nat \<Rightarrow> nat \<Rightarrow> bitblock_set \<Rightarrow> bitblock_set_result \<times> bitblock_set" where
  "acquire_multi_word start_bit num_bits start_word end_word s =
     (let start_bit_in_word = start_bit mod BITS_PER_WORD;
          bits_in_first_word = BITS_PER_WORD - start_bit_in_word;
          bits_in_last_word = num_bits - bits_in_first_word;
          first_mask = create_bit_mask start_bit_in_word bits_in_first_word;
          old_first = bit_words s ! start_word;
          s = store_word start_word (old_first OR first_mask) s
      in if old_first AND first_mask \<noteq> 0
         then (let newly_set_bits = first_mask AND NOT old_first;
                   s = (if newly_set_bits \<noteq> 0
                        then store_word start_word (bit_words s ! start_word AND NOT newly_set_bits) s else s)
               in (failed_bit_already_acquired_first_word, s))
         else (let last_mask = create_bit_mask 0 bits_in_last_word;
                   old_last = bit_words s ! end_word;
                   s = store_word end_word (old_last OR last_mask) s
               in if old_last AND last_mask \<noteq> 0
                  then (let newly_set_last = last_mask AND NOT old_last;
                            s = (if newly_set_last \<noteq> 0
                                 then store_word end_word (bit_words s ! end_word AND NOT newly_set_last) s else s);
                            s = store_word start_word (bit_words s ! start_word AND NOT first_mask) s
                        in (failed_bit_already_acquired_last_word, s))
                  else (success, s)))"

definition bits_acquire :: "nat \<Rightarrow> nat \<Rightarrow> nat \<Rightarrow> bitblock_set \<Rightarrow> bitblock_set_result \<times> bitblock_set" where
  "bits_acquire n start_bit num_bits s =
     (if validate_request n start_bit num_bits \<noteq> success then (validate_request n start_bit num_bits, s)
      else let start_word = start_bit div BITS_PER_WORD;
               start_bit_in_word = start_bit mod BITS_PER_WORD;
               end_bit = start_bit + num_bits - 1;
               end_word = end_bit div BITS_PER_WORD
           in if start_word = end_word then acquire_single_word start_word start_bit_in_word num_bits s
              else acquire_multi_word start_bit num_bits start_word end_word s)"

definition release_single_word :: "nat \<Rightarrow> nat \<Rightarrow> nat \<Rightarrow> bitblock_set \<Rightarrow> bitblock_set_result \<times> bitblock_set" where
  "release_single_word word_idx start_bit_in_word num_bits s =
     (let mask = create_bit_mask start_bit_in_word num_bits;
          old = bit_words s ! word_idx
      in if num_bits = 1
         then (if old AND mask = mask then success else failed_bit_already_released, store_word word_idx (old AND NOT mask) s)
         else if old AND mask \<noteq> mask then (failed_bit_already_released, s)
         else (success, store_word word_idx (old AND NOT mask) s))"

definition release_multi_word :: "nat \<Rightarrow> nat \<Rightarrow> nat \<Rightarrow> nat \<Rightarrow> bitblock_set \<Rightarrow> bitblock_set_result \<times> bitblock_set" where
  "release_multi_word start_bit num_bits start_word end_word s =
     (let start_bit_in_word = start_bit mod BITS_PER_WORD;
          bits_in_first_word = BITS_PER_WORD - start_bit_in_word;
          bits_in_last_word = num_bits - bits_in_first_word;
          first_mask = create_bit_mask start_bit_in_word bits_in_first_word;
          last_mask = create_bit_mask 0 bits_in_last_word;
          expected_first = bit_words s ! start_word
      in if expected_first AND first_mask \<noteq> first_mask then (failed_bit_already_released_first_word, s)
         else (let s = store_word start_word (expected_first AND NOT first_mask) s;
                   old_last = bit_words s ! end_word;
                   s = store_word end_word (old_last AND NOT last_mask) s
               in if old_last AND last_mask \<noteq> last_mask
                  then (let s = store_word end_word (bit_words s ! end_word OR (old_last AND last_mask)) s;
                            s = store_word start_word (bit_words s ! start_word OR first_mask) s
                        in (failed_bit_already_released_last_word, s))
                  else (success, s)))"

definition bits_release :: "nat \<Rightarrow> nat \<Rightarrow> nat \<Rightarrow> bitblock_set \<Rightarrow> bitblock_set_result \<times> bitblock_set" where
  "bits_release n start_bit num_bits s =
     (if validate_request n start_bit num_bits \<noteq> success then (validate_request n start_bit num_bits, s)
      else let start_word = start_bit div BITS_PER_WORD;
               start_bit_in_word = start_bit mod BITS_PER_WORD;
               end_bit = start_bit + num_bits - 1;
               end_word = end_bit div BITS_PER_WORD;
               s = s\<lparr>search_hint := start_bit\<rparr>
           in if start_word = end_word then release_single_word start_word start_bit_in_word num_bits s
              else release_multi_word start_bit num_bits start_word end_word s)"

definition is_acquired :: "nat \<Rightarrow> bitblock_set \<Rightarrow> nat \<Rightarrow> bool" where
  "is_acquired n s bit_index \<longleftrightarrow>
     (if bit_index \<ge> n then False
      else bit_words s ! (bit_index div BITS_PER_WORD) AND push_bit (63 - bit_index mod BITS_PER_WORD) 1 \<noteq> 0)"

subsection \<open>Searching\<close>

definition advance_search_hint :: "nat \<Rightarrow> bitblock_set \<Rightarrow> bitblock_set" where
  "advance_search_hint proposed_hint s = s\<lparr>search_hint := proposed_hint\<rparr>"

definition scan_chunk_is_full :: "nat \<Rightarrow> bitblock_set \<Rightarrow> bool" where
  "scan_chunk_is_full base s \<longleftrightarrow> (\<forall>i\<in>set [0..<WORDS_PER_SCAN_CHUNK]. bit_words s ! (base + i) = NOT 0)"

type_synonym word_scan = "nat \<Rightarrow> bitblock_set \<Rightarrow> nat option \<times> bitblock_set"

fun scan_words :: "nat \<Rightarrow> word_scan \<Rightarrow> nat list \<Rightarrow> word_scan" where
  "scan_words n scan_word [] base s = (None, s)"
| "scan_words n scan_word (w # ws) base s =
     (if base + w \<ge> NUM_WORDS n then (None, s)
      else case scan_word (base + w) s of
             (Some r, s) \<Rightarrow> (Some r, s)
           | (None, s) \<Rightarrow> scan_words n scan_word ws base s)"

fun scan_chunks :: "nat \<Rightarrow> word_scan \<Rightarrow> nat list \<Rightarrow> bitblock_set \<Rightarrow> nat option \<times> bitblock_set" where
  "scan_chunks n scan_word [] s = (None, s)"
| "scan_chunks n scan_word (chunk # chunks) s =
     (let chunk_base_word = chunk * WORDS_PER_SCAN_CHUNK
      in if scan_chunk_is_full chunk_base_word s then scan_chunks n scan_word chunks s
         else case scan_words n scan_word [0..<WORDS_PER_SCAN_CHUNK] chunk_base_word s of
                (Some r, s) \<Rightarrow> (Some r, s)
              | (None, s) \<Rightarrow> scan_chunks n scan_word chunks s)"

definition scan_chunks_for_available :: "nat \<Rightarrow> nat \<Rightarrow> word_scan \<Rightarrow> bitblock_set \<Rightarrow> nat option \<times> bitblock_set" where
  "scan_chunks_for_available n start_chunk scan_word s =
     scan_chunks n scan_word (map (\<lambda>i. (start_chunk + i) mod NUM_SCAN_CHUNKS n) [0..<NUM_SCAN_CHUNKS n]) s"

definition scan_single :: "nat \<Rightarrow> word_scan" where
  "scan_single n word_idx s =
     (let word = bit_words s ! word_idx
      in if word = NOT 0 then (None, s)
         else let bit_pos = clzll (NOT word);
                  bit_index = word_idx * BITS_PER_WORD + bit_pos
              in if bit_index \<ge> n then (None, s)
                 else (Some bit_index,
                       advance_search_hint (bit_index + 1) (store_word word_idx (word OR push_bit (63 - bit_pos) 1) s)))"

definition acquire_first_available :: "nat \<Rightarrow> nat \<Rightarrow> bitblock_set \<Rightarrow> nat option \<times> bitblock_set" where
  "acquire_first_available n scan_offset s =
     scan_chunks_for_available n
       (add64 (search_hint s div BITS_PER_WORD div WORDS_PER_SCAN_CHUNK) scan_offset mod NUM_SCAN_CHUNKS n) (scan_single n) s"

text \<open>The erosion: after \<open>k\<close> steps a bit is left when it and the \<open>k\<close> bits before it in the set are free.\<close>

definition erode :: "nat \<Rightarrow> u64 \<Rightarrow> u64" where
  "erode num_bits free_bits = foldl (\<lambda>candidates k. candidates AND drop_bit k free_bits) free_bits [1..<num_bits]"

definition scan_run :: "nat \<Rightarrow> nat \<Rightarrow> word_scan" where
  "scan_run n num_bits word_idx s =
     (let word = bit_words s ! word_idx
      in if word = NOT 0 then (None, s)
         else let candidates = erode num_bits (NOT word)
              in if candidates = 0 then (None, s)
                 else let start_bit_in_word = clzll candidates - (num_bits - 1);
                          bit_index = word_idx * BITS_PER_WORD + start_bit_in_word
                      in if bit_index + num_bits > n then (None, s)
                         else (Some bit_index,
                               advance_search_hint (bit_index + num_bits)
                                 (store_word word_idx (word OR create_bit_mask start_bit_in_word num_bits) s)))"

definition acquire_first_available_contiguous :: "nat \<Rightarrow> nat \<Rightarrow> nat \<Rightarrow> bitblock_set \<Rightarrow> nat option \<times> bitblock_set" where
  "acquire_first_available_contiguous n num_bits scan_offset s =
     (if num_bits = 0 \<or> num_bits > 16 then (None, s)
      else if num_bits = 1 then acquire_first_available n scan_offset s
      else scan_chunks_for_available n
             (search_hint s div BITS_PER_WORD div WORDS_PER_SCAN_CHUNK mod NUM_SCAN_CHUNKS n) (scan_run n num_bits) s)"


section \<open>The set of acquired bits\<close>

definition bit_at :: "bitblock_set \<Rightarrow> nat \<Rightarrow> bool" where
  "bit_at s i \<longleftrightarrow> bit (bit_words s ! (i div 64)) (63 - i mod 64)"

definition acquired :: "nat \<Rightarrow> bitblock_set \<Rightarrow> nat set" where
  "acquired n s = {i. i < n \<and> bit_at s i}"

text \<open>What every operation keeps: the words are there, and the bits past the end are set.\<close>

definition set_ok :: "nat \<Rightarrow> bitblock_set \<Rightarrow> bool" where
  "set_ok n s \<longleftrightarrow> length (bit_words s) = PADDED_NUM_WORDS n \<and>
     (\<forall>i. n \<le> i \<and> i < 64 * PADDED_NUM_WORDS n \<longrightarrow> bit_at s i)"

lemmas geometry = BITS_PER_WORD_def WORDS_PER_SCAN_CHUNK_def NUM_WORDS_def NUM_SCAN_CHUNKS_def
  PADDED_NUM_WORDS_def TAIL_UNUSED_BITS_def

lemma padded_bound: "n \<le> 64 * PADDED_NUM_WORDS n" "NUM_WORDS n \<le> PADDED_NUM_WORDS n"
  "PADDED_NUM_WORDS n \<le> NUM_WORDS n + 1" "n \<le> 64 * NUM_WORDS n"
  unfolding geometry by linarith+

lemma word_index: "i < n \<Longrightarrow> i div 64 < NUM_WORDS n"
  unfolding geometry by linarith

lemma word_eq_msb: "(v :: u64) = w \<longleftrightarrow> (\<forall>j < 64. bit v (63 - j) = bit w (63 - j))"
proof
  assume h: "\<forall>j < 64. bit v (63 - j) = bit w (63 - j)"
  show "v = w"
  proof (rule bit_word_eqI)
    fix m assume "m < LENGTH(64)"
    then have "63 - m < 64" "63 - (63 - m) = m" by auto
    then show "bit v m = bit w m" using h by metis
  qed
qed simp

lemma bit_NOT_word: "j < 64 \<Longrightarrow> bit (NOT (w :: u64)) j \<longleftrightarrow> \<not> bit w j"
  by (simp add: bit_simps)

lemma bit_create_mask:
  assumes "st + k \<le> 64" and "k < 64 \<or> st = 0" and "j < 64"
  shows "bit (create_bit_mask st k) (63 - j) \<longleftrightarrow> st \<le> j \<and> j < st + k"
proof (cases "k = 64")
  case True
  then show ?thesis using assms by (simp add: create_bit_mask_def bit_simps)
next
  case False
  have m: "push_bit k 1 - 1 = (mask k :: u64)" by (simp add: mask_eq_decr_exp push_bit_eq_mult)
  show ?thesis using False assms unfolding create_bit_mask_def Let_def m
    by (auto simp: bit_simps)
qed

lemma bit_single_mask: "j < 64 \<Longrightarrow> p < 64 \<Longrightarrow> bit (push_bit (63 - p) (1 :: u64)) (63 - j) \<longleftrightarrow> j = p"
  by (auto simp: bit_simps)

lemma is_acquired_iff: "is_acquired n s i \<longleftrightarrow> i < n \<and> bit_at s i"
proof -
  have "(bit_words s ! (i div 64) AND push_bit (63 - i mod 64) 1 = 0) \<longleftrightarrow> \<not> bit_at s i"
    unfolding word_eq_msb bit_and_iff bit_at_def
    by (simp add: bit_single_mask del: push_bit_of_1) (auto dest: spec [of _ "i mod 64"])
  then show ?thesis by (auto simp: is_acquired_def BITS_PER_WORD_def)
qed

lemma bit_at_store:
  assumes "w < length (bit_words s)"
  shows "bit_at (store_word w v s) i \<longleftrightarrow> (if i div 64 = w then bit v (63 - i mod 64) else bit_at s i)"
  using assms by (simp add: bit_at_def store_word_def)

lemma store_word_fields [simp]:
  "length (bit_words (store_word w v s)) = length (bit_words s)"
  "search_hint (store_word w v s) = search_hint s"
  "w < length (bit_words s) \<Longrightarrow> bit_words (store_word w v s) ! w = v"
  "w \<noteq> u \<Longrightarrow> bit_words (store_word w v s) ! u = bit_words s ! u"
  by (simp_all add: store_word_def)

lemma store_word_same: "bit_words s ! w = v \<Longrightarrow> store_word w v s = s"
  by (auto simp: store_word_def)

lemma store_word_twice [simp]: "store_word w v (store_word w u s) = store_word w v s"
  by (simp add: store_word_def)

lemma store_word_swap: "w \<noteq> x \<Longrightarrow> store_word w v (store_word x u s) = store_word x u (store_word w v s)"
  by (simp add: store_word_def list_update_swap)

lemma set_ok_acquired:
  assumes "set_ok n s" and "length (bit_words t) = length (bit_words s)"
    and "\<And>i. i < 64 * PADDED_NUM_WORDS n \<Longrightarrow> bit_at t i \<longleftrightarrow> bit_at s i \<or> i \<in> A" and "A \<subseteq> {..<n}"
  shows "set_ok n t" and "acquired n t = acquired n s \<union> A"
proof -
  show "set_ok n t" using assms by (auto simp: set_ok_def)
  have "i < n \<Longrightarrow> i < 64 * PADDED_NUM_WORDS n" for i using padded_bound(1) [of n] by simp
  then show "acquired n t = acquired n s \<union> A" using assms(3,4) by (auto simp: acquired_def)
qed

lemma set_ok_released:
  assumes "set_ok n s" and "length (bit_words t) = length (bit_words s)"
    and "\<And>i. i < 64 * PADDED_NUM_WORDS n \<Longrightarrow> bit_at t i \<longleftrightarrow> bit_at s i \<and> i \<notin> A" and "A \<subseteq> {..<n}"
  shows "set_ok n t" and "acquired n t = acquired n s - A"
proof -
  show "set_ok n t" using assms by (auto simp: set_ok_def)
  have "i < n \<Longrightarrow> i < 64 * PADDED_NUM_WORDS n" for i using padded_bound(1) [of n] by simp
  then show "acquired n t = acquired n s - A" using assms(3,4) by (auto simp: acquired_def)
qed

text \<open>A mask on one word against the bits of the set.\<close>

definition in_word :: "nat \<Rightarrow> nat \<Rightarrow> nat \<Rightarrow> nat set" where
  "in_word w st k = {w * 64 + st..<w * 64 + st + k}"

lemma in_word_iff: "st + k \<le> 64 \<Longrightarrow> i \<in> in_word w st k \<longleftrightarrow> i div 64 = w \<and> st \<le> i mod 64 \<and> i mod 64 < st + k"
proof -
  assume st: "st + k \<le> 64"
  define q r where "q = i div 64" and "r = i mod 64"
  have i: "i = q * 64 + r" and r: "r < 64" by (simp_all add: q_def r_def)
  show ?thesis unfolding q_def [symmetric] r_def [symmetric] unfolding i in_word_def atLeastLessThan_iff
  proof (cases q w rule: linorder_cases)
    case less
    then have "q * 64 + 64 \<le> w * 64" by simp
    then show "(w * 64 + st \<le> q * 64 + r \<and> q * 64 + r < w * 64 + st + k) \<longleftrightarrow> q = w \<and> st \<le> r \<and> r < st + k"
      using less r by simp
  next
    case greater
    then have "w * 64 + 64 \<le> q * 64" by simp
    then show "(w * 64 + st \<le> q * 64 + r \<and> q * 64 + r < w * 64 + st + k) \<longleftrightarrow> q = w \<and> st \<le> r \<and> r < st + k"
      using greater st by simp
  qed auto
qed

lemma in_word_ex: "(\<forall>j < 64. P j (w * 64 + j)) \<longleftrightarrow> (\<forall>i. i div 64 = w \<longrightarrow> P (i mod 64) i)" for w :: nat
proof
  assume h: "\<forall>i. i div 64 = w \<longrightarrow> P (i mod 64) i"
  show "\<forall>j < 64. P j (w * 64 + j)"
  proof (intro allI impI)
    fix j :: nat assume j: "j < 64"
    then have "(w * 64 + j) div 64 = w" "(w * 64 + j) mod 64 = j" by simp_all
    then show "P j (w * 64 + j)" using h by metis
  qed
next
  assume h: "\<forall>j < 64. P j (w * 64 + j)"
  show "\<forall>i. i div 64 = w \<longrightarrow> P (i mod 64) i"
  proof (intro allI impI)
    fix i :: nat assume "i div 64 = w"
    then have "w * 64 + i mod 64 = i" by (metis div_mult_mod_eq)
    then show "P (i mod 64) i" using h mod_less_divisor [of 64 i] by (metis zero_less_numeral)
  qed
qed

lemma bit_at_word: "j < 64 \<Longrightarrow> bit_at s (w * 64 + j) \<longleftrightarrow> bit (bit_words s ! w) (63 - j)"
  by (simp add: bit_at_def)

lemma word_and_mask_zero:
  assumes st: "st + k \<le> 64" "k < 64 \<or> st = 0"
  shows "bit_words s ! w AND create_bit_mask st k = 0 \<longleftrightarrow> (\<forall>i\<in>in_word w st k. \<not> bit_at s i)"
proof -
  have "bit_words s ! w AND create_bit_mask st k = 0 \<longleftrightarrow>
      (\<forall>j < 64. \<not> (bit_at s (w * 64 + j) \<and> st \<le> j \<and> j < st + k))"
    using st by (simp add: word_eq_msb bit_and_iff bit_create_mask bit_at_word)
  also have "\<dots> \<longleftrightarrow> (\<forall>i. i div 64 = w \<longrightarrow> \<not> (bit_at s i \<and> st \<le> i mod 64 \<and> i mod 64 < st + k))"
    by (rule in_word_ex)
  finally show ?thesis using st(1) by (auto simp: in_word_iff)
qed

lemma word_and_mask_full:
  assumes st: "st + k \<le> 64" "k < 64 \<or> st = 0"
  shows "bit_words s ! w AND create_bit_mask st k = create_bit_mask st k \<longleftrightarrow> (\<forall>i\<in>in_word w st k. bit_at s i)"
proof -
  have "bit_words s ! w AND create_bit_mask st k = create_bit_mask st k \<longleftrightarrow>
      (\<forall>j < 64. st \<le> j \<and> j < st + k \<longrightarrow> bit_at s (w * 64 + j))"
    using st by (auto simp: word_eq_msb bit_and_iff bit_create_mask bit_at_word)
  also have "\<dots> \<longleftrightarrow> (\<forall>i. i div 64 = w \<longrightarrow> (st \<le> i mod 64 \<and> i mod 64 < st + k \<longrightarrow> bit_at s i))"
    by (rule in_word_ex)
  finally show ?thesis using st(1) by (auto simp: in_word_iff)
qed

lemma bit_at_or_mask:
  assumes "st + k \<le> 64" "k < 64 \<or> st = 0" and "w < length (bit_words s)"
  shows "bit_at (store_word w (bit_words s ! w OR create_bit_mask st k) s) i \<longleftrightarrow> bit_at s i \<or> i \<in> in_word w st k"
proof -
  have "i mod 64 < 64" by simp
  from bit_create_mask [OF assms(1,2) this] show ?thesis
    by (simp only: bit_at_store [OF assms(3)] in_word_iff [OF assms(1)] bit_or_iff) (auto simp: bit_at_def)
qed

lemma bit_at_and_mask:
  assumes "st + k \<le> 64" "k < 64 \<or> st = 0" and "w < length (bit_words s)"
  shows "bit_at (store_word w (bit_words s ! w AND NOT (create_bit_mask st k)) s) i \<longleftrightarrow> bit_at s i \<and> i \<notin> in_word w st k"
proof -
  have "i mod 64 < 64" by simp
  from bit_create_mask [OF assms(1,2) this] show ?thesis
    by (simp only: bit_at_store [OF assms(3)] in_word_iff [OF assms(1)] bit_and_iff) (auto simp: bit_at_def bit_NOT_word)
qed

text \<open>Two sets with the same bits and the same hint are equal.\<close>

lemma bitblock_set_ext:
  assumes "length (bit_words t) = length (bit_words s)" and "search_hint t = search_hint s"
    and "\<And>i. bit_at t i \<longleftrightarrow> bit_at s i"
  shows "t = s"
proof -
  have "bit_words t ! w = bit_words s ! w" for w
    using assms(3) unfolding word_eq_msb by (simp flip: bit_at_word)
  then have "bit_words t = bit_words s" using assms(1) by (simp add: nth_equalityI)
  then show ?thesis using assms(2) by simp
qed

section \<open>Acquiring and releasing named runs\<close>

lemma in_range_bit_at:
  assumes "A \<subseteq> {..<n}"
  shows "A \<inter> acquired n s = {} \<longleftrightarrow> (\<forall>i\<in>A. \<not> bit_at s i)" and "A \<subseteq> acquired n s \<longleftrightarrow> (\<forall>i\<in>A. bit_at s i)"
  using assms by (auto simp: acquired_def)

lemma acquire_single_word_spec:
  assumes ok: "set_ok n s" and w: "w < NUM_WORDS n" and k: "st + k \<le> 64" "1 \<le> k" "k \<le> 16"
    and sub: "in_word w st k \<subseteq> {..<n}" and call: "acquire_single_word w st k s = (r, t)"
  shows "if in_word w st k \<inter> acquired n s = {}
    then r = success \<and> set_ok n t \<and> acquired n t = acquired n s \<union> in_word w st k
    else r = failed_bit_already_acquired \<and> t = s"
proof -
  have wl: "w < length (bit_words s)" using ok w padded_bound(2) [of n] by (simp add: set_ok_def)
  have k': "k < 64 \<or> st = 0" using k(3) by simp
  note m = word_and_mask_zero [OF k(1) k', of s w] and b = bit_at_or_mask [OF k(1) k' wl]
  let ?t = "store_word w (bit_words s ! w OR create_bit_mask st k) s"
  have yes: "set_ok n ?t" "acquired n ?t = acquired n s \<union> in_word w st k"
    by (rule set_ok_acquired [OF ok _ b sub]; simp)+
  show ?thesis
  proof (cases "in_word w st k \<inter> acquired n s = {}")
    case True
    then show ?thesis using call m yes by (auto simp: acquire_single_word_def Let_def in_range_bit_at [OF sub] split: if_splits)
  next
    case False
    have "?t = s" if "k = 1"
    proof (rule bitblock_set_ext)
      show "bit_at ?t i \<longleftrightarrow> bit_at s i" for i
        using False that sub unfolding b by (auto simp: acquired_def in_word_def)
    qed simp_all
    then show ?thesis using False call m
      by (auto simp: acquire_single_word_def Let_def in_range_bit_at [OF sub] split: if_splits)
  qed
qed

lemma release_single_word_spec:
  assumes ok: "set_ok n s" and w: "w < NUM_WORDS n" and k: "st + k \<le> 64" "1 \<le> k" "k \<le> 16"
    and sub: "in_word w st k \<subseteq> {..<n}" and call: "release_single_word w st k s = (r, t)"
  shows "if in_word w st k \<subseteq> acquired n s
    then r = success \<and> set_ok n t \<and> acquired n t = acquired n s - in_word w st k
    else r = failed_bit_already_released \<and> t = s"
proof -
  have wl: "w < length (bit_words s)" using ok w padded_bound(2) [of n] by (simp add: set_ok_def)
  have k': "k < 64 \<or> st = 0" using k(3) by simp
  note m = word_and_mask_full [OF k(1) k', of s w] and b = bit_at_and_mask [OF k(1) k' wl]
  let ?t = "store_word w (bit_words s ! w AND NOT (create_bit_mask st k)) s"
  have yes: "set_ok n ?t" "acquired n ?t = acquired n s - in_word w st k"
    by (rule set_ok_released [OF ok _ b sub]; simp)+
  show ?thesis
  proof (cases "in_word w st k \<subseteq> acquired n s")
    case True
    then show ?thesis using call m yes by (auto simp: release_single_word_def Let_def in_range_bit_at [OF sub] split: if_splits)
  next
    case False
    have "?t = s" if "k = 1"
    proof (rule bitblock_set_ext)
      show "bit_at ?t i \<longleftrightarrow> bit_at s i" for i
        using False that sub unfolding b by (auto simp: acquired_def in_word_def)
    qed simp_all
    then show ?thesis using False call m
      by (auto simp: release_single_word_def Let_def in_range_bit_at [OF sub] split: if_splits)
  qed
qed

text \<open>A run over a word boundary: its first word's part and its last word's part.\<close>

lemma two_words:
  assumes "a div 64 \<noteq> (a + k - 1) div 64" and "1 \<le> k" and "k \<le> 16" and "a + k \<le> n"
  defines "st \<equiv> a mod 64" and "w \<equiv> a div 64"
  shows "(a + k - 1) div 64 = w + 1" and "64 - st < k" and "1 \<le> 64 - st" and "64 - st < 64" and "w + 1 < NUM_WORDS n"
    and "in_word w st (64 - st) \<union> in_word (w + 1) 0 (k - (64 - st)) = {a..<a + k}"
    and "in_word w st (64 - st) \<subseteq> {..<n}" and "in_word (w + 1) 0 (k - (64 - st)) \<subseteq> {..<n}"
    and "in_word w st (64 - st) \<inter> in_word (w + 1) 0 (k - (64 - st)) = {}"
proof -
  have a: "a = w * 64 + st" and st: "st < 64" by (simp_all add: st_def w_def)
  have far: "64 \<le> st + k - 1"
  proof (rule ccontr)
    assume "\<not> 64 \<le> st + k - 1"
    then have "(w * 64 + (st + k - 1)) div 64 = w" by simp
    then have "(a + k - 1) div 64 = w" using a assms(2) by simp
    then show False using assms(1) w_def by simp
  qed
  show e: "(a + k - 1) div 64 = w + 1"
  proof -
    have "a + k - 1 = (w + 1) * 64 + (st + k - 1 - 64)" and "st + k - 1 - 64 < 64" using a far st assms(3) by simp_all
    then show ?thesis by (simp only:) simp
  qed
  show l: "64 - st < k" "1 \<le> 64 - st" "64 - st < 64" using far st assms(3) by linarith+
  show "w + 1 < NUM_WORDS n" using word_index [of "a + k - 1" n] assms(2,4) e by simp
  show u: "in_word w st (64 - st) \<union> in_word (w + 1) 0 (k - (64 - st)) = {a..<a + k}"
    using l st a by (auto simp: in_word_def)
  show "in_word w st (64 - st) \<subseteq> {..<n}" "in_word (w + 1) 0 (k - (64 - st)) \<subseteq> {..<n}"
    using a st l assms(4) by (auto simp: in_word_def)
  show "in_word w st (64 - st) \<inter> in_word (w + 1) 0 (k - (64 - st)) = {}"
    using st by (auto simp: in_word_def)
qed

lemma or_mask_undo:
  "(old OR m) AND NOT (m AND NOT old) = (old :: u64)"
  by (rule bit_word_eqI) (auto simp: bit_simps)

lemma or_mask_unset: "m AND NOT old = 0 \<Longrightarrow> old OR m = (old :: u64)"
  by (rule bit_word_eqI) (auto simp: bit_eq_iff bit_simps)

lemma or_mask_clear: "old AND m = 0 \<Longrightarrow> (old OR m) AND NOT m = (old :: u64)"
  by (rule bit_word_eqI) (auto simp: bit_eq_iff bit_simps)

lemma and_mask_undo: "(old AND NOT m) OR (old AND m) = (old :: u64)"
  by (rule bit_word_eqI) (auto simp: bit_simps)

lemma and_mask_restore: "old AND m = m \<Longrightarrow> (old AND NOT m) OR m = (old :: u64)"
  by (rule bit_word_eqI) (auto simp: bit_eq_iff bit_simps)

lemma acquire_multi_word_spec:
  assumes ok: "set_ok n s" and range: "1 \<le> k" "k \<le> 16" "a + k \<le> n" and cross: "a div 64 \<noteq> (a + k - 1) div 64"
    and call: "acquire_multi_word a k (a div 64) ((a + k - 1) div 64) s = (r, t)"
  shows "if {a..<a + k} \<inter> acquired n s = {}
    then r = success \<and> set_ok n t \<and> acquired n t = acquired n s \<union> {a..<a + k}
    else r \<in> {failed_bit_already_acquired_first_word, failed_bit_already_acquired_last_word} \<and> t = s"
proof -
  define w st where "w = a div 64" and "st = a mod 64"
  let ?l = "k - (64 - st)"
  let ?A = "in_word w st (64 - st)" and ?B = "in_word (w + 1) 0 ?l"
  let ?m = "create_bit_mask st (64 - st)" and ?q = "create_bit_mask 0 ?l"
  note T = two_words [OF cross range, folded w_def st_def]
  have len: "w < length (bit_words s)" "w + 1 < length (bit_words s)"
    using ok T(5) padded_bound(2) [of n] by (simp_all add: set_ok_def)
  have st: "st + (64 - st) \<le> 64" "64 - st < 64 \<or> st = 0" "0 + ?l \<le> 64" "?l < 64 \<or> (0::nat) = 0"
    using T(2-4) range by simp_all
  let ?s1 = "store_word w (bit_words s ! w OR ?m) s"
  let ?s2 = "store_word (w + 1) (bit_words ?s1 ! (w + 1) OR ?q) ?s1"
  have b1: "bit_at ?s1 i \<longleftrightarrow> bit_at s i \<or> i \<in> ?A" for i by (rule bit_at_or_mask [OF st(1,2) len(1)])
  have b2: "bit_at ?s2 i \<longleftrightarrow> bit_at s i \<or> i \<in> {a..<a + k}" for i
    using bit_at_or_mask [OF st(3,4), of "w + 1" ?s1 i] len b1 T(6) by auto
  have first: "bit_words s ! w AND ?m = 0 \<longleftrightarrow> ?A \<inter> acquired n s = {}"
    using word_and_mask_zero [OF st(1,2)] in_range_bit_at(1) [OF T(7)] by simp
  have last: "bit_words s ! (w + 1) AND ?q = 0 \<longleftrightarrow> ?B \<inter> acquired n s = {}"
    using word_and_mask_zero [OF st(3,4)] in_range_bit_at(1) [OF T(8)] by simp
  have sub: "{a..<a + k} \<subseteq> {..<n}" using range(3) by auto
  have split: "{a..<a + k} \<inter> acquired n s = {} \<longleftrightarrow> ?A \<inter> acquired n s = {} \<and> ?B \<inter> acquired n s = {}"
    unfolding T(6) [symmetric] by auto
  have same: "store_word x (bit_words s ! x) s = s" for x by (rule store_word_same) simp
  show ?thesis
  proof (cases "bit_words s ! w AND ?m = 0")
    case False
    then have "r = failed_bit_already_acquired_first_word \<and> t = s" using call len or_mask_undo [of "bit_words s ! w" ?m]
        or_mask_unset [of ?m "bit_words s ! w"]
      unfolding acquire_multi_word_def w_def [symmetric] st_def [symmetric] T(1) Let_def BITS_PER_WORD_def
      by (auto simp: same split: if_splits)
    then show ?thesis using False first split by auto
  next
    case f: True
    show ?thesis
    proof (cases "bit_words s ! (w + 1) AND ?q = 0")
      case False
      then have "r = failed_bit_already_acquired_last_word \<and> t = s"
        using call len f or_mask_undo [of "bit_words s ! (w + 1)" ?q] or_mask_clear [OF f]
          or_mask_unset [of ?q "bit_words s ! (w + 1)"] store_word_swap [of w "w + 1"]
        unfolding acquire_multi_word_def w_def [symmetric] st_def [symmetric] T(1) Let_def BITS_PER_WORD_def
        by (auto simp: same split: if_splits)
      then show ?thesis using False last split by auto
    next
      case True
      then have "r = success \<and> t = ?s2" using call len f
        unfolding acquire_multi_word_def w_def [symmetric] st_def [symmetric] T(1) Let_def BITS_PER_WORD_def
        by (auto split: if_splits)
      moreover have "set_ok n ?s2" "acquired n ?s2 = acquired n s \<union> {a..<a + k}"
        by (rule set_ok_acquired [OF ok _ b2 sub]; simp)+
      ultimately show ?thesis using f True first last split by simp
    qed
  qed
qed

lemma release_multi_word_spec:
  assumes ok: "set_ok n s" and range: "1 \<le> k" "k \<le> 16" "a + k \<le> n" and cross: "a div 64 \<noteq> (a + k - 1) div 64"
    and call: "release_multi_word a k (a div 64) ((a + k - 1) div 64) s = (r, t)"
  shows "if {a..<a + k} \<subseteq> acquired n s
    then r = success \<and> set_ok n t \<and> acquired n t = acquired n s - {a..<a + k}
    else r \<in> {failed_bit_already_released_first_word, failed_bit_already_released_last_word} \<and> t = s"
proof -
  define w st where "w = a div 64" and "st = a mod 64"
  let ?l = "k - (64 - st)"
  let ?A = "in_word w st (64 - st)" and ?B = "in_word (w + 1) 0 ?l"
  let ?m = "create_bit_mask st (64 - st)" and ?q = "create_bit_mask 0 ?l"
  note T = two_words [OF cross range, folded w_def st_def]
  have len: "w < length (bit_words s)" "w + 1 < length (bit_words s)"
    using ok T(5) padded_bound(2) [of n] by (simp_all add: set_ok_def)
  have st: "st + (64 - st) \<le> 64" "64 - st < 64 \<or> st = 0" "0 + ?l \<le> 64" "?l < 64 \<or> (0::nat) = 0"
    using T(2-4) range by simp_all
  let ?s1 = "store_word w (bit_words s ! w AND NOT ?m) s"
  let ?s2 = "store_word (w + 1) (bit_words ?s1 ! (w + 1) AND NOT ?q) ?s1"
  have b1: "bit_at ?s1 i \<longleftrightarrow> bit_at s i \<and> i \<notin> ?A" for i by (rule bit_at_and_mask [OF st(1,2) len(1)])
  have b2: "bit_at ?s2 i \<longleftrightarrow> bit_at s i \<and> i \<notin> {a..<a + k}" for i
    using bit_at_and_mask [OF st(3,4), of "w + 1" ?s1 i] len b1 T(6) by auto
  have first: "bit_words s ! w AND ?m = ?m \<longleftrightarrow> ?A \<subseteq> acquired n s"
    using word_and_mask_full [OF st(1,2)] in_range_bit_at(2) [OF T(7)] by simp
  have last: "bit_words s ! (w + 1) AND ?q = ?q \<longleftrightarrow> ?B \<subseteq> acquired n s"
    using word_and_mask_full [OF st(3,4)] in_range_bit_at(2) [OF T(8)] by simp
  have sub: "{a..<a + k} \<subseteq> {..<n}" using range(3) by auto
  have split: "{a..<a + k} \<subseteq> acquired n s \<longleftrightarrow> ?A \<subseteq> acquired n s \<and> ?B \<subseteq> acquired n s"
    unfolding T(6) [symmetric] by auto
  have same: "store_word x (bit_words s ! x) s = s" for x by (rule store_word_same) simp
  show ?thesis
  proof (cases "bit_words s ! w AND ?m = ?m")
    case False
    then have "r = failed_bit_already_released_first_word \<and> t = s" using call
      unfolding release_multi_word_def w_def [symmetric] st_def [symmetric] T(1) Let_def BITS_PER_WORD_def
      by auto
    then show ?thesis using False first split by auto
  next
    case f: True
    show ?thesis
    proof (cases "bit_words s ! (w + 1) AND ?q = ?q")
      case False
      then have "r = failed_bit_already_released_last_word \<and> t = s"
        using call len f and_mask_undo [of "bit_words s ! (w + 1)" ?q] and_mask_restore [OF f] store_word_swap [of w "w + 1"]
        unfolding release_multi_word_def w_def [symmetric] st_def [symmetric] T(1) Let_def BITS_PER_WORD_def
        by (auto simp: same split: if_splits)
      then show ?thesis using False last split by auto
    next
      case True
      then have "r = success \<and> t = ?s2" using call len f
        unfolding release_multi_word_def w_def [symmetric] st_def [symmetric] T(1) Let_def BITS_PER_WORD_def
        by (auto split: if_splits)
      moreover have "set_ok n ?s2" "acquired n ?s2 = acquired n s - {a..<a + k}"
        by (rule set_ok_released [OF ok _ b2 sub]; simp)+
      ultimately show ?thesis using f True first last split by simp
    qed
  qed
qed

lemma one_word:
  assumes "a div 64 = (a + k - 1) div 64" and "1 \<le> k" and "a + k \<le> n"
  shows "in_word (a div 64) (a mod 64) k = {a..<a + k}" and "a mod 64 + k \<le> 64" and "a div 64 < NUM_WORDS n"
proof -
  show "in_word (a div 64) (a mod 64) k = {a..<a + k}" by (simp add: in_word_def)
  have "a + k - 1 = a div 64 * 64 + (a + k - 1) mod 64" using assms(1) by (metis div_mult_mod_eq)
  moreover have "a = a div 64 * 64 + a mod 64" "(a + k - 1) mod 64 < 64" by simp_all
  ultimately show "a mod 64 + k \<le> 64" using assms(2) by linarith
  show "a div 64 < NUM_WORDS n" using assms by (intro word_index) simp
qed

lemma validate_success: "validate_request n a k = success \<longleftrightarrow> 1 \<le> k \<and> k \<le> 16 \<and> a + k \<le> n"
  by (auto simp: validate_request_def)

lemma set_ok_hint [simp]: "set_ok n (s\<lparr>search_hint := h\<rparr>) = set_ok n s" "acquired n (s\<lparr>search_hint := h\<rparr>) = acquired n s"
  by (simp_all add: set_ok_def acquired_def bit_at_def)

lemma acquire_spec:
  assumes "set_ok n s" and "bits_acquire n a k s = (r, t)"
  shows "if validate_request n a k = success \<and> {a..<a + k} \<inter> acquired n s = {}
    then r = success \<and> set_ok n t \<and> acquired n t = acquired n s \<union> {a..<a + k}
    else r \<noteq> success \<and> t = s"
proof (cases "validate_request n a k = success")
  case True
  then have range: "1 \<le> k" "k \<le> 16" "a + k \<le> n" by (simp_all add: validate_success)
  show ?thesis
  proof (cases "a div 64 = (a + k - 1) div 64")
    case one: True
    note O = one_word [OF one range(1,3)]
    have sub: "in_word (a div 64) (a mod 64) k \<subseteq> {..<n}" using range(3) unfolding O(1) by auto
    have "acquire_single_word (a div 64) (a mod 64) k s = (r, t)"
      using assms(2) True one by (simp add: bits_acquire_def BITS_PER_WORD_def)
    from acquire_single_word_spec [OF assms(1) O(3,2) range(1,2) sub this] show ?thesis
      using True by (auto simp: O(1) split: if_splits)
  next
    case False
    then have "acquire_multi_word a k (a div 64) ((a + k - 1) div 64) s = (r, t)"
      using assms(2) True by (simp add: bits_acquire_def BITS_PER_WORD_def Let_def)
    from acquire_multi_word_spec [OF assms(1) range False this] show ?thesis
      using True by (auto split: if_splits)
  qed
qed (use assms in \<open>auto simp: bits_acquire_def\<close>)

lemma release_spec:
  assumes "set_ok n s" and "bits_release n a k s = (r, t)"
  shows "if validate_request n a k = success \<and> {a..<a + k} \<subseteq> acquired n s
    then r = success \<and> set_ok n t \<and> acquired n t = acquired n s - {a..<a + k}
    else r \<noteq> success \<and> (t = s \<or> t = s\<lparr>search_hint := a\<rparr>)"
proof (cases "validate_request n a k = success")
  case True
  then have range: "1 \<le> k" "k \<le> 16" "a + k \<le> n" by (simp_all add: validate_success)
  let ?s = "s\<lparr>search_hint := a\<rparr>"
  have ok: "set_ok n ?s" using assms(1) by simp
  show ?thesis
  proof (cases "a div 64 = (a + k - 1) div 64")
    case one: True
    note O = one_word [OF one range(1,3)]
    have sub: "in_word (a div 64) (a mod 64) k \<subseteq> {..<n}" using range(3) unfolding O(1) by auto
    have "release_single_word (a div 64) (a mod 64) k ?s = (r, t)"
      using assms(2) True one by (simp add: bits_release_def BITS_PER_WORD_def)
    from release_single_word_spec [OF ok O(3,2) range(1,2) sub this] show ?thesis
      using True by (auto simp: O(1) split: if_splits)
  next
    case False
    then have "release_multi_word a k (a div 64) ((a + k - 1) div 64) ?s = (r, t)"
      using assms(2) True by (simp add: bits_release_def BITS_PER_WORD_def Let_def)
    from release_multi_word_spec [OF ok range False this] show ?thesis
      using True by (auto split: if_splits)
  qed
qed (use assms in \<open>auto simp: bits_release_def\<close>)

section \<open>A fresh set and the count\<close>

lemma empty_bits:
  assumes "i < 64 * PADDED_NUM_WORDS n"
  shows "bit_at (empty_bitblock_set n) i \<longleftrightarrow> n \<le> i"
proof -
  let ?W = "NUM_WORDS n" and ?P = "PADDED_NUM_WORDS n"
  define w j where "w = i div 64" and "j = i mod 64"
  have i: "i = w * 64 + j" "j < 64" by (simp_all add: w_def j_def)
  have wP: "w < ?P" using assms by (simp add: w_def less_mult_imp_div_less mult.commute)
  have t: "?W * 64 = n + TAIL_UNUSED_BITS n" "TAIL_UNUSED_BITS n < 64"
    unfolding geometry by linarith+
  have m: "push_bit (TAIL_UNUSED_BITS n) 1 - 1 = (mask (TAIL_UNUSED_BITS n) :: u64)"
    by (simp add: mask_eq_decr_exp push_bit_eq_mult)
  have P: "?W \<le> ?P" "?P \<le> ?W + 1" using padded_bound [of n] by simp_all
  consider "w = ?W" "?W < ?P" | "w + 1 = ?W" | "w + 1 < ?W" using wP P by linarith
  then show ?thesis
  proof cases
    case 1
    then have "n \<le> i" using i t by simp
    then show ?thesis using 1 i
      by (simp add: bit_at_def empty_bitblock_set_def Let_def flip: w_def j_def)
  next
    case 2
    then have "n \<le> i \<longleftrightarrow> 64 - TAIL_UNUSED_BITS n \<le> j" using i t by arith
    moreover have "63 - j < TAIL_UNUSED_BITS n \<longleftrightarrow> 64 - TAIL_UNUSED_BITS n \<le> j" using i t by arith
    moreover have "w = ?W - 1" "?W - 1 < ?P" "w \<noteq> ?W" using 2 P by auto
    ultimately show ?thesis using i
      by (simp add: bit_at_def empty_bitblock_set_def Let_def m bit_mask_iff less_imp_diff_less del: push_bit_of_1 flip: w_def j_def)
  next
    case 3
    then have "\<not> n \<le> i" using i t by arith
    moreover have "w \<noteq> ?W - 1" "w \<noteq> ?W" using 3 by auto
    ultimately show ?thesis using wP
      by (simp add: bit_at_def empty_bitblock_set_def Let_def flip: w_def j_def)
  qed
qed

lemma empty_set_ok: "set_ok n (empty_bitblock_set n)" "acquired n (empty_bitblock_set n) = {}"
proof -
  have "length (bit_words (empty_bitblock_set n)) = PADDED_NUM_WORDS n"
    by (simp add: empty_bitblock_set_def Let_def)
  then show "set_ok n (empty_bitblock_set n)" by (simp add: set_ok_def empty_bits)
  show "acquired n (empty_bitblock_set n) = {}" using padded_bound(1) [of n] by (auto simp: acquired_def empty_bits)
qed

lemma popcountll_card: "popcountll w = card {j. j < 64 \<and> bit w (63 - j)}"
proof -
  have "popcountll w = card (set (filter (bit w) [0..<64]))"
    unfolding popcountll_def by (rule distinct_card [symmetric]) simp
  also have "set (filter (bit w) [0..<64]) = (\<lambda>j. 63 - j) ` {j. j < 64 \<and> bit w (63 - j)}"
  proof (intro set_eqI iffI)
    fix x assume "x \<in> set (filter (bit w) [0..<64])"
    then have "x = 63 - (63 - x)" "63 - x < 64" "bit w (63 - (63 - x))" by auto
    then show "x \<in> (\<lambda>j. 63 - j) ` {j. j < 64 \<and> bit w (63 - j)}" by blast
  qed auto
  also have "card \<dots> = card {j. j < 64 \<and> bit w (63 - j)}"
    by (rule card_image) (auto simp: inj_on_def)
  finally show ?thesis .
qed

lemma sum_popcounts:
  "sum_list (map popcountll (take m (bit_words s))) = card {i. i < m * 64 \<and> bit_at s i}" if "m \<le> length (bit_words s)"
  using that
proof (induction m)
  case (Suc m)
  let ?A = "{i. i < m * 64 \<and> bit_at s i}" and ?B = "(\<lambda>j. m * 64 + j) ` {j. j < 64 \<and> bit (bit_words s ! m) (63 - j)}"
  have "{i. i < Suc m * 64 \<and> bit_at s i} = ?A \<union> ?B"
  proof (intro set_eqI iffI)
    fix i assume i: "i \<in> {i. i < Suc m * 64 \<and> bit_at s i}"
    show "i \<in> ?A \<union> ?B"
    proof (cases "i < m * 64")
      case False
      then have "i = m * 64 + (i - m * 64)" "i - m * 64 < 64" using i by auto
      then show ?thesis using i bit_at_word [of "i - m * 64" s m] by (intro UnI2 image_eqI [of _ _ "i - m * 64"]) auto
    qed (use i in simp)
  qed (auto simp: bit_at_word)
  moreover have "card (?A \<union> ?B) = card ?A + card ?B" by (rule card_Un_disjoint) auto
  moreover have "card ?B = popcountll (bit_words s ! m)"
    unfolding popcountll_card by (rule card_image) (auto simp: inj_on_def)
  ultimately show ?case using Suc by (simp add: take_Suc_conv_app_nth)
qed simp

lemma total_bits_set_card: "set_ok n s \<Longrightarrow> total_bits_set n s = card (acquired n s)"
proof -
  assume ok: "set_ok n s"
  have W: "NUM_WORDS n * 64 = n + TAIL_UNUSED_BITS n" unfolding geometry by linarith
  have "{i. i < NUM_WORDS n * 64 \<and> bit_at s i} = acquired n s \<union> {n..<n + TAIL_UNUSED_BITS n}"
    using ok padded_bound(2) [of n] W by (auto simp: set_ok_def acquired_def)
  moreover have "card (acquired n s \<union> {n..<n + TAIL_UNUSED_BITS n}) = card (acquired n s) + TAIL_UNUSED_BITS n"
    by (subst card_Un_disjoint) (auto simp: acquired_def)
  ultimately show ?thesis using sum_popcounts [of "NUM_WORDS n" s] ok padded_bound(2) [of n]
    by (simp add: total_bits_set_def set_ok_def Let_def)
qed

section \<open>Searching\<close>

lemma clzll:
  assumes "w \<noteq> 0"
  shows "clzll w < 64" and "bit w (63 - clzll w)" and "\<And>j. j < clzll w \<Longrightarrow> \<not> bit w (63 - j)"
proof -
  let ?P = "\<lambda>i. \<not> bit w (63 - i)"
  obtain j where j: "j < 64" "bit w (63 - j)" using assms word_eq_msb [of w 0] by auto
  have "length (takeWhile ?P [0..<64]) \<noteq> length [0..<64 :: nat]"
  proof
    assume "length (takeWhile ?P [0..<64]) = length [0..<64 :: nat]"
    then have "takeWhile ?P [0..<64] = [0..<64]" by (metis takeWhile_eq_take take_all order_refl)
    then show False using j set_takeWhileD [of j ?P "[0..<64]"] by simp
  qed
  then have lt: "length (takeWhile ?P [0..<64]) < length [0..<64 :: nat]"
    using length_takeWhile_le [of ?P "[0..<64]"] by linarith
  then show "clzll w < 64" by (simp add: clzll_def)
  show "bit w (63 - clzll w)" using nth_length_takeWhile [OF lt] lt by (simp add: clzll_def)
  show "\<not> bit w (63 - i)" if "i < clzll w" for i
  proof -
    have "takeWhile ?P [0..<64] ! i = [0..<64] ! i" using that by (intro takeWhile_nth) (simp add: clzll_def)
    then show ?thesis using nth_mem [of i "takeWhile ?P [0..<64]"] that lt set_takeWhileD [of i ?P "[0..<64]"]
      by (simp add: clzll_def)
  qed
qed

lemma bit_erode: "bit (erode k f) p \<longleftrightarrow> bit f p \<and> (\<forall>i. i < k \<longrightarrow> bit f (p + i))"
proof (induction k)
  case 0
  then show ?case by (simp add: erode_def)
next
  case (Suc k)
  show ?case
  proof (cases "k = 0")
    case True
    then show ?thesis by (simp add: erode_def)
  next
    case False
    then have "erode (Suc k) f = erode k f AND drop_bit k f" by (simp add: erode_def upt_Suc_append)
    then show ?thesis using Suc by (auto simp: bit_and_iff bit_drop_bit_eq less_Suc_eq add.commute)
  qed
qed

definition free_run :: "nat \<Rightarrow> nat \<Rightarrow> bitblock_set \<Rightarrow> nat \<Rightarrow> bool" where
  "free_run n k s b \<longleftrightarrow> b mod 64 + k \<le> 64 \<and> b + k \<le> n \<and> {b..<b + k} \<inter> acquired n s = {}"

definition grabbed :: "nat \<Rightarrow> nat \<Rightarrow> bitblock_set \<Rightarrow> nat \<Rightarrow> bitblock_set \<Rightarrow> bool" where
  "grabbed n k s b t \<longleftrightarrow> free_run n k s b \<and> set_ok n t \<and> acquired n t = acquired n s \<union> {b..<b + k}"

lemma free_run_word:
  assumes "set_ok n s" and "w < NUM_WORDS n" and "st + k \<le> 64" and "1 \<le> k"
  shows "free_run n k s (w * 64 + st) \<longleftrightarrow> (\<forall>i < k. \<not> bit (bit_words s ! w) (63 - (st + i)))"
proof -
  have st: "st < 64" using assms(3,4) by simp
  have bits: "bit_at s (w * 64 + (st + i)) \<longleftrightarrow> bit (bit_words s ! w) (63 - (st + i))" if "i < k" for i
    using that assms(3) by (intro bit_at_word) simp
  show ?thesis
  proof
    assume f: "free_run n k s (w * 64 + st)"
    show "\<forall>i < k. \<not> bit (bit_words s ! w) (63 - (st + i))"
    proof (intro allI impI)
      fix i assume i: "i < k"
      have "w * 64 + (st + i) \<in> {w * 64 + st..<w * 64 + st + k}" "w * 64 + (st + i) < n"
        using i f by (simp_all add: free_run_def)
      then have "\<not> bit_at s (w * 64 + (st + i))" using f unfolding free_run_def acquired_def by blast
      then show "\<not> bit (bit_words s ! w) (63 - (st + i))" using bits [OF i] by simp
    qed
  next
    assume h: "\<forall>i < k. \<not> bit (bit_words s ! w) (63 - (st + i))"
    have no: "\<not> bit_at s x" if "x \<in> {w * 64 + st..<w * 64 + st + k}" for x
    proof -
      have "x = w * 64 + (st + (x - (w * 64 + st)))" "x - (w * 64 + st) < k" using that by auto
      then show ?thesis using h bits by metis
    qed
    have "w * 64 + st + k \<le> n"
    proof (rule ccontr)
      assume "\<not> w * 64 + st + k \<le> n"
      then have "n \<le> w * 64 + st + k - 1" "w * 64 + st + k - 1 < 64 * PADDED_NUM_WORDS n"
        using assms(2-4) padded_bound(2) [of n] by linarith+
      then have "bit_at s (w * 64 + st + k - 1)" using assms(1) by (simp add: set_ok_def)
      moreover have "w * 64 + st + k - 1 \<in> {w * 64 + st..<w * 64 + st + k}" using assms(4) by auto
      ultimately show False using no by blast
    qed
    then show "free_run n k s (w * 64 + st)" using no assms(3) st by (auto simp: free_run_def acquired_def)
  qed
qed

lemma word_bounds: "b mod 64 + k \<le> 64 \<Longrightarrow> {b..<b + k} = in_word (b div 64) (b mod 64) k"
  by (simp add: in_word_def)

lemma grab_word:
  assumes ok: "set_ok n s" and w: "w < NUM_WORDS n" and st: "st + k \<le> 64" "1 \<le> k" "k < 64"
    and f: "free_run n k s (w * 64 + st)"
  shows "grabbed n k s (w * 64 + st)
    (advance_search_hint h (store_word w (bit_words s ! w OR create_bit_mask st k) s))"
proof -
  have wl: "w < length (bit_words s)" using ok w padded_bound(2) [of n] by (simp add: set_ok_def)
  have k: "k < 64 \<or> st = 0" using st by simp
  have sub: "in_word w st k \<subseteq> {..<n}" using f by (auto simp: free_run_def in_word_def)
  let ?t = "store_word w (bit_words s ! w OR create_bit_mask st k) s"
  have "set_ok n ?t" "acquired n ?t = acquired n s \<union> in_word w st k"
    by (rule set_ok_acquired [OF ok _ bit_at_or_mask [OF st(1) k wl] sub]; simp)+
  then show ?thesis using f by (simp add: grabbed_def advance_search_hint_def in_word_def)
qed

text \<open>What the scan of one word promises.\<close>

definition word_scan_ok :: "nat \<Rightarrow> nat \<Rightarrow> word_scan \<Rightarrow> bool" where
  "word_scan_ok n k scan \<longleftrightarrow> (\<forall>w s. set_ok n s \<and> w < NUM_WORDS n \<longrightarrow>
     (case scan w s of
        (Some b, t) \<Rightarrow> grabbed n k s b t
      | (None, t) \<Rightarrow> t = s \<and> (\<forall>b. b div 64 = w \<longrightarrow> \<not> free_run n k s b)))"

lemma free_run_parts:
  assumes "set_ok n s" and "w < NUM_WORDS n" and "1 \<le> k" and "b div 64 = w" and "b mod 64 + k \<le> 64"
  shows "free_run n k s b \<longleftrightarrow> (\<forall>i < k. \<not> bit (bit_words s ! w) (63 - (b mod 64 + i)))"
proof -
  have "b = w * 64 + b mod 64" using assms(4) by (metis div_mult_mod_eq)
  then show ?thesis using free_run_word [OF assms(1,2,5,3)] by simp
qed

lemma scan_single_ok: "word_scan_ok n 1 (scan_single n)"
  unfolding word_scan_ok_def
proof (intro allI impI, elim conjE)
  fix w s assume ok: "set_ok n s" and w: "w < NUM_WORDS n"
  let ?x = "bit_words s ! w" and ?p = "clzll (NOT (bit_words s ! w))"
  have parts: "free_run n 1 s b \<longleftrightarrow> \<not> bit ?x (63 - b mod 64)" if "b div 64 = w" for b
    using free_run_parts [OF ok w _ that, of 1] by (simp add: Suc_leI)
  show "case scan_single n w s of (Some b, t) \<Rightarrow> grabbed n 1 s b t
      | (None, t) \<Rightarrow> t = s \<and> (\<forall>b. b div 64 = w \<longrightarrow> \<not> free_run n 1 s b)"
  proof (cases "?x = NOT 0")
    case True
    then show ?thesis using parts by (auto simp: scan_single_def bit_simps)
  next
    case False
    then have nz: "NOT ?x \<noteq> 0" by (metis bit.double_compl)
    note c = clzll [OF nz]
    have st: "?p + 1 \<le> 64" using c(1) by simp
    have "\<not> bit ?x (63 - ?p)" using c(2) by (simp add: bit_simps)
    then have f: "free_run n 1 s (w * 64 + ?p)" using c(1) by (subst parts) simp_all
    have m: "create_bit_mask ?p 1 = push_bit (63 - ?p) 1" using c(1) by (simp add: create_bit_mask_def)
    have "\<not> n \<le> w * 64 + ?p" using f by (simp add: free_run_def)
    moreover have "grabbed n 1 s (w * 64 + ?p) (advance_search_hint (w * 64 + ?p + 1) (store_word w (?x OR push_bit (63 - ?p) 1) s))"
      using grab_word [OF ok w st _ _ f, of "w * 64 + ?p + 1"] unfolding m by simp
    ultimately show ?thesis using False by (simp add: scan_single_def BITS_PER_WORD_def Let_def)
  qed
qed

lemma bit_erode_free:
  assumes "p < 64" and "1 \<le> k"
  shows "bit (erode k (NOT x)) (63 - p) \<longleftrightarrow> k \<le> p + 1 \<and> (\<forall>i < k. \<not> bit (x :: u64) (63 - (p + 1 - k + i)))"
proof -
  have "bit (erode k (NOT x)) (63 - p) \<longleftrightarrow> (\<forall>i < k. bit (NOT x) (63 - p + i))"
    unfolding bit_erode using assms(2) by (auto dest: spec [of _ 0])
  also have "\<dots> \<longleftrightarrow> k \<le> p + 1 \<and> (\<forall>i < k. \<not> bit x (63 - p + i))"
  proof
    assume h: "\<forall>i < k. bit (NOT x) (63 - p + i)"
    have "k - 1 < k" using assms(2) by simp
    then have "bit (NOT x) (63 - p + (k - 1))" using h by blast
    then have "63 - p + (k - 1) < 64" by (auto dest: bit_imp_le_length)
    then have "k \<le> p + 1" using assms by simp
    then show "k \<le> p + 1 \<and> (\<forall>i < k. \<not> bit x (63 - p + i))" using h by (auto simp: bit_simps)
  qed (use assms in \<open>auto simp: bit_simps\<close>)
  also have "\<dots> \<longleftrightarrow> k \<le> p + 1 \<and> (\<forall>i < k. \<not> bit x (63 - (p + 1 - k + i)))"
  proof -
    have "(\<forall>i < k. \<not> bit x (63 - p + i)) \<longleftrightarrow> (\<forall>i < k. \<not> bit x (63 - (p + 1 - k + i)))" if kp: "k \<le> p + 1"
    proof
      assume h: "\<forall>i < k. \<not> bit x (63 - p + i)"
      show "\<forall>i < k. \<not> bit x (63 - (p + 1 - k + i))"
      proof (intro allI impI)
        fix i assume "i < k"
        then have "63 - (p + 1 - k + i) = 63 - p + (k - 1 - i)" "k - 1 - i < k" using kp assms by auto
        then show "\<not> bit x (63 - (p + 1 - k + i))" using h by (metis (no_types))
      qed
    next
      assume h: "\<forall>i < k. \<not> bit x (63 - (p + 1 - k + i))"
      show "\<forall>i < k. \<not> bit x (63 - p + i)"
      proof (intro allI impI)
        fix i assume "i < k"
        then have "63 - p + i = 63 - (p + 1 - k + (k - 1 - i))" "k - 1 - i < k" using kp assms by auto
        then show "\<not> bit x (63 - p + i)" using h by (metis (no_types))
      qed
    qed
    then show ?thesis by blast
  qed
  finally show ?thesis .
qed

lemma scan_run_ok:
  assumes k: "1 \<le> k" "k \<le> 16"
  shows "word_scan_ok n k (scan_run n k)"
  unfolding word_scan_ok_def
proof (intro allI impI, elim conjE)
  fix w s assume ok: "set_ok n s" and w: "w < NUM_WORDS n"
  let ?x = "bit_words s ! w"
  let ?e = "erode k (NOT (bit_words s ! w))"
  have ends: "free_run n k s b \<longleftrightarrow> bit ?e (63 - (b mod 64 + k - 1))" if "b div 64 = w" "b mod 64 + k \<le> 64" for b
    using free_run_parts [OF ok w k(1) that] bit_erode_free [of "b mod 64 + k - 1" k ?x] that(2) k by simp
  show "case scan_run n k w s of (Some b, t) \<Rightarrow> grabbed n k s b t
      | (None, t) \<Rightarrow> t = s \<and> (\<forall>b. b div 64 = w \<longrightarrow> \<not> free_run n k s b)"
  proof (cases "?e = 0")
    case True
    then have "\<not> free_run n k s b" if "b div 64 = w" for b
      using ends [OF that] by (auto simp: free_run_def)
    then show ?thesis using True by (simp add: scan_run_def Let_def)
  next
    case False
    note c = clzll [OF False]
    define st where "st = clzll ?e - (k - 1)"
    have kc: "k \<le> clzll ?e + 1" using c(2) bit_erode_free [OF c(1) k(1)] by simp
    then have st: "st + k \<le> 64" and sc: "st + k - 1 = clzll ?e" "st < 64" using c(1) k by (simp_all add: st_def)
    have "(w * 64 + st) div 64 = w" "(w * 64 + st) mod 64 = st" using sc by simp_all
    then have f: "free_run n k s (w * 64 + st)" using c(2) ends [of "w * 64 + st"] st sc(1) by simp
    have nf: "?x \<noteq> NOT 0"
    proof
      assume "?x = NOT 0"
      then show False using f free_run_word [OF ok w st k(1)] k(1) st by (auto simp: bit_simps)
    qed
    have "\<not> w * 64 + st + k > n" using f by (simp add: free_run_def)
    then show ?thesis using False nf grab_word [OF ok w st k(1) _ f, of "w * 64 + st + k"] k(2)
      by (simp add: scan_run_def BITS_PER_WORD_def Let_def st_def)
  qed
qed

lemma scan_words_spec:
  assumes scan: "word_scan_ok n k scan" and ok: "set_ok n s"
  shows "case scan_words n scan ws base s of
      (Some b, t) \<Rightarrow> grabbed n k s b t
    | (None, t) \<Rightarrow> t = s \<and> (sorted ws \<longrightarrow> (\<forall>w\<in>set ws. \<forall>b. b div 64 = base + w \<longrightarrow> \<not> free_run n k s b \<or> n \<le> b))"
proof (induction ws)
  case Nil
  then show ?case by simp
next
  case (Cons w ws)
  show ?case
  proof (cases "base + w \<ge> NUM_WORDS n")
    case True
    have "n \<le> b" if "v \<in> set (w # ws)" "sorted (w # ws)" "b div 64 = base + v" for v b
    proof (rule ccontr)
      assume "\<not> n \<le> b"
      then show False using word_index [of b n] that True by fastforce
    qed
    then have "sorted (w # ws) \<longrightarrow> (\<forall>v\<in>set (w # ws). \<forall>b. b div 64 = base + v \<longrightarrow> \<not> free_run n k s b \<or> n \<le> b)" by blast
    then show ?thesis using True by (simp only: scan_words.simps if_True prod.case option.case simp_thms)
  next
    case False
    then have one: "case scan (base + w) s of (Some b, t) \<Rightarrow> grabbed n k s b t
        | (None, t) \<Rightarrow> t = s \<and> (\<forall>b. b div 64 = base + w \<longrightarrow> \<not> free_run n k s b)"
      using scan ok unfolding word_scan_ok_def by (simp add: not_le)
    then show ?thesis using False Cons.IH by (auto split: prod.splits option.splits)
  qed
qed

lemma full_chunk_no_run:
  assumes "scan_chunk_is_full (c * 2) s" and "set_ok n s" and "b div 64 div 2 = c" and "1 \<le> k" and "b + k \<le> n"
  shows "\<not> free_run n k s b"
proof -
  have bit: "bit_words s ! (b div 64) = NOT 0"
  proof -
    have "b div 64 = c * 2 \<or> b div 64 = c * 2 + 1" using assms(3) by arith
    moreover have "bit_words s ! (c * 2 + i) = NOT 0" if "i < 2" for i
      using that assms(1) unfolding scan_chunk_is_full_def WORDS_PER_SCAN_CHUNK_def by simp
    from this [of 0] this [of 1] have "bit_words s ! (c * 2) = NOT 0" "bit_words s ! (c * 2 + 1) = NOT 0" by simp_all
    ultimately show ?thesis by metis
  qed
  have "bit_at s b" by (simp add: bit_at_def bit)
  then have "b \<in> acquired n s" using assms(4,5) by (simp add: acquired_def)
  moreover have "b \<in> {b..<b + k}" using assms(4) by auto
  ultimately show ?thesis unfolding free_run_def by blast
qed

lemma scan_chunks_spec:
  assumes scan: "word_scan_ok n k scan" and ok: "set_ok n s" and k: "1 \<le> k"
  shows "case scan_chunks n scan cs s of
      (Some b, t) \<Rightarrow> grabbed n k s b t
    | (None, t) \<Rightarrow> t = s \<and> (\<forall>c\<in>set cs. \<forall>b. b div 64 div 2 = c \<longrightarrow> \<not> free_run n k s b)"
proof (induction cs)
  case Nil
  then show ?case by simp
next
  case (Cons c cs)
  show ?case
  proof (cases "scan_chunk_is_full (c * 2) s")
    case True
    have "\<not> free_run n k s b" if "b div 64 div 2 = c" for b
      using full_chunk_no_run [OF True ok that k] by (auto simp: free_run_def)
    then show ?thesis using True Cons.IH
      by (cases "scan_chunks n scan cs s"; cases "fst (scan_chunks n scan cs s)") (auto simp: WORDS_PER_SCAN_CHUNK_def)
  next
    case False
    have here: "case scan_words n scan [0..<2] (c * 2) s of (Some b, t) \<Rightarrow> grabbed n k s b t
        | (None, t) \<Rightarrow> t = s \<and> (\<forall>b. b div 64 div 2 = c \<longrightarrow> \<not> free_run n k s b)"
    proof -
      have "\<not> free_run n k s b" if "b div 64 div 2 = c"
        and h: "\<forall>w\<in>set [0..<2]. \<forall>b. b div 64 = c * 2 + w \<longrightarrow> \<not> free_run n k s b \<or> n \<le> b" for b
      proof -
        have "b div 64 mod 2 \<in> set [0..<2]" and "b div 64 = c * 2 + b div 64 mod 2" using that(1) by auto
        then have "\<not> free_run n k s b \<or> n \<le> b" using h by blast
        then show ?thesis using k by (auto simp: free_run_def)
      qed
      then have no: "(\<forall>w\<in>set [0..<2]. \<forall>b. b div 64 = c * 2 + w \<longrightarrow> \<not> free_run n k s b \<or> n \<le> b) \<Longrightarrow>
          \<forall>b. b div 64 div 2 = c \<longrightarrow> \<not> free_run n k s b" by blast
      obtain r t where call: "scan_words n scan [0..<2] (c * 2) s = (r, t)" by (cases "scan_words n scan [0..<2] (c * 2) s")
      have "case (r, t) of (Some b, t) \<Rightarrow> grabbed n k s b t | (None, t) \<Rightarrow> t = s \<and> (sorted [0..<2] \<longrightarrow>
          (\<forall>w\<in>set [0..<2]. \<forall>b. b div 64 = c * 2 + w \<longrightarrow> \<not> free_run n k s b \<or> n \<le> b))"
        using scan_words_spec [OF scan ok, of "[0..<2]" "c * 2"] unfolding call .
      then show ?thesis unfolding call prod.case using no sorted_upt [of 0 2]
        by (cases r; simp only: option.case simp_thms) blast
    qed
    show ?thesis using False here Cons.IH
      by (cases "scan_words n scan [0..<2] (c * 2) s"; cases "fst (scan_words n scan [0..<2] (c * 2) s)";
          cases "scan_chunks n scan cs s"; cases "fst (scan_chunks n scan cs s)")
        (auto simp: WORDS_PER_SCAN_CHUNK_def Let_def simp del: upt_rec_numeral)
  qed
qed

lemma scan_order_covers:
  assumes "c < m" and "a < m"
  shows "c \<in> set (map (\<lambda>i. (a + i) mod m) [0..<m :: nat])"
proof -
  have "(a + (c + m - a) mod m) mod m = c" using assms by (simp add: mod_add_right_eq)
  then show ?thesis using assms by (auto simp: image_iff intro!: bexI [of _ "(c + m - a) mod m"])
qed

lemma scan_chunks_for_available_spec:
  assumes "word_scan_ok n k scan" and "set_ok n s" and "1 \<le> k" and "a < NUM_SCAN_CHUNKS n"
  shows "case scan_chunks_for_available n a scan s of
      (Some b, t) \<Rightarrow> grabbed n k s b t
    | (None, t) \<Rightarrow> t = s \<and> (\<forall>b. \<not> free_run n k s b)"
proof -
  let ?cs = "map (\<lambda>i. (a + i) mod NUM_SCAN_CHUNKS n) [0..<NUM_SCAN_CHUNKS n]"
  have "\<not> free_run n k s b" if h: "\<forall>c\<in>set ?cs. \<forall>b. b div 64 div 2 = c \<longrightarrow> \<not> free_run n k s b" for b
  proof (cases "b + k \<le> n")
    case True
    then have "b div 64 < NUM_WORDS n" using assms(3) by (intro word_index) simp
    then have "b div 64 div 2 < NUM_SCAN_CHUNKS n"
      unfolding NUM_SCAN_CHUNKS_def WORDS_PER_SCAN_CHUNK_def by linarith
    then show ?thesis using h scan_order_covers [OF _ assms(4)] by blast
  qed (simp add: free_run_def)
  then show ?thesis using scan_chunks_spec [OF assms(1-3), of ?cs]
    unfolding scan_chunks_for_available_def by (auto split: prod.splits option.splits)
qed

theorem contiguous_spec:
  assumes "set_ok n s" and "1 \<le> k" and "k \<le> 16" and "1 \<le> n"
  shows "case acquire_first_available_contiguous n k scan_offset s of
      (Some b, t) \<Rightarrow> grabbed n k s b t
    | (None, t) \<Rightarrow> t = s \<and> (\<forall>b. \<not> free_run n k s b)"
proof -
  have "0 < NUM_SCAN_CHUNKS n" using assms(4) by (simp add: geometry)
  then have lt: "x mod NUM_SCAN_CHUNKS n < NUM_SCAN_CHUNKS n" for x by simp
  note S = scan_chunks_for_available_spec [OF _ assms(1,2) lt]
  show ?thesis
    using S [OF scan_run_ok [OF assms(2,3)]] S [of "scan_single n"] scan_single_ok [of n] assms(2,3)
    by (cases "k = 1") (simp_all add: acquire_first_available_contiguous_def acquire_first_available_def)
qed

section \<open>Properties\<close>

lemma acquire_release_parts:
  assumes "set_ok n s" and "bits_acquire n a k s = (r, t)"
  shows "r = success \<longleftrightarrow> 1 \<le> k \<and> k \<le> 16 \<and> a + k \<le> n \<and> (\<forall>i\<in>{a..<a + k}. \<not> is_acquired n s i)"
    and "is_acquired n t i \<longleftrightarrow> is_acquired n s i \<or> (r = success \<and> i \<in> {a..<a + k})"
    and "r \<noteq> success \<Longrightarrow> t = s"
    and "r = success \<Longrightarrow> \<exists>u. bits_release n a k t = (success, u) \<and> (\<forall>i. is_acquired n u i \<longleftrightarrow> is_acquired n s i)"
proof -
  have mem: "is_acquired n x j \<longleftrightarrow> j \<in> acquired n x" for x j by (simp add: is_acquired_iff acquired_def)
  note A = acquire_spec [OF assms] validate_success [of n a k]
  show "r = success \<longleftrightarrow> 1 \<le> k \<and> k \<le> 16 \<and> a + k \<le> n \<and> (\<forall>i\<in>{a..<a + k}. \<not> is_acquired n s i)"
    using A unfolding mem by (auto split: if_splits)
  show "is_acquired n t i \<longleftrightarrow> is_acquired n s i \<or> (r = success \<and> i \<in> {a..<a + k})" and "r \<noteq> success \<Longrightarrow> t = s"
    using A(1) unfolding mem by (auto split: if_splits)
  assume "r = success"
  then have t: "set_ok n t" "acquired n t = acquired n s \<union> {a..<a + k}" "validate_request n a k = success"
    "{a..<a + k} \<inter> acquired n s = {}" using A(1) by (auto split: if_splits)
  obtain q u where "bits_release n a k t = (q, u)" by fastforce
  then show "\<exists>u. bits_release n a k t = (success, u) \<and> (\<forall>i. is_acquired n u i \<longleftrightarrow> is_acquired n s i)"
    using release_spec [OF t(1), of a k q u] t(2-4) unfolding mem by auto
qed

text \<open>C33: Acquiring a run of bits fails exactly when the request is out of range or one of its bits is
  taken; a failure changes no bit, over a word boundary included, a success sets exactly the bits
  of the run, and releasing the same run then succeeds and gives back exactly the set it started from.\<close>

theorem acquire_release_exact:
  assumes "set_ok n s" and "bits_acquire n a k s = (r, t)"
  shows "(r = success \<longleftrightarrow> 1 \<le> k \<and> k \<le> 16 \<and> a + k \<le> n \<and> (\<forall>i\<in>{a..<a + k}. \<not> is_acquired n s i)) \<and>
    (\<forall>i. is_acquired n t i \<longleftrightarrow> is_acquired n s i \<or> (r = success \<and> i \<in> {a..<a + k})) \<and> (r \<noteq> success \<longrightarrow> t = s) \<and>
    (r = success \<longrightarrow> (\<exists>u. bits_release n a k t = (success, u) \<and> (\<forall>i. is_acquired n u i \<longleftrightarrow> is_acquired n s i)))"
  using acquire_release_parts [OF assms] by blast

theorem acquire_release_exact_witness:
  "\<exists>t u. bits_acquire 130 60 10 (empty_bitblock_set 130) = (success, t) \<and> is_acquired 130 t 65 \<and>
    bits_release 130 60 10 t = (success, u) \<and> \<not> is_acquired 130 u 65"
proof -
  have ok: "set_ok 130 (empty_bitblock_set 130)" and free: "\<not> is_acquired 130 (empty_bitblock_set 130) i" for i
    using empty_set_ok [of 130] by (auto simp: is_acquired_iff acquired_def)
  obtain r t where call: "bits_acquire 130 60 10 (empty_bitblock_set 130) = (r, t)" by fastforce
  note E = acquire_release_exact [OF ok call]
  have r: "r = success" using E free by simp
  moreover have "is_acquired 130 t 65 \<longleftrightarrow> is_acquired 130 (empty_bitblock_set 130) 65 \<or> (r = success \<and> 65 \<in> {60..<60 + 10 :: nat})"
    using E by blast
  ultimately show ?thesis using call E free by auto
qed

lemma contiguous_search_parts:
  assumes "set_ok n s" and "1 \<le> k" and "k \<le> 16" and "1 \<le> n"
    and call: "acquire_first_available_contiguous n k scan_offset s = (r, t)"
  shows "r = Some b \<Longrightarrow> b + k \<le> n \<and> (\<forall>i\<in>{b..<b + k}. \<not> is_acquired n s i) \<and>
      (\<forall>i. is_acquired n t i \<longleftrightarrow> is_acquired n s i \<or> i \<in> {b..<b + k}) \<and>
      total_bits_set n t = total_bits_set n s + k"
    and "r = None \<longleftrightarrow> (\<forall>b. b mod 64 + k \<le> 64 \<longrightarrow> b + k \<le> n \<longrightarrow> (\<exists>i\<in>{b..<b + k}. is_acquired n s i))"
    and "r = None \<Longrightarrow> t = s"
proof -
  have mem: "is_acquired n x j \<longleftrightarrow> j \<in> acquired n x" for x j by (simp add: is_acquired_iff acquired_def)
  note S = contiguous_spec [OF assms(1-4), of scan_offset, unfolded call prod.case]
  show "r = None \<Longrightarrow> t = s" using S by simp
  have hit: "free_run n k s b \<and> set_ok n t \<and> acquired n t = acquired n s \<union> {b..<b + k}" if "r = Some b" for b
    using S that by (simp add: grabbed_def)
  show "r = None \<longleftrightarrow> (\<forall>b. b mod 64 + k \<le> 64 \<longrightarrow> b + k \<le> n \<longrightarrow> (\<exists>i\<in>{b..<b + k}. is_acquired n s i))"
  proof
    assume "r = None"
    then have "\<forall>b. \<not> free_run n k s b" using S by simp
    then show "\<forall>b. b mod 64 + k \<le> 64 \<longrightarrow> b + k \<le> n \<longrightarrow> (\<exists>i\<in>{b..<b + k}. is_acquired n s i)"
      unfolding mem free_run_def by blast
  next
    assume h: "\<forall>b. b mod 64 + k \<le> 64 \<longrightarrow> b + k \<le> n \<longrightarrow> (\<exists>i\<in>{b..<b + k}. is_acquired n s i)"
    show "r = None"
    proof (cases r)
      case (Some b)
      then show ?thesis using hit [OF Some] h unfolding mem free_run_def by blast
    qed simp
  qed
  assume r: "r = Some b"
  have "card (acquired n s \<union> {b..<b + k}) = card (acquired n s) + k"
    using hit [OF r] by (subst card_Un_disjoint) (auto simp: free_run_def acquired_def)
  then show "b + k \<le> n \<and> (\<forall>i\<in>{b..<b + k}. \<not> is_acquired n s i) \<and>
      (\<forall>i. is_acquired n t i \<longleftrightarrow> is_acquired n s i \<or> i \<in> {b..<b + k}) \<and> total_bits_set n t = total_bits_set n s + k"
    using hit [OF r] total_bits_set_card [OF assms(1)] total_bits_set_card [of n t] unfolding mem free_run_def by auto
qed

text \<open>C32: The search for \<open>k\<close> free neighbours finds a run exactly when some word of the set has one: what it
  returns was free and in range, and is all that it takes; when it returns nothing it has changed
  nothing and no word of the set holds such a run, wherever the search began.\<close>

theorem contiguous_search_exact:
  assumes "set_ok n s" and "1 \<le> k" and "k \<le> 16" and "1 \<le> n"
    and "acquire_first_available_contiguous n k scan_offset s = (r, t)"
  shows "(\<forall>b. r = Some b \<longrightarrow> b + k \<le> n \<and> (\<forall>i\<in>{b..<b + k}. \<not> is_acquired n s i) \<and>
      (\<forall>i. is_acquired n t i \<longleftrightarrow> is_acquired n s i \<or> i \<in> {b..<b + k}) \<and> total_bits_set n t = total_bits_set n s + k) \<and>
    (r = None \<longleftrightarrow> (\<forall>b. b mod 64 + k \<le> 64 \<longrightarrow> b + k \<le> n \<longrightarrow> (\<exists>i\<in>{b..<b + k}. is_acquired n s i))) \<and>
    (r = None \<longrightarrow> t = s)"
  by (rule conjI [OF _ conjI [OF contiguous_search_parts(2) [OF assms]]])
    (use contiguous_search_parts(1,3) [OF assms] in blast)+

theorem contiguous_search_exact_witness:
  "\<exists>b t. acquire_first_available_contiguous 256 7 3 (empty_bitblock_set 256) = (Some b, t) \<and> b + 7 \<le> 256 \<and>
    is_acquired 256 t (b + 6) \<and> total_bits_set 256 t = 7"
proof -
  have ok: "set_ok 256 (empty_bitblock_set 256)" and free: "\<not> is_acquired 256 (empty_bitblock_set 256) i" for i
    using empty_set_ok [of 256] by (auto simp: is_acquired_iff acquired_def)
  obtain r t where call: "acquire_first_available_contiguous 256 7 3 (empty_bitblock_set 256) = (r, t)" by fastforce
  note E = contiguous_search_exact [OF ok _ _ _ call]
  have "\<not> (\<forall>b. b mod 64 + 7 \<le> 64 \<longrightarrow> b + 7 \<le> (256 :: nat) \<longrightarrow> (\<exists>i\<in>{b..<b + 7}. is_acquired 256 (empty_bitblock_set 256) i))"
    using free by (auto intro!: exI [of _ 0])
  then obtain b where r: "r = Some b" using E by (cases r) auto
  have "b + 7 \<le> 256 \<and> is_acquired 256 t (b + 6) \<and> total_bits_set 256 t = total_bits_set 256 (empty_bitblock_set 256) + 7"
    using E r by auto
  then show ?thesis using r call total_bits_set_card [OF ok] empty_set_ok(2) [of 256] by auto
qed

end
