(* ===== verification/Bitblock_Resource.thy ===== *)
theory Bitblock_Resource
  imports Memory_Resource Statistics Bitblock_Set
begin

text \<open>
  \<^verbatim>\<open>pmr::lockfree_bitblock_resource\<close> (\<^verbatim>\<open>include/__memory_resource/lockfree_bitblock_resource.h\<close>):
  runs of 1 to 16 fixed-size elements from large blocks that are fetched from an upstream resource,
  with a bit per element.  Every arena keeps a list of blocks, and hints remember the block of the
  last success; a caller is served from the arena its CPU selects and, failing that, from the blocks
  of the others.

  The operations are calls that run without interference.  The upstream resource is a parameter;
  blocks live in maps from their address, and so do the 16-byte headers in front of every
  allocation.  Running out of memory is reported under the policy that returns.
\<close>

section \<open>State\<close>

text \<open>The template's parameters and what it requires of them.\<close>

record bitblock_config =
  element_size_in_bytes :: nat
  elements_per_block :: nat
  max_number_of_arenas :: nat
  max_number_of_blocks :: nat

definition bitblock_config_ok :: "bitblock_config \<Rightarrow> bool" where
  "bitblock_config_ok cf \<longleftrightarrow> element_size_in_bytes cf \<ge> 4 \<and> element_size_in_bytes cf mod 16 = 0 \<and>
     element_size_in_bytes cf \<le> 256 \<and> elements_per_block cf \<ge> 256 \<and> elements_per_block cf < 4294967296 \<and>
     max_number_of_arenas cf \<ge> 1 \<and> max_number_of_arenas cf \<le> 32 \<and> max_number_of_blocks cf \<ge> 1 \<and>
     max_number_of_blocks cf < 18446744073709551616"

definition HEADER_SIZE :: nat where "HEADER_SIZE = 16"

record bitblock =
  next_block :: addr
  block_arena :: nat
  free_count :: u32
  element_allocations :: bitblock_set

record allocation_header =
  owner :: addr
  num_elements :: u32

record arena =
  first_block :: addr
  block_count :: nat
  allocation_hint :: addr

record 'u bitblock_resource =
  upstream :: 'u
  number_of_arenas :: nat
  arenas :: "nat \<Rightarrow> arena"
  core_hints :: "nat \<Rightarrow> addr"
  total_blocks :: nat
  blocks :: "addr \<Rightarrow> bitblock"
  headers :: "addr \<Rightarrow> allocation_header"
  bb_statistics :: "statistics option"

text \<open>
  The layout of a block: two words, the free count on the next cache line, the bit set (its words
  and its hint, each on a cache line of its own), then the elements.
\<close>

definition BLOCK_ALIGN :: nat where "BLOCK_ALIGN = 64"

definition DATA_OFFSET :: "bitblock_config \<Rightarrow> nat" where
  "DATA_OFFSET cf = 128 + round_up (8 * PADDED_NUM_WORDS (elements_per_block cf)) 64 + 64"

definition BLOCK_BYTES :: "bitblock_config \<Rightarrow> nat" where
  "BLOCK_BYTES cf = round_up (DATA_OFFSET cf + element_size_in_bytes cf * elements_per_block cf) BLOCK_ALIGN"

definition new_bitblock :: "bitblock_config \<Rightarrow> bitblock" where
  "new_bitblock cf = \<lparr>next_block = 0, block_arena = 0, free_count = of_nat (elements_per_block cf),
     element_allocations = empty_bitblock_set (elements_per_block cf)\<rparr>"

definition update_arena :: "nat \<Rightarrow> (arena \<Rightarrow> arena) \<Rightarrow> 'u bitblock_resource \<Rightarrow> 'u bitblock_resource" where
  "update_arena i f s = s\<lparr>arenas := (arenas s)(i := f (arenas s i))\<rparr>"

definition update_block :: "addr \<Rightarrow> (bitblock \<Rightarrow> bitblock) \<Rightarrow> 'u bitblock_resource \<Rightarrow> 'u bitblock_resource" where
  "update_block b f s = s\<lparr>blocks := (blocks s)(b := f (blocks s b))\<rparr>"

definition counted :: "(statistics \<Rightarrow> statistics) \<Rightarrow> 'u bitblock_resource \<Rightarrow> 'u bitblock_resource" where
  "counted f s = s\<lparr>bb_statistics := map_option f (bb_statistics s)\<rparr>"

section \<open>Operations\<close>

definition bytes_with_header :: "nat \<Rightarrow> nat" where
  "bytes_with_header num_bytes = (if num_bytes > SIZE_MAX - HEADER_SIZE then 0 else num_bytes + HEADER_SIZE)"

definition elements_for_bytes :: "bitblock_config \<Rightarrow> nat \<Rightarrow> nat" where
  "elements_for_bytes cf num_bytes =
     (let adjusted_bytes = bytes_with_header num_bytes
      in if adjusted_bytes = 0 then 0
         else sub64 (add64 adjusted_bytes (element_size_in_bytes cf)) 1 div element_size_in_bytes cf)"

definition clamp_arena_count :: "bitblock_config \<Rightarrow> nat \<Rightarrow> nat" where
  "clamp_arena_count cf requested =
     (if requested = 0 then 1 else min requested (min (max_number_of_arenas cf) (max_number_of_blocks cf)))"

text \<open>The reservation of a block under the cap, and giving it back.\<close>

definition try_reserve_block :: "bitblock_config \<Rightarrow> 'u bitblock_resource \<Rightarrow> bool \<times> 'u bitblock_resource" where
  "try_reserve_block cf s =
     (if total_blocks s < max_number_of_blocks cf then (True, s\<lparr>total_blocks := total_blocks s + 1\<rparr>) else (False, s))"

definition release_block_reservation :: "'u bitblock_resource \<Rightarrow> 'u bitblock_resource" where
  "release_block_reservation s = s\<lparr>total_blocks := sub64 (total_blocks s) 1\<rparr>"

definition acquire_next_empty_block ::
  "bitblock_config \<Rightarrow> nat \<Rightarrow> nat \<Rightarrow> addr \<Rightarrow> 'u bitblock_resource \<Rightarrow> nat option \<times> 'u bitblock_resource" where
  "acquire_next_empty_block cf num scan_offset b s =
     (if num = 0 \<or> num > elements_per_block cf \<or> num > 16 then (None, s)
      else if unat (free_count (blocks s b)) < num then (None, s)
      else case acquire_first_available_contiguous (elements_per_block cf) num scan_offset (element_allocations (blocks s b)) of
             (Some i, ea) \<Rightarrow> (Some i, update_block b
                (\<lambda>k. k\<lparr>element_allocations := ea, free_count := free_count k - of_nat num\<rparr>) s)
           | (None, ea) \<Rightarrow> (None, update_block b (\<lambda>k. k\<lparr>element_allocations := ea\<rparr>) s))"

definition finalize_allocation ::
  "bitblock_config \<Rightarrow> nat \<Rightarrow> addr \<Rightarrow> nat \<Rightarrow> nat \<Rightarrow> 'u bitblock_resource \<Rightarrow> addr \<times> 'u bitblock_resource" where
  "finalize_allocation cf cpu blk element_index num s =
     (let s = counted (allocation_made cpu (mul64 num (element_size_in_bytes cf))) s;
          allocation_base = add64 (add64 blk (DATA_OFFSET cf)) (mul64 element_index (element_size_in_bytes cf));
          s = s\<lparr>headers := (headers s)(allocation_base := \<lparr>owner = blk, num_elements = of_nat num\<rparr>)\<rparr>
      in (add64 allocation_base HEADER_SIZE, s))"

definition block_from_allocation :: "'u bitblock_resource \<Rightarrow> addr \<Rightarrow> addr" where
  "block_from_allocation s p = owner (headers s (sub64 p HEADER_SIZE))"

text \<open>Walking a list of blocks from one of them for the first that has a run.\<close>

partial_function (option) search_chain ::
  "bitblock_config \<Rightarrow> nat \<Rightarrow> nat \<Rightarrow> addr \<Rightarrow> 'u bitblock_resource \<Rightarrow> ((addr \<times> nat) option \<times> 'u bitblock_resource) option" where
  "search_chain cf num scan_offset current_block s =
     (if current_block = 0 then Some (None, s)
      else case acquire_next_empty_block cf num scan_offset current_block s of
             (Some i, s) \<Rightarrow> Some (Some (current_block, i), s)
           | (None, s) \<Rightarrow> search_chain cf num scan_offset (next_block (blocks s current_block)) s)"

declare search_chain.simps [code]

text \<open>\<^verbatim>\<open>add_new_block\<close>: whether a block was added, and whether the cap was what prevented it.\<close>

definition add_new_block ::
  "bitblock_config \<Rightarrow> 'u allocate_fn \<Rightarrow> nat \<Rightarrow> nat \<Rightarrow> 'u bitblock_resource \<Rightarrow> (bool \<times> bool \<times> 'u bitblock_resource) option" where
  "add_new_block cf al cpu i s =
     (case try_reserve_block cf s of
        (False, s) \<Rightarrow> Some (False, True, s)
      | (True, s) \<Rightarrow> do {
          (space, u) \<leftarrow> al cpu (upstream s) (BLOCK_BYTES cf) BLOCK_ALIGN;
          let s = s\<lparr>upstream := u\<rparr>;
          case space of
            None \<Rightarrow> Some (False, False, release_block_reservation s)
          | Some b \<Rightarrow>
              (let s = s\<lparr>blocks := (blocks s)(b := (new_bitblock cf)\<lparr>block_arena := i, next_block := first_block (arenas s i)\<rparr>)\<rparr>
               in Some (True, False, update_arena i (\<lambda>a. a\<lparr>first_block := b, block_count := add64 (block_count a) 1\<rparr>) s)) })"

definition take_run ::
  "bitblock_config \<Rightarrow> nat \<Rightarrow> nat \<Rightarrow> nat \<Rightarrow> addr \<times> nat \<Rightarrow> 'u bitblock_resource \<Rightarrow> addr \<times> 'u bitblock_resource" where
  "take_run cf cpu i num r s =
     finalize_allocation cf cpu (fst r) (snd r) num (update_arena i (\<lambda>a. a\<lparr>allocation_hint := fst r\<rparr>) s)"

text \<open>The outer loop of \<^verbatim>\<open>arena::do_allocate\<close>: search the list, else add a block and search from the start.\<close>

partial_function (option) arena_loop ::
  "bitblock_config \<Rightarrow> 'u allocate_fn \<Rightarrow> nat \<Rightarrow> nat \<Rightarrow> nat \<Rightarrow> nat \<Rightarrow> addr \<Rightarrow> 'u bitblock_resource \<Rightarrow>
   (addr option \<times> bool \<times> 'u bitblock_resource) option" where
  "arena_loop cf al cpu i num scan_offset current_block s =
     Option.bind (search_chain cf num scan_offset current_block s) (\<lambda>(r, s).
       if r \<noteq> None then (case take_run cf cpu i num (the r) s of (p, s) \<Rightarrow> Some (Some p, False, s))
       else Option.bind (add_new_block cf al cpu i s) (\<lambda>(added, cap_reached, s).
         if added then arena_loop cf al cpu i num scan_offset (first_block (arenas s i)) s
         else Some (None, cap_reached, s)))"

declare arena_loop.simps [code]

definition arena_do_allocate ::
  "bitblock_config \<Rightarrow> 'u allocate_fn \<Rightarrow> nat \<Rightarrow> nat \<Rightarrow> nat \<Rightarrow> nat \<Rightarrow> 'u bitblock_resource \<Rightarrow>
   (addr option \<times> bool \<times> 'u bitblock_resource) option" where
  "arena_do_allocate cf al cpu i num scan_offset s =
     (if num = 0 \<or> num > 16 then Some (None, False, s)
      else if first_block (arenas s i) = 0
      then do {
        (added, cap_reached, s) \<leftarrow> add_new_block cf al cpu i s;
        if added then arena_loop cf al cpu i num scan_offset (first_block (arenas s i)) s
        else Some (None, cap_reached, s) }
      else arena_loop cf al cpu i num scan_offset (first_block (arenas s i)) s)"

definition try_allocate_existing ::
  "bitblock_config \<Rightarrow> nat \<Rightarrow> nat \<Rightarrow> nat \<Rightarrow> nat \<Rightarrow> 'u bitblock_resource \<Rightarrow> (addr option \<times> 'u bitblock_resource) option" where
  "try_allocate_existing cf cpu i num scan_offset s =
     (if num = 0 \<or> num > 16 then Some (None, s)
      else do {
        (r, s) \<leftarrow> search_chain cf num scan_offset (first_block (arenas s i)) s;
        case r of
          None \<Rightarrow> Some (None, s)
        | Some r \<Rightarrow> (case take_run cf cpu i num r s of (p, s) \<Rightarrow> Some (Some p, s)) })"

definition set_core_hint :: "bitblock_config \<Rightarrow> nat \<Rightarrow> addr \<Rightarrow> 'u bitblock_resource \<Rightarrow> 'u bitblock_resource" where
  "set_core_hint cf cpu b s = s\<lparr>core_hints := (core_hints s)(cpu mod max_number_of_arenas cf := b)\<rparr>"

text \<open>The cross-arena fallback.\<close>

fun other_arenas ::
  "bitblock_config \<Rightarrow> nat \<Rightarrow> nat list \<Rightarrow> nat \<Rightarrow> 'u bitblock_resource \<Rightarrow> (addr option \<times> 'u bitblock_resource) option" where
  "other_arenas cf cpu [] num s = Some (None, s)"
| "other_arenas cf cpu (i # is) num s = do {
     (p, s) \<leftarrow> try_allocate_existing cf cpu i num cpu s;
     case p of
       Some p \<Rightarrow> Some (Some p, set_core_hint cf cpu (block_from_allocation s p) s)
     | None \<Rightarrow> other_arenas cf cpu is num s }"

definition slow_path ::
  "bitblock_config \<Rightarrow> 'u allocate_fn \<Rightarrow> nat \<Rightarrow> nat \<Rightarrow> nat \<Rightarrow> 'u bitblock_resource \<Rightarrow> (addr option \<times> 'u bitblock_resource) option" where
  "slow_path cf al cpu arena_in_use num s = do {
     (result, cap_reached, s) \<leftarrow> arena_do_allocate cf al cpu arena_in_use num cpu s;
     case result of
       Some p \<Rightarrow> Some (Some p, set_core_hint cf cpu (block_from_allocation s p) s)
     | None \<Rightarrow> other_arenas cf cpu
         (map (\<lambda>offset. (arena_in_use + offset) mod number_of_arenas s) [1..<number_of_arenas s]) num s }"

definition arena_hint_path ::
  "bitblock_config \<Rightarrow> 'u allocate_fn \<Rightarrow> nat \<Rightarrow> nat \<Rightarrow> nat \<Rightarrow> 'u bitblock_resource \<Rightarrow> (addr option \<times> 'u bitblock_resource) option" where
  "arena_hint_path cf al cpu arena_in_use num s =
     (let hint_blk = allocation_hint (arenas s arena_in_use)
      in if hint_blk \<noteq> 0
         then case acquire_next_empty_block cf num cpu hint_blk s of
                (Some i, s) \<Rightarrow>
                  (case finalize_allocation cf cpu hint_blk i num (set_core_hint cf cpu hint_blk s) of (p, s) \<Rightarrow> Some (Some p, s))
              | (None, s) \<Rightarrow> slow_path cf al cpu arena_in_use num s
         else slow_path cf al cpu arena_in_use num s)"

definition bb_do_allocate :: "bitblock_config \<Rightarrow> 'u allocate_fn \<Rightarrow> 'u bitblock_resource allocate_fn" where
  "bb_do_allocate cf al cpu s num_bytes alignment =
     (if alignment > HEADER_SIZE then Some (None, s)
      else let num = elements_for_bytes cf num_bytes
           in if num = 0 then Some (None, s)
              else let arena_in_use = (if cpu < number_of_arenas s then cpu else cpu mod number_of_arenas s);
                       hint_blk = core_hints s (cpu mod max_number_of_arenas cf)
                   in if hint_blk \<noteq> 0 \<and> block_arena (blocks s hint_blk) = arena_in_use
                      then case acquire_next_empty_block cf num cpu hint_blk s of
                             (Some i, s) \<Rightarrow> (case take_run cf cpu arena_in_use num (hint_blk, i) s of (p, s) \<Rightarrow> Some (Some p, s))
                           | (None, s) \<Rightarrow> arena_hint_path cf al cpu arena_in_use num s
                      else arena_hint_path cf al cpu arena_in_use num s)"

definition update_hints_after_deallocation ::
  "bitblock_config \<Rightarrow> nat \<Rightarrow> addr \<Rightarrow> 'u bitblock_resource \<Rightarrow> 'u bitblock_resource" where
  "update_hints_after_deallocation cf cpu b s =
     update_arena (block_arena (blocks s b)) (\<lambda>a. a\<lparr>allocation_hint := b\<rparr>) (set_core_hint cf cpu b s)"

definition bb_do_deallocate :: "bitblock_config \<Rightarrow> 'u bitblock_resource deallocate_fn" where
  "bb_do_deallocate cf cpu s p num_bytes alignment =
     (if p = 0 then Some s
      else let header = sub64 p HEADER_SIZE;
               current_block = owner (headers s header);
               num = num_elements (headers s header);
               index = sub64 header (add64 current_block (DATA_OFFSET cf)) div element_size_in_bytes cf;
               s = update_block current_block (\<lambda>k. k\<lparr>element_allocations :=
                     snd (bits_release (elements_per_block cf) index (unat num) (element_allocations k)),
                     free_count := free_count k + num\<rparr>) s;
               s = counted (deallocation_made cpu (mul64 (unat num) (element_size_in_bytes cf))) s
           in Some (update_hints_after_deallocation cf cpu current_block s))"

text \<open>The constructor: one block for every arena, as far as the upstream resource has memory.\<close>

fun create_arenas ::
  "bitblock_config \<Rightarrow> 'u allocate_fn \<Rightarrow> nat \<Rightarrow> nat list \<Rightarrow> nat \<Rightarrow> 'u bitblock_resource \<Rightarrow> (nat \<times> 'u bitblock_resource) option" where
  "create_arenas cf al cpu [] blocks_created s = Some (blocks_created, s)"
| "create_arenas cf al cpu (i # is) blocks_created s = do {
     let s = s\<lparr>arenas := (arenas s)(i := \<lparr>first_block = 0, block_count = 0, allocation_hint = 0\<rparr>)\<rparr>;
     (space, u) \<leftarrow> al cpu (upstream s) (BLOCK_BYTES cf) BLOCK_ALIGN;
     let s = s\<lparr>upstream := u\<rparr>;
     case space of
       None \<Rightarrow> create_arenas cf al cpu is blocks_created s
     | Some b \<Rightarrow> create_arenas cf al cpu is (blocks_created + 1)
         (update_arena i (\<lambda>a. a\<lparr>first_block := b, block_count := 1\<rparr>)
           (s\<lparr>blocks := (blocks s)(b := (new_bitblock cf)\<lparr>block_arena := i\<rparr>)\<rparr>)) }"

definition lockfree_bitblock_resource ::
  "bitblock_config \<Rightarrow> 'u allocate_fn \<Rightarrow> nat \<Rightarrow> (addr \<Rightarrow> bitblock) \<Rightarrow> (addr \<Rightarrow> allocation_header) \<Rightarrow> statistics option \<Rightarrow>
   'u \<Rightarrow> nat \<Rightarrow> 'u bitblock_resource option" where
  "lockfree_bitblock_resource cf al cpu bmem hmem st u arena_count =
     (let n = clamp_arena_count cf arena_count
      in do {
        (created, s) \<leftarrow> create_arenas cf al cpu [0..<n] 0
          \<lparr>upstream = u, number_of_arenas = n, arenas = (\<lambda>_. \<lparr>first_block = 0, block_count = 0, allocation_hint = 0\<rparr>),
           core_hints = (\<lambda>_. 0), total_blocks = 0, blocks = bmem, headers = hmem, bb_statistics = st\<rparr>;
        Some (s\<lparr>total_blocks := created\<rparr>) })"

text \<open>The destructor gives the blocks of every arena back to the upstream resource.\<close>

partial_function (option) release_chain ::
  "bitblock_config \<Rightarrow> 'u deallocate_fn \<Rightarrow> nat \<Rightarrow> addr \<Rightarrow> 'u bitblock_resource \<Rightarrow> 'u bitblock_resource option" where
  "release_chain cf de cpu current_block s =
     (if current_block = 0 then Some s
      else let nxt = next_block (blocks s current_block)
           in Option.bind (de cpu (upstream s) current_block (BLOCK_BYTES cf) BLOCK_ALIGN)
                (\<lambda>u. release_chain cf de cpu nxt (s\<lparr>upstream := u\<rparr>)))"

declare release_chain.simps [code]

fun release_arenas ::
  "bitblock_config \<Rightarrow> 'u deallocate_fn \<Rightarrow> nat \<Rightarrow> nat list \<Rightarrow> 'u bitblock_resource \<Rightarrow> 'u bitblock_resource option" where
  "release_arenas cf de cpu [] s = Some s"
| "release_arenas cf de cpu (i # is) s = do {
     s \<leftarrow> release_chain cf de cpu (first_block (arenas s i)) s;
     release_arenas cf de cpu is s }"

definition bb_destroy :: "bitblock_config \<Rightarrow> 'u deallocate_fn \<Rightarrow> nat \<Rightarrow> 'u bitblock_resource \<Rightarrow> 'u bitblock_resource option" where
  "bb_destroy cf de cpu s = release_arenas cf de cpu [0..<number_of_arenas s] s"

definition number_of_blocks :: "'u bitblock_resource \<Rightarrow> nat" where
  "number_of_blocks s = total_blocks s"


section \<open>Invariant\<close>

text \<open>
  \<open>cs i\<close> lists the blocks of arena \<open>i\<close>, \<open>R\<close> is what other clients of the upstream resource hold, and
  \<open>H\<close> the elements that a call in progress has acquired and not yet turned into an allocation.
  Elements are named by their block and their index.
\<close>

type_synonym cell = "addr \<times> nat"

definition block_set :: "'u bitblock_resource \<Rightarrow> (nat \<Rightarrow> addr list) \<Rightarrow> addr set" where
  "block_set s cs = (\<Union>i<number_of_arenas s. set (cs i))"

definition first_cell :: "bitblock_config \<Rightarrow> 'u bitblock_resource \<Rightarrow> block \<Rightarrow> cell" where
  "first_cell cf s x = (let b = owner (headers s (fst x - 16))
     in (b, (fst x - 16 - (b + DATA_OFFSET cf)) div element_size_in_bytes cf))"

definition cell_count :: "'u bitblock_resource \<Rightarrow> block \<Rightarrow> nat" where
  "cell_count s x = unat (num_elements (headers s (fst x - 16)))"

definition run_cells :: "cell \<Rightarrow> nat \<Rightarrow> cell set" where
  "run_cells c k = {fst c} \<times> {snd c..<snd c + k}"

definition cells :: "bitblock_config \<Rightarrow> 'u bitblock_resource \<Rightarrow> block \<Rightarrow> cell set" where
  "cells cf s x = run_cells (first_cell cf s x) (cell_count s x)"

definition cell_address :: "bitblock_config \<Rightarrow> cell \<Rightarrow> addr" where
  "cell_address cf c = fst c + DATA_OFFSET cf + snd c * element_size_in_bytes cf"

definition bb_chains :: "bitblock_config \<Rightarrow> 'u bitblock_resource \<Rightarrow> (nat \<Rightarrow> addr list) \<Rightarrow> bool" where
  "bb_chains cf s cs \<longleftrightarrow> 1 \<le> number_of_arenas s \<and>
     (\<forall>i<number_of_arenas s. path (\<lambda>b. next_block (blocks s b)) (first_block (arenas s i)) (cs i) 0 \<and> distinct (cs i) \<and>
        (\<forall>b\<in>set (cs i). block_arena (blocks s b) = i)) \<and>
     (\<forall>h. core_hints s h = 0 \<or> core_hints s h \<in> block_set s cs) \<and>
     (\<forall>i. allocation_hint (arenas s i) = 0 \<or> allocation_hint (arenas s i) \<in> block_set s cs)"

definition bb_cap :: "bitblock_config \<Rightarrow> 'u bitblock_resource \<Rightarrow> (nat \<Rightarrow> addr list) \<Rightarrow> bool" where
  "bb_cap cf s cs \<longleftrightarrow> total_blocks s = (\<Sum>i<number_of_arenas s. length (cs i)) \<and> total_blocks s \<le> max_number_of_blocks cf"

definition bb_upstream :: "bitblock_config \<Rightarrow> ('u \<Rightarrow> ledger \<Rightarrow> bool) \<Rightarrow> 'u bitblock_resource \<Rightarrow> ledger \<Rightarrow> (nat \<Rightarrow> addr list) \<Rightarrow> bool" where
  "bb_upstream cf ow s R cs \<longleftrightarrow>
     ow (upstream s) (R \<union> (\<lambda>b. (b, BLOCK_BYTES cf, BLOCK_ALIGN)) ` block_set s cs) \<and> fst ` R \<inter> block_set s cs = {}"

definition bb_counts :: "bitblock_config \<Rightarrow> 'u bitblock_resource \<Rightarrow> (nat \<Rightarrow> addr list) \<Rightarrow> cell set \<Rightarrow> bool" where
  "bb_counts cf s cs C \<longleftrightarrow> (\<forall>b\<in>block_set s cs. set_ok (elements_per_block cf) (element_allocations (blocks s b)) \<and>
     acquired (elements_per_block cf) (element_allocations (blocks s b)) = {j. (b, j) \<in> C} \<and>
     unat (free_count (blocks s b)) + card {j. (b, j) \<in> C} = elements_per_block cf)"

definition live_one :: "bitblock_config \<Rightarrow> 'u bitblock_resource \<Rightarrow> addr set \<Rightarrow> block \<Rightarrow> bool" where
  "live_one cf s B x \<longleftrightarrow>
     fst (first_cell cf s x) \<in> B \<and> fst x = cell_address cf (first_cell cf s x) + 16 \<and>
     1 \<le> cell_count s x \<and> cell_count s x \<le> 16 \<and> snd (first_cell cf s x) + cell_count s x \<le> elements_per_block cf \<and>
     fst (snd x) + 16 \<le> cell_count s x * element_size_in_bytes cf \<and> snd (snd x) \<le> 16"

definition bb_live :: "bitblock_config \<Rightarrow> 'u bitblock_resource \<Rightarrow> ledger \<Rightarrow> addr set \<Rightarrow> cell set \<Rightarrow> bool" where
  "bb_live cf s L B H \<longleftrightarrow> (\<forall>x\<in>L. live_one cf s B x \<and> cells cf s x \<inter> H = {}) \<and>
     (\<forall>x\<in>L. \<forall>y\<in>L. x \<noteq> y \<longrightarrow> cells cf s x \<inter> cells cf s y = {})"

definition bb_inv :: "bitblock_config \<Rightarrow> ('u \<Rightarrow> ledger \<Rightarrow> bool) \<Rightarrow> 'u bitblock_resource \<Rightarrow> ledger \<Rightarrow> ledger \<Rightarrow>
    (nat \<Rightarrow> addr list) \<Rightarrow> cell set \<Rightarrow> bool" where
  "bb_inv cf ow s L R cs H \<longleftrightarrow> bb_chains cf s cs \<and> bb_cap cf s cs \<and> bb_upstream cf ow s R cs \<and>
     bb_counts cf s cs (H \<union> (\<Union>x\<in>L. cells cf s x)) \<and> bb_live cf s L (block_set s cs) H"

definition bb_owns :: "bitblock_config \<Rightarrow> ('u \<Rightarrow> ledger \<Rightarrow> bool) \<Rightarrow> ledger \<Rightarrow> 'u bitblock_resource \<Rightarrow> ledger \<Rightarrow> bool" where
  "bb_owns cf ow R s L \<longleftrightarrow> (\<exists>cs. bb_inv cf ow s L R cs {})"

lemma bb_ownsI: "bb_inv cf ow s L R cs {} \<Longrightarrow> bb_owns cf ow R s L"
  unfolding bb_owns_def by blast

lemma bb_invD:
  assumes "bb_inv cf ow s L R cs H"
  shows "bb_chains cf s cs" "bb_cap cf s cs" "bb_upstream cf ow s R cs"
    "bb_counts cf s cs (H \<union> (\<Union>x\<in>L. cells cf s x))" "bb_live cf s L (block_set s cs) H"
  using assms by (simp_all add: bb_inv_def)

lemma hints_in:
  assumes "bb_inv cf ow s L R cs H"
  shows "core_hints s h \<noteq> 0 \<Longrightarrow> core_hints s h \<in> block_set s cs"
    and "allocation_hint (arenas s i) \<noteq> 0 \<Longrightarrow> allocation_hint (arenas s i) \<in> block_set s cs"
  using bb_invD(1) [OF assms] unfolding bb_chains_def by meson+

text \<open>The layout of a block.\<close>

lemma layout:
  assumes "bitblock_config_ok cf"
  shows "0 < element_size_in_bytes cf" "16 dvd element_size_in_bytes cf" "64 dvd DATA_OFFSET cf"
    "DATA_OFFSET cf + elements_per_block cf * element_size_in_bytes cf \<le> BLOCK_BYTES cf"
    "BLOCK_BYTES cf < 18446744073709551616" "element_size_in_bytes cf \<le> 256" "1 \<le> elements_per_block cf"
    "elements_per_block cf < 4294967296"
proof -
  note c = assms [unfolded bitblock_config_ok_def]
  show e: "0 < element_size_in_bytes cf" "element_size_in_bytes cf \<le> 256" "1 \<le> elements_per_block cf"
    "elements_per_block cf < 4294967296" using c by simp_all
  show "16 dvd element_size_in_bytes cf" using c by (simp add: dvd_eq_mod_eq_0)
  show "64 dvd DATA_OFFSET cf" unfolding DATA_OFFSET_def by (intro dvd_add) auto
  let ?u = "DATA_OFFSET cf + element_size_in_bytes cf * elements_per_block cf"
  show "DATA_OFFSET cf + elements_per_block cf * element_size_in_bytes cf \<le> BLOCK_BYTES cf"
    using round_up_ge [of BLOCK_ALIGN ?u] by (simp add: BLOCK_BYTES_def BLOCK_ALIGN_def mult.commute)
  have "8 * PADDED_NUM_WORDS (elements_per_block cf) \<le> 8 * (elements_per_block cf + 2)"
    unfolding geometry using e(3) by (intro mult_le_mono order_refl) arith
  then have "round_up (8 * PADDED_NUM_WORDS (elements_per_block cf)) 64 < 8 * (elements_per_block cf + 2) + 64"
    using round_up_less [of 64 "8 * PADDED_NUM_WORDS (elements_per_block cf)"] by simp
  then have "DATA_OFFSET cf < 8 * 4294967296 + 400" using e(4) by (simp add: DATA_OFFSET_def)
  moreover have "element_size_in_bytes cf * elements_per_block cf \<le> 256 * 4294967296"
    using e by (intro mult_le_mono) auto
  ultimately have "?u + BLOCK_ALIGN < 18446744073709551616" by (simp add: BLOCK_ALIGN_def)
  then show "BLOCK_BYTES cf < 18446744073709551616"
    using round_up_less [of BLOCK_ALIGN ?u] by (simp add: BLOCK_BYTES_def BLOCK_ALIGN_def)
qed

lemma cell_end:
  assumes "bitblock_config_ok cf" and "snd c + k \<le> elements_per_block cf"
  shows "cell_address cf c + k * element_size_in_bytes cf \<le> fst c + BLOCK_BYTES cf"
proof -
  have "(snd c + k) * element_size_in_bytes cf \<le> elements_per_block cf * element_size_in_bytes cf"
    using assms(2) by (rule mult_le_mono1)
  then show ?thesis using layout(4) [OF assms(1)] by (simp add: cell_address_def algebra_simps)
qed

text \<open>The blocks as the upstream resource knows them.\<close>

definition blocks_apart :: "bitblock_config \<Rightarrow> addr set \<Rightarrow> bool" where
  "blocks_apart cf B \<longleftrightarrow> (\<forall>b\<in>B. b \<noteq> 0 \<and> b + BLOCK_BYTES cf < 18446744073709551616 \<and> 64 dvd b) \<and>
     (\<forall>b\<in>B. \<forall>d\<in>B. b \<noteq> d \<longrightarrow> apart b (BLOCK_BYTES cf) d (BLOCK_BYTES cf))"

lemma blocks_apartI:
  assumes "ledger_sound (R \<union> (\<lambda>b. (b, BLOCK_BYTES cf, BLOCK_ALIGN)) ` B)"
    and "\<And>b. b \<in> B \<Longrightarrow> b + BLOCK_BYTES cf < 18446744073709551616"
  shows "blocks_apart cf B"
proof -
  have p: "pow2 BLOCK_ALIGN" unfolding pow2_def BLOCK_ALIGN_def by (rule exI [of _ 6]) simp
  have "block_sound (b, BLOCK_BYTES cf, BLOCK_ALIGN)" if "b \<in> B" for b
    using assms(1) that unfolding ledger_sound_def by blast
  moreover have "apart b (BLOCK_BYTES cf) d (BLOCK_BYTES cf)" if "b \<in> B" "d \<in> B" "b \<noteq> d" for b d
    using ledger_sound_apart [OF assms(1), of b "BLOCK_BYTES cf" BLOCK_ALIGN d "BLOCK_BYTES cf" BLOCK_ALIGN] that by blast
  ultimately show ?thesis using p assms(2) by (simp add: blocks_apart_def block_sound_def BLOCK_ALIGN_def)
qed

lemma cells_apart:
  assumes ok: "bitblock_config_ok cf" and B: "blocks_apart cf B" and "fst c \<in> B" "fst d \<in> B"
    and "snd c + k \<le> elements_per_block cf" "snd d + m \<le> elements_per_block cf"
    and "run_cells c k \<inter> run_cells d m = {}" and "1 \<le> k" and "1 \<le> m"
  shows "apart (cell_address cf c) (k * element_size_in_bytes cf) (cell_address cf d) (m * element_size_in_bytes cf)"
proof (cases "fst c = fst d")
  case False
  then have "apart (fst c) (BLOCK_BYTES cf) (fst d) (BLOCK_BYTES cf)" using B assms(3,4) by (simp add: blocks_apart_def)
  moreover have "fst c \<le> cell_address cf c" "fst d \<le> cell_address cf d" by (simp_all add: cell_address_def)
  ultimately show ?thesis using cell_end [OF ok assms(5)] cell_end [OF ok assms(6)] unfolding apart_def by linarith
next
  case True
  let ?E = "element_size_in_bytes cf"
  have "snd c + k \<le> snd d \<or> snd d + m \<le> snd c"
  proof (rule ccontr)
    assume "\<not> (snd c + k \<le> snd d \<or> snd d + m \<le> snd c)"
    then have "max (snd c) (snd d) \<in> {snd c..<snd c + k}" "max (snd c) (snd d) \<in> {snd d..<snd d + m}"
      using assms(8,9) by auto
    then show False using assms(7) True unfolding run_cells_def by blast
  qed
  then have "(snd c + k) * ?E \<le> snd d * ?E \<or> (snd d + m) * ?E \<le> snd c * ?E" by (meson mult_le_mono1)
  then show ?thesis using True by (auto simp: apart_def cell_address_def algebra_simps)
qed

lemma cell_address_inj:
  assumes ok: "bitblock_config_ok cf" and B: "blocks_apart cf B" and "fst c \<in> B" "fst d \<in> B"
    and "snd c < elements_per_block cf" "snd d < elements_per_block cf" and "cell_address cf c = cell_address cf d"
  shows "c = d"
proof (rule ccontr)
  assume n: "c \<noteq> d"
  have c: "x = (fst x, snd x)" for x :: cell by simp
  have "run_cells c 1 \<inter> run_cells d 1 = {}" using n by (auto simp: run_cells_def prod_eq_iff)
  then have "apart (cell_address cf c) (1 * element_size_in_bytes cf) (cell_address cf d) (1 * element_size_in_bytes cf)"
    using assms by (intro cells_apart [OF ok B]) simp_all
  then show False using assms(7) layout(1) [OF ok] by (simp add: apart_def)
qed

section \<open>The contract, step by step\<close>

lemma cells_first: "1 \<le> cell_count s x \<Longrightarrow> first_cell cf s x \<in> cells cf s x"
  by (cases "first_cell cf s x") (simp add: cells_def run_cells_def)

lemma live_oneD:
  assumes "live_one cf s B x"
  shows "fst (first_cell cf s x) \<in> B" "fst x = cell_address cf (first_cell cf s x) + 16"
    "1 \<le> cell_count s x" "cell_count s x \<le> 16" "snd (first_cell cf s x) + cell_count s x \<le> elements_per_block cf"
    "fst (snd x) + 16 \<le> cell_count s x * element_size_in_bytes cf" "snd (snd x) \<le> 16"
  using assms by (simp_all add: live_one_def)

lemma live_sound:
  assumes ok: "bitblock_config_ok cf" and B: "blocks_apart cf B" and l: "live_one cf s B x"
  shows "block_sound x"
proof -
  obtain p b a where x: "x = (p, b, a)" by (cases x)
  note D = live_oneD [OF l]
  have own: "64 dvd fst (first_cell cf s x)" "fst (first_cell cf s x) + BLOCK_BYTES cf < 18446744073709551616"
    using B D(1) by (simp_all add: blocks_apart_def)
  have "p + b \<le> 18446744073709551616"
    using D(2,6) cell_end [OF ok D(5)] own(2) x by simp
  moreover have "pow2 a \<longrightarrow> a dvd p"
  proof
    assume "pow2 a"
    then have a16: "a dvd 16" using pow2_dvd_le [of a 4] D(7) x by simp
    have m: "16 dvd n" if "64 dvd n" for n :: nat using that dvd_trans [of 16 64 n] by simp
    have "16 dvd cell_address cf (first_cell cf s x)" unfolding cell_address_def
      by (intro dvd_add m own(1) layout(3) [OF ok] dvd_mult layout(2) [OF ok])
    then have "16 dvd p" using D(2) x by (metis dvd_add dvd_refl fst_conv)
    then show "a dvd p" using a16 dvd_trans by blast
  qed
  ultimately show ?thesis using D(2) x by (simp add: block_sound_def)
qed

lemma live_ledger_sound:
  assumes ok: "bitblock_config_ok cf" and B: "blocks_apart cf B" and l: "bb_live cf s L B H"
  shows "ledger_sound L"
  unfolding ledger_sound_def
proof (intro conjI ballI impI)
  fix x assume x: "x \<in> L"
  then have lx: "live_one cf s B x" using l by (simp add: bb_live_def)
  then show "block_sound x" by (rule live_sound [OF ok B])
  fix y assume y: "y \<in> L" "x \<noteq> y"
  then have ly: "live_one cf s B y" and dis: "cells cf s x \<inter> cells cf s y = {}"
    using l x by (simp_all add: bb_live_def)
  note X = live_oneD [OF lx] and Y = live_oneD [OF ly]
  have "apart (cell_address cf (first_cell cf s x)) (cell_count s x * element_size_in_bytes cf)
      (cell_address cf (first_cell cf s y)) (cell_count s y * element_size_in_bytes cf)"
    using dis X Y unfolding cells_def by (intro cells_apart [OF ok B])
  then have "apart (fst x) (fst (snd x)) (fst y) (fst (snd y))"
    using X(2,6) Y(2,6) unfolding apart_def by linarith
  moreover have "fst x \<noteq> fst y"
  proof
    assume "fst x = fst y"
    then have "cell_address cf (first_cell cf s x) = cell_address cf (first_cell cf s y)" using X(2) Y(2) by simp
    then have "first_cell cf s x = first_cell cf s y" using X Y by (intro cell_address_inj [OF ok B]) simp_all
    then show False using dis cells_first [OF X(3), of cf] cells_first [OF Y(3), of cf] by auto
  qed
  ultimately show "clear_of x y" by (simp add: clear_of_def)
qed

text \<open>Acquiring a run of a block.\<close>

lemma update_block_fields [simp]:
  "upstream (update_block b f s) = upstream s" "number_of_arenas (update_block b f s) = number_of_arenas s"
  "arenas (update_block b f s) = arenas s" "core_hints (update_block b f s) = core_hints s"
  "total_blocks (update_block b f s) = total_blocks s" "headers (update_block b f s) = headers s"
  "blocks (update_block b f s) = (blocks s)(b := f (blocks s b))"
  "bb_statistics (update_block b f s) = bb_statistics s"
  by (simp_all add: update_block_def)

lemma cells_cong:
  assumes "\<And>x. x \<in> L \<Longrightarrow> headers t (fst x - 16) = headers s (fst x - 16)"
  shows "x \<in> L \<Longrightarrow> cells cf t x = cells cf s x" and "x \<in> L \<Longrightarrow> live_one cf t B x = live_one cf s B x"
    and "bb_live cf t L B H = bb_live cf s L B H" and "(\<Union>x\<in>L. cells cf t x) = (\<Union>x\<in>L. cells cf s x)"
proof -
  have f: "first_cell cf t x = first_cell cf s x" "cell_count t x = cell_count s x" if "x \<in> L" for x
    using assms [OF that] by (simp_all add: first_cell_def cell_count_def)
  then have c: "cells cf t x = cells cf s x" if "x \<in> L" for x using that by (simp add: cells_def)
  then show "x \<in> L \<Longrightarrow> cells cf t x = cells cf s x" .
  have o: "live_one cf t B x = live_one cf s B x" if "x \<in> L" for x using f that by (simp add: live_one_def)
  then show "x \<in> L \<Longrightarrow> live_one cf t B x = live_one cf s B x" .
  show "bb_live cf t L B H = bb_live cf s L B H" using c o unfolding bb_live_def by auto
  show "(\<Union>x\<in>L. cells cf t x) = (\<Union>x\<in>L. cells cf s x)" using c by auto
qed

text \<open>A change of one block that keeps its links and its arena.\<close>

lemma bb_chains_update:
  assumes "\<And>k. next_block (f k) = next_block k" and "\<And>k. block_arena (f k) = block_arena k"
  shows "bb_chains cf (update_block b f s) cs = bb_chains cf s cs"
proof -
  have "(\<lambda>x. next_block (((blocks s)(b := f (blocks s b))) x)) = (\<lambda>x. next_block (blocks s x))"
    "(\<lambda>x. block_arena (((blocks s)(b := f (blocks s b))) x)) = (\<lambda>x. block_arena (blocks s x))"
    using assms by (auto simp: fun_eq_iff)
  then have "next_block (((blocks s)(b := f (blocks s b))) x) = next_block (blocks s x)"
    "block_arena (((blocks s)(b := f (blocks s b))) x) = block_arena (blocks s x)" for x by meson+
  then show ?thesis by (simp add: bb_chains_def block_set_def del: fun_upd_apply)
qed

lemma acquire_next:
  assumes ok: "bitblock_config_ok cf" and inv: "bb_inv cf ow s L R cs {}" and b: "b \<in> block_set s cs"
    and call: "acquire_next_empty_block cf num off b s = (r, t)"
  shows "case r of None \<Rightarrow> t = s
    | Some i \<Rightarrow> 1 \<le> num \<and> num \<le> 16 \<and> i + num \<le> elements_per_block cf \<and> bb_inv cf ow t L R cs (run_cells (b, i) num) \<and>
        block_set t cs = block_set s cs \<and> upstream t = upstream s \<and> headers t = headers s \<and> number_of_arenas t = number_of_arenas s"
proof -
  let ?N = "elements_per_block cf" and ?ea = "element_allocations (blocks s b)"
  let ?C = "\<Union>x\<in>L. cells cf s x"
  show ?thesis
  proof (cases "num = 0 \<or> num > ?N \<or> num > 16 \<or> unat (free_count (blocks s b)) < num")
    case True
    then show ?thesis using call by (auto simp: acquire_next_empty_block_def split: if_splits)
  next
    case False
    have cnt: "set_ok ?N ?ea" "acquired ?N ?ea = {j. (b, j) \<in> ?C}" "unat (free_count (blocks s b)) + card {j. (b, j) \<in> ?C} = ?N"
      using bb_invD(4) [OF inv] b by (simp_all add: bb_counts_def)
    obtain q ea where scan: "acquire_first_available_contiguous ?N num off ?ea = (q, ea)" by fastforce
    have spec: "case q of Some i \<Rightarrow> grabbed ?N num ?ea i ea | None \<Rightarrow> ea = ?ea"
      using contiguous_spec [OF cnt(1), of num off] False scan layout(7) [OF ok] by (auto split: option.splits)
    show ?thesis
    proof (cases q)
      case None
      have "update_block b (\<lambda>k. k\<lparr>element_allocations := ?ea\<rparr>) s = s" by (simp add: update_block_def)
      then show ?thesis using None call scan spec False by (auto simp: acquire_next_empty_block_def)
    next
      case (Some i)
      let ?f = "\<lambda>k. k\<lparr>element_allocations := ea, free_count := free_count k - of_nat num\<rparr>"
      have t: "r = Some i" "t = update_block b ?f s" using call scan Some False by (auto simp: acquire_next_empty_block_def)
      have g: "free_run ?N num ?ea i" "set_ok ?N ea" "acquired ?N ea = acquired ?N ?ea \<union> {i..<i + num}"
        using spec Some by (simp_all add: grabbed_def)
      have free: "{i..<i + num} \<inter> {j. (b, j) \<in> ?C} = {}" and fit: "i + num \<le> ?N"
        using g(1) cnt(2) by (simp_all add: free_run_def)
      let ?H = "run_cells (b, i) num"
      have H: "{j. (d, j) \<in> ?H \<union> ?C} = (if d = b then {i..<i + num} else {}) \<union> {j. (d, j) \<in> ?C}" for d
        by (auto simp: run_cells_def)
      have "finite (acquired ?N ?ea)" by (simp add: acquired_def)
      then have fin: "finite {j. (b, j) \<in> ?C}" unfolding cnt(2) .
      have card: "card {j. (b, j) \<in> ?H \<union> ?C} = num + card {j. (b, j) \<in> ?C}"
        unfolding H using free fin by (simp add: card_Un_disjoint)
      have small: "unat (of_nat num :: u32) = num" using False by (simp add: unat_of_nat)
      have fc: "unat (free_count (blocks s b) - of_nat num) = unat (free_count (blocks s b)) - num"
        using small False by (subst unat_sub) (simp_all add: word_le_nat_alt)
      have cc: "(\<Union>x\<in>L. cells cf t x) = ?C" "bb_live cf t L B K = bb_live cf s L B K" for B K
        by (rule cells_cong; simp add: t)+
      have bs: "block_set t cs = block_set s cs" by (simp add: t block_set_def)
      have "bb_counts cf t cs (?H \<union> (\<Union>x\<in>L. cells cf t x))"
        unfolding cc bb_counts_def bs
      proof
        fix d assume d: "d \<in> block_set s cs"
        show "set_ok ?N (element_allocations (blocks t d)) \<and> acquired ?N (element_allocations (blocks t d)) = {j. (d, j) \<in> ?H \<union> ?C} \<and>
            unat (free_count (blocks t d)) + card {j. (d, j) \<in> ?H \<union> ?C} = ?N"
        proof (cases "d = b")
          case True
          then show ?thesis using g(2,3) cnt fc card False H [of b] by (simp add: t Un_commute)
        next
          case False
          then show ?thesis using bb_invD(4) [OF inv] d unfolding H by (simp add: t bb_counts_def)
        qed
      qed
      moreover have "cells cf s x \<inter> ?H = {}" if "x \<in> L" for x using free that by (auto simp: run_cells_def)
      then have "bb_live cf t L (block_set t cs) ?H" using bb_invD(5) [OF inv] unfolding bs cc(2)
        by (simp add: bb_live_def)
      moreover have "bb_chains cf t cs" unfolding t using bb_invD(1) [OF inv] by (subst bb_chains_update) simp_all
      ultimately have "bb_inv cf ow t L R cs ?H" using bb_invD(2,3) [OF inv] bs
        by (simp add: bb_inv_def bb_cap_def bb_upstream_def t)
      then show ?thesis using t(1) fit False bs by (simp add: t(2))
    qed
  qed
qed

text \<open>Enough elements for the bytes and the header, and none when the sum would wrap.\<close>

lemma elements_for_bytes_enough:
  assumes ok: "bitblock_config_ok cf" and "n < 18446744073709551616" and nz: "elements_for_bytes cf n \<noteq> 0"
  shows "n + 16 \<le> elements_for_bytes cf n * element_size_in_bytes cf"
proof -
  let ?E = "element_size_in_bytes cf"
  have E: "0 < ?E" "?E \<le> 256" using layout [OF ok] by simp_all
  have fit: "n + 16 < 18446744073709551616" and el: "elements_for_bytes cf n = sub64 (add64 (n + 16) ?E) 1 div ?E"
    using nz by (auto simp: elements_for_bytes_def bytes_with_header_def SIZE_MAX_def HEADER_SIZE_def Let_def split: if_splits)
  have "n + 16 + ?E \<le> 18446744073709551616"
  proof (rule ccontr)
    assume "\<not> n + 16 + ?E \<le> 18446744073709551616"
    then have "add64 (n + 16) ?E = n + 16 + ?E - 18446744073709551616" "0 < n + 16 + ?E - 18446744073709551616"
      using fit E(2) by (simp_all add: add64_def mod_if)
    moreover have "n + 16 + ?E - 18446744073709551616 < ?E" using fit E(1) by linarith
    ultimately have "sub64 (add64 (n + 16) ?E) 1 < ?E" using E(2) by (simp only: sub64_exact)
    then show False using nz el by simp
  qed
  then have "sub64 (add64 (n + 16) ?E) 1 = n + 16 + (?E - 1)"
    using E by (cases "n + 16 + ?E = 18446744073709551616") (simp_all add: add64_def sub64_def mod_if)
  then have "elements_for_bytes cf n * ?E = round_up (n + 16) ?E" by (simp add: el round_up_def)
  then show ?thesis using round_up_ge [OF E(1), of "n + 16"] by simp
qed

text \<open>Hints point at blocks.\<close>

lemma set_core_hint_inv:
  assumes "bb_inv cf ow s L R cs H" and "b \<in> block_set s cs"
  shows "bb_inv cf ow (set_core_hint cf cpu b s) L R cs H"
proof -
  let ?t = "set_core_hint cf cpu b s"
  have bs: "block_set ?t cs = block_set s cs" by (simp add: block_set_def set_core_hint_def)
  have c: "bb_live cf ?t L B H = bb_live cf s L B H" "(\<Union>x\<in>L. cells cf ?t x) = (\<Union>x\<in>L. cells cf s x)" for B
    by (rule cells_cong; simp add: set_core_hint_def)+
  show ?thesis using assms unfolding bb_inv_def bs c
    by (auto simp: bb_chains_def bb_cap_def bb_upstream_def bb_counts_def bs) (auto simp: set_core_hint_def)
qed

lemma set_arena_hint_inv:
  assumes "bb_inv cf ow s L R cs H" and "b \<in> block_set s cs"
  shows "bb_inv cf ow (update_arena i (\<lambda>a. a\<lparr>allocation_hint := b\<rparr>) s) L R cs H"
proof -
  let ?t = "update_arena i (\<lambda>a. a\<lparr>allocation_hint := b\<rparr>) s"
  have bs: "block_set ?t cs = block_set s cs" by (simp add: block_set_def update_arena_def)
  have c: "bb_live cf ?t L B H = bb_live cf s L B H" "(\<Union>x\<in>L. cells cf ?t x) = (\<Union>x\<in>L. cells cf s x)" for B
    by (rule cells_cong; simp add: update_arena_def)+
  show ?thesis using assms unfolding bb_inv_def bs c
    by (auto simp: bb_chains_def bb_cap_def bb_upstream_def bb_counts_def bs) (auto simp: update_arena_def)
qed

lemma counted_inv: "bb_inv cf ow (counted f s) L R cs H = bb_inv cf ow s L R cs H"
proof -
  have bs: "block_set (counted f s) cs = block_set s cs" by (simp add: block_set_def counted_def)
  have c: "bb_live cf (counted f s) L B H = bb_live cf s L B H"
    "(\<Union>x\<in>L. cells cf (counted f s) x) = (\<Union>x\<in>L. cells cf s x)" for B
    by (rule cells_cong; simp add: counted_def)+
  show ?thesis unfolding bb_inv_def bs c
    by (auto simp: bb_chains_def bb_cap_def bb_upstream_def bb_counts_def bs) (auto simp: counted_def)
qed

lemma hint_fields [simp]:
  "block_set (set_core_hint cf cpu b s) cs = block_set s cs" "block_set (update_arena i f s) cs = block_set s cs"
  "block_set (counted g s) cs = block_set s cs"
  "upstream (set_core_hint cf cpu b s) = upstream s" "upstream (update_arena i f s) = upstream s"
  "headers (set_core_hint cf cpu b s) = headers s" "headers (update_arena i f s) = headers s"
  "number_of_arenas (set_core_hint cf cpu b s) = number_of_arenas s" "number_of_arenas (update_arena i f s) = number_of_arenas s"
  "blocks (set_core_hint cf cpu b s) = blocks s" "blocks (update_arena i f s) = blocks s"
  by (simp_all add: set_core_hint_def update_arena_def block_set_def counted_def)

text \<open>Handing out the run in hand: its header names the block and the length.\<close>

lemma finalize_inv:
  assumes ok: "bitblock_config_ok cf" and B: "blocks_apart cf (block_set s cs)"
    and inv: "bb_inv cf ow s L R cs (run_cells (b, i) num)" and b: "b \<in> block_set s cs"
    and n: "1 \<le> num" "num \<le> 16" "i + num \<le> elements_per_block cf"
    and fit: "bytes + 16 \<le> num * element_size_in_bytes cf" "al \<le> 16"
    and call: "finalize_allocation cf cpu b i num s = (p, t)"
  shows "p \<notin> fst ` L \<and> bb_inv cf ow t (insert (p, bytes, al) L) R cs {} \<and> block_from_allocation t p = b \<and>
    block_set t cs = block_set s cs"
proof -
  let ?E = "element_size_in_bytes cf" and ?N = "elements_per_block cf"
  let ?H = "run_cells (b, i) num" and ?a = "cell_address cf (b, i)"
  let ?x = "(p, bytes, al)"
  have E: "0 < ?E" using layout [OF ok] by simp
  have bB: "b + BLOCK_BYTES cf < 18446744073709551616" "b \<noteq> 0" using B b by (simp_all add: blocks_apart_def)
  have ce: "?a + num * ?E < 18446744073709551616" using cell_end [OF ok, of "(b, i)" num] n(3) bB by simp
  have E16: "16 \<le> ?E" using layout(2) [OF ok] E dvd_imp_le by blast
  have nE: "?E \<le> num * ?E" using n(1) by simp
  have a: "?a = b + DATA_OFFSET cf + i * ?E" by (simp add: cell_address_def)
  have lt: "i * ?E < 18446744073709551616" "b + DATA_OFFSET cf < 18446744073709551616" "?a + 16 < 18446744073709551616"
    using ce E16 nE unfolding a by linarith+
  then have "mul64 i ?E = i * ?E" "add64 b (DATA_OFFSET cf) = b + DATA_OFFSET cf" "add64 (b + DATA_OFFSET cf) (i * ?E) = ?a"
    "add64 ?a HEADER_SIZE = ?a + 16"
    by (simp_all add: mul64_exact add64_exact a HEADER_SIZE_def)
  then have p: "p = ?a + 16" and t: "t = (counted (allocation_made cpu (mul64 num ?E)) s)\<lparr>headers :=
      (headers s)(?a := \<lparr>owner = b, num_elements = of_nat num\<rparr>)\<rparr>"
    using call by (auto simp: finalize_allocation_def Let_def counted_def)
  have p16: "p - 16 = ?a" using p by simp
  note live = bb_invD(5) [OF inv]
  have cell: "(b, i) \<in> ?H" using n(1) by (simp add: run_cells_def)
  have other: "fst y - 16 \<noteq> ?a" if y: "y \<in> L" for y
  proof
    assume e: "fst y - 16 = ?a"
    have ly: "live_one cf s (block_set s cs) y" "cells cf s y \<inter> ?H = {}" using live y by (simp_all add: bb_live_def)
    note D = live_oneD [OF ly(1)]
    have "cell_address cf (first_cell cf s y) = ?a" using D(2) e by simp
    then have "first_cell cf s y = (b, i)" using D(1,3,5) b n by (intro cell_address_inj [OF ok B]) simp_all
    then show False using cells_first [OF D(3), of cf] ly(2) cell by auto
  qed
  have bs: "block_set t cs = block_set s cs" by (simp add: t block_set_def counted_def)
  have c: "x \<in> L \<Longrightarrow> cells cf t x = cells cf s x" "x \<in> L \<Longrightarrow> live_one cf t K x = live_one cf s K x"
    "(\<Union>x\<in>L. cells cf t x) = (\<Union>x\<in>L. cells cf s x)" for x K
    by (rule cells_cong; simp add: t other counted_def)+
  have num: "unat (of_nat num :: u32) = num" using n(2) by (simp add: unat_of_nat)
  have fc: "first_cell cf t ?x = (b, i)" "cell_count t ?x = num"
    using E by (simp_all add: first_cell_def cell_count_def p16 t a num)
  then have cx: "cells cf t ?x = ?H" by (simp add: cells_def)
  have new: "p \<notin> fst ` L" using other p16 by force
  have "live_one cf t (block_set t cs) ?x"
    using fc b n fit p bs by (simp add: live_one_def)
  then have "bb_live cf t (insert ?x L) (block_set t cs) {}"
    using live c unfolding bb_live_def bs by (auto simp: cx)
  moreover have "(\<Union>x\<in>insert ?x L. cells cf t x) = ?H \<union> (\<Union>x\<in>L. cells cf s x)" using c(3) cx by simp
  moreover have "bb_chains cf t cs = bb_chains cf s cs" "bb_cap cf t cs = bb_cap cf s cs"
    "bb_upstream cf ow t R cs = bb_upstream cf ow s R cs" "bb_counts cf t cs C = bb_counts cf s cs C" for C
    by (simp_all add: bb_chains_def bb_cap_def bb_upstream_def bb_counts_def bs) (simp_all add: t counted_def)
  ultimately have "bb_inv cf ow t (insert ?x L) R cs {}"
    using bb_invD(1-4) [OF inv] by (simp add: bb_inv_def)
  moreover have "block_from_allocation t p = b"
    using p lt by (simp add: block_from_allocation_def HEADER_SIZE_def sub64_exact) (simp add: t)
  ultimately show ?thesis using new bs by blast
qed

lemma new_block_has_run:
  assumes ok: "bitblock_config_ok cf" and "1 \<le> num" "num \<le> 16"
    and new: "free_count (blocks s b) = of_nat (elements_per_block cf)"
      "element_allocations (blocks s b) = empty_bitblock_set (elements_per_block cf)"
  shows "\<exists>i t. acquire_next_empty_block cf num off b s = (Some i, t)"
proof -
  let ?N = "elements_per_block cf"
  have N: "256 \<le> ?N" "?N < 4294967296" using ok by (simp_all add: bitblock_config_ok_def)
  have fc: "unat (free_count (blocks s b)) = ?N" using N by (simp add: new unat_of_nat)
  have "free_run ?N num (empty_bitblock_set ?N) 0" using assms(2,3) N by (simp add: free_run_def empty_set_ok)
  then obtain i ea where "acquire_first_available_contiguous ?N num off (empty_bitblock_set ?N) = (Some i, ea)"
    using contiguous_spec [OF empty_set_ok(1) assms(2,3), of ?N off] N(1)
    by (cases "acquire_first_available_contiguous ?N num off (empty_bitblock_set ?N)") (auto split: option.splits)
  then show ?thesis using assms(2,3) N fc by (auto simp: acquire_next_empty_block_def new)
qed

locale bitblock_over = up: memory_resource al de ow
  for al :: "'u allocate_fn" and de :: "'u deallocate_fn" and ow :: "'u \<Rightarrow> ledger \<Rightarrow> bool" +
  fixes cf :: bitblock_config and R :: ledger
  assumes config: "bitblock_config_ok cf"
    and ends_below: "ow u M \<Longrightarrow> (p, b, a) \<in> M \<Longrightarrow> p + b < 18446744073709551616"
begin

lemma inv_apart: "bb_inv cf ow s L R cs H \<Longrightarrow> blocks_apart cf (block_set s cs)"
  using bb_invD(3) unfolding bb_upstream_def
  by (blast intro: blocks_apartI up.owns_sound ends_below)

lemma inv_path:
  assumes "bb_inv cf ow s L R cs H" and "i < number_of_arenas s"
  shows "path (\<lambda>b. next_block (blocks s b)) (first_block (arenas s i)) (cs i) 0" "set (cs i) \<subseteq> block_set s cs"
  using bb_invD(1) [OF assms(1)] assms(2) by (auto simp: bb_chains_def block_set_def)

text \<open>What a step that serves a request leaves behind.\<close>

definition served :: "nat \<Rightarrow> nat \<Rightarrow> ledger \<Rightarrow> nat \<Rightarrow> addr option \<Rightarrow> 'u bitblock_resource \<Rightarrow> bool" where
  "served bytes algn L n r t \<longleftrightarrow> number_of_arenas t = n \<and> (case r of
      None \<Rightarrow> \<exists>cs. bb_inv cf ow t L R cs {}
    | Some p \<Rightarrow> p \<notin> fst ` L \<and> (\<exists>cs. bb_inv cf ow t (insert (p, bytes, algn) L) R cs {} \<and>
        block_from_allocation t p \<in> block_set t cs))"

lemma finalize_fields: "finalize_allocation cf cpu b i num s = (p, t) \<Longrightarrow> number_of_arenas t = number_of_arenas s"
  by (auto simp: finalize_allocation_def Let_def counted_def)

lemma finalize_served:
  assumes "bb_inv cf ow s L R cs (run_cells (b, i) num)" and "b \<in> block_set s cs"
    and "1 \<le> num" "num \<le> 16" "i + num \<le> elements_per_block cf"
    and "bytes + 16 \<le> num * element_size_in_bytes cf" "algn \<le> 16"
    and "finalize_allocation cf cpu b i num s = (p, t)"
  shows "served bytes algn L (number_of_arenas s) (Some p) t"
  using finalize_inv [OF config inv_apart [OF assms(1)] assms] finalize_fields [OF assms(8)] assms(2)
  unfolding served_def option.case by metis

lemma take_run_served:
  assumes "bb_inv cf ow s L R cs (run_cells (b, i) num)" and "b \<in> block_set s cs"
    and "1 \<le> num" "num \<le> 16" "i + num \<le> elements_per_block cf"
    and "bytes + 16 \<le> num * element_size_in_bytes cf" "algn \<le> 16"
    and "take_run cf cpu j num (b, i) s = (p, t)"
  shows "served bytes algn L (number_of_arenas s) (Some p) t"
  using finalize_served [OF set_arena_hint_inv [OF assms(1,2), of j] _ assms(3-7), of cpu p t] assms(2,8)
  by (simp add: take_run_def)

lemma core_hint_served:
  assumes "served bytes algn L n (Some p) t"
  shows "served bytes algn L n (Some p) (set_core_hint cf cpu (block_from_allocation t p) t)"
proof -
  let ?b = "block_from_allocation t p"
  obtain cs where cs: "bb_inv cf ow t (insert (p, bytes, algn) L) R cs {}" "?b \<in> block_set t cs"
    using assms by (auto simp: served_def)
  have "block_from_allocation (set_core_hint cf cpu ?b t) p = ?b" by (simp add: block_from_allocation_def)
  then show ?thesis using set_core_hint_inv [OF cs, of cpu] cs(2) assms unfolding served_def option.case by auto
qed

lemma search_chain_spec:
  assumes inv: "bb_inv cf ow s L R cs {}" and "path (\<lambda>b. next_block (blocks s b)) cur xs 0" and "set xs \<subseteq> block_set s cs"
  shows "\<exists>r t. search_chain cf num off cur s = Some (r, t) \<and> (case r of
      None \<Rightarrow> t = s \<and> (\<forall>b\<in>set xs. acquire_next_empty_block cf num off b s = (None, s))
    | Some (b, i) \<Rightarrow> b \<in> set xs \<and> acquire_next_empty_block cf num off b s = (Some i, t))"
  using assms(2,3)
proof (induction xs arbitrary: cur)
  case Nil
  then show ?case by (subst search_chain.simps) simp
next
  case (Cons b xs)
  then have b: "cur = b" "b \<noteq> 0" "b \<in> block_set s cs" by auto
  obtain r t where call: "acquire_next_empty_block cf num off b s = (r, t)" by fastforce
  have step: "case r of None \<Rightarrow> t = s | Some i \<Rightarrow> True"
    using acquire_next [OF config inv b(3) call] by (auto split: option.splits)
  show ?case
  proof (cases r)
    case None
    then have ts: "t = s" using step by simp
    have "search_chain cf num off cur s = search_chain cf num off (next_block (blocks s b)) s"
      using b None call ts by (subst search_chain.simps) simp
    then show ?thesis using Cons.IH [of "next_block (blocks s b)"] Cons.prems None call ts
      by (fastforce split: option.splits)
  next
    case (Some i)
    then have "search_chain cf num off cur s = Some (Some (b, i), t)"
      using b call by (subst search_chain.simps) simp
    then show ?thesis using Some call by auto
  qed
qed

text \<open>Serving from a list of blocks, or finding nothing and changing nothing.\<close>

lemma search_served:
  assumes inv: "bb_inv cf ow s L R cs {}" and "path (\<lambda>b. next_block (blocks s b)) cur xs 0" and "set xs \<subseteq> block_set s cs"
    and fit: "bytes + 16 \<le> num * element_size_in_bytes cf" "algn \<le> 16"
  shows "\<exists>r t. search_chain cf num off cur s = Some (r, t) \<and> (case r of
      None \<Rightarrow> t = s \<and> (\<forall>b\<in>set xs. acquire_next_empty_block cf num off b s = (None, s))
    | Some x \<Rightarrow> \<forall>cpu j p u. take_run cf cpu j num x t = (p, u) \<longrightarrow> served bytes algn L (number_of_arenas s) (Some p) u)"
proof -
  obtain r t where st: "search_chain cf num off cur s = Some (r, t)" and R: "case r of
      None \<Rightarrow> t = s \<and> (\<forall>b\<in>set xs. acquire_next_empty_block cf num off b s = (None, s))
    | Some (b, i) \<Rightarrow> b \<in> set xs \<and> acquire_next_empty_block cf num off b s = (Some i, t)"
    using search_chain_spec [OF assms(1-3), of num off] by blast
  show ?thesis
  proof (cases r)
    case None
    then show ?thesis using st R by simp
  next
    case (Some x)
    obtain b i where x: "x = (b, i)" by (cases x)
    have bi: "b \<in> block_set s cs" "acquire_next_empty_block cf num off b s = (Some i, t)"
      using R Some x assms(3) by auto
    have A: "1 \<le> num" "num \<le> 16" "i + num \<le> elements_per_block cf" "bb_inv cf ow t L R cs (run_cells (b, i) num)"
      "block_set t cs = block_set s cs" "number_of_arenas t = number_of_arenas s"
      using acquire_next [OF config inv bi] by simp_all
    have "b \<in> block_set t cs" using bi(1) A(5) by simp
    note T = take_run_served [OF A(4) this A(1-3) fit, unfolded A(6)]
    show ?thesis using st Some x T by auto
  qed
qed

lemma add_new_block_spec:
  assumes inv: "bb_inv cf ow s L R cs {}" and i: "i < number_of_arenas s" and cpu: "cpu < 4294967296"
  shows "\<exists>added cap t. add_new_block cf al cpu i s = Some (added, cap, t) \<and> number_of_arenas t = number_of_arenas s \<and>
    (if added then \<exists>d. bb_inv cf ow t L R (cs(i := d # cs i)) {} \<and> first_block (arenas t i) = d \<and> d \<noteq> 0 \<and>
        free_count (blocks t d) = of_nat (elements_per_block cf) \<and>
        element_allocations (blocks t d) = empty_bitblock_set (elements_per_block cf)
     else bb_inv cf ow t L R cs {})"
proof (cases "total_blocks s < max_number_of_blocks cf")
  case False
  then have "add_new_block cf al cpu i s = Some (False, True, s)" by (simp add: add_new_block_def try_reserve_block_def)
  then show ?thesis using inv by (intro exI [of _ False] exI [of _ True] exI [of _ s]) simp
next
  case True
  let ?Z = "BLOCK_BYTES cf" and ?B = "block_set s cs"
  let ?M = "R \<union> (\<lambda>b. (b, ?Z, BLOCK_ALIGN)) ` ?B"
  note I = bb_invD [OF inv]
  have own: "ow (upstream s) ?M" and RB: "fst ` R \<inter> ?B = {}" using I(3) by (simp_all add: bb_upstream_def)
  have arg: "arg_ok cpu ?Z BLOCK_ALIGN" using cpu layout(5) [OF config] by (simp add: arg_ok_def BLOCK_ALIGN_def)
  obtain r u where call: "al cpu (upstream s) ?Z BLOCK_ALIGN = Some (r, u)" using up.alloc_returns [OF own arg] by fastforce
  have tb: "sub64 (Suc (total_blocks s)) (Suc 0) = total_blocks s"
    using True config by (simp add: sub64_exact bitblock_config_ok_def)
  show ?thesis
  proof (cases r)
    case None
    have "ow u ?M" using up.alloc_null [OF own arg] call None by simp
    moreover let ?t = "s\<lparr>upstream := u\<rparr>"
    have bs: "block_set ?t cs = ?B" by (simp add: block_set_def)
    have c: "bb_live cf ?t L B H = bb_live cf s L B H" "(\<Union>x\<in>L. cells cf ?t x) = (\<Union>x\<in>L. cells cf s x)" for B H
      by (rule cells_cong; simp)+
    ultimately have "bb_inv cf ow ?t L R cs {}" using inv RB unfolding bb_inv_def bs c
      by (simp add: bb_chains_def bb_cap_def bb_upstream_def bb_counts_def bs)
    moreover have "add_new_block cf al cpu i s = Some (False, False, ?t)"
      using call None True tb by (simp add: add_new_block_def try_reserve_block_def release_block_reservation_def)
    ultimately show ?thesis by (intro exI [of _ False] exI [of _ False] exI [of _ ?t]) simp
  next
    case (Some d)
    have new: "d \<notin> fst ` ?M" and own': "ow u (insert (d, ?Z, BLOCK_ALIGN) ?M)"
      using up.alloc_some [OF own arg] call Some by auto
    have dB: "d \<notin> ?B" "d \<notin> fst ` R" using new by force+
    have d0: "d \<noteq> 0" using up.owns_sound [OF own'] by (auto simp: ledger_sound_def block_sound_def)
    let ?blk = "(new_bitblock cf)\<lparr>block_arena := i, next_block := first_block (arenas s i)\<rparr>"
    let ?cs = "cs(i := d # cs i)"
    define t where "t = update_arena i (\<lambda>a. a\<lparr>first_block := d, block_count := add64 (block_count a) 1\<rparr>)
        (s\<lparr>total_blocks := total_blocks s + 1, upstream := u, blocks := (blocks s)(d := ?blk)\<rparr>)"
    have f: "add_new_block cf al cpu i s = Some (True, False, t)"
      using call Some True by (simp add: add_new_block_def try_reserve_block_def t_def update_arena_def)
    have bs: "block_set t ?cs = insert d ?B" using i by (auto simp: block_set_def t_def split: if_splits)
    have c: "bb_live cf t L B H = bb_live cf s L B H" "(\<Union>x\<in>L. cells cf t x) = (\<Union>x\<in>L. cells cf s x)" for B H
      by (rule cells_cong; simp add: t_def)+
    have empty: "{j. (d, j) \<in> (\<Union>x\<in>L. cells cf s x)} = {}"
    proof -
      have "fst (first_cell cf s x) \<noteq> d" if "x \<in> L" for x
        using live_oneD(1) [of cf s ?B x] I(5) that dB(1) by (auto simp: bb_live_def)
      then show ?thesis by (auto simp: cells_def run_cells_def)
    qed
    have N: "unat (of_nat (elements_per_block cf) :: u32) = elements_per_block cf"
      using layout(8) [OF config] by (simp add: unat_of_nat)
    have "bb_counts cf t ?cs ({} \<union> (\<Union>x\<in>L. cells cf t x))" unfolding c(2) bb_counts_def bs
    proof
      fix b assume b: "b \<in> insert d ?B"
      show "set_ok (elements_per_block cf) (element_allocations (blocks t b)) \<and>
        acquired (elements_per_block cf) (element_allocations (blocks t b)) = {j. (b, j) \<in> {} \<union> (\<Union>x\<in>L. cells cf s x)} \<and>
        unat (free_count (blocks t b)) + card {j. (b, j) \<in> {} \<union> (\<Union>x\<in>L. cells cf s x)} = elements_per_block cf"
      proof (cases "b = d")
        case True
        then show ?thesis using empty N by (simp add: t_def new_bitblock_def empty_set_ok)
      next
        case False
        then show ?thesis using I(4) b by (simp add: t_def bb_counts_def)
      qed
    qed
    moreover have "bb_chains cf t ?cs"
    proof -
      have "path (\<lambda>b. next_block (blocks t b)) (first_block (arenas t j)) (?cs j) 0 \<and> distinct (?cs j) \<and>
          (\<forall>b\<in>set (?cs j). block_arena (blocks t b) = j)" if j: "j < number_of_arenas s" for j
      proof -
        have P: "path (\<lambda>b. next_block (blocks s b)) (first_block (arenas s j)) (cs j) 0" "distinct (cs j)"
          "\<forall>b\<in>set (cs j). block_arena (blocks s b) = j" and sub: "set (cs j) \<subseteq> ?B"
          using I(1) j by (auto simp: bb_chains_def block_set_def)
        have "path (\<lambda>b. next_block (blocks t b)) (first_block (arenas s j)) (cs j) 0"
          by (rule path_cong [OF P(1)]) (use sub dB in \<open>auto simp: t_def\<close>)
        then show ?thesis using P sub dB d0 by (auto simp: t_def update_arena_def new_bitblock_def)
      qed
      moreover have "allocation_hint (arenas t j) = allocation_hint (arenas s j)" "core_hints t h = core_hints s h" for j h
        by (simp_all add: t_def update_arena_def)
      moreover have "number_of_arenas t = number_of_arenas s" by (simp add: t_def)
      moreover have "core_hints s h = 0 \<or> core_hints s h = d \<or> core_hints s h \<in> ?B"
        "allocation_hint (arenas s j) = 0 \<or> allocation_hint (arenas s j) = d \<or> allocation_hint (arenas s j) \<in> ?B"
        "1 \<le> number_of_arenas s" for h j
        using I(1) unfolding bb_chains_def by meson+
      ultimately show ?thesis unfolding bb_chains_def bs insert_iff by (simp del: fun_upd_apply)
    qed
    moreover have "bb_cap cf t ?cs"
    proof -
      have "(\<Sum>j<number_of_arenas s. length (?cs j)) = (\<Sum>j<number_of_arenas s. length (cs j)) + 1"
        using i by (subst (1 2) sum.remove [of _ i]) auto
      then show ?thesis using I(2) True by (simp add: bb_cap_def t_def update_arena_def)
    qed
    moreover have "bb_upstream cf ow t R ?cs" unfolding bb_upstream_def bs
      using own' RB dB by (simp add: t_def)
    moreover have "bb_live cf t L (block_set t ?cs) {}" unfolding c bs
      using I(5) by (auto simp: bb_live_def live_one_def)
    ultimately have "bb_inv cf ow t L R ?cs {}" by (simp add: bb_inv_def)
    moreover have "number_of_arenas t = number_of_arenas s" "first_block (arenas t i) = d"
      "free_count (blocks t d) = of_nat (elements_per_block cf)"
      "element_allocations (blocks t d) = empty_bitblock_set (elements_per_block cf)"
      by (simp_all add: t_def new_bitblock_def update_arena_def)
    ultimately show ?thesis using f d0 by (intro exI [of _ True] exI [of _ False] exI [of _ t]) auto
  qed
qed

lemma arena_loop_served:
  assumes inv: "bb_inv cf ow s L R cs {}" and i: "i < number_of_arenas s" and cpu: "cpu < 4294967296"
    and num: "1 \<le> num" "num \<le> 16" and fit: "bytes + 16 \<le> num * element_size_in_bytes cf" "algn \<le> 16"
  shows "\<exists>r cap t. arena_loop cf al cpu i num off (first_block (arenas s i)) s = Some (r, cap, t) \<and>
    served bytes algn L (number_of_arenas s) r t"
proof -
  note S = search_served [OF inv inv_path [OF inv i] fit, of off]
  obtain r t where st: "search_chain cf num off (first_block (arenas s i)) s = Some (r, t)" and R: "case r of
      None \<Rightarrow> t = s \<and> (\<forall>b\<in>set (cs i). acquire_next_empty_block cf num off b s = (None, s))
    | Some x \<Rightarrow> \<forall>cpu j p u. take_run cf cpu j num x t = (p, u) \<longrightarrow> served bytes algn L (number_of_arenas s) (Some p) u"
    using S by blast
  show ?thesis
  proof (cases r)
    case (Some x)
    obtain p u where tr: "take_run cf cpu i num x t = (p, u)" by fastforce
    then have "arena_loop cf al cpu i num off (first_block (arenas s i)) s = Some (Some p, False, u)"
      using st Some by (subst arena_loop.simps) simp
    then show ?thesis using R Some tr by auto
  next
    case None
    then have ts: "t = s" using R by simp
    obtain added cap v where nb: "add_new_block cf al cpu i s = Some (added, cap, v)" "number_of_arenas v = number_of_arenas s"
      and N: "if added then \<exists>d. bb_inv cf ow v L R (cs(i := d # cs i)) {} \<and> first_block (arenas v i) = d \<and> d \<noteq> 0 \<and>
          free_count (blocks v d) = of_nat (elements_per_block cf) \<and>
          element_allocations (blocks v d) = empty_bitblock_set (elements_per_block cf)
        else bb_inv cf ow v L R cs {}"
      using add_new_block_spec [OF inv i cpu] by blast
    have loop: "arena_loop cf al cpu i num off (first_block (arenas s i)) s =
        (if added then arena_loop cf al cpu i num off (first_block (arenas v i)) v else Some (None, cap, v))"
      using st None ts nb(1) by (subst arena_loop.simps) simp
    show ?thesis
    proof (cases added)
      case False
      then show ?thesis using loop N nb(2) by (auto simp: served_def)
    next
      case True
      then obtain d where d: "bb_inv cf ow v L R (cs(i := d # cs i)) {}" "first_block (arenas v i) = d"
        "free_count (blocks v d) = of_nat (elements_per_block cf)"
        "element_allocations (blocks v d) = empty_bitblock_set (elements_per_block cf)" using N by auto
      have iv: "i < number_of_arenas v" using i nb(2) by simp
      obtain j w where run: "acquire_next_empty_block cf num off d v = (Some j, w)"
        using new_block_has_run [OF config num d(3,4)] by blast
      obtain r' t' where st': "search_chain cf num off (first_block (arenas v i)) v = Some (r', t')" and R': "case r' of
          None \<Rightarrow> t' = v \<and> (\<forall>b\<in>set ((cs(i := d # cs i)) i). acquire_next_empty_block cf num off b v = (None, v))
        | Some x \<Rightarrow> \<forall>cpu j p u. take_run cf cpu j num x t' = (p, u) \<longrightarrow> served bytes algn L (number_of_arenas v) (Some p) u"
        using search_served [OF d(1) inv_path [OF d(1) iv] fit, of off] by blast
      obtain x where x: "r' = Some x" using R' run by (cases r') auto
      obtain p u where tr: "take_run cf cpu i num x t' = (p, u)" by fastforce
      have "arena_loop cf al cpu i num off (first_block (arenas v i)) v = Some (Some p, False, u)"
        using st' x tr by (subst arena_loop.simps) simp
      then show ?thesis using loop True R' x tr nb(2) by auto
    qed
  qed
qed

lemma arena_do_allocate_served:
  assumes inv: "bb_inv cf ow s L R cs {}" and i: "i < number_of_arenas s" and cpu: "cpu < 4294967296"
    and num: "1 \<le> num" and fit: "bytes + 16 \<le> num * element_size_in_bytes cf" "algn \<le> 16"
  shows "\<exists>r cap t. arena_do_allocate cf al cpu i num off s = Some (r, cap, t) \<and> served bytes algn L (number_of_arenas s) r t"
proof (cases "num > 16")
  case True
  then show ?thesis using inv by (auto simp: arena_do_allocate_def served_def)
next
  case False
  then have n16: "num \<le> 16" by simp
  show ?thesis
  proof (cases "first_block (arenas s i) = 0")
    case False
    then show ?thesis using arena_loop_served [OF inv i cpu num n16 fit, of off] num n16
      by (simp add: arena_do_allocate_def)
  next
    case True
    obtain added cap v where nb: "add_new_block cf al cpu i s = Some (added, cap, v)" "number_of_arenas v = number_of_arenas s"
      and N: "if added then \<exists>d. bb_inv cf ow v L R (cs(i := d # cs i)) {} \<and> first_block (arenas v i) = d \<and> d \<noteq> 0 \<and>
          free_count (blocks v d) = of_nat (elements_per_block cf) \<and>
          element_allocations (blocks v d) = empty_bitblock_set (elements_per_block cf)
        else bb_inv cf ow v L R cs {}"
      using add_new_block_spec [OF inv i cpu] by blast
    show ?thesis
    proof (cases added)
      case False
      then show ?thesis using N nb True num n16 by (auto simp: arena_do_allocate_def served_def)
    next
      case ad: True
      then obtain d where "bb_inv cf ow v L R (cs(i := d # cs i)) {}" using N by auto
      from arena_loop_served [OF this _ cpu num n16 fit, of i off] show ?thesis
        using nb i ad True num n16 by (auto simp: arena_do_allocate_def)
    qed
  qed
qed

lemma try_allocate_existing_served:
  assumes inv: "bb_inv cf ow s L R cs {}" and i: "i < number_of_arenas s"
    and fit: "bytes + 16 \<le> num * element_size_in_bytes cf" "algn \<le> 16"
  shows "\<exists>r t. try_allocate_existing cf cpu i num off s = Some (r, t) \<and>
    (case r of None \<Rightarrow> t = s | Some p \<Rightarrow> served bytes algn L (number_of_arenas s) (Some p) t)"
proof (cases "num = 0 \<or> num > 16")
  case True
  then show ?thesis by (auto simp: try_allocate_existing_def)
next
  case False
  obtain r t where st: "search_chain cf num off (first_block (arenas s i)) s = Some (r, t)" and R: "case r of
      None \<Rightarrow> t = s \<and> (\<forall>b\<in>set (cs i). acquire_next_empty_block cf num off b s = (None, s))
    | Some x \<Rightarrow> \<forall>cpu j p u. take_run cf cpu j num x t = (p, u) \<longrightarrow> served bytes algn L (number_of_arenas s) (Some p) u"
    using search_served [OF inv inv_path [OF inv i] fit, of off] by blast
  show ?thesis
  proof (cases r)
    case None
    then show ?thesis using st R False by (simp add: try_allocate_existing_def)
  next
    case (Some x)
    obtain p u where "take_run cf cpu i num x t = (p, u)" by fastforce
    then show ?thesis using st R Some False by (simp add: try_allocate_existing_def)
  qed
qed

lemma other_arenas_served:
  assumes inv: "bb_inv cf ow s L R cs {}" and "\<forall>i\<in>set is. i < number_of_arenas s"
    and fit: "bytes + 16 \<le> num * element_size_in_bytes cf" "algn \<le> 16"
  shows "\<exists>r t. other_arenas cf cpu is num s = Some (r, t) \<and> served bytes algn L (number_of_arenas s) r t"
  using assms(2)
proof (induction "is")
  case Nil
  then show ?case using inv by (auto simp: served_def)
next
  case (Cons i "is")
  obtain r t where t: "try_allocate_existing cf cpu i num cpu s = Some (r, t)"
    "case r of None \<Rightarrow> t = s | Some p \<Rightarrow> served bytes algn L (number_of_arenas s) (Some p) t"
    using try_allocate_existing_served [OF inv _ fit, of i cpu cpu] Cons.prems by auto
  show ?case
  proof (cases r)
    case None
    then show ?thesis using t Cons by simp
  next
    case (Some p)
    then show ?thesis using t core_hint_served by auto
  qed
qed

lemma slow_path_served:
  assumes inv: "bb_inv cf ow s L R cs {}" and i: "i < number_of_arenas s" and cpu: "cpu < 4294967296"
    and num: "1 \<le> num" and fit: "bytes + 16 \<le> num * element_size_in_bytes cf" "algn \<le> 16"
  shows "\<exists>r t. slow_path cf al cpu i num s = Some (r, t) \<and> served bytes algn L (number_of_arenas s) r t"
proof -
  obtain r cap t where t: "arena_do_allocate cf al cpu i num cpu s = Some (r, cap, t)"
    "served bytes algn L (number_of_arenas s) r t"
    using arena_do_allocate_served [OF assms, of cpu] by blast
  show ?thesis
  proof (cases r)
    case (Some p)
    then show ?thesis using t core_hint_served by (auto simp: slow_path_def)
  next
    case None
    then obtain ds where ds: "bb_inv cf ow t L R ds {}" "number_of_arenas t = number_of_arenas s"
      using t(2) by (auto simp: served_def)
    let ?is = "map (\<lambda>offset. (i + offset) mod number_of_arenas t) [1..<number_of_arenas t]"
    have "\<forall>j\<in>set ?is. j < number_of_arenas t" using i ds(2) by auto
    from other_arenas_served [OF ds(1) this fit, of cpu] show ?thesis
      using t(1) None ds(2) by (simp add: slow_path_def)
  qed
qed

lemma arena_hint_path_served:
  assumes inv: "bb_inv cf ow s L R cs {}" and i: "i < number_of_arenas s" and cpu: "cpu < 4294967296"
    and num: "1 \<le> num" and fit: "bytes + 16 \<le> num * element_size_in_bytes cf" "algn \<le> 16"
  shows "\<exists>r t. arena_hint_path cf al cpu i num s = Some (r, t) \<and> served bytes algn L (number_of_arenas s) r t"
proof (cases "allocation_hint (arenas s i) = 0")
  case True
  then show ?thesis using slow_path_served [OF assms] by (simp add: arena_hint_path_def)
next
  case False
  let ?b = "allocation_hint (arenas s i)"
  have b: "?b \<in> block_set s cs" using hints_in(2) [OF inv False] .
  obtain r t where call: "acquire_next_empty_block cf num cpu ?b s = (r, t)" by fastforce
  note A = acquire_next [OF config inv b call]
  show ?thesis
  proof (cases r)
    case None
    then show ?thesis using A call False slow_path_served [OF assms] by (simp add: arena_hint_path_def)
  next
    case (Some j)
    let ?t = "set_core_hint cf cpu ?b t"
    obtain p u where f: "finalize_allocation cf cpu ?b j num ?t = (p, u)" by fastforce
    have T: "1 \<le> num" "num \<le> 16" "j + num \<le> elements_per_block cf" "bb_inv cf ow t L R cs (run_cells (?b, j) num)"
      "?b \<in> block_set t cs" "number_of_arenas t = number_of_arenas s"
      using A Some b by simp_all
    have "served bytes algn L (number_of_arenas ?t) (Some p) u"
      using finalize_served [OF set_core_hint_inv [OF T(4,5)] _ T(1-3) fit f] T(5) by simp
    then show ?thesis using call Some False f T(6) by (simp add: arena_hint_path_def Let_def)
  qed
qed

theorem bb_allocate_owns:
  assumes own: "bb_owns cf ow R s L" and arg: "arg_ok cpu bytes algn"
  shows "\<exists>r t. bb_do_allocate cf al cpu s bytes algn = Some (r, t) \<and> (case r of
      None \<Rightarrow> bb_owns cf ow R t L | Some p \<Rightarrow> p \<notin> fst ` L \<and> bb_owns cf ow R t (insert (p, bytes, algn) L))"
proof (cases "algn > HEADER_SIZE \<or> elements_for_bytes cf bytes = 0")
  case True
  then show ?thesis using own by (auto simp: bb_do_allocate_def Let_def)
next
  case False
  obtain cs where inv: "bb_inv cf ow s L R cs {}" using own by (auto simp: bb_owns_def)
  let ?num = "elements_for_bytes cf bytes"
  let ?i = "if cpu < number_of_arenas s then cpu else cpu mod number_of_arenas s"
  let ?b = "core_hints s (cpu mod max_number_of_arenas cf)"
  have na: "1 \<le> number_of_arenas s" using bb_invD(1) [OF inv] by (simp add: bb_chains_def)
  have i: "?i < number_of_arenas s" using na by simp
  have num: "1 \<le> ?num" and fit: "bytes + 16 \<le> ?num * element_size_in_bytes cf" "algn \<le> 16"
    using False elements_for_bytes_enough [OF config, of bytes] arg by (simp_all add: arg_ok_def HEADER_SIZE_def)
  have cpu: "cpu < 4294967296" using arg by (simp add: arg_ok_def)
  note next_path = arena_hint_path_served [OF inv i cpu num fit]
  have "\<exists>r t. bb_do_allocate cf al cpu s bytes algn = Some (r, t) \<and> served bytes algn L (number_of_arenas s) r t"
  proof (cases "?b \<noteq> 0 \<and> block_arena (blocks s ?b) = ?i")
    case no: False
    then show ?thesis using next_path False unfolding bb_do_allocate_def Let_def by auto
  next
    case yes: True
    have b: "?b \<in> block_set s cs" using hints_in(1) [OF inv] yes by simp
    obtain r t where call: "acquire_next_empty_block cf ?num cpu ?b s = (r, t)" by fastforce
    note A = acquire_next [OF config inv b call]
    show ?thesis
    proof (cases r)
      case None
      then have "bb_do_allocate cf al cpu s bytes algn = arena_hint_path cf al cpu ?i ?num s"
        using call yes A False unfolding bb_do_allocate_def Let_def by auto
      then show ?thesis using next_path by simp
    next
      case (Some j)
      obtain p u where f: "take_run cf cpu ?i ?num (?b, j) t = (p, u)" by fastforce
      have T: "?num \<le> 16" "j + ?num \<le> elements_per_block cf" "bb_inv cf ow t L R cs (run_cells (?b, j) ?num)"
        "?b \<in> block_set t cs" "number_of_arenas t = number_of_arenas s"
        using A Some b by simp_all
      have "served bytes algn L (number_of_arenas t) (Some p) u"
        using take_run_served [OF T(3,4) num T(1,2) fit f] .
      moreover have "bb_do_allocate cf al cpu s bytes algn = Some (Some p, u)"
        using call yes Some f False unfolding bb_do_allocate_def Let_def by auto
      ultimately show ?thesis using T(5) by simp
    qed
  qed
  then obtain r t where rt: "bb_do_allocate cf al cpu s bytes algn = Some (r, t)" "served bytes algn L (number_of_arenas s) r t" by blast
  then show ?thesis by (cases r) (auto simp: served_def intro: bb_ownsI)
qed

theorem bb_deallocate_owns:
  assumes own: "bb_owns cf ow R s L" and x: "(p, bytes, algn) \<in> L"
  shows "\<exists>t. bb_do_deallocate cf cpu s p bytes algn = Some t \<and> bb_owns cf ow R t (L - {(p, bytes, algn)})"
proof -
  obtain cs where inv: "bb_inv cf ow s L R cs {}" using own by (auto simp: bb_owns_def)
  let ?x = "(p, bytes, algn)" and ?N = "elements_per_block cf" and ?E = "element_size_in_bytes cf"
  let ?M = "L - {?x}" and ?B = "block_set s cs"
  note I = bb_invD [OF inv]
  note B = inv_apart [OF inv]
  have E: "0 < ?E" using layout(1) [OF config] .
  have live: "live_one cf s ?B ?x" using I(5) x by (simp add: bb_live_def)
  note D = live_oneD [OF live]
  define b i num where "b = fst (first_cell cf s ?x)" and "i = snd (first_cell cf s ?x)" and "num = cell_count s ?x"
  have c: "first_cell cf s ?x = (b, i)" by (simp add: b_def i_def)
  have p: "p = b + DATA_OFFSET cf + i * ?E + 16" using D(2) by (simp add: c cell_address_def)
  have ow: "owner (headers s (p - 16)) = b" using c by (simp add: first_cell_def Let_def)
  have nm: "num_elements (headers s (p - 16)) = of_nat num" by (simp add: num_def cell_count_def)
  have bB: "b \<in> ?B" and bZ: "b + BLOCK_BYTES cf < 18446744073709551616"
    using D(1) B by (simp_all add: c blocks_apart_def)
  have n: "1 \<le> num" "num \<le> 16" "i + num \<le> ?N" using D(3-5) by (simp_all add: num_def c)
  have un: "unat (of_nat num :: u32) = num" using n(2) by (simp add: unat_of_nat)
  have pl: "p < 18446744073709551616" "b + DATA_OFFSET cf < 18446744073709551616"
    using cell_end [OF config, of "(b, i)" num] n bZ D(6) p by (simp_all add: c cell_address_def num_def)
  have hd: "sub64 p HEADER_SIZE = p - 16" using p pl by (simp add: HEADER_SIZE_def sub64_exact)
  have ix: "sub64 (p - 16) (add64 b (DATA_OFFSET cf)) div ?E = i" using p pl E by (simp add: add64_exact sub64_exact)
  have p0: "p \<noteq> 0" using p by simp
  let ?ea = "element_allocations (blocks s b)"
  let ?C = "\<Union>y\<in>L. cells cf s y" and ?K = "\<Union>y\<in>?M. cells cf s y"
  have cx: "cells cf s ?x = run_cells (b, i) num" by (simp add: cells_def c num_def)
  have cnt: "set_ok ?N ?ea" "acquired ?N ?ea = {j. (b, j) \<in> ?C}" "unat (free_count (blocks s b)) + card {j. (b, j) \<in> ?C} = ?N"
    using I(4) bB by (simp_all add: bb_counts_def)
  have dis: "cells cf s y \<inter> cells cf s ?x = {}" if "y \<in> ?M" for y using I(5) x that unfolding bb_live_def by blast
  have K: "?K = ?C - cells cf s ?x" using x dis by blast
  obtain res ea where rel: "bits_release ?N i num ?ea = (res, ea)" by fastforce
  have "{i..<i + num} \<subseteq> acquired ?N ?ea" unfolding cnt(2) using x cx by (force simp: run_cells_def)
  moreover have "validate_request ?N i num = success" using n by (simp add: validate_success)
  ultimately have ea: "set_ok ?N ea" "acquired ?N ea = acquired ?N ?ea - {i..<i + num}"
    using release_spec [OF cnt(1) rel] by simp_all
  let ?f = "\<lambda>k. k\<lparr>element_allocations := snd (bits_release ?N i num (element_allocations k)), free_count := free_count k + of_nat num\<rparr>"
  define t where "t = update_block b ?f s"
  have cc: "bb_live cf t ?M Q H = bb_live cf s ?M Q H" "(\<Union>y\<in>?M. cells cf t y) = ?K" for Q H
    by (rule cells_cong; simp add: t_def)+
  have bs: "block_set t cs = ?B" by (simp add: t_def block_set_def)
  have K': "{j. (d, j) \<in> ?K} = {j. (d, j) \<in> ?C} - (if d = b then {i..<i + num} else {})" for d
    unfolding K cx by (auto simp: run_cells_def)
  have fin: "finite {j. (b, j) \<in> ?C}" unfolding cnt(2) [symmetric] by (simp add: acquired_def)
  have sub: "{i..<i + num} \<subseteq> {j. (b, j) \<in> ?C}" using x cx by (force simp: run_cells_def)
  have card: "card {j. (b, j) \<in> ?K} + num = card {j. (b, j) \<in> ?C}"
    unfolding K' using sub fin card_mono [OF fin sub] by (simp add: card_Diff_subset)
  have fc: "unat (free_count (blocks s b) + of_nat num) = unat (free_count (blocks s b)) + num"
  proof -
    have "unat (free_count (blocks s b)) + unat (of_nat num :: u32) < 2 ^ LENGTH(32)"
      using cnt(3) card layout(8) [OF config] un by simp
    then show ?thesis using unat_add_lem [of "free_count (blocks s b)" "of_nat num"] un by simp
  qed
  have "bb_counts cf t cs ({} \<union> (\<Union>y\<in>?M. cells cf t y))" unfolding cc bb_counts_def bs
  proof
    fix d assume d: "d \<in> ?B"
    show "set_ok ?N (element_allocations (blocks t d)) \<and> acquired ?N (element_allocations (blocks t d)) = {j. (d, j) \<in> {} \<union> ?K} \<and>
        unat (free_count (blocks t d)) + card {j. (d, j) \<in> {} \<union> ?K} = ?N"
    proof (cases "d = b")
      case True
      have "acquired ?N ea = {j. (b, j) \<in> ?K}" using ea(2) K' [of b] cnt(2) by simp
      then show ?thesis using True ea(1) rel fc card cnt(3) by (simp add: t_def)
    next
      case False
      then show ?thesis using I(4) d K' [of d] by (simp add: t_def bb_counts_def)
    qed
  qed
  moreover have "bb_live cf t ?M (block_set t cs) {}" unfolding cc bs using I(5) by (simp add: bb_live_def)
  moreover have "bb_chains cf t cs" unfolding t_def using I(1) by (subst bb_chains_update) simp_all
  ultimately have "bb_inv cf ow t ?M R cs {}" using I(2,3) bs by (simp add: bb_inv_def bb_cap_def bb_upstream_def t_def)
  then have "bb_inv cf ow (update_hints_after_deallocation cf cpu b
      (counted (deallocation_made cpu (mul64 num ?E)) t)) ?M R cs {}"
    unfolding update_hints_after_deallocation_def
    by (intro set_arena_hint_inv set_core_hint_inv) (use bB bs in \<open>simp_all add: counted_inv\<close>)
  moreover have "bb_do_deallocate cf cpu s p bytes algn = Some (update_hints_after_deallocation cf cpu b
      (counted (deallocation_made cpu (mul64 num ?E)) t))"
    using p0 by (simp add: bb_do_deallocate_def Let_def hd ow nm un ix t_def)
  ultimately show ?thesis by (auto intro: bb_ownsI)
qed

text \<open>The destructor gives back every block, and only those.\<close>

lemma release_chain_owns:
  assumes "path (\<lambda>b. next_block (blocks s b)) cur xs 0" and "distinct xs" and "cpu < 4294967296"
    and "ow (upstream s) (M \<union> (\<lambda>b. (b, BLOCK_BYTES cf, BLOCK_ALIGN)) ` set xs)" and "fst ` M \<inter> set xs = {}"
  shows "\<exists>u. release_chain cf de cpu cur s = Some (s\<lparr>upstream := u\<rparr>) \<and> ow u M"
  using assms
proof (induction xs arbitrary: cur s)
  case Nil
  then show ?case by (subst release_chain.simps) (auto intro!: exI [of _ "upstream s"])
next
  case (Cons b xs)
  let ?e = "\<lambda>b. (b, BLOCK_BYTES cf, BLOCK_ALIGN)"
  have arg: "arg_ok cpu (BLOCK_BYTES cf) BLOCK_ALIGN"
    using Cons.prems(3) layout(5) [OF config] by (simp add: arg_ok_def BLOCK_ALIGN_def)
  have "?e b \<in> M \<union> ?e ` set (b # xs)" by simp
  from up.dealloc_returns [OF Cons.prems(4) arg this] obtain u
    where u: "de cpu (upstream s) b (BLOCK_BYTES cf) BLOCK_ALIGN = Some u" "ow u (M \<union> ?e ` set (b # xs) - {?e b})" by blast
  have "M \<union> ?e ` set (b # xs) - {?e b} = M \<union> ?e ` set xs" using Cons.prems(2,5) by force
  then have "\<exists>v. release_chain cf de cpu (next_block (blocks s b)) (s\<lparr>upstream := u\<rparr>) = Some (s\<lparr>upstream := u, upstream := v\<rparr>) \<and> ow v M"
    using u(2) Cons.prems by (intro Cons.IH) auto
  moreover have "release_chain cf de cpu cur s = release_chain cf de cpu (next_block (blocks s b)) (s\<lparr>upstream := u\<rparr>)"
    using Cons.prems(1) u(1) by (subst release_chain.simps) simp
  ultimately show ?case by simp
qed

lemma release_arenas_owns:
  assumes "distinct is" and "\<forall>i\<in>set is. path (\<lambda>b. next_block (blocks s b)) (first_block (arenas s i)) (cs i) 0 \<and> distinct (cs i)"
    and "\<forall>i\<in>set is. \<forall>j\<in>set is. i \<noteq> j \<longrightarrow> set (cs i) \<inter> set (cs j) = {}" and "cpu < 4294967296"
    and "ow (upstream s) (R \<union> (\<lambda>b. (b, BLOCK_BYTES cf, BLOCK_ALIGN)) ` (\<Union>i\<in>set is. set (cs i)))"
    and "fst ` R \<inter> (\<Union>i\<in>set is. set (cs i)) = {}"
  shows "\<exists>t. release_arenas cf de cpu is s = Some t \<and> ow (upstream t) R"
  using assms
proof (induction "is" arbitrary: s)
  case (Cons i "is")
  let ?e = "\<lambda>b. (b, BLOCK_BYTES cf, BLOCK_ALIGN)"
  let ?M = "R \<union> ?e ` (\<Union>i\<in>set is. set (cs i))"
  have "ow (upstream s) (?M \<union> ?e ` set (cs i))" using Cons.prems(5) by (simp add: image_Un Un_ac)
  moreover have "fst ` ?M \<inter> set (cs i) = {}" using Cons.prems(1,3,6) by (auto simp: image_Un image_image)
  ultimately obtain u where u: "release_chain cf de cpu (first_block (arenas s i)) s = Some (s\<lparr>upstream := u\<rparr>)" "ow u ?M"
    using release_chain_owns [of s "first_block (arenas s i)" "cs i" cpu ?M] Cons.prems(2,4) by auto
  have "\<exists>t. release_arenas cf de cpu is (s\<lparr>upstream := u\<rparr>) = Some t \<and> ow (upstream t) R"
    using Cons.prems u(2) by (intro Cons.IH) auto
  then show ?case using u(1) by simp
qed simp

theorem bb_destroy_owns:
  assumes "bb_owns cf ow R s L" and "cpu < 4294967296"
  shows "\<exists>t. bb_destroy cf de cpu s = Some t \<and> ow (upstream t) R"
proof -
  obtain cs where inv: "bb_inv cf ow s L R cs {}" using assms(1) by (auto simp: bb_owns_def)
  note I = bb_invD [OF inv]
  have "(\<Union>i\<in>set [0..<number_of_arenas s]. set (cs i)) = block_set s cs" by (auto simp: block_set_def)
  moreover have "set (cs i) \<inter> set (cs j) = {}" if "i < number_of_arenas s" "j < number_of_arenas s" "i \<noteq> j" for i j
    using I(1) that unfolding bb_chains_def by (metis disjoint_iff)
  ultimately show ?thesis unfolding bb_destroy_def
    using I(1,3) assms(2) by (intro release_arenas_owns [where cs = cs]) (auto simp: bb_chains_def bb_upstream_def)
qed

text \<open>The constructor, arena by arena: \<open>n\<close> counts the arenas that are done.\<close>

lemma create_arenas_inv:
  assumes "bb_counts cf s cs {}" and "fst ` R \<inter> (\<Union>i<k. set (cs i)) = {}"
    and "ow (upstream s) (R \<union> (\<lambda>b. (b, BLOCK_BYTES cf, BLOCK_ALIGN)) ` (\<Union>i<k. set (cs i)))"
    and "\<forall>i<k. path (\<lambda>b. next_block (blocks s b)) (first_block (arenas s i)) (cs i) 0 \<and> distinct (cs i) \<and>
        (\<forall>b\<in>set (cs i). block_arena (blocks s b) = i) \<and> length (cs i) \<le> 1"
    and "\<forall>i. allocation_hint (arenas s i) = 0" and "\<forall>h. core_hints s h = 0" and "\<forall>i. k \<le> i \<longrightarrow> cs i = []"
    and "m = (\<Sum>i<k. length (cs i))" and "k \<le> number_of_arenas s" and "1 \<le> number_of_arenas s"
    and "number_of_arenas s \<le> max_number_of_blocks cf" and "cpu < 4294967296"
  shows "\<exists>c t. create_arenas cf al cpu [k..<number_of_arenas s] m s = Some (c, t) \<and> bb_owns cf ow R (t\<lparr>total_blocks := c\<rparr>) {} \<and>
    number_of_arenas t = number_of_arenas s"
  using assms
proof (induction "number_of_arenas s - k" arbitrary: k s cs m)
  case 0
  then have k: "k = number_of_arenas s" by simp
  have "m \<le> (\<Sum>i<k. 1)" unfolding 0(9) by (rule sum_mono) (use 0 in auto)
  then have "m \<le> max_number_of_blocks cf" using 0 by simp
  then have "bb_inv cf ow (s\<lparr>total_blocks := m\<rparr>) {} R cs {}"
    using 0 k by (simp add: bb_inv_def bb_chains_def bb_cap_def bb_upstream_def bb_counts_def bb_live_def block_set_def)
  then show ?case using k by (auto intro: bb_ownsI)
next
  case (Suc n)
  let ?e = "\<lambda>b. (b, BLOCK_BYTES cf, BLOCK_ALIGN)" and ?B = "\<Union>i<k. set (cs i)"
  have k: "k < number_of_arenas s" using Suc by simp
  have bset: "block_set s cs = ?B"
  proof -
    have "set (cs i) = {}" if "\<not> i < k" for i using Suc.prems(7) that by simp
    then show ?thesis using k unfolding block_set_def by fastforce
  qed
  let ?M = "R \<union> ?e ` ?B"
  let ?s0 = "s\<lparr>arenas := (arenas s)(k := \<lparr>first_block = 0, block_count = 0, allocation_hint = 0\<rparr>)\<rparr>"
  have arg: "arg_ok cpu (BLOCK_BYTES cf) BLOCK_ALIGN"
    using Suc.prems(12) layout(5) [OF config] by (simp add: arg_ok_def BLOCK_ALIGN_def)
  obtain r u where call: "al cpu (upstream s) (BLOCK_BYTES cf) BLOCK_ALIGN = Some (r, u)"
    using up.alloc_returns [OF Suc.prems(3) arg] by fastforce
  have upt: "[k..<number_of_arenas s] = k # [Suc k..<number_of_arenas s]" using k by (simp add: upt_conv_Cons)
  have csk: "cs k = []" using Suc.prems(7) by simp
  show ?case
  proof (cases r)
    case None
    let ?t = "?s0\<lparr>upstream := u\<rparr>"
    have own: "ow u ?M" using up.alloc_null [OF Suc.prems(3) arg] call None by simp
    have un: "(\<Union>i<Suc k. set (cs i)) = ?B" using csk by (simp add: lessThan_Suc)
    have "\<exists>c t. create_arenas cf al cpu [Suc k..<number_of_arenas ?t] m ?t = Some (c, t) \<and>
        bb_owns cf ow R (t\<lparr>total_blocks := c\<rparr>) {} \<and> number_of_arenas t = number_of_arenas ?t"
    proof (rule Suc.hyps(1))
      show "n = number_of_arenas ?t - Suc k" using Suc.hyps(2) by simp
      show "bb_counts cf ?t cs {}" using Suc.prems(1) by (simp add: bb_counts_def block_set_def)
      show "m = (\<Sum>i<Suc k. length (cs i))" using Suc.prems(8) csk by simp
      show "ow (upstream ?t) (R \<union> ?e ` (\<Union>i<Suc k. set (cs i)))" using own un by simp
      show "fst ` R \<inter> (\<Union>i<Suc k. set (cs i)) = {}" using Suc.prems(2) un by simp
      show "\<forall>i<Suc k. path (\<lambda>b. next_block (blocks ?t b)) (first_block (arenas ?t i)) (cs i) 0 \<and> distinct (cs i) \<and>
        (\<forall>b\<in>set (cs i). block_arena (blocks ?t b) = i) \<and> length (cs i) \<le> 1"
        using Suc.prems(4) csk by (auto simp: less_Suc_eq)
    qed (use Suc.prems k in simp_all)
    then show ?thesis using call None by (simp add: upt)
  next
    case (Some d)
    have new: "d \<notin> fst ` ?M" and own: "ow u (insert (?e d) ?M)" using up.alloc_some [OF Suc.prems(3) arg] call Some by auto
    have dB: "d \<notin> ?B" "d \<notin> fst ` R" using new by force+
    have d0: "d \<noteq> 0" using up.owns_sound [OF own] by (auto simp: ledger_sound_def block_sound_def)
    let ?t = "update_arena k (\<lambda>a. a\<lparr>first_block := d, block_count := 1\<rparr>)
      (?s0\<lparr>upstream := u, blocks := (blocks s)(d := (new_bitblock cf)\<lparr>block_arena := k\<rparr>)\<rparr>)"
    let ?cs = "cs(k := [d])"
    have un: "(\<Union>i<Suc k. set (?cs i)) = insert d ?B" by (auto simp: lessThan_Suc)
    have bs: "block_set ?t ?cs = insert d ?B"
    proof -
      have "block_set ?t ?cs = (\<Union>i<number_of_arenas s. set (?cs i))" by (simp add: block_set_def update_arena_def)
      also have "\<dots> = insert d (\<Union>i<number_of_arenas s. set (cs i))"
      proof (intro set_eqI iffI)
        fix x assume "x \<in> insert d (\<Union>i<number_of_arenas s. set (cs i))"
        then consider "x = d" | i where "i < number_of_arenas s" "x \<in> set (cs i)" "i \<noteq> k" using csk by fastforce
        then show "x \<in> (\<Union>i<number_of_arenas s. set (?cs i))" using k by cases auto
      qed (auto split: if_splits)
      finally show ?thesis using bset by (simp add: block_set_def)
    qed
    have N: "unat (of_nat (elements_per_block cf) :: u32) = elements_per_block cf"
      using layout(8) [OF config] by (simp add: unat_of_nat)
    have "\<exists>c t. create_arenas cf al cpu [Suc k..<number_of_arenas ?t] (m + 1) ?t = Some (c, t) \<and>
        bb_owns cf ow R (t\<lparr>total_blocks := c\<rparr>) {} \<and> number_of_arenas t = number_of_arenas ?t"
    proof (rule Suc.hyps(1))
      show "n = number_of_arenas ?t - Suc k" using Suc.hyps(2) by simp
      show "bb_counts cf ?t ?cs {}" unfolding bb_counts_def bs
      proof
        fix b assume b: "b \<in> insert d ?B"
        show "set_ok (elements_per_block cf) (element_allocations (blocks ?t b)) \<and>
          acquired (elements_per_block cf) (element_allocations (blocks ?t b)) = {j. (b, j) \<in> {}} \<and>
          unat (free_count (blocks ?t b)) + card {j. (b, j) \<in> ({} :: cell set)} = elements_per_block cf"
        proof (cases "b = d")
          case True
          then show ?thesis using N by (simp add: update_arena_def new_bitblock_def empty_set_ok)
        next
          case False
          then have "b \<in> block_set s cs" using b bset by simp
          then show ?thesis using Suc.prems(1) False by (simp add: bb_counts_def update_arena_def)
        qed
      qed
      show "m + 1 = (\<Sum>i<Suc k. length (?cs i))"
      proof -
        have "(\<Sum>i<k. length (?cs i)) = (\<Sum>i<k. length (cs i))" by (rule sum.cong) auto
        then show ?thesis using Suc.prems(8) by simp
      qed
      show "ow (upstream ?t) (R \<union> ?e ` (\<Union>i<Suc k. set (?cs i)))" unfolding un using own by (simp add: update_arena_def)
      show "fst ` R \<inter> (\<Union>i<Suc k. set (?cs i)) = {}" unfolding un using Suc.prems(2) dB by auto
      show "\<forall>i<Suc k. path (\<lambda>b. next_block (blocks ?t b)) (first_block (arenas ?t i)) (?cs i) 0 \<and> distinct (?cs i) \<and>
        (\<forall>b\<in>set (?cs i). block_arena (blocks ?t b) = i) \<and> length (?cs i) \<le> 1"
      proof (intro allI impI)
        fix i assume i: "i < Suc k"
        show "path (\<lambda>b. next_block (blocks ?t b)) (first_block (arenas ?t i)) (?cs i) 0 \<and> distinct (?cs i) \<and>
          (\<forall>b\<in>set (?cs i). block_arena (blocks ?t b) = i) \<and> length (?cs i) \<le> 1"
        proof (cases "i = k")
          case True
          then show ?thesis using d0 by (simp add: update_arena_def new_bitblock_def)
        next
          case False
          then have i': "i < k" using i by simp
          then have dn: "d \<notin> set (cs i)" using dB by auto
          have P: "path (\<lambda>b. next_block (blocks s b)) (first_block (arenas s i)) (cs i) 0" "distinct (cs i)"
            "\<forall>b\<in>set (cs i). block_arena (blocks s b) = i" "length (cs i) \<le> 1"
            using Suc.prems(4) i' by auto
          have "path (\<lambda>b. next_block (blocks ?t b)) (first_block (arenas s i)) (cs i) 0"
            by (rule path_cong [OF P(1)]) (use dn in \<open>auto simp: update_arena_def\<close>)
          then show ?thesis using P False dn by (auto simp: update_arena_def)
        qed
      qed
    qed (use Suc.prems k in \<open>simp_all add: update_arena_def\<close>)
    then show ?thesis using call Some by (simp add: upt update_arena_def)
  qed
qed

theorem bitblock_resource_owns:
  assumes "ow u R" and "cpu < 4294967296"
  shows "\<exists>s. lockfree_bitblock_resource cf al cpu bmem hmem st u n = Some s \<and> bb_owns cf ow R s {}"
proof -
  let ?n = "clamp_arena_count cf n"
  let ?s = "\<lparr>upstream = u, number_of_arenas = ?n, arenas = (\<lambda>_. \<lparr>first_block = 0, block_count = 0, allocation_hint = 0\<rparr>),
           core_hints = (\<lambda>_. 0), total_blocks = 0, blocks = bmem, headers = hmem, bb_statistics = st\<rparr>"
  have n: "1 \<le> ?n" "?n \<le> max_number_of_blocks cf"
    using config by (auto simp: clamp_arena_count_def bitblock_config_ok_def min_def)
  have "\<exists>c t. create_arenas cf al cpu [0..<number_of_arenas ?s] 0 ?s = Some (c, t) \<and> bb_owns cf ow R (t\<lparr>total_blocks := c\<rparr>) {} \<and>
    number_of_arenas t = number_of_arenas ?s"
    using assms n by (intro create_arenas_inv [where cs = "\<lambda>_. []"]) (simp_all add: bb_counts_def block_set_def)
  then show ?thesis by (auto simp: lockfree_bitblock_resource_def Let_def)
qed

end

sublocale bitblock_over \<subseteq> bitblocks: memory_resource "bb_do_allocate cf al" "bb_do_deallocate cf" "bb_owns cf ow R"
proof
  fix s :: "'u bitblock_resource" and L :: ledger and c b a :: nat and p s'
  assume own: "bb_owns cf ow R s L"
  then obtain cs where inv: "bb_inv cf ow s L R cs {}" by (auto simp: bb_owns_def)
  show "ledger_sound L" using live_ledger_sound [OF config inv_apart [OF inv] bb_invD(5) [OF inv]] .
  assume arg: "arg_ok c b a"
  note call = bb_allocate_owns [OF own arg]
  show "bb_do_allocate cf al c s b a \<noteq> None" using call by auto
  show "bb_do_allocate cf al c s b a = Some (Some p, s') \<Longrightarrow> p \<notin> fst ` L \<and> bb_owns cf ow R s' (insert (p, b, a) L)"
    using call by auto
  show "bb_do_allocate cf al c s b a = Some (None, s') \<Longrightarrow> bb_owns cf ow R s' L" using call by auto
  show "\<exists>s'. bb_do_deallocate cf c s p b a = Some s' \<and> bb_owns cf ow R s' (L - {(p, b, a)})" if "(p, b, a) \<in> L" for p
    using bb_deallocate_owns [OF own that] .
qed

context bitblock_over
begin

lemma bitblock_session:
  assumes "bb_owns cf ow R s {}" and "list_all request_ok rs"
  shows "\<exists>y. serve_all (bb_do_allocate cf al) (bb_do_deallocate cf) rs \<lparr>resource = s, held = []\<rparr> = Some y \<and>
    ledger_sound (set (held y)) \<and> bb_owns cf ow R (resource y) (set (held y))"
  by (rule bitblocks.session_sound [OF assms])

end

lemma bb_owns_cap: "bb_owns cf ow R s L \<Longrightarrow> number_of_blocks s \<le> max_number_of_blocks cf"
  by (auto simp: bb_owns_def bb_inv_def bb_cap_def number_of_blocks_def)

end
