(* ===== verification/Bitblock_Stack.thy ===== *)
theory Bitblock_Stack
  imports Static_Arena Bitblock_Resource
begin

text \<open>
  The bitblock resource over the static arena: the contract of the one discharges what the other
  asks of its upstream resource, for every configuration the template accepts.
\<close>

text \<open>The configuration of the small pool of \<^verbatim>\<open>lockfree_composite_single_arena_resource\<close>.\<close>

definition small_pool_config :: bitblock_config where
  "small_pool_config = \<lparr>element_size_in_bytes = 64, elements_per_block = 1024, max_number_of_arenas = 32, max_number_of_blocks = 48\<rparr>"

lemma small_pool_config_ok: "bitblock_config_ok small_pool_config"
  by (simp add: bitblock_config_ok_def small_pool_config_def)

lemma bitblock_over_static:
  assumes "bitblock_config_ok cf"
  shows "bitblock_over (\<lambda>c. static_do_allocate) (\<lambda>c. static_do_deallocate) static_owns cf"
  by unfold_locales (use assms static_ends_below in auto)

interpretation bits_static: bitblock_over "\<lambda>c. static_do_allocate" "\<lambda>c. static_do_deallocate" static_owns small_pool_config R for R
  by (rule bitblock_over_static [OF small_pool_config_ok])

text \<open>A fresh resource over a fresh arena, and any session on it.\<close>

lemma fresh_bitblock_session:
  assumes cf: "bitblock_config_ok cf" and "start \<noteq> 0" and "start + sz + 128 \<le> 18446744073709551616" and "c < 4294967296"
    and "list_all request_ok rs"
  shows "\<exists>s y. lockfree_bitblock_resource cf (\<lambda>c. static_do_allocate) c bmem hmem st (static_arena_resource l0 s0 start sz) n = Some s \<and>
    serve_all (bb_do_allocate cf (\<lambda>c. static_do_allocate)) (bb_do_deallocate cf) rs \<lparr>resource = s, held = []\<rparr> = Some y \<and>
    ledger_sound (set (held y)) \<and> bb_owns cf static_owns {} (resource y) (set (held y))"
proof -
  note B = bitblock_over_static [OF cf]
  have "static_owns (static_arena_resource l0 s0 start sz) {}" using static_arena_owns assms(2,3) by blast
  from bitblock_over.bitblock_resource_owns [OF B this assms(4)] obtain s
    where s: "lockfree_bitblock_resource cf (\<lambda>c. static_do_allocate) c bmem hmem st (static_arena_resource l0 s0 start sz) n = Some s"
      "bb_owns cf static_owns {} s {}" by blast
  show ?thesis using s bitblock_over.bitblock_session [OF B s(2) assms(5)] by blast
qed

text \<open>C31: A bitblock resource over a fresh static arena, in any configuration, with any number of arenas
  and callers on any CPUs: every session runs to its end (the search of the lists and the retry
  after a new block always stop), and the blocks handed out never overlap and keep the alignment
  they were asked for.\<close>

theorem bitblock_session_sound:
  assumes "bitblock_config_ok cf" and "start \<noteq> 0" and "start + sz + 128 \<le> 18446744073709551616" and "c < 4294967296"
    and "list_all request_ok rs"
  shows "\<exists>s y. lockfree_bitblock_resource cf (\<lambda>c. static_do_allocate) c bmem hmem st (static_arena_resource l0 s0 start sz) n = Some s \<and>
    serve_all (bb_do_allocate cf (\<lambda>c. static_do_allocate)) (bb_do_deallocate cf) rs \<lparr>resource = s, held = []\<rparr> = Some y \<and>
    ledger_sound (set (held y)) \<and> number_of_blocks (resource y) \<le> max_number_of_blocks cf"
  using fresh_bitblock_session [OF assms, of bmem hmem st l0 s0 n] bb_owns_cap by blast

theorem bitblock_session_sound_witness:
  "\<exists>s y. lockfree_bitblock_resource small_pool_config (\<lambda>c. static_do_allocate) 3 (\<lambda>_. new_bitblock small_pool_config)
      (\<lambda>_. \<lparr>owner = 0, num_elements = 0\<rparr>) None (static_arena_resource (\<lambda>_. 0) (\<lambda>_. 0) 4096 1000000) 2 = Some s \<and>
    serve_all (bb_do_allocate small_pool_config (\<lambda>c. static_do_allocate)) (bb_do_deallocate small_pool_config)
      [Allocate 0 100 8, Allocate 1 900 16, Release 5 0, Allocate 2 0 1] \<lparr>resource = s, held = []\<rparr> = Some y \<and>
    ledger_sound (set (held y)) \<and> number_of_blocks (resource y) \<le> max_number_of_blocks small_pool_config"
  by (rule bitblock_session_sound) (simp_all add: small_pool_config_ok request_ok_def arg_ok_def)

text \<open>The destructor of a bitblock resource gives every block back: after any session it ends and
  leaves the arena underneath owing nothing.\<close>

theorem bitblock_destroy_returns_all:
  assumes "bitblock_config_ok cf" and "start \<noteq> 0" and "start + sz + 128 \<le> 18446744073709551616" and "c < 4294967296"
    and "list_all request_ok rs"
  shows "\<exists>s y t. lockfree_bitblock_resource cf (\<lambda>c. static_do_allocate) c bmem hmem st (static_arena_resource l0 s0 start sz) n = Some s \<and>
    serve_all (bb_do_allocate cf (\<lambda>c. static_do_allocate)) (bb_do_deallocate cf) rs \<lparr>resource = s, held = []\<rparr> = Some y \<and>
    bb_destroy cf (\<lambda>c. static_do_deallocate) c (resource y) = Some t \<and> static_owns (upstream t) {}"
  using fresh_bitblock_session [OF assms, of bmem hmem st l0 s0 n]
    bitblock_over.bb_destroy_owns [OF bitblock_over_static [OF assms(1)] _ assms(4)] by blast

theorem bitblock_destroy_returns_all_witness:
  "\<exists>s y t. lockfree_bitblock_resource small_pool_config (\<lambda>c. static_do_allocate) 3 (\<lambda>_. new_bitblock small_pool_config)
      (\<lambda>_. \<lparr>owner = 0, num_elements = 0\<rparr>) None (static_arena_resource (\<lambda>_. 0) (\<lambda>_. 0) 4096 1000000) 2 = Some s \<and>
    serve_all (bb_do_allocate small_pool_config (\<lambda>c. static_do_allocate)) (bb_do_deallocate small_pool_config)
      [Allocate 0 100 8, Release 5 0] \<lparr>resource = s, held = []\<rparr> = Some y \<and>
    bb_destroy small_pool_config (\<lambda>c. static_do_deallocate) 3 (resource y) = Some t \<and> static_owns (upstream t) {}"
  by (rule bitblock_destroy_returns_all) (simp_all add: small_pool_config_ok request_ok_def arg_ok_def)

end
