(* ===== verification/Composite.thy ===== *)
theory Composite
  imports Single_Arena_Sessions Bitblock_Stack
begin

text \<open>
  \<^verbatim>\<open>pmr::lockfree_composite_single_arena_resource\<close>
  (\<^verbatim>\<open>include/__memory_resource/lockfree_composite_single_arena_resource.h\<close>): small requests go to a
  bitblock resource whose blocks come from the single arena that serves the large ones, so the
  two resources share one arena.  The contract is proved from the contracts of the two parts.
\<close>

section \<open>The resource\<close>

record composite_config =
  threshold_bytes :: nat
  pool :: bitblock_config
  large :: arena_config

text \<open>
  The static assertions of the class and of its parts.  The elements are also larger than the
  16-byte header they begin with: with 16-byte elements, which the assertions admit, the pointer
  of an empty allocation is the end of its element.
\<close>

definition composite_config_ok :: "composite_config \<Rightarrow> bool" where
  "composite_config_ok cc \<longleftrightarrow> threshold_bytes cc > 0 \<and> threshold_bytes cc + 16 \<le> 16 * element_size_in_bytes (pool cc) \<and>
     bitblock_config_ok (pool cc) \<and> 16 < element_size_in_bytes (pool cc) \<and> config_ok (large cc) \<and>
     maintenance_window_threshold (large cc) = 128"

text \<open>The large resource is the upstream resource of the small one.\<close>

record composite =
  small_resource :: "single_arena bitblock_resource"
  comp_statistics :: "statistics option"

definition large_resource :: "composite \<Rightarrow> single_arena" where
  "large_resource s = upstream (small_resource s)"

definition set_large :: "single_arena \<Rightarrow> composite \<Rightarrow> composite" where
  "set_large u s = s\<lparr>small_resource := (small_resource s)\<lparr>upstream := u\<rparr>\<rparr>"

definition comp_counted :: "(statistics \<Rightarrow> statistics) \<Rightarrow> composite \<Rightarrow> composite" where
  "comp_counted f s = s\<lparr>comp_statistics := map_option f (comp_statistics s)\<rparr>"

definition lockfree_composite_single_arena_resource ::
  "composite_config \<Rightarrow> nat \<Rightarrow> single_arena \<Rightarrow> (addr \<Rightarrow> bitblock) \<Rightarrow> (addr \<Rightarrow> allocation_header) \<Rightarrow> statistics option \<Rightarrow>
   addr \<Rightarrow> nat \<Rightarrow> nat \<Rightarrow> nat \<Rightarrow> composite option" where
  "lockfree_composite_single_arena_resource cc cpu mem bmem hmem st blk sz arena_count nshards = do {
     u \<leftarrow> lockfree_single_arena_resource (large cc) mem blk sz nshards;
     sm \<leftarrow> lockfree_bitblock_resource (pool cc) (sa_do_allocate (large cc)) cpu bmem hmem None u arena_count;
     Some \<lparr>small_resource = sm, comp_statistics = st\<rparr> }"

definition should_use_small_pool :: "composite_config \<Rightarrow> nat \<Rightarrow> nat \<Rightarrow> bool" where
  "should_use_small_pool cc bytes alignment \<longleftrightarrow> bytes \<le> threshold_bytes cc \<and> alignment \<le> 16"

definition comp_do_allocate :: "composite_config \<Rightarrow> composite allocate_fn" where
  "comp_do_allocate cc cpu s bytes alignment = do {
     (result, s) \<leftarrow>
       (if should_use_small_pool cc bytes alignment
        then do { (r, sm) \<leftarrow> bb_do_allocate (pool cc) (sa_do_allocate (large cc)) cpu (small_resource s) bytes alignment;
                  Some (r, s\<lparr>small_resource := sm\<rparr>) }
        else do { (r, u) \<leftarrow> sa_do_allocate (large cc) cpu (large_resource s) bytes alignment;
                  Some (r, set_large u s) });
     Some (result, if result \<noteq> None then comp_counted (allocation_made cpu bytes) s else s) }"

definition comp_do_deallocate :: "composite_config \<Rightarrow> composite deallocate_fn" where
  "comp_do_deallocate cc cpu s blk bytes alignment =
     (if blk = 0 then Some s
      else if should_use_small_pool cc bytes alignment
      then do { sm \<leftarrow> bb_do_deallocate (pool cc) cpu (small_resource s) blk bytes alignment;
                Some (comp_counted (deallocation_made cpu bytes) (s\<lparr>small_resource := sm\<rparr>)) }
      else do { (accepted, u) \<leftarrow> do_try_deallocate (large cc) cpu (large_resource s) blk bytes alignment;
                Some (if accepted then comp_counted (deallocation_made cpu bytes) (set_large u s) else set_large u s) })"

text \<open>The members go in reverse order: the small resource gives its blocks back to the large one.\<close>

definition comp_destroy :: "composite_config \<Rightarrow> nat \<Rightarrow> composite \<Rightarrow> single_arena option" where
  "comp_destroy cc cpu s = map_option upstream (bb_destroy (pool cc) (sa_do_deallocate (large cc)) cpu (small_resource s))"

section \<open>Two clients of one upstream resource\<close>

context bitblock_over
begin

text \<open>What other clients hold of the upstream resource is apart from what the pool has handed out.\<close>

lemma others_clear:
  assumes own: "bb_owns cf ow R s L" and big: "16 < element_size_in_bytes cf" and x: "x \<in> R" and y: "y \<in> L"
  shows "clear_of x y"
proof -
  obtain cs where inv: "bb_inv cf ow s L R cs {}" using own by (auto simp: bb_owns_def)
  obtain p n a where px: "x = (p, n, a)" by (metis prod_cases3)
  obtain q m d where qy: "y = (q, m, d)" by (metis prod_cases3)
  have "live_one cf s (block_set s cs) y" using bb_invD(5) [OF inv] y by (simp add: bb_live_def)
  note D = live_oneD [OF this, unfolded qy, simplified]
  let ?b = "fst (first_cell cf s (q, m, d))" and ?E = "element_size_in_bytes cf" and ?c = "cell_count s (q, m, d)"
  have end_b: "cell_address cf (first_cell cf s (q, m, d)) + ?c * ?E \<le> ?b + BLOCK_BYTES cf" by (rule cell_end [OF config D(5)])
  have "?E \<le> ?c * ?E" using D(3) by simp
  then have q: "?b < q" "q < ?b + BLOCK_BYTES cf" "q + m \<le> ?b + BLOCK_BYTES cf"
    using D(2,6) end_b big unfolding cell_address_def by linarith+
  have up: "ow (upstream s) (R \<union> (\<lambda>b. (b, BLOCK_BYTES cf, BLOCK_ALIGN)) ` block_set s cs)" "fst ` R \<inter> block_set s cs = {}"
    using bb_invD(3) [OF inv] by (simp_all add: bb_upstream_def)
  have "p \<noteq> ?b" using up(2) x D(1) px by force
  then have "clear_of (p, n, a) (?b, BLOCK_BYTES cf, BLOCK_ALIGN)"
    using up.owns_sound [OF up(1)] x D(1) px unfolding ledger_sound_def by blast
  then show ?thesis using q unfolding px qy clear_of_def apart_def by auto
qed

lemma owns_all_sound:
  assumes own: "bb_owns cf ow R s L" and "16 < element_size_in_bytes cf"
  shows "ledger_sound (R \<union> L)" and "fst ` R \<inter> fst ` L = {}"
proof -
  obtain cs where inv: "bb_inv cf ow s L R cs {}" using own by (auto simp: bb_owns_def)
  have "ledger_sound R"
    by (rule ledger_sound_subset [OF up.owns_sound]) (use bb_invD(3) [OF inv] in \<open>auto simp: bb_upstream_def\<close>)
  have "ledger_sound L" by (rule bitblocks.owns_sound [OF own])
  have one: "block_sound x" if "x \<in> R \<union> L" for x
    using that \<open>ledger_sound R\<close> \<open>ledger_sound L\<close> by (auto simp: ledger_sound_def)
  have two: "clear_of x y" if "x \<in> R \<union> L" "y \<in> R \<union> L" "x \<noteq> y" for x y
  proof -
    consider "x \<in> R" "y \<in> R" | "x \<in> L" "y \<in> L" | "x \<in> R" "y \<in> L" | "x \<in> L" "y \<in> R" using \<open>x \<in> R \<union> L\<close> \<open>y \<in> R \<union> L\<close> by blast
    then show ?thesis
    proof cases
      case 1
      then show ?thesis using \<open>ledger_sound R\<close> \<open>x \<noteq> y\<close> by (simp add: ledger_sound_def)
    next
      case 2
      then show ?thesis using \<open>ledger_sound L\<close> \<open>x \<noteq> y\<close> by (simp add: ledger_sound_def)
    next
      case 3
      then show ?thesis by (rule others_clear [OF assms])
    next
      case 4
      then show ?thesis using others_clear [OF assms] clear_of_sym by blast
    qed
  qed
  show "ledger_sound (R \<union> L)" using one two unfolding ledger_sound_def by simp
  show "fst ` R \<inter> fst ` L = {}" using others_clear [OF assms] by (fastforce simp: clear_of_def)
qed

text \<open>The other clients' calls.\<close>

lemma bb_set_upstream:
  assumes inv: "bb_inv cf ow s L R cs H" and "ow u (R' \<union> (\<lambda>b. (b, BLOCK_BYTES cf, BLOCK_ALIGN)) ` block_set s cs)"
    and "fst ` R' \<inter> block_set s cs = {}"
  shows "bb_inv cf ow (s\<lparr>upstream := u\<rparr>) L R' cs H"
proof -
  have f: "first_cell cf (s\<lparr>upstream := u\<rparr>) x = first_cell cf s x" "cell_count (s\<lparr>upstream := u\<rparr>) x = cell_count s x"
    "cells cf (s\<lparr>upstream := u\<rparr>) x = cells cf s x" for x
    by (simp_all add: first_cell_def cell_count_def cells_def)
  have b: "block_set (s\<lparr>upstream := u\<rparr>) cs = block_set s cs" by (simp add: block_set_def)
  have "live_one cf (s\<lparr>upstream := u\<rparr>) B x = live_one cf s B x" for B x by (simp add: live_one_def f)
  then show ?thesis using bb_invD [OF inv] assms(2,3)
    unfolding bb_inv_def bb_upstream_def bb_counts_def bb_live_def f b
    by (simp add: bb_chains_def bb_cap_def block_set_def)
qed

lemma other_allocates:
  assumes own: "bb_owns cf ow R s L" and arg: "arg_ok c n a"
  shows "\<exists>r u. al c (upstream s) n a = Some (r, u) \<and> (case r of
      None \<Rightarrow> bb_owns cf ow R (s\<lparr>upstream := u\<rparr>) L
    | Some p \<Rightarrow> p \<notin> fst ` R \<and> bb_owns cf ow (insert (p, n, a) R) (s\<lparr>upstream := u\<rparr>) L)"
proof -
  obtain cs where inv: "bb_inv cf ow s L R cs {}" using own by (auto simp: bb_owns_def)
  have up: "ow (upstream s) (R \<union> (\<lambda>b. (b, BLOCK_BYTES cf, BLOCK_ALIGN)) ` block_set s cs)" "fst ` R \<inter> block_set s cs = {}"
    using bb_invD(3) [OF inv] by (simp_all add: bb_upstream_def)
  obtain r u where call: "al c (upstream s) n a = Some (r, u)" using up.alloc_returns [OF up(1) arg] by fastforce
  show ?thesis
  proof (cases r)
    case None
    then have "bb_inv cf ow (s\<lparr>upstream := u\<rparr>) L R cs {}"
      using bb_set_upstream [OF inv _ up(2)] up.alloc_null [OF up(1) arg] call by simp
    then show ?thesis using call None by (auto simp: bb_owns_def)
  next
    case (Some p)
    then have p: "p \<notin> fst ` (R \<union> (\<lambda>b. (b, BLOCK_BYTES cf, BLOCK_ALIGN)) ` block_set s cs)"
      "ow u (insert (p, n, a) (R \<union> (\<lambda>b. (b, BLOCK_BYTES cf, BLOCK_ALIGN)) ` block_set s cs))"
      using up.alloc_some [OF up(1) arg] call by simp_all
    then have "p \<notin> fst ` R" "p \<notin> block_set s cs" by (force simp: image_Un image_image)+
    moreover from this have "bb_inv cf ow (s\<lparr>upstream := u\<rparr>) L (insert (p, n, a) R) cs {}"
      using p(2) up(2) by (intro bb_set_upstream [OF inv]) simp_all
    ultimately show ?thesis using call Some by (auto simp: bb_owns_def)
  qed
qed

end

section \<open>The contract\<close>

lemma sa_ends_below:
  assumes own: "sa_owns cfg s L" and x: "(p, n, a) \<in> L"
  shows "p + n < 18446744073709551616"
proof -
  obtain bs ls where h: "hand cfg s bs ls {} {} L" using own by (auto simp: sa_owns_def)
  note I = invD [OF handD(1) [OF h], simplified]
  have "p \<in> fst ` L" using x by force
  then obtain b where b: "b \<in> set bs" "p = b + 64" using I(8) by (auto simp: ledger_ok_def)
  then have "n + 64 \<le> hdr_size s b" using I(8) x by (auto simp: ledger_ok_def)
  then show ?thesis using chain_facts(3) [OF I(1-3) b(1)] chain_facts(8) [OF I(1-3)] geoD(12) [OF I(1)] b(2) by linarith
qed

lemma bitblock_over_arena:
  "bitblock_config_ok cf \<Longrightarrow> bitblock_over (sa_do_allocate cfg) (sa_do_deallocate cfg) (sa_owns cfg) cf"
  by unfold_locales (use sa_ends_below in auto)

definition small_part :: "composite_config \<Rightarrow> ledger \<Rightarrow> ledger" where
  "small_part cc L = {(p, n, a). (p, n, a) \<in> L \<and> should_use_small_pool cc n a}"

definition comp_owns :: "composite_config \<Rightarrow> composite \<Rightarrow> ledger \<Rightarrow> bool" where
  "comp_owns cc s L \<longleftrightarrow> composite_config_ok cc \<and>
     bb_owns (pool cc) (sa_owns (large cc)) (L - small_part cc L) (small_resource s) (small_part cc L)"

lemma small_part_simps:
  "should_use_small_pool cc n a \<Longrightarrow> small_part cc (insert (p, n, a) L) = insert (p, n, a) (small_part cc L)"
  "\<not> should_use_small_pool cc n a \<Longrightarrow> small_part cc (insert (p, n, a) L) = small_part cc L"
  "small_part cc (L - M) = small_part cc L - M" "small_part cc L \<subseteq> L" "small_part cc {} = {}"
  by (auto simp: small_part_def)

lemma comp_ownsD:
  assumes "comp_owns cc s L"
  shows "bitblock_over (sa_do_allocate (large cc)) (sa_do_deallocate (large cc)) (sa_owns (large cc)) (pool cc)"
    and "bb_owns (pool cc) (sa_owns (large cc)) (L - small_part cc L) (small_resource s) (small_part cc L)"
    and "16 < element_size_in_bytes (pool cc)" and "composite_config_ok cc"
    and "L - small_part cc L \<union> small_part cc L = L"
  using assms bitblock_over_arena by (auto simp: comp_owns_def composite_config_ok_def small_part_def)

lemma comp_owns_counted [simp]: "comp_owns cc (comp_counted f s) L = comp_owns cc s L"
  by (simp add: comp_owns_def comp_counted_def)

lemma comp_owns_sound: "comp_owns cc s L \<Longrightarrow> ledger_sound L"
  using bitblock_over.owns_all_sound(1) [OF comp_ownsD(1-3)] comp_ownsD(5) by metis

lemma drop_one:
  assumes "\<And>y. y \<in> M \<Longrightarrow> fst y = p \<Longrightarrow> y = (p, n, a)" and "p \<notin> fst ` K"
  shows "{y \<in> M \<union> K. fst y \<noteq> p} = (M - {(p, n, a)}) \<union> K"
proof (intro equalityI subsetI)
  fix y assume "y \<in> {y \<in> M \<union> K. fst y \<noteq> p}"
  then show "y \<in> (M - {(p, n, a)}) \<union> K" by auto
next
  fix y assume y: "y \<in> (M - {(p, n, a)}) \<union> K"
  then have "fst y \<noteq> p" using assms by blast
  then show "y \<in> {y \<in> M \<union> K. fst y \<noteq> p}" using y by blast
qed

lemma comp_allocate_owns:
  assumes own: "comp_owns cc s L" and arg: "arg_ok c n a"
  shows "\<exists>r t. comp_do_allocate cc c s n a = Some (r, t) \<and>
    (case r of None \<Rightarrow> comp_owns cc t L | Some p \<Rightarrow> p \<notin> fst ` L \<and> comp_owns cc t (insert (p, n, a) L))"
proof -
  note D = comp_ownsD [OF own]
  let ?S = "small_part cc L"
  have fstL: "fst ` L = fst ` (L - ?S) \<union> fst ` ?S" using D(5) by (metis image_Un)
  show ?thesis
  proof (cases "should_use_small_pool cc n a")
    case True
    obtain r sm where call: "bb_do_allocate (pool cc) (sa_do_allocate (large cc)) c (small_resource s) n a = Some (r, sm)"
      "case r of None \<Rightarrow> bb_owns (pool cc) (sa_owns (large cc)) (L - ?S) sm ?S
       | Some p \<Rightarrow> p \<notin> fst ` ?S \<and> bb_owns (pool cc) (sa_owns (large cc)) (L - ?S) sm (insert (p, n, a) ?S)"
      using bitblock_over.bb_allocate_owns [OF D(1,2) arg] by blast
    show ?thesis
    proof (cases r)
      case None
      then show ?thesis using call D(4) True by (simp add: comp_do_allocate_def comp_owns_def)
    next
      case (Some p)
      then have p: "p \<notin> fst ` ?S" "bb_owns (pool cc) (sa_owns (large cc)) (L - ?S) sm (insert (p, n, a) ?S)"
        using call(2) by simp_all
      have "p \<notin> fst ` (L - ?S)" using bitblock_over.owns_all_sound(2) [OF D(1) p(2) D(3)] by auto
      then have new: "p \<notin> fst ` L" using p(1) fstL by simp
      then have "(p, n, a) \<notin> L" by force
      then have "insert (p, n, a) L - insert (p, n, a) ?S = L - ?S" by auto
      then have "comp_owns cc (s\<lparr>small_resource := sm\<rparr>) (insert (p, n, a) L)"
        using p(2) D(4) by (simp add: comp_owns_def small_part_simps(1) [OF True])
      then show ?thesis using call(1) Some True new by (simp add: comp_do_allocate_def)
    qed
  next
    case False
    obtain r u where call: "sa_do_allocate (large cc) c (large_resource s) n a = Some (r, u)"
      "case r of None \<Rightarrow> bb_owns (pool cc) (sa_owns (large cc)) (L - ?S) ((small_resource s)\<lparr>upstream := u\<rparr>) ?S
       | Some p \<Rightarrow> p \<notin> fst ` (L - ?S) \<and>
           bb_owns (pool cc) (sa_owns (large cc)) (insert (p, n, a) (L - ?S)) ((small_resource s)\<lparr>upstream := u\<rparr>) ?S"
      using bitblock_over.other_allocates [OF D(1,2) arg] unfolding large_resource_def by blast
    show ?thesis
    proof (cases r)
      case None
      then show ?thesis using call D(4) False by (simp add: comp_do_allocate_def comp_owns_def set_large_def)
    next
      case (Some p)
      then have p: "p \<notin> fst ` (L - ?S)"
        "bb_owns (pool cc) (sa_owns (large cc)) (insert (p, n, a) (L - ?S)) ((small_resource s)\<lparr>upstream := u\<rparr>) ?S"
        using call(2) by simp_all
      have "p \<notin> fst ` ?S" using bitblock_over.owns_all_sound(2) [OF D(1) p(2) D(3)] by auto
      then have new: "p \<notin> fst ` L" using p(1) fstL by simp
      have "(p, n, a) \<notin> ?S" using False by (simp add: small_part_def)
      then have "insert (p, n, a) L - ?S = insert (p, n, a) (L - ?S)" by auto
      then have "comp_owns cc (set_large u s) (insert (p, n, a) L)"
        using p(2) D(4) by (simp add: comp_owns_def small_part_simps(2) [OF False] set_large_def)
      then show ?thesis using call(1) Some False new by (simp add: comp_do_allocate_def)
    qed
  qed
qed

lemma comp_deallocate_owns:
  assumes own: "comp_owns cc s L" and x: "(p, n, a) \<in> L"
  shows "\<exists>t. comp_do_deallocate cc c s p n a = Some t \<and> comp_owns cc t (L - {(p, n, a)})"
proof -
  note D = comp_ownsD [OF own]
  let ?S = "small_part cc L"
  have snd: "block_sound (p, n, a)" using comp_owns_sound [OF own] x by (auto simp: ledger_sound_def)
  then have p0: "p \<noteq> 0" by (simp add: block_sound_def)
  show ?thesis
  proof (cases "should_use_small_pool cc n a")
    case True
    then have xs: "(p, n, a) \<in> ?S" using x by (simp add: small_part_def)
    then obtain sm where sm: "bb_do_deallocate (pool cc) c (small_resource s) p n a = Some sm"
      "bb_owns (pool cc) (sa_owns (large cc)) (L - ?S) sm (?S - {(p, n, a)})"
      using bitblock_over.bb_deallocate_owns [OF D(1,2)] by blast
    have "L - {(p, n, a)} - (?S - {(p, n, a)}) = L - ?S" using xs by auto
    then have "comp_owns cc (s\<lparr>small_resource := sm\<rparr>) (L - {(p, n, a)})"
      using sm(2) D(4) by (simp add: comp_owns_def small_part_simps(3))
    then show ?thesis using True p0 sm(1) by (simp add: comp_do_deallocate_def)
  next
    case False
    then have xs: "(p, n, a) \<notin> ?S" "(p, n, a) \<in> L - ?S" using x by (simp_all add: small_part_def)
    obtain cs where inv: "bb_inv (pool cc) (sa_owns (large cc)) (small_resource s) ?S (L - ?S) cs {}" using D(2) by (auto simp: bb_owns_def)
    let ?K = "(\<lambda>b. (b, BLOCK_BYTES (pool cc), BLOCK_ALIGN)) ` block_set (small_resource s) cs"
    have up: "sa_owns (large cc) (large_resource s) ((L - ?S) \<union> ?K)" "fst ` (L - ?S) \<inter> block_set (small_resource s) cs = {}"
      using bb_invD(3) [OF inv] by (simp_all add: bb_upstream_def large_resource_def)
    have pb: "p < 18446744073709551616" using sa_ends_below [OF up(1), of p n a] xs by simp
    obtain u where u: "do_try_deallocate (large cc) c (large_resource s) p n a = Some (True, u)"
      "sa_owns (large cc) u {y \<in> (L - ?S) \<union> ?K. fst y \<noteq> p}"
    proof -
      have "p \<in> fst ` ((L - ?S) \<union> ?K)" using xs(2) by force
      then have hit: "(p = 0 \<or> p \<in> fst ` ((L - ?S) \<union> ?K)) = True" by (simp only: simp_thms)
      show ?thesis using do_try_deallocate_owns [OF up(1) pb, of c n a] that unfolding hit by blast
    qed
    have "y = (p, n, a)" if "y \<in> L - ?S" "fst y = p" for y
      using ledger_sound_unique [OF comp_owns_sound [OF own] x] that by (cases y) auto
    moreover have "p \<notin> fst ` ?K" using up(2) xs(2) by (force simp: image_image)
    ultimately have "{y \<in> (L - ?S) \<union> ?K. fst y \<noteq> p} = (L - ?S - {(p, n, a)}) \<union> ?K" by (rule drop_one)
    then have "sa_owns (large cc) u ((L - ?S - {(p, n, a)}) \<union> ?K)" using u(2) by simp
    moreover have "fst ` (L - ?S - {(p, n, a)}) \<inter> block_set (small_resource s) cs = {}" using up(2) by blast
    ultimately have "bb_inv (pool cc) (sa_owns (large cc)) ((small_resource s)\<lparr>upstream := u\<rparr>) ?S (L - ?S - {(p, n, a)}) cs {}"
      by (rule bitblock_over.bb_set_upstream [OF D(1) inv])
    moreover have "L - {(p, n, a)} - (?S - {(p, n, a)}) = L - ?S - {(p, n, a)}" "?S - {(p, n, a)} = ?S" using xs(1) by auto
    ultimately have "comp_owns cc (set_large u s) (L - {(p, n, a)})"
      using D(4) unfolding comp_owns_def small_part_simps(3) set_large_def bb_owns_def by auto
    then show ?thesis using False p0 u(1) by (simp add: comp_do_deallocate_def)
  qed
qed

interpretation comp: memory_resource "comp_do_allocate cc" "comp_do_deallocate cc" "comp_owns cc" for cc
proof
  fix s L c b a
  assume own: "comp_owns cc s L"
  show "ledger_sound L" by (rule comp_owns_sound [OF own])
  assume arg: "arg_ok c b a"
  obtain r t where call: "comp_do_allocate cc c s b a = Some (r, t)"
    "case r of None \<Rightarrow> comp_owns cc t L | Some p \<Rightarrow> p \<notin> fst ` L \<and> comp_owns cc t (insert (p, b, a) L)"
    using comp_allocate_owns [OF own arg] by blast
  show "comp_do_allocate cc c s b a \<noteq> None" using call(1) by simp
  show "comp_do_allocate cc c s b a = Some (Some p, s') \<Longrightarrow> p \<notin> fst ` L \<and> comp_owns cc s' (insert (p, b, a) L)" for p s'
    using call by simp
  show "comp_do_allocate cc c s b a = Some (None, s') \<Longrightarrow> comp_owns cc s' L" for s' using call by simp
  show "\<exists>s'. comp_do_deallocate cc c s p b a = Some s' \<and> comp_owns cc s' (L - {(p, b, a)})" if "(p, b, a) \<in> L" for p
    using comp_deallocate_owns [OF own that] .
qed

section \<open>Sessions\<close>

lemma composite_fresh:
  assumes cc: "composite_config_ok cc" and a: "arena_ok (large cc) blk sz nshards" and c: "cpu < 4294967296"
    and s: "lockfree_composite_single_arena_resource cc cpu mem bmem hmem st blk sz n nshards = Some s"
  shows "comp_owns cc s {}"
proof -
  obtain u sm where u: "lockfree_single_arena_resource (large cc) mem blk sz nshards = Some u"
    "lockfree_bitblock_resource (pool cc) (sa_do_allocate (large cc)) cpu bmem hmem None u n = Some sm"
    "s = \<lparr>small_resource = sm, comp_statistics = st\<rparr>"
    using s unfolding lockfree_composite_single_arena_resource_def
    by (auto split: bind_splits)
  have "bitblock_over (sa_do_allocate (large cc)) (sa_do_deallocate (large cc)) (sa_owns (large cc)) (pool cc)"
    using cc by (intro bitblock_over_arena) (simp add: composite_config_ok_def)
  from bitblock_over.bitblock_resource_owns [OF this constructor_fresh [OF a u(1)] c, of bmem hmem None n]
  have "bb_owns (pool cc) (sa_owns (large cc)) {} sm {}" using u(2) by auto
  then show ?thesis using cc u(3) by (simp add: comp_owns_def small_part_simps(5))
qed

lemma composite_returns:
  assumes "composite_config_ok cc" and a: "arena_ok (large cc) blk sz nshards" and c: "cpu < 4294967296"
    and u: "lockfree_single_arena_resource (large cc) mem blk sz nshards = Some u"
  shows "\<exists>s. lockfree_composite_single_arena_resource cc cpu mem bmem hmem st blk sz n nshards = Some s"
proof -
  have "bitblock_over (sa_do_allocate (large cc)) (sa_do_deallocate (large cc)) (sa_owns (large cc)) (pool cc)"
    using assms(1) by (intro bitblock_over_arena) (simp add: composite_config_ok_def)
  from bitblock_over.bitblock_resource_owns [OF this constructor_fresh [OF a u] c, of bmem hmem None n]
  show ?thesis using u by (auto simp: lockfree_composite_single_arena_resource_def)
qed

lemma composite_session:
  assumes "composite_config_ok cc" and "arena_ok (large cc) blk sz nshards" and "cpu < 4294967296"
    and "lockfree_composite_single_arena_resource cc cpu mem bmem hmem st blk sz n nshards = Some s"
    and "list_all request_ok rs"
  shows "\<exists>y. serve_all (comp_do_allocate cc) (comp_do_deallocate cc) rs \<lparr>resource = s, held = []\<rparr> = Some y \<and>
    ledger_sound (set (held y)) \<and> comp_owns cc (resource y) (set (held y))"
  using comp.session_sound [OF composite_fresh [OF assms(1-4)] assms(5)] by blast

lemma comp_destroy_owns:
  assumes own: "comp_owns cc s L" and c: "cpu < 4294967296"
  shows "\<exists>u. comp_destroy cc cpu s = Some u \<and> sa_owns (large cc) u (L - small_part cc L)"
  using bitblock_over.bb_destroy_owns [OF comp_ownsD(1,2) [OF own] c] unfolding comp_destroy_def by auto

section \<open>Properties\<close>

text \<open>A composite resource with the default pool over a small arena, at which the properties are applied.\<close>

definition small_composite :: composite_config where
  "small_composite = \<lparr>threshold_bytes = 1000, pool = small_pool_config,
     large = small_arena_config\<lparr>maintenance_window_threshold := 128\<rparr>\<rparr>"

lemma small_composite:
  shows "composite_config_ok small_composite" and "arena_ok (large small_composite) 4096 1048576 1"
    and "\<exists>s. lockfree_composite_single_arena_resource small_composite 0 blank_memory bmem hmem st 4096 1048576 2 1 = Some s"
proof -
  have k: "arena_ok (large small_composite) 4096 1048576 1"
    "\<exists>u. lockfree_single_arena_resource (large small_composite) blank_memory 4096 1048576 1 = Some u"
    by (rule kilobyte_arena; simp add: small_composite_def small_arena_config_def)+
  show a: "arena_ok (large small_composite) 4096 1048576 1" by (rule k(1))
  have p: "pool small_composite = small_pool_config" by (simp add: small_composite_def)
  have "config_ok (large small_composite)" using a by (simp add: arena_ok_def)
  then show ok: "composite_config_ok small_composite"
    using small_pool_config_ok unfolding composite_config_ok_def p
    by (simp add: small_composite_def small_pool_config_def)
  obtain u where "lockfree_single_arena_resource (large small_composite) blank_memory 4096 1048576 1 = Some u" using k(2) by blast
  then show "\<exists>s. lockfree_composite_single_arena_resource small_composite 0 blank_memory bmem hmem st 4096 1048576 2 1 = Some s"
    by (intro composite_returns [OF ok a]) simp_all
qed

text \<open>C4: A client of the composite resource, whatever mix of small and large requests it makes: every call
  returns, and the blocks it holds are aligned as asked and never overlap, although the pool that
  serves the small ones takes its memory from the arena that serves the large ones.\<close>

theorem composite_session_sound:
  assumes "composite_config_ok cc" and "arena_ok (large cc) blk sz nshards" and "cpu < 4294967296"
    and "lockfree_composite_single_arena_resource cc cpu mem bmem hmem st blk sz n nshards = Some s"
    and "list_all request_ok rs"
  shows "\<exists>y. serve_all (comp_do_allocate cc) (comp_do_deallocate cc) rs \<lparr>resource = s, held = []\<rparr> = Some y \<and>
    ledger_sound (set (held y))"
  using composite_session [OF assms] by blast

theorem composite_session_sound_witness:
  "\<exists>s y. lockfree_composite_single_arena_resource small_composite 0 blank_memory (\<lambda>_. new_bitblock small_pool_config)
      (\<lambda>_. \<lparr>owner = 0, num_elements = 0\<rparr>) None 4096 1048576 2 1 = Some s \<and>
    serve_all (comp_do_allocate small_composite) (comp_do_deallocate small_composite)
      [Allocate 0 100 8, Allocate 1 5000 8, Allocate 0 60 64, Release 0 0, Release 1 0] \<lparr>resource = s, held = []\<rparr> = Some y \<and>
    ledger_sound (set (held y))"
proof -
  obtain s where s: "lockfree_composite_single_arena_resource small_composite 0 blank_memory (\<lambda>_. new_bitblock small_pool_config)
      (\<lambda>_. \<lparr>owner = 0, num_elements = 0\<rparr>) None 4096 1048576 2 1 = Some s" using small_composite(3) by blast
  have rs: "list_all request_ok [Allocate 0 100 8, Allocate 1 5000 8, Allocate 0 60 64, Release 0 0, Release 1 0]"
    by (simp add: request_ok_def arg_ok_def)
  show ?thesis using s composite_session_sound [OF small_composite(1,2) _ s rs] by (auto simp del: serve_all.simps)
qed

text \<open>C13: Nothing of the arena is lost in the composition: once the client has given the large blocks
  back, destroying the pool returns every block the pool took (small blocks still held go with
  it), and one pass of maintenance then rolls the frontier of the arena back to its base.\<close>

theorem composite_teardown:
  assumes "composite_config_ok cc" and "arena_ok (large cc) blk sz nshards" and "cpu < 4294967296"
    and "lockfree_composite_single_arena_resource cc cpu mem bmem hmem st blk sz n nshards = Some s"
    and "list_all request_ok rs"
    and "serve_all (comp_do_allocate cc) (comp_do_deallocate cc) rs \<lparr>resource = s, held = []\<rparr> = Some y"
    and "list_all (\<lambda>(p, b, a). should_use_small_pool cc b a) (held y)"
  shows "\<exists>u t. comp_destroy cc cpu (resource y) = Some u \<and> run_maintenance_window_all (large cc) u = Some t \<and>
    frontier t = allocation_base t"
proof -
  have own: "comp_owns cc (resource y) (set (held y))" using composite_session [OF assms(1-5)] assms(6) by simp
  have none: "set (held y) - small_part cc (set (held y)) = {}" using assms(7) by (auto simp: small_part_def list_all_iff)
  obtain u where "comp_destroy cc cpu (resource y) = Some u" "sa_owns (large cc) u {}"
    using comp_destroy_owns [OF own assms(3)] unfolding none by blast
  then show ?thesis using maintenance_empties by blast
qed

theorem composite_teardown_witness:
  "\<exists>s y u t. lockfree_composite_single_arena_resource small_composite 0 blank_memory (\<lambda>_. new_bitblock small_pool_config)
      (\<lambda>_. \<lparr>owner = 0, num_elements = 0\<rparr>) None 4096 1048576 2 1 = Some s \<and>
    serve_all (comp_do_allocate small_composite) (comp_do_deallocate small_composite) [Allocate 0 100 8] \<lparr>resource = s, held = []\<rparr> = Some y \<and>
    comp_destroy small_composite 0 (resource y) = Some u \<and> run_maintenance_window_all (large small_composite) u = Some t \<and>
    frontier t = allocation_base t"
proof -
  obtain s where s: "lockfree_composite_single_arena_resource small_composite 0 blank_memory (\<lambda>_. new_bitblock small_pool_config)
      (\<lambda>_. \<lparr>owner = 0, num_elements = 0\<rparr>) None 4096 1048576 2 1 = Some s" using small_composite(3) by blast
  have rs: "list_all request_ok [Allocate 0 100 8]" by (simp add: request_ok_def arg_ok_def)
  have c: "(0::nat) < 4294967296" by simp
  obtain y where y: "serve_all (comp_do_allocate small_composite) (comp_do_deallocate small_composite) [Allocate 0 100 8]
      \<lparr>resource = s, held = []\<rparr> = Some y" using composite_session [OF small_composite(1,2) c s rs] by blast
  have "list_all (\<lambda>(p, b, a). should_use_small_pool small_composite b a) (held y)"
    using y by (auto simp: serve_def should_use_small_pool_def small_composite_def split: option.splits bind_splits)
  then show ?thesis using composite_teardown [OF small_composite(1,2) c s rs y] s y by blast
qed

end
