(* ===== verification/Bit_Rotation.thy ===== *)
theory Bit_Rotation
  imports Prelude "HOL-Library.Signed_Division"
begin

text \<open>
  \<^verbatim>\<open>rotl\<close> and \<^verbatim>\<open>rotr\<close> (\<^verbatim>\<open>include/__bit/rotl_rotr.h\<close>) for a word of any width, with the signed shift of
  the code: C++'s remainder has the sign of the dividend.
\<close>

definition rotl :: "'a::len word \<Rightarrow> int \<Rightarrow> 'a word" where
  "rotl x shift =
     (let width = LENGTH('a); rotation = shift smod int width
      in if rotation = 0 then x
         else if rotation > 0
           then (push_bit (nat rotation) x OR drop_bit (width - nat rotation) x)
         else let normalized = nat (- rotation)
              in (drop_bit normalized x OR push_bit (width - normalized) x))"

definition rotr :: "'a::len word \<Rightarrow> int \<Rightarrow> 'a word" where
  "rotr x shift =
     (let width = LENGTH('a); rotation = shift smod int width
      in if rotation = 0 then x
         else if rotation > 0
           then (drop_bit (nat rotation) x OR push_bit (width - nat rotation) x)
         else let normalized = nat (- rotation)
              in (push_bit normalized x OR drop_bit (width - normalized) x))"

lemma or_shifts_rotl:
  fixes x :: "'a::len word"
  assumes "0 < n" and "n < LENGTH('a)"
  shows "(push_bit n x OR drop_bit (LENGTH('a) - n) x) = word_rotl n x"
proof (rule bit_word_eqI)
  fix i assume i: "i < LENGTH('a)"
  show "bit (push_bit n x OR drop_bit (LENGTH('a) - n) x) i = bit (word_rotl n x) i"
  proof (cases "i < n")
    case True
    have "LENGTH('a) - n + i < LENGTH('a)" using True assms by simp
    moreover have "(i + (LENGTH('a) - n)) mod LENGTH('a) = LENGTH('a) - n + i"
      using True assms by simp
    ultimately show ?thesis using True i assms by (auto simp: bit_simps bit_word_rotl_iff add.commute)
  next
    case False
    have "(i + (LENGTH('a) - n)) mod LENGTH('a) = i - n"
    proof -
      have "i + (LENGTH('a) - n) = (i - n) + LENGTH('a)" using False assms by simp
      then have "(i + (LENGTH('a) - n)) mod LENGTH('a) = (i - n) mod LENGTH('a)" by (simp only: mod_add_self2)
      then show ?thesis using i by simp
    qed
    moreover have "\<not> bit x (LENGTH('a) - n + i)" using False assms by (auto dest: bit_imp_le_length)
    ultimately show ?thesis using False i assms by (auto simp: bit_simps bit_word_rotl_iff)
  qed
qed

lemma or_shifts_rotr:
  fixes x :: "'a::len word"
  assumes "0 < n" and "n < LENGTH('a)"
  shows "(drop_bit n x OR push_bit (LENGTH('a) - n) x) = word_rotr n x"
proof -
  have "(push_bit (LENGTH('a) - n) x OR drop_bit (LENGTH('a) - (LENGTH('a) - n)) x) = word_rotl (LENGTH('a) - n) x"
    using assms by (intro or_shifts_rotl) auto
  also have "\<dots> = word_rotr n x" using assms by (simp add: word_rotl_eq_word_rotr)
  finally show ?thesis using assms by (simp add: or.commute)
qed

lemma word_rotate_0 [simp]: "word_rotr 0 x = x" "word_rotl 0 x = x"
  by (rule bit_word_eqI; simp add: bit_word_rotr_iff bit_word_rotl_iff)+

text \<open>The remainder of the shift stays below the width.\<close>

lemma rotation_range: "0 < w \<Longrightarrow> shift smod int w < int w \<and> - int w < shift smod int w"
proof -
  assume "0 < w"
  then have "\<bar>shift\<bar> mod int w < int w" "0 \<le> \<bar>shift\<bar> mod int w" by simp_all
  then show ?thesis by (auto simp: smod_int_alt_def sgn_if)
qed

lemma rotl_word_rotl:
  fixes x :: "'a::len word"
  shows "rotl x shift = (let r = shift smod int LENGTH('a) in if r \<ge> 0 then word_rotl (nat r) x else word_rotr (nat (- r)) x)"
    and "rotr x shift = (let r = shift smod int LENGTH('a) in if r \<ge> 0 then word_rotr (nat r) x else word_rotl (nat (- r)) x)"
proof -
  let ?r = "shift smod int LENGTH('a)"
  have b: "?r < int LENGTH('a)" "- int LENGTH('a) < ?r" using rotation_range [of "LENGTH('a)" shift] by simp_all
  consider "?r = 0" | "0 < ?r" | "?r < 0" by linarith
  note cases = this
  show "rotl x shift = (let r = ?r in if r \<ge> 0 then word_rotl (nat r) x else word_rotr (nat (- r)) x)"
    using cases by cases (use b or_shifts_rotl [of "nat ?r" x] or_shifts_rotr [of "nat (- ?r)" x]
      in \<open>simp_all add: rotl_def Let_def\<close>)
  show "rotr x shift = (let r = ?r in if r \<ge> 0 then word_rotr (nat r) x else word_rotl (nat (- r)) x)"
    using cases by cases (use b or_shifts_rotr [of "nat ?r" x] or_shifts_rotl [of "nat (- ?r)" x]
      in \<open>simp_all add: rotr_def Let_def\<close>)
qed

lemma rotr_rotl [simp]: "rotr (rotl x shift) shift = x" and rotl_rotr [simp]: "rotl (rotr x shift) shift = x"
  by (simp_all add: rotl_word_rotl Let_def)

lemma rotl_0 [simp]: "rotl 0 shift = 0"
  by (simp add: rotl_def Let_def)

lemma rotl_inj: "rotl x shift = rotl y shift \<longleftrightarrow> x = y"
  by (metis rotr_rotl)

text \<open>Rotating left and then right by any signed shift, negative and beyond the width included,
  gives the word back, and a left rotation by a shift is the right rotation by its negation.\<close>

theorem rotate_inverse:
  "rotr (rotl x shift) shift = x \<and> rotl (rotr x shift) shift = x \<and> rotl x (- shift) = rotr x shift"
proof -
  have "(- shift) smod int LENGTH('a) = - (shift smod int LENGTH('a))" by (simp add: smod_int_alt_def sgn_if)
  then have "rotl x (- shift) = rotr x shift" by (auto simp: rotl_word_rotl Let_def)
  then show ?thesis by simp
qed

end
