(* ===== verification/Random_Engines.thy ===== *)
theory Random_Engines
  imports Bit_Rotation "HOL-Library.Monad_Syntax"
begin

text \<open>
  The engines of \<^verbatim>\<open>include/__random\<close>: the two xorshift engines
  (\<^verbatim>\<open>fast_single_threaded_low_quality_rng.h\<close>, \<^verbatim>\<open>fast_lockfree_low_quality_rng.h\<close>) and
  \<^verbatim>\<open>xoroshiro128_plus_plus.h\<close>, and the seed sequence of \<^verbatim>\<open>seed_seq.h\<close>.  An engine is its state; a
  call returns the output and the next state.
\<close>

section \<open>The xorshift engines\<close>

definition DEFAULT_SEED :: u64 where "DEFAULT_SEED = 88172645463325252"

definition xorshift_next :: "u64 \<Rightarrow> u64" where
  "xorshift_next x =
     (let x = x XOR push_bit 13 x; x = x XOR drop_bit 7 x
      in x XOR push_bit 17 x)"

definition xorshift_seeded :: "u64 \<Rightarrow> u64" where
  "xorshift_seeded sd = (if sd = 0 then DEFAULT_SEED else sd)"

definition xorshift_call :: "u64 \<Rightarrow> u64 \<times> u64" where
  "xorshift_call x = (let x = xorshift_next x in (x, x))"

primrec xorshift_discard :: "nat \<Rightarrow> u64 \<Rightarrow> u64" where
  "xorshift_discard 0 x = x"
| "xorshift_discard (Suc z) x = xorshift_discard z (snd (xorshift_call x))"

text \<open>Seeding from two words of a seed sequence.\<close>

definition join_words :: "u32 \<Rightarrow> u32 \<Rightarrow> u64" where
  "join_words hi lo = (push_bit 32 (ucast hi) OR ucast lo)"

definition xorshift_seed_seq :: "u32 \<Rightarrow> u32 \<Rightarrow> u64" where
  "xorshift_seed_seq a b = xorshift_seeded (join_words a b)"

section \<open>xoroshiro128++\<close>

record seed_type =
  low :: u64
  high :: u64

definition DEFAULT_SEED_LOW :: u64 where "DEFAULT_SEED_LOW = 88172645463325252"
definition DEFAULT_SEED_HIGH :: u64 where "DEFAULT_SEED_HIGH = 6364136223846793005"

definition xoroshiro_default :: seed_type where
  "xoroshiro_default = \<lparr>low = DEFAULT_SEED_LOW, high = DEFAULT_SEED_HIGH\<rparr>"

definition xoroshiro_seeded :: "u64 \<Rightarrow> seed_type" where
  "xoroshiro_seeded sd = \<lparr>low = (if sd = 0 then DEFAULT_SEED_LOW else sd), high = DEFAULT_SEED_HIGH\<rparr>"

definition xoroshiro_seed_seq :: "u32 \<Rightarrow> u32 \<Rightarrow> u32 \<Rightarrow> u32 \<Rightarrow> seed_type" where
  "xoroshiro_seed_seq a b c d =
     (let s = \<lparr>low = join_words a b, high = join_words c d\<rparr>
      in if low s = 0 \<and> high s = 0 then xoroshiro_default else s)"

definition next_value_internal :: "seed_type \<Rightarrow> u64 \<times> seed_type" where
  "next_value_internal s =
     (let s0 = low s; s1 = high s;
          result = rotl (s0 + s1) 17 + s0;
          s1 = s1 XOR s0
      in (result, \<lparr>low = rotl s0 49 XOR s1 XOR push_bit 21 s1, high = rotl s1 28\<rparr>))"

primrec xoroshiro_discard :: "nat \<Rightarrow> seed_type \<Rightarrow> seed_type" where
  "xoroshiro_discard 0 s = s"
| "xoroshiro_discard (Suc z) s = xoroshiro_discard z (snd (next_value_internal s))"

definition JUMP :: "u64 list" where
  "JUMP = [0x2bd7a6a6e99c2ddc, 0x0992ccaf6a6fca05]"

text \<open>One bit of the jump polynomial: accumulate if it is set, then step.\<close>

definition jump_bit :: "u64 \<Rightarrow> nat \<Rightarrow> seed_type \<times> u64 \<times> u64 \<Rightarrow> seed_type \<times> u64 \<times> u64" where
  "jump_bit j b st = (case st of (s, s0, s1) \<Rightarrow>
     (let acc = (if j AND push_bit b 1 \<noteq> 0 then (s0 XOR low s, s1 XOR high s) else (s0, s1))
      in (snd (next_value_internal s), acc)))"

definition xoroshiro_fork :: "seed_type \<Rightarrow> seed_type \<times> seed_type" where
  "xoroshiro_fork s =
     (case fold (\<lambda>j st. fold (jump_bit j) [0..<64] st) JUMP (s, 0, 0) of
        (_, s0, s1) \<Rightarrow> (s, \<lparr>low = s0, high = s1\<rparr>))"

section \<open>The state transitions are permutations without a fixed zero\<close>

text \<open>A word is recovered from its xor with a shift of itself, bit by bit.\<close>

lemma xor_push_inj:
  fixes x y :: "'a::len word"
  assumes "x XOR push_bit k x = y XOR push_bit k y" and "0 < k"
  shows "x = y"
proof (rule bit_word_eqI)
  fix n
  show "n < LENGTH('a) \<Longrightarrow> bit x n = bit y n"
  proof (induction n rule: less_induct)
    case (less n)
    have "bit (x XOR push_bit k x) n = bit (y XOR push_bit k y) n" using assms(1) by simp
    moreover have "k \<le> n \<longrightarrow> bit x (n - k) = bit y (n - k)" using less assms(2) by simp
    ultimately show ?case using less.prems by (auto simp: bit_xor_iff bit_push_bit_iff)
  qed
qed

lemma xor_drop_inj:
  fixes x y :: "'a::len word"
  assumes "x XOR drop_bit k x = y XOR drop_bit k y" and "0 < k"
  shows "x = y"
proof (rule bit_word_eqI)
  fix n
  show "n < LENGTH('a) \<Longrightarrow> bit x n = bit y n"
  proof (induction "LENGTH('a) - n" arbitrary: n rule: less_induct)
    case less
    have "bit (x XOR drop_bit k x) n = bit (y XOR drop_bit k y) n" using assms(1) by simp
    moreover have "bit x (n + k) = bit y (n + k)"
    proof (cases "n + k < LENGTH('a)")
      case True
      then show ?thesis using less.hyps [of "n + k"] assms(2) by simp
    qed (auto dest: bit_imp_le_length)
    ultimately show ?case by (auto simp: bit_xor_iff bit_drop_bit_eq add.commute)
  qed
qed

lemma xorshift_next_inj: "xorshift_next x = xorshift_next y \<Longrightarrow> x = y"
  unfolding xorshift_next_def Let_def
  by (drule xor_push_inj, simp, drule xor_drop_inj, simp, drule xor_push_inj) simp_all

lemma xorshift_next_0 [simp]: "xorshift_next 0 = 0"
  by (simp add: xorshift_next_def)

lemma xorshift_next_nonzero: "x \<noteq> 0 \<Longrightarrow> xorshift_next x \<noteq> 0"
  using xorshift_next_inj [of x 0] by auto

lemma xorshift_discard_iterate: "xorshift_discard z x = (xorshift_next ^^ z) x"
  by (induction z arbitrary: x) (simp_all add: xorshift_call_def Let_def funpow_swap1)

lemma xor_right_cancel: "(a :: 'a::len word) XOR c = b XOR c \<longleftrightarrow> a = b"
  by (metis xor.assoc xor_self_eq xor.right_neutral)

definition xoroshiro_step :: "seed_type \<Rightarrow> seed_type" where
  "xoroshiro_step s = snd (next_value_internal s)"

lemma xoroshiro_step_inj: "xoroshiro_step s = xoroshiro_step t \<Longrightarrow> s = t"
proof -
  assume e: "xoroshiro_step s = xoroshiro_step t"
  have h: "low s XOR high s = low t XOR high t"
    using e by (simp add: xoroshiro_step_def next_value_internal_def Let_def rotl_inj xor.commute)
  then have x: "high s XOR low s = high t XOR low t" by (simp add: xor.commute)
  have "rotl (low s) 49 = rotl (low t) 49"
    using e x by (simp add: xoroshiro_step_def next_value_internal_def Let_def xor_right_cancel del: push_bit_xor)
  then have l: "low s = low t" by (simp add: rotl_inj)
  then have "high s = high t" using x by (simp add: xor_right_cancel)
  then show ?thesis using l by simp
qed

definition zero_seed :: seed_type where "zero_seed = \<lparr>low = 0, high = 0\<rparr>"

lemma xoroshiro_step_0: "xoroshiro_step zero_seed = zero_seed"
  by (simp add: xoroshiro_step_def zero_seed_def next_value_internal_def)

lemma xoroshiro_discard_iterate: "xoroshiro_discard z s = (xoroshiro_step ^^ z) s"
  by (induction z arbitrary: s) (simp_all add: xoroshiro_step_def funpow_swap1)

lemma seeds_nonzero: "DEFAULT_SEED \<noteq> 0" "xorshift_seeded sd \<noteq> 0" "xoroshiro_seeded sd \<noteq> zero_seed"
  "xoroshiro_seed_seq a b c d \<noteq> zero_seed" "xoroshiro_default \<noteq> zero_seed"
  by (simp_all add: DEFAULT_SEED_def xorshift_seeded_def xoroshiro_seeded_def zero_seed_def xoroshiro_default_def
      xoroshiro_seed_seq_def DEFAULT_SEED_LOW_def DEFAULT_SEED_HIGH_def Let_def)

section \<open>The lock-free engine under interference\<close>

text \<open>
  A context loads the state, then exchanges it for its successor; a failed exchange reloads it.
  The trace holds the values returned so far, in the order of the successful exchanges.
\<close>

record rng_state =
  shared :: u64
  loaded :: "nat \<Rightarrow> u64 option"
  returned :: "u64 list"

inductive rng_step :: "rng_state \<Rightarrow> rng_state \<Rightarrow> bool" where
  rng_load: "loaded s t = None \<Longrightarrow> rng_step s (s\<lparr>loaded := (loaded s)(t \<mapsto> shared s)\<rparr>)"
| rng_success: "loaded s t = Some x \<Longrightarrow> shared s = x \<Longrightarrow>
     rng_step s (s\<lparr>shared := xorshift_next x, loaded := (loaded s)(t := None),
                   returned := returned s @ [xorshift_next x]\<rparr>)"
| rng_failure: "loaded s t = Some x \<Longrightarrow> rng_step s (s\<lparr>loaded := (loaded s)(t \<mapsto> shared s)\<rparr>)"

inductive rng_reach :: "u64 \<Rightarrow> rng_state \<Rightarrow> bool" for sd where
  rng_init: "rng_reach sd \<lparr>shared = sd, loaded = (\<lambda>_. None), returned = []\<rparr>"
| rng_more: "rng_reach sd s \<Longrightarrow> rng_step s s' \<Longrightarrow> rng_reach sd s'"

inductive_cases rng_step_cases: "rng_step s s'"

lemma rng_trace:
  assumes "rng_reach sd s"
  shows "shared s = (xorshift_next ^^ length (returned s)) sd \<and>
    returned s = map (\<lambda>i. (xorshift_next ^^ Suc i) sd) [0..<length (returned s)]"
  using assms
proof (induction rule: rng_reach.induct)
  case (rng_more s s')
  from rng_more.hyps(2) rng_more.IH show ?case
    by (cases rule: rng_step.cases) auto
qed simp

section \<open>The seed sequence\<close>

definition MAX_VALUES :: nat where "MAX_VALUES = 16"

definition seed_seq :: "u32 list \<Rightarrow> u32 list" where
  "seed_seq values = take MAX_VALUES values"

definition seed_size :: "u32 list \<Rightarrow> nat" where "seed_size v = length v"

definition seed_param :: "u32 list \<Rightarrow> u32 list" where "seed_param v = v"

definition mix :: "u32 \<Rightarrow> u32" where "mix x = x XOR drop_bit 27 x"

text \<open>Accesses through the iterator and to the stored values; \<open>None\<close> is one out of range.\<close>

definition at :: "u32 list \<Rightarrow> nat \<Rightarrow> u32 option" where
  "at out i = (if i < length out then Some (out ! i) else None)"

definition put :: "nat \<Rightarrow> u32 \<Rightarrow> u32 list \<Rightarrow> u32 list option" where
  "put i x out = (if i < length out then Some (out[i := x]) else None)"

definition seed_t :: "nat \<Rightarrow> nat" where
  "seed_t n = (if n \<ge> 623 then 11 else if n \<ge> 68 then 7 else if n \<ge> 39 then 5 else if n \<ge> 7 then 3
     else sub64 n 1 div 2)"

definition first_round :: "u32 list \<Rightarrow> nat \<Rightarrow> nat \<Rightarrow> nat \<Rightarrow> nat \<Rightarrow> u32 list \<Rightarrow> u32 list option" where
  "first_round v n p q k out =
     (let s = length v; kn = k mod n; kpn = (k + p) mod n; kqn = (k + q) mod n; km1n = (k + n - 1) mod n
      in do {
        a \<leftarrow> at out kn; b \<leftarrow> at out kpn; c \<leftarrow> at out km1n;
        let r1 = 1664525 * mix (a XOR b XOR c);
        r2 \<leftarrow> (if k = 0 then Some (r1 + of_nat s)
              else if k \<le> s then map_option (\<lambda>x. r1 + of_nat kn + x) (at v (k - 1))
              else Some (r1 + of_nat kn));
        out \<leftarrow> put kpn (b + r1) out;
        d \<leftarrow> at out kqn;
        out \<leftarrow> put kqn (d + r2) out;
        put kn r2 out })"

definition second_round :: "nat \<Rightarrow> nat \<Rightarrow> nat \<Rightarrow> nat \<Rightarrow> u32 list \<Rightarrow> u32 list option" where
  "second_round n p q k out =
     (let kn = k mod n; kpn = (k + p) mod n; kqn = (k + q) mod n; km1n = (k + n - 1) mod n
      in do {
        a \<leftarrow> at out kn; b \<leftarrow> at out kpn; c \<leftarrow> at out km1n;
        let r3 = 1566083941 * mix (a + b + c);
        let r4 = r3 - of_nat kn;
        out \<leftarrow> put kpn (b XOR r3) out;
        d \<leftarrow> at out kqn;
        out \<leftarrow> put kqn (d XOR r4) out;
        put kn r4 out })"

primrec rounds :: "(nat \<Rightarrow> 'o \<Rightarrow> 'o option) \<Rightarrow> nat list \<Rightarrow> 'o \<Rightarrow> 'o option" where
  "rounds f [] out = Some out"
| "rounds f (k # ks) out = do { out \<leftarrow> f k out; rounds f ks out }"

definition seed_generate :: "u32 list \<Rightarrow> nat \<Rightarrow> u32 list option" where
  "seed_generate v n =
     (if n = 0 then Some []
      else let t = seed_t n; p = (n - t) div 2; q = p + t; m = (if length v + 1 > n then length v + 1 else n)
      in do {
        out \<leftarrow> rounds (first_round v n p q) [0..<m] (replicate n 0x8b8b8b8b);
        rounds (second_round n p q) [m..<m + n] out })"

lemma rounds_keeps:
  assumes "\<And>k out. k \<in> set ks \<Longrightarrow> P out \<Longrightarrow> \<exists>out'. f k out = Some out' \<and> P out'" and "P out"
  shows "\<exists>out'. rounds f ks out = Some out' \<and> P out'"
  using assms
proof (induction ks arbitrary: out)
  case (Cons k ks)
  obtain out' where "f k out = Some out'" "P out'" using Cons.prems by (meson list.set_intros(1))
  then show ?case using Cons.IH [of out'] Cons.prems(1) by simp
qed simp

lemma first_round_length:
  "0 < n \<Longrightarrow> length out = n \<Longrightarrow> \<exists>out'. first_round v n p q k out = Some out' \<and> length out' = n"
  by (auto simp: first_round_def at_def put_def Let_def)

lemma second_round_length:
  "0 < n \<Longrightarrow> length out = n \<Longrightarrow> \<exists>out'. second_round n p q k out = Some out' \<and> length out' = n"
  by (auto simp: second_round_def at_def put_def Let_def)

section \<open>Properties\<close>

text \<open>C30: The xorshift engines never stop at zero: from any seed, the zero seed included, every later
  state is nonzero, and the transition is a permutation of the 64-bit words, so no state is ever
  repeated before the sequence has come back to its seed.\<close>

theorem xorshift_never_zero:
  "xorshift_discard n (xorshift_seeded sd) \<noteq> 0 \<and> xorshift_discard n (xorshift_seed_seq a b) \<noteq> 0 \<and>
   bij (\<lambda>x. snd (xorshift_call x))"
proof -
  have inj: "inj xorshift_next" by (auto intro: injI xorshift_next_inj)
  have nz: "(xorshift_next ^^ n) x \<noteq> 0" if "x \<noteq> 0" for x n
    by (induction n) (simp_all add: that xorshift_next_nonzero)
  have "(\<lambda>x. snd (xorshift_call x)) = xorshift_next" by (simp add: xorshift_call_def Let_def fun_eq_iff)
  then show ?thesis using inj nz
    by (simp add: bij_def finite_UNIV_inj_surj xorshift_discard_iterate xorshift_seed_seq_def seeds_nonzero)
qed

text \<open>The same for xoroshiro128++: seeded from a number or from a seed sequence it never reaches
  the all-zero state, and its transition loses no state.\<close>

theorem xoroshiro_never_zero:
  "xoroshiro_discard n (xoroshiro_seeded sd) \<noteq> zero_seed \<and> xoroshiro_discard n (xoroshiro_seed_seq a b c d) \<noteq> zero_seed \<and>
   xoroshiro_discard n xoroshiro_default \<noteq> zero_seed \<and> inj (\<lambda>s. snd (next_value_internal s))"
proof -
  have inj: "inj xoroshiro_step" by (auto intro: injI xoroshiro_step_inj)
  have nz: "(xoroshiro_step ^^ n) s \<noteq> zero_seed" if "s \<noteq> zero_seed" for s n
  proof (induction n)
    case (Suc n)
    then show ?case using xoroshiro_step_inj [of "(xoroshiro_step ^^ n) s" zero_seed] xoroshiro_step_0 by auto
  qed (use that in simp)
  have "(\<lambda>s. snd (next_value_internal s)) = xoroshiro_step" by (simp add: xoroshiro_step_def fun_eq_iff)
  then show ?thesis using inj nz by (simp add: xoroshiro_discard_iterate seeds_nonzero)
qed

text \<open>C29: The lock-free engine under any interleaving of any number of contexts: the values returned
  are, in the order of the successful exchanges, exactly the sequence the single-threaded engine
  gives from the same seed, so no value is returned twice or skipped.\<close>

theorem lockfree_rng_linearizable:
  assumes "rng_reach sd s"
  shows "returned s = map (\<lambda>i. fst (xorshift_call (xorshift_discard i sd))) [0..<length (returned s)] \<and>
    shared s = xorshift_discard (length (returned s)) sd"
  using rng_trace [OF assms] by (simp add: xorshift_discard_iterate xorshift_call_def Let_def)

definition two_loads :: rng_state where
  "two_loads = \<lparr>shared = 5, loaded = [0 \<mapsto> 5, 1 \<mapsto> 5], returned = []\<rparr>"

definition one_return :: rng_state where
  "one_return = \<lparr>shared = xorshift_next 5, loaded = [1 \<mapsto> 5], returned = [xorshift_next 5]\<rparr>"

lemma one_return_reach: "rng_reach 5 one_return"
proof -
  let ?s = "\<lparr>shared = 5, loaded = (\<lambda>_. None), returned = []\<rparr>"
  have 0: "rng_reach 5 ?s" by (rule rng_init)
  have "rng_step ?s (?s\<lparr>loaded := (loaded ?s)(0 \<mapsto> shared ?s)\<rparr>)" by (rule rng_load) simp
  then have 1: "rng_reach 5 (?s\<lparr>loaded := [0 \<mapsto> 5]\<rparr>)" using rng_more [OF 0] by simp
  have "rng_step (?s\<lparr>loaded := [0 \<mapsto> 5]\<rparr>) two_loads"
    using rng_load [of "?s\<lparr>loaded := [0 \<mapsto> 5]\<rparr>" 1] by (simp add: two_loads_def)
  then have 2: "rng_reach 5 two_loads" by (rule rng_more [OF 1])
  have "rng_step two_loads one_return"
    using rng_success [of two_loads 0 5] by (simp add: two_loads_def one_return_def fun_upd_twist)
  then show ?thesis by (rule rng_more [OF 2])
qed

theorem lockfree_rng_linearizable_witness:
  "returned one_return = map (\<lambda>i. fst (xorshift_call (xorshift_discard i 5))) [0..<length (returned one_return)] \<and>
    shared one_return = xorshift_discard (length (returned one_return)) 5"
  by (rule lockfree_rng_linearizable [OF one_return_reach])

text \<open>A seed sequence fills any range: for every number of stored seeds and every length asked
  for, no access of the mixing rounds falls outside the range or the stored seeds, and exactly the
  requested number of words is produced.\<close>

theorem seed_generate_total:
  "\<exists>out. seed_generate (seed_seq values) n = Some out \<and> length out = n"
proof (cases "n = 0")
  case False
  let ?v = "seed_seq values"
  let ?t = "seed_t n" and ?m = "if length ?v + 1 > n then length ?v + 1 else n"
  let ?p = "(n - ?t) div 2"
  let ?q = "?p + ?t"
  obtain out where 1: "rounds (first_round ?v n ?p ?q) [0..<?m] (replicate n 0x8b8b8b8b) = Some out" "length out = n"
    using rounds_keeps [of "[0..<?m]" "\<lambda>out. length out = n" "first_round ?v n ?p ?q" "replicate n 0x8b8b8b8b"]
      first_round_length [of n] False by auto
  obtain out' where 2: "rounds (second_round n ?p ?q) [?m..<?m + n] out = Some out'" "length out' = n"
    using rounds_keeps [of "[?m..<?m + n]" "\<lambda>out. length out = n" "second_round n ?p ?q" out]
      second_round_length [of n] False 1(2) by auto
  show ?thesis using False 1 2 by (simp add: seed_generate_def Let_def del: upt_Suc)
qed (simp add: seed_generate_def)

end
