(* ===== verification/Uniform_Distribution.thy ===== *)
theory Uniform_Distribution
  imports Random_Engines
begin

text \<open>
  \<^verbatim>\<open>uniform_int_distribution\<close> (\<^verbatim>\<open>include/__random/uniform_int_distribution.h\<close>) over any engine: an
  engine is its smallest and largest output and its call, which the definitions take as a record.
  \<open>None\<close> is a rejection loop that never accepts.
\<close>

section \<open>The distribution\<close>

record 's urbg =
  gen_min :: u64
  gen_max :: u64
  gen_call :: "'s \<Rightarrow> u64 \<times> 's"

definition engine_range :: "'s urbg \<Rightarrow> u64" where
  "engine_range g = gen_max g - gen_min g"

definition raw :: "'s urbg \<Rightarrow> 's \<Rightarrow> u64 \<times> 's" where
  "raw g s = (case gen_call g s of (x, s') \<Rightarrow> (x - gen_min g, s'))"

definition rejection_threshold :: "'s urbg \<Rightarrow> u64 \<Rightarrow> u64" where
  "rejection_threshold g rg = (engine_range g - rg) mod (rg + 1)"

partial_function (option) reject_below :: "'s urbg \<Rightarrow> u64 \<Rightarrow> 's \<Rightarrow> (u64 \<times> 's) option" where
  "reject_below g threshold s =
     (case raw g s of (v, s') \<Rightarrow> if v < threshold then reject_below g threshold s' else Some (v, s'))"

declare reject_below.simps [code]

partial_function (option) draw :: "'s urbg \<Rightarrow> u64 \<Rightarrow> 's \<Rightarrow> (u64 \<times> 's) option" where
  "draw g rg s =
     (if rg = engine_range g then Some (raw g s)
      else if rg < engine_range g
      then (case reject_below g (rejection_threshold g rg) s of
              None \<Rightarrow> None
            | Some (v, s') \<Rightarrow> Some (v mod (rg + 1), s'))
      else if engine_range g = NOT 0 then Some (raw g s)
      else Option.bind (draw g (rg div (engine_range g + 1)) s) (\<lambda>(h, s1).
             case raw g s1 of (r, s2) \<Rightarrow>
               (let high = (engine_range g + 1) * h; v = high + r
                in if v > rg \<or> v < high then draw g rg s2 else Some (v, s2))))"

declare draw.simps [code]

text \<open>The result type is any integer type; \<open>a\<close> and \<open>b\<close> are its values as words.\<close>

definition uniform_generate :: "'s urbg \<Rightarrow> 'a::len word \<Rightarrow> 'a word \<Rightarrow> 's \<Rightarrow> ('a word \<times> 's) option" where
  "uniform_generate g a b s =
     (let rg = b - a
      in if rg = 0 then Some (a, s)
         else case draw g (ucast rg) s of
                None \<Rightarrow> None
              | Some (v, s') \<Rightarrow> Some (ucast v + a, s'))"

section \<open>Results stay in the interval\<close>

definition urbg_ok :: "'s urbg \<Rightarrow> bool" where
  "urbg_ok g \<longleftrightarrow> gen_min g < gen_max g \<and> (\<forall>s. gen_min g \<le> fst (gen_call g s) \<and> fst (gen_call g s) \<le> gen_max g)"

lemma raw_output_range:
  assumes "urbg_ok g"
  shows "fst (raw g s) \<le> engine_range g"
proof -
  have "gen_min g \<le> fst (gen_call g s)" "fst (gen_call g s) \<le> gen_max g"
    using assms by (auto simp: urbg_ok_def)
  then show ?thesis
    by (auto simp: raw_def engine_range_def word_le_nat_alt unat_sub split: prod.split)
qed

lemma succ_unat: "(rg :: u64) < x \<Longrightarrow> unat (rg + 1) = unat rg + 1"
  using unsigned_less [of x, where ?'a = nat] unat_add_lem [of rg 1] by (simp add: word_less_nat_alt)

lemma mod_succ_le: "(rg :: u64) < x \<Longrightarrow> v mod (rg + 1) \<le> rg"
  using succ_unat [of rg x] mod_less_divisor [of "unat rg + 1" "unat v"]
  by (simp add: word_le_nat_alt unat_mod_distrib)

lemma draw_range:
  assumes "draw g rg s = Some y" and "urbg_ok g"
  shows "fst y \<le> rg"
proof -
  have step: "fst y \<le> rg" if ok: "urbg_ok g"
    and IH: "\<And>g rg s y. dr g rg s = Some y \<Longrightarrow> urbg_ok g \<longrightarrow> fst y \<le> rg"
    and call: "(if rg = engine_range g then Some (raw g s)
      else if rg < engine_range g
      then (case reject_below g (rejection_threshold g rg) s of
              None \<Rightarrow> None
            | Some (v, s') \<Rightarrow> Some (v mod (rg + 1), s'))
      else if engine_range g = NOT 0 then Some (raw g s)
      else Option.bind (dr g (rg div (engine_range g + 1)) s) (\<lambda>(h, s1).
             case raw g s1 of (r, s2) \<Rightarrow>
               (let high = (engine_range g + 1) * h; v = high + r
                in if v > rg \<or> v < high then dr g rg s2 else Some (v, s2)))) = Some y"
  for dr and g :: "'a urbg" and rg s y
  proof -
  consider "rg = engine_range g" | "rg < engine_range g" | "rg \<noteq> engine_range g" "\<not> rg < engine_range g" "engine_range g = NOT 0"
    | "rg \<noteq> engine_range g" "\<not> rg < engine_range g" "engine_range g \<noteq> NOT 0" by blast
  then show ?thesis
  proof cases
    case 1
    then show ?thesis using call raw_output_range [OF ok, of s] by auto
  next
    case 2
    then have "rg \<noteq> engine_range g" by simp
    then show ?thesis using call 2 mod_succ_le [OF 2] by (auto split: option.splits prod.splits)
  next
    case 3
    then show ?thesis using word_order.extremum [of rg] by (simp add: word_order.not_eq_extremum)
  next
    case 4
    obtain h s1 where a: "dr g (rg div (engine_range g + 1)) s = Some (h, s1)"
      using call 4 by (cases "dr g (rg div (engine_range g + 1)) s") auto
    obtain r s2 where b: "raw g s1 = (r, s2)" by fastforce
    have y: "(let high = (engine_range g + 1) * h; v = high + r in if v > rg \<or> v < high then dr g rg s2 else Some (v, s2)) = Some y"
      using call 4 a b by simp
    show ?thesis
    proof (cases "(engine_range g + 1) * h + r > rg \<or> (engine_range g + 1) * h + r < (engine_range g + 1) * h")
      case True
      then have "dr g rg s2 = Some y" using y by (simp add: Let_def)
      then show ?thesis using IH ok by blast
    next
      case False
      then have "Some ((engine_range g + 1) * h + r, s2) = Some y" using y by (simp add: Let_def)
      then show ?thesis using False by (auto simp: not_less)
    qed
  qed
  qed
  have "urbg_ok g \<longrightarrow> fst y \<le> rg"
    by (rule draw.raw_induct [OF _ assms(1)]) (use step in blast)
  then show ?thesis using assms(2) by simp
qed

section \<open>Every result is equally likely\<close>

text \<open>Residues of a range that starts below the modulus and is a whole number of periods long.\<close>

lemma card_residues:
  fixes m :: nat
  assumes "v < m"
  shows "card {x. c \<le> x \<and> x < c + m * q \<and> x mod m = v} = q"
proof (induction q)
  case (Suc q)
  let ?A = "{x. c \<le> x \<and> x < c + m * q \<and> x mod m = v}" and ?b = "c + m * q"
  define e where "e = ?b + (v + (m - ?b mod m)) mod m"
  have m: "0 < m" using assms by simp
  have e: "?b \<le> e" "e < ?b + m" "e mod m = v"
  proof -
    show "?b \<le> e" "e < ?b + m" using m by (simp_all add: e_def)
    have "e mod m = (?b mod m + (v + (m - ?b mod m))) mod m"
      unfolding e_def by (metis mod_add_left_eq mod_add_right_eq)
    also have "?b mod m + (v + (m - ?b mod m)) = v + m" using mod_less_divisor [OF m, of ?b] by linarith
    finally show "e mod m = v" using assms by simp
  qed
  have u: "x = e" if "?b \<le> x" "x < ?b + m" "x mod m = v" for x
  proof -
    have "m dvd (if x \<le> e then e - x else x - e)"
      using that(3) e(3) mod_eq_dvd_iff_nat [of x e m] mod_eq_dvd_iff_nat [of e x m] by (auto simp: not_le)
    moreover have "(if x \<le> e then e - x else x - e) < m" using that e by auto
    ultimately have "(if x \<le> e then e - x else x - e) = 0" using nat_dvd_not_less by blast
    then show ?thesis by (auto split: if_splits)
  qed
  have "{x. c \<le> x \<and> x < c + m * Suc q \<and> x mod m = v} = insert e ?A"
  proof (intro set_eqI iffI)
    fix x assume "x \<in> {x. c \<le> x \<and> x < c + m * Suc q \<and> x mod m = v}"
    then have x: "c \<le> x" "x < ?b + m" "x mod m = v" by auto
    then show "x \<in> insert e ?A" using u [of x] by (cases "?b \<le> x") auto
  next
    fix x assume "x \<in> insert e ?A"
    then show "x \<in> {x. c \<le> x \<and> x < c + m * Suc q \<and> x mod m = v}"
      using e by auto
  qed
  moreover have "e \<notin> ?A" using e(1) by simp
  moreover have "finite ?A" by (rule finite_subset [of _ "{..< c + m * q}"]) auto
  ultimately show ?case using Suc by simp
qed simp

lemma unat_u64_bound: "unat (x :: u64) < 18446744073709551616"
  using unsigned_less [of x, where ?'a = nat] by simp

text \<open>Sets of words are counted by their numbers.\<close>

lemma card_words:
  "card {x :: u64. P (unat x)} = card {n. n < 18446744073709551616 \<and> P n}"
proof -
  have "{n. n < 18446744073709551616 \<and> P n} = unat ` {x :: u64. P (unat x)}"
  proof (intro set_eqI iffI)
    fix n assume n: "n \<in> {n. n < 18446744073709551616 \<and> P n}"
    then have "unat (of_nat n :: u64) = n" by (simp add: unat_of_nat)
    then show "n \<in> unat ` {x :: u64. P (unat x)}" using n by (intro image_eqI [of _ _ "of_nat n"]) auto
  qed (use unat_u64_bound in auto)
  moreover have "inj_on unat {x :: u64. P (unat x)}" by (auto intro: inj_onI simp: word_unat_eq_iff)
  ultimately show ?thesis by (simp add: card_image)
qed

lemma accepted_card:
  assumes "rg < engine_range g" and "v \<le> rg"
  shows "card {x. x \<le> engine_range g \<and> \<not> x < rejection_threshold g rg \<and> x mod (rg + 1) = v}
    = (unat (engine_range g) + 1) div (unat rg + 1)"
proof -
  let ?N = "unat (engine_range g) + 1" and ?m = "unat rg + 1"
  have m: "unat (rg + 1) = ?m" using succ_unat [OF assms(1)] .
  have lt: "?m < ?N" using assms(1) by (simp add: word_less_nat_alt)
  have N: "?N \<le> 18446744073709551616" using unat_u64_bound [of "engine_range g"] by simp
  have "unat (rejection_threshold g rg) = (unat (engine_range g) - unat rg) mod ?m"
    using assms(1) m by (simp add: rejection_threshold_def unat_mod_distrib unat_sub word_le_nat_alt word_less_nat_alt)
  also have "\<dots> = ?N mod ?m"
  proof -
    have "?N = (unat (engine_range g) - unat rg) + ?m" using lt by simp
    then show ?thesis by (metis mod_add_self2)
  qed
  finally have t: "unat (rejection_threshold g rg) = ?N mod ?m" .
  let ?W = "{x :: u64. unat x < ?N \<and> ?N mod ?m \<le> unat x \<and> unat x mod ?m = unat v}"
  have 1: "{x. x \<le> engine_range g \<and> \<not> x < rejection_threshold g rg \<and> x mod (rg + 1) = v} = ?W"
    using t m by (auto simp: word_le_nat_alt word_less_nat_alt word_unat_eq_iff unat_mod_distrib)
  have 2: "card ?W = card {n. n < 18446744073709551616 \<and> n < ?N \<and> ?N mod ?m \<le> n \<and> n mod ?m = unat v}"
    by (rule card_words)
  have 3: "{n. n < 18446744073709551616 \<and> n < ?N \<and> ?N mod ?m \<le> n \<and> n mod ?m = unat v} =
      {x. ?N mod ?m \<le> x \<and> x < ?N mod ?m + ?m * (?N div ?m) \<and> x mod ?m = unat v}"
    using N mod_mult_div_eq [of ?N ?m] by auto
  have 4: "card {x. ?N mod ?m \<le> x \<and> x < ?N mod ?m + ?m * (?N div ?m) \<and> x mod ?m = unat v} = ?N div ?m"
    using assms(2) by (intro card_residues) (simp add: word_le_nat_alt)
  show ?thesis unfolding 1 2 3 4 ..
qed

lemma split_quotient: "(r :: nat) < e \<Longrightarrow> (e * h + r) div e = h" "(r :: nat) < e \<Longrightarrow> (e * h + r) mod e = r"
  by simp_all

text \<open>A narrow engine: each value has exactly one pair of a high part and an engine output.\<close>

definition combined :: "'s urbg \<Rightarrow> u64 \<Rightarrow> u64 \<Rightarrow> u64 \<Rightarrow> u64 option" where
  "combined g rg h r =
     (let high = (engine_range g + 1) * h; v = high + r in if v > rg \<or> v < high then None else Some v)"

lemma combined_unique:
  assumes ev: "engine_range g \<noteq> NOT 0" and v: "v \<le> rg"
  shows "\<exists>!(h, r). h \<le> rg div (engine_range g + 1) \<and> r \<le> engine_range g \<and> combined g rg h r = Some v"
proof -
  let ?e = "unat (engine_range g) + 1"
  have lt: "engine_range g < NOT 0" using ev by (simp add: word_order.not_eq_extremum)
  have e: "unat (engine_range g + 1) = ?e" by (rule succ_unat [OF lt])
  have ep: "0 < ?e" by simp
  have hi: "unat ((engine_range g + 1) * h) = ?e * unat h" if "h \<le> rg div (engine_range g + 1)" for h
  proof -
    have "unat h \<le> unat rg div ?e" using that e by (simp add: word_le_nat_alt unat_div_distrib)
    then have "?e * unat h \<le> unat rg" by (metis mult_le_mono2 order_trans times_div_less_eq_dividend)
    then have "?e * unat h < 18446744073709551616" using unat_u64_bound [of rg] by simp
    then show ?thesis using e unat_mult_lem [of "engine_range g + 1" h] by simp
  qed
  have char: "combined g rg h r = Some v \<longleftrightarrow> unat v = ?e * unat h + unat r"
    if h: "h \<le> rg div (engine_range g + 1)" and r: "r \<le> engine_range g" for h r
  proof -
    let ?h = "(engine_range g + 1) * h"
    show ?thesis
    proof (cases "unat ?h + unat r < 18446744073709551616")
      case True
      then have s: "unat (?h + r) = unat ?h + unat r" using unat_add_lem [of ?h r] by simp
      have "combined g rg h r = Some v \<longleftrightarrow> ?h + r = v"
        using v s by (auto simp: combined_def Let_def word_less_nat_alt word_le_nat_alt)
      then show ?thesis using s hi [OF h] by (auto simp: word_unat_eq_iff)
    next
      case False
      have "unat (?h + r) < unat ?h"
      proof -
        have "unat (?h + r) = unat ?h + unat r - 18446744073709551616"
          using False unat_u64_bound [of ?h] unat_u64_bound [of r] by (simp add: unat_plus_if')
        then show ?thesis using unat_u64_bound [of r] False by linarith
      qed
      then have "combined g rg h r = None" by (auto simp: combined_def Let_def word_less_nat_alt)
      moreover have "unat v \<noteq> ?e * unat h + unat r" using False hi [OF h] unat_u64_bound [of v] by linarith
      ultimately show ?thesis by simp
    qed
  qed
  let ?h0 = "v div (engine_range g + 1)" and ?r0 = "v mod (engine_range g + 1)"
  have h0: "unat ?h0 = unat v div ?e" and r0: "unat ?r0 = unat v mod ?e"
    using e by (simp_all add: unat_div_distrib unat_mod_distrib)
  have h0le: "?h0 \<le> rg div (engine_range g + 1)"
    using v h0 e by (simp add: word_le_nat_alt unat_div_distrib div_le_mono)
  have r0le: "?r0 \<le> engine_range g"
    using r0 mod_less_divisor [OF ep, of "unat v"] by (simp add: word_le_nat_alt)
  show ?thesis
  proof (rule ex1I [of _ "(?h0, ?r0)"])
    show "case (?h0, ?r0) of (h, r) \<Rightarrow> h \<le> rg div (engine_range g + 1) \<and> r \<le> engine_range g \<and> combined g rg h r = Some v"
      using h0le r0le char [OF h0le r0le] h0 r0 mult_div_mod_eq [of ?e "unat v"] by (simp only: prod.case simp_thms)
    fix p
    assume "case p of (h, r) \<Rightarrow> h \<le> rg div (engine_range g + 1) \<and> r \<le> engine_range g \<and> combined g rg h r = Some v"
    then obtain h r where p: "p = (h, r)" "h \<le> rg div (engine_range g + 1)" "r \<le> engine_range g" "combined g rg h r = Some v"
      by (cases p) auto
    then have u: "unat v = ?e * unat h + unat r" using char by blast
    have "unat r < ?e" using p(3) by (simp add: word_le_nat_alt)
    then have "unat h = unat v div ?e" "unat r = unat v mod ?e" unfolding u by (simp_all only: split_quotient)
    then show "p = (?h0, ?r0)" using p(1) h0 r0 by (simp add: word_unat_eq_iff)
  qed
qed

section \<open>Offsets from the lower end\<close>

lemma uniform_offset:
  fixes a b :: "'a::len word"
  assumes "urbg_ok g" and "LENGTH('a) \<le> 64" and "uniform_generate g a b s = Some (x, s')"
  shows "\<exists>d. x = a + d \<and> d \<le> b - a"
proof (cases "b - a = 0")
  case True
  then show ?thesis using assms(3) by (intro exI [of _ 0]) (simp add: uniform_generate_def)
next
  case False
  then obtain v where v: "draw g (ucast (b - a)) s = Some (v, s')" "x = ucast v + a"
    using assms(3) by (auto simp: uniform_generate_def Let_def split: option.splits)
  have "v \<le> ucast (b - a)" using draw_range [OF v(1) assms(1)] by simp
  then have le: "unat v \<le> unat (b - a)"
    unfolding word_le_nat_alt unsigned_ucast_eq by (rule order_trans) (simp add: take_bit_nat_less_eq_self)
  have "unat (ucast v :: 'a word) = unat v"
    using le_less_trans [OF le unsigned_less] by (simp add: unsigned_ucast_eq take_bit_nat_eq_self)
  then have "(ucast v :: 'a word) \<le> b - a" using le by (simp add: word_le_nat_alt)
  then show ?thesis using v(2) by (intro exI [of _ "ucast v"]) (simp add: add.commute)
qed

lemma offset_unsigned:
  fixes a b d :: "'a::len word"
  assumes "a \<le> b" and "d \<le> b - a"
  shows "a \<le> a + d \<and> a + d \<le> b"
proof -
  have "unat d \<le> unat b - unat a" using assms by (simp add: word_le_nat_alt unat_sub)
  then have s: "unat a + unat d \<le> unat b" using assms(1) by (simp add: word_le_nat_alt)
  then have "unat a + unat d < 2 ^ LENGTH('a)" using unsigned_less by (rule le_less_trans)
  then have "unat (a + d) = unat a + unat d" by (simp add: unat_add_lem [THEN iffD1])
  then show ?thesis using s by (simp add: word_le_nat_alt)
qed

lemma offset_signed:
  fixes a b d :: "'a::len word"
  assumes "a \<le>s b" and "d \<le> b - a"
  shows "a \<le>s a + d \<and> a + d \<le>s b"
proof -
  let ?n = "LENGTH('a) - 1"
  have le: "sint a \<le> sint b" using assms(1) by (simp add: word_sle_eq)
  have a: "- (2 ^ ?n) \<le> sint a" and b: "sint b < 2 ^ ?n" by (rule sint_ge, rule sint_lt)
  have L: "(2 :: int) ^ LENGTH('a) = 2 * 2 ^ ?n" by (simp flip: power_Suc)
  have "b - a = word_of_int (sint b - sint a)" by simp
  then have "uint (b - a) = take_bit LENGTH('a) (sint b - sint a)" by (metis uint_word_of_int_eq)
  also have "\<dots> = sint b - sint a" using le a b L by (intro take_bit_int_eq_self) auto
  finally have d: "uint d \<le> sint b - sint a" using assms(2) by (simp add: word_le_def)
  have "a + d = word_of_int (sint a + uint d)" by simp
  then have "sint (a + d) = signed_take_bit ?n (sint a + uint d)" by (metis sint_sbintrunc')
  also have "\<dots> = sint a + uint d"
    using d a b uint_ge_0 [of d] by (intro signed_take_bit_int_eq_self) linarith+
  finally show ?thesis using d uint_ge_0 [of d] by (simp add: word_sle_eq)
qed

section \<open>Which output a draw takes\<close>

text \<open>The outputs of the engine one after the other, counted from its smallest one, and its states.\<close>

primrec raw_after :: "'s urbg \<Rightarrow> nat \<Rightarrow> 's \<Rightarrow> u64" where
  "raw_after g 0 s = fst (raw g s)"
| "raw_after g (Suc n) s = raw_after g n (snd (raw g s))"

primrec state_after :: "'s urbg \<Rightarrow> nat \<Rightarrow> 's \<Rightarrow> 's" where
  "state_after g 0 s = s"
| "state_after g (Suc n) s = state_after g n (snd (raw g s))"

text \<open>An output that leaves a whole number of periods of the interval above it or at it is good, and the draw is to take
  the first good one.\<close>

definition good_output :: "'s urbg \<Rightarrow> u64 \<Rightarrow> u64 \<Rightarrow> bool" where
  "good_output g rg x \<longleftrightarrow> (unat (engine_range g) + 1) mod (unat rg + 1) \<le> unat x"

definition first_good :: "'s urbg \<Rightarrow> u64 \<Rightarrow> 's \<Rightarrow> nat \<Rightarrow> bool" where
  "first_good g rg s n \<longleftrightarrow> good_output g rg (raw_after g n s) \<and> (\<forall>i<n. \<not> good_output g rg (raw_after g i s))"

lemma first_good_unique: "first_good g rg s m \<Longrightarrow> first_good g rg s n \<Longrightarrow> m = n"
  unfolding first_good_def by (meson linorder_neqE_nat)

lemma first_good_0: "good_output g rg (fst (raw g s)) \<Longrightarrow> first_good g rg s 0"
  by (simp add: first_good_def)

lemma first_good_Suc: "\<not> good_output g rg (fst (raw g s)) \<Longrightarrow> first_good g rg s (Suc n) \<longleftrightarrow> first_good g rg (snd (raw g s)) n"
  by (auto simp: first_good_def less_Suc_eq_0_disj)

lemma threshold_value:
  assumes "rg < engine_range g"
  shows "unat (rejection_threshold g rg) = (unat (engine_range g) + 1) mod (unat rg + 1)"
proof -
  let ?N = "unat (engine_range g) + 1" and ?m = "unat rg + 1"
  have lt: "?m < ?N" using assms by (simp add: word_less_nat_alt)
  have "unat (rejection_threshold g rg) = (unat (engine_range g) - unat rg) mod ?m"
    using assms succ_unat [OF assms] by (simp add: rejection_threshold_def unat_mod_distrib unat_sub word_le_nat_alt word_less_nat_alt)
  also have "\<dots> = ?N mod ?m"
  proof -
    have "?N = (unat (engine_range g) - unat rg) + ?m" using lt by simp
    then show ?thesis by (metis mod_add_self2)
  qed
  finally show ?thesis .
qed

lemma good_output_threshold: "rg < engine_range g \<Longrightarrow> good_output g rg x \<longleftrightarrow> \<not> x < rejection_threshold g rg"
  by (simp add: good_output_def threshold_value word_less_nat_alt not_less)

lemma reject_below_step:
  "reject_below g th s = (if fst (raw g s) < th then reject_below g th (snd (raw g s)) else Some (raw g s))"
  by (subst reject_below.simps) (cases "raw g s", simp)

lemma reject_below_first:
  assumes "rg < engine_range g" and "first_good g rg s n"
  shows "reject_below g (rejection_threshold g rg) s = Some (raw_after g n s, state_after g (Suc n) s)"
  using assms(2)
proof (induction n arbitrary: s)
  case 0
  then have "\<not> fst (raw g s) < rejection_threshold g rg"
    using good_output_threshold [OF assms(1), of "fst (raw g s)"] by (simp add: first_good_def)
  then show ?case by (simp add: reject_below_step [of g _ s])
next
  case (Suc n)
  then have bad: "\<not> good_output g rg (fst (raw g s))" by (auto simp: first_good_def dest: spec [of _ 0])
  then have "fst (raw g s) < rejection_threshold g rg" using good_output_threshold [OF assms(1), of "fst (raw g s)"] by simp
  moreover have "first_good g rg (snd (raw g s)) n" using Suc.prems bad by (simp add: first_good_Suc)
  ultimately show ?case using Suc.IH [of "snd (raw g s)"] by (simp add: reject_below_step [of g _ s])
qed

lemma reject_below_returns:
  assumes "rg < engine_range g" and "reject_below g (rejection_threshold g rg) s = Some y"
  shows "\<exists>n. first_good g rg s n"
proof -
  have "th = rejection_threshold g rg \<longrightarrow> rg < engine_range g \<longrightarrow> (\<exists>n. first_good g rg s n)"
    if "reject_below g th s = Some y" for th :: u64 and g :: "'a urbg" and s y
  proof (rule reject_below.raw_induct [OF _ that], intro impI)
    fix rb and g :: "'a urbg" and th s y
    assume IH: "\<And>g th s y. rb g th s = Some y \<Longrightarrow> th = rejection_threshold g rg \<longrightarrow> rg < engine_range g \<longrightarrow> (\<exists>n. first_good g rg s n)"
      and call: "(case raw g s of (v, s') \<Rightarrow> if v < th then rb g th s' else Some (v, s')) = Some y"
      and th: "th = rejection_threshold g rg" "rg < engine_range g"
    show "\<exists>n. first_good g rg s n"
    proof (cases "good_output g rg (fst (raw g s))")
      case True
      then have "first_good g rg s 0" by (rule first_good_0)
      then show ?thesis by (rule exI)
    next
      case False
      then have "rb g th (snd (raw g s)) = Some y"
        using call th good_output_threshold [OF th(2)] by (auto split: prod.splits)
      then obtain n where "first_good g rg (snd (raw g s)) n" using IH th by blast
      then show ?thesis using first_good_Suc [OF False] by blast
    qed
  qed
  then show ?thesis using assms by blast
qed

text \<open>With an engine wider than the interval, a draw is the residue of the first good output, and does not return if
  there is none.\<close>

lemma draw_first:
  assumes "rg < engine_range g"
  shows "draw g rg s = Some y \<longleftrightarrow> (\<exists>n. first_good g rg s n \<and> y = (raw_after g n s mod (rg + 1), state_after g (Suc n) s))"
proof -
  have d: "draw g rg s = (case reject_below g (rejection_threshold g rg) s of None \<Rightarrow> None | Some (v, s') \<Rightarrow> Some (v mod (rg + 1), s'))"
    using assms by (subst draw.simps) auto
  show ?thesis
  proof
    assume y: "draw g rg s = Some y"
    then obtain z where z: "reject_below g (rejection_threshold g rg) s = Some z" using d by (auto split: option.splits)
    then obtain n where n: "first_good g rg s n" using reject_below_returns [OF assms] by blast
    show "\<exists>n. first_good g rg s n \<and> y = (raw_after g n s mod (rg + 1), state_after g (Suc n) s)"
      using n y reject_below_first [OF assms n] by (auto simp: d)
  next
    assume "\<exists>n. first_good g rg s n \<and> y = (raw_after g n s mod (rg + 1), state_after g (Suc n) s)"
    then show "draw g rg s = Some y" using reject_below_first [OF assms] by (auto simp: d)
  qed
qed

section \<open>Counting the outputs\<close>

lemma mod_less_half:
  assumes "0 < m" and "m < (n :: nat)"
  shows "2 * (n mod m) < n"
proof -
  have "n mod m < m" using assms(1) by simp
  moreover have "n = n mod m + m * (n div m)" by (rule mod_mult_div_eq [symmetric])
  moreover have "m * 1 \<le> m * (n div m)" using assms by (intro mult_le_mono2) (simp add: Suc_le_eq div_greater_zero_iff)
  ultimately show ?thesis by linarith
qed

text \<open>An engine that plays back a list of outputs; its state is the position, so it also says how many were taken.\<close>

definition playback :: "u64 \<Rightarrow> u64 \<Rightarrow> u64 list \<Rightarrow> nat urbg" where
  "playback lo hi ws = \<lparr>gen_min = lo, gen_max = hi, gen_call = (\<lambda>i. (if i < length ws then ws ! i else lo, i + 1))\<rparr>"

lemma playback_simps [simp]:
  "engine_range (playback lo hi ws) = hi - lo"
  "i + k < length ws \<Longrightarrow> raw_after (playback lo hi ws) k i = ws ! (i + k) - lo"
  "state_after (playback lo hi ws) k i = i + k"
proof -
  show "engine_range (playback lo hi ws) = hi - lo" by (simp add: engine_range_def playback_def)
  show "state_after (playback lo hi ws) k i = i + k"
    by (induction k arbitrary: i) (simp_all add: raw_def playback_def)
  show "i + k < length ws \<Longrightarrow> raw_after (playback lo hi ws) k i = ws ! (i + k) - lo"
    by (induction k arbitrary: i) (simp_all add: raw_def playback_def)
qed

lemma draw_playback:
  assumes "rg < hi - lo" and "length ws = Suc n"
  shows "draw (playback lo hi ws) rg 0 = Some (v, Suc n) \<longleftrightarrow>
    (let good = good_output (playback lo hi []) rg
     in good (ws ! n - lo) \<and> (\<forall>i<n. \<not> good (ws ! i - lo)) \<and> v = (ws ! n - lo) mod (rg + 1))"
proof -
  have g: "good_output (playback lo hi ws) rg = good_output (playback lo hi []) rg"
    by (simp add: good_output_def fun_eq_iff)
  have "draw (playback lo hi ws) rg 0 = Some (v, Suc n) \<longleftrightarrow>
      first_good (playback lo hi ws) rg 0 n \<and> v = raw_after (playback lo hi ws) n 0 mod (rg + 1)"
    using assms(1) by (subst draw_first) (auto simp del: state_after.simps)
  then show ?thesis using assms(2) by (auto simp: first_good_def Let_def g)
qed

text \<open>The outputs from \<open>lo\<close> to \<open>hi\<close> are the offsets from \<open>lo\<close>.\<close>

lemma card_outputs:
  fixes lo hi :: u64
  assumes "lo \<le> hi"
  shows "card {w. lo \<le> w \<and> w \<le> hi \<and> P (w - lo)} = card {x. x \<le> hi - lo \<and> P x}"
proof -
  have "bij_betw (\<lambda>w. w - lo) {w. lo \<le> w \<and> w \<le> hi \<and> P (w - lo)} {x. x \<le> hi - lo \<and> P x}"
  proof (rule bij_betwI')
    fix x assume "x \<in> {x. x \<le> hi - lo \<and> P x}"
    then have "lo \<le> lo + x" "lo + x \<le> hi" "P (lo + x - lo)" using offset_unsigned [OF assms, of x] by auto
    then show "\<exists>w\<in>{w. lo \<le> w \<and> w \<le> hi \<and> P (w - lo)}. x = w - lo" by (intro bexI [of _ "lo + x"]) simp_all
  next
    fix w assume "w \<in> {w. lo \<le> w \<and> w \<le> hi \<and> P (w - lo)}"
    then show "w - lo \<in> {x. x \<le> hi - lo \<and> P x}" using assms by (auto simp: word_le_nat_alt unat_sub)
  qed auto
  then show ?thesis by (rule bij_betw_same_card)
qed

lemma card_below: "t \<le> 18446744073709551616 \<Longrightarrow> card {x :: u64. unat x < t} = t"
proof -
  assume "t \<le> 18446744073709551616"
  then have "{n :: nat. n < 18446744073709551616 \<and> n < t} = {..<t}" by auto
  then show ?thesis by (subst card_words) simp
qed

lemma card_sequences:
  assumes lo: "lo \<le> hi" and rg: "rg < hi - lo" and v: "v \<le> rg"
  defines "N \<equiv> unat (hi - lo) + 1" and "m \<equiv> unat rg + 1"
  shows "card {ws. length ws = Suc n \<and> set ws \<subseteq> {lo..hi} \<and> draw (playback lo hi ws) rg 0 = Some (v, Suc n)} = (N mod m) ^ n * (N div m)"
proof -
  let ?g = "playback lo hi []"
  define R where "R = {w. lo \<le> w \<and> w \<le> hi \<and> \<not> good_output ?g rg (w - lo)}"
  define A where "A = {w. lo \<le> w \<and> w \<le> hi \<and> good_output ?g rg (w - lo) \<and> (w - lo) mod (rg + 1) = v}"
  have mN: "m < N" using rg by (simp add: N_def m_def word_less_nat_alt)
  have t: "N mod m < m" by (simp add: m_def)
  have "x \<le> hi - lo \<and> \<not> good_output ?g rg x \<longleftrightarrow> unat x < N mod m" for x
  proof -
    have "good_output ?g rg x \<longleftrightarrow> N mod m \<le> unat x" by (simp add: good_output_def N_def m_def)
    moreover have "x \<le> hi - lo \<longleftrightarrow> unat x < N" by (auto simp: N_def word_le_nat_alt)
    ultimately show ?thesis using t mN by linarith
  qed
  then have "{x. x \<le> hi - lo \<and> \<not> good_output ?g rg x} = {x. unat x < N mod m}" by simp
  moreover have "N mod m \<le> 18446744073709551616"
    using t unat_u64_bound [of rg] unfolding m_def by linarith
  ultimately have R: "card R = N mod m" unfolding R_def card_outputs [OF lo, where P = "\<lambda>x. \<not> good_output ?g rg x"] by (simp add: card_below)
  have A: "card A = N div m"
    using accepted_card [of rg ?g v] rg v good_output_threshold [of rg ?g]
    unfolding A_def card_outputs [OF lo, where P = "\<lambda>x. good_output ?g rg x \<and> x mod (rg + 1) = v"] by (simp add: N_def m_def)
  have "{ws. length ws = Suc n \<and> set ws \<subseteq> {lo..hi} \<and> draw (playback lo hi ws) rg 0 = Some (v, Suc n)} =
      (\<lambda>(us, x). us @ [x]) ` ({us. set us \<subseteq> R \<and> length us = n} \<times> A)" (is "?L = ?f ` ?P")
  proof
    show "?L \<subseteq> ?f ` ?P"
    proof
      fix ws assume ws: "ws \<in> ?L"
      then obtain us x where w: "ws = us @ [x]" "length us = n" by (cases ws rule: rev_cases) auto
      then have "(us, x) \<in> ?P"
        using ws draw_playback [OF rg, of ws n v] by (auto simp: R_def A_def Let_def nth_append in_set_conv_nth)
      then show "ws \<in> ?f ` ?P" using w(1) by force
    qed
    show "?f ` ?P \<subseteq> ?L"
    proof
      fix ws assume "ws \<in> ?f ` ?P"
      then obtain us x where w: "ws = us @ [x]" "set us \<subseteq> R" "length us = n" "x \<in> A" by auto
      have "\<not> good_output ?g rg (us ! i - lo)" if "i < n" for i
        proof -
        have "us ! i \<in> R" using w(2,3) that nth_mem [of i us] by blast
        then show ?thesis by (simp add: R_def)
      qed
      then have "draw (playback lo hi ws) rg 0 = Some (v, Suc n)"
        using w draw_playback [OF rg, of ws n v] by (auto simp: A_def Let_def nth_append)
      then show "ws \<in> ?L" using w by (auto simp: R_def A_def)
    qed
  qed
  moreover have "inj_on ?f ?P" by (auto simp: inj_on_def)
  moreover have "finite R" by simp
  ultimately show ?thesis using R A by (simp add: card_image card_cartesian_product card_lists_length_eq)
qed

section \<open>Properties\<close>

text \<open>C26: Whatever the engine returns and however wide the interval is, a value drawn from \<open>[a, b]\<close>
  lies in it, for a signed result type and for an unsigned one.\<close>

theorem uniform_in_interval:
  fixes a b :: "'a::len word"
  assumes "urbg_ok g" and "LENGTH('a) \<le> 64" and "uniform_generate g a b s = Some (x, s')"
  shows "(a \<le> b \<longrightarrow> a \<le> x \<and> x \<le> b) \<and> (a \<le>s b \<longrightarrow> a \<le>s x \<and> x \<le>s b)"
proof -
  obtain d where d: "x = a + d" "d \<le> b - a" using uniform_offset [OF assms] by blast
  show ?thesis using offset_unsigned [OF _ d(2)] offset_signed [OF _ d(2)] d(1) by simp
qed

definition counter_engine :: "u64 urbg" where
  "counter_engine = \<lparr>gen_min = 0, gen_max = NOT 0, gen_call = (\<lambda>s. (s, s + 1))\<rparr>"

lemma counter_engine_ok: "urbg_ok counter_engine"
  by (simp add: urbg_ok_def counter_engine_def word_order.extremum word_gt_0)

theorem uniform_in_interval_witness:
  "uniform_generate counter_engine (250 :: 8 word) 3 107 = Some (1, 108) \<and> 250 \<le>s (1 :: 8 word) \<and> 1 \<le>s (3 :: 8 word)"
proof -
  have r: "raw counter_engine 107 = (107, 108)" "engine_range counter_engine = NOT 0"
    by (simp_all add: raw_def counter_engine_def engine_range_def)
  have t: "rejection_threshold counter_engine 9 = 6" by (simp add: rejection_threshold_def r)
  have "reject_below counter_engine 6 107 = Some (107, 108)" by (subst reject_below.simps) (simp add: r)
  then have "draw counter_engine 9 107 = Some (7, 108)" by (subst draw.simps) (simp add: r t)
  then have c: "uniform_generate counter_engine (250 :: 8 word) 3 107 = Some (1, 108)"
    by (simp add: uniform_generate_def)
  show ?thesis using uniform_in_interval [OF counter_engine_ok _ c] c by simp
qed

text \<open>C27: No modulo bias.  When the engine is wider than the interval, the value that a draw returns has nothing to
  do with how many outputs it took: among all sequences of n + 1 engine outputs, those on which the draw takes
  just these outputs and returns v are equally many for every v of the interval, namely the number of
  sequences of n outputs to be rejected times a positive number that does not depend on v.\<close>

theorem draw_unbiased:
  assumes "lo \<le> hi" and "rg < hi - lo" and "v \<le> rg"
  shows "card {ws. length ws = Suc n \<and> set ws \<subseteq> {lo..hi} \<and> draw (playback lo hi ws) rg 0 = Some (v, Suc n)} =
      ((unat (hi - lo) + 1) mod (unat rg + 1)) ^ n * ((unat (hi - lo) + 1) div (unat rg + 1)) \<and>
    0 < (unat (hi - lo) + 1) div (unat rg + 1)"
  using card_sequences [OF assms, of n] assms(2) by (simp add: word_less_nat_alt div_greater_zero_iff)

text \<open>A die thrown with an engine of the outputs 1 to 256: of the pairs of outputs, 4 times 42 make any one
  face after one rejection.\<close>

theorem draw_unbiased_witness:
  "card {ws. length ws = Suc 1 \<and> set ws \<subseteq> {1..256} \<and> draw (playback 1 256 ws) 5 0 = Some (3, Suc 1)} = 168"
  using draw_unbiased [of 1 256 5 3 1] by simp

text \<open>No modulo bias, with an engine narrower than the interval.  Every value of the interval is
  the result of exactly one pair of a high part and an engine output, and every other pair,
  wrapped sums included, is rejected; a value accepted is the one the draw returns.\<close>

theorem narrow_draw_unbiased:
  assumes "engine_range g \<noteq> NOT 0" and "engine_range g < rg" and "v \<le> rg"
  shows "(\<exists>!(h, r). h \<le> rg div (engine_range g + 1) \<and> r \<le> engine_range g \<and> combined g rg h r = Some v) \<and>
    (\<forall>s h s1 r s2. draw g (rg div (engine_range g + 1)) s = Some (h, s1) \<longrightarrow> raw g s1 = (r, s2) \<longrightarrow>
       combined g rg h r = Some v \<longrightarrow> draw g rg s = Some (v, s2))"
proof (intro conjI allI impI)
  show "\<exists>!(h, r). h \<le> rg div (engine_range g + 1) \<and> r \<le> engine_range g \<and> combined g rg h r = Some v"
    by (rule combined_unique [OF assms(1,3)])
  fix s h s1 r s2
  assume "draw g (rg div (engine_range g + 1)) s = Some (h, s1)" "raw g s1 = (r, s2)" "combined g rg h r = Some v"
  then show "draw g rg s = Some (v, s2)"
    using assms(1,2) by (subst draw.simps) (auto simp: combined_def Let_def split: if_splits)
qed

definition byte_engine :: "u64 urbg" where
  "byte_engine = \<lparr>gen_min = 0, gen_max = 255, gen_call = (\<lambda>s. (s mod 256, s + 1))\<rparr>"

theorem narrow_draw_unbiased_witness:
  "\<exists>!(h, r). h \<le> 1000 div (engine_range byte_engine + 1) \<and> r \<le> engine_range byte_engine \<and>
     combined byte_engine 1000 h r = Some 777"
proof -
  have r: "engine_range byte_engine = 255" by (simp add: byte_engine_def engine_range_def)
  show ?thesis using narrow_draw_unbiased [of byte_engine 1000 777] by (simp add: r)
qed

text \<open>C28: With an engine wider than the interval, a draw takes the first output that is good, that is, not below the
  number of engine outputs modulo the size of the interval, and returns its residue; the outputs before it
  are discarded and none after it is taken.  It returns only if there is a good output, and more than
  half of the outputs are good.\<close>

theorem draw_ends:
  assumes "rg < engine_range g"
  shows "(first_good g rg s n \<longrightarrow> draw g rg s = Some (raw_after g n s mod (rg + 1), state_after g (Suc n) s)) \<and>
    ((\<exists>y. draw g rg s = Some y) \<longleftrightarrow> (\<exists>n. good_output g rg (raw_after g n s))) \<and>
    unat (engine_range g) + 1 < 2 * card {x. x \<le> engine_range g \<and> good_output g rg x}"
proof (intro conjI)
  show "first_good g rg s n \<longrightarrow> draw g rg s = Some (raw_after g n s mod (rg + 1), state_after g (Suc n) s)"
    using draw_first [OF assms] by blast
  have "(\<exists>n. first_good g rg s n) \<longleftrightarrow> (\<exists>n. good_output g rg (raw_after g n s))"
    using exists_least_iff [of "\<lambda>n. good_output g rg (raw_after g n s)"] by (auto simp: first_good_def)
  then show "(\<exists>y. draw g rg s = Some y) \<longleftrightarrow> (\<exists>n. good_output g rg (raw_after g n s))"
    using draw_first [OF assms] by auto
  let ?N = "unat (engine_range g) + 1" and ?m = "unat rg + 1"
  let ?t = "?N mod ?m"
  have lt: "?m < ?N" using assms by (simp add: word_less_nat_alt)
  have half: "2 * ?t < ?N" using lt by (intro mod_less_half) simp_all
  have N: "?N \<le> 18446744073709551616" using unat_u64_bound [of "engine_range g"] by simp
  have "{x. x \<le> engine_range g \<and> good_output g rg x} = {x. unat x < ?N} - {x. unat x < ?t}"
    by (auto simp: good_output_def word_le_nat_alt)
  moreover have "card ({x :: u64. unat x < ?N} - {x. unat x < ?t}) = ?N - ?t"
    using half N by (subst card_Diff_subset) (auto simp: card_below)
  ultimately show "?N < 2 * card {x. x \<le> engine_range g \<and> good_output g rg x}" using half by simp
qed

theorem draw_ends_witness:
  "draw counter_engine 9 3 = Some (6, 7)"
proof -
  have r: "engine_range counter_engine = NOT 0" "raw counter_engine s = (s, s + 1)" for s
    by (simp_all add: counter_engine_def engine_range_def raw_def)
  have m: "unat (- 1 :: u64) = 18446744073709551615" by (simp add: unsigned_minus_1_eq_mask mask_eq_exp_minus_1)
  have f: "first_good counter_engine 9 3 (Suc (Suc (Suc 0)))"
    by (auto simp: first_good_def good_output_def r m less_Suc_eq)
  have "9 < engine_range counter_engine" by (simp add: r)
  from draw_ends [OF this, of 3 "Suc (Suc (Suc 0))"] f show ?thesis by (simp add: r)
qed

end
