(* ===== verification/Char_String.thy ===== *)
theory Char_String
  imports Prelude
begin

text \<open>
  The character strings of the library: \<^verbatim>\<open>basic_string\<close> (\<^verbatim>\<open>include/basic_string\<close>) with its two
  concrete classes, \<^verbatim>\<open>fixed_string\<close> (\<^verbatim>\<open>include/fixed_string\<close>), whose buffer never grows, and
  \<^verbatim>\<open>dynamic_string\<close> (\<^verbatim>\<open>include/dynamic_string\<close>), whose buffer is reallocated by a quarter more than
  what is needed and stays as it is when the allocator has no memory.  The virtual \<open>grow_buffer\<close> is
  an argument of the operations that call it; what they rely on is the locale \<open>string_buffer\<close>,
  interpreted for both classes.

  A string is the list of its characters, without the terminator.
\<close>

section \<open>C strings\<close>

abbreviation NUL :: char where
  "NUL \<equiv> CHR 0x00"

definition strnlen :: "string \<Rightarrow> nat \<Rightarrow> nat" where
  "strnlen value n = length (takeWhile (\<lambda>c. c \<noteq> NUL) (take n value))"

definition strcspn :: "string \<Rightarrow> string \<Rightarrow> nat" where
  "strcspn s reject = length (takeWhile (\<lambda>c. c \<notin> set reject) s)"

definition isdigit :: "char \<Rightarrow> bool" where
  "isdigit c \<longleftrightarrow> 48 \<le> (of_char c :: nat) \<and> (of_char c :: nat) \<le> 57"

definition digit :: "char \<Rightarrow> nat" where
  "digit c = (of_char c :: nat) - 48"

section \<open>The operations\<close>

record char_buffer =
  chars :: string
  buffer_size :: nat
  max_size :: nat

type_synonym grow_fn = "nat \<Rightarrow> char_buffer \<Rightarrow> char_buffer"

definition size_of :: "char_buffer \<Rightarrow> nat" where
  "size_of s = length (chars s)"

definition chars_that_fit :: "char_buffer \<Rightarrow> nat" where
  "chars_that_fit s = min (max_size s) (buffer_size s - 1)"

definition clear :: "char_buffer \<Rightarrow> char_buffer" where
  "clear s = s\<lparr>chars := []\<rparr>"

definition char_at :: "string \<Rightarrow> nat \<Rightarrow> char" where
  "char_at s i = (if i < length s then s ! i else NUL)"

definition push_back :: "grow_fn \<Rightarrow> char \<Rightarrow> char_buffer \<Rightarrow> bool \<times> char_buffer" where
  "push_back grow c s =
     (if size_of s \<ge> max_size s then (False, s)
      else if c = NUL then (True, s)
      else let s = grow 1 s
           in if size_of s \<ge> chars_that_fit s then (False, s)
              else (True, s\<lparr>chars := chars s @ [c]\<rparr>))"

definition assign_range :: "grow_fn \<Rightarrow> nat \<Rightarrow> string \<Rightarrow> nat \<Rightarrow> char_buffer \<Rightarrow> char_buffer" where
  "assign_range grow offset src count s =
     (let offset = min offset (size_of s);
          s = (if offset + count > size_of s then grow (offset + count - size_of s) s else s);
          fit = chars_that_fit s;
          offset = min offset fit;
          count = min count (fit - offset)
      in s\<lparr>chars := take offset (chars s) @ take count src\<rparr>)"

definition append_cstr :: "grow_fn \<Rightarrow> string \<Rightarrow> char_buffer \<Rightarrow> char_buffer" where
  "append_cstr grow value s = assign_range grow (size_of s) value (strnlen value (max_size s)) s"

definition append_n :: "grow_fn \<Rightarrow> string \<Rightarrow> nat \<Rightarrow> char_buffer \<Rightarrow> char_buffer" where
  "append_n grow value n s = (if n = 0 then s else assign_range grow (size_of s) value (strnlen value n) s)"

fun find_from :: "char \<Rightarrow> nat \<Rightarrow> string \<Rightarrow> nat option" where
  "find_from c i [] = None"
| "find_from c i (x # xs) = (if x = c then Some i else find_from c (i + 1) xs)"

definition find_char :: "char \<Rightarrow> string \<Rightarrow> nat option" where
  "find_char c s = find_from c 0 s"

definition fixed_string :: "nat \<Rightarrow> char_buffer" where
  "fixed_string n = \<lparr>chars = [], buffer_size = n + 1, max_size = n\<rparr>"

definition grow_fixed :: grow_fn where
  "grow_fixed chars_needed s = s"

text \<open>
  The allocator of a dynamic string is known by the sizes it can still serve.  A quarter more is
  exact in the \<^verbatim>\<open>double\<close> arithmetic of the code for every size below 2 to the 50.
\<close>

definition over_allocated :: "nat \<Rightarrow> nat \<Rightarrow> nat" where
  "over_allocated n limit = min (5 * n div 4) limit"

definition dynamic_string :: "nat \<Rightarrow> char_buffer" where
  "dynamic_string n = \<lparr>chars = [], buffer_size = min 64 (n + 1), max_size = n\<rparr>"

definition grow_dynamic :: "(nat \<Rightarrow> bool) \<Rightarrow> grow_fn" where
  "grow_dynamic available chars_needed s =
     (if buffer_size s \<ge> max_size s + 1 then s
      else if size_of s + chars_needed + 1 > buffer_size s
      then let new_buffer_size = over_allocated (size_of s + chars_needed + 1) (max_size s + 1)
           in if new_buffer_size \<noteq> 0 \<and> \<not> available new_buffer_size then s
              else s\<lparr>buffer_size := new_buffer_size\<rparr>
      else s)"

section \<open>What an appending client may rely on\<close>

definition string_ok :: "char_buffer \<Rightarrow> bool" where
  "string_ok s \<longleftrightarrow> size_of s \<le> chars_that_fit s \<and> 1 \<le> buffer_size s"

text \<open>Growing changes neither the text nor the limit, and never shrinks the buffer below them.\<close>

locale string_buffer =
  fixes grow :: grow_fn
  assumes grow_keeps: "string_ok s \<Longrightarrow> chars (grow k s) = chars s \<and> max_size (grow k s) = max_size s"
    and grow_ok: "string_ok s \<Longrightarrow> string_ok (grow k s)"
begin

lemma push_back_ok:
  assumes "string_ok s"
  shows "string_ok (snd (push_back grow c s))" and "max_size (snd (push_back grow c s)) = max_size s"
    and "chars (snd (push_back grow c s)) = chars s \<or>
      c \<noteq> NUL \<and> fst (push_back grow c s) \<and> chars (snd (push_back grow c s)) = chars s @ [c]"
  using assms grow_keeps [OF assms, of 1] grow_ok [OF assms, of 1]
  by (auto simp: push_back_def Let_def string_ok_def chars_that_fit_def size_of_def)

lemma append_range_ok:
  assumes ok: "string_ok s"
  shows "string_ok (assign_range grow (size_of s) src n s)"
    and "max_size (assign_range grow (size_of s) src n s) = max_size s"
    and "\<exists>k\<le>n. chars (assign_range grow (size_of s) src n s) = chars s @ take k src"
proof -
  define t where "t = (if size_of s + n > size_of s then grow (size_of s + n - size_of s) s else s)"
  have t: "chars t = chars s" "max_size t = max_size s" "string_ok t"
    using ok grow_keeps [OF ok] grow_ok [OF ok] by (auto simp: t_def)
  have off: "min (size_of s) (chars_that_fit t) = size_of s" using t(1,3) by (simp add: string_ok_def size_of_def)
  have eq: "assign_range grow (size_of s) src n s =
      t\<lparr>chars := chars s @ take (min n (chars_that_fit t - size_of s)) src\<rparr>"
    unfolding assign_range_def Let_def min.idem t_def [symmetric] off using t(1) by (simp add: size_of_def)
  show "max_size (assign_range grow (size_of s) src n s) = max_size s" using t(2) by (simp add: eq)
  show "\<exists>k\<le>n. chars (assign_range grow (size_of s) src n s) = chars s @ take k src"
    by (intro exI [of _ "min n (chars_that_fit t - size_of s)"]) (simp add: eq)
  have "size_of s \<le> chars_that_fit t" using t(1,3) by (simp add: string_ok_def size_of_def)
  then show "string_ok (assign_range grow (size_of s) src n s)"
    using t(3) unfolding eq by (auto simp: string_ok_def chars_that_fit_def size_of_def)
qed

lemma append_cstr_ok:
  assumes "string_ok s"
  shows "string_ok (append_cstr grow v s)" and "max_size (append_cstr grow v s) = max_size s"
    and "\<exists>k. chars (append_cstr grow v s) = chars s @ take k v"
  using append_range_ok [OF assms] by (auto simp: append_cstr_def) blast

lemma append_n_ok:
  assumes "string_ok s"
  shows "string_ok (append_n grow v n s)" and "max_size (append_n grow v n s) = max_size s"
    and "\<exists>k\<le>n. chars (append_n grow v n s) = chars s @ take k v"
proof -
  have k: "strnlen v n \<le> n" unfolding strnlen_def using length_takeWhile_le le_trans by (metis length_take min.bounded_iff order_refl)
  show "string_ok (append_n grow v n s)" "max_size (append_n grow v n s) = max_size s"
    using assms append_range_ok [OF assms] by (simp_all add: append_n_def)
  show "\<exists>k\<le>n. chars (append_n grow v n s) = chars s @ take k v"
  proof (cases "n = 0")
    case False
    obtain j where "j \<le> strnlen v n" "chars (assign_range grow (size_of s) v (strnlen v n) s) = chars s @ take j v"
      using append_range_ok(3) [OF assms] by blast
    then show ?thesis using False k by (intro exI [of _ j]) (simp add: append_n_def)
  qed (auto simp: append_n_def intro: exI [of _ 0])
qed

end

interpretation fixed: string_buffer grow_fixed
  by unfold_locales (simp_all add: grow_fixed_def)

interpretation dynamic: string_buffer "grow_dynamic available" for available
  by unfold_locales
    (auto simp: grow_dynamic_def string_ok_def chars_that_fit_def size_of_def over_allocated_def Let_def)

lemma string_ok_fixed [simp]: "string_ok (fixed_string n)"
  by (simp add: fixed_string_def string_ok_def chars_that_fit_def size_of_def)

lemma string_ok_dynamic [simp]: "string_ok (dynamic_string n)"
  by (simp add: dynamic_string_def string_ok_def chars_that_fit_def size_of_def)

section \<open>Appending to a fixed string\<close>

text \<open>
  A fixed string of capacity \<open>n\<close> that holds the beginning of a text: appending to it gives the
  beginning of the longer text.
\<close>

definition holds :: "nat \<Rightarrow> string \<Rightarrow> char_buffer" where
  "holds n txt = \<lparr>chars = take n txt, buffer_size = n + 1, max_size = n\<rparr>"

definition text_of :: "string \<Rightarrow> string" where
  "text_of v = takeWhile (\<lambda>c. c \<noteq> NUL) v"

lemma holds_fields [simp]:
  "chars (holds n txt) = take n txt" "max_size (holds n txt) = n" "size_of (holds n txt) = min (length txt) n"
  "chars_that_fit (holds n txt) = n"
  by (simp_all add: holds_def size_of_def chars_that_fit_def min.commute)

lemma fixed_string_holds: "fixed_string n = holds n []"
  by (simp add: fixed_string_def holds_def)

lemma clear_holds [simp]: "clear (holds n txt) = holds n []"
  by (simp add: clear_def holds_def)

lemma push_back_holds [simp]:
  "snd (push_back grow_fixed c (holds n txt)) = holds n (if c = NUL then txt else txt @ [c])"
  by (simp add: push_back_def grow_fixed_def holds_def size_of_def chars_that_fit_def Let_def)

lemma take_append_take: "take n (take n xs @ ys) = take n (xs @ ys)"
  by (cases "n \<le> length xs") simp_all

lemma append_range_holds:
  "assign_range grow_fixed (size_of (holds n txt)) v k (holds n txt) = holds n (txt @ take k v)"
proof -
  have "take (min n (length txt)) (take n txt) @ take (min k (n - min n (length txt))) v = take n (txt @ take k v)"
    by (cases "n \<le> length txt") (simp_all add: min_def)
  then show ?thesis by (simp add: assign_range_def grow_fixed_def Let_def) (simp add: holds_def min.commute)
qed

lemma take_text_of: "take (strnlen v n) v = take n (text_of v)"
proof (induction v arbitrary: n)
  case Nil
  then show ?case by (simp add: text_of_def)
next
  case (Cons c v)
  then show ?case by (cases n) (auto simp: strnlen_def text_of_def)
qed

lemma append_cstr_holds [simp]: "append_cstr grow_fixed v (holds n txt) = holds n (txt @ text_of v)"
proof -
  have "take n (txt @ take n (text_of v)) = take n (txt @ text_of v)" by (simp add: min_def)
  then show ?thesis
    unfolding append_cstr_def append_range_holds by (simp add: take_text_of) (simp add: holds_def)
qed

lemma append_n_holds [simp]: "append_n grow_fixed v k (holds n txt) = holds n (txt @ take k (text_of v))"
  by (cases "k = 0") (simp_all add: append_n_def append_range_holds [unfolded holds_fields] take_text_of)

section \<open>Searching\<close>

lemma find_from_first: "find_from c i s = (if c \<in> set s then Some (i + length (takeWhile (\<lambda>x. x \<noteq> c) s)) else None)"
  by (induction s arbitrary: i) auto

lemma find_char_first: "find_char c s = (if c \<in> set s then Some (length (takeWhile (\<lambda>x. x \<noteq> c) s)) else None)"
  by (simp add: find_char_def find_from_first)

end
