(* ===== verification/Format_Spec.thy ===== *)
theory Format_Spec
  imports Char_String "HOL-Library.Monad_Syntax"
begin

text \<open>
  The format specification of an argument: the options (\<^verbatim>\<open>include/format_arg\<close>) and the parser of
  the text between the braces (\<^verbatim>\<open>src/format.cpp\<close>).  A \<^verbatim>\<open>uint32_t\<close> is a number below 2 to the 32,
  with the wrap of its arithmetic written out.  A parser takes the whole text and the position it
  starts at, as the code does, and \<open>None\<close> is the return of \<^verbatim>\<open>false\<close>.
\<close>

section \<open>The options\<close>

datatype align = Left | Right | Center

datatype sign_treatment = Always_Plus | Minus | Space

record arg_format_options =
  width :: "nat option"
  precision :: "nat option"
  fill :: "char option"
  alignment :: "align option"
  alt :: "bool option"
  sign :: "sign_treatment option"
  zero_fill :: "bool option"
  type_specifier :: "char option"
  integer_base :: "nat option"

definition empty_options :: arg_format_options where
  "empty_options = \<lparr>width = None, precision = None, fill = None, alignment = None, alt = None, sign = None,
     zero_fill = None, type_specifier = None, integer_base = None\<rparr>"

definition is_right_aligned :: "arg_format_options \<Rightarrow> bool" where
  "is_right_aligned f \<longleftrightarrow> alignment f = Some Right"

definition is_center_aligned :: "arg_format_options \<Rightarrow> bool" where
  "is_center_aligned f \<longleftrightarrow> alignment f = Some Center"

definition is_alt :: "arg_format_options \<Rightarrow> bool" where
  "is_alt f \<longleftrightarrow> alt f = Some True"

definition is_zero_fill :: "arg_format_options \<Rightarrow> bool" where
  "is_zero_fill f \<longleftrightarrow> zero_fill f = Some True"

definition or_default :: "'a option \<Rightarrow> 'a option \<Rightarrow> 'a option" where
  "or_default v d = (if v = None \<and> d \<noteq> None then d else v)"

definition merge_defaults :: "arg_format_options \<Rightarrow> arg_format_options \<Rightarrow> arg_format_options" where
  "merge_defaults defaults f =
     \<lparr>width = or_default (width f) (width defaults),
      precision = or_default (precision f) (precision defaults),
      fill = or_default (fill f) (fill defaults),
      alignment = or_default (alignment f) (alignment defaults),
      alt = or_default (alt f) (alt defaults),
      sign = or_default (sign f) (sign defaults),
      zero_fill = or_default (zero_fill f) (zero_fill defaults),
      type_specifier = or_default (type_specifier f) (type_specifier defaults),
      integer_base = or_default (integer_base f) (integer_base defaults)\<rparr>"

section \<open>The argument id\<close>

definition MAX_BEFORE_DIGIT :: nat where
  "MAX_BEFORE_DIGIT = (4294967295 - 9) div 10"

definition add_digit :: "nat \<Rightarrow> char \<Rightarrow> nat" where
  "add_digit v c = (v * 10 + digit c) mod 4294967296"

fun parse_id_digits :: "string \<Rightarrow> nat \<Rightarrow> nat option" where
  "parse_id_digits [] position = Some position"
| "parse_id_digits (c # cs) position =
     (if \<not> isdigit c then None
      else if position > MAX_BEFORE_DIGIT then None
      else parse_id_digits cs (add_digit position c))"

definition ParseArgId :: "string \<Rightarrow> bool \<times> nat option" where
  "ParseArgId argument_format =
     (if argument_format = [] then (True, None)
      else let colon_position = (case find_char CHR '':'' argument_format of
                 None \<Rightarrow> length argument_format | Some i \<Rightarrow> i)
           in if colon_position = 0 then (True, None)
              else case parse_id_digits (take colon_position argument_format) 0 of
                  None \<Rightarrow> (False, None)
                | Some position \<Rightarrow> (True, Some position))"

section \<open>The specification\<close>

definition ParseTypeSpecifier :: "char \<Rightarrow> arg_format_options \<Rightarrow> arg_format_options" where
  "ParseTypeSpecifier c f =
     (if c = CHR ''d'' then f\<lparr>integer_base := Some 10, type_specifier := Some CHR ''d''\<rparr>
      else if c = CHR ''x'' then f\<lparr>integer_base := Some 16, type_specifier := Some CHR ''x''\<rparr>
      else if c = CHR ''X'' then f\<lparr>integer_base := Some 16, type_specifier := Some CHR ''X''\<rparr>
      else if c = CHR ''b'' then f\<lparr>integer_base := Some 2, type_specifier := Some CHR ''b''\<rparr>
      else if c = CHR ''B'' then f\<lparr>integer_base := Some 2, type_specifier := Some CHR ''B''\<rparr>
      else if c = CHR ''o'' then f\<lparr>integer_base := Some 8, type_specifier := Some CHR ''o''\<rparr>
      else if c = CHR ''p'' then f\<lparr>integer_base := Some 16, type_specifier := Some CHR ''X''\<rparr>
      else f\<lparr>type_specifier := Some c\<rparr>)"

definition IsAlignmentCharacter :: "char \<Rightarrow> bool" where
  "IsAlignmentCharacter c \<longleftrightarrow> c = CHR ''<'' \<or> c = CHR ''>'' \<or> c = CHR ''^''"

definition set_alignment_character :: "char \<Rightarrow> arg_format_options \<Rightarrow> arg_format_options" where
  "set_alignment_character c f =
     (if c = CHR ''<'' then f\<lparr>alignment := Some Left\<rparr>
      else if c = CHR ''>'' then f\<lparr>alignment := Some Right\<rparr>
      else if c = CHR ''^'' then f\<lparr>alignment := Some Center\<rparr>
      else f)"

definition ParseAlignmentAndFill :: "string \<Rightarrow> nat \<Rightarrow> arg_format_options \<Rightarrow> (nat \<times> arg_format_options) option" where
  "ParseAlignmentAndFill s p f =
     (let second = p + 1 < length s \<and> IsAlignmentCharacter (char_at s (p + 1))
      in if \<not> second \<and> \<not> IsAlignmentCharacter (char_at s p)
         then (if strcspn (drop p s) ''<>^'' + p \<ge> length s then Some (p, f) else None)
         else let align_spec_loc = (if second then 1 else 0);
                  f = set_alignment_character (char_at s (p + align_spec_loc)) f
              in if align_spec_loc = 1
                 then if char_at s p = CHR ''{'' then None
                      else Some (p + align_spec_loc + 1, f\<lparr>fill := Some (char_at s p)\<rparr>)
                 else Some (p + align_spec_loc + 1, f))"

definition ParseSignSpecifier :: "string \<Rightarrow> nat \<Rightarrow> arg_format_options \<Rightarrow> nat \<times> arg_format_options" where
  "ParseSignSpecifier s p f =
     (if char_at s p = CHR ''+'' then (p + 1, f\<lparr>sign := Some Always_Plus\<rparr>)
      else if char_at s p = CHR ''-'' then (p + 1, f\<lparr>sign := Some Minus\<rparr>)
      else if char_at s p = CHR '' '' then (p + 1, f\<lparr>sign := Some Space\<rparr>)
      else (p, f))"

text \<open>The loop that reads a width or a precision, the value so far being that of the option.\<close>

function parse_number :: "string \<Rightarrow> nat \<Rightarrow> nat option \<Rightarrow> (nat \<times> nat option) option" where
  "parse_number s p v =
     (if char_at s p \<noteq> NUL \<and> isdigit (char_at s p)
      then if (case v of None \<Rightarrow> False | Some n \<Rightarrow> n > MAX_BEFORE_DIGIT) then None
           else parse_number s (p + 1) (Some (add_digit (case v of None \<Rightarrow> 0 | Some n \<Rightarrow> n) (char_at s p)))
      else Some (p, v))"
  by pat_completeness auto

termination
  by (relation "measure (\<lambda>(s, p, v). length s - p)") (auto simp: char_at_def split: if_splits)

declare parse_number.simps [simp del]

text \<open>Each stage ends the parse when the text has ended, and otherwise goes on to the next one.\<close>

definition parse_type :: "string \<Rightarrow> nat \<Rightarrow> arg_format_options \<Rightarrow> arg_format_options option" where
  "parse_type s p f = (if p \<ge> length s then Some f else Some (ParseTypeSpecifier (char_at s p) f))"

definition parse_precision :: "string \<Rightarrow> nat \<Rightarrow> arg_format_options \<Rightarrow> arg_format_options option" where
  "parse_precision s p f =
     (if p \<ge> length s then Some f
      else if char_at s p = CHR ''.''
      then do { (p, v) \<leftarrow> parse_number s (p + 1) (precision f); parse_type s p (f\<lparr>precision := v\<rparr>) }
      else parse_type s p f)"

definition parse_width :: "string \<Rightarrow> nat \<Rightarrow> arg_format_options \<Rightarrow> arg_format_options option" where
  "parse_width s p f =
     (if p \<ge> length s then Some f
      else do { (p, v) \<leftarrow> parse_number s p (width f); parse_precision s p (f\<lparr>width := v\<rparr>) })"

definition parse_zero :: "string \<Rightarrow> nat \<Rightarrow> arg_format_options \<Rightarrow> arg_format_options option" where
  "parse_zero s p f =
     (if p \<ge> length s then Some f
      else if char_at s p = CHR ''0'' then parse_width s (p + 1) (f\<lparr>zero_fill := Some (alignment f = None)\<rparr>)
      else parse_width s p f)"

definition parse_alt :: "string \<Rightarrow> nat \<Rightarrow> arg_format_options \<Rightarrow> arg_format_options option" where
  "parse_alt s p f =
     (if p \<ge> length s then Some f
      else if char_at s p = CHR ''#'' then parse_zero s (p + 1) (f\<lparr>alt := Some True\<rparr>)
      else parse_zero s p f)"

definition parse_sign :: "string \<Rightarrow> nat \<Rightarrow> arg_format_options \<Rightarrow> arg_format_options option" where
  "parse_sign s p f =
     (if p \<ge> length s then Some f
      else case ParseSignSpecifier s p f of (p, f) \<Rightarrow> parse_alt s p f)"

definition ParseArgFormatString :: "string \<Rightarrow> arg_format_options option" where
  "ParseArgFormatString s =
     (let f = empty_options
      in if s = [] then Some f
         else case find_char CHR '':'' s of
             None \<Rightarrow> Some f
           | Some colon_position \<Rightarrow>
               let p = colon_position + 1
               in if p \<ge> length s then Some f
                  else do {
                    (p, f) \<leftarrow> ParseAlignmentAndFill s p f;
                    let f = (if alignment f \<noteq> None then f\<lparr>zero_fill := Some False\<rparr> else f);
                    parse_sign s p f })"

section \<open>Decimal numbers\<close>

definition dec_value :: "nat \<Rightarrow> string \<Rightarrow> nat" where
  "dec_value v ds = foldl (\<lambda>v c. v * 10 + digit c) v ds"

fun decimal :: "nat \<Rightarrow> string" where
  "decimal n = (if n < 10 then [char_of (48 + n)] else decimal (n div 10) @ [char_of (48 + n mod 10)])"

declare decimal.simps [simp del]

lemma dec_value_simps [simp]:
  "dec_value v [] = v" "dec_value v (c # ds) = dec_value (v * 10 + digit c) ds"
  "dec_value v (ds @ es) = dec_value (dec_value v ds) es"
  by (simp_all add: dec_value_def)

lemma dec_value_ge: "v \<le> dec_value v ds"
proof (induction ds arbitrary: v)
  case (Cons c ds)
  have "v \<le> v * 10 + digit c" by simp
  also have "\<dots> \<le> dec_value (v * 10 + digit c) ds" by (rule Cons.IH)
  finally show ?case by simp
qed simp

lemma digit_char: "n < 10 \<Longrightarrow> isdigit (char_of (48 + n)) \<and> digit (char_of (48 + n)) = n"
  by (simp add: isdigit_def digit_def)

lemma NUL_not_digit [simp]: "\<not> isdigit NUL"
  by (simp add: isdigit_def)

lemma decimal_facts: "list_all isdigit (decimal n) \<and> dec_value 0 (decimal n) = n \<and> decimal n \<noteq> [] \<and> (0 < n \<longrightarrow> hd (decimal n) \<noteq> CHR ''0'')"
proof (induction n rule: decimal.induct)
  case (1 n)
  show ?case
  proof (cases "n < 10")
    case True
    have "char_of (48 + n) \<noteq> CHR ''0''" if "0 < n"
    proof
      assume "char_of (48 + n) = CHR ''0''"
      then have "digit (char_of (48 + n)) = digit CHR ''0''" by simp
      then show False using digit_char [OF True] that by (simp add: digit_def)
    qed
    then show ?thesis using True digit_char [OF True] by (simp add: decimal.simps [of n])
  next
    case False
    then have "decimal n = decimal (n div 10) @ [char_of (48 + n mod 10)]" by (simp add: decimal.simps [of n])
    then show ?thesis using 1 [OF False] digit_char [of "n mod 10"] False by simp
  qed
qed

lemma add_digit_exact: "v \<le> MAX_BEFORE_DIGIT \<Longrightarrow> isdigit c \<Longrightarrow> add_digit v c = v * 10 + digit c"
proof -
  assume "v \<le> MAX_BEFORE_DIGIT" and "isdigit c"
  then have "v * 10 + digit c < 4294967296" by (auto simp: MAX_BEFORE_DIGIT_def isdigit_def digit_def)
  then show ?thesis by (simp add: add_digit_def)
qed

lemma below_limit: "dec_value v ds < 4294967290 \<Longrightarrow> ds \<noteq> [] \<Longrightarrow> v \<le> MAX_BEFORE_DIGIT"
proof (cases ds)
  case (Cons c cs)
  moreover assume "dec_value v ds < 4294967290"
  moreover have "v * 10 + digit c \<le> dec_value (v * 10 + digit c) cs" by (rule dec_value_ge)
  ultimately show ?thesis by (simp add: MAX_BEFORE_DIGIT_def)
qed simp

lemma char_at_append [simp]: "char_at (pre @ s) (length pre + i) = char_at s i" "char_at (pre @ s) (length pre) = char_at s 0"
  by (simp_all add: char_at_def nth_append)

lemma char_at_Cons [simp]: "char_at (c # s) 0 = c" "char_at (c # s) (Suc i) = char_at s i" "char_at [] i = NUL"
  by (simp_all add: char_at_def)

lemma parse_number_digits:
  assumes "list_all isdigit ds" and "\<not> isdigit (char_at rest 0)"
    and "dec_value (case v of None \<Rightarrow> 0 | Some n \<Rightarrow> n) ds < 4294967290"
  shows "parse_number (pre @ ds @ rest) (length pre) v =
    Some (length pre + length ds, if ds = [] then v else Some (dec_value (case v of None \<Rightarrow> 0 | Some n \<Rightarrow> n) ds))"
  using assms
proof (induction ds arbitrary: pre v)
  case Nil
  then show ?case by (subst parse_number.simps) simp
next
  case (Cons c ds)
  let ?n = "case v of None \<Rightarrow> 0 | Some n \<Rightarrow> n"
  have c: "isdigit c" "c \<noteq> NUL" using Cons.prems(1) by auto
  have le: "?n \<le> MAX_BEFORE_DIGIT" using below_limit [OF Cons.prems(3)] by simp
  then have go: "\<not> (case v of None \<Rightarrow> False | Some n \<Rightarrow> n > MAX_BEFORE_DIGIT)" by (cases v) simp_all
  have "parse_number (pre @ (c # ds) @ rest) (length pre) v = parse_number ((pre @ [c]) @ ds @ rest) (length (pre @ [c])) (Some (?n * 10 + digit c))"
    using c go by (subst parse_number.simps) (simp add: add_digit_exact [OF le])
  also have "\<dots> = Some (length (pre @ [c]) + length ds, Some (dec_value (?n * 10 + digit c) ds))"
    by (subst Cons.IH) (use Cons.prems in auto)
  finally show ?case by simp
qed

lemma parse_decimal:
  assumes "n < 4294967290" and "\<not> isdigit (char_at rest 0)"
  shows "parse_number (pre @ decimal n @ rest) (length pre) None = Some (length pre + length (decimal n), Some n)"
  using parse_number_digits [of "decimal n" rest None pre] decimal_facts [of n] assms by simp

section \<open>Printing a specification\<close>

text \<open>The grammar of a specification, and the options one stands for.\<close>

record format_spec =
  spec_align :: "(char option \<times> align) option"
  spec_sign :: "sign_treatment option"
  spec_alt :: bool
  spec_zero :: bool
  spec_width :: "nat option"
  spec_precision :: "nat option"
  spec_type :: "char option"

fun align_character :: "align \<Rightarrow> char" where
  "align_character Left = CHR ''<''"
| "align_character Right = CHR ''>''"
| "align_character Center = CHR ''^''"

fun sign_character :: "sign_treatment \<Rightarrow> char" where
  "sign_character Always_Plus = CHR ''+''"
| "sign_character Minus = CHR ''-''"
| "sign_character Space = CHR '' ''"

definition type_text :: "char option \<Rightarrow> string" where
  "type_text t = (case t of None \<Rightarrow> [] | Some c \<Rightarrow> [c])"

definition precision_text :: "nat option \<Rightarrow> string" where
  "precision_text v = (case v of None \<Rightarrow> [] | Some n \<Rightarrow> CHR ''.'' # decimal n)"

definition width_text :: "nat option \<Rightarrow> string" where
  "width_text v = (case v of None \<Rightarrow> [] | Some n \<Rightarrow> decimal n)"

definition flag_text :: "char \<Rightarrow> bool \<Rightarrow> string" where
  "flag_text c b = (if b then [c] else [])"

definition sign_text :: "sign_treatment option \<Rightarrow> string" where
  "sign_text v = (case v of None \<Rightarrow> [] | Some n \<Rightarrow> [sign_character n])"

definition align_text :: "(char option \<times> align) option \<Rightarrow> string" where
  "align_text v = (case v of None \<Rightarrow> [] | Some (None, a) \<Rightarrow> [align_character a] | Some (Some c, a) \<Rightarrow> [c, align_character a])"

definition spec_tail :: "format_spec \<Rightarrow> string" where
  "spec_tail sp = sign_text (spec_sign sp) @ flag_text CHR ''#'' (spec_alt sp) @ flag_text CHR ''0'' (spec_zero sp) @
     width_text (spec_width sp) @ precision_text (spec_precision sp) @ type_text (spec_type sp)"

definition print_spec :: "format_spec \<Rightarrow> string" where
  "print_spec sp = align_text (spec_align sp) @ spec_tail sp"

text \<open>
  A type is a letter, a width does not begin with a zero, the numbers are those the parser does not
  reject as too large, and a fill is neither an opening brace nor the terminator.
\<close>

definition isalpha :: "char \<Rightarrow> bool" where
  "isalpha c \<longleftrightarrow> (65 \<le> (of_char c :: nat) \<and> (of_char c :: nat) \<le> 90) \<or> (97 \<le> (of_char c :: nat) \<and> (of_char c :: nat) \<le> 122)"

definition spec_ok :: "format_spec \<Rightarrow> bool" where
  "spec_ok sp \<longleftrightarrow> (case spec_align sp of Some (Some c, _) \<Rightarrow> c \<noteq> CHR ''{'' \<and> c \<noteq> NUL | _ \<Rightarrow> True) \<and>
     (case spec_width sp of Some n \<Rightarrow> 0 < n \<and> n < 4294967290 | None \<Rightarrow> True) \<and>
     (case spec_precision sp of Some n \<Rightarrow> n < 4294967290 | None \<Rightarrow> True) \<and>
     (case spec_type sp of Some c \<Rightarrow> isalpha c | None \<Rightarrow> True)"

text \<open>The meaning of the type letters: the base of an integer and the letter that is kept, a pointer being shown as
  with \<^verbatim>\<open>X\<close>.\<close>

definition letter_base :: "char \<Rightarrow> nat option" where
  "letter_base = map_of [(CHR ''b'', 2), (CHR ''B'', 2), (CHR ''o'', 8), (CHR ''d'', 10), (CHR ''x'', 16), (CHR ''X'', 16), (CHR ''p'', 16)]"

definition letter_kept :: "char \<Rightarrow> char" where
  "letter_kept = id (CHR ''p'' := CHR ''X'')"

definition options_of :: "format_spec \<Rightarrow> arg_format_options" where
  "options_of sp =
     \<lparr>width = spec_width sp, precision = spec_precision sp,
      fill = Option.bind (spec_align sp) fst, alignment = map_option snd (spec_align sp),
      alt = (if spec_alt sp then Some True else None), sign = spec_sign sp,
      zero_fill = (if spec_align sp \<noteq> None then Some False else if spec_zero sp then Some True else None),
      type_specifier = map_option letter_kept (spec_type sp), integer_base = Option.bind (spec_type sp) letter_base\<rparr>"

section \<open>Parsing it\<close>

lemma alpha_char:
  assumes "isalpha c"
  shows "\<not> isdigit c" and "c \<noteq> CHR ''.''" and "c \<noteq> CHR ''0''" and "c \<noteq> CHR ''#''" and "c \<noteq> CHR ''+''"
    and "c \<noteq> CHR ''-''" and "c \<noteq> CHR '' ''" and "\<not> IsAlignmentCharacter c"
  using assms by (auto simp: isalpha_def isdigit_def IsAlignmentCharacter_def)

definition type_ok :: "char option \<Rightarrow> bool" where
  "type_ok t \<longleftrightarrow> (case t of Some c \<Rightarrow> isalpha c | None \<Rightarrow> True)"

definition number_ok :: "nat option \<Rightarrow> bool" where
  "number_ok v \<longleftrightarrow> (case v of Some n \<Rightarrow> n < 4294967290 | None \<Rightarrow> True)"

definition set_type :: "char option \<Rightarrow> arg_format_options \<Rightarrow> arg_format_options" where
  "set_type t = (case t of None \<Rightarrow> (\<lambda>f. f) | Some c \<Rightarrow> ParseTypeSpecifier c)"

lemma type_head: "type_ok t \<Longrightarrow> \<not> isdigit (char_at (type_text t) 0)"
  by (auto simp: type_ok_def type_text_def alpha_char split: option.splits)

lemma set_type_options:
  "type_specifier f = None \<Longrightarrow> integer_base f = None \<Longrightarrow>
    set_type t f = f\<lparr>type_specifier := map_option letter_kept t, integer_base := Option.bind t letter_base\<rparr>"
  by (cases t) (auto simp: set_type_def ParseTypeSpecifier_def letter_kept_def letter_base_def)

lemma parse_type_text: "parse_type (pre @ type_text t) (length pre) f = Some (set_type t f)"
  by (simp add: parse_type_def type_text_def set_type_def split: option.splits)

lemma update_same:
  "precision f = None \<Longrightarrow> f\<lparr>precision := None\<rparr> = f" "width f = None \<Longrightarrow> f\<lparr>width := None\<rparr> = f"
  "alt f = None \<Longrightarrow> f\<lparr>alt := None\<rparr> = f" "sign f = None \<Longrightarrow> f\<lparr>sign := None\<rparr> = f"
  by (cases f; simp)+

lemma parse_precision_text:
  assumes "type_ok t" and "number_ok v" and "precision f = None"
  shows "parse_precision (pre @ precision_text v @ type_text t) (length pre) f = Some (set_type t (f\<lparr>precision := v\<rparr>))"
proof (cases v)
  case None
  then show ?thesis using assms parse_type_text [of pre t f]
    by (cases t) (simp_all add: update_same parse_precision_def precision_text_def type_text_def set_type_def type_ok_def alpha_char)
next
  case (Some n)
  have "parse_number ((pre @ ''.'') @ decimal n @ type_text t) (length (pre @ ''.'')) None =
      Some (length (pre @ ''.'') + length (decimal n), Some n)"
    using assms(2) Some type_head [OF assms(1)] by (intro parse_decimal) (simp_all add: number_ok_def)
  then have "parse_precision (pre @ precision_text v @ type_text t) (length pre) f =
      parse_type ((pre @ ''.'' @ decimal n) @ type_text t) (length (pre @ ''.'' @ decimal n)) (f\<lparr>precision := v\<rparr>)"
    using Some assms(3) by (simp add: parse_precision_def precision_text_def)
  then show ?thesis by (simp only: parse_type_text)
qed

text \<open>The first character of each part, which decides the stage that takes it.\<close>

definition no_flag :: "char \<Rightarrow> bool" where
  "no_flag c \<longleftrightarrow> c \<noteq> CHR ''#'' \<and> c \<noteq> CHR ''+'' \<and> c \<noteq> CHR ''-'' \<and> c \<noteq> CHR '' ''"

lemma digit_no_flag: "isdigit c \<Longrightarrow> no_flag c \<and> \<not> IsAlignmentCharacter c"
  by (auto simp: isdigit_def no_flag_def IsAlignmentCharacter_def)

lemma tail_head:
  assumes "type_ok t"
  shows "\<not> isdigit (char_at (precision_text v @ type_text t) 0) \<and> no_flag (char_at (precision_text v @ type_text t) 0)"
proof -
  have "\<not> isdigit CHR ''.''" by (simp add: isdigit_def)
  then show ?thesis using assms
    by (cases v; cases t) (auto simp: precision_text_def type_text_def type_ok_def alpha_char no_flag_def)
qed

lemma width_head:
  assumes "type_ok t" and "w \<noteq> Some 0"
  shows "char_at (width_text w @ precision_text v @ type_text t) 0 \<noteq> CHR ''0'' \<and>
    no_flag (char_at (width_text w @ precision_text v @ type_text t) 0)"
proof (cases w)
  case None
  then show ?thesis using tail_head [OF assms(1), of v] by (auto simp: width_text_def isdigit_def)
next
  case (Some n)
  then have "char_at (width_text w @ precision_text v @ type_text t) 0 = hd (decimal n)" "isdigit (hd (decimal n))"
    using decimal_facts [of n] by (cases "decimal n"; simp add: width_text_def char_at_def)+
  then show ?thesis using digit_no_flag decimal_facts [of n] Some assms(2) by simp
qed

lemma parse_width_text:
  assumes "type_ok t" and "number_ok v" and "number_ok w" and "precision f = None" and "width f = None"
  shows "parse_width (pre @ width_text w @ precision_text v @ type_text t) (length pre) f =
    Some (set_type t (f\<lparr>width := w, precision := v\<rparr>))"
proof (cases w)
  case None
  let ?s = "precision_text v @ type_text t"
  have "parse_number (pre @ ?s) (length pre) None = Some (length pre, None)"
    using parse_number_digits [of "[]" ?s None pre] tail_head [OF assms(1), of v] by simp
  moreover have "parse_precision (pre @ ?s) (length pre) f = Some (set_type t (f\<lparr>precision := v\<rparr>))"
    by (rule parse_precision_text [OF assms(1,2,4)])
  moreover have "parse_width (pre @ ?s) (length pre) f = parse_precision (pre @ ?s) (length pre) f"
  proof (cases "?s = []")
    case True
    then show ?thesis by (simp add: parse_width_def parse_precision_def)
  next
    case False
    then show ?thesis using calculation(1) assms(5) by (auto simp: parse_width_def update_same)
  qed
  ultimately show ?thesis using None assms(5) by (cases f) (simp add: width_text_def)
next
  case (Some n)
  have "parse_number (pre @ decimal n @ precision_text v @ type_text t) (length pre) None = Some (length pre + length (decimal n), Some n)"
    using assms(3) Some tail_head [OF assms(1), of v] by (intro parse_decimal) (simp_all add: number_ok_def)
  then have "parse_width (pre @ width_text w @ precision_text v @ type_text t) (length pre) f =
      parse_precision ((pre @ decimal n) @ precision_text v @ type_text t) (length (pre @ decimal n)) (f\<lparr>width := w\<rparr>)"
    using Some assms(5) decimal_facts [of n] by (simp add: parse_width_def width_text_def)
  then show ?thesis using assms(4) by (simp only:) (subst parse_precision_text [OF assms(1,2)], simp_all)
qed

text \<open>From here on, \<open>p\<close> is where the text of the stage begins.\<close>

lemma parse_zero_text:
  assumes "type_ok t" and "number_ok v" and "number_ok w" and "w \<noteq> Some 0" and "precision f = None" and "width f = None"
  shows "parse_zero (pre @ flag_text CHR ''0'' z @ width_text w @ precision_text v @ type_text t) (length pre) f =
    Some (set_type t (f\<lparr>width := w, precision := v, zero_fill := (if z then Some (alignment f = None) else zero_fill f)\<rparr>))"
proof (cases z)
  case False
  let ?s = "width_text w @ precision_text v @ type_text t"
  have "parse_width (pre @ ?s) (length pre) f = Some (set_type t (f\<lparr>width := w, precision := v\<rparr>))"
    by (rule parse_width_text [OF assms(1-3,5,6)])
  moreover have "parse_zero (pre @ ?s) (length pre) f = parse_width (pre @ ?s) (length pre) f"
    using width_head [OF assms(1,4), of v] by (simp add: parse_zero_def parse_width_def)
  ultimately show ?thesis using False by (cases f) (simp add: flag_text_def)
next
  case True
  have "parse_zero (pre @ flag_text CHR ''0'' z @ width_text w @ precision_text v @ type_text t) (length pre) f =
      parse_width ((pre @ ''0'') @ width_text w @ precision_text v @ type_text t) (length (pre @ ''0''))
        (f\<lparr>zero_fill := Some (alignment f = None)\<rparr>)"
    using True by (simp add: parse_zero_def flag_text_def)
  also have "\<dots> = Some (set_type t (f\<lparr>zero_fill := Some (alignment f = None), width := w, precision := v\<rparr>))"
    using assms(5,6) by (intro parse_width_text [OF assms(1-3)]) simp_all
  finally show ?thesis using True by (cases f) simp
qed

lemma zero_head:
  assumes "type_ok t" and "w \<noteq> Some 0"
  shows "no_flag (char_at (flag_text CHR ''0'' z @ width_text w @ precision_text v @ type_text t) 0)"
  using width_head [OF assms, of v] by (cases z) (simp_all add: flag_text_def no_flag_def)

lemma parse_alt_text:
  assumes "type_ok t" and "number_ok v" and "number_ok w" and "w \<noteq> Some 0" and "precision f = None" and "width f = None" and "alt f = None"
  shows "parse_alt (pre @ flag_text CHR ''#'' h @ flag_text CHR ''0'' z @ width_text w @ precision_text v @ type_text t) (length pre) f =
    Some (set_type t (f\<lparr>width := w, precision := v, zero_fill := (if z then Some (alignment f = None) else zero_fill f),
      alt := (if h then Some True else None)\<rparr>))"
proof (cases h)
  case False
  let ?s = "flag_text CHR ''0'' z @ width_text w @ precision_text v @ type_text t"
  have "parse_alt (pre @ ?s) (length pre) f = parse_zero (pre @ ?s) (length pre) f"
    using zero_head [OF assms(1,4), of z v] by (simp add: parse_alt_def parse_zero_def no_flag_def)
  then show ?thesis using False assms(7) parse_zero_text [OF assms(1-6), of pre z] by (cases f) (simp add: flag_text_def)
next
  case True
  have "parse_alt (pre @ flag_text CHR ''#'' h @ flag_text CHR ''0'' z @ width_text w @ precision_text v @ type_text t) (length pre) f =
      parse_zero ((pre @ ''#'') @ flag_text CHR ''0'' z @ width_text w @ precision_text v @ type_text t) (length (pre @ ''#''))
        (f\<lparr>alt := Some True\<rparr>)"
    using True by (simp add: parse_alt_def flag_text_def)
  also have "\<dots> = Some (set_type t (f\<lparr>alt := Some True, width := w, precision := v,
      zero_fill := (if z then Some (alignment f = None) else zero_fill f)\<rparr>))"
    using parse_zero_text [OF assms(1-4), of "f\<lparr>alt := Some True\<rparr>" "pre @ ''#''" z] assms(5,6) by simp
  finally show ?thesis using True by (cases f) simp
qed

lemma alt_head:
  assumes "type_ok t" and "w \<noteq> Some 0"
    and c: "c = char_at (flag_text CHR ''#'' h @ flag_text CHR ''0'' z @ width_text w @ precision_text v @ type_text t) 0"
  shows "c \<noteq> CHR ''+''" and "c \<noteq> CHR ''-''" and "c \<noteq> CHR '' ''"
  using zero_head [OF assms(1,2), of z v] unfolding c by (cases h; simp add: flag_text_def no_flag_def)+

lemma parse_sign_text:
  assumes sp: "spec_ok sp" and f: "precision f = None" "width f = None" "alt f = None" "sign f = None"
  shows "parse_sign (pre @ spec_tail sp) (length pre) f =
    Some (set_type (spec_type sp) (f\<lparr>width := spec_width sp, precision := spec_precision sp,
      zero_fill := (if spec_zero sp then Some (alignment f = None) else zero_fill f),
      alt := (if spec_alt sp then Some True else None), sign := spec_sign sp\<rparr>))"
proof -
  have t: "type_ok (spec_type sp)" "number_ok (spec_precision sp)" "number_ok (spec_width sp)" "spec_width sp \<noteq> Some 0"
    using sp by (auto simp: spec_ok_def type_ok_def number_ok_def split: option.splits)
  define rest where "rest = flag_text CHR ''#'' (spec_alt sp) @ flag_text CHR ''0'' (spec_zero sp) @
    width_text (spec_width sp) @ precision_text (spec_precision sp) @ type_text (spec_type sp)"
  have tail: "spec_tail sp = sign_text (spec_sign sp) @ rest" by (simp add: spec_tail_def rest_def)
  have go: "parse_alt (pr @ rest) (length pr) g = Some (set_type (spec_type sp) (g\<lparr>width := spec_width sp, precision := spec_precision sp,
      zero_fill := (if spec_zero sp then Some (alignment g = None) else zero_fill g),
      alt := (if spec_alt sp then Some True else None)\<rparr>))"
    if "precision g = None" "width g = None" "alt g = None" for pr g
    unfolding rest_def by (rule parse_alt_text [OF t that])
  show ?thesis
  proof (cases "spec_sign sp")
    case None
    have "parse_sign (pre @ rest) (length pre) f = parse_alt (pre @ rest) (length pre) f"
      using alt_head [OF t(1,4), of "char_at rest 0" "spec_alt sp" "spec_zero sp" "spec_precision sp", OF rest_def [THEN arg_cong [where f = "\<lambda>s. char_at s 0"]]]
      by (simp add: parse_sign_def ParseSignSpecifier_def parse_alt_def)
    then show ?thesis using None go [OF f(1-3), of pre] f(4) unfolding tail by (cases f) (simp add: sign_text_def)
  next
    case (Some g)
    have "parse_sign (pre @ spec_tail sp) (length pre) f =
        parse_alt ((pre @ [sign_character g]) @ rest) (length (pre @ [sign_character g])) (f\<lparr>sign := Some g\<rparr>)"
      unfolding tail using Some by (cases g) (simp_all add: parse_sign_def ParseSignSpecifier_def sign_text_def)
    also have "\<dots> = Some (set_type (spec_type sp) (f\<lparr>sign := Some g, width := spec_width sp, precision := spec_precision sp,
      zero_fill := (if spec_zero sp then Some (alignment f = None) else zero_fill f),
      alt := (if spec_alt sp then Some True else None)\<rparr>))"
      using go [of "f\<lparr>sign := Some g\<rparr>" "pre @ [sign_character g]"] f by simp
    finally show ?thesis using Some by (cases f) simp
  qed
qed

text \<open>No character of the tail is taken for an alignment.\<close>

lemma tail_plain:
  assumes "spec_ok sp" and "c \<in> set (spec_tail sp)"
  shows "\<not> IsAlignmentCharacter c"
proof -
  have d: "\<not> IsAlignmentCharacter c" if "c \<in> set (decimal n)" for n
    using decimal_facts [of n] that digit_no_flag by (auto simp: list_all_iff)
  have s: "\<not> IsAlignmentCharacter (sign_character g)" for g by (cases g) (simp_all add: IsAlignmentCharacter_def)
  have k: "\<not> IsAlignmentCharacter CHR ''#''" "\<not> IsAlignmentCharacter CHR ''0''" "\<not> IsAlignmentCharacter CHR ''.''"
    by (simp_all add: IsAlignmentCharacter_def)
  show ?thesis using assms d s k alpha_char(8)
    by (auto simp: spec_tail_def spec_ok_def sign_text_def flag_text_def width_text_def precision_text_def type_text_def
        split: option.splits if_splits)
qed

lemma set_alignment [simp]: "set_alignment_character (align_character a) f = f\<lparr>alignment := Some a\<rparr>"
  by (cases a) (simp_all add: set_alignment_character_def)

lemma align_is [simp]: "IsAlignmentCharacter (align_character a)"
  by (cases a) (simp_all add: IsAlignmentCharacter_def)

lemma parse_align_text:
  assumes sp: "spec_ok sp" and f: "alignment f = None" "fill f = None"
  shows "ParseAlignmentAndFill (pre @ print_spec sp) (length pre) f =
    Some (length pre + length (align_text (spec_align sp)),
      f\<lparr>alignment := map_option snd (spec_align sp), fill := Option.bind (spec_align sp) fst\<rparr>)"
proof -
  let ?t = "spec_tail sp"
  have at: "\<not> IsAlignmentCharacter (char_at ?t i)" for i
    using tail_plain [OF sp, of "?t ! i"] by (auto simp: char_at_def IsAlignmentCharacter_def)
  show ?thesis
  proof (cases "spec_align sp")
    case None
    have "takeWhile (\<lambda>c. c \<notin> set ''<>^'') ?t = ?t"
      using tail_plain [OF sp] by (auto simp: takeWhile_eq_all_conv IsAlignmentCharacter_def)
    then have "strcspn ?t ''<>^'' = length ?t" by (simp only: strcspn_def)
    then have "strcspn (drop (length pre) (pre @ ?t)) ''<>^'' + length pre = length (pre @ ?t)" by simp
    then show ?thesis using None at [of 0] at [of 1] f
      by (cases f) (simp add: ParseAlignmentAndFill_def print_spec_def align_text_def char_at_append(1) [of pre ?t 1, simplified])
  next
    case (Some x)
    obtain c a where x: "x = (c, a)" by (cases x)
    show ?thesis
    proof (cases c)
      case None
      have "char_at (pre @ align_character a # ?t) (Suc (length pre)) = char_at ?t 0"
        by (simp add: char_at_def nth_append)
      then show ?thesis using Some x None at [of 0] f
        by (cases f) (simp add: ParseAlignmentAndFill_def print_spec_def align_text_def Let_def)
    next
      case (Some d)
      have "char_at (pre @ d # align_character a # ?t) (Suc (length pre)) = align_character a"
        by (simp add: char_at_def nth_append)
      moreover have "d \<noteq> CHR ''{''" using sp \<open>spec_align sp = Some x\<close> x Some by (simp add: spec_ok_def)
      ultimately show ?thesis using \<open>spec_align sp = Some x\<close> x Some
        by (cases f) (simp add: ParseAlignmentAndFill_def print_spec_def align_text_def Let_def)
    qed
  qed
qed

lemma parse_printed:
  assumes sp: "spec_ok sp" and id: "CHR '':'' \<notin> set arg_id"
  shows "ParseArgFormatString (arg_id @ '':'' @ print_spec sp) = Some (options_of sp)"
proof -
  let ?s = "arg_id @ '':'' @ print_spec sp" and ?pre = "arg_id @ '':''"
  let ?f = "empty_options\<lparr>alignment := map_option snd (spec_align sp), fill := Option.bind (spec_align sp) fst,
    zero_fill := (if spec_align sp \<noteq> None then Some False else None)\<rparr>"
  have colon: "find_char CHR '':'' ?s = Some (length arg_id)"
  proof -
    have "takeWhile (\<lambda>x. x \<noteq> CHR '':'') ?s = arg_id" using id by (induction arg_id) auto
    then show ?thesis by (simp add: find_char_first)
  qed
  show ?thesis
  proof (cases "print_spec sp = []")
    case True
    then have "spec_align sp = None" "spec_sign sp = None" "\<not> spec_alt sp" "\<not> spec_zero sp" "spec_width sp = None"
      "spec_precision sp = None" "spec_type sp = None"
      using decimal_facts
      by (auto simp: print_spec_def spec_tail_def align_text_def sign_text_def flag_text_def width_text_def precision_text_def
          type_text_def split: option.splits if_splits prod.splits)
    then show ?thesis using colon True
      by (simp add: ParseArgFormatString_def options_of_def empty_options_def)
  next
    case False
    have align: "ParseAlignmentAndFill ?s (length arg_id + 1) empty_options =
        Some (length arg_id + 1 + length (align_text (spec_align sp)),
          empty_options\<lparr>alignment := map_option snd (spec_align sp), fill := Option.bind (spec_align sp) fst\<rparr>)"
      using parse_align_text [OF sp, of empty_options ?pre] by (simp add: empty_options_def)
    have "ParseArgFormatString ?s = parse_sign ?s (length arg_id + 1 + length (align_text (spec_align sp))) ?f"
    proof -
      have "?s \<noteq> []" and "\<not> length arg_id + 1 \<ge> length ?s" using False by simp_all
      then show ?thesis unfolding ParseArgFormatString_def Let_def colon option.case align
        by (simp add: empty_options_def)
    qed
    also have "\<dots> = parse_sign ((?pre @ align_text (spec_align sp)) @ spec_tail sp) (length (?pre @ align_text (spec_align sp))) ?f"
      by (simp add: print_spec_def)
    also have "\<dots> = Some (options_of sp)"
      by (subst parse_sign_text [OF sp]; cases "spec_align sp")
        (simp_all add: empty_options_def options_of_def set_type_options)
    finally show ?thesis .
  qed
qed

end
