(* ===== verification/Char_Conv.thy ===== *)
theory Char_Conv
  imports Char_String
begin

text \<open>
  \<^verbatim>\<open>from_chars\<close> for the integer types (\<^verbatim>\<open>include/charconv\<close>).  The range from \<^verbatim>\<open>first\<close> to
  \<^verbatim>\<open>last\<close> is a list of characters, a pointer into it its offset from \<^verbatim>\<open>first\<close>; a type of \<open>w\<close>
  bits is a word of that length, and every arithmetic step of the code is one on words.
\<close>

section \<open>The functions\<close>

datatype errc = success | value_too_large | invalid_argument

record 'w from_chars_result =
  ptr :: nat
  ec :: errc
  out :: 'w

definition digit_value :: "char \<Rightarrow> int \<Rightarrow> int" where
  "digit_value c base =
     (let n = (of_char c :: int);
          d = (if 48 \<le> n \<and> n \<le> 57 then n - 48
               else if 97 \<le> n \<and> n \<le> 122 then n - 97 + 10
               else if 65 \<le> n \<and> n \<le> 90 then n - 65 + 10
               else - 1)
      in if d = - 1 then - 1 else if d < base then d else - 1)"

fun skip_digits :: "int \<Rightarrow> string \<Rightarrow> nat \<Rightarrow> nat" where
  "skip_digits base [] p = p"
| "skip_digits base (c # cs) p = (if digit_value c base \<ge> 0 then skip_digits base cs (p + 1) else p)"

text \<open>The loop of both functions: \<open>Inl\<close> is an overflow, with the pointer past all the digits.\<close>

fun from_chars_loop :: "int \<Rightarrow> 'a::len word \<Rightarrow> 'a word \<Rightarrow> string \<Rightarrow> nat \<Rightarrow> bool \<Rightarrow> 'a word \<Rightarrow> nat + nat \<times> bool \<times> 'a word" where
  "from_chars_loop base max_div max_mod [] p any val = Inr (p, any, val)"
| "from_chars_loop base max_div max_mod (c # cs) p any val =
     (let d = digit_value c base
      in if d < 0 then Inr (p, any, val)
         else let ud = word_of_int d
              in if val > max_div \<or> (val = max_div \<and> ud > max_mod) then Inl (skip_digits base (c # cs) p)
                 else from_chars_loop base max_div max_mod cs (p + 1) True (val * word_of_int base + ud))"

definition from_chars_unsigned :: "string \<Rightarrow> 'a::len word \<Rightarrow> int \<Rightarrow> 'a word from_chars_result" where
  "from_chars_unsigned src given base =
     (if base < 2 \<or> base > 36 then \<lparr>ptr = 0, ec = invalid_argument, out = given\<rparr>
      else if src = [] then \<lparr>ptr = 0, ec = invalid_argument, out = given\<rparr>
      else let max_val = - 1;
               max_div = max_val div word_of_int base;
               max_mod = max_val mod word_of_int base
           in case from_chars_loop base max_div max_mod src 0 False 0 of
                Inl p \<Rightarrow> \<lparr>ptr = p, ec = value_too_large, out = given\<rparr>
              | Inr (p, any, val) \<Rightarrow>
                  if \<not> any then \<lparr>ptr = 0, ec = invalid_argument, out = given\<rparr>
                  else \<lparr>ptr = p, ec = success, out = val\<rparr>)"

definition from_chars_signed :: "string \<Rightarrow> 'a::len word \<Rightarrow> int \<Rightarrow> 'a word from_chars_result" where
  "from_chars_signed src given base =
     (if base < 2 \<or> base > 36 then \<lparr>ptr = 0, ec = invalid_argument, out = given\<rparr>
      else if src = [] then \<lparr>ptr = 0, ec = invalid_argument, out = given\<rparr>
      else let negative = (hd src = CHR ''-'');
               first = (if negative then 1 else 0);
               pos_max = mask (LENGTH('a) - 1);
               limit = (if negative then pos_max + 1 else pos_max);
               max_div = limit div word_of_int base;
               max_mod = limit mod word_of_int base
           in case from_chars_loop base max_div max_mod (drop first src) first False 0 of
                Inl p \<Rightarrow> \<lparr>ptr = p, ec = value_too_large, out = given\<rparr>
              | Inr (p, any, val) \<Rightarrow>
                  if \<not> any \<or> (negative \<and> p = 1) then \<lparr>ptr = 0, ec = invalid_argument, out = given\<rparr>
                  else \<lparr>ptr = p, ec = success, out = (if negative then NOT val + 1 else val)\<rparr>)"

section \<open>The value of a run of digits\<close>

text \<open>The digits in the order of their values, in either case: what a character means in a base.\<close>

definition numerals :: "(char \<times> nat) list" where
  "numerals = zip ''0123456789abcdefghijklmnopqrstuvwxyz'' [0..<36] @ zip ''0123456789ABCDEFGHIJKLMNOPQRSTUVWXYZ'' [0..<36]"

definition denoted :: "int \<Rightarrow> char \<Rightarrow> nat option" where
  "denoted base c = (case map_of numerals c of Some d \<Rightarrow> if int d < base then Some d else None | None \<Rightarrow> None)"

definition is_digit_in :: "int \<Rightarrow> char \<Rightarrow> bool" where
  "is_digit_in base c \<longleftrightarrow> denoted base c \<noteq> None"

definition digits_value :: "int \<Rightarrow> nat \<Rightarrow> string \<Rightarrow> nat" where
  "digits_value base v ds = foldl (\<lambda>v c. v * nat base + (case denoted base c of Some d \<Rightarrow> d | None \<Rightarrow> 0)) v ds"

definition digit_run :: "int \<Rightarrow> string \<Rightarrow> string" where
  "digit_run base src = takeWhile (is_digit_in base) src"

text \<open>The arithmetic of the code on character codes agrees with the table.\<close>

lemma numerals_digits: "list_all (\<lambda>(c, d). digit_value c 36 = int d) numerals"
  by code_simp

lemma numerals_all: "list_all (\<lambda>n. char_of n \<in> fst ` set numerals) ([48..<58 :: nat] @ [97..<123] @ [65..<91])"
  by code_simp

lemma digit_value_numerals: "digit_value c 36 = (case map_of numerals c of Some d \<Rightarrow> int d | None \<Rightarrow> - 1)"
proof (cases "map_of numerals c")
  case (Some d)
  then show ?thesis using map_of_SomeD [OF Some] numerals_digits by (auto simp: list_all_iff)
next
  case None
  define n where "n = (of_char c :: nat)"
  have "char_of n \<notin> fst ` set numerals" using None by (simp add: n_def map_of_eq_None_iff)
  then have "n \<notin> set ([48..<58] @ [97..<123] @ [65..<91])" using numerals_all unfolding list_all_iff by blast
  then have "\<not> (48 \<le> n \<and> n \<le> 57)" "\<not> (97 \<le> n \<and> n \<le> 122)" "\<not> (65 \<le> n \<and> n \<le> 90)"
    by (simp_all only: set_append set_upt Un_iff atLeastLessThan_iff) linarith+
  moreover have "(of_char c :: int) = int n" by (simp add: n_def flip: of_nat_of_char [where 'a = int])
  ultimately show ?thesis using None unfolding digit_value_def Let_def by auto
qed

lemma digit_value_denoted: "digit_value c base = (case denoted base c of Some d \<Rightarrow> int d | None \<Rightarrow> - 1)"
proof -
  have "digit_value c base = (if digit_value c 36 < base then digit_value c 36 else - 1)"
    by (simp add: digit_value_def Let_def)
  then show ?thesis unfolding digit_value_numerals denoted_def by (auto split: option.splits)
qed

lemma is_digit_in_code: "is_digit_in base c \<longleftrightarrow> digit_value c base \<ge> 0"
  by (auto simp: is_digit_in_def digit_value_denoted split: option.splits)

lemma digits_value_simps [simp]:
  "digits_value base v [] = v"
  "digits_value base v (c # ds) = digits_value base (v * nat base + nat (digit_value c base)) ds"
  "digits_value base v (ds @ es) = digits_value base (digits_value base v ds) es"
  by (simp_all add: digits_value_def digit_value_denoted split: option.splits)

lemma digits_value_ge: "2 \<le> base \<Longrightarrow> v \<le> digits_value base v ds"
proof (induction ds arbitrary: v)
  case (Cons c ds)
  have "v \<le> v * nat base + nat (digit_value c base)"
    using Cons.prems by (intro trans_le_add1) (simp add: Suc_le_eq)
  also have "\<dots> \<le> digits_value base (v * nat base + nat (digit_value c base)) ds" by (rule Cons.IH [OF Cons.prems])
  finally show ?case by simp
qed simp

lemma digit_value_less: "digit_value c base < max base 0"
  by (auto simp: digit_value_def Let_def)

lemma skip_digits_run: "skip_digits base cs p = p + length (digit_run base cs)"
  by (induction cs arbitrary: p) (auto simp: digit_run_def is_digit_in_code)

text \<open>The comparison made before each step is exact.\<close>

lemma overflow_exact:
  fixes v L b d :: nat
  assumes "d < b"
  shows "v > L div b \<or> (v = L div b \<and> d > L mod b) \<longleftrightarrow> v * b + d > L"
proof -
  have L: "L = L div b * b + L mod b" by simp
  have m: "L mod b < b" using assms by simp
  consider "v < L div b" | "v = L div b" | "v > L div b" by linarith
  then show ?thesis
  proof cases
    case 1
    then have "(v + 1) * b \<le> L div b * b" by (intro mult_le_mono1) simp
    then have "v * b + b \<le> L div b * b" by (simp add: algebra_simps)
    then have "v * b + b \<le> L" using div_times_less_eq_dividend [of L b] by linarith
    then show ?thesis using 1 assms by simp
  next
    case 2
    then have "v * b + L mod b = L" by simp
    then have "v * b + d > L \<longleftrightarrow> d > L mod b" by linarith
    then show ?thesis using 2 by blast
  next
    case 3
    then have "(L div b + 1) * b \<le> v * b" by (intro mult_le_mono1) simp
    then have "L div b * b + b \<le> v * b" by (simp add: algebra_simps)
    then have "L < v * b" using L m by linarith
    then show ?thesis using 3 by simp
  qed
qed

lemma from_chars_loop_run:
  fixes lim :: "'a::len word"
  assumes base: "2 \<le> base" "base \<le> 36" and len: "8 \<le> LENGTH('a)" and v: "unat val \<le> unat lim"
  shows "from_chars_loop base (lim div word_of_int base) (lim mod word_of_int base) cs p any val =
    (let ds = digit_run base cs; v = digits_value base (unat val) ds
     in if v \<le> unat lim then Inr (p + length ds, any \<or> ds \<noteq> [], of_nat v) else Inl (p + length ds))"
  using v
proof (induction cs arbitrary: p any val)
  case Nil
  then show ?case by (simp add: digit_run_def)
next
  case (Cons c cs)
  have big: "256 \<le> (2::nat) ^ LENGTH('a)" using power_increasing [OF len, of "2::nat"] by simp
  have ub: "unat (word_of_int base :: 'a word) = nat base"
  proof -
    have "(word_of_int base :: 'a word) = of_nat (nat base)" using base by simp
    moreover have "nat base < 2 ^ LENGTH('a)"
    proof -
      have "nat base < 256" using base by simp
      then show ?thesis using big by linarith
    qed
    ultimately show ?thesis by (simp add: unat_of_nat)
  qed
  show ?case
  proof (cases "is_digit_in base c")
    case False
    then show ?thesis using Cons.prems by (simp add: digit_run_def is_digit_in_code Let_def)
  next
    case True
    define d where "d = nat (digit_value c base)"
    have d: "digit_value c base = int d" "d < nat base"
      using True digit_value_less [of c base] base by (auto simp: d_def is_digit_in_code)
    have ud: "unat (word_of_int (int d) :: 'a word) = d" using d(2) base big by (simp add: unat_of_nat)
    then have udn: "unat (of_nat d :: 'a word) = d" by simp
    have run: "digit_run base (c # cs) = c # digit_run base cs" using True by (simp add: digit_run_def)
    have over: "val > lim div word_of_int base \<or> (val = lim div word_of_int base \<and> (word_of_int (int d) :: 'a word) > lim mod word_of_int base) \<longleftrightarrow>
        unat val * nat base + d > unat lim"
      unfolding overflow_exact [OF d(2), symmetric] word_less_nat_alt word_unat_eq_iff unat_div unat_mod ub ud by blast
    have dd: "nat (digit_value c base) = d" by (simp add: d(1))
    show ?thesis
    proof (cases "unat val * nat base + d > unat lim")
      case True
      then have "digits_value base (unat val) (digit_run base (c # cs)) > unat lim"
        using digits_value_ge [OF base(1), of "unat val * nat base + d" "digit_run base cs"] by (simp add: run dd)
      then show ?thesis using True over d(1) run by (simp add: Let_def skip_digits_run)
    next
      case False
      have "unat lim < 2 ^ LENGTH('a)" by (rule unsigned_less)
      then have small: "unat val * nat base + d < 2 ^ LENGTH('a)" using False by linarith
      have next_val: "unat (val * word_of_int base + word_of_int (int d)) = unat val * nat base + d"
        using small by (simp add: unat_word_ariths ub udn)
      have "from_chars_loop base (lim div word_of_int base) (lim mod word_of_int base) (c # cs) p any val =
          from_chars_loop base (lim div word_of_int base) (lim mod word_of_int base) cs (p + 1) True
            (val * word_of_int base + word_of_int (int d))"
      proof -
        have "\<not> (val > lim div word_of_int base \<or> (val = lim div word_of_int base \<and> (word_of_int (int d) :: 'a word) > lim mod word_of_int base))"
          using False over by blast
        then show ?thesis by (simp only: from_chars_loop.simps Let_def d(1) if_False) simp
      qed
      also have "\<dots> = (let ds = digit_run base cs; v = digits_value base (unat val * nat base + d) ds
          in if v \<le> unat lim then Inr (p + 1 + length ds, True, of_nat v) else Inl (p + 1 + length ds))"
      proof -
        have "unat (val * word_of_int base + word_of_int (int d)) \<le> unat lim" using False unfolding next_val by simp
        from Cons.IH [OF this, of "p + 1" True] show ?thesis unfolding next_val by (simp add: Let_def)
      qed
      finally show ?thesis by (simp add: run dd Let_def)
    qed
  qed
qed

lemma unsigned_result:
  fixes given :: "'a::len word"
  assumes base: "2 \<le> base" "base \<le> 36" and len: "8 \<le> LENGTH('a)"
  shows "from_chars_unsigned src given base =
    (let ds = digit_run base src; v = digits_value base 0 ds
     in if ds = [] then \<lparr>ptr = 0, ec = invalid_argument, out = given\<rparr>
        else if v < 2 ^ LENGTH('a) then \<lparr>ptr = length ds, ec = success, out = of_nat v\<rparr>
        else \<lparr>ptr = length ds, ec = value_too_large, out = given\<rparr>)"
proof -
  have m: "unat (- 1 :: 'a word) = 2 ^ LENGTH('a) - 1" by (simp add: unsigned_minus_1_eq_mask mask_eq_exp_minus_1)
  have le: "v \<le> unat (- 1 :: 'a word) \<longleftrightarrow> v < 2 ^ LENGTH('a)" for v :: nat
    unfolding m by (metis Suc_pred' less_Suc_eq_le zero_less_numeral zero_less_power)
  have run: "from_chars_loop base ((- 1 :: 'a word) div word_of_int base) (- 1 mod word_of_int base) src 0 False 0 =
    (let ds = digit_run base src; v = digits_value base 0 ds
     in if v < 2 ^ LENGTH('a) then Inr (length ds, ds \<noteq> [], of_nat v) else Inl (length ds))"
    using from_chars_loop_run [OF base len, where val = 0 and lim = "- 1" and cs = src and p = 0 and any = False]
    unfolding le by (simp add: Let_def)
  show ?thesis
  proof (cases "src = []")
    case True
    then show ?thesis using base by (simp add: from_chars_unsigned_def Let_def digit_run_def)
  next
    case False
    then show ?thesis using base unfolding from_chars_unsigned_def Let_def run [unfolded Let_def] by auto
  qed
qed

lemma signed_result:
  fixes given :: "'a::len word"
  assumes base: "2 \<le> base" "base \<le> 36" and len: "8 \<le> LENGTH('a)"
  defines "negative src \<equiv> src \<noteq> [] \<and> hd src = CHR ''-''"
  shows "from_chars_signed src given base =
    (let first = (if negative src then 1 else 0); ds = digit_run base (drop first src); v = digits_value base 0 ds
     in if ds = [] then \<lparr>ptr = 0, ec = invalid_argument, out = given\<rparr>
        else if v < 2 ^ (LENGTH('a) - 1) + first
        then \<lparr>ptr = first + length ds, ec = success, out = (if negative src then - of_nat v else of_nat v)\<rparr>
        else \<lparr>ptr = first + length ds, ec = value_too_large, out = given\<rparr>)"
proof (cases "src = []")
  case True
  then show ?thesis using base by (simp add: from_chars_signed_def Let_def digit_run_def)
next
  case False
  define first :: nat where "first = (if negative src then 1 else 0)"
  define lim :: "'a word" where "lim = (if negative src then mask (LENGTH('a) - 1) + 1 else mask (LENGTH('a) - 1))"
  have half: "unat (mask (LENGTH('a) - 1) :: 'a word) = 2 ^ (LENGTH('a) - 1) - 1"
  proof -
    have "(2::nat) ^ (LENGTH('a) - 1) \<le> 2 ^ LENGTH('a)" by (simp add: power_increasing)
    moreover have "(0::nat) < 2 ^ (LENGTH('a) - 1)" by simp
    ultimately have "(2::nat) ^ (LENGTH('a) - 1) - 1 < 2 ^ LENGTH('a)" by linarith
    then have "unat (of_nat (mask (LENGTH('a) - 1)) :: 'a word) = 2 ^ (LENGTH('a) - 1) - 1"
      unfolding mask_eq_exp_minus_1 by (simp only: unat_of_nat mod_less)
    then show ?thesis by (simp only: of_nat_mask_eq)
  qed
  have pw: "(2::nat) ^ LENGTH('a) = 2 * 2 ^ (LENGTH('a) - 1)" using len by (simp add: power_eq_if)
  have pos: "(1::nat) \<le> 2 ^ (LENGTH('a) - 1)" by simp
  have lim: "unat lim = 2 ^ (LENGTH('a) - 1) - 1 + first"
    using half pw pos by (simp add: lim_def first_def unat_word_ariths)
  have le: "v \<le> unat lim \<longleftrightarrow> v < 2 ^ (LENGTH('a) - 1) + first" for v using pos unfolding lim by linarith
  have neg: "hd src = CHR ''-'' \<longleftrightarrow> negative src" using False by (simp add: negative_def)
  have run: "from_chars_loop base (lim div word_of_int base) (lim mod word_of_int base) (drop first src) first False 0 =
    (let ds = digit_run base (drop first src); v = digits_value base 0 ds
     in if v < 2 ^ (LENGTH('a) - 1) + first then Inr (first + length ds, ds \<noteq> [], of_nat v) else Inl (first + length ds))"
    using from_chars_loop_run [OF base len, where val = 0 and lim = lim and cs = "drop first src" and p = first and any = False]
    unfolding le by (simp add: Let_def)
  have small: "digits_value base 0 [] < 2 ^ (LENGTH('a) - 1) + first" using pos by simp
  have inv: "NOT w + 1 = - w" for w :: "'a word" by (simp add: minus_eq_not_plus_1)
  show ?thesis
    using base False small unfolding from_chars_signed_def neg Let_def lim_def [symmetric] first_def [symmetric] run
    by (auto simp: Let_def inv first_def)
qed

section \<open>Properties\<close>

text \<open>The number a text denotes, and the reading of it the standard prescribes.\<close>

definition signed_parts :: "string \<Rightarrow> nat \<times> string" where
  "signed_parts src = (if src \<noteq> [] \<and> hd src = CHR ''-'' then (1, tl src) else (0, src))"

definition read_unsigned :: "nat \<Rightarrow> string \<Rightarrow> int \<Rightarrow> nat \<times> errc \<times> int option" where
  "read_unsigned w src base =
     (let ds = digit_run base src; v = int (digits_value base 0 ds)
      in if ds = [] then (0, invalid_argument, None)
         else if v < 2 ^ w then (length ds, success, Some v) else (length ds, value_too_large, None))"

definition read_signed :: "nat \<Rightarrow> string \<Rightarrow> int \<Rightarrow> nat \<times> errc \<times> int option" where
  "read_signed w src base =
     (let (k, rest) = signed_parts src; ds = digit_run base rest;
          v = (if k = 1 then - int (digits_value base 0 ds) else int (digits_value base 0 ds))
      in if ds = [] then (0, invalid_argument, None)
         else if - (2 ^ (w - 1)) \<le> v \<and> v < 2 ^ (w - 1) then (k + length ds, success, Some v)
         else (k + length ds, value_too_large, None))"

text \<open>What a call did, the result being read by \<open>rd\<close> when the call stored one.\<close>

definition reading :: "('w \<Rightarrow> int) \<Rightarrow> 'w \<Rightarrow> 'w from_chars_result \<Rightarrow> nat \<times> errc \<times> int option \<Rightarrow> bool" where
  "reading rd given r = (\<lambda>(p, e, v). ptr r = p \<and> ec r = e \<and>
     (case v of None \<Rightarrow> out r = given | Some n \<Rightarrow> rd (out r) = n))"

lemma read_unsigned_exact:
  fixes given :: "'a::len word"
  assumes "2 \<le> base" "base \<le> 36" and "8 \<le> LENGTH('a)"
  shows "reading uint given (from_chars_unsigned src given base) (read_unsigned LENGTH('a) src base)"
proof -
  let ?v = "digits_value base 0 (digit_run base src)"
  have "(int ?v < 2 ^ LENGTH('a)) = (?v < 2 ^ LENGTH('a))" by (metis of_nat_less_iff of_nat_numeral of_nat_power)
  moreover have "uint (of_nat ?v :: 'a word) = int ?v" if "?v < 2 ^ LENGTH('a)"
    using that by (simp add: uint_nat unat_of_nat)
  ultimately show ?thesis unfolding unsigned_result [OF assms] read_unsigned_def reading_def Let_def by simp
qed

lemma read_signed_exact:
  fixes given :: "'a::len word"
  assumes "2 \<le> base" "base \<le> 36" and len: "8 \<le> LENGTH('a)"
  shows "reading sint given (from_chars_signed src given base) (read_signed LENGTH('a) src base)"
proof -
  have sint: "sint (word_of_int x :: 'a word) = x" if "- (2 ^ (LENGTH('a) - 1)) \<le> x" "x < 2 ^ (LENGTH('a) - 1)" for x
    using that by (simp add: signed_of_int signed_take_bit_int_eq_self)
  have cast: "(int v < 2 ^ k + int i) = (v < 2 ^ k + i)" for v k i
    by (metis of_nat_add of_nat_less_iff of_nat_numeral of_nat_power)
  have above: "- (2 ^ k) \<le> int v" for v k
    using of_nat_0_le_iff [of v, where 'a = int] zero_less_power [of "2::int" k, OF zero_less_numeral] by linarith
  have below: "- int v < 2 ^ k" for v k
    using of_nat_0_le_iff [of v, where 'a = int] zero_less_power [of "2::int" k, OF zero_less_numeral] by linarith
  show ?thesis
  proof (cases "src \<noteq> [] \<and> hd src = CHR ''-''")
    case True
    let ?v = "digits_value base 0 (digit_run base (tl src))"
    have "sint (- of_nat ?v :: 'a word) = - int ?v" if "?v < 2 ^ (LENGTH('a) - 1) + 1"
    proof -
      have "- (2 ^ (LENGTH('a) - 1)) \<le> - int ?v" using cast [of ?v "LENGTH('a) - 1" 1] that by simp
      moreover have "- int ?v < 2 ^ (LENGTH('a) - 1)" by (rule below)
      ultimately have "sint (word_of_int (- int ?v) :: 'a word) = - int ?v" by (rule sint)
      then show ?thesis by simp
    qed
    moreover have "- (2 ^ (LENGTH('a) - 1)) \<le> - int ?v \<and> - int ?v < 2 ^ (LENGTH('a) - 1) \<longleftrightarrow> ?v < 2 ^ (LENGTH('a) - 1) + 1"
      using cast [of ?v "LENGTH('a) - 1" 1] below [of ?v "LENGTH('a) - 1"] by auto
    ultimately show ?thesis using True
      unfolding signed_result [OF assms] read_signed_def signed_parts_def reading_def Let_def by (simp add: drop_Suc)
  next
    case False
    let ?v = "digits_value base 0 (digit_run base src)"
    have "sint (of_nat ?v :: 'a word) = int ?v" if "?v < 2 ^ (LENGTH('a) - 1)"
    proof -
      have "- (2 ^ (LENGTH('a) - 1)) \<le> int ?v" by (rule above)
      moreover have "int ?v < 2 ^ (LENGTH('a) - 1)" using cast [of ?v "LENGTH('a) - 1" 0] that by simp
      ultimately have "sint (word_of_int (int ?v) :: 'a word) = int ?v" by (rule sint)
      then show ?thesis by simp
    qed
    moreover have "- (2 ^ (LENGTH('a) - 1)) \<le> int ?v \<and> int ?v < 2 ^ (LENGTH('a) - 1) \<longleftrightarrow> ?v < 2 ^ (LENGTH('a) - 1)"
      using cast [of ?v "LENGTH('a) - 1" 0] above [of "LENGTH('a) - 1" ?v] by auto
    ultimately show ?thesis using False
      unfolding signed_result [OF assms] read_signed_def signed_parts_def reading_def Let_def by auto
  qed
qed

text \<open>C18: Reading an integer is exact, for every integer type of 8 bits or more, every base from 2 to 36 and
  every text: the longest run of digits, as the table \<open>numerals\<close> has them, is consumed; its value is stored if the type can hold it, the
  least value of a signed type included; otherwise the destination keeps its value and the error
  says whether there was no digit or too large a number.  The comparison made before each digit
  never lets the arithmetic wrap.\<close>

theorem from_chars_exact:
  fixes given :: "'a::len word"
  assumes "2 \<le> base" "base \<le> 36" and "8 \<le> LENGTH('a)"
  shows "reading uint given (from_chars_unsigned src given base) (read_unsigned LENGTH('a) src base) \<and>
    reading sint given (from_chars_signed src given base) (read_signed LENGTH('a) src base)"
  using read_unsigned_exact [OF assms] read_signed_exact [OF assms] by blast

theorem from_chars_exact_witness:
  "reading uint (7 :: u8) (from_chars_unsigned ''300'' 7 10) (read_unsigned 8 ''300'' 10) \<and>
   reading sint (7 :: u8) (from_chars_signed ''-128x'' 7 10) (5 - 1, success, Some (- 128))"
proof -
  have "read_signed 8 ''-128x'' 10 = (5 - 1, success, Some (- 128))" by code_simp
  then show ?thesis using from_chars_exact [of 10 "7 :: u8" "''300''"] from_chars_exact [of 10 "7 :: u8" "''-128x''"] by simp
qed

end
