(* ===== verification/Number_Text.thy ===== *)
theory Number_Text
  imports Format_Spec Char_Conv
begin

text \<open>
  Rendering integers and strings (\<^verbatim>\<open>src/format_formatters.cpp\<close>): the digits of a number, its
  sign and prefix, and the alignment, fill and truncation of the field they are written into.
  Every function appends to a buffer whose \<open>grow\<close> is an argument.  The lemmas say what each one
  appends to a fixed string, as a text that does not depend on the room: the room only cuts it.
\<close>

section \<open>Numbers\<close>

definition LOWER_CASE_NUMERIC_CONVERSION_DIGITS :: string where
  "LOWER_CASE_NUMERIC_CONVERSION_DIGITS = ''0123456789abcdefghijklmnopqrstuvwxyz''"

definition UPPER_CASE_NUMERIC_CONVERSION_DIGITS :: string where
  "UPPER_CASE_NUMERIC_CONVERSION_DIGITS = ''0123456789ABCDEFGHIJKLMNOPQRSTUVWXYZ''"

record numeric_text =
  sign_part :: string
  prefix_part :: string
  digits :: string
  fraction_start :: nat
  integer_zeros :: nat
  trailing_zeros :: nat
  is_finite :: bool

definition CAPACITY :: nat where
  "CAPACITY = 80"

definition empty_number :: numeric_text where
  "empty_number = \<lparr>sign_part = [], prefix_part = [], digits = [], fraction_start = 0, integer_zeros = 0,
     trailing_zeros = 0, is_finite = True\<rparr>"

definition push_digit :: "char \<Rightarrow> numeric_text \<Rightarrow> numeric_text" where
  "push_digit c x = (if length (digits x) < CAPACITY then x\<lparr>digits := digits x @ [c]\<rparr> else x)"

definition IntegerPrefix :: "arg_format_options \<Rightarrow> bool \<Rightarrow> string" where
  "IntegerPrefix f value_is_zero =
     (if is_alt f then
        (case type_specifier f of
           None \<Rightarrow> []
         | Some c \<Rightarrow>
             if c = CHR ''b'' then ''0b''
             else if c = CHR ''B'' then ''0B''
             else if c = CHR ''o'' then (if value_is_zero then [] else ''0'')
             else if c = CHR ''x'' then ''0x''
             else if c = CHR ''X'' then ''0X''
             else [])
      else [])"

definition DetermineSign :: "bool \<Rightarrow> arg_format_options \<Rightarrow> string" where
  "DetermineSign is_negative f =
     (if is_negative then ''-''
      else case sign f of
          Some Always_Plus \<Rightarrow> ''+''
        | Some Space \<Rightarrow> '' ''
        | _ \<Rightarrow> [])"

text \<open>The digits of a value, least significant first, as they are stored before they are emitted.\<close>

function reversed_digits :: "nat \<Rightarrow> nat \<Rightarrow> nat list" where
  "reversed_digits base v = v mod base # (if v div base \<noteq> 0 \<and> 2 \<le> base then reversed_digits base (v div base) else [])"
  by pat_completeness auto

termination
proof (relation "measure snd")
  fix base v :: nat
  assume "v div base \<noteq> 0 \<and> 2 \<le> base"
  then have "v div base < v" by (cases "v = 0") (simp_all add: div_less_dividend)
  then show "((base, v div base), (base, v)) \<in> measure snd" by simp
qed simp

declare reversed_digits.simps [simp del]

definition AppendDigits :: "numeric_text \<Rightarrow> nat \<Rightarrow> nat \<Rightarrow> string \<Rightarrow> numeric_text" where
  "AppendDigits x v base numeric_conversion_digits =
     fold (\<lambda>k. push_digit (numeric_conversion_digits ! k)) (rev (reversed_digits base v)) x"

section \<open>Fields\<close>

fun push_times :: "grow_fn \<Rightarrow> char \<Rightarrow> nat \<Rightarrow> char_buffer \<Rightarrow> char_buffer" where
  "push_times grow c 0 s = s"
| "push_times grow c (Suc i) s =
     (let t = snd (push_back grow c s)
      in if size_of t = size_of s then t else push_times grow c i t)"

definition AppendRepeated :: "grow_fn \<Rightarrow> char \<Rightarrow> nat \<Rightarrow> char_buffer \<Rightarrow> char_buffer" where
  "AppendRepeated grow c count s =
     (let room = (if max_size s > size_of s then max_size s - size_of s else 0)
      in push_times grow c (min count room) s)"

definition push_all :: "grow_fn \<Rightarrow> string \<Rightarrow> char_buffer \<Rightarrow> char_buffer" where
  "push_all grow cs s = fold (\<lambda>c s. snd (push_back grow c s)) cs s"

definition number_fill :: "numeric_text \<Rightarrow> nat \<Rightarrow> arg_format_options \<Rightarrow> nat \<times> nat \<times> nat" where
  "number_fill x number_length f =
     (case width f of
        None \<Rightarrow> (0, 0, 0)
      | Some w \<Rightarrow>
          if w > number_length
          then let fill_count = w - number_length
               in if is_zero_fill f \<and> is_finite x then (0, fill_count, 0)
                  else if is_zero_fill f \<or> is_right_aligned f then (fill_count, 0, 0)
                  else if is_center_aligned f then (fill_count div 2, 0, fill_count - fill_count div 2)
                  else (0, 0, fill_count)
          else (0, 0, 0))"

definition EmitNumber :: "grow_fn \<Rightarrow> numeric_text \<Rightarrow> arg_format_options \<Rightarrow> char_buffer \<Rightarrow> char_buffer" where
  "EmitNumber grow x f s =
     (let sign_length = strnlen (sign_part x) 2;
          prefix_length = strnlen (prefix_part x) 3;
          number_length = sign_length + prefix_length + length (digits x) + integer_zeros x + trailing_zeros x;
          (fill_before, zero_fill, fill_after) = number_fill x number_length f;
          fill = (case fill f of Some c \<Rightarrow> if is_zero_fill f then CHR '' '' else c | None \<Rightarrow> CHR '' '');
          s = AppendRepeated grow fill fill_before s;
          s = append_cstr grow (sign_part x) s;
          s = append_cstr grow (prefix_part x) s;
          s = AppendRepeated grow CHR ''0'' zero_fill s;
          fraction_start = (if fraction_start x > 0 then fraction_start x else length (digits x));
          s = push_all grow (take fraction_start (digits x)) s;
          s = AppendRepeated grow CHR ''0'' (integer_zeros x) s;
          s = push_all grow (drop fraction_start (digits x)) s;
          s = AppendRepeated grow CHR ''0'' (trailing_zeros x) s
      in AppendRepeated grow fill fill_after s)"

definition UnsignedMagnitudeToString :: "grow_fn \<Rightarrow> nat \<Rightarrow> bool \<Rightarrow> arg_format_options \<Rightarrow> char_buffer \<Rightarrow> char_buffer" where
  "UnsignedMagnitudeToString grow magnitude is_negative f s =
     (case integer_base f of
        None \<Rightarrow> append_cstr grow ''{Invalid base}'' s
      | Some base \<Rightarrow>
          if base < 2 \<or> base > 36 then append_cstr grow ''{Invalid base}'' s
          else let numeric_conversion_digits =
                     (if type_specifier f = Some CHR ''X'' \<or> type_specifier f = Some CHR ''B''
                      then UPPER_CASE_NUMERIC_CONVERSION_DIGITS else LOWER_CASE_NUMERIC_CONVERSION_DIGITS);
                   x = empty_number\<lparr>sign_part := DetermineSign is_negative f, prefix_part := IntegerPrefix f (magnitude = 0)\<rparr>;
                   x = AppendDigits x magnitude base numeric_conversion_digits
               in EmitNumber grow x f s)"

definition UnsignedIntToString :: "grow_fn \<Rightarrow> 'a::len word \<Rightarrow> arg_format_options \<Rightarrow> char_buffer \<Rightarrow> char_buffer" where
  "UnsignedIntToString grow v f s = UnsignedMagnitudeToString grow (unat v) False f s"

definition SignedIntToString :: "grow_fn \<Rightarrow> 'a::len word \<Rightarrow> arg_format_options \<Rightarrow> char_buffer \<Rightarrow> char_buffer" where
  "SignedIntToString grow v f s =
     (if v <s 0 then UnsignedMagnitudeToString grow (unat (0 - v)) True f s
      else UnsignedMagnitudeToString grow (unat v) False f s)"

definition string_fill :: "nat \<Rightarrow> arg_format_options \<Rightarrow> nat \<times> nat" where
  "string_fill n f =
     (case width f of
        None \<Rightarrow> (0, 0)
      | Some w \<Rightarrow>
          if w > n
          then let fill_count = w - n
               in (case alignment f of
                     None \<Rightarrow> (0, 0)
                   | Some Left \<Rightarrow> (0, fill_count)
                   | Some Right \<Rightarrow> (fill_count, 0)
                   | Some Center \<Rightarrow> (fill_count div 2, fill_count - fill_count div 2))
          else (0, 0))"

definition FormattedStringAppend :: "grow_fn \<Rightarrow> string \<Rightarrow> nat \<Rightarrow> arg_format_options \<Rightarrow> char_buffer \<Rightarrow> char_buffer" where
  "FormattedStringAppend grow v n f s =
     (let n = (case precision f of Some p \<Rightarrow> if p < n then p else n | None \<Rightarrow> n);
          (fill_before, fill_after) = string_fill n f;
          s = AppendRepeated grow (the (fill f)) fill_before s;
          s = append_n grow v n s
      in AppendRepeated grow (the (fill f)) fill_after s)"

section \<open>What is appended to a fixed string\<close>

definition repeated :: "char \<Rightarrow> nat \<Rightarrow> string" where
  "repeated c k = (if c = NUL then [] else replicate k c)"

lemma push_times_holds:
  "k \<le> n - length tx \<Longrightarrow> push_times grow_fixed c k (holds n tx) = holds n (tx @ repeated c k)"
proof (induction k arbitrary: tx)
  case 0
  then show ?case by (simp add: repeated_def)
next
  case (Suc k)
  then have "k \<le> n - length (tx @ [c])" "length tx < n" by auto
  then show ?case using Suc.IH [of "tx @ [c]"] by (simp add: Let_def repeated_def)
qed

lemma holds_cut: "n - length tx \<le> k \<Longrightarrow> n - length tx \<le> j \<Longrightarrow> holds n (tx @ repeated c k) = holds n (tx @ repeated c j)"
  by (simp add: holds_def repeated_def min_def)

lemma AppendRepeated_holds [simp]: "AppendRepeated grow_fixed c k (holds n tx) = holds n (tx @ repeated c k)"
proof (cases "k \<le> n - length tx")
  case True
  then show ?thesis by (auto simp: AppendRepeated_def push_times_holds min_def)
next
  case False
  have "AppendRepeated grow_fixed c k (holds n tx) = push_times grow_fixed c (n - length tx) (holds n tx)"
    using False by (auto simp: AppendRepeated_def min_def)
  also have "\<dots> = holds n (tx @ repeated c (n - length tx))" by (rule push_times_holds) simp
  also have "\<dots> = holds n (tx @ repeated c k)" using False by (intro holds_cut) simp_all
  finally show ?thesis .
qed

definition no_NUL :: "string \<Rightarrow> bool" where
  "no_NUL s \<longleftrightarrow> NUL \<notin> set s"

lemma text_of_no_NUL [simp]: "no_NUL s \<Longrightarrow> text_of s = s"
  by (auto simp: no_NUL_def text_of_def takeWhile_eq_all_conv)

lemma push_all_holds: "push_all grow_fixed cs (holds n tx) = holds n (tx @ filter (\<lambda>c. c \<noteq> NUL) cs)"
  by (induction cs arbitrary: tx) (simp_all add: push_all_def)

lemma push_all_no_NUL [simp]: "no_NUL cs \<Longrightarrow> push_all grow_fixed cs (holds n tx) = holds n (tx @ cs)"
  by (subst push_all_holds, subst filter_True) (auto simp: no_NUL_def)

text \<open>The text of a number, and of the field it is in.\<close>

definition number_core :: "numeric_text \<Rightarrow> nat \<Rightarrow> string" where
  "number_core x zeros =
     (let i = (if fraction_start x > 0 then fraction_start x else length (digits x))
      in sign_part x @ prefix_part x @ replicate zeros CHR ''0'' @ take i (digits x) @ replicate (integer_zeros x) CHR ''0'' @
         drop i (digits x) @ replicate (trailing_zeros x) CHR ''0'')"

definition number_field :: "numeric_text \<Rightarrow> arg_format_options \<Rightarrow> string" where
  "number_field x f =
     (let (before, zeros, after) = number_fill x (length (number_core x 0)) f;
          c = (case fill f of Some c \<Rightarrow> if is_zero_fill f then CHR '' '' else c | None \<Rightarrow> CHR '' '')
      in repeated c before @ number_core x zeros @ repeated c after)"

definition number_ok_text :: "numeric_text \<Rightarrow> bool" where
  "number_ok_text x \<longleftrightarrow> no_NUL (sign_part x) \<and> no_NUL (prefix_part x) \<and> no_NUL (digits x) \<and>
     length (sign_part x) \<le> 2 \<and> length (prefix_part x) \<le> 3"

lemma strnlen_all: "no_NUL s \<Longrightarrow> length s \<le> n \<Longrightarrow> strnlen s n = length s"
proof -
  assume "no_NUL s" and "length s \<le> n"
  then have "takeWhile (\<lambda>c. c \<noteq> NUL) (take n s) = s" by (auto simp: no_NUL_def takeWhile_eq_all_conv)
  then show ?thesis by (simp add: strnlen_def)
qed

lemma repeated_zero [simp]: "repeated CHR ''0'' k = replicate k CHR ''0''"
  by (simp add: repeated_def)

lemma EmitNumber_holds:
  assumes "number_ok_text x"
  shows "EmitNumber grow_fixed x f (holds n tx) = holds n (tx @ number_field x f)"
proof -
  have len: "length (number_core x 0) = strnlen (sign_part x) 2 + strnlen (prefix_part x) 3 + length (digits x) + integer_zeros x + trailing_zeros x"
    using assms by (simp add: number_core_def number_ok_text_def strnlen_all Let_def)
  have parts: "no_NUL (take k (digits x))" "no_NUL (drop k (digits x))" for k
    using assms by (auto simp: number_ok_text_def no_NUL_def dest: in_set_takeD in_set_dropD)
  obtain a b c where abc: "number_fill x (length (number_core x 0)) f = (a, b, c)" by (metis prod_cases3)
  show ?thesis
    using assms abc unfolding len number_field_def EmitNumber_def Let_def
    by (simp add: number_ok_text_def parts number_core_def Let_def)
qed

definition string_field :: "string \<Rightarrow> nat \<Rightarrow> arg_format_options \<Rightarrow> string" where
  "string_field v n f =
     (let n = (case precision f of Some p \<Rightarrow> if p < n then p else n | None \<Rightarrow> n);
          (before, after) = string_fill n f
      in repeated (the (fill f)) before @ take n (text_of v) @ repeated (the (fill f)) after)"

lemma FormattedStringAppend_holds:
  "FormattedStringAppend grow_fixed v k f (holds n tx) = holds n (tx @ string_field v k f)"
  by (simp add: FormattedStringAppend_def string_field_def Let_def split: prod.split)

end
