(* ===== verification/Float_Text.thy ===== *)
theory Float_Text
  imports Number_Text "HOL-Library.Log_Nat"
begin

text \<open>
  Rendering a floating point number (\<^verbatim>\<open>FloatToString\<close> in \<^verbatim>\<open>src/format_formatters.cpp\<close>).  A
  \<^verbatim>\<open>double\<close> is its bit pattern, and its operations are those of IEEE 754: a finite magnitude is
  a significand below 2 to the 53 times a power of two, and an operation gives the double nearest
  to the exact result, the one with the even significand on a tie.  A \<^verbatim>\<open>float\<close> is converted to
  the \<^verbatim>\<open>double\<close> of the same value before anything else happens to it.
\<close>

section \<open>Doubles\<close>

definition signbit :: "u64 \<Rightarrow> bool" where
  "signbit b = bit b 63"

definition exponent_field :: "u64 \<Rightarrow> nat" where
  "exponent_field b = unat (drop_bit 52 b AND 0x7FF)"

definition fraction_field :: "u64 \<Rightarrow> nat" where
  "fraction_field b = unat (b AND (push_bit 52 1 - 1))"

definition is_nan :: "u64 \<Rightarrow> bool" where
  "is_nan b \<longleftrightarrow> exponent_field b = 2047 \<and> fraction_field b \<noteq> 0"

definition is_inf :: "u64 \<Rightarrow> bool" where
  "is_inf b \<longleftrightarrow> exponent_field b = 2047 \<and> fraction_field b = 0"

definition significand :: "u64 \<Rightarrow> nat" where
  "significand b = (if exponent_field b = 0 then fraction_field b else 2 ^ 52 + fraction_field b)"

text \<open>The magnitude is \<open>significand b * 2 ^ up b / 2 ^ down b\<close>, one of the two being zero.\<close>

definition up :: "u64 \<Rightarrow> nat" where
  "up b = exponent_field b - 1075"

definition down :: "u64 \<Rightarrow> nat" where
  "down b = 1075 - (if exponent_field b = 0 then 1 else exponent_field b)"

text \<open>The nearest integer to a quotient, the even one on a tie.\<close>

definition half_even :: "nat \<Rightarrow> nat \<Rightarrow> nat" where
  "half_even n d = (if 2 * (n mod d) > d \<or> (2 * (n mod d) = d \<and> odd (n div d)) then n div d + 1 else n div d)"

text \<open>
  The double nearest to a quotient of integers that is at least 2 to the 53, where doubles are
  integers: 53 bits are kept.
\<close>

definition nearest_double :: "nat \<Rightarrow> nat \<Rightarrow> nat" where
  "nearest_double n d = (let k = floorlog 2 (n div d) - 53 in half_even n (d * 2 ^ k) * 2 ^ k)"

section \<open>Rendering\<close>

definition pow10 :: "nat \<Rightarrow> nat" where
  "pow10 k = 10 ^ k"

text \<open>
  The significand and the negated exponent of the double that is exactly \<open>m / 2 ^ e\<close>, which is
  below one: the leading bit is moved up to bit 52, or as far as a subnormal number allows.
\<close>

function fraction_parts :: "nat \<Rightarrow> nat \<Rightarrow> nat \<times> nat" where
  "fraction_parts m e = (if m < 2 ^ 52 \<and> e < 1074 then fraction_parts (2 * m) (e + 1) else (m, e))"
  by pat_completeness auto

termination
  by (relation "measure (\<lambda>(m, e). 1074 - e)") auto

declare fraction_parts.simps [simp del]

text \<open>The decimals of the fraction, and whether what is left of it rounds up.\<close>

definition fraction_decimals :: "nat \<Rightarrow> nat \<Rightarrow> nat \<Rightarrow> nat \<Rightarrow> nat \<times> bool" where
  "fraction_decimals m e computed_digits units =
     (if e < 128
      then let product = (m * pow10 computed_digits) mod 2 ^ 128;
               one = 2 ^ e;
               remainder = product mod one;
               half = one div 2;
               decimals = (product div 2 ^ e) mod 2 ^ 64;
               last_digit = (if computed_digits > 0 then decimals else units)
           in (decimals, remainder > half \<or> (remainder = half \<and> odd last_digit))
      else (0, False))"

definition units_and_decimals :: "u64 \<Rightarrow> nat \<Rightarrow> nat \<times> nat" where
  "units_and_decimals b computed_digits =
     (let units = significand b * 2 ^ up b div 2 ^ down b;
          fraction = significand b * 2 ^ up b mod 2 ^ down b;
          (decimals, round_up) =
            (if fraction \<noteq> 0
             then (case fraction_parts fraction (down b) of (m, e) \<Rightarrow> fraction_decimals m e computed_digits units)
             else (0, False))
      in if round_up
         then if decimals + 1 = pow10 computed_digits then ((units + 1) mod 2 ^ 64, 0) else (units, decimals + 1)
         else (units, decimals))"

fun push_decimals :: "nat \<Rightarrow> nat \<Rightarrow> numeric_text \<Rightarrow> numeric_text" where
  "push_decimals 0 decimals x = x"
| "push_decimals (Suc i) decimals x = push_decimals i decimals (push_digit (char_of (48 + decimals div pow10 i mod 10)) x)"

definition small_number :: "u64 \<Rightarrow> nat \<Rightarrow> numeric_text \<Rightarrow> numeric_text" where
  "small_number b prec x =
     (let computed_digits = min prec 19;
          (units, decimals) = units_and_decimals b computed_digits;
          x = AppendDigits x units 10 LOWER_CASE_NUMERIC_CONVERSION_DIGITS
      in if prec > 0
         then let x = x\<lparr>fraction_start := length (digits x)\<rparr>;
                  x = push_digit CHR ''.'' x;
                  x = push_decimals computed_digits decimals x
              in x\<lparr>trailing_zeros := prec - computed_digits\<rparr>
         else x)"

text \<open>
  From 2 to the 64 on, the leading digits are computed in doubles, all of which are integers there.
  The power of ten the code scales by is at least one, and a quotient that passes the test at
  least one: the first two conditions only say so.  A quotient below 2 to the 53 fails the test
  whichever way it is rounded.
\<close>

lemma nearest_double_grows:
  assumes "0 < n"
  shows "n < nearest_double (n * 10) 1"
proof -
  define k where "k = floorlog 2 (n * 10) - 53"
  have le: "n * 10 div 2 ^ k \<le> half_even (n * 10) (2 ^ k)" by (simp add: half_even_def)
  have "n < n * 10 div 2 ^ k * 2 ^ k"
  proof (cases "k = 0")
    case True
    then show ?thesis using assms by simp
  next
    case False
    then have "2 ^ (53 + k - 1) \<le> n * 10" by (intro floorlog_geD) (simp_all add: k_def)
    moreover have "(2::nat) ^ (53 + k - 1) = 4503599627370496 * 2 ^ k" using power_add [of "2::nat" 52 k] by simp
    ultimately have "4503599627370496 * 2 ^ k \<le> n * 10" by linarith
    moreover have "n * 10 mod 2 ^ k < 2 ^ k" by simp
    ultimately show ?thesis using div_mult_mod_eq [of "n * 10" "2 ^ k"] assms by linarith
  qed
  also have "\<dots> \<le> half_even (n * 10) (2 ^ k) * 2 ^ k" using le by simp
  also have "\<dots> = nearest_double (n * 10) 1" by (simp add: nearest_double_def k_def Let_def)
  finally show ?thesis .
qed

function scale_loop :: "nat \<Rightarrow> nat \<Rightarrow> nat \<Rightarrow> nat" where
  "scale_loop magnitude pow exponent =
     (if 0 < pow \<and> pow \<le> magnitude \<and> nearest_double magnitude pow \<ge> 10 ^ 17
      then scale_loop magnitude (nearest_double (pow * 10) 1) (exponent + 1)
      else exponent)"
  by pat_completeness auto

termination
  by (relation "measure (\<lambda>(magnitude, pow, exponent). Suc magnitude - pow)")
    (auto dest: nearest_double_grows intro: diff_less_mono2)

declare scale_loop.simps [simp del]

text \<open>The powers of ten up to \<open>10 ^ 22\<close> are doubles, so a divisor is exact.\<close>

function divide_out :: "nat \<Rightarrow> nat \<Rightarrow> nat" where
  "divide_out scaled remaining =
     (if remaining > 0
      then let step = min remaining 22 in divide_out (nearest_double scaled (10 ^ step)) (remaining - step)
      else scaled)"
  by pat_completeness auto

termination
  by (relation "measure snd") auto

declare divide_out.simps [simp del]

definition large_number :: "u64 \<Rightarrow> nat \<Rightarrow> numeric_text \<Rightarrow> numeric_text" where
  "large_number b prec x =
     (let magnitude = significand b * 2 ^ up b;
          exponent = scale_loop magnitude 1 0;
          scaled = divide_out magnitude exponent;
          x = AppendDigits x (nearest_double (2 * scaled + 1) 2 mod 2 ^ 64) 10 LOWER_CASE_NUMERIC_CONVERSION_DIGITS;
          x = x\<lparr>integer_zeros := exponent\<rparr>
      in if prec > 0
         then let x = x\<lparr>fraction_start := length (digits x)\<rparr>;
                  x = push_digit CHR ''.'' x
              in x\<lparr>trailing_zeros := prec\<rparr>
         else x)"

definition FloatToString :: "grow_fn \<Rightarrow> u64 \<Rightarrow> arg_format_options \<Rightarrow> char_buffer \<Rightarrow> char_buffer" where
  "FloatToString grow b f s =
     (let x = empty_number\<lparr>sign_part := DetermineSign (signbit b) f\<rparr>
      in if is_nan b
         then EmitNumber grow (fold push_digit ''nan'' (x\<lparr>is_finite := False\<rparr>)) f s
         else if is_inf b
         then EmitNumber grow (fold push_digit ''inf'' (x\<lparr>is_finite := False\<rparr>)) f s
         else let prec = (case precision f of Some p \<Rightarrow> p | None \<Rightarrow> 0)
              in if significand b * 2 ^ up b < 2 ^ 64 * 2 ^ down b
                 then EmitNumber grow (small_number b prec x) f s
                 else EmitNumber grow (large_number b prec x) f s)"

end
