(* ===== verification/Format.thy ===== *)
theory Format
  imports Float_Text
begin

text \<open>
  Formatting: the argument wrappers (\<^verbatim>\<open>include/format_formatters\<close> and the end of
  \<^verbatim>\<open>src/format_formatters.cpp\<close>), the loop over the format string (\<^verbatim>\<open>src/format.cpp\<close>) and the
  entry point (\<^verbatim>\<open>include/format\<close>).  A format string is the list of its characters before the
  terminator.
\<close>

section \<open>Arguments\<close>

text \<open>The wrapped types.  A floating point number is a \<^verbatim>\<open>double\<close>'s bit pattern.\<close>

datatype fmt_value =
    Char_Value char
  | CString_Value string
  | String_Value string
  | Uint64 "u64" | Int64 "u64"
  | Uint32 "u32" | Int32 "u32"
  | Uint16 "u16" | Int16 "u16"
  | Uint8 "u8" | Int8 "u8"
  | Double_Value "u64"
  | Bool_Value bool
  | Pointer_Value "u64"

definition DEFAULT_INTEGER_FORMAT :: arg_format_options where
  "DEFAULT_INTEGER_FORMAT = empty_options\<lparr>fill := Some CHR '' '', alignment := Some Right, sign := Some Minus, integer_base := Some 10\<rparr>"

definition DEFAULT_FLOATING_POINT_FORMAT :: arg_format_options where
  "DEFAULT_FLOATING_POINT_FORMAT = empty_options\<lparr>precision := Some 4, fill := Some CHR '' '', alignment := Some Right,
     sign := Some Minus, integer_base := Some 10\<rparr>"

definition DEFAULT_STRING_FORMAT :: arg_format_options where
  "DEFAULT_STRING_FORMAT = empty_options\<lparr>fill := Some CHR '' '', alignment := Some Left\<rparr>"

definition DEFAULT_POINTER_FORMAT :: arg_format_options where
  "DEFAULT_POINTER_FORMAT = empty_options\<lparr>width := Some 18, fill := Some CHR '' '', alignment := Some Left, alt := Some True,
     zero_fill := Some True, type_specifier := Some CHR ''X'', integer_base := Some 16\<rparr>"

fun default_format :: "fmt_value \<Rightarrow> arg_format_options" where
  "default_format (Char_Value _) = DEFAULT_STRING_FORMAT"
| "default_format (CString_Value _) = DEFAULT_STRING_FORMAT"
| "default_format (String_Value _) = DEFAULT_STRING_FORMAT"
| "default_format (Double_Value _) = DEFAULT_FLOATING_POINT_FORMAT"
| "default_format (Bool_Value _) = DEFAULT_STRING_FORMAT"
| "default_format (Pointer_Value _) = DEFAULT_POINTER_FORMAT"
| "default_format _ = DEFAULT_INTEGER_FORMAT"

fun AppendInternal :: "grow_fn \<Rightarrow> fmt_value \<Rightarrow> arg_format_options \<Rightarrow> char_buffer \<Rightarrow> char_buffer" where
  "AppendInternal grow (Char_Value c) f = FormattedStringAppend grow [c] 1 f"
| "AppendInternal grow (CString_Value v) f = FormattedStringAppend grow v (strnlen v SIZE_MAX) f"
| "AppendInternal grow (String_Value v) f = FormattedStringAppend grow v (length v) f"
| "AppendInternal grow (Uint64 v) f = UnsignedIntToString grow v f"
| "AppendInternal grow (Int64 v) f = SignedIntToString grow v f"
| "AppendInternal grow (Uint32 v) f = UnsignedIntToString grow v f"
| "AppendInternal grow (Int32 v) f = SignedIntToString grow v f"
| "AppendInternal grow (Uint16 v) f = UnsignedIntToString grow v f"
| "AppendInternal grow (Int16 v) f = SignedIntToString grow v f"
| "AppendInternal grow (Uint8 v) f = UnsignedIntToString grow v f"
| "AppendInternal grow (Int8 v) f = SignedIntToString grow v f"
| "AppendInternal grow (Double_Value b) f = FloatToString grow b f"
| "AppendInternal grow (Bool_Value b) f =
     (if b then FormattedStringAppend grow ''true'' 4 f else FormattedStringAppend grow ''false'' 5 f)"
| "AppendInternal grow (Pointer_Value v) f = UnsignedIntToString grow v f"

definition invalid_format :: "grow_fn \<Rightarrow> string \<Rightarrow> char_buffer \<Rightarrow> char_buffer" where
  "invalid_format grow argument_format s =
     append_cstr grow [CHR 0x27, CHR ''}''] (append_cstr grow argument_format (append_cstr grow (''{Invalid format string: '' @ [CHR 0x27]) s))"

definition Append :: "grow_fn \<Rightarrow> fmt_value \<Rightarrow> string \<Rightarrow> char_buffer \<Rightarrow> char_buffer" where
  "Append grow v argument_format s =
     (case ParseArgFormatString argument_format of
        Some f \<Rightarrow> AppendInternal grow v (merge_defaults (default_format v) f) s
      | None \<Rightarrow> invalid_format grow argument_format s)"

section \<open>The format string\<close>

type_synonym fmt_arg = "string \<Rightarrow> char_buffer \<Rightarrow> char_buffer"

fun push_literal :: "grow_fn \<Rightarrow> string \<Rightarrow> char_buffer \<Rightarrow> char_buffer" where
  "push_literal grow [] s = s"
| "push_literal grow [c] s = snd (push_back grow c s)"
| "push_literal grow (c # d # cs) s =
     (let s = snd (push_back grow c s)
      in if c = CHR ''}'' \<and> d = CHR ''}'' then push_literal grow cs s else push_literal grow (d # cs) s)"

definition insert_argument :: "grow_fn \<Rightarrow> fmt_arg list \<Rightarrow> string \<Rightarrow> nat \<Rightarrow> char_buffer \<Rightarrow> nat \<times> char_buffer" where
  "insert_argument grow args argument_format format_placeholder_index s =
     (case ParseArgId argument_format of
        (False, _) \<Rightarrow> (format_placeholder_index, invalid_format grow argument_format s)
      | (True, arg_position) \<Rightarrow>
          let (position, next_index) =
                (case arg_position of
                   Some p \<Rightarrow> (p, format_placeholder_index)
                 | None \<Rightarrow> (format_placeholder_index mod 4294967296, format_placeholder_index + 1))
          in if position < length args then (next_index, (args ! position) argument_format s)
             else (next_index, append_cstr grow ''{Argument position out of range}'' s))"

function build_loop :: "grow_fn \<Rightarrow> string \<Rightarrow> fmt_arg list \<Rightarrow> nat \<Rightarrow> nat \<Rightarrow> char_buffer \<Rightarrow> char_buffer" where
  "build_loop grow fmt args format_placeholder_index i s =
     (if char_at fmt i = NUL then s
      else let opening_brace = strcspn (drop i fmt) ''{'';
               s = push_literal grow (take opening_brace (drop i fmt)) s;
               i = i + opening_brace + 1
           in if i < length fmt \<and> char_at fmt i = CHR ''{''
              then build_loop grow fmt args format_placeholder_index (i + 1) (snd (push_back grow CHR ''{'' s))
              else if i \<ge> length fmt then s
              else let closing_brace = strcspn (drop i fmt) ''}''
                   in if i + closing_brace \<ge> length fmt then s
                      else let argument_format = chars (append_n grow_fixed (drop i fmt) closing_brace (fixed_string 32));
                               (next_index, s) = insert_argument grow args argument_format format_placeholder_index s
                           in build_loop grow fmt args next_index (i + closing_brace + 1) s)"
  by pat_completeness auto

termination
  by (relation "measure (\<lambda>(grow, fmt, args, index, i, s). length fmt - i)") (auto simp: char_at_def split: if_splits)

declare build_loop.simps [simp del]

definition BuildFormatOutput :: "grow_fn \<Rightarrow> string \<Rightarrow> fmt_arg list \<Rightarrow> char_buffer \<Rightarrow> char_buffer" where
  "BuildFormatOutput grow fmt args s = build_loop grow fmt args 0 0 s"

definition format :: "grow_fn \<Rightarrow> string \<Rightarrow> fmt_value list \<Rightarrow> char_buffer \<Rightarrow> char_buffer" where
  "format grow fmt values s = BuildFormatOutput grow fmt (map (Append grow) values) (clear s)"

end
