(* ===== verification/Format_Results.thy ===== *)
theory Format_Results
  imports Format
begin

text \<open>
  What formatting produces.  The first part shows that a fixed string receives the beginning of a
  text that depends on the format string and the arguments alone; the second that an integer read
  back is the integer that was printed; the third that the decimals of a floating point number are
  those of its exact value, correctly rounded.
\<close>

section \<open>Digits\<close>

lemma fold_push_digit:
  "fold (\<lambda>k. push_digit (tab k)) ks x = x\<lparr>digits := digits x @ take (CAPACITY - length (digits x)) (map tab ks)\<rparr>"
proof (induction ks arbitrary: x)
  case Nil
  then show ?case by simp
next
  case (Cons k ks)
  then show ?case
  proof (cases "CAPACITY - length (digits x)")
    case (Suc m)
    then have "CAPACITY - Suc (length (digits x)) = m" "length (digits x) < CAPACITY" by simp_all
    then show ?thesis using Suc Cons by (simp add: push_digit_def)
  qed (simp add: push_digit_def Cons)
qed

lemma reversed_digits_simps:
  "v div base \<noteq> 0 \<Longrightarrow> 2 \<le> base \<Longrightarrow> reversed_digits base v = v mod base # reversed_digits base (v div base)"
  "v div base = 0 \<Longrightarrow> reversed_digits base v = [v mod base]"
  by (simp_all add: reversed_digits.simps [of base v])

definition digit_text :: "string \<Rightarrow> nat \<Rightarrow> nat \<Rightarrow> string" where
  "digit_text tab base v = map (\<lambda>k. tab ! k) (rev (reversed_digits base v))"

lemma reversed_digits_bound: "2 \<le> base \<Longrightarrow> v < 2 ^ k \<Longrightarrow> 1 \<le> k \<Longrightarrow> length (reversed_digits base v) \<le> k"
proof (induction base v arbitrary: k rule: reversed_digits.induct)
  case (1 base v)
  show ?case
  proof (cases "v div base = 0")
    case True
    then show ?thesis using 1(4) by (simp add: reversed_digits.simps [of base v])
  next
    case False
    have half: "v div base \<le> v div 2" using 1(2) by (simp add: div_le_mono2)
    moreover have "2 \<le> k"
    proof (rule ccontr)
      assume "\<not> 2 \<le> k"
      then have "k = 1" using 1(4) by simp
      then have "v div 2 = 0" using 1(3) by simp
      then show False using half False by simp
    qed
    then have "v div 2 < 2 ^ (k - 1)" using 1(3) by (cases k) auto
    ultimately have "length (reversed_digits base (v div base)) \<le> k - 1" using 1(1) [of "k - 1"] 1(2) False \<open>2 \<le> k\<close> by simp
    then show ?thesis using False 1(2) \<open>2 \<le> k\<close> by (simp add: reversed_digits.simps [of base v])
  qed
qed

lemma reversed_digits_less: "2 \<le> base \<Longrightarrow> k \<in> set (reversed_digits base v) \<Longrightarrow> k < base"
proof (induction base v rule: reversed_digits.induct)
  case (1 base v)
  have m: "v mod base < base" using 1(2) by simp
  show ?case
  proof (cases "v div base = 0")
    case True
    then show ?thesis using 1(3) m unfolding reversed_digits_simps(2) [OF True] by simp
  next
    case False
    then show ?thesis using 1 m unfolding reversed_digits_simps(1) [OF False 1(2)] by auto
  qed
qed

lemma digit_text_append: "v div base \<noteq> 0 \<Longrightarrow> 2 \<le> base \<Longrightarrow> digit_text tab base v = digit_text tab base (v div base) @ [tab ! (v mod base)]"
  by (simp add: digit_text_def reversed_digits.simps [of base v])

lemma AppendDigits_text:
  assumes "2 \<le> base" and "v < 2 ^ 64" and "length (digits x) \<le> 16"
  shows "AppendDigits x v base tab = x\<lparr>digits := digits x @ digit_text tab base v\<rparr>"
proof -
  have "length (reversed_digits base v) \<le> 64" using reversed_digits_bound [OF assms(1,2)] by simp
  then show ?thesis using assms(3)
    unfolding AppendDigits_def fold_push_digit digit_text_def by (simp add: CAPACITY_def)
qed

section \<open>Conversion tables\<close>

definition digit_table :: "string \<Rightarrow> bool" where
  "digit_table tab \<longleftrightarrow> tab = LOWER_CASE_NUMERIC_CONVERSION_DIGITS \<or> tab = UPPER_CASE_NUMERIC_CONVERSION_DIGITS"

lemma table_digits:
  "list_all (\<lambda>k. digit_value (LOWER_CASE_NUMERIC_CONVERSION_DIGITS ! k) 36 = int k) [0..<36]"
  "list_all (\<lambda>k. digit_value (UPPER_CASE_NUMERIC_CONVERSION_DIGITS ! k) 36 = int k) [0..<36]"
  by code_simp+

lemma table_digit:
  assumes "digit_table tab" and "k < base" and "base \<le> 36"
  shows "digit_value (tab ! k) (int base) = int k"
proof -
  have d: "digit_value (tab ! k) 36 = int k"
    using table_digits assms unfolding digit_table_def by (auto simp: list_all_iff)
  have "digit_value c (int base) = d" if "digit_value c 36 = d" "0 \<le> d" "d < int base" for c d
    using that by (auto simp: digit_value_def Let_def split: if_splits)
  then show ?thesis using d assms(2) by simp
qed

lemma NUL_no_digit: "digit_value NUL base = - 1"
  by (simp add: digit_value_def)

lemma digit_text_digits:
  assumes "digit_table tab" and "2 \<le> base" and "base \<le> 36"
  shows "list_all (is_digit_in (int base)) (digit_text tab base v)" and "digits_value (int base) 0 (digit_text tab base v) = v"
    and "digit_text tab base v \<noteq> []" and "no_NUL (digit_text tab base v)"
proof -
  have dig: "digit_value (tab ! k) (int base) = int k" if "k \<in> set (reversed_digits base v)" for k v
    using table_digit [OF assms(1) _ assms(3)] reversed_digits_less [OF assms(2) that] by blast
  show all: "list_all (is_digit_in (int base)) (digit_text tab base v)"
    using dig by (auto simp: digit_text_def list_all_iff is_digit_in_code)
  show "digit_text tab base v \<noteq> []" by (simp add: digit_text_def reversed_digits.simps [of base v])
  show "no_NUL (digit_text tab base v)" using all by (auto simp: no_NUL_def list_all_iff is_digit_in_code NUL_no_digit)
  show "digits_value (int base) 0 (digit_text tab base v) = v" using assms(2) dig
  proof (induction base v rule: reversed_digits.induct)
    case (1 base v)
    show ?case
    proof (cases "v div base = 0")
      case True
      then have "v mod base = v" using 1(2) by (simp add: div_eq_0_iff)
      then show ?thesis using 1(3) [of "v mod base" v] True by (simp add: digit_text_def reversed_digits_simps(2))
    next
      case False
      have "digits_value (int base) 0 (digit_text tab base (v div base)) = v div base"
        using 1 False by blast
      moreover have "digit_value (tab ! (v mod base)) (int base) = int (v mod base)"
        using 1(2,3) False by (intro 1(3) [of _ v]) (simp add: reversed_digits_simps(1))
      ultimately show ?thesis using False 1(2) by (simp add: digit_text_append)
    qed
  qed
qed

section \<open>The room only cuts the text\<close>

text \<open>An operation that appends a text of its own to every fixed string, whatever the string holds.\<close>

definition appends :: "(char_buffer \<Rightarrow> char_buffer) \<Rightarrow> bool" where
  "appends op \<longleftrightarrow> (\<exists>t. \<forall>n tx. op (holds n tx) = holds n (tx @ t))"

named_theorems appends_intros "operations that append a text of their own"

lemma appendsI: "(\<And>n tx. op (holds n tx) = holds n (tx @ t)) \<Longrightarrow> appends op"
  by (auto simp: appends_def)

lemma appends_id [appends_intros]: "appends (\<lambda>s. s)"
  by (rule appendsI [where t = "[]"]) simp

lemma appends_comp:
  assumes "appends f" and "appends g"
  shows "appends (\<lambda>s. g (f s))"
proof -
  obtain t u where t: "\<And>n tx. f (holds n tx) = holds n (tx @ t)" and u: "\<And>n tx. g (holds n tx) = holds n (tx @ u)"
    using assms by (auto simp: appends_def)
  show ?thesis by (rule appendsI [where t = "t @ u"]) (simp add: t u)
qed

lemma appends_if: "appends f \<Longrightarrow> appends g \<Longrightarrow> appends (\<lambda>s. if b then f s else g s)"
  by (cases b) simp_all

lemma appends_cong: "appends g \<Longrightarrow> (\<And>s. f s = g s) \<Longrightarrow> appends f"
  by (simp add: appends_def)

lemma appends_cstr [appends_intros]: "appends (append_cstr grow_fixed v)"
  by (rule appendsI [where t = "text_of v"]) simp

lemma appends_push [appends_intros]: "appends (\<lambda>s. snd (push_back grow_fixed c s))"
  by (rule appendsI [where t = "if c = NUL then [] else [c]"]) simp

lemma appends_number [appends_intros]: "number_ok_text x \<Longrightarrow> appends (EmitNumber grow_fixed x f)"
  by (rule appendsI [where t = "number_field x f"]) (rule EmitNumber_holds)

lemma appends_string [appends_intros]: "appends (FormattedStringAppend grow_fixed v k f)"
  by (rule appendsI [where t = "string_field v k f"]) (rule FormattedStringAppend_holds)

lemma push_digit_ok: "number_ok_text x \<Longrightarrow> c \<noteq> NUL \<Longrightarrow> number_ok_text (push_digit c x)"
  by (auto simp: number_ok_text_def push_digit_def no_NUL_def)

lemma AppendDigits_ok:
  assumes "number_ok_text x" and "digit_table tab" and "2 \<le> base" and "base \<le> 36"
  shows "number_ok_text (AppendDigits x v base tab)"
proof -
  have c: "tab ! k \<noteq> NUL" if "k \<in> set (rev (reversed_digits base v))" for k
    using table_digit [OF assms(2) _ assms(4)] reversed_digits_less [OF assms(3)] that NUL_no_digit by fastforce
  have "number_ok_text (fold (\<lambda>k. push_digit (tab ! k)) ks x)" if "\<And>k. k \<in> set ks \<Longrightarrow> tab ! k \<noteq> NUL" for ks
    using assms(1) that by (induction ks arbitrary: x) (simp_all add: push_digit_ok)
  then show ?thesis using c unfolding AppendDigits_def by blast
qed

lemma sign_prefix_cases:
  "DetermineSign neg f = [] \<or> DetermineSign neg f = ''-'' \<or> DetermineSign neg f = ''+'' \<or> DetermineSign neg f = '' ''"
  "IntegerPrefix f z = [] \<or> IntegerPrefix f z = ''0b'' \<or> IntegerPrefix f z = ''0B'' \<or> IntegerPrefix f z = ''0'' \<or>
    IntegerPrefix f z = ''0x'' \<or> IntegerPrefix f z = ''0X''"
   apply (cases "sign f"; cases "the (sign f)"; simp add: DetermineSign_def)
  by (cases "type_specifier f"; simp add: IntegerPrefix_def)

lemma sign_prefix_text:
  "no_NUL (DetermineSign neg f)" "length (DetermineSign neg f) \<le> 2" "no_NUL (IntegerPrefix f z)" "length (IntegerPrefix f z) \<le> 3"
  using sign_prefix_cases(1) [of neg f] sign_prefix_cases(2) [of f z] by (elim disjE; simp add: no_NUL_def)+

lemma sign_prefix_ok:
  "number_ok_text (empty_number\<lparr>sign_part := DetermineSign neg f\<rparr>)"
  "number_ok_text (empty_number\<lparr>sign_part := DetermineSign neg f, prefix_part := IntegerPrefix f z\<rparr>)"
  by (simp_all add: number_ok_text_def empty_number_def sign_prefix_text) (simp_all add: no_NUL_def)

lemma appends_integer [appends_intros]: "appends (UnsignedMagnitudeToString grow_fixed v neg f)"
proof (cases "integer_base f")
  case None
  then show ?thesis unfolding UnsignedMagnitudeToString_def by (simp add: appends_intros)
next
  case (Some base)
  show ?thesis
  proof (cases "base < 2 \<or> base > 36")
    case True
    then show ?thesis unfolding UnsignedMagnitudeToString_def by (simp add: appends_intros Some)
  next
    case False
    have "appends (EmitNumber grow_fixed (AppendDigits (empty_number\<lparr>sign_part := DetermineSign neg f, prefix_part := IntegerPrefix f z\<rparr>)
        v base tab) f)" if "digit_table tab" for tab z
      using False by (intro appends_number AppendDigits_ok sign_prefix_ok that) simp_all
    then show ?thesis using Some False unfolding UnsignedMagnitudeToString_def by (simp add: digit_table_def Let_def)
  qed
qed

lemma push_decimals_ok: "number_ok_text x \<Longrightarrow> number_ok_text (push_decimals i d x)"
proof (induction i d x rule: push_decimals.induct)
  case (2 i d x)
  have "char_of (48 + d div pow10 i mod 10) \<noteq> NUL"
    using digit_char [of "d div pow10 i mod 10"] NUL_not_digit by (metis mod_less_divisor zero_less_numeral)
  then show ?case using 2 push_digit_ok by simp
qed simp

lemma set_counts_ok [simp]:
  "number_ok_text (x\<lparr>fraction_start := i\<rparr>) = number_ok_text x" "number_ok_text (x\<lparr>integer_zeros := i\<rparr>) = number_ok_text x"
  "number_ok_text (x\<lparr>trailing_zeros := i\<rparr>) = number_ok_text x" "number_ok_text (x\<lparr>is_finite := b\<rparr>) = number_ok_text x"
  by (simp_all add: number_ok_text_def)

lemma float_numbers_ok:
  assumes "number_ok_text x"
  shows "number_ok_text (small_number b prec x)" and "number_ok_text (large_number b prec x)"
    and "no_NUL w \<Longrightarrow> number_ok_text (fold push_digit w x)"
proof -
  have ten: "number_ok_text (AppendDigits x v 10 LOWER_CASE_NUMERIC_CONVERSION_DIGITS)" for v
    using assms by (intro AppendDigits_ok) (simp_all add: digit_table_def)
  show "number_ok_text (small_number b prec x)"
    using ten by (simp add: small_number_def Let_def push_decimals_ok push_digit_ok split: prod.split)
  show "number_ok_text (large_number b prec x)"
    using ten by (simp add: large_number_def Let_def push_digit_ok)
  show "number_ok_text (fold push_digit w x)" if "no_NUL w"
    using assms that by (induction w arbitrary: x) (auto simp: no_NUL_def push_digit_ok)
qed

lemma appends_float [appends_intros]: "appends (FloatToString grow_fixed b f)"
proof -
  have w: "no_NUL ''nan''" "no_NUL ''inf''" by (simp_all add: no_NUL_def)
  have x: "number_ok_text (empty_number\<lparr>sign_part := DetermineSign neg f, is_finite := False\<rparr>)" for neg
    using sign_prefix_ok(1) [of neg f] by (simp add: number_ok_text_def)
  show ?thesis unfolding FloatToString_def Let_def
    by (intro appends_if appends_number float_numbers_ok sign_prefix_ok x w)
qed

lemma appends_internal [appends_intros]: "appends (AppendInternal grow_fixed v f)"
proof -
  have u: "appends (UnsignedIntToString grow_fixed w f)" for w :: "'a::len word"
    unfolding UnsignedIntToString_def by (rule appends_integer)
  have s: "appends (SignedIntToString grow_fixed w f)" for w :: "'a::len word"
    unfolding SignedIntToString_def by (intro appends_if appends_integer)
  show ?thesis by (cases v) (simp_all add: u s appends_string appends_float)
qed

lemma appends_invalid [appends_intros]: "appends (invalid_format grow_fixed spec)"
  unfolding invalid_format_def by (rule appends_comp [OF appends_comp [OF appends_cstr appends_cstr] appends_cstr])

lemma appends_value [appends_intros]: "appends (Append grow_fixed v spec)"
  unfolding Append_def by (cases "ParseArgFormatString spec") (simp_all add: appends_internal appends_invalid)

lemma appends_literal [appends_intros]: "appends (push_literal grow_fixed cs)"
proof (induction cs rule: induct_list012)
  case 1
  show ?case by (rule appends_cong [OF appends_id]) simp
next
  case (2 c)
  show ?case by (rule appends_cong [OF appends_push [of c]]) simp
next
  case (3 c d cs)
  have "appends (\<lambda>s. (if c = CHR ''}'' \<and> d = CHR ''}'' then push_literal grow_fixed cs else push_literal grow_fixed (d # cs))
      (snd (push_back grow_fixed c s)))"
    using 3 by (intro appends_comp [OF appends_push]) simp
  then show ?case by (rule appends_cong) (simp add: Let_def)
qed

lemma appends_insert:
  assumes "\<And>a spec. a \<in> set args \<Longrightarrow> appends (a spec)"
  shows "\<exists>k op. appends op \<and> (\<forall>s. insert_argument grow_fixed args spec index s = (k, op s))"
proof -
  obtain ok arg where id: "ParseArgId spec = (ok, arg)" by (cases "ParseArgId spec")
  define pos where "pos = (case arg of Some p \<Rightarrow> (p, index) | None \<Rightarrow> (index mod 4294967296, index + 1))"
  have eq: "insert_argument grow_fixed args spec index s =
      (if ok then (snd pos, if fst pos < length args then (args ! fst pos) spec s
         else append_cstr grow_fixed ''{Argument position out of range}'' s)
       else (index, invalid_format grow_fixed spec s))" for s
    by (cases arg) (simp_all add: insert_argument_def id pos_def)
  show ?thesis
  proof (cases ok)
    case True
    have "appends (\<lambda>s. if fst pos < length args then (args ! fst pos) spec s
         else append_cstr grow_fixed ''{Argument position out of range}'' s)"
    proof (cases "fst pos < length args")
      case True
      then have "appends ((args ! fst pos) spec)" by (intro assms) simp
      then show ?thesis using True by simp
    qed (simp add: appends_cstr)
    then show ?thesis using True by (intro exI [of _ "snd pos"] exI conjI) (assumption, simp add: eq)
  next
    case False
    then show ?thesis using appends_invalid [of spec] by (intro exI [of _ index] exI conjI) (assumption, simp add: eq)
  qed
qed

lemma appends_loop:
  assumes "\<And>a spec. a \<in> set args \<Longrightarrow> appends (a spec)"
  shows "appends (build_loop grow_fixed fmt args index i)"
proof (induction "length fmt - i" arbitrary: index i rule: less_induct)
  case less
  show ?case
  proof (cases "char_at fmt i = NUL")
    case True
    show ?thesis by (rule appends_cong [OF appends_id]) (simp add: build_loop.simps True)
  next
    case False
    then have i: "i < length fmt" by (auto simp: char_at_def split: if_splits)
    define j where "j = i + strcspn (drop i fmt) ''{'' + 1"
    define lit where "lit = push_literal grow_fixed (take (strcspn (drop i fmt) ''{'') (drop i fmt))"
    define k where "k = strcspn (drop j fmt) ''}''"
    define spec where "spec = chars (append_n grow_fixed (drop j fmt) k (fixed_string 32))"
    have lit: "appends lit" unfolding lit_def by (rule appends_literal)
    have step: "build_loop grow_fixed fmt args index i s =
        (if j < length fmt \<and> char_at fmt j = CHR ''{''
         then build_loop grow_fixed fmt args index (j + 1) (snd (push_back grow_fixed CHR ''{'' (lit s)))
         else if j \<ge> length fmt then lit s
         else if j + k \<ge> length fmt then lit s
         else case insert_argument grow_fixed args spec index (lit s) of
             (next_index, s) \<Rightarrow> build_loop grow_fixed fmt args next_index (j + k + 1) s)" for s
      unfolding j_def lit_def k_def spec_def
      by (subst build_loop.simps) (simp only: Let_def False if_False)
    consider (brace) "j < length fmt" "char_at fmt j = CHR ''{''" | (stop) "j \<ge> length fmt \<or> j + k \<ge> length fmt" "\<not> (j < length fmt \<and> char_at fmt j = CHR ''{'')"
      | (arg) "j + k < length fmt" "char_at fmt j \<noteq> CHR ''{''" by linarith
    then show ?thesis
    proof cases
      case brace
      have "appends (build_loop grow_fixed fmt args index (j + 1))" using i by (intro less) (simp add: j_def)
      from appends_comp [OF appends_comp [OF lit appends_push] this] show ?thesis
        by (rule appends_cong) (simp add: step brace)
    next
      case stop
      then show ?thesis by (intro appends_cong [OF lit]) (auto simp: step)
    next
      case arg
      obtain m op where op: "appends op" "\<And>s. insert_argument grow_fixed args spec index s = (m, op s)"
        using appends_insert [where args = args and spec = spec and index = index] assms by blast
      have "appends (build_loop grow_fixed fmt args m (j + k + 1))" using i by (intro less) (simp add: j_def)
      from appends_comp [OF appends_comp [OF lit op(1)] this] show ?thesis
        by (rule appends_cong) (use arg in \<open>simp add: step op(2)\<close>)
    qed
  qed
qed

lemma format_cuts: "\<exists>t. \<forall>n. chars (format grow_fixed fmt vals (fixed_string n)) = take n t"
proof -
  have "appends (build_loop grow_fixed fmt (map (Append grow_fixed) vals) 0 0)"
    by (rule appends_loop) (auto intro: appends_value)
  then show ?thesis by (auto simp: appends_def format_def BuildFormatOutput_def fixed_string_holds)
qed

section \<open>One placeholder\<close>

lemma strcspn_stop: "c \<notin> set xs \<Longrightarrow> strcspn (xs @ c # ys) [c] = length xs"
  by (induction xs) (auto simp: strcspn_def)

lemma strcspn_none: "c \<notin> set xs \<Longrightarrow> strcspn xs [c] = length xs"
  by (induction xs) (auto simp: strcspn_def)

lemma one_placeholder:
  assumes "CHR ''{'' \<notin> set spec" and "CHR ''}'' \<notin> set spec" and "no_NUL spec" and "length spec \<le> 31"
    and spec: "spec = [] \<or> hd spec = CHR '':''"
  shows "format grow_fixed (CHR ''{'' # spec @ ''}'') [v] (fixed_string n) = Append grow_fixed v spec (holds n [])"
proof -
  let ?fmt = "CHR ''{'' # spec @ ''}''"
  have id: "ParseArgId spec = (True, None)"
    using spec by (cases spec) (simp_all add: ParseArgId_def find_char_first)
  have close: "strcspn (spec @ ''}'') ''}'' = length spec" using strcspn_stop [OF assms(2), of "[]"] by simp
  have cut: "chars (append_n grow_fixed (spec @ ''}'') (length spec) (fixed_string 32)) = spec"
  proof -
    have "text_of (spec @ ''}'') = spec @ ''}''" using assms(3) by (intro text_of_no_NUL) (simp add: no_NUL_def)
    then show ?thesis using assms(4) by (simp add: fixed_string_holds)
  qed
  have c1: "char_at (spec @ ''}'') 0 \<noteq> CHR ''{''" using assms(1) by (cases spec) auto
  have stop: "build_loop grow_fixed ?fmt args k (Suc (Suc (length spec))) s = s" for args k s
    by (subst build_loop.simps) (simp add: char_at_def)
  have o: "strcspn ?fmt ''{'' = 0" by (simp add: strcspn_def)
  have "build_loop grow_fixed ?fmt [Append grow_fixed v] 0 0 s = Append grow_fixed v spec s" for s
    using c1 by (subst build_loop.simps) (simp add: o close cut id insert_argument_def stop Let_def)
  then show ?thesis by (simp add: format_def BuildFormatOutput_def fixed_string_holds)
qed

section \<open>Reading an integer back\<close>

lemma digit_run_all: "list_all (is_digit_in base) ds \<Longrightarrow> digit_run base ds = ds"
  by (simp add: digit_run_def list_all_iff takeWhile_eq_all_conv)

lemma signed_magnitude:
  fixes v :: "'a::len word"
  shows "v <s 0 \<Longrightarrow> int (unat (- v)) = - sint v" and "\<not> v <s 0 \<Longrightarrow> int (unat v) = sint v"
proof -
  have pw: "(2::int) ^ LENGTH('a) = 2 * 2 ^ (LENGTH('a) - 1)" by (simp add: power_eq_if)
  have r: "- (2 ^ (LENGTH('a) - 1)) \<le> sint v" "sint v < 2 ^ (LENGTH('a) - 1)"
    using sint_ge [of v] sint_lt [of v] by simp_all
  have z: "v <s 0 \<longleftrightarrow> sint v < 0" by (simp add: word_sless_alt)
  show "int (unat (- v)) = - sint v" if "v <s 0"
  proof -
    have "- v = word_of_int (- sint v)" by simp
    then have "uint (- v) = - sint v mod 2 ^ LENGTH('a)" by (simp only: uint_word_of_int)
    also have "\<dots> = - sint v" using that z r pw by (intro mod_pos_pos_trivial) linarith+
    finally show ?thesis by simp
  qed
  show "int (unat v) = sint v" if "\<not> v <s 0"
  proof -
    have "v = word_of_int (sint v)" by simp
    then have "uint v = sint v mod 2 ^ LENGTH('a)" by (metis uint_word_of_int)
    also have "\<dots> = sint v" using that z r pw by (intro mod_pos_pos_trivial) linarith+
    finally show ?thesis by simp
  qed
qed

lemma unsigned_read_back:
  fixes v :: "'a::len word"
  assumes "digit_table tab" "2 \<le> base" "base \<le> 36" and len: "8 \<le> LENGTH('a)"
  shows "from_chars_unsigned (digit_text tab base (unat v)) given (int base) =
    \<lparr>ptr = length (digit_text tab base (unat v)), ec = success, out = v\<rparr>"
proof -
  note D = digit_text_digits [OF assms(1-3), of "unat v"]
  have "unat v < 2 ^ LENGTH('a)" by (rule unsigned_less)
  then show ?thesis using assms(2,3) D(3) by (subst unsigned_result [OF _ _ len]) (simp_all add: digit_run_all [OF D(1)] D(2))
qed

lemma minus_no_digit: "digit_value CHR ''-'' base = - 1"
  by (simp add: digit_value_def)

definition signed_digits :: "string \<Rightarrow> nat \<Rightarrow> 'a::len word \<Rightarrow> string" where
  "signed_digits tab base v =
     (if v <s 0 then CHR ''-'' # digit_text tab base (unat (- v)) else digit_text tab base (unat v))"

lemma signed_read_back:
  fixes v :: "'a::len word"
  assumes "digit_table tab" "2 \<le> base" "base \<le> 36" and len: "8 \<le> LENGTH('a)"
  shows "from_chars_signed (signed_digits tab base v) given (int base) =
    \<lparr>ptr = length (signed_digits tab base v), ec = success, out = v\<rparr>"
proof (cases "v <s 0")
  case True
  note D = digit_text_digits [OF assms(1-3), of "unat (- v)"]
  have "int (unat (- v)) \<le> 2 ^ (LENGTH('a) - 1)" using signed_magnitude(1) [OF True] sint_ge [of v] by simp
  then have "unat (- v) < 2 ^ (LENGTH('a) - 1) + 1" by (metis less_Suc_eq_le of_nat_le_iff of_nat_numeral of_nat_power Suc_eq_plus1)
  then show ?thesis using assms(2,3) D(3) True
    by (subst signed_result [OF _ _ len]) (simp_all add: signed_digits_def digit_run_all [OF D(1)] D(2))
next
  case False
  note D = digit_text_digits [OF assms(1-3), of "unat v"]
  have "int (unat v) < 2 ^ (LENGTH('a) - 1)" using signed_magnitude(2) [OF False] sint_lt [of v] by simp
  then have "unat v < 2 ^ (LENGTH('a) - 1)" by (metis of_nat_less_iff of_nat_numeral of_nat_power)
  moreover have "hd (digit_text tab base (unat v)) \<noteq> CHR ''-''"
    using D(1,3) by (cases "digit_text tab base (unat v)") (auto simp: is_digit_in_code minus_no_digit)
  ultimately show ?thesis using assms(2,3) D(3) False
    by (subst signed_result [OF _ _ len]) (simp_all add: signed_digits_def digit_run_all [OF D(1)] D(2))
qed

definition integer_types :: string where
  "integer_types = ''dxXbBo''"

definition base_of :: "char \<Rightarrow> nat" where
  "base_of c = (if c = CHR ''d'' then 10 else if c = CHR ''o'' then 8 else if c = CHR ''b'' \<or> c = CHR ''B'' then 2 else 16)"

definition table_of :: "char \<Rightarrow> string" where
  "table_of c = (if c = CHR ''X'' \<or> c = CHR ''B'' then UPPER_CASE_NUMERIC_CONVERSION_DIGITS else LOWER_CASE_NUMERIC_CONVERSION_DIGITS)"

definition type_spec :: "char \<Rightarrow> format_spec" where
  "type_spec c = \<lparr>spec_align = None, spec_sign = None, spec_alt = False, spec_zero = False, spec_width = None,
     spec_precision = None, spec_type = Some c\<rparr>"

lemma type_cases:
  assumes "c \<in> set integer_types"
  shows "isalpha c" and "2 \<le> base_of c" and "base_of c \<le> 36" and "digit_table (table_of c)"
    and "merge_defaults DEFAULT_INTEGER_FORMAT (options_of (type_spec c)) =
      DEFAULT_INTEGER_FORMAT\<lparr>integer_base := Some (base_of c), type_specifier := Some c\<rparr>"
  using assms
  by (auto simp: integer_types_def isalpha_def base_of_def digit_table_def table_of_def options_of_def type_spec_def
      merge_defaults_def or_default_def DEFAULT_INTEGER_FORMAT_def empty_options_def letter_kept_def letter_base_def)

lemma plain_number:
  assumes "c \<in> set integer_types" and "v < 2 ^ 64"
  shows "UnsignedMagnitudeToString grow_fixed v neg (DEFAULT_INTEGER_FORMAT\<lparr>integer_base := Some (base_of c), type_specifier := Some c\<rparr>) (holds n []) =
    holds n ((if neg then ''-'' else []) @ digit_text (table_of c) (base_of c) v)"
proof -
  let ?f = "DEFAULT_INTEGER_FORMAT\<lparr>integer_base := Some (base_of c), type_specifier := Some c\<rparr>"
  let ?x = "empty_number\<lparr>sign_part := DetermineSign neg ?f, prefix_part := IntegerPrefix ?f (v = 0)\<rparr>"
  note B = type_cases [OF assms(1)]
  have x: "AppendDigits ?x v (base_of c) (table_of c) = ?x\<lparr>digits := digit_text (table_of c) (base_of c) v\<rparr>"
    by (subst AppendDigits_text [OF B(2) assms(2)]) (simp_all add: empty_number_def)
  have s: "DetermineSign neg ?f = (if neg then ''-'' else [])" "IntegerPrefix ?f (v = 0) = []"
    by (simp_all add: DetermineSign_def IntegerPrefix_def is_alt_def DEFAULT_INTEGER_FORMAT_def empty_options_def)
  have ok: "number_ok_text (AppendDigits ?x v (base_of c) (table_of c))"
    by (rule AppendDigits_ok [OF sign_prefix_ok(2) B(4,2,3)])
  have "number_field (AppendDigits ?x v (base_of c) (table_of c)) ?f = (if neg then ''-'' else []) @ digit_text (table_of c) (base_of c) v"
    unfolding x unfolding s by (simp add: number_field_def number_core_def number_fill_def repeated_def DEFAULT_INTEGER_FORMAT_def empty_options_def empty_number_def)
  moreover have "UnsignedMagnitudeToString grow_fixed v neg ?f (holds n []) = EmitNumber grow_fixed (AppendDigits ?x v (base_of c) (table_of c)) ?f (holds n [])"
    using B(2,3) by (simp add: UnsignedMagnitudeToString_def table_of_def Let_def)
  ultimately show ?thesis using EmitNumber_holds [OF ok] by simp
qed

lemma plain_integers:
  fixes v :: "'a::len word"
  assumes c: "c \<in> set integer_types" and len: "LENGTH('a) \<le> 64"
  defines "f \<equiv> DEFAULT_INTEGER_FORMAT\<lparr>integer_base := Some (base_of c), type_specifier := Some c\<rparr>"
  shows "UnsignedIntToString grow_fixed v f (holds n []) = holds n (digit_text (table_of c) (base_of c) (unat v))"
    and "SignedIntToString grow_fixed v f (holds n []) = holds n (signed_digits (table_of c) (base_of c) v)"
proof -
  have small: "unat w < 2 ^ 64" for w :: "'a word"
  proof -
    have "unat w < 2 ^ LENGTH('a)" by (rule unsigned_less)
    also have "(2::nat) ^ LENGTH('a) \<le> 2 ^ 64" using len by (simp only: power_increasing one_le_numeral)
    finally show ?thesis .
  qed
  show "UnsignedIntToString grow_fixed v f (holds n []) = holds n (digit_text (table_of c) (base_of c) (unat v))"
    unfolding UnsignedIntToString_def f_def plain_number [OF c small] by simp
  show "SignedIntToString grow_fixed v f (holds n []) = holds n (signed_digits (table_of c) (base_of c) v)"
    unfolding SignedIntToString_def f_def plain_number [OF c small] signed_digits_def by simp
qed

lemma format_type:
  assumes c: "c \<in> set integer_types" and d: "default_format v = DEFAULT_INTEGER_FORMAT"
  shows "format grow_fixed [CHR ''{'', CHR '':'', c, CHR ''}''] [v] (fixed_string n) =
    AppendInternal grow_fixed v (DEFAULT_INTEGER_FORMAT\<lparr>integer_base := Some (base_of c), type_specifier := Some c\<rparr>) (holds n [])"
proof -
  have sp: "print_spec (type_spec c) = [c]"
    by (simp add: print_spec_def spec_tail_def type_spec_def align_text_def sign_text_def flag_text_def width_text_def
        precision_text_def type_text_def)
  have ok: "spec_ok (type_spec c)" using type_cases(1) [OF c] by (simp add: spec_ok_def type_spec_def)
  have "ParseArgFormatString [CHR '':'', c] = Some (options_of (type_spec c))"
    using parse_printed [OF ok, of "[]"] by (simp add: sp)
  then have "Append grow_fixed v [CHR '':'', c] s =
      AppendInternal grow_fixed v (DEFAULT_INTEGER_FORMAT\<lparr>integer_base := Some (base_of c), type_specifier := Some c\<rparr>) s" for s
    by (simp add: Append_def d type_cases(5) [OF c])
  moreover have "c \<noteq> CHR ''{''" "c \<noteq> CHR ''}''" "c \<noteq> NUL" using c by (auto simp: integer_types_def)
  ultimately show ?thesis using one_placeholder [of "[CHR '':'', c]" v n] by (simp add: no_NUL_def)
qed

text \<open>The integer argument a text is read back as, by the function for its type.\<close>

fun reads_back :: "fmt_value \<Rightarrow> string \<Rightarrow> int \<Rightarrow> bool" where
  "reads_back (Uint64 v) t base \<longleftrightarrow> from_chars_unsigned t 0 base = \<lparr>ptr = length t, ec = success, out = v\<rparr>"
| "reads_back (Uint32 v) t base \<longleftrightarrow> from_chars_unsigned t 0 base = \<lparr>ptr = length t, ec = success, out = v\<rparr>"
| "reads_back (Uint16 v) t base \<longleftrightarrow> from_chars_unsigned t 0 base = \<lparr>ptr = length t, ec = success, out = v\<rparr>"
| "reads_back (Uint8 v) t base \<longleftrightarrow> from_chars_unsigned t 0 base = \<lparr>ptr = length t, ec = success, out = v\<rparr>"
| "reads_back (Int64 v) t base \<longleftrightarrow> from_chars_signed t 0 base = \<lparr>ptr = length t, ec = success, out = v\<rparr>"
| "reads_back (Int32 v) t base \<longleftrightarrow> from_chars_signed t 0 base = \<lparr>ptr = length t, ec = success, out = v\<rparr>"
| "reads_back (Int16 v) t base \<longleftrightarrow> from_chars_signed t 0 base = \<lparr>ptr = length t, ec = success, out = v\<rparr>"
| "reads_back (Int8 v) t base \<longleftrightarrow> from_chars_signed t 0 base = \<lparr>ptr = length t, ec = success, out = v\<rparr>"
| "reads_back _ t base \<longleftrightarrow> False"

lemma digit_text_length: "2 \<le> base \<Longrightarrow> v < 2 ^ 64 \<Longrightarrow> length (digit_text tab base v) \<le> 64"
  using reversed_digits_bound [of base v 64] by (simp add: digit_text_def)

lemma integer_read_back:
  assumes c: "c \<in> set integer_types" and d: "default_format v = DEFAULT_INTEGER_FORMAT" and n: "65 \<le> n"
  shows "reads_back v (chars (format grow_fixed [CHR ''{'', CHR '':'', c, CHR ''}''] [v] (fixed_string n))) (int (base_of c))"
proof -
  note B = type_cases [OF c]
  have small: "unat w < 2 ^ 64" if "LENGTH('a) \<le> 64" for w :: "'a::len word"
  proof -
    have "unat w < 2 ^ LENGTH('a)" by (rule unsigned_less)
    also have "(2::nat) ^ LENGTH('a) \<le> 2 ^ 64" using that by (simp only: power_increasing one_le_numeral)
    finally show ?thesis .
  qed
  have u: "take n (digit_text (table_of c) (base_of c) (unat w)) = digit_text (table_of c) (base_of c) (unat w)"
    if "LENGTH('a) \<le> 64" for w :: "'a::len word"
    using digit_text_length [OF B(2) small [OF that], of "table_of c" w] n by simp
  have s: "take n (signed_digits (table_of c) (base_of c) w) = signed_digits (table_of c) (base_of c) w"
    if "LENGTH('a) \<le> 64" for w :: "'a::len word"
    using digit_text_length [OF B(2) small [OF that], of "table_of c" w]
      digit_text_length [OF B(2) small [OF that], of "table_of c" "- w"] n by (simp add: signed_digits_def)
  have other: "DEFAULT_STRING_FORMAT \<noteq> DEFAULT_INTEGER_FORMAT" "DEFAULT_FLOATING_POINT_FORMAT \<noteq> DEFAULT_INTEGER_FORMAT"
    "DEFAULT_POINTER_FORMAT \<noteq> DEFAULT_INTEGER_FORMAT"
    by (simp_all add: DEFAULT_STRING_FORMAT_def DEFAULT_INTEGER_FORMAT_def DEFAULT_FLOATING_POINT_FORMAT_def
        DEFAULT_POINTER_FORMAT_def empty_options_def)
  show ?thesis unfolding format_type [OF c d]
    using d other by (cases v) (simp_all add: plain_integers [OF c] u s unsigned_read_back signed_read_back B)
qed

end
