(* ===== verification/Float_Results.thy ===== *)
theory Float_Results
  imports Format_Results
begin

text \<open>
  The decimals of a floating point number below 2 to the 64 are those of its exact value, rounded
  to the requested number of places, half to even.
\<close>

section \<open>Fields of a double\<close>

lemma fraction_field_less: "fraction_field b < 2 ^ 52"
proof -
  have "push_bit 52 1 - 1 = (mask 52 :: u64)" by (simp add: mask_eq_exp_minus_1 push_bit_eq_mult)
  then have "fraction_field b = take_bit 52 (unat b)"
    unfolding fraction_field_def by (simp only: take_bit_eq_mask [symmetric] unsigned_take_bit_eq)
  then show ?thesis using take_bit_nat_less_exp [of 52 "unat b"] by simp
qed

lemma significand_less: "significand b < 2 ^ 53"
  using fraction_field_less [of b] by (simp add: significand_def)

lemma up_down: "up b = 0 \<or> down b = 0"
  by (cases "exponent_field b \<le> 1075") (simp_all add: up_def down_def)

section \<open>Rounding\<close>

lemma half_even_scale: "0 < c \<Longrightarrow> half_even (n * c) (d * c) = half_even n d"
proof -
  assume c: "0 < c"
  then have "n * c mod (d * c) = n mod d * c" "n * c div (d * c) = n div d" by simp_all
  moreover have "(2 * (x * c) > d * c) = (2 * x > d)" "(2 * (x * c) = d * c) = (2 * x = d)" for x
    using c by (simp_all flip: mult.assoc)
  ultimately show ?thesis unfolding half_even_def by simp
qed

lemma half_even_exact: "0 < d \<Longrightarrow> half_even (q * d) d = q"
  by (simp add: half_even_def)

lemma half_even_parts:
  assumes "0 < d"
  shows "half_even (u * d + n) d = u + n div d + (if 2 * (n mod d) > d \<or> (2 * (n mod d) = d \<and> odd (u + n div d)) then 1 else 0)"
  using assms by (simp add: half_even_def)

lemma fraction_parts_value:
  assumes "m < 2 ^ 53" and "e \<le> 1074"
  shows "\<exists>j. fraction_parts m e = (m * 2 ^ j, e + j) \<and> m * 2 ^ j < 2 ^ 53"
  using assms
proof (induction m e rule: fraction_parts.induct)
  case (1 m e)
  show ?case
  proof (cases "m < 2 ^ 52 \<and> e < 1074")
    case True
    then obtain j where "fraction_parts (2 * m) (e + 1) = (2 * m * 2 ^ j, e + 1 + j)" "2 * m * 2 ^ j < 2 ^ 53"
      using 1 by auto
    then show ?thesis using True by (intro exI [of _ "Suc j"]) (simp add: fraction_parts.simps [of m e] ac_simps)
  next
    case False
    then have "fraction_parts m e = (m, e)" by (subst fraction_parts.simps) (simp only: if_False)
    then show ?thesis using 1(2) by (intro exI [of _ 0]) simp
  qed
qed

lemma ten_power_bound: "k \<le> 19 \<Longrightarrow> (10::nat) ^ k \<le> 10000000000000000000"
  using power_increasing [of k 19 "10::nat"] by simp

lemma fraction_decimals_exact:
  assumes m: "m < 2 ^ 53" "m < 2 ^ e" and k: "k \<le> 19" and e: "0 < e"
  shows "(case fraction_decimals m e k units of (d, r) \<Rightarrow> units * 10 ^ k + d + (if r then 1 else 0)) = half_even (units * 10 ^ k * 2 ^ e + m * 10 ^ k) (2 ^ e)"
    and "fst (fraction_decimals m e k units) < 10 ^ k"
proof -
  have p: "m * 10 ^ k < 2 ^ 117"
  proof -
    have "m * 10 ^ k \<le> 2 ^ 53 * 10000000000000000000" using m(1) ten_power_bound [OF k] by (intro mult_le_mono) simp_all
    also have "\<dots> < 2 ^ 117" by simp
    finally show ?thesis .
  qed
  have q: "m * 10 ^ k div 2 ^ e < 10 ^ k" using m(2) by (simp add: div_less_iff_less_mult mult.commute)
  have two: "(2::nat) ^ e = 2 * (2 ^ e div 2)" using e by (cases e) simp_all
  have par: "odd (units * 10 ^ k + m * 10 ^ k div 2 ^ e) = odd (if k > 0 then m * 10 ^ k div 2 ^ e else units)"
    using q by (cases k) simp_all
  have both: "(case fraction_decimals m e k units of (d, r) \<Rightarrow> units * 10 ^ k + d + (if r then 1 else 0)) =
      half_even (units * 10 ^ k * 2 ^ e + m * 10 ^ k) (2 ^ e) \<and> fst (fraction_decimals m e k units) < 10 ^ k"
  proof (cases "e < 128")
    case True
    have "m * 10 ^ k div 2 ^ e < 2 ^ 64" using q ten_power_bound [OF k] by simp
    moreover have "m * 10 ^ k < 2 ^ 128" using p by simp
    ultimately have fd: "fraction_decimals m e k units = (m * 10 ^ k div 2 ^ e, m * 10 ^ k mod 2 ^ e > 2 ^ e div 2 \<or>
        (m * 10 ^ k mod 2 ^ e = 2 ^ e div 2 \<and> odd (if k > 0 then m * 10 ^ k div 2 ^ e else units)))"
      using True by (simp add: fraction_decimals_def pow10_def Let_def)
    have "(2 * (m * 10 ^ k mod 2 ^ e) > 2 ^ e) = (m * 10 ^ k mod 2 ^ e > 2 ^ e div 2)"
      "(2 * (m * 10 ^ k mod 2 ^ e) = 2 ^ e) = (m * 10 ^ k mod 2 ^ e = 2 ^ e div 2)"
      using two by linarith+
    then show ?thesis using q m(2) unfolding fd by (cases k) (simp_all add: half_even_parts par)
  next
    case False
    then have "(2::nat) ^ 128 \<le> 2 ^ e" by (intro power_increasing) simp_all
    then have "2 * (m * 10 ^ k) < 2 ^ e" using p by simp
    then show ?thesis using False by (simp add: fraction_decimals_def half_even_parts)
  qed
  then show "(case fraction_decimals m e k units of (d, r) \<Rightarrow> units * 10 ^ k + d + (if r then 1 else 0)) = half_even (units * 10 ^ k * 2 ^ e + m * 10 ^ k) (2 ^ e)"
    "fst (fraction_decimals m e k units) < 10 ^ k" by blast+
qed

lemma rounded:
  assumes b: "significand b * 2 ^ up b < 2 ^ 64 * 2 ^ down b" and k: "k \<le> 19"
  obtains units decimals where "units_and_decimals b k = (units, decimals)" and "units < 2 ^ 64" and "decimals < 10 ^ k"
    and "units * 10 ^ k + decimals = half_even (significand b * 2 ^ up b * 10 ^ k) (2 ^ down b)"
proof -
  define M where "M = significand b * 2 ^ up b"
  define E where "E = down b"
  define u where "u = M div 2 ^ E"
  define r where "r = M mod 2 ^ E"
  have M: "M = u * 2 ^ E + r" unfolding u_def r_def by (rule div_mult_mod_eq [symmetric])
  have u: "u < 2 ^ 64" using b by (simp add: u_def M_def E_def div_less_iff_less_mult)
  show ?thesis
  proof (cases "r = 0")
    case True
    then have "units_and_decimals b k = (u, 0)"
      by (simp add: units_and_decimals_def Let_def M_def [symmetric] E_def [symmetric] u_def [symmetric] r_def [symmetric])
    moreover have "u * 10 ^ k + 0 = half_even (M * 10 ^ k) (2 ^ E)"
      using half_even_exact [of "2 ^ E" "u * 10 ^ k"] True by (simp add: M ac_simps)
    ultimately show ?thesis using that [of u 0] u by (simp add: M_def E_def)
  next
    case False
    have E: "0 < E" using False by (cases E) (simp_all add: r_def)
    then have "up b = 0" using up_down [of b] by (simp add: E_def)
    then have small: "M < 2 ^ 53" using significand_less [of b] by (simp add: M_def)
    moreover have "E \<le> 1074" unfolding E_def down_def by (cases "exponent_field b") simp_all
    ultimately obtain j where j: "fraction_parts r E = (r * 2 ^ j, E + j)" "r * 2 ^ j < 2 ^ 53"
      using fraction_parts_value [of r E] by (auto simp: r_def intro: le_less_trans [OF mod_less_eq_dividend])
    have le: "r * 2 ^ j < 2 ^ (E + j)" by (simp add: r_def power_add)
    obtain d up where dr: "fraction_decimals (r * 2 ^ j) (E + j) k u = (d, up)" by (metis surj_pair)
    note D = fraction_decimals_exact [OF j(2) le k, of u, unfolded dr, simplified]
    have "half_even (u * 10 ^ k * 2 ^ (E + j) + r * 2 ^ j * 10 ^ k) (2 ^ (E + j)) = half_even (M * 10 ^ k) (2 ^ E)"
      using half_even_scale [of "2 ^ j" "M * 10 ^ k" "2 ^ E"] by (simp add: M algebra_simps power_add)
    then have val: "u * 10 ^ k + d + (if up then 1 else 0) = half_even (M * 10 ^ k) (2 ^ E)" and d: "d < 10 ^ k" using D E by simp_all
    have u53: "u < 2 ^ 53" using small le_less_trans [OF div_le_dividend [of M "2 ^ E"]] by (simp add: u_def)
    have ud: "units_and_decimals b k = (if up then if d + 1 = 10 ^ k then (u + 1, 0) else (u, d + 1) else (u, d))"
      using u53 False dr j(1)
      by (simp add: units_and_decimals_def Let_def M_def [symmetric] E_def [symmetric] u_def [symmetric] r_def [symmetric] pow10_def)
    show ?thesis
    proof (cases "up \<and> d + 1 = 10 ^ k")
      case True
      then show ?thesis using that [of "u + 1" 0] val u53 by (simp add: ud M_def E_def)
    next
      case False
      then have "d + (if up then 1 else 0) < 10 ^ k" using d by auto
      then show ?thesis using that [of u "d + (if up then 1 else 0)"] False val u by (auto simp: ud M_def E_def split: if_splits)
    qed
  qed
qed

section \<open>The text of the number\<close>

definition decimals_text :: "nat \<Rightarrow> nat \<Rightarrow> string" where
  "decimals_text i d = map (\<lambda>j. char_of (48 + d div 10 ^ j mod 10)) (rev [0..<i])"

lemma decimals_text_Suc: "decimals_text (Suc i) d = char_of (48 + d div 10 ^ i mod 10) # decimals_text i d"
  by (simp add: decimals_text_def)

lemma push_decimals_text:
  "length (digits x) + i \<le> CAPACITY \<Longrightarrow> push_decimals i d x = x\<lparr>digits := digits x @ decimals_text i d\<rparr>"
proof (induction i arbitrary: x)
  case 0
  then show ?case by (simp add: decimals_text_def)
next
  case (Suc i)
  then show ?case by (simp add: push_digit_def decimals_text_Suc pow10_def)
qed

lemma decimals_text_facts:
  "list_all isdigit (decimals_text i d)" "length (decimals_text i d) = i"
  "dec_value v (decimals_text i d) = v * 10 ^ i + d mod 10 ^ i"
proof -
  show "list_all isdigit (decimals_text i d)" using digit_char by (auto simp: decimals_text_def list_all_iff)
  show "length (decimals_text i d) = i" by (simp add: decimals_text_def)
  show "dec_value v (decimals_text i d) = v * 10 ^ i + d mod 10 ^ i"
  proof (induction i arbitrary: v)
    case 0
    then show ?case by (simp add: decimals_text_def)
  next
    case (Suc i)
    have "d mod 10 ^ Suc i = d div 10 ^ i mod 10 * 10 ^ i + d mod 10 ^ i"
      using mod_mult2_eq [of d "10 ^ i" 10] by (simp add: mult.commute)
    then show ?case using digit_char [of "d div 10 ^ i mod 10"] by (simp add: decimals_text_Suc Suc algebra_simps)
  qed
qed

lemma table_decimal: "k < 10 \<Longrightarrow> LOWER_CASE_NUMERIC_CONVERSION_DIGITS ! k = char_of (48 + k)"
proof -
  have "list_all (\<lambda>k. LOWER_CASE_NUMERIC_CONVERSION_DIGITS ! k = char_of (48 + k)) [0..<10]" by code_simp
  then show "k < 10 \<Longrightarrow> LOWER_CASE_NUMERIC_CONVERSION_DIGITS ! k = char_of (48 + k)" by (simp add: list_all_iff)
qed

lemma digit_text_decimal: "digit_text LOWER_CASE_NUMERIC_CONVERSION_DIGITS 10 v = decimal v"
proof (induction v rule: decimal.induct)
  case (1 v)
  show ?case
  proof (cases "v < 10")
    case True
    then show ?thesis by (simp add: digit_text_def reversed_digits_simps(2) decimal.simps [of v] table_decimal)
  next
    case False
    then show ?thesis using 1 by (simp add: digit_text_append decimal.simps [of v] table_decimal)
  qed
qed

lemma ten_digits: "v < 10 ^ j \<Longrightarrow> 1 \<le> j \<Longrightarrow> length (decimal v) \<le> j"
proof (induction j arbitrary: v)
  case (Suc j)
  show ?case
  proof (cases "v < 10")
    case True
    then show ?thesis by (simp add: decimal.simps [of v])
  next
    case False
    then have "1 \<le> j" using Suc.prems by (cases j) auto
    moreover have "v div 10 < 10 ^ j" using Suc.prems(1) by (simp add: div_less_iff_less_mult)
    ultimately show ?thesis using Suc.IH [of "v div 10"] False by (simp add: decimal.simps [of v])
  qed
qed simp

text \<open>The decimals after their point; without decimals there is no point.\<close>

definition point_text :: "nat \<Rightarrow> nat \<Rightarrow> string" where
  "point_text k d = (if k = 0 then [] else CHR ''.'' # decimals_text k d)"

lemma small_number_text:
  assumes b: "significand b * 2 ^ up b < 2 ^ 64 * 2 ^ down b" and k: "k \<le> 19" and x: "digits x = []"
    and ud: "units_and_decimals b k = (u, d)" "u < 2 ^ 64"
  shows "small_number b k x = (if k = 0 then x\<lparr>digits := decimal u\<rparr>
    else x\<lparr>digits := decimal u @ point_text k d, fraction_start := length (decimal u), trailing_zeros := 0\<rparr>)"
proof -
  have a: "AppendDigits x u 10 LOWER_CASE_NUMERIC_CONVERSION_DIGITS = x\<lparr>digits := decimal u\<rparr>"
    using AppendDigits_text [of 10 u x LOWER_CASE_NUMERIC_CONVERSION_DIGITS] ud(2) x by (simp add: digit_text_decimal)
  have len: "length (decimal u) \<le> 20" using ud(2) by (intro ten_digits) simp_all
  show ?thesis
    using k len ud(1) unfolding small_number_def Let_def
    by (simp add: min_absorb1 a push_digit_def CAPACITY_def push_decimals_text point_text_def)
qed

definition precision_spec :: "nat \<Rightarrow> format_spec" where
  "precision_spec k = \<lparr>spec_align = None, spec_sign = None, spec_alt = False, spec_zero = False, spec_width = None,
     spec_precision = Some k, spec_type = None\<rparr>"

lemma format_precision:
  assumes "k \<le> 19"
  shows "format grow_fixed (''{:.'' @ decimal k @ ''}'') [Double_Value b] (fixed_string n) =
    FloatToString grow_fixed b (DEFAULT_FLOATING_POINT_FORMAT\<lparr>precision := Some k\<rparr>) (holds n [])"
proof -
  have sp: "print_spec (precision_spec k) = CHR ''.'' # decimal k"
    by (simp add: print_spec_def spec_tail_def precision_spec_def align_text_def sign_text_def flag_text_def width_text_def
        precision_text_def type_text_def)
  have ok: "spec_ok (precision_spec k)" using assms by (simp add: spec_ok_def precision_spec_def)
  have "ParseArgFormatString ('':.'' @ decimal k) = Some (options_of (precision_spec k))"
    using parse_printed [OF ok, of "[]"] by (simp add: sp)
  moreover have "merge_defaults DEFAULT_FLOATING_POINT_FORMAT (options_of (precision_spec k)) =
      DEFAULT_FLOATING_POINT_FORMAT\<lparr>precision := Some k\<rparr>"
    by (simp add: merge_defaults_def or_default_def options_of_def precision_spec_def DEFAULT_FLOATING_POINT_FORMAT_def empty_options_def)
  ultimately have "Append grow_fixed (Double_Value b) ('':.'' @ decimal k) s =
      FloatToString grow_fixed b (DEFAULT_FLOATING_POINT_FORMAT\<lparr>precision := Some k\<rparr>) s" for s
    by (simp add: Append_def)
  moreover have "format grow_fixed (CHR ''{'' # ('':.'' @ decimal k) @ ''}'') [Double_Value b] (fixed_string n) =
      Append grow_fixed (Double_Value b) ('':.'' @ decimal k) (holds n [])"
  proof (rule one_placeholder)
    have d: "isdigit c" if "c \<in> set (decimal k)" for c using decimal_facts [of k] that by (auto simp: list_all_iff)
    have "\<not> isdigit CHR ''{''" "\<not> isdigit CHR ''}''" by (simp_all add: isdigit_def)
    moreover have "NUL \<notin> set (decimal k)" using d NUL_not_digit by blast
    ultimately show "CHR ''{'' \<notin> set ('':.'' @ decimal k)" "CHR ''}'' \<notin> set ('':.'' @ decimal k)" "no_NUL ('':.'' @ decimal k)"
      using d by (auto simp: no_NUL_def)
    show "length ('':.'' @ decimal k) \<le> 31" using ten_digits [of k 2] assms by simp
  qed simp
  ultimately show ?thesis by simp
qed

lemma float_text:
  assumes b: "significand b * 2 ^ up b < 2 ^ 64 * 2 ^ down b" "\<not> is_nan b" "\<not> is_inf b" and k: "k \<le> 19"
    and ud: "units_and_decimals b k = (u, d)" "u < 2 ^ 64"
  shows "format grow_fixed (''{:.'' @ decimal k @ ''}'') [Double_Value b] (fixed_string n) =
    holds n ((if signbit b then ''-'' else []) @ decimal u @ point_text k d)"
proof -
  let ?f = "DEFAULT_FLOATING_POINT_FORMAT\<lparr>precision := Some k\<rparr>"
  let ?x = "empty_number\<lparr>sign_part := DetermineSign (signbit b) ?f\<rparr>"
  have s: "DetermineSign (signbit b) ?f = (if signbit b then ''-'' else [])"
    by (simp add: DetermineSign_def DEFAULT_FLOATING_POINT_FORMAT_def empty_options_def)
  note x = small_number_text [OF b(1) k _ ud, of ?x]
  have "number_field (small_number b k ?x) ?f = (if signbit b then ''-'' else []) @ decimal u @ point_text k d"
    unfolding s using decimal_facts [of u] x unfolding s
    by (cases "k = 0")
      (simp_all add: number_field_def number_core_def number_fill_def repeated_def DEFAULT_FLOATING_POINT_FORMAT_def empty_options_def empty_number_def point_text_def)
  moreover have "FloatToString grow_fixed b ?f (holds n []) = EmitNumber grow_fixed (small_number b k ?x) ?f (holds n [])"
    using b by (simp add: FloatToString_def Let_def)
  ultimately show ?thesis
    using EmitNumber_holds [OF float_numbers_ok(1) [OF sign_prefix_ok(1)]] unfolding format_precision [OF k] by simp
qed

lemma float_rounds:
  assumes b: "significand b * 2 ^ up b < 2 ^ 64 * 2 ^ down b" "\<not> is_nan b" "\<not> is_inf b" and k: "k \<le> 19" and n: "41 \<le> n"
  shows "\<exists>i f. chars (format grow_fixed (''{:.'' @ decimal k @ ''}'') [Double_Value b] (fixed_string n)) =
      (if signbit b then ''-'' else []) @ i @ (if k = 0 then [] else ''.'') @ f \<and> i \<noteq> [] \<and> length f = k \<and> list_all isdigit (i @ f) \<and>
    dec_value 0 (i @ f) = half_even (significand b * 2 ^ up b * 10 ^ k) (2 ^ down b)"
proof -
  obtain u d where ud: "units_and_decimals b k = (u, d)" "u < 2 ^ 64" "d < 10 ^ k"
    "u * 10 ^ k + d = half_even (significand b * 2 ^ up b * 10 ^ k) (2 ^ down b)" using rounded [OF b(1) k] by metis
  have len: "length (decimal u) \<le> 20" using ud(2) by (intro ten_digits) simp_all
  then have "chars (format grow_fixed (''{:.'' @ decimal k @ ''}'') [Double_Value b] (fixed_string n)) =
      (if signbit b then ''-'' else []) @ decimal u @ point_text k d"
    unfolding float_text [OF b k ud(1,2)] using n k by (auto simp: point_text_def decimals_text_facts(2))
  also have "point_text k d = (if k = 0 then [] else ''.'') @ decimals_text k d" by (simp add: point_text_def decimals_text_def)
  finally have "chars (format grow_fixed (''{:.'' @ decimal k @ ''}'') [Double_Value b] (fixed_string n)) =
      (if signbit b then ''-'' else []) @ decimal u @ (if k = 0 then [] else ''.'') @ decimals_text k d" .
  moreover have "decimal u \<noteq> []" "list_all isdigit (decimal u @ decimals_text k d)"
    using decimal_facts [of u] decimals_text_facts(1) [of k d] by simp_all
  moreover have "dec_value 0 (decimal u @ decimals_text k d) = half_even (significand b * 2 ^ up b * 10 ^ k) (2 ^ down b)"
    using decimal_facts [of u] ud(3,4) by (simp add: decimals_text_facts(3))
  ultimately show ?thesis using decimals_text_facts(2) [of k d] by blast
qed

end
