(* ===== verification/Format_Properties.thy ===== *)
theory Format_Properties
  imports Float_Results
begin

text \<open>
  The properties of formatting, and what two of them rest on: formatting into any string, of
  either class, keeps the string well formed; and a text whose braces are doubled is printed as it
  is.
\<close>

section \<open>Every string stays well formed\<close>

context string_buffer
begin

definition keeps :: "(char_buffer \<Rightarrow> char_buffer) \<Rightarrow> bool" where
  "keeps op \<longleftrightarrow> (\<forall>s. string_ok s \<longrightarrow> string_ok (op s) \<and> max_size (op s) = max_size s)"

lemma keeps_id: "keeps (\<lambda>s. s)"
  by (simp add: keeps_def)

lemma keeps_comp: "keeps f \<Longrightarrow> keeps g \<Longrightarrow> keeps (\<lambda>s. g (f s))"
  by (simp add: keeps_def)

lemma keeps_cong: "keeps g \<Longrightarrow> (\<And>s. f s = g s) \<Longrightarrow> keeps f"
  by (simp add: keeps_def)

lemma keeps_push: "keeps (\<lambda>s. snd (push_back grow c s))"
  using push_back_ok(1,2) by (simp add: keeps_def)

lemma keeps_cstr: "keeps (append_cstr grow v)"
  using append_cstr_ok(1,2) by (simp add: keeps_def)

lemma keeps_append_n: "keeps (append_n grow v k)"
  using append_n_ok(1,2) by (simp add: keeps_def)

lemma keeps_push_times: "keeps (push_times grow c k)"
proof (induction k)
  case 0
  show ?case by (rule keeps_cong [OF keeps_id]) simp
next
  case (Suc k)
  then show ?case using keeps_push [of c] by (simp add: keeps_def Let_def)
qed

lemma keeps_repeated: "keeps (AppendRepeated grow c k)"
  using keeps_push_times by (simp add: keeps_def AppendRepeated_def)

lemma keeps_push_all: "keeps (push_all grow cs)"
proof (induction cs)
  case Nil
  show ?case by (rule keeps_cong [OF keeps_id]) (simp add: push_all_def)
next
  case (Cons c cs)
  show ?case by (rule keeps_cong [OF keeps_comp [OF keeps_push [of c] Cons]]) (simp add: push_all_def)
qed

lemma keeps_number: "keeps (EmitNumber grow x f)"
  unfolding keeps_def EmitNumber_def Let_def
  using keeps_repeated keeps_cstr keeps_push_all by (simp add: keeps_def split: prod.split)

lemma keeps_string: "keeps (FormattedStringAppend grow v k f)"
  unfolding keeps_def FormattedStringAppend_def Let_def
  using keeps_repeated keeps_append_n by (simp add: keeps_def split: prod.split)

lemma keeps_integer: "keeps (UnsignedMagnitudeToString grow v neg f)"
  unfolding keeps_def UnsignedMagnitudeToString_def Let_def
  using keeps_number keeps_cstr by (simp add: keeps_def split: option.split)

lemma keeps_if: "keeps f \<Longrightarrow> keeps g \<Longrightarrow> keeps (\<lambda>s. if b then f s else g s)"
  by (cases b) simp_all

lemma keeps_float: "keeps (FloatToString grow b f)"
  unfolding FloatToString_def Let_def by (intro keeps_if keeps_number)

lemma keeps_internal: "keeps (AppendInternal grow v f)"
proof -
  have u: "keeps (UnsignedIntToString grow w f)" for w :: "'a::len word"
    unfolding UnsignedIntToString_def by (rule keeps_integer)
  have s: "keeps (SignedIntToString grow w f)" for w :: "'a::len word"
    unfolding SignedIntToString_def by (intro keeps_if keeps_integer)
  show ?thesis by (cases v) (simp_all add: u s keeps_string keeps_float)
qed

lemma keeps_invalid: "keeps (invalid_format grow spec)"
  unfolding invalid_format_def by (rule keeps_comp [OF keeps_comp [OF keeps_cstr keeps_cstr] keeps_cstr])

lemma keeps_value: "keeps (Append grow v spec)"
  unfolding Append_def by (cases "ParseArgFormatString spec") (simp_all add: keeps_internal keeps_invalid)

lemma keeps_literal: "keeps (push_literal grow cs)"
proof (induction cs rule: induct_list012)
  case 1
  show ?case by (rule keeps_cong [OF keeps_id]) simp
next
  case (2 c)
  show ?case by (rule keeps_cong [OF keeps_push [of c]]) simp
next
  case (3 c d cs)
  have "keeps (\<lambda>s. (if c = CHR ''}'' \<and> d = CHR ''}'' then push_literal grow cs else push_literal grow (d # cs))
      (snd (push_back grow c s)))"
    using 3 by (intro keeps_comp [OF keeps_push]) simp
  then show ?case by (rule keeps_cong) (simp add: Let_def)
qed

lemma keeps_insert:
  assumes "\<And>a spec. a \<in> set args \<Longrightarrow> keeps (a spec)"
  shows "keeps (\<lambda>s. snd (insert_argument grow args spec index s))"
proof -
  have "keeps ((args ! p) spec)" if "p < length args" for p using that by (intro assms) simp
  then show ?thesis using keeps_invalid [of spec] keeps_cstr [of "''{Argument position out of range}''"]
    unfolding keeps_def insert_argument_def by (simp split: prod.split option.split bool.split)
qed

lemma keeps_loop:
  assumes "\<And>a spec. a \<in> set args \<Longrightarrow> keeps (a spec)"
  shows "string_ok s \<Longrightarrow> string_ok (build_loop grow fmt args index i s) \<and> max_size (build_loop grow fmt args index i s) = max_size s"
proof (induction "length fmt - i" arbitrary: index i s rule: less_induct)
  case less
  show ?case
  proof (cases "char_at fmt i = NUL")
    case True
    then show ?thesis using less(2) by (simp add: build_loop.simps)
  next
    case False
    then have i: "i < length fmt" by (auto simp: char_at_def split: if_splits)
    define j where "j = i + strcspn (drop i fmt) ''{'' + 1"
    define t where "t = push_literal grow (take (strcspn (drop i fmt) ''{'') (drop i fmt)) s"
    define k where "k = strcspn (drop j fmt) ''}''"
    define spec where "spec = chars (append_n grow_fixed (drop j fmt) k (fixed_string 32))"
    obtain m u where u: "insert_argument grow args spec index t = (m, u)" by (metis surj_pair)
    have t: "string_ok t" "max_size t = max_size s" using keeps_literal less(2) by (simp_all add: t_def keeps_def)
    have u2: "string_ok u" "max_size u = max_size s" using keeps_insert [of args spec index] assms t u by (auto simp: keeps_def)
    have p: "string_ok (snd (push_back grow c t))" "max_size (snd (push_back grow c t)) = max_size s" for c
      using keeps_push t by (simp_all add: keeps_def)
    have step: "build_loop grow fmt args index i s =
        (if j < length fmt \<and> char_at fmt j = CHR ''{''
         then build_loop grow fmt args index (j + 1) (snd (push_back grow CHR ''{'' t))
         else if j \<ge> length fmt then t
         else if j + k \<ge> length fmt then t
         else build_loop grow fmt args m (j + k + 1) u)"
      using u unfolding j_def t_def k_def spec_def
      by (subst build_loop.simps) (simp only: Let_def False if_False case_prod_conv)
    have "length fmt - (j + 1) < length fmt - i" "length fmt - (j + k + 1) < length fmt - i" using i by (simp_all add: j_def)
    then show ?thesis using less(1) [of "j + 1"] less(1) [of "j + k + 1"] p u2 t unfolding step by auto
  qed
qed

lemma keeps_format:
  assumes "string_ok s"
  shows "string_ok (format grow fmt vals s)" and "max_size (format grow fmt vals s) = max_size s"
proof -
  have "keeps (a spec)" if "a \<in> set (map (Append grow) vals)" for a spec using that by (auto simp: keeps_value)
  moreover have "string_ok (clear s)" "max_size (clear s) = max_size s" using assms by (simp_all add: clear_def string_ok_def size_of_def chars_that_fit_def)
  ultimately show "string_ok (format grow fmt vals s)" "max_size (format grow fmt vals s) = max_size s"
    using keeps_loop unfolding format_def BuildFormatOutput_def by metis+
qed

end

section \<open>Escaped texts\<close>

definition escape :: "string \<Rightarrow> string" where
  "escape s = concat (map (\<lambda>c. if c = CHR ''{'' \<or> c = CHR ''}'' then [c, c] else [c]) s)"

lemma escape_simps [simp]:
  "escape [] = []" "escape (c # s) = (if c = CHR ''{'' \<or> c = CHR ''}'' then [c, c] else [c]) @ escape s"
  "escape (s @ t) = escape s @ escape t"
  by (simp_all add: escape_def)

lemma push_escaped_literal:
  assumes "CHR ''{'' \<notin> set s" and "no_NUL s"
  shows "push_literal grow_fixed (escape s) (holds n tx) = holds n (tx @ s)"
  using assms
proof (induction s arbitrary: tx)
  case (Cons c s)
  then have IH: "push_literal grow_fixed (escape s) (holds n (tx @ [c])) = holds n (tx @ c # s)" and c: "c \<noteq> NUL" "c \<noteq> CHR ''{''"
    by (auto simp: no_NUL_def)
  show ?case
  proof (cases "c = CHR ''}''")
    case True
    then show ?thesis using IH by simp
  next
    case False
    then show ?thesis using IH c by (cases "escape s") auto
  qed
qed simp

lemma escape_no_brace: "CHR ''{'' \<notin> set s \<Longrightarrow> CHR ''{'' \<notin> set (escape s)"
  by (auto simp: escape_def)

lemma doubled_brace:
  assumes "char_at fmt i \<noteq> NUL" and "strcspn (drop i fmt) ''{'' = k" and "i + k + 1 < length fmt" and "char_at fmt (i + k + 1) = CHR ''{''"
  shows "build_loop grow fmt args index i s =
    build_loop grow fmt args index (i + k + 1 + 1) (snd (push_back grow CHR ''{'' (push_literal grow (take k (drop i fmt)) s)))"
  using assms by (subst build_loop.simps) (simp only: Let_def if_False if_True simp_thms)

lemma last_literal:
  assumes "CHR ''{'' \<notin> set s" and "no_NUL s"
  shows "build_loop grow_fixed (pre @ escape s) args index (length pre) (holds n tx) = holds n (tx @ s)"
proof -
  have o: "strcspn (escape s) ''{'' = length (escape s)" by (rule strcspn_none [OF escape_no_brace [OF assms(1)]])
  have at: "s \<noteq> [] \<Longrightarrow> char_at (escape s) 0 \<noteq> NUL" using assms(2) by (cases s) (auto simp: no_NUL_def split: if_splits)
  show ?thesis
  proof (cases "s = []")
    case True
    then show ?thesis by (subst build_loop.simps) (simp add: char_at_def)
  next
    case False
    then show ?thesis using at
      by (subst build_loop.simps) (simp add: Let_def o push_escaped_literal [OF assms])
  qed
qed

lemma escaped_loop:
  assumes "no_NUL s"
  shows "build_loop grow_fixed (pre @ escape s) args index (length pre) (holds n tx) = holds n (tx @ s)"
  using assms
proof (induction "length s" arbitrary: s pre tx rule: less_induct)
  case less
  show ?case
  proof (cases "s = []")
    case True
    then show ?thesis by (subst build_loop.simps) (simp add: char_at_def)
  next
    case False
    then obtain c r where s: "s = c # r" by (cases s) auto
    have "c \<noteq> NUL" using less(2) s by (auto simp: no_NUL_def)
    then have first: "char_at (escape s) 0 \<noteq> NUL" by (simp add: s)
    define lit where "lit = takeWhile (\<lambda>c. c \<noteq> CHR ''{'') s"
    define rest where "rest = dropWhile (\<lambda>c. c \<noteq> CHR ''{'') s"
    have parts: "s = lit @ rest" by (simp add: lit_def rest_def)
    have "CHR ''{'' \<notin> set lit" using set_takeWhileD by (fastforce simp: lit_def)
    moreover have "no_NUL lit" using less(2) parts unfolding no_NUL_def by (metis Un_iff set_append)
    ultimately have lit: "CHR ''{'' \<notin> set lit" "no_NUL lit" by blast+
    note push = push_escaped_literal [OF lit]
    show ?thesis
    proof (cases rest)
      case Nil
      then have "lit = s" using parts by simp
      then show ?thesis using last_literal [OF lit] by simp
    next
      case (Cons d t)
      then have d: "d = CHR ''{''" using dropWhile_eq_Cons_conv [of "\<lambda>c. c \<noteq> CHR ''{''" s d t] unfolding rest_def by blast
      have e: "escape s = escape lit @ ''{{'' @ escape t" using parts Cons d by simp
      have o: "strcspn (escape s) ''{'' = length (escape lit)"
        using strcspn_stop [OF escape_no_brace [OF lit(1)]] by (simp add: e)
      have at: "char_at (pre @ escape s) (Suc (length pre + length (escape lit))) = CHR ''{''"
        by (simp add: e char_at_def nth_append)
      have "length t < length s" using parts Cons by simp
      moreover have "no_NUL t" using less(2) parts Cons by (auto simp: no_NUL_def)
      ultimately have "build_loop grow_fixed ((pre @ escape lit @ ''{{'') @ escape t) args index (length (pre @ escape lit @ ''{{''))
          (holds n ((tx @ lit) @ ''{'')) = holds n (((tx @ lit) @ ''{'') @ t)"
        by (rule less(1))
      then have go: "build_loop grow_fixed (pre @ escape s) args index (Suc (Suc (length pre + length (escape lit))))
          (holds n (tx @ lit @ ''{'')) = holds n (tx @ s)"
        using parts Cons d by (simp add: e)
      have "build_loop grow_fixed (pre @ escape s) args index (length pre) (holds n tx) =
          build_loop grow_fixed (pre @ escape s) args index (length pre + length (escape lit) + 1 + 1)
            (snd (push_back grow_fixed CHR ''{'' (push_literal grow_fixed (escape lit) (holds n tx))))"
        by (subst doubled_brace [where k = "length (escape lit)"]) (use first at o in \<open>simp_all add: e\<close>)
      then show ?thesis using go push by simp
    qed
  qed
qed

section \<open>Properties\<close>

text \<open>C35: Formatting keeps every string well formed: whatever the format string and the arguments, for a
  fixed string and for a dynamic one, whichever of its allocations fail, the text never exceeds
  the buffer less its terminator nor the limit of the string, which does not change.\<close>

theorem format_keeps_string:
  assumes "string_ok s" and "grow = grow_fixed \<or> grow = grow_dynamic available"
  shows "string_ok (format grow fmt vals s) \<and> max_size (format grow fmt vals s) = max_size s"
  using fixed.keeps_format [OF assms(1)] dynamic.keeps_format [OF assms(1)] assms(2) by blast

theorem format_keeps_string_witness:
  "string_ok (format (grow_dynamic (\<lambda>n. n < 100)) ''{:>3000}{:500.3}'' [Int32 7, Double_Value 0] (dynamic_string 200)) \<and>
   max_size (format (grow_dynamic (\<lambda>n. n < 100)) ''{:>3000}{:500.3}'' [Int32 7, Double_Value 0] (dynamic_string 200)) =
     max_size (dynamic_string 200)"
  by (rule format_keeps_string) auto

text \<open>C34: Running out of room only cuts the end off: for any format string and any arguments, a fixed string
  of capacity \<open>m\<close> receives the first \<open>m\<close> characters of what a larger one receives.\<close>

theorem format_truncates:
  assumes "m \<le> n"
  shows "chars (format grow_fixed fmt vals (fixed_string m)) = take m (chars (format grow_fixed fmt vals (fixed_string n)))"
proof -
  obtain t where "\<And>k. chars (format grow_fixed fmt vals (fixed_string k)) = take k t" using format_cuts by metis
  then show ?thesis using assms by (simp add: min_def)
qed

theorem format_truncates_witness:
  "chars (format grow_fixed ''{:8}|{}'' [Int32 42, Bool_Value True] (fixed_string 3)) =
   take 3 (chars (format grow_fixed ''{:8}|{}'' [Int32 42, Bool_Value True] (fixed_string 64)))"
  by (rule format_truncates) simp

text \<open>C16: What is printed can be read: an integer of any of the eight types, printed in any of the bases
  the type specifiers offer, is read back by \<^verbatim>\<open>from_chars\<close> for its type and base, which
  consumes the whole text.\<close>

theorem format_reads_back:
  assumes "c \<in> set integer_types" and "default_format v = DEFAULT_INTEGER_FORMAT" and "65 \<le> n"
  shows "reads_back v (chars (format grow_fixed [CHR ''{'', CHR '':'', c, CHR ''}''] [v] (fixed_string n))) (int (base_of c))"
  by (rule integer_read_back [OF assms])

theorem format_reads_back_witness:
  "reads_back (Int8 (- 128)) (chars (format grow_fixed ''{:b}'' [Int8 (- 128)] (fixed_string 70))) 2"
  using format_reads_back [of "CHR ''b''" "Int8 (- 128)" 70] by (simp add: integer_types_def base_of_def)

text \<open>C17: A format specification means what it says: the text of any specification of the grammar (fill and
  alignment, sign, alternate form, zero fill, width, precision, type), after any argument id, is
  parsed into exactly its options, an alignment overriding the zero fill.\<close>

theorem format_spec_roundtrip:
  assumes "spec_ok sp" and "CHR '':'' \<notin> set arg_id"
  shows "ParseArgFormatString (arg_id @ '':'' @ print_spec sp) = Some (options_of sp)"
  by (rule parse_printed [OF assms])

theorem format_spec_roundtrip_witness:
  "ParseArgFormatString (''2'' @ '':'' @ print_spec \<lparr>spec_align = Some (Some CHR ''<'', Center), spec_sign = Some Space,
      spec_alt = True, spec_zero = True, spec_width = Some 10, spec_precision = Some 0, spec_type = Some CHR ''x''\<rparr>) =
   Some (options_of \<lparr>spec_align = Some (Some CHR ''<'', Center), spec_sign = Some Space,
      spec_alt = True, spec_zero = True, spec_width = Some 10, spec_precision = Some 0, spec_type = Some CHR ''x''\<rparr>)"
  by (rule format_spec_roundtrip) (simp_all add: spec_ok_def isalpha_def)

text \<open>C15: Decimals are exact: a finite \<^verbatim>\<open>double\<close> below 2 to the 64, printed with 0 to 19 decimals, is its
  exact binary value rounded to that many decimals, half to even; the digits before and after the
  point read together as that rounded multiple of the last decimal place.  There is a point exactly if there
  are decimals.\<close>

theorem float_correctly_rounded:
  assumes "significand b * 2 ^ up b < 2 ^ 64 * 2 ^ down b" and "\<not> is_nan b" and "\<not> is_inf b" and "k \<le> 19" and "41 \<le> n"
  shows "\<exists>i f. chars (format grow_fixed (''{:.'' @ decimal k @ ''}'') [Double_Value b] (fixed_string n)) =
      (if signbit b then ''-'' else []) @ i @ (if k = 0 then [] else ''.'') @ f \<and> i \<noteq> [] \<and> length f = k \<and> list_all isdigit (i @ f) \<and>
    dec_value 0 (i @ f) = half_even (significand b * 2 ^ up b * 10 ^ k) (2 ^ down b)"
  by (rule float_rounds [OF assms])

text \<open>The \<^verbatim>\<open>double\<close> 0.125, which is a tie at two decimals, and 2.5, which is one without decimals.\<close>

theorem float_correctly_rounded_witness:
  "(\<exists>i f. chars (format grow_fixed ''{:.2}'' [Double_Value 0x3FC0000000000000] (fixed_string 64)) = i @ ''.'' @ f \<and>
    length f = 2 \<and> dec_value 0 (i @ f) = 12) \<and>
   (\<exists>i. chars (format grow_fixed ''{:.0}'' [Double_Value 0x4004000000000000] (fixed_string 64)) = i \<and> dec_value 0 i = 2)"
proof
  let ?b = "0x3FC0000000000000 :: u64"
  have v: "significand ?b = 2 ^ 52" "up ?b = 0" "down ?b = 55" "\<not> is_nan ?b" "\<not> is_inf ?b" "\<not> signbit ?b"
  proof -
    have "exponent_field ?b = 1020" "fraction_field ?b = 0" by (simp_all add: exponent_field_def fraction_field_def)
    then show "significand ?b = 2 ^ 52" "up ?b = 0" "down ?b = 55" "\<not> is_nan ?b" "\<not> is_inf ?b"
      by (simp_all add: significand_def up_def down_def is_nan_def is_inf_def)
    show "\<not> signbit ?b" by (simp add: signbit_def)
  qed
  have d: "decimal 2 = ''2''" by code_simp
  have h: "half_even (2 ^ 52 * 2 ^ 0 * 10 ^ 2) (2 ^ 55) = 12" by (simp add: half_even_def)
  show "\<exists>i f. chars (format grow_fixed ''{:.2}'' [Double_Value ?b] (fixed_string 64)) = i @ ''.'' @ f \<and>
    length f = 2 \<and> dec_value 0 (i @ f) = 12"
    using float_correctly_rounded [of ?b 2 64] v(4-6) unfolding v(1-3) d h by auto
next
  let ?b = "0x4004000000000000 :: u64"
  have v: "significand ?b = 5 * 2 ^ 50" "up ?b = 0" "down ?b = 51" "\<not> is_nan ?b" "\<not> is_inf ?b" "\<not> signbit ?b"
  proof -
    have "exponent_field ?b = 1024" "fraction_field ?b = 2 ^ 50" by (simp_all add: exponent_field_def fraction_field_def)
    then show "significand ?b = 5 * 2 ^ 50" "up ?b = 0" "down ?b = 51" "\<not> is_nan ?b" "\<not> is_inf ?b"
      by (simp_all add: significand_def up_def down_def is_nan_def is_inf_def)
    show "\<not> signbit ?b" by (simp add: signbit_def)
  qed
  have d: "decimal 0 = ''0''" by code_simp
  have h: "half_even (5 * 2 ^ 50 * 2 ^ 0 * 10 ^ 0) (2 ^ 51) = 2" by (simp add: half_even_def)
  show "\<exists>i. chars (format grow_fixed ''{:.0}'' [Double_Value ?b] (fixed_string 64)) = i \<and> dec_value 0 i = 2"
    using float_correctly_rounded [of ?b 0 64] v(4-6) unfolding v(1-3) d h by auto
qed

text \<open>Escaping is exact: a text whose braces are doubled is printed as the text itself, cut to the
  capacity, whatever the arguments.\<close>

theorem format_escaped:
  assumes "no_NUL s"
  shows "chars (format grow_fixed (escape s) vals (fixed_string n)) = take n s"
  using escaped_loop [OF assms, of "[]"] by (simp add: format_def BuildFormatOutput_def fixed_string_holds)

theorem format_escaped_witness:
  "chars (format grow_fixed (escape ''a{0}}b'') [] (fixed_string 5)) = ''a{0}}''"
  using format_escaped [of "''a{0}}b''" "[]" 5] by (simp add: no_NUL_def)

end
