(* ===== verification/Spsc_Queue.thy ===== *)
theory Spsc_Queue
  imports Prelude
begin

text \<open>
  \<^verbatim>\<open>spsc_queue\<close> (\<^verbatim>\<open>include/lockfree/spsc_queue\<close>): a bounded ring between one producer and one
  consumer.  A slot of the ring is \<open>Some v\<close> while it holds a constructed object and \<open>None\<close> while it
  is raw memory; constructing over an object and reading or destroying raw memory are undefined, and
  a step that would do so is \<^term>\<open>None\<close>.

  Each member function is a sequence of steps with one access to shared memory each, taken in the
  order of the code.  \<open>spsc_step\<close> interleaves the steps of the producer with those of the consumer;
  \<open>push_back\<close> and the other calls run the same steps without interference.
\<close>

section \<open>The ring\<close>

record 'a spsc =
  ring_size :: nat
  ring_elements :: "'a option list option"
  read_index :: u32
  write_index :: u32

definition spsc_queue :: "nat \<Rightarrow> bool \<Rightarrow> 'a spsc" where
  "spsc_queue n allocated =
     \<lparr>ring_size = n, ring_elements = (if allocated then Some (replicate n None) else None), read_index = 0, write_index = 0\<rparr>"

definition capacity :: "'a spsc \<Rightarrow> nat" where
  "capacity s = (if ring_size s > 0 then ring_size s - 1 else 0)"

definition next_index :: "nat \<Rightarrow> u32 \<Rightarrow> u32" where
  "next_index n current = (let nxt = current + 1 in if unat nxt = n then 0 else nxt)"

definition empty :: "'a spsc \<Rightarrow> bool" where
  "empty s \<longleftrightarrow> read_index s = write_index s"

definition full :: "'a spsc \<Rightarrow> bool" where
  "full s \<longleftrightarrow> next_index (ring_size s) (write_index s) = read_index s"

text \<open>An \<^verbatim>\<open>int\<close> receives the difference of the indices, and the sum with the size on a wrap.\<close>

definition size_estimate :: "'a spsc \<Rightarrow> u64" where
  "size_estimate s =
     (let guess = write_index s - read_index s :: u32;
          guess = (if sint guess < 0 then ucast (scast guess + of_nat (ring_size s) :: u64) else guess)
      in scast guess)"

section \<open>Steps\<close>

definition slot :: "'a spsc \<Rightarrow> u32 \<Rightarrow> 'a option option" where
  "slot s i = (case ring_elements s of
     None \<Rightarrow> None
   | Some es \<Rightarrow> if unat i < length es then Some (es ! unat i) else None)"

definition write_slot :: "u32 \<Rightarrow> 'a option \<Rightarrow> 'a spsc \<Rightarrow> 'a spsc" where
  "write_slot i v s = s\<lparr>ring_elements := map_option (\<lambda>es. es[unat i := v]) (ring_elements s)\<rparr>"

definition construct_slot :: "u32 \<Rightarrow> 'a \<Rightarrow> 'a spsc \<Rightarrow> 'a spsc option" where
  "construct_slot i v s = (case slot s i of Some None \<Rightarrow> Some (write_slot i (Some v) s) | _ \<Rightarrow> None)"

definition destroy_slot :: "u32 \<Rightarrow> 'a spsc \<Rightarrow> 'a spsc option" where
  "destroy_slot i s = (case slot s i of Some (Some _) \<Rightarrow> Some (write_slot i None s) | _ \<Rightarrow> None)"

datatype 'a event = Pushed 'a | Push_Refused | Popped 'a | Dropped | Was_Empty | Peeked 'a

datatype 'a producer =
    Producer_Idle
  | Push_Begin 'a
  | Push_Loaded 'a u32
  | Push_Room 'a u32 u32
  | Push_Built 'a u32

fun producer_step :: "'a spsc \<Rightarrow> 'a producer \<Rightarrow> ('a spsc \<times> 'a producer \<times> 'a event option) option" where
  "producer_step s Producer_Idle = None"
| "producer_step s (Push_Begin v) =
     (if ring_size s < 2 \<or> ring_elements s = None then Some (s, Producer_Idle, Some Push_Refused)
      else Some (s, Push_Loaded v (write_index s), None))"
| "producer_step s (Push_Loaded v current) =
     (let nxt = next_index (ring_size s) current
      in if nxt \<noteq> read_index s then Some (s, Push_Room v current nxt, None)
         else Some (s, Producer_Idle, Some Push_Refused))"
| "producer_step s (Push_Room v current nxt) =
     map_option (\<lambda>s. (s, Push_Built v nxt, None)) (construct_slot current v s)"
| "producer_step s (Push_Built v nxt) = Some (s\<lparr>write_index := nxt\<rparr>, Producer_Idle, Some (Pushed v))"

text \<open>\<open>Take\<close> is \<^verbatim>\<open>pop_front\<close> when its flag is set, which moves the element out, and \<^verbatim>\<open>popFront\<close>
  otherwise; \<open>Front\<close> is \<^verbatim>\<open>front\<close>, whose reference is read as soon as it is made.\<close>

datatype 'a consumer =
    Consumer_Idle
  | Take_Begin bool
  | Take_Loaded bool u32
  | Take_Move u32 u32
  | Take_Destroy "'a option" u32 u32
  | Take_Store "'a option" u32
  | Front_Begin
  | Front_Loaded u32

fun consumer_step :: "'a spsc \<Rightarrow> 'a consumer \<Rightarrow> ('a spsc \<times> 'a consumer \<times> 'a event option) option" where
  "consumer_step s Consumer_Idle = None"
| "consumer_step s (Take_Begin moves) = Some (s, Take_Loaded moves (read_index s), None)"
| "consumer_step s (Take_Loaded moves current) =
     (if current = write_index s then Some (s, Consumer_Idle, Some Was_Empty)
      else let nxt = next_index (ring_size s) current
           in Some (s, if moves then Take_Move current nxt else Take_Destroy None current nxt, None))"
| "consumer_step s (Take_Move current nxt) =
     (case slot s current of Some (Some v) \<Rightarrow> Some (s, Take_Destroy (Some v) current nxt, None) | _ \<Rightarrow> None)"
| "consumer_step s (Take_Destroy v current nxt) =
     map_option (\<lambda>s. (s, Take_Store v nxt, None)) (destroy_slot current s)"
| "consumer_step s (Take_Store v nxt) =
     Some (s\<lparr>read_index := nxt\<rparr>, Consumer_Idle, Some (case v of None \<Rightarrow> Dropped | Some x \<Rightarrow> Popped x))"
| "consumer_step s Front_Begin = Some (s, Front_Loaded (read_index s), None)"
| "consumer_step s (Front_Loaded current) =
     (if current = write_index s then Some (s, Consumer_Idle, Some Was_Empty)
      else case slot s current of Some (Some v) \<Rightarrow> Some (s, Consumer_Idle, Some (Peeked v)) | _ \<Rightarrow> None)"

type_synonym 'a spsc_config = "'a spsc \<times> 'a producer \<times> 'a consumer"

inductive spsc_step :: "'a spsc_config \<Rightarrow> 'a event option \<Rightarrow> 'a spsc_config \<Rightarrow> bool" where
  call_push: "spsc_step (s, Producer_Idle, c) None (s, Push_Begin v, c)"
| call_take: "spsc_step (s, p, Consumer_Idle) None (s, p, Take_Begin moves)"
| call_front: "spsc_step (s, p, Consumer_Idle) None (s, p, Front_Begin)"
| produce: "producer_step s p = Some (s', p', e) \<Longrightarrow> spsc_step (s, p, c) e (s', p', c)"
| consume: "consumer_step s c = Some (s', c', e) \<Longrightarrow> spsc_step (s, p, c) e (s', p, c')"

inductive spsc_run :: "'a spsc_config \<Rightarrow> 'a event list \<Rightarrow> 'a spsc_config \<Rightarrow> bool" where
  start: "spsc_run k [] k"
| silent: "spsc_run k tr k' \<Longrightarrow> spsc_step k' None k'' \<Longrightarrow> spsc_run k tr k''"
| visible: "spsc_run k tr k' \<Longrightarrow> spsc_step k' (Some e) k'' \<Longrightarrow> spsc_run k (tr @ [e]) k''"

inductive_cases spsc_stepE: "spsc_step (s, p, c) e k"

section \<open>The calls without interference\<close>

primrec producer_phase :: "'a producer \<Rightarrow> nat" where
  "producer_phase Producer_Idle = 0"
| "producer_phase (Push_Begin v) = 4"
| "producer_phase (Push_Loaded v i) = 3"
| "producer_phase (Push_Room v i j) = 2"
| "producer_phase (Push_Built v j) = 1"

primrec consumer_phase :: "'a consumer \<Rightarrow> nat" where
  "consumer_phase Consumer_Idle = 0"
| "consumer_phase (Take_Begin m) = 5"
| "consumer_phase (Take_Loaded m i) = 4"
| "consumer_phase (Take_Move i j) = 3"
| "consumer_phase (Take_Destroy v i j) = 2"
| "consumer_phase (Take_Store v j) = 1"
| "consumer_phase Front_Begin = 2"
| "consumer_phase (Front_Loaded i) = 1"

lemma producer_step_phase: "producer_step s p = Some (s', p', e) \<Longrightarrow> producer_phase p' < producer_phase p"
  by (cases p) (auto simp: Let_def split: if_splits)

lemma consumer_step_phase: "consumer_step s c = Some (s', c', e) \<Longrightarrow> consumer_phase c' < consumer_phase c"
  by (cases c) (auto simp: Let_def split: if_splits option.splits)

function run_producer :: "'a spsc \<Rightarrow> 'a producer \<Rightarrow> ('a spsc \<times> 'a event) option" where
  "run_producer s p = (case producer_step s p of
     None \<Rightarrow> None
   | Some (s', p', Some e) \<Rightarrow> Some (s', e)
   | Some (s', p', None) \<Rightarrow> run_producer s' p')"
  by auto
termination by (relation "measure (\<lambda>(s, p). producer_phase p)") (auto dest: producer_step_phase)

function run_consumer :: "'a spsc \<Rightarrow> 'a consumer \<Rightarrow> ('a spsc \<times> 'a event) option" where
  "run_consumer s c = (case consumer_step s c of
     None \<Rightarrow> None
   | Some (s', c', Some e) \<Rightarrow> Some (s', e)
   | Some (s', c', None) \<Rightarrow> run_consumer s' c')"
  by auto
termination by (relation "measure (\<lambda>(s, c). consumer_phase c)") (auto dest: consumer_step_phase)

declare run_producer.simps [simp del] run_consumer.simps [simp del]

definition push_back :: "'a \<Rightarrow> 'a spsc \<Rightarrow> ('a spsc \<times> 'a event) option" where
  "push_back v s = run_producer s (Push_Begin v)"

definition pop_front :: "'a spsc \<Rightarrow> ('a spsc \<times> 'a event) option" where
  "pop_front s = run_consumer s (Take_Begin True)"

definition popFront :: "'a spsc \<Rightarrow> ('a spsc \<times> 'a event) option" where
  "popFront s = run_consumer s (Take_Begin False)"

definition front :: "'a spsc \<Rightarrow> ('a spsc \<times> 'a event) option" where
  "front s = run_consumer s Front_Begin"

text \<open>The destructor: the remaining objects are destroyed in the order they would be popped.\<close>

partial_function (option) destroy_from :: "u32 \<Rightarrow> u32 \<Rightarrow> 'a spsc \<Rightarrow> 'a spsc option" where
  "destroy_from current stop s =
     (if current = stop then Some s
      else case destroy_slot current s of
             None \<Rightarrow> None
           | Some s \<Rightarrow> destroy_from (next_index (ring_size s) current) stop s)"

definition destroy_ring :: "'a spsc \<Rightarrow> 'a spsc option" where
  "destroy_ring s = destroy_from (read_index s) (write_index s) s"


section \<open>The queue it implements\<close>

text \<open>A bounded queue whose operations are atomic: what each answer says of the content, and what it
  does to it.\<close>

fun atomic_queue :: "nat \<Rightarrow> 'a list \<Rightarrow> 'a event \<Rightarrow> 'a list option" where
  "atomic_queue room q (Pushed v) = (if length q < room then Some (q @ [v]) else None)"
| "atomic_queue room q Push_Refused = (if length q = room then Some q else None)"
| "atomic_queue room (x # q) (Popped v) = (if v = x then Some q else None)"
| "atomic_queue room (x # q) Dropped = Some q"
| "atomic_queue room (x # q) (Peeked v) = (if v = x then Some (x # q) else None)"
| "atomic_queue room [] Was_Empty = Some []"
| "atomic_queue room q e = None"

fun atomic_run :: "nat \<Rightarrow> 'a list \<Rightarrow> 'a event list \<Rightarrow> 'a list option" where
  "atomic_run room q [] = Some q"
| "atomic_run room q (e # tr) = (case atomic_queue room q e of None \<Rightarrow> None | Some q \<Rightarrow> atomic_run room q tr)"

lemma atomic_run_snoc [simp]:
  "atomic_run room q (tr @ [e]) = (case atomic_run room q tr of None \<Rightarrow> None | Some q \<Rightarrow> atomic_queue room q e)"
  by (induction tr arbitrary: q) (auto split: option.split)

definition room :: "'a spsc \<Rightarrow> nat" where
  "room s = (if ring_elements s = None then 0 else capacity s)"

section \<open>The invariant\<close>

text \<open>The positions pushed and popped so far, \<open>t\<close> and \<open>h\<close>, count without wrapping; the indices are
  these counts modulo the size of the ring.\<close>

fun built :: "'a producer \<Rightarrow> 'a option" where
  "built (Push_Built v nxt) = Some v"
| "built p = None"

fun taken :: "'a consumer \<Rightarrow> bool" where
  "taken (Take_Store v nxt) = True"
| "taken c = False"

fun producer_ok :: "'a spsc \<Rightarrow> nat \<Rightarrow> 'a producer \<Rightarrow> bool" where
  "producer_ok s len (Push_Loaded v current) \<longleftrightarrow> current = write_index s"
| "producer_ok s len (Push_Room v current nxt) \<longleftrightarrow>
     current = write_index s \<and> nxt = next_index (ring_size s) current \<and> len + 1 < ring_size s"
| "producer_ok s len (Push_Built v nxt) \<longleftrightarrow> nxt = next_index (ring_size s) (write_index s) \<and> len + 1 < ring_size s"
| "producer_ok s len p \<longleftrightarrow> True"

fun consumer_ok :: "'a spsc \<Rightarrow> 'a list \<Rightarrow> 'a consumer \<Rightarrow> bool" where
  "consumer_ok s q (Take_Loaded m current) \<longleftrightarrow> current = read_index s"
| "consumer_ok s q (Take_Move current nxt) \<longleftrightarrow> current = read_index s \<and> nxt = next_index (ring_size s) current \<and> q \<noteq> []"
| "consumer_ok s q (Take_Destroy v current nxt) \<longleftrightarrow>
     current = read_index s \<and> nxt = next_index (ring_size s) current \<and> q \<noteq> [] \<and> (v = None \<or> v = Some (hd q))"
| "consumer_ok s q (Take_Store v nxt) \<longleftrightarrow>
     nxt = next_index (ring_size s) (read_index s) \<and> q \<noteq> [] \<and> (v = None \<or> v = Some (hd q))"
| "consumer_ok s q (Front_Loaded current) \<longleftrightarrow> current = read_index s"
| "consumer_ok s q c \<longleftrightarrow> True"

definition ring_holds :: "'a option list \<Rightarrow> nat \<Rightarrow> nat \<Rightarrow> 'a list \<Rightarrow> 'a option \<Rightarrow> bool \<Rightarrow> bool" where
  "ring_holds es h t q b m \<longleftrightarrow> t = h + length q \<and> t < h + length es \<and>
     (\<forall>i. h \<le> i \<and> i < h + length es \<longrightarrow>
        es ! (i mod length es) = (if i < t then if i = h \<and> m then None else Some (q ! (i - h)) else if i = t then b else None))"

definition ring_state :: "'a spsc \<Rightarrow> 'a list \<Rightarrow> 'a option \<Rightarrow> bool \<Rightarrow> bool" where
  "ring_state s q b m \<longleftrightarrow> (\<exists>es h t. ring_elements s = Some es \<and> length es = ring_size s \<and> ring_size s \<le> 2 ^ 32 \<and>
     unat (read_index s) = h mod length es \<and> unat (write_index s) = t mod length es \<and> ring_holds es h t q b m)"

definition spsc_inv :: "'a spsc_config \<Rightarrow> 'a list \<Rightarrow> bool" where
  "spsc_inv k q \<longleftrightarrow> (case k of (s, p, c) \<Rightarrow>
     producer_ok s (length q) p \<and> consumer_ok s q c \<and>
     (if ring_size s < 2 \<or> ring_elements s = None
      then q = [] \<and> read_index s = write_index s \<and> producer_phase p \<in> {0, 4}
      else ring_state s q (built p) (taken c)))"

lemma next_index_mod:
  assumes "unat i = k mod n" "2 \<le> n" "n \<le> 2 ^ 32"
  shows "unat (next_index n i) = Suc k mod n"
proof -
  have "k mod n < n" using assms(2) by simp
  moreover from this have "k mod n < 4294967296" using assms(3) by simp
  ultimately have w: "unat (i + 1) = (if k mod n + 1 = 2 ^ 32 then 0 else k mod n + 1)"
    using assms by (simp add: unat_word_ariths mod_Suc)
  have "Suc k mod n = (if Suc (k mod n) = n then 0 else Suc (k mod n))" by (simp add: mod_Suc)
  then show ?thesis using w \<open>k mod n < n\<close> assms(3) by (auto simp: next_index_def Let_def)
qed

lemma mod_eq_near:
  assumes "(h :: nat) \<le> t" "t < h + n"
  shows "h mod n = t mod n \<longleftrightarrow> h = t"
proof
  assume "h mod n = t mod n"
  then have "n dvd t - h" using assms(1) by (metis mod_eq_dvd_iff_nat)
  then show "h = t" using assms by (metis add_diff_cancel_left' diff_less_mono dvd_imp_le le_add_diff_inverse le_neq_implies_less nat_dvd_not_less zero_less_diff less_diff_conv2 add.commute)
qed simp

lemma ring_full:
  assumes "ring_holds es h t q b m" "2 \<le> length es"
  shows "Suc t mod length es = h mod length es \<longleftrightarrow> length q = length es - 1"
proof -
  have t: "t = h + length q" "t < h + length es" using assms(1) by (simp_all add: ring_holds_def)
  show ?thesis
  proof (cases "length q = length es - 1")
    case True
    then have "Suc t = h + length es" using t assms(2) by simp
    then show ?thesis using True by simp
  next
    case False
    then have "Suc t < h + length es" "h \<le> Suc t" "h \<noteq> Suc t" using t by simp_all
    then show ?thesis using False mod_eq_near [of h "Suc t" "length es"] by auto
  qed
qed

lemma ring_empty:
  assumes "ring_holds es h t q b m"
  shows "h mod length es = t mod length es \<longleftrightarrow> q = []"
  using assms mod_eq_near [of h t "length es"] by (auto simp: ring_holds_def)

lemma ring_slot:
  assumes "ring_holds es h t q b m"
  shows "es ! (t mod length es) = b" and "q \<noteq> [] \<Longrightarrow> es ! (h mod length es) = (if m then None else Some (hd q))"
proof -
  have at: "h \<le> i \<Longrightarrow> i < h + length es \<Longrightarrow>
      es ! (i mod length es) = (if i < t then if i = h \<and> m then None else Some (q ! (i - h)) else if i = t then b else None)" for i
    using assms by (simp add: ring_holds_def)
  have t: "t = h + length q" "t < h + length es" using assms by (simp_all add: ring_holds_def)
  show "es ! (t mod length es) = b" using at [of t] t by simp
  show "q \<noteq> [] \<Longrightarrow> es ! (h mod length es) = (if m then None else Some (hd q))" using at [of h] t by (cases "es = []") (auto simp: hd_conv_nth)
qed

lemma mod_inj:
  assumes "(h :: nat) \<le> i" "i < h + n" "h \<le> j" "j < h + n"
  shows "i mod n = j mod n \<longleftrightarrow> i = j"
  using mod_eq_near [of i j n] mod_eq_near [of j i n] assms by (cases "i \<le> j") auto

lemma nth_upd_mod:
  assumes "h \<le> i" "i < h + length es" "h \<le> j" "j < h + length es"
  shows "es[j mod length es := v] ! (i mod length es) = (if i = j then v else es ! (i mod length es))"
proof -
  have "length es > 0" using assms by (cases es) auto
  then show ?thesis using mod_inj [OF assms] by (cases "i = j") (simp_all add: nth_list_update)
qed

lemma holds_build:
  assumes "ring_holds es h t q None m"
  shows "ring_holds (es[t mod length es := Some v]) h t q (Some v) m"
  using assms nth_upd_mod [of h _ es t] unfolding ring_holds_def by auto

lemma holds_commit:
  assumes "ring_holds es h t q (Some v) m" "Suc t < h + length es"
  shows "ring_holds es h (Suc t) (q @ [v]) None (m \<and> q \<noteq> [])"
  using assms unfolding ring_holds_def by (auto simp: nth_append less_Suc_eq)

lemma holds_take:
  assumes "ring_holds es h t q b False" "q \<noteq> []"
  shows "ring_holds (es[h mod length es := None]) h t q b True"
proof -
  have "es \<noteq> []" using assms by (auto simp: ring_holds_def)
  then show ?thesis using assms nth_upd_mod [of h _ es h] unfolding ring_holds_def by auto
qed

lemma holds_drop:
  assumes "ring_holds es h t (x # q) b True"
  shows "ring_holds es (Suc h) t q b False"
proof -
  have at: "es ! (i mod length es) = (if i < t then if i = h then None else Some ((x # q) ! (i - h)) else if i = t then b else None)"
    if "h \<le> i" "i < h + length es" for i using assms that by (simp add: ring_holds_def)
  have t: "t = Suc h + length q" "t < h + length es" using assms by (simp_all add: ring_holds_def)
  have "es ! (i mod length es) = (if i < t then Some (q ! (i - Suc h)) else if i = t then b else None)"
    if "Suc h \<le> i" "i < Suc h + length es" for i
  proof (cases "i = h + length es")
    case True
    moreover have "es ! (h mod length es) = None" using at [of h] t by (cases "es = []") auto
    ultimately show ?thesis using t by simp
  next
    case False
    then show ?thesis using at [of i] that t by (auto simp: Suc_diff_Suc nth_Cons')
  qed
  then show ?thesis using t by (simp add: ring_holds_def)
qed


definition effect :: "nat \<Rightarrow> 'a event option \<Rightarrow> 'a list \<Rightarrow> 'a list \<Rightarrow> bool" where
  "effect n e q q' \<longleftrightarrow> (case e of None \<Rightarrow> q' = q | Some e \<Rightarrow> atomic_queue n q e = Some q')"

lemma spsc_inv_usable:
  assumes "2 \<le> ring_size s" "ring_elements s = Some es"
  shows "spsc_inv (s, p, c) q \<longleftrightarrow> producer_ok s (length q) p \<and> consumer_ok s q c \<and> ring_state s q (built p) (taken c)"
  using assms by (auto simp: spsc_inv_def)

lemma slot_usable: "ring_elements s = Some es \<Longrightarrow> unat i = k mod length es \<Longrightarrow> es \<noteq> [] \<Longrightarrow> slot s i = Some (es ! (k mod length es))"
  by (simp add: slot_def)

lemma room_usable: "ring_elements s = Some es \<Longrightarrow> room s = ring_size s - 1"
  by (simp add: room_def capacity_def)

lemma room_unusable: "ring_size s < 2 \<or> ring_elements s = None \<Longrightarrow> room s = 0"
  by (auto simp: room_def capacity_def)

lemma consumer_ok_cong:
  "ring_size s' = ring_size s \<Longrightarrow> read_index s' = read_index s \<Longrightarrow> consumer_ok s' q c = consumer_ok s q c"
  by (cases c) auto

lemma consumer_ok_snoc: "consumer_ok s q c \<Longrightarrow> consumer_ok s (q @ [v]) c"
  by (cases c) auto

lemma producer_ok_cong:
  "ring_size s' = ring_size s \<Longrightarrow> write_index s' = write_index s \<Longrightarrow> producer_ok s' n p = producer_ok s n p"
  by (cases p) auto

lemma producer_ok_less: "producer_ok s n p \<Longrightarrow> m \<le> n \<Longrightarrow> producer_ok s m p"
  by (cases p) auto

lemma producer_step_inv:
  assumes inv: "spsc_inv (s, p, c) q" and p: "p \<noteq> Producer_Idle"
  shows "\<exists>s' p' e q'. producer_step s p = Some (s', p', e) \<and> spsc_inv (s', p', c) q' \<and> effect (room s) e q q' \<and> room s' = room s"
proof (cases "ring_size s < 2 \<or> ring_elements s = None")
  case True
  then have "q = []" "producer_phase p = 4" using inv p by (cases p; auto simp: spsc_inv_def split: if_splits)+
  then obtain v where "p = Push_Begin v" by (cases p) auto
  then show ?thesis using True inv \<open>q = []\<close> room_unusable [OF True] by (auto simp: spsc_inv_def effect_def)
next
  case False
  then obtain es where es: "ring_elements s = Some es" and n: "2 \<le> ring_size s" by auto
  note usable = spsc_inv_usable [OF n es]
  from inv obtain h t where ok: "producer_ok s (length q) p" "consumer_ok s q c" and len: "length es = ring_size s" "ring_size s \<le> 2 ^ 32"
    and h: "unat (read_index s) = h mod length es" and t: "unat (write_index s) = t mod length es"
    and holds: "ring_holds es h t q (built p) (taken c)" unfolding usable by (auto simp: ring_state_def es)
  have nxt: "unat (next_index (ring_size s) (write_index s)) = Suc t mod length es" using next_index_mod [OF t] n len by simp
  have "es \<noteq> []" using n len by auto
  show ?thesis
  proof (cases p)
    case (Push_Begin v)
    then show ?thesis using inv es n by (auto simp: usable effect_def)
  next
    case (Push_Loaded v current)
    then have "current = write_index s" using ok(1) by simp
    moreover have "next_index (ring_size s) (write_index s) = read_index s \<longleftrightarrow> length q = ring_size s - 1"
      using ring_full [OF holds] nxt h n len by (simp add: word_unat_eq_iff)
    ultimately have "next_index (ring_size s) current = read_index s \<longleftrightarrow> length q = ring_size s - 1" by simp
    moreover have "length q < ring_size s" using holds len by (simp add: ring_holds_def)
    ultimately show ?thesis using Push_Loaded inv ok room_usable [OF es] by (auto simp: usable effect_def)
  next
    case (Push_Room v current nx)
    then have p: "current = write_index s" "nx = next_index (ring_size s) current" "length q + 1 < ring_size s" using ok by auto
    let ?s = "write_slot current (Some v) s"
    have "construct_slot current v s = Some ?s"
      using slot_usable [OF es t \<open>es \<noteq> []\<close>] ring_slot(1) [OF holds] Push_Room p by (simp add: construct_slot_def)
    moreover have "ring_holds (es[t mod length es := Some v]) h t q (Some v) (taken c)"
      using holds_build [of es h t q "taken c" v] holds Push_Room by simp
    then have "ring_state ?s q (Some v) (taken c)" using es h t len p unfolding ring_state_def
      by (intro exI [of _ "es[t mod length es := Some v]"] exI [of _ h] exI [of _ t]) (simp add: write_slot_def)
    moreover have "consumer_ok ?s q c" using ok(2) consumer_ok_cong [of ?s s] by (simp add: write_slot_def)
    ultimately show ?thesis using Push_Room p es n
      by (simp add: effect_def room_def capacity_def spsc_inv_def) (simp add: write_slot_def)
  next
    case (Push_Built v nx)
    then have p: "nx = next_index (ring_size s) (write_index s)" "length q + 1 < ring_size s" using ok by auto
    have "Suc t < h + length es" using p holds len by (simp add: ring_holds_def)
    then have "ring_holds es h (Suc t) (q @ [v]) None (taken c \<and> q \<noteq> [])" using holds_commit [of es h t q v] holds Push_Built by simp
    moreover have "taken c \<and> q \<noteq> [] \<longleftrightarrow> taken c" using ok(2) by (cases c) auto
    ultimately have "ring_state (s\<lparr>write_index := nx\<rparr>) (q @ [v]) None (taken c)" using es h len nxt p unfolding ring_state_def
      by (intro exI [of _ es] exI [of _ h] exI [of _ "Suc t"]) simp
    moreover have "consumer_ok (s\<lparr>write_index := nx\<rparr>) (q @ [v]) c"
      using consumer_ok_snoc [OF ok(2)] consumer_ok_cong [of "s\<lparr>write_index := nx\<rparr>" s] by simp
    moreover have "length q < room s" using p room_usable [OF es] by auto
    ultimately show ?thesis using Push_Built es n by (auto simp: effect_def room_def capacity_def spsc_inv_def)
  qed (use p in simp)
qed

lemma consumer_step_inv:
  assumes inv: "spsc_inv (s, p, c) q" and c: "c \<noteq> Consumer_Idle"
  shows "\<exists>s' c' e q'. consumer_step s c = Some (s', c', e) \<and> spsc_inv (s', p, c') q' \<and> effect (room s) e q q' \<and> room s' = room s"
proof (cases "ring_size s < 2 \<or> ring_elements s = None")
  case True
  then have "q = []" "read_index s = write_index s" using inv by (auto simp: spsc_inv_def split: if_splits)
  then show ?thesis using True inv c by (cases c) (auto simp: spsc_inv_def effect_def)
next
  case False
  then obtain es where es: "ring_elements s = Some es" and n: "2 \<le> ring_size s" by auto
  note usable = spsc_inv_usable [OF n es]
  from inv obtain h t where ok: "producer_ok s (length q) p" "consumer_ok s q c" and len: "length es = ring_size s" "ring_size s \<le> 2 ^ 32"
    and h: "unat (read_index s) = h mod length es" and t: "unat (write_index s) = t mod length es"
    and holds: "ring_holds es h t q (built p) (taken c)" unfolding usable by (auto simp: ring_state_def es)
  have nxt: "unat (next_index (ring_size s) (read_index s)) = Suc h mod length es" using next_index_mod [OF h] n len by simp
  have "es \<noteq> []" using n len by auto
  note at = slot_usable [OF es h this] and first = ring_slot(2) [OF holds]
  have none: "read_index s = write_index s \<longleftrightarrow> q = []" using ring_empty [OF holds] h t by (simp add: word_unat_eq_iff)
  show ?thesis
  proof (cases c)
    case (Take_Begin m)
    then show ?thesis using inv by (auto simp: usable effect_def)
  next
    case (Take_Loaded m current)
    then show ?thesis using inv ok none by (cases m) (auto simp: usable effect_def Let_def)
  next
    case (Take_Move current nx)
    then show ?thesis using inv ok at first by (auto simp: usable effect_def)
  next
    case (Take_Destroy v current nx)
    then have c: "current = read_index s" "nx = next_index (ring_size s) current" "q \<noteq> []" "v = None \<or> v = Some (hd q)" using ok by auto
    let ?s = "write_slot current None s"
    have "destroy_slot current s = Some ?s" using c at first Take_Destroy by (simp add: destroy_slot_def)
    moreover have "ring_holds (es[h mod length es := None]) h t q (built p) True"
      using holds_take [of es h t q "built p"] holds Take_Destroy c by simp
    then have "ring_state ?s q (built p) True" using es h t len c unfolding ring_state_def
      by (intro exI [of _ "es[h mod length es := None]"] exI [of _ h] exI [of _ t]) (simp add: write_slot_def)
    moreover have "producer_ok ?s (length q) p" using ok(1) producer_ok_cong [of ?s s] by (simp add: write_slot_def)
    ultimately show ?thesis using Take_Destroy c es n
      by (simp add: effect_def room_def capacity_def spsc_inv_def) (simp add: write_slot_def)
  next
    case (Take_Store v nx)
    then obtain x r where q: "q = x # r" using ok by (cases q) auto
    then have "ring_holds es (Suc h) t r (built p) False" using holds_drop [of es h t x r "built p"] holds Take_Store by simp
    moreover have nx: "nx = next_index (ring_size s) (read_index s)" "v = None \<or> v = Some x" using Take_Store ok q by auto
    ultimately have "ring_state (s\<lparr>read_index := nx\<rparr>) r (built p) False" using es t len nxt unfolding ring_state_def
      by (intro exI [of _ es] exI [of _ "Suc h"] exI [of _ t]) simp
    moreover have "producer_ok (s\<lparr>read_index := nx\<rparr>) (length r) p"
      using producer_ok_less [OF ok(1)] producer_ok_cong [of "s\<lparr>read_index := nx\<rparr>" s] q by simp
    ultimately show ?thesis using Take_Store nx q es n by (auto simp: effect_def room_def capacity_def spsc_inv_def)
  next
    case Front_Begin
    then show ?thesis using inv by (auto simp: usable effect_def)
  next
    case (Front_Loaded current)
    then show ?thesis using inv ok none at first by (cases q) (auto simp: usable effect_def)
  qed (use c in simp)
qed


section \<open>Runs\<close>

abbreviation idle_ring :: "nat \<Rightarrow> bool \<Rightarrow> 'a spsc_config" where
  "idle_ring n allocated \<equiv> (spsc_queue n allocated, Producer_Idle, Consumer_Idle)"

lemma room_fresh: "room (spsc_queue n allocated) = (if allocated then n - 1 else 0)"
  by (simp add: room_def capacity_def spsc_queue_def)

lemma fresh_inv: "n \<le> 2 ^ 32 \<Longrightarrow> spsc_inv (idle_ring n allocated) []"
  by (auto simp: spsc_inv_def ring_state_def ring_holds_def spsc_queue_def intro!: exI [of _ "0 :: nat"])

lemma spsc_step_inv:
  assumes "spsc_step (s, p, c) e k" "spsc_inv (s, p, c) q"
  shows "\<exists>q'. spsc_inv k q' \<and> effect (room s) e q q' \<and> room (fst k) = room s"
  using assms
proof (cases rule: spsc_step.cases)
  case call_push
  then show ?thesis using assms(2) by (auto simp: spsc_inv_def effect_def split: if_splits)
next
  case (call_take m)
  then show ?thesis using assms(2) by (auto simp: spsc_inv_def effect_def split: if_splits)
next
  case call_front
  then show ?thesis using assms(2) by (auto simp: spsc_inv_def effect_def split: if_splits)
next
  case (produce s' p')
  then have "p \<noteq> Producer_Idle" by auto
  then show ?thesis using producer_step_inv [OF assms(2)] produce by fastforce
next
  case (consume s' c')
  then have "c \<noteq> Consumer_Idle" by auto
  then show ?thesis using consumer_step_inv [OF assms(2)] consume by fastforce
qed

lemma spsc_run_inv:
  assumes "spsc_run (idle_ring n allocated) tr k" "n \<le> 2 ^ 32"
  shows "\<exists>q. spsc_inv k q \<and> atomic_run (if allocated then n - 1 else 0) [] tr = Some q \<and>
    room (fst k) = (if allocated then n - 1 else 0)"
  using assms
proof (induction "idle_ring n allocated :: 'a spsc_config" tr k rule: spsc_run.induct)
  case start
  then show ?case using fresh_inv by (auto simp: room_fresh)
next
  case (silent tr k k')
  then show ?case using spsc_step_inv [of "fst k" "fst (snd k)" "snd (snd k)" None k'] by (fastforce simp: effect_def)
next
  case (visible tr k e k')
  then show ?case using spsc_step_inv [of "fst k" "fst (snd k)" "snd (snd k)" "Some e" k'] by (fastforce simp: effect_def)
qed

fun pushes :: "'a event list \<Rightarrow> 'a list" where
  "pushes [] = []"
| "pushes (Pushed v # tr) = v # pushes tr"
| "pushes (e # tr) = pushes tr"

fun pops :: "'a event list \<Rightarrow> 'a list" where
  "pops [] = []"
| "pops (Popped v # tr) = v # pops tr"
| "pops (e # tr) = pops tr"

lemma atomic_fifo:
  "atomic_run n q tr = Some q' \<Longrightarrow> Dropped \<notin> set tr \<Longrightarrow> q @ pushes tr = pops tr @ q'"
proof (induction tr arbitrary: q)
  case (Cons e tr)
  then show ?case by (cases e; cases q) (fastforce split: if_splits option.splits)+
qed simp

section \<open>At rest\<close>

lemma drained_ring:
  assumes "ring_holds es h t [] None m" "es \<noteq> []"
  shows "set es \<subseteq> {None}"
proof
  fix x assume "x \<in> set es"
  then obtain j where j: "j < length es" "es ! j = x" by (auto simp: in_set_conv_nth)
  define i where "i = h + (j + length es - h mod length es) mod length es"
  have "h mod length es < length es" using assms(2) by simp
  then have "i mod length es = (h mod length es + (j + length es - h mod length es)) mod length es"
    unfolding i_def by (metis mod_add_eq mod_add_left_eq mod_add_right_eq)
  then have "i mod length es = j" using j \<open>h mod length es < length es\<close> by simp
  moreover have "h \<le> i" "i < h + length es" using assms(2) by (simp_all add: i_def)
  ultimately show "x \<in> {None}" using assms(1) j by (auto simp: ring_holds_def)
qed

lemma destroys_all:
  assumes "ring_elements s = Some es" "length es = ring_size s" "2 \<le> ring_size s" "ring_size s \<le> 2 ^ 32"
    and "unat current = h mod length es" "unat stop = t mod length es" "ring_holds es h t q None False"
  shows "\<exists>s' es'. destroy_from current stop s = Some s' \<and> ring_elements s' = Some es' \<and> set es' \<subseteq> {None}"
  using assms
proof (induction q arbitrary: s es current h)
  case Nil
  then have "current = stop" using ring_empty [OF Nil(7)] by (simp add: word_unat_eq_iff)
  moreover have "es \<noteq> []" using Nil by auto
  ultimately show ?case using drained_ring [OF Nil(7)] Nil by (auto simp: destroy_from.simps)
next
  case (Cons x q)
  have "current \<noteq> stop" using ring_empty [OF Cons(8)] Cons by (simp add: word_unat_eq_iff)
  moreover have ne: "es \<noteq> []" using Cons by auto
  then have "destroy_slot current s = Some (write_slot current None s)"
    using slot_usable [OF Cons(2) Cons(6)] ring_slot(2) [OF Cons(8)] by (simp add: destroy_slot_def)
  ultimately have step: "destroy_from current stop s = destroy_from (next_index (ring_size s) current) stop (write_slot current None s)"
    by (subst destroy_from.simps) (simp add: write_slot_def)
  have "ring_holds (es[h mod length es := None]) (Suc h) t q None False"
    using holds_drop [OF holds_take [OF Cons(8)]] by simp
  then show ?case using Cons.IH [of "write_slot current None s" "es[h mod length es := None]" "next_index (ring_size s) current" "Suc h"]
      Cons(2-7) next_index_mod [OF Cons(6)] unfolding step by (simp add: write_slot_def)
qed

lemma small_sint: "- (2 ^ 31) \<le> k \<Longrightarrow> k < 2 ^ 31 \<Longrightarrow> sint (word_of_int k :: u32) = k"
  by (subst sint_sbintrunc') (simp add: signed_take_bit_int_eq_self)

lemma small_scast: "- (2 ^ 31) \<le> k \<Longrightarrow> k < 2 ^ 31 \<Longrightarrow> scast (word_of_int k :: u32) = (word_of_int k :: u64)"
  by (simp only: scast_eq small_sint)

lemma small_ucast: "0 \<le> k \<Longrightarrow> k < 2 ^ 31 \<Longrightarrow> ucast (word_of_int k :: u64) = (word_of_int k :: u32)"
  by (simp add: ucast_eq uint_word_of_int)

lemma small_unat: "0 \<le> k \<Longrightarrow> k < 2 ^ 31 \<Longrightarrow> unat (word_of_int k :: u64) = nat k"
  by (simp add: unat_eq_nat_uint uint_word_of_int)

lemma estimate_exact:
  assumes "unat (read_index s) = r" "unat (write_index s) = w" "r < n" "w < n" "n \<le> 2 ^ 31" "ring_size s = n"
  shows "unat (size_estimate s) = (w + n - r) mod n"
proof -
  let ?k = "int w - int r"
  have "write_index s = word_of_int (int w)" "read_index s = word_of_int (int r)" using assms by auto
  then have d: "write_index s - read_index s = word_of_int ?k" by simp
  have k: "- (2 ^ 31) \<le> ?k" "?k < 2 ^ 31" using assms by simp_all
  show ?thesis
  proof (cases "r \<le> w")
    case True
    then have n: "\<not> ?k < 0" by simp
    have "size_estimate s = word_of_int ?k"
      by (simp only: size_estimate_def Let_def d small_sint [OF k] n if_False small_scast [OF k])
    then have "unat (size_estimate s) = nat ?k" using small_unat [of ?k] k True by simp
    moreover have "(w + n - r) mod n = (w - r + n) mod n" using True by simp
    ultimately show ?thesis using True assms unfolding mod_add_self2 by (simp add: nat_diff_distrib)
  next
    case False
    let ?m = "?k + int n"
    have m: "0 \<le> ?m" "?m < 2 ^ 31" "- (2 ^ 31) \<le> ?m" using False assms by simp_all
    have n: "?k < 0" using False by simp
    have "word_of_int ?k + of_nat (ring_size s) = (word_of_int ?m :: u64)" using assms by simp
    then have "size_estimate s = word_of_int ?m"
      by (simp only: size_estimate_def Let_def d small_sint [OF k] n if_True small_scast [OF k]
          small_ucast [OF m(1,2)] small_scast [OF m(3,2)])
    then have "unat (size_estimate s) = nat ?m" using small_unat [OF m(1,2)] by simp
    then show ?thesis using False assms by (simp add: nat_diff_distrib nat_add_distrib)
  qed
qed


lemma mod_distance:
  assumes "k < (n :: nat)"
  shows "((h + k) mod n + n - h mod n) mod n = k"
proof -
  define a where "a = h mod n"
  have a: "a < n" using assms by (simp add: a_def)
  have "(h + k) mod n = (a + k) mod n" by (simp add: a_def mod_add_left_eq)
  also have "\<dots> = (if a + k < n then a + k else a + k - n)" using a assms by (simp add: mod_if)
  finally have e: "(h + k) mod n = (if a + k < n then a + k else a + k - n)" .
  show ?thesis
  proof (cases "a + k < n")
    case True
    then have "(h + k) mod n + n - h mod n = k + n" using e by (simp flip: a_def)
    then show ?thesis using assms by simp
  next
    case False
    then have "(h + k) mod n + n - h mod n = k" using e by (simp flip: a_def)
    then show ?thesis using assms by simp
  qed
qed

lemma rest_state:
  assumes "spsc_run (idle_ring n True) tr (s, Producer_Idle, Consumer_Idle)" "n \<le> 2 ^ 32" "2 \<le> n"
  shows "\<exists>es h t q. atomic_run (n - 1) [] tr = Some q \<and> ring_size s = n \<and> ring_elements s = Some es \<and> length es = n \<and>
    unat (read_index s) = h mod n \<and> unat (write_index s) = t mod n \<and> ring_holds es h t q None False"
proof -
  obtain q where q: "spsc_inv (s, Producer_Idle, Consumer_Idle) q" "atomic_run (n - 1) [] tr = Some q" "room s = n - 1"
    using spsc_run_inv [OF assms(1,2)] by auto
  then have u: "\<not> (ring_size s < 2 \<or> ring_elements s = None)" using assms(3) room_unusable [of s] by fastforce
  then have "ring_size s = n" using q(3) assms(3) by (auto simp: room_def capacity_def split: if_splits)
  moreover have "ring_state s q None False" using q(1) u by (simp add: spsc_inv_def)
  then obtain es h t where "ring_elements s = Some es" "length es = ring_size s" "unat (read_index s) = h mod length es"
    "unat (write_index s) = t mod length es" "ring_holds es h t q None False" unfolding ring_state_def by blast
  ultimately show ?thesis using q(2) by (intro exI [of _ es] exI [of _ h] exI [of _ t] exI [of _ q]) simp
qed

section \<open>Properties\<close>

text \<open>C7: A queue shared by one producer and one consumer is linearizable: in every interleaving of their
  steps, for every size and whether or not the buffer could be allocated, the answers given so
  far are those of an atomic bounded queue, a refusal meaning that the queue was full and an
  empty answer that it was empty.  No step builds an object over another one, nor reads or
  destroys raw memory, and nothing pushed is lost, repeated or reordered.\<close>

theorem spsc_linearizable:
  assumes "spsc_run (idle_ring n allocated) tr (s, p, c)" and "n \<le> 2 ^ 32"
  shows "(\<exists>q. atomic_run (if allocated then n - 1 else 0) [] tr = Some q \<and> (Dropped \<notin> set tr \<longrightarrow> pushes tr = pops tr @ q)) \<and>
    (p \<noteq> Producer_Idle \<longrightarrow> producer_step s p \<noteq> None) \<and> (c \<noteq> Consumer_Idle \<longrightarrow> consumer_step s c \<noteq> None)"
proof -
  obtain q where q: "spsc_inv (s, p, c) q" "atomic_run (if allocated then n - 1 else 0) [] tr = Some q"
    using spsc_run_inv [OF assms] by blast
  then show ?thesis using atomic_fifo [OF q(2)] producer_step_inv [OF q(1)] consumer_step_inv [OF q(1)] by fastforce
qed

text \<open>The consumer finds the queue empty while the producer is about to publish its element.\<close>

theorem spsc_linearizable_witness:
  "let s = (spsc_queue 2 True)\<lparr>ring_elements := Some [Some (5 :: nat), None]\<rparr> in
   spsc_run (idle_ring 2 True) [Was_Empty] (s, Push_Built 5 1, Consumer_Idle) \<and> producer_step s (Push_Built 5 1) \<noteq> None"
proof -
  let ?r = "spsc_queue 2 True :: nat spsc" and ?s = "(spsc_queue 2 True)\<lparr>ring_elements := Some [Some (5 :: nat), None]\<rparr>"
  have "spsc_run (idle_ring 2 True) [] (?r, Push_Begin 5, Consumer_Idle)"
    by (rule spsc_run.silent [OF spsc_run.start]) (rule call_push)
  then have "spsc_run (idle_ring 2 True) [] (?r, Push_Loaded 5 0, Consumer_Idle)"
    by (rule spsc_run.silent) (rule produce, simp add: spsc_queue_def)
  then have "spsc_run (idle_ring 2 True) [] (?r, Push_Room 5 0 1, Consumer_Idle)"
    by (rule spsc_run.silent) (rule produce, simp add: spsc_queue_def next_index_def)
  then have "spsc_run (idle_ring 2 True) [] (?s, Push_Built 5 1, Consumer_Idle)"
    by (rule spsc_run.silent) (rule produce, simp add: spsc_queue_def construct_slot_def slot_def write_slot_def numeral_2_eq_2)
  then have "spsc_run (idle_ring 2 True) [] (?s, Push_Built 5 1, Take_Begin True)"
    by (rule spsc_run.silent) (rule call_take)
  then have "spsc_run (idle_ring 2 True) [] (?s, Push_Built 5 1, Take_Loaded True 0)"
    by (rule spsc_run.silent) (rule consume, simp add: spsc_queue_def)
  then have run: "spsc_run (idle_ring 2 True) ([] @ [Was_Empty]) (?s, Push_Built 5 1, Consumer_Idle)"
    by (rule spsc_run.visible) (rule consume, simp add: spsc_queue_def)
  then show ?thesis using spsc_linearizable [OF run] by simp
qed

text \<open>Between calls the observers tell the truth and the destructor leaves nothing behind: after any
  concurrent history on a ring of two to 2 to the 31 slots, \<open>empty\<close>, \<open>full\<close> and \<open>size_estimate\<close>
  agree with the content of the atomic queue, and the destructor ends, having destroyed each
  remaining object once, with every slot raw.\<close>

theorem spsc_at_rest:
  assumes "spsc_run (idle_ring n True) tr (s, Producer_Idle, Consumer_Idle)" and "2 \<le> n" and "n \<le> 2 ^ 31"
  shows "\<exists>q s' es. atomic_run (n - 1) [] tr = Some q \<and> (empty s \<longleftrightarrow> q = []) \<and> (full s \<longleftrightarrow> length q = capacity s) \<and>
    unat (size_estimate s) = length q \<and> destroy_ring s = Some s' \<and> ring_elements s' = Some es \<and> set es \<subseteq> {None}"
proof -
  have n: "n \<le> 2 ^ 32" using assms(3) by simp
  obtain es h t q where q: "atomic_run (n - 1) [] tr = Some q" "ring_size s = n" "ring_elements s = Some es" "length es = n"
    and at: "unat (read_index s) = h mod n" "unat (write_index s) = t mod n" and holds: "ring_holds es h t q None False"
    using rest_state [OF assms(1) n assms(2)] by blast
  have "empty s \<longleftrightarrow> q = []" using ring_empty [OF holds] at q(4) by (simp add: empty_def word_unat_eq_iff)
  moreover have "full s \<longleftrightarrow> length q = capacity s"
    using ring_full [OF holds] next_index_mod [OF at(2) assms(2) n] at assms(2) q by (auto simp: full_def capacity_def word_unat_eq_iff)
  moreover have "unat (size_estimate s) = length q"
  proof -
    have t: "t = h + length q" "length q < n" using holds q(4) by (simp_all add: ring_holds_def)
    have "unat (size_estimate s) = (t mod n + n - h mod n) mod n" using estimate_exact [OF at _ _ assms(3) q(2)] assms(2) by simp
    also have "\<dots> = length q" using mod_distance [OF t(2)] t(1) by simp
    finally show ?thesis .
  qed
  moreover have "\<exists>s' es'. destroy_ring s = Some s' \<and> ring_elements s' = Some es' \<and> set es' \<subseteq> {None}"
    unfolding destroy_ring_def by (rule destroys_all [OF q(3) _ _ _ _ _ holds]) (simp_all add: at q assms(2) n [simplified])
  ultimately show ?thesis using q(1) by blast
qed

theorem spsc_at_rest_witness:
  "\<exists>q s' es. atomic_run (2 - 1) [] [] = Some q \<and> (empty (spsc_queue 2 True :: nat spsc) \<longleftrightarrow> q = []) \<and>
    (full (spsc_queue 2 True :: nat spsc) \<longleftrightarrow> length q = capacity (spsc_queue 2 True :: nat spsc)) \<and>
    unat (size_estimate (spsc_queue 2 True :: nat spsc)) = length q \<and>
    destroy_ring (spsc_queue 2 True) = Some s' \<and> ring_elements s' = Some es \<and> set es \<subseteq> {None :: nat option}"
  using spsc_at_rest [OF spsc_run.start, where n = 2] by fastforce

end
