(* ===== verification/Mpsc_Queue.thy ===== *)
theory Mpsc_Queue
  imports Tagged_Ptr "HOL-Library.Multiset"
begin

unbundle bit_operations_syntax

text \<open>
  \<^verbatim>\<open>mp_sc_growable_ring_queue\<close> (\<^verbatim>\<open>include/lockfree/mp_sc_growable_ring_queue\<close>): any number of
  producers and one consumer share a ring of segments.  A producer claims a slot by adding one to the
  word of the segment, which holds the capacity of the segment's current life next to the
  position; the consumer drains the slots in order and reopens a segment that it has drained, larger or smaller.

  Every access to shared memory is a step of its own.  The reopening of a segment is three steps,
  between which the buffer is gone or not yet announced, so that a producer touching the buffer too
  early or too late would be seen: it, like building an object over another one or reading raw memory, is a
  step that is \<^term>\<open>None\<close>.
\<close>

section \<open>The word of a segment\<close>

definition POS_MASK :: u64 where
  "POS_MASK = push_bit 32 1 - 1"

definition es_pack :: "nat \<Rightarrow> nat \<Rightarrow> u64" where
  "es_pack capacity pos = (push_bit 32 (of_nat capacity) OR (of_nat pos AND POS_MASK))"

definition es_capacity :: "u64 \<Rightarrow> nat" where
  "es_capacity w = unat (drop_bit 32 w)"

definition es_pos :: "u64 \<Rightarrow> nat" where
  "es_pos w = unat (w AND POS_MASK)"

definition POSITION_CLAMP_DISTANCE :: nat where
  "POSITION_CLAMP_DISTANCE = 2 ^ 30"

section \<open>Segments\<close>

record 'a slot =
  ready :: bool
  element :: "'a option"

definition raw_slot :: "'a slot" where
  "raw_slot = \<lparr>ready = False, element = None\<rparr>"

record 'a segment =
  original_capacity :: nat
  seg_capacity :: nat
  buffer :: "'a slot list option"
  enqueue_pos :: u64
  dequeue_state :: nat

record 'a mpsc =
  segments :: "'a segment list"
  producer_target :: nat
  consumer_target :: nat
  pop_count :: u64

record mpsc_config =
  growth_numerator :: u64
  growth_denominator :: u64
  idle_rotation_interval :: u64
  max_capacity :: u64

definition open_segment :: "nat \<Rightarrow> bool \<Rightarrow> 'a segment" where
  "open_segment capacity allocated =
     (let n = (if allocated then capacity else 0)
      in \<lparr>original_capacity = n, seg_capacity = n, buffer = Some (replicate n raw_slot), enqueue_pos = es_pack n 0, dequeue_state = 0\<rparr>)"

text \<open>The constructor; \<open>allocated\<close> says of each segment whether its buffer could be allocated.\<close>

definition mpsc_queue :: "nat \<Rightarrow> bool list \<Rightarrow> 'a mpsc" where
  "mpsc_queue initial_capacity allocated =
     \<lparr>segments = map (open_segment initial_capacity) allocated, producer_target = 0, consumer_target = 0, pop_count = 0\<rparr>"

definition next_segment :: "'a mpsc \<Rightarrow> nat \<Rightarrow> nat" where
  "next_segment s i = (i + 1) mod length (segments s)"

definition has_ready :: "'a segment \<Rightarrow> bool" where
  "has_ready g \<longleftrightarrow> \<not> dequeue_state g \<ge> seg_capacity g \<and>
     (case buffer g of Some b \<Rightarrow> ready (b ! dequeue_state g) | None \<Rightarrow> False)"

definition queue_empty :: "'a mpsc \<Rightarrow> bool" where
  "queue_empty s \<longleftrightarrow> \<not> list_ex has_ready (segments s)"

definition capacity_estimate :: "'a mpsc \<Rightarrow> nat" where
  "capacity_estimate s = sum_list (map seg_capacity (segments s))"

text \<open>The new capacity of a drained segment; dividing by zero is undefined.\<close>

definition compute_new_capacity :: "mpsc_config \<Rightarrow> u64 \<Rightarrow> u64 option" where
  "compute_new_capacity cf reference =
     (if growth_denominator cf = 0 then None
      else let grown = (reference * growth_numerator cf + growth_denominator cf - 1) div growth_denominator cf;
               grown = (if grown > reference then grown else reference + 1)
           in Some (if grown > max_capacity cf then max_capacity cf else grown))"

definition compute_shrunk_capacity :: "mpsc_config \<Rightarrow> u64 \<Rightarrow> u64 option" where
  "compute_shrunk_capacity cf current =
     (if growth_numerator cf = 0 then None
      else let shrunk = current * growth_denominator cf div growth_numerator cf
           in Some (if shrunk > 0 then shrunk else 1))"

section \<open>The producers\<close>

datatype 'a event = Pushed nat 'a | Refused nat | Popped 'a | Nothing_Ready

datatype 'a producer =
    Resting
  | Load_Target 'a
  | Claim 'a nat nat
  | Clamp_Load 'a nat nat nat
  | Clamp_Exchange 'a nat nat nat u64
  | Advance 'a nat nat
  | Construct 'a nat nat
  | Publish 'a nat nat

definition segment_update :: "nat \<Rightarrow> ('a segment \<Rightarrow> 'a segment) \<Rightarrow> 'a mpsc \<Rightarrow> 'a mpsc" where
  "segment_update j f s = s\<lparr>segments := (segments s)[j := f (segments s ! j)]\<rparr>"

definition slot_at :: "'a mpsc \<Rightarrow> nat \<Rightarrow> nat \<Rightarrow> 'a slot option" where
  "slot_at s j i = (case buffer (segments s ! j) of
     None \<Rightarrow> None
   | Some b \<Rightarrow> if i < length b then Some (b ! i) else None)"

definition slot_update :: "nat \<Rightarrow> nat \<Rightarrow> ('a slot \<Rightarrow> 'a slot) \<Rightarrow> 'a mpsc \<Rightarrow> 'a mpsc" where
  "slot_update j i f = segment_update j (\<lambda>g. g\<lparr>buffer := map_option (\<lambda>b. b[i := f (b ! i)]) (buffer g)\<rparr>)"

text \<open>What follows a claim that failed: the next segment, or the refusal after the last one.\<close>

definition claim_failed :: "'a mpsc \<Rightarrow> nat \<Rightarrow> 'a \<Rightarrow> nat \<Rightarrow> nat \<Rightarrow> 'a producer \<times> 'a event option" where
  "claim_failed s t v j attempt =
     (if attempt + 1 < length (segments s) then (Advance v j attempt, None) else (Resting, Some (Refused t)))"

definition far_past :: "nat \<Rightarrow> u64 \<Rightarrow> bool" where
  "far_past cap w \<longleftrightarrow> es_capacity w = cap \<and> es_pos w \<ge> cap \<and> es_pos w - cap \<ge> POSITION_CLAMP_DISTANCE"

definition clamp_continue :: "'a mpsc \<Rightarrow> nat \<Rightarrow> 'a \<Rightarrow> nat \<Rightarrow> nat \<Rightarrow> nat \<Rightarrow> u64 \<Rightarrow> 'a producer \<times> 'a event option" where
  "clamp_continue s t v j attempt cap current =
     (if far_past cap current then (Clamp_Exchange v j attempt cap current, None) else claim_failed s t v j attempt)"

text \<open>The step of producer \<open>t\<close>; the flag says that a weak exchange fails although the word is the
  expected one.\<close>

fun push_step :: "bool \<Rightarrow> nat \<Rightarrow> 'a mpsc \<Rightarrow> 'a producer \<Rightarrow> ('a mpsc \<times> 'a producer \<times> 'a event option) option" where
  "push_step fails t s Resting = None"
| "push_step fails t s (Load_Target v) = Some (s, Claim v (producer_target s) 0, None)"
| "push_step fails t s (Claim v j attempt) =
     (let before = enqueue_pos (segments s ! j);
          s' = segment_update j (enqueue_pos_update (\<lambda>w. w + 1)) s;
          capacity_at_claim = es_capacity before;
          idx = es_pos before
      in if idx \<ge> capacity_at_claim
         then Some (s', if idx - capacity_at_claim \<ge> POSITION_CLAMP_DISTANCE
                        then (Clamp_Load v j attempt capacity_at_claim, None) else claim_failed s t v j attempt)
         else Some (s', Construct v j idx, None))"
| "push_step fails t s (Clamp_Load v j attempt cap) =
     Some (s, clamp_continue s t v j attempt cap (enqueue_pos (segments s ! j)))"
| "push_step fails t s (Clamp_Exchange v j attempt cap current) =
     (let w = enqueue_pos (segments s ! j)
      in if w = current \<and> \<not> fails
         then Some (segment_update j (enqueue_pos_update (\<lambda>_. es_pack cap cap)) s, claim_failed s t v j attempt)
         else Some (s, clamp_continue s t v j attempt cap w))"
| "push_step fails t s (Advance v j attempt) =
     Some (s\<lparr>producer_target := next_segment s j\<rparr>, Claim v (next_segment s j) (attempt + 1), None)"
| "push_step fails t s (Construct v j idx) =
     (case slot_at s j idx of
        Some x \<Rightarrow> if element x = None then Some (slot_update j idx (element_update (\<lambda>_. Some v)) s, Publish v j idx, None) else None
      | None \<Rightarrow> None)"
| "push_step fails t s (Publish v j idx) =
     (case slot_at s j idx of
        Some x \<Rightarrow> Some (slot_update j idx (ready_update (\<lambda>_. True)) s, Resting, Some (Pushed t v))
      | None \<Rightarrow> None)"

section \<open>The consumer\<close>

text \<open>What follows the reopening of a segment: the rest of \<^verbatim>\<open>pop_front\<close>, or its return.\<close>

datatype after = Then_Finish nat nat | Then_Return

datatype consumer =
    At_Rest
  | Try_Pop nat nat
  | Take_Out nat nat
  | Unready nat nat
  | Retire nat after
  | Retire_Install nat nat after
  | Retire_Open nat nat after
  | Finish nat nat
  | Shrink_Target
  | Shrink_Load nat
  | Shrink_Exchange nat u64
  | Shrink_Cap nat nat

definition resume :: "after \<Rightarrow> consumer" where
  "resume k = (case k of Then_Finish j attempt \<Rightarrow> Finish j attempt | Then_Return \<Rightarrow> At_Rest)"

definition pop_failed :: "'a mpsc \<Rightarrow> nat \<Rightarrow> nat \<Rightarrow> consumer \<times> 'a event option" where
  "pop_failed s j attempt =
     (if attempt + 1 < length (segments s) then (Try_Pop (next_segment s j) (attempt + 1), None) else (At_Rest, Some Nothing_Ready))"

definition retired_capacity :: "mpsc_config \<Rightarrow> 'a mpsc \<Rightarrow> nat \<Rightarrow> u64 option" where
  "retired_capacity cf s j =
     (let g = segments s ! j
      in if seg_capacity g < original_capacity g then compute_shrunk_capacity cf (of_nat (seg_capacity g))
         else compute_new_capacity cf (of_nat (seg_capacity (segments s ! next_segment s j))))"

text \<open>The step of the consumer; \<open>ok n\<close> says that an allocation of \<open>n\<close> slots succeeds now.\<close>

fun pop_step :: "mpsc_config \<Rightarrow> (nat \<Rightarrow> bool) \<Rightarrow> 'a mpsc \<Rightarrow> consumer \<Rightarrow> ('a mpsc \<times> consumer \<times> 'a event option) option" where
  "pop_step cf ok s At_Rest = None"
| "pop_step cf ok s (Try_Pop j attempt) =
     (let g = segments s ! j
      in if dequeue_state g \<ge> seg_capacity g then Some (s, pop_failed s j attempt)
         else case slot_at s j (dequeue_state g) of
                Some x \<Rightarrow> Some (s, if \<not> ready x then pop_failed s j attempt else (Take_Out j attempt, None))
              | None \<Rightarrow> None)"
| "pop_step cf ok s (Take_Out j attempt) =
     (let i = dequeue_state (segments s ! j)
      in case slot_at s j i of
           Some x \<Rightarrow> (case element x of
               Some v \<Rightarrow> Some (slot_update j i (element_update (\<lambda>_. None)) s, Unready j attempt, Some (Popped v))
             | None \<Rightarrow> None)
         | None \<Rightarrow> None)"
| "pop_step cf ok s (Unready j attempt) =
     (let i = dequeue_state (segments s ! j)
      in case slot_at s j i of
           Some x \<Rightarrow>
             (let s = segment_update j (dequeue_state_update (\<lambda>d. d + 1)) (slot_update j i (ready_update (\<lambda>_. False)) s);
                  g = segments s ! j
              in Some (s, if dequeue_state g = seg_capacity g then Retire j (Then_Finish j attempt) else Finish j attempt, None))
         | None \<Rightarrow> None)"
| "pop_step cf ok s (Retire j k) =
     (case retired_capacity cf s j of
        None \<Rightarrow> None
      | Some new_capacity \<Rightarrow>
          (let effective = (if ok (unat new_capacity) then unat new_capacity else original_capacity (segments s ! j))
           in Some (segment_update j (buffer_update (\<lambda>_. None)) s, Retire_Install j effective k, None)))"
| "pop_step cf ok s (Retire_Install j n k) =
     Some (segment_update j (\<lambda>g. g\<lparr>buffer := Some (replicate n raw_slot), original_capacity := n, seg_capacity := n, dequeue_state := 0\<rparr>) s,
           Retire_Open j n k, None)"
| "pop_step cf ok s (Retire_Open j n k) =
     Some (segment_update j (enqueue_pos_update (\<lambda>_. es_pack n 0)) s, resume k, None)"
| "pop_step cf ok s (Finish j attempt) =
     (let s = (if attempt \<noteq> 0 then s\<lparr>consumer_target := j\<rparr> else s)
      in if idle_rotation_interval cf \<noteq> 0
         then let n = pop_count s + 1; s = s\<lparr>pop_count := n\<rparr>
              in Some (s, if n mod idle_rotation_interval cf = 0 then Shrink_Target else At_Rest, None)
         else Some (s, At_Rest, None))"
| "pop_step cf ok s Shrink_Target = Some (s, Shrink_Load (producer_target s), None)"
| "pop_step cf ok s (Shrink_Load j) =
     (let w = enqueue_pos (segments s ! j); cap = es_capacity w; pos = es_pos w
      in Some (s, if pos = 0 \<or> pos \<ge> cap \<or> pos * 2 \<ge> cap then At_Rest else Shrink_Exchange j w, None))"
| "pop_step cf ok s (Shrink_Exchange j w) =
     (let pos = es_pos w
      in if enqueue_pos (segments s ! j) = w
         then Some (segment_update j (enqueue_pos_update (\<lambda>_. es_pack pos pos)) s, Shrink_Cap j pos, None)
         else Some (s, At_Rest, None))"
| "pop_step cf ok s (Shrink_Cap j pos) =
     (let s = segment_update j (seg_capacity_update (\<lambda>_. pos)) s
      in Some (s, if dequeue_state (segments s ! j) \<ge> pos then Retire j Then_Return else At_Rest, None))"

section \<open>Interleavings\<close>

type_synonym 'a mpsc_state = "'a mpsc \<times> (nat \<Rightarrow> 'a producer) \<times> consumer"

inductive mpsc_step :: "nat \<Rightarrow> mpsc_config \<Rightarrow> (nat \<Rightarrow> bool) \<Rightarrow> 'a mpsc_state \<Rightarrow> 'a event option \<Rightarrow> 'a mpsc_state \<Rightarrow> bool"
  for P cf can where
  call_push: "t < P \<Longrightarrow> pcs t = Resting \<Longrightarrow> mpsc_step P cf can (s, pcs, c) None (s, pcs(t := Load_Target v), c)"
| push: "t < P \<Longrightarrow> push_step fails t s (pcs t) = Some (s', p, e) \<Longrightarrow> mpsc_step P cf can (s, pcs, c) e (s', pcs(t := p), c)"
| call_pop: "mpsc_step P cf can (s, pcs, At_Rest) None (s, pcs, Try_Pop (consumer_target s) 0)"
| pop: "(\<And>n. ok n \<Longrightarrow> can n) \<Longrightarrow> pop_step cf ok s c = Some (s', c', e) \<Longrightarrow> mpsc_step P cf can (s, pcs, c) e (s', pcs, c')"

inductive mpsc_run :: "nat \<Rightarrow> mpsc_config \<Rightarrow> (nat \<Rightarrow> bool) \<Rightarrow> 'a mpsc_state \<Rightarrow> 'a event list \<Rightarrow> 'a mpsc_state \<Rightarrow> bool"
  for P cf can where
  start: "mpsc_run P cf can k [] k"
| silent: "mpsc_run P cf can k tr k' \<Longrightarrow> mpsc_step P cf can k' None k'' \<Longrightarrow> mpsc_run P cf can k tr k''"
| visible: "mpsc_run P cf can k tr k' \<Longrightarrow> mpsc_step P cf can k' (Some e) k'' \<Longrightarrow> mpsc_run P cf can k (tr @ [e]) k''"


section \<open>The fields of the word\<close>

lemma es_capacity_div: "es_capacity w = unat w div 2 ^ 32"
  unfolding es_capacity_def unat_drop_bit_eq by (rule drop_bit_eq_div)

lemma es_pos_mod: "es_pos w = unat w mod 2 ^ 32"
proof -
  have "w AND POS_MASK = take_bit 32 w" by (simp add: POS_MASK_def take_bit_eq_mask mask_eq_decr_exp)
  then show ?thesis unfolding es_pos_def by (simp only: unsigned_take_bit_eq) (rule take_bit_eq_mod)
qed

lemma es_pack_eq: "es_pack n p = join_fields 32 (of_nat n) (take_bit 32 (of_nat p))"
  by (simp add: es_pack_def join_fields_def POS_MASK_def take_bit_eq_mask mask_eq_decr_exp)

lemma es_pack_unpack [simp]:
  assumes "n < 2 ^ 32" "p < 2 ^ 32"
  shows "es_capacity (es_pack n p) = n" and "es_pos (es_pack n p) = p"
proof -
  have low: "take_bit 32 (take_bit 32 (of_nat p :: u64)) = take_bit 32 (of_nat p)" by simp
  have "es_capacity (es_pack n p) = unat (take_bit 32 (of_nat n :: u64))"
    unfolding es_capacity_def es_pack_eq join_fields_high [OF low] by simp
  also have "\<dots> = unat (of_nat n :: u64) mod 2 ^ 32" unfolding unsigned_take_bit_eq by (rule take_bit_eq_mod)
  finally show "es_capacity (es_pack n p) = n" using assms(1) by (simp add: unat_of_nat)
  have "es_pos (es_pack n p) = unat (take_bit 32 (es_pack n p))"
    unfolding es_pos_mod unsigned_take_bit_eq by (rule take_bit_eq_mod [symmetric])
  also have "\<dots> = unat (take_bit 32 (of_nat p :: u64))" unfolding es_pack_eq join_fields_low [OF low] ..
  also have "\<dots> = unat (of_nat p :: u64) mod 2 ^ 32" unfolding unsigned_take_bit_eq by (rule take_bit_eq_mod)
  finally show "es_pos (es_pack n p) = p" using assms(2) by (simp add: unat_of_nat)
qed

lemma es_pos_less: "es_pos w < 2 ^ 32"
  by (simp add: es_pos_mod)

lemma es_increment:
  assumes "es_pos w + 1 < 2 ^ 32"
  shows "es_capacity (w + 1) = es_capacity w" and "es_pos (w + 1) = es_pos w + 1"
proof -
  let ?u = "unat w"
  have "?u mod 2 ^ 32 + 1 < 2 ^ 32" using assms by (simp add: es_pos_mod)
  moreover have "?u = ?u div 2 ^ 32 * 2 ^ 32 + ?u mod 2 ^ 32" by simp
  ultimately have m: "(?u + 1) div 2 ^ 32 = ?u div 2 ^ 32" "(?u + 1) mod 2 ^ 32 = ?u mod 2 ^ 32 + 1"
    by (simp_all add: mod_Suc div_Suc)
  have "?u < 2 ^ 64" using unsigned_less [of w] by simp
  then have "?u + 1 < 2 ^ 64"
    using \<open>?u mod 2 ^ 32 + 1 < 2 ^ 32\<close> by (cases "?u + 1 = 2 ^ 64") (auto dest: arg_cong [of _ _ "\<lambda>x. x - 1"])
  then have "unat (w + 1) = ?u + 1" by (simp add: unat_word_ariths)
  then show "es_capacity (w + 1) = es_capacity w" "es_pos (w + 1) = es_pos w + 1"
    using m by (simp_all add: es_capacity_div es_pos_mod)
qed

end
