(* ===== verification/Mpsc_Invariant.thy ===== *)
theory Mpsc_Invariant
  imports Mpsc_Queue
begin

text \<open>
  The invariant of the growable queue.  A segment is described by its slots, by the claims the
  producers hold on it and by what the consumer is doing to it: while the consumer is not reopening
  it, the slots before the drain cursor are raw, those between the cursor and the position are
  claimed or published, and the rest is raw again.
\<close>

section \<open>Claims and views\<close>

fun claim_of :: "nat \<Rightarrow> 'a producer \<Rightarrow> nat \<Rightarrow> (nat \<times> nat \<times> 'a option) set" where
  "claim_of t (Construct v j i) k = (if j = k then {(t, i, None)} else {})"
| "claim_of t (Publish v j i) k = (if j = k then {(t, i, Some v)} else {})"
| "claim_of t p k = {}"

definition claims :: "(nat \<Rightarrow> 'a producer) \<Rightarrow> nat \<Rightarrow> (nat \<times> nat \<times> 'a option) set" where
  "claims pcs j = (\<Union>t. claim_of t (pcs t) j)"

fun clamps :: "'a producer \<Rightarrow> nat \<Rightarrow> nat \<Rightarrow> bool" where
  "clamps (Clamp_Load v j a cap) k n \<longleftrightarrow> j = k \<and> cap = n"
| "clamps (Clamp_Exchange v j a cap w) k n \<longleftrightarrow> j = k \<and> cap = n"
| "clamps p k n \<longleftrightarrow> False"

definition clamping :: "nat \<Rightarrow> (nat \<Rightarrow> 'a producer) \<Rightarrow> nat \<Rightarrow> nat \<Rightarrow> nat set" where
  "clamping P pcs j n = {t. t < P \<and> clamps (pcs t) j n}"

datatype view = Live | Unreadying | Draining | Freed nat | Fresh nat | Capping nat

fun view_of :: "consumer \<Rightarrow> nat \<Rightarrow> view" where
  "view_of (Unready i a) j = (if i = j then Unreadying else Live)"
| "view_of (Retire i k) j = (if i = j then Draining else Live)"
| "view_of (Retire_Install i n k) j = (if i = j then Freed n else Live)"
| "view_of (Retire_Open i n k) j = (if i = j then Fresh n else Live)"
| "view_of (Shrink_Cap i p) j = (if i = j then Capping p else Live)"
| "view_of c j = Live"

lemma claim_of_thread: "(u, i, e) \<in> claim_of t p j \<Longrightarrow> u = t"
  by (cases p) (auto split: if_splits)

lemma claims_update: "claims (pcs(t := p)) j = (claims pcs j - {x. fst x = t}) \<union> claim_of t p j"
proof -
  have "fst x = u" if "x \<in> claim_of u q j" for x u q using that claim_of_thread [of "fst x" "fst (snd x)" "snd (snd x)" u q j] by simp
  then show ?thesis by (fastforce simp: claims_def split: if_splits)
qed

lemma claims_same:
  assumes "claim_of t (pcs t) j = {}" "claim_of t p j = {}"
  shows "claims (pcs(t := p)) j = claims pcs j"
proof -
  have "x \<notin> claims pcs j" if "fst x = t" for x
    using that assms(1) claim_of_thread [of "fst x" "fst (snd x)" "snd (snd x)"] by (fastforce simp: claims_def)
  then show ?thesis using assms(2) by (auto simp: claims_update)
qed

lemma claim_in: "x \<in> claim_of t (pcs t) j \<Longrightarrow> x \<in> claims pcs j"
  by (auto simp: claims_def)

section \<open>The invariant\<close>

definition LIMIT :: nat where "LIMIT = 2 ^ 31"

definition slots_ok :: "'a slot list \<Rightarrow> nat \<Rightarrow> nat \<Rightarrow> (nat \<times> nat \<times> 'a option) set \<Rightarrow> bool \<Rightarrow> bool" where
  "slots_ok b d lim C un \<longleftrightarrow> d \<le> lim \<and> lim \<le> length b \<and>
     (\<forall>t i e. (t, i, e) \<in> C \<longrightarrow> d \<le> i \<and> i < lim \<and> b ! i = \<lparr>ready = False, element = e\<rparr>) \<and>
     (\<forall>i. d \<le> i \<longrightarrow> i < lim \<longrightarrow>
        (\<exists>t e. (t, i, e) \<in> C) \<or> ready (b ! i) \<and> (element (b ! i) = None \<longleftrightarrow> un \<and> i = d)) \<and>
     (\<forall>i < length b. i < d \<or> lim \<le> i \<longrightarrow> b ! i = raw_slot) \<and>
     (\<forall>t i e t' e'. (t, i, e) \<in> C \<longrightarrow> (t', i, e') \<in> C \<longrightarrow> t = t' \<and> e = e') \<and>
     (un \<longrightarrow> d < lim \<and> b ! d = \<lparr>ready = True, element = None\<rparr>)"

definition seg_ok :: "'a segment \<Rightarrow> (nat \<times> nat \<times> 'a option) set \<Rightarrow> view \<Rightarrow> bool" where
  "seg_ok g C v \<longleftrightarrow>
     (let cap = es_capacity (enqueue_pos g); pos = es_pos (enqueue_pos g); d = dequeue_state g
      in cap \<le> LIMIT \<and> original_capacity g \<le> LIMIT \<and>
         (case v of
            Freed n \<Rightarrow> C = {} \<and> buffer g = None \<and> cap \<le> pos \<and> n \<le> LIMIT
          | Fresh n \<Rightarrow> C = {} \<and> buffer g = Some (replicate n raw_slot) \<and> original_capacity g = n \<and> seg_capacity g = n \<and> d = 0 \<and>
              cap \<le> pos \<and> n \<le> LIMIT
          | _ \<Rightarrow> (\<exists>b. buffer g = Some b \<and> length b = original_capacity g \<and> cap \<le> length b \<and>
              slots_ok b d (min pos cap) C (v = Unreadying)) \<and>
              (case v of
                 Capping p \<Rightarrow> cap = p \<and> 0 < p \<and> cap \<le> pos
               | Draining \<Rightarrow> seg_capacity g = cap \<and> d = cap \<and> cap \<le> pos
               | _ \<Rightarrow> seg_capacity g = cap \<and> (d < cap \<or> cap = 0))))"

fun after_ok :: "nat \<Rightarrow> after \<Rightarrow> bool" where
  "after_ok N (Then_Finish j a) \<longleftrightarrow> j < N"
| "after_ok N Then_Return \<longleftrightarrow> True"

fun consumer_ok :: "'a mpsc \<Rightarrow> consumer \<Rightarrow> bool" where
  "consumer_ok s At_Rest \<longleftrightarrow> True"
| "consumer_ok s (Try_Pop j a) \<longleftrightarrow> j < length (segments s)"
| "consumer_ok s (Take_Out j a) \<longleftrightarrow> j < length (segments s) \<and>
     (\<exists>v. slot_at s j (dequeue_state (segments s ! j)) = Some \<lparr>ready = True, element = Some v\<rparr>)"
| "consumer_ok s (Unready j a) \<longleftrightarrow> j < length (segments s)"
| "consumer_ok s (Retire j k) \<longleftrightarrow> j < length (segments s) \<and> after_ok (length (segments s)) k"
| "consumer_ok s (Retire_Install j n k) \<longleftrightarrow> j < length (segments s) \<and> after_ok (length (segments s)) k"
| "consumer_ok s (Retire_Open j n k) \<longleftrightarrow> j < length (segments s) \<and> after_ok (length (segments s)) k"
| "consumer_ok s (Finish j a) \<longleftrightarrow> j < length (segments s)"
| "consumer_ok s Shrink_Target \<longleftrightarrow> True"
| "consumer_ok s (Shrink_Load j) \<longleftrightarrow> j < length (segments s)"
| "consumer_ok s (Shrink_Exchange j w) \<longleftrightarrow> j < length (segments s) \<and> 0 < es_pos w \<and> es_pos w < es_capacity w"
| "consumer_ok s (Shrink_Cap j p) \<longleftrightarrow> j < length (segments s)"

fun producer_ok :: "nat \<Rightarrow> 'a producer \<Rightarrow> bool" where
  "producer_ok N (Claim v j a) \<longleftrightarrow> j < N"
| "producer_ok N (Clamp_Load v j a cap) \<longleftrightarrow> j < N"
| "producer_ok N (Clamp_Exchange v j a cap w) \<longleftrightarrow> j < N \<and> far_past cap w"
| "producer_ok N (Advance v j a) \<longleftrightarrow> j < N"
| "producer_ok N (Construct v j i) \<longleftrightarrow> j < N"
| "producer_ok N (Publish v j i) \<longleftrightarrow> j < N"
| "producer_ok N p \<longleftrightarrow> True"

definition count_ok :: "'a segment \<Rightarrow> (nat \<Rightarrow> nat set) \<Rightarrow> bool" where
  "count_ok g n \<longleftrightarrow> (let cap = es_capacity (enqueue_pos g)
     in es_pos (enqueue_pos g) \<le> cap + POSITION_CLAMP_DISTANCE + card (n cap))"

definition mpsc_inv :: "nat \<Rightarrow> 'a mpsc_state \<Rightarrow> bool" where
  "mpsc_inv P k \<longleftrightarrow> (case k of (s, pcs, c) \<Rightarrow>
     producer_target s < length (segments s) \<and> consumer_target s < length (segments s) \<and>
     (\<forall>t. producer_ok (length (segments s)) (pcs t)) \<and> (\<forall>t \<ge> P. pcs t = Resting) \<and> consumer_ok s c \<and>
     (\<forall>j < length (segments s). seg_ok (segments s ! j) (claims pcs j) (view_of c j) \<and>
        count_ok (segments s ! j) (clamping P pcs j)))"

definition slot_content :: "'a slot \<Rightarrow> 'a multiset" where
  "slot_content x = (if ready x then case element x of Some v \<Rightarrow> {#v#} | None \<Rightarrow> {#} else {#})"

definition seg_content :: "'a segment \<Rightarrow> 'a multiset" where
  "seg_content g = (case buffer g of None \<Rightarrow> {#} | Some b \<Rightarrow> sum_list (map slot_content b))"

definition published :: "'a mpsc \<Rightarrow> 'a multiset" where
  "published s = sum_list (map seg_content (segments s))"

section \<open>Updates\<close>

lemma segment_update_simps [simp]:
  "length (segments (segment_update j f s)) = length (segments s)"
  "producer_target (segment_update j f s) = producer_target s"
  "consumer_target (segment_update j f s) = consumer_target s"
  "pop_count (segment_update j f s) = pop_count s"
  "i \<noteq> j \<Longrightarrow> segments (segment_update j f s) ! i = segments s ! i"
  "j < length (segments s) \<Longrightarrow> segments (segment_update j f s) ! j = f (segments s ! j)"
  by (simp_all add: segment_update_def)

lemma slot_update_simps [simp]:
  "length (segments (slot_update j i f s)) = length (segments s)"
  "producer_target (slot_update j i f s) = producer_target s"
  "consumer_target (slot_update j i f s) = consumer_target s"
  "k \<noteq> j \<Longrightarrow> segments (slot_update j i f s) ! k = segments s ! k"
  "j < length (segments s) \<Longrightarrow> segments (slot_update j i f s) ! j =
     (segments s ! j)\<lparr>buffer := map_option (\<lambda>b. b[i := f (b ! i)]) (buffer (segments s ! j))\<rparr>"
  by (simp_all add: slot_update_def)

lemma sum_list_update_mset:
  "j < length xs \<Longrightarrow> sum_list (xs[j := x]) + xs ! j = sum_list xs + (x :: 'a multiset)"
proof (induction xs arbitrary: j)
  case (Cons y ys)
  then show ?case by (cases j) (simp_all add: ac_simps)
qed simp

lemma published_update:
  assumes "j < length (segments s)" "segments s' = (segments s)[j := g]"
  shows "published s' + seg_content (segments s ! j) = published s + seg_content g"
  using sum_list_update_mset [of j "map seg_content (segments s)" "seg_content g"] assms
  by (simp add: published_def map_update)

lemma published_segment_update:
  "j < length (segments s) \<Longrightarrow>
     published (segment_update j f s) + seg_content (segments s ! j) = published s + seg_content (f (segments s ! j))"
  by (rule published_update) (simp_all add: segment_update_def)

lemma published_same:
  "j < length (segments s) \<Longrightarrow> seg_content (f (segments s ! j)) = seg_content (segments s ! j) \<Longrightarrow>
     published (segment_update j f s) = published s"
  using published_segment_update [of j s f] by simp

lemma add_swap: "g' + x = g + y \<Longrightarrow> p' + g = p + g' \<Longrightarrow> p' + x = p + (y :: 'a multiset)"
proof -
  assume "g' + x = g + y" "p' + g = p + g'"
  then have "(p' + x) + g = (p + y) + g" by (metis add.assoc add.commute)
  then show ?thesis by simp
qed

lemma published_slot:
  assumes "j < length (segments s)" "slot_at s j i = Some x"
  shows "published (slot_update j i f s) + slot_content x = published s + slot_content (f x)"
proof -
  obtain b where b: "buffer (segments s ! j) = Some b" "i < length b" "b ! i = x"
    using assms(2) by (auto simp: slot_at_def split: option.splits if_splits)
  let ?g = "(segments s ! j)\<lparr>buffer := Some (b[i := f x])\<rparr>"
  have "sum_list ((map slot_content b)[i := slot_content (f x)]) + slot_content x = sum_list (map slot_content b) + slot_content (f x)"
    using sum_list_update_mset [of i "map slot_content b" "slot_content (f x)"] b by simp
  then have "seg_content ?g + slot_content x = seg_content (segments s ! j) + slot_content (f x)"
    using b by (simp add: seg_content_def map_update)
  moreover have "published (slot_update j i f s) + seg_content (segments s ! j) = published s + seg_content ?g"
    using published_segment_update [OF assms(1), of "\<lambda>g. g\<lparr>buffer := map_option (\<lambda>b. b[i := f (b ! i)]) (buffer g)\<rparr>"] b
    by (simp add: slot_update_def)
  ultimately show ?thesis by (rule add_swap)
qed

end
