(* ===== verification/Mpsc_Steps.thy ===== *)
theory Mpsc_Steps
  imports Mpsc_Invariant
begin

text \<open>
  What each step of the growable queue does to one segment, and from that: every step of a producer
  or of the consumer is defined, keeps the invariant and accounts for the elements.
\<close>

section \<open>Slots\<close>

lemma slots_okI:
  assumes "d \<le> lim" "lim \<le> length b"
    and "\<And>t i e. (t, i, e) \<in> C \<Longrightarrow> d \<le> i \<and> i < lim \<and> b ! i = \<lparr>ready = False, element = e\<rparr>"
    and "\<And>i. d \<le> i \<Longrightarrow> i < lim \<Longrightarrow> (\<And>t e. (t, i, e) \<notin> C) \<Longrightarrow> ready (b ! i) \<and> (element (b ! i) = None \<longleftrightarrow> un \<and> i = d)"
    and "\<And>i. i < length b \<Longrightarrow> i < d \<or> lim \<le> i \<Longrightarrow> b ! i = raw_slot"
    and "\<And>t i e t' e'. (t, i, e) \<in> C \<Longrightarrow> (t', i, e') \<in> C \<Longrightarrow> t = t' \<and> e = e'"
    and "un \<Longrightarrow> d < lim \<and> b ! d = \<lparr>ready = True, element = None\<rparr>"
  shows "slots_ok b d lim C un"
proof (unfold slots_ok_def, intro conjI)
  show "\<forall>i. d \<le> i \<longrightarrow> i < lim \<longrightarrow> (\<exists>t e. (t, i, e) \<in> C) \<or> ready (b ! i) \<and> (element (b ! i) = None \<longleftrightarrow> un \<and> i = d)"
  proof (intro allI impI)
    fix i assume "d \<le> i" "i < lim"
    then show "(\<exists>t e. (t, i, e) \<in> C) \<or> ready (b ! i) \<and> (element (b ! i) = None \<longleftrightarrow> un \<and> i = d)"
      using assms(4) [of i] by (cases "\<exists>t e. (t, i, e) \<in> C") simp_all
  qed
  show "\<forall>i<length b. i < d \<or> lim \<le> i \<longrightarrow> b ! i = raw_slot" using assms(5) by (intro allI impI)
  show "\<forall>t i e t' e'. (t, i, e) \<in> C \<longrightarrow> (t', i, e') \<in> C \<longrightarrow> t = t' \<and> e = e'" using assms(6) by (intro allI impI)
qed (use assms(1-3,7) in simp_all)

lemma slots_bounds: "slots_ok b d lim C un \<Longrightarrow> d \<le> lim \<and> lim \<le> length b"
  by (simp add: slots_ok_def)

lemma slots_claimed: "slots_ok b d lim C un \<Longrightarrow> (t, i, e) \<in> C \<Longrightarrow> d \<le> i \<and> i < lim \<and> b ! i = \<lparr>ready = False, element = e\<rparr>"
  by (simp add: slots_ok_def)

lemma slots_published:
  assumes "slots_ok b d lim C un" "d \<le> i" "i < lim" "\<And>t e. (t, i, e) \<notin> C"
  shows "ready (b ! i) \<and> (element (b ! i) = None \<longleftrightarrow> un \<and> i = d)"
proof -
  have "(\<exists>t e. (t, i, e) \<in> C) \<or> ready (b ! i) \<and> (element (b ! i) = None \<longleftrightarrow> un \<and> i = d)"
    using assms(1-3) unfolding slots_ok_def by (elim conjE allE [of _ i]) iprover
  then show ?thesis using assms(4) by (elim disjE) simp_all
qed

lemma slots_raw: "slots_ok b d lim C un \<Longrightarrow> i < length b \<Longrightarrow> i < d \<or> lim \<le> i \<Longrightarrow> b ! i = raw_slot"
  by (auto simp: slots_ok_def)

lemma slots_only: "slots_ok b d lim C un \<Longrightarrow> (t, i, e) \<in> C \<Longrightarrow> (u, i, e') \<in> C \<Longrightarrow> u = t \<and> e' = e"
  unfolding slots_ok_def by metis

lemma slots_emptied: "slots_ok b d lim C un \<Longrightarrow> un \<Longrightarrow> d < lim \<and> b ! d = \<lparr>ready = True, element = None\<rparr>"
  by (simp add: slots_ok_def)

lemmas slots_facts = slots_bounds slots_claimed slots_published slots_raw slots_only slots_emptied

lemma slots_claim:
  assumes ok: "slots_ok b d p C un" and p: "p < length b"
  shows "slots_ok b d (Suc p) (insert (t, p, None) C) un"
proof (rule slots_okI)
  have raw: "b ! p = \<lparr>ready = False, element = None\<rparr>" using slots_raw [OF ok p] by (simp add: raw_slot_def)
  show "d \<le> i \<and> i < Suc p \<and> b ! i = \<lparr>ready = False, element = e\<rparr>" if "(u, i, e) \<in> insert (t, p, None) C" for u i e
    using that slots_claimed [OF ok, of u i e] slots_bounds [OF ok] raw by auto
  show "ready (b ! i) \<and> (element (b ! i) = None \<longleftrightarrow> un \<and> i = d)"
    if "d \<le> i" "i < Suc p" "\<And>u e. (u, i, e) \<notin> insert (t, p, None) C" for i
  proof (cases "i = p")
    case True
    then show ?thesis using that(3) [of t None] by simp
  next
    case False
    then show ?thesis using that slots_published [OF ok, of i] by simp
  qed
  show "u = u' \<and> e = e'" if "(u, i, e) \<in> insert (t, p, None) C" "(u', i, e') \<in> insert (t, p, None) C" for u i e u' e'
    using that slots_claimed [OF ok] slots_only [OF ok] by blast
qed (use slots_facts [OF ok] p in auto)

lemma slots_at: "slots_ok b d lim C un \<Longrightarrow> (t, i, e) \<in> C \<Longrightarrow> i < length b"
  using slots_claimed slots_bounds by fastforce

lemma slots_construct:
  assumes ok: "slots_ok b d lim C un" and c: "(t, i, None) \<in> C" and one: "\<And>j e. (t, j, e) \<in> C \<Longrightarrow> j = i"
  shows "slots_ok (b[i := (b ! i)\<lparr>element := Some v\<rparr>]) d lim ((C - {x. fst x = t}) \<union> {(t, i, Some v)}) un" (is "slots_ok ?b _ _ ?C _")
proof (rule slots_okI)
  note at = slots_claimed [OF ok c]
  have sel: "?b ! k = (if k = i then \<lparr>ready = False, element = Some v\<rparr> else b ! k)" for k
    using at slots_at [OF ok c] by (simp add: nth_list_update)
  have iff: "(u, k, e) \<in> ?C \<longleftrightarrow> (if k = i then u = t \<and> e = Some v else (u, k, e) \<in> C)" for u k e
  proof (cases "k = i")
    case True
    then show ?thesis using slots_only [OF ok c, of u e] c by fastforce
  next
    case False
    then show ?thesis using one [of k e] by auto
  qed
  show "d \<le> k \<and> k < lim \<and> ?b ! k = \<lparr>ready = False, element = e\<rparr>" if "(u, k, e) \<in> ?C" for u k e
    using that at slots_claimed [OF ok, of u k e] unfolding iff sel by (auto split: if_splits)
  show "ready (?b ! k) \<and> (element (?b ! k) = None \<longleftrightarrow> un \<and> k = d)" if "d \<le> k" "k < lim" "\<And>u e. (u, k, e) \<notin> ?C" for k
  proof (cases "k = i")
    case True
    then show ?thesis using that(3) [of t "Some v"] by (simp only: iff) simp
  next
    case False
    then have "(u, k, e) \<notin> C" for u e using that(3) [of u e] by (simp only: iff) simp
    then show ?thesis using slots_published [OF ok that(1,2)] False by (simp only: sel) simp
  qed
  show "?b ! k = raw_slot" if "k < length ?b" "k < d \<or> lim \<le> k" for k using that at slots_raw [OF ok, of k] unfolding sel by auto
  show "u = u' \<and> e = e'" if "(u, k, e) \<in> ?C" "(u', k, e') \<in> ?C" for u k e u' e'
    using that slots_only [OF ok, of u k e] unfolding iff by (auto split: if_splits)
  show "d < lim \<and> ?b ! d = \<lparr>ready = True, element = None\<rparr>" if un
    using that slots_emptied [OF ok] at unfolding sel by (cases "d = i") auto
qed (use slots_bounds [OF ok] in simp_all)

lemma slots_publish:
  assumes ok: "slots_ok b d lim C un" and c: "(t, i, Some v) \<in> C" and one: "\<And>j e. (t, j, e) \<in> C \<Longrightarrow> j = i"
  shows "slots_ok (b[i := (b ! i)\<lparr>ready := True\<rparr>]) d lim (C - {x. fst x = t}) un" (is "slots_ok ?b _ _ ?C _")
proof (rule slots_okI)
  note at = slots_claimed [OF ok c]
  have sel: "?b ! k = (if k = i then \<lparr>ready = True, element = Some v\<rparr> else b ! k)" for k
    using at slots_at [OF ok c] by (simp add: nth_list_update)
  have iff: "(u, k, e) \<in> ?C \<longleftrightarrow> k \<noteq> i \<and> (u, k, e) \<in> C" for u k e
  proof (cases "k = i")
    case True
    then show ?thesis using slots_only [OF ok c, of u e] c by fastforce
  next
    case False
    then show ?thesis using one [of k e] by auto
  qed
  have un: "\<not> (un \<and> i = d)" using at slots_emptied [OF ok] by fastforce
  show "d \<le> k \<and> k < lim \<and> ?b ! k = \<lparr>ready = False, element = e\<rparr>" if "(u, k, e) \<in> ?C" for u k e
    using that at slots_claimed [OF ok, of u k e] unfolding iff sel by auto
  show "ready (?b ! k) \<and> (element (?b ! k) = None \<longleftrightarrow> un \<and> k = d)" if "d \<le> k" "k < lim" "\<And>u e. (u, k, e) \<notin> ?C" for k
  proof (cases "k = i")
    case True
    then show ?thesis using un by (simp only: sel) simp
  next
    case False
    then have "(u, k, e) \<notin> C" for u e using that(3) [of u e] by (simp only: iff) simp
    then show ?thesis using slots_published [OF ok that(1,2)] False by (simp only: sel) simp
  qed
  show "?b ! k = raw_slot" if "k < length ?b" "k < d \<or> lim \<le> k" for k using that at slots_raw [OF ok, of k] unfolding sel by auto
  show "u = u' \<and> e = e'" if "(u, k, e) \<in> ?C" "(u', k, e') \<in> ?C" for u k e u' e'
    using that slots_only [OF ok, of u k e u' e'] by (simp add: iff)
  show "d < lim \<and> ?b ! d = \<lparr>ready = True, element = None\<rparr>" if un
    using that slots_emptied [OF ok] at unfolding sel by (cases "d = i") auto
qed (use slots_bounds [OF ok] in simp_all)

lemma slots_unclaimed:
  assumes "slots_ok b d lim C un" "i < length b" "ready (b ! i)"
  shows "d \<le> i" "i < lim" "(t, i, e) \<notin> C"
proof -
  have "\<not> (i < d \<or> lim \<le> i)" using slots_raw [OF assms(1,2)] assms(3) by (auto simp: raw_slot_def)
  then show "d \<le> i" "i < lim" by simp_all
  show "(t, i, e) \<notin> C" using slots_claimed [OF assms(1), of t i e] assms(3) by auto
qed

lemma slots_take:
  assumes ok: "slots_ok b d lim C False" and d: "d < length b" "ready (b ! d)"
  shows "slots_ok (b[d := (b ! d)\<lparr>element := None\<rparr>]) d lim C True" (is "slots_ok ?b _ _ _ _")
proof (rule slots_okI)
  note at = slots_unclaimed [OF ok d]
  have sel: "?b ! k = (if k = d then \<lparr>ready = True, element = None\<rparr> else b ! k)" for k using d by (simp add: nth_list_update)
  show "d \<le> k \<and> k < lim \<and> ?b ! k = \<lparr>ready = False, element = e\<rparr>" if "(u, k, e) \<in> C" for u k e
    using that at slots_claimed [OF ok, of u k e] unfolding sel by (cases "k = d") auto
  show "ready (?b ! k) \<and> (element (?b ! k) = None \<longleftrightarrow> True \<and> k = d)" if "d \<le> k" "k < lim" "\<And>u e. (u, k, e) \<notin> C" for k
    using that slots_published [OF ok, of k] unfolding sel by auto
  show "?b ! k = raw_slot" if "k < length ?b" "k < d \<or> lim \<le> k" for k using that at slots_raw [OF ok, of k] unfolding sel by auto
  show "d < lim \<and> ?b ! d = \<lparr>ready = True, element = None\<rparr>" using at unfolding sel by simp
qed (use slots_only [OF ok] slots_bounds [OF ok] in simp_all)

lemma slots_unready:
  assumes ok: "slots_ok b d lim C True"
  shows "slots_ok (b[d := (b ! d)\<lparr>ready := False\<rparr>]) (Suc d) lim C False" (is "slots_ok ?b _ _ _ _")
proof (rule slots_okI)
  note d = slots_emptied [OF ok TrueI] and le = slots_bounds [OF ok]
  have sel: "?b ! k = (if k = d then raw_slot else b ! k)" for k using d le by (simp add: nth_list_update raw_slot_def)
  have ne: "k \<noteq> d" if "(u, k, e) \<in> C" for u k e using that slots_claimed [OF ok that] d by auto
  show "Suc d \<le> k \<and> k < lim \<and> ?b ! k = \<lparr>ready = False, element = e\<rparr>" if "(u, k, e) \<in> C" for u k e
    using ne [OF that] slots_claimed [OF ok that] unfolding sel by auto
  show "ready (?b ! k) \<and> (element (?b ! k) = None \<longleftrightarrow> False \<and> k = Suc d)" if "Suc d \<le> k" "k < lim" "\<And>u e. (u, k, e) \<notin> C" for k
    using that slots_published [OF ok, of k] unfolding sel by auto
  show "?b ! k = raw_slot" if "k < length ?b" "k < Suc d \<or> lim \<le> k" for k using that slots_raw [OF ok, of k] unfolding sel by auto
qed (use slots_only [OF ok] slots_bounds [OF ok] slots_emptied [OF ok] in auto)


section \<open>Segments\<close>

abbreviation cap_of :: "'a segment \<Rightarrow> nat" where
  "cap_of g \<equiv> es_capacity (enqueue_pos g)"

abbreviation pos_of :: "'a segment \<Rightarrow> nat" where
  "pos_of g \<equiv> es_pos (enqueue_pos g)"

lemma seg_cap: "seg_ok g C v \<Longrightarrow> cap_of g \<le> LIMIT"
  by (simp add: seg_ok_def Let_def)

lemma seg_claim:
  assumes ok: "seg_ok g C v" and room: "pos_of g < cap_of g"
  shows "seg_ok (g\<lparr>enqueue_pos := enqueue_pos g + 1\<rparr>) (insert (t, pos_of g, None) C) v"
proof -
  have "pos_of g + 1 < 2 ^ 32" using room seg_cap [OF ok] by (simp add: LIMIT_def)
  note w = es_increment [OF this]
  have m: "min (pos_of g) (cap_of g) = pos_of g" "min (Suc (pos_of g)) (cap_of g) = Suc (pos_of g)" using room by simp_all
  show ?thesis
  proof (cases "v = Live \<or> v = Unreadying")
    case True
    then obtain b where b: "buffer g = Some b" "length b = original_capacity g" "cap_of g \<le> length b"
      "slots_ok b (dequeue_state g) (pos_of g) C (v = Unreadying)" using ok by (auto simp: seg_ok_def Let_def m)
    have "slots_ok b (dequeue_state g) (Suc (pos_of g)) (insert (t, pos_of g, None) C) (v = Unreadying)"
      using slots_claim [OF b(4)] room b(3) by simp
    then show ?thesis using True ok b by (auto simp: seg_ok_def Let_def w m)
  next
    case False
    then show ?thesis using ok room by (cases v) (simp_all add: seg_ok_def Let_def)
  qed
qed

lemma seg_full:
  assumes "seg_ok g C v" "cap_of g \<le> pos_of g" "es_capacity w = cap_of g" "cap_of g \<le> es_pos w"
  shows "seg_ok (g\<lparr>enqueue_pos := w\<rparr>) C v"
  using assms by (cases v) (auto simp: seg_ok_def Let_def min_absorb2)

lemma seg_buffer:
  assumes "seg_ok g C v" "(t, i, e) \<in> C \<or> v = Live \<or> v = Unreadying"
  obtains b where "buffer g = Some b" "length b = original_capacity g" "cap_of g \<le> length b"
    "slots_ok b (dequeue_state g) (min (pos_of g) (cap_of g)) C (v = Unreadying)"
  using assms by (cases v) (auto simp: seg_ok_def Let_def)

lemma seg_slots:
  assumes ok: "seg_ok g C v" and b: "buffer g = Some b" and c: "(t, i, e) \<in> C"
    and new: "slots_ok b' (dequeue_state g) (min (pos_of g) (cap_of g)) C' (v = Unreadying)" and len: "length b' = length b"
  shows "seg_ok (g\<lparr>buffer := Some b'\<rparr>) C' v"
  using assms by (cases v) (auto simp: seg_ok_def Let_def)

lemma seg_construct:
  assumes ok: "seg_ok g C v" and c: "(t, i, None) \<in> C" and one: "\<And>j e. (t, j, e) \<in> C \<Longrightarrow> j = i"
  shows "\<exists>b. buffer g = Some b \<and> i < length b \<and> b ! i = \<lparr>ready = False, element = None\<rparr> \<and>
    seg_ok (g\<lparr>buffer := Some (b[i := (b ! i)\<lparr>element := Some x\<rparr>])\<rparr>) ((C - {y. fst y = t}) \<union> {(t, i, Some x)}) v"
proof -
  obtain b where b: "buffer g = Some b" "slots_ok b (dequeue_state g) (min (pos_of g) (cap_of g)) C (v = Unreadying)"
    using seg_buffer [OF ok] c by metis
  then show ?thesis using slots_claimed [OF b(2) c] slots_at [OF b(2) c]
      seg_slots [OF ok b(1) c slots_construct [OF b(2) c one]] by simp
qed

lemma seg_publish:
  assumes ok: "seg_ok g C v" and c: "(t, i, Some x) \<in> C" and one: "\<And>j e. (t, j, e) \<in> C \<Longrightarrow> j = i"
  shows "\<exists>b. buffer g = Some b \<and> i < length b \<and> b ! i = \<lparr>ready = False, element = Some x\<rparr> \<and>
    seg_ok (g\<lparr>buffer := Some (b[i := (b ! i)\<lparr>ready := True\<rparr>])\<rparr>) (C - {y. fst y = t}) v"
proof -
  obtain b where b: "buffer g = Some b" "slots_ok b (dequeue_state g) (min (pos_of g) (cap_of g)) C (v = Unreadying)"
    using seg_buffer [OF ok] c by metis
  then show ?thesis using slots_claimed [OF b(2) c] slots_at [OF b(2) c]
      seg_slots [OF ok b(1) c slots_publish [OF b(2) c one]] by simp
qed

text \<open>The consumer: taking an element out and passing its slot.\<close>

lemma seg_front:
  assumes "seg_ok g C Live" "dequeue_state g < seg_capacity g"
  obtains b where "buffer g = Some b" "dequeue_state g < length b"
    "ready (b ! dequeue_state g) \<Longrightarrow> element (b ! dequeue_state g) \<noteq> None"
proof -
  obtain b where b: "buffer g = Some b" "length b = original_capacity g" "cap_of g \<le> length b"
    "slots_ok b (dequeue_state g) (min (pos_of g) (cap_of g)) C (Live = Unreadying)"
    using seg_buffer [OF assms(1)] by metis
  have "seg_capacity g = cap_of g" using assms(1) by (simp add: seg_ok_def Let_def)
  then have d: "dequeue_state g < length b" using assms(2) b(3) by simp
  show ?thesis
  proof (rule that [OF b(1) d])
    assume r: "ready (b ! dequeue_state g)"
    show "element (b ! dequeue_state g) \<noteq> None"
      using slots_published [OF b(4) _ _ slots_unclaimed(3) [OF b(4) d r]] slots_unclaimed(1,2) [OF b(4) d r] by simp
  qed
qed

lemma seg_take:
  assumes ok: "seg_ok g C Live" and b: "buffer g = Some b" "dequeue_state g < length b" "ready (b ! dequeue_state g)"
  shows "seg_ok (g\<lparr>buffer := Some (b[dequeue_state g := (b ! dequeue_state g)\<lparr>element := None\<rparr>])\<rparr>) C Unreadying"
proof -
  have "slots_ok b (dequeue_state g) (min (pos_of g) (cap_of g)) C False" using ok b by (auto simp: seg_ok_def Let_def)
  from slots_take [OF this b(2,3)] show ?thesis using ok b by (auto simp: seg_ok_def Let_def)
qed

lemma seg_unready:
  assumes ok: "seg_ok g C Unreadying"
  shows "\<exists>b. buffer g = Some b \<and> dequeue_state g < length b \<and> b ! dequeue_state g = \<lparr>ready = True, element = None\<rparr> \<and>
    seg_capacity g = cap_of g \<and>
    seg_ok (g\<lparr>buffer := Some (b[dequeue_state g := (b ! dequeue_state g)\<lparr>ready := False\<rparr>]), dequeue_state := Suc (dequeue_state g)\<rparr>) C
      (if Suc (dequeue_state g) = seg_capacity g then Draining else Live)"
proof -
  obtain b where b: "buffer g = Some b" "length b = original_capacity g" "cap_of g \<le> length b"
    "slots_ok b (dequeue_state g) (min (pos_of g) (cap_of g)) C True" using ok by (auto simp: seg_ok_def Let_def)
  note d = slots_emptied [OF b(4) TrueI] and new = slots_unready [OF b(4)]
  have "seg_capacity g = cap_of g" using ok by (simp add: seg_ok_def Let_def)
  then show ?thesis using b d new ok by (auto simp: seg_ok_def Let_def)
qed

text \<open>Reopening: a drained segment has no claims and no elements left.\<close>

lemma drained_raw:
  assumes "slots_ok b d d C False"
  shows "C = {}" and "sum_list (map slot_content b) = {#}"
proof -
  show "C = {}" using slots_claimed [OF assms] by fastforce
  have "b = replicate (length b) raw_slot"
    by (rule nth_equalityI) (simp_all add: slots_raw [OF assms] linorder_not_less [symmetric] disj_commute)
  moreover have "sum_list (map slot_content (replicate n raw_slot)) = {#}" for n
    by (induction n) (simp_all add: slot_content_def raw_slot_def)
  ultimately show "sum_list (map slot_content b) = {#}" by metis
qed

lemma seg_free:
  assumes ok: "seg_ok g C Draining" and n: "n \<le> LIMIT"
  shows "seg_ok (g\<lparr>buffer := None\<rparr>) C (Freed n)" and "seg_content g = {#}" and "C = {}"
proof -
  obtain b where b: "buffer g = Some b" "slots_ok b (dequeue_state g) (dequeue_state g) C False"
    using ok by (auto simp: seg_ok_def Let_def min_absorb2)
  show "C = {}" by (rule drained_raw(1) [OF b(2)])
  show "seg_content g = {#}" using drained_raw(2) [OF b(2)] b(1) by (simp add: seg_content_def)
  show "seg_ok (g\<lparr>buffer := None\<rparr>) C (Freed n)" using ok n drained_raw(1) [OF b(2)] by (simp add: seg_ok_def Let_def)
qed

lemma seg_install:
  "seg_ok g C (Freed n) \<Longrightarrow>
     seg_ok (g\<lparr>buffer := Some (replicate n raw_slot), original_capacity := n, seg_capacity := n, dequeue_state := 0\<rparr>) C (Fresh n)"
  by (simp add: seg_ok_def Let_def)

lemma slots_fresh: "slots_ok (replicate n raw_slot) 0 0 {} False"
  by (rule slots_okI) simp_all

lemma seg_open:
  assumes "seg_ok g C (Fresh n)"
  shows "seg_ok (g\<lparr>enqueue_pos := es_pack n 0\<rparr>) C Live"
proof -
  have "n < 2 ^ 32" using assms by (simp add: seg_ok_def Let_def LIMIT_def)
  then show ?thesis using assms slots_fresh [of n] by (auto simp: seg_ok_def Let_def)
qed

lemma seg_shrink:
  assumes "seg_ok g C Live" "0 < pos_of g" "pos_of g < cap_of g"
  shows "seg_ok (g\<lparr>enqueue_pos := es_pack (pos_of g) (pos_of g)\<rparr>) C (Capping (pos_of g))"
proof -
  have "pos_of g < 2 ^ 32" by (rule es_pos_less)
  then show ?thesis using assms by (auto simp: seg_ok_def Let_def min_absorb1)
qed

lemma seg_capped:
  assumes ok: "seg_ok g C (Capping p)"
  shows "seg_ok (g\<lparr>seg_capacity := p\<rparr>) C (if dequeue_state g \<ge> p then Draining else Live)"
proof -
  obtain b where b: "slots_ok b (dequeue_state g) (min (pos_of g) (cap_of g)) C False" using ok by (auto simp: seg_ok_def Let_def)
  have "cap_of g = p" "p \<le> pos_of g" using ok by (simp_all add: seg_ok_def Let_def)
  then have "dequeue_state g \<le> p" using slots_bounds [OF b] by simp
  then show ?thesis using ok by (auto simp: seg_ok_def Let_def)
qed

end
