(* ===== verification/Mpsc_Producer.thy ===== *)
theory Mpsc_Producer
  imports Mpsc_Steps
begin

text \<open>Every step of a producer is defined, keeps the invariant and accounts for the elements.\<close>

fun content_effect :: "'a event option \<Rightarrow> 'a multiset \<Rightarrow> 'a multiset \<Rightarrow> bool" where
  "content_effect (Some (Pushed t v)) M M' \<longleftrightarrow> M' = add_mset v M"
| "content_effect (Some (Popped v)) M M' \<longleftrightarrow> M = add_mset v M'"
| "content_effect e M M' \<longleftrightarrow> M' = M"

lemma clamping_finite [simp]: "finite (clamping P pcs j n)"
  by (simp add: clamping_def)

lemma clamping_less: "t < P \<Longrightarrow> t \<notin> clamping P pcs j n \<Longrightarrow> card (clamping P pcs j n) < P"
proof -
  assume t: "t < P" "t \<notin> clamping P pcs j n"
  then have "clamping P pcs j n \<subset> {..<P}" by (auto simp: clamping_def)
  then show ?thesis using psubset_card_mono [of "{..<P}"] by simp
qed

lemma clamping_update:
  "t < P \<Longrightarrow> clamping P (pcs(t := p)) j n = (if clamps p j n then insert t (clamping P pcs j n) else clamping P pcs j n - {t})"
  by (auto simp: clamping_def)

lemma clamping_same:
  "(\<And>k n. \<not> clamps (pcs t) k n) \<Longrightarrow> (\<And>k n. \<not> clamps p k n) \<Longrightarrow> clamping P (pcs(t := p)) j n = clamping P pcs j n"
  by (auto simp: clamping_def)

lemma count_more: "count_ok g n \<Longrightarrow> (\<And>k. n k \<subseteq> m k) \<Longrightarrow> (\<And>k. finite (m k)) \<Longrightarrow> count_ok g m"
  unfolding count_ok_def Let_def by (meson add_le_mono card_mono le_refl le_trans)

lemma count_below: "pos_of g \<le> cap_of g + POSITION_CLAMP_DISTANCE \<Longrightarrow> count_ok g n"
  by (simp add: count_ok_def Let_def)

lemma mpsc_invD:
  assumes "mpsc_inv P (s, pcs, c)"
  shows "producer_target s < length (segments s)" "consumer_target s < length (segments s)"
    "producer_ok (length (segments s)) (pcs t)" "consumer_ok s c"
    "j < length (segments s) \<Longrightarrow> seg_ok (segments s ! j) (claims pcs j) (view_of c j)"
    "j < length (segments s) \<Longrightarrow> count_ok (segments s ! j) (clamping P pcs j)"
    "t \<ge> P \<Longrightarrow> pcs t = Resting"
  using assms by (simp_all add: mpsc_inv_def)

lemma consumer_ok_frame:
  assumes "consumer_ok s c" "length (segments s') = length (segments s)"
    and "\<And>j a. c = Take_Out j a \<Longrightarrow> dequeue_state (segments s' ! j) = dequeue_state (segments s ! j) \<and>
      slot_at s' j (dequeue_state (segments s ! j)) = slot_at s j (dequeue_state (segments s ! j))"
  shows "consumer_ok s' c"
  using assms by (cases c) auto

lemma producer_frame:
  assumes inv: "mpsc_inv P (s, pcs, c)" and t: "t < P"
    and s': "length (segments s') = length (segments s)" "producer_target s' < length (segments s)" "consumer_target s' = consumer_target s"
    and p: "producer_ok (length (segments s)) p" and cons: "consumer_ok s' c"
    and others: "\<And>k. k \<noteq> j \<Longrightarrow> segments s' ! k = segments s ! k \<and> claim_of t (pcs t) k = {} \<and> claim_of t p k = {} \<and> (\<forall>n. \<not> clamps (pcs t) k n)"
    and seg: "j < length (segments s) \<Longrightarrow> seg_ok (segments s' ! j) (claims (pcs(t := p)) j) (view_of c j)"
    and count: "j < length (segments s) \<Longrightarrow> count_ok (segments s' ! j) (clamping P (pcs(t := p)) j)"
  shows "mpsc_inv P (s', pcs(t := p), c)"
proof -
  have "seg_ok (segments s' ! k) (claims (pcs(t := p)) k) (view_of c k) \<and> count_ok (segments s' ! k) (clamping P (pcs(t := p)) k)"
    if k: "k < length (segments s)" for k
  proof (cases "k = j")
    case True
    then show ?thesis using seg count k by simp
  next
    case False
    note o = others [OF False]
    have "count_ok (segments s ! k) (clamping P (pcs(t := p)) k)"
    proof (rule count_more [OF mpsc_invD(6) [OF inv k]])
      show "clamping P pcs k n \<subseteq> clamping P (pcs(t := p)) k n" for n using o by (auto simp: clamping_update [OF t] clamping_def)
    qed simp
    then show ?thesis using o mpsc_invD(5) [OF inv k] claims_same [of t pcs k p] by simp
  qed
  then show ?thesis using s' p cons mpsc_invD(2,3,7) [OF inv] t by (auto simp: mpsc_inv_def)
qed

lemma slot_at_word [simp]: "slot_at (segment_update j (enqueue_pos_update f) s) k i = slot_at s k i"
  by (cases "k = j"; cases "j < length (segments s)") (simp_all add: slot_at_def segment_update_def list_update_beyond not_less)

lemma dequeue_word [simp]: "dequeue_state (segments (segment_update j (enqueue_pos_update f) s) ! k) = dequeue_state (segments s ! k)"
  by (cases "k = j"; cases "j < length (segments s)") (simp_all add: segment_update_def list_update_beyond not_less)

lemma published_word [simp]: "j < length (segments s) \<Longrightarrow> published (segment_update j (enqueue_pos_update f) s) = published s"
  by (rule published_same) (simp_all add: seg_content_def)

lemma claim_failed_cases:
  obtains "claim_failed s t v j a = (Advance v j a, None)" | "claim_failed s t v j a = (Resting, Some (Refused t))"
  by (cases "Suc a < length (segments s)") (simp_all add: claim_failed_def)

text \<open>A step that only changes the word of a segment, or nothing at all, and neither makes nor drops a claim.\<close>

lemma word_frame:
  assumes inv: "mpsc_inv P (s, pcs, c)" and t: "t < P" and j: "j < length (segments s)"
    and p: "producer_ok (length (segments s)) p" "\<And>k. claim_of t (pcs t) k = {}" "\<And>k. claim_of t p k = {}"
      "\<And>k n. k \<noteq> j \<Longrightarrow> \<not> clamps (pcs t) k n"
    and seg: "seg_ok (enqueue_pos_update f (segments s ! j)) (claims pcs j) (view_of c j)"
    and count: "count_ok (enqueue_pos_update f (segments s ! j)) (clamping P (pcs(t := p)) j)"
  shows "mpsc_inv P (segment_update j (enqueue_pos_update f) s, pcs(t := p), c)"
proof (rule producer_frame [OF inv t, of _ p j])
  show "consumer_ok (segment_update j (enqueue_pos_update f) s) c"
    by (rule consumer_ok_frame [OF mpsc_invD(4) [OF inv]]) simp_all
  show "seg_ok (segments (segment_update j (enqueue_pos_update f) s) ! j) (claims (pcs(t := p)) j) (view_of c j)"
    using seg j claims_same [of t pcs j p] p by simp
  show "count_ok (segments (segment_update j (enqueue_pos_update f) s) ! j) (clamping P (pcs(t := p)) j)"
    using count j by simp
qed (use p mpsc_invD(1) [OF inv] in simp_all)

lemma same_frame:
  assumes inv: "mpsc_inv P (s, pcs, c)" and t: "t < P" and j: "j < length (segments s)"
    and p: "producer_ok (length (segments s)) p" "\<And>k. claim_of t (pcs t) k = {}" "\<And>k. claim_of t p k = {}"
      "\<And>k n. k \<noteq> j \<Longrightarrow> \<not> clamps (pcs t) k n"
    and count: "count_ok (segments s ! j) (clamping P (pcs(t := p)) j)"
  shows "mpsc_inv P (s, pcs(t := p), c)"
  by (rule producer_frame [OF inv t, of s p j])
    (use p mpsc_invD(1,4) [OF inv] mpsc_invD(5) [OF inv j] count claims_same [of t pcs j p] in simp_all)


text \<open>The outcome of a step of producer \<open>t\<close>: it is defined, keeps the invariant and accounts for the elements.\<close>

definition push_sound :: "nat \<Rightarrow> nat \<Rightarrow> 'a mpsc_state \<Rightarrow> ('a mpsc \<times> 'a producer \<times> 'a event option) option \<Rightarrow> bool" where
  "push_sound P t k r \<longleftrightarrow> (case k of (s, pcs, c) \<Rightarrow>
     (\<exists>s' p e. r = Some (s', p, e) \<and> mpsc_inv P (s', pcs(t := p), c) \<and>
        length (segments s') = length (segments s) \<and> content_effect e (published s) (published s')))"

lemma push_soundI:
  "mpsc_inv P (s', pcs(t := p), c) \<Longrightarrow> length (segments s') = length (segments s) \<Longrightarrow>
     content_effect e (published s) (published s') \<Longrightarrow> push_sound P t (s, pcs, c) (Some (s', p, e))"
  by (simp add: push_sound_def)

lemma claim_failed_facts:
  assumes "j < length (segments s)"
  shows "producer_ok (length (segments s)) (fst (claim_failed s t v j a))" "claim_of t (fst (claim_failed s t v j a)) k = {}"
    "\<not> clamps (fst (claim_failed s t v j a)) k n" "content_effect (snd (claim_failed s t v j a)) M M"
  using assms by (simp_all add: claim_failed_def)

lemma clamp_continue_sound:
  assumes inv: "mpsc_inv P (s, pcs, c)" and t: "t < P" and j: "j < length (segments s)"
    and now: "\<And>k. claim_of t (pcs t) k = {}" "\<And>k n. clamps (pcs t) k n \<longleftrightarrow> k = j \<and> n = cap"
  shows "push_sound P t (s, pcs, c) (Some (s, clamp_continue s t v j a cap (enqueue_pos (segments s ! j))))"
proof (cases "far_past cap (enqueue_pos (segments s ! j))")
  case True
  have "clamping P pcs j n \<subseteq> clamping P (pcs(t := Clamp_Exchange v j a cap w)) j n" for n w
    using now(2) by (auto simp: clamping_def)
  then have "mpsc_inv P (s, pcs(t := Clamp_Exchange v j a cap (enqueue_pos (segments s ! j))), c)"
    by (intro same_frame [OF inv t j] count_more [OF mpsc_invD(6) [OF inv j]]) (use j now True in simp_all)
  then show ?thesis using True by (simp add: clamp_continue_def push_sound_def)
next
  case False
  let ?g = "segments s ! j" and ?p = "fst (claim_failed s t v j a)"
  note f = claim_failed_facts [OF j]
  have "count_ok ?g (clamping P (pcs(t := ?p)) j)"
  proof (cases "cap_of ?g = cap")
    case True
    then show ?thesis using False by (intro count_below) (auto simp: far_past_def)
  next
    case False
    then have "clamping P pcs j (cap_of ?g) \<subseteq> clamping P (pcs(t := ?p)) j (cap_of ?g)"
      using now(2) f(3) by (auto simp: clamping_update [OF t] clamping_def)
    then have "card (clamping P pcs j (cap_of ?g)) \<le> card (clamping P (pcs(t := ?p)) j (cap_of ?g))" by (intro card_mono) simp_all
    then show ?thesis using mpsc_invD(6) [OF inv j] by (simp add: count_ok_def Let_def)
  qed
  then have "mpsc_inv P (s, pcs(t := ?p), c)"
    by (intro same_frame [OF inv t j]) (use f now in simp_all)
  then show ?thesis using False f(4) [of t v a "published s"]
    by (cases "claim_failed s t v j a") (simp add: clamp_continue_def push_sound_def)
qed

lemma claim_sound:
  assumes inv: "mpsc_inv P (s, pcs, c)" and t: "t < P" and P: "P < 2 ^ 30" and now: "pcs t = Claim v j a"
  shows "push_sound P t (s, pcs, c) (push_step fails t s (Claim v j a))"
proof -
  have j: "j < length (segments s)" using mpsc_invD(3) [OF inv, of t] now by simp
  let ?g = "segments s ! j"
  note ok = mpsc_invD(5) [OF inv j] and count = mpsc_invD(6) [OF inv j]
  define s' where "s' = segment_update j (enqueue_pos_update (\<lambda>w. w + 1)) s"
  have s': "length (segments s') = length (segments s)" "published s' = published s" using j by (simp_all add: s'_def)
  have none: "claim_of t (pcs t) k = {}" "\<not> clamps (pcs t) k n" for k n using now by simp_all
  have "t \<notin> clamping P pcs j n" for n using none by (simp add: clamping_def)
  then have less: "card (clamping P pcs j n) < P" for n by (rule clamping_less [OF t])
  have upd: "enqueue_pos_update (\<lambda>w. w + 1) ?g = ?g\<lparr>enqueue_pos := enqueue_pos ?g + 1\<rparr>" by simp
  show ?thesis
  proof (cases "pos_of ?g < cap_of ?g")
    case True
    then have "pos_of ?g + 1 < 2 ^ 32" using seg_cap [OF ok] by (simp add: LIMIT_def)
    note w = es_increment [OF this]
    have "claims (pcs(t := Construct v j (pos_of ?g))) j = insert (t, pos_of ?g, None) (claims pcs j)"
      using claims_same [of t pcs j Resting] none by (auto simp: claims_update)
    then have "mpsc_inv P (s', pcs(t := Construct v j (pos_of ?g)), c)"
      unfolding s'_def using j none w True mpsc_invD(1) [OF inv] seg_claim [OF ok True]
      by (intro producer_frame [OF inv t, of _ _ j] consumer_ok_frame [OF mpsc_invD(4) [OF inv]])
        (simp_all add: count_ok_def Let_def upd)
    then show ?thesis using True s' by (simp add: push_sound_def Let_def flip: s'_def)
  next
    case False
    have "pos_of ?g + 1 < 2 ^ 32"
      using count less [of "cap_of ?g"] seg_cap [OF ok] P by (simp add: count_ok_def Let_def LIMIT_def POSITION_CLAMP_DISTANCE_def)
    note w = es_increment [OF this]
    have full: "seg_ok (?g\<lparr>enqueue_pos := enqueue_pos ?g + 1\<rparr>) (claims pcs j) (view_of c j)"
      by (rule seg_full [OF ok]) (use False w in simp_all)
    show ?thesis
    proof (cases "pos_of ?g - cap_of ?g \<ge> POSITION_CLAMP_DISTANCE")
      case True
      let ?p = "Clamp_Load v j a (cap_of ?g)"
      have "card (clamping P (pcs(t := ?p)) j (cap_of ?g)) = Suc (card (clamping P pcs j (cap_of ?g)))"
        using \<open>\<And>n. t \<notin> clamping P pcs j n\<close> by (simp add: clamping_update [OF t])
      then have "mpsc_inv P (s', pcs(t := ?p), c)"
        unfolding s'_def using none j full count w
        by (intro word_frame [OF inv t j]) (simp_all add: count_ok_def Let_def upd)
      then show ?thesis using True False s' by (simp add: push_sound_def Let_def flip: s'_def)
    next
      case near: False
      let ?p = "fst (claim_failed s t v j a)"
      note f = claim_failed_facts [OF j]
      have "mpsc_inv P (s', pcs(t := ?p), c)"
        unfolding s'_def using none f full w near False
        by (intro word_frame [OF inv t j]) (auto simp: count_ok_def Let_def upd)
      then show ?thesis using near False s' f(4) [of t v a "published s"]
        by (cases "claim_failed s t v j a") (simp add: push_sound_def Let_def flip: s'_def)
    qed
  qed
qed


lemma clamp_exchange_sound:
  assumes inv: "mpsc_inv P (s, pcs, c)" and t: "t < P" and now: "pcs t = Clamp_Exchange v j a cap w"
  shows "push_sound P t (s, pcs, c) (push_step fails t s (Clamp_Exchange v j a cap w))"
proof -
  have j: "j < length (segments s)" using mpsc_invD(3) [OF inv, of t] now by simp
  let ?g = "segments s ! j"
  have none: "claim_of t (pcs t) k = {}" "clamps (pcs t) k n \<longleftrightarrow> k = j \<and> n = cap" for k n using now by auto
  show ?thesis
  proof (cases "enqueue_pos ?g = w \<and> \<not> fails")
    case False
    then show ?thesis using clamp_continue_sound [OF inv t j none, of v a]
      by (cases "clamp_continue s t v j a cap (enqueue_pos ?g)") (auto simp: Let_def)
  next
    case True
    let ?p = "fst (claim_failed s t v j a)" and ?w = "es_pack (cap_of ?g) (cap_of ?g)"
    note f = claim_failed_facts [OF j]
    have "far_past cap w" using mpsc_invD(3) [OF inv, of t] now by simp
    then have w: "cap_of ?g = cap" "cap_of ?g \<le> pos_of ?g" using True by (auto simp: far_past_def)
    have small: "cap_of ?g < 2 ^ 32" using seg_cap [OF mpsc_invD(5) [OF inv j]] by (simp add: LIMIT_def)
    have "seg_ok (?g\<lparr>enqueue_pos := ?w\<rparr>) (claims pcs j) (view_of c j)"
      by (rule seg_full [OF mpsc_invD(5) [OF inv j] w(2)]) (use small in simp_all)
    then have "mpsc_inv P (segment_update j (enqueue_pos_update (\<lambda>_. ?w)) s, pcs(t := ?p), c)"
      using none f small by (intro word_frame [OF inv t j]) (simp_all add: count_ok_def Let_def)
    then show ?thesis using True w j f(4) [of t v a "published s"]
      by (cases "claim_failed s t v j a") (simp add: push_sound_def Let_def)
  qed
qed

lemma only_claim:
  assumes "pcs t = Construct v j i \<or> pcs t = Publish v j i" "(t, k, e) \<in> claims pcs j"
  shows "k = i"
  using assms claim_of_thread by (fastforce simp: claims_def)

lemma slot_update_buffer:
  assumes "j < length (segments s)" "buffer (segments s ! j) = Some b"
  shows "segments (slot_update j i f s) ! j = (segments s ! j)\<lparr>buffer := Some (b[i := f (b ! i)])\<rparr>"
  using assms by simp

lemma slot_update_elsewhere:
  "k \<noteq> i \<Longrightarrow> slot_at (slot_update j i f s) l k = slot_at s l k"
  by (cases "l = j"; cases "j < length (segments s)")
    (auto simp: slot_at_def slot_update_def segment_update_def list_update_beyond not_less split: option.splits)

lemma slot_update_dequeue: "dequeue_state (segments (slot_update j i f s) ! l) = dequeue_state (segments s ! l)"
  by (cases "l = j"; cases "j < length (segments s)") (auto simp: slot_update_def segment_update_def list_update_beyond not_less)

lemma slot_update_other: "l \<noteq> j \<Longrightarrow> slot_at (slot_update j i f s) l k = slot_at s l k"
  by (simp add: slot_at_def)

text \<open>A producer writes only the slot it has claimed, which is not the ready one the consumer holds.\<close>

lemma consumer_ok_claimed:
  assumes "consumer_ok s c" and "slot_at s j i = Some x" "\<not> ready x"
  shows "consumer_ok (slot_update j i f s) c"
proof (rule consumer_ok_frame [OF assms(1)])
  fix l a assume "c = Take_Out l a"
  then have "l \<noteq> j \<or> dequeue_state (segments s ! l) \<noteq> i" using assms by auto
  then show "dequeue_state (segments (slot_update j i f s) ! l) = dequeue_state (segments s ! l) \<and>
      slot_at (slot_update j i f s) l (dequeue_state (segments s ! l)) = slot_at s l (dequeue_state (segments s ! l))"
    using slot_update_elsewhere slot_update_other slot_update_dequeue by metis
qed simp

lemma slot_frame:
  assumes inv: "mpsc_inv P (s, pcs, c)" and t: "t < P" and j: "j < length (segments s)"
    and b: "buffer (segments s ! j) = Some b" "i < length b" "\<not> ready (b ! i)"
    and now: "\<And>k. k \<noteq> j \<Longrightarrow> claim_of t (pcs t) k = {}" "\<And>k n. \<not> clamps (pcs t) k n"
    and p: "producer_ok (length (segments s)) p" "\<And>k. k \<noteq> j \<Longrightarrow> claim_of t p k = {}" "\<And>k n. \<not> clamps p k n"
    and seg: "seg_ok ((segments s ! j)\<lparr>buffer := Some (b[i := f (b ! i)])\<rparr>) ((claims pcs j - {y. fst y = t}) \<union> claim_of t p j) (view_of c j)"
  shows "mpsc_inv P (slot_update j i f s, pcs(t := p), c)"
proof (rule producer_frame [OF inv t, of _ p j])
  have "slot_at s j i = Some (b ! i)" using b by (simp add: slot_at_def)
  then show "consumer_ok (slot_update j i f s) c" using consumer_ok_claimed [OF mpsc_invD(4) [OF inv]] b(3) by blast
  show "seg_ok (segments (slot_update j i f s) ! j) (claims (pcs(t := p)) j) (view_of c j)"
    using seg by (simp only: slot_update_buffer [OF j b(1)] claims_update)
  have "clamping P (pcs(t := p)) j n = clamping P pcs j n" for n using now(2) p(3) by (auto simp: clamping_def)
  then show "count_ok (segments (slot_update j i f s) ! j) (clamping P (pcs(t := p)) j)"
    using mpsc_invD(6) [OF inv j] j b(1) by (simp add: count_ok_def Let_def)
qed (use now p mpsc_invD(1) [OF inv] in simp_all)

lemma construct_sound:
  assumes inv: "mpsc_inv P (s, pcs, c)" and t: "t < P" and now: "pcs t = Construct v j i"
  shows "push_sound P t (s, pcs, c) (push_step fails t s (Construct v j i))"
proof -
  have j: "j < length (segments s)" using mpsc_invD(3) [OF inv, of t] now by simp
  have "(t, i, None) \<in> claims pcs j" by (rule claim_in [of _ t]) (simp add: now)
  moreover have "\<And>k e. (t, k, e) \<in> claims pcs j \<Longrightarrow> k = i" using only_claim [of pcs t v j i] now by blast
  ultimately
  obtain b where b: "buffer (segments s ! j) = Some b" "i < length b" "b ! i = \<lparr>ready = False, element = None\<rparr>"
    "seg_ok ((segments s ! j)\<lparr>buffer := Some (b[i := (b ! i)\<lparr>element := Some v\<rparr>])\<rparr>) ((claims pcs j - {y. fst y = t}) \<union> {(t, i, Some v)}) (view_of c j)"
    using seg_construct [OF mpsc_invD(5) [OF inv j], of t i v] by blast
  have "mpsc_inv P (slot_update j i (element_update (\<lambda>_. Some v)) s, pcs(t := Publish v j i), c)"
    by (rule slot_frame [OF inv t j b(1,2)]) (use b now j in simp_all)
  moreover have at: "slot_at s j i = Some \<lparr>ready = False, element = None\<rparr>" using b by (simp add: slot_at_def)
  moreover have "published (slot_update j i (element_update (\<lambda>_. Some v)) s) = published s"
    using published_slot [OF j at, of "element_update (\<lambda>_. Some v)"] by (simp add: slot_content_def)
  ultimately show ?thesis by (simp add: push_sound_def)
qed

lemma publish_sound:
  assumes inv: "mpsc_inv P (s, pcs, c)" and t: "t < P" and now: "pcs t = Publish v j i"
  shows "push_sound P t (s, pcs, c) (push_step fails t s (Publish v j i))"
proof -
  have j: "j < length (segments s)" using mpsc_invD(3) [OF inv, of t] now by simp
  have "(t, i, Some v) \<in> claims pcs j" by (rule claim_in [of _ t]) (simp add: now)
  moreover have "\<And>k e. (t, k, e) \<in> claims pcs j \<Longrightarrow> k = i" using only_claim [of pcs t v j i] now by blast
  ultimately
  obtain b where b: "buffer (segments s ! j) = Some b" "i < length b" "b ! i = \<lparr>ready = False, element = Some v\<rparr>"
    "seg_ok ((segments s ! j)\<lparr>buffer := Some (b[i := (b ! i)\<lparr>ready := True\<rparr>])\<rparr>) (claims pcs j - {y. fst y = t}) (view_of c j)"
    using seg_publish [OF mpsc_invD(5) [OF inv j], of t i v] by blast
  have "mpsc_inv P (slot_update j i (ready_update (\<lambda>_. True)) s, pcs(t := Resting), c)"
    by (rule slot_frame [OF inv t j b(1,2)]) (use b now j in simp_all)
  moreover have at: "slot_at s j i = Some \<lparr>ready = False, element = Some v\<rparr>" using b by (simp add: slot_at_def)
  moreover have "published (slot_update j i (ready_update (\<lambda>_. True)) s) = add_mset v (published s)"
    using published_slot [OF j at, of "ready_update (\<lambda>_. True)"] by (simp add: slot_content_def)
  ultimately show ?thesis by (simp add: push_sound_def)
qed

lemma push_step_sound:
  assumes inv: "mpsc_inv P (s, pcs, c)" and t: "t < P" "P < 2 ^ 30" and now: "pcs t \<noteq> Resting"
  shows "push_sound P t (s, pcs, c) (push_step fails t s (pcs t))"
proof (cases "pcs t")
  case (Load_Target v)
  note j = mpsc_invD(1) [OF inv]
  have "mpsc_inv P (s, pcs(t := Claim v (producer_target s) 0), c)"
    by (rule same_frame [OF inv t(1) j]) (use Load_Target j mpsc_invD(6) [OF inv j] in \<open>simp_all add: count_ok_def clamping_same\<close>)
  then show ?thesis using Load_Target by (simp add: push_sound_def)
next
  case (Claim v j a)
  then show ?thesis using claim_sound [OF inv t Claim] by simp
next
  case (Clamp_Load v j a cap)
  have j: "j < length (segments s)" using mpsc_invD(3) [OF inv, of t] Clamp_Load by simp
  show ?thesis using clamp_continue_sound [OF inv t(1) j, of cap v a] Clamp_Load
    by (cases "clamp_continue s t v j a cap (enqueue_pos (segments s ! j))") auto
next
  case (Clamp_Exchange v j a cap w)
  then show ?thesis using clamp_exchange_sound [OF inv t(1) Clamp_Exchange] by simp
next
  case (Advance v j a)
  have j: "j < length (segments s)" using mpsc_invD(3) [OF inv, of t] Advance by simp
  then have n: "next_segment s j < length (segments s)" by (cases "segments s") (simp_all add: next_segment_def)
  let ?s = "s\<lparr>producer_target := next_segment s j\<rparr>"
  have "consumer_ok ?s c" by (rule consumer_ok_frame [OF mpsc_invD(4) [OF inv]]) (simp_all add: slot_at_def)
  then have "mpsc_inv P (?s, pcs(t := Claim v (next_segment s j) (a + 1)), c)"
    by (intro producer_frame [OF inv t(1), of _ _ j])
      (use n Advance mpsc_invD(5,6) [OF inv j] in \<open>simp_all add: claims_same count_ok_def clamping_same\<close>)
  then show ?thesis using Advance by (simp add: push_sound_def published_def)
next
  case (Construct v j i)
  then show ?thesis using construct_sound [OF inv t(1) Construct] by simp
next
  case (Publish v j i)
  then show ?thesis using publish_sound [OF inv t(1) Publish] by simp
qed (use now in simp)

end
