(* ===== verification/Mpsc_Consumer.thy ===== *)
theory Mpsc_Consumer
  imports Mpsc_Producer
begin

text \<open>Every step of the consumer is defined, keeps the invariant and accounts for the elements.\<close>

definition config_ok :: "mpsc_config \<Rightarrow> bool" where
  "config_ok cf \<longleftrightarrow> growth_numerator cf \<noteq> 0 \<and> growth_denominator cf \<noteq> 0"

definition pop_sound :: "nat \<Rightarrow> 'a mpsc_state \<Rightarrow> ('a mpsc \<times> consumer \<times> 'a event option) option \<Rightarrow> bool" where
  "pop_sound P k r \<longleftrightarrow> (case k of (s, pcs, c) \<Rightarrow>
     (\<exists>s' c' e. r = Some (s', c', e) \<and> mpsc_inv P (s', pcs, c') \<and>
        length (segments s') = length (segments s) \<and> content_effect e (published s) (published s')))"

lemma pop_soundI:
  "mpsc_inv P (s', pcs, c') \<Longrightarrow> length (segments s') = length (segments s) \<Longrightarrow>
     content_effect e (published s) (published s') \<Longrightarrow> pop_sound P (s, pcs, c) (Some (s', c', e))"
  by (simp add: pop_sound_def)

lemma consumer_frame:
  assumes inv: "mpsc_inv P (s, pcs, c)"
    and s': "length (segments s') = length (segments s)" "producer_target s' = producer_target s" "consumer_target s' < length (segments s)"
    and cons: "consumer_ok s' c'"
    and others: "\<And>k. k \<noteq> j \<Longrightarrow> segments s' ! k = segments s ! k \<and> view_of c' k = view_of c k"
    and seg: "j < length (segments s) \<Longrightarrow> seg_ok (segments s' ! j) (claims pcs j) (view_of c' j)"
    and count: "j < length (segments s) \<Longrightarrow> count_ok (segments s' ! j) (clamping P pcs j)"
  shows "mpsc_inv P (s', pcs, c')"
proof -
  have "seg_ok (segments s' ! k) (claims pcs k) (view_of c' k) \<and> count_ok (segments s' ! k) (clamping P pcs k)"
    if k: "k < length (segments s)" for k
    using others [of k] mpsc_invD(5,6) [OF inv k] seg count k by (cases "k = j") simp_all
  then show ?thesis using s' cons mpsc_invD(1,3,7) [OF inv] by (simp add: mpsc_inv_def)
qed

lemma view_frame:
  assumes inv: "mpsc_inv P (s, pcs, c)" and c': "consumer_ok s c'" "\<And>k. view_of c' k = view_of c k"
  shows "mpsc_inv P (s, pcs, c')"
  using assms by (simp add: mpsc_inv_def)

lemma pop_failed_facts:
  assumes "j < length (segments s)"
  shows "consumer_ok s (fst (pop_failed s j a))" "view_of (fst (pop_failed s j a)) k = Live"
    "content_effect (snd (pop_failed s j a)) M M"
  using assms by (cases "segments s"; simp add: pop_failed_def next_segment_def)+

lemma after_facts: "after_ok (length (segments s)) k \<Longrightarrow> consumer_ok s (resume k)" "view_of (resume k) j = Live"
  by (cases k; simp add: resume_def)+

lemma try_pop_sound:
  assumes inv: "mpsc_inv P (s, pcs, Try_Pop j a)"
  shows "pop_sound P (s, pcs, Try_Pop j a) (pop_step cf ok s (Try_Pop j a))"
proof -
  have j: "j < length (segments s)" using mpsc_invD(4) [OF inv] by simp
  let ?g = "segments s ! j"
  have g: "seg_ok ?g (claims pcs j) Live" using mpsc_invD(5) [OF inv j] by simp
  have failed: "pop_sound P (s, pcs, Try_Pop j a) (Some (s, pop_failed s j a))"
    using view_frame [OF inv pop_failed_facts(1) [OF j, of a]] pop_failed_facts(2,3) [OF j, of a]
    by (cases "pop_failed s j a") (simp add: pop_sound_def)
  show ?thesis
  proof (cases "dequeue_state ?g < seg_capacity ?g")
    case False
    then show ?thesis using failed by simp
  next
    case True
    obtain b where b: "buffer ?g = Some b" "dequeue_state ?g < length b"
      "ready (b ! dequeue_state ?g) \<Longrightarrow> element (b ! dequeue_state ?g) \<noteq> None" using seg_front [OF g True] by metis
    then have at: "slot_at s j (dequeue_state ?g) = Some (b ! dequeue_state ?g)" by (simp add: slot_at_def)
    show ?thesis
    proof (cases "ready (b ! dequeue_state ?g)")
      case False
      then show ?thesis using failed True at by simp
    next
      case r: True
      then obtain v where "b ! dequeue_state ?g = \<lparr>ready = True, element = Some v\<rparr>"
        using b(3) by (cases "b ! dequeue_state ?g") auto
      then have "mpsc_inv P (s, pcs, Take_Out j a)" using view_frame [OF inv, of "Take_Out j a"] j at by simp
      then show ?thesis using r True at by (simp add: pop_sound_def)
    qed
  qed
qed

lemma take_out_sound:
  assumes inv: "mpsc_inv P (s, pcs, Take_Out j a)"
  shows "pop_sound P (s, pcs, Take_Out j a) (pop_step cf ok s (Take_Out j a))"
proof -
  let ?g = "segments s ! j" and ?d = "dequeue_state (segments s ! j)"
  obtain v where j: "j < length (segments s)" and at: "slot_at s j ?d = Some \<lparr>ready = True, element = Some v\<rparr>"
    using mpsc_invD(4) [OF inv] by auto
  then obtain b where b: "buffer ?g = Some b" "?d < length b" "b ! ?d = \<lparr>ready = True, element = Some v\<rparr>"
    by (auto simp: slot_at_def split: option.splits if_splits)
  let ?s = "slot_update j ?d (element_update (\<lambda>_. None)) s"
  have g: "seg_ok ?g (claims pcs j) Live" using mpsc_invD(5) [OF inv j] by simp
  have "mpsc_inv P (?s, pcs, Unready j a)"
    by (rule consumer_frame [OF inv, of _ _ j])
      (use j mpsc_invD(2) [OF inv] seg_take [OF g b(1,2)] mpsc_invD(6) [OF inv j] b in \<open>simp_all add: count_ok_def Let_def\<close>)
  moreover have "published s = add_mset v (published ?s)"
    using published_slot [OF j at, of "element_update (\<lambda>_. None)"] by (simp add: slot_content_def)
  ultimately show ?thesis using at by (simp add: pop_sound_def)
qed

lemma unready_sound:
  assumes inv: "mpsc_inv P (s, pcs, Unready j a)"
  shows "pop_sound P (s, pcs, Unready j a) (pop_step cf ok s (Unready j a))"
proof -
  let ?g = "segments s ! j" and ?d = "dequeue_state (segments s ! j)"
  have j: "j < length (segments s)" using mpsc_invD(4) [OF inv] by simp
  let ?c = "if Suc ?d = seg_capacity ?g then Retire j (Then_Finish j a) else Finish j a"
  let ?s = "segment_update j (dequeue_state_update (\<lambda>d. d + 1)) (slot_update j ?d (ready_update (\<lambda>_. False)) s)"
  have g: "seg_ok ?g (claims pcs j) Unreadying" using mpsc_invD(5) [OF inv j] by simp
  obtain b where b: "buffer ?g = Some b" "?d < length b" "b ! ?d = \<lparr>ready = True, element = None\<rparr>"
    and next_ok: "seg_ok (?g\<lparr>buffer := Some (b[?d := (b ! ?d)\<lparr>ready := False\<rparr>]), dequeue_state := Suc ?d\<rparr>) (claims pcs j)
      (if Suc ?d = seg_capacity ?g then Draining else Live)" using seg_unready [OF g] by blast
  have at: "slot_at s j ?d = Some \<lparr>ready = True, element = None\<rparr>" using b by (simp add: slot_at_def)
  have s: "segments ?s ! j = ?g\<lparr>buffer := Some (b[?d := (b ! ?d)\<lparr>ready := False\<rparr>]), dequeue_state := Suc ?d\<rparr>" using j b(1) by simp
  have "mpsc_inv P (?s, pcs, ?c)"
  proof (rule consumer_frame [OF inv, of _ _ j])
    show "seg_ok (segments ?s ! j) (claims pcs j) (view_of ?c j)" using next_ok unfolding s by (simp split: if_splits)
    show "count_ok (segments ?s ! j) (clamping P pcs j)" using mpsc_invD(6) [OF inv j] unfolding s by (simp add: count_ok_def Let_def)
  qed (use j mpsc_invD(2) [OF inv] in simp_all)
  moreover have "published ?s = published s"
    using published_slot [OF j at, of "ready_update (\<lambda>_. False)"] published_same [of j "slot_update j ?d (ready_update (\<lambda>_. False)) s" "dequeue_state_update (\<lambda>d. d + 1)"] j
    by (simp add: slot_content_def seg_content_def)
  ultimately show ?thesis using at j by (simp add: pop_sound_def Let_def)
qed


lemma retired_defined: "config_ok cf \<Longrightarrow> \<exists>n. retired_capacity cf s j = Some n"
  by (simp add: retired_capacity_def compute_shrunk_capacity_def compute_new_capacity_def config_ok_def Let_def)

lemma retire_sound:
  assumes inv: "mpsc_inv P (s, pcs, Retire j k)" and cf: "config_ok cf" and ok: "\<And>n. ok n \<Longrightarrow> n \<le> LIMIT"
  shows "pop_sound P (s, pcs, Retire j k) (pop_step cf ok s (Retire j k))"
proof -
  let ?g = "segments s ! j" and ?s = "segment_update j (buffer_update (\<lambda>_. None)) s"
  have j: "j < length (segments s)" and k: "after_ok (length (segments s)) k" using mpsc_invD(4) [OF inv] by simp_all
  have g: "seg_ok ?g (claims pcs j) Draining" using mpsc_invD(5) [OF inv j] by simp
  obtain m where m: "retired_capacity cf s j = Some m" using retired_defined [OF cf] by blast
  define n where "n = (if ok (unat m) then unat m else original_capacity ?g)"
  have n: "n \<le> LIMIT" using ok g by (simp add: n_def seg_ok_def Let_def)
  have upd: "segments ?s ! j = ?g\<lparr>buffer := None\<rparr>" using j by simp
  have "mpsc_inv P (?s, pcs, Retire_Install j n k)"
  proof (rule consumer_frame [OF inv, of _ _ j])
    show "seg_ok (segments ?s ! j) (claims pcs j) (view_of (Retire_Install j n k) j)" using seg_free(1) [OF g n] unfolding upd by simp
    show "count_ok (segments ?s ! j) (clamping P pcs j)" using mpsc_invD(6) [OF inv j] unfolding upd by (simp add: count_ok_def Let_def)
  qed (use j k mpsc_invD(2) [OF inv] in simp_all)
  moreover have "published ?s = published s"
    using published_same [OF j, of "buffer_update (\<lambda>_. None)"] seg_free(2) [OF g n] by (simp add: seg_content_def)
  ultimately show ?thesis using m by (simp add: pop_sound_def Let_def flip: n_def)
qed

lemma install_sound:
  assumes inv: "mpsc_inv P (s, pcs, Retire_Install j n k)"
  shows "pop_sound P (s, pcs, Retire_Install j n k) (pop_step cf ok s (Retire_Install j n k))"
proof -
  let ?f = "\<lambda>g :: 'a segment. g\<lparr>buffer := Some (replicate n raw_slot), original_capacity := n, seg_capacity := n, dequeue_state := 0\<rparr>"
  let ?g = "segments s ! j" and ?s = "segment_update j ?f s"
  have j: "j < length (segments s)" and k: "after_ok (length (segments s)) k" using mpsc_invD(4) [OF inv] by simp_all
  have g: "seg_ok ?g (claims pcs j) (Freed n)" using mpsc_invD(5) [OF inv j] by simp
  have "mpsc_inv P (?s, pcs, Retire_Open j n k)"
  proof (rule consumer_frame [OF inv, of _ _ j])
    show "seg_ok (segments ?s ! j) (claims pcs j) (view_of (Retire_Open j n k) j)" using seg_install [OF g] j by simp
    show "count_ok (segments ?s ! j) (clamping P pcs j)" using mpsc_invD(6) [OF inv j] j by (simp add: count_ok_def Let_def)
  qed (use j k mpsc_invD(2) [OF inv] in simp_all)
  moreover have "sum_list (map slot_content (replicate n (raw_slot :: 'a slot))) = {#}"
    by (induction n) (simp_all add: slot_content_def raw_slot_def)
  then have "published ?s = published s"
    using published_same [OF j, of ?f] g by (simp add: seg_content_def seg_ok_def Let_def)
  ultimately show ?thesis by (simp add: pop_sound_def)
qed

lemma open_sound:
  assumes inv: "mpsc_inv P (s, pcs, Retire_Open j n k)"
  shows "pop_sound P (s, pcs, Retire_Open j n k) (pop_step cf ok s (Retire_Open j n k))"
proof -
  let ?g = "segments s ! j" and ?s = "segment_update j (enqueue_pos_update (\<lambda>_. es_pack n 0)) s"
  have j: "j < length (segments s)" and k: "after_ok (length (segments s)) k" using mpsc_invD(4) [OF inv] by simp_all
  have g: "seg_ok ?g (claims pcs j) (Fresh n)" using mpsc_invD(5) [OF inv j] by simp
  have n: "n < 2 ^ 32" using g by (simp add: seg_ok_def Let_def LIMIT_def)
  have "mpsc_inv P (?s, pcs, resume k)"
  proof (rule consumer_frame [OF inv, of _ _ j])
    show "consumer_ok ?s (resume k)" using after_facts(1) [of ?s k] k j by simp
    show "seg_ok (segments ?s ! j) (claims pcs j) (view_of (resume k) j)" using seg_open [OF g] j after_facts(2) by simp
    show "count_ok (segments ?s ! j) (clamping P pcs j)" using n j by (simp add: count_ok_def Let_def)
  qed (use j k mpsc_invD(2) [OF inv] after_facts(2) in simp_all)
  then show ?thesis using j by (simp add: pop_sound_def)
qed

lemma finish_sound:
  assumes inv: "mpsc_inv P (s, pcs, Finish j a)"
  shows "pop_sound P (s, pcs, Finish j a) (pop_step cf ok s (Finish j a))"
proof -
  have j: "j < length (segments s)" using mpsc_invD(4) [OF inv] by simp
  have "mpsc_inv P (s', pcs, c')" if "c' = At_Rest \<or> c' = Shrink_Target" "segments s' = segments s"
      "producer_target s' = producer_target s" "consumer_target s' \<in> {consumer_target s, j}" for s' :: "'a mpsc" and c'
    by (rule consumer_frame [OF inv, of _ _ j]) (use that j mpsc_invD(2) [OF inv] mpsc_invD(5,6) [OF inv j] in auto)
  then show ?thesis by (auto simp: pop_sound_def Let_def published_def)
qed

lemma shrink_exchange_sound:
  assumes inv: "mpsc_inv P (s, pcs, Shrink_Exchange j w)"
  shows "pop_sound P (s, pcs, Shrink_Exchange j w) (pop_step cf ok s (Shrink_Exchange j w))"
proof -
  let ?g = "segments s ! j"
  have j: "j < length (segments s)" and w: "0 < es_pos w" "es_pos w < es_capacity w" using mpsc_invD(4) [OF inv] by simp_all
  have g: "seg_ok ?g (claims pcs j) Live" using mpsc_invD(5) [OF inv j] by simp
  show ?thesis
  proof (cases "enqueue_pos ?g = w")
    case False
    then show ?thesis using view_frame [OF inv, of At_Rest] by (simp add: pop_sound_def Let_def)
  next
    case True
    let ?p = "es_pos w" and ?s = "segment_update j (enqueue_pos_update (\<lambda>_. es_pack (es_pos w) (es_pos w))) s"
    have "mpsc_inv P (?s, pcs, Shrink_Cap j ?p)"
    proof (rule consumer_frame [OF inv, of _ _ j])
      show "seg_ok (segments ?s ! j) (claims pcs j) (view_of (Shrink_Cap j ?p) j)" using seg_shrink [OF g] True w j by simp
      show "count_ok (segments ?s ! j) (clamping P pcs j)" using es_pos_less [of w] j by (simp add: count_ok_def Let_def)
    qed (use j mpsc_invD(2) [OF inv] in simp_all)
    then show ?thesis using True j by (simp add: pop_sound_def Let_def)
  qed
qed

lemma shrink_cap_sound:
  assumes inv: "mpsc_inv P (s, pcs, Shrink_Cap j p)"
  shows "pop_sound P (s, pcs, Shrink_Cap j p) (pop_step cf ok s (Shrink_Cap j p))"
proof -
  let ?g = "segments s ! j" and ?s = "segment_update j (seg_capacity_update (\<lambda>_. p)) s"
  let ?c = "if dequeue_state (segments s ! j) \<ge> p then Retire j Then_Return else At_Rest"
  have j: "j < length (segments s)" using mpsc_invD(4) [OF inv] by simp
  have g: "seg_ok ?g (claims pcs j) (Capping p)" using mpsc_invD(5) [OF inv j] by simp
  have upd: "segments ?s ! j = ?g\<lparr>seg_capacity := p\<rparr>" using j by simp
  have "mpsc_inv P (?s, pcs, ?c)"
  proof (rule consumer_frame [OF inv, of _ _ j])
    show "seg_ok (segments ?s ! j) (claims pcs j) (view_of ?c j)" using seg_capped [OF g] unfolding upd by (simp split: if_splits)
    show "count_ok (segments ?s ! j) (clamping P pcs j)" using mpsc_invD(6) [OF inv j] unfolding upd by (simp add: count_ok_def Let_def)
  qed (use j mpsc_invD(2) [OF inv] in simp_all)
  moreover have "published ?s = published s" by (rule published_same [OF j]) (simp add: seg_content_def)
  ultimately show ?thesis using j by (simp add: pop_sound_def Let_def)
qed

lemma pop_step_sound:
  assumes inv: "mpsc_inv P (s, pcs, c)" and cf: "config_ok cf" and ok: "\<And>n. ok n \<Longrightarrow> n \<le> LIMIT" and now: "c \<noteq> At_Rest"
  shows "pop_sound P (s, pcs, c) (pop_step cf ok s c)"
proof (cases c)
  case Shrink_Target
  then show ?thesis using inv view_frame [of P s pcs Shrink_Target "Shrink_Load (producer_target s)"] mpsc_invD(1) [OF inv]
    by (simp add: pop_sound_def)
next
  case (Shrink_Load j)
  let ?w = "enqueue_pos (segments s ! j)"
  have j: "j < length (segments s)" using mpsc_invD(4) [OF inv] Shrink_Load by simp
  have "mpsc_inv P (s, pcs, At_Rest)" "0 < es_pos ?w \<Longrightarrow> es_pos ?w < es_capacity ?w \<Longrightarrow> mpsc_inv P (s, pcs, Shrink_Exchange j ?w)"
    using inv view_frame [of P s pcs "Shrink_Load j"] j unfolding Shrink_Load by simp_all
  then show ?thesis using Shrink_Load by (auto simp: pop_sound_def Let_def)
qed (use inv now try_pop_sound take_out_sound unready_sound retire_sound [OF _ cf ok] install_sound open_sound finish_sound
      shrink_exchange_sound shrink_cap_sound in \<open>simp_all del: pop_step.simps\<close>)

end
