(* ===== verification/Mpsc_Properties.thy ===== *)
theory Mpsc_Properties
  imports Mpsc_Consumer
begin

text \<open>
  The growable queue from its constructor on: nothing is lost or repeated in any interleaving, and
  between the calls of the producers a pop answers exactly.
\<close>

section \<open>Runs\<close>

abbreviation fresh_queue :: "nat \<Rightarrow> bool list \<Rightarrow> 'a mpsc_state" where
  "fresh_queue n allocated \<equiv> (mpsc_queue n allocated, \<lambda>_. Resting, At_Rest)"

lemma claims_resting [simp]: "claims (\<lambda>_. Resting) j = {}"
  by (simp add: claims_def)

lemma open_segment_ok:
  assumes "n \<le> LIMIT"
  shows "seg_ok (open_segment n a) {} Live" and "count_ok (open_segment n a) m" and "seg_content (open_segment n a :: 'a segment) = {#}"
proof -
  have "(if a then n else 0) < 2 ^ 32" using assms by (simp add: LIMIT_def)
  then show "seg_ok (open_segment n a) {} Live" "count_ok (open_segment n a) m"
    using assms slots_fresh [of "if a then n else 0"] by (auto simp: seg_ok_def count_ok_def open_segment_def Let_def)
  have "sum_list (map slot_content (replicate k (raw_slot :: 'a slot))) = {#}" for k
    by (induction k) (simp_all add: slot_content_def raw_slot_def)
  then show "seg_content (open_segment n a :: 'a segment) = {#}" by (simp add: open_segment_def seg_content_def Let_def)
qed

lemma fresh_ok:
  assumes "n \<le> LIMIT" "allocated \<noteq> []"
  shows "mpsc_inv P (fresh_queue n allocated)" and "published (mpsc_queue n allocated :: 'a mpsc) = {#}"
proof -
  show "mpsc_inv P (fresh_queue n allocated)"
    using assms(2) by (simp add: mpsc_inv_def mpsc_queue_def open_segment_ok(1,2) [OF assms(1)])
  have "sum_list (map seg_content (map (open_segment n) as)) = ({#} :: 'a multiset)" for as
    by (induction as) (simp_all add: open_segment_ok(3) [OF assms(1)])
  then show "published (mpsc_queue n allocated :: 'a mpsc) = {#}" by (simp add: published_def mpsc_queue_def)
qed

lemma mpsc_step_sound:
  assumes "mpsc_step P cf can (s, pcs, c) e (s', pcs', c')" and inv: "mpsc_inv P (s, pcs, c)"
    and "P < 2 ^ 30" "config_ok cf" "\<And>m. can m \<Longrightarrow> m \<le> LIMIT"
  shows "mpsc_inv P (s', pcs', c') \<and> length (segments s') = length (segments s) \<and> content_effect e (published s) (published s')"
  using assms(1)
proof (cases rule: mpsc_step.cases)
  case (call_push t v)
  then have "mpsc_inv P (s, pcs(t := Load_Target v), c)"
    by (intro producer_frame [OF inv, where j = "length (segments s)"]) (use mpsc_invD(1,4) [OF inv] in simp_all)
  then show ?thesis using call_push by simp
next
  case (push t fails p)
  then have "pcs t \<noteq> Resting" by auto
  then show ?thesis using push push_step_sound [OF inv _ assms(3), of t fails] by (auto simp: push_sound_def)
next
  case call_pop
  then show ?thesis using view_frame [OF inv, of "Try_Pop (consumer_target s) 0"] mpsc_invD(2) [OF inv] by simp
next
  case (pop ok)
  then have "c \<noteq> At_Rest" by auto
  moreover have "\<And>m. ok m \<Longrightarrow> m \<le> LIMIT" using pop assms(5) by blast
  ultimately show ?thesis using pop pop_step_sound [OF inv assms(4), of ok] by (auto simp: pop_sound_def)
qed

fun pushed :: "'a event list \<Rightarrow> 'a list" where
  "pushed [] = []"
| "pushed (Pushed t v # tr) = v # pushed tr"
| "pushed (e # tr) = pushed tr"

fun popped :: "'a event list \<Rightarrow> 'a list" where
  "popped [] = []"
| "popped (Popped v # tr) = v # popped tr"
| "popped (e # tr) = popped tr"

lemma pushed_append: "pushed (tr @ tr') = pushed tr @ pushed tr'"
  by (induction tr rule: pushed.induct) auto

lemma popped_append: "popped (tr @ tr') = popped tr @ popped tr'"
  by (induction tr rule: popped.induct) auto

lemma content_effect_trace:
  assumes "content_effect (Some e) M M'" "mset (pushed tr) = mset (popped tr) + M"
  shows "mset (pushed (tr @ [e])) = mset (popped (tr @ [e])) + M'"
  using assms by (cases e) (auto simp: pushed_append popped_append)

lemma mpsc_run_sound:
  assumes "mpsc_run P cf can k tr k'" "mpsc_inv P k" "published (fst k) = {#}"
    and "P < 2 ^ 30" "config_ok cf" "\<And>m. can m \<Longrightarrow> m \<le> LIMIT"
  shows "mpsc_inv P k' \<and> length (segments (fst k')) = length (segments (fst k)) \<and> mset (pushed tr) = mset (popped tr) + published (fst k')"
  using assms(1-3)
proof (induction k tr k' rule: mpsc_run.induct)
  case (start k)
  then show ?case by simp
next
  case (silent k tr k1 k2)
  obtain s p c s' p' c' where k: "k1 = (s, p, c)" "k2 = (s', p', c')" by (metis prod_cases3)
  show ?case using mpsc_step_sound [OF silent(2) [unfolded k] _ assms(4-6)] silent(3-5) by (simp add: k)
next
  case (visible k tr k1 e k2)
  obtain s p c s' p' c' where k: "k1 = (s, p, c)" "k2 = (s', p', c')" by (metis prod_cases3)
  show ?case using mpsc_step_sound [OF visible(2) [unfolded k] _ assms(4-6)] visible(3-5) content_effect_trace [of e "published s" "published s'" tr]
    by (simp add: k)
qed

section \<open>A pop on its own\<close>

fun pop_phase :: "nat \<Rightarrow> consumer \<Rightarrow> nat" where
  "pop_phase N At_Rest = 0"
| "pop_phase N (Try_Pop j a) = 20 + (N - a)"
| "pop_phase N (Take_Out j a) = 19"
| "pop_phase N (Unready j a) = 18"
| "pop_phase N (Retire j k) = (if k = Then_Return then 3 else 17)"
| "pop_phase N (Retire_Install j n k) = (if k = Then_Return then 2 else 16)"
| "pop_phase N (Retire_Open j n k) = (if k = Then_Return then 1 else 15)"
| "pop_phase N (Finish j a) = 10"
| "pop_phase N Shrink_Target = 9"
| "pop_phase N (Shrink_Load j) = 8"
| "pop_phase N (Shrink_Exchange j w) = 7"
| "pop_phase N (Shrink_Cap j p) = 6"

text \<open>The consumer's calls are wait-free: each of its steps comes closer to the end.\<close>

lemma pop_step_phase:
  "pop_step cf ok s c = Some (s', c', e) \<Longrightarrow>
     length (segments s') = length (segments s) \<and> pop_phase (length (segments s)) c' < pop_phase (length (segments s)) c"
  by (cases c) (auto simp: Let_def pop_failed_def resume_def split: option.splits after.splits if_splits)

function run_pop :: "mpsc_config \<Rightarrow> (nat \<Rightarrow> bool) \<Rightarrow> 'a mpsc \<Rightarrow> consumer \<Rightarrow> 'a option \<Rightarrow> ('a mpsc \<times> 'a option) option" where
  "run_pop cf ok s c r =
     (if c = At_Rest then Some (s, r)
      else case pop_step cf ok s c of
             None \<Rightarrow> None
           | Some (s', c', e) \<Rightarrow> run_pop cf ok s' c' (case e of Some (Popped v) \<Rightarrow> Some v | _ \<Rightarrow> r))"
  by auto
termination
  by (relation "measure (\<lambda>(cf, ok, s, c, r). pop_phase (length (segments s)) c)") (auto dest!: pop_step_phase)

declare run_pop.simps [simp del]

definition pop_front :: "mpsc_config \<Rightarrow> (nat \<Rightarrow> bool) \<Rightarrow> 'a mpsc \<Rightarrow> ('a mpsc \<times> 'a option) option" where
  "pop_front cf ok s = run_pop cf ok s (Try_Pop (consumer_target s) 0) None"

text \<open>
  The destructor.  A slot that is ready is destroyed, and destroying raw storage is an error (None), as is a slot
  outside the buffer.  The elements destroyed are recorded, and a segment ends with the memory it gives back
  and the number of slots it tells the allocator.
\<close>

function destroy_slots :: "nat \<Rightarrow> nat \<Rightarrow> 'a slot list \<Rightarrow> 'a list \<Rightarrow> ('a list \<times> 'a slot list) option" where
  "destroy_slots n i b es =
     (if i < n
      then if i < length b
           then if ready (b ! i)
                then (case element (b ! i) of None \<Rightarrow> None
                   | Some v \<Rightarrow> destroy_slots n (i + 1) (b[i := (b ! i)\<lparr>element := None\<rparr>]) (es @ [v]))
                else destroy_slots n (i + 1) b es
           else None
      else Some (es, b))"
  by auto
termination by (relation "measure (\<lambda>(n, i, b, es). n - i)") auto

declare destroy_slots.simps [simp del]

definition destroy_segment :: "'a segment \<Rightarrow> ('a list \<times> 'a slot list \<times> nat) option" where
  "destroy_segment g = (case buffer g of None \<Rightarrow> None
     | Some b \<Rightarrow> map_option (\<lambda>(es, b'). (es, b', original_capacity g)) (destroy_slots (original_capacity g) 0 b []))"

definition destroy_queue :: "'a mpsc \<Rightarrow> ('a list \<times> 'a slot list \<times> nat) list option" where
  "destroy_queue s = those (map destroy_segment (segments s))"

section \<open>At rest\<close>

lemma unclaimed_content:
  assumes g: "seg_ok g {} Live" and none: "\<not> has_ready g"
  shows "seg_content g = {#}" and "seg_capacity g \<noteq> 0 \<Longrightarrow> pos_of g < cap_of g"
proof -
  let ?d = "dequeue_state g" and ?m = "min (pos_of g) (cap_of g)"
  obtain b where b: "buffer g = Some b" "cap_of g \<le> length b" "slots_ok b ?d ?m {} False"
    using g by (auto simp: seg_ok_def Let_def)
  have cap: "seg_capacity g = cap_of g" "?d < cap_of g \<or> cap_of g = 0" using g by (auto simp: seg_ok_def Let_def)
  have "?d = ?m"
  proof (rule ccontr)
    assume "?d \<noteq> ?m"
    moreover have "?d \<le> ?m" using slots_bounds [OF b(3)] by blast
    ultimately have "?d < ?m" by (rule le_neq_implies_less [rotated])
    then have "ready (b ! ?d)" using slots_published [OF b(3), of ?d] by simp
    then show False using none \<open>?d < ?m\<close> b(1) cap(1) by (simp add: has_ready_def)
  qed
  then show "seg_content g = {#}" using drained_raw(2) [of b ?d "{}"] b by (simp add: seg_content_def)
  show "seg_capacity g \<noteq> 0 \<Longrightarrow> pos_of g < cap_of g" using \<open>?d = ?m\<close> cap by (simp add: min_def split: if_splits)
qed

lemma published_empty:
  "(\<And>j. j < length (segments s) \<Longrightarrow> seg_content (segments s ! j) = {#}) \<Longrightarrow> published s = {#}"
proof -
  assume e: "\<And>j. j < length (segments s) \<Longrightarrow> seg_content (segments s ! j) = {#}"
  have "sum_list (map seg_content gs) = {#}" if "\<And>j. j < length gs \<Longrightarrow> seg_content (gs ! j) = {#}" for gs :: "'a segment list"
    using that
  proof (induction gs)
    case (Cons g gs)
    have "seg_content g = {#}" using Cons(2) [of 0] by simp
    moreover have "sum_list (map seg_content gs) = {#}" using Cons(1) Cons(2) [of "Suc _"] by simp
    ultimately show ?case by simp
  qed simp
  then show ?thesis using e by (simp add: published_def)
qed

lemma published_not_empty:
  assumes "j < length (segments s)" "seg_content (segments s ! j) \<noteq> {#}"
  shows "published s \<noteq> {#}"
proof -
  have "sum_list (map seg_content gs) \<noteq> {#}" if "j < length gs" "seg_content (gs ! j) \<noteq> {#}" for gs :: "'a segment list"
    using that
  proof (induction gs arbitrary: j)
    case (Cons g gs)
    then show ?case by (cases j) auto
  qed simp
  then show ?thesis using assms by (simp add: published_def)
qed

lemma ready_content:
  assumes g: "seg_ok g C Live" and r: "has_ready g"
  shows "seg_content g \<noteq> {#}"
proof -
  let ?d = "dequeue_state g"
  have d: "?d < seg_capacity g" using r by (simp add: has_ready_def)
  obtain b where b: "buffer g = Some b" "?d < length b" "ready (b ! ?d) \<Longrightarrow> element (b ! ?d) \<noteq> None" using seg_front [OF g d] by metis
  then have "slot_content (b ! ?d) \<noteq> {#}" using r by (auto simp: has_ready_def slot_content_def)
  moreover have "slot_content x \<noteq> {#} \<Longrightarrow> x \<in> set xs \<Longrightarrow> sum_list (map slot_content xs) \<noteq> {#}" for x :: "'a slot" and xs
    by (induction xs) auto
  ultimately show ?thesis using b by (auto simp: seg_content_def)
qed

definition opt_mset :: "'a option \<Rightarrow> 'a multiset" where
  "opt_mset r = (case r of None \<Rightarrow> {#} | Some v \<Rightarrow> {#v#})"

fun pop_pre :: "'a mpsc \<Rightarrow> consumer \<Rightarrow> 'a option \<Rightarrow> bool" where
  "pop_pre s (Try_Pop j a) r \<longleftrightarrow> r = None \<and> a < length (segments s) \<and> j = (consumer_target s + a) mod length (segments s) \<and>
     (\<forall>k < a. seg_content (segments s ! ((consumer_target s + k) mod length (segments s))) = {#})"
| "pop_pre s (Take_Out j a) r \<longleftrightarrow> r = None"
| "pop_pre s At_Rest r \<longleftrightarrow> r \<noteq> None \<or> published s = {#}"
| "pop_pre s c r \<longleftrightarrow> r \<noteq> None"

lemma try_pop_ready:
  assumes "buffer (segments s ! j) \<noteq> None"
  shows "pop_step cf ok s (Try_Pop j a) = Some (s', c', e) \<Longrightarrow>
     if has_ready (segments s ! j) then s' = s \<and> c' = Take_Out j a \<and> e = None else (s', c', e) = (s, pop_failed s j a)"
  using assms by (auto simp: has_ready_def slot_at_def Let_def split: option.splits if_splits)

lemma all_visited:
  assumes "\<And>k. k < (n :: nat) \<Longrightarrow> Q ((c + k) mod n)" "j < n"
  shows "Q j"
proof -
  have "(c + (j + n - c mod n) mod n) mod n = j"
  proof -
    have c: "c mod n < n" using assms(2) by simp
    have "(c + (j + n - c mod n) mod n) mod n = (c mod n + (j + n - c mod n)) mod n" by (metis mod_add_eq mod_add_left_eq mod_add_right_eq)
    also have "c mod n + (j + n - c mod n) = j + n" using c by simp
    finally show ?thesis using assms(2) by simp
  qed
  then show ?thesis using assms(1) [of "(j + n - c mod n) mod n"] assms(2) by simp
qed

lemma pop_pre_step:
  assumes inv: "mpsc_inv P (s, \<lambda>_. Resting, c)" and pre: "pop_pre s c r" and st: "pop_step cf ok s c = Some (s', c', e)"
    and content: "content_effect e (published s) (published s')"
  shows "pop_pre s' c' (case e of Some (Popped v) \<Rightarrow> Some v | _ \<Rightarrow> r)"
proof (cases c)
  case (Try_Pop j a)
  let ?N = "length (segments s)"
  have j: "j < ?N" using mpsc_invD(4) [OF inv] Try_Pop by simp
  have g: "seg_ok (segments s ! j) {} Live" using mpsc_invD(5) [OF inv j] Try_Pop by simp
  then have buf: "buffer (segments s ! j) \<noteq> None" by (auto simp: seg_ok_def Let_def)
  note res = try_pop_ready [OF buf st [unfolded Try_Pop]]
  show ?thesis
  proof (cases "has_ready (segments s ! j)")
    case True
    then show ?thesis using res pre Try_Pop by simp
  next
    case False
    then have now: "seg_content (segments s ! ((consumer_target s + a) mod ?N)) = {#}"
      using unclaimed_content(1) [OF g] pre Try_Pop by simp
    have r: "(s', c', e) = (s, pop_failed s j a)" using res False by simp
    show ?thesis
    proof (cases "a + 1 < ?N")
      case True
      then have "next_segment s j = (consumer_target s + Suc a) mod ?N" using pre Try_Pop by (simp add: next_segment_def mod_Suc_eq)
      then show ?thesis using True r pre Try_Pop now by (auto simp: pop_failed_def less_Suc_eq)
    next
      case False
      have "seg_content (segments s ! i) = {#}" if "i < ?N" for i
      proof (rule all_visited [of ?N _ "consumer_target s"])
        fix k assume "k < ?N"
        then have "k < a \<or> k = a" using False by auto
        then show "seg_content (segments s ! ((consumer_target s + k) mod ?N)) = {#}" using pre Try_Pop now by auto
      qed (rule that)
      then have "published s = {#}" by (rule published_empty)
      then show ?thesis using False r by (simp add: pop_failed_def)
    qed
  qed
qed (use pre st in \<open>auto simp: Let_def resume_def split: option.splits after.splits if_splits\<close>)

lemma run_pop_sound:
  assumes "mpsc_inv P (s, \<lambda>_. Resting, c)" "pop_pre s c r" "config_ok cf" "\<And>m. ok m \<Longrightarrow> m \<le> LIMIT"
  shows "\<exists>s' r'. run_pop cf ok s c r = Some (s', r') \<and> mpsc_inv P (s', \<lambda>_. Resting, At_Rest) \<and>
    published s + opt_mset r = published s' + opt_mset r' \<and> (r \<noteq> None \<longrightarrow> r' = r) \<and> (r' = None \<longrightarrow> published s = {#})"
  using assms
proof (induction cf ok s c r rule: run_pop.induct)
  case (1 cf ok s c r)
  show ?case
  proof (cases "c = At_Rest")
    case True
    then show ?thesis using 1(2,3) by (auto simp: run_pop.simps)
  next
    case False
    obtain s' c' e where st: "pop_step cf ok s c = Some (s', c', e)" and inv': "mpsc_inv P (s', \<lambda>_. Resting, c')"
      and content: "content_effect e (published s) (published s')"
      using pop_step_sound [OF 1(2,4) _ False, of ok] 1(5) by (auto simp: pop_sound_def)
    let ?r = "case e of Some (Popped v) \<Rightarrow> Some v | _ \<Rightarrow> r"
    note pre' = pop_pre_step [OF 1(2,3) st content]
    have run: "run_pop cf ok s c r = run_pop cf ok s' c' ?r" using False st by (subst run_pop.simps) simp
    have eff: "published s + opt_mset r = published s' + opt_mset ?r \<and> (r \<noteq> None \<longrightarrow> ?r = r) \<and> (?r = None \<longrightarrow> published s = published s')"
    proof (cases "\<exists>v. e = Some (Popped v)")
      case True
      then obtain v where v: "e = Some (Popped v)" by blast
      then have "r = None" using st 1(3) by (cases c) (auto simp: Let_def pop_failed_def split: option.splits if_splits)
      then show ?thesis using v content by (simp add: opt_mset_def)
    next
      case no: False
      have no': "e \<noteq> Some (Pushed t v)" for t v using st by (cases c) (auto simp: Let_def pop_failed_def split: option.splits if_splits)
      have "published s' = published s \<and> ?r = r"
      proof (cases e)
        case (Some x)
        then show ?thesis using no no' content by (cases x) simp_all
      qed (use content in simp)
      then show ?thesis by simp
    qed
    show ?thesis using 1(1) [OF False st refl refl inv' pre' 1(4,5)] eff unfolding run by auto
  qed
qed


lemma destroy_slots_all:
  assumes "\<And>x. x \<in> set (drop i b) \<Longrightarrow> ready x \<Longrightarrow> element x \<noteq> None" and "i \<le> length b"
  shows "destroy_slots (length b) i b es = Some (es @ concat (map (\<lambda>x. if ready x then [the (element x)] else []) (drop i b)),
    take i b @ map (\<lambda>x. if ready x then x\<lparr>element := None\<rparr> else x) (drop i b))"
  using assms
proof (induction "length b - i" arbitrary: i b es)
  case 0
  then show ?case by (simp add: destroy_slots.simps)
next
  case (Suc k)
  have i: "i < length b" using Suc.hyps(2) by simp
  have split: "drop i b = b ! i # drop (Suc i) b" using i by (simp add: Cons_nth_drop_Suc)
  have front: "ready (b ! i) \<Longrightarrow> element (b ! i) \<noteq> None" using Suc.prems(1) split by simp
  have rest: "\<And>x. x \<in> set (drop (Suc i) b) \<Longrightarrow> ready x \<Longrightarrow> element x \<noteq> None" using Suc.prems(1) split by simp
  show ?case
  proof (cases "ready (b ! i)")
    case True
    let ?c = "(b ! i)\<lparr>element := None\<rparr>"
    have "destroy_slots (length b) i b es = destroy_slots (length (b[i := ?c])) (Suc i) (b[i := ?c]) (es @ [the (element (b ! i))])"
      using i True front by (subst destroy_slots.simps) auto
    also have "\<dots> = Some ((es @ [the (element (b ! i))]) @ concat (map (\<lambda>x. if ready x then [the (element x)] else []) (drop (Suc i) (b[i := ?c]))),
        take (Suc i) (b[i := ?c]) @ map (\<lambda>x. if ready x then x\<lparr>element := None\<rparr> else x) (drop (Suc i) (b[i := ?c])))"
      using Suc.hyps(2) rest i by (intro Suc.hyps(1)) simp_all
    finally show ?thesis using i True split by (simp add: take_Suc_conv_app_nth)
  next
    case False
    have "destroy_slots (length b) i b es = destroy_slots (length b) (Suc i) b es"
      using i False by (subst destroy_slots.simps) simp
    also have "\<dots> = Some (es @ concat (map (\<lambda>x. if ready x then [the (element x)] else []) (drop (Suc i) b)),
        take (Suc i) b @ map (\<lambda>x. if ready x then x\<lparr>element := None\<rparr> else x) (drop (Suc i) b))"
      using Suc.hyps(2) rest i by (intro Suc.hyps(1)) simp_all
    finally show ?thesis using i False split by (simp add: take_Suc_conv_app_nth)
  qed
qed

definition destroyed_whole :: "'a list \<times> 'a slot list \<times> nat \<Rightarrow> bool" where
  "destroyed_whole r \<longleftrightarrow> (case r of (es, b, n) \<Rightarrow> n = length b \<and> list_all (\<lambda>x. element x = None) b)"

lemma segment_destroyed:
  assumes "seg_ok g {} Live"
  shows "\<exists>r. destroy_segment g = Some r \<and> destroyed_whole r \<and> mset (fst r) = seg_content g"
proof -
  obtain b where b: "buffer g = Some b" "length b = original_capacity g"
      "slots_ok b (dequeue_state g) (min (pos_of g) (cap_of g)) {} False"
    using assms by (auto simp: seg_ok_def Let_def)
  have slot: "if ready x then element x \<noteq> None else element x = None" if x: "x \<in> set b" for x
  proof -
    obtain i where i: "i < length b" "x = b ! i" using x by (auto simp: in_set_conv_nth)
    show ?thesis
    proof (cases "dequeue_state g \<le> i \<and> i < min (pos_of g) (cap_of g)")
      case True
      then show ?thesis using slots_published [OF b(3), of i] i(2) by simp
    next
      case False
      then have "i < dequeue_state g \<or> min (pos_of g) (cap_of g) \<le> i" by linarith
      then show ?thesis using slots_raw [OF b(3) i(1)] i(2) by (simp add: raw_slot_def)
    qed
  qed
  let ?es = "concat (map (\<lambda>x. if ready x then [the (element x)] else []) b)"
  let ?b = "map (\<lambda>x. if ready x then x\<lparr>element := None\<rparr> else x) b"
  have "destroy_slots (length b) 0 b [] = Some ([] @ concat (map (\<lambda>x. if ready x then [the (element x)] else []) (drop 0 b)),
      take 0 b @ map (\<lambda>x. if ready x then x\<lparr>element := None\<rparr> else x) (drop 0 b))"
    by (rule destroy_slots_all) (use slot in \<open>auto split: if_splits\<close>)
  then have "destroy_segment g = Some (?es, ?b, length b)" using b(1,2) by (simp add: destroy_segment_def)
  moreover have "mset (concat (map (\<lambda>x. if ready x then [the (element x)] else []) xs)) = sum_list (map slot_content xs)"
    if "\<forall>x\<in>set xs. ready x \<longrightarrow> element x \<noteq> None" for xs :: "'a slot list"
    using that by (induction xs) (auto simp: slot_content_def)
  then have "mset ?es = sum_list (map slot_content b)" using slot by meson
  moreover have "list_all (\<lambda>x. element x = None) ?b" using slot by (auto simp: list_all_iff split: if_splits)
  ultimately show ?thesis using b(1) by (simp add: destroyed_whole_def seg_content_def)
qed

lemma queue_destroyed:
  assumes "\<And>g. g \<in> set gs \<Longrightarrow> seg_ok g {} Live"
  shows "\<exists>rs. those (map destroy_segment gs) = Some rs \<and> length rs = length gs \<and> list_all destroyed_whole rs \<and>
    mset (concat (map fst rs)) = sum_list (map seg_content gs)"
  using assms
proof (induction gs)
  case (Cons g gs)
  obtain r where "destroy_segment g = Some r" "destroyed_whole r" "mset (fst r) = seg_content g"
    using segment_destroyed Cons.prems by (metis list.set_intros(1))
  moreover obtain rs where "those (map destroy_segment gs) = Some rs" "length rs = length gs" "list_all destroyed_whole rs"
      "mset (concat (map fst rs)) = sum_list (map seg_content gs)" using Cons by auto
  ultimately show ?case by simp
qed simp

section \<open>Properties\<close>

text \<open>C6: Nothing is lost or repeated.  In every interleaving of any number of producers below 2 to the 30
  with the consumer, whatever allocations fail, through growing, shrinking and refusals: the elements pushed so
  far are those popped so far and those in the queue; and no step builds an object in a slot
  that is not raw, touches a buffer that has been given back, or reads a raw slot.\<close>

theorem mpsc_no_loss:
  assumes "mpsc_run P cf can (fresh_queue n allocated) tr (s, pcs, c)"
    and "2 \<le> length allocated" and "n \<le> 2 ^ 31" and "P < 2 ^ 30"
    and "config_ok cf" and "\<And>m. can m \<Longrightarrow> m \<le> 2 ^ 31"
  shows "mset (pushed tr) = mset (popped tr) + published s \<and>
    (\<forall>t fails. t < P \<and> pcs t \<noteq> Resting \<longrightarrow> push_step fails t s (pcs t) \<noteq> None) \<and>
    (\<forall>ok. c \<noteq> At_Rest \<and> (\<forall>m. ok m \<longrightarrow> can m) \<longrightarrow> pop_step cf ok s c \<noteq> None)"
proof -
  have can: "can m \<Longrightarrow> m \<le> LIMIT" for m using assms(6) by (simp add: LIMIT_def)
  have n: "n \<le> LIMIT" "allocated \<noteq> []" using assms(2,3) by (auto simp: LIMIT_def)
  have run: "mpsc_inv P (s, pcs, c)" "mset (pushed tr) = mset (popped tr) + published s"
    using mpsc_run_sound [OF assms(1) fresh_ok(1) [OF n] _ assms(4,5) can] by (simp_all add: fresh_ok(2) [OF n])
  have "push_step fails t s (pcs t) \<noteq> None" if "t < P" "pcs t \<noteq> Resting" for t fails
    using push_step_sound [OF run(1) that(1) assms(4) that(2), of fails] by (auto simp: push_sound_def)
  moreover have "pop_step cf ok s c \<noteq> None" if "c \<noteq> At_Rest" "\<forall>m. ok m \<longrightarrow> can m" for ok
    using pop_step_sound [OF run(1) assms(5) _ that(1), of ok] can that(2) by (auto simp: pop_sound_def)
  ultimately show ?thesis using run(2) by blast
qed

definition sample_config :: mpsc_config where
  "sample_config = \<lparr>growth_numerator = 5, growth_denominator = 4, idle_rotation_interval = 0, max_capacity = - 1\<rparr>"

text \<open>Producer 0 has claimed the first slot and has not yet built its element.\<close>

definition sample_claimed :: "nat mpsc" where
  "sample_claimed = segment_update 0 (enqueue_pos_update (\<lambda>w. w + 1)) (mpsc_queue 2 [True, True])"

lemma sample_run:
  "mpsc_run 4 sample_config (\<lambda>m. m \<le> 8) (fresh_queue 2 [True, True]) []
     (sample_claimed, (\<lambda>_. Resting)(0 := Construct 7 0 0), At_Rest)"
proof -
  let ?s = "mpsc_queue 2 [True, True] :: nat mpsc" and ?p = "\<lambda>_. Resting :: nat producer"
  have "mpsc_run 4 sample_config (\<lambda>m. m \<le> 8) (fresh_queue 2 [True, True]) [] (?s, ?p(0 := Load_Target 7), At_Rest)"
    by (rule mpsc_run.silent [OF mpsc_run.start]) (rule mpsc_step.call_push, simp_all)
  then have "mpsc_run 4 sample_config (\<lambda>m. m \<le> 8) (fresh_queue 2 [True, True]) [] (?s, (?p(0 := Load_Target 7))(0 := Claim 7 0 0), At_Rest)"
    by (rule mpsc_run.silent) (rule mpsc_step.push [of _ _ False], simp_all add: mpsc_queue_def)
  then have "mpsc_run 4 sample_config (\<lambda>m. m \<le> 8) (fresh_queue 2 [True, True]) []
      (sample_claimed, ((?p(0 := Load_Target 7))(0 := Claim 7 0 0))(0 := Construct 7 0 0), At_Rest)"
    by (rule mpsc_run.silent) (rule mpsc_step.push [of _ _ False], simp_all add: sample_claimed_def mpsc_queue_def open_segment_def Let_def)
  then show ?thesis by simp
qed

theorem mpsc_no_loss_witness:
  "push_step False 0 sample_claimed (Construct 7 0 0) \<noteq> None \<and> published sample_claimed = {#}"
proof -
  have cf: "config_ok sample_config" by (simp add: config_ok_def sample_config_def)
  let ?p = "(\<lambda>_. Resting)(0 := Construct (7 :: nat) 0 0)"
  have r: "mset (pushed ([] :: nat event list)) = mset (popped ([] :: nat event list)) + published sample_claimed \<and>
      (\<forall>t fails. t < 4 \<and> ?p t \<noteq> Resting \<longrightarrow> push_step fails t sample_claimed (?p t) \<noteq> None) \<and>
      (\<forall>ok. At_Rest \<noteq> At_Rest \<and> (\<forall>m. ok m \<longrightarrow> m \<le> 8) \<longrightarrow> pop_step sample_config ok sample_claimed At_Rest \<noteq> None)"
    by (rule mpsc_no_loss [OF sample_run _ _ _ cf]) simp_all
  then have "\<forall>t fails. t < 4 \<and> ?p t \<noteq> Resting \<longrightarrow> push_step fails t sample_claimed (?p t) \<noteq> None" by (elim conjE)
  from this [rule_format, of 0 False] have "push_step False 0 sample_claimed (Construct 7 0 0) \<noteq> None" by (simp del: push_step.simps)
  then show ?thesis using conjunct1 [OF r] by simp
qed

text \<open>C40: A pop between the calls of the producers answers exactly.  When every producer rests, a call of
  \<^verbatim>\<open>pop_front\<close> ends and returns an element of the queue, unless the queue is empty; \<^verbatim>\<open>empty\<close> says
  whether it is; a queue that is empty has room again in each segment that has slots at all; and the destructor
  destroys exactly the elements of the queue, each once, and gives each segment back whole, at its full size and
  with no element left in any slot.\<close>

theorem mpsc_pop_at_rest:
  assumes "mpsc_run P cf can (fresh_queue n allocated) tr (s, \<lambda>_. Resting, At_Rest)"
    and "2 \<le> length allocated" and "n \<le> 2 ^ 31" and "P < 2 ^ 30"
    and "config_ok cf" and "\<And>m. can m \<Longrightarrow> m \<le> 2 ^ 31" and "\<And>m. ok m \<Longrightarrow> can m"
  shows "(\<exists>s' r. pop_front cf ok s = Some (s', r) \<and> published s = published s' + opt_mset r \<and> (r = None \<longleftrightarrow> published s = {#})) \<and>
    (queue_empty s \<longleftrightarrow> published s = {#}) \<and>
    (published s = {#} \<longrightarrow> list_all (\<lambda>g. seg_capacity g \<noteq> 0 \<longrightarrow> es_pos (enqueue_pos g) < es_capacity (enqueue_pos g)) (segments s)) \<and>
    (\<exists>rs. destroy_queue s = Some rs \<and> length rs = length (segments s) \<and> mset (concat (map fst rs)) = published s \<and>
      list_all (\<lambda>(es, b, n). n = length b \<and> list_all (\<lambda>x. element x = None) b) rs)"
proof -
  have can: "can m \<Longrightarrow> m \<le> LIMIT" for m using assms(6) by (simp add: LIMIT_def)
  have n: "n \<le> LIMIT" "allocated \<noteq> []" using assms(2,3) by (auto simp: LIMIT_def)
  have inv: "mpsc_inv P (s, \<lambda>_. Resting, At_Rest)" and len: "length (segments s) = length (segments (mpsc_queue n allocated :: 'a mpsc))"
    using mpsc_run_sound [OF assms(1) fresh_ok(1) [OF n] _ assms(4,5) can] by (simp_all add: fresh_ok(2) [OF n])
  then have len: "0 < length (segments s)" using n(2) by (simp add: mpsc_queue_def)
  have seg: "seg_ok g {} Live" if "g \<in> set (segments s)" for g
    using that mpsc_invD(5) [OF inv] by (auto simp: in_set_conv_nth)
  have "mpsc_inv P (s, \<lambda>_. Resting, Try_Pop (consumer_target s) 0)"
    using view_frame [OF inv, of "Try_Pop (consumer_target s) 0"] mpsc_invD(2) [OF inv] by simp
  moreover have "pop_pre s (Try_Pop (consumer_target s) 0) None" using len mpsc_invD(2) [OF inv] by simp
  ultimately have "\<exists>s' r. run_pop cf ok s (Try_Pop (consumer_target s) 0) None = Some (s', r) \<and> mpsc_inv P (s', \<lambda>_. Resting, At_Rest) \<and>
      published s + opt_mset None = published s' + opt_mset r \<and> ((None :: 'a option) \<noteq> None \<longrightarrow> r = None) \<and> (r = None \<longrightarrow> published s = {#})"
    using assms(7) can by (intro run_pop_sound [OF _ _ assms(5)]) blast+
  then obtain s' r where "pop_front cf ok s = Some (s', r)" "published s = published s' + opt_mset r" "r = None \<longrightarrow> published s = {#}"
    by (auto simp: pop_front_def opt_mset_def)
  then have pop: "\<exists>s' r. pop_front cf ok s = Some (s', r) \<and> published s = published s' + opt_mset r \<and> (r = None \<longleftrightarrow> published s = {#})"
    by (cases r) (auto simp: opt_mset_def)
  have empty: "queue_empty s \<longleftrightarrow> published s = {#}"
  proof
    assume "queue_empty s"
    then have "\<not> has_ready (segments s ! j)" if "j < length (segments s)" for j using that by (simp add: queue_empty_def list_ex_iff)
    then show "published s = {#}" by (intro published_empty unclaimed_content(1) seg) simp_all
  next
    assume p: "published s = {#}"
    have "\<not> has_ready g" if g: "g \<in> set (segments s)" for g
    proof
      assume "has_ready g"
      moreover obtain j where "j < length (segments s)" "g = segments s ! j" using g by (metis in_set_conv_nth)
      ultimately show False using published_not_empty [of j s] ready_content [OF seg [OF g]] p by simp
    qed
    then show "queue_empty s" by (simp add: queue_empty_def list_ex_iff)
  qed
  moreover have "list_all (\<lambda>g. seg_capacity g \<noteq> 0 \<longrightarrow> es_pos (enqueue_pos g) < es_capacity (enqueue_pos g)) (segments s)" if "published s = {#}"
    using that empty by (simp add: list_all_iff queue_empty_def list_ex_iff unclaimed_content(2) [OF seg])
  moreover have "\<exists>rs. destroy_queue s = Some rs \<and> length rs = length (segments s) \<and> mset (concat (map fst rs)) = published s \<and>
      list_all (\<lambda>(es, b, n). n = length b \<and> list_all (\<lambda>x. element x = None) b) rs"
    using queue_destroyed [of "segments s"] seg by (auto simp: destroy_queue_def published_def list_all_iff destroyed_whole_def)
  ultimately show ?thesis using pop by blast
qed

theorem mpsc_pop_at_rest_witness:
  "\<exists>s' r. pop_front sample_config (\<lambda>m. False) (mpsc_queue 2 [True, True] :: nat mpsc) = Some (s', r) \<and>
    published (mpsc_queue 2 [True, True] :: nat mpsc) = published s' + opt_mset r \<and> r = None"
proof -
  have "config_ok sample_config" by (simp add: config_ok_def sample_config_def)
  from mpsc_pop_at_rest [OF mpsc_run.start, where n = 2 and allocated = "[True, True]" and P = 4 and cf = sample_config
      and can = "\<lambda>m. m \<le> 8" and ok = "\<lambda>m. False", OF _ _ _ this]
  show ?thesis using fresh_ok(2) [of 2 "[True, True]"] by (auto simp: LIMIT_def)
qed

end
