(* ===== verification/Ordering.thy ===== *)
theory Ordering
  imports Prelude
begin

text \<open>
  The comparison categories (\<^verbatim>\<open>include/__compare/ordering.h\<close>), the functions that choose a comparison
  (\<^verbatim>\<open>strong_order.h\<close>, \<^verbatim>\<open>weak_order.h\<close>, \<^verbatim>\<open>partial_order.h\<close> and their fallbacks) and the orders of the floating
  point types.  A floating point number is its bit pattern in an IEC 559 format of any width, with \<open>p\<close>
  fraction bits: 23 of 32 for \<^verbatim>\<open>float\<close>, 52 of 64 for \<^verbatim>\<open>double\<close>.
\<close>

section \<open>Categories\<close>

datatype OrdResult = Ord_Less | Ord_Equiv | Ord_Greater

fun ord_value :: "OrdResult \<Rightarrow> int" where
  "ord_value Ord_Less = - 1"
| "ord_value Ord_Equiv = 0"
| "ord_value Ord_Greater = 1"

datatype PartialOrdResult = Partial_Less | Partial_Equiv | Partial_Greater | Partial_Unordered

fun partial_ord_value :: "PartialOrdResult \<Rightarrow> int" where
  "partial_ord_value Partial_Less = ord_value Ord_Less"
| "partial_ord_value Partial_Equiv = ord_value Ord_Equiv"
| "partial_ord_value Partial_Greater = ord_value Ord_Greater"
| "partial_ord_value Partial_Unordered = - 127"

text \<open>The results are ordered as their underlying values.\<close>

instantiation OrdResult :: linorder
begin

definition less_eq_OrdResult :: "OrdResult \<Rightarrow> OrdResult \<Rightarrow> bool" where
  "less_eq_OrdResult x y \<longleftrightarrow> ord_value x \<le> ord_value y"

definition less_OrdResult :: "OrdResult \<Rightarrow> OrdResult \<Rightarrow> bool" where
  "less_OrdResult x y \<longleftrightarrow> ord_value x < ord_value y"

instance
proof
  fix x y z :: OrdResult
  show "x < y \<longleftrightarrow> x \<le> y \<and> \<not> y \<le> x" "x \<le> x" "x \<le> y \<Longrightarrow> y \<le> z \<Longrightarrow> x \<le> z" "x \<le> y \<or> y \<le> x"
    by (auto simp: less_eq_OrdResult_def less_OrdResult_def)
  show "x \<le> y \<Longrightarrow> y \<le> x \<Longrightarrow> x = y" by (cases x; cases y) (simp_all add: less_eq_OrdResult_def)
qed

end

record partial_ordering =
  partial_value :: PartialOrdResult

record weak_ordering =
  weak_value :: int

record strong_ordering =
  strong_value :: int

definition partial_of :: "PartialOrdResult \<Rightarrow> partial_ordering" where "partial_of v = \<lparr>partial_value = v\<rparr>"
definition weak_of :: "OrdResult \<Rightarrow> weak_ordering" where "weak_of v = \<lparr>weak_value = ord_value v\<rparr>"
definition strong_of :: "OrdResult \<Rightarrow> strong_ordering" where "strong_of v = \<lparr>strong_value = ord_value v\<rparr>"

text \<open>Comparisons with the literal 0, on the right and on the left.\<close>

definition partial_eq0 :: "partial_ordering \<Rightarrow> bool" where "partial_eq0 v \<longleftrightarrow> partial_value v = Partial_Equiv"
definition partial_lt0 :: "partial_ordering \<Rightarrow> bool" where "partial_lt0 v \<longleftrightarrow> partial_value v = Partial_Less"
definition partial_le0 :: "partial_ordering \<Rightarrow> bool" where "partial_le0 v \<longleftrightarrow> partial_value v = Partial_Equiv \<or> partial_value v = Partial_Less"
definition partial_gt0 :: "partial_ordering \<Rightarrow> bool" where "partial_gt0 v \<longleftrightarrow> partial_value v = Partial_Greater"
definition partial_ge0 :: "partial_ordering \<Rightarrow> bool" where "partial_ge0 v \<longleftrightarrow> partial_value v = Partial_Equiv \<or> partial_value v = Partial_Greater"
definition partial_0lt :: "partial_ordering \<Rightarrow> bool" where "partial_0lt v \<longleftrightarrow> partial_value v = Partial_Greater"
definition partial_0le :: "partial_ordering \<Rightarrow> bool" where "partial_0le v \<longleftrightarrow> partial_value v = Partial_Equiv \<or> partial_value v = Partial_Greater"
definition partial_0gt :: "partial_ordering \<Rightarrow> bool" where "partial_0gt v \<longleftrightarrow> partial_value v = Partial_Less"
definition partial_0ge :: "partial_ordering \<Rightarrow> bool" where "partial_0ge v \<longleftrightarrow> partial_value v = Partial_Equiv \<or> partial_value v = Partial_Less"
definition partial_cmp0 :: "partial_ordering \<Rightarrow> partial_ordering" where "partial_cmp0 v = v"
definition partial_0cmp :: "partial_ordering \<Rightarrow> partial_ordering" where
  "partial_0cmp v = (if partial_lt0 v then partial_of Partial_Greater else if partial_gt0 v then partial_of Partial_Less else v)"

definition weak_to_partial :: "weak_ordering \<Rightarrow> partial_ordering" where
  "weak_to_partial v = (if weak_value v = 0 then partial_of Partial_Equiv
     else if weak_value v < 0 then partial_of Partial_Less else partial_of Partial_Greater)"
definition weak_eq0 :: "weak_ordering \<Rightarrow> bool" where "weak_eq0 v \<longleftrightarrow> weak_value v = 0"
definition weak_lt0 :: "weak_ordering \<Rightarrow> bool" where "weak_lt0 v \<longleftrightarrow> weak_value v < 0"
definition weak_le0 :: "weak_ordering \<Rightarrow> bool" where "weak_le0 v \<longleftrightarrow> weak_value v \<le> 0"
definition weak_gt0 :: "weak_ordering \<Rightarrow> bool" where "weak_gt0 v \<longleftrightarrow> weak_value v > 0"
definition weak_ge0 :: "weak_ordering \<Rightarrow> bool" where "weak_ge0 v \<longleftrightarrow> weak_value v \<ge> 0"
definition weak_0lt :: "weak_ordering \<Rightarrow> bool" where "weak_0lt v \<longleftrightarrow> 0 < weak_value v"
definition weak_0le :: "weak_ordering \<Rightarrow> bool" where "weak_0le v \<longleftrightarrow> 0 \<le> weak_value v"
definition weak_0gt :: "weak_ordering \<Rightarrow> bool" where "weak_0gt v \<longleftrightarrow> 0 > weak_value v"
definition weak_0ge :: "weak_ordering \<Rightarrow> bool" where "weak_0ge v \<longleftrightarrow> 0 \<ge> weak_value v"
definition weak_cmp0 :: "weak_ordering \<Rightarrow> weak_ordering" where "weak_cmp0 v = v"
definition weak_0cmp :: "weak_ordering \<Rightarrow> weak_ordering" where
  "weak_0cmp v = (if weak_lt0 v then weak_of Ord_Greater else if weak_gt0 v then weak_of Ord_Less else v)"

definition strong_to_partial :: "strong_ordering \<Rightarrow> partial_ordering" where
  "strong_to_partial v = (if strong_value v = 0 then partial_of Partial_Equiv
     else if strong_value v < 0 then partial_of Partial_Less else partial_of Partial_Greater)"
definition strong_to_weak :: "strong_ordering \<Rightarrow> weak_ordering" where
  "strong_to_weak v = (if strong_value v = 0 then weak_of Ord_Equiv
     else if strong_value v < 0 then weak_of Ord_Less else weak_of Ord_Greater)"
definition strong_eq0 :: "strong_ordering \<Rightarrow> bool" where "strong_eq0 v \<longleftrightarrow> strong_value v = 0"
definition strong_lt0 :: "strong_ordering \<Rightarrow> bool" where "strong_lt0 v \<longleftrightarrow> strong_value v < 0"
definition strong_le0 :: "strong_ordering \<Rightarrow> bool" where "strong_le0 v \<longleftrightarrow> strong_value v \<le> 0"
definition strong_gt0 :: "strong_ordering \<Rightarrow> bool" where "strong_gt0 v \<longleftrightarrow> strong_value v > 0"
definition strong_ge0 :: "strong_ordering \<Rightarrow> bool" where "strong_ge0 v \<longleftrightarrow> strong_value v \<ge> 0"
definition strong_0lt :: "strong_ordering \<Rightarrow> bool" where "strong_0lt v \<longleftrightarrow> 0 < strong_value v"
definition strong_0le :: "strong_ordering \<Rightarrow> bool" where "strong_0le v \<longleftrightarrow> 0 \<le> strong_value v"
definition strong_0gt :: "strong_ordering \<Rightarrow> bool" where "strong_0gt v \<longleftrightarrow> 0 > strong_value v"
definition strong_0ge :: "strong_ordering \<Rightarrow> bool" where "strong_0ge v \<longleftrightarrow> 0 \<ge> strong_value v"
definition strong_cmp0 :: "strong_ordering \<Rightarrow> strong_ordering" where "strong_cmp0 v = v"
definition strong_0cmp :: "strong_ordering \<Rightarrow> strong_ordering" where
  "strong_0cmp v = (if strong_lt0 v then strong_of Ord_Greater else if strong_gt0 v then strong_of Ord_Less else v)"

text \<open>\<^verbatim>\<open>is_eq.h\<close>.\<close>

definition is_eq :: "partial_ordering \<Rightarrow> bool" where "is_eq v \<longleftrightarrow> partial_eq0 v"
definition is_neq :: "partial_ordering \<Rightarrow> bool" where "is_neq v \<longleftrightarrow> \<not> partial_eq0 v"
definition is_lt :: "partial_ordering \<Rightarrow> bool" where "is_lt v \<longleftrightarrow> partial_lt0 v"
definition is_lteq :: "partial_ordering \<Rightarrow> bool" where "is_lteq v \<longleftrightarrow> partial_le0 v"
definition is_gt :: "partial_ordering \<Rightarrow> bool" where "is_gt v \<longleftrightarrow> partial_gt0 v"
definition is_gteq :: "partial_ordering \<Rightarrow> bool" where "is_gteq v \<longleftrightarrow> partial_ge0 v"

section \<open>The common category of several types\<close>

datatype ClassifyCompCategory = Comp_None | Comp_PartialOrd | Comp_WeakOrd | Comp_StrongOrd

definition compute_comp_type :: "ClassifyCompCategory list \<Rightarrow> ClassifyCompCategory" where
  "compute_comp_type types =
     (let seen = (\<lambda>k. count_list types k)
      in if seen Comp_None \<noteq> 0 then Comp_None
         else if seen Comp_PartialOrd \<noteq> 0 then Comp_PartialOrd
         else if seen Comp_WeakOrd \<noteq> 0 then Comp_WeakOrd
         else Comp_StrongOrd)"

definition get_comp_type :: "ClassifyCompCategory list \<Rightarrow> ClassifyCompCategory" where
  "get_comp_type types = compute_comp_type (Comp_StrongOrd # types)"

section \<open>Choosing a comparison\<close>

text \<open>The comparison operator of an arithmetic type with a linear order.\<close>

definition three_way :: "'a::linorder \<Rightarrow> 'a \<Rightarrow> strong_ordering" where
  "three_way t u = strong_of (if t < u then Ord_Less else if t = u then Ord_Equiv else Ord_Greater)"

text \<open>The priority tags: the first candidate that the types admit.\<close>

definition strong_order ::
  "('t \<Rightarrow> 't \<Rightarrow> strong_ordering) option \<Rightarrow> ('t \<Rightarrow> 't \<Rightarrow> strong_ordering) option \<Rightarrow> ('t \<Rightarrow> 't \<Rightarrow> strong_ordering) option \<Rightarrow>
     't \<Rightarrow> 't \<Rightarrow> strong_ordering option" where
  "strong_order adl floating spaceship t u =
     (case adl of Some f \<Rightarrow> Some (f t u)
      | None \<Rightarrow> (case floating of Some f \<Rightarrow> Some (f t u)
         | None \<Rightarrow> map_option (\<lambda>f. f t u) spaceship))"

definition compare_strong_order_fallback ::
  "('t \<Rightarrow> 't \<Rightarrow> strong_ordering option) \<Rightarrow> ('t \<Rightarrow> 't \<Rightarrow> bool) \<Rightarrow> ('t \<Rightarrow> 't \<Rightarrow> bool) \<Rightarrow> 't \<Rightarrow> 't \<Rightarrow> strong_ordering" where
  "compare_strong_order_fallback order eq lt t u =
     (case order t u of Some v \<Rightarrow> v
      | None \<Rightarrow> strong_of (if eq t u then Ord_Equiv else if lt t u then Ord_Less else Ord_Greater))"

definition compare_weak_order_fallback ::
  "('t \<Rightarrow> 't \<Rightarrow> weak_ordering option) \<Rightarrow> ('t \<Rightarrow> 't \<Rightarrow> bool) \<Rightarrow> ('t \<Rightarrow> 't \<Rightarrow> bool) \<Rightarrow> 't \<Rightarrow> 't \<Rightarrow> weak_ordering" where
  "compare_weak_order_fallback order eq lt t u =
     (case order t u of Some v \<Rightarrow> v
      | None \<Rightarrow> weak_of (if eq t u then Ord_Equiv else if lt t u then Ord_Less else Ord_Greater))"

definition compare_partial_order_fallback ::
  "('t \<Rightarrow> 't \<Rightarrow> partial_ordering option) \<Rightarrow> ('t \<Rightarrow> 't \<Rightarrow> bool) \<Rightarrow> ('t \<Rightarrow> 't \<Rightarrow> bool) \<Rightarrow> 't \<Rightarrow> 't \<Rightarrow> partial_ordering" where
  "compare_partial_order_fallback order eq lt t u =
     (case order t u of Some v \<Rightarrow> v
      | None \<Rightarrow> partial_of (if eq t u then Partial_Equiv else if lt t u then Partial_Less
                             else if lt u t then Partial_Greater else Partial_Unordered))"

definition synth_three_way :: "('t \<Rightarrow> 't \<Rightarrow> bool) \<Rightarrow> 't \<Rightarrow> 't \<Rightarrow> weak_ordering" where
  "synth_three_way lt t u = weak_of (if lt t u then Ord_Less else if lt u t then Ord_Greater else Ord_Equiv)"

section \<open>Floating point numbers\<close>

definition sign_of :: "'a::len word \<Rightarrow> bool" where
  "sign_of b \<longleftrightarrow> bit b (LENGTH('a) - 1)"

definition magnitude_bits :: "'a::len word \<Rightarrow> nat" where
  "magnitude_bits b = unat (take_bit (LENGTH('a) - 1) b)"

definition infinity_bits :: "nat \<Rightarrow> 'a::len itself \<Rightarrow> nat" where
  "infinity_bits p T = (2 ^ (LENGTH('a) - 1 - p) - 1) * 2 ^ p"

definition isnan :: "nat \<Rightarrow> 'a::len word \<Rightarrow> bool" where
  "isnan p b \<longleftrightarrow> infinity_bits p TYPE('a) < magnitude_bits b"

definition isinf :: "nat \<Rightarrow> 'a::len word \<Rightarrow> bool" where
  "isinf p b \<longleftrightarrow> magnitude_bits b = infinity_bits p TYPE('a)"

definition isfinite :: "nat \<Rightarrow> 'a::len word \<Rightarrow> bool" where
  "isfinite p b \<longleftrightarrow> magnitude_bits b < infinity_bits p TYPE('a)"

text \<open>The value of a bit pattern, as a multiple of the least positive one.\<close>

definition magnitude :: "nat \<Rightarrow> nat \<Rightarrow> nat" where
  "magnitude p m = (if m div 2 ^ p = 0 then m mod 2 ^ p else (2 ^ p + m mod 2 ^ p) * 2 ^ (m div 2 ^ p - 1))"

definition float_value :: "nat \<Rightarrow> 'a::len word \<Rightarrow> int" where
  "float_value p b = (if sign_of b then - int (magnitude p (magnitude_bits b)) else int (magnitude p (magnitude_bits b)))"

definition float_less :: "nat \<Rightarrow> 'a::len word \<Rightarrow> 'a word \<Rightarrow> bool" where
  "float_less p t u \<longleftrightarrow> \<not> isnan p t \<and> \<not> isnan p u \<and> float_value p t < float_value p u"

definition float_equal :: "nat \<Rightarrow> 'a::len word \<Rightarrow> 'a word \<Rightarrow> bool" where
  "float_equal p t u \<longleftrightarrow> \<not> isnan p t \<and> \<not> isnan p u \<and> float_value p t = float_value p u"

definition float_three_way :: "nat \<Rightarrow> 'a::len word \<Rightarrow> 'a word \<Rightarrow> partial_ordering" where
  "float_three_way p t u = partial_of
     (if float_less p t u then Partial_Less else if float_equal p t u then Partial_Equiv
      else if float_less p u t then Partial_Greater else Partial_Unordered)"

text \<open>The order of the IEC 559 formats, on the patterns read as signed integers.\<close>

definition strong_order_float :: "'a::len word \<Rightarrow> 'a word \<Rightarrow> strong_ordering" where
  "strong_order_float t u =
     (let rx = sint t;
          ry = sint u;
          rx = (if rx < 0 then - (2 ^ (LENGTH('a) - 1)) - rx - 1 else rx);
          ry = (if ry < 0 then - (2 ^ (LENGTH('a) - 1)) - ry - 1 else ry)
      in three_way rx ry)"

text \<open>The branch for other binary formats.\<close>

definition strong_order_other :: "nat \<Rightarrow> 'a::len word \<Rightarrow> 'a word \<Rightarrow> strong_ordering" where
  "strong_order_other p t u =
     (if float_less p t u then strong_of Ord_Less
      else if float_less p u t then strong_of Ord_Greater
      else if float_equal p t u then three_way (sign_of u) (sign_of t)
      else if isnan p t \<and> isnan p u
           then if sign_of t \<noteq> sign_of u then three_way (sign_of u) (sign_of t) else three_way (sint t) (sint u)
      else if isnan p t then if sign_of t then strong_of Ord_Less else strong_of Ord_Greater
      else if sign_of u then strong_of Ord_Greater else strong_of Ord_Less)"

definition weak_order_float :: "nat \<Rightarrow> 'a::len word \<Rightarrow> 'a word \<Rightarrow> weak_ordering" where
  "weak_order_float p t u =
     (let po = float_three_way p t u
      in if po = partial_of Partial_Less then weak_of Ord_Less
         else if po = partial_of Partial_Equiv then weak_of Ord_Equiv
         else if po = partial_of Partial_Greater then weak_of Ord_Greater
         else if isnan p t \<and> isnan p u then strong_to_weak (three_way (sign_of u) (sign_of t))
         else if isnan p t then if sign_of t then weak_of Ord_Less else weak_of Ord_Greater
         else if sign_of u then weak_of Ord_Greater else weak_of Ord_Less)"

text \<open>The candidates of \<^verbatim>\<open>weak_order\<close> and \<^verbatim>\<open>partial_order\<close>.\<close>

definition weak_order ::
  "('t \<Rightarrow> 't \<Rightarrow> weak_ordering) option \<Rightarrow> ('t \<Rightarrow> 't \<Rightarrow> weak_ordering) option \<Rightarrow> ('t \<Rightarrow> 't \<Rightarrow> weak_ordering) option \<Rightarrow>
     ('t \<Rightarrow> 't \<Rightarrow> strong_ordering option) \<Rightarrow> 't \<Rightarrow> 't \<Rightarrow> weak_ordering option" where
  "weak_order adl floating spaceship strong t u =
     (case adl of Some f \<Rightarrow> Some (f t u)
      | None \<Rightarrow> (case floating of Some f \<Rightarrow> Some (f t u)
         | None \<Rightarrow> (case spaceship of Some f \<Rightarrow> Some (f t u)
            | None \<Rightarrow> map_option strong_to_weak (strong t u))))"

definition partial_order ::
  "('t \<Rightarrow> 't \<Rightarrow> partial_ordering) option \<Rightarrow> ('t \<Rightarrow> 't \<Rightarrow> partial_ordering) option \<Rightarrow>
     ('t \<Rightarrow> 't \<Rightarrow> weak_ordering option) \<Rightarrow> 't \<Rightarrow> 't \<Rightarrow> partial_ordering option" where
  "partial_order adl spaceship weak t u =
     (case adl of Some f \<Rightarrow> Some (f t u)
      | None \<Rightarrow> (case spaceship of Some f \<Rightarrow> Some (f t u)
         | None \<Rightarrow> map_option weak_to_partial (weak t u)))"


section \<open>Categories agree\<close>

lemmas partial_defs = partial_eq0_def partial_lt0_def partial_le0_def partial_gt0_def partial_ge0_def partial_0lt_def partial_0le_def
  partial_0gt_def partial_0ge_def partial_of_def

lemmas weak_defs = weak_eq0_def weak_lt0_def weak_le0_def weak_gt0_def weak_ge0_def weak_0lt_def weak_0le_def weak_0gt_def weak_0ge_def
  weak_to_partial_def weak_of_def

lemmas strong_defs = strong_eq0_def strong_lt0_def strong_le0_def strong_gt0_def strong_ge0_def strong_0lt_def strong_0le_def
  strong_0gt_def strong_0ge_def strong_to_weak_def strong_to_partial_def strong_of_def

lemma strong_to_weak_of [simp]: "strong_to_weak (strong_of r) = weak_of r"
  by (cases r) (simp_all add: strong_defs weak_of_def)

lemma conversions_compose: "weak_to_partial (strong_to_weak v) = strong_to_partial v"
  by (simp add: strong_defs weak_defs)

lemma conversions_keep:
  "partial_lt0 (weak_to_partial v) = weak_lt0 v" "partial_le0 (weak_to_partial v) = weak_le0 v" "partial_eq0 (weak_to_partial v) = weak_eq0 v"
  "weak_lt0 (strong_to_weak w) = strong_lt0 w" "weak_le0 (strong_to_weak w) = strong_le0 w" "weak_eq0 (strong_to_weak w) = strong_eq0 w"
  by (auto simp: weak_defs strong_defs partial_defs)

lemma reversal_twice: "partial_0cmp (partial_0cmp v) = v" "weak_value w \<in> {- 1, 0, 1} \<Longrightarrow> weak_0cmp (weak_0cmp w) = w"
  by (cases v; cases "partial_value v"; simp add: partial_0cmp_def partial_defs)
    (cases w; auto simp: weak_0cmp_def weak_defs)

lemma strong_of_inject [simp]: "strong_of r = strong_of r' \<longleftrightarrow> r = r'"
  by (cases r; cases r') (simp_all add: strong_of_def)

lemma weak_of_inject [simp]: "weak_of r = weak_of r' \<longleftrightarrow> r = r'"
  by (cases r; cases r') (simp_all add: weak_of_def)

lemma partial_of_inject [simp]: "partial_of r = partial_of r' \<longleftrightarrow> r = r'"
  by (simp add: partial_of_def)

section \<open>Magnitudes\<close>

text \<open>The value of a pattern grows with the pattern.\<close>

lemma magnitude_mono:
  assumes "m < m'"
  shows "magnitude p m < magnitude p m'"
proof -
  let ?e = "m div 2 ^ p" and ?f = "m mod 2 ^ p" and ?e' = "m' div 2 ^ p" and ?f' = "m' mod 2 ^ p"
  have f: "?f < 2 ^ p" "?f' < 2 ^ p" by simp_all
  have le: "?e \<le> ?e'" using assms by (simp add: div_le_mono)
  show ?thesis
  proof (cases "?e = ?e'")
    case True
    then have "?f < ?f'" using assms by (metis div_mult_mod_eq nat_add_left_cancel_less)
    then show ?thesis using True by (simp add: magnitude_def)
  next
    case False
    then have e: "?e < ?e'" using le by simp
    have "magnitude p m < 2 ^ p * 2 ^ ?e"
    proof (cases "?e = 0")
      case False
      then obtain k where k: "?e = Suc k" by (cases ?e) auto
      have "(2 ^ p + ?f) * 2 ^ k < (2 * 2 ^ p) * 2 ^ k" using f by simp
      then show ?thesis using k by (simp add: magnitude_def mult.assoc mult.left_commute)
    qed (use f in \<open>simp add: magnitude_def\<close>)
    also have "\<dots> \<le> 2 ^ p * 2 ^ (?e' - 1)" using e by simp
    also have "\<dots> \<le> magnitude p m'" using e by (simp add: magnitude_def)
    finally show ?thesis .
  qed
qed

lemma magnitude_less_iff [simp]: "magnitude p m < magnitude p m' \<longleftrightarrow> m < m'"
  using magnitude_mono [of m m' p] magnitude_mono [of m' m p] by (metis linorder_neqE_nat order_less_asym order_less_irrefl)

lemma magnitude_eq_iff [simp]: "magnitude p m = magnitude p m' \<longleftrightarrow> m = m'"
  by (metis magnitude_less_iff linorder_neqE_nat order_less_irrefl)

section \<open>The orders by keys\<close>

text \<open>What the orders compare: the total order puts the patterns of each sign in the order of their
  magnitude, NaNs beyond the infinities; the weak order forgets the sign of a zero and what a NaN carries.\<close>

definition total_key :: "'a::len word \<Rightarrow> int" where
  "total_key b = (if sign_of b then - int (magnitude_bits b) - 1 else int (magnitude_bits b))"

definition weak_key :: "nat \<Rightarrow> 'a::len word \<Rightarrow> int" where
  "weak_key p b = (if isnan p b
     then let beyond = int (magnitude p (infinity_bits p TYPE('a))) + 1 in if sign_of b then - beyond else beyond
     else float_value p b)"

lemma signed_take_bit_split: "signed_take_bit n (k :: int) = take_bit n k - 2 ^ n * of_bool (bit k n)"
  by (simp add: signed_take_bit_eq_take_bit_minus take_bit_Suc_from_most)

lemma sint_parts: "sint (b :: 'a::len word) = (if sign_of b then int (magnitude_bits b) - 2 ^ (LENGTH('a) - 1) else int (magnitude_bits b))"
proof -
  have "sint b = take_bit (LENGTH('a) - 1) (uint b) - 2 ^ (LENGTH('a) - 1) * of_bool (bit (uint b) (LENGTH('a) - 1))"
    by (simp add: sint_uint signed_take_bit_split)
  moreover have "take_bit (LENGTH('a) - 1) (uint b) = int (magnitude_bits b)"
    unfolding magnitude_bits_def unsigned_take_bit_eq by (simp add: of_nat_take_bit)
  ultimately show ?thesis by (simp add: sign_of_def bit_uint_iff)
qed

lemma magnitude_bits_less: "magnitude_bits (b :: 'a::len word) < 2 ^ (LENGTH('a) - 1)"
proof -
  have "magnitude_bits b = take_bit (LENGTH('a) - 1) (unat b)" unfolding magnitude_bits_def unsigned_take_bit_eq ..
  then show ?thesis by simp
qed

lemma reflected: "(if sint b < 0 then - (2 ^ (LENGTH('a) - 1)) - sint b - 1 else sint b) = total_key (b :: 'a::len word)"
proof -
  have "int (magnitude_bits b) < 2 ^ (LENGTH('a) - 1)" using magnitude_bits_less [of b] by (simp flip: of_nat_less_iff)
  then show ?thesis by (simp add: sint_parts total_key_def)
qed

lemma strong_order_key: "strong_order_float t u = three_way (total_key t) (total_key u)"
  by (simp only: strong_order_float_def Let_def reflected)

lemma total_key_inject: "total_key t = total_key u \<Longrightarrow> t = u"
proof -
  assume "total_key t = total_key u"
  then have "sign_of t = sign_of u \<and> magnitude_bits t = magnitude_bits u" by (auto simp: total_key_def split: if_splits)
  then have "sint t = sint u" by (simp add: sint_parts)
  then show "t = u" by (rule signed_word_eqI)
qed

lemma weak_order_key:
  fixes t u :: "'a::len word"
  shows "weak_order_float p t u = strong_to_weak (three_way (weak_key p t) (weak_key p u))"
proof -
  let ?top = "int (magnitude p (infinity_bits p TYPE('a)))"
  have bound: "\<not> isnan p b \<Longrightarrow> \<bar>float_value p b\<bar> \<le> ?top" for b :: "'a word"
    using magnitude_less_iff [of p "infinity_bits p TYPE('a)" "magnitude_bits b"] by (auto simp: float_value_def isnan_def simp del: magnitude_less_iff)
  show ?thesis
    using bound [of t] bound [of u]
    by (cases "isnan p t"; cases "isnan p u")
      (auto simp: weak_order_float_def float_three_way_def float_less_def float_equal_def weak_key_def three_way_def Let_def)
qed

lemma weak_key_mono:
  fixes t u :: "'a::len word"
  assumes "total_key t \<le> total_key u"
  shows "weak_key p t \<le> weak_key p u"
proof -
  let ?top = "magnitude p (infinity_bits p TYPE('a))"
  have le: "magnitude_bits x \<le> magnitude_bits y \<Longrightarrow> magnitude p (magnitude_bits x) \<le> magnitude p (magnitude_bits y)" for x y :: "'a word"
    by (simp add: not_less [symmetric])
  have top: "\<not> isnan p x \<Longrightarrow> magnitude p (magnitude_bits x) \<le> ?top" for x :: "'a word"
    by (simp add: isnan_def not_less [symmetric])
  show ?thesis using assms le [of t u] le [of u t] top [of t] top [of u]
    by (auto simp: weak_key_def total_key_def float_value_def isnan_def Let_def split: if_splits)
qed

lemma float_equal_patterns:
  fixes t u :: "'a::len word"
  assumes "float_equal p t u"
  shows "t = u \<or> magnitude_bits t = 0 \<and> magnitude_bits u = 0"
proof -
  have zero: "magnitude p 0 = 0" by (simp add: magnitude_def)
  have pos: "magnitude p m = 0 \<longleftrightarrow> m = 0" for m using magnitude_eq_iff [of p m 0] unfolding zero .
  have "float_value p t = float_value p u" using assms by (simp add: float_equal_def)
  then consider "magnitude p (magnitude_bits t) = 0" "magnitude p (magnitude_bits u) = 0"
    | "sign_of t = sign_of u" "magnitude p (magnitude_bits t) = magnitude p (magnitude_bits u)"
    by (force simp: float_value_def split: if_splits)
  then show ?thesis
  proof cases
    case 1
    then show ?thesis by (simp add: pos)
  next
    case 2
    then have "total_key t = total_key u" by (simp add: magnitude_eq_iff total_key_def)
    then show ?thesis by (simp add: total_key_inject)
  qed
qed

section \<open>Properties\<close>

text \<open>C36: The orders of the floating point types, for every IEC 559 format: \<^verbatim>\<open>strong_order\<close> is a total order in
  which only identical patterns are equal; \<^verbatim>\<open>weak_order\<close> is a total preorder that it refines; both agree with the
  comparison of values wherever that is defined, and the comparison is undefined exactly when an operand is a NaN.\<close>

theorem float_orders:
  fixes t u :: "'a::len word"
  shows "strong_order_float t u = three_way (total_key t) (total_key u) \<and>
    weak_order_float p t u = strong_to_weak (three_way (weak_key p t) (weak_key p u)) \<and>
    float_three_way p t u = (if isnan p t \<or> isnan p u then partial_of Partial_Unordered else weak_to_partial (weak_order_float p t u)) \<and>
    (total_key t = total_key u \<longrightarrow> t = u) \<and> (total_key t \<le> total_key u \<longrightarrow> weak_key p t \<le> weak_key p u) \<and>
    (float_less p t u \<longrightarrow> strong_order_float t u = strong_of Ord_Less) \<and>
    (float_equal p t u \<longrightarrow> t = u \<or> magnitude_bits t = 0 \<and> magnitude_bits u = 0)"
proof -
  have "float_three_way p t u = weak_to_partial (weak_order_float p t u)" if "\<not> isnan p t" "\<not> isnan p u"
    using that by (auto simp: float_three_way_def weak_order_float_def float_less_def float_equal_def Let_def weak_defs)
  moreover have "float_three_way p t u = partial_of Partial_Unordered" if "isnan p t \<or> isnan p u"
    using that by (auto simp: float_three_way_def float_less_def float_equal_def)
  moreover have "strong_order_float t u = strong_of Ord_Less" if l: "float_less p t u"
  proof -
    have "weak_key p t < weak_key p u" using l by (simp add: float_less_def weak_key_def)
    then have "total_key t < total_key u" using weak_key_mono [of u t p] by linarith
    then show ?thesis by (simp add: strong_order_key three_way_def)
  qed
  moreover have "t = u \<or> magnitude_bits t = 0 \<and> magnitude_bits u = 0" if "float_equal p t u"
    using that by (rule float_equal_patterns)
  ultimately show ?thesis using strong_order_key weak_order_key total_key_inject weak_key_mono by auto
qed

text \<open>A negative zero and a positive NaN among the doubles.\<close>

theorem float_orders_witness:
  "strong_lt0 (strong_order_float (0x8000000000000000 :: u64) 0) \<and> isnan 52 (0x7FF8000000000000 :: u64)"
proof -
  have "total_key (0x8000000000000000 :: u64) = - 1" "total_key (0 :: u64) = 0"
    by (simp_all add: total_key_def sign_of_def magnitude_bits_def)
  then have "strong_order_float (0x8000000000000000 :: u64) 0 = three_way (- 1 :: int) 0"
    using float_orders [of "0x8000000000000000 :: u64" 0 52] by simp
  then show ?thesis by (simp add: three_way_def strong_defs isnan_def infinity_bits_def magnitude_bits_def)
qed

text \<open>The branch for formats that are not IEC 559 orders as the other one does, but for two negative NaNs, which it
  puts the other way round.\<close>

theorem strong_order_branches:
  fixes t u :: "'a::len word"
  shows "strong_order_other p t u =
    (if isnan p t \<and> isnan p u \<and> sign_of t \<and> sign_of u then strong_0cmp (strong_order_float t u) else strong_order_float t u)"
proof -
  have bound: "int (magnitude_bits b) < 2 ^ (LENGTH('a) - 1)" for b :: "'a word"
    using magnitude_bits_less [of b] by (simp flip: of_nat_less_iff)
  have nan: "\<not> isnan p b \<Longrightarrow> isnan p c \<Longrightarrow> magnitude_bits b < magnitude_bits c" for b c :: "'a word"
    by (simp add: isnan_def)
  have zero: "magnitude p 0 = 0" by (simp add: magnitude_def)
  have pos: "magnitude p m = 0 \<longleftrightarrow> m = 0" "0 < magnitude p m \<longleftrightarrow> 0 < m" for m
    using magnitude_eq_iff [of p m 0] magnitude_less_iff [of p 0 m] unfolding zero by simp_all
  show ?thesis
    using bound [of t] bound [of u] nan [of t u] nan [of u t]
    by (cases "isnan p t"; cases "isnan p u"; cases "sign_of t"; cases "sign_of u";
      simp add: strong_order_other_def strong_order_key total_key_def three_way_def float_less_def float_equal_def
        float_value_def sint_parts strong_0cmp_def strong_defs pos)
qed

end
