(* ===== verification/Hash.thy ===== *)
theory Hash
  imports Ordering "HOL-Library.Monad_Syntax"
begin

text \<open>
  The hash functions (\<^verbatim>\<open>include/__functional/hash.h\<close>): murmur2 where \<^verbatim>\<open>size_t\<close> has 32 bits, cityhash64 where it has
  64, and \<^verbatim>\<open>hash\<close> of the scalar types with 64 bit sizes.  The bytes that a hash reads are a list, and a read past
  its end is the result \<open>None\<close>; words are stored with the least significant byte first.
\<close>

section \<open>Bytes\<close>

definition le_word :: "u8 list \<Rightarrow> 'w::len word" where
  "le_word bs = foldr (\<lambda>b w. push_bit 8 w OR ucast b) bs 0"

definition loadword :: "u8 list \<Rightarrow> nat \<Rightarrow> 'w::len word option" where
  "loadword s i = (if i + LENGTH('w) div 8 \<le> length s then Some (le_word (take (LENGTH('w) div 8) (drop i s))) else None)"

definition load_byte :: "u8 list \<Rightarrow> nat \<Rightarrow> u8 option" where
  "load_byte s i = (if i < length s then Some (s ! i) else None)"

text \<open>The bytes of a value in memory, which the unions of the source read.\<close>

definition bytes_of :: "'a::len word \<Rightarrow> u8 list" where
  "bytes_of v = map (\<lambda>i. ucast (drop_bit (8 * i) v)) [0..<LENGTH('a) div 8]"

section \<open>murmur2\<close>

definition murmur_m :: u32 where "murmur_m = 0x5bd1e995"
definition murmur_r :: nat where "murmur_r = 24"

definition murmur_mix :: "u32 \<Rightarrow> u32 \<Rightarrow> u32" where
  "murmur_mix k h =
     (let k = k * murmur_m;
          k = k XOR drop_bit murmur_r k;
          k = k * murmur_m;
          h = h * murmur_m
      in h XOR k)"

function murmur_loop :: "u8 list \<Rightarrow> nat \<Rightarrow> u32 \<Rightarrow> u32 \<Rightarrow> (nat \<times> u32 \<times> u32) option" where
  "murmur_loop s data len h =
     (if 4 \<le> len
      then do {
        k \<leftarrow> loadword s data;
        murmur_loop s (data + 4) (len - 4) (murmur_mix k h)
      }
      else Some (data, len, h))"
  by pat_completeness auto
termination
  by (relation "measure (\<lambda>(s, data, len, h). unat len)") (auto simp: unat_sub word_le_nat_alt)

declare murmur_loop.simps [simp del]

definition murmur_tail :: "u8 list \<Rightarrow> nat \<Rightarrow> u32 \<Rightarrow> u32 \<Rightarrow> u32 option" where
  "murmur_tail s data len h = do {
     h \<leftarrow> if len = 3 then map_option (\<lambda>b. h XOR push_bit 16 (ucast b)) (load_byte s (data + 2)) else Some h;
     h \<leftarrow> if len = 3 \<or> len = 2 then map_option (\<lambda>b. h XOR push_bit 8 (ucast b)) (load_byte s (data + 1)) else Some h;
     if len = 3 \<or> len = 2 \<or> len = 1 then map_option (\<lambda>b. (h XOR ucast b) * murmur_m) (load_byte s data) else Some h
   }"

definition murmur2 :: "u8 list \<Rightarrow> u32 \<Rightarrow> u32 option" where
  "murmur2 key len = do {
     (data, rest, h) \<leftarrow> murmur_loop key 0 len len;
     h \<leftarrow> murmur_tail key data rest h;
     let h = h XOR drop_bit 13 h;
     let h = h * murmur_m;
     Some (h XOR drop_bit 15 h)
   }"

section \<open>cityhash64\<close>

definition city_k0 :: u64 where "city_k0 = 0xc3a5c85c97cb3127"
definition city_k1 :: u64 where "city_k1 = 0xb492b66fbe98f273"
definition city_k2 :: u64 where "city_k2 = 0x9ae16a3b2f90404f"
definition city_k3 :: u64 where "city_k3 = 0xc949d7c7509e6557"

definition rotate_by_at_least_1 :: "u64 \<Rightarrow> nat \<Rightarrow> u64" where
  "rotate_by_at_least_1 val shift = drop_bit shift val OR push_bit (64 - shift) val"

definition rotate_city :: "u64 \<Rightarrow> nat \<Rightarrow> u64" where
  "rotate_city val shift = (if shift = 0 then val else drop_bit shift val OR push_bit (64 - shift) val)"

definition shift_mix :: "u64 \<Rightarrow> u64" where
  "shift_mix val = val XOR drop_bit 47 val"

definition city_mul :: u64 where "city_mul = 0x9ddfea08eb382d69"

definition hash_len_16 :: "u64 \<Rightarrow> u64 \<Rightarrow> u64" where
  "hash_len_16 u v =
     (let a = (u XOR v) * city_mul;
          a = a XOR drop_bit 47 a;
          b = (v XOR a) * city_mul;
          b = b XOR drop_bit 47 b
      in b * city_mul)"

definition hash_len_0_to_16 :: "u8 list \<Rightarrow> u64 \<Rightarrow> u64 option" where
  "hash_len_0_to_16 s len =
     (if 8 < len then do {
        a \<leftarrow> loadword s 0;
        b \<leftarrow> loadword s (unat len - 8);
        Some (hash_len_16 a (rotate_by_at_least_1 (b + len) (unat len)) XOR b)
      }
      else if 4 \<le> len then do {
        a \<leftarrow> (loadword s 0 :: u32 option);
        b \<leftarrow> (loadword s (unat len - 4) :: u32 option);
        Some (hash_len_16 (len + ucast (push_bit 3 a)) (ucast b))
      }
      else if 0 < len then do {
        a \<leftarrow> load_byte s 0;
        b \<leftarrow> load_byte s (unat (drop_bit 1 len));
        c \<leftarrow> load_byte s (unat len - 1);
        let y = (ucast a :: u32) + push_bit 8 (ucast b);
        let z = (ucast (len + ucast (push_bit 2 (ucast c :: u32))) :: u32);
        Some (shift_mix (ucast y * city_k2 XOR ucast z * city_k3) * city_k2)
      }
      else Some city_k2)"

definition hash_len_17_to_32 :: "u8 list \<Rightarrow> u64 \<Rightarrow> u64 option" where
  "hash_len_17_to_32 s len = do {
     a \<leftarrow> loadword s 0;
     let a = a * city_k1;
     b \<leftarrow> loadword s 8;
     c \<leftarrow> loadword s (unat len - 8);
     let c = c * city_k2;
     d \<leftarrow> loadword s (unat len - 16);
     let d = d * city_k0;
     Some (hash_len_16 (rotate_city (a - b) 43 + rotate_city c 30 + d) (a + rotate_city (b XOR city_k3) 20 - c + len))
   }"

definition weak_hash_len_32_with_seeds :: "u64 \<Rightarrow> u64 \<Rightarrow> u64 \<Rightarrow> u64 \<Rightarrow> u64 \<Rightarrow> u64 \<Rightarrow> u64 \<times> u64" where
  "weak_hash_len_32_with_seeds w x y z a b =
     (let a = a + w;
          b = rotate_city (b + a + z) 21;
          c = a;
          a = a + x;
          a = a + y;
          b = b + rotate_city a 44
      in (a + z, b + c))"

definition weak_hash_len_32 :: "u8 list \<Rightarrow> nat \<Rightarrow> u64 \<Rightarrow> u64 \<Rightarrow> (u64 \<times> u64) option" where
  "weak_hash_len_32 s i a b = do {
     w \<leftarrow> loadword s i;
     x \<leftarrow> loadword s (i + 8);
     y \<leftarrow> loadword s (i + 16);
     z \<leftarrow> loadword s (i + 24);
     Some (weak_hash_len_32_with_seeds w x y z a b)
   }"

definition hash_len_33_to_64 :: "u8 list \<Rightarrow> u64 \<Rightarrow> u64 option" where
  "hash_len_33_to_64 s len = do {
     z \<leftarrow> loadword s 24;
     s0 \<leftarrow> loadword s 0;
     e16 \<leftarrow> loadword s (unat len - 16);
     let a = s0 + (len + e16) * city_k0;
     let b = rotate_city (a + z) 52;
     let c = rotate_city a 37;
     s8 \<leftarrow> loadword s 8;
     let a = a + s8;
     let c = c + rotate_city a 7;
     s16 \<leftarrow> loadword s 16;
     let a = a + s16;
     let vf = a + z;
     let vs = b + rotate_city a 31 + c;
     s16 \<leftarrow> loadword s 16;
     e32 \<leftarrow> loadword s (unat len - 32);
     let a = s16 + e32;
     e8 \<leftarrow> loadword s (unat len - 8);
     let z = z + e8;
     let b = rotate_city (a + z) 52;
     let c = rotate_city a 37;
     e24 \<leftarrow> loadword s (unat len - 24);
     let a = a + e24;
     let c = c + rotate_city a 7;
     e16 \<leftarrow> loadword s (unat len - 16);
     let a = a + e16;
     let wf = a + z;
     let ws = b + rotate_city a 31 + c;
     let r = shift_mix ((vf + ws) * city_k2 + (wf + vs) * city_k0);
     Some (shift_mix (r * city_k0 + vs) * city_k2)
   }"

text \<open>The 56 bytes of state of the loop over longer keys.\<close>

record city =
  city_x :: u64
  city_y :: u64
  city_z :: u64
  city_v :: "u64 \<times> u64"
  city_w :: "u64 \<times> u64"

definition city_chunk :: "u8 list \<Rightarrow> nat \<Rightarrow> city \<Rightarrow> city option" where
  "city_chunk s i c = do {
     s8 \<leftarrow> loadword s (i + 8);
     let x = rotate_city (city_x c + city_y c + fst (city_v c) + s8) 37 * city_k1;
     s48 \<leftarrow> loadword s (i + 48);
     let y = rotate_city (city_y c + snd (city_v c) + s48) 42 * city_k1;
     let x = x XOR snd (city_w c);
     s40 \<leftarrow> loadword s (i + 40);
     let y = y + (fst (city_v c) + s40);
     let z = rotate_city (city_z c + fst (city_w c)) 33 * city_k1;
     v \<leftarrow> weak_hash_len_32 s i (snd (city_v c) * city_k1) (x + fst (city_w c));
     s16 \<leftarrow> loadword s (i + 16);
     w \<leftarrow> weak_hash_len_32 s (i + 32) (z + snd (city_w c)) (y + s16);
     Some \<lparr>city_x = z, city_y = y, city_z = x, city_v = v, city_w = w\<rparr>
   }"

lemma loadword_None_iff [simp]: "(loadword s i :: 'w::len word option) = None \<longleftrightarrow> \<not> i + LENGTH('w) div 8 \<le> length s"
  by (simp add: loadword_def)

lemma weak_hash_None_iff [simp]: "weak_hash_len_32 s i a b = None \<longleftrightarrow> \<not> i + 32 \<le> length s"
  by (auto simp: weak_hash_len_32_def Option.bind_eq_None_conv)

lemma city_chunk_None_iff [simp]: "city_chunk s i c = None \<longleftrightarrow> \<not> i + 64 \<le> length s"
  by (auto simp: city_chunk_def Let_def Option.bind_eq_None_conv)

function city_loop :: "u8 list \<Rightarrow> nat \<Rightarrow> u64 \<Rightarrow> city \<Rightarrow> city option" where
  "city_loop s i len c = do {
     c \<leftarrow> city_chunk s i c;
     let len = len - 64;
     if len \<noteq> 0 then city_loop s (i + 64) len c else Some c
   }"
  by pat_completeness auto
termination
proof (relation "measure (\<lambda>(s, i, len, c). length s - i)", simp_all, goal_cases)
  case (1 s i len c c')
  then have "city_chunk s i c \<noteq> None" by simp
  then show ?case by (auto simp del: not_None_eq)
qed

declare city_loop.simps [simp del]

definition city_hash :: "u8 list \<Rightarrow> u64 \<Rightarrow> u64 option" where
  "city_hash s len =
     (if len \<le> 32 then if len \<le> 16 then hash_len_0_to_16 s len else hash_len_17_to_32 s len
      else if len \<le> 64 then hash_len_33_to_64 s len
      else do {
        x \<leftarrow> loadword s (unat len - 40);
        e16 \<leftarrow> loadword s (unat len - 16);
        e56 \<leftarrow> loadword s (unat len - 56);
        let y = e16 + e56;
        e48 \<leftarrow> loadword s (unat len - 48);
        e24 \<leftarrow> loadword s (unat len - 24);
        let z = hash_len_16 (e48 + len) e24;
        v \<leftarrow> weak_hash_len_32 s (unat len - 64) len z;
        w \<leftarrow> weak_hash_len_32 s (unat len - 32) (y + city_k1) x;
        s0 \<leftarrow> loadword s 0;
        let x = x * city_k1 + s0;
        let len = (len - 1) AND NOT 63;
        c \<leftarrow> city_loop s 0 len \<lparr>city_x = x, city_y = y, city_z = z, city_v = v, city_w = w\<rparr>;
        Some (hash_len_16 (hash_len_16 (fst (city_v c)) (fst (city_w c)) + shift_mix (city_y c) * city_k1 + city_z c)
                          (hash_len_16 (snd (city_v c)) (snd (city_w c)) + city_x c))
      })"

section \<open>Scalar types\<close>

text \<open>\<^verbatim>\<open>__scalar_hash\<close> by the number of 64 bit words of the type: the pattern itself, with zeros above it, up to one
  word, and the hash of the bytes for two, three and four.\<close>

definition scalar_hash_0 :: "'a::len word \<Rightarrow> u64" where "scalar_hash_0 v = ucast v"
definition scalar_hash_1 :: "u64 \<Rightarrow> u64" where "scalar_hash_1 v = v"

definition scalar_hash_2 :: "u64 \<Rightarrow> u64 \<Rightarrow> u64 option" where
  "scalar_hash_2 a b = city_hash (bytes_of a @ bytes_of b) 16"

definition scalar_hash_3 :: "u64 \<Rightarrow> u64 \<Rightarrow> u64 \<Rightarrow> u64 option" where
  "scalar_hash_3 a b c = city_hash (bytes_of a @ bytes_of b @ bytes_of c) 24"

definition scalar_hash_4 :: "u64 \<Rightarrow> u64 \<Rightarrow> u64 \<Rightarrow> u64 \<Rightarrow> u64 option" where
  "scalar_hash_4 a b c d = city_hash (bytes_of a @ bytes_of b @ bytes_of c @ bytes_of d) 32"

definition hash_combine :: "u64 \<Rightarrow> u64 \<Rightarrow> u64 option" where
  "hash_combine lhs rhs = scalar_hash_2 lhs rhs"

text \<open>\<^verbatim>\<open>hash<T *>\<close>, where pointers and sizes have 64 and 32 bits.\<close>

definition hash_pointer :: "u64 \<Rightarrow> u64 option" where
  "hash_pointer v = city_hash (bytes_of v) 8"

definition hash_pointer_32 :: "u32 \<Rightarrow> u32 option" where
  "hash_pointer_32 v = murmur2 (bytes_of v) 4"

text \<open>The integer types convert to \<^verbatim>\<open>size_t\<close>, by their signedness.\<close>

definition hash_bool :: "bool \<Rightarrow> u64" where "hash_bool v = of_bool v"
definition hash_char :: "u8 \<Rightarrow> u64" where "hash_char v = scast v"
definition hash_signed_char :: "u8 \<Rightarrow> u64" where "hash_signed_char v = scast v"
definition hash_unsigned_char :: "u8 \<Rightarrow> u64" where "hash_unsigned_char v = ucast v"
definition hash_char8 :: "u8 \<Rightarrow> u64" where "hash_char8 v = ucast v"
definition hash_char16 :: "u16 \<Rightarrow> u64" where "hash_char16 v = ucast v"
definition hash_char32 :: "u32 \<Rightarrow> u64" where "hash_char32 v = ucast v"
definition hash_wchar :: "u32 \<Rightarrow> u64" where "hash_wchar v = scast v"
definition hash_short :: "u16 \<Rightarrow> u64" where "hash_short v = scast v"
definition hash_unsigned_short :: "u16 \<Rightarrow> u64" where "hash_unsigned_short v = ucast v"
definition hash_int :: "u32 \<Rightarrow> u64" where "hash_int v = scast v"
definition hash_unsigned_int :: "u32 \<Rightarrow> u64" where "hash_unsigned_int v = ucast v"
definition hash_long :: "u64 \<Rightarrow> u64" where "hash_long v = v"
definition hash_unsigned_long :: "u64 \<Rightarrow> u64" where "hash_unsigned_long v = v"
definition hash_long_long :: "u64 \<Rightarrow> u64" where "hash_long_long v = scalar_hash_1 v"
definition hash_unsigned_long_long :: "u64 \<Rightarrow> u64" where "hash_unsigned_long_long v = scalar_hash_1 v"

definition hash_float :: "u32 \<Rightarrow> u64" where
  "hash_float v = (if float_equal 23 v 0 then 0 else scalar_hash_0 v)"

definition hash_double :: "u64 \<Rightarrow> u64" where
  "hash_double v = (if float_equal 52 v 0 then 0 else scalar_hash_1 v)"

text \<open>\<^verbatim>\<open>long double\<close> is the format of 128 bits, and on x86-64 the extended format of 80 bits in two words whose padding
  is zeroed first; the value 0 of the latter is an exponent and a significand of zeros.\<close>

definition hash_long_double :: "128 word \<Rightarrow> u64 option" where
  "hash_long_double v = (if float_equal 112 v 0 then Some 0 else scalar_hash_2 (ucast v) (ucast (drop_bit 64 v)))"

definition hash_long_double_x86 :: "80 word \<Rightarrow> u64" where
  "hash_long_double_x86 v = (if take_bit 79 v = 0 then 0 else ucast v XOR ucast (drop_bit 64 v))"

definition hash_enum :: "('a \<Rightarrow> u64) \<Rightarrow> ('t \<Rightarrow> 'a) \<Rightarrow> 't \<Rightarrow> u64" where
  "hash_enum underlying_hash to_underlying v = underlying_hash (to_underlying v)"

definition hash_nullptr :: u64 where "hash_nullptr = 662607004"

section \<open>Reads stay inside\<close>

lemma load_byte_None_iff [simp]: "load_byte s i = None \<longleftrightarrow> \<not> i < length s"
  by (simp add: load_byte_def)

lemma city_short_keys:
  assumes "unat len = length s"
  shows "len \<le> 16 \<Longrightarrow> hash_len_0_to_16 s len \<noteq> None" "16 < len \<Longrightarrow> hash_len_17_to_32 s len \<noteq> None"
    "32 < len \<Longrightarrow> hash_len_33_to_64 s len \<noteq> None"
  using assms by (auto simp: hash_len_0_to_16_def hash_len_17_to_32_def hash_len_33_to_64_def Let_def word_le_nat_alt word_less_nat_alt
    Option.bind_eq_None_conv unsigned_drop_bit_eq drop_bit_eq_div unat_div_distrib simp del: not_None_eq split: if_splits)

lemma city_loop_returns:
  assumes "i + unat len \<le> length s" "64 dvd unat len" "len \<noteq> 0"
  shows "city_loop s i len c \<noteq> None"
  using assms
proof (induction s i len c rule: city_loop.induct)
  case (1 s i len c)
  have "64 \<le> unat len" using 1(3,4) by (intro dvd_imp_le) (simp_all add: unat_gt_0)
  then have len: "unat (len - 64) = unat len - 64" "64 \<le> len" by (simp_all add: unat_sub word_le_nat_alt)
  then have "city_chunk s i c \<noteq> None" using 1(2) \<open>64 \<le> unat len\<close> by simp
  then obtain c' where c: "city_chunk s i c = Some c'" by blast
  show ?case
    using 1(1) [OF c refl] 1(2-) len \<open>64 \<le> unat len\<close> by (auto simp: city_loop.simps [of s i len c] c Let_def)
qed

lemma and_not_63:
  fixes x :: u64
  shows "unat (x AND NOT 63) = unat x div 64 * 64"
proof -
  have "unat (x AND NOT 63) = and64 (unat x) (not64 (2 ^ 6 - 1))"
    unfolding and64_def not64_def by (simp only: of_nat_unat ucast_id) simp
  also have "\<dots> = unat x - unat x mod 2 ^ 6" using unsigned_less [of x] by (intro and64_not_mask) simp_all
  finally show ?thesis by (simp add: minus_mod_eq_div_mult)
qed

lemma murmur_loop_returns:
  assumes "data + unat len \<le> length s"
  shows "\<exists>data' rest h'. murmur_loop s data len h = Some (data', rest, h') \<and> rest < 4 \<and> data' + unat rest \<le> length s"
  using assms
proof (induction s data len h rule: murmur_loop.induct)
  case (1 s data len h)
  show ?case
  proof (cases "4 \<le> len")
    case True
    then have len: "unat (len - 4) = unat len - 4" "4 \<le> unat len" by (simp_all add: unat_sub word_le_nat_alt)
    have "(loadword s data :: u32 option) \<noteq> None" using 1(2) len by simp
    then obtain k where k: "loadword s data = Some (k :: u32)" by blast
    have "data + 4 + unat (len - 4) \<le> length s" using 1(2) len by simp
    from 1(1) [OF True k this] show ?thesis using True k by (simp add: murmur_loop.simps [of s data len h])
  qed (use 1(2) in \<open>simp add: murmur_loop.simps [of s data len h] flip: not_less\<close>)
qed

lemma murmur_tail_returns: "data + unat len \<le> length s \<Longrightarrow> murmur_tail s data len h \<noteq> None"
  by (auto simp: murmur_tail_def Option.bind_eq_None_conv simp del: not_None_eq)

section \<open>Bijections of words\<close>

lemma mult_cancel_inverse:
  fixes m m' :: "'a::len word"
  assumes "m * m' = 1"
  shows "a * m = b * m \<longleftrightarrow> a = b"
  by (metis assms mult.assoc mult.right_neutral)

text \<open>An exclusive or with the word shifted by at least a third of its width can be undone.\<close>

lemma xor_shift_undo:
  fixes x :: "'a::len word"
  assumes "LENGTH('a) \<le> n + n + n"
  shows "(let y = x XOR drop_bit n x in y XOR drop_bit n y XOR drop_bit (n + n) y) = x"
proof -
  have "drop_bit (n + n + n) x = 0" using assms by (intro bit_word_eqI) (auto simp: bit_simps dest: bit_imp_le_length)
  then show ?thesis by (simp add: Let_def ac_simps)
qed

lemma xor_shift_inject:
  fixes x y :: "'a::len word"
  assumes "LENGTH('a) \<le> n + n + n"
  shows "x XOR drop_bit n x = y XOR drop_bit n y \<longleftrightarrow> x = y"
  using xor_shift_undo [OF assms, of x] xor_shift_undo [OF assms, of y] unfolding Let_def by metis

lemma xor_cancel_left [simp]: "(a :: 'a::len word) XOR b = a XOR c \<longleftrightarrow> b = c"
  by (metis xor.left_commute xor.right_neutral xor_self_eq xor.assoc)

lemma xor_cancel_right [simp]: "(b :: 'a::len word) XOR a = c XOR a \<longleftrightarrow> b = c"
  by (metis xor.commute xor_cancel_left)

lemma city_mul_inject [simp]: "a * city_mul = b * city_mul \<longleftrightarrow> a = b"
  by (rule mult_cancel_inverse [where m' = "0xdc56e6f5090b32d9"]) (simp add: city_mul_def)

lemma murmur_m_inject [simp]: "a * murmur_m = b * murmur_m \<longleftrightarrow> a = b"
  by (rule mult_cancel_inverse [where m' = "0xe59b19bd"]) (simp add: murmur_m_def)

lemma hash_len_16_inject [simp]: "hash_len_16 u v = hash_len_16 u' v \<longleftrightarrow> u = u'"
  by (simp add: hash_len_16_def Let_def xor_shift_inject)

lemma murmur_mix_inject [simp]: "murmur_mix k h = murmur_mix k' h \<longleftrightarrow> k = k'" "murmur_mix k h = murmur_mix k h' \<longleftrightarrow> h = h'"
  by (simp_all add: murmur_mix_def Let_def xor_shift_inject murmur_r_def)

section \<open>Bytes and words\<close>

lemma bytes_of_8: "bytes_of (v :: u64) = map (\<lambda>i. ucast (drop_bit (8 * i) v)) [0, 1, 2, 3, 4, 5, 6, 7]"
  by (simp add: bytes_of_def upt_rec)

lemma length_bytes_of [simp]: "length (bytes_of (v :: 'a::len word)) = LENGTH('a) div 8"
  by (simp add: bytes_of_def)

lemma bit_le_word_Cons:
  "bit (le_word (b # bs) :: 'w::len word) n \<longleftrightarrow> n < LENGTH('w) \<and> (if n < 8 then bit b n else bit (le_word bs :: 'w word) (n - 8))"
  by (auto simp: le_word_def bit_simps dest: bit_imp_le_length)

lemma bit_le_word:
  "bit (le_word bs :: 'w::len word) n \<longleftrightarrow> n < LENGTH('w) \<and> n div 8 < length bs \<and> bit (bs ! (n div 8)) (n mod 8)"
proof (induction bs arbitrary: n)
  case (Cons b bs)
  show ?case
  proof (cases "n < 8")
    case False
    then obtain m where "n = m + 8" by (metis add.commute le_Suc_ex not_less)
    moreover have "(m + 8) div 8 = Suc (m div 8)" "(m + 8) mod 8 = m mod 8" by simp_all
    ultimately show ?thesis using Cons [of m] by (auto simp: bit_le_word_Cons)
  qed (simp add: bit_le_word_Cons)
qed (simp add: le_word_def)

lemma nth_bytes_of: "i < LENGTH('a) div 8 \<Longrightarrow> bytes_of (v :: 'a::len word) ! i = ucast (drop_bit (8 * i) v)"
  by (simp add: bytes_of_def)

lemma loadword_bytes_of:
  fixes v :: "'a::len word"
  assumes "8 dvd LENGTH('w::len)" "i + LENGTH('w) div 8 \<le> LENGTH('a) div 8"
  shows "loadword (bytes_of v) i = Some (ucast (drop_bit (8 * i) v) :: 'w word)"
proof -
  have "bit (le_word (take (LENGTH('w) div 8) (drop i (bytes_of v))) :: 'w word) n = bit (ucast (drop_bit (8 * i) v) :: 'w word) n"
    if "n < LENGTH('w)" for n
  proof -
    have n: "n div 8 < LENGTH('w) div 8" using that assms(1) by (auto simp: dvd_def less_mult_imp_div_less mult.commute)
    then have "i + n div 8 < LENGTH('a) div 8" using assms(2) by simp
    then show ?thesis using that n by (auto simp: bit_le_word nth_bytes_of bit_simps algebra_simps; presburger)
  qed
  then show ?thesis using assms(2) by (simp add: loadword_def bit_word_eqI)
qed

lemma loadword_append:
  "i + LENGTH('w) div 8 \<le> length xs \<Longrightarrow> loadword (xs @ ys) i = (loadword xs i :: 'w::len word option)"
  "length xs \<le> i \<Longrightarrow> loadword (xs @ ys) i = (loadword ys (i - length xs) :: 'w::len word option)"
  by (auto simp: loadword_def)

section \<open>Properties\<close>

text \<open>C37: The hash functions read no byte outside their key and return for every length of it: cityhash64 through its
  four cases and the loop over 64 byte chunks, which stops, and murmur2 through its loop and the last three bytes.\<close>

theorem hash_reads_inside:
  "(length s < 2 ^ 64 \<longrightarrow> (\<exists>h. city_hash s (of_nat (length s)) = Some h)) \<and>
   (length s < 2 ^ 32 \<longrightarrow> (\<exists>h. murmur2 s (of_nat (length s)) = Some h))"
proof (intro conjI impI)
  assume "length s < 2 ^ 64"
  then have len: "unat (of_nat (length s) :: u64) = length s" by (simp add: unat_of_nat take_bit_nat_eq_self)
  show "\<exists>h. city_hash s (of_nat (length s)) = Some h"
  proof (cases "64 < length s")
    case True
    let ?last = "(of_nat (length s) - 1) AND NOT 63 :: u64"
    have one: "unat (of_nat (length s) - 1 :: u64) = length s - 1"
      using True len by (subst unat_sub) (simp_all add: word_le_nat_alt)
    have last: "unat ?last = (length s - 1) div 64 * 64" by (simp only: and_not_63 one)
    have "0 < (length s - 1) div 64" using True by (simp add: div_greater_zero_iff)
    then have loop: "0 + unat ?last \<le> length s" "64 dvd unat ?last" "?last \<noteq> 0"
      unfolding last unat_eq_0 [symmetric] using div_times_less_eq_dividend [of "length s - 1" 64] by auto
    show ?thesis using True len city_loop_returns [OF loop]
      by (auto simp: city_hash_def Let_def word_le_nat_alt word_less_nat_alt Option.bind_eq_None_conv
        simp del: not_None_eq simp flip: not_None_eq)
  next
    case False
    then show ?thesis using len city_short_keys [OF len]
      by (auto simp: city_hash_def word_le_nat_alt word_less_nat_alt)
  qed
next
  assume "length s < 2 ^ 32"
  then have len: "unat (of_nat (length s) :: u32) = length s" by (simp add: unat_of_nat take_bit_nat_eq_self)
  then obtain data rest h where loop: "murmur_loop s 0 (of_nat (length s)) (of_nat (length s)) = Some (data, rest, h)"
    and rest: "data + unat rest \<le> length s"
    using murmur_loop_returns [of 0 "of_nat (length s)" s "of_nat (length s)"] by auto
  obtain h' where "murmur_tail s data rest h = Some h'" using murmur_tail_returns [OF rest, of h] by blast
  then show "\<exists>h. murmur2 s (of_nat (length s)) = Some h" by (simp add: murmur2_def loop Let_def)
qed

text \<open>A key of 65 bytes goes once round the loop for long keys and once round the last bytes of murmur2.\<close>

theorem hash_reads_inside_witness:
  "(\<exists>h. city_hash (replicate 65 7) 65 = Some h) \<and> (\<exists>h. murmur2 (replicate 65 7) 65 = Some h)"
  using hash_reads_inside [of "replicate 65 7"] by simp

lemma hash_combine_words: "hash_combine a b = Some (hash_len_16 a (rotate_by_at_least_1 (b + 16) 16) XOR b)"
  by (simp add: hash_combine_def scalar_hash_2_def city_hash_def hash_len_0_to_16_def loadword_append loadword_bytes_of)

lemma hash_pointer_words:
  "hash_pointer p = Some (hash_len_16 (8 + ucast (push_bit 3 (ucast p :: u32))) (ucast (ucast (drop_bit 32 p) :: u32)))"
  by (simp add: hash_pointer_def city_hash_def hash_len_0_to_16_def loadword_bytes_of)

lemma low_29_bits: "push_bit 3 (ucast (p :: u64) :: u32) = push_bit 3 (ucast q) \<longleftrightarrow> take_bit 29 p = take_bit 29 q"
proof
  assume eq: "push_bit 3 (ucast p :: u32) = push_bit 3 (ucast q)"
  have "bit p n = bit q n" if "n < 29" for n
    using that arg_cong [OF eq, of "\<lambda>w. bit w (n + 3)"] by (simp add: bit_simps)
  then show "take_bit 29 p = take_bit 29 q" by (intro bit_word_eqI) (auto simp: bit_simps)
next
  assume eq: "take_bit 29 p = take_bit 29 q"
  have "bit p n = bit q n" if "n < 29" for n
    using that arg_cong [OF eq, of "\<lambda>w. bit w n"] by (simp add: bit_simps)
  then show "push_bit 3 (ucast p :: u32) = push_bit 3 (ucast q)" by (intro bit_word_eqI) (auto simp: bit_simps)
qed

lemma ucast_back_32: "(ucast (ucast (a :: u32) :: u64) :: u32) = a"
  by (simp add: ucast_up_ucast_id is_up)

lemma ucast_32_64_inject [simp]: "(ucast (a :: u32) :: u64) = ucast b \<longleftrightarrow> a = b"
  by (metis ucast_back_32)

text \<open>C38: Which keys of one word collide.  The hashes of two pointers into the same 4 GB agree exactly when the pointers
  agree on their lower 29 bits: the shift in 32 bits loses the other three.  Combining hashes with the same right
  operand never collides, nor do pointers of 32 bits.\<close>

theorem hash_pointer_collisions:
  "(drop_bit 32 p = drop_bit 32 q \<longrightarrow> (hash_pointer p = hash_pointer q \<longleftrightarrow> take_bit 29 p = take_bit 29 q)) \<and>
   (hash_combine l r = hash_combine l' r \<longleftrightarrow> l = l') \<and> (hash_pointer_32 a = hash_pointer_32 b \<longleftrightarrow> a = b)"
proof (intro conjI impI)
  assume "drop_bit 32 p = drop_bit 32 q"
  then show "hash_pointer p = hash_pointer q \<longleftrightarrow> take_bit 29 p = take_bit 29 q"
    by (simp add: hash_pointer_words low_29_bits)
next
  show "hash_combine l r = hash_combine l' r \<longleftrightarrow> l = l'" by (simp add: hash_combine_words)
  show "hash_pointer_32 a = hash_pointer_32 b \<longleftrightarrow> a = b"
    by (simp add: hash_pointer_32_def murmur2_def murmur_loop.simps murmur_tail_def loadword_bytes_of Let_def xor_shift_inject)
qed

text \<open>Two addresses half a gigabyte apart.\<close>

theorem hash_pointer_collisions_witness: "hash_pointer 0x20001000 = hash_pointer 0x1000"
  using hash_pointer_collisions [of "0x20001000" "0x1000"] by simp

lemma sign_magnitude_inject: "sign_of a = sign_of b \<Longrightarrow> magnitude_bits a = magnitude_bits b \<Longrightarrow> a = b"
  by (rule total_key_inject) (simp add: total_key_def)

lemma magnitude_zero [simp]: "magnitude p m = 0 \<longleftrightarrow> m = 0"
  using magnitude_eq_iff [of p m 0] by (simp add: magnitude_def)

lemma magnitude_bits_0 [simp]: "magnitude_bits (0 :: 'a::len word) = 0" "\<not> isnan p (0 :: 'a word)"
  by (simp_all add: magnitude_bits_def isnan_def)

lemma int_eq_minus_int [simp]: "int x = - int y \<longleftrightarrow> x = 0 \<and> y = 0"
  by linarith

lemma float_equal_iff:
  "float_equal p a b \<longleftrightarrow> \<not> isnan p a \<and> \<not> isnan p b \<and> (a = b \<or> magnitude_bits a = 0 \<and> magnitude_bits b = 0)"
  using sign_magnitude_inject [of a b] by (auto simp: float_equal_def float_value_def split: if_splits)

lemma float_equal_0: "float_equal p v 0 \<longleftrightarrow> magnitude_bits v = 0"
  by (auto simp: float_equal_iff isnan_def)

text \<open>C39: Floating point keys that compare equal, the two zeros included, have equal hashes, for \<^verbatim>\<open>float\<close>, \<^verbatim>\<open>double\<close>
  and \<^verbatim>\<open>long double\<close>; for \<^verbatim>\<open>float\<close> and \<^verbatim>\<open>double\<close>, numbers with equal hashes compare equal.\<close>

theorem hash_respects_float_equal:
  "(float_equal 23 a b \<longrightarrow> hash_float a = hash_float b) \<and> (float_equal 52 c d \<longrightarrow> hash_double c = hash_double d) \<and>
   (float_equal 112 e f \<longrightarrow> hash_long_double e = hash_long_double f) \<and>
   (\<not> isnan 23 a \<and> \<not> isnan 23 b \<and> hash_float a = hash_float b \<longrightarrow> float_equal 23 a b) \<and>
   (\<not> isnan 52 c \<and> \<not> isnan 52 d \<and> hash_double c = hash_double d \<longrightarrow> float_equal 52 c d)"
proof -
  have "hash_float a = hash_float b \<longleftrightarrow> a = b \<or> magnitude_bits a = 0 \<and> magnitude_bits b = 0"
    "hash_double c = hash_double d \<longleftrightarrow> c = d \<or> magnitude_bits c = 0 \<and> magnitude_bits d = 0"
    using ucast_32_64_inject [of a 0] ucast_32_64_inject [of b 0]
    by (auto simp: hash_float_def hash_double_def float_equal_0 scalar_hash_0_def scalar_hash_1_def)
  then show ?thesis by (auto simp: float_equal_iff hash_long_double_def float_equal_0)
qed

text \<open>The two zeros of \<^verbatim>\<open>double\<close>.\<close>

theorem hash_respects_float_equal_witness: "float_equal 52 (0x8000000000000000 :: u64) 0 \<and> hash_double 0x8000000000000000 = hash_double 0"
proof -
  have "float_equal 52 (0x8000000000000000 :: u64) 0" by (simp add: float_equal_0 magnitude_bits_def)
  then show ?thesis using hash_respects_float_equal [of _ _ "0x8000000000000000" 0] by blast
qed

end
