(* ===== verification/Simulation.thy ===== *)
theory Simulation
  imports Main "HOL-Library.Monad_Syntax"
begin

text \<open>
  The refinement contract that the containers share: a call on linked nodes returns and answers as the same call does
  on the value that the nodes represent, whenever the call is within the contract of that value.  It is stated
  once, with its consequence for whole sessions of calls, and each container interprets it.
\<close>

fun calls :: "('c \<Rightarrow> 's \<Rightarrow> ('a \<times> 's) option) \<Rightarrow> 'c list \<Rightarrow> 's \<Rightarrow> ('a list \<times> 's) option" where
  "calls run [] s = Some ([], s)"
| "calls run (c # cs) s = do { (a, s) \<leftarrow> run c s; (as, s) \<leftarrow> calls run cs s; Some (a # as, s) }"

locale simulated =
  fixes run :: "'c \<Rightarrow> 's \<Rightarrow> ('a \<times> 's) option"
    and spec :: "'c \<Rightarrow> 't \<Rightarrow> ('a \<times> 't) option"
    and rep :: "'s \<Rightarrow> 't \<Rightarrow> bool"
  assumes call: "rep s t \<Longrightarrow> spec c t = Some (a, t') \<Longrightarrow> \<exists>s'. run c s = Some (a, s') \<and> rep s' t'"
begin

lemma session: "rep s t \<Longrightarrow> calls spec cs t = Some (as, t') \<Longrightarrow> \<exists>s'. calls run cs s = Some (as, s') \<and> rep s' t'"
proof (induction cs arbitrary: s t as)
  case (Cons c cs)
  then obtain a u bs where u: "spec c t = Some (a, u)" "calls spec cs u = Some (bs, t')" "as = a # bs"
    by (auto split: Option.bind_splits)
  obtain v where v: "run c s = Some (a, v)" "rep v u" using call [OF Cons.prems(1) u(1)] by blast
  then show ?case using Cons.IH [OF v(2) u(2)] u(3) by auto
qed simp

end

end
