(* ===== verification/Linked_List.thy ===== *)
theory Linked_List
  imports Prelude Simulation
begin

text \<open>
  The doubly linked list (\<^verbatim>\<open>include/list\<close>).  Nodes are records in a store of addresses, 0 is the null pointer,
  and a read or write through a null or dangling pointer has no result.  The address that the allocator
  returns is a parameter of the operations that allocate; 0 is a failure.
\<close>

section \<open>Nodes\<close>

record 'e list_node =
  node_element :: 'e
  node_next :: addr
  node_prev :: addr

record 'e linked_list =
  list_nodes :: "addr \<rightharpoonup> 'e list_node"
  list_front :: addr
  list_back :: addr
  list_size :: nat

definition empty_list :: "'e linked_list" where
  "empty_list = \<lparr>list_nodes = Map.empty, list_front = 0, list_back = 0, list_size = 0\<rparr>"

definition list_node_at :: "'e linked_list \<Rightarrow> addr \<Rightarrow> 'e list_node option" where
  "list_node_at s p = (if p = 0 then None else list_nodes s p)"

definition put_node :: "addr \<Rightarrow> 'e list_node \<Rightarrow> 'e linked_list \<Rightarrow> 'e linked_list" where
  "put_node p n s = s\<lparr>list_nodes := (list_nodes s)(p \<mapsto> n)\<rparr>"

definition set_next :: "addr \<Rightarrow> addr \<Rightarrow> 'e linked_list \<Rightarrow> 'e linked_list option" where
  "set_next p q s = do { n \<leftarrow> list_node_at s p; Some (put_node p (n\<lparr>node_next := q\<rparr>) s) }"

definition set_prev :: "addr \<Rightarrow> addr \<Rightarrow> 'e linked_list \<Rightarrow> 'e linked_list option" where
  "set_prev p q s = do { n \<leftarrow> list_node_at s p; Some (put_node p (n\<lparr>node_prev := q\<rparr>) s) }"

text \<open>Destroying and deallocating a node ends its life; doing so twice has no result.\<close>

definition free_node :: "addr \<Rightarrow> 'e linked_list \<Rightarrow> 'e linked_list option" where
  "free_node p s = do { _ \<leftarrow> list_node_at s p; Some (s\<lparr>list_nodes := (list_nodes s)(p := None)\<rparr>) }"

section \<open>Operations\<close>

definition list_link_front :: "addr \<Rightarrow> 'e \<Rightarrow> 'e linked_list \<Rightarrow> 'e linked_list option" where
  "list_link_front new v s = do {
     let s = put_node new \<lparr>node_element = v, node_next = list_front s, node_prev = 0\<rparr> s;
     s \<leftarrow> if list_front s \<noteq> 0 then set_prev (list_front s) new s else Some s;
     let s = s\<lparr>list_front := new\<rparr>;
     let s = (if list_back s = 0 then s\<lparr>list_back := new\<rparr> else s);
     Some (s\<lparr>list_size := list_size s + 1\<rparr>)
   }"

definition list_push_front :: "addr \<Rightarrow> 'e \<Rightarrow> 'e linked_list \<Rightarrow> 'e linked_list option" where
  "list_push_front new v s = (if new = 0 then Some s else list_link_front new v s)"

definition list_emplace_front :: "addr \<Rightarrow> 'e \<Rightarrow> 'e linked_list \<Rightarrow> 'e linked_list option" where
  "list_emplace_front new v s = (if new = 0 then None else list_link_front new v s)"

definition list_link_back :: "addr \<Rightarrow> 'e \<Rightarrow> 'e linked_list \<Rightarrow> 'e linked_list option" where
  "list_link_back new v s = do {
     let s = put_node new \<lparr>node_element = v, node_next = 0, node_prev = list_back s\<rparr> s;
     s \<leftarrow> if list_back s \<noteq> 0
           then do {
             s \<leftarrow> set_next (list_back s) new s;
             b \<leftarrow> list_node_at s (list_back s);
             if node_prev b = 0 then set_next (list_front s) new s else Some s
           }
           else Some s;
     let s = s\<lparr>list_back := new\<rparr>;
     let s = (if list_front s = 0 then s\<lparr>list_front := new\<rparr> else s);
     Some (s\<lparr>list_size := list_size s + 1\<rparr>)
   }"

definition list_push_back :: "addr \<Rightarrow> 'e \<Rightarrow> 'e linked_list \<Rightarrow> 'e linked_list option" where
  "list_push_back new v s = (if new = 0 then Some s else list_link_back new v s)"

definition list_emplace_back :: "addr \<Rightarrow> 'e \<Rightarrow> 'e linked_list \<Rightarrow> 'e linked_list option" where
  "list_emplace_back new v s = (if new = 0 then None else list_link_back new v s)"

definition list_pop_front :: "'e linked_list \<Rightarrow> 'e linked_list option" where
  "list_pop_front s =
     (if list_front s = 0 then Some s
      else do {
        let node_to_delete = list_front s;
        n \<leftarrow> list_node_at s node_to_delete;
        let s = s\<lparr>list_front := node_next n\<rparr>;
        s \<leftarrow> if list_front s \<noteq> 0 then set_prev (list_front s) 0 s else Some (s\<lparr>list_back := 0\<rparr>);
        s \<leftarrow> free_node node_to_delete s;
        Some (s\<lparr>list_size := list_size s - 1\<rparr>)
      })"

definition list_pop_back :: "'e linked_list \<Rightarrow> 'e linked_list option" where
  "list_pop_back s =
     (if list_back s = 0 then Some s
      else do {
        let node_to_delete = list_back s;
        n \<leftarrow> list_node_at s node_to_delete;
        let s = s\<lparr>list_back := node_prev n\<rparr>;
        s \<leftarrow> if list_back s \<noteq> 0 then set_next (list_back s) 0 s else Some (s\<lparr>list_front := 0\<rparr>);
        s \<leftarrow> free_node node_to_delete s;
        Some (s\<lparr>list_size := list_size s - 1\<rparr>)
      })"

text \<open>The list is cleared without touching the links of the nodes still to come.\<close>

partial_function (option) clear_nodes :: "'e linked_list \<Rightarrow> 'e linked_list option" where
  "clear_nodes s =
     (if list_front s \<noteq> 0
      then do {
        n \<leftarrow> list_node_at s (list_front s);
        s' \<leftarrow> free_node (list_front s) s;
        clear_nodes (s'\<lparr>list_front := node_next n\<rparr>)
      }
      else Some s)"

definition list_clear :: "'e linked_list \<Rightarrow> 'e linked_list option" where
  "list_clear s = do { s \<leftarrow> clear_nodes s; Some (s\<lparr>list_back := 0, list_size := 0\<rparr>) }"

definition list_front_element :: "'e linked_list \<Rightarrow> 'e option" where
  "list_front_element s = map_option node_element (list_node_at s (list_front s))"

definition list_back_element :: "'e linked_list \<Rightarrow> 'e option" where
  "list_back_element s = map_option node_element (list_node_at s (list_back s))"

definition list_empty :: "'e linked_list \<Rightarrow> bool" where
  "list_empty s \<longleftrightarrow> list_front s = 0"

text \<open>An iterator is the address of its node, and 0 at the end.\<close>

definition list_begin :: "'e linked_list \<Rightarrow> addr" where "list_begin s = list_front s"
definition list_end :: "'e linked_list \<Rightarrow> addr" where "list_end s = 0"

definition list_next :: "'e linked_list \<Rightarrow> addr \<Rightarrow> addr option" where
  "list_next s p = (if p \<noteq> 0 then map_option node_next (list_node_at s p) else Some p)"

definition list_prev :: "'e linked_list \<Rightarrow> addr \<Rightarrow> addr option" where
  "list_prev s p =
     (if p \<noteq> 0 then map_option node_prev (list_node_at s p)
      else if list_back s \<noteq> 0 then Some (list_back s) else Some p)"

definition list_post_prev :: "'e linked_list \<Rightarrow> addr \<Rightarrow> addr option" where
  "list_post_prev s p =
     (if p \<noteq> 0 then map_option (\<lambda>n. if node_prev n \<noteq> 0 then node_prev n else p) (list_node_at s p)
      else if list_back s \<noteq> 0 then Some (list_back s) else Some p)"

definition list_get :: "'e linked_list \<Rightarrow> addr \<Rightarrow> 'e option" where
  "list_get s p = map_option node_element (list_node_at s p)"

definition list_move_front :: "addr \<Rightarrow> 'e linked_list \<Rightarrow> (addr \<times> 'e linked_list) option" where
  "list_move_front pos s =
     (if pos = list_end s then Some (list_begin s, s)
      else do {
        n \<leftarrow> list_node_at s pos;
        if node_prev n = 0 then Some (list_begin s, s)
        else do {
          s \<leftarrow> set_next (node_prev n) (node_next n) s;
          s \<leftarrow> if node_next n \<noteq> 0 then set_prev (node_next n) (node_prev n) s
                else Some (s\<lparr>list_back := node_prev n\<rparr>);
          s \<leftarrow> set_next pos (list_front s) s;
          s \<leftarrow> set_prev pos 0 s;
          s \<leftarrow> set_prev (list_front s) pos s;
          let s = s\<lparr>list_front := pos\<rparr>;
          Some (list_begin s, s)
        }
      })"

definition list_insert_after :: "addr \<Rightarrow> addr \<Rightarrow> 'e \<Rightarrow> 'e linked_list \<Rightarrow> (addr \<times> 'e linked_list) option" where
  "list_insert_after new pos v s =
     (if pos = 0 then None
      else if new = 0 then Some (list_end s, s)
      else do {
        n \<leftarrow> list_node_at s pos;
        let s = put_node new \<lparr>node_element = v, node_next = node_next n, node_prev = pos\<rparr> s;
        s \<leftarrow> set_next pos new s;
        s \<leftarrow> if node_next n \<noteq> 0 then set_prev (node_next n) new s else Some (s\<lparr>list_back := new\<rparr>);
        Some (new, s\<lparr>list_size := list_size s + 1\<rparr>)
      })"

definition list_erase :: "addr \<Rightarrow> 'e linked_list \<Rightarrow> 'e linked_list option" where
  "list_erase pos s =
     (if pos = 0 then None
      else do {
        n \<leftarrow> list_node_at s pos;
        s \<leftarrow> if node_prev n \<noteq> 0 then set_next (node_prev n) (node_next n) s else Some (s\<lparr>list_front := node_next n\<rparr>);
        s \<leftarrow> if node_next n \<noteq> 0 then set_prev (node_next n) (node_prev n) s else Some (s\<lparr>list_back := node_prev n\<rparr>);
        s \<leftarrow> free_node pos s;
        Some (s\<lparr>list_size := list_size s - 1\<rparr>)
      })"

definition list_erase_after :: "addr \<Rightarrow> 'e linked_list \<Rightarrow> 'e linked_list option" where
  "list_erase_after pos s =
     (if pos = 0 then None
      else do {
        n \<leftarrow> list_node_at s pos;
        if node_next n = 0 then Some s
        else do {
          let node_to_delete = node_next n;
          m \<leftarrow> list_node_at s node_to_delete;
          s \<leftarrow> set_next pos (node_next m) s;
          s \<leftarrow> if node_next m \<noteq> 0 then set_prev (node_next m) pos s else Some (s\<lparr>list_back := pos\<rparr>);
          s \<leftarrow> free_node node_to_delete s;
          Some (s\<lparr>list_size := list_size s - 1\<rparr>)
        }
      })"

section \<open>Representation\<close>

text \<open>A list represents the sequence of its nodes' addresses and elements.\<close>

definition first_of :: "(addr \<times> 'e) list \<Rightarrow> addr \<Rightarrow> addr" where
  "first_of xs q = (case xs of [] \<Rightarrow> q | x # _ \<Rightarrow> fst x)"

definition last_of :: "addr \<Rightarrow> (addr \<times> 'e) list \<Rightarrow> addr" where
  "last_of p xs = (if xs = [] then p else fst (last xs))"

fun chain :: "(addr \<rightharpoonup> 'e list_node) \<Rightarrow> addr \<Rightarrow> (addr \<times> 'e) list \<Rightarrow> addr \<Rightarrow> bool" where
  "chain h p [] q \<longleftrightarrow> True"
| "chain h p ((a, e) # xs) q \<longleftrightarrow>
     a \<noteq> 0 \<and> h a = Some \<lparr>node_element = e, node_next = first_of xs q, node_prev = p\<rparr> \<and> chain h a xs q"

definition list_rep :: "'e linked_list \<Rightarrow> (addr \<times> 'e) list \<Rightarrow> bool" where
  "list_rep s xs \<longleftrightarrow> chain (list_nodes s) 0 xs 0 \<and> distinct (map fst xs) \<and> dom (list_nodes s) = set (map fst xs) \<and>
     list_front s = first_of xs 0 \<and> list_back s = last_of 0 xs \<and> list_size s = length xs"

lemma first_of_simps [simp]: "first_of [] q = q" "first_of (x # xs) q = fst x" "first_of (xs @ ys) q = first_of xs (first_of ys q)"
  by (auto simp: first_of_def split: list.splits)

lemma last_of_simps [simp]: "last_of p [] = p" "last_of p (x # xs) = last_of (fst x) xs" "last_of p (xs @ ys) = last_of (last_of p xs) ys"
  by (auto simp: last_of_def)

lemma chain_Cons [simp]:
  "chain h p (x # xs) q \<longleftrightarrow>
     fst x \<noteq> 0 \<and> h (fst x) = Some \<lparr>node_element = snd x, node_next = first_of xs q, node_prev = p\<rparr> \<and> chain h (fst x) xs q"
  by (cases x) simp

declare chain.simps(2) [simp del]

lemma chain_append [simp]: "chain h p (xs @ ys) q \<longleftrightarrow> chain h p xs (first_of ys q) \<and> chain h (last_of p xs) ys q"
  by (induction h p xs q rule: chain.induct) auto

lemma chain_frame: "(\<And>a. a \<in> set (map fst xs) \<Longrightarrow> h' a = h a) \<Longrightarrow> chain h' p xs q = chain h p xs q"
  by (induction h p xs q rule: chain.induct) auto

lemma chain_upd [simp]: "a \<notin> fst ` set xs \<Longrightarrow> chain (h(a := n)) p xs q = chain h p xs q"
  by (rule chain_frame) auto

lemma chain_del [simp]:
  "a \<notin> fst ` set xs \<Longrightarrow> chain (\<lambda>b. if b = a then None else h b) p xs q = chain h p xs q"
  by (rule chain_frame) auto

lemma dom_del [simp]: "dom (\<lambda>b. if b = a then None else h b) = dom h - {a}"
  by (auto simp: dom_def)

lemma list_chain_nonzero: "chain h p xs q \<Longrightarrow> 0 \<notin> fst ` set xs"
  by (induction h p xs q rule: chain.induct) auto

lemma chain_not_0: "chain h p xs q \<Longrightarrow> (a, e) \<in> set xs \<Longrightarrow> 0 < a"
  using list_chain_nonzero [of h p xs q] by (metis fst_conv gr0I image_eqI)

lemma last_of_0: "chain h p xs q \<Longrightarrow> last_of p xs = 0 \<longleftrightarrow> xs = [] \<and> p = 0"
  by (induction h p xs q rule: chain.induct) auto

lemma first_of_0: "chain h p xs q \<Longrightarrow> first_of xs 0 = 0 \<longleftrightarrow> xs = []"
  by (cases xs) auto

lemma list_rep_empty: "list_rep empty_list []"
  by (simp add: list_rep_def empty_list_def)

lemmas list_ops = list_node_at_def put_node_def set_next_def set_prev_def free_node_def

lemma link_front_rep:
  assumes "list_rep s xs" "new \<noteq> 0" "new \<notin> fst ` set xs"
  shows "\<exists>s'. list_link_front new v s = Some s' \<and> list_rep s' ((new, v) # xs)"
  using assms by (cases xs) (auto simp: list_rep_def list_link_front_def list_ops Let_def last_of_0)

lemma link_back_rep:
  assumes "list_rep s xs" "new \<noteq> 0" "new \<notin> fst ` set xs"
  shows "\<exists>s'. list_link_back new v s = Some s' \<and> list_rep s' (xs @ [(new, v)])"
  using assms
proof (cases xs rule: rev_cases)
  case (snoc ys y)
  then show ?thesis using assms
    by (cases ys; clarsimp simp: list_rep_def list_link_back_def list_ops Let_def last_of_0 insert_commute)
qed (use assms in \<open>simp add: list_rep_def list_link_back_def list_ops Let_def\<close>)

lemma pop_front_rep:
  assumes "list_rep s (x # xs)"
  shows "\<exists>s'. list_pop_front s = Some s' \<and> list_rep s' xs"
  using assms
  by (cases xs; clarsimp simp: list_rep_def list_pop_front_def list_ops Let_def insert_Diff_if simp del: dom_eq_empty_conv)

lemma pop_back_rep:
  assumes "list_rep s (xs @ [x])"
  shows "\<exists>s'. list_pop_back s = Some s' \<and> list_rep s' xs"
  using assms
  by (cases xs rule: rev_cases; clarsimp simp: list_rep_def list_pop_back_def list_ops Let_def insert_Diff_if simp del: dom_eq_empty_conv)

lemma pop_empty: "list_rep s [] \<Longrightarrow> list_pop_front s = Some s" "list_rep s [] \<Longrightarrow> list_pop_back s = Some s"
  by (simp_all add: list_rep_def list_pop_front_def list_pop_back_def)

lemma erase_rep:
  assumes "list_rep s (us @ (a, e) # vs)"
  shows "\<exists>s'. list_erase a s = Some s' \<and> list_rep s' (us @ vs)"
  using assms
  by (cases us rule: rev_cases; cases vs; clarsimp simp: list_rep_def list_erase_def list_ops Let_def insert_Diff_if insert_commute simp del: dom_eq_empty_conv)

lemma move_front_rep:
  assumes "list_rep s (us @ (a, e) # vs)"
  shows "\<exists>s'. list_move_front a s = Some (a, s') \<and> list_rep s' ((a, e) # us @ vs)"
proof (cases us)
  case (Cons x xs)
  then show ?thesis using assms
    by (cases xs rule: rev_cases; cases vs)
      (clarsimp simp: list_rep_def list_move_front_def list_end_def list_begin_def list_ops Let_def insert_commute image_Un)+
qed (use assms in \<open>clarsimp simp: list_rep_def list_move_front_def list_end_def list_begin_def list_ops\<close>)

lemma insert_after_rep:
  assumes "list_rep s (us @ (a, e) # vs)" "new \<noteq> 0" "new \<notin> fst ` set (us @ (a, e) # vs)"
  shows "\<exists>s'. list_insert_after new a v s = Some (new, s') \<and> list_rep s' (us @ (a, e) # (new, v) # vs)"
  using assms
  by (cases vs; clarsimp simp: list_rep_def list_insert_after_def list_ops Let_def image_Un insert_commute)

lemma erase_after_rep:
  assumes "list_rep s (us @ (a, e) # x # vs)"
  shows "\<exists>s'. list_erase_after a s = Some s' \<and> list_rep s' (us @ (a, e) # vs)"
  using assms
  by (cases vs; clarsimp simp: list_rep_def list_erase_after_def list_ops Let_def insert_Diff_if insert_commute)

lemma clear_rep: "list_rep s xs \<Longrightarrow> list_clear s = Some empty_list"
proof -
  have clear: "\<exists>s'. clear_nodes s = Some s' \<and> list_front s' = 0 \<and> list_nodes s' = Map.empty"
    if "list_front s = first_of xs 0" "chain (list_nodes s) p xs 0" "distinct (map fst xs)" "dom (list_nodes s) = set (map fst xs)"
    for s :: "'a linked_list" and p xs
    using that
  proof (induction xs arbitrary: s p)
    case (Cons x xs)
    let ?s = "s\<lparr>list_nodes := (list_nodes s)(fst x := None), list_front := first_of xs 0\<rparr>"
    have "\<exists>s'. clear_nodes ?s = Some s' \<and> list_front s' = 0 \<and> list_nodes s' = Map.empty"
      using Cons.IH [of ?s "fst x"] Cons(3-) by simp
    moreover have "clear_nodes s = clear_nodes ?s"
      using Cons(2-) by (simp add: clear_nodes.simps [of s] list_ops)
    ultimately show ?case by simp
  qed (simp add: clear_nodes.simps)
  show "list_clear s = Some empty_list" if "list_rep s xs"
    using clear [of s xs 0] that by (auto simp: list_rep_def list_clear_def empty_list_def)
qed

text \<open>Iterators.\<close>

lemma next_rep: "list_rep s (us @ (a, e) # vs) \<Longrightarrow> list_next s a = Some (first_of vs 0) \<and> list_get s a = Some e"
  by (simp add: list_rep_def list_next_def list_get_def list_node_at_def)

lemma prev_rep: "list_rep s (us @ (a, e) # vs) \<Longrightarrow> list_prev s a = Some (last_of 0 us)"
  by (simp add: list_rep_def list_prev_def list_node_at_def)

lemma prev_end_rep: "list_rep s xs \<Longrightarrow> list_prev s (list_end s) = Some (last_of 0 xs)"
  by (simp add: list_rep_def list_prev_def list_end_def)

lemma observers_rep:
  assumes "list_rep s xs"
  shows "list_empty s \<longleftrightarrow> xs = []" "list_size s = length xs" "list_begin s = first_of xs 0"
  using assms by (auto simp: list_rep_def list_empty_def list_begin_def first_of_0)

lemma back_element_rep: "list_rep s (xs @ [(a, e)]) \<Longrightarrow> list_back_element s = Some e"
  by (simp add: list_rep_def list_back_element_def list_node_at_def)

lemma front_element_rep: "list_rep s ((a, e) # xs) \<Longrightarrow> list_front_element s = Some e"
  by (simp add: list_rep_def list_front_element_def list_node_at_def)

section \<open>Sessions\<close>

text \<open>Calls on a list, with the addresses that the allocator returns and with iterators, the iterator that the
  call returns, if any, and what each does to the sequence.  \<^term>\<open>None\<close> is a call outside the contract: an
  iterator to no element of the list, an address that is in use, or a failed allocation where the code traps.\<close>

datatype 'e list_call =
  Push_Front 'e addr | Emplace_Front 'e addr | Push_Back 'e addr | Emplace_Back 'e addr
  | Pop_Front | Pop_Back | Move_Front addr | Insert_After addr 'e addr | Erase_At addr | Erase_After addr | Clear_List

definition no_iterator :: "'s option \<Rightarrow> (addr option \<times> 's) option" where
  "no_iterator r = map_option (Pair None) r"

definition an_iterator :: "(addr \<times> 's) option \<Rightarrow> (addr option \<times> 's) option" where
  "an_iterator r = map_option (apfst Some) r"

lemmas answers = no_iterator_def an_iterator_def

fun list_run :: "'e list_call \<Rightarrow> 'e linked_list \<Rightarrow> (addr option \<times> 'e linked_list) option" where
  "list_run (Push_Front v new) s = no_iterator (list_push_front new v s)"
| "list_run (Emplace_Front v new) s = no_iterator (list_emplace_front new v s)"
| "list_run (Push_Back v new) s = no_iterator (list_push_back new v s)"
| "list_run (Emplace_Back v new) s = no_iterator (list_emplace_back new v s)"
| "list_run Pop_Front s = no_iterator (list_pop_front s)"
| "list_run Pop_Back s = no_iterator (list_pop_back s)"
| "list_run (Move_Front p) s = an_iterator (list_move_front p s)"
| "list_run (Insert_After p v new) s = an_iterator (list_insert_after new p v s)"
| "list_run (Erase_At p) s = no_iterator (list_erase p s)"
| "list_run (Erase_After p) s = no_iterator (list_erase_after p s)"
| "list_run Clear_List s = no_iterator (list_clear s)"

definition fresh :: "addr \<Rightarrow> (addr \<times> 'e) list \<Rightarrow> bool" where
  "fresh new xs \<longleftrightarrow> new \<notin> fst ` set xs"

definition split_at :: "addr \<Rightarrow> (addr \<times> 'e) list \<Rightarrow> ((addr \<times> 'e) list \<times> (addr \<times> 'e) \<times> (addr \<times> 'e) list) option" where
  "split_at p xs = List.extract (\<lambda>x. fst x = p) xs"

fun list_spec :: "'e list_call \<Rightarrow> (addr \<times> 'e) list \<Rightarrow> (addr option \<times> (addr \<times> 'e) list) option" where
  "list_spec (Push_Front v new) xs = (if new = 0 then Some (None, xs) else if fresh new xs then Some (None, (new, v) # xs) else None)"
| "list_spec (Emplace_Front v new) xs = (if new \<noteq> 0 \<and> fresh new xs then Some (None, (new, v) # xs) else None)"
| "list_spec (Push_Back v new) xs = (if new = 0 then Some (None, xs) else if fresh new xs then Some (None, xs @ [(new, v)]) else None)"
| "list_spec (Emplace_Back v new) xs = (if new \<noteq> 0 \<and> fresh new xs then Some (None, xs @ [(new, v)]) else None)"
| "list_spec Pop_Front xs = Some (None, tl xs)"
| "list_spec Pop_Back xs = Some (None, butlast xs)"
| "list_spec (Move_Front p) xs =
     (if p = 0 then Some (Some (first_of xs 0), xs) else map_option (\<lambda>(us, x, vs). (Some p, x # us @ vs)) (split_at p xs))"
| "list_spec (Insert_After p v new) xs = do {
     (us, x, vs) \<leftarrow> split_at p xs;
     if new = 0 then Some (Some 0, xs) else if fresh new xs then Some (Some new, us @ x # (new, v) # vs) else None
   }"
| "list_spec (Erase_At p) xs = map_option (\<lambda>(us, x, vs). (None, us @ vs)) (split_at p xs)"
| "list_spec (Erase_After p) xs = map_option (\<lambda>(us, x, vs). (None, us @ x # tl vs)) (split_at p xs)"
| "list_spec Clear_List xs = Some (None, [])"

lemma split_atE:
  assumes "split_at p xs = Some (us, x, vs)"
  obtains "xs = us @ (p, snd x) # vs" "fst x = p"
  using assms extract_SomeE [of "\<lambda>x. fst x = p" xs us x vs] by (cases x) (auto simp: split_at_def)

lemma rep_nonzero: "list_rep s (us @ (p, e) # vs) \<Longrightarrow> p \<noteq> 0"
  by (simp add: list_rep_def)

lemma erase_after_last: "list_rep s (us @ [(a, e)]) \<Longrightarrow> list_erase_after a s = Some s"
  by (simp add: list_rep_def list_erase_after_def list_node_at_def)

lemma list_run_spec:
  assumes "list_rep s xs" "list_spec c xs = Some (r, ys)"
  shows "\<exists>s'. list_run c s = Some (r, s') \<and> list_rep s' ys"
proof (cases c)
  case (Erase_After p)
  then obtain us x vs where split: "split_at p xs = Some (us, x, vs)" "r = None" "ys = us @ x # tl vs" using assms(2) by auto
  then show ?thesis using assms(1) Erase_After erase_after_rep [of s us p "snd x"] erase_after_last [of s us p "snd x"]
    by (cases vs) (auto simp: answers elim!: split_atE)
next
  case Pop_Front
  then show ?thesis using assms pop_front_rep [of s] pop_empty [of s] by (cases xs) (auto simp: answers)
next
  case Pop_Back
  then show ?thesis using assms pop_back_rep [of s] pop_empty [of s] by (cases xs rule: rev_cases) (auto simp: answers)
next
  case (Move_Front p)
  then show ?thesis using assms observers_rep(3) [OF assms(1)]
    by (cases "p = 0") (simp add: list_move_front_def list_end_def answers, auto simp: answers elim!: split_atE dest: move_front_rep)
next
  case (Insert_After p v new)
  then obtain us x vs where split: "split_at p xs = Some (us, x, vs)"
    and ys: "(if new = 0 then Some (Some 0, xs) else if fresh new xs then Some (Some new, us @ x # (new, v) # vs) else None) = Some (r, ys)"
    using assms(2) by (auto simp: Option.bind_eq_Some_conv)
  have xs: "xs = us @ (p, snd x) # vs" "x = (p, snd x)" using split by (auto elim!: split_atE)
  show ?thesis
  proof (cases "new = 0")
    case True
    then show ?thesis using Insert_After ys assms(1) rep_nonzero [of s us p "snd x" vs] xs(1)
      by (simp add: list_insert_after_def list_end_def answers)
  next
    case False
    then have "new \<notin> fst ` set xs" "r = Some new" "ys = us @ (p, snd x) # (new, v) # vs"
      using ys xs(2) by (auto simp: fresh_def split: if_splits)
    then show ?thesis using Insert_After insert_after_rep [of s us p "snd x" vs new v] assms(1) xs(1) False by (fastforce simp: answers)
  qed
next
  case (Erase_At p)
  then show ?thesis using assms by (auto simp: answers elim!: split_atE dest: erase_rep)
qed (use assms in \<open>auto simp: list_push_front_def list_emplace_front_def list_push_back_def list_emplace_back_def fresh_def answers
    list_rep_empty clear_rep intro: link_front_rep link_back_rep split: if_splits\<close>)

interpretation linked: simulated list_run list_spec list_rep
  by unfold_locales (rule list_run_spec)

text \<open>Walking a list with its iterators, from the front and from the end.\<close>

partial_function (option) list_walk :: "'e linked_list \<Rightarrow> addr \<Rightarrow> 'e list option" where
  "list_walk s p =
     (if p = list_end s then Some []
      else do { e \<leftarrow> list_get s p; q \<leftarrow> list_next s p; es \<leftarrow> list_walk s q; Some (e # es) })"

partial_function (option) list_walk_back :: "'e linked_list \<Rightarrow> addr \<Rightarrow> 'e list option" where
  "list_walk_back s p = do {
     q \<leftarrow> list_prev s p;
     if q = list_end s then Some []
     else do { e \<leftarrow> list_get s q; es \<leftarrow> list_walk_back s q; Some (e # es) }
   }"

lemma walk_rep: "list_rep s (us @ vs) \<Longrightarrow> list_walk s (first_of vs 0) = Some (map snd vs)"
proof (induction vs arbitrary: us)
  case (Cons x vs)
  then show ?case
    using Cons.IH [of "us @ [x]"] next_rep [of s us "fst x" "snd x" vs] rep_nonzero [of s us "fst x" "snd x" vs]
    by (subst list_walk.simps) (simp add: list_end_def)
qed (simp add: list_walk.simps list_end_def)

lemma walk_back_rep: "list_rep s (us @ vs) \<Longrightarrow> list_walk_back s (first_of vs 0) = Some (map snd (rev us))"
proof (induction us arbitrary: vs rule: rev_induct)
  case Nil
  then show ?case
    using prev_end_rep [of s "[]"] prev_rep [of s "[]" "fst (hd vs)" "snd (hd vs)" "tl vs"]
    by (subst list_walk_back.simps) (cases vs; simp add: list_end_def)
next
  case (snoc x us)
  have "list_prev s (first_of vs 0) = Some (fst x)"
    using snoc(2) prev_end_rep [of s "us @ [x]"] prev_rep [of s "us @ [x]" "fst (hd vs)" "snd (hd vs)" "tl vs"]
    by (cases vs) (simp_all add: list_end_def)
  then show ?case
    using snoc.IH [of "x # vs"] snoc(2) next_rep [of s us "fst x" "snd x" vs] rep_nonzero [of s us "fst x" "snd x" vs]
    by (subst list_walk_back.simps) (simp add: list_end_def)
qed

section \<open>Properties\<close>

text \<open>C10: Every session of calls on an empty list within their contract returns, and leaves exactly the nodes of the
  sequence that the same calls make of an empty sequence: elements stay at their addresses, the iterators returned
  are those of the sequence, nothing is leaked or freed twice, the size is the length, and iteration
  visits the elements in order, forward and backward.\<close>

theorem list_session_refines:
  assumes "calls list_spec cs [] = Some (rs, xs)"
  shows "\<exists>s. calls list_run cs empty_list = Some (rs, s) \<and> list_size s = length xs \<and> (list_empty s \<longleftrightarrow> xs = []) \<and>
    dom (list_nodes s) = fst ` set xs \<and> list_walk s (list_begin s) = Some (map snd xs) \<and>
    list_walk_back s (list_end s) = Some (rev (map snd xs))"
proof -
  obtain s where s: "calls list_run cs empty_list = Some (rs, s)" "list_rep s xs"
    using linked.session [OF list_rep_empty assms] by blast
  have "dom (list_nodes s) = fst ` set xs" using s(2) by (simp add: list_rep_def)
  then show ?thesis using s observers_rep [OF s(2)] walk_rep [of s "[]" xs] walk_back_rep [of s xs "[]"]
    by (simp add: list_end_def rev_map)
qed

text \<open>Elements added at both ends and in the middle, one moved to the front and one erased.\<close>

theorem list_session_refines_witness:
  "\<exists>s. calls list_run [Push_Front 1 16, Push_Back 2 32, Insert_After 16 3 48, Move_Front 32, Erase_At 16] empty_list =
       Some ([None, None, Some 48, Some 32, None], s) \<and>
     list_walk s (list_begin s) = Some [2, 3 :: nat]"
  using list_session_refines [of "[Push_Front 1 16, Push_Back 2 32, Insert_After 16 3 48, Move_Front 32, Erase_At 16]"
      "[None, None, Some 48, Some 32, None]" "[(32, 2), (48, 3 :: nat)]"]
  by (auto simp: fresh_def split_at_def extract_Cons_code)

end
