(* ===== verification/Avl_Tree.thy ===== *)
theory Avl_Tree
  imports Prelude "HOL-Library.Monad_Syntax"
begin

text \<open>
  The AVL tree (\<^verbatim>\<open>include/avl_tree\<close>; \<^verbatim>\<open>include/map\<close> is another name for it) as linked nodes in a store of addresses.
  0 is the null pointer; following a null or dangling pointer, freeing a node twice and a loop that does
  not return have no result.  The address that the allocator returns is a parameter of the insertion, 0 for a failure.
\<close>

section \<open>Nodes\<close>

record ('k, 'v) avl_node =
  avl_key :: 'k
  avl_value :: 'v
  avl_left :: addr
  avl_left_reverse :: addr
  avl_right :: addr
  avl_right_reverse :: addr
  avl_depth :: nat

type_synonym ('k, 'v) store = "addr \<rightharpoonup> ('k, 'v) avl_node"

record ('k, 'v) avl_tree =
  avl_nodes :: "('k, 'v) store"
  avl_root :: addr
  avl_size :: nat

definition avl_tree :: "('k, 'v) avl_tree" where
  "avl_tree = \<lparr>avl_nodes = Map.empty, avl_root = 0, avl_size = 0\<rparr>"

definition avl_node_new :: "'k \<Rightarrow> 'v \<Rightarrow> ('k, 'v) avl_node" where
  "avl_node_new k v = \<lparr>avl_key = k, avl_value = v, avl_left = 0, avl_left_reverse = 0, avl_right = 0, avl_right_reverse = 0, avl_depth = 1\<rparr>"

definition node_at :: "('k, 'v) store \<Rightarrow> addr \<Rightarrow> ('k, 'v) avl_node option" where
  "node_at h p = (if p = 0 then None else h p)"

definition modify :: "('k, 'v) store \<Rightarrow> addr \<Rightarrow> (('k, 'v) avl_node \<Rightarrow> ('k, 'v) avl_node) \<Rightarrow> ('k, 'v) store option" where
  "modify h p f = map_option (\<lambda>n. h(p \<mapsto> f n)) (node_at h p)"

definition set_left :: "('k, 'v) store \<Rightarrow> addr \<Rightarrow> addr \<Rightarrow> ('k, 'v) store option" where
  "set_left h this left =
     (if left \<noteq> 0
      then do {
        h \<leftarrow> modify h this (avl_left_update (\<lambda>_. left));
        h \<leftarrow> modify h left (avl_left_reverse_update (\<lambda>_. this));
        modify h left (avl_right_reverse_update (\<lambda>_. 0))
      }
      else modify h this (avl_left_update (\<lambda>_. 0)))"

definition set_right :: "('k, 'v) store \<Rightarrow> addr \<Rightarrow> addr \<Rightarrow> ('k, 'v) store option" where
  "set_right h this right =
     (if right \<noteq> 0
      then do {
        h \<leftarrow> modify h this (avl_right_update (\<lambda>_. right));
        h \<leftarrow> modify h right (avl_right_reverse_update (\<lambda>_. this));
        modify h right (avl_left_reverse_update (\<lambda>_. 0))
      }
      else modify h this (avl_right_update (\<lambda>_. 0)))"

section \<open>Balance\<close>

definition depth :: "('k, 'v) store \<Rightarrow> addr \<Rightarrow> nat option" where
  "depth h p = (if p = 0 then Some 0 else map_option avl_depth (node_at h p))"

text \<open>The difference of two \<^verbatim>\<open>size_t\<close>, converted to \<^verbatim>\<open>int\<close>.\<close>

definition int_difference :: "nat \<Rightarrow> nat \<Rightarrow> int" where
  "int_difference a b = sint (ucast (of_nat a - of_nat b :: u64) :: u32)"

definition get_balance :: "('k, 'v) store \<Rightarrow> addr \<Rightarrow> int option" where
  "get_balance h p =
     (if p = 0 then Some 0
      else do {
        n \<leftarrow> node_at h p;
        l \<leftarrow> depth h (avl_left n);
        r \<leftarrow> depth h (avl_right n);
        Some (int_difference l r)
      })"

definition update_depth :: "('k, 'v) store \<Rightarrow> addr \<Rightarrow> ('k, 'v) store option" where
  "update_depth h p = do {
     n \<leftarrow> node_at h p;
     l \<leftarrow> depth h (avl_left n);
     r \<leftarrow> depth h (avl_right n);
     modify h p (avl_depth_update (\<lambda>_. max l r + 1))
   }"

definition right_rotate :: "('k, 'v) store \<Rightarrow> addr \<Rightarrow> (addr \<times> ('k, 'v) store) option" where
  "right_rotate h node = do {
     n \<leftarrow> node_at h node;
     let node_left = avl_left n;
     l \<leftarrow> node_at h node_left;
     let node_left_right = avl_right l;
     h \<leftarrow> set_right h node_left node;
     h \<leftarrow> set_left h node node_left_right;
     h \<leftarrow> update_depth h node;
     h \<leftarrow> update_depth h node_left;
     Some (node_left, h)
   }"

definition left_rotate :: "('k, 'v) store \<Rightarrow> addr \<Rightarrow> (addr \<times> ('k, 'v) store) option" where
  "left_rotate h node = do {
     n \<leftarrow> node_at h node;
     let node_right = avl_right n;
     r \<leftarrow> node_at h node_right;
     let node_right_left = avl_left r;
     h \<leftarrow> set_left h node_right node;
     h \<leftarrow> set_right h node node_right_left;
     h \<leftarrow> update_depth h node;
     h \<leftarrow> update_depth h node_right;
     Some (node_right, h)
   }"

definition left_right_rotate :: "('k, 'v) store \<Rightarrow> addr \<Rightarrow> (addr \<times> ('k, 'v) store) option" where
  "left_right_rotate h p = do {
     n \<leftarrow> node_at h p;
     (l, h) \<leftarrow> left_rotate h (avl_left n);
     h \<leftarrow> set_left h p l;
     right_rotate h p
   }"

definition right_left_rotate :: "('k, 'v) store \<Rightarrow> addr \<Rightarrow> (addr \<times> ('k, 'v) store) option" where
  "right_left_rotate h p = do {
     n \<leftarrow> node_at h p;
     (r, h) \<leftarrow> right_rotate h (avl_right n);
     h \<leftarrow> set_right h p r;
     left_rotate h p
   }"

definition key_at :: "('k, 'v) store \<Rightarrow> addr \<Rightarrow> 'k option" where
  "key_at h p = map_option avl_key (node_at h p)"

text \<open>A condition \<^verbatim>\<open>a && b\<close> whose second operand follows a pointer.\<close>

definition and_then :: "bool \<Rightarrow> bool option \<Rightarrow> bool option" where
  "and_then a b = (if a then b else Some False)"

definition rebalance_after_insert :: "('k::linorder, 'v) store \<Rightarrow> addr \<Rightarrow> 'k \<Rightarrow> (addr \<times> ('k, 'v) store) option" where
  "rebalance_after_insert h p key = do {
     h \<leftarrow> update_depth h p;
     balance \<leftarrow> get_balance h p;
     n \<leftarrow> node_at h p;
     ll \<leftarrow> and_then (balance > 1) (map_option (\<lambda>k. key < k) (key_at h (avl_left n)));
     if ll then right_rotate h p
     else do {
       rr \<leftarrow> and_then (balance < - 1) (map_option (\<lambda>k. key > k) (key_at h (avl_right n)));
       if rr then left_rotate h p
       else do {
         lr \<leftarrow> and_then (balance > 1) (map_option (\<lambda>k. key > k) (key_at h (avl_left n)));
         if lr then left_right_rotate h p
         else do {
           rl \<leftarrow> and_then (balance < - 1) (map_option (\<lambda>k. key < k) (key_at h (avl_right n)));
           if rl then right_left_rotate h p else Some (p, h)
         }
       }
     }
   }"

definition rebalance_after_erase :: "('k, 'v) store \<Rightarrow> addr \<Rightarrow> (addr \<times> ('k, 'v) store) option" where
  "rebalance_after_erase h p = do {
     h \<leftarrow> update_depth h p;
     balance \<leftarrow> get_balance h p;
     n \<leftarrow> node_at h p;
     ll \<leftarrow> and_then (balance > 1) (map_option (\<lambda>b. b \<ge> 0) (get_balance h (avl_left n)));
     if ll then right_rotate h p
     else do {
       rr \<leftarrow> and_then (balance < - 1) (map_option (\<lambda>b. b \<le> 0) (get_balance h (avl_right n)));
       if rr then left_rotate h p
       else do {
         lr \<leftarrow> and_then (balance > 1) (map_option (\<lambda>b. b < 0) (get_balance h (avl_left n)));
         if lr then left_right_rotate h p
         else do {
           rl \<leftarrow> and_then (balance < - 1) (map_option (\<lambda>b. b > 0) (get_balance h (avl_right n)));
           if rl then right_left_rotate h p else Some (p, h)
         }
       }
     }
   }"

section \<open>Search, insertion and erasure\<close>

partial_function (option) find_front :: "('k, 'v) store \<Rightarrow> addr \<Rightarrow> addr option" where
  "find_front h p =
     (if p = 0 then Some 0
      else do { n \<leftarrow> node_at h p; if avl_left n \<noteq> 0 then find_front h (avl_left n) else Some p })"

partial_function (option) find_back :: "('k, 'v) store \<Rightarrow> addr \<Rightarrow> addr option" where
  "find_back h p =
     (if p = 0 then Some 0
      else do { n \<leftarrow> node_at h p; if avl_right n \<noteq> 0 then find_back h (avl_right n) else Some p })"

partial_function (option) find_node :: "('k::linorder, 'v) store \<Rightarrow> addr \<Rightarrow> 'k \<Rightarrow> addr option" where
  "find_node h current key_to_find =
     (if current \<noteq> 0
      then do {
        n \<leftarrow> node_at h current;
        if key_to_find = avl_key n then Some current
        else if key_to_find > avl_key n then find_node h (avl_right n) key_to_find
        else find_node h (avl_left n) key_to_find
      }
      else Some 0)"

text \<open>The recursions thread the store and the number of elements.\<close>

partial_function (option) insert_recursive ::
  "addr \<Rightarrow> ('k::linorder, 'v) store \<Rightarrow> nat \<Rightarrow> addr \<Rightarrow> 'k \<Rightarrow> 'v \<Rightarrow> (addr \<times> ('k, 'v) store \<times> nat) option" where
  "insert_recursive new h sz p key val =
     (if p = 0
      then if new = 0 then Some (0, h, sz) else Some (new, h(new \<mapsto> avl_node_new key val), sz + 1)
      else do {
        n \<leftarrow> node_at h p;
        if key < avl_key n
        then do {
          (l, h, sz) \<leftarrow> insert_recursive new h sz (avl_left n) key val;
          h \<leftarrow> set_left h p l;
          (q, h) \<leftarrow> rebalance_after_insert h p key;
          Some (q, h, sz)
        }
        else if key > avl_key n
        then do {
          (r, h, sz) \<leftarrow> insert_recursive new h sz (avl_right n) key val;
          h \<leftarrow> set_right h p r;
          (q, h) \<leftarrow> rebalance_after_insert h p key;
          Some (q, h, sz)
        }
        else Some (p, h, sz)
      })"

text \<open>\<^verbatim>\<open>unlink_front\<close> returns the remainder of the subtree and the node unlinked.\<close>

partial_function (option) unlink_front :: "('k, 'v) store \<Rightarrow> addr \<Rightarrow> (addr \<times> addr \<times> ('k, 'v) store) option" where
  "unlink_front h p = do {
     n \<leftarrow> node_at h p;
     if avl_left n = 0 then Some (avl_right n, p, h)
     else do {
       (l, front, h) \<leftarrow> unlink_front h (avl_left n);
       h \<leftarrow> set_left h p l;
       (q, h) \<leftarrow> rebalance_after_erase h p;
       Some (q, front, h)
     }
   }"

definition free_avl_node :: "('k, 'v) store \<Rightarrow> addr \<Rightarrow> ('k, 'v) store option" where
  "free_avl_node h p = map_option (\<lambda>_. h(p := None)) (node_at h p)"

text \<open>The branch of \<^verbatim>\<open>erase_recursive\<close> that has found the key: the node's place is taken by its only child or by its successor.\<close>

definition erase_found :: "('k, 'v) store \<Rightarrow> nat \<Rightarrow> addr \<Rightarrow> (addr \<times> ('k, 'v) store \<times> nat) option" where
  "erase_found h sz erased = do {
     n \<leftarrow> node_at h erased;
     (p, h) \<leftarrow>
       if avl_left n = 0 \<or> avl_right n = 0
       then Some (if avl_left n \<noteq> 0 then avl_left n else avl_right n, h)
       else do {
         (right_remainder, successor, h) \<leftarrow> unlink_front h (avl_right n);
         h \<leftarrow> set_left h successor (avl_left n);
         h \<leftarrow> set_right h successor right_remainder;
         Some (successor, h)
       };
     h \<leftarrow> free_avl_node h erased;
     Some (p, h, sz - 1)
   }"

partial_function (option) erase_recursive ::
  "('k::linorder, 'v) store \<Rightarrow> nat \<Rightarrow> addr \<Rightarrow> 'k \<Rightarrow> (addr \<times> ('k, 'v) store \<times> nat) option" where
  "erase_recursive h sz p key =
     (if p = 0 then Some (0, h, sz)
      else do {
        n \<leftarrow> node_at h p;
        (p, h, sz) \<leftarrow>
          if key < avl_key n
          then do {
            (l, h, sz) \<leftarrow> erase_recursive h sz (avl_left n) key;
            h \<leftarrow> set_left h p l;
            Some (p, h, sz)
          }
          else if key > avl_key n
          then do {
            (r, h, sz) \<leftarrow> erase_recursive h sz (avl_right n) key;
            h \<leftarrow> set_right h p r;
            Some (p, h, sz)
          }
          else erase_found h sz p;
        if p = 0 then Some (0, h, sz)
        else do {
          (q, h) \<leftarrow> rebalance_after_erase h p;
          Some (q, h, sz)
        }
      })"

definition clear_root_links :: "('k, 'v) store \<Rightarrow> addr \<Rightarrow> ('k, 'v) store option" where
  "clear_root_links h root = modify h root (\<lambda>n. n\<lparr>avl_left_reverse := 0, avl_right_reverse := 0\<rparr>)"

definition avl_erase_key :: "'k::linorder \<Rightarrow> ('k, 'v) avl_tree \<Rightarrow> (nat \<times> ('k, 'v) avl_tree) option" where
  "avl_erase_key key t = do {
     let initial_size = avl_size t;
     (root, h, sz) \<leftarrow> erase_recursive (avl_nodes t) (avl_size t) (avl_root t) key;
     h \<leftarrow> if root \<noteq> 0 then clear_root_links h root else Some h;
     Some (initial_size - sz, \<lparr>avl_nodes = h, avl_root = root, avl_size = sz\<rparr>)
   }"

text \<open>An iterator is the address of its node, and 0 at the end.\<close>

definition avl_end :: "('k, 'v) avl_tree \<Rightarrow> addr" where "avl_end t = 0"
definition avl_begin :: "('k, 'v) avl_tree \<Rightarrow> addr option" where "avl_begin t = find_front (avl_nodes t) (avl_root t)"

definition avl_find :: "('k::linorder, 'v) avl_tree \<Rightarrow> 'k \<Rightarrow> addr option" where
  "avl_find t key = find_node (avl_nodes t) (avl_root t) key"

definition avl_get :: "('k, 'v) avl_tree \<Rightarrow> addr \<Rightarrow> ('k \<times> 'v) option" where
  "avl_get t p = map_option (\<lambda>n. (avl_key n, avl_value n)) (node_at (avl_nodes t) p)"

definition avl_empty :: "('k, 'v) avl_tree \<Rightarrow> bool" where "avl_empty t \<longleftrightarrow> avl_size t = 0"

definition insert_value :: "addr \<Rightarrow> 'k::linorder \<Rightarrow> 'v \<Rightarrow> ('k, 'v) avl_tree \<Rightarrow> ((addr \<times> bool) \<times> ('k, 'v) avl_tree) option" where
  "insert_value new key val t = do {
     existing_element \<leftarrow> avl_find t key;
     if existing_element \<noteq> avl_end t then Some ((existing_element, False), t)
     else do {
       let initial_size = avl_size t;
       (root, h, sz) \<leftarrow> insert_recursive new (avl_nodes t) (avl_size t) (avl_root t) key val;
       let t = \<lparr>avl_nodes = h, avl_root = root, avl_size = sz\<rparr>;
       if root = 0 \<or> sz = initial_size then Some ((avl_end t, False), t)
       else do {
         h \<leftarrow> clear_root_links h root;
         let t = t\<lparr>avl_nodes := h\<rparr>;
         p \<leftarrow> avl_find t key;
         Some ((p, True), t)
       }
     }
   }"

text \<open>The climb along the reverse links of a node without a right (left) child.\<close>

partial_function (option) climb_forward :: "('k, 'v) store \<Rightarrow> addr \<Rightarrow> addr option" where
  "climb_forward h current = do {
     n \<leftarrow> node_at h current;
     if avl_left_reverse n = 0
     then if avl_right_reverse n = 0 then Some 0 else climb_forward h (avl_right_reverse n)
     else Some (avl_left_reverse n)
   }"

definition move_forward :: "('k, 'v) avl_tree \<Rightarrow> addr \<Rightarrow> addr option" where
  "move_forward t p =
     (if p = 0 then Some 0
      else do {
        n \<leftarrow> node_at (avl_nodes t) p;
        if avl_right n \<noteq> 0 then find_front (avl_nodes t) (avl_right n)
        else if avl_left_reverse n \<noteq> 0 then Some (avl_left_reverse n)
        else if avl_right_reverse n \<noteq> 0 then climb_forward (avl_nodes t) (avl_right_reverse n)
        else Some 0
      })"

partial_function (option) climb_backward :: "('k, 'v) store \<Rightarrow> addr \<Rightarrow> addr option" where
  "climb_backward h current = do {
     n \<leftarrow> node_at h current;
     if avl_left_reverse n \<noteq> 0 then climb_backward h (avl_left_reverse n)
     else if avl_right_reverse n \<noteq> 0 then Some (avl_right_reverse n) else Some 0
   }"

definition move_backward :: "('k, 'v) avl_tree \<Rightarrow> addr \<Rightarrow> addr option" where
  "move_backward t p =
     (if p = 0 then find_back (avl_nodes t) (avl_root t)
      else do {
        n \<leftarrow> node_at (avl_nodes t) p;
        if avl_left n \<noteq> 0 then find_back (avl_nodes t) (avl_left n)
        else if avl_right_reverse n \<noteq> 0 then Some (avl_right_reverse n)
        else if avl_left_reverse n \<noteq> 0 then climb_backward (avl_nodes t) (avl_left_reverse n)
        else Some 0
      })"

definition avl_erase_at :: "addr \<Rightarrow> ('k::linorder, 'v) avl_tree \<Rightarrow> (addr \<times> ('k, 'v) avl_tree) option" where
  "avl_erase_at element_to_erase t =
     (if element_to_erase = avl_end t then Some (avl_end t, t)
      else do {
        next_element \<leftarrow> move_forward t element_to_erase;
        (key, val) \<leftarrow> avl_get t element_to_erase;
        (erased, t) \<leftarrow> avl_erase_key key t;
        Some (next_element, t)
      })"

partial_function (option) avl_clear :: "('k::linorder, 'v) avl_tree \<Rightarrow> ('k, 'v) avl_tree option" where
  "avl_clear t =
     (if \<not> avl_empty t
      then do {
        itr \<leftarrow> move_backward t (avl_end t);
        (following, t) \<leftarrow> avl_erase_at itr t;
        avl_clear t
      }
      else Some t)"

end
