(* ===== verification/Avl_Balance.thy ===== *)
theory Avl_Balance
  imports Prelude "HOL-Library.Tree"
begin

text \<open>
  What the operations of the AVL tree do to the shape of the tree: a node is its address, key and value.  The
  rotations and the case distinctions are those of \<^verbatim>\<open>include/avl_tree\<close>; here they are proved to keep
  the order of the keys and the balance.
\<close>

type_synonym ('k, 'v) item = "addr \<times> 'k \<times> 'v"

abbreviation item_key :: "('k, 'v) item \<Rightarrow> 'k" where "item_key x \<equiv> fst (snd x)"

section \<open>Shapes\<close>

fun right_rot :: "'a tree \<Rightarrow> 'a tree" where
  "right_rot (Node (Node a x b) y c) = Node a x (Node b y c)"
| "right_rot t = t"

fun left_rot :: "'a tree \<Rightarrow> 'a tree" where
  "left_rot (Node a x (Node b y c)) = Node (Node a x b) y c"
| "left_rot t = t"

fun balance_of :: "'a tree \<Rightarrow> int" where
  "balance_of Leaf = 0"
| "balance_of (Node l x r) = int (height l) - int (height r)"

fun root_key :: "('k, 'v) item tree \<Rightarrow> 'k" where
  "root_key (Node l x r) = item_key x"
| "root_key Leaf = undefined"

definition insert_bal :: "'k::linorder \<Rightarrow> ('k, 'v) item tree \<Rightarrow> ('k, 'v) item \<Rightarrow> ('k, 'v) item tree \<Rightarrow> ('k, 'v) item tree" where
  "insert_bal key l x r =
     (let t = Node l x r; balance = balance_of t
      in if balance > 1 \<and> key < root_key l then right_rot t
         else if balance < - 1 \<and> key > root_key r then left_rot t
         else if balance > 1 \<and> key > root_key l then right_rot (Node (left_rot l) x r)
         else if balance < - 1 \<and> key < root_key r then left_rot (Node l x (right_rot r))
         else t)"

definition erase_bal :: "'a tree \<Rightarrow> 'a \<Rightarrow> 'a tree \<Rightarrow> 'a tree" where
  "erase_bal l x r =
     (let t = Node l x r; balance = balance_of t
      in if balance > 1 \<and> balance_of l \<ge> 0 then right_rot t
         else if balance < - 1 \<and> balance_of r \<le> 0 then left_rot t
         else if balance > 1 \<and> balance_of l < 0 then right_rot (Node (left_rot l) x r)
         else if balance < - 1 \<and> balance_of r > 0 then left_rot (Node l x (right_rot r))
         else t)"

fun insert_shape :: "addr \<Rightarrow> 'k::linorder \<Rightarrow> 'v \<Rightarrow> ('k, 'v) item tree \<Rightarrow> ('k, 'v) item tree" where
  "insert_shape a k v Leaf = Node Leaf (a, k, v) Leaf"
| "insert_shape a k v (Node l x r) =
     (if k < item_key x then insert_bal k (insert_shape a k v l) x r
      else if k > item_key x then insert_bal k l x (insert_shape a k v r)
      else Node l x r)"

fun unlink_shape :: "'a tree \<Rightarrow> 'a tree \<times> 'a" where
  "unlink_shape (Node l x r) =
     (if l = Leaf then (r, x) else let (l', y) = unlink_shape l in (erase_bal l' x r, y))"
| "unlink_shape Leaf = undefined"

fun rebalanced :: "'a tree \<Rightarrow> 'a tree" where
  "rebalanced Leaf = Leaf"
| "rebalanced (Node l x r) = erase_bal l x r"

fun erase_shape :: "'k::linorder \<Rightarrow> ('k, 'v) item tree \<Rightarrow> ('k, 'v) item tree" where
  "erase_shape k Leaf = Leaf"
| "erase_shape k (Node l x r) =
     (if k < item_key x then erase_bal (erase_shape k l) x r
      else if k > item_key x then erase_bal l x (erase_shape k r)
      else if l = Leaf \<or> r = Leaf then rebalanced (if l \<noteq> Leaf then l else r)
      else let (r', y) = unlink_shape r in erase_bal l y r')"

section \<open>Balance\<close>

fun avl :: "'a tree \<Rightarrow> bool" where
  "avl Leaf \<longleftrightarrow> True"
| "avl (Node l x r) \<longleftrightarrow> avl l \<and> avl r \<and> height l \<le> height r + 1 \<and> height r \<le> height l + 1"

lemma height_0_iff [simp]: "height (t :: 'a tree) = 0 \<longleftrightarrow> t = Leaf"
  by (cases t) auto

text \<open>A balanced tree has at least a power of two of half its height nodes.\<close>

lemma avl_height: "avl t \<Longrightarrow> 2 ^ (height t div 2) \<le> size t + 1"
proof (induction "height t" arbitrary: t rule: less_induct)
  case less
  show ?case
  proof (cases t)
    case (Node l x r)
    show ?thesis
    proof (cases "height t \<le> 1")
      case False
      obtain m where m: "height l \<ge> m" "height r \<ge> m" "height t = m + 2"
      proof
        show "height l \<ge> height t - 2" "height r \<ge> height t - 2" "height t = height t - 2 + 2"
          using less.prems Node False by (auto simp: max_def split: if_splits)
      qed
      have ih: "2 ^ (m div 2) \<le> size s + 1" if "s \<in> {l, r}" for s
      proof -
        have "(2 :: nat) ^ (m div 2) \<le> 2 ^ (height s div 2)" using m that by (auto intro!: power_increasing div_le_mono)
        also have "\<dots> \<le> size s + 1" using less.hyps [of s] less.prems Node that by auto
        finally show ?thesis .
      qed
      show ?thesis using ih [of l] ih [of r] m(3) Node by simp
    qed (use Node in auto)
  qed simp
qed

lemma erase_bal_balanced:
  "height l \<le> height r + 1 \<Longrightarrow> height r \<le> height l + 1 \<Longrightarrow> erase_bal l x r = Node l x r"
  by (auto simp: erase_bal_def)

lemma insert_bal_balanced:
  "height l \<le> height r + 1 \<Longrightarrow> height r \<le> height l + 1 \<Longrightarrow> insert_bal k l x r = Node l x r"
  by (auto simp: insert_bal_def Let_def)

lemma avl_right_heavy_fixed:
  assumes "avl l" "avl r" "height l = height r + 2"
  shows "avl (erase_bal l x r) \<and> height (erase_bal l x r) \<in> {height l, height l + 1}"
proof -
  from assms(3) obtain a y b where l: "l = Node a y b" by (cases l) auto
  show ?thesis
  proof (cases "height b \<le> height a")
    case False
    then obtain c z d where b: "b = Node c z d" by (cases b) auto
    show ?thesis using assms l b False by (simp add: erase_bal_def max_def split: if_splits)
  qed (use assms l in \<open>simp add: erase_bal_def max_def split: if_splits\<close>)
qed

lemma avl_left_heavy_fixed:
  assumes "avl l" "avl r" "height r = height l + 2"
  shows "avl (erase_bal l x r) \<and> height (erase_bal l x r) \<in> {height r, height r + 1}"
proof -
  from assms(3) obtain a y b where r: "r = Node a y b" by (cases r) auto
  show ?thesis
  proof (cases "height a \<le> height b")
    case False
    then obtain c z d where a: "a = Node c z d" by (cases a) auto
    show ?thesis using assms r a False by (simp add: erase_bal_def max_def split: if_splits)
  qed (use assms r in \<open>simp add: erase_bal_def max_def split: if_splits\<close>)
qed

lemma avl_erase_bal:
  assumes "avl l" "avl r" "height l \<le> height r + 2" "height r \<le> height l + 2"
  shows "avl (erase_bal l x r)"
    "height (erase_bal l x r) = max (height l) (height r) \<or> height (erase_bal l x r) = max (height l) (height r) + 1"
proof -
  consider "height l = height r + 2" | "height r = height l + 2" | "height l \<le> height r + 1" "height r \<le> height l + 1"
    using assms(3,4) by linarith
  then have "avl (erase_bal l x r) \<and>
    (height (erase_bal l x r) = max (height l) (height r) \<or> height (erase_bal l x r) = max (height l) (height r) + 1)"
    by cases (use avl_right_heavy_fixed [of l r x] avl_left_heavy_fixed [of l r x] assms in \<open>auto simp: erase_bal_balanced\<close>)
  then show "avl (erase_bal l x r)"
    "height (erase_bal l x r) = max (height l) (height r) \<or> height (erase_bal l x r) = max (height l) (height r) + 1" by auto
qed

text \<open>After an insertion the higher side of the child that grew is the one the key went to, so that the case
  distinction by keys is that by heights.\<close>

lemma avl_insert:
  assumes "avl t"
  shows "avl (insert_shape a k v t) \<and> (height (insert_shape a k v t) = height t \<or> height (insert_shape a k v t) = height t + 1) \<and>
    (height (insert_shape a k v t) = height t + 1 \<longrightarrow> t \<noteq> Leaf \<longrightarrow>
      (\<exists>l x r. insert_shape a k v t = Node l x r \<and>
         (k < item_key x \<and> height l = height r + 1 \<or> item_key x < k \<and> height r = height l + 1)))"
  using assms
proof (induction t)
  case (Node l x r)
  consider "k < item_key x" | "item_key x < k" | "k = item_key x" by force
  then show ?case
  proof cases
    case 1
    let ?l = "insert_shape a k v l"
    have ih: "avl ?l" "height ?l = height l \<or> height ?l = height l + 1"
      and side: "height ?l = height l + 1 \<Longrightarrow> l \<noteq> Leaf \<Longrightarrow> (\<exists>ll y lr. ?l = Node ll y lr \<and>
         (k < item_key y \<and> height ll = height lr + 1 \<or> item_key y < k \<and> height lr = height ll + 1))"
      using Node by simp_all
    show ?thesis
    proof (cases "height ?l \<le> height r + 1")
      case True
      then show ?thesis using ih Node.prems 1 by (cases x) (auto simp: insert_bal_balanced max_def)
    next
      case False
      then obtain ll y lr where l: "?l = Node ll y lr" "height ?l = height r + 2"
        and s: "k < item_key y \<and> height ll = height lr + 1 \<or> item_key y < k \<and> height lr = height ll + 1"
        using ih side Node.prems by (cases "l = Leaf") auto
      then have "insert_bal k ?l x r = erase_bal ?l x r" by (auto simp: insert_bal_def erase_bal_def Let_def)
      moreover have "height (erase_bal ?l x r) = height ?l"
      proof (cases "height ll = height lr + 1")
        case False
        then obtain c z d where "lr = Node c z d" using s by (cases lr) auto
        then show ?thesis using l s False by (auto simp: erase_bal_def max_def split: if_splits)
      qed (use l in \<open>auto simp: erase_bal_def\<close>)
      ultimately show ?thesis
        using avl_right_heavy_fixed [OF ih(1) _ l(2), of x] Node.prems ih l(2) 1 by (auto simp: max_def)
    qed
  next
    case 2
    let ?r = "insert_shape a k v r"
    have ih: "avl ?r" "height ?r = height r \<or> height ?r = height r + 1"
      and side: "height ?r = height r + 1 \<Longrightarrow> r \<noteq> Leaf \<Longrightarrow> (\<exists>rl y rr. ?r = Node rl y rr \<and>
         (k < item_key y \<and> height rl = height rr + 1 \<or> item_key y < k \<and> height rr = height rl + 1))"
      using Node by simp_all
    show ?thesis
    proof (cases "height ?r \<le> height l + 1")
      case True
      then show ?thesis using ih Node.prems 2 by (cases x) (auto simp: insert_bal_balanced max_def)
    next
      case False
      then obtain rl y rr where r: "?r = Node rl y rr" "height ?r = height l + 2"
        and s: "k < item_key y \<and> height rl = height rr + 1 \<or> item_key y < k \<and> height rr = height rl + 1"
        using ih side Node.prems by (cases "r = Leaf") auto
      then have "insert_bal k l x ?r = erase_bal l x ?r" by (auto simp: insert_bal_def erase_bal_def Let_def)
      moreover have "height (erase_bal l x ?r) = height ?r"
      proof (cases "height rr = height rl + 1")
        case False
        then obtain c z d where "rl = Node c z d" using s by (cases rl) auto
        then show ?thesis using r s False by (auto simp: erase_bal_def max_def split: if_splits)
      qed (use r in \<open>auto simp: erase_bal_def\<close>)
      ultimately show ?thesis
        using avl_left_heavy_fixed [OF _ ih(1) r(2), of x] Node.prems ih r(2) 2 by (auto simp: max_def)
    qed
  qed (use Node in auto)
qed simp

lemma avl_unlink:
  "avl t \<Longrightarrow> t \<noteq> Leaf \<Longrightarrow> avl (fst (unlink_shape t)) \<and>
     (height (fst (unlink_shape t)) = height t \<or> height (fst (unlink_shape t)) + 1 = height t)"
proof (induction t)
  case (Node l x r)
  show ?case
  proof (cases "l = Leaf")
    case False
    let ?l = "fst (unlink_shape l)"
    have ih: "avl ?l" "height ?l = height l \<or> height ?l + 1 = height l" using Node False by auto
    then have h: "height ?l \<le> height r + 2" "height r \<le> height ?l + 2" using Node.prems by auto
    have "height (erase_bal ?l x r) = height (Node l x r) \<or> height (erase_bal ?l x r) + 1 = height (Node l x r)"
      using avl_erase_bal(2) [OF ih(1) _ h, of x] ih Node.prems erase_bal_balanced [of ?l r x] by (auto simp: max_def)
    then show ?thesis using avl_erase_bal(1) [OF ih(1) _ h] Node.prems False by (simp add: split_beta)
  qed (use Node.prems in auto)
qed simp

lemma avl_rebalanced [simp]: "avl t \<Longrightarrow> rebalanced t = t"
  by (cases t) (auto simp: erase_bal_balanced)

lemma avl_erase:
  "avl t \<Longrightarrow> avl (erase_shape k t) \<and> (height (erase_shape k t) = height t \<or> height (erase_shape k t) + 1 = height t)"
proof (induction t)
  case (Node l x r)
  have step: "avl (erase_bal l' y r') \<and> (height (erase_bal l' y r') = height (Node l x r) \<or> height (erase_bal l' y r') + 1 = height (Node l x r))"
    if "avl l'" "avl r'" "l' = l \<and> (height r' = height r \<or> height r' + 1 = height r) \<or> r' = r \<and> (height l' = height l \<or> height l' + 1 = height l)"
    for l' y r'
  proof -
    have h: "height l' \<le> height r' + 2" "height r' \<le> height l' + 2" using that Node.prems by auto
    show ?thesis using avl_erase_bal [OF that(1,2) h, of y] that(3) Node.prems erase_bal_balanced [of l' r' y] by (auto simp: max_def)
  qed
  show ?case
    using Node step [of "erase_shape k l" r x] step [of l "erase_shape k r" x]
      step [of l "fst (unlink_shape r)" "snd (unlink_shape r)"] avl_unlink [of r]
    by (auto simp: split_beta)
qed simp

section \<open>Order\<close>

lemma inorder_rot [simp]: "inorder (right_rot t) = inorder t" "inorder (left_rot t) = inorder t"
  by (cases t rule: right_rot.cases; simp) (cases t rule: left_rot.cases; simp)

lemma inorder_erase_bal [simp]: "inorder (erase_bal l x r) = inorder l @ x # inorder r"
  by (simp add: erase_bal_def Let_def)

lemma inorder_insert_bal [simp]: "inorder (insert_bal k l x r) = inorder l @ x # inorder r"
  by (simp add: insert_bal_def Let_def)

lemma inorder_unlink: "t \<noteq> Leaf \<Longrightarrow> inorder t = snd (unlink_shape t) # inorder (fst (unlink_shape t))"
  by (induction t) (auto simp: split_beta)

definition keys_sorted :: "('k::linorder, 'v) item list \<Rightarrow> bool" where
  "keys_sorted xs \<longleftrightarrow> sorted_wrt (<) (map item_key xs)"

lemma keys_sorted_simps [simp]:
  "keys_sorted []" "keys_sorted (x # xs) \<longleftrightarrow> (\<forall>y \<in> set xs. item_key x < item_key y) \<and> keys_sorted xs"
  "keys_sorted (xs @ ys) \<longleftrightarrow> keys_sorted xs \<and> keys_sorted ys \<and> (\<forall>x \<in> set xs. \<forall>y \<in> set ys. item_key x < item_key y)"
  by (auto simp: keys_sorted_def sorted_wrt_append)

text \<open>Insertion and erasure on the sequence in key order.\<close>

fun insert_item :: "('k::linorder, 'v) item \<Rightarrow> ('k, 'v) item list \<Rightarrow> ('k, 'v) item list" where
  "insert_item y [] = [y]"
| "insert_item y (x # xs) = (if item_key y < item_key x then y # x # xs else x # insert_item y xs)"

lemma set_insert_item [simp]: "set (insert_item y xs) = insert y (set xs)"
  by (induction xs) auto

lemma insert_item_append:
  "\<forall>x \<in> set ys. item_key y < item_key x \<Longrightarrow> insert_item y (xs @ ys) = insert_item y xs @ ys"
  "\<forall>x \<in> set xs. item_key x < item_key y \<Longrightarrow> insert_item y (xs @ ys) = xs @ insert_item y ys"
  by (induction xs; cases ys; force)+

lemma inorder_insert:
  assumes "keys_sorted (inorder t)" "k \<notin> item_key ` set_tree t"
  shows "inorder (insert_shape a k v t) = insert_item (a, k, v) (inorder t)"
  using assms
proof (induction t)
  case (Node l x r)
  have "k < item_key x \<or> item_key x < k" using Node.prems(2) by force
  moreover have "k < item_key y" if "k < item_key x" "y \<in> set (inorder r)" for y
    using that Node.prems(1) by force
  moreover have "item_key y < k" if "item_key x < k" "y \<in> set (inorder l)" for y
    using that Node.prems(1) by force
  ultimately show ?case
    using Node insert_item_append(1) [of "x # inorder r" "(a, k, v)" "inorder l"] insert_item_append(2) [of "inorder l @ [x]" "(a, k, v)" "inorder r"]
    by (auto simp: image_Un)
qed simp

lemma filter_all: "(\<And>y. y \<in> set xs \<Longrightarrow> item_key y \<noteq> k) \<Longrightarrow> filter (\<lambda>x. item_key x \<noteq> k) xs = xs"
  by (simp add: filter_id_conv)

lemma inorder_erase:
  assumes "keys_sorted (inorder t)" "avl t"
  shows "inorder (erase_shape k t) = filter (\<lambda>x. item_key x \<noteq> k) (inorder t)"
  using assms
proof (induction t)
  case (Node l x r)
  have l: "filter (\<lambda>x. item_key x \<noteq> k) (inorder l) = inorder l" if "item_key x \<le> k"
    using that Node.prems(1) by (intro filter_all) force
  have r: "filter (\<lambda>x. item_key x \<noteq> k) (inorder r) = inorder r" if "k \<le> item_key x"
    using that Node.prems(1) by (intro filter_all) force
  consider "k < item_key x" | "item_key x < k" | "k = item_key x" by force
  then show ?case using Node l r inorder_unlink [of r]
    by cases (auto simp: split_beta)
qed simp

end
