(* ===== verification/Avl_Shape.thy ===== *)
theory Avl_Shape
  imports Avl_Tree Avl_Balance
begin

text \<open>
  The nodes of \<open>Avl_Tree\<close> represent the shapes of \<open>Avl_Balance\<close>: every link, forward and reverse, and every
  depth is what the shape says.  Each operation on nodes does what the operation of the same name does to the shape.
\<close>

section \<open>Representation\<close>

fun root_addr :: "('k, 'v) item tree \<Rightarrow> addr" where
  "root_addr Leaf = 0"
| "root_addr (Node l x r) = fst x"

definition node_of :: "('k, 'v) item \<Rightarrow> addr \<Rightarrow> addr \<Rightarrow> addr \<Rightarrow> addr \<Rightarrow> nat \<Rightarrow> ('k, 'v) avl_node" where
  "node_of x l lr r rr d =
     \<lparr>avl_key = fst (snd x), avl_value = snd (snd x), avl_left = l, avl_left_reverse = lr, avl_right = r, avl_right_reverse = rr, avl_depth = d\<rparr>"

text \<open>The two parameters are the reverse links of the root.\<close>

fun shape :: "('k, 'v) store \<Rightarrow> addr \<Rightarrow> addr \<Rightarrow> ('k, 'v) item tree \<Rightarrow> bool" where
  "shape h lr rr Leaf \<longleftrightarrow> True"
| "shape h lr rr (Node l x r) \<longleftrightarrow>
     fst x \<noteq> 0 \<and> h (fst x) = Some (node_of x (root_addr l) lr (root_addr r) rr (max (height l) (height r) + 1)) \<and>
     shape h (fst x) 0 l \<and> shape h 0 (fst x) r"

text \<open>A root whose depth is yet to be updated.\<close>

definition open_shape :: "('k, 'v) store \<Rightarrow> addr \<Rightarrow> addr \<Rightarrow> nat \<Rightarrow> ('k, 'v) item tree \<Rightarrow> ('k, 'v) item \<Rightarrow> ('k, 'v) item tree \<Rightarrow> bool" where
  "open_shape h lr rr d l x r \<longleftrightarrow>
     fst x \<noteq> 0 \<and> h (fst x) = Some (node_of x (root_addr l) lr (root_addr r) rr d) \<and> shape h (fst x) 0 l \<and> shape h 0 (fst x) r"

definition addrs :: "('k, 'v) item tree \<Rightarrow> addr set" where
  "addrs t = fst ` set_tree t"

definition separate :: "('k, 'v) item tree \<Rightarrow> bool" where
  "separate t \<longleftrightarrow> distinct (map fst (inorder t))"

definition same_outside :: "addr set \<Rightarrow> ('k, 'v) store \<Rightarrow> ('k, 'v) store \<Rightarrow> bool" where
  "same_outside A h h' \<longleftrightarrow> (\<forall>b. b \<notin> A \<longrightarrow> h' b = h b)"

lemma addrs_simps [simp]: "addrs Leaf = {}" "addrs (Node l x r) = insert (fst x) (addrs l \<union> addrs r)"
  by (auto simp: addrs_def)

lemma separate_simps [simp]:
  "separate Leaf"
  "separate (Node l x r) \<longleftrightarrow> separate l \<and> separate r \<and> fst x \<notin> addrs l \<and> fst x \<notin> addrs r \<and> addrs l \<inter> addrs r = {}"
  by (auto simp: separate_def addrs_def)

lemma root_in_addrs: "t \<noteq> Leaf \<Longrightarrow> root_addr t \<in> addrs t"
  by (cases t) auto

lemma shape_frame: "(\<And>a. a \<in> addrs t \<Longrightarrow> h' a = h a) \<Longrightarrow> shape h' lr rr t = shape h lr rr t"
  by (induction h lr rr t rule: shape.induct) auto

lemma shape_upd [simp]: "a \<notin> addrs t \<Longrightarrow> shape (h(a := n)) lr rr t = shape h lr rr t"
  by (rule shape_frame) auto

lemma shape_nonzero: "shape h lr rr t \<Longrightarrow> 0 \<notin> addrs t"
  by (induction h lr rr t rule: shape.induct) auto

lemma root_addr_0: "shape h lr rr t \<Longrightarrow> root_addr t = 0 \<longleftrightarrow> t = Leaf"
  by (cases t) auto

lemma shape_dom: "shape h lr rr t \<Longrightarrow> addrs t \<subseteq> dom h"
  by (induction h lr rr t rule: shape.induct) auto

lemma shape_outside: "shape h lr rr t \<Longrightarrow> same_outside A h h' \<Longrightarrow> addrs t \<inter> A = {} \<Longrightarrow> shape h' lr rr t"
  using shape_frame [of t h' h lr rr] by (auto simp: same_outside_def)

lemma same_outside_trans: "same_outside A h h' \<Longrightarrow> same_outside B h' h'' \<Longrightarrow> same_outside (A \<union> B) h h''"
  by (simp add: same_outside_def)

lemma same_outside_mono: "same_outside A h h' \<Longrightarrow> A \<subseteq> B \<Longrightarrow> same_outside B h h'"
  by (auto simp: same_outside_def)

lemma open_shape_shape: "open_shape h lr rr (max (height l) (height r) + 1) l x r \<longleftrightarrow> shape h lr rr (Node l x r)"
  by (simp add: open_shape_def)

lemma node_of_updates [simp]:
  "node_of x l lr r rr d\<lparr>avl_left := l'\<rparr> = node_of x l' lr r rr d"
  "node_of x l lr r rr d\<lparr>avl_right := r'\<rparr> = node_of x l lr r' rr d"
  "node_of x l lr r rr d\<lparr>avl_left_reverse := lr'\<rparr> = node_of x l lr' r rr d"
  "node_of x l lr r rr d\<lparr>avl_right_reverse := rr'\<rparr> = node_of x l lr r rr' d"
  "node_of x l lr r rr d\<lparr>avl_depth := d'\<rparr> = node_of x l lr r rr d'"
  by (simp_all add: node_of_def)

lemma node_of_fields [simp]:
  "avl_key (node_of x l lr r rr d) = fst (snd x)" "avl_value (node_of x l lr r rr d) = snd (snd x)"
  "avl_left (node_of x l lr r rr d) = l" "avl_right (node_of x l lr r rr d) = r"
  "avl_left_reverse (node_of x l lr r rr d) = lr" "avl_right_reverse (node_of x l lr r rr d) = rr" "avl_depth (node_of x l lr r rr d) = d"
  by (simp_all add: node_of_def)

section \<open>Links, depths and balances\<close>

lemmas node_ops = node_at_def modify_def

lemma set_left_open:
  assumes "fst x \<noteq> 0" "h (fst x) = Some (node_of x lf lr (root_addr r) rr d)" "shape h y z l" "shape h 0 (fst x) r"
    and "separate (Node l x r)"
  shows "\<exists>h'. set_left h (fst x) (root_addr l) = Some h' \<and> open_shape h' lr rr d l x r \<and> same_outside (insert (fst x) (addrs l)) h h'"
  using assms by (cases l) (auto simp: set_left_def node_ops open_shape_def same_outside_def)

lemma set_right_open:
  assumes "fst x \<noteq> 0" "h (fst x) = Some (node_of x (root_addr l) lr rt rr d)" "shape h (fst x) 0 l" "shape h y z r"
    and "separate (Node l x r)"
  shows "\<exists>h'. set_right h (fst x) (root_addr r) = Some h' \<and> open_shape h' lr rr d l x r \<and> same_outside (insert (fst x) (addrs r)) h h'"
  using assms by (cases r) (auto simp: set_right_def node_ops open_shape_def same_outside_def)

lemma depth_shape [simp]: "shape h lr rr t \<Longrightarrow> depth h (root_addr t) = Some (height t)"
  by (cases t) (auto simp: depth_def node_ops)

lemma update_depth_open:
  assumes "open_shape h lr rr d l x r" "separate (Node l x r)"
  shows "\<exists>h'. update_depth h (fst x) = Some h' \<and> shape h' lr rr (Node l x r) \<and> same_outside {fst x} h h'"
  using assms by (auto simp: update_depth_def open_shape_def node_ops same_outside_def)

lemma int_difference_exact:
  assumes "a < 2 ^ 31" "b < 2 ^ 31"
  shows "int_difference a b = int a - int b"
proof -
  have "of_nat a - of_nat b = (word_of_int (int a - int b) :: u64)" by simp
  moreover have "ucast (word_of_int k :: u64) = (word_of_int k :: u32)" for k
    by (intro bit_word_eqI) (auto simp: bit_simps bit_word_of_int_iff)
  ultimately have "int_difference a b = sint (word_of_int (int a - int b) :: u32)"
    unfolding int_difference_def by (simp only:)
  then show ?thesis using assms by (simp only: signed_of_int) (simp add: signed_take_bit_int_eq_self)
qed

lemma get_balance_shape:
  assumes "shape h lr rr t" "height t < 2 ^ 31"
  shows "get_balance h (root_addr t) = Some (balance_of t)"
  using assms by (cases t) (auto simp: get_balance_def node_ops int_difference_exact)

section \<open>Rotations\<close>

text \<open>A rotation of a shape whose depths, but that of the root, are right leaves a shape whose depths are right.\<close>

lemma right_rotate_shape:
  assumes "open_shape h lr rr d (Node a x b) y c" "separate (Node (Node a x b) y c)"
  shows "\<exists>h' lr' rr'. right_rotate h (fst y) = Some (fst x, h') \<and> shape h' lr' rr' (Node a x (Node b y c)) \<and>
    same_outside (insert (fst x) (insert (fst y) (addrs b))) h h'"
proof -
  let ?n = "node_of x (root_addr a) 0 (fst y) 0"
  have h: "node_at h (fst y) = Some (node_of y (fst x) lr (root_addr c) rr d)"
    "node_at h (fst x) = Some (node_of x (root_addr a) (fst y) (root_addr b) 0 (max (height a) (height b) + 1))"
    using assms(1) by (simp_all add: node_at_def open_shape_def)
  obtain h1 where h1: "set_right h (fst x) (fst y) = Some h1"
    and y1: "h1 (fst y) = Some (node_of y (fst x) 0 (root_addr c) (fst x) d)"
    and x1: "h1 (fst x) = Some (node_of x (root_addr a) (fst y) (fst y) 0 (max (height a) (height b) + 1))"
    and s1: "same_outside {fst x, fst y} h h1"
    using assms by (auto simp: set_right_def node_ops same_outside_def open_shape_def)
  have b1: "shape h1 0 (fst x) b" "shape h1 0 (fst y) c" "shape h1 (fst x) 0 a"
    using assms by (auto simp: open_shape_def intro: shape_outside [OF _ s1])
  obtain h2 where h2: "set_left h1 (fst y) (root_addr b) = Some h2"
    and y2: "open_shape h2 0 (fst x) d b y c"
    and s2: "same_outside (insert (fst y) (addrs b)) h1 h2"
    using set_left_open [OF _ y1 b1(1,2)] assms by (auto simp: Int_Un_distrib Int_Un_distrib2 open_shape_def)
  obtain h3 where h3: "update_depth h2 (fst y) = Some h3" and y3: "shape h3 0 (fst x) (Node b y c)" and s3: "same_outside {fst y} h2 h3"
    using update_depth_open [OF y2] assms(2) by (auto simp: Int_Un_distrib Int_Un_distrib2)
  have s: "same_outside (insert (fst y) (addrs b)) h1 h3" using same_outside_trans [OF s2 s3] by (simp add: insert_commute)
  have "open_shape h3 (fst y) 0 (max (height a) (height b) + 1) a x (Node b y c)"
    using x1 y3 shape_outside [OF b1(3) s] assms s by (auto simp: open_shape_def same_outside_def)
  then obtain h4 where h4: "update_depth h3 (fst x) = Some h4" and x4: "shape h4 (fst y) 0 (Node a x (Node b y c))"
    and s4: "same_outside {fst x} h3 h4"
    using update_depth_open [of h3 "fst y" 0 "max (height a) (height b) + 1" a x "Node b y c"] assms(2) by (auto simp: Int_Un_distrib Int_Un_distrib2)
  have "same_outside (insert (fst x) (insert (fst y) (addrs b))) h h4"
    using same_outside_trans [OF same_outside_trans [OF s1 s] s4] by (auto intro: same_outside_mono)
  then show ?thesis using h h1 h2 h3 h4 x4 by (auto simp: right_rotate_def Let_def)
qed

lemma left_rotate_shape:
  assumes "open_shape h lr rr d a x (Node b y c)" "separate (Node a x (Node b y c))"
  shows "\<exists>h' lr' rr'. left_rotate h (fst x) = Some (fst y, h') \<and> shape h' lr' rr' (Node (Node a x b) y c) \<and>
    same_outside (insert (fst x) (insert (fst y) (addrs b))) h h'"
proof -
  have h: "node_at h (fst x) = Some (node_of x (root_addr a) lr (fst y) rr d)"
    "node_at h (fst y) = Some (node_of y (root_addr b) 0 (root_addr c) (fst x) (max (height b) (height c) + 1))"
    using assms(1) by (simp_all add: node_at_def open_shape_def)
  obtain h1 where h1: "set_left h (fst y) (fst x) = Some h1"
    and x1: "h1 (fst x) = Some (node_of x (root_addr a) (fst y) (fst y) 0 d)"
    and y1: "h1 (fst y) = Some (node_of y (fst x) 0 (root_addr c) (fst x) (max (height b) (height c) + 1))"
    and s1: "same_outside {fst x, fst y} h h1"
    using assms by (auto simp: set_left_def node_ops same_outside_def open_shape_def)
  have b1: "shape h1 (fst x) 0 a" "shape h1 (fst y) 0 b" "shape h1 0 (fst y) c"
    using assms by (auto simp: open_shape_def intro: shape_outside [OF _ s1])
  obtain h2 where h2: "set_right h1 (fst x) (root_addr b) = Some h2"
    and x2: "open_shape h2 (fst y) 0 d a x b"
    and s2: "same_outside (insert (fst x) (addrs b)) h1 h2"
    using set_right_open [OF _ x1 b1(1,2)] assms by (auto simp: Int_Un_distrib Int_Un_distrib2 open_shape_def)
  obtain h3 where h3: "update_depth h2 (fst x) = Some h3" and x3: "shape h3 (fst y) 0 (Node a x b)" and s3: "same_outside {fst x} h2 h3"
    using update_depth_open [OF x2] assms(2) by (auto simp: Int_Un_distrib Int_Un_distrib2)
  have s: "same_outside (insert (fst x) (addrs b)) h1 h3" using same_outside_trans [OF s2 s3] by (simp add: insert_commute)
  have "open_shape h3 0 (fst x) (max (height b) (height c) + 1) (Node a x b) y c"
    using y1 x3 shape_outside [OF b1(3) s] assms s by (auto simp: open_shape_def same_outside_def)
  then obtain h4 where h4: "update_depth h3 (fst y) = Some h4" and y4: "shape h4 0 (fst x) (Node (Node a x b) y c)"
    and s4: "same_outside {fst y} h3 h4"
    using update_depth_open [of h3 0 "fst x" "max (height b) (height c) + 1" "Node a x b" y c] assms(2) by (auto simp: Int_Un_distrib Int_Un_distrib2)
  have "same_outside (insert (fst x) (insert (fst y) (addrs b))) h h4"
    using same_outside_trans [OF same_outside_trans [OF s1 s] s4] by (auto intro: same_outside_mono)
  then show ?thesis using h h1 h2 h3 h4 y4 by (auto simp: left_rotate_def Let_def)
qed

lemma left_right_rotate_shape:
  assumes "open_shape h lr rr d (Node a x (Node b y c)) z e" "separate (Node (Node a x (Node b y c)) z e)"
  shows "\<exists>h' lr' rr'. left_right_rotate h (fst z) = Some (fst y, h') \<and> shape h' lr' rr' (Node (Node a x b) y (Node c z e)) \<and>
    same_outside (addrs (Node (Node a x (Node b y c)) z e)) h h'"
proof -
  have n: "node_at h (fst z) = Some (node_of z (fst x) lr (root_addr e) rr d)" using assms(1) by (simp add: node_at_def open_shape_def)
  have l: "open_shape h (fst z) 0 (max (height a) (height (Node b y c)) + 1) a x (Node b y c)"
    using assms(1) by (simp add: open_shape_def)
  obtain h1 lr1 rr1 where h1: "left_rotate h (fst x) = Some (fst y, h1)" and y1: "shape h1 lr1 rr1 (Node (Node a x b) y c)"
    and s1: "same_outside (insert (fst x) (insert (fst y) (addrs b))) h h1"
    using left_rotate_shape [OF l] assms(2) by (auto simp: Int_Un_distrib Int_Un_distrib2)
  have e: "shape h1 0 (fst z) e" "h1 (fst z) = Some (node_of z (fst x) lr (root_addr e) rr d)" "fst z \<noteq> 0"
    using assms s1 by (auto simp: open_shape_def same_outside_def intro: shape_outside [OF _ s1])
  obtain h2 where h2: "set_left h1 (fst z) (fst y) = Some h2" and z2: "open_shape h2 lr rr d (Node (Node a x b) y c) z e"
    and s2: "same_outside (insert (fst z) (addrs (Node (Node a x b) y c))) h1 h2"
    using set_left_open [OF e(3,2) y1 e(1)] assms(2) by (auto simp: Int_Un_distrib Int_Un_distrib2)
  obtain h3 lr3 rr3 where h3: "right_rotate h2 (fst z) = Some (fst y, h3)" and y3: "shape h3 lr3 rr3 (Node (Node a x b) y (Node c z e))"
    and s3: "same_outside (insert (fst y) (insert (fst z) (addrs c))) h2 h3"
    using right_rotate_shape [OF z2] assms(2) by (auto simp: Int_Un_distrib Int_Un_distrib2)
  have "same_outside (addrs (Node (Node a x (Node b y c)) z e)) h h3"
    using same_outside_trans [OF same_outside_trans [OF s1 s2] s3] by (rule same_outside_mono) auto
  then show ?thesis using n h1 h2 h3 y3 by (auto simp: left_right_rotate_def)
qed

lemma right_left_rotate_shape:
  assumes "open_shape h lr rr d e z (Node (Node b y c) x a)" "separate (Node e z (Node (Node b y c) x a))"
  shows "\<exists>h' lr' rr'. right_left_rotate h (fst z) = Some (fst y, h') \<and> shape h' lr' rr' (Node (Node e z b) y (Node c x a)) \<and>
    same_outside (addrs (Node e z (Node (Node b y c) x a))) h h'"
proof -
  have n: "node_at h (fst z) = Some (node_of z (root_addr e) lr (fst x) rr d)" using assms(1) by (simp add: node_at_def open_shape_def)
  have r: "open_shape h 0 (fst z) (max (height (Node b y c)) (height a) + 1) (Node b y c) x a"
    using assms(1) by (simp add: open_shape_def)
  obtain h1 lr1 rr1 where h1: "right_rotate h (fst x) = Some (fst y, h1)" and y1: "shape h1 lr1 rr1 (Node b y (Node c x a))"
    and s1: "same_outside (insert (fst y) (insert (fst x) (addrs c))) h h1"
    using right_rotate_shape [OF r] assms(2) by (auto simp: Int_Un_distrib Int_Un_distrib2)
  have e: "shape h1 (fst z) 0 e" "h1 (fst z) = Some (node_of z (root_addr e) lr (fst x) rr d)" "fst z \<noteq> 0"
    using assms s1 by (auto simp: open_shape_def same_outside_def intro: shape_outside [OF _ s1])
  obtain h2 where h2: "set_right h1 (fst z) (fst y) = Some h2" and z2: "open_shape h2 lr rr d e z (Node b y (Node c x a))"
    and s2: "same_outside (insert (fst z) (addrs (Node b y (Node c x a)))) h1 h2"
    using set_right_open [OF e(3,2,1) y1] assms(2) by (auto simp: Int_Un_distrib Int_Un_distrib2)
  obtain h3 lr3 rr3 where h3: "left_rotate h2 (fst z) = Some (fst y, h3)" and y3: "shape h3 lr3 rr3 (Node (Node e z b) y (Node c x a))"
    and s3: "same_outside (insert (fst z) (insert (fst y) (addrs b))) h2 h3"
    using left_rotate_shape [OF z2] assms(2) by (auto simp: Int_Un_distrib Int_Un_distrib2)
  have "same_outside (addrs (Node e z (Node (Node b y c) x a))) h h3"
    using same_outside_trans [OF same_outside_trans [OF s1 s2] s3] by (rule same_outside_mono) auto
  then show ?thesis using n h1 h2 h3 y3 by (auto simp: right_left_rotate_def)
qed

section \<open>Rebalancing\<close>

lemma key_at_shape: "shape h lr rr t \<Longrightarrow> t \<noteq> Leaf \<Longrightarrow> key_at h (root_addr t) = Some (root_key t)"
  by (cases t) (auto simp: key_at_def node_ops)

lemma and_then_simps [simp]: "and_then False b = Some False" "and_then True b = b"
  by (simp_all add: and_then_def)

lemma node_at_shape: "shape h lr rr (Node l x r) \<Longrightarrow>
    node_at h (fst x) = Some (node_of x (root_addr l) lr (root_addr r) rr (max (height l) (height r) + 1))"
  by (simp add: node_at_def)

text \<open>A heavy side is not empty, and the grandchild that a double rotation moves up is not either.\<close>

lemma left_heavy: "balance_of (Node l x r) > 1 \<Longrightarrow> \<exists>a y b. l = Node a y b"
  by (cases l) auto

lemma right_heavy: "balance_of (Node l x r) < - 1 \<Longrightarrow> \<exists>a y b. r = Node a y b"
  by (cases r) auto

lemma left_inner: "balance_of l < 0 \<Longrightarrow> \<exists>a y b z c. l = Node a y (Node b z c)"
  by (cases l rule: left_rot.cases) auto

lemma right_inner: "balance_of r > 0 \<Longrightarrow> \<exists>b z c y a. r = Node (Node b z c) y a"
  by (cases r rule: right_rot.cases) auto

definition rebalances :: "('k, 'v) store \<Rightarrow> ('k, 'v) item tree \<Rightarrow> ('k, 'v) item tree \<Rightarrow> (addr \<times> ('k, 'v) store) option \<Rightarrow> bool" where
  "rebalances h t t' res \<longleftrightarrow> (\<exists>h' lr rr. res = Some (root_addr t', h') \<and> shape h' lr rr t' \<and> same_outside (addrs t) h h')"

lemma rebalances_intro:
  assumes "\<exists>h' lr rr. res = Some (root_addr t', h') \<and> shape h' lr rr t' \<and> same_outside A h h'" "A \<subseteq> addrs t"
  shows "rebalances h t t' res"
  using assms same_outside_mono [of A h _ "addrs t"] unfolding rebalances_def by blast

lemma rebalances_rotations:
  assumes "shape h lr rr (Node l x r)" "separate (Node l x r)"
  shows "\<exists>a y b. l = Node a y b \<Longrightarrow> rebalances h (Node l x r) (right_rot (Node l x r)) (right_rotate h (fst x))"
    and "\<exists>a y b. r = Node a y b \<Longrightarrow> rebalances h (Node l x r) (left_rot (Node l x r)) (left_rotate h (fst x))"
    and "\<exists>a y b z c. l = Node a y (Node b z c) \<Longrightarrow> rebalances h (Node l x r) (right_rot (Node (left_rot l) x r)) (left_right_rotate h (fst x))"
    and "\<exists>b z c y a. r = Node (Node b z c) y a \<Longrightarrow> rebalances h (Node l x r) (left_rot (Node l x (right_rot r))) (right_left_rotate h (fst x))"
proof -
  let ?d = "max (height l) (height r) + 1"
  have o: "open_shape h lr rr ?d l x r" using assms(1) by (simp only: open_shape_shape)
  show "\<exists>a y b. l = Node a y b \<Longrightarrow> rebalances h (Node l x r) (right_rot (Node l x r)) (right_rotate h (fst x))"
  proof (elim exE)
    fix a y b assume l: "l = Node a y b"
    show ?thesis
      using right_rotate_shape [of h lr rr ?d a y b x r] o assms(2)
      unfolding l by (intro rebalances_intro [where A = "insert (fst y) (insert (fst x) (addrs b))"]) auto
  qed
  show "\<exists>a y b. r = Node a y b \<Longrightarrow> rebalances h (Node l x r) (left_rot (Node l x r)) (left_rotate h (fst x))"
  proof (elim exE)
    fix a y b assume r: "r = Node a y b"
    show ?thesis
      using left_rotate_shape [of h lr rr ?d l x a y b] o assms(2)
      unfolding r by (intro rebalances_intro [where A = "insert (fst x) (insert (fst y) (addrs a))"]) auto
  qed
  show "\<exists>a y b z c. l = Node a y (Node b z c) \<Longrightarrow> rebalances h (Node l x r) (right_rot (Node (left_rot l) x r)) (left_right_rotate h (fst x))"
  proof (elim exE)
    fix a y b z c assume l: "l = Node a y (Node b z c)"
    show ?thesis using left_right_rotate_shape [of h lr rr ?d a y b z c x r] o assms(2)
      unfolding l rebalances_def by (simp del: addrs_simps)
  qed
  show "\<exists>b z c y a. r = Node (Node b z c) y a \<Longrightarrow> rebalances h (Node l x r) (left_rot (Node l x (right_rot r))) (right_left_rotate h (fst x))"
  proof (elim exE)
    fix b z c y a assume r: "r = Node (Node b z c) y a"
    show ?thesis using right_left_rotate_shape [of h lr rr ?d l x b z c y a] o assms(2)
      unfolding r rebalances_def by (simp del: addrs_simps)
  qed
qed

lemma rebalances_if:
  "(c \<Longrightarrow> rebalances h t t1 res1) \<Longrightarrow> (\<not> c \<Longrightarrow> rebalances h t t2 res2) \<Longrightarrow>
     rebalances h t (if c then t1 else t2) (if c then res1 else res2)"
  by simp

lemma rebalances_after:
  assumes "same_outside {a} h h1" "a \<in> addrs t" "rebalances h1 t t' res"
  shows "rebalances h t t' res"
proof -
  have "same_outside (addrs t) h h'" if "same_outside (addrs t) h1 h'" for h'
    using same_outside_trans [OF assms(1) that] assms(2) by (simp add: insert_absorb)
  then show ?thesis using assms(3) by (auto simp: rebalances_def)
qed

lemma rebalance_after_erase_shape:
  assumes o: "open_shape h lr rr d l x r" and sep: "separate (Node l x r)" and ht: "height (Node l x r) < 2 ^ 31"
  shows "rebalances h (Node l x r) (erase_bal l x r) (rebalance_after_erase h (fst x))"
proof -
  let ?t = "Node l x r"
  obtain h1 where h1: "update_depth h (fst x) = Some h1" "shape h1 lr rr ?t" "same_outside {fst x} h h1"
    using update_depth_open [OF o sep] by blast
  have b: "get_balance h1 (fst x) = Some (balance_of ?t)" "get_balance h1 (root_addr l) = Some (balance_of l)"
    "get_balance h1 (root_addr r) = Some (balance_of r)"
    using get_balance_shape [OF h1(2)] get_balance_shape [of h1 "fst x" 0 l] get_balance_shape [of h1 0 "fst x" r] h1(2) ht by auto
  note rot = rebalances_rotations [OF h1(2) sep]
  have code: "rebalance_after_erase h (fst x) =
     (if balance_of ?t > 1 \<and> balance_of l \<ge> 0 then right_rotate h1 (fst x)
      else if balance_of ?t < - 1 \<and> balance_of r \<le> 0 then left_rotate h1 (fst x)
      else if balance_of ?t > 1 \<and> balance_of l < 0 then left_right_rotate h1 (fst x)
      else if balance_of ?t < - 1 \<and> balance_of r > 0 then right_left_rotate h1 (fst x) else Some (fst x, h1))"
    by (simp add: rebalance_after_erase_def h1(1) b node_at_shape [OF h1(2)] and_then_def del: balance_of.simps)
  have still: "rebalances h1 ?t ?t (Some (fst x, h1))" using h1(2) by (auto simp: rebalances_def same_outside_def)
  have "rebalances h1 ?t (erase_bal l x r) (rebalance_after_erase h (fst x))"
    unfolding code erase_bal_def Let_def
    by (intro rebalances_if still; elim conjE)
      (erule rebalances_rotations(1) [OF h1(2) sep left_heavy] rebalances_rotations(2) [OF h1(2) sep right_heavy]
        rebalances_rotations(3) [OF h1(2) sep left_inner] rebalances_rotations(4) [OF h1(2) sep right_inner])+
  then show ?thesis by (rule rebalances_after [OF h1(3), rotated]) simp
qed

text \<open>After an insertion the side of the grandchild is read off the keys; it must agree with the depths.\<close>

definition inner_grown :: "'k::linorder \<Rightarrow> ('k, 'v) item tree \<Rightarrow> ('k, 'v) item \<Rightarrow> ('k, 'v) item tree \<Rightarrow> bool" where
  "inner_grown key l x r \<longleftrightarrow>
     (balance_of (Node l x r) > 1 \<longrightarrow> key > root_key l \<longrightarrow> (\<exists>a y b z c. l = Node a y (Node b z c))) \<and>
     (balance_of (Node l x r) < - 1 \<longrightarrow> key < root_key r \<longrightarrow> (\<exists>b z c y a. r = Node (Node b z c) y a))"

lemma rebalance_after_insert_shape:
  assumes o: "open_shape h lr rr d l x r" and sep: "separate (Node l x r)" and ht: "height (Node l x r) < 2 ^ 31"
    and grown: "inner_grown key l x r"
  shows "rebalances h (Node l x r) (insert_bal key l x r) (rebalance_after_insert h (fst x) key)"
    and "\<not> (balance_of (Node l x r) > 1 \<or> balance_of (Node l x r) < - 1) \<Longrightarrow>
      \<exists>h'. rebalance_after_insert h (fst x) key = Some (fst x, h') \<and> shape h' lr rr (Node l x r) \<and> same_outside (addrs (Node l x r)) h h'"
proof -
  let ?t = "Node l x r"
  obtain h1 where h1: "update_depth h (fst x) = Some h1" "shape h1 lr rr ?t" "same_outside {fst x} h h1"
    using update_depth_open [OF o sep] by blast
  have b: "get_balance h1 (fst x) = Some (balance_of ?t)"
    using get_balance_shape [OF h1(2)] ht by auto
  have k: "balance_of ?t > 1 \<Longrightarrow> key_at h1 (root_addr l) = Some (root_key l)" "balance_of ?t < - 1 \<Longrightarrow> key_at h1 (root_addr r) = Some (root_key r)"
    using h1(2) left_heavy [of l x r] right_heavy [of l x r] key_at_shape [of h1 "fst x" 0 l] key_at_shape [of h1 0 "fst x" r] by auto
  have code: "rebalance_after_insert h (fst x) key =
     (if balance_of ?t > 1 \<and> key < root_key l then right_rotate h1 (fst x)
      else if balance_of ?t < - 1 \<and> key > root_key r then left_rotate h1 (fst x)
      else if balance_of ?t > 1 \<and> key > root_key l then left_right_rotate h1 (fst x)
      else if balance_of ?t < - 1 \<and> key < root_key r then right_left_rotate h1 (fst x) else Some (fst x, h1))"
    using k by (simp add: rebalance_after_insert_def h1(1) b node_at_shape [OF h1(2)] and_then_def del: balance_of.simps)
  have still: "rebalances h1 ?t ?t (Some (fst x, h1))" using h1(2) by (auto simp: rebalances_def same_outside_def)
  have inner: "balance_of ?t > 1 \<Longrightarrow> key > root_key l \<Longrightarrow>
      rebalances h1 ?t (right_rot (Node (left_rot l) x r)) (left_right_rotate h1 (fst x))"
    "balance_of ?t < - 1 \<Longrightarrow> key < root_key r \<Longrightarrow>
      rebalances h1 ?t (left_rot (Node l x (right_rot r))) (right_left_rotate h1 (fst x))"
    using grown by (auto simp only: inner_grown_def intro!: rebalances_rotations(3,4) [OF h1(2) sep])
  have "rebalances h1 ?t (insert_bal key l x r) (rebalance_after_insert h (fst x) key)"
    unfolding code insert_bal_def Let_def
    by (intro rebalances_if still; elim conjE)
      (erule rebalances_rotations(1) [OF h1(2) sep left_heavy] rebalances_rotations(2) [OF h1(2) sep right_heavy]
        inner(1) inner(2); assumption)+
  then show "rebalances h ?t (insert_bal key l x r) (rebalance_after_insert h (fst x) key)"
    by (rule rebalances_after [OF h1(3), rotated]) simp
  assume "\<not> (balance_of ?t > 1 \<or> balance_of ?t < - 1)"
  then have "rebalance_after_insert h (fst x) key = Some (fst x, h1)" unfolding code by (simp del: balance_of.simps)
  then show "\<exists>h'. rebalance_after_insert h (fst x) key = Some (fst x, h') \<and> shape h' lr rr ?t \<and> same_outside (addrs ?t) h h'"
    using h1(2) same_outside_mono [OF h1(3), of "addrs ?t"] by simp
qed

section \<open>Insertion and erasure\<close>

lemma avl_height_bound: "avl t \<Longrightarrow> size t < 2 ^ 64 \<Longrightarrow> height t < 200"
proof -
  assume t: "avl t" "size t < 2 ^ 64"
  have "(2 :: nat) ^ (height t div 2) < 2 ^ 65" using avl_height [OF t(1)] t(2) by simp
  then have "height t div 2 < 65" by (rule power_less_imp_less_exp [rotated]) simp
  then show "height t < 200" by simp
qed

lemma distinct_insert_item: "distinct (map fst (insert_item y xs)) \<longleftrightarrow> fst y \<notin> fst ` set xs \<and> distinct (map fst xs)"
  by (induction xs) auto

lemma separate_insert:
  assumes "separate t" "new \<notin> addrs t" "keys_sorted (inorder t)" "k \<notin> item_key ` set_tree t"
  shows "separate (insert_shape new k v t)" "addrs (insert_shape new k v t) = insert new (addrs t)"
proof -
  have i: "inorder (insert_shape new k v t) = insert_item (new, k, v) (inorder t)" using assms by (intro inorder_insert)
  show "separate (insert_shape new k v t)" using assms by (simp add: separate_def i distinct_insert_item addrs_def)
  have "set_tree (insert_shape new k v t) = insert (new, k, v) (set_tree t)"
    using arg_cong [OF i, of set] by simp
  then show "addrs (insert_shape new k v t) = insert new (addrs t)" by (simp add: addrs_def)
qed

lemma insert_grown_left:
  assumes "avl (Node l x r)"
  shows "inner_grown k (insert_shape a k v l) x r"
proof (cases "balance_of (Node (insert_shape a k v l) x r) > 1")
  case True
  then have "height (insert_shape a k v l) = height l + 1" "l \<noteq> Leaf" using avl_insert [of l a k v] assms by auto
  then obtain ll y lr where l: "insert_shape a k v l = Node ll y lr"
    "k < item_key y \<and> height ll = height lr + 1 \<or> item_key y < k \<and> height lr = height ll + 1"
    using avl_insert [of l a k v] assms by auto
  then have "\<exists>b z c. lr = Node b z c" if "k > item_key y" using that by (cases lr) auto
  then show ?thesis using l(1) True by (cases y) (auto simp: inner_grown_def)
next
  case False
  moreover have "\<not> balance_of (Node (insert_shape a k v l) x r) < - 1" using avl_insert [of l a k v] assms by auto
  ultimately show ?thesis by (simp add: inner_grown_def del: balance_of.simps)
qed

lemma insert_grown_right:
  assumes "avl (Node l x r)"
  shows "inner_grown k l x (insert_shape a k v r)"
proof (cases "balance_of (Node l x (insert_shape a k v r)) < - 1")
  case True
  then have "height (insert_shape a k v r) = height r + 1" "r \<noteq> Leaf" using avl_insert [of r a k v] assms by auto
  then obtain rl y rr where r: "insert_shape a k v r = Node rl y rr"
    "k < item_key y \<and> height rl = height rr + 1 \<or> item_key y < k \<and> height rr = height rl + 1"
    using avl_insert [of r a k v] assms by auto
  then have "\<exists>b z c. rl = Node b z c" if "k < item_key y" using that by (cases rl) auto
  then show ?thesis using r(1) True by (cases y) (auto simp: inner_grown_def)
next
  case False
  moreover have "\<not> balance_of (Node l x (insert_shape a k v r)) > 1" using avl_insert [of r a k v] assms by auto
  ultimately show ?thesis by (simp add: inner_grown_def del: balance_of.simps)
qed

text \<open>Insertion of a new key into a node's new place.\<close>

lemma insert_recursive_shape:
  assumes "shape h lr rr t" "separate t" "avl t" "keys_sorted (inorder t)" "size t + 1 < 2 ^ 64"
    and "new \<noteq> 0" "new \<notin> addrs t" "k \<notin> item_key ` set_tree t"
  shows "\<exists>h' lr' rr'. insert_recursive new h sz (root_addr t) k v = Some (root_addr (insert_shape new k v t), h', sz + 1) \<and>
    shape h' lr' rr' (insert_shape new k v t) \<and> same_outside (insert new (addrs t)) h h'"
  using assms
proof (induction t arbitrary: h lr rr)
  case Leaf
  then show ?case by (auto simp: insert_recursive.simps [of new h sz 0] node_of_def avl_node_new_def same_outside_def)
next
  case (Node l x r)
  let ?t = "Node l x r"
  have n: "node_at h (fst x) = Some (node_of x (root_addr l) lr (root_addr r) rr (max (height l) (height r) + 1))" "fst x \<noteq> 0"
    using Node.prems(1) by (simp_all add: node_at_def)
  have l: "shape h (fst x) 0 l" and r: "shape h 0 (fst x) r" using Node.prems(1) by simp_all
  have ht: "height l < 200" "height r < 200" using avl_height_bound [of ?t] Node.prems(3,5) by auto
  note prems = Node.prems
  consider "k < item_key x" | "item_key x < k" using prems(8) by force
  then show ?case
  proof cases
    case 1
    let ?l = "insert_shape new k v l"
    have sl: "separate ?l" "addrs ?l = insert new (addrs l)"
      using separate_insert [of l new k v] prems by (simp_all add: image_Un)
    obtain h1 lr1 rr1 where h1: "insert_recursive new h sz (root_addr l) k v = Some (root_addr ?l, h1, sz + 1)"
      "shape h1 lr1 rr1 ?l" "same_outside (insert new (addrs l)) h h1"
      using Node.IH(1) [OF l] prems by (auto simp: image_Un)
    have x1: "h1 (fst x) = Some (node_of x (root_addr l) lr (root_addr r) rr (max (height l) (height r) + 1))"
      using n h1(3) prems by (auto simp: same_outside_def node_at_def)
    have r1: "shape h1 0 (fst x) r" using prems by (intro shape_outside [OF r h1(3)]) auto
    have sep: "separate (Node ?l x r)" using sl prems by auto
    obtain h2 where h2: "set_left h1 (fst x) (root_addr ?l) = Some h2" "open_shape h2 lr rr (max (height l) (height r) + 1) ?l x r"
      "same_outside (insert (fst x) (addrs ?l)) h1 h2"
      using set_left_open [OF n(2) x1 h1(2) r1 sep] by blast
    have bound: "height (Node ?l x r) < 2 ^ 31" using avl_insert [of l new k v] prems(3) ht by auto
    obtain h3 lr3 rr3 where h3: "rebalance_after_insert h2 (fst x) k = Some (root_addr (insert_bal k ?l x r), h3)"
      "shape h3 lr3 rr3 (insert_bal k ?l x r)" "same_outside (addrs (Node ?l x r)) h2 h3"
      using rebalance_after_insert_shape(1) [OF h2(2) sep bound insert_grown_left] prems(3) by (auto simp: rebalances_def)
    have "same_outside (insert new (addrs ?t)) h h3"
      using same_outside_trans [OF same_outside_trans [OF h1(3) h2(3)] h3(3)] by (rule same_outside_mono) (auto simp: sl)
    then show ?thesis using 1 n h1(1) h2(1) h3 by (subst insert_recursive.simps) auto
  next
    case 2
    let ?r = "insert_shape new k v r"
    have sr: "separate ?r" "addrs ?r = insert new (addrs r)"
      using separate_insert [of r new k v] prems by (simp_all add: image_Un)
    obtain h1 lr1 rr1 where h1: "insert_recursive new h sz (root_addr r) k v = Some (root_addr ?r, h1, sz + 1)"
      "shape h1 lr1 rr1 ?r" "same_outside (insert new (addrs r)) h h1"
      using Node.IH(2) [OF r] prems by (auto simp: image_Un)
    have x1: "h1 (fst x) = Some (node_of x (root_addr l) lr (root_addr r) rr (max (height l) (height r) + 1))"
      using n h1(3) prems by (auto simp: same_outside_def node_at_def)
    have l1: "shape h1 (fst x) 0 l" using prems by (intro shape_outside [OF l h1(3)]) auto
    have sep: "separate (Node l x ?r)" using sr prems by auto
    obtain h2 where h2: "set_right h1 (fst x) (root_addr ?r) = Some h2" "open_shape h2 lr rr (max (height l) (height r) + 1) l x ?r"
      "same_outside (insert (fst x) (addrs ?r)) h1 h2"
      using set_right_open [OF n(2) x1 l1 h1(2) sep] by blast
    have bound: "height (Node l x ?r) < 2 ^ 31" using avl_insert [of r new k v] prems(3) ht by auto
    obtain h3 lr3 rr3 where h3: "rebalance_after_insert h2 (fst x) k = Some (root_addr (insert_bal k l x ?r), h3)"
      "shape h3 lr3 rr3 (insert_bal k l x ?r)" "same_outside (addrs (Node l x ?r)) h2 h3"
      using rebalance_after_insert_shape(1) [OF h2(2) sep bound insert_grown_right] prems(3) by (auto simp: rebalances_def)
    have "same_outside (insert new (addrs ?t)) h h3"
      using same_outside_trans [OF same_outside_trans [OF h1(3) h2(3)] h3(3)] by (rule same_outside_mono) (auto simp: sr)
    then show ?thesis using 2 n h1(1) h2(1) h3 by (subst insert_recursive.simps) auto
  qed
qed

text \<open>A failed allocation leaves the shape as it was.\<close>

lemma insert_recursive_full:
  assumes "shape h lr rr t" "separate t" "avl t" "size t < 2 ^ 64"
  shows "\<exists>h'. insert_recursive 0 h sz (root_addr t) k v = Some (root_addr t, h', sz) \<and> shape h' lr rr t \<and> same_outside (addrs t) h h'"
  using assms
proof (induction t arbitrary: h lr rr)
  case Leaf
  then show ?case by (simp add: insert_recursive.simps [of 0 h sz 0] same_outside_def)
next
  case (Node l x r)
  let ?t = "Node l x r"
  have n: "node_at h (fst x) = Some (node_of x (root_addr l) lr (root_addr r) rr (max (height l) (height r) + 1))" "fst x \<noteq> 0"
    using Node.prems(1) by (simp_all add: node_at_def)
  have l: "shape h (fst x) 0 l" and r: "shape h 0 (fst x) r" using Node.prems(1) by simp_all
  have bound: "height ?t < 2 ^ 31" using avl_height_bound [of ?t] Node.prems(3,4) by auto
  have still: "\<not> (balance_of ?t > 1 \<or> balance_of ?t < - 1)" using Node.prems(3) by auto
  then have grown: "inner_grown k l x r" by (simp add: inner_grown_def del: balance_of.simps)
  note prems = Node.prems
  consider "k < item_key x" | "item_key x < k" | "k = item_key x" by force
  then show ?case
  proof cases
    case 1
    obtain h1 where h1: "insert_recursive 0 h sz (root_addr l) k v = Some (root_addr l, h1, sz)"
      "shape h1 (fst x) 0 l" "same_outside (addrs l) h h1"
      using Node.IH(1) [OF l] prems by auto
    have x1: "h1 (fst x) = Some (node_of x (root_addr l) lr (root_addr r) rr (max (height l) (height r) + 1))"
      using n h1(3) prems by (auto simp: same_outside_def node_at_def)
    have r1: "shape h1 0 (fst x) r" using prems by (intro shape_outside [OF r h1(3)]) auto
    obtain h2 where h2: "set_left h1 (fst x) (root_addr l) = Some h2" "open_shape h2 lr rr (max (height l) (height r) + 1) l x r"
      "same_outside (insert (fst x) (addrs l)) h1 h2"
      using set_left_open [OF n(2) x1 h1(2) r1 prems(2)] by blast
    obtain h3 where h3: "rebalance_after_insert h2 (fst x) k = Some (fst x, h3)" "shape h3 lr rr ?t" "same_outside (addrs ?t) h2 h3"
      using rebalance_after_insert_shape(2) [OF h2(2) prems(2) bound grown still] by blast
    have "same_outside (addrs ?t) h h3"
      using same_outside_trans [OF same_outside_trans [OF h1(3) h2(3)] h3(3)] by (rule same_outside_mono) auto
    then show ?thesis using 1 n h1(1) h2(1) h3 by (subst insert_recursive.simps) auto
  next
    case 2
    obtain h1 where h1: "insert_recursive 0 h sz (root_addr r) k v = Some (root_addr r, h1, sz)"
      "shape h1 0 (fst x) r" "same_outside (addrs r) h h1"
      using Node.IH(2) [OF r] prems by auto
    have x1: "h1 (fst x) = Some (node_of x (root_addr l) lr (root_addr r) rr (max (height l) (height r) + 1))"
      using n h1(3) prems by (auto simp: same_outside_def node_at_def)
    have l1: "shape h1 (fst x) 0 l" using prems by (intro shape_outside [OF l h1(3)]) auto
    obtain h2 where h2: "set_right h1 (fst x) (root_addr r) = Some h2" "open_shape h2 lr rr (max (height l) (height r) + 1) l x r"
      "same_outside (insert (fst x) (addrs r)) h1 h2"
      using set_right_open [OF n(2) x1 l1 h1(2) prems(2)] by blast
    obtain h3 where h3: "rebalance_after_insert h2 (fst x) k = Some (fst x, h3)" "shape h3 lr rr ?t" "same_outside (addrs ?t) h2 h3"
      using rebalance_after_insert_shape(2) [OF h2(2) prems(2) bound grown still] by blast
    have "same_outside (addrs ?t) h h3"
      using same_outside_trans [OF same_outside_trans [OF h1(3) h2(3)] h3(3)] by (rule same_outside_mono) auto
    then show ?thesis using 2 n h1(1) h2(1) h3 by (subst insert_recursive.simps) auto
  next
    case 3
    then show ?thesis using n prems(1) by (subst insert_recursive.simps) (auto simp: same_outside_def)
  qed
qed

text \<open>The first node of a subtree leaves it.\<close>

lemma unlink_facts:
  assumes "t \<noteq> Leaf" "separate t"
  shows "addrs t = insert (fst (snd (unlink_shape t))) (addrs (fst (unlink_shape t)))"
    "separate (fst (unlink_shape t))" "fst (snd (unlink_shape t)) \<notin> addrs (fst (unlink_shape t))"
proof -
  have i: "inorder t = snd (unlink_shape t) # inorder (fst (unlink_shape t))" using assms(1) by (rule inorder_unlink)
  have "set_tree t = insert (snd (unlink_shape t)) (set_tree (fst (unlink_shape t)))" using arg_cong [OF i, of set] by simp
  then show "addrs t = insert (fst (snd (unlink_shape t))) (addrs (fst (unlink_shape t)))" by (simp add: addrs_def)
  show "separate (fst (unlink_shape t))" "fst (snd (unlink_shape t)) \<notin> addrs (fst (unlink_shape t))"
    using assms(2) by (simp_all add: separate_def i addrs_def)
qed

lemma unlink_front_shape:
  assumes "shape h lr rr t" "separate t" "avl t" "size t < 2 ^ 64" "t \<noteq> Leaf"
  shows "\<exists>h' lr' rr' n. unlink_front h (root_addr t) = Some (root_addr (fst (unlink_shape t)), fst (snd (unlink_shape t)), h') \<and>
    shape h' lr' rr' (fst (unlink_shape t)) \<and> same_outside (addrs t) h h' \<and>
    (\<exists>l1 l2 r1 r2 d. h' (fst (snd (unlink_shape t))) = Some (node_of (snd (unlink_shape t)) l1 l2 r1 r2 d)) \<and> fst (snd (unlink_shape t)) \<noteq> 0"
  using assms
proof (induction t arbitrary: h lr rr)
  case (Node l x r)
  let ?t = "Node l x r"
  have n: "node_at h (fst x) = Some (node_of x (root_addr l) lr (root_addr r) rr (max (height l) (height r) + 1))" "fst x \<noteq> 0"
    using Node.prems(1) by (simp_all add: node_at_def)
  have l: "shape h (fst x) 0 l" and r: "shape h 0 (fst x) r" using Node.prems(1) by simp_all
  note prems = Node.prems
  show ?case
  proof (cases "l = Leaf")
    case True
    then show ?thesis using n r by (subst unlink_front.simps) (auto simp: same_outside_def node_at_def, blast)
  next
    case False
    let ?l = "fst (unlink_shape l)" and ?y = "snd (unlink_shape l)"
    have ul: "addrs l = insert (fst ?y) (addrs ?l)" "separate ?l" "fst ?y \<notin> addrs ?l"
      using unlink_facts [OF False] prems(2) by simp_all
    obtain h1 lr1 rr1 l1 l2 r1 r2 d where h1: "unlink_front h (root_addr l) = Some (root_addr ?l, fst ?y, h1)"
      "shape h1 lr1 rr1 ?l" "same_outside (addrs l) h h1" "h1 (fst ?y) = Some (node_of ?y l1 l2 r1 r2 d)" "fst ?y \<noteq> 0"
      using Node.IH(1) [OF l] prems False by auto
    have x1: "h1 (fst x) = Some (node_of x (root_addr l) lr (root_addr r) rr (max (height l) (height r) + 1))"
      using n h1(3) prems by (auto simp: same_outside_def node_at_def)
    have r1: "shape h1 0 (fst x) r" using prems by (intro shape_outside [OF r h1(3)]) auto
    have sep: "separate (Node ?l x r)" using ul prems by auto
    obtain h2 where h2: "set_left h1 (fst x) (root_addr ?l) = Some h2" "open_shape h2 lr rr (max (height l) (height r) + 1) ?l x r"
      "same_outside (insert (fst x) (addrs ?l)) h1 h2"
      using set_left_open [OF n(2) x1 h1(2) r1 sep] by blast
    have ht: "height (Node ?l x r) < 2 ^ 31"
      using avl_height_bound [of ?t] prems(3,4) avl_unlink [of l] False by auto
    obtain h3 lr3 rr3 where h3: "rebalance_after_erase h2 (fst x) = Some (root_addr (erase_bal ?l x r), h3)"
      "shape h3 lr3 rr3 (erase_bal ?l x r)" "same_outside (addrs (Node ?l x r)) h2 h3"
      using rebalance_after_erase_shape [OF h2(2) sep ht] by (auto simp: rebalances_def)
    have y: "h3 (fst ?y) = h1 (fst ?y)" using h2(3) h3(3) ul prems(2) by (auto simp: same_outside_def)
    have "same_outside (addrs ?t) h h3"
      using same_outside_trans [OF same_outside_trans [OF h1(3) h2(3)] h3(3)] by (rule same_outside_mono) (auto simp: ul)
    then show ?thesis using n h1 h2(1) h3 y False by (subst unlink_front.simps) (auto simp: split_beta root_addr_0 [OF l], blast)
  qed
qed simp

lemma set_left_link:
  assumes "fst y \<noteq> 0" "h (fst y) = Some (node_of y l1 l2 r1 r2 d)" "shape h u v l" "separate l" "fst y \<notin> addrs l"
  shows "\<exists>h'. set_left h (fst y) (root_addr l) = Some h' \<and> h' (fst y) = Some (node_of y (root_addr l) l2 r1 r2 d) \<and>
    shape h' (fst y) 0 l \<and> same_outside (insert (fst y) (addrs l)) h h'"
  using assms by (cases l) (auto simp: set_left_def node_ops same_outside_def)

lemma separate_erase:
  assumes "separate t" "avl t" "keys_sorted (inorder t)"
  shows "separate (erase_shape k t)" "addrs (erase_shape k t) \<subseteq> addrs t"
    "addrs (erase_shape k t) = fst ` {x \<in> set_tree t. item_key x \<noteq> k}"
proof -
  have i: "inorder (erase_shape k t) = filter (\<lambda>x. item_key x \<noteq> k) (inorder t)" using assms by (intro inorder_erase)
  show "separate (erase_shape k t)" using assms(1) by (simp add: separate_def i distinct_map_filter)
  have "set_tree (erase_shape k t) = {x \<in> set_tree t. item_key x \<noteq> k}" using arg_cong [OF i, of set] by simp
  then show "addrs (erase_shape k t) = fst ` {x \<in> set_tree t. item_key x \<noteq> k}" "addrs (erase_shape k t) \<subseteq> addrs t"
    by (auto simp: addrs_def)
qed

definition erases :: "('k, 'v) store \<Rightarrow> ('k, 'v) item tree \<Rightarrow> ('k, 'v) item tree \<Rightarrow> nat \<Rightarrow> (addr \<times> ('k, 'v) store \<times> nat) option \<Rightarrow> bool" where
  "erases h t t' sz res \<longleftrightarrow> (\<exists>h' lr rr. res = Some (root_addr t', h', sz) \<and> shape h' lr rr t' \<and> same_outside (addrs t) h h' \<and>
     (\<forall>a \<in> addrs t - addrs t'. h' a = None))"

text \<open>The node that takes the place of an erased one: its only child, or the first node of its right subtree.\<close>

lemma erase_found_child:
  assumes "shape h lr rr (Node l x r)" "separate (Node l x r)" "l = Leaf \<or> r = Leaf"
  shows "\<exists>h' u v. erase_found h sz (fst x) = Some (root_addr (if l \<noteq> Leaf then l else r), h', sz - 1) \<and>
    shape h' u v (if l \<noteq> Leaf then l else r) \<and> same_outside (addrs (Node l x r)) h h' \<and> h' (fst x) = None"
proof -
  let ?h = "h(fst x := None)"
  have "shape ?h (fst x) 0 l" "shape ?h 0 (fst x) r" using assms(1,2) by simp_all
  moreover have "erase_found h sz (fst x) = Some (root_addr (if l \<noteq> Leaf then l else r), ?h, sz - 1)"
    using assms root_addr_0 [of h "fst x" 0 l] root_addr_0 [of h 0 "fst x" r]
    by (auto simp: erase_found_def node_at_def free_avl_node_def)
  ultimately show ?thesis by (auto simp: same_outside_def)
qed

lemma erase_found_successor:
  assumes "shape h lr rr (Node l x r)" "separate (Node l x r)" "avl r" "size r < 2 ^ 64" "l \<noteq> Leaf" "r \<noteq> Leaf"
  shows "\<exists>h' u v d. erase_found h sz (fst x) = Some (fst (snd (unlink_shape r)), h', sz - 1) \<and>
    open_shape h' u v d l (snd (unlink_shape r)) (fst (unlink_shape r)) \<and> same_outside (addrs (Node l x r)) h h' \<and> h' (fst x) = None"
proof -
  let ?y = "snd (unlink_shape r)" and ?r = "fst (unlink_shape r)"
  have l: "shape h (fst x) 0 l" and r: "shape h 0 (fst x) r" and n: "node_at h (fst x) = Some (node_of x (root_addr l) lr (root_addr r) rr (max (height l) (height r) + 1))"
    using assms(1) by (simp_all add: node_at_def)
  have ur: "addrs r = insert (fst ?y) (addrs ?r)" "separate ?r" "fst ?y \<notin> addrs ?r"
    using unlink_facts [OF assms(6)] assms(2) by simp_all
  obtain h1 lr1 rr1 l1 l2 r1 r2 d where h1: "unlink_front h (root_addr r) = Some (root_addr ?r, fst ?y, h1)"
    "shape h1 lr1 rr1 ?r" "same_outside (addrs r) h h1" "h1 (fst ?y) = Some (node_of ?y l1 l2 r1 r2 d)" "fst ?y \<noteq> 0"
    using unlink_front_shape [OF r _ assms(3,4,6)] assms(2) by auto
  have l1: "shape h1 (fst x) 0 l" using assms(2) by (intro shape_outside [OF l h1(3)]) auto
  obtain h2 where h2: "set_left h1 (fst ?y) (root_addr l) = Some h2" "h2 (fst ?y) = Some (node_of ?y (root_addr l) l2 r1 r2 d)"
    "shape h2 (fst ?y) 0 l" "same_outside (insert (fst ?y) (addrs l)) h1 h2"
    using set_left_link [OF h1(5,4) l1] assms(2) ur by auto
  have r2: "shape h2 lr1 rr1 ?r" using assms(2) ur by (intro shape_outside [OF h1(2) h2(4)]) auto
  obtain h3 where h3: "set_right h2 (fst ?y) (root_addr ?r) = Some h3" "open_shape h3 l2 r2 d l ?y ?r"
    "same_outside (insert (fst ?y) (addrs ?r)) h2 h3"
    using set_right_open [OF h1(5) h2(2,3) r2] assms(2) ur by auto
  have x: "h3 (fst x) = h (fst x)" using h1(3) h2(4) h3(3) ur assms(2) by (auto simp: same_outside_def)
  let ?h = "h3(fst x := None)"
  have "open_shape ?h l2 r2 d l ?y ?r" using h3(2) assms(2) ur by (auto simp: open_shape_def)
  moreover have "same_outside (addrs (Node l x r)) h ?h"
    using same_outside_trans [OF same_outside_trans [OF h1(3) h2(4)] h3(3)] ur by (auto simp: same_outside_def)
  moreover have "erase_found h sz (fst x) = Some (fst ?y, ?h, sz - 1)"
    using n h1(1) h2(1) h3(1) x assms(5,6) root_addr_0 [OF l] root_addr_0 [OF r]
    by (auto simp: erase_found_def free_avl_node_def node_at_def split: if_splits)
  ultimately show ?thesis by auto
qed

lemma erases_intro:
  assumes "rebalances h1 (Node l x r) t' res1" "\<And>q h'. res1 = Some (q, h') \<Longrightarrow> res = Some (q, h', sz)"
    "same_outside A h h1" "A \<subseteq> addrs t" "addrs (Node l x r) \<subseteq> addrs t"
    "\<And>a. a \<in> addrs t - addrs t' \<Longrightarrow> h1 a = None" "addrs (Node l x r) \<subseteq> addrs t'"
  shows "erases h t t' sz res"
proof -
  obtain h' lr rr where h': "res1 = Some (root_addr t', h')" "shape h' lr rr t'" "same_outside (addrs (Node l x r)) h1 h'"
    using assms(1) by (auto simp: rebalances_def)
  have "same_outside (addrs t) h h'"
    using same_outside_trans [OF assms(3) h'(3)] by (rule same_outside_mono) (rule Un_least [OF assms(4,5)])
  moreover have "\<forall>a \<in> addrs t - addrs t'. h' a = None"
  proof
    fix a assume a: "a \<in> addrs t - addrs t'"
    then have "a \<notin> addrs (Node l x r)" using assms(7) by blast
    then show "h' a = None" using h'(3) assms(6) [OF a] by (simp add: same_outside_def del: addrs_simps)
  qed
  ultimately show ?thesis using assms(2) [OF h'(1)] h'(2) unfolding erases_def by blast
qed

lemma addrs_erase_bal [simp]: "addrs (erase_bal l x r) = addrs (Node l x r)"
proof -
  have "set (inorder (erase_bal l x r)) = set (inorder l @ x # inorder r)" by (simp only: inorder_erase_bal)
  then show ?thesis by (simp add: addrs_def image_Un del: inorder_erase_bal)
qed

lemma erase_recursive_shape:
  assumes "shape h lr rr t" "separate t" "avl t" "keys_sorted (inorder t)" "size t < 2 ^ 64"
  shows "erases h t (erase_shape k t) (if k \<in> item_key ` set_tree t then sz - 1 else sz) (erase_recursive h sz (root_addr t) k)"
  using assms
proof (induction t arbitrary: h lr rr)
  case Leaf
  then show ?case by (simp add: erases_def erase_recursive.simps [of h sz 0] same_outside_def)
next
  case (Node l x r)
  let ?t = "Node l x r"
  have n: "node_at h (fst x) = Some (node_of x (root_addr l) lr (root_addr r) rr (max (height l) (height r) + 1))" "fst x \<noteq> 0"
    using Node.prems(1) by (simp_all add: node_at_def)
  have l: "shape h (fst x) 0 l" and r: "shape h 0 (fst x) r" using Node.prems(1) by simp_all
  have ht: "height l < 200" "height r < 200" using avl_height_bound [of ?t] Node.prems(3,5) by auto
  note prems = Node.prems
  consider "k < item_key x" | "item_key x < k" | "k = item_key x" by force
  then show ?case
  proof cases
    case 1
    let ?l = "erase_shape k l" and ?sz = "if k \<in> item_key ` set_tree l then sz - 1 else sz"
    have sl: "separate ?l" "addrs ?l \<subseteq> addrs l" using separate_erase [of l k] prems by auto
    have keys: "k \<in> item_key ` set_tree ?t \<longleftrightarrow> k \<in> item_key ` set_tree l" using 1 prems(4) by force
    obtain h1 lr1 rr1 where h1: "erase_recursive h sz (root_addr l) k = Some (root_addr ?l, h1, ?sz)"
      "shape h1 lr1 rr1 ?l" "same_outside (addrs l) h h1" "\<forall>a \<in> addrs l - addrs ?l. h1 a = None"
      using Node.IH(1) [OF l] prems unfolding erases_def by auto
    have x1: "h1 (fst x) = Some (node_of x (root_addr l) lr (root_addr r) rr (max (height l) (height r) + 1))"
      using n h1(3) prems by (auto simp: same_outside_def node_at_def)
    have r1: "shape h1 0 (fst x) r" using prems by (intro shape_outside [OF r h1(3)]) auto
    have sep: "separate (Node ?l x r)" using sl prems by auto
    obtain h2 where h2: "set_left h1 (fst x) (root_addr ?l) = Some h2" "open_shape h2 lr rr (max (height l) (height r) + 1) ?l x r"
      "same_outside (insert (fst x) (addrs ?l)) h1 h2"
      using set_left_open [OF n(2) x1 h1(2) r1 sep] by blast
    have bound: "height (Node ?l x r) < 2 ^ 31" using avl_erase [of l k] prems(3) ht by auto
    show ?thesis
    proof (rule erases_intro [of h2 ?l x r _ "rebalance_after_erase h2 (fst x)" _ _ "insert (fst x) (addrs l)"])
      show "rebalances h2 (Node ?l x r) (erase_shape k ?t) (rebalance_after_erase h2 (fst x))"
        using rebalance_after_erase_shape [OF h2(2) sep bound] 1 by simp
      show "erase_recursive h sz (root_addr ?t) k = Some (q, h', if k \<in> item_key ` set_tree ?t then sz - 1 else sz)"
        if "rebalance_after_erase h2 (fst x) = Some (q, h')" for q h'
        unfolding keys using that 1 n h1(1) h2(1) by (subst erase_recursive.simps) simp
      show "same_outside (insert (fst x) (addrs l)) h h2"
        using same_outside_trans [OF h1(3) h2(3)] by (rule same_outside_mono) (use sl in auto)
      show "h2 a = None" if "a \<in> addrs ?t - addrs (erase_shape k ?t)" for a
        using that 1 h1(4) h2(3) by (auto simp: same_outside_def)
    qed (use 1 sl in auto)
  next
    case 2
    then have ge: "\<not> k < item_key x" by simp
    let ?r = "erase_shape k r" and ?sz = "if k \<in> item_key ` set_tree r then sz - 1 else sz"
    have sr: "separate ?r" "addrs ?r \<subseteq> addrs r" using separate_erase [of r k] prems by auto
    have keys: "k \<in> item_key ` set_tree ?t \<longleftrightarrow> k \<in> item_key ` set_tree r" using 2 prems(4) by force
    obtain h1 lr1 rr1 where h1: "erase_recursive h sz (root_addr r) k = Some (root_addr ?r, h1, ?sz)"
      "shape h1 lr1 rr1 ?r" "same_outside (addrs r) h h1" "\<forall>a \<in> addrs r - addrs ?r. h1 a = None"
      using Node.IH(2) [OF r] prems unfolding erases_def by auto
    have x1: "h1 (fst x) = Some (node_of x (root_addr l) lr (root_addr r) rr (max (height l) (height r) + 1))"
      using n h1(3) prems by (auto simp: same_outside_def node_at_def)
    have l1: "shape h1 (fst x) 0 l" using prems by (intro shape_outside [OF l h1(3)]) auto
    have sep: "separate (Node l x ?r)" using sr prems by auto
    obtain h2 where h2: "set_right h1 (fst x) (root_addr ?r) = Some h2" "open_shape h2 lr rr (max (height l) (height r) + 1) l x ?r"
      "same_outside (insert (fst x) (addrs ?r)) h1 h2"
      using set_right_open [OF n(2) x1 l1 h1(2) sep] by blast
    have bound: "height (Node l x ?r) < 2 ^ 31" using avl_erase [of r k] prems(3) ht by auto
    show ?thesis
    proof (rule erases_intro [of h2 l x ?r _ "rebalance_after_erase h2 (fst x)" _ _ "insert (fst x) (addrs r)"])
      show "rebalances h2 (Node l x ?r) (erase_shape k ?t) (rebalance_after_erase h2 (fst x))"
        using rebalance_after_erase_shape [OF h2(2) sep bound] 2 ge by simp
      show "erase_recursive h sz (root_addr ?t) k = Some (q, h', if k \<in> item_key ` set_tree ?t then sz - 1 else sz)"
        if "rebalance_after_erase h2 (fst x) = Some (q, h')" for q h'
        unfolding keys using that 2 ge n h1(1) h2(1) by (subst erase_recursive.simps) simp
      show "same_outside (insert (fst x) (addrs r)) h h2"
        using same_outside_trans [OF h1(3) h2(3)] by (rule same_outside_mono) (use sr in auto)
      show "h2 a = None" if "a \<in> addrs ?t - addrs (erase_shape k ?t)" for a
        using that 2 ge h1(4) h2(3) by (auto simp: same_outside_def)
    qed (use 2 ge sr in auto)
  next
    case 3
    have keys: "k \<in> item_key ` set_tree ?t" using 3 by simp
    show ?thesis
    proof (cases "l = Leaf \<or> r = Leaf")
      case True
      let ?c = "if l \<noteq> Leaf then l else r"
      obtain h1 u v where h1: "erase_found h sz (fst x) = Some (root_addr ?c, h1, sz - 1)" "shape h1 u v ?c"
        "same_outside (addrs ?t) h h1" "h1 (fst x) = None"
        using erase_found_child [OF prems(1,2) True] by blast
      have c: "erase_shape k ?t = ?c" "addrs ?t - addrs ?c = {fst x}" using True 3 prems(2,3) by auto
      show ?thesis
      proof (cases ?c)
        case Leaf
        then show ?thesis using h1 c 3 n keys by (subst erase_recursive.simps) (auto simp: erases_def)
      next
        case (Node cl cx cr)
        have sep: "separate ?c" and av: "avl ?c" and sz: "size ?c < 2 ^ 64" using prems by auto
        have o: "open_shape h1 u v (max (height cl) (height cr) + 1) cl cx cr" using h1(2) unfolding Node by (simp only: open_shape_shape)
        have bound: "height (Node cl cx cr) < 2 ^ 31" using avl_height_bound [OF av sz] unfolding Node by simp
        have "rebalances h1 (Node cl cx cr) ?c (rebalance_after_erase h1 (fst cx))"
          using rebalance_after_erase_shape [OF o _ bound] sep av unfolding Node by (simp add: erase_bal_balanced del: addrs_simps)
        then show ?thesis unfolding c(1)
        proof (rule erases_intro [OF _ _ h1(3)])
          show "erase_recursive h sz (root_addr ?t) k = Some (q, h', if k \<in> item_key ` set_tree ?t then sz - 1 else sz)"
            if "rebalance_after_erase h1 (fst cx) = Some (q, h')" for q h'
            using that 3 n h1(1,2) keys unfolding Node by (subst erase_recursive.simps) auto
          show "addrs (Node cl cx cr) \<subseteq> addrs ?t" using Node by (auto split: if_splits)
          show "addrs (Node cl cx cr) \<subseteq> addrs ?c" using Node by simp
          show "h1 a = None" if "a \<in> addrs ?t - addrs ?c" for a using that h1(4) unfolding c(2) by simp
        qed simp
      qed
    next
      case False
      let ?y = "snd (unlink_shape r)" and ?r = "fst (unlink_shape r)"
      have ur: "addrs r = insert (fst ?y) (addrs ?r)" "separate ?r" "fst ?y \<notin> addrs ?r"
        using unlink_facts [of r] prems(2) False by simp_all
      obtain h1 u v d where h1: "erase_found h sz (fst x) = Some (fst ?y, h1, sz - 1)" "open_shape h1 u v d l ?y ?r"
        "same_outside (addrs ?t) h h1" "h1 (fst x) = None"
        using erase_found_successor [OF prems(1,2), of sz] prems(3,5) False by auto
      have t': "erase_shape k ?t = erase_bal l ?y ?r" using False 3 by (simp add: split_beta)
      have sep: "separate (Node l ?y ?r)" using ur prems(2) by auto
      have bound: "height (Node l ?y ?r) < 2 ^ 31" using avl_unlink [of r] prems(3) ht False by auto
      show ?thesis unfolding t'
      proof (rule erases_intro [OF rebalance_after_erase_shape [OF h1(2) sep bound] _ h1(3)])
        show "erase_recursive h sz (root_addr ?t) k = Some (q, h', if k \<in> item_key ` set_tree ?t then sz - 1 else sz)"
          if "rebalance_after_erase h1 (fst ?y) = Some (q, h')" for q h'
          using that 3 n h1(1,2) keys by (subst erase_recursive.simps) (auto simp: open_shape_def)
      qed (use h1(4) ur in auto)
    qed
  qed
qed

end
