(* ===== verification/Avl_Properties.thy ===== *)
theory Avl_Properties
  imports Avl_Shape Simulation
begin

text \<open>
  The operations of the AVL tree as a whole: lookup, insertion, erasure, iteration in both directions and sessions of
  calls.  A tree represents the sequence of its nodes in key order.
\<close>

section \<open>Representation\<close>

definition avl_shape :: "('k::linorder, 'v) avl_tree \<Rightarrow> ('k, 'v) item tree \<Rightarrow> bool" where
  "avl_shape t T \<longleftrightarrow> shape (avl_nodes t) 0 0 T \<and> separate T \<and> avl T \<and> keys_sorted (inorder T) \<and> avl_root t = root_addr T \<and>
     avl_size t = size T \<and> dom (avl_nodes t) = addrs T \<and> (\<forall>a \<in> addrs T. a < 2 ^ 64)"

definition avl_rep :: "('k::linorder, 'v) avl_tree \<Rightarrow> ('k, 'v) item list \<Rightarrow> bool" where
  "avl_rep t xs \<longleftrightarrow> (\<exists>T. avl_shape t T \<and> inorder T = xs)"

lemma avl_rep_empty: "avl_rep avl_tree []"
proof -
  have "avl_shape avl_tree (Leaf :: ('a, 'b) item tree)" by (simp add: avl_shape_def avl_tree_def)
  then show ?thesis by (auto simp: avl_rep_def)
qed

lemma addrs_inorder: "addrs T = fst ` set (inorder T)"
  by (simp add: addrs_def)

lemma size_bound:
  assumes "separate T" "\<forall>a \<in> addrs T. a < 2 ^ 64" "0 \<notin> addrs T"
  shows "size T + 1 \<le> 2 ^ 64"
proof -
  have "size T = card (addrs T)"
    using assms(1) distinct_card [of "map fst (inorder T)"] by (simp add: separate_def addrs_inorder)
  also have "\<dots> \<le> card {1 ..< 2 ^ 64 :: nat}"
    using assms(2,3) by (intro card_mono) (auto simp: Suc_le_eq intro!: gr0I)
  finally show ?thesis by simp
qed

lemma avl_shape_size: "avl_shape t T \<Longrightarrow> size T < 2 ^ 64"
  using size_bound [of T] shape_nonzero [of "avl_nodes t" 0 0 T] by (auto simp: avl_shape_def)

lemma clear_root_links_shape:
  assumes "shape h lr rr T" "separate T" "T \<noteq> Leaf"
  shows "\<exists>h'. clear_root_links h (root_addr T) = Some h' \<and> shape h' 0 0 T \<and> same_outside {root_addr T} h h'"
  using assms by (cases T) (auto simp: clear_root_links_def node_ops same_outside_def node_of_def)

lemma dom_shape:
  assumes "same_outside A h h'" "shape h' lr rr T" "addrs T \<subseteq> A" "dom h \<subseteq> A" "\<And>a. a \<in> A - addrs T \<Longrightarrow> h' a = None"
  shows "dom h' = addrs T"
proof
  show "dom h' \<subseteq> addrs T"
  proof
    fix a assume a: "a \<in> dom h'"
    have "h' a = h a" if "a \<notin> A" using assms(1) that by (simp add: same_outside_def)
    then have "a \<in> A" using a assms(4) by (cases "a \<in> A") (auto simp: dom_def)
    then show "a \<in> addrs T" using assms(5) [of a] a by (cases "a \<in> addrs T") (auto simp: dom_def)
  qed
  show "addrs T \<subseteq> dom h'" using assms(2) by (rule shape_dom)
qed

section \<open>Lookup\<close>

lemma find_node_shape:
  assumes "shape h lr rr T" "keys_sorted (inorder T)"
  shows "x \<in> set_tree T \<Longrightarrow> item_key x = k \<Longrightarrow> find_node h (root_addr T) k = Some (fst x)"
    and "k \<notin> item_key ` set_tree T \<Longrightarrow> find_node h (root_addr T) k = Some 0"
  using assms
proof (induction T arbitrary: lr rr)
  case Leaf
  { case 1 then show ?case by simp }
  { case 2 then show ?case by (simp add: find_node.simps [of h 0]) }
next
  case (Node l y r)
  { case 1
    have n: "node_at h (fst y) = Some (node_of y (root_addr l) lr (root_addr r) rr (max (height l) (height r) + 1))" "fst y \<noteq> 0"
      using 1(3) by (simp_all add: node_at_def)
    consider "k = item_key y" "x = y" | "k > item_key y" "x \<in> set_tree r" | "k < item_key y" "x \<in> set_tree l"
      using 1(1,2,4) by force
    then show ?case
    proof cases
      case c: 2
      then have "find_node h (root_addr r) k = Some (fst x)" using Node(3) [of 0 "fst y"] 1(2,3,4) by simp
      then show ?thesis using n c by (subst find_node.simps) auto
    next
      case c: 3
      then have "find_node h (root_addr l) k = Some (fst x)" using Node(1) [of "fst y" 0] 1(2,3,4) by simp
      then show ?thesis using n c by (subst find_node.simps) auto
    qed (use n in \<open>subst find_node.simps, simp\<close>) }
  { case 2
    have n: "node_at h (fst y) = Some (node_of y (root_addr l) lr (root_addr r) rr (max (height l) (height r) + 1))" "fst y \<noteq> 0"
      using 2(2) by (simp_all add: node_at_def)
    show ?case
      using n Node(2) [of "fst y" 0] Node(4) [of 0 "fst y"] 2 by (subst find_node.simps) (auto simp: image_Un) }
qed

section \<open>Insertion and erasure\<close>

lemma keys_sorted_insert:
  "keys_sorted xs \<Longrightarrow> item_key y \<notin> item_key ` set xs \<Longrightarrow> keys_sorted (insert_item y xs)"
  by (induction xs) (auto simp: not_less order.order_iff_strict)

lemma length_insert_item [simp]: "length (insert_item y xs) = length xs + 1"
  by (induction xs) auto

lemma length_without:
  "keys_sorted xs \<Longrightarrow> length (filter (\<lambda>x. item_key x \<noteq> k) xs) = (if k \<in> item_key ` set xs then length xs - 1 else length xs)"
proof (induction xs)
  case (Cons x xs)
  have "k \<notin> item_key ` set xs" if "k = item_key x" using Cons.prems that by force
  then show ?case using Cons by (cases xs) auto
qed simp

lemma insert_value_present:
  assumes "avl_shape t T" "x \<in> set_tree T" "item_key x = k"
  shows "insert_value new k v t = Some ((fst x, False), t)"
proof -
  have "avl_find t k = Some (fst x)" using assms find_node_shape(1) [of "avl_nodes t" 0 0 T x k] by (auto simp: avl_find_def avl_shape_def)
  moreover have "fst x \<noteq> 0" using shape_nonzero [of "avl_nodes t" 0 0 T] assms(1,2) by (force simp: avl_shape_def addrs_def)
  ultimately show ?thesis by (simp add: insert_value_def avl_end_def)
qed

lemma find_absent: "avl_shape t T \<Longrightarrow> k \<notin> item_key ` set_tree T \<Longrightarrow> avl_find t k = Some 0"
  using find_node_shape(2) [of "avl_nodes t" 0 0 T k] by (auto simp: avl_find_def avl_shape_def)

lemma insert_value_full:
  assumes "avl_shape t T" "k \<notin> item_key ` set_tree T"
  shows "\<exists>t'. insert_value 0 k v t = Some ((0, False), t') \<and> avl_shape t' T"
proof -
  obtain h' where h': "insert_recursive 0 (avl_nodes t) (avl_size t) (avl_root t) k v = Some (root_addr T, h', avl_size t)"
    "shape h' 0 0 T" "same_outside (addrs T) (avl_nodes t) h'"
    using insert_recursive_full [of "avl_nodes t" 0 0 T "avl_size t" k v] assms(1) avl_shape_size [OF assms(1)]
    by (auto simp: avl_shape_def)
  have "dom h' = addrs T" using dom_shape [OF h'(3,2)] assms(1) by (auto simp: avl_shape_def)
  then have "avl_shape \<lparr>avl_nodes = h', avl_root = root_addr T, avl_size = avl_size t\<rparr> T"
    using assms(1) h'(2) by (simp add: avl_shape_def)
  then show ?thesis using h'(1) find_absent [OF assms] by (simp add: insert_value_def avl_end_def Let_def)
qed

lemma insert_value_new:
  assumes t: "avl_shape t T" and k: "k \<notin> item_key ` set_tree T" and new: "new \<noteq> 0" "new < 2 ^ 64" "new \<notin> addrs T"
  shows "\<exists>t'. insert_value new k v t = Some ((new, True), t') \<and> avl_shape t' (insert_shape new k v T)"
proof -
  let ?T = "insert_shape new k v T"
  have s: "separate ?T" "addrs ?T = insert new (addrs T)"
    using separate_insert [of T new k v] t k new by (simp_all add: avl_shape_def)
  have i: "inorder ?T = insert_item (new, k, v) (inorder T)" using t k by (intro inorder_insert) (simp_all add: avl_shape_def)
  have sorted: "keys_sorted (inorder ?T)"
    unfolding i using t k keys_sorted_insert [of "inorder T" "(new, k, v)"] by (simp add: avl_shape_def)
  have set: "set_tree ?T = insert (new, k, v) (set_tree T)" using arg_cong [OF i, of set] by simp
  have size: "size ?T = size T + 1" using arg_cong [OF i, of length] by simp
  have "0 \<notin> addrs ?T" using s(2) new(1) t shape_nonzero [of "avl_nodes t" 0 0 T] by (auto simp: avl_shape_def)
  then have bound: "size T + 1 < 2 ^ 64"
    using size_bound [of ?T] s t new(2) size by (auto simp: avl_shape_def)
  obtain h1 lr rr where h1: "insert_recursive new (avl_nodes t) (avl_size t) (avl_root t) k v = Some (root_addr ?T, h1, avl_size t + 1)"
    "shape h1 lr rr ?T" "same_outside (insert new (addrs T)) (avl_nodes t) h1"
    using insert_recursive_shape [of "avl_nodes t" 0 0 T new k "avl_size t" v] t k new bound by (auto simp: avl_shape_def)
  have ne: "?T \<noteq> Leaf" using size by auto
  obtain h2 where h2: "clear_root_links h1 (root_addr ?T) = Some h2" "shape h2 0 0 ?T" "same_outside {root_addr ?T} h1 h2"
    using clear_root_links_shape [OF h1(2) s(1) ne] by blast
  have o: "same_outside (insert new (addrs T)) (avl_nodes t) h2"
    using same_outside_trans [OF h1(3) h2(3)] by (rule same_outside_mono) (use root_in_addrs [OF ne] s in auto)
  have dom: "dom h2 = addrs ?T" using dom_shape [OF o h2(2)] s t by (auto simp: avl_shape_def)
  let ?t = "\<lparr>avl_nodes = h2, avl_root = root_addr ?T, avl_size = avl_size t + 1\<rparr>"
  have rep: "avl_shape ?t ?T"
    using h2(2) s sorted size dom t new(2) avl_insert [of T new k v] by (auto simp: avl_shape_def)
  have "avl_find ?t k = Some new"
    using find_node_shape(1) [OF h2(2) sorted, of "(new, k, v)" k] set by (simp add: avl_find_def)
  moreover have "root_addr ?T \<noteq> 0" using root_addr_0 [OF h2(2)] ne by simp
  ultimately show ?thesis
    using h1(1) h2(1) find_absent [OF t k] rep by (auto simp: insert_value_def avl_end_def Let_def)
qed

lemma avl_erase_key_shape:
  assumes t: "avl_shape t T"
  shows "\<exists>t'. avl_erase_key k t = Some (if k \<in> item_key ` set_tree T then 1 else 0, t') \<and> avl_shape t' (erase_shape k T)"
proof -
  let ?T = "erase_shape k T" and ?sz = "if k \<in> item_key ` set_tree T then avl_size t - 1 else avl_size t"
  have s: "separate ?T" "addrs ?T \<subseteq> addrs T" using separate_erase [of T k] t by (auto simp: avl_shape_def)
  have i: "inorder ?T = filter (\<lambda>x. item_key x \<noteq> k) (inorder T)" using t by (intro inorder_erase) (simp_all add: avl_shape_def)
  have sorted: "keys_sorted (inorder ?T)"
    unfolding i using t by (simp add: keys_sorted_def avl_shape_def sorted_wrt_map sorted_wrt_filter)
  obtain h1 lr rr where h1: "erase_recursive (avl_nodes t) (avl_size t) (avl_root t) k = Some (root_addr ?T, h1, ?sz)"
    "shape h1 lr rr ?T" "same_outside (addrs T) (avl_nodes t) h1" "\<forall>a \<in> addrs T - addrs ?T. h1 a = None"
    using erase_recursive_shape [of "avl_nodes t" 0 0 T k "avl_size t"] t avl_shape_size [OF t]
    unfolding avl_shape_def erases_def by auto
  obtain h2 where h2: "(if root_addr ?T \<noteq> 0 then clear_root_links h1 (root_addr ?T) else Some h1) = Some h2" "shape h2 0 0 ?T"
    "same_outside (addrs ?T) h1 h2"
  proof (cases "?T = Leaf")
    case False
    then show ?thesis using that clear_root_links_shape [OF h1(2) s(1) False] root_addr_0 [OF h1(2)] root_in_addrs [OF False]
      by (auto intro: same_outside_mono)
  qed (auto simp: same_outside_def intro: that)
  have o: "same_outside (addrs T) (avl_nodes t) h2"
    using same_outside_trans [OF h1(3) h2(3)] by (rule same_outside_mono) (use s in auto)
  have dom: "dom h2 = addrs ?T"
    using h1(4) h2(3) t by (intro dom_shape [OF o h2(2) s(2)]) (auto simp: avl_shape_def same_outside_def)
  have size: "size ?T = ?sz"
    using arg_cong [OF i, of length] t length_without [of "inorder T" k] by (auto simp: avl_shape_def)
  have "avl_shape \<lparr>avl_nodes = h2, avl_root = root_addr ?T, avl_size = ?sz\<rparr> ?T"
    using h2(2) s sorted size dom t avl_erase [of T k] by (auto simp: avl_shape_def)
  moreover have "k \<in> item_key ` set_tree T \<Longrightarrow> avl_size t \<noteq> 0"
    using t by (cases T) (auto simp: avl_shape_def)
  ultimately show ?thesis using h1(1) h2(1)
    by (cases "k \<in> item_key ` set_tree T") (simp_all add: avl_erase_key_def Let_def)
qed

section \<open>Iteration\<close>

definition first_addr :: "('k, 'v) item list \<Rightarrow> addr" where
  "first_addr xs = (if xs = [] then 0 else fst (hd xs))"

definition last_addr :: "('k, 'v) item list \<Rightarrow> addr" where
  "last_addr xs = (if xs = [] then 0 else fst (last xs))"

lemma find_front_shape: "shape h lr rr T \<Longrightarrow> find_front h (root_addr T) = Some (first_addr (inorder T))"
proof (induction T arbitrary: lr rr)
  case (Node l x r)
  have n: "node_at h (fst x) = Some (node_of x (root_addr l) lr (root_addr r) rr (max (height l) (height r) + 1))" "fst x \<noteq> 0"
    using Node.prems by (simp_all add: node_at_def)
  show ?case using n Node root_addr_0 [of h "fst x" 0 l]
    by (subst find_front.simps; cases l) (auto simp: first_addr_def hd_append)
qed (simp add: find_front.simps first_addr_def)

lemma find_back_shape: "shape h lr rr T \<Longrightarrow> find_back h (root_addr T) = Some (last_addr (inorder T))"
proof (induction T arbitrary: lr rr)
  case (Node l x r)
  have n: "node_at h (fst x) = Some (node_of x (root_addr l) lr (root_addr r) rr (max (height l) (height r) + 1))" "fst x \<noteq> 0"
    using Node.prems by (simp_all add: node_at_def)
  show ?case using n Node root_addr_0 [of h 0 "fst x" r]
    by (subst find_back.simps; cases r) (auto simp: last_addr_def)
qed (simp add: find_back.simps last_addr_def)

lemma nonempty_inorder [simp]: "inorder T = [] \<longleftrightarrow> T = Leaf"
  by (cases T) auto

text \<open>From the last node of a subtree the climb goes on at its root.\<close>

lemma move_forward_last:
  assumes "shape (avl_nodes t) lr rr T" "T \<noteq> Leaf"
  shows "move_forward t (fst (last (inorder T))) = climb_forward (avl_nodes t) (root_addr T)"
  using assms
proof (induction T arbitrary: lr rr)
  case (Node l x r)
  have n: "node_at (avl_nodes t) (fst x) = Some (node_of x (root_addr l) lr (root_addr r) rr (max (height l) (height r) + 1))" "fst x \<noteq> 0"
    and r: "shape (avl_nodes t) 0 (fst x) r"
    using Node.prems by (simp_all add: node_at_def)
  show ?case
  proof (cases r)
    case Leaf
    then show ?thesis using n by (subst climb_forward.simps) (simp add: move_forward_def)
  next
    case r': (Node rl y rr')
    then have "climb_forward (avl_nodes t) (fst y) = climb_forward (avl_nodes t) (fst x)"
      using r n(2) by (subst climb_forward.simps) (simp add: node_at_def)
    then show ?thesis using Node.IH(2) [OF r] r' by simp
  qed
qed simp

lemma move_backward_first:
  assumes "shape (avl_nodes t) lr rr T" "T \<noteq> Leaf" "lr = 0 \<or> rr = 0"
  shows "move_backward t (fst (hd (inorder T))) = climb_backward (avl_nodes t) (root_addr T)"
  using assms
proof (induction T arbitrary: lr rr)
  case (Node l x r)
  have n: "node_at (avl_nodes t) (fst x) = Some (node_of x (root_addr l) lr (root_addr r) rr (max (height l) (height r) + 1))" "fst x \<noteq> 0"
    and l: "shape (avl_nodes t) (fst x) 0 l"
    using Node.prems by (simp_all add: node_at_def)
  show ?case
  proof (cases l)
    case Leaf
    then show ?thesis using n Node.prems(3) by (subst climb_backward.simps) (auto simp: move_backward_def)
  next
    case l': (Node ll y lr')
    then have "climb_backward (avl_nodes t) (fst y) = climb_backward (avl_nodes t) (fst x)"
      using l n(2) by (subst climb_backward.simps) (simp add: node_at_def)
    then show ?thesis using Node.IH(1) [OF l] l' by (cases "ll = Leaf") (simp_all add: hd_append)
  qed
qed simp

lemma move_forward_next:
  assumes "shape (avl_nodes t) lr rr T" "Suc i < size T"
  shows "move_forward t (fst (inorder T ! i)) = Some (fst (inorder T ! Suc i))"
  using assms
proof (induction T arbitrary: lr rr i)
  case (Node l x r)
  have n: "node_at (avl_nodes t) (fst x) = Some (node_of x (root_addr l) lr (root_addr r) rr (max (height l) (height r) + 1))" "fst x \<noteq> 0"
    and l: "shape (avl_nodes t) (fst x) 0 l" and r: "shape (avl_nodes t) 0 (fst x) r"
    using Node.prems by (simp_all add: node_at_def)
  consider "Suc i < size l" | "Suc i = size l" | "i = size l" | j where "i = Suc (size l) + j"
    by (metis add_Suc less_iff_Suc_add linorder_neqE_nat not_less_eq)
  then show ?case
  proof cases
    case 1
    then show ?thesis using Node.IH(1) [OF l 1] by (simp add: nth_append)
  next
    case 2
    then obtain ll y lr' where l': "l = Node ll y lr'" by (cases l) auto
    have "climb_forward (avl_nodes t) (fst y) = Some (fst x)"
      using l l' n(2) by (subst climb_forward.simps) (simp add: node_at_def)
    moreover have "l \<noteq> Leaf" "root_addr l = fst y" using l' by simp_all
    moreover have "inorder (Node l x r) ! i = last (inorder l)" "inorder (Node l x r) ! Suc i = x"
      using 2 \<open>l \<noteq> Leaf\<close> last_conv_nth [of "inorder l"] by (simp_all add: nth_append flip: 2)
    ultimately show ?thesis using move_forward_last [OF l] by simp
  next
    case 3
    then have "r \<noteq> Leaf" using Node.prems(2) by auto
    then show ?thesis using 3 n find_front_shape [OF r] root_addr_0 [OF r]
      by (cases "inorder r") (simp_all add: nth_append move_forward_def first_addr_def)
  next
    case 4
    then have "Suc j < size r" using Node.prems(2) by simp
    then show ?thesis using Node.IH(2) [OF r] 4 by (simp add: nth_append)
  qed
qed simp

lemma move_backward_prev:
  assumes "shape (avl_nodes t) lr rr T" "Suc i < size T"
  shows "move_backward t (fst (inorder T ! Suc i)) = Some (fst (inorder T ! i))"
  using assms
proof (induction T arbitrary: lr rr i)
  case (Node l x r)
  have n: "node_at (avl_nodes t) (fst x) = Some (node_of x (root_addr l) lr (root_addr r) rr (max (height l) (height r) + 1))" "fst x \<noteq> 0"
    and l: "shape (avl_nodes t) (fst x) 0 l" and r: "shape (avl_nodes t) 0 (fst x) r"
    using Node.prems by (simp_all add: node_at_def)
  consider "Suc i < size l" | "Suc i = size l" | "i = size l" | j where "i = Suc (size l) + j"
    by (metis add_Suc less_iff_Suc_add linorder_neqE_nat not_less_eq)
  then show ?case
  proof cases
    case 1
    then show ?thesis using Node.IH(1) [OF l 1] by (simp add: nth_append)
  next
    case 2
    then have "l \<noteq> Leaf" by auto
    moreover have "inorder l ! i = last (inorder l)" using 2 \<open>l \<noteq> Leaf\<close> last_conv_nth [of "inorder l"] by (simp flip: 2)
    ultimately show ?thesis using 2 n find_back_shape [OF l] root_addr_0 [OF l]
      by (simp add: nth_append move_backward_def last_addr_def)
  next
    case 3
    then obtain rl y rr' where r': "r = Node rl y rr'" using Node.prems(2) by (cases r) auto
    have "climb_backward (avl_nodes t) (fst y) = Some (fst x)"
      using r r' n(2) by (subst climb_backward.simps) (simp add: node_at_def)
    then show ?thesis using move_backward_first [OF r] r' 3 hd_conv_nth [of "inorder r"] by (simp add: nth_append)
  next
    case 4
    then have "Suc j < size r" using Node.prems(2) by simp
    then show ?thesis using Node.IH(2) [OF r] 4 by (simp add: nth_append)
  qed
qed simp

section \<open>Operations on the sequence\<close>

lemma avl_repE:
  assumes "avl_rep t xs"
  obtains T where "avl_shape t T" "inorder T = xs" "set_tree T = set xs" "size T = length xs"
proof -
  obtain T where T: "avl_shape t T" "inorder T = xs" using assms by (auto simp: avl_rep_def)
  then show ?thesis using that by (auto simp flip: T(2))
qed

lemma avl_rep_facts:
  assumes "avl_rep t xs"
  shows "keys_sorted xs" "distinct (map fst xs)" "avl_size t = length xs" "dom (avl_nodes t) = fst ` set xs"
    "avl_empty t \<longleftrightarrow> xs = []" "x \<in> set xs \<Longrightarrow> fst x \<noteq> 0"
proof -
  obtain T where T: "avl_shape t T" "inorder T = xs" "set_tree T = set xs" "size T = length xs" using assms by (rule avl_repE)
  show "keys_sorted xs" "distinct (map fst xs)" "avl_size t = length xs" "dom (avl_nodes t) = fst ` set xs" "avl_empty t \<longleftrightarrow> xs = []"
    using T by (simp_all add: avl_shape_def separate_def addrs_def avl_empty_def)
  show "fst x \<noteq> 0" if "x \<in> set xs"
  proof
    assume "fst x = 0"
    then have "0 \<in> addrs T" using that T(3) by (force simp: addrs_def)
    then show False using T(1) shape_nonzero [of "avl_nodes t" 0 0 T] by (simp add: avl_shape_def)
  qed
qed

lemma find_rep:
  assumes "avl_rep t xs"
  shows "x \<in> set xs \<Longrightarrow> item_key x = k \<Longrightarrow> avl_find t k = Some (fst x)" "k \<notin> item_key ` set xs \<Longrightarrow> avl_find t k = Some 0"
proof -
  obtain T where T: "avl_shape t T" "inorder T = xs" "set_tree T = set xs" "size T = length xs" using assms by (rule avl_repE)
  show "avl_find t k = Some (fst x)" if "x \<in> set xs" "item_key x = k"
    using find_node_shape(1) [of "avl_nodes t" 0 0 T x k] T that by (simp add: avl_shape_def avl_find_def)
  show "avl_find t k = Some 0" if "k \<notin> item_key ` set xs"
    using find_absent [OF T(1), of k] T(3) that by simp
qed

lemma get_shape:
  "shape h lr rr T \<Longrightarrow> x \<in> set_tree T \<Longrightarrow> fst x \<noteq> 0 \<and> map_option (\<lambda>n. (avl_key n, avl_value n)) (h (fst x)) = Some (snd x)"
  by (induction h lr rr T rule: shape.induct) auto

lemma get_rep:
  assumes "avl_rep t xs" "x \<in> set xs"
  shows "avl_get t (fst x) = Some (snd x)"
proof -
  obtain T where T: "avl_shape t T" "inorder T = xs" "set_tree T = set xs" "size T = length xs" using assms(1) by (rule avl_repE)
  then show ?thesis using get_shape [of "avl_nodes t" 0 0 T x] assms(2) by (simp add: avl_shape_def avl_get_def node_at_def)
qed

lemma insert_rep_present: "avl_rep t xs \<Longrightarrow> x \<in> set xs \<Longrightarrow> item_key x = k \<Longrightarrow> insert_value new k v t = Some ((fst x, False), t)"
  using insert_value_present [of t _ x k new v] by (auto simp: avl_rep_def)

lemma avl_repI: "avl_shape t T \<Longrightarrow> inorder T = xs \<Longrightarrow> avl_rep t xs"
  by (auto simp: avl_rep_def)

lemma insert_rep_full:
  assumes "avl_rep t xs" "k \<notin> item_key ` set xs"
  shows "\<exists>t'. insert_value 0 k v t = Some ((0, False), t') \<and> avl_rep t' xs"
proof -
  obtain T where T: "avl_shape t T" "inorder T = xs" "set_tree T = set xs" "size T = length xs" using assms(1) by (rule avl_repE)
  obtain t' where "insert_value 0 k v t = Some ((0, False), t')" "avl_shape t' T" using insert_value_full [OF T(1), of k v] T(3) assms(2) by auto
  then show ?thesis using avl_repI [OF _ T(2)] by blast
qed

lemma insert_rep_new:
  assumes "avl_rep t xs" "k \<notin> item_key ` set xs" "new \<noteq> 0" "new < 2 ^ 64" "new \<notin> fst ` set xs"
  shows "\<exists>t'. insert_value new k v t = Some ((new, True), t') \<and> avl_rep t' (insert_item (new, k, v) xs)"
proof -
  obtain T where T: "avl_shape t T" "inorder T = xs" "set_tree T = set xs" "size T = length xs" using assms(1) by (rule avl_repE)
  have i: "inorder (insert_shape new k v T) = insert_item (new, k, v) xs"
    using assms(2) inorder_insert [of T k new v] T by (simp add: avl_shape_def)
  obtain t' where "insert_value new k v t = Some ((new, True), t')" "avl_shape t' (insert_shape new k v T)"
    using insert_value_new [OF T(1), of k new v] T(3) assms(2-5) by (auto simp: addrs_def)
  then show ?thesis using avl_repI [OF _ i] by blast
qed

lemma erase_rep_key:
  assumes "avl_rep t xs"
  shows "\<exists>t'. avl_erase_key k t = Some (if k \<in> item_key ` set xs then 1 else 0, t') \<and> avl_rep t' (filter (\<lambda>x. item_key x \<noteq> k) xs)"
proof -
  obtain T where T: "avl_shape t T" "inorder T = xs" "set_tree T = set xs" "size T = length xs" using assms by (rule avl_repE)
  have i: "inorder (erase_shape k T) = filter (\<lambda>x. item_key x \<noteq> k) xs" using inorder_erase [of T k] T by (simp add: avl_shape_def)
  show ?thesis using avl_erase_key_shape [OF T(1), of k] avl_repI [OF _ i] unfolding T(3) by blast
qed

lemma forward_rep:
  assumes "avl_rep t (us @ x # vs)"
  shows "move_forward t (fst x) = Some (first_addr vs)"
proof -
  obtain T where T: "shape (avl_nodes t) 0 0 T" "inorder T = us @ x # vs" using assms by (auto simp: avl_rep_def avl_shape_def)
  have size: "size T = length us + 1 + length vs" using arg_cong [OF T(2), of length] by simp
  then have ne: "T \<noteq> Leaf" by auto
  show ?thesis
  proof (cases vs)
    case Nil
    have "climb_forward (avl_nodes t) (root_addr T) = Some 0" using T(1) ne
      by (subst climb_forward.simps; cases T) (auto simp: node_at_def)
    then show ?thesis using move_forward_last [OF T(1) ne] T(2) Nil by (simp add: first_addr_def)
  next
    case (Cons y ys)
    then show ?thesis using move_forward_next [OF T(1), of "length us"] T(2) size by (simp add: nth_append first_addr_def)
  qed
qed

lemma backward_rep:
  assumes "avl_rep t (us @ x # vs)"
  shows "move_backward t (fst x) = Some (last_addr us)"
proof -
  obtain T where T: "shape (avl_nodes t) 0 0 T" "inorder T = us @ x # vs" using assms by (auto simp: avl_rep_def avl_shape_def)
  have size: "size T = length us + 1 + length vs" using arg_cong [OF T(2), of length] by simp
  then have ne: "T \<noteq> Leaf" by auto
  show ?thesis
  proof (cases us rule: rev_cases)
    case Nil
    have "climb_backward (avl_nodes t) (root_addr T) = Some 0" using T(1) ne
      by (subst climb_backward.simps; cases T) (auto simp: node_at_def)
    then show ?thesis using move_backward_first [OF T(1) ne] T(2) Nil by (simp add: last_addr_def)
  next
    case (snoc ys y)
    then show ?thesis using move_backward_prev [OF T(1), of "length ys"] T(2) size by (simp add: nth_append last_addr_def)
  qed
qed

lemma begin_rep: "avl_rep t xs \<Longrightarrow> avl_begin t = Some (first_addr xs)"
  using find_front_shape [of "avl_nodes t" 0 0] by (auto simp: avl_rep_def avl_shape_def avl_begin_def)

lemma end_rep: "avl_rep t xs \<Longrightarrow> move_backward t (avl_end t) = Some (last_addr xs)"
  using find_back_shape [of "avl_nodes t" 0 0] by (auto simp: avl_rep_def avl_shape_def move_backward_def avl_end_def)

lemma keys_unique: "keys_sorted xs \<Longrightarrow> x \<in> set xs \<Longrightarrow> y \<in> set xs \<Longrightarrow> item_key x = item_key y \<Longrightarrow> x = y"
  by (induction xs) (auto simp: order.strict_iff_order)

lemma filter_key:
  assumes "keys_sorted (us @ x # vs)"
  shows "filter (\<lambda>y. item_key y \<noteq> item_key x) (us @ x # vs) = us @ vs"
proof -
  have "filter (\<lambda>y. item_key y \<noteq> item_key x) us = us" "filter (\<lambda>y. item_key y \<noteq> item_key x) vs = vs"
    using assms by (intro filter_all; force)+
  then show ?thesis by simp
qed

lemma erase_at_rep:
  assumes "avl_rep t (us @ x # vs)"
  shows "\<exists>t'. avl_erase_at (fst x) t = Some (first_addr vs, t') \<and> avl_rep t' (us @ vs)"
  using erase_rep_key [OF assms, of "item_key x"] filter_key [OF avl_rep_facts(1) [OF assms]] avl_rep_facts(6) [OF assms, of x]
    forward_rep [OF assms] get_rep [OF assms, of x]
  by (auto simp: avl_erase_at_def avl_end_def split_beta)

lemma clear_rep_avl: "avl_rep t xs \<Longrightarrow> \<exists>t'. avl_clear t = Some t' \<and> avl_rep t' []"
proof (induction xs arbitrary: t rule: rev_induct)
  case Nil
  then show ?case by (subst avl_clear.simps) (simp add: avl_rep_facts(5))
next
  case (snoc x xs)
  obtain t' where t': "avl_erase_at (fst x) t = Some (0, t')" "avl_rep t' xs"
    using erase_at_rep [of t xs x "[]"] snoc.prems by (auto simp: first_addr_def)
  then show ?case using snoc.IH [OF t'(2)] end_rep [OF snoc.prems] avl_rep_facts(5) [OF snoc.prems]
    by (subst avl_clear.simps) (simp add: last_addr_def)
qed

section \<open>Sessions\<close>

text \<open>Calls on a tree, with the addresses that the allocator returns and with iterators, their answers, and what each
  does to the sequence of nodes in key order.  \<^term>\<open>None\<close> is a call outside the contract: an iterator to
  no element, or an allocator that returns an address in use.\<close>

datatype ('k, 'v) map_call = Map_Insert 'k 'v addr | Map_Erase 'k | Map_Erase_At addr | Map_Find 'k | Map_Clear

datatype map_answer = Inserted addr bool | Erased nat | Following addr | Found addr | Cleared

fun map_run :: "('k::linorder, 'v) map_call \<Rightarrow> ('k, 'v) avl_tree \<Rightarrow> (map_answer \<times> ('k, 'v) avl_tree) option" where
  "map_run (Map_Insert k v new) t = map_option (\<lambda>((p, b), t). (Inserted p b, t)) (insert_value new k v t)"
| "map_run (Map_Erase k) t = map_option (\<lambda>(n, t). (Erased n, t)) (avl_erase_key k t)"
| "map_run (Map_Erase_At p) t = map_option (\<lambda>(q, t). (Following q, t)) (avl_erase_at p t)"
| "map_run (Map_Find k) t = map_option (\<lambda>p. (Found p, t)) (avl_find t k)"
| "map_run Map_Clear t = map_option (\<lambda>t. (Cleared, t)) (avl_clear t)"

definition address_of :: "'k \<Rightarrow> ('k, 'v) item list \<Rightarrow> addr" where
  "address_of k xs = (case List.find (\<lambda>x. item_key x = k) xs of None \<Rightarrow> 0 | Some x \<Rightarrow> fst x)"

fun map_spec :: "('k::linorder, 'v) map_call \<Rightarrow> ('k, 'v) item list \<Rightarrow> (map_answer \<times> ('k, 'v) item list) option" where
  "map_spec (Map_Insert k v new) xs =
     (if k \<in> item_key ` set xs then Some (Inserted (address_of k xs) False, xs)
      else if new = 0 then Some (Inserted 0 False, xs)
      else if new \<in> fst ` set xs \<or> new \<ge> 2 ^ 64 then None
      else Some (Inserted new True, insert_item (new, k, v) xs))"
| "map_spec (Map_Erase k) xs =
     Some (Erased (if k \<in> item_key ` set xs then 1 else 0), filter (\<lambda>x. item_key x \<noteq> k) xs)"
| "map_spec (Map_Erase_At p) xs =
     (if p = 0 then Some (Following 0, xs)
      else map_option (\<lambda>(us, x, vs). (Following (first_addr vs), us @ vs)) (List.extract (\<lambda>x. fst x = p) xs))"
| "map_spec (Map_Find k) xs = Some (Found (address_of k xs), xs)"
| "map_spec Map_Clear xs = Some (Cleared, [])"

lemma find_address:
  assumes "avl_rep t xs"
  shows "avl_find t k = Some (address_of k xs)"
proof (cases "List.find (\<lambda>x. item_key x = k) xs")
  case None
  then have "k \<notin> item_key ` set xs" by (auto simp: find_None_iff)
  then show ?thesis using find_rep(2) [OF assms, of k] None by (simp add: address_of_def)
next
  case (Some x)
  then have "x \<in> set xs" "item_key x = k" by (auto simp: find_Some_iff)
  then show ?thesis using find_rep(1) [OF assms, of x k] Some by (simp add: address_of_def)
qed

lemma map_run_spec:
  assumes "avl_rep t xs" "map_spec c xs = Some (a, ys)"
  shows "\<exists>t'. map_run c t = Some (a, t') \<and> avl_rep t' ys"
proof (cases c)
  case (Map_Insert k v new)
  show ?thesis
  proof (cases "k \<in> item_key ` set xs")
    case True
    then obtain x where x: "x \<in> set xs" "item_key x = k" by auto
    then have "address_of k xs = fst x" using find_address [OF assms(1), of k] find_rep(1) [OF assms(1) x] by simp
    then show ?thesis using insert_rep_present [OF assms(1) x, of new v] Map_Insert True assms by auto
  next
    case False
    then show ?thesis
      using Map_Insert assms insert_rep_full [OF assms(1), of k v] insert_rep_new [OF assms(1), of k new v]
      by (cases "new = 0") (auto split: if_splits)
  qed
next
  case (Map_Erase k)
  then show ?thesis using erase_rep_key [OF assms(1), of k] assms(2) by auto
next
  case (Map_Erase_At p)
  show ?thesis
  proof (cases "p = 0")
    case False
    then obtain us x vs where s: "List.extract (\<lambda>x. fst x = p) xs = Some (us, x, vs)" "a = Following (first_addr vs)" "ys = us @ vs"
      using Map_Erase_At assms(2) by auto
    then have x: "xs = us @ x # vs" "fst x = p" using extract_SomeE [OF s(1)] by auto
    then show ?thesis using erase_at_rep [of t us x vs] assms(1) Map_Erase_At s by auto
  qed (use Map_Erase_At assms in \<open>auto simp: avl_erase_at_def avl_end_def\<close>)
next
  case (Map_Find k)
  then show ?thesis using find_address [OF assms(1), of k] assms by auto
next
  case Map_Clear
  then show ?thesis using clear_rep_avl [OF assms(1)] assms(2) by auto
qed

interpretation avl_map: simulated map_run map_spec avl_rep
  by unfold_locales (rule map_run_spec)

text \<open>Walking a tree with its iterators.\<close>

partial_function (option) avl_walk :: "('k, 'v) avl_tree \<Rightarrow> addr \<Rightarrow> ('k \<times> 'v) list option" where
  "avl_walk t p =
     (if p = avl_end t then Some []
      else do { e \<leftarrow> avl_get t p; q \<leftarrow> move_forward t p; es \<leftarrow> avl_walk t q; Some (e # es) })"

partial_function (option) avl_walk_back :: "('k, 'v) avl_tree \<Rightarrow> addr \<Rightarrow> ('k \<times> 'v) list option" where
  "avl_walk_back t p = do {
     q \<leftarrow> move_backward t p;
     if q = avl_end t then Some []
     else do { e \<leftarrow> avl_get t q; es \<leftarrow> avl_walk_back t q; Some (e # es) }
   }"

lemma avl_walk_rep: "avl_rep t (us @ vs) \<Longrightarrow> avl_walk t (first_addr vs) = Some (map snd vs)"
proof (induction vs arbitrary: us)
  case (Cons x vs)
  then show ?case
    using Cons.IH [of "us @ [x]"] forward_rep [OF Cons.prems] get_rep [OF Cons.prems, of x] avl_rep_facts(6) [OF Cons.prems, of x]
    by (subst avl_walk.simps) (simp add: avl_end_def first_addr_def)
qed (simp add: avl_walk.simps avl_end_def first_addr_def)

lemma avl_walk_back_rep: "avl_rep t (us @ vs) \<Longrightarrow> avl_walk_back t (first_addr vs) = Some (map snd (rev us))"
proof (induction us arbitrary: vs rule: rev_induct)
  case Nil
  have "move_backward t (first_addr vs) = Some 0"
    using end_rep [of t vs] backward_rep [of t "[]" "hd vs" "tl vs"] Nil by (cases vs) (auto simp: avl_end_def first_addr_def last_addr_def)
  then show ?case by (subst avl_walk_back.simps) (simp add: avl_end_def)
next
  case (snoc x us)
  have "move_backward t (first_addr vs) = Some (fst x)"
    using end_rep [of t "us @ [x]"] backward_rep [of t "us @ [x]" "hd vs" "tl vs"] snoc(2)
    by (cases vs) (auto simp: avl_end_def first_addr_def last_addr_def)
  moreover have "avl_walk_back t (fst x) = Some (map snd (rev us))" using snoc.IH [of "x # vs"] snoc(2) by (simp add: first_addr_def)
  ultimately show ?case using get_rep [OF snoc(2), of x] avl_rep_facts(6) [OF snoc(2), of x]
    by (subst avl_walk_back.simps) (simp add: avl_end_def)
qed

text \<open>The height of a subtree as its links have it, whatever the nodes store as their depth.\<close>

partial_function (option) link_height :: "('k, 'v) store \<Rightarrow> addr \<Rightarrow> nat option" where
  "link_height h p =
     (if p = 0 then Some 0
      else do { n \<leftarrow> node_at h p; l \<leftarrow> link_height h (avl_left n); r \<leftarrow> link_height h (avl_right n); Some (max l r + 1) })"

text \<open>At a balanced node the heights of the two subtrees differ by at most 1.\<close>

definition balanced_at :: "('k, 'v) store \<Rightarrow> addr \<Rightarrow> bool" where
  "balanced_at h p \<longleftrightarrow> (\<exists>n l r. h p = Some n \<and> link_height h (avl_left n) = Some l \<and> link_height h (avl_right n) = Some r \<and>
     l \<le> r + 1 \<and> r \<le> l + 1 \<and> avl_depth n = max l r + 1)"

lemma link_height_shape: "shape h lr rr T \<Longrightarrow> link_height h (root_addr T) = Some (height T)"
proof (induction T arbitrary: lr rr)
  case (Node l x r)
  then have "node_at h (fst x) = Some (node_of x (root_addr l) lr (root_addr r) rr (max (height l) (height r) + 1))" "fst x \<noteq> 0"
    by (simp_all add: node_at_def)
  then show ?case using Node.IH(1) [of "fst x" 0] Node.IH(2) [of 0 "fst x"] Node.prems by (subst link_height.simps) (simp add: node_of_def)
qed (simp add: link_height.simps)

lemma balanced_shape: "shape h lr rr T \<Longrightarrow> avl T \<Longrightarrow> p \<in> addrs T \<Longrightarrow> balanced_at h p"
proof (induction T arbitrary: lr rr)
  case (Node l x r)
  show ?case
  proof (cases "p = fst x")
    case True
    then show ?thesis using Node.prems link_height_shape [of h "fst x" 0 l] link_height_shape [of h 0 "fst x" r]
      by (auto simp: balanced_at_def node_of_def)
  qed (use Node in auto)
qed simp

lemma height_rep:
  assumes "avl_rep t xs"
  shows "\<exists>d. link_height (avl_nodes t) (avl_root t) = Some d \<and> 2 ^ (d div 2) \<le> length xs + 1"
    and "\<forall>p \<in> dom (avl_nodes t). balanced_at (avl_nodes t) p"
proof -
  obtain T where T: "avl_shape t T" "inorder T = xs" "set_tree T = set xs" "size T = length xs" using assms by (rule avl_repE)
  then show "\<exists>d. link_height (avl_nodes t) (avl_root t) = Some d \<and> 2 ^ (d div 2) \<le> length xs + 1"
    using avl_height [of T] link_height_shape [of "avl_nodes t" 0 0 T] by (auto simp: avl_shape_def)
  show "\<forall>p \<in> dom (avl_nodes t). balanced_at (avl_nodes t) p"
    using T(1) balanced_shape [of "avl_nodes t" 0 0 T] by (auto simp: avl_shape_def)
qed

section \<open>Properties\<close>

text \<open>C9: Every session of calls on an empty tree within their contract returns and answers as the same calls on a
  sorted sequence: insertion refuses a key that is present and reports a failed allocation, erasure counts and
  returns the following element, an element keeps its address as long as it is in the tree.  Afterwards
  the nodes are those of the sequence, none leaked or freed twice, iteration visits them in key order in both
  directions, and the tree is balanced: at every node the subtrees that its links lead to differ in height by at
  most 1 and the stored depth is the height, so the height of the whole tree, as its links have it, is at
  most about twice the logarithm of its size.\<close>

theorem avl_session_refines:
  assumes "calls map_spec cs [] = Some (as, xs)"
  shows "\<exists>t. calls map_run cs avl_tree = Some (as, t) \<and> avl_size t = length xs \<and> dom (avl_nodes t) = fst ` set xs \<and>
    (\<exists>p. avl_begin t = Some p \<and> avl_walk t p = Some (map snd xs)) \<and>
    avl_walk_back t (avl_end t) = Some (rev (map snd xs)) \<and>
    sorted_wrt (<) (map item_key xs) \<and>
    (\<forall>p \<in> dom (avl_nodes t). balanced_at (avl_nodes t) p) \<and>
    (\<exists>d. link_height (avl_nodes t) (avl_root t) = Some d \<and> 2 ^ (d div 2) \<le> length xs + 1)"
proof -
  obtain t where t: "calls map_run cs avl_tree = Some (as, t)" "avl_rep t xs"
    using avl_map.session [OF avl_rep_empty assms] by blast
  show ?thesis
    using t(1) avl_rep_facts [OF t(2)] begin_rep [OF t(2)] avl_walk_rep [of t "[]" xs] avl_walk_back_rep [of t xs "[]"] t(2) height_rep [OF t(2)]
    by (simp add: avl_end_def first_addr_def rev_map keys_sorted_def)
qed

text \<open>Keys in ascending order force rotations; one key is refused, one is erased from the inside of the tree.\<close>

theorem avl_session_refines_witness:
  "\<exists>t. calls map_run [Map_Insert 1 10 16, Map_Insert 2 20 32, Map_Insert 3 30 48, Map_Insert 2 99 64, Map_Erase 2, Map_Find 3] avl_tree
     = Some ([Inserted 16 True, Inserted 32 True, Inserted 48 True, Inserted 32 False, Erased 1, Found 48], t) \<and>
     avl_walk_back t (avl_end t) = Some [(3 :: nat, 30 :: nat), (1, 10)]"
  using avl_session_refines [of
    "[Map_Insert 1 10 16, Map_Insert 2 20 32, Map_Insert 3 30 48, Map_Insert 2 99 64, Map_Erase 2, Map_Find (3 :: nat)]"
    "[Inserted 16 True, Inserted 32 True, Inserted 48 True, Inserted 32 False, Erased 1, Found 48]" "[(16, 1, 10), (48, 3, 30 :: nat)]"]
  by (auto simp: address_of_def)

end
