(* ===== verification/Lru_Cache.thy ===== *)
theory Lru_Cache
  imports Linked_List Avl_Properties
begin

text \<open>
  The cache of \<^verbatim>\<open>include/lru_cache\<close>: a \<open>Linked_List\<close> of entries, the most recently used first, and an AVL tree
  (\<open>Avl_Properties\<close>) from keys to the list nodes of their entries.  The theorems are about both containers as
  linked nodes: a key always leads to the node of its entry, wherever the node has moved in the list.
\<close>

section \<open>The cache\<close>

record ('k, 'v) cache_entry =
  entry_key :: 'k
  entry_value :: 'v

record ('k, 'v) lru_cache =
  cache_entries :: "('k, 'v) cache_entry linked_list"
  cache_entry_map :: "('k, addr) avl_tree"
  max_cache_size :: nat
  cache_hits :: u64
  cache_misses :: u64

definition lru_cache :: "nat \<Rightarrow> ('k, 'v) lru_cache" where
  "lru_cache n = \<lparr>cache_entries = empty_list, cache_entry_map = avl_tree, max_cache_size = n, cache_hits = 0, cache_misses = 0\<rparr>"

definition lru_size :: "('k, 'v) lru_cache \<Rightarrow> nat" where "lru_size c = list_size (cache_entries c)"
definition lru_empty :: "('k, 'v) lru_cache \<Rightarrow> bool" where "lru_empty c = list_empty (cache_entries c)"
definition lru_begin :: "('k, 'v) lru_cache \<Rightarrow> addr" where "lru_begin c = list_begin (cache_entries c)"
definition lru_end :: "('k, 'v) lru_cache \<Rightarrow> addr" where "lru_end c = list_end (cache_entries c)"

definition insure_space_exists :: "('k::linorder, 'v) lru_cache \<Rightarrow> ('k, 'v) lru_cache option" where
  "insure_space_exists c =
     (if list_size (cache_entries c) \<ge> max_cache_size c
      then do {
        e \<leftarrow> list_back_element (cache_entries c);
        (n, m) \<leftarrow> avl_erase_key (entry_key e) (cache_entry_map c);
        l \<leftarrow> list_pop_back (cache_entries c);
        Some (c\<lparr>cache_entries := l, cache_entry_map := m\<rparr>)
      }
      else Some c)"

text \<open>The addresses are those that the allocators of the list and of the map return.\<close>

definition lru_add :: "'k::linorder \<Rightarrow> 'v \<Rightarrow> addr \<Rightarrow> addr \<Rightarrow> ('k, 'v) lru_cache \<Rightarrow> (bool \<times> ('k, 'v) lru_cache) option" where
  "lru_add key val new_entry new_node c =
     (if max_cache_size c = 0 then Some (False, c)
      else do {
        p \<leftarrow> avl_find (cache_entry_map c) key;
        if p \<noteq> avl_end (cache_entry_map c) then Some (False, c)
        else do {
          c \<leftarrow> insure_space_exists c;
          l \<leftarrow> list_emplace_front new_entry \<lparr>entry_key = key, entry_value = val\<rparr> (cache_entries c);
          ((q, inserted), m) \<leftarrow> insert_value new_node key (list_begin l) (cache_entry_map c);
          let c = c\<lparr>cache_entries := l, cache_entry_map := m\<rparr>;
          if \<not> inserted
          then do {
            l \<leftarrow> list_pop_front (cache_entries c);
            Some (False, c\<lparr>cache_entries := l\<rparr>)
          }
          else Some (True, c)
        }
      })"

definition lru_find :: "'k::linorder \<Rightarrow> ('k, 'v) lru_cache \<Rightarrow> ('v option \<times> ('k, 'v) lru_cache) option" where
  "lru_find key c = do {
     p \<leftarrow> avl_find (cache_entry_map c) key;
     if p \<noteq> avl_end (cache_entry_map c)
     then do {
       (k, it) \<leftarrow> avl_get (cache_entry_map c) p;
       e \<leftarrow> list_get (cache_entries c) it;
       (front, l) \<leftarrow> list_move_front it (cache_entries c);
       Some (Some (entry_value e), c\<lparr>cache_entries := l, cache_hits := cache_hits c + 1\<rparr>)
     }
     else Some (None, c\<lparr>cache_misses := cache_misses c + 1\<rparr>)
   }"

definition lru_remove :: "'k::linorder \<Rightarrow> ('k, 'v) lru_cache \<Rightarrow> (bool \<times> ('k, 'v) lru_cache) option" where
  "lru_remove key c = do {
     p \<leftarrow> avl_find (cache_entry_map c) key;
     if p \<noteq> avl_end (cache_entry_map c)
     then do {
       (k, it) \<leftarrow> avl_get (cache_entry_map c) p;
       l \<leftarrow> list_erase it (cache_entries c);
       (following, m) \<leftarrow> avl_erase_at p (cache_entry_map c);
       Some (True, c\<lparr>cache_entries := l, cache_entry_map := m\<rparr>)
     }
     else Some (False, c)
   }"

definition lru_clear :: "('k::linorder, 'v) lru_cache \<Rightarrow> ('k, 'v) lru_cache option" where
  "lru_clear c = do {
     l \<leftarrow> list_clear (cache_entries c);
     m \<leftarrow> avl_clear (cache_entry_map c);
     Some (c\<lparr>cache_entries := l, cache_entry_map := m\<rparr>)
   }"

section \<open>Specification\<close>

text \<open>A slot is an entry with the addresses of its list node and of its map node; the cache is the list of its slots,
  the most recently used first.\<close>

record ('k, 'v) lru_slot =
  slot_key :: 'k
  slot_value :: 'v
  slot_entry :: addr
  slot_node :: addr

definition list_item :: "('k, 'v) lru_slot \<Rightarrow> addr \<times> ('k, 'v) cache_entry" where
  "list_item z = (slot_entry z, \<lparr>entry_key = slot_key z, entry_value = slot_value z\<rparr>)"

definition map_item :: "('k, 'v) lru_slot \<Rightarrow> addr \<times> 'k \<times> addr" where
  "map_item z = (slot_node z, slot_key z, slot_entry z)"

datatype ('k, 'v) lru_call = Lru_Add 'k 'v addr addr | Lru_Find 'k | Lru_Remove 'k | Lru_Clear

datatype 'v lru_answer = Added bool | Lookup "'v option" | Removed bool | Emptied

definition lookup_slot :: "'k \<Rightarrow> ('k, 'v) lru_slot list \<Rightarrow> ('k, 'v) lru_slot option" where
  "lookup_slot k zs = List.find (\<lambda>z. slot_key z = k) zs"

definition without_key :: "'k \<Rightarrow> ('k, 'v) lru_slot list \<Rightarrow> ('k, 'v) lru_slot list" where
  "without_key k zs = filter (\<lambda>z. slot_key z \<noteq> k) zs"

definition room_for_one :: "nat \<Rightarrow> ('k, 'v) lru_slot list \<Rightarrow> ('k, 'v) lru_slot list" where
  "room_for_one n zs = (if length zs \<ge> n then butlast zs else zs)"

text \<open>\<^term>\<open>None\<close> is an allocator that returns an address in use, or a failed allocation of a list node, where the code traps.\<close>

fun lru_spec :: "nat \<Rightarrow> ('k, 'v) lru_call \<Rightarrow> ('k, 'v) lru_slot list \<Rightarrow> ('v lru_answer \<times> ('k, 'v) lru_slot list) option" where
  "lru_spec n (Lru_Add k v new_entry new_node) zs =
     (if n = 0 \<or> lookup_slot k zs \<noteq> None then Some (Added False, zs)
      else let ys = room_for_one n zs
           in if new_entry = 0 \<or> new_entry \<in> slot_entry ` set ys then None
              else if new_node = 0 then Some (Added False, ys)
              else if new_node \<in> slot_node ` set ys \<or> new_node \<ge> 2 ^ 64 then None
              else Some (Added True, \<lparr>slot_key = k, slot_value = v, slot_entry = new_entry, slot_node = new_node\<rparr> # ys))"
| "lru_spec n (Lru_Find k) zs =
     (case lookup_slot k zs of
        Some z \<Rightarrow> Some (Lookup (Some (slot_value z)), z # without_key k zs)
      | None \<Rightarrow> Some (Lookup None, zs))"
| "lru_spec n (Lru_Remove k) zs = Some (Removed (lookup_slot k zs \<noteq> None), without_key k zs)"
| "lru_spec n Lru_Clear zs = Some (Emptied, [])"

text \<open>The observer of a session also counts its lookups.\<close>

definition lru_observe :: "nat \<Rightarrow> ('k, 'v) lru_call \<Rightarrow> ('k, 'v) lru_slot list \<times> nat \<Rightarrow> ('v lru_answer \<times> ('k, 'v) lru_slot list \<times> nat) option" where
  "lru_observe n call = (\<lambda>(zs, m). map_option (\<lambda>(a, ys). (a, ys, case call of Lru_Find k \<Rightarrow> m + 1 | _ \<Rightarrow> m)) (lru_spec n call zs))"

fun lru_run :: "('k::linorder, 'v) lru_call \<Rightarrow> ('k, 'v) lru_cache \<Rightarrow> ('v lru_answer \<times> ('k, 'v) lru_cache) option" where
  "lru_run (Lru_Add k v new_entry new_node) c = map_option (\<lambda>(b, c). (Added b, c)) (lru_add k v new_entry new_node c)"
| "lru_run (Lru_Find k) c = map_option (\<lambda>(r, c). (Lookup r, c)) (lru_find k c)"
| "lru_run (Lru_Remove k) c = map_option (\<lambda>(b, c). (Removed b, c)) (lru_remove k c)"
| "lru_run Lru_Clear c = map_option (\<lambda>c. (Emptied, c)) (lru_clear c)"

section \<open>Representation\<close>

definition lru_rep :: "('k::linorder, 'v) lru_cache \<Rightarrow> ('k, 'v) lru_slot list \<Rightarrow> bool" where
  "lru_rep c zs \<longleftrightarrow> list_rep (cache_entries c) (map list_item zs) \<and> (\<exists>ms. avl_rep (cache_entry_map c) ms \<and> set ms = map_item ` set zs) \<and>
     distinct (map slot_key zs) \<and> length zs \<le> max_cache_size c"

lemma lru_rep_empty: "lru_rep (lru_cache n) []"
  using avl_rep_empty by (auto simp: lru_rep_def lru_cache_def list_rep_empty)

lemma list_item_simps [simp]: "fst (list_item z) = slot_entry z"
  "snd (list_item z) = \<lparr>entry_key = slot_key z, entry_value = slot_value z\<rparr>"
  by (simp_all add: list_item_def)

lemma map_item_simps [simp]: "fst (map_item z) = slot_node z" "item_key (map_item z) = slot_key z" "snd (snd (map_item z)) = slot_entry z"
  by (simp_all add: map_item_def)

lemma slot_eqI: "slot_key z = slot_key z' \<Longrightarrow> distinct (map slot_key zs) \<Longrightarrow> z \<in> set zs \<Longrightarrow> z' \<in> set zs \<Longrightarrow> z = z'"
  by (auto simp: distinct_map dest: inj_onD)

text \<open>The map knows a key exactly if a slot has it, and then where the entry is.\<close>

lemma lru_lookup:
  assumes "lru_rep c zs"
  shows "lookup_slot k zs = None \<Longrightarrow> avl_find (cache_entry_map c) k = Some (avl_end (cache_entry_map c))"
    and "lookup_slot k zs = Some z \<Longrightarrow> avl_find (cache_entry_map c) k = Some (slot_node z) \<and> slot_node z \<noteq> avl_end (cache_entry_map c) \<and>
      avl_get (cache_entry_map c) (slot_node z) = Some (k, slot_entry z) \<and> slot_key z = k \<and> z \<in> set zs"
proof -
  obtain ms where m: "avl_rep (cache_entry_map c) ms" "set ms = map_item ` set zs" using assms by (auto simp: lru_rep_def)
  show "avl_find (cache_entry_map c) k = Some (avl_end (cache_entry_map c))" if "lookup_slot k zs = None"
  proof -
    have "k \<notin> item_key ` set ms" using that m(2) by (auto simp: lookup_slot_def find_None_iff image_image)
    then show ?thesis using find_rep(2) [OF m(1)] by (simp add: avl_end_def)
  qed
  show "avl_find (cache_entry_map c) k = Some (slot_node z) \<and> slot_node z \<noteq> avl_end (cache_entry_map c) \<and>
      avl_get (cache_entry_map c) (slot_node z) = Some (k, slot_entry z) \<and> slot_key z = k \<and> z \<in> set zs" if "lookup_slot k zs = Some z"
  proof -
    have z: "z \<in> set zs" "slot_key z = k" using that by (auto simp: lookup_slot_def find_Some_iff)
    then have i: "map_item z \<in> set ms" using m(2) by simp
    show ?thesis using find_rep(1) [OF m(1) i, of k] avl_rep_facts(6) [OF m(1) i] get_rep [OF m(1) i] z
      by (simp add: avl_end_def map_item_def)
  qed
qed

lemma without_key_split:
  assumes "distinct (map slot_key (us @ z # vs))"
  shows "without_key (slot_key z) (us @ z # vs) = us @ vs"
proof -
  have "filter (\<lambda>y. slot_key y \<noteq> slot_key z) us = us" using assms by (simp add: filter_id_conv) (metis image_eqI)
  moreover have "filter (\<lambda>y. slot_key y \<noteq> slot_key z) vs = vs" using assms by (simp add: filter_id_conv) (metis image_eqI)
  ultimately show ?thesis by (simp add: without_key_def)
qed

lemma split_slot:
  assumes "z \<in> set zs" "distinct (map slot_key zs)"
  obtains us vs where "zs = us @ z # vs" "without_key (slot_key z) zs = us @ vs"
proof -
  obtain us vs where zs: "zs = us @ z # vs" using assms(1) by (auto dest: split_list)
  then show ?thesis using that without_key_split [of us z vs] assms(2) by blast
qed

lemma without_key_set: "distinct (map slot_key zs) \<Longrightarrow> set ms = map_item ` set zs \<Longrightarrow>
    set (filter (\<lambda>x. item_key x \<noteq> k) ms) = map_item ` set (without_key k zs)"
  by (auto simp: without_key_def)

lemma distinct_without_key: "distinct (map slot_key zs) \<Longrightarrow> distinct (map slot_key (without_key k zs))"
  by (simp add: without_key_def distinct_map_filter)

section \<open>Operations\<close>

lemma lru_find_rep:
  assumes "lru_rep c zs"
  shows "\<exists>c'. lru_find k c = Some (map_option slot_value (lookup_slot k zs), c') \<and> max_cache_size c' = max_cache_size c \<and>
    cache_hits c' + cache_misses c' = cache_hits c + cache_misses c + 1 \<and>
    lru_rep c' (case lookup_slot k zs of Some z \<Rightarrow> z # without_key k zs | None \<Rightarrow> zs)"
proof (cases "lookup_slot k zs")
  case None
  then show ?thesis using lru_lookup(1) [OF assms None] assms by (auto simp: lru_find_def lru_rep_def)
next
  case (Some z)
  note z = lru_lookup(2) [OF assms Some]
  have rep: "list_rep (cache_entries c) (map list_item zs)" "distinct (map slot_key zs)" "length zs \<le> max_cache_size c"
    using assms by (auto simp: lru_rep_def)
  obtain us vs where zs: "zs = us @ z # vs" "without_key k zs = us @ vs" using split_slot [of z zs] z rep(2) by blast
  have l: "list_rep (cache_entries c) (map list_item us @ (slot_entry z, \<lparr>entry_key = slot_key z, entry_value = slot_value z\<rparr>) # map list_item vs)"
    using rep(1) zs(1) by (simp add: list_item_def)
  obtain l' where l': "list_move_front (slot_entry z) (cache_entries c) = Some (slot_entry z, l')"
    "list_rep l' (map list_item (z # without_key k zs))"
    using move_front_rep [OF l] zs by (auto simp: list_item_def)
  have "lru_rep (c\<lparr>cache_entries := l', cache_hits := cache_hits c + 1\<rparr>) (z # without_key k zs)"
    using assms l'(2) rep zs by (auto simp: lru_rep_def)
  then show ?thesis using z next_rep [OF l] l'(1) Some by (simp add: lru_find_def)
qed

lemma lru_remove_rep:
  assumes "lru_rep c zs"
  shows "\<exists>c'. lru_remove k c = Some (lookup_slot k zs \<noteq> None, c') \<and> max_cache_size c' = max_cache_size c \<and>
    cache_hits c' + cache_misses c' = cache_hits c + cache_misses c \<and> lru_rep c' (without_key k zs)"
proof (cases "lookup_slot k zs")
  case None
  then have "without_key k zs = zs" by (auto simp: without_key_def lookup_slot_def find_None_iff filter_id_conv)
  then show ?thesis using lru_lookup(1) [OF assms None] assms None by (auto simp: lru_remove_def)
next
  case (Some z)
  note z = lru_lookup(2) [OF assms Some]
  obtain ms where m: "avl_rep (cache_entry_map c) ms" "set ms = map_item ` set zs" using assms by (auto simp: lru_rep_def)
  have rep: "list_rep (cache_entries c) (map list_item zs)" "distinct (map slot_key zs)" "length zs \<le> max_cache_size c"
    using assms by (auto simp: lru_rep_def)
  obtain us vs where zs: "zs = us @ z # vs" "without_key k zs = us @ vs" using split_slot [of z zs] z rep(2) by blast
  have l: "list_rep (cache_entries c) (map list_item us @ (slot_entry z, \<lparr>entry_key = slot_key z, entry_value = slot_value z\<rparr>) # map list_item vs)"
    using rep(1) zs(1) by (simp add: list_item_def)
  obtain l' where l': "list_erase (slot_entry z) (cache_entries c) = Some l'" "list_rep l' (map list_item (without_key k zs))"
    using erase_rep [OF l] zs by auto
  have "map_item z \<in> set ms" using z m(2) by simp
  then obtain as bs where ms: "ms = as @ map_item z # bs" by (auto dest: split_list)
  obtain m' where m': "avl_erase_at (slot_node z) (cache_entry_map c) = Some (first_addr bs, m')" "avl_rep m' (as @ bs)"
    using erase_at_rep [of "cache_entry_map c" as "map_item z" bs] m(1) ms by auto
  have "as @ bs = filter (\<lambda>x. item_key x \<noteq> k) ms"
    using filter_key [of as "map_item z" bs] avl_rep_facts(1) [OF m(1)] ms z by simp
  then have "set (as @ bs) = map_item ` set (without_key k zs)" using without_key_set [OF rep(2) m(2)] by simp
  then have "lru_rep (c\<lparr>cache_entries := l', cache_entry_map := m'\<rparr>) (without_key k zs)"
    using l'(2) m'(2) rep distinct_without_key [OF rep(2), of k] zs by (auto simp: lru_rep_def)
  then show ?thesis using z l'(1) m'(1) Some by (simp add: lru_remove_def)
qed

lemma lru_clear_rep:
  assumes "lru_rep c zs"
  shows "\<exists>c'. lru_clear c = Some c' \<and> max_cache_size c' = max_cache_size c \<and>
    cache_hits c' + cache_misses c' = cache_hits c + cache_misses c \<and> lru_rep c' []"
proof -
  obtain ms where m: "avl_rep (cache_entry_map c) ms" "list_rep (cache_entries c) (map list_item zs)" using assms by (auto simp: lru_rep_def)
  obtain m' where "avl_clear (cache_entry_map c) = Some m'" "avl_rep m' []" using clear_rep_avl [OF m(1)] by blast
  then show ?thesis using clear_rep [OF m(2)] by (auto simp: lru_clear_def lru_rep_def list_rep_empty)
qed

lemma insure_space_rep:
  assumes "lru_rep c zs" "max_cache_size c \<noteq> 0"
  shows "\<exists>c'. insure_space_exists c = Some c' \<and> max_cache_size c' = max_cache_size c \<and> cache_hits c' = cache_hits c \<and>
    cache_misses c' = cache_misses c \<and> lru_rep c' (room_for_one (max_cache_size c) zs) \<and> length (room_for_one (max_cache_size c) zs) < max_cache_size c"
proof -
  obtain ms where m: "avl_rep (cache_entry_map c) ms" "set ms = map_item ` set zs" using assms(1) by (auto simp: lru_rep_def)
  have rep: "list_rep (cache_entries c) (map list_item zs)" "distinct (map slot_key zs)" "length zs \<le> max_cache_size c"
    using assms(1) by (auto simp: lru_rep_def)
  have size: "list_size (cache_entries c) = length zs" using observers_rep(2) [OF rep(1)] by simp
  show ?thesis
  proof (cases "max_cache_size c \<le> length zs")
    case True
    then obtain ys z where zs: "zs = ys @ [z]" using assms(2) by (cases zs rule: rev_cases) auto
    have l: "list_rep (cache_entries c) (map list_item ys @ [(slot_entry z, \<lparr>entry_key = slot_key z, entry_value = slot_value z\<rparr>)])"
      using rep(1) zs by (simp add: list_item_def)
    obtain l' where l': "list_pop_back (cache_entries c) = Some l'" "list_rep l' (map list_item ys)" using pop_back_rep [OF l] by blast
    obtain n m' where m': "avl_erase_key (slot_key z) (cache_entry_map c) = Some (n, m')"
      "avl_rep m' (filter (\<lambda>x. item_key x \<noteq> slot_key z) ms)"
      using erase_rep_key [OF m(1), of "slot_key z"] by blast
    have "without_key (slot_key z) zs = ys" using without_key_split [of ys z "[]"] zs rep(2) by simp
    then have "set (filter (\<lambda>x. item_key x \<noteq> slot_key z) ms) = map_item ` set ys" using without_key_set [OF rep(2) m(2), of "slot_key z"] by simp
    then have "lru_rep (c\<lparr>cache_entries := l', cache_entry_map := m'\<rparr>) ys"
      using l'(2) m'(2) rep zs by (auto simp: lru_rep_def)
    moreover have "room_for_one (max_cache_size c) zs = ys" "length ys < max_cache_size c"
      using True zs rep(3) by (simp_all add: room_for_one_def)
    ultimately show ?thesis using True size back_element_rep [OF l] l'(1) m'(1) by (simp add: insure_space_exists_def)
  next
    case False
    then show ?thesis using assms(1) size by (simp add: insure_space_exists_def room_for_one_def)
  qed
qed

lemma lookup_room: "lookup_slot k zs = None \<Longrightarrow> k \<notin> slot_key ` set (room_for_one n zs)"
  by (auto simp: lookup_slot_def find_None_iff room_for_one_def dest: in_set_butlastD split: if_splits)

lemma lru_add_refused:
  assumes "lru_rep c zs" "max_cache_size c = 0 \<or> lookup_slot k zs \<noteq> None"
  shows "lru_add k v new_entry new_node c = Some (False, c)"
  using assms lru_lookup(2) [OF assms(1), of k] by (auto simp: lru_add_def)

lemma lru_add_rep:
  assumes rep: "lru_rep c zs" and max: "max_cache_size c \<noteq> 0" and absent: "lookup_slot k zs = None"
    and entry: "new_entry \<noteq> 0" "new_entry \<notin> slot_entry ` set (room_for_one (max_cache_size c) zs)"
  shows "new_node = 0 \<Longrightarrow> \<exists>c'. lru_add k v new_entry new_node c = Some (False, c') \<and> max_cache_size c' = max_cache_size c \<and>
      cache_hits c' + cache_misses c' = cache_hits c + cache_misses c \<and> lru_rep c' (room_for_one (max_cache_size c) zs)"
    and "new_node \<noteq> 0 \<Longrightarrow> new_node < 2 ^ 64 \<Longrightarrow> new_node \<notin> slot_node ` set (room_for_one (max_cache_size c) zs) \<Longrightarrow>
      \<exists>c'. lru_add k v new_entry new_node c = Some (True, c') \<and> max_cache_size c' = max_cache_size c \<and>
      cache_hits c' + cache_misses c' = cache_hits c + cache_misses c \<and>
      lru_rep c' (\<lparr>slot_key = k, slot_value = v, slot_entry = new_entry, slot_node = new_node\<rparr> # room_for_one (max_cache_size c) zs)"
proof -
  let ?ys = "room_for_one (max_cache_size c) zs" and ?e = "\<lparr>entry_key = k, entry_value = v\<rparr>"
  obtain c1 where c1: "insure_space_exists c = Some c1" "max_cache_size c1 = max_cache_size c" "cache_hits c1 = cache_hits c"
    "cache_misses c1 = cache_misses c" "lru_rep c1 ?ys" "length ?ys < max_cache_size c"
    using insure_space_rep [OF rep max] by blast
  obtain ms where m: "avl_rep (cache_entry_map c1) ms" "set ms = map_item ` set ?ys" and l: "list_rep (cache_entries c1) (map list_item ?ys)"
    and d: "distinct (map slot_key ?ys)"
    using c1(5) by (auto simp: lru_rep_def)
  have k: "k \<notin> item_key ` set ms" using lookup_room [OF absent] m(2) by (auto simp: image_image)
  have fresh_entry: "new_entry \<notin> fst ` set (map list_item ?ys)" using entry(2) by (auto simp: image_image)
  obtain l' where l': "list_link_front new_entry ?e (cache_entries c1) = Some l'" "list_rep l' ((new_entry, ?e) # map list_item ?ys)"
    using link_front_rep [OF l entry(1) fresh_entry, of ?e] by blast
  have start: "list_begin l' = new_entry" using observers_rep(3) [OF l'(2)] by simp
  have find: "avl_find (cache_entry_map c) k = Some (avl_end (cache_entry_map c))" using lru_lookup(1) [OF rep absent] .
  show "\<exists>c'. lru_add k v new_entry new_node c = Some (False, c') \<and> max_cache_size c' = max_cache_size c \<and>
      cache_hits c' + cache_misses c' = cache_hits c + cache_misses c \<and> lru_rep c' ?ys" if "new_node = 0"
  proof -
    obtain m' where m': "insert_value 0 k new_entry (cache_entry_map c1) = Some ((0, False), m')" "avl_rep m' ms"
      using insert_rep_full [OF m(1) k, of new_entry] by blast
    obtain l2 where l2: "list_pop_front l' = Some l2" "list_rep l2 (map list_item ?ys)" using pop_front_rep [OF l'(2)] by blast
    have "lru_rep (c1\<lparr>cache_entry_map := m', cache_entries := l2\<rparr>) ?ys" using l2(2) m'(2) m(2) d c1(2,6) by (auto simp: lru_rep_def)
    then show ?thesis using that max find entry(1) c1(1-4) l'(1) start m'(1) l2(1) by (simp add: lru_add_def list_emplace_front_def Let_def)
  qed
  show "\<exists>c'. lru_add k v new_entry new_node c = Some (True, c') \<and> max_cache_size c' = max_cache_size c \<and>
      cache_hits c' + cache_misses c' = cache_hits c + cache_misses c \<and>
      lru_rep c' (\<lparr>slot_key = k, slot_value = v, slot_entry = new_entry, slot_node = new_node\<rparr> # ?ys)"
    if node: "new_node \<noteq> 0" "new_node < 2 ^ 64" "new_node \<notin> slot_node ` set ?ys"
  proof -
    have fresh_node: "new_node \<notin> fst ` set ms" using node(3) m(2) by (auto simp: image_image)
    obtain m' where m': "insert_value new_node k new_entry (cache_entry_map c1) = Some ((new_node, True), m')"
      "avl_rep m' (insert_item (new_node, k, new_entry) ms)"
      using insert_rep_new [OF m(1) k node(1,2) fresh_node, of new_entry] by blast
    have "lru_rep (c1\<lparr>cache_entries := l', cache_entry_map := m'\<rparr>)
        (\<lparr>slot_key = k, slot_value = v, slot_entry = new_entry, slot_node = new_node\<rparr> # ?ys)"
      using l'(2) m'(2) m(2) d c1(2,6) lookup_room [OF absent, of "max_cache_size c"]
      by (auto simp: lru_rep_def list_item_def map_item_def intro!: exI [of _ "insert_item (new_node, k, new_entry) ms"])
    then show ?thesis using max find entry(1) c1(1-4) l'(1) start m'(1) by (simp add: lru_add_def list_emplace_front_def Let_def)
  qed
qed

lemma lru_run_spec:
  assumes "lru_rep c zs" "lru_spec (max_cache_size c) call zs = Some (a, ys)"
  shows "\<exists>c'. lru_run call c = Some (a, c') \<and> lru_rep c' ys \<and> max_cache_size c' = max_cache_size c \<and>
    cache_hits c' + cache_misses c' = cache_hits c + cache_misses c + (case call of Lru_Find k \<Rightarrow> 1 | _ \<Rightarrow> 0)"
proof (cases call)
  case (Lru_Add k v new_entry new_node)
  show ?thesis
  proof (cases "max_cache_size c = 0 \<or> lookup_slot k zs \<noteq> None")
    case True
    then show ?thesis using lru_add_refused [OF assms(1) True, of v new_entry new_node] assms Lru_Add by auto
  next
    case False
    then have entry: "new_entry \<noteq> 0" "new_entry \<notin> slot_entry ` set (room_for_one (max_cache_size c) zs)"
      using assms(2) Lru_Add by (auto simp: Let_def split: if_splits)
    show ?thesis
      using False assms Lru_Add entry lru_add_rep [OF assms(1) _ _ entry, of k new_node v]
      by (cases "new_node = 0") (auto simp: Let_def split: if_splits)
  qed
next
  case (Lru_Find k)
  then show ?thesis using lru_find_rep [OF assms(1), of k] assms(2) by (cases "lookup_slot k zs") auto
next
  case (Lru_Remove k)
  then show ?thesis using lru_remove_rep [OF assms(1), of k] assms(2) by auto
next
  case Lru_Clear
  then show ?thesis using lru_clear_rep [OF assms(1)] assms(2) by auto
qed

section \<open>Sessions\<close>

definition lru_session_rep :: "nat \<Rightarrow> ('k::linorder, 'v) lru_cache \<Rightarrow> ('k, 'v) lru_slot list \<times> nat \<Rightarrow> bool" where
  "lru_session_rep n c t \<longleftrightarrow> lru_rep c (fst t) \<and> max_cache_size c = n \<and> cache_hits c + cache_misses c = of_nat (snd t)"

lemma lru_observe_spec:
  assumes "lru_session_rep n c t" "lru_observe n call t = Some (a, t')"
  shows "\<exists>c'. lru_run call c = Some (a, c') \<and> lru_session_rep n c' t'"
proof -
  obtain zs m ys where t: "t = (zs, m)" "lru_spec n call zs = Some (a, ys)" "t' = (ys, case call of Lru_Find k \<Rightarrow> m + 1 | _ \<Rightarrow> m)"
    using assms(2) by (cases t) (auto simp: lru_observe_def)
  have c: "lru_rep c zs" "max_cache_size c = n" "cache_hits c + cache_misses c = of_nat m"
    using assms(1) t(1) by (simp_all add: lru_session_rep_def)
  show ?thesis using lru_run_spec [OF c(1), of call a ys] t(2,3) c(2,3)
    by (cases call) (auto simp: lru_session_rep_def add.commute)
qed

interpretation lru: simulated lru_run "lru_observe n" "lru_session_rep n" for n
  by unfold_locales (rule lru_observe_spec)

section \<open>Properties\<close>

text \<open>C8: Every session of calls on a cache of n entries returns and answers as the list of its slots, the most
  recently used first, does: a lookup moves its entry to the front, adding to a full cache evicts the last entry
  (also when the map then fails to allocate and the addition is refused), at most n entries are
  held, iteration visits them by recency, the list and the map agree and leak no node, and
  hits and misses add up to the lookups.\<close>

theorem lru_session_refines:
  assumes "calls (lru_observe n) xs ([], 0) = Some (as, zs, lookups)"
  shows "\<exists>c. calls lru_run xs (lru_cache n) = Some (as, c) \<and> lru_size c = length zs \<and> length zs \<le> n \<and>
    list_walk (cache_entries c) (lru_begin c) = Some (map (\<lambda>z. \<lparr>entry_key = slot_key z, entry_value = slot_value z\<rparr>) zs) \<and>
    dom (list_nodes (cache_entries c)) = slot_entry ` set zs \<and> dom (avl_nodes (cache_entry_map c)) = slot_node ` set zs \<and>
    distinct (map slot_key zs) \<and> cache_hits c + cache_misses c = of_nat lookups"
proof -
  have "lru_session_rep n (lru_cache n) ([], 0)" using lru_rep_empty by (simp add: lru_session_rep_def lru_cache_def)
  from lru.session [OF this assms] obtain c where c: "calls lru_run xs (lru_cache n) = Some (as, c)" "lru_rep c zs" "max_cache_size c = n"
    "cache_hits c + cache_misses c = of_nat lookups"
    by (auto simp: lru_session_rep_def)
  obtain ms where m: "avl_rep (cache_entry_map c) ms" "set ms = map_item ` set zs" and l: "list_rep (cache_entries c) (map list_item zs)"
    and d: "distinct (map slot_key zs)" "length zs \<le> n"
    using c(2,3) by (auto simp: lru_rep_def)
  have "dom (list_nodes (cache_entries c)) = slot_entry ` set zs" using l by (simp add: list_rep_def image_image)
  moreover have "dom (avl_nodes (cache_entry_map c)) = slot_node ` set zs" using avl_rep_facts(4) [OF m(1)] m(2) by (simp add: image_image)
  ultimately show ?thesis
    using c d observers_rep(2,3) [OF l] walk_rep [of "cache_entries c" "[]" "map list_item zs"] l
    by (simp add: lru_size_def lru_begin_def comp_def)
qed

text \<open>A cache of two entries: the entry looked up survives the eviction.\<close>

theorem lru_session_refines_witness:
  "\<exists>c. calls lru_run [Lru_Add 5 10 16 160, Lru_Add 6 20 32 320, Lru_Find 5, Lru_Add 7 30 48 480, Lru_Find 6] (lru_cache 2)
     = Some ([Added True, Added True, Lookup (Some 10), Added True, Lookup None], c) \<and>
     list_walk (cache_entries c) (lru_begin c) = Some [\<lparr>entry_key = 7 :: nat, entry_value = 30 :: nat\<rparr>, \<lparr>entry_key = 5, entry_value = 10\<rparr>] \<and>
     cache_hits c + cache_misses c = 2"
proof -
  let ?calls = "[Lru_Add 5 10 16 160, Lru_Add 6 20 32 320, Lru_Find 5, Lru_Add 7 30 48 480, Lru_Find 6] :: (nat, nat) lru_call list"
  have "calls (lru_observe 2) ?calls ([], 0) = Some ([Added True, Added True, Lookup (Some 10), Added True, Lookup None],
      [\<lparr>slot_key = 7, slot_value = 30, slot_entry = 48, slot_node = 480\<rparr>, \<lparr>slot_key = 5, slot_value = 10, slot_entry = 16, slot_node = 160\<rparr>], 2)"
    by (simp add: lru_observe_def lookup_slot_def room_for_one_def without_key_def)
  then show ?thesis using lru_session_refines [of 2 ?calls] by (fastforce simp del: calls.simps)
qed

end
