(* ===== verification/Spec2Isabelle.thy ===== *)
theory Spec2Isabelle
  imports Statistics Arena_Bins Stacked_Resources Composite Uniform_Distribution Format_Properties Spsc_Queue Mpsc_Properties Hash Lru_Cache
begin

text \<open>
  A verification library for \<^verbatim>\<open>minimalstdlib\<close>, a C++ standard library for bare-metal AArch64 and
  x86-64 targets.  The library is mostly header-only: polymorphic memory resources, most of them lock-free
  (\<^verbatim>\<open>include/__memory_resource\<close>, \<^verbatim>\<open>include/lockfree\<close>), random numbers (\<^verbatim>\<open>include/__random\<close>), strings,
  number conversion and formatting (\<^verbatim>\<open>src/*.cpp\<close>), containers and the usual type machinery.
  Definitions keep the names of the code; a word of the code is a word of the model, and a
  \<^verbatim>\<open>size_t\<close> or \<^verbatim>\<open>uintptr_t\<close> that takes part in address arithmetic is a natural number below 2 to
  the 64 with the wrap-around written out (\<^verbatim>\<open>add64\<close>, \<^verbatim>\<open>sub64\<close>, \<^verbatim>\<open>mul64\<close> of \<open>Prelude\<close>).

  \<^bold>\<open>Memory resources.\<close>  \<open>Prelude\<close> has addresses, alignment and the ledger of the blocks a client
  holds; \<open>Tiling\<close> the argument that no byte of an arena is lost or handed out twice.
  \<open>Memory_Resource\<close> models the abstract class \<^verbatim>\<open>pmr::memory_resource\<close>: its two virtual operations are
  function types, and its contract is the locale \<open>memory_resource\<close> (a block is aligned, inside the
  address space and disjoint from every block held; giving a held block back succeeds).  Sessions
  are lists of requests; the locale proves once that every session is sound, and every resource
  interprets it on its own definitions.  The resources are
    \<^item> \<open>Static_Arena\<close> (\<^verbatim>\<open>lockfree_static_arena_resource.h\<close>): bump allocation, class bins, splitting;
    \<^item> \<open>Single_Block\<close> (\<^verbatim>\<open>single_block_resource.h\<close>): a header list with lazily unlinked size classes;
    \<^item> \<open>Monotonic\<close> and \<open>Wrappers\<close> (\<^verbatim>\<open>monotonic_buffer_resource.h\<close>,
      \<^verbatim>\<open>tracking_memory_resource.h\<close>, \<^verbatim>\<open>malloc_free_wrapper_memory_resource.h\<close>,
      \<^verbatim>\<open>polymorphic_allocator.h\<close>): resources over an upstream, which is a parameter constrained by
      the same contract; \<open>Stacked_Resources\<close> puts them over the model's own arenas;
    \<^item> \<open>Single_Arena\<close> (\<^verbatim>\<open>lockfree_single_arena_resource.h\<close>): records in a metadata region that grows
      down while the frontier grows up, tagged free bins, pending lists, maintenance windows.
      \<open>Size_Classes\<close> has its size-class tables and \<open>State_Words\<close> its packed words;
      \<open>Single_Arena_Invariant\<close> states the invariant, \<open>Single_Arena_Steps\<close>,
      \<open>Single_Arena_Maintenance\<close> and \<open>Single_Arena_Search\<close> prove that each step keeps it,
      \<open>Single_Arena_Contract\<close> derives the contract and \<open>Single_Arena_Sessions\<close> the behaviour from
      the constructor on;
    \<^item> \<open>Bitblock_Set\<close> (\<^verbatim>\<open>lockfree/bitblock_set\<close>) and \<open>Bitblock_Resource\<close>
      (\<^verbatim>\<open>lockfree_bitblock_resource.h\<close>): pools of small elements in blocks taken from an upstream;
      \<open>Bitblock_Stack\<close> puts the pool over a static arena;
    \<^item> \<open>Composite\<close> (\<^verbatim>\<open>lockfree_composite_single_arena_resource.h\<close>): the pool for small requests in
      front of the single arena, which is also the pool's upstream.
  \<open>Statistics\<close> and \<open>Extended_Statistics\<close> are the counters a resource can keep.

  \<^bold>\<open>Concurrency.\<close>  \<open>Tagged_Ptr\<close> packs a node and an ABA counter into one word
  (\<^verbatim>\<open>lockfree/tagged_ptr\<close>, \<^verbatim>\<open>lockfree/arena_tagged_ptr\<close>).  \<open>Tagged_Stack\<close> is
  \<^verbatim>\<open>lockfree/intrusive_tagged_stack\<close>, as whole calls and as an inductive step relation with one
  step per atomic access over any number of contexts; the locale asks of a codec only that it
  unpacks what it packed and counts.  \<open>Arena_Bins\<close> interprets it on the bins of the static arena.
  Memory is sequentially consistent; the model includes the bounded counter, so its theorems say how
  often a context may be overtaken.  The exchange of a steal may fail spuriously, as the code's weak exchange
  may.  The lock-free engine of \<open>Random_Engines\<close> has its own step relation.
  \<open>Spsc_Queue\<close> (\<^verbatim>\<open>lockfree/spsc_queue\<close>) is the ring of one producer and one consumer: each call is a
  machine with one step per shared access, the runs of both interleave freely, and a ghost log states
  that the answers are those of an atomic bounded queue.  \<open>Mpsc_Queue\<close> is the growable queue of many
  producers (\<^verbatim>\<open>lockfree/mp_sc_growable_ring_queue\<close>): segments, packed claim words, growing, shrinking
  and the reopening of a segment, with failing allocations as a parameter.  \<open>Mpsc_Invariant\<close> states its
  invariant; \<open>Mpsc_Steps\<close>, \<open>Mpsc_Producer\<close> and \<open>Mpsc_Consumer\<close> prove that every step keeps it;
  \<open>Mpsc_Properties\<close> derives that no element is lost and that a call at rest ends, by a measure on the
  phases of the call.  It assumes fewer than 2 to the 30 producers and segments of at most 2 to the 31
  slots, so that the claim word, clamped by the code, does not overflow into the capacity.

  \<^bold>\<open>Random numbers.\<close>  \<open>Bit_Rotation\<close> (\<^verbatim>\<open>__bit/rotl_rotr.h\<close>), \<open>Random_Engines\<close> (the xorshift engines,
  xoroshiro128++, \<^verbatim>\<open>seed_seq\<close>) and \<open>Uniform_Distribution\<close> (\<^verbatim>\<open>uniform_int_distribution.h\<close> over any
  engine): the state never becomes zero, values lie in their interval and none is preferred.

  \<^bold>\<open>Text.\<close>  \<open>Char_String\<close> (\<^verbatim>\<open>basic_string\<close>, \<^verbatim>\<open>fixed_string\<close>, \<^verbatim>\<open>dynamic_string\<close>; the virtual
  \<^verbatim>\<open>grow_buffer\<close> is the parameter of the locale \<open>string_buffer\<close>, interpreted for both classes),
  \<open>Char_Conv\<close> (\<^verbatim>\<open>charconv\<close>), \<open>Format_Spec\<close> (\<^verbatim>\<open>format_arg\<close> and the parser of \<^verbatim>\<open>src/format.cpp\<close>, one
  function per stage, composed as the code composes them), \<open>Number_Text\<close> and \<open>Float_Text\<close>
  (\<^verbatim>\<open>src/format_formatters.cpp\<close>), \<open>Format\<close> (the argument wrappers and the loop over the format
  string).  A \<^verbatim>\<open>double\<close> is its 64 bits.  \<open>Format_Results\<close>, \<open>Float_Results\<close> and \<open>Format_Properties\<close>
  hold the theorems: specifications are parsed into what they say, integers are read back, decimals
  (0 to 19 of them) are correctly rounded, output is only ever cut at the end, strings stay well formed.

  \<^bold>\<open>Comparison and hashing.\<close>  \<open>Ordering\<close> (\<^verbatim>\<open>include/__compare\<close>) has the comparison categories, the choice
  of a comparison (the candidates that the types admit are optional parameters) and the orders of the
  floating point types on bit patterns of any width; the keys there state what each order compares.
  \<open>Hash\<close> (\<^verbatim>\<open>__functional/hash.h\<close>) has murmur2, cityhash64 and the hash of every scalar type; a key is a
  list of bytes and a read past its end is \<^term>\<open>None\<close>.  The theorems say that no read leaves the key,
  which keys of one word collide, and that hashing respects the comparison of \<open>Ordering\<close>.

  \<^bold>\<open>Containers.\<close>  \<open>Linked_List\<close> (\<^verbatim>\<open>include/list\<close>) and \<open>Avl_Tree\<close> (\<^verbatim>\<open>include/avl_tree\<close>, of which \<^verbatim>\<open>map\<close> is
  an alias) are linked nodes in a store of addresses; the address that an allocator returns, 0 for a
  failure, is an argument of the call, so the theorems hold for every allocator.  \<open>Simulation\<close> states the
  contract the containers share as a locale: a call answers as it does on the value that the nodes
  represent.  \<open>Avl_Balance\<close> has the rotations on binary trees and their balance, \<open>Avl_Shape\<close> how the nodes
  represent a tree, reverse links included, and \<open>Avl_Properties\<close> that the tree refines a sequence sorted by key
  and stays balanced: heights are measured along the links, and a tree of height \<open>h\<close> has at least
  2 to the \<open>h div 2\<close> elements less 1.  \<open>Lru_Cache\<close>
  (\<^verbatim>\<open>include/lru_cache\<close>) puts the two together and refines a list of slots by recency.

  \<^bold>\<open>Errors, loops and bounds.\<close>  An operation that can fail returns \<^typ>\<open>'a option\<close> or a sum whose left
  side names the failure.  A failed assertion and a loop that does not return are \<^term>\<open>None\<close>: the
  loops over linked structures are \<^theory_text>\<open>partial_function (option)\<close>, and every session theorem states
  that the whole session returns \<^term>\<open>Some\<close>.  No fuel is used.  Bounds on sizes are hypotheses taken
  from the static assertions of the templates and from the assertions of the constructors.  Where the code needs
  more, the hypothesis says so: \<open>arena_ok\<close> (the single arena and what is built on it) asks for a maintenance
  threshold of at least 1, at most 65536 shards and memory at canonical addresses that ends more than 4 GiB
  below the top of the address space; \<open>sb_args\<close> keeps the single-block resource in the lower half of
  the address space, and \<open>single_block_overalign_wraps\<close> shows what happens near the top.

  \<^bold>\<open>Not modelled.\<close>
    \<^item> The interleaving of the multi-word protocols of the single arena, of the bitblock pool and of
      the single-block resource: these are calls that run without interference.  Weak memory orders.
    \<^item> The containers \<^verbatim>\<open>forward_list\<close>, \<^verbatim>\<open>vector\<close>, \<^verbatim>\<open>array\<close>, \<^verbatim>\<open>optional\<close> and \<^verbatim>\<open>tuple\<close>, the skip list with its epoch reclaimer and slot policies,
      the elimination array, \<^verbatim>\<open>sp_mc_value_stack\<close>, \<^verbatim>\<open>latest_value_slot_array\<close>, \<^verbatim>\<open>token_dispenser\<close>,
      \<^verbatim>\<open>mutex\<close> and \<^verbatim>\<open>chrono\<close>.  Comparison in decimal floating point.
    \<^item> \<^verbatim>\<open>__type_traits\<close>, \<^verbatim>\<open>__concepts\<close>, \<^verbatim>\<open>__utility\<close>, \<^verbatim>\<open>__fwd\<close>: computations on types with no run-time
      behaviour.  \<^verbatim>\<open>__platform\<close>, \<^verbatim>\<open>iostream\<close>, \<^verbatim>\<open>new\<close>, \<^verbatim>\<open>random_device.h\<close>: hardware and input/output.
\<close>

end
